(* ===== verification/Prelude.thy ===== *)
theory Prelude
  imports Main "HOL-Library.Word" "HOL-Library.Signed_Division"
begin

text \<open>
  The vocabulary every component shares: the machine types of the C sources as word and
  integer types, C's integer conversions, the bit-level facts about words that the page-table
  and trap proofs rest on, and the collections of rules the components add to.

  A \<open>uint64_t\<close> is a \<open>u64\<close>; a C \<open>int\<close> is an \<open>int\<close> that stays in the 32-bit
  range, with \<open>wrap32\<close> written at every operation that can leave it.
\<close>

unbundle bit_operations_syntax

type_synonym u8 = "8 word"
type_synonym u16 = "16 word"
type_synonym u32 = "32 word"
type_synonym u64 = "64 word"
type_synonym c_int = int

text \<open>Collections: constants of the platform header, bit positions of named flags, and what an
  operation leaves unchanged.\<close>

named_theorems platform_consts
named_theorems flag_bits
named_theorems frame

section \<open>C integers\<close>

definition wrap32 :: "int \<Rightarrow> c_int" where
  "wrap32 x = signed_take_bit 31 x"

definition c_int_range :: "int \<Rightarrow> bool" where
  "c_int_range x \<longleftrightarrow> - (2 ^ 31) \<le> x \<and> x < 2 ^ 31"

definition int_of_u64 :: "u64 \<Rightarrow> c_int" where
  "int_of_u64 w = wrap32 (uint w)"

definition u64_of_int :: "c_int \<Rightarrow> u64" where
  "u64_of_int x = word_of_int x"

definition inc32 :: "c_int \<Rightarrow> c_int" where
  "inc32 x = wrap32 (x + 1)"

lemma wrap32_id [simp]: "c_int_range x \<Longrightarrow> wrap32 x = x"
  by (simp add: wrap32_def c_int_range_def signed_take_bit_int_eq_self_iff)

lemma wrap32_range [simp]: "c_int_range (wrap32 x)"
  unfolding wrap32_def c_int_range_def
  using signed_take_bit_int_greater_eq_minus_exp [of 31 x] signed_take_bit_int_less_exp [of 31 x]
  by simp

lemma wrap32_small [simp]: "0 \<le> x \<Longrightarrow> x < 2147483648 \<Longrightarrow> wrap32 x = x"
  by (rule wrap32_id) (simp add: c_int_range_def)

lemma inc32_small [simp]: "0 \<le> x \<Longrightarrow> x < 2147483647 \<Longrightarrow> inc32 x = x + 1"
  by (simp add: inc32_def)

lemma int_of_u64_small: "w < 0x80000000 \<Longrightarrow> int_of_u64 w = uint w"
  by (simp add: int_of_u64_def word_less_def)

lemma sint_u64_of_int: "c_int_range x \<Longrightarrow> sint (u64_of_int x) = x"
  unfolding u64_of_int_def sint_sbintrunc' c_int_range_def
  by (rule signed_take_bit_int_eq_self) auto

lemma u64_of_int_inj:
  "c_int_range x \<Longrightarrow> c_int_range y \<Longrightarrow> u64_of_int x = u64_of_int y \<Longrightarrow> x = y"
  by (metis sint_u64_of_int)

section \<open>Words and bits\<close>

lemma word_bits_eq_iff: "(a :: 'a::len word) = b \<longleftrightarrow> (\<forall>n < LENGTH('a). bit a n = bit b n)"
  by (auto intro: bit_word_eqI)

lemma bit_numeral_one [simp]: "bit (1 :: 'a::len word) n \<longleftrightarrow> n = 0"
  by (simp add: bit_1_iff)

lemma and_power2_eq_0_iff:
  "(w :: 'a::len word) AND 2 ^ n = 0 \<longleftrightarrow> \<not> bit w n"
  using bit_imp_le_length [of w n] by (auto simp: word_bits_eq_iff bit_simps)

lemma mask9_u64: "(0x1FF :: u64) = mask 9"
  by (simp add: mask_eq_exp_minus_1)

lemma or_zero_iff [simp]: "(a :: 'a::len word) OR b = 0 \<longleftrightarrow> a = 0 \<and> b = 0"
  by (auto simp: word_bits_eq_iff bit_simps)

lemma drop_bit_0_bit: "drop_bit k (w :: 'a::len word) = 0 \<Longrightarrow> k \<le> n \<Longrightarrow> \<not> bit w n"
proof -
  assume z: "drop_bit k w = 0" and n: "k \<le> n"
  from n have "bit (drop_bit k w) (n - k) = bit w n" by (simp add: bit_drop_bit_eq)
  with z show "\<not> bit w n" by simp
qed

lemma drop_bit_0I: "(\<And>n. k \<le> n \<Longrightarrow> \<not> bit (w :: 'a::len word) n) \<Longrightarrow> drop_bit k w = 0"
  by (rule bit_word_eqI) (simp add: bit_drop_bit_eq)

text \<open>Page-aligned addresses and the eight-byte slots of a table.\<close>

definition page_aligned :: "u64 \<Rightarrow> bool" where
  "page_aligned a \<longleftrightarrow> take_bit 12 a = 0"

lemma page_aligned_bit: "page_aligned a \<Longrightarrow> n < 12 \<Longrightarrow> \<not> bit a n"
  unfolding page_aligned_def by (auto simp: word_bits_eq_iff bit_simps)

lemma page_alignedI: "(\<And>n. n < 12 \<Longrightarrow> \<not> bit a n) \<Longrightarrow> page_aligned a"
  unfolding page_aligned_def by (auto simp: word_bits_eq_iff bit_simps)

end
