(* ===== verification/Run.thy ===== *)
theory Run
  imports Prelude
begin

text \<open>
  How a C statement ends. \<open>Ret s\<close>: control reaches the next statement with state \<open>s\<close>;
  \<open>Halt s\<close>: the hart has entered one of the sources' endless \<open>wfi\<close> loops after a verdict
  and stays there with \<open>s\<close>; \<open>Hang\<close>: a polling loop never sees its condition. \<open>block\<close> is a
  sequence of statements: the first that does not return ends it.
\<close>

datatype 's run = Ret (ret_state: 's) | Halt 's | Hang

primrec block :: "('s \<Rightarrow> 's run) list \<Rightarrow> 's \<Rightarrow> 's run" where
  "block [] s = Ret s"
| "block (f # fs) s = (case f s of Ret s' \<Rightarrow> block fs s' | r \<Rightarrow> r)"

definition skip :: "'s \<Rightarrow> 's run" where
  "skip s = Ret s"

definition exec :: "('s \<Rightarrow> 's) \<Rightarrow> 's \<Rightarrow> 's run" where
  "exec f s = Ret (f s)"

definition if_do :: "bool \<Rightarrow> ('s \<Rightarrow> 's run) \<Rightarrow> 's \<Rightarrow> 's run" where
  "if_do b f = (if b then f else skip)"

text \<open>A statement that acts on a part of the state.\<close>

definition on_part :: "('s \<Rightarrow> 'd) \<Rightarrow> ('d \<Rightarrow> 's \<Rightarrow> 's) \<Rightarrow> ('d \<Rightarrow> 'd run) \<Rightarrow> 's \<Rightarrow> 's run" where
  "on_part get put f s =
     (case f (get s) of Ret d \<Rightarrow> Ret (put d s) | Halt d \<Rightarrow> Halt (put d s) | Hang \<Rightarrow> Hang)"

definition of_option :: "'s option \<Rightarrow> 's run" where
  "of_option r = (case r of None \<Rightarrow> Hang | Some s \<Rightarrow> Ret s)"

lemma block_append:
  "block (fs @ gs) s = (case block fs s of Ret s' \<Rightarrow> block gs s' | r \<Rightarrow> r)"
  by (induction fs arbitrary: s) (simp_all split: run.splits)

lemma run_simps [simp]:
  "skip s = Ret s" "exec f s = Ret (f s)" "if_do True g = g" "if_do False g = skip"
  "of_option (Some s) = Ret s" "of_option None = Hang"
  by (simp_all add: skip_def exec_def if_do_def of_option_def)

lemma on_part_Ret: "f (get s) = Ret d \<Longrightarrow> on_part get put f s = Ret (put d s)"
  by (simp add: on_part_def)

lemma on_part_Halt: "f (get s) = Halt d \<Longrightarrow> on_part get put f s = Halt (put d s)"
  by (simp add: on_part_def)

lemma on_part_block:
  assumes "\<And>d s. get (put d s) = d" "\<And>d d' s. put d (put d' s) = put d s" "\<And>s. put (get s) s = s"
  shows "block (map (on_part get put) fs) s = on_part get put (block fs) s"
proof (induction fs arbitrary: s)
  case Nil
  then show ?case using assms(3) by (simp add: on_part_def)
next
  case (Cons f fs)
  show ?case
  proof (cases "f (get s)")
    case (Ret d)
    then show ?thesis using Cons [of "put d s"] assms(1,2)
      by (auto simp: on_part_def split: run.splits)
  qed (simp_all add: on_part_def)
qed

text \<open>Invariants of statement sequences.\<close>

lemma block_inv:
  assumes "\<And>f s s'. f \<in> set fs \<Longrightarrow> P s \<Longrightarrow> f s = Ret s' \<Longrightarrow> P s'" "P s" "block fs s = Ret s'"
  shows "P s'"
  using assms by (induction fs arbitrary: s) (auto split: run.splits)


text \<open>A loop whose body keeps an invariant and always returns.\<close>

lemma block_loop:
  assumes "\<And>x s. x \<in> set xs \<Longrightarrow> P s \<Longrightarrow> \<exists>s'. f x s = Ret s' \<and> P s'" "P s"
  shows "\<exists>s'. block (map f xs) s = Ret s' \<and> P s'"
  using assms
proof (induction xs arbitrary: s)
  case (Cons x xs)
  from Cons.prems(1) [of x s] Cons.prems(2) obtain s1 where s1: "f x s = Ret s1" "P s1" by auto
  with Cons.IH [OF _ s1(2)] Cons.prems(1) show ?case by simp
qed simp

lemma block_upto:
  assumes "\<And>i s. i < n \<Longrightarrow> P i s \<Longrightarrow> \<exists>s'. f i s = Ret s' \<and> P (Suc i) s'"
  shows "i \<le> n \<Longrightarrow> P i s \<Longrightarrow> \<exists>s'. block (map f [i..<n]) s = Ret s' \<and> P n s'"
proof (induction "n - i" arbitrary: i s)
  case (Suc d)
  then have i: "i < n" and d: "d = n - Suc i" by auto
  from assms [OF i Suc.prems(2)] obtain s1 where s1: "f i s = Ret s1" "P (Suc i) s1" by blast
  from Suc.hyps(1) [OF d _ s1(2)] i s1(1) show ?case by (simp add: upt_conv_Cons)
qed simp

text \<open>The last statement of a sequence decides how it ends.\<close>

lemma block_single [simp]: "block [f] s = f s"
  by (cases "f s") simp_all

lemma block_Cons2 [simp]: "block (f # g # fs) s = (case f s of Ret s' \<Rightarrow> block (g # fs) s' | r \<Rightarrow> r)"
  by simp

lemmas block_Cons = block.simps(2)

declare block.simps(2) [simp del]

end
