(* ===== verification/Platform.thy ===== *)
theory Platform
  imports Prelude
begin

text \<open>
  The constants of \<^verbatim>\<open>rv64gcv-baremetal-testsuite-main/common/platform.h\<close> that the modelled
  code uses, one definition per \<^verbatim>\<open>#define\<close>, all in the collection
  \<open>platform_consts\<close>, and the bit positions of the flag constants.
\<close>

section \<open>The memory map: SRAM, the CLINT, UART0, HTIF, the core count\<close>

definition SRAM_SIZE :: "u64" where [platform_consts]:
  "SRAM_SIZE = 0x00200000"

definition SRAM_BASE :: "u64" where [platform_consts]:
  "SRAM_BASE = 0x80000000"

definition SRAM_END :: "u64" where [platform_consts]:
  "SRAM_END = SRAM_BASE + SRAM_SIZE"

definition CLINT_BASE :: "u64" where [platform_consts]:
  "CLINT_BASE = 0x02000000"

definition CLINT_MSIP :: "u64 \<Rightarrow> u64" where [platform_consts]:
  "CLINT_MSIP hart = CLINT_BASE + 0x0000 + hart * 4"

definition CLINT_MTIMECMP :: "u64 \<Rightarrow> u64" where [platform_consts]:
  "CLINT_MTIMECMP hart = CLINT_BASE + 0x4000 + hart * 8"

definition CLINT_MTIME :: "u64" where [platform_consts]:
  "CLINT_MTIME = CLINT_BASE + 0xBFF8"

definition UART0_BASE :: "u64" where [platform_consts]:
  "UART0_BASE = 0x10000000"

definition UART0_LSR_THRE :: "u32" where [platform_consts]:
  "UART0_LSR_THRE = push_bit 5 1"

definition HTIF_TOHOST :: "u64" where [platform_consts]:
  "HTIF_TOHOST = SRAM_END - 0x1000"

definition HTIF_FROMHOST :: "u64" where [platform_consts]:
  "HTIF_FROMHOST = SRAM_END - 0x0FF8"

definition NUM_HARTS :: "u64" where [platform_consts]:
  "NUM_HARTS = 2"

section \<open>Sv39: page sizes, PTE bits, satp modes\<close>

definition PGSHIFT :: "nat" where [platform_consts]:
  "PGSHIFT = 12"

definition PGSIZE :: "u64" where [platform_consts]:
  "PGSIZE = push_bit PGSHIFT 1"

definition MEGAPAGE_SIZE :: "u64" where [platform_consts]:
  "MEGAPAGE_SIZE = PGSIZE * 512"

definition GIGAPAGE_SIZE :: "u64" where [platform_consts]:
  "GIGAPAGE_SIZE = MEGAPAGE_SIZE * 512"

definition PTES_PER_PT :: "c_int" where [platform_consts]:
  "PTES_PER_PT = 512"

definition PTE_PPN_SHIFT :: "nat" where [platform_consts]:
  "PTE_PPN_SHIFT = 10"

definition PTE_V :: "u64" where [platform_consts]:
  "PTE_V = 0x001"

definition PTE_R :: "u64" where [platform_consts]:
  "PTE_R = 0x002"

definition PTE_W :: "u64" where [platform_consts]:
  "PTE_W = 0x004"

definition PTE_X :: "u64" where [platform_consts]:
  "PTE_X = 0x008"

definition PTE_U :: "u64" where [platform_consts]:
  "PTE_U = 0x010"

definition PTE_G :: "u64" where [platform_consts]:
  "PTE_G = 0x020"

definition PTE_A :: "u64" where [platform_consts]:
  "PTE_A = 0x040"

definition PTE_D :: "u64" where [platform_consts]:
  "PTE_D = 0x080"

definition SATP_MODE_SV39 :: "u64" where [platform_consts]:
  "SATP_MODE_SV39 = 8"

definition SATP_MODE_SHIFT :: "nat" where [platform_consts]:
  "SATP_MODE_SHIFT = 60"

section \<open>Exception and interrupt causes\<close>

definition CAUSE_ILLEGAL_INST :: "u64" where [platform_consts]:
  "CAUSE_ILLEGAL_INST = 2"

definition CAUSE_ECALL_SMODE :: "u64" where [platform_consts]:
  "CAUSE_ECALL_SMODE = 9"

definition CAUSE_INST_PAGE_FAULT :: "u64" where [platform_consts]:
  "CAUSE_INST_PAGE_FAULT = 12"

definition CAUSE_LOAD_PAGE_FAULT :: "u64" where [platform_consts]:
  "CAUSE_LOAD_PAGE_FAULT = 13"

definition CAUSE_STORE_PAGE_FAULT :: "u64" where [platform_consts]:
  "CAUSE_STORE_PAGE_FAULT = 15"

definition IRQ_S_SOFT :: "u64" where [platform_consts]:
  "IRQ_S_SOFT = 1"

definition IRQ_M_SOFT :: "u64" where [platform_consts]:
  "IRQ_M_SOFT = 3"

definition IRQ_S_TIMER :: "u64" where [platform_consts]:
  "IRQ_S_TIMER = 5"

definition IRQ_M_TIMER :: "u64" where [platform_consts]:
  "IRQ_M_TIMER = 7"

definition IRQ_S_EXT :: "u64" where [platform_consts]:
  "IRQ_S_EXT = 9"

section \<open>Status and interrupt bits, SBI function numbers\<close>

definition MSTATUS_SIE :: "u64" where [platform_consts]:
  "MSTATUS_SIE = push_bit 1 1"

definition MSTATUS_MIE :: "u64" where [platform_consts]:
  "MSTATUS_MIE = push_bit 3 1"

definition MSTATUS_SPIE :: "u64" where [platform_consts]:
  "MSTATUS_SPIE = push_bit 5 1"

definition MSTATUS_MPIE :: "u64" where [platform_consts]:
  "MSTATUS_MPIE = push_bit 7 1"

definition MSTATUS_SPP :: "u64" where [platform_consts]:
  "MSTATUS_SPP = push_bit 8 1"

definition MSTATUS_MPP_MASK :: "u64" where [platform_consts]:
  "MSTATUS_MPP_MASK = push_bit 11 3"

definition MSTATUS_MPP_S :: "u64" where [platform_consts]:
  "MSTATUS_MPP_S = push_bit 11 1"

definition MSTATUS_SUM :: "u64" where [platform_consts]:
  "MSTATUS_SUM = push_bit 18 1"

definition MSTATUS_MXR :: "u64" where [platform_consts]:
  "MSTATUS_MXR = push_bit 19 1"

definition MIP_SSIP :: "u64" where [platform_consts]:
  "MIP_SSIP = push_bit 1 1"

definition MIP_MSIP :: "u64" where [platform_consts]:
  "MIP_MSIP = push_bit 3 1"

definition MIP_STIP :: "u64" where [platform_consts]:
  "MIP_STIP = push_bit 5 1"

definition MIP_MTIP :: "u64" where [platform_consts]:
  "MIP_MTIP = push_bit 7 1"

definition MIP_SEIP :: "u64" where [platform_consts]:
  "MIP_SEIP = push_bit 9 1"

definition SIP_SSIP :: "u64" where [platform_consts]:
  "SIP_SSIP = MIP_SSIP"

definition SIP_STIP :: "u64" where [platform_consts]:
  "SIP_STIP = MIP_STIP"

definition SIP_SEIP :: "u64" where [platform_consts]:
  "SIP_SEIP = MIP_SEIP"

definition SBI_SET_TIMER :: "u64" where [platform_consts]:
  "SBI_SET_TIMER = 0"

definition SBI_SEND_IPI :: "u64" where [platform_consts]:
  "SBI_SEND_IPI = 1"

definition SBI_CLEAR_IPI :: "u64" where [platform_consts]:
  "SBI_CLEAR_IPI = 2"

section \<open>Bit positions\<close>

text \<open>Every flag is one bit: as a power of two, and as the only position where it is set.\<close>

lemma flag_powers:
  "PTE_V = 2 ^ 0"
  "PTE_R = 2 ^ 1"
  "PTE_W = 2 ^ 2"
  "PTE_X = 2 ^ 3"
  "PTE_U = 2 ^ 4"
  "PTE_G = 2 ^ 5"
  "PTE_A = 2 ^ 6"
  "PTE_D = 2 ^ 7"
  "MSTATUS_SIE = 2 ^ 1"
  "MSTATUS_SPIE = 2 ^ 5"
  "MSTATUS_SPP = 2 ^ 8"
  "MSTATUS_SUM = 2 ^ 18"
  "MSTATUS_MXR = 2 ^ 19"
  "MIP_SSIP = 2 ^ 1"
  "MIP_MSIP = 2 ^ 3"
  "MIP_STIP = 2 ^ 5"
  "MIP_MTIP = 2 ^ 7"
  "MIP_SEIP = 2 ^ 9"
  by (simp_all add: platform_consts push_bit_eq_mult)

lemma bit_flags [flag_bits]:
  "bit PTE_V n \<longleftrightarrow> n = 0"
  "bit PTE_R n \<longleftrightarrow> n = 1"
  "bit PTE_W n \<longleftrightarrow> n = 2"
  "bit PTE_X n \<longleftrightarrow> n = 3"
  "bit PTE_U n \<longleftrightarrow> n = 4"
  "bit PTE_G n \<longleftrightarrow> n = 5"
  "bit PTE_A n \<longleftrightarrow> n = 6"
  "bit PTE_D n \<longleftrightarrow> n = 7"
  "bit MSTATUS_SIE n \<longleftrightarrow> n = 1"
  "bit MSTATUS_SPIE n \<longleftrightarrow> n = 5"
  "bit MSTATUS_SPP n \<longleftrightarrow> n = 8"
  "bit MSTATUS_SUM n \<longleftrightarrow> n = 18"
  "bit MSTATUS_MXR n \<longleftrightarrow> n = 19"
  "bit MIP_SSIP n \<longleftrightarrow> n = 1"
  "bit MIP_MSIP n \<longleftrightarrow> n = 3"
  "bit MIP_STIP n \<longleftrightarrow> n = 5"
  "bit MIP_MTIP n \<longleftrightarrow> n = 7"
  "bit MIP_SEIP n \<longleftrightarrow> n = 9"
  by (simp_all only: flag_powers bit_exp_iff possible_bit_word) auto

lemma and_flags [flag_bits]:
  "w AND PTE_V = 0 \<longleftrightarrow> \<not> bit w 0"
  "w AND PTE_R = 0 \<longleftrightarrow> \<not> bit w 1"
  "w AND PTE_W = 0 \<longleftrightarrow> \<not> bit w 2"
  "w AND PTE_X = 0 \<longleftrightarrow> \<not> bit w 3"
  "w AND PTE_U = 0 \<longleftrightarrow> \<not> bit w 4"
  "w AND PTE_G = 0 \<longleftrightarrow> \<not> bit w 5"
  "w AND PTE_A = 0 \<longleftrightarrow> \<not> bit w 6"
  "w AND PTE_D = 0 \<longleftrightarrow> \<not> bit w 7"
  "w AND MSTATUS_SIE = 0 \<longleftrightarrow> \<not> bit w 1"
  "w AND MSTATUS_SPIE = 0 \<longleftrightarrow> \<not> bit w 5"
  "w AND MSTATUS_SPP = 0 \<longleftrightarrow> \<not> bit w 8"
  "w AND MSTATUS_SUM = 0 \<longleftrightarrow> \<not> bit w 18"
  "w AND MSTATUS_MXR = 0 \<longleftrightarrow> \<not> bit w 19"
  "w AND MIP_SSIP = 0 \<longleftrightarrow> \<not> bit w 1"
  "w AND MIP_MSIP = 0 \<longleftrightarrow> \<not> bit w 3"
  "w AND MIP_STIP = 0 \<longleftrightarrow> \<not> bit w 5"
  "w AND MIP_MTIP = 0 \<longleftrightarrow> \<not> bit w 7"
  "w AND MIP_SEIP = 0 \<longleftrightarrow> \<not> bit w 9"
  by (simp_all only: flag_powers and_power2_eq_0_iff)

end
