(* ===== verification/Device.thy ===== *)
theory Device
  imports Run Platform
begin

text \<open>
  The character and verdict devices as the code polls them. The UART's line status register and
  the HTIF host are environments: streams of what successive reads will find. \<open>uart_putc\<close> of
  \<^verbatim>\<open>smode.c\<close> (both sides of its \<open>SPIKE_BUILD\<close> conditional) and \<open>htif_write\<close> are
  polling loops over them; a device that never becomes ready is the result \<open>Hang\<close>.
\<close>

text \<open>
  \<open>lsr_in\<close>: what the future reads of the line status register return. \<open>thr_out\<close>: what was
  written to the transmit register. \<open>host_in\<close>: at each future read of \<open>tohost\<close>, whether the
  host has just taken the pending command and, if so, what it left in \<open>fromhost\<close>.
  \<open>host_log\<close>: the commands it took.
\<close>

record devices =
  spike_build :: bool
  lsr_in :: "nat \<Rightarrow> u32"
  thr_out :: "u32 list"
  tohost :: u64
  fromhost :: u64
  host_in :: "nat \<Rightarrow> u64 option"
  host_log :: "u64 list"

section \<open>The code\<close>

definition uchar :: "char \<Rightarrow> nat" where
  "uchar c = of_char c"

definition read_lsr :: "devices \<Rightarrow> u32 \<times> devices" where
  "read_lsr d = (lsr_in d 0, d\<lparr>lsr_in := (\<lambda>n. lsr_in d (Suc n))\<rparr>)"

definition read_tohost :: "devices \<Rightarrow> u64 \<times> devices" where
  "read_tohost d =
     (let d' = d\<lparr>host_in := (\<lambda>n. host_in d (Suc n))\<rparr>
      in case host_in d 0 of
           None \<Rightarrow> (tohost d, d')
         | Some v \<Rightarrow> if tohost d = 0 then (0, d')
             else (0, d'\<lparr>tohost := 0, fromhost := v, host_log := host_log d @ [tohost d]\<rparr>))"

partial_function (option) poll_thre :: "devices \<Rightarrow> devices option" where
  "poll_thre d = (case read_lsr d of (v, d') \<Rightarrow> if v AND UART0_LSR_THRE = 0 then poll_thre d' else Some d')"

partial_function (option) poll_tohost :: "(devices \<Rightarrow> devices) \<Rightarrow> devices \<Rightarrow> devices option" where
  "poll_tohost body d = (case read_tohost d of (v, d') \<Rightarrow> if v \<noteq> 0 then poll_tohost body (body d') else Some d')"

definition uart_putc_16550 :: "char \<Rightarrow> devices \<Rightarrow> devices run" where
  "uart_putc_16550 c = block
     [\<lambda>d. of_option (poll_thre d),
      exec (\<lambda>d. d\<lparr>thr_out := thr_out d @ [of_nat (uchar c)]\<rparr>)]"

definition uart_putc_spike :: "char \<Rightarrow> devices \<Rightarrow> devices run" where
  "uart_putc_spike c = block
     [\<lambda>d. of_option (poll_tohost id d),
      exec (\<lambda>d. d\<lparr>tohost := push_bit 56 1 OR push_bit 48 1 OR of_nat (uchar c)\<rparr>),
      \<lambda>d. of_option (poll_tohost id d),
      exec (\<lambda>d. if fromhost d \<noteq> 0 then d\<lparr>fromhost := 0\<rparr> else d)]"

definition dev_putc :: "char \<Rightarrow> devices \<Rightarrow> devices run" where
  "dev_putc c d = (if spike_build d then uart_putc_spike c d else uart_putc_16550 c d)"

definition htif_write :: "u64 \<Rightarrow> devices \<Rightarrow> devices run" where
  "htif_write val = block
     [\<lambda>d. of_option (poll_tohost (\<lambda>d. d\<lparr>fromhost := 0\<rparr>) d),
      exec (\<lambda>d. d\<lparr>tohost := val\<rparr>)]"

section \<open>The polling loops end when the device answers\<close>

lemma poll_thre_ready:
  "lsr_in d n AND UART0_LSR_THRE \<noteq> 0 \<Longrightarrow>
   \<exists>k. poll_thre d = Some (d\<lparr>lsr_in := (\<lambda>i. lsr_in d (i + k))\<rparr>)"
proof (induction n arbitrary: d)
  case 0
  then show ?case
    by (intro exI [of _ 1]) (simp add: poll_thre.simps [of d] read_lsr_def)
next
  case (Suc n)
  let ?d = "d\<lparr>lsr_in := (\<lambda>n. lsr_in d (Suc n))\<rparr>"
  show ?case
  proof (cases "lsr_in d 0 AND UART0_LSR_THRE = 0")
    case True
    from Suc.IH [of ?d] Suc.prems obtain k
      where "poll_thre ?d = Some (?d\<lparr>lsr_in := (\<lambda>i. lsr_in ?d (i + k))\<rparr>)" by auto
    with True show ?thesis
      by (intro exI [of _ "Suc k"]) (simp add: poll_thre.simps [of d] read_lsr_def)
  next
    case False
    then show ?thesis
      by (intro exI [of _ 1]) (simp add: poll_thre.simps [of d] read_lsr_def)
  qed
qed

text \<open>A device that never raises THRE keeps \<open>uart_putc\<close> forever.\<close>

lemma poll_thre_never:
  assumes "\<And>n. lsr_in d n AND UART0_LSR_THRE = 0"
  shows "poll_thre d = None"
proof -
  have "\<exists>n. lsr_in d n AND UART0_LSR_THRE \<noteq> 0" if "poll_thre d = Some y" for d y
  proof (rule poll_thre.raw_induct [OF _ that])
    fix f d r
    assume ih: "\<And>d y. f d = Some y \<Longrightarrow> \<exists>n. lsr_in d n AND UART0_LSR_THRE \<noteq> 0"
      and r: "(case read_lsr d of (v, d') \<Rightarrow> if v AND UART0_LSR_THRE = 0 then f d' else Some d') = Some r"
    show "\<exists>n. lsr_in d n AND UART0_LSR_THRE \<noteq> 0"
    proof (cases "lsr_in d 0 AND UART0_LSR_THRE = 0")
      case True
      with r have "f (d\<lparr>lsr_in := (\<lambda>n. lsr_in d (Suc n))\<rparr>) = Some r" by (simp add: read_lsr_def)
      from ih [OF this] show ?thesis by auto
    qed blast
  qed
  with assms show ?thesis by (cases "poll_thre d") auto
qed


lemma poll_tohost_ready:
  assumes body: "\<And>d. \<exists>v. body d = d\<lparr>fromhost := v\<rparr>"
  shows "host_in d n \<noteq> None \<Longrightarrow>
   \<exists>k v. poll_tohost body d = Some (d\<lparr>host_in := (\<lambda>i. host_in d (i + k)), tohost := 0, fromhost := v,
     host_log := host_log d @ (if tohost d = 0 then [] else [tohost d])\<rparr>)"
proof (induction n arbitrary: d)
  case 0
  then obtain v where "host_in d 0 = Some v" by auto
  then show ?case
    by (intro exI [of _ 1] exI [of _ "if tohost d = 0 then fromhost d else v"])
      (simp add: poll_tohost.simps [of _ d] read_tohost_def)
next
  case (Suc n)
  let ?d = "d\<lparr>host_in := (\<lambda>n. host_in d (Suc n))\<rparr>"
  obtain w where w: "body ?d = ?d\<lparr>fromhost := w\<rparr>" using body by blast
  show ?case
  proof (cases "host_in d 0 = None \<and> tohost d \<noteq> 0")
    case True
    from Suc.IH [of "body ?d"] Suc.prems obtain k v
      where "poll_tohost body (body ?d) = Some ((body ?d)\<lparr>host_in := (\<lambda>i. host_in (body ?d) (i + k)), tohost := 0,
        fromhost := v, host_log := host_log d @ [tohost d]\<rparr>)" using True by (auto simp: w)
    with True show ?thesis
      by (intro exI [of _ "Suc k"] exI [of _ v]) (simp add: poll_tohost.simps [of _ d] read_tohost_def w)
  next
    case False
    then show ?thesis
      by (intro exI [of _ 1] exI [of _ "case host_in d 0 of None \<Rightarrow> fromhost d | Some v \<Rightarrow> if tohost d = 0 then fromhost d else v"])
        (auto simp: poll_tohost.simps [of _ d] read_tohost_def split: option.splits)
  qed
qed

section \<open>Characters come out in order\<close>

definition is_putchar :: "u64 \<Rightarrow> bool" where
  "is_putchar cmd \<longleftrightarrow> drop_bit 48 cmd = 0x0101"

definition console_text :: "devices \<Rightarrow> string" where
  "console_text d =
     (if spike_build d then map (\<lambda>w. char_of (unat w)) (filter is_putchar (host_log d))
      else map (\<lambda>w. char_of (unat w)) (thr_out d))"

definition dev_ok :: "devices \<Rightarrow> bool" where
  "dev_ok d \<longleftrightarrow> (\<forall>n. \<exists>m. lsr_in d (n + m) AND UART0_LSR_THRE \<noteq> 0) \<and>
     (\<forall>n. \<exists>m. host_in d (n + m) \<noteq> None) \<and> (spike_build d \<longrightarrow> tohost d = 0)"

lemma dev_ok_shift:
  "dev_ok d \<Longrightarrow> dev_ok (d\<lparr>lsr_in := (\<lambda>i. lsr_in d (i + k))\<rparr>)"
  "dev_ok d \<Longrightarrow> dev_ok (d\<lparr>thr_out := x\<rparr>)"
  "dev_ok d \<Longrightarrow> dev_ok (d\<lparr>host_in := (\<lambda>i. host_in d (i + k)), tohost := 0, fromhost := v, host_log := l\<rparr>)"
  by (auto simp: dev_ok_def add.assoc add.left_commute) (metis add.commute add.left_commute)+


text \<open>What the printing code relies on from a character device: in a good state a character
  returns, is appended to the text, leaves the state good and keeps the rest.\<close>

locale char_sink =
  fixes putc :: "char \<Rightarrow> 'd \<Rightarrow> 'd run"
    and shown :: "'d \<Rightarrow> string"
    and ok :: "'d \<Rightarrow> bool"
    and kept :: "'d \<Rightarrow> 'k"
  assumes putc_ret: "ok d \<Longrightarrow> \<exists>d'. putc c d = Ret d' \<and> ok d' \<and> shown d' = shown d @ [c] \<and> kept d' = kept d"
begin

definition emit :: "string \<Rightarrow> 'd \<Rightarrow> 'd" where
  "emit cs d = ret_state (block (map putc cs) d)"

lemma emit_all:
  "ok d \<Longrightarrow> block (map putc cs) d = Ret (emit cs d) \<and> ok (emit cs d) \<and> shown (emit cs d) = shown d @ cs \<and>
     kept (emit cs d) = kept d"
proof (induction cs arbitrary: d)
  case (Cons c cs)
  from putc_ret [OF Cons.prems, of c] obtain d'
    where d': "putc c d = Ret d'" "ok d'" "shown d' = shown d @ [c]" "kept d' = kept d" by blast
  with Cons.IH [of d'] show ?case by (simp add: emit_def block_Cons)
qed (simp add: emit_def)

lemma emit_put: "ok d \<Longrightarrow> block (map putc cs) d = Ret (emit cs d)"
  and emit_ok: "ok d \<Longrightarrow> ok (emit cs d)"
  and emit_shown: "ok d \<Longrightarrow> shown (emit cs d) = shown d @ cs"
  and emit_kept: "ok d \<Longrightarrow> kept (emit cs d) = kept d"
  by (simp_all add: emit_all)

lemma emit_putc: "ok d \<Longrightarrow> putc c d = Ret (emit [c] d)"
  using emit_put [of d "[c]"] by (simp split: run.splits)

lemma emit_Nil: "emit [] d = d"
  by (simp add: emit_def)

lemma emit_append: "ok d \<Longrightarrow> emit ds (emit cs d) = emit (cs @ ds) d"
  using emit_put [of d cs] emit_put [of d "cs @ ds"] emit_put [OF emit_ok [of d cs], of ds]
  by (simp add: block_append)

end

lemma char_of_uchar [simp]: "char_of (uchar c) = c"
  by (simp add: uchar_def)

lemma uchar_less: "uchar c < 256"
  by (simp add: uchar_def)

lemma unat_uchar [simp]: "unat (of_nat (uchar c) :: u32) = uchar c" "unat (of_nat (uchar c) :: u64) = uchar c"
  using uchar_less [of c] by (simp_all add: unat_of_nat)

lemma putchar_cmd:
  fixes c :: char
  defines "w \<equiv> push_bit 56 1 OR push_bit 48 1 OR of_nat (uchar c) :: u64"
  shows "is_putchar w" "char_of (unat w) = c" "w \<noteq> 0"
proof -
  let ?u = "of_nat (uchar c) :: u64"
  have b: "\<not> bit ?u n" if "8 \<le> n" for n
  proof -
    have "take_bit 8 (uchar c) = uchar c" using uchar_less [of c] by (simp add: take_bit_nat_eq_self_iff)
    then have "\<not> bit (uchar c) n" using that by (metis bit_take_bit_iff leD)
    then show ?thesis by (simp add: bit_of_nat_iff)
  qed
  have "drop_bit 48 ?u = 0" by (rule drop_bit_0I) (use b in auto)
  then show "is_putchar w"
    unfolding is_putchar_def w_def drop_bit_or by (simp add: push_bit_eq_mult)
  have "take_bit 8 w = take_bit 8 ?u"
    by (rule bit_word_eqI) (auto simp: w_def bit_simps)
  then have "unat (take_bit 8 w) = unat (take_bit 8 ?u)" by simp
  then have "unat w mod 256 = uchar c"
    unfolding unsigned_take_bit_eq using uchar_less [of c] by (simp add: take_bit_eq_mod)
  then show "char_of (unat w) = c" by (metis char_of_mod_256 char_of_uchar)
  have "bit w 56" by (simp add: w_def bit_simps)
  then show "w \<noteq> 0" by auto
qed


text \<open>Printing leaves the verdict channel alone.\<close>

definition verdict_side :: "devices \<Rightarrow> bool \<times> u64 \<times> u64 list" where
  "verdict_side d = (spike_build d, tohost d, filter (\<lambda>w. \<not> is_putchar w) (host_log d))"

interpretation uart: char_sink uart_putc_16550 console_text "\<lambda>d. dev_ok d \<and> \<not> spike_build d" verdict_side
proof
  fix d c assume ok: "dev_ok d \<and> \<not> spike_build d"
  then obtain n where "lsr_in d n AND UART0_LSR_THRE \<noteq> 0" unfolding dev_ok_def by (metis add_0)
  from poll_thre_ready [OF this] obtain k where "poll_thre d = Some (d\<lparr>lsr_in := (\<lambda>i. lsr_in d (i + k))\<rparr>)" ..
  with ok show "\<exists>d'. uart_putc_16550 c d = Ret d' \<and> (dev_ok d' \<and> \<not> spike_build d') \<and>
      console_text d' = console_text d @ [c] \<and> verdict_side d' = verdict_side d"
    by (auto simp: uart_putc_16550_def console_text_def verdict_side_def intro: dev_ok_shift)
qed

interpretation spike: char_sink uart_putc_spike console_text "\<lambda>d. dev_ok d \<and> spike_build d" verdict_side
proof
  fix d c assume ok: "dev_ok d \<and> spike_build d"
  define w where "w = (push_bit 56 1 OR push_bit 48 1 OR of_nat (uchar c) :: u64)"
  note cmd = putchar_cmd [of c, folded w_def]
  have z: "tohost d = 0" and inf: "\<And>n. \<exists>m. host_in d (n + m) \<noteq> None" using ok by (auto simp: dev_ok_def)
  have body: "\<exists>v. id d = d\<lparr>fromhost := v\<rparr>" for d :: devices by (intro exI [of _ "fromhost d"]) simp
  from inf [of 0] obtain m where "host_in d m \<noteq> None" by auto
  from poll_tohost_ready [of id, OF body this] z obtain k v
    where 1: "poll_tohost id d = Some (d\<lparr>host_in := (\<lambda>i. host_in d (i + k)), tohost := 0, fromhost := v\<rparr>)"
    by auto
  let ?d1 = "d\<lparr>host_in := (\<lambda>i. host_in d (i + k)), fromhost := v, tohost := w\<rparr>"
  from inf [of k] obtain m where "host_in ?d1 m \<noteq> None" by (auto simp: add.commute)
  from poll_tohost_ready [of id, OF body this] obtain j v'
    where 2: "poll_tohost id ?d1 = Some (d\<lparr>host_in := (\<lambda>i. host_in d (i + j + k)), tohost := 0,
        fromhost := v', host_log := host_log d @ [w]\<rparr>)" using cmd by auto
  let ?d2 = "d\<lparr>host_in := (\<lambda>i. host_in d (i + j + k)), tohost := 0,
        host_log := host_log d @ [w], fromhost := 0\<rparr>"
  have fin: "(if fromhost x \<noteq> 0 then x\<lparr>fromhost := 0\<rparr> else x) = x\<lparr>fromhost := 0\<rparr>" for x :: devices
    by (cases x) simp
  have "uart_putc_spike c d = Ret ?d2"
    unfolding uart_putc_spike_def w_def [symmetric] fin using 1 2 by simp
  moreover have "dev_ok ?d2"
    using dev_ok_shift(3) [where d = d and k = "j + k" and v = 0 and l = "host_log d @ [w]"] ok by (simp add: dev_ok_def add.assoc)
  ultimately show "\<exists>d'. uart_putc_spike c d = Ret d' \<and> (dev_ok d' \<and> spike_build d') \<and>
      console_text d' = console_text d @ [c] \<and> verdict_side d' = verdict_side d"
    using ok z cmd by (auto simp: console_text_def verdict_side_def)
qed

interpretation console: char_sink dev_putc console_text dev_ok verdict_side
proof
  fix d c assume "dev_ok d"
  with uart.putc_ret [of d c] spike.putc_ret [of d c]
  show "\<exists>d'. dev_putc c d = Ret d' \<and> dev_ok d' \<and> console_text d' = console_text d @ [c] \<and>
      verdict_side d' = verdict_side d"
    by (cases "spike_build d") (auto simp: dev_putc_def)
qed

lemma htif_write_ret:
  assumes "dev_ok d"
  shows "\<exists>k v. htif_write val d = Ret (d\<lparr>host_in := (\<lambda>i. host_in d (i + k)), fromhost := v,
     host_log := host_log d @ (if tohost d = 0 then [] else [tohost d]), tohost := val\<rparr>)"
proof -
  from assms obtain n where n: "host_in d n \<noteq> None" unfolding dev_ok_def by (metis add_0)
  have body: "\<exists>v. d\<lparr>fromhost := 0\<rparr> = d\<lparr>fromhost := v\<rparr>" for d :: devices by blast
  from poll_tohost_ready [of "\<lambda>d. d\<lparr>fromhost := 0\<rparr>", OF body n] obtain k v
    where "poll_tohost (\<lambda>d. d\<lparr>fromhost := 0\<rparr>) d = Some (d\<lparr>host_in := (\<lambda>i. host_in d (i + k)), tohost := 0,
      fromhost := v, host_log := host_log d @ (if tohost d = 0 then [] else [tohost d])\<rparr>)" by blast
  then show ?thesis by (intro exI [of _ k] exI [of _ v]) (simp add: htif_write_def)
qed

end
