(* ===== verification/Memory.thy ===== *)
theory Memory
  imports Platform
begin

text \<open>
  Physical memory as the C code sees it through its pointers: a map from the byte address of an
  aligned 64-bit word to its contents. A \<open>uint64_t *\<close> is the address itself, \<open>&p[i]\<close> is
  \<open>slot p i\<close>; the few 16- and 32-bit accesses of the sources go through the enclosing word.
  Every component's state extends \<open>phys\<close>, so the operations here work on all of them.
\<close>

record phys =
  mem :: "u64 \<Rightarrow> u64"

definition st64 :: "u64 \<Rightarrow> u64 \<Rightarrow> 'z phys_scheme \<Rightarrow> 'z phys_scheme" where
  "st64 a v s = s\<lparr>mem := (mem s)(a := v)\<rparr>"

lemma mem_st64 [simp]: "mem (st64 a v s) = (mem s)(a := v)"
  by (simp add: st64_def)

definition ld16 :: "'z phys_scheme \<Rightarrow> u64 \<Rightarrow> u16" where
  "ld16 s a = ucast (drop_bit (8 * unat (a AND 7)) (mem s (a AND NOT 7)))"

definition st32 :: "u64 \<Rightarrow> u32 \<Rightarrow> 'z phys_scheme \<Rightarrow> 'z phys_scheme" where
  "st32 a v s =
     (let b = a AND NOT 7; k = 8 * unat (a AND 4)
      in st64 b ((mem s b AND NOT (push_bit k (mask 32))) OR push_bit k (ucast v)) s)"

definition slot :: "u64 \<Rightarrow> u64 \<Rightarrow> u64" where
  "slot p i = p + 8 * i"

section \<open>The slots of page-aligned tables are disjoint\<close>

lemma less_512_bit: "(i :: u64) < 512 \<Longrightarrow> bit i n \<Longrightarrow> n < 9"
proof -
  assume i: "i < 512" and b: "bit i n"
  from i have "take_bit 9 (unat i) = unat i"
    by (simp add: word_less_nat_alt take_bit_nat_eq_self_iff)
  moreover from b have "bit (unat i) n" by (simp add: bit_unsigned_iff)
  ultimately show "n < 9" by (metis bit_take_bit_iff)
qed

lemma slot_bits:
  assumes "page_aligned p" "i < 512"
  shows "bit (slot p i) n \<longleftrightarrow> (if n < 12 then 3 \<le> n \<and> bit i (n - 3) else bit p n)"
proof -
  have e: "8 * i = push_bit 3 i" by (simp add: push_bit_eq_mult)
  have i: "\<not> bit i (k - 3)" if "12 \<le> k" for k
    using less_512_bit [OF assms(2), of "k - 3"] that by fastforce
  have "p AND push_bit 3 i = 0"
  proof (rule bit_word_eqI)
    fix k show "bit (p AND push_bit 3 i) k = bit 0 k"
      using page_aligned_bit [OF assms(1), of k] i [of k] by (cases "k < 12") (auto simp: bit_simps)
  qed
  then have "slot p i = p OR push_bit 3 i"
    unfolding slot_def e by (simp add: disjunctive_add_eq_or)
  then show ?thesis
    using page_aligned_bit [OF assms(1), of n] i [of n] bit_imp_le_length [of p n]
    by (auto simp: bit_simps)
qed

lemma slot_inj:
  assumes p: "page_aligned p" "i < 512" and q: "page_aligned q" "j < 512"
    and e: "slot p i = slot q j"
  shows "p = q \<and> i = j"
proof
  have b: "(if n < 12 then 3 \<le> n \<and> bit i (n - 3) else bit p n)
         = (if n < 12 then 3 \<le> n \<and> bit j (n - 3) else bit q n)" for n
    using slot_bits [OF p, of n] slot_bits [OF q, of n] e by simp
  show "p = q"
  proof (rule bit_word_eqI)
    fix n show "bit p n = bit q n"
      using b [of n] page_aligned_bit [OF p(1), of n] page_aligned_bit [OF q(1), of n]
      by (cases "n < 12") auto
  qed
  show "i = j"
  proof (rule bit_word_eqI)
    fix n show "bit i n = bit j n"
      using b [of "n + 3"] less_512_bit [OF p(2), of n] less_512_bit [OF q(2), of n]
      by (cases "n < 9") auto
  qed
qed

lemma slot_eq_iff:
  "page_aligned p \<Longrightarrow> i < 512 \<Longrightarrow> page_aligned q \<Longrightarrow> j < 512 \<Longrightarrow>
   slot p i = slot q j \<longleftrightarrow> p = q \<and> i = j"
  using slot_inj by blast

end
