(* ===== verification/Sv39.thy ===== *)
theory Sv39
  imports Memory
begin

text \<open>
  The Sv39 address translation of the RISC-V privileged architecture for S-mode, as the
  specification the page-table code is measured against: the three-level walk over physical
  memory, the permission, alignment and A/D checks on the leaf, the physical address. Nothing
  here models code of the repository; it is the instruction set's reading of the tables.
\<close>

datatype access = Fetch | Load | Store

record mmu_ctl =
  ctl_sum :: bool
  ctl_mxr :: bool
  ctl_svadu :: bool

definition vpn_ix :: "nat \<Rightarrow> u64 \<Rightarrow> u64" where
  "vpn_ix l va = drop_bit (12 + 9 * l) va AND mask 9"

definition pte_target :: "u64 \<Rightarrow> u64" where
  "pte_target e = push_bit 12 (drop_bit 10 e)"

definition pte_valid :: "u64 \<Rightarrow> bool" where
  "pte_valid e \<longleftrightarrow> bit e 0 \<and> (bit e 1 \<or> \<not> bit e 2) \<and> drop_bit 54 e = 0"

definition pte_is_leaf :: "u64 \<Rightarrow> bool" where
  "pte_is_leaf e \<longleftrightarrow> bit e 1 \<or> bit e 3"

fun sv39_walk :: "(u64 \<Rightarrow> u64) \<Rightarrow> nat \<Rightarrow> u64 \<Rightarrow> u64 \<Rightarrow> (nat \<times> u64) option" where
  "sv39_walk m l t va =
     (let a = slot t (vpn_ix l va); e = m a
      in if \<not> pte_valid e then None
         else if pte_is_leaf e then Some (l, e)
         else (case l of 0 \<Rightarrow> None | Suc k \<Rightarrow> sv39_walk m k (pte_target e) va))"

declare sv39_walk.simps [simp del]

definition pte_allows :: "mmu_ctl \<Rightarrow> access \<Rightarrow> u64 \<Rightarrow> bool" where
  "pte_allows c acc e \<longleftrightarrow>
     (bit e 4 \<longrightarrow> acc \<noteq> Fetch \<and> ctl_sum c) \<and>
     (case acc of Fetch \<Rightarrow> bit e 3
                | Load \<Rightarrow> bit e 1 \<or> (ctl_mxr c \<and> bit e 3)
                | Store \<Rightarrow> bit e 2)"

definition pte_ad_ok :: "mmu_ctl \<Rightarrow> access \<Rightarrow> u64 \<Rightarrow> bool" where
  "pte_ad_ok c acc e \<longleftrightarrow> ctl_svadu c \<or> (bit e 6 \<and> (acc = Store \<longrightarrow> bit e 7))"

definition leaf_aligned :: "nat \<Rightarrow> u64 \<Rightarrow> bool" where
  "leaf_aligned l e \<longleftrightarrow> take_bit (12 + 9 * l) (pte_target e) = 0"

definition leaf_xlat :: "mmu_ctl \<Rightarrow> access \<Rightarrow> u64 \<Rightarrow> nat \<times> u64 \<Rightarrow> u64 option" where
  "leaf_xlat c acc va = (\<lambda>(l, e).
     if pte_allows c acc e \<and> leaf_aligned l e \<and> pte_ad_ok c acc e
     then Some (pte_target e OR take_bit (12 + 9 * l) va) else None)"

definition va_canonical :: "u64 \<Rightarrow> bool" where
  "va_canonical va \<longleftrightarrow> (\<forall>n < 64. 39 \<le> n \<longrightarrow> bit va n = bit va 38)"

definition sv39_translate :: "mmu_ctl \<Rightarrow> (u64 \<Rightarrow> u64) \<Rightarrow> u64 \<Rightarrow> access \<Rightarrow> u64 \<Rightarrow> u64 option" where
  "sv39_translate c m root acc va =
     (if va_canonical va then Option.bind (sv39_walk m 2 root va) (leaf_xlat c acc va) else None)"

text \<open>The accessed and dirty bits an access needs, and what hardware that updates them writes.\<close>

definition needs_ad :: "access \<Rightarrow> u64 \<Rightarrow> bool" where
  "needs_ad acc e \<longleftrightarrow> \<not> bit e 6 \<or> acc = Store \<and> \<not> bit e 7"

definition set_ad :: "access \<Rightarrow> u64 \<Rightarrow> u64" where
  "set_ad acc e = e OR PTE_A OR (if acc = Store then PTE_D else 0)"

text \<open>The exception cause a failed access raises.\<close>

fun fault_cause :: "access \<Rightarrow> u64" where
  "fault_cause Fetch = CAUSE_INST_PAGE_FAULT"
| "fault_cause Load = CAUSE_LOAD_PAGE_FAULT"
| "fault_cause Store = CAUSE_STORE_PAGE_FAULT"

section \<open>Facts about indices and entries\<close>

lemma vpn_ix_less [simp]: "vpn_ix l va < 512"
proof -
  have "vpn_ix l va \<le> mask 9" unfolding vpn_ix_def by (rule word_and_le1)
  also have "(mask 9 :: u64) < 512" by (simp add: mask_eq_exp_minus_1)
  finally show ?thesis .
qed

lemma bit_vpn_ix: "bit (vpn_ix l va) n \<longleftrightarrow> n < 9 \<and> bit va (12 + 9 * l + n)"
  unfolding vpn_ix_def by (auto simp: bit_simps ac_simps dest: bit_imp_le_length)

lemma page_aligned_target [simp]: "page_aligned (pte_target e)"
  by (rule page_alignedI) (simp add: pte_target_def bit_simps)

lemma sv39_walk_eq:
  "sv39_walk m l t va =
     (if \<not> pte_valid (m (slot t (vpn_ix l va))) then None
      else if pte_is_leaf (m (slot t (vpn_ix l va))) then Some (l, m (slot t (vpn_ix l va)))
      else (case l of 0 \<Rightarrow> None
            | Suc k \<Rightarrow> sv39_walk m k (pte_target (m (slot t (vpn_ix l va)))) va))"
  by (subst sv39_walk.simps) (simp add: Let_def)

text \<open>Two addresses lie in the same block of a level-\<open>n\<close> leaf.\<close>

definition same_block :: "nat \<Rightarrow> u64 \<Rightarrow> u64 \<Rightarrow> bool" where
  "same_block n va va' \<longleftrightarrow> (\<forall>l. n \<le> l \<and> l \<le> 2 \<longrightarrow> vpn_ix l va = vpn_ix l va')"

lemma same_block_refl [simp]: "same_block n va va"
  by (simp add: same_block_def)

lemma same_block_code [code]: "same_block n va va' = list_all (\<lambda>l. vpn_ix l va = vpn_ix l va') [n..<3]"
  by (auto simp: same_block_def list_all_iff)

lemma same_block_sym: "same_block n va va' \<Longrightarrow> same_block n va' va"
  by (simp add: same_block_def)

lemma same_region_iff: "same_block 1 va va' \<longleftrightarrow> vpn_ix 1 va = vpn_ix 1 va' \<and> vpn_ix 2 va = vpn_ix 2 va'"
proof -
  have "(\<forall>l :: nat. 1 \<le> l \<and> l \<le> 2 \<longrightarrow> P l) \<longleftrightarrow> P 1 \<and> P 2" for P by (auto simp: le_Suc_eq numeral_2_eq_2)
  then show ?thesis unfolding same_block_def .
qed

lemma same_blockD: "same_block n va va' \<Longrightarrow> n \<le> l \<Longrightarrow> l \<le> 2 \<Longrightarrow> vpn_ix l va = vpn_ix l va'"
  by (simp add: same_block_def)

end
