(* ===== verification/Tables.thy ===== *)
theory Tables
  imports Sv39 "HOL-Library.Monad_Syntax"
begin

text \<open>
  Building Sv39 tables, independently of who allocates them. Both page-table modules of the
  repository (the suite's \<^verbatim>\<open>smode.c\<close> and the Zephyr \<^verbatim>\<open>mmu.c\<close>) walk down from the
  root, allocate a zeroed table wherever an entry is not valid, and write one leaf. The locale
  \<open>table_alloc\<close> states what they rely on from their allocator; inside it the effect of a
  mapping on the hardware translation is proved once for both.
\<close>

section \<open>Branch entries and the entries a walk reads\<close>

definition is_branch :: "u64 \<Rightarrow> bool" where
  "is_branch e \<longleftrightarrow> bit e 0 \<and> \<not> bit e 1 \<and> \<not> bit e 2 \<and> \<not> bit e 3"

definition branch_to :: "u64 \<Rightarrow> u64" where
  "branch_to p = push_bit 10 (drop_bit 12 p) OR 1"

fun visited :: "(u64 \<Rightarrow> u64) \<Rightarrow> nat \<Rightarrow> u64 \<Rightarrow> u64 \<Rightarrow> u64 list" where
  "visited m 0 t va = [slot t (vpn_ix 0 va)]"
| "visited m (Suc k) t va =
     (let a = slot t (vpn_ix (Suc k) va)
      in a # (if is_branch (m a) then visited m k (pte_target (m a)) va else []))"

lemma visited_cong:
  "(\<And>a. a \<in> set (visited m l t va) \<Longrightarrow> m' a = m a) \<Longrightarrow> visited m' l t va = visited m l t va"
  by (induction m l t va rule: visited.induct) (auto simp: Let_def)

lemma branch_walk_step:
  "is_branch e \<Longrightarrow> \<not> pte_is_leaf e"
  "pte_valid e \<Longrightarrow> \<not> pte_is_leaf e \<Longrightarrow> is_branch e"
  by (auto simp: is_branch_def pte_is_leaf_def pte_valid_def)

lemma sv39_walk_branch:
  "m (slot t (vpn_ix (Suc k) va)) = e \<Longrightarrow> is_branch e \<Longrightarrow> pte_valid e \<Longrightarrow>
   sv39_walk m (Suc k) t va = sv39_walk m k (pte_target e) va"
  using branch_walk_step(1) by (auto simp: sv39_walk_eq [of m "Suc k"])

lemma sv39_walk_cong:
  "(\<And>a. a \<in> set (visited m l t va) \<Longrightarrow> m' a = m a) \<Longrightarrow> sv39_walk m' l t va = sv39_walk m l t va"
proof (induction m l t va rule: visited.induct)
  case (1 m t va)
  then show ?case by (simp add: sv39_walk_eq)
next
  case (2 m k t va)
  let ?a = "slot t (vpn_ix (Suc k) va)"
  have eq: "m' ?a = m ?a" using 2(2) by (simp add: Let_def)
  show ?case
  proof (cases "is_branch (m ?a)")
    case True
    then have "sv39_walk m' k (pte_target (m ?a)) va = sv39_walk m k (pte_target (m ?a)) va"
      by (intro 2(1)) (auto simp: 2(2) Let_def)
    then show ?thesis by (simp add: sv39_walk_eq [of _ "Suc k"] eq)
  next
    case False
    then show ?thesis using branch_walk_step(2) by (auto simp: sv39_walk_eq [of _ "Suc k"] eq)
  qed
qed

lemma visited_not_Nil [simp]: "visited m l t va \<noteq> []"
  by (cases l) (simp_all add: Let_def)

lemma is_branch_branch_to [simp]: "is_branch (branch_to p)"
  by (simp add: is_branch_def branch_to_def bit_simps)

lemma not_leaf_branch_to [simp]: "\<not> pte_is_leaf (branch_to p)"
  by (rule branch_walk_step(1)) simp

lemma pte_valid_branch_to: "drop_bit 56 p = 0 \<Longrightarrow> pte_valid (branch_to p)"
  unfolding pte_valid_def branch_to_def
  by (auto simp: bit_simps drop_bit_0_bit intro!: drop_bit_0I)

lemma pte_target_branch_to [simp]:
  assumes "page_aligned p"
  shows "pte_target (branch_to p) = p"
proof (rule bit_word_eqI)
  fix n assume "n < LENGTH(64)"
  then show "bit (pte_target (branch_to p)) n = bit p n"
    using page_aligned_bit [OF assms, of n]
    by (cases "n < 12") (auto simp: pte_target_def branch_to_def bit_simps)
qed

section \<open>Well-formed tables\<close>

text \<open>
  \<open>T\<close> is the set of tables in use and \<open>lv\<close> their levels. Branch entries point one level
  down inside \<open>T\<close>, no two branch entries share a target: the tables form a tree.
\<close>

definition wf_tables :: "(u64 \<Rightarrow> nat) \<Rightarrow> u64 set \<Rightarrow> u64 \<Rightarrow> (u64 \<Rightarrow> u64) \<Rightarrow> bool" where
  "wf_tables lv T root m \<longleftrightarrow>
     root \<in> T \<and> lv root = 2 \<and> (\<forall>t \<in> T. page_aligned t) \<and>
     (\<forall>t \<in> T. \<forall>i < 512. is_branch (m (slot t i)) \<longrightarrow>
        pte_valid (m (slot t i)) \<and> pte_target (m (slot t i)) \<in> T \<and> lv t = Suc (lv (pte_target (m (slot t i))))) \<and>
     (\<forall>t \<in> T. \<forall>u \<in> T. \<forall>i < 512. \<forall>j < 512.
        is_branch (m (slot t i)) \<longrightarrow> is_branch (m (slot u j)) \<longrightarrow>
        pte_target (m (slot t i)) = pte_target (m (slot u j)) \<longrightarrow> t = u \<and> i = j)"

lemma wf_root: "wf_tables lv T root m \<Longrightarrow> root \<in> T" "wf_tables lv T root m \<Longrightarrow> lv root = 2"
  by (simp_all add: wf_tables_def)

lemma wf_aligned: "wf_tables lv T root m \<Longrightarrow> t \<in> T \<Longrightarrow> page_aligned t"
  by (simp add: wf_tables_def)

lemma wf_child:
  "wf_tables lv T root m \<Longrightarrow> t \<in> T \<Longrightarrow> i < 512 \<Longrightarrow> is_branch (m (slot t i)) \<Longrightarrow>
   pte_target (m (slot t i)) \<in> T \<and> lv t = Suc (lv (pte_target (m (slot t i))))"
  by (simp add: wf_tables_def)

lemma wf_branch_valid:
  "wf_tables lv T root m \<Longrightarrow> t \<in> T \<Longrightarrow> i < 512 \<Longrightarrow> is_branch (m (slot t i)) \<Longrightarrow>
   pte_valid (m (slot t i))"
  by (simp add: wf_tables_def)

lemma wf_inj:
  "wf_tables lv T root m \<Longrightarrow> t \<in> T \<Longrightarrow> u \<in> T \<Longrightarrow> i < 512 \<Longrightarrow> j < 512 \<Longrightarrow>
   is_branch (m (slot t i)) \<Longrightarrow> is_branch (m (slot u j)) \<Longrightarrow>
   pte_target (m (slot t i)) = pte_target (m (slot u j)) \<Longrightarrow> t = u \<and> i = j"
  by (simp add: wf_tables_def)

lemma wf_slot_eq_iff:
  "wf_tables lv T root m \<Longrightarrow> t \<in> T \<Longrightarrow> u \<in> T \<Longrightarrow> i < 512 \<Longrightarrow> j < 512 \<Longrightarrow>
   slot t i = slot u j \<longleftrightarrow> t = u \<and> i = j"
  by (simp add: slot_eq_iff wf_aligned)

lemma visited_in_tables:
  "wf_tables lv T root m \<Longrightarrow> t \<in> T \<Longrightarrow> lv t = l \<Longrightarrow> a \<in> set (visited m l t va) \<Longrightarrow>
   \<exists>u \<in> T. \<exists>k \<le> l. lv u = k \<and> a = slot u (vpn_ix k va)"
proof (induction l arbitrary: t)
  case 0
  then show ?case by auto
next
  case (Suc k)
  let ?a = "slot t (vpn_ix (Suc k) va)"
  show ?case
  proof (cases "a = ?a")
    case True
    with Suc.prems(2,3) show ?thesis by (intro bexI [of _ t] exI [of _ "Suc k"]) auto
  next
    case False
    with Suc.prems have b: "is_branch (m ?a)" and a: "a \<in> set (visited m k (pte_target (m ?a)) va)"
      by (auto simp: Let_def split: if_splits)
    from wf_child [OF Suc.prems(1,2) vpn_ix_less b] Suc.prems(3)
    have "pte_target (m ?a) \<in> T" "lv (pte_target (m ?a)) = k" by auto
    from Suc.IH [OF Suc.prems(1) this a] show ?thesis by (meson le_SucI)
  qed
qed

text \<open>Walks of two addresses that read the same entry of a level-\<open>n\<close> table agree on every
  index from \<open>n\<close> up.\<close>

lemma visited_shared:
  assumes wf: "wf_tables lv T root m" and u: "u \<in> T" "i < 512"
  shows "t \<in> T \<Longrightarrow> t' \<in> T \<Longrightarrow> lv t = l \<Longrightarrow> lv t' = l \<Longrightarrow>
    slot u i \<in> set (visited m l t va) \<Longrightarrow> slot u i \<in> set (visited m l t' va') \<Longrightarrow>
    t = t' \<and> lv u \<le> l \<and> (\<forall>k. lv u \<le> k \<and> k \<le> l \<longrightarrow> vpn_ix k va = vpn_ix k va')"
proof (induction l arbitrary: t t')
  case 0
  then show ?case using wf_slot_eq_iff [OF wf] u by auto
next
  case (Suc l)
  let ?a = "slot t (vpn_ix (Suc l) va)" and ?a' = "slot t' (vpn_ix (Suc l) va')"
  have below: "lv u \<le> l"
    if "x \<in> T" "lv x = Suc l" "is_branch (m (slot x j))" "j < 512"
       "slot u i \<in> set (visited m l (pte_target (m (slot x j))) w)" for x w j
  proof -
    from wf_child [OF wf that(1,4,3)] that(2)
    have "pte_target (m (slot x j)) \<in> T" "lv (pte_target (m (slot x j))) = l" by auto
    from visited_in_tables [OF wf this that(5)]
    obtain v k where v: "v \<in> T" "k \<le> l" "lv v = k" "slot u i = slot v (vpn_ix k w)" by blast
    from v(1) have "u = v" using wf_slot_eq_iff [OF wf u(1) v(1) u(2) vpn_ix_less, of k w] v(4) by simp
    with v show ?thesis by simp
  qed
  have tail: "slot u i = ?a \<or> is_branch (m ?a) \<and> slot u i \<in> set (visited m l (pte_target (m ?a)) va)"
             "slot u i = ?a' \<or> is_branch (m ?a') \<and> slot u i \<in> set (visited m l (pte_target (m ?a')) va')"
    using Suc.prems(5,6) by (auto simp: Let_def split: if_splits)
  have head: "slot u i = slot x (vpn_ix (Suc l) w) \<longleftrightarrow> u = x \<and> i = vpn_ix (Suc l) w" if "x \<in> T" for x w
    using wf_slot_eq_iff [OF wf u(1) that u(2) vpn_ix_less] .
  show ?case
  proof (cases "slot u i = ?a")
    case True
    then have ut: "u = t" "i = vpn_ix (Suc l) va" using head [OF Suc.prems(1)] by auto
    then have "lv u = Suc l" using Suc.prems(3) by simp
    then have "slot u i = ?a'" using tail(2) below [OF Suc.prems(2,4)] by fastforce
    with ut \<open>lv u = Suc l\<close> show ?thesis using head [OF Suc.prems(2)] by (auto simp: le_Suc_eq)
  next
    case False
    then have b: "is_branch (m ?a)" "slot u i \<in> set (visited m l (pte_target (m ?a)) va)"
      using tail(1) by auto
    from below [OF Suc.prems(1,3) b(1) _ b(2)] have lu: "lv u \<le> l" by simp
    then have "slot u i \<noteq> ?a'" using head [OF Suc.prems(2)] Suc.prems(4) by auto
    then have b': "is_branch (m ?a')" "slot u i \<in> set (visited m l (pte_target (m ?a')) va')"
      using tail(2) by auto
    from wf_child [OF wf Suc.prems(1) vpn_ix_less b(1)] wf_child [OF wf Suc.prems(2) vpn_ix_less b'(1)]
      Suc.prems(3,4) Suc.IH [OF _ _ _ _ b(2) b'(2)]
    have ih: "pte_target (m ?a) = pte_target (m ?a')"
      "\<forall>k. lv u \<le> k \<and> k \<le> l \<longrightarrow> vpn_ix k va = vpn_ix k va'" by auto
    from wf_inj [OF wf Suc.prems(1,2) _ _ b(1) b'(1) ih(1)] have "t = t'" "vpn_ix (Suc l) va = vpn_ix (Suc l) va'"
      by auto
    with ih(2) lu show ?thesis by (auto simp: le_Suc_eq)
  qed
qed

section \<open>The two elementary changes: linking a fresh table, writing a leaf\<close>

lemma wf_put_leaf:
  assumes wf: "wf_tables lv T root m" and t: "t \<in> T" "i < 512" and e: "\<not> is_branch e"
  shows "wf_tables lv T root (m(slot t i := e))"
proof -
  have old: "is_branch (m (slot u j)) \<and> (m(slot t i := e)) (slot u j) = m (slot u j)"
    if "is_branch ((m(slot t i := e)) (slot u j))" for u j
    using that e by (auto split: if_splits)
  show ?thesis
    unfolding wf_tables_def
  proof (intro conjI ballI allI impI)
    fix u j assume u: "u \<in> T" "j < 512" "is_branch ((m(slot t i := e)) (slot u j))"
    let ?x = "(m(slot t i := e)) (slot u j)"
    from old [OF u(3)] wf_child [OF wf u(1,2)] wf_branch_valid [OF wf u(1,2)]
    show "pte_valid ?x" "pte_target ?x \<in> T" "lv u = Suc (lv (pte_target ?x))" by auto
  next
    fix u v j k
    assume uv: "u \<in> T" "v \<in> T" "j < 512" "k < 512"
      "is_branch ((m(slot t i := e)) (slot u j))" "is_branch ((m(slot t i := e)) (slot v k))"
      "pte_target ((m(slot t i := e)) (slot u j)) = pte_target ((m(slot t i := e)) (slot v k))"
    from wf_inj [OF wf uv(1-4)] old [OF uv(5)] old [OF uv(6)] uv(7)
    show "u = v" "j = k" by auto
  qed (use wf in \<open>auto simp: wf_tables_def\<close>)
qed

lemma walk_put_leaf_other:
  assumes wf: "wf_tables lv T root m" and t: "t \<in> T" "lv t = n"
    and on: "slot t (vpn_ix n va) \<in> set (visited m 2 root va)" and other: "\<not> same_block n va va'"
  shows "sv39_walk (m(slot t (vpn_ix n va) := e)) 2 root va' = sv39_walk m 2 root va'"
proof (rule sv39_walk_cong)
  fix a assume a: "a \<in> set (visited m 2 root va')"
  have "a \<noteq> slot t (vpn_ix n va)"
  proof
    assume "a = slot t (vpn_ix n va)"
    with a have on': "slot t (vpn_ix n va) \<in> set (visited m 2 root va')" by simp
    from visited_shared [OF wf t(1) vpn_ix_less wf_root(1) [OF wf] wf_root(1) [OF wf] wf_root(2) [OF wf]
        wf_root(2) [OF wf] on on']
    have "\<forall>k. lv t \<le> k \<and> k \<le> 2 \<longrightarrow> vpn_ix k va = vpn_ix k va'" by blast
    with t(2) other show False unfolding same_block_def by blast
  qed
  then show "(m(slot t (vpn_ix n va) := e)) a = m a" by simp
qed

lemma link_table:
  assumes wf: "wf_tables lv T root m" and t: "t \<in> T" "i < 512" "lv t = Suc l"
    and inv: "\<not> bit (m (slot t i)) 0"
    and p: "p \<notin> T" "page_aligned p" "drop_bit 56 p = 0"
    and zero: "\<And>j. j < 512 \<Longrightarrow> m1 (slot p j) = 0"
    and fr: "\<And>a. (\<And>j. j < 512 \<Longrightarrow> a \<noteq> slot p j) \<Longrightarrow> m1 a = m a"
  defines "m2 \<equiv> m1(slot t i := branch_to p)"
  shows "wf_tables (lv(p := l)) (insert p T) root m2"
    and "u \<in> T \<Longrightarrow> lv u = k \<Longrightarrow> sv39_walk m2 k u va = sv39_walk m k u va"
proof -
  have tp: "slot u j \<noteq> slot p h" if "u \<in> T" "j < 512" "h < 512" for u j h
    using that p slot_eq_iff [OF wf_aligned [OF wf that(1)] that(2) p(2) that(3)] by auto
  have new: "m2 (slot t i) = branch_to p" by (simp add: m2_def)
  have old: "m2 (slot u j) = m (slot u j)" if "u \<in> T" "j < 512" "(u, j) \<noteq> (t, i)" for u j
    using that tp fr wf_slot_eq_iff [OF wf that(1) t(1) that(2) t(2)] by (auto simp: m2_def)
  have z: "m2 (slot p j) = 0" if "j < 512" for j
    using zero [OF that] tp [OF t(1,2) that] by (auto simp: m2_def)
  have nb [simp]: "\<not> is_branch 0" by (simp add: is_branch_def)
  have ti: "\<not> is_branch (m (slot t i))" using inv by (simp add: is_branch_def)
  have br: "u = t \<and> j = i \<and> pte_target (m2 (slot u j)) = p \<or>
      u \<in> T \<and> (u, j) \<noteq> (t, i) \<and> is_branch (m (slot u j)) \<and> m2 (slot u j) = m (slot u j)"
    if "u \<in> insert p T" "j < 512" "is_branch (m2 (slot u j))" for u j
    using that old [of u j] new z [of j] p(2) by (cases "u = p"; cases "(u, j) = (t, i)") auto
  have tgt: "pte_target (m (slot u j)) \<noteq> p" if "u \<in> T" "j < 512" "is_branch (m (slot u j))" for u j
    using wf_child [OF wf that] p(1) by auto
  show "wf_tables (lv(p := l)) (insert p T) root m2"
    unfolding wf_tables_def
  proof (intro conjI ballI allI impI)
    fix u j assume u: "u \<in> insert p T" "j < 512" "is_branch (m2 (slot u j))"
    from br [OF u] have "pte_valid (m2 (slot u j)) \<and> pte_target (m2 (slot u j)) \<in> insert p T \<and>
        (lv(p := l)) u = Suc ((lv(p := l)) (pte_target (m2 (slot u j))))"
    proof (elim disjE conjE)
      assume "u = t" "j = i" "pte_target (m2 (slot u j)) = p"
      with new t p show ?thesis by (auto simp: pte_valid_branch_to)
    next
      assume a: "u \<in> T" "(u, j) \<noteq> (t, i)" "is_branch (m (slot u j))" "m2 (slot u j) = m (slot u j)"
      with wf_child [OF wf a(1) u(2) a(3)] wf_branch_valid [OF wf a(1) u(2) a(3)] p(1)
      show ?thesis by auto
    qed
    then show "pte_valid (m2 (slot u j))" "pte_target (m2 (slot u j)) \<in> insert p T"
      "(lv(p := l)) u = Suc ((lv(p := l)) (pte_target (m2 (slot u j))))" by simp_all
  next
    fix u v j h
    assume uv: "u \<in> insert p T" "v \<in> insert p T" "j < 512" "h < 512"
      "is_branch (m2 (slot u j))" "is_branch (m2 (slot v h))"
      "pte_target (m2 (slot u j)) = pte_target (m2 (slot v h))"
    have "u = v \<and> j = h"
      using br [OF uv(1,3,5)] br [OF uv(2,4,6)] uv(7) tgt [of u j] tgt [of v h] wf_inj [OF wf _ _ uv(3,4), of u v] uv(3,4)
      by auto
    then show "u = v" "j = h" by simp_all
  qed (use wf p in \<open>auto simp: wf_tables_def\<close>)
  show "u \<in> T \<Longrightarrow> lv u = k \<Longrightarrow> sv39_walk m2 k u va = sv39_walk m k u va"
  proof (induction k arbitrary: u)
    case 0
    then have "(u, vpn_ix 0 va) \<noteq> (t, i)" using t(3) by auto
    with old [OF 0(1) vpn_ix_less] show ?case by (simp add: sv39_walk_eq)
  next
    case (Suc k)
    show ?case
    proof (cases "(u, vpn_ix (Suc k) va) = (t, i)")
      case True
      have "sv39_walk m2 k p va = None" using z [OF vpn_ix_less] by (simp add: sv39_walk_eq [of _ k] pte_valid_def)
      with True new inv p show ?thesis
        by (auto simp: sv39_walk_eq [of _ "Suc k"] pte_valid_def)
    next
      case False
      with old [OF Suc.prems(1) vpn_ix_less] have eq: "m2 (slot u (vpn_ix (Suc k) va)) = m (slot u (vpn_ix (Suc k) va))" .
      show ?thesis
      proof (cases "is_branch (m (slot u (vpn_ix (Suc k) va)))")
        case True
        from wf_child [OF wf Suc.prems(1) vpn_ix_less True] Suc.prems(2) Suc.IH
        have "sv39_walk m2 k (pte_target (m (slot u (vpn_ix (Suc k) va)))) va
            = sv39_walk m k (pte_target (m (slot u (vpn_ix (Suc k) va)))) va" by auto
        then show ?thesis by (simp add: sv39_walk_eq [of _ "Suc k"] eq)
      next
        case False
        then show ?thesis using branch_walk_step(2) by (auto simp: sv39_walk_eq [of _ "Suc k"] eq)
      qed
    qed
  qed
qed

end
