(* ===== verification/Table_Map.thy ===== *)
theory Table_Map
  imports Tables
begin

text \<open>
  The mapping algorithm over an abstract table allocator. \<open>descend\<close> follows (and where
  necessary extends) the path of an address from the root, \<open>map_at\<close> writes one leaf at its end;
  \<open>path_clear\<close> says that no superpage leaf lies on the way. In the locale \<open>table_alloc\<close>
  the hardware translation after \<open>map_at\<close> is the new leaf's on the addressed block and the old
  one everywhere else.
\<close>

definition ensure_table ::
    "('z phys_scheme \<Rightarrow> (u64 \<times> 'z phys_scheme) option) \<Rightarrow> u64 \<Rightarrow> 'z phys_scheme \<Rightarrow> 'z phys_scheme option" where
  "ensure_table alloc a s =
     (if bit (mem s a) 0 then Some s
      else do { (p, s') \<leftarrow> alloc s; Some (st64 a (branch_to p) s') })"

fun descend ::
    "('z phys_scheme \<Rightarrow> (u64 \<times> 'z phys_scheme) option) \<Rightarrow> u64 \<Rightarrow> nat \<Rightarrow> nat \<Rightarrow> u64 \<Rightarrow> 'z phys_scheme
       \<Rightarrow> (u64 \<times> 'z phys_scheme) option" where
  "descend alloc va 0 l t s = Some (t, s)"
| "descend alloc va (Suc k) l t s =
     do { s' \<leftarrow> ensure_table alloc (slot t (vpn_ix l va)) s;
          descend alloc va k (l - 1) (pte_target (mem s' (slot t (vpn_ix l va)))) s' }"

definition map_at ::
    "('z phys_scheme \<Rightarrow> (u64 \<times> 'z phys_scheme) option) \<Rightarrow> nat \<Rightarrow> u64 \<Rightarrow> u64 \<Rightarrow> u64 \<Rightarrow> 'z phys_scheme
       \<Rightarrow> 'z phys_scheme option" where
  "map_at alloc n root va e s =
     do { (t, s') \<leftarrow> descend alloc va (2 - n) 2 root s;
          Some (st64 (slot t (vpn_ix n va)) e s') }"

fun path_clear :: "(u64 \<Rightarrow> u64) \<Rightarrow> nat \<Rightarrow> nat \<Rightarrow> u64 \<Rightarrow> u64 \<Rightarrow> bool" where
  "path_clear m 0 l t va = True"
| "path_clear m (Suc k) l t va =
     (let e = m (slot t (vpn_ix l va))
      in \<not> bit e 0 \<or> (is_branch e \<and> path_clear m k (l - 1) (pte_target e) va))"

text \<open>How many tables a descent of \<open>k\<close> levels has to allocate.\<close>

fun missing_tables :: "(u64 \<Rightarrow> u64) \<Rightarrow> nat \<Rightarrow> nat \<Rightarrow> u64 \<Rightarrow> u64 \<Rightarrow> nat" where
  "missing_tables m 0 l t va = 0"
| "missing_tables m (Suc k) l t va =
     (let e = m (slot t (vpn_ix l va))
      in if bit e 0 then missing_tables m k (l - 1) (pte_target e) va else Suc k)"

lemma missing_tables_le: "missing_tables m k l t va \<le> k"
  by (induction m k l t va rule: missing_tables.induct) (auto simp: Let_def)

definition table_words :: "u64 set \<Rightarrow> u64 set" where
  "table_words T = {slot t i | t i. t \<in> T \<and> i < 512}"

lemma slot_in_table_words [simp]: "t \<in> T \<Longrightarrow> i < 512 \<Longrightarrow> slot t i \<in> table_words T"
  by (auto simp: table_words_def)

lemma table_words_mono: "T \<subseteq> U \<Longrightarrow> table_words T \<subseteq> table_words U"
  by (auto simp: table_words_def)

text \<open>What a leaf entry at level \<open>n\<close> makes of an address of its block.\<close>

definition entry_xlat :: "mmu_ctl \<Rightarrow> access \<Rightarrow> u64 \<Rightarrow> nat \<Rightarrow> u64 \<Rightarrow> u64 option" where
  "entry_xlat c acc va n e =
     (if va_canonical va \<and> pte_valid e \<and> pte_is_leaf e then leaf_xlat c acc va (n, e) else None)"

lemma walk_to_entry:
  assumes wf: "wf_tables lv T root m" and u: "u \<in> T" "lv u = n" and e: "\<not> is_branch e"
  shows "t \<in> T \<Longrightarrow> lv t = l \<Longrightarrow> slot u (vpn_ix n va) \<in> set (visited m l t va) \<Longrightarrow>
    (\<And>k. n \<le> k \<Longrightarrow> k \<le> l \<Longrightarrow> vpn_ix k va = vpn_ix k va') \<Longrightarrow>
    sv39_walk (m(slot u (vpn_ix n va) := e)) l t va' =
      (if pte_valid e \<and> pte_is_leaf e then Some (n, e) else None)"
proof (induction l arbitrary: t)
  case 0
  have "u = t" using 0(1,3) wf_slot_eq_iff [OF wf u(1) 0(1) vpn_ix_less vpn_ix_less] by auto
  with 0 u(2) have "vpn_ix 0 va' = vpn_ix n va" "n = 0" by auto
  with \<open>u = t\<close> show ?case by (simp add: sv39_walk_eq)
next
  case (Suc l)
  let ?a = "slot t (vpn_ix (Suc l) va)" and ?m = "m(slot u (vpn_ix n va) := e)"
  show ?case
  proof (cases "u = t")
    case True
    with Suc.prems u(2) have n: "n = Suc l" and v: "vpn_ix (Suc l) va' = vpn_ix (Suc l) va" by auto
    show ?thesis
      using e branch_walk_step(2) [of e] by (auto simp: True n v sv39_walk_eq [of _ "Suc l"])
  next
    case False
    then have ne: "?a \<noteq> slot u (vpn_ix n va)"
      using wf_slot_eq_iff [OF wf u(1) Suc.prems(1) vpn_ix_less vpn_ix_less] by metis
    with Suc.prems(3) have b: "is_branch (m ?a)"
      and on: "slot u (vpn_ix n va) \<in> set (visited m l (pte_target (m ?a)) va)"
      by (auto simp: Let_def split: if_splits)
    from wf_child [OF wf Suc.prems(1) vpn_ix_less b] Suc.prems(2)
    have ch: "pte_target (m ?a) \<in> T" "lv (pte_target (m ?a)) = l" by auto
    from visited_in_tables [OF wf ch on] obtain v k
      where v: "v \<in> T" "k \<le> l" "lv v = k" "slot u (vpn_ix n va) = slot v (vpn_ix k va)" by blast
    then have "u = v" using wf_slot_eq_iff [OF wf u(1) v(1) vpn_ix_less vpn_ix_less] by blast
    with u(2) v have "n \<le> l" by simp
    then have ix: "vpn_ix (Suc l) va' = vpn_ix (Suc l) va" using Suc.prems(4) [of "Suc l"] by simp
    have "sv39_walk ?m l (pte_target (m ?a)) va' = (if pte_valid e \<and> pte_is_leaf e then Some (n, e) else None)"
      by (rule Suc.IH [OF ch on]) (use Suc.prems(4) in simp)
    moreover have "?m (slot t (vpn_ix (Suc l) va')) = m ?a" using ne ix by simp
    from sv39_walk_branch [of ?m, OF this b wf_branch_valid [OF wf Suc.prems(1) vpn_ix_less b]]
    have "sv39_walk ?m (Suc l) t va' = sv39_walk ?m l (pte_target (m ?a)) va'" .
    ultimately show ?thesis by (rule trans [rotated])
  qed
qed

locale table_alloc =
  fixes alloc :: "'z phys_scheme \<Rightarrow> (u64 \<times> 'z phys_scheme) option"
    and tabs :: "'z phys_scheme \<Rightarrow> u64 set"
    and pool_ok :: "'z phys_scheme \<Rightarrow> bool"
    and room :: "'z phys_scheme \<Rightarrow> nat"
  assumes alloc_room: "pool_ok s \<Longrightarrow> 0 < room s \<Longrightarrow> \<exists>p s'. alloc s = Some (p, s')"
    and alloc_less_room: "pool_ok s \<Longrightarrow> alloc s = Some (p, s') \<Longrightarrow> room s = Suc (room s')"
    and alloc_ok: "pool_ok s \<Longrightarrow> alloc s = Some (p, s') \<Longrightarrow> pool_ok s'"
    and alloc_fresh: "pool_ok s \<Longrightarrow> alloc s = Some (p, s') \<Longrightarrow>
      p \<notin> tabs s \<and> page_aligned p \<and> drop_bit 56 p = 0 \<and> tabs s' = insert p (tabs s)"
    and alloc_zero: "pool_ok s \<Longrightarrow> alloc s = Some (p, s') \<Longrightarrow> i < 512 \<Longrightarrow> mem s' (slot p i) = 0"
    and alloc_frame: "pool_ok s \<Longrightarrow> alloc s = Some (p, s') \<Longrightarrow>
      (\<And>i. i < 512 \<Longrightarrow> a \<noteq> slot p i) \<Longrightarrow> mem s' a = mem s a"
    and store_keeps: "tabs (st64 a v s) = tabs s" "pool_ok (st64 a v s) = pool_ok s"
      "room (st64 a v s) = room s"
begin

definition tables_ok :: "(u64 \<Rightarrow> nat) \<Rightarrow> u64 \<Rightarrow> 'z phys_scheme \<Rightarrow> bool" where
  "tables_ok lv root s \<longleftrightarrow> pool_ok s \<and> wf_tables lv (tabs s) root (mem s)"

lemma ensure_table_step:
  assumes ok: "tables_ok lv root s" and t: "t \<in> tabs s" "lv t = Suc l" and i: "i < 512"
    and clear: "\<not> bit (mem s (slot t i)) 0 \<or> is_branch (mem s (slot t i))"
    and e: "ensure_table alloc (slot t i) s = Some s'"
  shows "\<exists>lv'. tables_ok lv' root s' \<and> (\<forall>x \<in> tabs s. lv' x = lv x) \<and> tabs s \<subseteq> tabs s' \<and>
     is_branch (mem s' (slot t i)) \<and> pte_target (mem s' (slot t i)) \<in> tabs s' \<and>
     lv' (pte_target (mem s' (slot t i))) = l \<and>
     (\<forall>u k va. u \<in> tabs s \<longrightarrow> lv u = k \<longrightarrow> sv39_walk (mem s') k u va = sv39_walk (mem s) k u va) \<and>
     (\<forall>a. a \<notin> table_words (tabs s') \<longrightarrow> mem s' a = mem s a) \<and> room s \<le> Suc (room s') \<and>
     (\<forall>v j. v \<in> tabs s \<longrightarrow> j < 512 \<longrightarrow> bit (mem s (slot v j)) 0 \<longrightarrow> mem s' (slot v j) = mem s (slot v j)) \<and>
     (s' = s \<or> (\<forall>j < 512. mem s' (slot (pte_target (mem s' (slot t i))) j) = 0))"
proof (cases "bit (mem s (slot t i)) 0")
  case True
  with e clear have s': "s' = s" and b: "is_branch (mem s (slot t i))" by (auto simp: ensure_table_def)
  from ok have wf: "wf_tables lv (tabs s) root (mem s)" by (simp add: tables_ok_def)
  from wf_child [OF wf t(1) i b] t(2) ok b show ?thesis unfolding s' by (intro exI [of _ lv]) auto
next
  case False
  with e obtain p s1 where al: "alloc s = Some (p, s1)" and s': "s' = st64 (slot t i) (branch_to p) s1"
    by (auto simp: ensure_table_def split: bind_splits)
  from ok have po: "pool_ok s" and wf: "wf_tables lv (tabs s) root (mem s)" by (simp_all add: tables_ok_def)
  note fresh = alloc_fresh [OF po al]
  note lk = link_table [OF wf t(1) i t(2) False, of p "mem s1"] fresh
  have zero: "\<And>j. j < 512 \<Longrightarrow> mem s1 (slot p j) = 0" using alloc_zero [OF po al] .
  have fr: "\<And>a. (\<And>j. j < 512 \<Longrightarrow> a \<noteq> slot p j) \<Longrightarrow> mem s1 a = mem s a" using alloc_frame [OF po al] .
  have "wf_tables (lv(p := l)) (insert p (tabs s)) root ((mem s1)(slot t i := branch_to p))"
    using lk zero fr by auto
  then have ok': "tables_ok (lv(p := l)) root s'"
    using alloc_ok [OF po al] fresh store_keeps unfolding tables_ok_def s' by auto
  have walks: "sv39_walk (mem s') k u va = sv39_walk (mem s) k u va" if "u \<in> tabs s" "lv u = k" for u k va
    using lk(2) [OF _ _ _ zero fr that] fresh unfolding s' by simp
  have outside: "mem s' a = mem s a" if "a \<notin> table_words (tabs s')" for a
  proof -
    have "a \<noteq> slot t i" "\<And>j. j < 512 \<Longrightarrow> a \<noteq> slot p j"
      using that t(1) i fresh store_keeps unfolding s' by auto
    then show ?thesis unfolding s' using fr by simp
  qed
  have sep: "slot v j \<noteq> slot p h" if "v \<in> tabs s" "j < 512" "h < 512" for v j h
    using that fresh slot_eq_iff [OF wf_aligned [OF wf that(1)] that(2) _ that(3), of p] by auto
  have kept: "mem s' (slot v j) = mem s (slot v j)" if "v \<in> tabs s" "j < 512" "bit (mem s (slot v j)) 0" for v j
    using that False fr [of "slot v j"] sep [OF that(1,2)] unfolding s' by auto
  have blank: "mem s' (slot p j) = 0" if "j < 512" for j
    using zero [OF that] sep [OF t(1) i that] unfolding s' by auto
  from ok' walks outside kept blank fresh t store_keeps alloc_less_room [OF po al] show ?thesis
    by (intro exI [of _ "lv(p := l)"]) (auto simp: s')
qed

lemma path_clear_blank:
  "(\<forall>j < 512. m (slot t j) = 0) \<Longrightarrow> path_clear m k l t va"
  by (cases k) (simp_all add: Let_def)

lemma descend_step:
  assumes "tables_ok lv root s" "t \<in> tabs s" "lv t = l" "k \<le> l" "path_clear (mem s) k l t va"
    "descend alloc va k l t s = Some (u, s')"
  shows "\<exists>lv'. tables_ok lv' root s' \<and> (\<forall>x \<in> tabs s. lv' x = lv x) \<and> tabs s \<subseteq> tabs s' \<and>
     u \<in> tabs s' \<and> lv' u = l - k \<and> slot u (vpn_ix (l - k) va) \<in> set (visited (mem s') l t va) \<and>
     (\<forall>v j w. v \<in> tabs s \<longrightarrow> lv v = j \<longrightarrow> sv39_walk (mem s') j v w = sv39_walk (mem s) j v w) \<and>
     (\<forall>a. a \<notin> table_words (tabs s') \<longrightarrow> mem s' a = mem s a) \<and> room s \<le> k + room s' \<and>
     (\<forall>v j. v \<in> tabs s \<longrightarrow> j < 512 \<longrightarrow> bit (mem s (slot v j)) 0 \<longrightarrow> mem s' (slot v j) = mem s (slot v j))"
  using assms
proof (induction k arbitrary: l t s lv)
  case 0
  then show ?case by (intro exI [of _ lv]) (cases l; auto simp: Let_def)
next
  case (Suc k)
  then obtain l' where l: "l = Suc l'" by (cases l) auto
  let ?a = "slot t (vpn_ix l va)"
  from Suc.prems(6) obtain s1 where e1: "ensure_table alloc ?a s = Some s1"
    and d: "descend alloc va k l' (pte_target (mem s1 ?a)) s1 = Some (u, s')"
    by (auto simp: l split: bind_splits)
  have cl: "\<not> bit (mem s ?a) 0 \<or> is_branch (mem s ?a)"
    using Suc.prems(5) by (auto simp: Let_def)
  from ensure_table_step [OF Suc.prems(1,2) _ vpn_ix_less cl e1, of l'] Suc.prems(3)
  obtain lv1 where 1: "tables_ok lv1 root s1" "\<forall>x \<in> tabs s. lv1 x = lv x" "tabs s \<subseteq> tabs s1"
    "is_branch (mem s1 ?a)" "pte_target (mem s1 ?a) \<in> tabs s1" "lv1 (pte_target (mem s1 ?a)) = l'"
    "\<forall>u k va. u \<in> tabs s \<longrightarrow> lv u = k \<longrightarrow> sv39_walk (mem s1) k u va = sv39_walk (mem s) k u va"
    "\<forall>a. a \<notin> table_words (tabs s1) \<longrightarrow> mem s1 a = mem s a" "room s \<le> Suc (room s1)"
    "\<forall>v j. v \<in> tabs s \<longrightarrow> j < 512 \<longrightarrow> bit (mem s (slot v j)) 0 \<longrightarrow> mem s1 (slot v j) = mem s (slot v j)"
    "s1 = s \<or> (\<forall>j < 512. mem s1 (slot (pte_target (mem s1 ?a)) j) = 0)"
    unfolding l by auto
  have "path_clear (mem s1) k l' (pte_target (mem s1 ?a)) va"
    using 1(11)
  proof
    assume "s1 = s"
    with Suc.prems(5) 1(4) show ?thesis by (auto simp: l Let_def is_branch_def)
  qed (rule path_clear_blank)
  from Suc.IH [OF 1(1,5,6) _ this d] Suc.prems(4)
  obtain lv2 where 2: "tables_ok lv2 root s'" "\<forall>x \<in> tabs s1. lv2 x = lv1 x" "tabs s1 \<subseteq> tabs s'"
    "u \<in> tabs s'" "lv2 u = l' - k" "slot u (vpn_ix (l' - k) va) \<in> set (visited (mem s') l' (pte_target (mem s1 ?a)) va)"
    "\<forall>v j w. v \<in> tabs s1 \<longrightarrow> lv1 v = j \<longrightarrow> sv39_walk (mem s') j v w = sv39_walk (mem s1) j v w"
    "\<forall>a. a \<notin> table_words (tabs s') \<longrightarrow> mem s' a = mem s1 a" "room s1 \<le> k + room s'"
    "\<forall>v j. v \<in> tabs s1 \<longrightarrow> j < 512 \<longrightarrow> bit (mem s1 (slot v j)) 0 \<longrightarrow> mem s' (slot v j) = mem s1 (slot v j)"
    unfolding l by auto
  have t1: "t \<in> tabs s1" using 1(3) Suc.prems(2) by auto
  have a: "mem s' ?a = mem s1 ?a" using 2(10) t1 1(4) by (simp add: is_branch_def)
  have vis: "set (visited (mem s') l' (pte_target (mem s1 ?a)) va) \<subseteq> set (visited (mem s') l t va)"
    using a 1(4) by (auto simp: l Let_def)
  have tw: "table_words (tabs s1) \<subseteq> table_words (tabs s')" using 2(3) by (rule table_words_mono)
  show ?case
    using 1 2 a vis tw t1 unfolding l
    by (intro exI [of _ lv2]) auto
qed

theorem map_at_translate:
  assumes ok: "tables_ok lv root s" and n: "n \<le> 2" and cl: "path_clear (mem s) (2 - n) 2 root va"
    and e: "\<not> is_branch e" and m: "map_at alloc n root va e s = Some s'"
  shows "\<exists>lv'. tables_ok lv' root s'" and "tabs s \<subseteq> tabs s'" and "room s \<le> 2 - n + room s'"
    and "sv39_translate c (mem s') root acc va' =
      (if same_block n va va' then entry_xlat c acc va' n e else sv39_translate c (mem s) root acc va')"
    and "a \<notin> table_words (tabs s') \<Longrightarrow> mem s' a = mem s a"
proof -
  from m obtain u s1 where d: "descend alloc va (2 - n) 2 root s = Some (u, s1)"
    and s': "s' = st64 (slot u (vpn_ix n va)) e s1" by (auto simp: map_at_def split: bind_splits)
  from ok have wf: "wf_tables lv (tabs s) root (mem s)" by (simp add: tables_ok_def)
  from descend_step [OF ok wf_root(1,2) [OF wf] _ cl d] n
  obtain lv' where 1: "tables_ok lv' root s1" "\<forall>x \<in> tabs s. lv' x = lv x" "tabs s \<subseteq> tabs s1"
    "u \<in> tabs s1" "lv' u = n" "slot u (vpn_ix n va) \<in> set (visited (mem s1) 2 root va)"
    "\<forall>v j w. v \<in> tabs s \<longrightarrow> lv v = j \<longrightarrow> sv39_walk (mem s1) j v w = sv39_walk (mem s) j v w"
    "\<forall>a. a \<notin> table_words (tabs s1) \<longrightarrow> mem s1 a = mem s a" "room s \<le> 2 - n + room s1"
    by auto
  from 1(1) have wf1: "wf_tables lv' (tabs s1) root (mem s1)" by (simp add: tables_ok_def)
  have "tables_ok lv' root s'"
    using 1(1) wf_put_leaf [OF wf1 1(4) vpn_ix_less e] store_keeps by (simp add: tables_ok_def s')
  then show "\<exists>lv'. tables_ok lv' root s'" by blast
  show "tabs s \<subseteq> tabs s'" "room s \<le> 2 - n + room s'" using 1 store_keeps by (simp_all add: s')
  show "a \<notin> table_words (tabs s') \<Longrightarrow> mem s' a = mem s a"
    using 1(4,8) store_keeps by (auto simp: s')
  have walk: "sv39_walk (mem s') 2 root va' =
      (if same_block n va va' then if pte_valid e \<and> pte_is_leaf e then Some (n, e) else None
       else sv39_walk (mem s) 2 root va')" for va'
  proof (cases "same_block n va va'")
    case True
    with walk_to_entry [OF wf1 1(4,5) e wf_root(1,2) [OF wf1] 1(6), of va'] show ?thesis
      by (simp add: s' same_block_def)
  next
    case False
    with walk_put_leaf_other [OF wf1 1(4,5,6) False] 1(7) wf_root [OF wf] show ?thesis by (simp add: s')
  qed
  show "sv39_translate c (mem s') root acc va' =
      (if same_block n va va' then entry_xlat c acc va' n e else sv39_translate c (mem s) root acc va')"
    by (auto simp: sv39_translate_def entry_xlat_def walk)
qed

lemma descend_returns:
  "tables_ok lv root s \<Longrightarrow> t \<in> tabs s \<Longrightarrow> lv t = l \<Longrightarrow> k \<le> l \<Longrightarrow> path_clear (mem s) k l t va \<Longrightarrow>
   missing_tables (mem s) k l t va \<le> room s \<Longrightarrow> \<exists>u s'. descend alloc va k l t s = Some (u, s')"
proof (induction k arbitrary: l t s lv)
  case (Suc k)
  then obtain l' where l: "l = Suc l'" by (cases l) auto
  let ?a = "slot t (vpn_ix l va)"
  from Suc.prems(1) have po: "pool_ok s" by (simp add: tables_ok_def)
  have "\<exists>s1. ensure_table alloc ?a s = Some s1"
    using alloc_room [OF po] Suc.prems(6) by (auto simp: ensure_table_def Let_def)
  then obtain s1 where e1: "ensure_table alloc ?a s = Some s1" by blast
  have cl: "\<not> bit (mem s ?a) 0 \<or> is_branch (mem s ?a)"
    using Suc.prems(5) by (auto simp: Let_def)
  from ensure_table_step [OF Suc.prems(1,2) _ vpn_ix_less cl e1, of l'] Suc.prems(3)
  obtain lv1 where 1: "tables_ok lv1 root s1" "is_branch (mem s1 ?a)" "pte_target (mem s1 ?a) \<in> tabs s1"
    "lv1 (pte_target (mem s1 ?a)) = l'" "room s \<le> Suc (room s1)"
    "s1 = s \<or> (\<forall>j < 512. mem s1 (slot (pte_target (mem s1 ?a)) j) = 0)"
    unfolding l by auto
  have pc: "path_clear (mem s1) k l' (pte_target (mem s1 ?a)) va"
    using 1(6)
  proof
    assume "s1 = s"
    with Suc.prems(5) 1(2) show ?thesis by (auto simp: l Let_def is_branch_def)
  qed (rule path_clear_blank)
  have "missing_tables (mem s1) k l' (pte_target (mem s1 ?a)) va \<le> room s1"
  proof (cases "bit (mem s ?a) 0")
    case True
    with e1 have "s1 = s" by (simp add: ensure_table_def)
    with True Suc.prems(6) show ?thesis by (simp add: l Let_def)
  next
    case False
    with Suc.prems(6) 1(5) have "k \<le> room s1" by (simp add: Let_def)
    then show ?thesis using missing_tables_le [of "mem s1" k] le_trans by blast
  qed
  from Suc.IH [OF 1(1,3,4) _ pc this] Suc.prems(4) e1 show ?case by (auto simp: l)
qed simp

theorem map_at_returns:
  assumes ok: "tables_ok lv root s" and "n \<le> 2" "path_clear (mem s) (2 - n) 2 root va"
    "missing_tables (mem s) (2 - n) 2 root va \<le> room s"
  shows "\<exists>s'. map_at alloc n root va e s = Some s'"
proof -
  from ok have wf: "wf_tables lv (tabs s) root (mem s)" by (simp add: tables_ok_def)
  from descend_returns [OF ok wf_root(1,2) [OF wf] _ assms(3,4)] show ?thesis by (auto simp: map_at_def)
qed

end

end
