(* ===== verification/Table_Entry.thy ===== *)
theory Table_Entry
  imports Table_Map
begin

text \<open>
  The entry that decides about an address. \<open>stop_at\<close> follows the branches from the root and
  gives the level and the address of the first entry that is not one; the hardware translation is
  what that entry makes of the address. Rewriting the entry, or mapping another page, leaves it where it
  is.
\<close>

fun stop_at :: "(u64 \<Rightarrow> u64) \<Rightarrow> nat \<Rightarrow> u64 \<Rightarrow> u64 \<Rightarrow> nat \<times> u64" where
  "stop_at m 0 t va = (0, slot t (vpn_ix 0 va))"
| "stop_at m (Suc k) t va =
     (let a = slot t (vpn_ix (Suc k) va)
      in if is_branch (m a) then stop_at m k (pte_target (m a)) va else (Suc k, a))"

text \<open>The branches on the way.\<close>

fun spine :: "(u64 \<Rightarrow> u64) \<Rightarrow> nat \<Rightarrow> u64 \<Rightarrow> u64 \<Rightarrow> u64 set" where
  "spine m 0 t va = {}"
| "spine m (Suc k) t va =
     (let a = slot t (vpn_ix (Suc k) va)
      in if is_branch (m a) then insert a (spine m k (pte_target (m a)) va) else {})"

lemma stop_at_level: "stop_at m l t va = (n, a) \<Longrightarrow> n \<le> l"
  by (induction m l t va rule: stop_at.induct) (auto simp: Let_def split: if_splits)

lemma stop_at_leaf: "stop_at m l t va = (n, a) \<Longrightarrow> n = 0 \<or> \<not> is_branch (m a)"
  by (induction m l t va rule: stop_at.induct) (auto simp: Let_def split: if_splits)

lemma stop_at_visited: "stop_at m l t va = (n, a) \<Longrightarrow> a \<in> set (visited m l t va)"
  by (induction m l t va rule: stop_at.induct) (auto simp: Let_def split: if_splits)

lemma spine_visited: "spine m l t va \<subseteq> set (visited m l t va)"
  by (induction m l t va rule: spine.induct) (auto simp: Let_def)

lemma spine_branch: "a \<in> spine m l t va \<Longrightarrow> is_branch (m a)"
  by (induction m l t va rule: spine.induct) (auto simp: Let_def split: if_splits)

lemma stop_at_cong:
  "(\<And>x. x \<in> spine m l t va \<Longrightarrow> m' x = m x) \<Longrightarrow> stop_at m l t va = (n, a) \<Longrightarrow>
   n = 0 \<or> \<not> is_branch (m' a) \<Longrightarrow> stop_at m' l t va = (n, a)"
  by (induction m l t va rule: stop_at.induct) (auto simp: Let_def split: if_splits)

lemma stop_at_visited_cong:
  assumes eq: "\<And>x. x \<in> set (visited m l t va) \<Longrightarrow> m' x = m x" and st: "stop_at m l t va = (n, a)"
  shows "stop_at m' l t va = (n, a)"
proof (rule stop_at_cong [OF _ st])
  show "m' x = m x" if "x \<in> spine m l t va" for x using eq that spine_visited [of m l t va] by blast
  show "n = 0 \<or> \<not> is_branch (m' a)" using stop_at_leaf [OF st] eq [OF stop_at_visited [OF st]] by simp
qed

lemma stop_at_slot:
  "wf_tables lv T root m \<Longrightarrow> t \<in> T \<Longrightarrow> lv t = l \<Longrightarrow> stop_at m l t va = (n, a) \<Longrightarrow>
   \<exists>u \<in> T. lv u = n \<and> a = slot u (vpn_ix n va)"
proof (induction l arbitrary: t)
  case (Suc k)
  let ?a = "slot t (vpn_ix (Suc k) va)"
  show ?case
  proof (cases "is_branch (m ?a)")
    case True
    with wf_child [OF Suc.prems(1,2) vpn_ix_less True] Suc.prems show ?thesis
      using Suc.IH [OF Suc.prems(1), of "pte_target (m ?a)"] by auto
  qed (use Suc.prems in auto)
qed auto

lemma spine_slot:
  "wf_tables lv T root m \<Longrightarrow> t \<in> T \<Longrightarrow> lv t = l \<Longrightarrow> a \<in> spine m l t va \<Longrightarrow>
   \<exists>u \<in> T. \<exists>i < 512. 0 < lv u \<and> a = slot u i"
proof (induction l arbitrary: t)
  case (Suc k)
  let ?a = "slot t (vpn_ix (Suc k) va)"
  from Suc.prems(4) have b: "is_branch (m ?a)" by (auto simp: Let_def split: if_splits)
  show ?case
  proof (cases "a = ?a")
    case True
    with Suc.prems show ?thesis by (intro bexI [of _ t] exI [of _ "vpn_ix (Suc k) va"]) auto
  next
    case False
    with Suc.prems(4) b wf_child [OF Suc.prems(1,2) vpn_ix_less b] Suc.prems(3) show ?thesis
      using Suc.IH [OF Suc.prems(1), of "pte_target (m ?a)"] by (auto simp: Let_def)
  qed
qed simp

lemma path_clear_stop:
  "k \<le> l \<Longrightarrow> stop_at m l t va = (n, a) \<Longrightarrow> path_clear m k l t va \<longleftrightarrow> n \<le> l - k \<or> \<not> bit (m a) 0"
proof (induction l arbitrary: k t)
  case (Suc l)
  let ?a = "slot t (vpn_ix (Suc l) va)"
  show ?case
  proof (cases k)
    case 0
    with stop_at_level [OF Suc.prems(2)] show ?thesis by simp
  next
    case (Suc k')
    show ?thesis
    proof (cases "is_branch (m ?a)")
      case True
      moreover from True have "bit (m ?a) 0" by (simp add: is_branch_def)
      ultimately show ?thesis
        using Suc.IH [of k' "pte_target (m ?a)"] Suc.prems \<open>k = Suc k'\<close> by (simp add: Let_def)
    next
      case False
      with Suc.prems \<open>k = Suc k'\<close> show ?thesis by (auto simp: Let_def)
    qed
  qed
qed auto

lemma walk_stop_at:
  assumes wf: "wf_tables lv T root m"
  shows "t \<in> T \<Longrightarrow> lv t = l \<Longrightarrow> stop_at m l t va = (n, a) \<Longrightarrow>
    sv39_walk m l t va = (if pte_valid (m a) \<and> pte_is_leaf (m a) then Some (n, m a) else None)"
proof (induction l arbitrary: t)
  case 0
  then show ?case by (auto simp: sv39_walk_eq)
next
  case (Suc k)
  let ?a = "slot t (vpn_ix (Suc k) va)"
  show ?case
  proof (cases "is_branch (m ?a)")
    case True
    from wf_child [OF wf Suc.prems(1) vpn_ix_less True] Suc.prems(2)
    have "pte_target (m ?a) \<in> T" "lv (pte_target (m ?a)) = k" by auto
    from Suc.IH [OF this] Suc.prems(3) True
      sv39_walk_branch [of m t k va, OF refl True wf_branch_valid [OF wf Suc.prems(1) vpn_ix_less True]]
    show ?thesis by simp
  next
    case False
    with Suc.prems(3) have "n = Suc k" "a = ?a" by (auto simp: Let_def)
    with False branch_walk_step(2) [of "m ?a"] show ?thesis by (auto simp: sv39_walk_eq [of m "Suc k"])
  qed
qed

lemma translate_stop_at:
  assumes "wf_tables lv T root m" "stop_at m 2 root va = (n, a)"
  shows "sv39_translate c m root acc va = entry_xlat c acc va n (m a)"
  using walk_stop_at [OF assms(1) wf_root [OF assms(1)] assms(2)]
  by (simp add: sv39_translate_def entry_xlat_def)

section \<open>Rewriting the entry\<close>

lemma spine_not_stop:
  assumes wf: "wf_tables lv T root m" and st: "stop_at m 2 root va = (n, a)"
  shows "a \<notin> spine m 2 root va'"
proof
  assume a: "a \<in> spine m 2 root va'"
  from stop_at_slot [OF wf wf_root [OF wf] st] obtain u where u: "u \<in> T" "lv u = n" "a = slot u (vpn_ix n va)" by blast
  from spine_slot [OF wf wf_root [OF wf] a] obtain v i where v: "v \<in> T" "i < 512" "0 < lv v" "a = slot v i" by blast
  with spine_branch [OF a] stop_at_leaf [OF st] u(2,3) wf_slot_eq_iff [OF wf v(1) u(1) v(2) vpn_ix_less]
  show False by auto
qed

lemma rewrite_stop_at:
  assumes wf: "wf_tables lv T root m" and st: "stop_at m 2 root va = (n, a)" and e: "\<not> is_branch e"
  shows "wf_tables lv T root (m(a := e))" and "a \<in> table_words T"
    and "stop_at (m(a := e)) 2 root va = (n, a)"
    and "sv39_translate c (m(a := e)) root acc va' =
      (if same_block n va va' then entry_xlat c acc va' n e else sv39_translate c m root acc va')"
proof -
  from stop_at_slot [OF wf wf_root [OF wf] st] obtain u where u: "u \<in> T" "lv u = n" "a = slot u (vpn_ix n va)" by blast
  show wf': "wf_tables lv T root (m(a := e))" using wf_put_leaf [OF wf u(1) vpn_ix_less e] u(3) by simp
  show "a \<in> table_words T" using u by simp
  show "stop_at (m(a := e)) 2 root va = (n, a)"
    by (rule stop_at_cong [OF _ st]) (use spine_not_stop [OF wf st] e in auto)
  have on: "slot u (vpn_ix n va) \<in> set (visited m 2 root va)" using stop_at_visited [OF st] u(3) by simp
  have "sv39_walk (m(a := e)) 2 root va' =
      (if same_block n va va' then if pte_valid e \<and> pte_is_leaf e then Some (n, e) else None
       else sv39_walk m 2 root va')"
    using walk_to_entry [OF wf u(1,2) e wf_root [OF wf] on, of va'] walk_put_leaf_other [OF wf u(1,2) on, of va' e]
    by (auto simp: u(3) same_block_def)
  then show "sv39_translate c (m(a := e)) root acc va' =
      (if same_block n va va' then entry_xlat c acc va' n e else sv39_translate c m root acc va')"
    by (auto simp: sv39_translate_def entry_xlat_def)
qed

text \<open>Every address keeps its deciding word when one of them is rewritten.\<close>

lemma rewrite_keeps_stop:
  assumes wf: "wf_tables lv T root m" and st: "stop_at m 2 root va = (n, a)" and e: "\<not> is_branch e"
  shows "stop_at (m(a := e)) 2 root va' = stop_at m 2 root va'"
proof (cases "stop_at m 2 root va'")
  case (Pair n' b)
  have "n' = 0 \<or> \<not> is_branch ((m(a := e)) b)" using stop_at_leaf [OF Pair] e by auto
  then have "stop_at (m(a := e)) 2 root va' = (n', b)"
    by (intro stop_at_cong [OF _ Pair]) (use spine_not_stop [OF wf st, of va'] in auto)
  then show ?thesis by (simp add: Pair)
qed

lemma stop_at_block:
  "stop_at m l t va = (n, a) \<Longrightarrow> (\<And>k. n \<le> k \<Longrightarrow> k \<le> l \<Longrightarrow> vpn_ix k va' = vpn_ix k va) \<Longrightarrow> stop_at m l t va' = (n, a)"
proof (induction l arbitrary: t)
  case (Suc l)
  have "n \<le> Suc l" by (rule stop_at_level [OF Suc.prems(1)])
  then have "vpn_ix (Suc l) va' = vpn_ix (Suc l) va" by (intro Suc.prems(2)) auto
  with Suc show ?case by (auto simp: Let_def split: if_splits)
qed simp

text \<open>Words outside the tables do not matter.\<close>

lemma wf_tables_outside:
  assumes "wf_tables lv T root m" "\<And>x. x \<in> table_words T \<Longrightarrow> m' x = m x"
  shows "wf_tables lv T root m'"
proof -
  have "m' (slot t i) = m (slot t i)" if "t \<in> T" "i < 512" for t i using assms(2) that by simp
  with assms(1) show ?thesis unfolding wf_tables_def by auto
qed

lemma stop_at_outside:
  assumes wf: "wf_tables lv T root m" and eq: "\<And>x. x \<in> table_words T \<Longrightarrow> m' x = m x"
  shows "stop_at m' 2 root va = stop_at m 2 root va"
proof (cases "stop_at m 2 root va")
  case (Pair n a)
  note rt = wf_root [OF wf]
  from stop_at_slot [OF wf rt Pair] have "m' a = m a" using eq by auto
  moreover have "m' x = m x" if "x \<in> spine m 2 root va" for x using spine_slot [OF wf rt that] eq by auto
  ultimately show ?thesis using stop_at_cong [OF _ Pair, of m'] stop_at_leaf [OF Pair] by (simp add: Pair)
qed

lemma path_outside:
  assumes wf: "wf_tables lv T root m" and eq: "\<And>x. x \<in> table_words T \<Longrightarrow> m' x = m x"
  shows "t \<in> T \<Longrightarrow> lv t = l \<Longrightarrow> k \<le> l \<Longrightarrow>
    path_clear m' k l t va = path_clear m k l t va \<and>
    (path_clear m k l t va \<longrightarrow> missing_tables m' k l t va = missing_tables m k l t va)"
proof (induction k arbitrary: t l)
  case (Suc k)
  let ?a = "slot t (vpn_ix l va)"
  have a: "m' ?a = m ?a" using eq Suc.prems(1) by simp
  show ?case
  proof (cases "is_branch (m ?a)")
    case True
    from wf_child [OF wf Suc.prems(1) vpn_ix_less True] Suc.prems(2)
    have c: "pte_target (m ?a) \<in> T" "lv (pte_target (m ?a)) = l - 1" "bit (m ?a) 0"
      using True by (auto simp: is_branch_def)
    with Suc.IH [OF c(1,2)] Suc.prems(3) a True show ?thesis by (simp add: Let_def)
  next
    case False
    then show ?thesis using a by (auto simp: Let_def)
  qed
qed simp

text \<open>The pages reached at level 0 stay where they are.\<close>

lemma rewrite_keeps_page:
  assumes wf: "wf_tables lv T root m" and st: "stop_at m 2 root va = (n, a)"
    and pg: "stop_at m 2 root va' = (0, b)"
  shows "stop_at (m(a := e)) 2 root va' = (0, b)"
  by (rule stop_at_cong [OF _ pg]) (use spine_not_stop [OF wf st] in auto)

lemma stop_at_same:
  assumes wf: "wf_tables lv T root m" and st: "stop_at m 2 root va = (n, a)" "stop_at m 2 root va' = (n', a)"
  shows "same_block n va va'"
proof -
  note rt = wf_root [OF wf]
  from stop_at_slot [OF wf rt st(1)] obtain u where u: "u \<in> T" "lv u = n" "a = slot u (vpn_ix n va)" by blast
  have "a \<in> set (visited m 2 root va)" "a \<in> set (visited m 2 root va')" using st by (simp_all add: stop_at_visited)
  with visited_shared [OF wf u(1) vpn_ix_less rt(1) rt(1) rt(2) rt(2)] u show ?thesis
    unfolding same_block_def by blast
qed

section \<open>Mapping a page keeps the others\<close>

lemma visited_stop:
  assumes wf: "wf_tables lv T root m" and u: "u \<in> T" "lv u = n" and e: "\<not> is_branch e"
  shows "t \<in> T \<Longrightarrow> lv t = l \<Longrightarrow> slot u (vpn_ix n va) \<in> set (visited m l t va) \<Longrightarrow>
    stop_at (m(slot u (vpn_ix n va) := e)) l t va = (n, slot u (vpn_ix n va))"
proof (induction l arbitrary: t)
  case 0
  have "u = t" using 0(1,3) wf_slot_eq_iff [OF wf u(1) 0(1) vpn_ix_less vpn_ix_less] by auto
  with 0 u(2) show ?case by simp
next
  case (Suc l)
  let ?a = "slot t (vpn_ix (Suc l) va)"
  show ?case
  proof (cases "u = t")
    case True
    with Suc.prems(2) u(2) have "n = Suc l" by simp
    with True e show ?thesis by simp
  next
    case False
    then have ne: "?a \<noteq> slot u (vpn_ix n va)"
      using wf_slot_eq_iff [OF wf u(1) Suc.prems(1) vpn_ix_less vpn_ix_less] by metis
    with Suc.prems(3) have b: "is_branch (m ?a)"
      and on: "slot u (vpn_ix n va) \<in> set (visited m l (pte_target (m ?a)) va)"
      by (auto simp: Let_def split: if_splits)
    from wf_child [OF wf Suc.prems(1) vpn_ix_less b] Suc.prems(2)
    have "pte_target (m ?a) \<in> T" "lv (pte_target (m ?a)) = l" by auto
    from Suc.IH [OF this on] b ne show ?thesis by (simp add: Let_def)
  qed
qed

context table_alloc
begin

lemma map_at_end:
  assumes ok: "tables_ok lv root s" and n: "n \<le> 2" and cl: "path_clear (mem s) (2 - n) 2 root va"
    and e: "\<not> is_branch e" and m: "map_at alloc n root va e s = Some s'"
  obtains lv' u where "tables_ok lv' root s'" "u \<in> tabs s'" "lv' u = n" "\<forall>x \<in> tabs s. lv' x = lv x" "tabs s \<subseteq> tabs s'"
    "stop_at (mem s') 2 root va = (n, slot u (vpn_ix n va))" "mem s' (slot u (vpn_ix n va)) = e"
    "\<And>v j. v \<in> tabs s \<Longrightarrow> j < 512 \<Longrightarrow> bit (mem s (slot v j)) 0 \<Longrightarrow> slot v j \<noteq> slot u (vpn_ix n va) \<Longrightarrow>
       mem s' (slot v j) = mem s (slot v j)"
proof -
  from m obtain u s1 where d: "descend alloc va (2 - n) 2 root s = Some (u, s1)"
    and s': "s' = st64 (slot u (vpn_ix n va)) e s1" by (auto simp: map_at_def split: bind_splits)
  from ok have wf: "wf_tables lv (tabs s) root (mem s)" by (simp add: tables_ok_def)
  from descend_step [OF ok wf_root(1,2) [OF wf] _ cl d] n
  obtain lv' where 1: "tables_ok lv' root s1" "\<forall>x \<in> tabs s. lv' x = lv x" "tabs s \<subseteq> tabs s1"
    "u \<in> tabs s1" "lv' u = n" "slot u (vpn_ix n va) \<in> set (visited (mem s1) 2 root va)"
    "\<forall>v j. v \<in> tabs s \<longrightarrow> j < 512 \<longrightarrow> bit (mem s (slot v j)) 0 \<longrightarrow> mem s1 (slot v j) = mem s (slot v j)"
    by auto
  from 1(1) have wf1: "wf_tables lv' (tabs s1) root (mem s1)" by (simp add: tables_ok_def)
  have "tables_ok lv' root s'"
    using 1(1) wf_put_leaf [OF wf1 1(4) vpn_ix_less e] store_keeps by (simp add: tables_ok_def s')
  moreover have "stop_at (mem s') 2 root va = (n, slot u (vpn_ix n va))"
    using visited_stop [OF wf1 1(4,5) e wf_root [OF wf1] 1(6)] by (simp add: s')
  ultimately show thesis
    using that [of lv' u] 1 store_keeps by (simp add: s')
qed

lemma map_at_keeps_page:
  assumes ok: "tables_ok lv root s" and cl: "path_clear (mem s) 2 2 root va"
    and e: "\<not> is_branch e" and m: "map_at alloc 0 root va e s = Some s'"
    and pg: "stop_at (mem s) 2 root va' = (0, b)"
  shows "stop_at (mem s') 2 root va' = (0, b)"
proof -
  from ok have wf: "wf_tables lv (tabs s) root (mem s)" by (simp add: tables_ok_def)
  have cl0: "path_clear (mem s) (2 - 0) 2 root va" and le: "0 \<le> (2 :: nat)" using cl by simp_all
  obtain lv' u where 1: "tables_ok lv' root s'" "u \<in> tabs s'" "lv' u = 0" "\<forall>x \<in> tabs s. lv' x = lv x" "tabs s \<subseteq> tabs s'"
    "stop_at (mem s') 2 root va = (0, slot u (vpn_ix 0 va))" "mem s' (slot u (vpn_ix 0 va)) = e"
    "\<And>v j. v \<in> tabs s \<Longrightarrow> j < 512 \<Longrightarrow> bit (mem s (slot v j)) 0 \<Longrightarrow> slot v j \<noteq> slot u (vpn_ix 0 va) \<Longrightarrow>
       mem s' (slot v j) = mem s (slot v j)"
    using map_at_end [OF ok le cl0 e m] by metis
  from 1(1) have wf': "wf_tables lv' (tabs s') root (mem s')" by (simp add: tables_ok_def)
  have "mem s' x = mem s x" if "x \<in> spine (mem s) 2 root va'" for x
  proof -
    from spine_slot [OF wf wf_root [OF wf] that] obtain v i where v: "v \<in> tabs s" "i < 512" "0 < lv v" "x = slot v i" by blast
    then have "v \<noteq> u" using 1(3,4) by auto
    then have "x \<noteq> slot u (vpn_ix 0 va)" using v 1(2,5) wf_slot_eq_iff [OF wf' _ 1(2) v(2) vpn_ix_less] by auto
    then show ?thesis using 1(8) [OF v(1,2)] v(4) spine_branch [OF that] by (simp add: is_branch_def)
  qed
  then show ?thesis using stop_at_cong [OF _ pg] by blast
qed

text \<open>A path without superpage leaf stays one.\<close>

lemma ensure_path_clear:
  assumes ok: "tables_ok lv root s" and t: "t \<in> tabs s" "i < 512" and e: "ensure_table alloc (slot t i) s = Some s'"
  shows "v \<in> tabs s \<Longrightarrow> lv v = l \<Longrightarrow> path_clear (mem s) k l v va \<Longrightarrow> path_clear (mem s') k l v va"
proof (cases "bit (mem s (slot t i)) 0")
  case True
  with e show "path_clear (mem s) k l v va \<Longrightarrow> path_clear (mem s') k l v va" by (simp add: ensure_table_def)
next
  case False
  with e obtain p s1 where al: "alloc s = Some (p, s1)" and s': "s' = st64 (slot t i) (branch_to p) s1"
    by (auto simp: ensure_table_def split: bind_splits)
  from ok have po: "pool_ok s" and wf: "wf_tables lv (tabs s) root (mem s)" by (simp_all add: tables_ok_def)
  note fresh = alloc_fresh [OF po al]
  have p: "p \<notin> tabs s" "page_aligned p" "drop_bit 56 p = 0" using fresh by simp_all
  have sep: "slot w j \<noteq> slot p h" if "w \<in> tabs s" "j < 512" "h < 512" for w j h
    using that p slot_eq_iff [OF wf_aligned [OF wf that(1)] that(2) _ that(3), of p] by auto
  have old: "mem s' (slot w j) = (if slot w j = slot t i then branch_to p else mem s (slot w j))"
    if "w \<in> tabs s" "j < 512" for w j
    using that sep alloc_frame [OF po al, of "slot w j"] by (simp add: s')
  have blank: "\<forall>j < 512. mem s' (slot p j) = 0"
    using sep [OF t] alloc_zero [OF po al] by (metis fun_upd_other mem_st64 s')
  show "v \<in> tabs s \<Longrightarrow> lv v = l \<Longrightarrow> path_clear (mem s) k l v va \<Longrightarrow> path_clear (mem s') k l v va"
  proof (induction k arbitrary: l v)
    case (Suc k)
    let ?a = "slot v (vpn_ix l va)"
    show ?case
    proof (cases "?a = slot t i")
      case True
      then have "mem s' ?a = branch_to p" using old [OF Suc.prems(1) vpn_ix_less, of l va] by simp
      then show ?thesis
        using path_clear_blank [OF blank] pte_target_branch_to [OF p(2)] by (simp add: Let_def)
    next
      case False
      then have m: "mem s' ?a = mem s ?a" using old [OF Suc.prems(1) vpn_ix_less] by simp
      show ?thesis
      proof (cases "bit (mem s ?a) 0")
        case True
        with Suc.prems(3) have b: "is_branch (mem s ?a)" and c: "path_clear (mem s) k (l - 1) (pte_target (mem s ?a)) va"
          by (auto simp: Let_def)
        from wf_child [OF wf Suc.prems(1) vpn_ix_less b] Suc.prems(2)
        have "pte_target (mem s ?a) \<in> tabs s" "lv (pte_target (mem s ?a)) = l - 1" by auto
        from Suc.IH [OF this c] b m show ?thesis by (simp add: Let_def)
      qed (simp add: m Let_def)
    qed
  qed simp
qed

lemma descend_path_clear:
  assumes "tables_ok lv root s" "t \<in> tabs s" "lv t = l" "k \<le> l" "path_clear (mem s) k l t va"
    "descend alloc va k l t s = Some (u, s')" "v \<in> tabs s" "lv v = j" "path_clear (mem s) h j v va'"
  shows "path_clear (mem s') h j v va'"
  using assms
proof (induction k arbitrary: l t s lv)
  case (Suc k)
  then obtain l' where l: "l = Suc l'" by (cases l) auto
  let ?a = "slot t (vpn_ix l va)"
  from Suc.prems(6) obtain s1 where e1: "ensure_table alloc ?a s = Some s1"
    and d: "descend alloc va k l' (pte_target (mem s1 ?a)) s1 = Some (u, s')"
    by (auto simp: l split: bind_splits)
  have cl: "\<not> bit (mem s ?a) 0 \<or> is_branch (mem s ?a)" using Suc.prems(5) by (auto simp: Let_def)
  from ensure_table_step [OF Suc.prems(1,2) _ vpn_ix_less cl e1, of l'] Suc.prems(3)
  obtain lv1 where 1: "tables_ok lv1 root s1" "\<forall>x \<in> tabs s. lv1 x = lv x" "tabs s \<subseteq> tabs s1"
    "is_branch (mem s1 ?a)" "pte_target (mem s1 ?a) \<in> tabs s1" "lv1 (pte_target (mem s1 ?a)) = l'"
    unfolding l by auto
  note kept = ensure_path_clear [OF Suc.prems(1,2) vpn_ix_less e1]
  have "path_clear (mem s1) k l' (pte_target (mem s1 ?a)) va"
    using kept [OF Suc.prems(2,3,5)] 1(4) by (auto simp: l Let_def is_branch_def)
  moreover have "v \<in> tabs s1" "lv1 v = j" using Suc.prems(7,8) 1(2,3) by auto
  ultimately show ?case
    using Suc.IH [OF 1(1,5,6) _ _ d] Suc.prems(4) kept [OF Suc.prems(7-9)] by (simp add: l)
qed simp

lemma map_at_path_clear:
  assumes ok: "tables_ok lv root s" and cl: "path_clear (mem s) 2 2 root va"
    and e: "\<not> is_branch e" and m: "map_at alloc 0 root va e s = Some s'" and cl': "path_clear (mem s) 2 2 root va'"
  shows "path_clear (mem s') 2 2 root va'"
proof -
  from m obtain u s1 where d: "descend alloc va 2 2 root s = Some (u, s1)"
    and s': "s' = st64 (slot u (vpn_ix 0 va)) e s1" by (auto simp: map_at_def split: bind_splits)
  from ok have wf: "wf_tables lv (tabs s) root (mem s)" by (simp add: tables_ok_def)
  note rt = wf_root [OF wf]
  from descend_step [OF ok rt _ cl d] obtain lv' where 1: "tables_ok lv' root s1" "u \<in> tabs s1" "lv' u = 0"
    "slot u (vpn_ix 0 va) \<in> set (visited (mem s1) 2 root va)" by auto
  from 1(1) have wf1: "wf_tables lv' (tabs s1) root (mem s1)" by (simp add: tables_ok_def)
  have c1: "path_clear (mem s1) 2 2 root va'" using descend_path_clear [OF ok rt _ cl d rt cl'] by simp
  let ?a = "slot u (vpn_ix 0 va)"
  obtain n b where st: "stop_at (mem s1) 2 root va' = (n, b)" by (cases "stop_at (mem s1) 2 root va'")
  have "x \<noteq> ?a" if "x \<in> spine (mem s1) 2 root va'" for x
  proof -
    from spine_slot [OF wf1 wf_root [OF wf1] that] obtain v i where v: "v \<in> tabs s1" "i < 512" "0 < lv' v" "x = slot v i" by blast
    with 1(3) wf_slot_eq_iff [OF wf1 v(1) 1(2) v(2) vpn_ix_less] show ?thesis by auto
  qed
  moreover have nb: "n = 0 \<or> \<not> is_branch (((mem s1)(?a := e)) b)" using stop_at_leaf [OF st] e by auto
  ultimately have st': "stop_at (mem s') 2 root va' = (n, b)"
    using stop_at_cong [OF _ st, of "(mem s1)(?a := e)"] by (simp add: s')
  from stop_at_slot [OF wf1 wf_root [OF wf1] st] obtain w where w: "w \<in> tabs s1" "lv' w = n" "b = slot w (vpn_ix n va')" by blast
  have "mem s' b = mem s1 b" if "0 < n"
    using that w 1(3) wf_slot_eq_iff [OF wf1 w(1) 1(2) vpn_ix_less vpn_ix_less] by (auto simp: s')
  then show ?thesis using c1 path_clear_stop [OF _ st, of 2] path_clear_stop [OF _ st', of 2] by auto
qed

text \<open>Of the words of the lowest tables a mapping writes only its own.\<close>

lemma descend_low_frame:
  assumes "tables_ok lv root s" "t \<in> tabs s" "lv t = l" "k \<le> l" "path_clear (mem s) k l t va"
    "descend alloc va k l t s = Some (u, s')" "v \<in> tabs s" "lv v = 0" "j < 512"
  shows "mem s' (slot v j) = mem s (slot v j)"
  using assms
proof (induction k arbitrary: l t s lv)
  case (Suc k)
  then obtain l' where l: "l = Suc l'" by (cases l) auto
  let ?a = "slot t (vpn_ix l va)"
  from Suc.prems(6) obtain s1 where e1: "ensure_table alloc ?a s = Some s1"
    and d: "descend alloc va k l' (pte_target (mem s1 ?a)) s1 = Some (u, s')"
    by (auto simp: l split: bind_splits)
  have cl: "\<not> bit (mem s ?a) 0 \<or> is_branch (mem s ?a)" using Suc.prems(5) by (auto simp: Let_def)
  from ensure_table_step [OF Suc.prems(1,2) _ vpn_ix_less cl e1, of l'] Suc.prems(3)
  obtain lv1 where 1: "tables_ok lv1 root s1" "\<forall>x \<in> tabs s. lv1 x = lv x" "tabs s \<subseteq> tabs s1"
    "is_branch (mem s1 ?a)" "pte_target (mem s1 ?a) \<in> tabs s1" "lv1 (pte_target (mem s1 ?a)) = l'"
    unfolding l by auto
  have c1: "path_clear (mem s1) k l' (pte_target (mem s1 ?a)) va"
    using ensure_path_clear [OF Suc.prems(1,2) vpn_ix_less e1 Suc.prems(2,3,5)] 1(4) by (auto simp: l Let_def is_branch_def)
  from Suc.prems(1) have wf0: "wf_tables lv (tabs s) root (mem s)" by (simp add: tables_ok_def)
  have ne: "slot v j \<noteq> ?a"
    using wf_slot_eq_iff [OF wf0 Suc.prems(7,2,9) vpn_ix_less, of l va] Suc.prems(3,8) l by auto
  have "mem s1 (slot v j) = mem s (slot v j)"
  proof (cases "bit (mem s ?a) 0")
    case True
    with e1 show ?thesis by (simp add: ensure_table_def)
  next
    case False
    with e1 obtain p s0 where al: "alloc s = Some (p, s0)" and s1: "s1 = st64 ?a (branch_to p) s0"
      by (auto simp: ensure_table_def split: bind_splits)
    from Suc.prems(1) have po: "pool_ok s" and wf: "wf_tables lv (tabs s) root (mem s)" by (simp_all add: tables_ok_def)
    have "slot v j \<noteq> slot p h" if "h < 512" for h
      using alloc_fresh [OF po al] slot_eq_iff [OF wf_aligned [OF wf Suc.prems(7)] Suc.prems(9) _ that, of p] Suc.prems(7) by auto
    then show ?thesis using alloc_frame [OF po al, of "slot v j"] ne by (simp add: s1)
  qed
  with Suc.IH [OF 1(1,5,6) _ c1 d] Suc.prems(4,7,8,9) 1(2,3) show ?case by (auto simp: l)
qed simp

lemma map_at_low_frame:
  assumes ok: "tables_ok lv root s" and cl: "path_clear (mem s) 2 2 root va"
    and e: "\<not> is_branch e" and m: "map_at alloc 0 root va e s = Some s'"
    and pg: "stop_at (mem s) 2 root va' = (0, b)" and other: "\<not> same_block 0 va va'"
  shows "mem s' b = mem s b"
proof -
  from m obtain u s1 where d: "descend alloc va 2 2 root s = Some (u, s1)"
    and s': "s' = st64 (slot u (vpn_ix 0 va)) e s1" by (auto simp: map_at_def split: bind_splits)
  from ok have wf: "wf_tables lv (tabs s) root (mem s)" by (simp add: tables_ok_def)
  note rt = wf_root [OF wf]
  from stop_at_slot [OF wf rt pg] obtain w where w: "w \<in> tabs s" "lv w = 0" "b = slot w (vpn_ix 0 va')" by blast
  have cl0: "path_clear (mem s) (2 - 0) 2 root va" and le: "0 \<le> (2 :: nat)" using cl by simp_all
  obtain lv' a where 1: "tables_ok lv' root s'" "stop_at (mem s') 2 root va = (0, a)"
    using map_at_end [OF ok le cl0 e m] by metis
  from 1(1) have wf': "wf_tables lv' (tabs s') root (mem s')" by (simp add: tables_ok_def)
  have b': "stop_at (mem s') 2 root va' = (0, b)" by (rule map_at_keeps_page [OF ok cl e m pg])
  from descend_step [OF ok rt _ cl d] obtain lv1 where 2: "tables_ok lv1 root s1" "u \<in> tabs s1" "lv1 u = 0"
    "slot u (vpn_ix 0 va) \<in> set (visited (mem s1) 2 root va)" by auto
  from 2(1) have wf1: "wf_tables lv1 (tabs s1) root (mem s1)" by (simp add: tables_ok_def)
  have "stop_at (mem s') 2 root va = (0, slot u (vpn_ix 0 va))"
    using visited_stop [OF wf1 2(2,3) e wf_root [OF wf1] 2(4)] by (simp add: s')
  then have "b \<noteq> slot u (vpn_ix 0 va)" using stop_at_same [OF wf' _ b'] other by auto
  then show ?thesis using descend_low_frame [OF ok rt _ cl d w(1,2) vpn_ix_less] w(3) by (simp add: s')
qed

text \<open>Outside the mapped block, whatever its level, the deciding words stay where they are and what they are.\<close>

lemma map_at_split:
  assumes ok: "tables_ok lv root s" and n: "n \<le> 2" and cl: "path_clear (mem s) (2 - n) 2 root va"
    and m: "map_at alloc n root va e s = Some s'"
  obtains lv' u s1 where "descend alloc va (2 - n) 2 root s = Some (u, s1)" "s' = st64 (slot u (vpn_ix n va)) e s1"
    "wf_tables lv' (tabs s1) root (mem s1)" "\<And>v j. v \<in> tabs s \<Longrightarrow> j < 512 \<Longrightarrow> bit (mem s (slot v j)) 0 \<Longrightarrow> mem s1 (slot v j) = mem s (slot v j)"
    "\<And>va' x. \<not> same_block n va va' \<Longrightarrow> x \<in> set (visited (mem s1) 2 root va') \<Longrightarrow> mem s' x = mem s1 x"
proof -
  from m obtain u s1 where d: "descend alloc va (2 - n) 2 root s = Some (u, s1)"
    and s': "s' = st64 (slot u (vpn_ix n va)) e s1" by (auto simp: map_at_def split: bind_splits)
  from ok have wf: "wf_tables lv (tabs s) root (mem s)" by (simp add: tables_ok_def)
  from descend_step [OF ok wf_root [OF wf] _ cl d] n
  obtain lv' where 1: "tables_ok lv' root s1" "u \<in> tabs s1" "lv' u = n" "slot u (vpn_ix n va) \<in> set (visited (mem s1) 2 root va)"
    "\<forall>v j. v \<in> tabs s \<longrightarrow> j < 512 \<longrightarrow> bit (mem s (slot v j)) 0 \<longrightarrow> mem s1 (slot v j) = mem s (slot v j)" by auto
  from 1(1) have wf1: "wf_tables lv' (tabs s1) root (mem s1)" by (simp add: tables_ok_def)
  note rt = wf_root [OF wf1]
  have "mem s' x = mem s1 x" if o: "\<not> same_block n va va'" and x: "x \<in> set (visited (mem s1) 2 root va')" for va' x
  proof -
    have "x \<noteq> slot u (vpn_ix n va)"
      using o x visited_shared [OF wf1 1(2) vpn_ix_less rt(1) rt(1) rt(2) rt(2) 1(4), of va'] 1(3) unfolding same_block_def by blast
    then show ?thesis by (simp add: s')
  qed
  with that [OF d s' wf1] 1(5) show thesis by blast
qed

lemma map_at_keeps_stop:
  assumes ok: "tables_ok lv root s" and n: "n \<le> 2" and cl: "path_clear (mem s) (2 - n) 2 root va"
    and m: "map_at alloc n root va e s = Some s'"
    and st: "stop_at (mem s) 2 root va' = (k, b)" "k = 0 \<or> bit (mem s b) 0" and other: "\<not> same_block n va va'"
  shows "stop_at (mem s') 2 root va' = (k, b)" "mem s' b = mem s b"
proof -
  obtain lv' u s1 where 1: "descend alloc va (2 - n) 2 root s = Some (u, s1)" "wf_tables lv' (tabs s1) root (mem s1)"
    "\<And>v j. v \<in> tabs s \<Longrightarrow> j < 512 \<Longrightarrow> bit (mem s (slot v j)) 0 \<Longrightarrow> mem s1 (slot v j) = mem s (slot v j)"
    "\<And>x. x \<in> set (visited (mem s1) 2 root va') \<Longrightarrow> mem s' x = mem s1 x"
    by (rule map_at_split [OF ok n cl m]) (use other in blast)
  from ok have wf: "wf_tables lv (tabs s) root (mem s)" by (simp add: tables_ok_def)
  note rt = wf_root [OF wf]
  from stop_at_slot [OF wf rt st(1)] obtain w where w: "w \<in> tabs s" "lv w = k" "b = slot w (vpn_ix k va')" by blast
  have b: "mem s1 b = mem s b"
    using st(2) 1(3) [OF w(1) vpn_ix_less] descend_low_frame [OF ok rt _ cl 1(1) w(1) _ vpn_ix_less] w(2,3) by auto
  have "mem s1 x = mem s x" if "x \<in> spine (mem s) 2 root va'" for x
    using spine_slot [OF wf rt that] spine_branch [OF that] 1(3) by (auto simp: is_branch_def)
  then have st1: "stop_at (mem s1) 2 root va' = (k, b)"
    by (intro stop_at_cong [OF _ st(1)]) (use stop_at_leaf [OF st(1)] b in auto)
  show "mem s' b = mem s b" using 1(4) [OF stop_at_visited [OF st1]] b by simp
  show "stop_at (mem s') 2 root va' = (k, b)"
    by (rule stop_at_visited_cong [OF 1(4) st1])
qed

lemma map_at_path_other:
  assumes ok: "tables_ok lv root s" and n: "n \<le> 2" and cl: "path_clear (mem s) (2 - n) 2 root va"
    and m: "map_at alloc n root va e s = Some s'" and cl': "path_clear (mem s) 2 2 root va'" and other: "\<not> same_block n va va'"
  shows "path_clear (mem s') 2 2 root va'"
proof -
  obtain lv' u s1 where 1: "descend alloc va (2 - n) 2 root s = Some (u, s1)" "wf_tables lv' (tabs s1) root (mem s1)"
    "\<And>x. x \<in> set (visited (mem s1) 2 root va') \<Longrightarrow> mem s' x = mem s1 x"
    by (rule map_at_split [OF ok n cl m]) (use other in blast)
  from ok have wf: "wf_tables lv (tabs s) root (mem s)" by (simp add: tables_ok_def)
  note rt = wf_root [OF wf]
  have c1: "path_clear (mem s1) 2 2 root va'" using descend_path_clear [OF ok rt _ cl 1(1) rt cl'] by simp
  obtain k b where st: "stop_at (mem s1) 2 root va' = (k, b)" by (cases "stop_at (mem s1) 2 root va'")
  have b: "mem s' b = mem s1 b" by (rule 1(3) [OF stop_at_visited [OF st]])
  have "stop_at (mem s') 2 root va' = (k, b)"
    by (rule stop_at_visited_cong [OF 1(3) st])
  then show ?thesis using c1 b path_clear_stop [OF _ st, of 2] path_clear_stop [of 2 2 "mem s'" root va' k b] by simp
qed

text \<open>A descent allocates exactly the missing tables.\<close>

lemma descend_room:
  assumes "tables_ok lv root s" "t \<in> tabs s" "lv t = l" "k \<le> l" "path_clear (mem s) k l t va"
    "descend alloc va k l t s = Some (u, s')"
  shows "room s \<le> missing_tables (mem s) k l t va + room s'"
  using assms
proof (induction k arbitrary: l t s)
  case (Suc k)
  then obtain l' where l: "l = Suc l'" by (cases l) auto
  let ?a = "slot t (vpn_ix l va)"
  show ?case
  proof (cases "bit (mem s ?a) 0")
    case True
    with Suc.prems(5) have b: "is_branch (mem s ?a)" and c: "path_clear (mem s) k l' (pte_target (mem s ?a)) va"
      by (auto simp: l Let_def)
    from Suc.prems(6) True have d: "descend alloc va k l' (pte_target (mem s ?a)) s = Some (u, s')"
      by (simp add: l ensure_table_def)
    from Suc.prems(1) have wf: "wf_tables lv (tabs s) root (mem s)" by (simp add: tables_ok_def)
    from wf_child [OF wf Suc.prems(2) vpn_ix_less b] Suc.prems(3)
    have "pte_target (mem s ?a) \<in> tabs s" "lv (pte_target (mem s ?a)) = l'" by (auto simp: l)
    from Suc.IH [OF Suc.prems(1) this _ c d] Suc.prems(4) True show ?thesis by (simp add: l Let_def)
  next
    case False
    with descend_step [OF Suc.prems] show ?thesis by (auto simp: Let_def)
  qed
qed simp

lemma map_at_room:
  assumes ok: "tables_ok lv root s" and n: "n \<le> 2" and cl: "path_clear (mem s) (2 - n) 2 root va"
    and m: "map_at alloc n root va e s = Some s'"
  shows "room s \<le> missing_tables (mem s) (2 - n) 2 root va + room s'"
proof -
  from m obtain u s1 where d: "descend alloc va (2 - n) 2 root s = Some (u, s1)"
    and s': "s' = st64 (slot u (vpn_ix n va)) e s1" by (auto simp: map_at_def split: bind_splits)
  from ok have wf: "wf_tables lv (tabs s) root (mem s)" by (simp add: tables_ok_def)
  from descend_room [OF ok wf_root [OF wf] _ cl d] show ?thesis using store_keeps by (simp add: s')
qed

end

lemma missing_stop:
  "stop_at m l t va = (0, a) \<Longrightarrow> missing_tables m l l t va' = 0"
  if "\<And>k. k \<le> l \<Longrightarrow> 0 < k \<Longrightarrow> vpn_ix k va' = vpn_ix k va"
  using that
  by (induction m l t va rule: stop_at.induct) (auto simp: Let_def is_branch_def split: if_splits)

end
