(* ===== verification/PageTable.thy ===== *)
theory PageTable
  imports Table_Entry
begin

text \<open>
  The page-table utilities of \<^verbatim>\<open>common/smode.c\<close>: the pool allocator \<open>pt_alloc_page\<close>, the PTE
  constructors, \<open>pt_setup_identity_kernel\<close>, \<open>pt_map_page\<close> and \<open>pt_walk\<close>. The state adds
  to physical memory the linker's \<open>_page_table_start\<close> and the counter
  \<open>pt_pool_next_page\<close>.
\<close>

record pts = phys +
  pt_pool :: u64
  pt_pool_next_page :: c_int

section \<open>The code\<close>

definition clear_words :: "u64 \<Rightarrow> nat \<Rightarrow> 'z phys_scheme \<Rightarrow> 'z phys_scheme" where
  "clear_words page n = fold (\<lambda>i. st64 (slot page (of_nat i)) 0) [0..<n]"

definition pt_alloc_page :: "'z pts_scheme \<Rightarrow> u64 \<times> 'z pts_scheme" where
  "pt_alloc_page s =
     (let page = slot (pt_pool s) (u64_of_int (wrap32 (pt_pool_next_page s * PTES_PER_PT)));
          s = s\<lparr>pt_pool_next_page := inc32 (pt_pool_next_page s)\<rparr>;
          s = clear_words page (nat PTES_PER_PT) s
      in (page, s))"

definition pt_reset :: "'z pts_scheme \<Rightarrow> 'z pts_scheme" where
  "pt_reset s = s\<lparr>pt_pool_next_page := 0\<rparr>"

definition pt_ppn :: "u64 \<Rightarrow> u64" where
  "pt_ppn pt = drop_bit PGSHIFT pt"

definition pte_branch :: "u64 \<Rightarrow> u64" where
  "pte_branch child_pt = push_bit PTE_PPN_SHIFT (pt_ppn child_pt) OR PTE_V"

definition pte_leaf :: "u64 \<Rightarrow> u64 \<Rightarrow> u64" where
  "pte_leaf phys_addr perm =
     push_bit PTE_PPN_SHIFT (drop_bit PGSHIFT phys_addr) OR perm OR PTE_V OR PTE_A OR PTE_D"

definition vpn2 :: "u64 \<Rightarrow> c_int" where
  "vpn2 va = int_of_u64 (drop_bit 30 va AND 0x1FF)"

definition vpn1 :: "u64 \<Rightarrow> c_int" where
  "vpn1 va = int_of_u64 (drop_bit 21 va AND 0x1FF)"

definition vpn0 :: "u64 \<Rightarrow> c_int" where
  "vpn0 va = int_of_u64 (drop_bit 12 va AND 0x1FF)"

definition entry :: "u64 \<Rightarrow> c_int \<Rightarrow> u64" where
  "entry tbl i = slot tbl (u64_of_int i)"

definition pt_setup_identity_kernel :: "'z pts_scheme \<Rightarrow> u64 \<times> 'z pts_scheme" where
  "pt_setup_identity_kernel s =
     (let (root, s) = pt_alloc_page s;
          sram_vpn2 = vpn2 SRAM_BASE;
          s = st64 (entry root sram_vpn2)
                   (pte_leaf (SRAM_BASE AND NOT (GIGAPAGE_SIZE - 1)) (PTE_R OR PTE_W OR PTE_X)) s;
          s = st64 (entry root 0) (pte_leaf 0x00000000 (PTE_R OR PTE_W)) s
      in (root, s))"

definition pt_map_page :: "u64 \<Rightarrow> u64 \<Rightarrow> u64 \<Rightarrow> u64 \<Rightarrow> bool \<Rightarrow> 'z pts_scheme \<Rightarrow> 'z pts_scheme" where
  "pt_map_page root va pa perm valid s =
     (let idx2 = vpn2 va; idx1 = vpn1 va; idx0 = vpn0 va;
          s = (if mem s (entry root idx2) AND PTE_V = 0
               then let (p, s) = pt_alloc_page s in st64 (entry root idx2) (pte_branch p) s
               else s);
          l1 = push_bit PGSHIFT (drop_bit PTE_PPN_SHIFT (mem s (entry root idx2)));
          s = (if mem s (entry l1 idx1) AND PTE_V = 0
               then let (p, s) = pt_alloc_page s in st64 (entry l1 idx1) (pte_branch p) s
               else s);
          l2 = push_bit PGSHIFT (drop_bit PTE_PPN_SHIFT (mem s (entry l1 idx1)))
      in if valid then st64 (entry l2 idx0) (pte_leaf pa perm) s
         else st64 (entry l2 idx0)
                (push_bit PTE_PPN_SHIFT (drop_bit PGSHIFT pa) OR (perm AND NOT PTE_V)) s)"

definition pt_walk :: "u64 \<Rightarrow> u64 \<Rightarrow> 'z phys_scheme \<Rightarrow> c_int \<times> u64" where
  "pt_walk root va s =
     (let idx2 = vpn2 va; pte = mem s (entry root idx2)
      in if pte AND PTE_V \<noteq> 0 \<and> pte AND (PTE_R OR PTE_W OR PTE_X) \<noteq> 0 then (2, entry root idx2)
         else if pte AND PTE_V = 0 then (2, entry root idx2)
         else
           let l1 = push_bit PGSHIFT (drop_bit PTE_PPN_SHIFT pte);
               idx1 = vpn1 va; pte = mem s (entry l1 idx1)
           in if pte AND PTE_V \<noteq> 0 \<and> pte AND (PTE_R OR PTE_W OR PTE_X) \<noteq> 0 then (1, entry l1 idx1)
              else if pte AND PTE_V = 0 then (1, entry l1 idx1)
              else
                let l2 = push_bit PGSHIFT (drop_bit PTE_PPN_SHIFT pte);
                    idx0 = vpn0 va
                in (0, entry l2 idx0))"

section \<open>Indices, entries, allocation\<close>

lemma entry_vpn [simp]:
  "entry t (vpn2 va) = slot t (vpn_ix 2 va)"
  "entry t (vpn1 va) = slot t (vpn_ix 1 va)"
  "entry t (vpn0 va) = slot t (vpn_ix 0 va)"
proof -
  have "u64_of_int (int_of_u64 w) = w" if "w < 512" for w :: u64
    using that int_of_u64_small [of w] by (simp add: u64_of_int_def word_less_nat_alt)
  then have i: "u64_of_int (int_of_u64 (drop_bit n va AND 0x1FF)) = drop_bit n va AND mask 9" for n
    using word_and_le1 [of "drop_bit n va" "mask 9"] unfolding mask9_u64
    by (simp add: mask_eq_exp_minus_1 word_le_nat_alt word_less_nat_alt)
  show "entry t (vpn2 va) = slot t (vpn_ix 2 va)" "entry t (vpn1 va) = slot t (vpn_ix 1 va)"
    "entry t (vpn0 va) = slot t (vpn_ix 0 va)"
    by (simp_all add: entry_def vpn2_def vpn1_def vpn0_def vpn_ix_def i)
qed

lemma entry_0 [simp]: "entry t 0 = slot t 0"
  by (simp add: entry_def u64_of_int_def)

lemma pte_branch_eq [simp]: "pte_branch p = branch_to p"
  by (simp add: pte_branch_def branch_to_def pt_ppn_def platform_consts)

lemma table_of_entry [simp]: "push_bit PGSHIFT (drop_bit PTE_PPN_SHIFT e) = pte_target e"
  by (simp add: pte_target_def platform_consts)

lemma V_flag [simp]: "e AND PTE_V = 0 \<longleftrightarrow> \<not> bit e 0"
  by (simp add: flag_bits)

lemma RWX_flags [simp]: "e AND (PTE_R OR PTE_W OR PTE_X) = 0 \<longleftrightarrow> \<not> bit e 1 \<and> \<not> bit e 2 \<and> \<not> bit e 3"
  by (simp add: bit.conj_disj_distrib flag_bits)

lemma fold_st64:
  "fold (\<lambda>i. st64 (f i) v) xs s = s\<lparr>mem := (\<lambda>a. if a \<in> f ` set xs then v else mem s a)\<rparr>"
  by (induction xs arbitrary: s) (auto simp: st64_def fun_eq_iff intro!: phys.equality)

lemma clear_words_eq:
  "clear_words page n s = s\<lparr>mem := (\<lambda>a. if \<exists>i < n. a = slot page (of_nat i) then 0 else mem s a)\<rparr>"
  unfolding clear_words_def fold_st64 by (rule arg_cong [where f = "\<lambda>m. s\<lparr>mem := m\<rparr>"]) (auto simp: fun_eq_iff)

lemma less_512_of_nat: "(\<exists>i < 512. a = slot page (of_nat i)) \<longleftrightarrow> (\<exists>i < 512. a = slot page i)"
proof
  assume "\<exists>i < (512 :: u64). a = slot page i"
  then obtain i where "i < 512" "a = slot page i" by blast
  then show "\<exists>i < 512. a = slot page (of_nat i)"
    by (intro exI [of _ "unat i"]) (simp add: word_less_nat_alt)
next
  assume "\<exists>i < 512. a = slot page (of_nat i)"
  then obtain i where "i < 512" "a = slot page (of_nat i)" by blast
  then show "\<exists>i < 512. a = slot page i"
    by (intro exI [of _ "of_nat i"]) (simp add: word_less_nat_alt unat_of_nat)
qed

definition pool_page :: "'z pts_scheme \<Rightarrow> nat \<Rightarrow> u64" where
  "pool_page s k = pt_pool s + 4096 * of_nat k"

lemma pt_alloc_page_eq:
  assumes "0 \<le> pt_pool_next_page s" "pt_pool_next_page s < 1000"
  shows "pt_alloc_page s =
    (pool_page s (nat (pt_pool_next_page s)),
     s\<lparr>pt_pool_next_page := pt_pool_next_page s + 1,
       mem := (\<lambda>a. if \<exists>i < 512. a = slot (pool_page s (nat (pt_pool_next_page s))) i then 0 else mem s a)\<rparr>)"
proof -
  have "slot (pt_pool s) (u64_of_int (wrap32 (pt_pool_next_page s * PTES_PER_PT)))
      = pool_page s (nat (pt_pool_next_page s))"
    using assms by (simp add: slot_def pool_page_def u64_of_int_def platform_consts)
  then show ?thesis
    using assms by (simp add: pt_alloc_page_def Let_def clear_words_eq less_512_of_nat platform_consts cong: if_cong)
qed

section \<open>The pool as an allocator of tables\<close>

definition PT_POOL_PAGES :: nat where
  "PT_POOL_PAGES = 8"

definition pt_pool_alloc :: "'z pts_scheme \<Rightarrow> (u64 \<times> 'z pts_scheme) option" where
  "pt_pool_alloc s = (if pt_pool_next_page s < int PT_POOL_PAGES then Some (pt_alloc_page s) else None)"

definition pool_ok :: "'z pts_scheme \<Rightarrow> bool" where
  "pool_ok s \<longleftrightarrow> page_aligned (pt_pool s) \<and> uint (pt_pool s) + 4096 * int PT_POOL_PAGES \<le> 2 ^ 56 \<and>
     0 \<le> pt_pool_next_page s \<and> pt_pool_next_page s \<le> int PT_POOL_PAGES"

definition pool_tables :: "'z pts_scheme \<Rightarrow> u64 set" where
  "pool_tables s = pool_page s ` {..< nat (pt_pool_next_page s)}"

definition pool_room :: "'z pts_scheme \<Rightarrow> nat" where
  "pool_room s = PT_POOL_PAGES - nat (pt_pool_next_page s)"

lemma uint_pool_page:
  assumes "pool_ok s" "k < PT_POOL_PAGES"
  shows "uint (pool_page s k) = uint (pt_pool s) + 4096 * int k"
proof -
  have k: "k < 8" using assms by (simp add: PT_POOL_PAGES_def)
  then have "uint (4096 * of_nat k :: u64) = 4096 * int k"
    by (simp add: uint_word_ariths unsigned_of_nat take_bit_eq_mod)
  moreover have "uint (pt_pool s) + 4096 * int k < 2 ^ 64"
    using assms by (simp add: pool_ok_def PT_POOL_PAGES_def)
  ultimately show ?thesis
    using uint_ge_0 [of "pt_pool s"] by (simp add: pool_page_def uint_word_ariths)
qed

lemma page_aligned_uint: "page_aligned a \<longleftrightarrow> 4096 dvd uint a"
proof -
  have "page_aligned a \<longleftrightarrow> uint (take_bit 12 a) = 0" unfolding page_aligned_def by (metis uint_0_iff)
  also have "\<dots> \<longleftrightarrow> uint a mod 4096 = 0" unfolding unsigned_take_bit_eq by (simp add: take_bit_eq_mod)
  finally show ?thesis by presburger
qed

lemma drop_56_uint: "uint a < 2 ^ 56 \<Longrightarrow> drop_bit 56 (a :: u64) = 0"
  by (simp add: word_uint_eq_iff drop_bit_eq_div uint_div div_pos_pos_trivial)

lemma pool_page_aligned: "pool_ok s \<Longrightarrow> k < PT_POOL_PAGES \<Longrightarrow> page_aligned (pool_page s k)"
  by (simp add: page_aligned_uint uint_pool_page) (simp add: pool_ok_def page_aligned_uint)

lemma pool_page_low: "pool_ok s \<Longrightarrow> k < PT_POOL_PAGES \<Longrightarrow> drop_bit 56 (pool_page s k) = 0"
  by (rule drop_56_uint) (simp add: uint_pool_page, simp add: pool_ok_def PT_POOL_PAGES_def)

lemma pool_page_inj:
  "pool_ok s \<Longrightarrow> j < PT_POOL_PAGES \<Longrightarrow> k < PT_POOL_PAGES \<Longrightarrow> pool_page s j = pool_page s k \<longleftrightarrow> j = k"
  by (auto dest: arg_cong [where f = uint] simp: uint_pool_page)

lemma pool_page_updates [simp]:
  "pool_page (s\<lparr>pt_pool_next_page := n\<rparr>) k = pool_page s k" "pool_page (s\<lparr>mem := m\<rparr>) k = pool_page s k"
  "pool_page (st64 a v s) k = pool_page s k"
  by (simp_all add: pool_page_def st64_def)

lemma pt_pool_alloc_Some:
  assumes "pool_ok s" "pt_pool_alloc s = Some (p, s')"
  obtains k where "k < PT_POOL_PAGES" "pt_pool_next_page s = int k" "p = pool_page s k"
    "s' = s\<lparr>pt_pool_next_page := int (Suc k),
            mem := (\<lambda>a. if \<exists>i < 512. a = slot (pool_page s k) i then 0 else mem s a)\<rparr>"
proof
  let ?k = "nat (pt_pool_next_page s)"
  from assms have r: "0 \<le> pt_pool_next_page s" "pt_pool_next_page s < 8"
    by (auto simp: pool_ok_def pt_pool_alloc_def PT_POOL_PAGES_def split: if_splits)
  then show "?k < PT_POOL_PAGES" "pt_pool_next_page s = int ?k" by (auto simp: PT_POOL_PAGES_def)
  from assms r show "p = pool_page s ?k" "s' = s\<lparr>pt_pool_next_page := int (Suc ?k),
      mem := (\<lambda>a. if \<exists>i < 512. a = slot (pool_page s ?k) i then 0 else mem s a)\<rparr>"
    by (auto simp: pt_pool_alloc_def PT_POOL_PAGES_def pt_alloc_page_eq add.commute cong: if_cong)
qed

lemma nat_1_plus: "nat (1 + int k) = Suc k"
  by simp

interpretation pool: table_alloc pt_pool_alloc pool_tables pool_ok pool_room
proof unfold_locales
  fix s s' :: "'z pts_scheme" and p i a v
  show "pool_ok s \<Longrightarrow> 0 < pool_room s \<Longrightarrow> \<exists>p s'. pt_pool_alloc s = Some (p, s')"
    by (auto simp: pt_pool_alloc_def pool_room_def pool_ok_def intro: prod.exhaust)
  show "pool_tables (st64 a v s) = pool_tables s" "pool_ok (st64 a v s) = pool_ok s" "pool_room (st64 a v s) = pool_room s"
    by (simp_all add: pool_tables_def pool_ok_def pool_room_def st64_def pool_page_def)
  assume ok: "pool_ok s" and al: "pt_pool_alloc s = Some (p, s')"
  from ok al obtain k where k: "k < PT_POOL_PAGES" "pt_pool_next_page s = int k" "p = pool_page s k"
    "s' = s\<lparr>pt_pool_next_page := int (Suc k),
            mem := (\<lambda>a. if \<exists>i < 512. a = slot (pool_page s k) i then 0 else mem s a)\<rparr>"
    by (rule pt_pool_alloc_Some)
  show "pool_room s = Suc (pool_room s')" using k by (simp add: pool_room_def)
  show "pool_ok s'" using k ok by (simp add: pool_ok_def)
  have "pool_page s j \<noteq> pool_page s k" if "j < k" for j
    using that k(1) pool_page_inj [OF ok _ k(1), of j] by simp
  then have "p \<notin> pool_tables s" unfolding pool_tables_def k(2,3) by fastforce
  then show "p \<notin> pool_tables s \<and> page_aligned p \<and> drop_bit 56 p = 0 \<and> pool_tables s' = insert p (pool_tables s)"
    using k pool_page_aligned [OF ok k(1)] pool_page_low [OF ok k(1)]
    by (simp add: pool_tables_def nat_1_plus lessThan_Suc)
  show "i < 512 \<Longrightarrow> mem s' (slot p i) = 0" using k by auto
  show "(\<And>i. i < 512 \<Longrightarrow> a \<noteq> slot p i) \<Longrightarrow> mem s' a = mem s a" using k by auto
qed

end
