(* ===== verification/AddressSpace.thy ===== *)
theory AddressSpace
  imports PageTable
begin

text \<open>
  What the page tables of \<^verbatim>\<open>common/smode.c\<close> mean to the hardware. The abstract
  specification of a table tree is the address space it gives, the function from an access and a
  virtual address to a physical address; \<open>pt_setup_identity_kernel\<close> establishes the
  identity space, \<open>pt_map_page\<close> updates one page of it and \<open>pt_walk\<close> finds the entry that
  decides about an address.
\<close>

definition pt_ok :: "u64 \<Rightarrow> 'z pts_scheme \<Rightarrow> bool" where
  "pt_ok root s \<longleftrightarrow> (\<exists>lv. pool.tables_ok lv root s)"

definition addr_space :: "mmu_ctl \<Rightarrow> u64 \<Rightarrow> 'z phys_scheme \<Rightarrow> access \<Rightarrow> u64 \<Rightarrow> u64 option" where
  "addr_space c root s acc va = sv39_translate c (mem s) root acc va"

text \<open>The permissions a caller may pass: bits 1 to 9 of a PTE, readable or executable, and no
  writable page that is not readable.\<close>

definition perm_ok :: "u64 \<Rightarrow> bool" where
  "perm_ok perm \<longleftrightarrow> (\<forall>n. bit perm n \<longrightarrow> 1 \<le> n \<and> n \<le> 9) \<and> (bit perm 1 \<or> bit perm 3) \<and>
     (bit perm 2 \<longrightarrow> bit perm 1)"

definition page_space :: "mmu_ctl \<Rightarrow> u64 \<Rightarrow> u64 \<Rightarrow> bool \<Rightarrow> access \<Rightarrow> u64 \<Rightarrow> u64 option" where
  "page_space c pa perm valid acc va =
     (if va_canonical va \<and> valid \<and> pte_allows c acc perm
      then Some ((pa AND NOT (PGSIZE - 1)) OR (va AND (PGSIZE - 1))) else None)"

definition pt_entry :: "u64 \<Rightarrow> u64 \<Rightarrow> bool \<Rightarrow> u64" where
  "pt_entry pa perm valid =
     (if valid then pte_leaf pa perm
      else push_bit PTE_PPN_SHIFT (drop_bit PGSHIFT pa) OR (perm AND NOT PTE_V))"

section \<open>Leaf entries\<close>

lemma bit_pte_leaf:
  "bit (pte_leaf pa perm) n \<longleftrightarrow>
     n < 64 \<and> (n = 0 \<or> n = 6 \<or> n = 7 \<or> bit perm n \<or> (10 \<le> n \<and> bit pa (n + 2)))"
  using bit_imp_le_length [of perm n]
  by (auto simp: pte_leaf_def PTE_PPN_SHIFT_def PGSHIFT_def bit_simps flag_bits)

lemma pte_target_leaf:
  assumes "\<forall>n. bit perm n \<longrightarrow> n \<le> 9"
  shows "pte_target (pte_leaf pa perm) = pa AND NOT (mask 12)"
proof (rule bit_word_eqI)
  fix n assume "n < LENGTH(64)"
  show "bit (pte_target (pte_leaf pa perm)) n = bit (pa AND NOT (mask 12)) n"
  proof (cases "n < 12")
    case False
    then have "\<not> bit perm (n - 2)" using assms [rule_format, of "n - 2"] by auto
    moreover have "Suc (Suc (n - 2)) = n" using False by simp
    ultimately show ?thesis using False \<open>n < _\<close> by (auto simp: pte_target_def bit_simps bit_pte_leaf)
  qed (auto simp: pte_target_def bit_simps)
qed


lemma not_branch_leaf: "perm_ok perm \<Longrightarrow> \<not> is_branch (pte_leaf pa perm)"
  by (auto simp: is_branch_def perm_ok_def bit_pte_leaf)

lemma invalid_entry: "\<not> bit (pt_entry pa perm False) 0"
  by (simp add: pt_entry_def PTE_PPN_SHIFT_def bit_simps flag_bits)

lemma not_branch_entry: "(valid \<longrightarrow> perm_ok perm) \<Longrightarrow> \<not> is_branch (pt_entry pa perm valid)"
  using not_branch_leaf [of perm pa] invalid_entry [of pa perm]
  by (cases valid) (auto simp: pt_entry_def is_branch_def)

lemma leaf_allows [simp]: "pte_allows c acc (pte_leaf pa perm) = pte_allows c acc perm"
  by (cases acc) (simp_all add: pte_allows_def bit_pte_leaf)

lemma leaf_ad [simp]: "pte_ad_ok c acc (pte_leaf pa perm)"
  by (simp add: pte_ad_ok_def bit_pte_leaf)

lemma leaf_needs_ad [simp]: "\<not> needs_ad acc (pte_leaf pa perm)"
  by (simp add: needs_ad_def bit_pte_leaf)

lemma valid_leaf:
  assumes "perm_ok perm" "drop_bit 56 pa = 0"
  shows "pte_valid (pte_leaf pa perm)" "pte_is_leaf (pte_leaf pa perm)"
proof -
  have "drop_bit 54 (pte_leaf pa perm) = 0"
  proof (rule drop_bit_0I)
    fix n :: nat assume n: "54 \<le> n"
    then have "\<not> bit perm n" using assms(1) unfolding perm_ok_def by fastforce
    with n drop_bit_0_bit [OF assms(2), of "n + 2"] show "\<not> bit (pte_leaf pa perm) n"
      by (simp add: bit_pte_leaf)
  qed
  with assms(1) show "pte_valid (pte_leaf pa perm)" "pte_is_leaf (pte_leaf pa perm)"
    by (auto simp: pte_valid_def pte_is_leaf_def perm_ok_def bit_pte_leaf)
qed

text \<open>A leaf of any level built by \<open>pte_leaf\<close>, with a physical address aligned for the level.\<close>

lemma entry_xlat_leaf:
  assumes "perm_ok perm" "drop_bit 56 pa = 0" "take_bit (12 + 9 * l) (pa AND NOT (mask 12)) = 0"
  shows "entry_xlat c acc va l (pte_leaf pa perm) =
    (if va_canonical va \<and> pte_allows c acc perm
     then Some ((pa AND NOT (mask 12)) OR take_bit (12 + 9 * l) va) else None)"
proof -
  have t: "pte_target (pte_leaf pa perm) = pa AND NOT (mask 12)"
    by (rule pte_target_leaf) (use assms(1) in \<open>auto simp: perm_ok_def\<close>)
  show ?thesis
    using valid_leaf [OF assms(1,2)] assms(3)
    by (simp add: entry_xlat_def leaf_xlat_def leaf_aligned_def t)
qed

lemma page_mask: "PGSIZE - 1 = mask 12"
  by (simp add: platform_consts mask_eq_exp_minus_1 push_bit_eq_mult)

lemma entry_xlat_pt_entry:
  assumes "valid \<longrightarrow> perm_ok perm" "drop_bit 56 pa = 0"
  shows "entry_xlat c acc va 0 (pt_entry pa perm valid) = page_space c pa perm valid acc va"
proof (cases valid)
  case True
  have a: "take_bit (12 + 9 * 0) (pa AND NOT (mask 12)) = 0"
    by (rule bit_word_eqI) (auto simp: bit_simps)
  from True assms show ?thesis
    by (simp add: entry_xlat_leaf [OF _ _ a] pt_entry_def page_space_def page_mask flip: take_bit_eq_mask)
next
  case False
  with invalid_entry [of pa perm] show ?thesis by (simp add: entry_xlat_def pte_valid_def page_space_def)
qed

section \<open>The mapping routine is the generic algorithm\<close>

lemma pt_alloc_if:
  "ensure_table pt_pool_alloc a s = Some s' \<Longrightarrow>
   (if mem s a AND PTE_V = 0 then let (p, s) = pt_alloc_page s in st64 a (pte_branch p) s else s) = s'"
  by (auto simp: ensure_table_def pt_pool_alloc_def split: if_splits prod.splits)

lemma pt_map_page_map_at:
  assumes "map_at pt_pool_alloc 0 root va (pt_entry pa perm valid) s = Some s'"
  shows "pt_map_page root va pa perm valid s = s'"
proof -
  let ?a2 = "slot root (vpn_ix 2 va)"
  from assms obtain s1 s2 where
    1: "ensure_table pt_pool_alloc ?a2 s = Some s1" and
    2: "ensure_table pt_pool_alloc (slot (pte_target (mem s1 ?a2)) (vpn_ix 1 va)) s1 = Some s2" and
    3: "s' = st64 (slot (pte_target (mem s2 (slot (pte_target (mem s1 ?a2)) (vpn_ix 1 va)))) (vpn_ix 0 va))
               (pt_entry pa perm valid) s2"
    by (auto simp: map_at_def numeral_2_eq_2 split: bind_splits)
  show ?thesis
    unfolding pt_map_page_def Let_def entry_vpn table_of_entry
      pt_alloc_if [OF 1, unfolded Let_def] pt_alloc_if [OF 2, unfolded Let_def]
    by (simp add: 3 pt_entry_def)
qed

section \<open>Mapping one page\<close>

text \<open>
  C1. Mapping a page with \<open>pt_map_page\<close>, where the tables are well formed, no superpage leaf
  lies on the path and the pool has the tables that are missing: the tables stay well formed, the
  hardware's address space afterwards is the page's (its frame with its permissions, or a fault
  when \<open>valid\<close> is 0) on that page and unchanged at every other address, and no word outside
  the tables is written.
\<close>

theorem pt_map_page_refines:
  assumes "pt_ok root s" "path_clear (mem s) 2 2 root va"
    "missing_tables (mem s) 2 2 root va \<le> pool_room s"
    "drop_bit 56 pa = 0" "valid \<longrightarrow> perm_ok perm"
  shows "pt_ok root (pt_map_page root va pa perm valid s) \<and>
    (\<forall>c acc va'. addr_space c root (pt_map_page root va pa perm valid s) acc va' =
      (if same_block 0 va va' then page_space c pa perm valid acc va' else addr_space c root s acc va')) \<and>
    (\<forall>a. a \<notin> table_words (pool_tables (pt_map_page root va pa perm valid s)) \<longrightarrow>
      mem (pt_map_page root va pa perm valid s) a = mem s a)"
proof -
  from assms(1) obtain lv where ok: "pool.tables_ok lv root s" by (auto simp: pt_ok_def)
  let ?e = "pt_entry pa perm valid"
  from pool.map_at_returns [OF ok, of 0 va ?e] assms(2,3) obtain s'
    where m: "map_at pt_pool_alloc 0 root va ?e s = Some s'" by auto
  note t = pool.map_at_translate [OF ok _ _ not_branch_entry [OF assms(5)] m]
  show ?thesis
    unfolding pt_map_page_map_at [OF m] addr_space_def
    using t(1,4,5) assms(2) entry_xlat_pt_entry [OF assms(5,4)] by (simp add: pt_ok_def)
qed

section \<open>The identity map\<close>

definition identity_space :: "access \<Rightarrow> u64 \<Rightarrow> u64 option" where
  "identity_space acc va =
     (if va < GIGAPAGE_SIZE then (if acc = Fetch then None else Some va)
      else if SRAM_BASE \<le> va \<and> va < SRAM_BASE + GIGAPAGE_SIZE then Some va else None)"

lemma less_256_bit:
  assumes "(k :: u64) < 256" "8 \<le> n"
  shows "\<not> bit k n"
proof -
  have "unat k < 2 ^ 8" using assms by (simp add: word_less_nat_alt)
  then have "take_bit 8 (unat k) = unat k" by (simp add: take_bit_nat_eq_self_iff)
  then have "take_bit 8 k = k" by (simp add: word_unat_eq_iff unsigned_take_bit_eq)
  then show ?thesis using assms(2) by (metis bit_take_bit_iff leD)
qed

lemma gigapage_index:
  assumes "k < 256"
  shows "va_canonical va \<and> vpn_ix 2 va = k \<longleftrightarrow> drop_bit 30 va = k"
proof -
  note k = less_256_bit [OF assms]
  show ?thesis
  proof (intro iffI conjI)
    assume l: "va_canonical va \<and> vpn_ix 2 va = k"
    then have b: "bit va (30 + n) \<longleftrightarrow> bit k n" if "n < 9" for n
      using that bit_vpn_ix [of 2 va n] by simp
    show "drop_bit 30 va = k"
    proof (rule bit_word_eqI)
      fix n show "bit (drop_bit 30 va) n = bit k n"
        using b [of n] b [of 8] k [of n] k [of 8] l bit_imp_le_length [of va "30 + n"]
        by (cases "n < 9") (auto simp: bit_simps va_canonical_def)
    qed
  next
    assume d: "drop_bit 30 va = k"
    have b: "bit va (30 + n) \<longleftrightarrow> bit k n" for n by (simp add: d [symmetric] bit_simps)
    have "\<not> bit va n" if "38 \<le> n" for n using b [of "n - 30"] k [of "n - 30"] that by simp
    then show "va_canonical va" by (simp add: va_canonical_def)
    show "vpn_ix 2 va = k"
    proof (rule bit_word_eqI)
      fix n show "bit (vpn_ix 2 va) n = bit k n" using b [of n] k [of n] by (cases "n < 9") (auto simp: bit_vpn_ix)
    qed
  qed
qed


lemma drop_30_uint: "drop_bit 30 va = k \<longleftrightarrow> uint (va :: u64) div 2 ^ 30 = uint k"
  by (simp add: word_uint_eq_iff drop_bit_eq_div uint_div)

lemma div_gigapage: "(x :: int) div 1073741824 = k \<longleftrightarrow> 1073741824 * k \<le> x \<and> x < 1073741824 * k + 1073741824"
  using int_div_pos_eq [of x 1073741824 k "x - 1073741824 * k"] pos_mod_bound [of 1073741824 x]
    pos_mod_sign [of 1073741824 x] mult_div_mod_eq [of 1073741824 x] by auto

lemma in_gigapage:
  "drop_bit 30 va = 0 \<longleftrightarrow> va < GIGAPAGE_SIZE"
  "drop_bit 30 va = 2 \<longleftrightarrow> SRAM_BASE \<le> va \<and> va < SRAM_BASE + GIGAPAGE_SIZE"
  unfolding drop_30_uint word_less_def word_le_def
  by (simp_all add: platform_consts push_bit_eq_mult div_gigapage)

lemma gigapage_offset: "drop_bit 30 (va :: u64) = k \<Longrightarrow> push_bit 30 k OR take_bit 30 va = va"
proof -
  assume k: "drop_bit 30 va = k"
  show ?thesis
  proof (rule bit_word_eqI)
    fix n assume "n < LENGTH(64)"
    then show "bit (push_bit 30 k OR take_bit 30 va) n = bit va n"
      by (cases "n < 30") (auto simp: k [symmetric] bit_simps)
  qed
qed

text \<open>The root after the set-up.\<close>

lemma identity_root:
  assumes "pool_ok s"
  defines "r \<equiv> pt_setup_identity_kernel (pt_reset s)"
  shows "fst r = pt_pool s" "pool_tables (snd r) = {pt_pool s}" "pool_ok (snd r)"
    "i < 512 \<Longrightarrow> mem (snd r) (slot (pt_pool s) i) =
       (if i = 0 then pte_leaf 0 (PTE_R OR PTE_W)
        else if i = 2 then pte_leaf SRAM_BASE (PTE_R OR PTE_W OR PTE_X) else 0)"
    "(\<And>i. i < 512 \<Longrightarrow> a \<noteq> slot (pt_pool s) i) \<Longrightarrow> mem (snd r) a = mem s a"
    "pt_pool_next_page (snd r) = 1" "pt_pool (snd r) = pt_pool s"
proof -
  have al: "page_aligned (pt_pool s)" using assms(1) by (simp add: pool_ok_def)
  have v: "vpn_ix 2 SRAM_BASE = 2" by (simp add: vpn_ix_def platform_consts flip: mask9_u64)
  have b: "SRAM_BASE AND NOT (GIGAPAGE_SIZE - 1) = SRAM_BASE" by (simp add: platform_consts push_bit_eq_mult)
  have "pt_alloc_page (pt_reset s) = (pt_pool s, s\<lparr>pt_pool_next_page := 1,
      mem := (\<lambda>a. if \<exists>i < 512. a = slot (pt_pool s) i then 0 else mem s a)\<rparr>)"
    by (subst pt_alloc_page_eq) (auto simp: pt_reset_def pool_page_def cong: if_cong)
  then have r: "r = (pt_pool s, st64 (slot (pt_pool s) 0) (pte_leaf 0 (PTE_R OR PTE_W))
      (st64 (slot (pt_pool s) 2) (pte_leaf SRAM_BASE (PTE_R OR PTE_W OR PTE_X))
        (s\<lparr>pt_pool_next_page := 1,
           mem := (\<lambda>a. if \<exists>i < 512. a = slot (pt_pool s) i then 0 else mem s a)\<rparr>)))"
    unfolding r_def pt_setup_identity_kernel_def
    by (simp add: b v Let_def)
  show "fst r = pt_pool s" "pool_tables (snd r) = {pt_pool s}" "pool_ok (snd r)"
    "pt_pool_next_page (snd r) = 1" "pt_pool (snd r) = pt_pool s"
    using assms(1) by (simp_all add: r pool_tables_def pool_ok_def st64_def pool_page_def PT_POOL_PAGES_def lessThan_Suc)
  show "(\<And>i. i < 512 \<Longrightarrow> a \<noteq> slot (pt_pool s) i) \<Longrightarrow> mem (snd r) a = mem s a"
    by (auto simp: r)
  show "i < 512 \<Longrightarrow> mem (snd r) (slot (pt_pool s) i) =
       (if i = 0 then pte_leaf 0 (PTE_R OR PTE_W)
        else if i = 2 then pte_leaf SRAM_BASE (PTE_R OR PTE_W OR PTE_X) else 0)"
    using slot_eq_iff [OF al _ al, of i 0] slot_eq_iff [OF al _ al, of i 2] by (auto simp: r)
qed


lemma perm_ok_kernel: "perm_ok (PTE_R OR PTE_W)" "perm_ok (PTE_R OR PTE_W OR PTE_X)"
  by (auto simp: perm_ok_def bit_simps flag_bits)

lemma kernel_allows:
  "pte_allows c acc (PTE_R OR PTE_W) \<longleftrightarrow> acc \<noteq> Fetch"
  "pte_allows c acc (PTE_R OR PTE_W OR PTE_X)"
  by (cases acc; simp add: pte_allows_def bit_simps flag_bits)+

lemma translate_gigapage:
  assumes "mem s (slot root (vpn_ix 2 va)) = pte_leaf (push_bit 30 k) perm" "k < 256" "vpn_ix 2 va = k" "perm_ok perm"
  shows "addr_space c root s acc va =
    (if drop_bit 30 va = k \<and> pte_allows c acc perm then Some va else None)"
proof -
  note k = less_256_bit [OF assms(2)]
  have a: "push_bit 30 k AND NOT (mask 12) = push_bit 30 k"
    by (rule bit_word_eqI) (auto simp: bit_simps)
  have t: "take_bit (12 + 9 * 2) (push_bit 30 k AND NOT (mask 12)) = 0"
    unfolding a by (rule bit_word_eqI) (auto simp: bit_simps)
  have d: "drop_bit 56 (push_bit 30 k) = 0"
    by (rule drop_bit_0I) (use k in \<open>auto simp: bit_simps\<close>)
  have "addr_space c root s acc va = entry_xlat c acc va 2 (pte_leaf (push_bit 30 k) perm)"
    using assms(1) valid_leaf [OF assms(4) d]
    by (simp add: addr_space_def sv39_translate_def sv39_walk_eq entry_xlat_def)
  then show ?thesis
    using gigapage_index [OF assms(2), of va] assms(3) gigapage_offset [of va k]
    by (auto simp: entry_xlat_leaf [OF assms(4) d t] a)
qed


lemma wf_leaf_root:
  assumes "page_aligned root" "\<And>i. i < 512 \<Longrightarrow> \<not> is_branch (m (slot root i))"
  shows "wf_tables (\<lambda>_. 2) {root} root m"
  using assms by (auto simp: wf_tables_def)

lemma identity_ok:
  assumes "pool_ok s" "pt_setup_identity_kernel (pt_reset s) = (root, s')"
  shows "pt_ok root s'"
proof -
  note id = identity_root [OF assms(1), unfolded assms(2) fst_conv snd_conv]
  have al: "page_aligned root" using assms(1) id(1) by (simp add: pool_ok_def)
  have nb: "\<not> is_branch (mem s' (slot root i))" if "i < 512" for i
    using id(4) [folded id(1), OF that] not_branch_leaf perm_ok_kernel by (simp add: is_branch_def [of 0])
  have "pool.tables_ok (\<lambda>_. 2) root s'"
    using wf_leaf_root [of root "mem s'", OF al nb] id(2,3) by (simp add: pool.tables_ok_def id(1))
  then show ?thesis by (auto simp: pt_ok_def)
qed

lemma identity_addr_space:
  assumes "pool_ok s" "pt_setup_identity_kernel (pt_reset s) = (root, s')"
  shows "addr_space c root s' acc va = identity_space acc va"
proof -
  note id = identity_root [OF assms(1), unfolded assms(2) fst_conv snd_conv]
  note e = id(4) [folded id(1)]
  let ?i = "vpn_ix 2 va"
  consider "?i = 0" | "?i = 2" | "?i \<noteq> 0" "?i \<noteq> 2" by blast
  then show ?thesis
  proof cases
    case 1
    then have "\<not> drop_bit 30 va = 2" using gigapage_index [of 2 va] by auto
    moreover have "mem s' (slot root ?i) = pte_leaf (push_bit 30 0) (PTE_R OR PTE_W)" using e [of ?i] 1 by simp
    from translate_gigapage [OF this _ 1 perm_ok_kernel(1)]
    have "addr_space c root s' acc va = (if drop_bit 30 va = 0 \<and> acc \<noteq> Fetch then Some va else None)"
      by (simp add: kernel_allows)
    ultimately show ?thesis by (auto simp: identity_space_def in_gigapage [symmetric])
  next
    case 2
    then have "\<not> drop_bit 30 va = 0" using gigapage_index [of 0 va] by auto
    moreover have "(push_bit 30 2 :: u64) = SRAM_BASE" by (simp add: SRAM_BASE_def push_bit_eq_mult)
    then have "mem s' (slot root ?i) = pte_leaf (push_bit 30 2) (PTE_R OR PTE_W OR PTE_X)" using e [of ?i] 2 by simp
    from translate_gigapage [OF this _ 2 perm_ok_kernel(2)]
    have "addr_space c root s' acc va = (if drop_bit 30 va = 2 then Some va else None)"
      by (simp add: kernel_allows)
    ultimately show ?thesis by (auto simp: identity_space_def in_gigapage [symmetric])
  next
    case 3
    then have "mem s' (slot root ?i) = 0" using e [of ?i] by simp
    then have "addr_space c root s' acc va = None"
      by (simp add: addr_space_def sv39_translate_def sv39_walk_eq pte_valid_def)
    moreover have "drop_bit 30 va \<noteq> 0" "drop_bit 30 va \<noteq> 2"
      using 3 gigapage_index [of 0 va] gigapage_index [of 2 va] by auto
    ultimately show ?thesis by (auto simp: identity_space_def in_gigapage [symmetric])
  qed
qed

text \<open>
  C25. From an emptied pool, \<open>pt_setup_identity_kernel\<close> builds well-formed tables in one
  page of the pool whose address space is the identity: data accesses to the first gigabyte (the
  devices), every access to the gigabyte of SRAM, and a fault everywhere else.
\<close>

theorem pt_setup_identity:
  assumes "pool_ok s"
  shows "let (root, s') = pt_setup_identity_kernel (pt_reset s) in
    pt_ok root s' \<and> pool_room s' = 7 \<and> (\<forall>c acc va. addr_space c root s' acc va = identity_space acc va) \<and>
    (\<forall>a. (\<forall>i < 512. a \<noteq> slot root i) \<longrightarrow> mem s' a = mem s a)"
proof -
  obtain root s' where r: "pt_setup_identity_kernel (pt_reset s) = (root, s')" by fastforce
  note id = identity_root [OF assms, unfolded r fst_conv snd_conv]
  show ?thesis
    using id(5,6) identity_ok [OF assms r] identity_addr_space [OF assms r]
    by (auto simp: r id(1) pool_room_def PT_POOL_PAGES_def)
qed

definition demo_pts :: pts where
  "demo_pts = \<lparr>mem = (\<lambda>_. 0xFFFF), pt_pool = 0x80010000, pt_pool_next_page = 5\<rparr>"

definition demo_ctl :: mmu_ctl where
  "demo_ctl = \<lparr>ctl_sum = False, ctl_mxr = False, ctl_svadu = False\<rparr>"

lemma demo_pool_ok: "pool_ok demo_pts"
  by (simp add: pool_ok_def demo_pts_def PT_POOL_PAGES_def page_aligned_def take_bit_eq_mod)

theorem pt_setup_identity_witness:
  "pool_ok demo_pts \<and> (case pt_setup_identity_kernel (pt_reset demo_pts) of (root, s') \<Rightarrow>
     addr_space demo_ctl root s' Fetch 0x80001000 = Some 0x80001000 \<and>
     addr_space demo_ctl root s' Store 0x10000000 = Some 0x10000000 \<and>
     addr_space demo_ctl root s' Fetch 0x10000000 = None \<and>
     addr_space demo_ctl root s' Load 0x40000000 = None)"
  using pt_setup_identity [OF demo_pool_ok] demo_pool_ok
  by (auto simp: identity_space_def platform_consts push_bit_eq_mult)

section \<open>The software walk\<close>

lemma pt_walk_eq:
  "pt_walk root va s =
    (let a2 = slot root (vpn_ix 2 va); a1 = slot (pte_target (mem s a2)) (vpn_ix 1 va)
     in if \<not> is_branch (mem s a2) then (2, a2)
        else if \<not> is_branch (mem s a1) then (1, a1)
        else (0, slot (pte_target (mem s a1)) (vpn_ix 0 va)))"
  by (auto simp: pt_walk_def Let_def is_branch_def)

lemma walk_stop:
  "m (slot t (vpn_ix l va)) = e \<Longrightarrow> \<not> is_branch e \<or> l = 0 \<Longrightarrow>
   sv39_walk m l t va = (if pte_valid e \<and> pte_is_leaf e then Some (l, e) else None)"
  using branch_walk_step(2) [of e] by (auto simp: sv39_walk_eq split: nat.splits)

lemma table_word_not_null:
  assumes "pool_ok s" "0 < pt_pool s" "a \<in> table_words (pool_tables s)"
  shows "a \<noteq> 0"
proof -
  from assms(3) obtain k i where "k < nat (pt_pool_next_page s)" and i: "i < 512" and a: "a = slot (pool_page s k) i"
    by (auto simp: table_words_def pool_tables_def)
  then have k: "k < PT_POOL_PAGES" using assms(1) by (auto simp: pool_ok_def)
  have "0 < uint (pool_page s k)"
    using uint_pool_page [OF assms(1) k] assms(2) by (simp add: word_less_def)
  then have "pool_page s k \<noteq> 0" by auto
  then obtain n where n: "bit (pool_page s k) n" by (auto simp: word_bits_eq_iff)
  note al = pool_page_aligned [OF assms(1) k]
  have "bit a n" using n slot_bits [OF al i, of n] page_aligned_bit [OF al, of n] unfolding a by auto
  then show ?thesis by auto
qed

text \<open>
  C26. On well-formed tables \<open>pt_walk\<close> finds the entry that decides about an address: a
  word of one of the pool's tables, at the level it reports; where the hardware walk ends in a
  leaf it is that leaf at that level, and where it faults the entry is invalid, malformed or a
  pointer at level 0. It is never the null pointer the trap handler tests for.
\<close>

theorem pt_walk_finds_entry:
  assumes "pt_ok root s" "0 < pt_pool s"
  shows "case pt_walk root va s of (level, p) \<Rightarrow>
    p \<in> table_words (pool_tables s) \<and> p \<noteq> 0 \<and> level \<in> {0, 1, 2} \<and>
    sv39_walk (mem s) 2 root va =
      (if pte_valid (mem s p) \<and> pte_is_leaf (mem s p) then Some (nat level, mem s p) else None)"
proof -
  from assms(1) obtain lv where po: "pool_ok s" and wf: "wf_tables lv (pool_tables s) root (mem s)"
    by (auto simp: pt_ok_def pool.tables_ok_def)
  let ?a2 = "slot root (vpn_ix 2 va)"
  let ?l1 = "pte_target (mem s ?a2)"
  let ?a1 = "slot ?l1 (vpn_ix 1 va)"
  note rt = wf_root(1) [OF wf]
  note nz = table_word_not_null [OF po assms(2) slot_in_table_words [OF _ vpn_ix_less]]
  show ?thesis
  proof (cases "is_branch (mem s ?a2)")
    case False
    with rt nz [OF rt, of 2 va] walk_stop [OF refl, of "mem s" root 2 va] show ?thesis
      by (simp add: pt_walk_eq)
  next
    case b2: True
    note l1 = wf_child [OF wf rt vpn_ix_less b2, THEN conjunct1]
    have w2: "sv39_walk (mem s) 2 root va = sv39_walk (mem s) 1 ?l1 va"
      using sv39_walk_branch [of "mem s" root 1 va, OF _ b2 [unfolded numeral_2_eq_2]]
        wf_branch_valid [OF wf rt vpn_ix_less b2] by (simp add: numeral_2_eq_2)
    show ?thesis
    proof (cases "is_branch (mem s ?a1)")
      case False
      with b2 l1 nz [OF l1, of 1 va] walk_stop [OF refl, of "mem s" ?l1 1 va] show ?thesis
        by (simp add: pt_walk_eq w2)
    next
      case b1: True
      note l0 = wf_child [OF wf l1 vpn_ix_less b1, THEN conjunct1]
      have "sv39_walk (mem s) 1 ?l1 va = sv39_walk (mem s) 0 (pte_target (mem s ?a1)) va"
        using sv39_walk_branch [of "mem s" ?l1 0 va, OF _ b1 [unfolded One_nat_def]]
          wf_branch_valid [OF wf l1 vpn_ix_less b1] by simp
      with b2 b1 l0 nz [OF l0, of 0 va] walk_stop [OF refl, of "mem s" "pte_target (mem s ?a1)" 0 va]
      show ?thesis by (simp add: pt_walk_eq w2)
    qed
  qed
qed


theorem pt_walk_finds_entry_witness:
  "case pt_setup_identity_kernel (pt_reset demo_pts) of (root, s') \<Rightarrow>
     pt_ok root s' \<and> 0 < pt_pool s' \<and> pt_walk root 0x80001000 s' = (2, slot root 2) \<and>
     sv39_walk (mem s') 2 root 0x80001000 = Some (2, pte_leaf SRAM_BASE (PTE_R OR PTE_W OR PTE_X))"
proof -
  obtain root s' where r: "pt_setup_identity_kernel (pt_reset demo_pts) = (root, s')" by fastforce
  note id = identity_root [OF demo_pool_ok, unfolded r fst_conv snd_conv]
  have p: "0 < pt_pool s'" using id(7) by (simp add: demo_pts_def)
  have e: "mem s' (slot root 2) = pte_leaf SRAM_BASE (PTE_R OR PTE_W OR PTE_X)" using id(4) [of 2] id(1) by simp
  have v: "vpn_ix 2 0x80001000 = 2" by (simp add: vpn_ix_def flip: mask9_u64)
  have w: "pt_walk root 0x80001000 s' = (2, slot root 2)"
    using not_branch_leaf [OF perm_ok_kernel(2)] by (simp add: pt_walk_eq v e)
  have d: "drop_bit 56 SRAM_BASE = 0" by (simp add: SRAM_BASE_def)
  from pt_walk_finds_entry [OF identity_ok [OF demo_pool_ok r] p, of "0x80001000"] show ?thesis
    using identity_ok [OF demo_pool_ok r] p valid_leaf [OF perm_ok_kernel(2) d] by (simp add: r w e)
qed

lemma same_page_iff:
  "same_block 0 va va' \<longleftrightarrow> vpn_ix 0 va = vpn_ix 0 va' \<and> vpn_ix 1 va = vpn_ix 1 va' \<and> vpn_ix 2 va = vpn_ix 2 va'"
  by (auto simp: same_block_def le_Suc_eq numeral_2_eq_2)

lemma canonical_low: "drop_bit 38 va = 0 \<Longrightarrow> va_canonical va"
  by (simp add: va_canonical_def drop_bit_0_bit)

text \<open>A page mapped at 0x40000000 beside the identity map of a fresh pool.\<close>

theorem pt_map_page_refines_witness:
  "case pt_setup_identity_kernel (pt_reset demo_pts) of (root, s) \<Rightarrow>
    case pt_map_page root 0x40000000 0x80100000 (PTE_R OR PTE_W) True s of s' \<Rightarrow>
     pt_ok root s' \<and> addr_space demo_ctl root s' Load 0x40000008 = Some 0x80100008 \<and>
     addr_space demo_ctl root s' Fetch 0x40000008 = None \<and>
     addr_space demo_ctl root s' Fetch 0x80001000 = Some 0x80001000"
proof -
  obtain root s where r: "pt_setup_identity_kernel (pt_reset demo_pts) = (root, s)" by fastforce
  note id = identity_root [OF demo_pool_ok, unfolded r fst_conv snd_conv]
  note ia = identity_addr_space [OF demo_pool_ok r]
  have v: "vpn_ix 2 0x40000000 = 1" by (simp add: vpn_ix_def flip: mask9_u64)
  have e: "mem s (slot root 1) = 0" using id(4) [of 1] id(1) by simp
  have h: "path_clear (mem s) 2 2 root 0x40000000" "missing_tables (mem s) 2 2 root 0x40000000 \<le> pool_room s"
    using e v id(6) by (simp_all add: numeral_2_eq_2 pool_room_def PT_POOL_PAGES_def)
  have b: "same_block 0 0x40000000 0x40000008" "\<not> same_block 0 0x40000000 0x80001000"
    by (simp_all add: same_page_iff vpn_ix_def flip: mask9_u64)
  have c: "va_canonical 0x40000008" by (rule canonical_low) simp
  show ?thesis
    using pt_map_page_refines [OF identity_ok [OF demo_pool_ok r] h, of "0x80100000" True "PTE_R OR PTE_W"] b c
      kernel_allows(1) ia perm_ok_kernel
    by (auto simp: r page_space_def page_mask identity_space_def platform_consts push_bit_eq_mult)
qed

end
