(* ===== verification/Console.thy ===== *)
theory Console
  imports Device AddressSpace
begin

text \<open>
  Printing and verdicts: \<open>uart_putc\<close>, \<open>uart_puts\<close>, \<open>uart_put_hex\<close>, \<open>uart_put_dec\<close>,
  \<open>test_pass\<close>, \<open>test_fail\<close>, \<open>test_assert\<close> of \<^verbatim>\<open>common/smode.c\<close> and the macros
  \<open>TEST_LOG\<close> and \<open>ASSERT_EQ\<close> of \<^verbatim>\<open>common/test.h\<close>, on a state that adds the devices
  to the page-table state. A C string is the list of its characters before the terminator.
\<close>

record cmach = pts +
  dev :: devices

section \<open>The code\<close>

definition on_dev :: "(devices \<Rightarrow> devices run) \<Rightarrow> 'z cmach_scheme \<Rightarrow> 'z cmach_scheme run" where
  "on_dev = on_part dev (\<lambda>d s. s\<lparr>dev := d\<rparr>)"

definition uart_putc :: "char \<Rightarrow> 'z cmach_scheme \<Rightarrow> 'z cmach_scheme run" where
  "uart_putc c = on_dev (dev_putc c)"

primrec uart_puts :: "string \<Rightarrow> 'z cmach_scheme \<Rightarrow> 'z cmach_scheme run" where
  "uart_puts [] = skip"
| "uart_puts (c # s) = block
     [if_do (c = CHR 0x0A) (uart_putc (CHR 0x0D)), uart_putc c, uart_puts s]"

definition hex_digit :: "u64 \<Rightarrow> char" where
  "hex_digit v = ''0123456789abcdef'' ! unat v"

function put_hex_from :: "int \<Rightarrow> u64 \<Rightarrow> 'z cmach_scheme \<Rightarrow> 'z cmach_scheme run" where
  "put_hex_from i val = (if 0 \<le> i
     then block [uart_putc (hex_digit (drop_bit (nat i) val AND 0xF)), put_hex_from (i - 4) val]
     else skip)"
  by pat_completeness auto
termination by (relation "measure (\<lambda>(i, _). nat (i + 4))") auto

definition uart_put_hex :: "u64 \<Rightarrow> 'z cmach_scheme \<Rightarrow> 'z cmach_scheme run" where
  "uart_put_hex val = block [uart_puts ''0x'', put_hex_from 60 val]"

text \<open>The digits in the order \<open>buf\<close> receives them, with C's truncating division.\<close>

function dec_buf :: "int \<Rightarrow> string" where
  "dec_buf val =
     (let c = char_of (48 + val smod 10); val' = val sdiv 10
      in c # (if 0 < val' then dec_buf val' else []))"
  by pat_completeness auto

text \<open>\<open>while (--i >= 0) uart_putc(buf[i])\<close>\<close>

fun put_buf :: "string \<Rightarrow> nat \<Rightarrow> 'z cmach_scheme \<Rightarrow> 'z cmach_scheme run" where
  "put_buf buf 0 = skip"
| "put_buf buf (Suc i) = block [uart_putc (buf ! i), put_buf buf i]"

lemma sdiv_10: "0 \<le> (v :: int) \<Longrightarrow> v sdiv 10 = v div 10" "0 \<le> v \<Longrightarrow> v smod 10 = v mod 10"
  by (simp_all add: signed_divide_int_def signed_modulo_int_def sgn_if)

termination dec_buf
proof (relation "measure nat")
  fix v x x' :: int assume "x' = v sdiv 10" "0 < x'"
  moreover from this have "0 < v" by (cases "0 \<le> v") (auto simp: signed_divide_int_def sgn_if split: if_splits)
  ultimately show "(x', v) \<in> measure nat" by (simp add: sdiv_10)
qed simp

definition uart_put_dec :: "c_int \<Rightarrow> 'z cmach_scheme \<Rightarrow> 'z cmach_scheme run" where
  "uart_put_dec val =
     (let buf = dec_buf (if val < 0 then wrap32 (- val) else val)
      in block [if_do (val < 0) (uart_putc (CHR ''-'')), put_buf buf (length buf)])"

definition wfi_forever :: "'s \<Rightarrow> 's run" where
  "wfi_forever s = Halt s"

definition test_pass :: "'z cmach_scheme \<Rightarrow> 'z cmach_scheme run" where
  "test_pass = block [uart_puts (''[PASS]'' @ [CHR 0x0A]), on_dev (htif_write 1), wfi_forever]"

definition test_fail :: "c_int \<Rightarrow> 'z cmach_scheme \<Rightarrow> 'z cmach_scheme run" where
  "test_fail code = block
     [uart_puts ''[FAIL] code='', uart_put_dec code, uart_putc (CHR 0x0A),
      on_dev (htif_write (u64_of_int (wrap32 (push_bit 1 code) OR 1))), wfi_forever]"

definition test_assert :: "bool \<Rightarrow> string \<Rightarrow> c_int \<Rightarrow> 'z cmach_scheme \<Rightarrow> 'z cmach_scheme run" where
  "test_assert condition msg fail_code = if_do (\<not> condition) (block
     [uart_puts ''ASSERT FAILED: '', uart_puts msg, uart_putc (CHR 0x0A), test_fail fail_code])"

definition TEST_LOG :: "string \<Rightarrow> 'z cmach_scheme \<Rightarrow> 'z cmach_scheme run" where
  "TEST_LOG msg = block [uart_puts ''  [TEST] '', uart_puts msg, uart_putc (CHR 0x0A)]"

definition ASSERT_EQ :: "u64 \<Rightarrow> u64 \<Rightarrow> string \<Rightarrow> c_int \<Rightarrow> 'z cmach_scheme \<Rightarrow> 'z cmach_scheme run" where
  "ASSERT_EQ actual expected msg code = if_do (actual \<noteq> expected) (block
     [uart_puts ''  ASSERT_EQ FAILED: '', uart_puts msg,
      uart_puts (CHR 0x0A # ''    actual=''), uart_put_hex actual,
      uart_puts '' expected='', uart_put_hex expected, uart_putc (CHR 0x0A), test_fail code])"


declare put_hex_from.simps [simp del] dec_buf.simps [simp del]

section \<open>What is printed\<close>

definition crlf :: "string \<Rightarrow> string" where
  "crlf s = concat (map (\<lambda>c. if c = CHR 0x0A then [CHR 0x0D, c] else [c]) s)"

abbreviation say :: "string \<Rightarrow> 'z cmach_scheme \<Rightarrow> 'z cmach_scheme" where
  "say cs s \<equiv> s\<lparr>dev := console.emit cs (dev s)\<rparr>"

definition hex_text :: "u64 \<Rightarrow> string" where
  "hex_text val = map (\<lambda>k. hex_digit (drop_bit (4 * k) val AND 0xF)) (rev [0..<16])"

definition dec_text :: "c_int \<Rightarrow> string" where
  "dec_text val = (if val < 0 then ''-'' @ rev (dec_buf (wrap32 (- val))) else rev (dec_buf val))"

lemmas emit_rules [simp] = console.emit_ok console.emit_append console.emit_Nil

lemma emit_mono: "dev_ok d \<Longrightarrow> console_text (console.emit cs d) = console_text d @ cs"
  by (rule console.emit_shown)

lemma uart_putc_say [simp]: "dev_ok (dev s) \<Longrightarrow> uart_putc c s = Ret (say [c] s)"
  using console.emit_putc [of "dev s" c] by (simp add: uart_putc_def on_dev_def on_part_def)

lemma uart_puts_say [simp]: "dev_ok (dev s) \<Longrightarrow> uart_puts cs s = Ret (say (crlf cs) s)"
  by (induction cs arbitrary: s) (simp_all add: crlf_def)

lemma put_hex_from_say:
  "dev_ok (dev s) \<Longrightarrow> put_hex_from i val s =
     Ret (say (map (\<lambda>k. hex_digit (drop_bit (nat (i - 4 * int k)) val AND 0xF)) [0..<nat ((i + 4) div 4)]) s)"
proof (induction "nat ((i + 4) div 4)" arbitrary: i s)
  case 0
  then have "i < 0" by linarith
  with 0(1) show ?case by (simp add: put_hex_from.simps [of i] flip: 0(1))
next
  case (Suc n)
  then have i: "0 \<le> i" "nat ((i - 4 + 4) div 4) = n" by linarith+
  have l: "[0..<Suc n] = 0 # map Suc [0..<n]" by (simp add: upt_conv_Cons map_Suc_upt)
  have e: "i - 4 - 4 * int k = i - 4 * int (Suc k)" for k by simp
  show ?case
    using i Suc.prems Suc.hyps(1) [of "i - 4"]
    by (simp add: put_hex_from.simps [of i] l e comp_def del: upt_Suc flip: Suc.hyps(2))
qed

lemma uart_put_hex_say [simp]: "dev_ok (dev s) \<Longrightarrow> uart_put_hex val s = Ret (say (''0x'' @ hex_text val) s)"
  by (simp add: uart_put_hex_def put_hex_from_say crlf_def hex_text_def upt_rec)

lemma put_buf_say: "dev_ok (dev s) \<Longrightarrow> i \<le> length buf \<Longrightarrow> put_buf buf i s = Ret (say (rev (take i buf)) s)"
  by (induction i arbitrary: s) (simp_all add: take_Suc_conv_app_nth)

lemma uart_put_dec_say [simp]: "dev_ok (dev s) \<Longrightarrow> uart_put_dec val s = Ret (say (dec_text val) s)"
  by (simp add: uart_put_dec_def Let_def put_buf_say dec_text_def)


section \<open>Numbers can be read back\<close>

definition hex_val :: "char \<Rightarrow> nat" where
  "hex_val c = (let n = of_char c in if n < 58 then n - 48 else n - 87)"

definition read_hex :: "string \<Rightarrow> nat" where
  "read_hex cs = foldl (\<lambda>n c. 16 * n + hex_val c) 0 cs"

definition read_dec :: "string \<Rightarrow> int" where
  "read_dec cs =
     (let digits = foldl (\<lambda>n c. 10 * n + (of_char c - 48)) 0
      in if cs \<noteq> [] \<and> hd cs = CHR ''-'' then - digits (tl cs) else digits cs)"

lemma hex_val_digit: "v < 16 \<Longrightarrow> hex_val (hex_digit v) = unat v"
proof -
  assume "v < 16"
  then have "unat v < 16" by (simp add: word_less_nat_alt)
  moreover have "list_all (\<lambda>n. hex_val (''0123456789abcdef'' ! n) = n) [0..<16]" by code_simp
  ultimately show ?thesis by (simp add: hex_digit_def list_all_iff)
qed

lemma nibble: "unat (drop_bit i (val :: u64) AND 0xF) = unat val div 2 ^ i mod 16" "drop_bit i (val :: u64) AND 0xF < 16"
proof -
  have m: "(0xF :: u64) = mask 4" by (simp add: mask_eq_exp_minus_1)
  show "unat (drop_bit i val AND 0xF) = unat val div 2 ^ i mod 16"
    unfolding m take_bit_eq_mask [symmetric] unsigned_take_bit_eq unat_drop_bit_eq
    by (simp add: take_bit_eq_mod drop_bit_eq_div)
  then show "drop_bit i val AND 0xF < 16" by (simp add: word_less_nat_alt)
qed

lemma nibbles_value:
  "foldl (\<lambda>a k. 16 * a + n div 16 ^ k mod 16) a (rev [0..<m]) = 16 ^ m * a + n mod 16 ^ m" for n :: nat
proof (induction m arbitrary: a)
  case (Suc m)
  have "n mod (16 * 16 ^ m) = 16 ^ m * (n div 16 ^ m mod 16) + n mod 16 ^ m"
    using mod_mult2_eq [of n "16 ^ m" 16] by (simp add: mult.commute)
  with Suc show ?case by (simp add: algebra_simps)
qed simp

lemma read_hex_text: "read_hex (hex_text val) = unat val"
proof -
  have "unat val < 2 ^ LENGTH(64)" by (rule unsigned_less)
  then have "unat val mod 16 ^ 16 = unat val" by simp
  moreover have "read_hex (hex_text val) = foldl (\<lambda>a k. 16 * a + unat val div 16 ^ k mod 16) 0 (rev [0..<16])"
    unfolding read_hex_def hex_text_def foldl_map hex_val_digit [OF nibble(2)] nibble(1) by (simp add: power_mult)
  ultimately show ?thesis unfolding nibbles_value by simp
qed


lemma dec_char: "0 \<le> (v :: int) \<Longrightarrow> of_char (char_of (48 + v mod 10) :: char) = 48 + v mod 10"
proof -
  have "0 \<le> v mod 10" "v mod 10 < 10" by simp_all
  then have "(48 + v mod 10) mod 256 = 48 + v mod 10" by (intro mod_pos_pos_trivial) linarith+
  then show ?thesis by simp
qed

lemma dec_buf_nonneg:
  "0 \<le> v \<Longrightarrow> dec_buf v = char_of (48 + v mod 10) # (if 10 \<le> v then dec_buf (v div 10) else [])"
  by (subst dec_buf.simps) (auto simp: Let_def sdiv_10)

lemma dec_buf_value: "0 \<le> v \<Longrightarrow> foldr (\<lambda>c n. 10 * n + (of_char c - 48)) (dec_buf v) 0 = v"
proof (induction "nat v" arbitrary: v rule: less_induct)
  case less
  show ?case
  proof (cases "10 \<le> v")
    case True
    then have "nat (v div 10) < nat v" "0 \<le> v div 10" by auto
    from less.hyps [OF this] less.prems True show ?thesis
      by (subst dec_buf_nonneg) (simp_all add: dec_char del: of_char_of)
  next
    case False
    with less.prems dec_char [OF less.prems] show ?thesis by (subst dec_buf_nonneg) (simp_all del: of_char_of)
  qed
qed

lemma dec_buf_length: "0 \<le> v \<Longrightarrow> v < 10 ^ Suc n \<Longrightarrow> length (dec_buf v) \<le> Suc n"
proof (induction n arbitrary: v)
  case 0
  then show ?case by (subst dec_buf_nonneg) auto
next
  case (Suc n)
  then have "0 \<le> v div 10" "v div 10 < 10 ^ Suc n" by auto
  from Suc.IH [OF this] Suc.prems(1) show ?case by (subst dec_buf_nonneg) auto
qed

lemma dec_buf_digits: "0 \<le> v \<Longrightarrow> c \<in> set (dec_buf v) \<Longrightarrow> 48 \<le> (of_char c :: int)"
proof (induction "nat v" arbitrary: v rule: less_induct)
  case less
  have "of_char (char_of (48 + v mod 10) :: char) = 48 + v mod 10" by (rule dec_char [OF less.prems(1)])
  moreover have "0 \<le> v mod 10" by simp
  ultimately have d: "48 \<le> (of_char (char_of (48 + v mod 10) :: char) :: int)" by linarith
  show ?case
  proof (cases "10 \<le> v")
    case True
    then have "nat (v div 10) < nat v" "0 \<le> v div 10" by auto
    from less.hyps [OF this] less.prems True d show ?thesis
      by (subst (asm) dec_buf_nonneg) (auto simp del: of_char_of)
  next
    case False
    with less.prems d show ?thesis by (subst (asm) dec_buf_nonneg) (auto simp del: of_char_of)
  qed
qed

lemma read_dec_text:
  assumes "c_int_range val" "val \<noteq> - (2 ^ 31)"
  shows "read_dec (dec_text val) = val"
proof -
  have fl: "foldl (\<lambda>n c. 10 * n + (of_char c - 48)) 0 (rev (dec_buf v)) = v" if "0 \<le> v" for v
    using dec_buf_value [OF that] by (simp add: foldl_conv_foldr)
  show ?thesis
  proof (cases "val < 0")
    case True
    with assms have "wrap32 (- val) = - val" "0 \<le> - val" by (auto simp: c_int_range_def)
    with True fl [of "- val"] show ?thesis by (simp add: dec_text_def read_dec_def)
  next
    case False
    then have v: "0 \<le> val" by simp
    obtain c cs where r: "rev (dec_buf val) = c # cs"
      using dec_buf_nonneg [OF v] by (cases "rev (dec_buf val)") (auto split: if_splits)
    then have "c \<in> set (dec_buf val)" by (metis list.set_intros(1) set_rev)
    from dec_buf_digits [OF v this] have "c \<noteq> CHR ''-''" by auto
    with False r fl [OF v] show ?thesis by (simp add: dec_text_def read_dec_def)
  qed
qed


section \<open>Verdicts\<close>

text \<open>How the host reads \<open>tohost\<close>: bit 0 marks an exit, the rest is the exit code.\<close>

definition htif_exit :: "u64 \<Rightarrow> u64 option" where
  "htif_exit w = (if bit w 0 then Some (drop_bit 1 w) else None)"

definition fail_word :: "c_int \<Rightarrow> u64" where
  "fail_word code = u64_of_int (wrap32 (push_bit 1 code) OR 1)"

lemma dev_ok_not_pending: "dev_ok d \<Longrightarrow> spike_build d \<Longrightarrow> tohost d = 0"
  by (simp add: dev_ok_def)

lemma htif_write_verdict:
  assumes "dev_ok (dev s)"
  obtains d where "on_dev (htif_write v) s = Ret (s\<lparr>dev := d\<rparr>)" "tohost d = v"
    "console_text d = console_text (dev s)"
proof -
  from htif_write_ret [OF assms, of v] obtain k w where
    "htif_write v (dev s) = Ret ((dev s)\<lparr>host_in := (\<lambda>i. host_in (dev s) (i + k)), fromhost := w,
       host_log := host_log (dev s) @ (if tohost (dev s) = 0 then [] else [tohost (dev s)]), tohost := v\<rparr>)"
    by blast
  with that dev_ok_not_pending [OF assms] show thesis
    by (simp add: on_dev_def on_part_def console_text_def)
qed

lemma test_pass_halts:
  assumes "dev_ok (dev s)"
  shows "\<exists>d. test_pass s = Halt (s\<lparr>dev := d\<rparr>) \<and> tohost d = 1 \<and>
    console_text d = console_text (dev s) @ ''[PASS]'' @ [CHR 0x0D, CHR 0x0A]"
proof -
  let ?s = "say (crlf (''[PASS]'' @ [CHR 0x0A])) s"
  have "dev_ok (dev ?s)" using assms by simp
  then obtain d where "on_dev (htif_write 1) ?s = Ret (?s\<lparr>dev := d\<rparr>)" "tohost d = 1"
    "console_text d = console_text (dev ?s)" by (rule htif_write_verdict)
  with assms show ?thesis by (intro exI [of _ d]) (simp add: test_pass_def wfi_forever_def emit_mono crlf_def)
qed

lemma test_fail_halts:
  assumes "dev_ok (dev s)"
  shows "\<exists>d. test_fail code s = Halt (s\<lparr>dev := d\<rparr>) \<and> tohost d = fail_word code \<and>
    console_text d = console_text (dev s) @ ''[FAIL] code='' @ dec_text code @ [CHR 0x0A]"
proof -
  let ?s = "say (''[FAIL] code='' @ dec_text code @ [CHR 0x0A]) s"
  have "dev_ok (dev ?s)" using assms by simp
  then obtain d where "on_dev (htif_write (fail_word code)) ?s = Ret (?s\<lparr>dev := d\<rparr>)"
    "tohost d = fail_word code" "console_text d = console_text (dev ?s)" by (rule htif_write_verdict)
  with assms show ?thesis
    by (intro exI [of _ d]) (simp add: test_fail_def wfi_forever_def emit_mono crlf_def fail_word_def)
qed

lemma test_fail_stops: "dev_ok (dev s) \<Longrightarrow> \<exists>d. test_fail code s = Halt (s\<lparr>dev := d\<rparr>) \<and> tohost d = fail_word code"
  using test_fail_halts [of s code] by blast

lemma fail_word_small: "0 \<le> code \<Longrightarrow> code < 2 ^ 30 \<Longrightarrow> fail_word code = word_of_int (2 * code + 1)"
proof -
  assume c: "0 \<le> code" "code < 2 ^ 30"
  then have "wrap32 (push_bit 1 code) = 2 * code" by (simp add: push_bit_eq_mult)
  moreover have "2 * code OR 1 = 2 * code + 1" by (simp add: or_one_eq)
  ultimately show ?thesis by (simp add: fail_word_def u64_of_int_def)
qed

lemma fail_word_exit:
  assumes "0 \<le> code" "code < 2 ^ 30"
  shows "htif_exit (fail_word code) = Some (word_of_int code)"
proof -
  define w :: u64 where "w = word_of_int (2 * code + 1)"
  have u: "uint w = 2 * code + 1"
    unfolding w_def uint_word_of_int using assms by simp
  have "uint (drop_bit 1 w) = code" by (simp add: drop_bit_eq_div uint_div u)
  then have "drop_bit 1 w = word_of_int code" by (metis word_of_int_uint)
  moreover have "bit w 0" by (simp add: bit_0 w_def)
  ultimately show ?thesis unfolding htif_exit_def fail_word_small [OF assms] w_def [symmetric] by simp
qed


section \<open>Properties\<close>

text \<open>
  On a device that keeps answering, in either build, \<open>uart_puts\<close> returns and has put
  exactly the string on the console, every newline preceded by a carriage return; memory, the
  page-table pool and the verdict channel are as before.
\<close>

theorem uart_puts_prints:
  assumes "dev_ok (dev s)"
  shows "\<exists>d. uart_puts cs s = Ret (s\<lparr>dev := d\<rparr>) \<and> dev_ok d \<and>
    console_text d = console_text (dev s) @ crlf cs \<and> verdict_side d = verdict_side (dev s)"
  using assms console.emit_kept by (intro exI [of _ "console.emit (crlf cs) (dev s)"]) (simp add: emit_mono)

text \<open>
  Numbers are printed so that they can be read back: \<open>uart_put_hex\<close> prints
  \<open>0x\<close> and sixteen hexadecimal digits of the value; \<open>uart_put_dec\<close> prints every
  \<open>int\<close> but the least one as a decimal numeral, within its buffer of 20 characters.
\<close>

theorem put_number_roundtrip:
  assumes "dev_ok (dev s)" "c_int_range n"
  shows "(\<exists>d t. uart_put_hex v s = Ret (s\<lparr>dev := d\<rparr>) \<and> console_text d = console_text (dev s) @ ''0x'' @ t \<and>
      length t = 16 \<and> read_hex t = unat v) \<and>
    (\<exists>d t. uart_put_dec n s = Ret (s\<lparr>dev := d\<rparr>) \<and> console_text d = console_text (dev s) @ t \<and>
      length t \<le> 20 \<and> (n \<noteq> - (2 ^ 31) \<longrightarrow> read_dec t = n))"
proof (intro conjI exI)
  show "uart_put_hex v s = Ret (say (''0x'' @ hex_text v) s)" "uart_put_dec n s = Ret (say (dec_text n) s)"
    using assms(1) by simp_all
  show "console_text (console.emit (''0x'' @ hex_text v) (dev s)) = console_text (dev s) @ ''0x'' @ hex_text v"
    "console_text (console.emit (dec_text n) (dev s)) = console_text (dev s) @ dec_text n"
    using assms(1) by (simp_all add: emit_mono)
  show "length (hex_text v) = 16" by (simp add: hex_text_def)
  show "read_hex (hex_text v) = unat v" by (rule read_hex_text)
  show "n \<noteq> - (2 ^ 31) \<longrightarrow> read_dec (dec_text n) = n" using read_dec_text [OF assms(2)] by simp
  have len: "length (dec_buf m) \<le> 10" if "0 \<le> m" "m < 2 ^ 31" for m
    using dec_buf_length [of m 9] that by simp
  have neg: "wrap32 (- n) = (if n = - (2 ^ 31) then n else - n)" if "n < 0"
    using that assms(2) by (auto simp: c_int_range_def wrap32_def signed_take_bit_int_eq_self_iff)
  have least: "length (dec_buf (- (2 ^ 31))) = 1"
    by (subst dec_buf.simps) (simp add: Let_def signed_divide_int_def sgn_if)
  show "length (dec_text n) \<le> 20"
    using len [of n] len [of "- n"] neg least assms(2) by (auto simp: dec_text_def c_int_range_def)
qed

text \<open>
  The least \<open>int\<close> is printed as a minus sign and an opening parenthesis: its negation
  overflows, and the digit loop then sees a negative number.
\<close>

theorem put_dec_least_int:
  assumes "dev_ok (dev s)"
  shows "\<exists>d. uart_put_dec (- (2 ^ 31)) s = Ret (s\<lparr>dev := d\<rparr>) \<and>
    console_text d = console_text (dev s) @ ''-(''"
proof -
  have "dec_buf (- (2 ^ 31)) = ''(''"
    by (subst dec_buf.simps)
      (simp add: Let_def signed_divide_int_def signed_modulo_int_def sgn_if char_of_def bit_simps)
  moreover have "wrap32 (2 ^ 31) = - (2 ^ 31)" by (simp add: wrap32_def)
  ultimately have "dec_text (- (2 ^ 31)) = ''-(''" by (simp add: dec_text_def)
  with assms show ?thesis by (intro exI [of _ "console.emit ''-('' (dev s)"]) (simp add: emit_mono)
qed

text \<open>
  C32. Verdicts: \<open>test_fail\<close> prints its code, leaves the word in \<open>tohost\<close> that the host
  decodes to exactly that code, for every code below 2^30, and never returns; \<open>test_pass\<close>
  leaves the word for exit code 0.
\<close>

theorem verdict_decodes:
  assumes "dev_ok (dev s)" "0 \<le> code" "code < 2 ^ 30"
  shows "(\<exists>d. test_fail code s = Halt (s\<lparr>dev := d\<rparr>) \<and> htif_exit (tohost d) = Some (word_of_int code) \<and>
      console_text d = console_text (dev s) @ ''[FAIL] code='' @ dec_text code @ [CHR 0x0A]) \<and>
    (\<exists>d. test_pass s = Halt (s\<lparr>dev := d\<rparr>) \<and> htif_exit (tohost d) = Some 0)"
proof -
  have "htif_exit 1 = Some 0" by (simp add: htif_exit_def)
  then show ?thesis
    using test_fail_halts [OF assms(1), of code] test_pass_halts [OF assms(1)] fail_word_exit [OF assms(2,3)]
    by metis
qed

text \<open>
  Assertions: \<open>test_assert\<close> and \<open>ASSERT_EQ\<close> are no-ops when the condition holds (the
  two values are equal) and otherwise stop the hart with the word of their failure code.
\<close>

theorem asserts_decide:
  assumes "dev_ok (dev s)"
  shows "test_assert True msg code s = Ret s \<and> ASSERT_EQ v v msg code s = Ret s \<and>
    (\<exists>d. test_assert False msg code s = Halt (s\<lparr>dev := d\<rparr>) \<and> tohost d = fail_word code) \<and>
    (v \<noteq> w \<longrightarrow> (\<exists>d. ASSERT_EQ v w msg code s = Halt (s\<lparr>dev := d\<rparr>) \<and> tohost d = fail_word code))"
proof -
  have stop: "\<exists>d. test_fail code (say cs s) = Halt (s\<lparr>dev := d\<rparr>) \<and> tohost d = fail_word code" for cs
    using test_fail_stops [of "say cs s" code] assms by simp
  have "\<exists>cs. test_assert False msg code s = test_fail code (say cs s)"
    using assms by (simp add: test_assert_def) (rule exI, rule refl)
  moreover have "\<exists>ds. v \<noteq> w \<longrightarrow> ASSERT_EQ v w msg code s = test_fail code (say ds s)"
    using assms by (cases "v = w") (simp, simp add: ASSERT_EQ_def, rule exI, rule refl)
  ultimately show ?thesis
    using stop by (auto simp: test_assert_def [of True] ASSERT_EQ_def [of v v])
qed


section \<open>Witnesses\<close>

definition demo_dev :: devices where
  "demo_dev = \<lparr>spike_build = False, lsr_in = (\<lambda>n. if even n then 0 else 0x60), thr_out = [], tohost = 0,
     fromhost = 0, host_in = (\<lambda>n. if even n then None else Some 0), host_log = []\<rparr>"

definition demo_cm :: cmach where
  "demo_cm = \<lparr>mem = (\<lambda>_. 0), pt_pool = 0x80010000, pt_pool_next_page = 0, dev = demo_dev\<rparr>"

lemma demo_dev_ok: "dev_ok demo_dev"
proof -
  have "(0x60 :: u32) AND UART0_LSR_THRE \<noteq> 0" by (simp add: UART0_LSR_THRE_def push_bit_eq_mult)
  then have "lsr_in demo_dev (n + Suc n) AND UART0_LSR_THRE \<noteq> 0" "host_in demo_dev (n + Suc n) \<noteq> None" for n
    by (simp_all add: demo_dev_def)
  moreover have "\<not> spike_build demo_dev" by (simp add: demo_dev_def)
  ultimately show ?thesis unfolding dev_ok_def by blast
qed

lemma demo_cm_ok: "dev_ok (dev demo_cm)" "console_text (dev demo_cm) = []"
  using demo_dev_ok by (simp_all add: demo_cm_def demo_dev_def console_text_def)

theorem uart_puts_prints_witness:
  "dev_ok (dev demo_cm) \<and> (\<exists>d. uart_puts (''ok'' @ [CHR 0x0A]) demo_cm = Ret (demo_cm\<lparr>dev := d\<rparr>) \<and>
     console_text d = ''ok'' @ [CHR 0x0D, CHR 0x0A])"
  using uart_puts_prints [OF demo_cm_ok(1), of "''ok'' @ [CHR 0x0A]"] demo_cm_ok by (auto simp: crlf_def)

theorem put_number_roundtrip_witness:
  "c_int_range (- 42) \<and> (\<exists>d t. uart_put_dec (- 42) demo_cm = Ret (demo_cm\<lparr>dev := d\<rparr>) \<and>
     console_text d = t \<and> read_dec t = - 42)"
proof -
  have "c_int_range (- 42)" by (simp add: c_int_range_def)
  from put_number_roundtrip [OF demo_cm_ok(1) this] this demo_cm_ok(2) show ?thesis by fastforce
qed

theorem put_dec_least_int_witness:
  "dev_ok (dev demo_cm) \<and> (\<exists>d. uart_put_dec (- 2147483648) demo_cm = Ret (demo_cm\<lparr>dev := d\<rparr>) \<and>
     console_text d = ''-('')"
  using put_dec_least_int [OF demo_cm_ok(1)] demo_cm_ok by simp

theorem verdict_decodes_witness:
  "dev_ok (dev demo_cm) \<and> (\<exists>d. test_fail 201 demo_cm = Halt (demo_cm\<lparr>dev := d\<rparr>) \<and> htif_exit (tohost d) = Some 201)"
proof -
  have "0 \<le> (201 :: int)" "(201 :: int) < 2 ^ 30" by simp_all
  from verdict_decodes [OF demo_cm_ok(1) this] demo_cm_ok show ?thesis by auto
qed

theorem asserts_decide_witness:
  "dev_ok (dev demo_cm) \<and> ASSERT_EQ 7 7 ''x'' 5 demo_cm = Ret demo_cm \<and>
    (\<exists>d. ASSERT_EQ 7 8 ''x'' 5 demo_cm = Halt (demo_cm\<lparr>dev := d\<rparr>) \<and> tohost d = 11)"
proof -
  have "fail_word 5 = 11" using fail_word_small [of 5] by simp
  with asserts_decide [OF demo_cm_ok(1), of "''x''" 5 7 8] demo_cm_ok show ?thesis by auto
qed

end
