(* ===== verification/Hart.thy ===== *)
theory Hart
  imports Console
begin

text \<open>
  A hart as the runtime uses it: its CSRs and registers, the CLINT, the privileged
  architecture's trap entry and return, and the CSR, SBI-free helper functions of
  \<^verbatim>\<open>common/m_trap.c\<close>, \<^verbatim>\<open>common/smode.c\<close> and \<^verbatim>\<open>common/test.h\<close>. The trap, return and
  view functions are the instruction set's; the helpers are the sources'.
\<close>

datatype priv = U_mode | S_mode | M_mode

text \<open>
  \<open>csr_mip\<close> holds the bits software can write; the timer and software bits of M-mode come from
  the CLINT. \<open>tlb\<close> is the set of leaf entries the hardware has cached, with an address of
  their block and their level. \<open>junk\<close> is what a C function leaves in the registers its caller
  has to save.
\<close>

record hart =
  gpr :: "nat \<Rightarrow> u64"
  pc :: u64
  prv :: priv
  csr_mhartid :: u64
  csr_mstatus :: u64
  csr_mie :: u64
  csr_mip :: u64
  csr_mtvec :: u64
  csr_mepc :: u64
  csr_mcause :: u64
  csr_mtval :: u64
  csr_stvec :: u64
  csr_sepc :: u64
  csr_scause :: u64
  csr_stval :: u64
  csr_satp :: u64
  tlb :: "(u64 \<times> nat \<times> u64) set"
  junk :: "nat \<Rightarrow> u64"

record trap_state =
  scause :: u64
  stval :: u64
  sepc :: u64
  fault_count :: c_int
  expected_cause :: c_int
  expected_stval :: u64
  handler_action :: c_int
  irq_count :: c_int
  timer_irq_count :: c_int
  soft_irq_count :: c_int
  last_irq_cause :: u64

record machine = cmach +
  cpu :: hart
  g_trap :: trap_state
  clint64 :: "u64 \<Rightarrow> u64"
  clint32 :: "u64 \<Rightarrow> u32"

section \<open>The instruction set: views of CSRs, interrupts, traps\<close>

definition MIDELEG_DEFAULT :: u64 where
  "MIDELEG_DEFAULT = 0x222"

definition SSTATUS_MASK :: u64 where
  "SSTATUS_MASK = 0x80000003000DE762"

definition mtip :: "'z machine_scheme \<Rightarrow> bool" where
  "mtip s \<longleftrightarrow> clint64 s (CLINT_MTIMECMP (csr_mhartid (cpu s))) \<le> clint64 s CLINT_MTIME"

definition msip :: "'z machine_scheme \<Rightarrow> bool" where
  "msip s \<longleftrightarrow> bit (clint32 s (CLINT_MSIP (csr_mhartid (cpu s)))) 0"

definition mip_view :: "'z machine_scheme \<Rightarrow> u64" where
  "mip_view s = (csr_mip (cpu s) AND MIDELEG_DEFAULT) OR (if mtip s then MIP_MTIP else 0) OR (if msip s then MIP_MSIP else 0)"

text \<open>Interrupts a hart in S-mode takes, in M-mode and in S-mode.\<close>

definition m_pending :: "'z machine_scheme \<Rightarrow> u64" where
  "m_pending s = mip_view s AND csr_mie (cpu s) AND NOT MIDELEG_DEFAULT"

definition s_pending :: "'z machine_scheme \<Rightarrow> u64" where
  "s_pending s =
     (if csr_mstatus (cpu s) AND MSTATUS_SIE = 0 then 0 else mip_view s AND csr_mie (cpu s) AND MIDELEG_DEFAULT)"

definition put_bit :: "nat \<Rightarrow> bool \<Rightarrow> u64 \<Rightarrow> u64" where
  "put_bit n b w = (if b then set_bit n w else unset_bit n w)"

definition enter_m :: "u64 \<Rightarrow> u64 \<Rightarrow> hart \<Rightarrow> hart" where
  "enter_m cause tval h = h\<lparr>
     csr_mepc := pc h, csr_mcause := cause, csr_mtval := tval,
     csr_mstatus := put_bit 7 (bit (csr_mstatus h) 3) (put_bit 3 False
       (put_bit 11 (prv h \<noteq> U_mode) (put_bit 12 (prv h = M_mode) (csr_mstatus h)))),
     prv := M_mode, pc := csr_mtvec h\<rparr>"

definition mret :: "hart \<Rightarrow> hart" where
  "mret h = h\<lparr>
     pc := csr_mepc h,
     prv := (if bit (csr_mstatus h) 11 then if bit (csr_mstatus h) 12 then M_mode else S_mode else U_mode),
     csr_mstatus := put_bit 3 (bit (csr_mstatus h) 7) (put_bit 7 True
       (put_bit 11 False (put_bit 12 False (csr_mstatus h))))\<rparr>"

definition enter_s :: "u64 \<Rightarrow> u64 \<Rightarrow> hart \<Rightarrow> hart" where
  "enter_s cause tval h = h\<lparr>
     csr_sepc := pc h, csr_scause := cause, csr_stval := tval,
     csr_mstatus := put_bit 5 (bit (csr_mstatus h) 1) (put_bit 1 False
       (put_bit 8 (prv h \<noteq> U_mode) (csr_mstatus h))),
     prv := S_mode, pc := csr_stvec h AND NOT 3\<rparr>"

definition sret :: "hart \<Rightarrow> hart" where
  "sret h = h\<lparr>
     pc := csr_sepc h,
     prv := (if bit (csr_mstatus h) 8 then S_mode else U_mode),
     csr_mstatus := put_bit 1 (bit (csr_mstatus h) 5) (put_bit 5 True (put_bit 8 False (csr_mstatus h)))\<rparr>"

lemma bit_put_bit [simp]: "bit (put_bit n b w) m \<longleftrightarrow> (if m = n \<and> n < 64 then b else bit w m)"
  by (auto simp: put_bit_def bit_simps dest: bit_imp_le_length)

section \<open>CSR helpers of the sources\<close>

definition read_mhartid :: "'z machine_scheme \<Rightarrow> u64" where
  "read_mhartid s = csr_mhartid (cpu s)"

definition set_csr_bits_mip :: "u64 \<Rightarrow> 'z machine_scheme \<Rightarrow> 'z machine_scheme" where
  "set_csr_bits_mip bits s =
     s\<lparr>cpu := (cpu s)\<lparr>csr_mip := csr_mip (cpu s) OR (bits AND MIDELEG_DEFAULT)\<rparr>\<rparr>"

definition clear_csr_bits_mip :: "u64 \<Rightarrow> 'z machine_scheme \<Rightarrow> 'z machine_scheme" where
  "clear_csr_bits_mip bits s =
     s\<lparr>cpu := (cpu s)\<lparr>csr_mip := csr_mip (cpu s) AND NOT (bits AND MIDELEG_DEFAULT)\<rparr>\<rparr>"

definition set_csr_bits_mie :: "u64 \<Rightarrow> 'z machine_scheme \<Rightarrow> 'z machine_scheme" where
  "set_csr_bits_mie bits s = s\<lparr>cpu := (cpu s)\<lparr>csr_mie := csr_mie (cpu s) OR bits\<rparr>\<rparr>"

definition clear_csr_bits_mie :: "u64 \<Rightarrow> 'z machine_scheme \<Rightarrow> 'z machine_scheme" where
  "clear_csr_bits_mie bits s = s\<lparr>cpu := (cpu s)\<lparr>csr_mie := csr_mie (cpu s) AND NOT bits\<rparr>\<rparr>"

definition write_csr_scause :: "u64 \<Rightarrow> 'z machine_scheme \<Rightarrow> 'z machine_scheme" where
  "write_csr_scause v s = s\<lparr>cpu := (cpu s)\<lparr>csr_scause := v\<rparr>\<rparr>"

definition write_csr_stval :: "u64 \<Rightarrow> 'z machine_scheme \<Rightarrow> 'z machine_scheme" where
  "write_csr_stval v s = s\<lparr>cpu := (cpu s)\<lparr>csr_stval := v\<rparr>\<rparr>"

definition write_csr_sepc :: "u64 \<Rightarrow> 'z machine_scheme \<Rightarrow> 'z machine_scheme" where
  "write_csr_sepc v s = s\<lparr>cpu := (cpu s)\<lparr>csr_sepc := v\<rparr>\<rparr>"

definition read_csr_satp :: "'z machine_scheme \<Rightarrow> u64" where
  "read_csr_satp s = csr_satp (cpu s)"

definition write_csr_satp :: "u64 \<Rightarrow> 'z machine_scheme \<Rightarrow> 'z machine_scheme" where
  "write_csr_satp v s = s\<lparr>cpu := (cpu s)\<lparr>csr_satp := v\<rparr>\<rparr>"

definition write_csr_stvec :: "u64 \<Rightarrow> 'z machine_scheme \<Rightarrow> 'z machine_scheme" where
  "write_csr_stvec v s = s\<lparr>cpu := (cpu s)\<lparr>csr_stvec := v\<rparr>\<rparr>"

definition sfence_vma_all :: "'z machine_scheme \<Rightarrow> 'z machine_scheme" where
  "sfence_vma_all s = s\<lparr>cpu := (cpu s)\<lparr>tlb := {}\<rparr>\<rparr>"

definition sfence_vma_addr :: "u64 \<Rightarrow> 'z machine_scheme \<Rightarrow> 'z machine_scheme" where
  "sfence_vma_addr addr s =
     s\<lparr>cpu := (cpu s)\<lparr>tlb := {(va, l, e) \<in> tlb (cpu s). \<not> same_block l va addr}\<rparr>\<rparr>"

definition read_sstatus :: "'z machine_scheme \<Rightarrow> u64" where
  "read_sstatus s = csr_mstatus (cpu s) AND SSTATUS_MASK"

definition write_sstatus :: "u64 \<Rightarrow> 'z machine_scheme \<Rightarrow> 'z machine_scheme" where
  "write_sstatus v s = s\<lparr>cpu := (cpu s)\<lparr>csr_mstatus :=
     (csr_mstatus (cpu s) AND NOT SSTATUS_MASK) OR (v AND SSTATUS_MASK)\<rparr>\<rparr>"

definition read_sie :: "'z machine_scheme \<Rightarrow> u64" where
  "read_sie s = csr_mie (cpu s) AND MIDELEG_DEFAULT"

definition write_sie :: "u64 \<Rightarrow> 'z machine_scheme \<Rightarrow> 'z machine_scheme" where
  "write_sie v s = s\<lparr>cpu := (cpu s)\<lparr>csr_mie :=
     (csr_mie (cpu s) AND NOT MIDELEG_DEFAULT) OR (v AND MIDELEG_DEFAULT)\<rparr>\<rparr>"

definition read_sip :: "'z machine_scheme \<Rightarrow> u64" where
  "read_sip s = mip_view s AND MIDELEG_DEFAULT"

definition csrs_sie :: "u64 \<Rightarrow> 'z machine_scheme \<Rightarrow> 'z machine_scheme" where
  "csrs_sie bits s = write_sie (read_sie s OR bits) s"

definition clear_sip_ssip :: "'z machine_scheme \<Rightarrow> 'z machine_scheme" where
  "clear_sip_ssip s = s\<lparr>cpu := (cpu s)\<lparr>csr_mip := csr_mip (cpu s) AND NOT SIP_SSIP\<rparr>\<rparr>"

definition enable_s_interrupts :: "'z machine_scheme \<Rightarrow> 'z machine_scheme" where
  "enable_s_interrupts s = write_sstatus (read_sstatus s OR MSTATUS_SIE) s"

definition disable_s_interrupts :: "'z machine_scheme \<Rightarrow> 'z machine_scheme" where
  "disable_s_interrupts s = write_sstatus (read_sstatus s AND NOT MSTATUS_SIE) s"

definition enable_s_timer_irq :: "'z machine_scheme \<Rightarrow> 'z machine_scheme" where
  "enable_s_timer_irq = csrs_sie SIP_STIP"

definition enable_s_soft_irq :: "'z machine_scheme \<Rightarrow> 'z machine_scheme" where
  "enable_s_soft_irq = csrs_sie SIP_SSIP"

definition enable_s_ext_irq :: "'z machine_scheme \<Rightarrow> 'z machine_scheme" where
  "enable_s_ext_irq = csrs_sie SIP_SEIP"

definition read_mtime :: "'z machine_scheme \<Rightarrow> u64" where
  "read_mtime s = clint64 s CLINT_MTIME"

end
