(* ===== verification/MTrap.thy ===== *)
theory MTrap
  imports Hart
begin

text \<open>
  The M-mode firmware: \<open>m_trap_handler\<close> of \<^verbatim>\<open>common/m_trap.c\<close>, the assembly vector of
  \<^verbatim>\<open>common/boot.S\<close> around it, and the SBI calls of \<^verbatim>\<open>common/test.h\<close> as S-mode executes
  them: an \<open>ecall\<close>, the vector, \<open>mret\<close>.
\<close>

section \<open>The code\<close>

text \<open>\<open>_m_trap_info\<close> follows the HTIF words, where the linker script puts it.\<close>

definition M_TRAP_INFO :: u64 where
  "M_TRAP_INFO = 0x801FF010"

definition wr64 :: "u64 \<Rightarrow> u64 \<Rightarrow> 'z machine_scheme \<Rightarrow> 'z machine_scheme" where
  "wr64 a v s = s\<lparr>clint64 := (clint64 s)(a := v)\<rparr>"

definition wr32 :: "u64 \<Rightarrow> u32 \<Rightarrow> 'z machine_scheme \<Rightarrow> 'z machine_scheme" where
  "wr32 a v s = s\<lparr>clint32 := (clint32 s)(a := v)\<rparr>"

definition m_panic :: "u64 \<Rightarrow> u64 \<Rightarrow> u64 \<Rightarrow> u64 \<Rightarrow> 'z machine_scheme \<Rightarrow> 'z machine_scheme run" where
  "m_panic mcause mepc mtval cause_code = block
     [exec (st64 (slot M_TRAP_INFO 0) mcause),
      exec (st64 (slot M_TRAP_INFO 1) mepc),
      exec (st64 (slot M_TRAP_INFO 2) mtval),
      on_dev (\<lambda>d. of_option (poll_tohost id d)),
      on_dev (exec (\<lambda>d. d\<lparr>tohost := u64_of_int
        (wrap32 (push_bit 1 (wrap32 (500 + int_of_u64 cause_code))) OR 1)\<rparr>)),
      wfi_forever]"

text \<open>The result goes to register a0, from where the vector writes it to \<open>mepc\<close>.\<close>

definition m_return :: "u64 \<Rightarrow> 'z machine_scheme \<Rightarrow> 'z machine_scheme run" where
  "m_return v s = Ret (s\<lparr>cpu := (cpu s)\<lparr>gpr := (gpr (cpu s))(10 := v)\<rparr>\<rparr>)"

definition m_trap_handler ::
    "u64 \<Rightarrow> u64 \<Rightarrow> u64 \<Rightarrow> u64 \<Rightarrow> 'z machine_scheme \<Rightarrow> 'z machine_scheme run" where
  "m_trap_handler mcause mepc mtval frame s =
     (let is_interrupt = drop_bit 63 mcause AND 1;
          cause_code = mcause AND 0x7FFFFFFFFFFFFFFF
      in if is_interrupt \<noteq> 0 then
           if cause_code = IRQ_M_TIMER then
             let s = clear_csr_bits_mie MIP_MTIP s;
                 s = wr64 (CLINT_MTIMECMP (read_mhartid s)) 0xFFFFFFFFFFFFFFFF s;
                 s = set_csr_bits_mip MIP_STIP s
             in m_return mepc s
           else if cause_code = IRQ_M_SOFT then
             let s = wr32 (CLINT_MSIP (read_mhartid s)) 0 s;
                 s = set_csr_bits_mip MIP_SSIP s
             in m_return mepc s
           else m_panic mcause mepc mtval cause_code s
         else if cause_code = CAUSE_ECALL_SMODE then
           let sbi_func = mem s (slot frame 11); sbi_a0 = mem s (slot frame 4)
           in if sbi_func = SBI_SET_TIMER then
                let s = wr64 (CLINT_MTIMECMP (read_mhartid s)) sbi_a0 s;
                    s = clear_csr_bits_mip MIP_STIP s;
                    s = set_csr_bits_mie MIP_MTIP s
                in m_return (mepc + 4) s
              else if sbi_func = SBI_SEND_IPI then
                let s = (if sbi_a0 < NUM_HARTS then wr32 (CLINT_MSIP sbi_a0) 1 s else s)
                in m_return (mepc + 4) s
              else if sbi_func = SBI_CLEAR_IPI then
                m_return (mepc + 4) (clear_csr_bits_mip MIP_SSIP s)
              else
                let s = write_csr_scause CAUSE_ECALL_SMODE s;
                    s = write_csr_sepc mepc s;
                    s = write_csr_stval 0 s;
                    stvec = csr_stvec (cpu s) AND NOT 3;
                    s = s\<lparr>cpu := (cpu s)\<lparr>csr_mstatus := csr_mstatus (cpu s) OR push_bit 8 1\<rparr>\<rparr>
                in m_return stvec s
         else m_panic mcause mepc mtval cause_code s)"

section \<open>The vector\<close>

text \<open>The registers the M-mode vector saves, in the order of its frame, and the ones the calling
  convention lets a C function change.\<close>

definition m_saved :: "nat list" where
  "m_saved = [1, 5, 6, 7, 10, 11, 12, 13, 14, 15, 16, 17, 28, 29, 30, 31]"

definition caller_saved :: "nat list" where
  "caller_saved = [1, 5, 6, 7, 10, 11, 12, 13, 14, 15, 16, 17, 28, 29, 30, 31]"

primrec save_regs :: "nat list \<Rightarrow> u64 \<Rightarrow> 'z machine_scheme \<Rightarrow> 'z machine_scheme" where
  "save_regs [] a s = s"
| "save_regs (r # rs) a s = save_regs rs (a + 8) (st64 a (gpr (cpu s) r) s)"

primrec restore_regs :: "nat list \<Rightarrow> u64 \<Rightarrow> 'z machine_scheme \<Rightarrow> 'z machine_scheme" where
  "restore_regs [] a s = s"
| "restore_regs (r # rs) a s =
     restore_regs rs (a + 8) (s\<lparr>cpu := (cpu s)\<lparr>gpr := (gpr (cpu s))(r := mem s a)\<rparr>\<rparr>)"

definition clobber :: "nat list \<Rightarrow> 'z machine_scheme \<Rightarrow> 'z machine_scheme" where
  "clobber rs s = s\<lparr>cpu := (cpu s)\<lparr>gpr := (\<lambda>r. if r \<in> set rs then junk (cpu s) r else gpr (cpu s) r)\<rparr>\<rparr>"

definition add_sp :: "u64 \<Rightarrow> 'z machine_scheme \<Rightarrow> 'z machine_scheme" where
  "add_sp d s = s\<lparr>cpu := (cpu s)\<lparr>gpr := (gpr (cpu s))(2 := gpr (cpu s) 2 + d)\<rparr>\<rparr>"

definition on_cpu :: "(hart \<Rightarrow> hart) \<Rightarrow> 'z machine_scheme \<Rightarrow> 'z machine_scheme" where
  "on_cpu f s = s\<lparr>cpu := f (cpu s)\<rparr>"

definition m_trap_vector :: "'z machine_scheme \<Rightarrow> 'z machine_scheme run" where
  "m_trap_vector = block
     [exec (add_sp (- 128)),
      exec (\<lambda>s. save_regs m_saved (gpr (cpu s) 2) s),
      \<lambda>s. m_trap_handler (csr_mcause (cpu s)) (csr_mepc (cpu s)) (csr_mtval (cpu s)) (gpr (cpu s) 2)
            (clobber caller_saved s),
      exec (on_cpu (\<lambda>h. h\<lparr>csr_mepc := gpr h 10\<rparr>)),
      exec (\<lambda>s. restore_regs m_saved (gpr (cpu s) 2) s),
      exec (add_sp 128),
      exec (on_cpu mret)]"

text \<open>An \<open>ecall\<close> from S-mode and the SBI calls.\<close>

definition ecall :: "'z machine_scheme \<Rightarrow> 'z machine_scheme run" where
  "ecall = block [exec (on_cpu (enter_m CAUSE_ECALL_SMODE 0)), m_trap_vector]"

definition set_reg :: "nat \<Rightarrow> u64 \<Rightarrow> 'z machine_scheme \<Rightarrow> 'z machine_scheme" where
  "set_reg r v = on_cpu (\<lambda>h. h\<lparr>gpr := (gpr h)(r := v)\<rparr>)"

definition sbi_set_timer :: "u64 \<Rightarrow> 'z machine_scheme \<Rightarrow> 'z machine_scheme run" where
  "sbi_set_timer val = block [exec (set_reg 10 val), exec (set_reg 17 SBI_SET_TIMER), ecall]"

definition sbi_send_ipi :: "u64 \<Rightarrow> 'z machine_scheme \<Rightarrow> 'z machine_scheme run" where
  "sbi_send_ipi target_hart = block [exec (set_reg 10 target_hart), exec (set_reg 17 SBI_SEND_IPI), ecall]"

definition sbi_clear_ipi :: "'z machine_scheme \<Rightarrow> 'z machine_scheme run" where
  "sbi_clear_ipi = block [exec (set_reg 17 SBI_CLEAR_IPI), ecall]"

text \<open>An interrupt taken in M-mode.\<close>

definition m_interrupt :: "u64 \<Rightarrow> 'z machine_scheme \<Rightarrow> 'z machine_scheme run" where
  "m_interrupt cause = block [exec (on_cpu (enter_m (push_bit 63 1 OR cause) 0)), m_trap_vector]"

section \<open>Frames\<close>

definition frame_words :: "u64 \<Rightarrow> nat \<Rightarrow> u64 set" where
  "frame_words f n = {slot f (of_nat i) | i. i < n}"

lemma slot_nat_inj:
  assumes "i < 512" "j < 512"
  shows "slot f (of_nat i) = slot f (of_nat j) \<longleftrightarrow> i = j"
proof
  assume "slot f (of_nat i) = slot f (of_nat j)"
  then have "(8 * of_nat i :: u64) = 8 * of_nat j" by (simp add: slot_def)
  then have "(of_nat (8 * i) :: u64) = of_nat (8 * j)" by simp
  then show "i = j" using assms unfolding word_of_nat_eq_iff by (simp add: take_bit_nat_eq_self)
qed simp

primrec saved :: "nat list \<Rightarrow> u64 \<Rightarrow> (nat \<Rightarrow> u64) \<Rightarrow> (u64 \<Rightarrow> u64) \<Rightarrow> u64 \<Rightarrow> u64" where
  "saved [] a g m = m"
| "saved (r # rs) a g m = saved rs (a + 8) g (m(a := g r))"

lemma save_regs_eq: "save_regs rs a s = s\<lparr>mem := saved rs a (gpr (cpu s)) (mem s)\<rparr>"
  by (induction rs arbitrary: a s) (simp_all add: st64_def)

lemma slot_Suc: "slot (a + 8) (of_nat i) = slot a (of_nat (Suc i))" "slot a (of_nat 0) = a"
  by (simp_all add: slot_def algebra_simps)

lemma frame_words_Suc: "frame_words (a + 8) n \<subseteq> frame_words a (Suc n)"
  unfolding frame_words_def slot_Suc(1) by (auto simp del: of_nat_Suc)

lemma saved_other: "b \<notin> frame_words a (length rs) \<Longrightarrow> saved rs a g m b = m b"
proof (induction rs arbitrary: a m)
  case (Cons r rs)
  have "slot a (of_nat 0) \<in> frame_words a (length (r # rs))" unfolding frame_words_def by blast
  then have "b \<noteq> a" using Cons.prems unfolding slot_Suc(2) by blast
  moreover have "b \<notin> frame_words (a + 8) (length rs)"
    using Cons.prems frame_words_Suc [of a "length rs"] by auto
  ultimately show ?case using Cons.IH by simp
qed simp

lemma saved_at: "length rs \<le> 512 \<Longrightarrow> i < length rs \<Longrightarrow> saved rs a g m (slot a (of_nat i)) = g (rs ! i)"
proof (induction rs arbitrary: a m i)
  case (Cons r rs)
  show ?case
  proof (cases i)
    case 0
    have "a \<noteq> slot a (of_nat (Suc j))" if "j < length rs" for j
      using that Cons.prems(1) slot_nat_inj [of 0 "Suc j" a] slot_Suc(2) [of a] by auto
    then have "a \<notin> frame_words (a + 8) (length rs)" unfolding frame_words_def slot_Suc(1) by auto
    from saved_other [OF this] show ?thesis using 0 slot_Suc(2) [of a] by simp
  next
    case (Suc j)
    with Cons.IH [of j "a + 8"] Cons.prems show ?thesis unfolding slot_Suc(1) by simp
  qed
qed simp

lemma restore_regs_eq:
  "(\<And>i. i < length rs \<Longrightarrow> mem s (slot a (of_nat i)) = g (rs ! i)) \<Longrightarrow>
   restore_regs rs a s = on_cpu (\<lambda>h. h\<lparr>gpr := (\<lambda>r. if r \<in> set rs then g r else gpr h r)\<rparr>) s"
proof (induction rs arbitrary: a s)
  case Nil
  show ?case by (simp add: on_cpu_def)
next
  case (Cons r rs)
  let ?s = "s\<lparr>cpu := (cpu s)\<lparr>gpr := (gpr (cpu s))(r := g r)\<rparr>\<rparr>"
  have "mem s a = g r" using Cons.prems [of 0] slot_Suc(2) [of a] by simp
  then have "restore_regs (r # rs) a s = restore_regs rs (a + 8) ?s" by simp
  also have "\<dots> = on_cpu (\<lambda>h. h\<lparr>gpr := (\<lambda>r. if r \<in> set rs then g r else gpr h r)\<rparr>) ?s"
    by (rule Cons.IH) (use Cons.prems [of "Suc _"] in \<open>simp add: slot_Suc(1) del: of_nat_Suc\<close>)
  also have "\<dots> = on_cpu (\<lambda>h. h\<lparr>gpr := (\<lambda>x. if x \<in> set (r # rs) then g x else gpr h x)\<rparr>) s"
  proof -
    have "(\<lambda>x. if x \<in> set rs then g x else ((gpr (cpu s))(r := g r)) x)
        = (\<lambda>x. if x \<in> set (r # rs) then g x else gpr (cpu s) x)" by (auto simp: fun_eq_iff)
    then show ?thesis by (simp add: on_cpu_def cong: if_cong)
  qed
  finally show ?case .
qed


section \<open>The vector preserves the interrupted registers\<close>

definition m_frame :: "'z machine_scheme \<Rightarrow> u64" where
  "m_frame s = gpr (cpu s) 2 - 128"

text \<open>The state in which the vector calls the handler.\<close>

definition m_entry :: "'z machine_scheme \<Rightarrow> 'z machine_scheme" where
  "m_entry s = s\<lparr>mem := saved m_saved (m_frame s) (gpr (cpu s)) (mem s),
     cpu := (cpu s)\<lparr>gpr := (\<lambda>r. if r \<in> set caller_saved then junk (cpu s) r else if r = 2 then m_frame s else gpr (cpu s) r)\<rparr>\<rparr>"

lemma saved_cong: "(\<And>r. r \<in> set rs \<Longrightarrow> g r = h r) \<Longrightarrow> saved rs a g m = saved rs a h m"
  by (induction rs arbitrary: a m) auto

lemma m_entry_code:
  "clobber caller_saved (save_regs m_saved (gpr (cpu (add_sp (- 128) s)) 2) (add_sp (- 128) s)) = m_entry s"
proof -
  have f: "gpr (cpu (add_sp (- 128) s)) 2 = m_frame s" by (simp add: add_sp_def m_frame_def)
  have "saved m_saved (m_frame s) (gpr (cpu (add_sp (- 128) s))) (mem s) = saved m_saved (m_frame s) (gpr (cpu s)) (mem s)"
    by (rule saved_cong) (auto simp: add_sp_def m_saved_def)
  moreover have "(\<lambda>r. if r \<in> set caller_saved then j r else (g(2 := x)) r)
      = (\<lambda>r. if r \<in> set caller_saved then j r else if r = 2 then x else g r)" for j g x
    by (simp add: fun_eq_iff)
  ultimately show ?thesis
    unfolding f by (simp add: save_regs_eq clobber_def m_entry_def m_frame_def cong: if_cong)
      (simp add: add_sp_def cong: if_cong)
qed

lemma m_trap_vector_ret:
  assumes h: "m_trap_handler (csr_mcause (cpu s)) (csr_mepc (cpu s)) (csr_mtval (cpu s)) (m_frame s) (m_entry s) = Ret s2"
    and m: "mem s2 = mem (m_entry s)"
    and g: "\<And>r. r \<notin> set caller_saved \<Longrightarrow> gpr (cpu s2) r = gpr (cpu (m_entry s)) r"
  shows "m_trap_vector s = Ret (on_cpu (\<lambda>h. mret (h\<lparr>csr_mepc := gpr h 10, gpr := gpr (cpu s)\<rparr>)) s2)"
proof -
  let ?s3 = "on_cpu (\<lambda>h. h\<lparr>csr_mepc := gpr h 10\<rparr>) s2"
  have sp: "gpr (cpu ?s3) 2 = m_frame s"
    using g [of 2] by (simp add: on_cpu_def m_entry_def caller_saved_def)
  have "mem ?s3 (slot (m_frame s) (of_nat i)) = gpr (cpu s) (m_saved ! i)" if "i < length m_saved" for i
    using that m saved_at [of m_saved i] by (simp add: on_cpu_def m_entry_def m_saved_def)
  from restore_regs_eq [OF this]
  have r: "restore_regs m_saved (m_frame s) ?s3 =
      on_cpu (\<lambda>h. h\<lparr>gpr := (\<lambda>r. if r \<in> set m_saved then gpr (cpu s) r else gpr h r)\<rparr>) ?s3" .
  have regs: "(\<lambda>r. if r = 2 then (if (2 :: nat) \<in> set m_saved then gpr (cpu s) 2 else gpr (cpu s2) 2) + 128
      else if r \<in> set m_saved then gpr (cpu s) r else gpr (cpu s2) r) = gpr (cpu s)"
  proof
    fix r
    have e: "set m_saved = set caller_saved" by (simp add: m_saved_def caller_saved_def)
    have n: "2 \<notin> set caller_saved" by (simp add: caller_saved_def)
    show "(if r = 2 then (if (2 :: nat) \<in> set m_saved then gpr (cpu s) 2 else gpr (cpu s2) 2) + 128
      else if r \<in> set m_saved then gpr (cpu s) r else gpr (cpu s2) r) = gpr (cpu s) r"
      using g [of r] g [OF n] n by (auto simp: e m_entry_def m_frame_def)
  qed
  have "add_sp 128 (restore_regs m_saved (m_frame s) ?s3) =
      on_cpu (\<lambda>h. h\<lparr>csr_mepc := gpr h 10, gpr := gpr (cpu s)\<rparr>) s2"
    unfolding r using regs by (simp add: add_sp_def on_cpu_def fun_upd_def cong: if_cong)
  moreover have "csr_mcause (cpu (save_regs rs a (add_sp d s))) = csr_mcause (cpu s)"
    "csr_mepc (cpu (save_regs rs a (add_sp d s))) = csr_mepc (cpu s)"
    "csr_mtval (cpu (save_regs rs a (add_sp d s))) = csr_mtval (cpu s)"
    "gpr (cpu (save_regs rs a (add_sp d s))) 2 = gpr (cpu s) 2 + d" for rs a d
    by (simp_all add: save_regs_eq add_sp_def)
  ultimately show ?thesis
    using h sp unfolding m_trap_vector_def
    by (simp add: m_entry_code) (simp add: m_frame_def on_cpu_def)
qed


section \<open>A visit to M-mode\<close>

text \<open>What every visit leaves behind in the M-mode CSRs, resuming S-mode at \<open>resume\<close>.\<close>

definition m_visited :: "u64 \<Rightarrow> u64 \<Rightarrow> hart \<Rightarrow> hart" where
  "m_visited cause resume h = h\<lparr>pc := resume, prv := S_mode, csr_mepc := resume, csr_mcause := cause, csr_mtval := 0,
     csr_mstatus := put_bit 7 True (put_bit 11 False (put_bit 12 False (csr_mstatus h)))\<rparr>"

definition m_saved_mem :: "'z machine_scheme \<Rightarrow> u64 \<Rightarrow> u64" where
  "m_saved_mem s = saved m_saved (m_frame s) (gpr (cpu s)) (mem s)"

lemma length_m_saved: "length m_saved = 16"
  by (simp add: m_saved_def)

lemma m_saved_mem_other: "a \<notin> frame_words (m_frame s) 16 \<Longrightarrow> m_saved_mem s a = mem s a"
  using saved_other [of a "m_frame s" m_saved] by (simp add: m_saved_mem_def length_m_saved)

lemma m_status_roundtrip:
  "put_bit 3 (bit w 3) (put_bit 7 True (put_bit 11 False (put_bit 12 False
     (put_bit 7 (bit w 3) (put_bit 3 False (put_bit 11 True (put_bit 12 False w)))))))
   = put_bit 7 True (put_bit 11 False (put_bit 12 False w))"
  by (rule bit_word_eqI) simp

lemma m_visit_hart:
  assumes "prv h = S_mode"
  shows "mret (enter_m cause 0 h\<lparr>csr_mie := a, csr_mip := b, csr_mepc := r, gpr := g\<rparr>)
    = m_visited cause r (h\<lparr>csr_mie := a, csr_mip := b, gpr := g\<rparr>)"
  by (rule hart.equality) (simp_all add: mret_def enter_m_def m_visited_def assms m_status_roundtrip)

text \<open>The visit with a handler that only touches the interrupt CSRs and the CLINT.\<close>

lemma m_visit:
  assumes prv: "prv (cpu s) = S_mode"
    and h: "m_trap_handler cause (pc (cpu s)) 0 (m_frame s) (m_entry (on_cpu (enter_m cause 0) s)) =
      m_return r ((m_entry (on_cpu (enter_m cause 0) s))\<lparr>clint64 := c64, clint32 := c32,
        cpu := (cpu (m_entry (on_cpu (enter_m cause 0) s)))\<lparr>csr_mie := a, csr_mip := b\<rparr>\<rparr>)"
  shows "block [exec (on_cpu (enter_m cause 0)), m_trap_vector] s =
    Ret (s\<lparr>mem := m_saved_mem s, clint64 := c64, clint32 := c32,
           cpu := m_visited cause r ((cpu s)\<lparr>csr_mie := a, csr_mip := b\<rparr>)\<rparr>)"
proof -
  let ?s = "on_cpu (enter_m cause 0) s"
  let ?s2 = "(m_entry ?s)\<lparr>clint64 := c64, clint32 := c32, cpu := (cpu (m_entry ?s))\<lparr>csr_mie := a, csr_mip := b,
     gpr := (gpr (cpu (m_entry ?s)))(10 := r)\<rparr>\<rparr>"
  have c: "csr_mcause (cpu ?s) = cause" "csr_mepc (cpu ?s) = pc (cpu s)" "csr_mtval (cpu ?s) = 0" "m_frame ?s = m_frame s"
    "gpr (cpu ?s) = gpr (cpu s)" "junk (cpu ?s) = junk (cpu s)" "mem ?s = mem s"
    by (simp_all add: on_cpu_def enter_m_def m_frame_def)
  have "m_trap_handler (csr_mcause (cpu ?s)) (csr_mepc (cpu ?s)) (csr_mtval (cpu ?s)) (m_frame ?s) (m_entry ?s) = Ret ?s2"
    unfolding c h by (simp add: m_return_def)
  from m_trap_vector_ret [OF this] have "m_trap_vector ?s =
      Ret (on_cpu (\<lambda>h. mret (h\<lparr>csr_mepc := gpr h 10, gpr := gpr (cpu ?s)\<rparr>)) ?s2)"
    by (simp add: caller_saved_def)
  moreover have "on_cpu (\<lambda>h. mret (h\<lparr>csr_mepc := gpr h 10, gpr := gpr (cpu ?s)\<rparr>)) ?s2 =
      s\<lparr>mem := m_saved_mem s, clint64 := c64, clint32 := c32,
        cpu := mret (enter_m cause 0 (cpu s)\<lparr>csr_mie := a, csr_mip := b, csr_mepc := r, gpr := gpr (cpu s)\<rparr>)\<rparr>"
    by (simp add: m_entry_def c m_saved_mem_def) (simp add: on_cpu_def)
  ultimately show ?thesis by (simp add: m_visit_hart [OF prv])
qed


lemma m_entry_args:
  "mem (m_entry s) (slot (m_frame s) 11) = gpr (cpu s) 17" "mem (m_entry s) (slot (m_frame s) 4) = gpr (cpu s) 10"
  using saved_at [of m_saved 11 "m_frame s" "gpr (cpu s)" "mem s"] saved_at [of m_saved 4 "m_frame s" "gpr (cpu s)" "mem s"]
  unfolding length_m_saved by (simp_all add: m_entry_def) (simp_all add: m_saved_def)

lemma m_entry_fields [simp]:
  "csr_mhartid (cpu (m_entry s)) = csr_mhartid (cpu s)" "csr_mie (cpu (m_entry s)) = csr_mie (cpu s)"
  "csr_mip (cpu (m_entry s)) = csr_mip (cpu s)" "clint64 (m_entry s) = clint64 s" "clint32 (m_entry s) = clint32 s"
  "csr_stvec (cpu (m_entry s)) = csr_stvec (cpu s)" "csr_mstatus (cpu (m_entry s)) = csr_mstatus (cpu s)"
  by (simp_all add: m_entry_def)

lemma enter_m_fields [simp]:
  "csr_mhartid (enter_m c t h) = csr_mhartid h" "csr_mie (enter_m c t h) = csr_mie h"
  "csr_mip (enter_m c t h) = csr_mip h" "gpr (enter_m c t h) = gpr h" "csr_stvec (enter_m c t h) = csr_stvec h"
  "csr_mepc (enter_m c t h) = pc h" "csr_mcause (enter_m c t h) = c" "csr_mtval (enter_m c t h) = t"
  "csr_scause (enter_m c t h) = csr_scause h" "csr_sepc (enter_m c t h) = csr_sepc h" "csr_stval (enter_m c t h) = csr_stval h"
  by (simp_all add: enter_m_def)

lemma on_cpu_fields [simp]:
  "cpu (on_cpu f s) = f (cpu s)" "clint64 (on_cpu f s) = clint64 s" "clint32 (on_cpu f s) = clint32 s"
  "mem (on_cpu f s) = mem s" "dev (on_cpu f s) = dev s" "g_trap (on_cpu f s) = g_trap s"
  by (simp_all add: on_cpu_def)

lemma m_frame_enter [simp]: "m_frame (on_cpu (enter_m c t) s) = m_frame s"
  by (simp add: m_frame_def)

lemma deleg_bits [simp]:
  "MIP_STIP AND MIDELEG_DEFAULT = MIP_STIP" "MIP_SSIP AND MIDELEG_DEFAULT = MIP_SSIP"
  by (simp_all add: MIDELEG_DEFAULT_def platform_consts push_bit_eq_mult)

lemma irq_cause:
  "drop_bit 63 (push_bit 63 1 OR 7 :: u64) AND 1 = 1" "(push_bit 63 1 OR 7 :: u64) AND 0x7FFFFFFFFFFFFFFF = 7"
  "drop_bit 63 (push_bit 63 1 OR 3 :: u64) AND 1 = 1" "(push_bit 63 1 OR 3 :: u64) AND 0x7FFFFFFFFFFFFFFF = 3"
  by (simp_all add: push_bit_eq_mult)

lemma m_visit_from:
  assumes "prv (cpu s) = S_mode"
    and "m_trap_handler cause (pc (cpu s)) 0 (m_frame s) (m_entry (on_cpu (enter_m cause 0) s)) = m_return r s1"
    and "s1 = (m_entry (on_cpu (enter_m cause 0) s))\<lparr>clint64 := c64, clint32 := c32,
        cpu := (cpu (m_entry (on_cpu (enter_m cause 0) s)))\<lparr>csr_mie := a, csr_mip := b\<rparr>\<rparr>"
  shows "block [exec (on_cpu (enter_m cause 0)), m_trap_vector] s =
    Ret (s\<lparr>mem := m_saved_mem s, clint64 := c64, clint32 := c32,
           cpu := m_visited cause r ((cpu s)\<lparr>csr_mie := a, csr_mip := b\<rparr>)\<rparr>)"
  using assms m_visit by blast

lemmas m_code = m_trap_handler_def Let_def wr64_def wr32_def clear_csr_bits_mip_def set_csr_bits_mip_def
  set_csr_bits_mie_def clear_csr_bits_mie_def read_mhartid_def m_entry_args [of "on_cpu (enter_m _ 0) _", simplified]

lemma ecall_set_timer:
  assumes "prv (cpu s) = S_mode" "gpr (cpu s) 17 = SBI_SET_TIMER"
  shows "ecall s = Ret (s\<lparr>mem := m_saved_mem s,
    clint64 := (clint64 s)(CLINT_MTIMECMP (csr_mhartid (cpu s)) := gpr (cpu s) 10), clint32 := clint32 s,
    cpu := m_visited CAUSE_ECALL_SMODE (pc (cpu s) + 4)
      ((cpu s)\<lparr>csr_mie := csr_mie (cpu s) OR MIP_MTIP, csr_mip := csr_mip (cpu s) AND NOT MIP_STIP\<rparr>)\<rparr>)"
  unfolding ecall_def
proof (rule m_visit_from [OF assms(1)])
  show "m_trap_handler CAUSE_ECALL_SMODE (pc (cpu s)) 0 (m_frame s) (m_entry (on_cpu (enter_m CAUSE_ECALL_SMODE 0) s)) =
      m_return (pc (cpu s) + 4) (set_csr_bits_mie MIP_MTIP (clear_csr_bits_mip MIP_STIP
        (wr64 (CLINT_MTIMECMP (csr_mhartid (cpu s))) (gpr (cpu s) 10) (m_entry (on_cpu (enter_m CAUSE_ECALL_SMODE 0) s)))))"
    using assms(2) by (simp add: m_code CAUSE_ECALL_SMODE_def)
qed (rule machine.equality; simp add: m_code; (rule hart.equality; simp)?)


lemma ecall_send_ipi:
  assumes "prv (cpu s) = S_mode" "gpr (cpu s) 17 = SBI_SEND_IPI"
  shows "ecall s = Ret (s\<lparr>mem := m_saved_mem s, clint64 := clint64 s,
    clint32 := (if gpr (cpu s) 10 < NUM_HARTS then (clint32 s)(CLINT_MSIP (gpr (cpu s) 10) := 1) else clint32 s),
    cpu := m_visited CAUSE_ECALL_SMODE (pc (cpu s) + 4)
      ((cpu s)\<lparr>csr_mie := csr_mie (cpu s), csr_mip := csr_mip (cpu s)\<rparr>)\<rparr>)"
  unfolding ecall_def
proof (rule m_visit_from [OF assms(1)])
  let ?s = "m_entry (on_cpu (enter_m CAUSE_ECALL_SMODE 0) s)"
  show "m_trap_handler CAUSE_ECALL_SMODE (pc (cpu s)) 0 (m_frame s) ?s =
      m_return (pc (cpu s) + 4) (if gpr (cpu s) 10 < NUM_HARTS then wr32 (CLINT_MSIP (gpr (cpu s) 10)) 1 ?s else ?s)"
    using assms(2) by (simp add: m_code CAUSE_ECALL_SMODE_def SBI_SET_TIMER_def SBI_SEND_IPI_def)
qed (rule machine.equality; simp add: m_code; (rule hart.equality; simp)?)

lemma ecall_clear_ipi:
  assumes "prv (cpu s) = S_mode" "gpr (cpu s) 17 = SBI_CLEAR_IPI"
  shows "ecall s = Ret (s\<lparr>mem := m_saved_mem s, clint64 := clint64 s, clint32 := clint32 s,
    cpu := m_visited CAUSE_ECALL_SMODE (pc (cpu s) + 4)
      ((cpu s)\<lparr>csr_mie := csr_mie (cpu s), csr_mip := csr_mip (cpu s) AND NOT MIP_SSIP\<rparr>)\<rparr>)"
  unfolding ecall_def
proof (rule m_visit_from [OF assms(1)])
  let ?s = "m_entry (on_cpu (enter_m CAUSE_ECALL_SMODE 0) s)"
  show "m_trap_handler CAUSE_ECALL_SMODE (pc (cpu s)) 0 (m_frame s) ?s =
      m_return (pc (cpu s) + 4) (clear_csr_bits_mip MIP_SSIP ?s)"
    using assms(2) by (simp add: m_code CAUSE_ECALL_SMODE_def SBI_SET_TIMER_def SBI_SEND_IPI_def SBI_CLEAR_IPI_def)
qed (rule machine.equality; simp add: m_code; (rule hart.equality; simp)?)

lemma m_interrupt_timer:
  assumes "prv (cpu s) = S_mode"
  shows "m_interrupt IRQ_M_TIMER s = Ret (s\<lparr>mem := m_saved_mem s,
    clint64 := (clint64 s)(CLINT_MTIMECMP (csr_mhartid (cpu s)) := 0xFFFFFFFFFFFFFFFF), clint32 := clint32 s,
    cpu := m_visited (push_bit 63 1 OR IRQ_M_TIMER) (pc (cpu s))
      ((cpu s)\<lparr>csr_mie := csr_mie (cpu s) AND NOT MIP_MTIP, csr_mip := csr_mip (cpu s) OR MIP_STIP\<rparr>)\<rparr>)"
  unfolding m_interrupt_def
proof (rule m_visit_from [OF assms])
  let ?c = "push_bit 63 1 OR IRQ_M_TIMER"
  let ?s = "m_entry (on_cpu (enter_m ?c 0) s)"
  show "m_trap_handler ?c (pc (cpu s)) 0 (m_frame s) ?s =
      m_return (pc (cpu s)) (set_csr_bits_mip MIP_STIP (wr64 (CLINT_MTIMECMP (csr_mhartid (cpu s))) 0xFFFFFFFFFFFFFFFF
        (clear_csr_bits_mie MIP_MTIP ?s)))"
    unfolding m_trap_handler_def Let_def IRQ_M_TIMER_def irq_cause by (simp add: m_code)
qed (rule machine.equality; simp add: m_code; (rule hart.equality; simp)?)

lemma m_interrupt_soft:
  assumes "prv (cpu s) = S_mode"
  shows "m_interrupt IRQ_M_SOFT s = Ret (s\<lparr>mem := m_saved_mem s, clint64 := clint64 s,
    clint32 := (clint32 s)(CLINT_MSIP (csr_mhartid (cpu s)) := 0),
    cpu := m_visited (push_bit 63 1 OR IRQ_M_SOFT) (pc (cpu s))
      ((cpu s)\<lparr>csr_mie := csr_mie (cpu s), csr_mip := csr_mip (cpu s) OR MIP_SSIP\<rparr>)\<rparr>)"
  unfolding m_interrupt_def
proof (rule m_visit_from [OF assms])
  let ?c = "push_bit 63 1 OR IRQ_M_SOFT"
  let ?s = "m_entry (on_cpu (enter_m ?c 0) s)"
  show "m_trap_handler ?c (pc (cpu s)) 0 (m_frame s) ?s =
      m_return (pc (cpu s)) (set_csr_bits_mip MIP_SSIP (wr32 (CLINT_MSIP (csr_mhartid (cpu s))) 0 ?s))"
    unfolding m_trap_handler_def Let_def IRQ_M_SOFT_def irq_cause by (simp add: m_code IRQ_M_TIMER_def)
qed (rule machine.equality; simp add: m_code; (rule hart.equality; simp)?)

text \<open>A call that is no SBI function arrives at the S-mode vector.\<close>

lemma ecall_reflect:
  assumes "prv (cpu s) = S_mode" "gpr (cpu s) 17 \<notin> {SBI_SET_TIMER, SBI_SEND_IPI, SBI_CLEAR_IPI}"
  shows "ecall s = Ret (s\<lparr>mem := m_saved_mem s,
    cpu := m_visited CAUSE_ECALL_SMODE (csr_stvec (cpu s) AND NOT 3)
      ((cpu s)\<lparr>csr_sepc := pc (cpu s), csr_scause := CAUSE_ECALL_SMODE, csr_stval := 0,
         csr_mstatus := put_bit 8 True (csr_mstatus (cpu s))\<rparr>)\<rparr>)"
proof -
  let ?s = "on_cpu (enter_m CAUSE_ECALL_SMODE 0) s"
  let ?s1 = "m_entry ?s"
  let ?s2 = "?s1\<lparr>cpu := (cpu ?s1)\<lparr>csr_scause := CAUSE_ECALL_SMODE, csr_sepc := pc (cpu s), csr_stval := 0,
    csr_mstatus := csr_mstatus (cpu ?s) OR MSTATUS_SPP, gpr := (gpr (cpu ?s1))(10 := csr_stvec (cpu s) AND NOT 3)\<rparr>\<rparr>"
  have "m_trap_handler (csr_mcause (cpu ?s)) (csr_mepc (cpu ?s)) (csr_mtval (cpu ?s)) (m_frame ?s) ?s1 = Ret ?s2"
    using assms(2) m_entry_args [of ?s]
    by (simp add: m_trap_handler_def Let_def CAUSE_ECALL_SMODE_def write_csr_scause_def write_csr_sepc_def
      write_csr_stval_def m_return_def MSTATUS_SPP_def)
  from m_trap_vector_ret [OF this] have "m_trap_vector ?s =
      Ret (on_cpu (\<lambda>h. mret (h\<lparr>csr_mepc := gpr h 10, gpr := gpr (cpu ?s)\<rparr>)) ?s2)"
    by (simp add: caller_saved_def)
  then have "ecall s = Ret (on_cpu (\<lambda>h. mret (h\<lparr>csr_mepc := gpr h 10, gpr := gpr (cpu ?s)\<rparr>)) ?s2)"
    by (simp add: ecall_def)
  moreover have "on_cpu (\<lambda>h. mret (h\<lparr>csr_mepc := gpr h 10, gpr := gpr (cpu ?s)\<rparr>)) ?s2 =
    s\<lparr>mem := m_saved_mem s, cpu := mret ((enter_m CAUSE_ECALL_SMODE 0 (cpu s))\<lparr>csr_scause := CAUSE_ECALL_SMODE,
      csr_sepc := pc (cpu s), csr_stval := 0, csr_mstatus := csr_mstatus (cpu ?s) OR MSTATUS_SPP,
      csr_mepc := csr_stvec (cpu s) AND NOT 3, gpr := gpr (cpu s)\<rparr>)\<rparr>"
    by (simp add: m_entry_def m_saved_mem_def m_frame_def) (simp add: on_cpu_def)
  moreover have "put_bit 3 (bit (w OR MSTATUS_SPP) 7) (put_bit 7 True (put_bit 11 False (put_bit 12 False (w OR MSTATUS_SPP))))
      = put_bit 7 True (put_bit 11 False (put_bit 12 False (put_bit 8 True v)))"
    if "w = put_bit 7 (bit v 3) (put_bit 3 False (put_bit 11 True (put_bit 12 False v)))" for v w
    by (rule bit_word_eqI) (auto simp: that bit_simps flag_bits)
  then have "mret ((enter_m CAUSE_ECALL_SMODE 0 (cpu s))\<lparr>csr_scause := CAUSE_ECALL_SMODE,
      csr_sepc := pc (cpu s), csr_stval := 0, csr_mstatus := csr_mstatus (cpu ?s) OR MSTATUS_SPP,
      csr_mepc := csr_stvec (cpu s) AND NOT 3, gpr := gpr (cpu s)\<rparr>) =
     m_visited CAUSE_ECALL_SMODE (csr_stvec (cpu s) AND NOT 3)
      ((cpu s)\<lparr>csr_sepc := pc (cpu s), csr_scause := CAUSE_ECALL_SMODE, csr_stval := 0,
         csr_mstatus := put_bit 8 True (csr_mstatus (cpu s))\<rparr>)"
    using assms(1) by (intro hart.equality) (simp_all add: mret_def enter_m_def m_visited_def bit_simps flag_bits)
  ultimately show ?thesis by simp
qed


section \<open>Properties\<close>

text \<open>S-mode goes on at \<open>at\<close> as if nothing had happened: same registers, same S-mode CSRs, same
  memory but for the frame under the stack pointer, same devices and trap log.\<close>

definition resumed :: "'z machine_scheme \<Rightarrow> u64 \<Rightarrow> 'z machine_scheme \<Rightarrow> bool" where
  "resumed s at s' \<longleftrightarrow> pc (cpu s') = at \<and> prv (cpu s') = S_mode \<and> gpr (cpu s') = gpr (cpu s) \<and>
     (\<forall>n. n \<notin> {7, 11, 12} \<longrightarrow> bit (csr_mstatus (cpu s')) n = bit (csr_mstatus (cpu s)) n) \<and>
     (\<forall>a. a \<notin> frame_words (m_frame s) 16 \<longrightarrow> mem s' a = mem s a) \<and>
     csr_sepc (cpu s') = csr_sepc (cpu s) \<and> csr_scause (cpu s') = csr_scause (cpu s) \<and>
     csr_stval (cpu s') = csr_stval (cpu s) \<and> csr_stvec (cpu s') = csr_stvec (cpu s) \<and>
     csr_satp (cpu s') = csr_satp (cpu s) \<and> tlb (cpu s') = tlb (cpu s) \<and> csr_mhartid (cpu s') = csr_mhartid (cpu s) \<and>
     dev s' = dev s \<and> g_trap s' = g_trap s \<and> pt_pool s' = pt_pool s \<and> pt_pool_next_page s' = pt_pool_next_page s"

lemma resumed_visit:
  "resumed s at (s\<lparr>mem := m_saved_mem s, clint64 := x, clint32 := y,
     cpu := m_visited c at ((cpu s)\<lparr>csr_mie := a, csr_mip := b\<rparr>)\<rparr>)"
  by (simp add: resumed_def m_visited_def m_saved_mem_other)

lemma set_reg_prv [simp]: "prv (cpu (set_reg r v s)) = prv (cpu s)" "gpr (cpu (set_reg r v s)) = (gpr (cpu s))(r := v)"
  "pc (cpu (set_reg r v s)) = pc (cpu s)" "csr_mhartid (cpu (set_reg r v s)) = csr_mhartid (cpu s)"
  "csr_mie (cpu (set_reg r v s)) = csr_mie (cpu s)" "csr_mip (cpu (set_reg r v s)) = csr_mip (cpu s)"
  "clint64 (set_reg r v s) = clint64 s" "clint32 (set_reg r v s) = clint32 s"
  by (simp_all add: set_reg_def)

text \<open>
  C4. The SBI calls, from the \<open>ecall\<close> through the vector, the handler and \<open>mret\<close>: S-mode
  continues after the \<open>ecall\<close> with every register and S-mode CSR as before;
  \<open>sbi_set_timer\<close> has programmed this hart's comparator, withdrawn the pending S-mode timer
  interrupt and enabled the M-mode one; \<open>sbi_send_ipi\<close> has raised the target's software
  interrupt, and nothing when there is no such hart; \<open>sbi_clear_ipi\<close> has withdrawn this hart's.
\<close>

theorem sbi_calls:
  assumes "prv (cpu s) = S_mode"
  shows "(\<exists>s'. sbi_set_timer v s = Ret s' \<and> resumed (set_reg 17 SBI_SET_TIMER (set_reg 10 v s)) (pc (cpu s) + 4) s' \<and>
      clint64 s' = (clint64 s)(CLINT_MTIMECMP (csr_mhartid (cpu s)) := v) \<and> clint32 s' = clint32 s \<and>
      csr_mip (cpu s') = csr_mip (cpu s) AND NOT MIP_STIP \<and> csr_mie (cpu s') = csr_mie (cpu s) OR MIP_MTIP) \<and>
    (\<exists>s'. sbi_send_ipi v s = Ret s' \<and> resumed (set_reg 17 SBI_SEND_IPI (set_reg 10 v s)) (pc (cpu s) + 4) s' \<and>
      clint32 s' = (if v < NUM_HARTS then (clint32 s)(CLINT_MSIP v := 1) else clint32 s) \<and> clint64 s' = clint64 s \<and>
      csr_mip (cpu s') = csr_mip (cpu s) \<and> csr_mie (cpu s') = csr_mie (cpu s)) \<and>
    (\<exists>s'. sbi_clear_ipi s = Ret s' \<and> resumed (set_reg 17 SBI_CLEAR_IPI s) (pc (cpu s) + 4) s' \<and>
      clint64 s' = clint64 s \<and> clint32 s' = clint32 s \<and>
      csr_mip (cpu s') = csr_mip (cpu s) AND NOT MIP_SSIP \<and> csr_mie (cpu s') = csr_mie (cpu s))"
proof (intro conjI)
  let ?t = "set_reg 17 SBI_SET_TIMER (set_reg 10 v s)"
  have t: "prv (cpu ?t) = S_mode" "gpr (cpu ?t) 17 = SBI_SET_TIMER" using assms by simp_all
  show "\<exists>s'. sbi_set_timer v s = Ret s' \<and> resumed ?t (pc (cpu s) + 4) s' \<and>
      clint64 s' = (clint64 s)(CLINT_MTIMECMP (csr_mhartid (cpu s)) := v) \<and> clint32 s' = clint32 s \<and>
      csr_mip (cpu s') = csr_mip (cpu s) AND NOT MIP_STIP \<and> csr_mie (cpu s') = csr_mie (cpu s) OR MIP_MTIP"
    using ecall_set_timer [OF t] resumed_visit [of ?t "pc (cpu s) + 4"] by (simp add: sbi_set_timer_def m_visited_def)
  let ?i = "set_reg 17 SBI_SEND_IPI (set_reg 10 v s)"
  have i: "prv (cpu ?i) = S_mode" "gpr (cpu ?i) 17 = SBI_SEND_IPI" using assms by simp_all
  show "\<exists>s'. sbi_send_ipi v s = Ret s' \<and> resumed ?i (pc (cpu s) + 4) s' \<and>
      clint32 s' = (if v < NUM_HARTS then (clint32 s)(CLINT_MSIP v := 1) else clint32 s) \<and> clint64 s' = clint64 s \<and>
      csr_mip (cpu s') = csr_mip (cpu s) \<and> csr_mie (cpu s') = csr_mie (cpu s)"
    using ecall_send_ipi [OF i] resumed_visit [of ?i "pc (cpu s) + 4"] by (simp add: sbi_send_ipi_def m_visited_def)
  let ?c = "set_reg 17 SBI_CLEAR_IPI s"
  have c: "prv (cpu ?c) = S_mode" "gpr (cpu ?c) 17 = SBI_CLEAR_IPI" using assms by simp_all
  show "\<exists>s'. sbi_clear_ipi s = Ret s' \<and> resumed ?c (pc (cpu s) + 4) s' \<and>
      clint64 s' = clint64 s \<and> clint32 s' = clint32 s \<and>
      csr_mip (cpu s') = csr_mip (cpu s) AND NOT MIP_SSIP \<and> csr_mie (cpu s') = csr_mie (cpu s)"
    using ecall_clear_ipi [OF c] resumed_visit [of ?c "pc (cpu s) + 4"] by (simp add: sbi_clear_ipi_def m_visited_def)
qed


lemma mtip_max: "clint64 s (CLINT_MTIMECMP (csr_mhartid (cpu s))) = 0xFFFFFFFFFFFFFFFF \<Longrightarrow>
    clint64 s CLINT_MTIME < 0xFFFFFFFFFFFFFFFF \<Longrightarrow> \<not> mtip s"
  by (simp add: mtip_def not_le)

text \<open>
  The M-mode timer and software interrupts are forwarded: the interrupted S-mode code goes on
  at the same instruction with its registers and CSRs intact, the source is silenced (the
  comparator is at its maximum and the M-mode timer interrupt disabled; the hart's software
  interrupt register is cleared) and the corresponding S-mode interrupt is pending.
\<close>

theorem m_interrupts_forwarded:
  assumes "prv (cpu s) = S_mode"
  shows "(\<exists>s'. m_interrupt IRQ_M_TIMER s = Ret s' \<and> resumed s (pc (cpu s)) s' \<and>
      bit (read_sip s') 5 \<and> m_pending s' AND MIP_MTIP = 0 \<and>
      clint64 s' = (clint64 s)(CLINT_MTIMECMP (csr_mhartid (cpu s)) := 0xFFFFFFFFFFFFFFFF) \<and> clint32 s' = clint32 s) \<and>
    (\<exists>s'. m_interrupt IRQ_M_SOFT s = Ret s' \<and> resumed s (pc (cpu s)) s' \<and>
      bit (read_sip s') 1 \<and> m_pending s' AND MIP_MSIP = 0 \<and>
      clint32 s' = (clint32 s)(CLINT_MSIP (csr_mhartid (cpu s)) := 0) \<and> clint64 s' = clint64 s)"
proof (intro conjI)
  have d: "bit MIDELEG_DEFAULT 5" "bit MIDELEG_DEFAULT 1" by (simp_all add: MIDELEG_DEFAULT_def)
  show "\<exists>s'. m_interrupt IRQ_M_TIMER s = Ret s' \<and> resumed s (pc (cpu s)) s' \<and>
      bit (read_sip s') 5 \<and> m_pending s' AND MIP_MTIP = 0 \<and>
      clint64 s' = (clint64 s)(CLINT_MTIMECMP (csr_mhartid (cpu s)) := 0xFFFFFFFFFFFFFFFF) \<and> clint32 s' = clint32 s"
    using m_interrupt_timer [OF assms] d
    by (simp add: resumed_def m_saved_mem_other m_visited_def read_sip_def mip_view_def m_pending_def bit_simps flag_bits)
  show "\<exists>s'. m_interrupt IRQ_M_SOFT s = Ret s' \<and> resumed s (pc (cpu s)) s' \<and>
      bit (read_sip s') 1 \<and> m_pending s' AND MIP_MSIP = 0 \<and>
      clint32 s' = (clint32 s)(CLINT_MSIP (csr_mhartid (cpu s)) := 0) \<and> clint64 s' = clint64 s"
    using m_interrupt_soft [OF assms] d
    by (simp add: resumed_def m_saved_mem_other m_visited_def read_sip_def mip_view_def m_pending_def msip_def bit_simps flag_bits)
qed

text \<open>
  An \<open>ecall\<close> with no SBI function number arrives at the S-mode vector with cause 9, the
  address of the \<open>ecall\<close> and SPP set. Unlike the hardware's own delegation
  (\<open>enter_s\<close>) it neither clears SIE nor saves it in SPIE: the S-mode interrupt enable and its
  saved copy are whatever they were.
\<close>

theorem ecall_reflected:
  assumes "prv (cpu s) = S_mode" "gpr (cpu s) 17 \<notin> {SBI_SET_TIMER, SBI_SEND_IPI, SBI_CLEAR_IPI}"
  shows "\<exists>s'. ecall s = Ret s' \<and> pc (cpu s') = csr_stvec (cpu s) AND NOT 3 \<and> prv (cpu s') = S_mode \<and>
    gpr (cpu s') = gpr (cpu s) \<and> csr_scause (cpu s') = CAUSE_ECALL_SMODE \<and> csr_sepc (cpu s') = pc (cpu s) \<and>
    csr_stval (cpu s') = 0 \<and> bit (csr_mstatus (cpu s')) 8 \<and>
    bit (csr_mstatus (cpu s')) 1 = bit (csr_mstatus (cpu s)) 1 \<and>
    bit (csr_mstatus (cpu s')) 5 = bit (csr_mstatus (cpu s)) 5 \<and>
    (\<forall>a. a \<notin> frame_words (m_frame s) 16 \<longrightarrow> mem s' a = mem s a)"
  using ecall_reflect [OF assms] by (simp add: m_visited_def m_saved_mem_other)

lemma m_panic_halts:
  assumes "dev_ok (dev s)"
  shows "\<exists>d m. m_panic mcause mepc mtval cc s = Halt (s\<lparr>mem := m, dev := d\<rparr>) \<and>
    tohost d = fail_word (wrap32 (500 + int_of_u64 cc)) \<and> m (slot M_TRAP_INFO 0) = mcause \<and>
    m (slot M_TRAP_INFO 1) = mepc \<and> m (slot M_TRAP_INFO 2) = mtval"
proof -
  let ?m = "(mem s)(slot M_TRAP_INFO 0 := mcause, slot M_TRAP_INFO 1 := mepc, slot M_TRAP_INFO 2 := mtval)"
  from assms obtain n where n: "host_in (dev s) n \<noteq> None" unfolding dev_ok_def by (metis add_0)
  have body: "\<exists>v. id d = d\<lparr>fromhost := v\<rparr>" for d :: devices by (intro exI [of _ "fromhost d"]) simp
  from poll_tohost_ready [of id, OF body n] obtain d where "poll_tohost id (dev s) = Some d" by blast
  then have "m_panic mcause mepc mtval cc s =
      Halt (s\<lparr>mem := ?m, dev := d\<lparr>tohost := fail_word (wrap32 (500 + int_of_u64 cc))\<rparr>\<rparr>)"
    by (simp add: m_panic_def on_dev_def on_part_def wfi_forever_def fail_word_def st64_def)
  moreover have "?m (slot M_TRAP_INFO 0) = mcause" "?m (slot M_TRAP_INFO 1) = mepc" "?m (slot M_TRAP_INFO 2) = mtval"
    by (simp_all add: slot_def)
  ultimately show ?thesis by (intro exI [of _ "d\<lparr>tohost := fail_word (wrap32 (500 + int_of_u64 cc))\<rparr>"] exI [of _ ?m]) simp
qed

text \<open>
  Any other trap that reaches M-mode is fatal: the handler records cause, address and value
  in \<open>_m_trap_info\<close>, reports 500 plus the cause to the host and stops.
\<close>

theorem m_unexpected_panics:
  assumes "dev_ok (dev s)"
    and "mcause \<notin> {CAUSE_ECALL_SMODE, push_bit 63 1 OR IRQ_M_TIMER, push_bit 63 1 OR IRQ_M_SOFT}"
  shows "\<exists>d m. m_trap_handler mcause mepc mtval frame s = Halt (s\<lparr>mem := m, dev := d\<rparr>) \<and>
    tohost d = fail_word (wrap32 (500 + int_of_u64 (mcause AND 0x7FFFFFFFFFFFFFFF))) \<and>
    m (slot M_TRAP_INFO 0) = mcause \<and> m (slot M_TRAP_INFO 1) = mepc \<and> m (slot M_TRAP_INFO 2) = mtval"
proof -
  let ?c = "mcause AND 0x7FFFFFFFFFFFFFFF"
  have m: "(0x7FFFFFFFFFFFFFFF :: u64) = mask 63" by (simp add: mask_eq_exp_minus_1)
  have i: "drop_bit 63 mcause AND 1 = (if bit mcause 63 then 1 else 0)"
  proof (rule bit_word_eqI)
    fix n show "bit (drop_bit 63 mcause AND 1) n = bit (if bit mcause 63 then 1 else 0 :: u64) n"
      by (cases n) (auto simp: bit_simps)
  qed
  have p: "bit (push_bit 63 1 :: u64) n \<longleftrightarrow> n = 63" for n
    unfolding bit_push_bit_iff bit_1_iff by auto
  have "mcause = push_bit 63 1 OR ?c" if "bit mcause 63"
  proof (rule bit_word_eqI)
    fix n assume "n < LENGTH(64)"
    then show "bit mcause n = bit (push_bit 63 1 OR ?c) n"
      using that unfolding m bit_or_iff bit_and_iff p bit_mask_iff by (cases "n = 63") auto
  qed
  moreover have "mcause = ?c" if "\<not> bit mcause 63"
  proof (rule bit_word_eqI)
    fix n assume "n < LENGTH(64)"
    then show "bit mcause n = bit ?c n"
      using that unfolding m bit_and_iff bit_mask_iff by (cases "n = 63") auto
  qed
  ultimately have "m_trap_handler mcause mepc mtval frame s = m_panic mcause mepc mtval ?c s"
    using assms(2) unfolding m_trap_handler_def Let_def i by auto
  with m_panic_halts [OF assms(1), of mcause mepc mtval ?c] show ?thesis by simp
qed


section \<open>Witnesses\<close>

definition demo_hart :: hart where
  "demo_hart = \<lparr>gpr = (\<lambda>r. 0x80030000 + 8 * of_nat r), pc = 0x80001000, prv = S_mode, csr_mhartid = 0,
     csr_mstatus = 0xA, csr_mie = 0x2AA, csr_mip = 0, csr_mtvec = 0x80000100, csr_mepc = 0, csr_mcause = 0,
     csr_mtval = 0, csr_stvec = 0x80000200, csr_sepc = 0, csr_scause = 0, csr_stval = 0, csr_satp = 0,
     tlb = {}, junk = (\<lambda>r. 0xDEAD)\<rparr>"

definition demo_trap :: trap_state where
  "demo_trap = \<lparr>scause = 0, stval = 0, sepc = 0, fault_count = 0, expected_cause = 0, expected_stval = 0,
     handler_action = 0, irq_count = 0, timer_irq_count = 0, soft_irq_count = 0, last_irq_cause = 0\<rparr>"

definition demo_machine :: machine where
  "demo_machine = \<lparr>mem = (\<lambda>_. 0), pt_pool = 0x80010000, pt_pool_next_page = 0, dev = demo_dev,
     cpu = demo_hart, g_trap = demo_trap, clint64 = (\<lambda>_. 0), clint32 = (\<lambda>_. 0)\<rparr>"

lemma demo_machine_simps [simp]:
  "prv (cpu demo_machine) = S_mode" "pc (cpu demo_machine) = 0x80001000" "csr_mhartid (cpu demo_machine) = 0"
  "csr_stvec (cpu demo_machine) = 0x80000200" "dev demo_machine = demo_dev"
  by (simp_all add: demo_machine_def demo_hart_def)

theorem sbi_calls_witness:
  "prv (cpu demo_machine) = S_mode \<and>
   (\<exists>s'. sbi_set_timer 5000 demo_machine = Ret s' \<and> pc (cpu s') = 0x80001004 \<and> clint64 s' 0x02004000 = 5000)"
  using sbi_calls [of demo_machine 5000] by (auto simp: resumed_def CLINT_MTIMECMP_def CLINT_BASE_def)

theorem m_interrupts_forwarded_witness:
  "prv (cpu demo_machine) = S_mode \<and>
   (\<exists>s'. m_interrupt IRQ_M_TIMER demo_machine = Ret s' \<and> pc (cpu s') = 0x80001000 \<and> bit (read_sip s') 5)"
  using m_interrupts_forwarded [of demo_machine] by (auto simp: resumed_def)

theorem ecall_reflected_witness:
  "\<exists>s'. ecall (set_reg 17 0xFF demo_machine) = Ret s' \<and> pc (cpu s') = 0x80000200 \<and> csr_sepc (cpu s') = 0x80001000"
proof -
  have "gpr (cpu (set_reg 17 0xFF demo_machine)) 17 \<notin> {SBI_SET_TIMER, SBI_SEND_IPI, SBI_CLEAR_IPI}"
    by (simp add: platform_consts)
  from ecall_reflected [OF _ this] show ?thesis by (auto simp: set_reg_def)
qed

theorem m_unexpected_panics_witness:
  "\<exists>d m. m_trap_handler 2 0x80001000 7 0x80030000 demo_machine = Halt (demo_machine\<lparr>mem := m, dev := d\<rparr>) \<and>
    tohost d = 1005 \<and> m 0x801FF018 = 0x80001000"
proof -
  have c: "2 \<notin> {CAUSE_ECALL_SMODE, push_bit 63 1 OR IRQ_M_TIMER, push_bit 63 1 OR IRQ_M_SOFT}"
    by (simp add: platform_consts push_bit_eq_mult)
  have "int_of_u64 2 = 2" by (simp add: int_of_u64_def)
  moreover have "fail_word 502 = 1005" using fail_word_small [of 502] by simp
  moreover have "slot M_TRAP_INFO 1 = 0x801FF018" by (simp add: slot_def M_TRAP_INFO_def)
  ultimately show ?thesis
    using m_unexpected_panics [OF _ c, of demo_machine "0x80001000" 7 "0x80030000"] demo_dev_ok by auto
qed

end
