(* ===== verification/STrap.thy ===== *)
theory STrap
  imports MTrap
begin

text \<open>
  The S-mode runtime around a test: \<open>s_trap_handler\<close>, \<open>mmu_enable_sv39\<close> and
  \<open>s_mode_entry\<close> of \<^verbatim>\<open>common/smode.c\<close> and the S-mode vector of \<^verbatim>\<open>common/boot.S\<close>.
\<close>

section \<open>The code\<close>

definition mmu_enable_sv39 :: "u64 \<Rightarrow> 'z machine_scheme \<Rightarrow> 'z machine_scheme" where
  "mmu_enable_sv39 root s =
     (let satp_val = push_bit SATP_MODE_SHIFT SATP_MODE_SV39 OR pt_ppn root
      in sfence_vma_all (write_csr_satp satp_val s))"

definition upd_trap :: "(trap_state \<Rightarrow> trap_state) \<Rightarrow> 'z machine_scheme \<Rightarrow> 'z machine_scheme" where
  "upd_trap f s = s\<lparr>g_trap := f (g_trap s)\<rparr>"

definition s_interrupt_case :: "u64 \<Rightarrow> u64 \<Rightarrow> 'z machine_scheme \<Rightarrow> 'z machine_scheme run" where
  "s_interrupt_case cause cause_code = block
     [exec (upd_trap (\<lambda>t. t\<lparr>irq_count := inc32 (irq_count t)\<rparr>)),
      exec (upd_trap (\<lambda>t. t\<lparr>last_irq_cause := cause\<rparr>)),
      if cause_code = IRQ_S_TIMER then block
        [exec (upd_trap (\<lambda>t. t\<lparr>timer_irq_count := inc32 (timer_irq_count t)\<rparr>)),
         exec (set_reg 10 0xFFFFFFFFFFFFFFFF), exec (set_reg 17 SBI_SET_TIMER), ecall]
      else if cause_code = IRQ_S_SOFT then block
        [exec (upd_trap (\<lambda>t. t\<lparr>soft_irq_count := inc32 (soft_irq_count t)\<rparr>)),
         exec clear_sip_ssip]
      else if cause_code = IRQ_S_EXT then skip
      else block
        [uart_puts ''UNEXPECTED S-MODE INTERRUPT: cause='', uart_put_hex cause, uart_putc (CHR 0x0A),
         test_fail (wrap32 (100 + int_of_u64 cause_code))]]"

text \<open>The bits the handler adds to the entry of a faulting access.\<close>

definition fixed_pte :: "u64 \<Rightarrow> u64 \<Rightarrow> u64" where
  "fixed_pte cause_code pte =
     (let fixed = pte OR (PTE_V OR PTE_A OR PTE_D)
      in if cause_code = CAUSE_LOAD_PAGE_FAULT then fixed OR PTE_R
         else if cause_code = CAUSE_STORE_PAGE_FAULT then fixed OR (PTE_R OR PTE_W)
         else if cause_code = CAUSE_INST_PAGE_FAULT then fixed OR (PTE_R OR PTE_X)
         else fixed)"

definition skip_insn :: "u64 \<Rightarrow> u64 \<Rightarrow> u64 \<Rightarrow> 'z machine_scheme \<Rightarrow> 'z machine_scheme run" where
  "skip_insn cause_code epc frame = (if cause_code = CAUSE_INST_PAGE_FAULT
     then block
       [uart_puts (''  [TRAP] ERROR: skip unsupported for ifetch faults'' @ [CHR 0x0A]), test_fail 201]
     else (\<lambda>s. let insn_lo = ld16 s epc; insn_len = (if insn_lo AND 3 = 3 then 4 else 2)
               in Ret (st64 (slot frame 30) (epc + insn_len) s)))"

definition fix_pte :: "u64 \<Rightarrow> u64 \<Rightarrow> 'z machine_scheme \<Rightarrow> 'z machine_scheme run" where
  "fix_pte cause_code tval s =
     (let satp = read_csr_satp s;
          root = push_bit PGSHIFT (satp AND 0x00000FFFFFFFFFFF);
          (level, pte_ptr) = pt_walk root tval s
      in if pte_ptr = 0 then test_fail 200 s
         else block
           [uart_puts ''  [TRAP] PTE before fix: '', (\<lambda>s. uart_put_hex (mem s pte_ptr) s), uart_putc (CHR 0x0A),
            exec (\<lambda>s. st64 pte_ptr (fixed_pte cause_code (mem s pte_ptr)) s),
            uart_puts ''  [TRAP] PTE after fix:  '', (\<lambda>s. uart_put_hex (mem s pte_ptr) s), uart_putc (CHR 0x0A),
            exec (sfence_vma_addr tval)] s)"

definition s_trap_handler ::
    "u64 \<Rightarrow> u64 \<Rightarrow> u64 \<Rightarrow> u64 \<Rightarrow> 'z machine_scheme \<Rightarrow> 'z machine_scheme run" where
  "s_trap_handler cause tval epc frame =
     (let is_interrupt = drop_bit 63 cause AND 1;
          cause_code = cause AND 0x7FFFFFFFFFFFFFFF
      in block
       [exec (upd_trap (\<lambda>t. t\<lparr>scause := cause, stval := tval, sepc := epc, fault_count := inc32 (fault_count t)\<rparr>)),
        if is_interrupt \<noteq> 0 then s_interrupt_case cause cause_code
        else if cause_code \<in> {CAUSE_INST_PAGE_FAULT, CAUSE_LOAD_PAGE_FAULT, CAUSE_STORE_PAGE_FAULT} then block
          [uart_puts ''  [TRAP] Page fault: cause='', uart_put_dec (int_of_u64 cause_code),
           uart_puts '' stval='', uart_put_hex tval, uart_puts '' sepc='', uart_put_hex epc, uart_putc (CHR 0x0A),
           \<lambda>s. if handler_action (g_trap s) = 1 then skip_insn cause_code epc frame s else fix_pte cause_code tval s]
        else if cause_code = CAUSE_ILLEGAL_INST then block
          [uart_puts ''  [TRAP] Illegal instruction at sepc='', uart_put_hex epc, uart_putc (CHR 0x0A), test_fail 300]
        else if cause_code = CAUSE_ECALL_SMODE then block
          [uart_puts ''  [TRAP] ecall from S-mode at sepc='', uart_put_hex epc, uart_putc (CHR 0x0A),
           exec (st64 (slot frame 30) (epc + 4))]
        else block
          [uart_puts ''  [TRAP] Unexpected exception: cause='', uart_put_dec (int_of_u64 cause_code),
           uart_puts '' stval='', uart_put_hex tval, uart_putc (CHR 0x0A),
           test_fail (wrap32 (400 + int_of_u64 cause_code))]])"

text \<open>The S-mode vector saves every register but \<open>sp\<close> and \<open>zero\<close>, then \<open>sepc\<close>.\<close>

definition s_saved :: "nat list" where
  "s_saved = [1, 3, 4, 5, 6, 7, 8, 9, 10, 11, 12, 13, 14, 15, 16, 17, 18, 19, 20, 21, 22, 23, 24, 25, 26, 27,
     28, 29, 30, 31]"

definition s_trap_vector :: "'z machine_scheme \<Rightarrow> 'z machine_scheme run" where
  "s_trap_vector = block
     [exec (add_sp (- 256)),
      exec (\<lambda>s. save_regs s_saved (gpr (cpu s) 2) s),
      exec (\<lambda>s. st64 (slot (gpr (cpu s) 2) 30) (csr_sepc (cpu s)) s),
      \<lambda>s. s_trap_handler (csr_scause (cpu s)) (csr_stval (cpu s)) (csr_sepc (cpu s)) (gpr (cpu s) 2) s,
      exec (clobber caller_saved),
      exec (\<lambda>s. write_csr_sepc (mem s (slot (gpr (cpu s) 2) 30)) s),
      exec (\<lambda>s. restore_regs s_saved (gpr (cpu s) 2) s),
      exec (add_sp 256),
      exec (on_cpu sret)]"

text \<open>The test program is a parameter: it returns its result or stops on its own.\<close>

definition s_mode_entry ::
    "u64 \<Rightarrow> ('z machine_scheme \<Rightarrow> (c_int \<times> 'z machine_scheme) run) \<Rightarrow> 'z machine_scheme \<Rightarrow> 'z machine_scheme run" where
  "s_mode_entry s_trap_vector_addr test_main = block
     [exec (write_csr_stvec s_trap_vector_addr),
      uart_puts (CHR 0x0A # ''=== S-mode entry, stvec set ==='' @ [CHR 0x0A]),
      \<lambda>s. case test_main s of
             Ret (result, s') \<Rightarrow> if result = 0 then test_pass s' else test_fail result s'
           | Halt (_, s') \<Rightarrow> Halt s'
           | Hang \<Rightarrow> Hang]"

section \<open>Rewriting the entry a walk stops at\<close>

lemma pt_walk_at:
  assumes wf: "wf_tables lv T root (mem s)" and w: "pt_walk root va s = (level, p)"
  obtains u where "u \<in> T" "lv u = nat level" "p = slot u (vpn_ix (nat level) va)"
    "p \<in> set (visited (mem s) 2 root va)" "level \<in> {0, 1, 2}" "level = 0 \<or> \<not> is_branch (mem s p)"
proof -
  let ?a2 = "slot root (vpn_ix 2 va)"
  let ?l1 = "pte_target (mem s ?a2)"
  let ?a1 = "slot ?l1 (vpn_ix 1 va)"
  note rt = wf_root [OF wf]
  have v2: "visited (mem s) 2 root va = ?a2 # (if is_branch (mem s ?a2) then visited (mem s) 1 ?l1 va else [])"
    by (simp add: numeral_2_eq_2 Let_def)
  have v1: "visited (mem s) 1 ?l1 va = ?a1 # (if is_branch (mem s ?a1) then [slot (pte_target (mem s ?a1)) (vpn_ix 0 va)] else [])"
    by (simp add: Let_def)
  show thesis
  proof (cases "is_branch (mem s ?a2)")
    case False
    with w have "level = 2" "p = ?a2" by (simp_all add: pt_walk_eq)
    with that [of root] rt v2 False show thesis by simp
  next
    case b2: True
    note c1 = wf_child [OF wf rt(1) vpn_ix_less b2]
    show thesis
    proof (cases "is_branch (mem s ?a1)")
      case False
      with w b2 have "level = 1" "p = ?a1" by (simp_all add: pt_walk_eq)
      with that [of ?l1] c1 rt(2) v2 v1 b2 False show thesis by simp
    next
      case b1: True
      note c0 = wf_child [OF wf c1 [THEN conjunct1] vpn_ix_less b1]
      from w b2 b1 have "level = 0" "p = slot (pte_target (mem s ?a1)) (vpn_ix 0 va)" by (simp_all add: pt_walk_eq)
      with that [of "pte_target (mem s ?a1)"] c0 c1 rt(2) v2 v1 b2 b1 show thesis by simp
    qed
  qed
qed

lemma rewrite_entry:
  assumes ok: "pt_ok root s" and w: "pt_walk root va s = (level, p)" and e: "\<not> is_branch e"
  shows "pt_ok root (st64 p e s)"
    and "sv39_translate c ((mem s)(p := e)) root acc va' =
      (if same_block (nat level) va va' then entry_xlat c acc va' (nat level) e
       else sv39_translate c (mem s) root acc va')"
    and "p \<in> table_words (pool_tables s)"
proof -
  from ok obtain lv where po: "pool_ok s" and wf: "wf_tables lv (pool_tables s) root (mem s)"
    by (auto simp: pt_ok_def pool.tables_ok_def)
  from pt_walk_at [OF wf w] obtain u where u: "u \<in> pool_tables s" "lv u = nat level" "p = slot u (vpn_ix (nat level) va)"
    "p \<in> set (visited (mem s) 2 root va)" "level \<in> {0, 1, 2}" by metis
  show "p \<in> table_words (pool_tables s)" using u by simp
  have "pool.tables_ok lv root (st64 p e s)"
    using po wf_put_leaf [OF wf u(1) vpn_ix_less e] by (simp add: pool.tables_ok_def u(3) pool.store_keeps)
  then show "pt_ok root (st64 p e s)" by (auto simp: pt_ok_def)
  have "sv39_walk ((mem s)(p := e)) 2 root va' =
      (if same_block (nat level) va va' then if pte_valid e \<and> pte_is_leaf e then Some (nat level, e) else None
       else sv39_walk (mem s) 2 root va')"
  proof (cases "same_block (nat level) va va'")
    case True
    with walk_to_entry [OF wf u(1,2) e wf_root [OF wf], of va va'] u(3,4) show ?thesis
      by (simp add: same_block_def)
  next
    case False
    with walk_put_leaf_other [OF wf u(1,2) _ False] u(3,4) show ?thesis by simp
  qed
  then show "sv39_translate c ((mem s)(p := e)) root acc va' =
      (if same_block (nat level) va va' then entry_xlat c acc va' (nat level) e
       else sv39_translate c (mem s) root acc va')"
    by (auto simp: sv39_translate_def entry_xlat_def)
qed

section \<open>The fixed entry\<close>

declare fault_cause.simps [simp del]

definition fault_access :: "u64 \<Rightarrow> access option" where
  "fault_access cause = (if cause = CAUSE_INST_PAGE_FAULT then Some Fetch
     else if cause = CAUSE_LOAD_PAGE_FAULT then Some Load
     else if cause = CAUSE_STORE_PAGE_FAULT then Some Store else None)"

lemma fault_access_cause: "fault_access (fault_cause acc) = Some acc"
  by (cases acc) (simp_all add: fault_access_def fault_cause.simps platform_consts)

lemma bit_fixed_pte:
  "bit (fixed_pte (fault_cause acc) e) n \<longleftrightarrow>
     n < 64 \<and> (bit e n \<or> n \<in> {0, 1, 6, 7} \<or> (n = 2 \<and> acc = Store) \<or> (n = 3 \<and> acc = Fetch))"
  by (cases acc)
    (auto simp: fixed_pte_def fault_cause.simps Let_def bit_simps flag_bits CAUSE_INST_PAGE_FAULT_def CAUSE_LOAD_PAGE_FAULT_def
      CAUSE_STORE_PAGE_FAULT_def dest: bit_imp_le_length)

lemma fixed_pte_target [simp]: "pte_target (fixed_pte (fault_cause acc) e) = pte_target e"
  by (rule bit_word_eqI) (auto simp: pte_target_def bit_simps bit_fixed_pte)

lemma fixed_pte_not_branch: "\<not> is_branch (fixed_pte (fault_cause acc) e)"
  by (simp add: is_branch_def bit_fixed_pte)

text \<open>When the repaired entry lets the access through.\<close>

definition repairable :: "mmu_ctl \<Rightarrow> access \<Rightarrow> u64 \<Rightarrow> nat \<Rightarrow> u64 \<Rightarrow> bool" where
  "repairable c acc va l e \<longleftrightarrow> va_canonical va \<and> drop_bit 54 e = 0 \<and> leaf_aligned l e \<and> (bit e 4 \<longrightarrow> ctl_sum c \<and> acc \<noteq> Fetch)"

lemma entry_xlat_fixed_iff:
  "entry_xlat c acc va l (fixed_pte (fault_cause acc) e) =
    (if repairable c acc va l e then Some (pte_target e OR take_bit (12 + 9 * l) va) else None)"
proof -
  have "drop_bit 54 (fixed_pte (fault_cause acc) e) = 0 \<longleftrightarrow> drop_bit 54 e = 0"
  proof
    assume z: "drop_bit 54 (fixed_pte (fault_cause acc) e) = 0"
    show "drop_bit 54 e = 0"
    proof (rule drop_bit_0I)
      fix n :: nat assume n: "54 \<le> n"
      have "bit e n \<Longrightarrow> n < 64" using bit_imp_le_length [of e n] by simp
      with drop_bit_0_bit [OF z n] show "\<not> bit e n" by (auto simp: bit_fixed_pte)
    qed
  next
    assume z: "drop_bit 54 e = 0"
    show "drop_bit 54 (fixed_pte (fault_cause acc) e) = 0"
      by (rule drop_bit_0I) (use drop_bit_0_bit [OF z] in \<open>auto simp: bit_fixed_pte\<close>)
  qed
  moreover have "pte_allows c acc (fixed_pte (fault_cause acc) e) \<longleftrightarrow> (bit e 4 \<longrightarrow> ctl_sum c \<and> acc \<noteq> Fetch)"
    by (auto simp: pte_allows_def bit_fixed_pte split: access.splits)
  ultimately show ?thesis
    by (auto simp: repairable_def entry_xlat_def leaf_xlat_def pte_valid_def pte_is_leaf_def bit_fixed_pte pte_ad_ok_def
        leaf_aligned_def)
qed

lemma entry_xlat_fixed:
  assumes "drop_bit 54 e = 0" "va_canonical va" "leaf_aligned l e" "\<not> bit e 4 \<or> ctl_sum c \<and> acc \<noteq> Fetch"
  shows "entry_xlat c acc va l (fixed_pte (fault_cause acc) e) = Some (pte_target e OR take_bit (12 + 9 * l) va)"
  using assms by (auto simp: entry_xlat_fixed_iff repairable_def)

lemma leaf_aligned_0: "leaf_aligned 0 e"
  using page_aligned_target [of e] by (simp add: leaf_aligned_def page_aligned_def)


section \<open>The handler on page faults\<close>

definition satp_root :: "'z machine_scheme \<Rightarrow> u64" where
  "satp_root s = push_bit PGSHIFT (csr_satp (cpu s) AND 0x00000FFFFFFFFFFF)"

definition log_trap :: "u64 \<Rightarrow> u64 \<Rightarrow> u64 \<Rightarrow> trap_state \<Rightarrow> trap_state" where
  "log_trap cause tval epc t = t\<lparr>scause := cause, stval := tval, sepc := epc, fault_count := inc32 (fault_count t)\<rparr>"

lemma pt_walk_mem: "mem s = mem t \<Longrightarrow> pt_walk root va s = pt_walk root va t"
  by (simp add: pt_walk_eq Let_def)

lemma fault_code:
  "drop_bit 63 (fault_cause acc) AND 1 = 0" "fault_cause acc AND 0x7FFFFFFFFFFFFFFF = fault_cause acc"
  "fault_cause acc \<in> {CAUSE_INST_PAGE_FAULT, CAUSE_LOAD_PAGE_FAULT, CAUSE_STORE_PAGE_FAULT}"
  by (cases acc; simp add: fault_cause.simps platform_consts)+

lemma pt_ok_mem:
  "mem s = mem t \<Longrightarrow> pt_pool s = pt_pool t \<Longrightarrow> pt_pool_next_page s = pt_pool_next_page t \<Longrightarrow> pt_ok root s = pt_ok root t"
  by (simp add: pt_ok_def pool.tables_ok_def pool_ok_def pool_tables_def pool_page_def)

lemma s_page_fault:
  assumes "dev_ok (dev s)"
  shows "\<exists>d. s_trap_handler (fault_cause acc) tval epc frame s =
    (let s1 = s\<lparr>g_trap := log_trap (fault_cause acc) tval epc (g_trap s), dev := d\<rparr>
     in if handler_action (g_trap s) = 1 then skip_insn (fault_cause acc) epc frame s1
        else fix_pte (fault_cause acc) tval s1) \<and> dev_ok d"
  unfolding s_trap_handler_def Let_def fault_code(1,2) if_P [OF fault_code(3)]
  by (cases "handler_action (g_trap s) = 1"; simp add: assms upd_trap_def log_trap_def del: uart_puts.simps;
      rule exI, rule conjI, rule refl, simp add: assms)

lemma s_fault_fixed:
  assumes dev: "dev_ok (dev s)" and act: "handler_action (g_trap s) \<noteq> 1"
    and ok: "pt_ok (satp_root s) s" and nz: "0 < pt_pool s" and w: "pt_walk (satp_root s) tval s = (level, p)"
  shows "\<exists>d. s_trap_handler (fault_cause acc) tval epc frame s =
    Ret (s\<lparr>g_trap := log_trap (fault_cause acc) tval epc (g_trap s),
           mem := (mem s)(p := fixed_pte (fault_cause acc) (mem s p)), dev := d,
           cpu := (cpu s)\<lparr>tlb := {(va, l, e) \<in> tlb (cpu s). \<not> same_block l va tval}\<rparr>\<rparr>) \<and> dev_ok d"
proof -
  from ok have po: "pool_ok s" by (auto simp: pt_ok_def pool.tables_ok_def)
  from table_word_not_null [OF po nz rewrite_entry(3) [OF ok w fixed_pte_not_branch]] have p: "p \<noteq> 0" .
  from s_page_fault [OF dev, of acc tval epc frame] act obtain d where
    h: "s_trap_handler (fault_cause acc) tval epc frame s =
      fix_pte (fault_cause acc) tval (s\<lparr>g_trap := log_trap (fault_cause acc) tval epc (g_trap s), dev := d\<rparr>)" and d: "dev_ok d"
    by (auto simp: Let_def)
  let ?s = "s\<lparr>g_trap := log_trap (fault_cause acc) tval epc (g_trap s), dev := d\<rparr>"
  have "pt_walk (satp_root s) tval ?s = (level, p)" using pt_walk_mem [of ?s s] w by simp
  with d p show ?thesis
    unfolding h
    by (simp add: fix_pte_def read_csr_satp_def satp_root_def sfence_vma_addr_def st64_def del: uart_puts.simps)
      (rule exI, rule conjI, rule refl, simp)
qed


section \<open>The S-mode vector\<close>

definition s_frame :: "'z machine_scheme \<Rightarrow> u64" where
  "s_frame s = gpr (cpu s) 2 - 256"

definition s_saved_mem :: "'z machine_scheme \<Rightarrow> u64 \<Rightarrow> u64" where
  "s_saved_mem s = (saved s_saved (s_frame s) (gpr (cpu s)) (mem s))(slot (s_frame s) 30 := csr_sepc (cpu s))"

definition s_entry :: "'z machine_scheme \<Rightarrow> 'z machine_scheme" where
  "s_entry s = s\<lparr>mem := s_saved_mem s, cpu := (cpu s)\<lparr>gpr := (gpr (cpu s))(2 := s_frame s)\<rparr>\<rparr>"

lemma length_s_saved: "length s_saved = 30"
  by (simp add: s_saved_def)

lemma s_saved_mem_at:
  "i < 30 \<Longrightarrow> s_saved_mem s (slot (s_frame s) (of_nat i)) = gpr (cpu s) (s_saved ! i)"
  "s_saved_mem s (slot (s_frame s) 30) = csr_sepc (cpu s)"
proof -
  assume i: "i < 30"
  have "slot (s_frame s) (of_nat i) \<noteq> slot (s_frame s) (of_nat 30)"
    using i slot_nat_inj [of i 30 "s_frame s"] by simp
  with saved_at [of s_saved i "s_frame s"] i show "s_saved_mem s (slot (s_frame s) (of_nat i)) = gpr (cpu s) (s_saved ! i)"
    by (simp add: s_saved_mem_def length_s_saved)
qed (simp add: s_saved_mem_def)

lemma frame_wordsI: "i < n \<Longrightarrow> slot f (of_nat i) \<in> frame_words f n"
  by (auto simp: frame_words_def)

lemma s_saved_mem_other: "a \<notin> frame_words (s_frame s) 31 \<Longrightarrow> s_saved_mem s a = mem s a"
proof -
  assume a: "a \<notin> frame_words (s_frame s) 31"
  have "slot (s_frame s) (of_nat 30) \<in> frame_words (s_frame s) 31" by (rule frame_wordsI) simp
  then have "a \<noteq> slot (s_frame s) 30" using a by auto
  moreover have "a \<notin> frame_words (s_frame s) (length s_saved)"
    using a unfolding frame_words_def length_s_saved by fastforce
  ultimately show ?thesis using saved_other by (simp add: s_saved_mem_def)
qed

lemma s_vector_entry:
  "gpr (cpu (add_sp (- 256) s)) 2 = s_frame s"
  "gpr (cpu (save_regs rs a (add_sp (- 256) s))) 2 = s_frame s"
  "csr_sepc (cpu (save_regs rs a (add_sp (- 256) s))) = csr_sepc (cpu s)"
  "st64 (slot (s_frame s) 30) (csr_sepc (cpu s)) (save_regs s_saved (s_frame s) (add_sp (- 256) s)) = s_entry s"
  "csr_scause (cpu (s_entry s)) = csr_scause (cpu s)" "csr_stval (cpu (s_entry s)) = csr_stval (cpu s)"
  "csr_sepc (cpu (s_entry s)) = csr_sepc (cpu s)" "gpr (cpu (s_entry s)) 2 = s_frame s"
proof -
  let ?f = "s_frame s"
  have "saved s_saved ?f ((gpr (cpu s))(2 := ?f)) (mem s) = saved s_saved ?f (gpr (cpu s)) (mem s)"
    by (rule saved_cong) (auto simp: s_saved_def)
  then show "st64 (slot ?f 30) (csr_sepc (cpu s)) (save_regs s_saved ?f (add_sp (- 256) s)) = s_entry s"
    by (simp add: save_regs_eq st64_def s_entry_def s_saved_mem_def) (simp add: add_sp_def s_frame_def)
qed (simp_all add: s_entry_def add_sp_def s_frame_def save_regs_eq)

lemma s_trap_vector_ret:
  assumes h: "s_trap_handler (csr_scause (cpu s)) (csr_stval (cpu s)) (csr_sepc (cpu s)) (s_frame s) (s_entry s) = Ret s2"
    and m: "\<And>i. i < 30 \<Longrightarrow> mem s2 (slot (s_frame s) (of_nat i)) = mem (s_entry s) (slot (s_frame s) (of_nat i))"
    and g: "\<And>r. r \<notin> set s_saved \<Longrightarrow> gpr (cpu s2) r = gpr (cpu (s_entry s)) r"
  shows "s_trap_vector s =
    Ret (on_cpu (\<lambda>h. sret (h\<lparr>csr_sepc := mem s2 (slot (s_frame s) 30), gpr := gpr (cpu s)\<rparr>)) s2)"
proof -
  let ?f = "s_frame s"
  have sp: "2 \<notin> set s_saved" by (simp add: s_saved_def)
  have cs: "set caller_saved \<subseteq> set s_saved" by (simp add: s_saved_def caller_saved_def)
  let ?s3 = "write_csr_sepc (mem s2 (slot ?f 30)) (clobber caller_saved s2)"
  have mem3: "mem ?s3 = mem s2" by (simp add: write_csr_sepc_def clobber_def)
  have sp3: "gpr (cpu (clobber caller_saved s2)) 2 = ?f" "gpr (cpu ?s3) 2 = ?f"
    using g [OF sp] by (simp_all add: write_csr_sepc_def clobber_def caller_saved_def s_entry_def)
  have "mem ?s3 (slot ?f (of_nat i)) = gpr (cpu s) (s_saved ! i)" if "i < length s_saved" for i
    using that m [of i] s_saved_mem_at(1) [of i s] by (simp add: mem3 length_s_saved s_entry_def)
  from restore_regs_eq [OF this]
  have r: "restore_regs s_saved ?f ?s3 = on_cpu (\<lambda>h. h\<lparr>gpr := (\<lambda>r. if r \<in> set s_saved then gpr (cpu s) r else gpr h r)\<rparr>) ?s3" .
  have regs: "(\<lambda>r. if r = 2 then gpr (cpu s2) 2 + 256 else if r \<in> set s_saved then gpr (cpu s) r
      else if r \<in> set caller_saved then junk (cpu s2) r else gpr (cpu s2) r) = gpr (cpu s)"
    using g g [OF sp] cs sp by (auto simp: fun_eq_iff s_entry_def s_frame_def)
  have "2 \<notin> set caller_saved" using cs sp by auto
  then have "add_sp 256 (restore_regs s_saved ?f ?s3) =
      on_cpu (\<lambda>h. h\<lparr>csr_sepc := mem s2 (slot ?f 30), gpr := gpr (cpu s)\<rparr>) s2"
    unfolding r using regs sp
    by (simp add: add_sp_def on_cpu_def write_csr_sepc_def clobber_def fun_upd_def cong: if_cong)
  moreover have "mem (clobber caller_saved s2) = mem s2" by (simp add: clobber_def)
  ultimately show ?thesis
    using h sp3 unfolding s_trap_vector_def by (simp add: s_vector_entry on_cpu_def)
qed

section \<open>A trap taken in S-mode\<close>

definition s_take :: "u64 \<Rightarrow> u64 \<Rightarrow> 'z machine_scheme \<Rightarrow> 'z machine_scheme run" where
  "s_take cause tval = block [exec (on_cpu (enter_s cause tval)), s_trap_vector]"

definition s_visited :: "u64 \<Rightarrow> u64 \<Rightarrow> u64 \<Rightarrow> hart \<Rightarrow> hart" where
  "s_visited cause tval resume h = h\<lparr>pc := resume, prv := S_mode, csr_sepc := resume, csr_scause := cause, csr_stval := tval,
     csr_mstatus := put_bit 5 True (put_bit 8 False (csr_mstatus h))\<rparr>"

lemma s_status_roundtrip:
  "put_bit 1 (bit w 1) (put_bit 5 True (put_bit 8 False (put_bit 5 (bit w 1) (put_bit 1 False (put_bit 8 True w)))))
   = put_bit 5 True (put_bit 8 False w)"
  by (rule bit_word_eqI) simp

lemma enter_s_fields [simp]:
  "gpr (enter_s c t h) = gpr h" "csr_scause (enter_s c t h) = c" "csr_stval (enter_s c t h) = t"
  "csr_sepc (enter_s c t h) = pc h" "csr_satp (enter_s c t h) = csr_satp h" "tlb (enter_s c t h) = tlb h"
  "prv (enter_s c t h) = S_mode" "csr_mhartid (enter_s c t h) = csr_mhartid h" "csr_mie (enter_s c t h) = csr_mie h"
  "csr_mip (enter_s c t h) = csr_mip h" "junk (enter_s c t h) = junk h"
  by (simp_all add: enter_s_def)

lemma s_visit_hart:
  assumes "prv h = S_mode"
  shows "sret (enter_s cause tval h\<lparr>tlb := t, csr_sepc := r, gpr := g\<rparr>)
    = s_visited cause tval r (h\<lparr>tlb := t, gpr := g\<rparr>)"
  by (rule hart.equality) (simp_all add: sret_def enter_s_def s_visited_def assms s_status_roundtrip [unfolded One_nat_def])

section \<open>Tables are not touched by stores elsewhere\<close>

lemma wf_tables_cong:
  assumes "\<And>a. a \<in> table_words T \<Longrightarrow> m' a = m a"
  shows "wf_tables lv T root m' = wf_tables lv T root m"
  using assms unfolding wf_tables_def by (simp cong: ball_cong conj_cong)

lemma agree_pt_ok:
  assumes "pt_ok root s" "\<And>a. a \<in> table_words (pool_tables s) \<Longrightarrow> mem t a = mem s a"
    "pt_pool t = pt_pool s" "pt_pool_next_page t = pt_pool_next_page s"
  shows "pt_ok root t"
proof -
  from assms(1) obtain lv where "pool_ok s" and wf: "wf_tables lv (pool_tables s) root (mem s)"
    by (auto simp: pt_ok_def pool.tables_ok_def)
  moreover have "pool_tables t = pool_tables s" "pool_ok t = pool_ok s"
    using assms(3,4) by (simp_all add: pool_tables_def pool_ok_def pool_page_def)
  ultimately show ?thesis
    using wf_tables_cong [of "pool_tables s" "mem t" "mem s", OF assms(2)]
    by (auto simp: pt_ok_def pool.tables_ok_def)
qed

lemma agree_walks:
  assumes "pt_ok root s" "\<And>a. a \<in> table_words (pool_tables s) \<Longrightarrow> mem t a = mem s a"
  shows "sv39_translate c (mem t) root acc va = sv39_translate c (mem s) root acc va"
    and "pt_walk root va t = pt_walk root va s"
proof -
  from assms(1) obtain lv where wf: "wf_tables lv (pool_tables s) root (mem s)"
    by (auto simp: pt_ok_def pool.tables_ok_def)
  have v: "mem t a = mem s a" if "a \<in> set (visited (mem s) 2 root va)" for a
    using visited_in_tables [OF wf wf_root [OF wf] that] assms(2) by auto
  from sv39_walk_cong [OF this] show "sv39_translate c (mem t) root acc va = sv39_translate c (mem s) root acc va"
    by (simp add: sv39_translate_def)
  have "slot root (vpn_ix 2 va) \<in> set (visited (mem s) 2 root va)"
    "is_branch (mem s (slot root (vpn_ix 2 va))) \<Longrightarrow>
      slot (pte_target (mem s (slot root (vpn_ix 2 va)))) (vpn_ix 1 va) \<in> set (visited (mem s) 2 root va)"
    by (simp_all add: numeral_2_eq_2 Let_def)
  with v show "pt_walk root va t = pt_walk root va s" by (simp add: pt_walk_eq Let_def)
qed


section \<open>Page faults\<close>

text \<open>The state a repaired page fault leaves: registers, CSRs and tables as they were but for the entry, the trap frame
  and the trace of the trap.\<close>

lemma page_fault_state:
  assumes "dev_ok (dev s)" "prv (cpu s) = S_mode" "handler_action (g_trap s) \<noteq> 1"
    and ok: "pt_ok (satp_root s) s" "0 < pt_pool s" and w: "pt_walk (satp_root s) tval s = (level, p)"
    and fr: "frame_words (s_frame s) 31 \<inter> table_words (pool_tables s) = {}"
  obtains m d where "s_take (fault_cause acc) tval s = Ret (s\<lparr>mem := m(p := fixed_pte (fault_cause acc) (mem s p)), dev := d,
      cpu := s_visited (fault_cause acc) tval (pc (cpu s)) ((cpu s)\<lparr>tlb := {(va, l, e) \<in> tlb (cpu s). \<not> same_block l va tval}\<rparr>),
      g_trap := log_trap (fault_cause acc) tval (pc (cpu s)) (g_trap s)\<rparr>)"
    "dev_ok d" "\<And>a. a \<notin> frame_words (s_frame s) 31 \<Longrightarrow> m a = mem s a"
proof -
  let ?c = "fault_cause acc" and ?f = "s_frame s"
  let ?s0 = "on_cpu (enter_s ?c tval) s"
  let ?s1 = "s_entry ?s0"
  have f: "s_frame ?s0 = ?f" by (simp add: s_frame_def)
  have m1: "mem ?s1 a = mem s a" if "a \<notin> frame_words ?f 31" for a
    using s_saved_mem_other [of a ?s0] that by (simp add: s_entry_def f)
  then have t1: "mem ?s1 a = mem s a" if "a \<in> table_words (pool_tables s)" for a using that fr by auto
  have par: "pt_pool ?s1 = pt_pool s" "pt_pool_next_page ?s1 = pt_pool_next_page s" "satp_root ?s1 = satp_root s"
    "dev ?s1 = dev s" "g_trap ?s1 = g_trap s" "tlb (cpu ?s1) = tlb (cpu s)" "gpr (cpu ?s1) = (gpr (cpu s))(2 := ?f)"
    by (simp_all add: s_entry_def on_cpu_def satp_root_def s_frame_def)
  have ok1: "pt_ok (satp_root s) ?s1" by (rule agree_pt_ok [OF ok(1) _ par(1,2)]) (rule t1)
  have "pt_walk (satp_root s) tval ?s1 = pt_walk (satp_root s) tval s" by (rule agree_walks(2) [OF ok(1)]) (rule t1)
  then have w1: "pt_walk (satp_root ?s1) tval ?s1 = (level, p)" using w by (simp add: par)
  have pin: "p \<in> table_words (pool_tables s)" by (rule rewrite_entry(3) [OF ok(1) w fixed_pte_not_branch])
  then have p1: "mem ?s1 p = mem s p" and pf: "p \<notin> frame_words ?f 31" using t1 fr by auto
  have "dev_ok (dev ?s1)" "handler_action (g_trap ?s1) \<noteq> 1" "pt_ok (satp_root ?s1) ?s1" "0 < pt_pool ?s1"
    using assms(1,3) ok ok1 by (simp_all add: par)
  from s_fault_fixed [OF this w1, of acc "pc (cpu s)" ?f]
  obtain d where h: "s_trap_handler ?c tval (pc (cpu s)) ?f ?s1 = Ret (?s1\<lparr>g_trap := log_trap ?c tval (pc (cpu s)) (g_trap s),
      mem := (mem ?s1)(p := fixed_pte ?c (mem s p)), dev := d,
      cpu := (cpu ?s1)\<lparr>tlb := {(va, l, e) \<in> tlb (cpu s). \<not> same_block l va tval}\<rparr>\<rparr>)" (is "_ = Ret ?s2") and d: "dev_ok d"
    unfolding p1 par by blast
  have nf: "slot ?f (of_nat i) \<noteq> p" if "i < 31" for i using pf frame_wordsI [OF that, of ?f] by auto
  have "s_trap_vector ?s0 = Ret (on_cpu (\<lambda>h. sret (h\<lparr>csr_sepc := mem ?s2 (slot (s_frame ?s0) 30), gpr := gpr (cpu ?s0)\<rparr>)) ?s2)"
    by (rule s_trap_vector_ret) (use h nf f in auto)
  moreover have "mem ?s2 (slot (s_frame ?s0) 30) = pc (cpu s)"
    using nf [of 30] s_saved_mem_at(2) [of ?s0] by (simp add: f s_entry_def)
  ultimately have r: "s_take ?c tval s = Ret (on_cpu (\<lambda>h. sret (h\<lparr>csr_sepc := pc (cpu s), gpr := gpr (cpu s)\<rparr>)) ?s2)"
    by (simp add: s_take_def)
  let ?s' = "on_cpu (\<lambda>h. sret (h\<lparr>csr_sepc := pc (cpu s), gpr := gpr (cpu s)\<rparr>)) ?s2"
  have cpu': "cpu ?s' = s_visited ?c tval (pc (cpu s)) ((cpu s)\<lparr>tlb := {(va, l, e) \<in> tlb (cpu s). \<not> same_block l va tval},
      gpr := gpr (cpu s)\<rparr>)"
    unfolding s_visit_hart [OF assms(2), symmetric] by (simp add: s_entry_def on_cpu_def)
  have "?s' = s\<lparr>mem := (mem ?s1)(p := fixed_pte ?c (mem s p)), dev := d, cpu := cpu ?s',
      g_trap := log_trap ?c tval (pc (cpu s)) (g_trap s)\<rparr>"
    by (simp add: on_cpu_def s_entry_def)
  then show thesis using that [where m = "mem ?s1" and d = d] r cpu' d m1 by simp
qed

text \<open>
  C2. Fix and retry. A page fault of S-mode with the handler in its default mode, the tables well formed in the pool and the
  trap frame outside them: the vector and handler return to the faulting instruction with every register intact; the
  cached translations of the address are gone; the translation of every address outside the entry's block, every
  word but the entry and the trap frame, and the well-formedness of the tables are kept. The retried access
  translates, to the entry's frame, exactly if the address is canonical, no reserved bit (63 to 54) of the entry the walk
  ended at is set, its frame is aligned to its level, and it is no user page, or one that SUM opens to the data access.
  In every other case the access faults again; a user page is such a case.
\<close>

theorem page_fault_fixed:
  assumes "dev_ok (dev s)" "prv (cpu s) = S_mode" "handler_action (g_trap s) \<noteq> 1"
    and ok: "pt_ok (satp_root s) s" "0 < pt_pool s" and w: "pt_walk (satp_root s) tval s = (level, p)"
    and fr: "frame_words (s_frame s) 31 \<inter> table_words (pool_tables s) = {}"
  shows "\<exists>s'. s_take (fault_cause acc) tval s = Ret s' \<and> pc (cpu s') = pc (cpu s) \<and> prv (cpu s') = S_mode \<and>
    gpr (cpu s') = gpr (cpu s) \<and> csr_satp (cpu s') = csr_satp (cpu s) \<and>
    g_trap s' = log_trap (fault_cause acc) tval (pc (cpu s)) (g_trap s) \<and>
    pt_ok (satp_root s) s' \<and>
    (\<forall>c. addr_space c (satp_root s) s' acc tval =
      (if va_canonical tval \<and> drop_bit 54 (mem s p) = 0 \<and> leaf_aligned (nat level) (mem s p) \<and>
          (\<not> bit (mem s p) 4 \<or> ctl_sum c \<and> acc \<noteq> Fetch)
       then Some (pte_target (mem s p) OR take_bit (12 + 9 * nat level) tval) else None)) \<and>
    (\<forall>va l e'. (va, l, e') \<in> tlb (cpu s') \<longrightarrow> \<not> same_block l va tval) \<and>
    (\<forall>c acc' va'. \<not> same_block (nat level) tval va' \<longrightarrow>
      addr_space c (satp_root s) s' acc' va' = addr_space c (satp_root s) s acc' va') \<and>
    (\<forall>a. a \<notin> frame_words (s_frame s) 31 \<union> {p} \<longrightarrow> mem s' a = mem s a)"
proof -
  let ?c = "fault_cause acc" and ?f = "s_frame s"
  obtain m d where r: "s_take ?c tval s = Ret (s\<lparr>mem := m(p := fixed_pte ?c (mem s p)), dev := d,
      cpu := s_visited ?c tval (pc (cpu s)) ((cpu s)\<lparr>tlb := {(va, l, e) \<in> tlb (cpu s). \<not> same_block l va tval}\<rparr>),
      g_trap := log_trap ?c tval (pc (cpu s)) (g_trap s)\<rparr>)" (is "_ = Ret ?s'")
    and m: "\<And>a. a \<notin> frame_words ?f 31 \<Longrightarrow> m a = mem s a"
    by (rule page_fault_state [OF assms(1-3) ok w fr, of acc]) blast
  let ?t = "s\<lparr>mem := m\<rparr>"
  have t: "mem ?t a = mem s a" if "a \<in> table_words (pool_tables s)" for a using that fr m by auto
  have okt: "pt_ok (satp_root s) ?t" by (rule agree_pt_ok [OF ok(1) t]) simp_all
  have wt: "pt_walk (satp_root s) tval ?t = (level, p)" using agree_walks(2) [of _ s ?t, OF ok(1) t] w by simp
  have wk: "sv39_translate c' m (satp_root s) acc' va' = sv39_translate c' (mem s) (satp_root s) acc' va'" for c' acc' va'
    using agree_walks(1) [of _ s ?t, OF ok(1) t] by simp
  note rw = rewrite_entry [OF okt wt fixed_pte_not_branch]
  have "pt_ok (satp_root s) ?s'"
    using rw(1) [of acc "mem s p"] pt_ok_mem [of ?s' "st64 p (fixed_pte ?c (mem s p)) ?t"] by (simp add: st64_def)
  moreover have "addr_space c' (satp_root s) ?s' acc' va' = (if same_block (nat level) tval va'
      then entry_xlat c' acc' va' (nat level) (fixed_pte ?c (mem s p)) else addr_space c' (satp_root s) s acc' va')" for c' acc' va'
    using rw(2) [of c' acc "mem s p" acc' va'] by (simp add: addr_space_def wk)
  moreover have "(if repairable c acc tval (nat level) (mem s p) then Some (pte_target (mem s p) OR take_bit (12 + 9 * nat level) tval)
      else None) = (if va_canonical tval \<and> drop_bit 54 (mem s p) = 0 \<and> leaf_aligned (nat level) (mem s p) \<and>
      (\<not> bit (mem s p) 4 \<or> ctl_sum c \<and> acc \<noteq> Fetch)
      then Some (pte_target (mem s p) OR take_bit (12 + 9 * nat level) tval) else None)" for c
    by (auto simp: repairable_def)
  ultimately show ?thesis
    using m by (intro exI [of _ ?s']) (simp add: r s_visited_def entry_xlat_fixed_iff)
qed


text \<open>The state in which the handler runs after a trap to S-mode.\<close>

lemma s_handler_state:
  fixes s :: "'z machine_scheme" and cause tval :: u64
  defines "s1 \<equiv> s_entry (on_cpu (enter_s cause tval) s)"
  shows "s_frame (on_cpu (enter_s cause tval) s) = s_frame s" "dev s1 = dev s" "g_trap s1 = g_trap s"
    "clint64 s1 = clint64 s" "clint32 s1 = clint32 s" "gpr (cpu s1) = (gpr (cpu s))(2 := s_frame s)"
    "a \<notin> frame_words (s_frame s) 31 \<Longrightarrow> mem s1 a = mem s a" "mem s1 (slot (s_frame s) 30) = pc (cpu s)"
    "csr_mip (cpu s1) = csr_mip (cpu s)" "csr_mie (cpu s1) = csr_mie (cpu s)" "prv (cpu s1) = S_mode"
    "csr_mhartid (cpu s1) = csr_mhartid (cpu s)"
proof -
  show f: "s_frame (on_cpu (enter_s cause tval) s) = s_frame s" by (simp add: s_frame_def)
  show "a \<notin> frame_words (s_frame s) 31 \<Longrightarrow> mem s1 a = mem s a"
    using s_saved_mem_other [of a "on_cpu (enter_s cause tval) s"] by (simp add: s1_def s_entry_def f)
  show "mem s1 (slot (s_frame s) 30) = pc (cpu s)"
    using s_saved_mem_at(2) [of "on_cpu (enter_s cause tval) s"] by (simp add: s1_def s_entry_def f)
qed (simp_all add: s1_def s_entry_def s_frame_def)

text \<open>The trap as a whole, from what the handler does.\<close>

lemma s_take_ret:
  fixes s :: "'z machine_scheme" and cause tval :: u64
  defines "s1 \<equiv> s_entry (on_cpu (enter_s cause tval) s)"
  assumes h: "s_trap_handler cause tval (pc (cpu s)) (s_frame s) s1 = Ret s2"
    and m: "\<And>i. i < 30 \<Longrightarrow> mem s2 (slot (s_frame s) (of_nat i)) = mem s1 (slot (s_frame s) (of_nat i))"
    and g: "\<And>r. r \<notin> set s_saved \<Longrightarrow> gpr (cpu s2) r = gpr (cpu s1) r"
  shows "s_take cause tval s =
    Ret (on_cpu (\<lambda>h. sret (h\<lparr>csr_sepc := mem s2 (slot (s_frame s) 30), gpr := gpr (cpu s)\<rparr>)) s2)"
proof -
  let ?s0 = "on_cpu (enter_s cause tval) s"
  have "s_trap_vector ?s0 = Ret (on_cpu (\<lambda>h. sret (h\<lparr>csr_sepc := mem s2 (slot (s_frame ?s0) 30), gpr := gpr (cpu ?s0)\<rparr>)) s2)"
    by (rule s_trap_vector_ret) (use h m g in \<open>simp_all add: s1_def s_handler_state(1)\<close>)
  then show ?thesis by (simp add: s_take_def s_handler_state(1))
qed

lemma s_take_halt:
  assumes "s_trap_handler cause tval (pc (cpu s)) (s_frame s) (s_entry (on_cpu (enter_s cause tval) s)) = Halt s2"
  shows "s_take cause tval s = Halt s2"
  using assms s_vector_entry [where s = "on_cpu (enter_s cause tval) s"]
  by (simp add: s_take_def s_trap_vector_def s_handler_state(1))

text \<open>A handler that leaves the CSRs alone: S-mode resumes where the frame says.\<close>

lemma sret_resumes:
  assumes "prv (cpu s) = S_mode" "h = (enter_s cause tval (cpu s))\<lparr>gpr := g\<rparr>"
  shows "sret (h\<lparr>csr_sepc := r, gpr := gpr (cpu s)\<rparr>) = s_visited cause tval r (cpu s)"
  by (rule hart.equality)
    (simp_all add: sret_def enter_s_def s_visited_def assms s_status_roundtrip [unfolded One_nat_def])

text \<open>The handler in skip mode: it reads the low half of the instruction at the saved pc, wherever that lies.\<close>

lemma page_skip_state:
  assumes "dev_ok (dev s)" "prv (cpu s) = S_mode" "handler_action (g_trap s) = 1" "acc \<noteq> Fetch"
  obtains m d n where "s_take (fault_cause acc) tval s = Ret (s\<lparr>mem := m, dev := d,
      cpu := s_visited (fault_cause acc) tval (pc (cpu s) + n) (cpu s),
      g_trap := log_trap (fault_cause acc) tval (pc (cpu s)) (g_trap s)\<rparr>)"
    "dev_ok d" "\<And>a. a \<notin> frame_words (s_frame s) 31 \<Longrightarrow> m a = mem s a" "n = 2 \<or> n = 4"
    "pc (cpu s) AND NOT 7 \<notin> frame_words (s_frame s) 31 \<Longrightarrow> n = (if ld16 s (pc (cpu s)) AND 3 = 3 then 4 else 2)"
proof -
  let ?c = "fault_cause acc" and ?f = "s_frame s" and ?pc = "pc (cpu s)"
  let ?s1 = "s_entry (on_cpu (enter_s ?c tval) s)"
  note st = s_handler_state [where cause = ?c and tval = tval and s = s]
  have "dev_ok (dev ?s1)" using assms(1) st(2) by simp
  from s_page_fault [OF this, of acc tval ?pc ?f] assms(3) obtain d where d: "dev_ok d" and
    h: "s_trap_handler ?c tval ?pc ?f ?s1 = skip_insn ?c ?pc ?f (?s1\<lparr>g_trap := log_trap ?c tval ?pc (g_trap s), dev := d\<rparr>)"
    by (auto simp: st(3))
  let ?s2 = "?s1\<lparr>g_trap := log_trap ?c tval ?pc (g_trap s), dev := d\<rparr>"
  define n where "n = (if ld16 ?s2 ?pc AND 3 = 3 then 4 else 2 :: u64)"
  let ?s3 = "st64 (slot ?f 30) (?pc + n) ?s2"
  have c: "?c \<noteq> CAUSE_INST_PAGE_FAULT" using assms(4) by (cases acc) (simp_all add: fault_cause.simps platform_consts)
  have hr: "s_trap_handler ?c tval ?pc ?f ?s1 = Ret ?s3"
    unfolding h skip_insn_def if_not_P [OF c] Let_def n_def by (simp only:)
  have ne: "slot ?f (of_nat i) \<noteq> slot ?f 30" if "i < 30" for i
    using that slot_nat_inj [of i 30 ?f] by simp
  have "s_take ?c tval s = Ret (on_cpu (\<lambda>h. sret (h\<lparr>csr_sepc := mem ?s3 (slot ?f 30), gpr := gpr (cpu s)\<rparr>)) ?s3)"
    by (rule s_take_ret [OF hr]) (use ne in \<open>simp_all add: st64_def\<close>)
  then have r: "s_take ?c tval s = Ret (on_cpu (\<lambda>h. sret (h\<lparr>csr_sepc := ?pc + n, gpr := gpr (cpu s)\<rparr>)) ?s3)"
    by (simp only: mem_st64 fun_upd_same)
  have hs: "cpu ?s3 = (enter_s ?c tval (cpu s))\<lparr>gpr := (gpr (cpu s))(2 := ?f)\<rparr>"
    by (simp add: st64_def s_entry_def s_frame_def)
  have cpu': "sret ((cpu ?s3)\<lparr>csr_sepc := ?pc + n, gpr := gpr (cpu s)\<rparr>) = s_visited ?c tval (?pc + n) (cpu s)"
    by (rule sret_resumes [OF assms(2) hs])
  have fin: "on_cpu (\<lambda>h. sret (h\<lparr>csr_sepc := ?pc + n, gpr := gpr (cpu s)\<rparr>)) ?s3 =
      s\<lparr>mem := mem ?s3, dev := d, cpu := s_visited ?c tval (?pc + n) (cpu s), g_trap := log_trap ?c tval ?pc (g_trap s)\<rparr>"
    unfolding cpu' [symmetric] by (simp add: on_cpu_def s_entry_def st64_def)
  have "slot ?f 30 \<in> frame_words ?f 31" using frame_wordsI [of 30 31 ?f] by simp
  then have m: "mem ?s3 a = mem s a" if "a \<notin> frame_words ?f 31" for a
    using st(7) [OF that] that by auto
  have "n = (if ld16 s ?pc AND 3 = 3 then 4 else 2)" if "?pc AND NOT 7 \<notin> frame_words ?f 31"
    using st(7) [OF that] by (simp add: n_def ld16_def)
  with that [where m = "mem ?s3" and d = d and n = n] r fin d m show thesis by (simp add: n_def)
qed

text \<open>
  Skip mode. A load or store fault with \<open>handler_action\<close> 1 resumes after the faulting
  instruction, 4 bytes on for a full-width encoding and 2 for a compressed one, with registers and
  memory (but for the trap frame) intact; an instruction fault in this mode stops with verdict 201.
\<close>

theorem page_fault_skipped:
  assumes "dev_ok (dev s)" "prv (cpu s) = S_mode" "handler_action (g_trap s) = 1"
    and "pc (cpu s) AND NOT 7 \<notin> frame_words (s_frame s) 31"
  shows "(acc \<noteq> Fetch \<longrightarrow> (\<exists>s'. s_take (fault_cause acc) tval s = Ret s' \<and>
      pc (cpu s') = pc (cpu s) + (if ld16 s (pc (cpu s)) AND 3 = 3 then 4 else 2) \<and> prv (cpu s') = S_mode \<and>
      gpr (cpu s') = gpr (cpu s) \<and> (\<forall>a. a \<notin> frame_words (s_frame s) 31 \<longrightarrow> mem s' a = mem s a) \<and>
      g_trap s' = log_trap (fault_cause acc) tval (pc (cpu s)) (g_trap s))) \<and>
    (acc = Fetch \<longrightarrow> (\<exists>s'. s_take (fault_cause acc) tval s = Halt s' \<and> tohost (dev s') = fail_word 201))"
proof (cases "acc = Fetch")
  case False
  obtain m d n where "s_take (fault_cause acc) tval s = Ret (s\<lparr>mem := m, dev := d,
      cpu := s_visited (fault_cause acc) tval (pc (cpu s) + n) (cpu s),
      g_trap := log_trap (fault_cause acc) tval (pc (cpu s)) (g_trap s)\<rparr>)"
    "\<And>a. a \<notin> frame_words (s_frame s) 31 \<Longrightarrow> m a = mem s a" "n = (if ld16 s (pc (cpu s)) AND 3 = 3 then 4 else 2)"
    by (rule page_skip_state [OF assms(1-3) False, of tval]) (use assms(4) in blast)
  with False show ?thesis by (simp add: s_visited_def)
next
  case True
  let ?c = "fault_cause acc" and ?f = "s_frame s" and ?pc = "pc (cpu s)"
  let ?s1 = "s_entry (on_cpu (enter_s ?c tval) s)"
  note st = s_handler_state [where cause = ?c and tval = tval and s = s]
  have "dev_ok (dev ?s1)" using assms(1) st(2) by simp
  from s_page_fault [OF this, of acc tval ?pc ?f] assms(3) obtain d where d: "dev_ok d" and
    h: "s_trap_handler ?c tval ?pc ?f ?s1 = skip_insn ?c ?pc ?f (?s1\<lparr>g_trap := log_trap ?c tval ?pc (g_trap s), dev := d\<rparr>)"
    by (auto simp: st(3))
  let ?s2 = "?s1\<lparr>g_trap := log_trap ?c tval ?pc (g_trap s), dev := d\<rparr>"
  have "\<exists>d'. s_trap_handler ?c tval ?pc ?f ?s1 = Halt (?s2\<lparr>dev := d'\<rparr>) \<and> tohost d' = fail_word 201"
    using test_fail_stops [of "say cs ?s2" 201 for cs] d
    unfolding h by (simp add: skip_insn_def True fault_cause.simps del: uart_puts.simps)
  then obtain d' where "s_trap_handler ?c tval ?pc ?f ?s1 = Halt (?s2\<lparr>dev := d'\<rparr>)" "tohost d' = fail_word 201" by blast
  with True show ?thesis using s_take_halt by fastforce
qed


section \<open>Interrupts\<close>

lemma frames_apart: "frame_words (f - 128) 16 \<inter> frame_words f 31 = {}"
proof -
  have "slot (f - 128) (of_nat i) \<noteq> slot f (of_nat j)" if "i < 16" "j < 31" for i j
  proof
    assume "slot (f - 128) (of_nat i) = slot f (of_nat j)"
    then have "slot (f - 128) (of_nat i) = slot (f - 128) (of_nat (16 + j))" by (simp add: slot_def algebra_simps)
    then show False using that slot_nat_inj [of i "16 + j" "f - 128"] by simp
  qed
  then show ?thesis unfolding frame_words_def by blast
qed

lemma s_irq_code:
  "drop_bit 63 (push_bit 63 1 OR IRQ_S_TIMER) AND 1 = 1" "(push_bit 63 1 OR IRQ_S_TIMER) AND 0x7FFFFFFFFFFFFFFF = IRQ_S_TIMER"
  "drop_bit 63 (push_bit 63 1 OR IRQ_S_SOFT) AND 1 = 1" "(push_bit 63 1 OR IRQ_S_SOFT) AND 0x7FFFFFFFFFFFFFFF = IRQ_S_SOFT"
  "drop_bit 63 (push_bit 63 1 OR IRQ_S_EXT) AND 1 = 1" "(push_bit 63 1 OR IRQ_S_EXT) AND 0x7FFFFFFFFFFFFFFF = IRQ_S_EXT"
  by (simp_all add: IRQ_S_TIMER_def IRQ_S_SOFT_def IRQ_S_EXT_def push_bit_eq_mult)

definition log_irq :: "u64 \<Rightarrow> trap_state \<Rightarrow> trap_state" where
  "log_irq cause t = t\<lparr>irq_count := inc32 (irq_count t), last_irq_cause := cause\<rparr>"

lemma s_timer_handler:
  fixes s :: "'z machine_scheme"
  defines "c \<equiv> push_bit 63 1 OR IRQ_S_TIMER"
  assumes "prv (cpu s) = S_mode"
  shows "\<exists>m g. s_trap_handler c tval epc frame s = Ret (s\<lparr>
      g_trap := (log_irq c (log_trap c tval epc (g_trap s)))\<lparr>timer_irq_count := inc32 (timer_irq_count (g_trap s))\<rparr>,
      mem := m, clint64 := (clint64 s)(CLINT_MTIMECMP (csr_mhartid (cpu s)) := 0xFFFFFFFFFFFFFFFF),
      cpu := m_visited CAUSE_ECALL_SMODE (pc (cpu s) + 4) ((cpu s)\<lparr>gpr := g,
        csr_mie := csr_mie (cpu s) OR MIP_MTIP, csr_mip := csr_mip (cpu s) AND NOT MIP_STIP\<rparr>)\<rparr>) \<and>
    (\<forall>a. a \<notin> frame_words (gpr (cpu s) 2 - 128) 16 \<longrightarrow> m a = mem s a) \<and>
    g = (gpr (cpu s))(10 := 0xFFFFFFFFFFFFFFFF, 17 := SBI_SET_TIMER)"
proof -
  let ?t = "(log_irq c (log_trap c tval epc (g_trap s)))\<lparr>timer_irq_count := inc32 (timer_irq_count (g_trap s))\<rparr>"
  let ?e = "set_reg 17 SBI_SET_TIMER (set_reg 10 0xFFFFFFFFFFFFFFFF (s\<lparr>g_trap := ?t\<rparr>))"
  have e: "prv (cpu ?e) = S_mode" "gpr (cpu ?e) 17 = SBI_SET_TIMER" using assms(2) by simp_all
  have "s_trap_handler c tval epc frame s = ecall ?e"
    unfolding s_trap_handler_def Let_def c_def s_irq_code
    by (simp add: s_interrupt_case_def upd_trap_def log_irq_def log_trap_def)
  moreover have "m_frame ?e = gpr (cpu s) 2 - 128" by (simp add: m_frame_def)
  moreover have "mem ?e = mem s" by (simp add: set_reg_def)
  ultimately show ?thesis
    using ecall_set_timer [OF e] m_saved_mem_other [of _ ?e]
    by (intro exI [of _ "m_saved_mem ?e"] exI [of _ "gpr (cpu ?e)"])
      (simp add: c_def, simp add: set_reg_def on_cpu_def)
qed


definition trap_words :: "'z machine_scheme \<Rightarrow> u64 set" where
  "trap_words s = frame_words (s_frame s) 31 \<union> frame_words (s_frame s - 128) 16 \<union> frame_words (m_frame s) 16"

text \<open>What taking an interrupt leaves alone: the interrupted code goes on as if nothing had happened.\<close>

definition trap_kept :: "'z machine_scheme \<Rightarrow> 'z machine_scheme \<Rightarrow> bool" where
  "trap_kept s s' \<longleftrightarrow> pc (cpu s') = pc (cpu s) \<and> prv (cpu s') = S_mode \<and> gpr (cpu s') = gpr (cpu s) \<and>
     csr_mhartid (cpu s') = csr_mhartid (cpu s) \<and> csr_mtvec (cpu s') = csr_mtvec (cpu s) \<and> csr_stvec (cpu s') = csr_stvec (cpu s) \<and>
     csr_satp (cpu s') = csr_satp (cpu s) \<and> tlb (cpu s') = tlb (cpu s) \<and> junk (cpu s') = junk (cpu s) \<and>
     (\<forall>n. n \<notin> {5, 7, 8, 11, 12} \<longrightarrow> bit (csr_mstatus (cpu s')) n = bit (csr_mstatus (cpu s)) n) \<and>
     (\<forall>a. a \<notin> trap_words s \<longrightarrow> mem s' a = mem s a) \<and> dev s' = dev s \<and> pt_pool s' = pt_pool s \<and>
     pt_pool_next_page s' = pt_pool_next_page s \<and> machine.more s' = machine.more s"

lemma s_take_timer:
  fixes s :: "'z machine_scheme"
  defines "c \<equiv> push_bit 63 1 OR IRQ_S_TIMER"
  assumes "prv (cpu s) = S_mode"
  shows "\<exists>s'. s_take c tval s = Ret s' \<and> trap_kept s s' \<and>
    g_trap s' = (log_irq c (log_trap c tval (pc (cpu s)) (g_trap s)))\<lparr>timer_irq_count := inc32 (timer_irq_count (g_trap s))\<rparr> \<and>
    clint64 s' = (clint64 s)(CLINT_MTIMECMP (csr_mhartid (cpu s)) := 0xFFFFFFFFFFFFFFFF) \<and> clint32 s' = clint32 s \<and>
    csr_mie (cpu s') = csr_mie (cpu s) OR MIP_MTIP \<and> csr_mip (cpu s') = csr_mip (cpu s) AND NOT MIP_STIP"
proof -
  let ?f = "s_frame s"
  let ?s1 = "s_entry (on_cpu (enter_s c tval) s)"
  note st = s_handler_state [where cause = c and tval = tval and s = s]
  from s_timer_handler [OF st(11), of tval "pc (cpu s)" ?f, folded c_def] obtain m g where
    h: "s_trap_handler c tval (pc (cpu s)) ?f ?s1 = Ret (?s1\<lparr>
      g_trap := (log_irq c (log_trap c tval (pc (cpu s)) (g_trap s)))\<lparr>timer_irq_count := inc32 (timer_irq_count (g_trap s))\<rparr>,
      mem := m, clint64 := (clint64 s)(CLINT_MTIMECMP (csr_mhartid (cpu s)) := 0xFFFFFFFFFFFFFFFF),
      cpu := m_visited CAUSE_ECALL_SMODE (pc (cpu ?s1) + 4) ((cpu ?s1)\<lparr>gpr := g,
        csr_mie := csr_mie (cpu s) OR MIP_MTIP, csr_mip := csr_mip (cpu s) AND NOT MIP_STIP\<rparr>)\<rparr>)" (is "_ = Ret ?s2") and
    m: "\<And>a. a \<notin> frame_words (?f - 128) 16 \<Longrightarrow> m a = mem ?s1 a" and
    g: "g = (gpr (cpu ?s1))(10 := 0xFFFFFFFFFFFFFFFF, 17 := SBI_SET_TIMER)"
    unfolding st by auto
  have fm: "m (slot ?f (of_nat i)) = mem ?s1 (slot ?f (of_nat i))" if "i < 31" for i
    using m [of "slot ?f (of_nat i)"] frame_wordsI [OF that, of ?f] frames_apart [of ?f] by auto
  have r: "s_take c tval s = Ret (on_cpu (\<lambda>h. sret (h\<lparr>csr_sepc := mem ?s2 (slot ?f 30), gpr := gpr (cpu s)\<rparr>)) ?s2)"
    by (rule s_take_ret [OF h]) (use fm in \<open>auto simp: m_visited_def g s_saved_def\<close>)
  have "m (slot ?f 30) = pc (cpu s)" using fm [of 30] st(8) by simp
  moreover have "m a = mem s a" if "a \<notin> trap_words s" for a
    using that m [of a] st(7) [of a] by (simp add: trap_words_def)
  ultimately show ?thesis
    by (simp add: r trap_kept_def sret_def m_visited_def s_entry_def s_frame_def on_cpu_def enter_s_def [of _ _ "cpu s"] assms(2))
qed

lemma s_take_soft:
  fixes s :: "'z machine_scheme"
  defines "c \<equiv> push_bit 63 1 OR IRQ_S_SOFT"
  assumes "prv (cpu s) = S_mode"
  shows "\<exists>s'. s_take c tval s = Ret s' \<and> trap_kept s s' \<and>
    g_trap s' = (log_irq c (log_trap c tval (pc (cpu s)) (g_trap s)))\<lparr>soft_irq_count := inc32 (soft_irq_count (g_trap s))\<rparr> \<and>
    clint64 s' = clint64 s \<and> clint32 s' = clint32 s \<and>
    csr_mie (cpu s') = csr_mie (cpu s) \<and> csr_mip (cpu s') = csr_mip (cpu s) AND NOT SIP_SSIP"
proof -
  let ?f = "s_frame s"
  let ?e = "s_entry (on_cpu (enter_s c tval) s)"
  note st = s_handler_state [where cause = c and tval = tval and s = s]
  let ?t = "(log_irq c (log_trap c tval (pc (cpu s)) (g_trap s)))\<lparr>soft_irq_count := inc32 (soft_irq_count (g_trap s))\<rparr>"
  let ?s2 = "?e\<lparr>g_trap := ?t, cpu := (cpu ?e)\<lparr>csr_mip := csr_mip (cpu ?e) AND NOT SIP_SSIP\<rparr>\<rparr>"
  have "g_trap (s_entry x) = g_trap x" for x :: "'z machine_scheme" by (simp add: s_entry_def)
  then have h: "s_trap_handler c tval (pc (cpu s)) ?f ?e = Ret ?s2"
    unfolding s_trap_handler_def Let_def c_def s_irq_code
    by (simp add: s_interrupt_case_def upd_trap_def log_irq_def log_trap_def clear_sip_ssip_def IRQ_S_TIMER_def IRQ_S_SOFT_def)
  have r: "s_take c tval s = Ret (on_cpu (\<lambda>h. sret (h\<lparr>csr_sepc := mem ?s2 (slot ?f 30), gpr := gpr (cpu s)\<rparr>)) ?s2)"
    by (rule s_take_ret [OF h]) simp_all
  have "mem ?s2 (slot ?f 30) = pc (cpu s)" using st(8) by simp
  moreover have "mem ?e a = mem s a" if "a \<notin> trap_words s" for a
    using that st(7) [of a] by (simp add: trap_words_def)
  ultimately show ?thesis
    by (simp add: r trap_kept_def sret_def s_entry_def s_frame_def on_cpu_def enter_s_def [of _ _ "cpu s"] assms(2))
qed

text \<open>
  A timer tick from end to end. When the M-mode timer interrupt arrives in S-mode, the
  M-mode handler forwards it, and once the S-mode handler has taken the forwarded interrupt the
  interrupted code goes on at the same instruction with the same registers and the same interrupt
  enable; \<open>timer_irq_count\<close> and \<open>irq_count\<close> have gone up by one; neither the S-mode nor the
  M-mode timer interrupt is pending, so the tick is delivered exactly once, and the M-mode timer
  interrupt is enabled again for the next \<open>sbi_set_timer\<close>.
\<close>

theorem timer_tick_delivered:
  assumes "prv (cpu s) = S_mode" "clint64 s CLINT_MTIME < 0xFFFFFFFFFFFFFFFF"
    "CLINT_MTIMECMP (csr_mhartid (cpu s)) \<noteq> CLINT_MTIME"
  shows "\<exists>s1 s2. m_interrupt IRQ_M_TIMER s = Ret s1 \<and> bit (read_sip s1) 5 \<and>
    s_take (push_bit 63 1 OR IRQ_S_TIMER) 0 s1 = Ret s2 \<and>
    pc (cpu s2) = pc (cpu s) \<and> prv (cpu s2) = S_mode \<and> gpr (cpu s2) = gpr (cpu s) \<and>
    bit (csr_mstatus (cpu s2)) 1 = bit (csr_mstatus (cpu s)) 1 \<and>
    timer_irq_count (g_trap s2) = inc32 (timer_irq_count (g_trap s)) \<and>
    irq_count (g_trap s2) = inc32 (irq_count (g_trap s)) \<and> soft_irq_count (g_trap s2) = soft_irq_count (g_trap s) \<and>
    last_irq_cause (g_trap s2) = push_bit 63 1 OR IRQ_S_TIMER \<and>
    \<not> bit (read_sip s2) 5 \<and> \<not> mtip s2 \<and> bit (csr_mie (cpu s2)) 7 \<and>
    (\<forall>a. a \<notin> trap_words s \<longrightarrow> mem s2 a = mem s a)"
proof -
  let ?c = "push_bit 63 1 OR IRQ_S_TIMER"
  obtain s1 where 1: "m_interrupt IRQ_M_TIMER s = Ret s1" "resumed s (pc (cpu s)) s1"
    "clint64 s1 = (clint64 s)(CLINT_MTIMECMP (csr_mhartid (cpu s)) := 0xFFFFFFFFFFFFFFFF)"
    "csr_mip (cpu s1) = csr_mip (cpu s) OR MIP_STIP"
    using m_interrupt_timer [OF assms(1)] by (simp add: resumed_def m_saved_mem_other m_visited_def)
  have p1: "prv (cpu s1) = S_mode" using 1(2) by (simp add: resumed_def)
  obtain s2 where "s_take ?c 0 s1 = Ret s2" "trap_kept s1 s2"
    "g_trap s2 = (log_irq ?c (log_trap ?c 0 (pc (cpu s1)) (g_trap s1)))\<lparr>timer_irq_count := inc32 (timer_irq_count (g_trap s1))\<rparr>"
    "clint64 s2 = (clint64 s1)(CLINT_MTIMECMP (csr_mhartid (cpu s1)) := 0xFFFFFFFFFFFFFFFF)"
    "csr_mie (cpu s2) = csr_mie (cpu s1) OR MIP_MTIP" "csr_mip (cpu s2) = csr_mip (cpu s1) AND NOT MIP_STIP"
    using s_take_timer [OF p1, of 0] by auto
  then have 2: "s_take ?c 0 s1 = Ret s2" "pc (cpu s2) = pc (cpu s1)" "prv (cpu s2) = S_mode"
    "gpr (cpu s2) = gpr (cpu s1)" "bit (csr_mstatus (cpu s2)) 1 = bit (csr_mstatus (cpu s1)) 1"
    "csr_mhartid (cpu s2) = csr_mhartid (cpu s1)"
    "g_trap s2 = (log_irq ?c (log_trap ?c 0 (pc (cpu s1)) (g_trap s1)))\<lparr>timer_irq_count := inc32 (timer_irq_count (g_trap s1))\<rparr>"
    "clint64 s2 = (clint64 s1)(CLINT_MTIMECMP (csr_mhartid (cpu s1)) := 0xFFFFFFFFFFFFFFFF)"
    "csr_mie (cpu s2) = csr_mie (cpu s1) OR MIP_MTIP" "csr_mip (cpu s2) = csr_mip (cpu s1) AND NOT MIP_STIP"
    "\<And>a. a \<notin> trap_words s1 \<Longrightarrow> mem s2 a = mem s1 a"
    by (simp_all add: trap_kept_def)
  have t: "trap_words s1 = trap_words s" using 1(2) by (simp add: resumed_def trap_words_def s_frame_def m_frame_def)
  have m: "mem s2 a = mem s a" if "a \<notin> trap_words s" for a
    using that 2(11) [of a] 1(2) by (simp add: t resumed_def) (simp add: trap_words_def)
  have d: "bit MIDELEG_DEFAULT 5" by (simp add: MIDELEG_DEFAULT_def)
  have "bit (read_sip s1) 5" using d 1(4) by (simp add: read_sip_def mip_view_def bit_simps flag_bits)
  moreover have "\<not> bit (read_sip s2) 5" "bit (csr_mie (cpu s2)) 7"
    using 2(9,10) by (simp_all add: read_sip_def mip_view_def bit_simps flag_bits)
  moreover have "\<not> mtip s2"
    using assms(2,3) 1(2,3) 2(6,8) by (simp add: mtip_def resumed_def not_le)
  ultimately show ?thesis
    using 1(1,2) 2(1-5,7) m by (intro exI [of _ s1] exI [of _ s2]) (simp add: resumed_def log_irq_def log_trap_def)
qed

text \<open>
  A software interrupt from end to end: forwarded by M-mode and taken by S-mode, it raises
  \<open>soft_irq_count\<close> by one, leaves the hart's software interrupt withdrawn at both levels, and
  the interrupted code goes on unchanged.
\<close>

theorem soft_irq_delivered:
  assumes "prv (cpu s) = S_mode"
  shows "\<exists>s1 s2. m_interrupt IRQ_M_SOFT s = Ret s1 \<and> bit (read_sip s1) 1 \<and>
    s_take (push_bit 63 1 OR IRQ_S_SOFT) 0 s1 = Ret s2 \<and>
    pc (cpu s2) = pc (cpu s) \<and> prv (cpu s2) = S_mode \<and> gpr (cpu s2) = gpr (cpu s) \<and>
    bit (csr_mstatus (cpu s2)) 1 = bit (csr_mstatus (cpu s)) 1 \<and>
    soft_irq_count (g_trap s2) = inc32 (soft_irq_count (g_trap s)) \<and>
    irq_count (g_trap s2) = inc32 (irq_count (g_trap s)) \<and> timer_irq_count (g_trap s2) = timer_irq_count (g_trap s) \<and>
    \<not> bit (read_sip s2) 1 \<and> \<not> msip s2 \<and> (\<forall>a. a \<notin> trap_words s \<longrightarrow> mem s2 a = mem s a)"
proof -
  let ?c = "push_bit 63 1 OR IRQ_S_SOFT"
  obtain s1 where 1: "m_interrupt IRQ_M_SOFT s = Ret s1" "resumed s (pc (cpu s)) s1"
    "clint32 s1 = (clint32 s)(CLINT_MSIP (csr_mhartid (cpu s)) := 0)" "csr_mip (cpu s1) = csr_mip (cpu s) OR MIP_SSIP"
    using m_interrupt_soft [OF assms] by (simp add: resumed_def m_saved_mem_other m_visited_def)
  have p1: "prv (cpu s1) = S_mode" using 1(2) by (simp add: resumed_def)
  obtain s2 where 2: "s_take ?c 0 s1 = Ret s2" "trap_kept s1 s2"
    "g_trap s2 = (log_irq ?c (log_trap ?c 0 (pc (cpu s1)) (g_trap s1)))\<lparr>soft_irq_count := inc32 (soft_irq_count (g_trap s1))\<rparr>"
    "clint32 s2 = clint32 s1" "csr_mip (cpu s2) = csr_mip (cpu s1) AND NOT SIP_SSIP"
    using s_take_soft [OF p1, of 0] by auto
  have t: "trap_words s1 = trap_words s" using 1(2) by (simp add: resumed_def trap_words_def s_frame_def m_frame_def)
  have m: "mem s2 a = mem s a" if "a \<notin> trap_words s" for a
    using that 2(2) 1(2) by (simp add: t trap_kept_def resumed_def) (simp add: trap_words_def)
  have d: "bit MIDELEG_DEFAULT 1" by (simp add: MIDELEG_DEFAULT_def)
  have "bit (read_sip s1) 1" using d 1(4) by (simp add: read_sip_def mip_view_def bit_simps flag_bits)
  moreover have "\<not> bit (read_sip s2) 1"
    using 2(5) by (simp add: read_sip_def mip_view_def bit_simps flag_bits SIP_SSIP_def)
  moreover have "\<not> msip s2"
    using 1(2,3) 2(2,4) by (simp add: msip_def trap_kept_def resumed_def)
  ultimately show ?thesis
    using 1(1,2) 2(1-3) m by (intro exI [of _ s1] exI [of _ s2]) (simp add: trap_kept_def resumed_def log_irq_def log_trap_def)
qed


section \<open>Where fixing goes wrong\<close>

lemma s_fault_space:
  assumes "dev_ok (dev s)" "handler_action (g_trap s) \<noteq> 1" "pt_ok (satp_root s) s" "0 < pt_pool s"
    "pt_walk (satp_root s) tval s = (level, p)"
  shows "\<exists>s'. s_trap_handler (fault_cause acc) tval epc frame s = Ret s' \<and>
    mem s' = (mem s)(p := fixed_pte (fault_cause acc) (mem s p)) \<and>
    (\<forall>c acc' va'. addr_space c (satp_root s) s' acc' va' = (if same_block (nat level) tval va'
      then entry_xlat c acc' va' (nat level) (fixed_pte (fault_cause acc) (mem s p)) else addr_space c (satp_root s) s acc' va'))"
proof -
  from s_fault_fixed [OF assms] obtain s' where
    "s_trap_handler (fault_cause acc) tval epc frame s = Ret s'" and
    m: "mem s' = (mem s)(p := fixed_pte (fault_cause acc) (mem s p))" by fastforce
  moreover have "addr_space c (satp_root s) s' acc' va' = (if same_block (nat level) tval va'
      then entry_xlat c acc' va' (nat level) (fixed_pte (fault_cause acc) (mem s p)) else addr_space c (satp_root s) s acc' va')" for c acc' va'
    using rewrite_entry(2) [OF assms(3,5) fixed_pte_not_branch, of c acc "mem s p" acc' va'] by (simp add: addr_space_def m)
  ultimately show ?thesis by auto
qed

text \<open>
  C35. Fixing never helps against a missing user permission: the handler does not look at the U bit,
  so a fault on a user page taken without SUM (or by a fetch) returns to an access that faults
  again, and a second visit changes nothing: the program makes no progress.
\<close>

theorem fix_user_page_livelock:
  assumes "dev_ok (dev s)" "handler_action (g_trap s) \<noteq> 1" "pt_ok (satp_root s) s" "0 < pt_pool s"
    "pt_walk (satp_root s) tval s = (level, p)" and u: "bit (mem s p) 4" "\<not> ctl_sum c \<or> acc = Fetch"
  shows "\<exists>s'. s_trap_handler (fault_cause acc) tval epc frame s = Ret s' \<and>
    addr_space c (satp_root s) s' acc tval = None \<and>
    fixed_pte (fault_cause acc) (mem s' p) = mem s' p"
proof -
  from s_fault_space [OF assms(1-5)] obtain s' where s': "s_trap_handler (fault_cause acc) tval epc frame s = Ret s'"
    "mem s' = (mem s)(p := fixed_pte (fault_cause acc) (mem s p))"
    "addr_space c (satp_root s) s' acc tval = entry_xlat c acc tval (nat level) (fixed_pte (fault_cause acc) (mem s p))"
    by (metis same_block_refl)
  have "\<not> pte_allows c acc (fixed_pte (fault_cause acc) (mem s p))"
    using u by (auto simp: pte_allows_def bit_fixed_pte)
  then have "addr_space c (satp_root s) s' acc tval = None"
    by (simp add: s'(3) entry_xlat_def leaf_xlat_def)
  moreover have "fixed_pte (fault_cause acc) (mem s' p) = mem s' p"
    by (rule bit_word_eqI) (auto simp: s'(2) bit_fixed_pte)
  ultimately show ?thesis using s'(1) by auto
qed

text \<open>
  C36. Fixing an address that nothing maps opens a gigabyte: where the walk ends at an empty root
  entry, the handler turns it into a gigapage leaf onto physical address 0, not only for the faulting
  page. After it every canonical address of that gigabyte can be loaded from, whatever the fault was; it can be
  stored to exactly if the fault was a store, and executed exactly if it was a fetch. Outside the gigabyte nothing changes.
\<close>

theorem fix_unmapped_opens_gigapage:
  assumes "dev_ok (dev s)" "handler_action (g_trap s) \<noteq> 1" "pt_ok (satp_root s) s" "0 < pt_pool s"
    "pt_walk (satp_root s) tval s = (2, p)" "mem s p = 0"
  shows "\<exists>s'. s_trap_handler (fault_cause acc) tval epc frame s = Ret s' \<and>
    (\<forall>c acc' va'. addr_space c (satp_root s) s' acc' va' =
      (if same_block 2 tval va'
       then if va_canonical va' \<and> (acc' = Load \<or> acc' = acc) then Some (take_bit 30 va') else None
       else addr_space c (satp_root s) s acc' va'))"
proof -
  have "entry_xlat c acc' va' 2 (fixed_pte (fault_cause acc) 0) =
      (if va_canonical va' \<and> (acc' = Load \<or> acc' = acc) then Some (take_bit 30 va') else None)" for c acc' va'
  proof -
    have "drop_bit 54 (fixed_pte (fault_cause acc) 0) = 0" by (rule drop_bit_0I) (auto simp: bit_fixed_pte)
    moreover have "pte_target (fixed_pte (fault_cause acc) 0) = 0" by simp (simp add: pte_target_def)
    moreover have "pte_allows c acc' (fixed_pte (fault_cause acc) 0) \<longleftrightarrow> acc' = Load \<or> acc' = acc"
      by (cases acc') (auto simp: pte_allows_def bit_fixed_pte)
    ultimately show ?thesis
      by (simp add: entry_xlat_def leaf_xlat_def pte_valid_def pte_is_leaf_def bit_fixed_pte pte_ad_ok_def leaf_aligned_def)
  qed
  with s_fault_space [OF assms(1-5), of acc epc frame] assms(6) show ?thesis by auto
qed

section \<open>Other exceptions\<close>

lemma test_fail_any: "dev_ok (dev s) \<Longrightarrow> \<exists>s'. test_fail code s = Halt s' \<and> tohost (dev s') = fail_word code"
  using test_fail_stops [of s code] by fastforce

lemma cause_split:
  assumes "(code :: u64) < 0x8000000000000000"
  shows "drop_bit 63 code AND 1 = 0" "code AND 0x7FFFFFFFFFFFFFFF = code"
    "drop_bit 63 (push_bit 63 1 OR code) AND 1 = 1" "(push_bit 63 1 OR code) AND 0x7FFFFFFFFFFFFFFF = code"
proof -
  have z: "drop_bit 63 code = 0"
    using assms by (simp add: word_uint_eq_iff drop_bit_eq_div uint_div word_less_def div_pos_pos_trivial)
  then show "drop_bit 63 code AND 1 = 0" by simp
  have m: "(0x7FFFFFFFFFFFFFFF :: u64) = mask 63" by (simp add: mask_eq_exp_minus_1)
  have b: "bit code n \<Longrightarrow> n < 63" for n using drop_bit_0_bit [OF z, of n] not_less by blast
  have p: "bit (push_bit 63 1 :: u64) n \<longleftrightarrow> n = 63" for n unfolding bit_push_bit_iff bit_1_iff by auto
  show "code AND 0x7FFFFFFFFFFFFFFF = code"
    unfolding m by (rule bit_word_eqI) (auto simp: bit_and_iff bit_mask_iff dest: b)
  show "(push_bit 63 1 OR code) AND 0x7FFFFFFFFFFFFFFF = code"
    unfolding m
  proof (rule bit_word_eqI)
    fix n show "bit ((push_bit 63 1 OR code) AND mask 63) n = bit code n"
      unfolding bit_and_iff bit_or_iff p bit_mask_iff using b [of n] by auto
  qed
  show "drop_bit 63 (push_bit 63 1 OR code) AND 1 = 1"
    unfolding drop_bit_or z by simp
qed

text \<open>
  The remaining causes: an illegal instruction stops with verdict 300, an exception the handler
  does not know with 400 plus its cause, an interrupt it does not know with 100 plus its cause;
  a reflected \<open>ecall\<close> resumes four bytes on; an external interrupt is only counted.
\<close>

theorem s_trap_other_causes:
  assumes dev: "dev_ok (dev s)"
  shows "(\<exists>s'. s_trap_handler CAUSE_ILLEGAL_INST tval epc frame s = Halt s' \<and> tohost (dev s') = fail_word 300) \<and>
    (\<forall>code. code < 0x8000000000000000 \<and> code \<notin> {2, 9, 12, 13, 15} \<longrightarrow>
      (\<exists>s'. s_trap_handler code tval epc frame s = Halt s' \<and> tohost (dev s') = fail_word (wrap32 (400 + int_of_u64 code)))) \<and>
    (\<forall>code. code < 0x8000000000000000 \<and> code \<notin> {1, 5, 9} \<longrightarrow>
      (\<exists>s'. s_trap_handler (push_bit 63 1 OR code) tval epc frame s = Halt s' \<and>
        tohost (dev s') = fail_word (wrap32 (100 + int_of_u64 code)))) \<and>
    (\<exists>s'. s_trap_handler CAUSE_ECALL_SMODE tval epc frame s = Ret s' \<and> mem s' = (mem s)(slot frame 30 := epc + 4)) \<and>
    (\<exists>s'. s_trap_handler (push_bit 63 1 OR IRQ_S_EXT) tval epc frame s = Ret s' \<and> mem s' = mem s \<and>
      irq_count (g_trap s') = inc32 (irq_count (g_trap s)))"
proof (intro conjI allI impI)
  note defs = upd_trap_def platform_consts
  show "\<exists>s'. s_trap_handler CAUSE_ILLEGAL_INST tval epc frame s = Halt s' \<and> tohost (dev s') = fail_word 300"
    unfolding s_trap_handler_def Let_def
    by (simp add: dev defs del: uart_puts.simps) (rule test_fail_any, simp add: dev)
  show "\<exists>s'. s_trap_handler CAUSE_ECALL_SMODE tval epc frame s = Ret s' \<and> mem s' = (mem s)(slot frame 30 := epc + 4)"
    unfolding s_trap_handler_def Let_def by (simp add: dev defs del: uart_puts.simps)
  show "\<exists>s'. s_trap_handler (push_bit 63 1 OR IRQ_S_EXT) tval epc frame s = Ret s' \<and> mem s' = mem s \<and>
      irq_count (g_trap s') = inc32 (irq_count (g_trap s))"
    unfolding s_trap_handler_def Let_def s_irq_code by (simp add: s_interrupt_case_def defs)
next
  fix code :: u64 assume c: "code < 0x8000000000000000 \<and> code \<notin> {2, 9, 12, 13, 15}"
  note k = cause_split [OF c [THEN conjunct1]]
  show "\<exists>s'. s_trap_handler code tval epc frame s = Halt s' \<and> tohost (dev s') = fail_word (wrap32 (400 + int_of_u64 code))"
    unfolding s_trap_handler_def Let_def k
    using c by (simp add: dev upd_trap_def CAUSE_ILLEGAL_INST_def CAUSE_ECALL_SMODE_def CAUSE_INST_PAGE_FAULT_def
      CAUSE_LOAD_PAGE_FAULT_def CAUSE_STORE_PAGE_FAULT_def del: uart_puts.simps) (rule test_fail_any, simp add: dev)
next
  fix code :: u64 assume c: "code < 0x8000000000000000 \<and> code \<notin> {1, 5, 9}"
  note k = cause_split [OF c [THEN conjunct1]]
  show "\<exists>s'. s_trap_handler (push_bit 63 1 OR code) tval epc frame s = Halt s' \<and>
      tohost (dev s') = fail_word (wrap32 (100 + int_of_u64 code))"
    unfolding s_trap_handler_def Let_def k s_interrupt_case_def
    using c by (simp add: dev upd_trap_def IRQ_S_TIMER_def IRQ_S_SOFT_def IRQ_S_EXT_def del: uart_puts.simps)
      (rule test_fail_any, simp add: dev)
qed


section \<open>Turning the MMU on, and the verdict of a test program\<close>

text \<open>
  \<open>mmu_enable_sv39\<close> puts Sv39 mode and the root into \<open>satp\<close> so that the trap handler's
  decoding of \<open>satp\<close> gives that root back, and leaves no cached translation.
\<close>

theorem mmu_enable_roundtrip:
  assumes "page_aligned root" "drop_bit 56 root = 0"
  shows "satp_root (mmu_enable_sv39 root s) = root \<and> drop_bit 60 (csr_satp (cpu (mmu_enable_sv39 root s))) = SATP_MODE_SV39 \<and>
    tlb (cpu (mmu_enable_sv39 root s)) = {} \<and> mem (mmu_enable_sv39 root s) = mem s"
proof -
  let ?w = "push_bit 60 8 OR drop_bit 12 root :: u64"
  have w: "csr_satp (cpu (mmu_enable_sv39 root s)) = ?w"
    by (simp add: mmu_enable_sv39_def sfence_vma_all_def write_csr_satp_def pt_ppn_def platform_consts)
  have m: "(0x00000FFFFFFFFFFF :: u64) = mask 44" by (simp add: mask_eq_exp_minus_1)
  have p: "\<not> bit (push_bit 60 8 :: u64) n" if "n < 60" for n using that unfolding bit_push_bit_iff by simp
  have "push_bit 12 (?w AND mask 44) = root"
  proof (rule bit_word_eqI)
    fix n assume n: "n < LENGTH(64)"
    show "bit (push_bit 12 (?w AND mask 44)) n = bit root n"
      using p [of "n - 12"] n page_aligned_bit [OF assms(1), of n] drop_bit_0_bit [OF assms(2), of n]
      unfolding bit_push_bit_iff bit_and_iff bit_or_iff bit_mask_iff bit_drop_bit_eq comp_def
      by (cases "n < 12"; cases "n < 56") auto
  qed
  then have "satp_root (mmu_enable_sv39 root s) = root" unfolding satp_root_def w m PGSHIFT_def .
  moreover have "drop_bit 60 (drop_bit 12 root) = 0"
    by (rule drop_bit_0I) (use drop_bit_0_bit [OF assms(2)] in \<open>auto simp: bit_simps\<close>)
  then have "drop_bit 60 ?w = 8" unfolding drop_bit_or by (simp add: push_bit_eq_mult)
  ultimately show ?thesis
    unfolding w by (simp add: SATP_MODE_SV39_def) (simp add: mmu_enable_sv39_def Let_def sfence_vma_all_def write_csr_satp_def)
qed

lemma fail_word_pass: "- (2 ^ 30) \<le> r \<Longrightarrow> r < 2 ^ 30 \<Longrightarrow> fail_word r = 1 \<longleftrightarrow> r = 0"
proof -
  assume r: "- (2 ^ 30) \<le> r" "r < 2 ^ 30"
  then have "wrap32 (push_bit 1 r) = 2 * r" by (subst wrap32_id) (auto simp: c_int_range_def push_bit_eq_mult)
  then have f: "fail_word r = u64_of_int (2 * r + 1)" by (simp add: fail_word_def or_one_eq)
  have "(1 :: u64) = u64_of_int 1" by (simp add: u64_of_int_def)
  then have "fail_word r = 1 \<longleftrightarrow> 2 * r + 1 = 1"
    using u64_of_int_inj [of "2 * r + 1" 1] r by (auto simp: f c_int_range_def)
  then show ?thesis by simp
qed

text \<open>
  The verdict of a test program. When \<open>test_main\<close> returns with working devices,
  \<open>s_mode_entry\<close> never returns and the host sees the pass word 1 exactly when the result is 0
  (for results within 30 bits, where the doubling does not overflow).
\<close>

theorem s_mode_entry_verdict:
  assumes "dev_ok (dev s)" "- (2 ^ 30) \<le> r" "r < 2 ^ 30"
    and "\<And>s1. dev_ok (dev s1) \<Longrightarrow> csr_stvec (cpu s1) = vec \<Longrightarrow> \<exists>s2. test_main s1 = Ret (r, s2) \<and> dev_ok (dev s2)"
  shows "\<exists>s'. s_mode_entry vec test_main s = Halt s' \<and> (tohost (dev s') = 1 \<longleftrightarrow> r = 0)"
proof -
  define b where "b = CHR 0x0A # ''=== S-mode entry, stvec set ==='' @ [CHR 0x0A]"
  let ?s1 = "say (crlf b) (write_csr_stvec vec s)"
  have "dev_ok (dev ?s1)" "csr_stvec (cpu ?s1) = vec" using assms(1) by (simp_all add: write_csr_stvec_def)
  from assms(4) [OF this] obtain s2 where s2: "test_main ?s1 = Ret (r, s2)" "dev_ok (dev s2)" by blast
  have "dev_ok (dev (write_csr_stvec vec s))" using assms(1) by (simp add: write_csr_stvec_def)
  then have e: "s_mode_entry vec test_main s = (if r = 0 then test_pass s2 else test_fail r s2)"
    unfolding s_mode_entry_def b_def [symmetric] using s2(1) by (simp del: uart_puts.simps)
  show ?thesis
  proof (cases "r = 0")
    case True
    with test_pass_halts [OF s2(2)] e show ?thesis by auto
  next
    case False
    with test_fail_halts [OF s2(2), of r] e fail_word_pass [OF assms(2,3)] show ?thesis by auto
  qed
qed


section \<open>Witnesses\<close>

text \<open>A root table with one entry \<open>e\<close> for the second gigabyte.\<close>

definition demo_tables :: "u64 \<Rightarrow> machine" where
  "demo_tables e = demo_machine\<lparr>pt_pool_next_page := 1, mem := (\<lambda>_. 0)(0x80010008 := e),
     cpu := demo_hart\<lparr>csr_satp := 0x8000000000080010\<rparr>\<rparr>"

lemma demo_tables_simps:
  "dev (demo_tables e) = demo_dev" "prv (cpu (demo_tables e)) = S_mode" "handler_action (g_trap (demo_tables e)) = 0"
  "pt_pool (demo_tables e) = 0x80010000" "mem (demo_tables e) 0x80010008 = e" "pc (cpu (demo_tables e)) = 0x80001000"
  "satp_root (demo_tables e) = 0x80010000" "s_frame (demo_tables e) = 0x8002FF10" "pool_tables (demo_tables e) = {0x80010000}"
  by (simp_all add: demo_tables_def demo_machine_def demo_hart_def demo_trap_def satp_root_def PGSHIFT_def s_frame_def
    pool_tables_def pool_page_def lessThan_Suc)

lemma demo_slot: "i < 512 \<Longrightarrow> slot 0x80010000 i = 0x80010008 \<longleftrightarrow> i = 1"
  using slot_eq_iff [of "0x80010000" i "0x80010000" 1]
  by (simp add: slot_def page_aligned_def take_bit_eq_mod)

lemma demo_pt_ok: "\<not> is_branch e \<Longrightarrow> pt_ok 0x80010000 (demo_tables e)"
proof -
  assume e: "\<not> is_branch e"
  have "wf_tables (\<lambda>_. 2) {0x80010000} 0x80010000 (mem (demo_tables e))"
    by (rule wf_leaf_root) (use e in \<open>simp_all add: demo_tables_def page_aligned_def take_bit_eq_mod is_branch_def [of 0]\<close>)
  moreover have "pool_ok (demo_tables e)"
    by (simp add: pool_ok_def demo_tables_def demo_machine_def PT_POOL_PAGES_def page_aligned_def take_bit_eq_mod)
  ultimately have "pool.tables_ok (\<lambda>_. 2) 0x80010000 (demo_tables e)"
    by (simp add: pool.tables_ok_def demo_tables_simps)
  then show ?thesis by (auto simp: pt_ok_def)
qed

lemma demo_walk: "\<not> is_branch e \<Longrightarrow> pt_walk 0x80010000 0x40000000 (demo_tables e) = (2, 0x80010008)"
proof -
  assume e: "\<not> is_branch e"
  have "slot 0x80010000 (vpn_ix 2 0x40000000) = 0x80010008" by (simp add: vpn_ix_def slot_def flip: mask9_u64)
  with e show ?thesis by (simp add: pt_walk_eq demo_tables_simps)
qed

lemma unat_slot: "unat a + 8 * unat i < 2 ^ 64 \<Longrightarrow> unat (slot a i) = unat a + 8 * unat i"
  by (simp add: slot_def unat_word_ariths)

lemma demo_frame: "frame_words (s_frame (demo_tables e)) 31 \<inter> table_words (pool_tables (demo_tables e)) = {}"
proof -
  have "slot 0x8002FF10 (of_nat j) \<noteq> slot 0x80010000 i" if "j < 31" "i < 512" for j i
  proof
    assume "slot 0x8002FF10 (of_nat j) = slot 0x80010000 i"
    then have "unat (slot 0x8002FF10 (of_nat j)) = unat (slot 0x80010000 i)" by simp
    moreover have "unat i < 512" using that by (simp add: word_less_nat_alt)
    moreover have "unat (of_nat j :: u64) = j" using that by (simp add: unat_of_nat)
    ultimately show False using that by (simp add: unat_slot)
  qed
  then show ?thesis unfolding demo_tables_simps frame_words_def table_words_def by blast
qed

lemma demo_leaf: "perm_ok PTE_R" "\<not> is_branch (pte_leaf 0x40000000 PTE_R)" "perm_ok (PTE_R OR PTE_U)"
    "\<not> is_branch (pte_leaf 0x40000000 (PTE_R OR PTE_U))"
proof -
  show "perm_ok PTE_R" "perm_ok (PTE_R OR PTE_U)" by (auto simp: perm_ok_def bit_simps flag_bits)
  then show "\<not> is_branch (pte_leaf 0x40000000 PTE_R)" "\<not> is_branch (pte_leaf 0x40000000 (PTE_R OR PTE_U))"
    by (simp_all add: not_branch_leaf)
qed

theorem page_fault_fixed_witness:
  "\<exists>s'. s_take (fault_cause Store) 0x40000000 (demo_tables (pte_leaf 0x40000000 PTE_R)) = Ret s' \<and>
     pc (cpu s') = 0x80001000 \<and> addr_space demo_ctl 0x80010000 s' Store 0x40000000 = Some 0x40000000"
proof -
  let ?e = "pte_leaf 0x40000000 PTE_R" and ?s = "demo_tables (pte_leaf 0x40000000 PTE_R)"
  have e: "drop_bit 54 ?e = 0" "leaf_aligned 2 ?e" "\<not> bit ?e 4" "pte_target ?e OR take_bit 30 0x40000000 = 0x40000000"
    by (simp_all add: pte_leaf_def platform_consts leaf_aligned_def pte_target_def push_bit_eq_mult)
  have c: "va_canonical 0x40000000" by (rule canonical_low) simp
  have s: "dev_ok (dev ?s)" "prv (cpu ?s) = S_mode" "handler_action (g_trap ?s) \<noteq> 1" "pt_ok (satp_root ?s) ?s" "0 < pt_pool ?s"
    "pt_walk (satp_root ?s) 0x40000000 ?s = (2, 0x80010008)"
    using demo_dev_ok demo_pt_ok [OF demo_leaf(2)] demo_walk [OF demo_leaf(2)] by (simp_all add: demo_tables_simps)
  have l: "nat 2 = (2 :: nat)" "12 + 9 * (2 :: nat) = 30" by simp_all
  from page_fault_fixed [OF s demo_frame, of Store, unfolded demo_tables_simps l] e c show ?thesis by auto
qed

theorem page_fault_skipped_witness:
  "\<exists>s'. s_take (fault_cause Load) 0x40000000 ((demo_tables 0)\<lparr>g_trap := demo_trap\<lparr>handler_action := 1\<rparr>\<rparr>) = Ret s' \<and>
     pc (cpu s') = 0x80001002"
proof -
  let ?s = "(demo_tables 0)\<lparr>g_trap := demo_trap\<lparr>handler_action := 1\<rparr>\<rparr>"
  have f: "s_frame ?s = 0x8002FF10" using demo_tables_simps(8) [of 0] by (simp add: s_frame_def)
  have "pc (cpu ?s) AND NOT 7 \<notin> frame_words (s_frame ?s) 31"
  proof
    assume "pc (cpu ?s) AND NOT 7 \<in> frame_words (s_frame ?s) 31"
    then obtain j where j: "j < 31" "(0x80001000 :: u64) = slot 0x8002FF10 (of_nat j)"
      by (auto simp: f demo_tables_simps frame_words_def)
    moreover have "unat (of_nat j :: u64) = j" using j(1) by (simp add: unat_of_nat)
    ultimately have "unat (0x80001000 :: u64) = 0x8002FF10 + 8 * j" using unat_slot [of "0x8002FF10" "of_nat j"] by simp
    then show False by simp
  qed
  moreover have "ld16 ?s 0x80001000 = 0" by (simp add: ld16_def demo_tables_def)
  ultimately show ?thesis
    using page_fault_skipped [of ?s Load "0x40000000"] demo_dev_ok by (simp add: demo_tables_simps) blast
qed


theorem timer_tick_delivered_witness:
  "prv (cpu demo_machine) = S_mode \<and> (\<exists>s1 s2. m_interrupt IRQ_M_TIMER demo_machine = Ret s1 \<and>
     s_take (push_bit 63 1 OR IRQ_S_TIMER) 0 s1 = Ret s2 \<and> pc (cpu s2) = 0x80001000 \<and> timer_irq_count (g_trap s2) = 1)"
proof -
  have c: "clint64 demo_machine CLINT_MTIME < 0xFFFFFFFFFFFFFFFF" by (simp add: demo_machine_def)
  have n: "CLINT_MTIMECMP (csr_mhartid (cpu demo_machine)) \<noteq> CLINT_MTIME" by (simp add: platform_consts)
  have "timer_irq_count (g_trap demo_machine) = 0" by (simp add: demo_machine_def demo_trap_def)
  with timer_tick_delivered [OF demo_machine_simps(1) c n] show ?thesis by auto
qed

theorem soft_irq_delivered_witness:
  "prv (cpu demo_machine) = S_mode \<and> (\<exists>s1 s2. m_interrupt IRQ_M_SOFT demo_machine = Ret s1 \<and>
     s_take (push_bit 63 1 OR IRQ_S_SOFT) 0 s1 = Ret s2 \<and> soft_irq_count (g_trap s2) = 1)"
proof -
  have "soft_irq_count (g_trap demo_machine) = 0" by (simp add: demo_machine_def demo_trap_def)
  with soft_irq_delivered [OF demo_machine_simps(1)] show ?thesis by auto
qed

theorem fix_user_page_livelock_witness:
  "\<exists>s'. s_trap_handler (fault_cause Load) 0x40000000 0x80001000 0x80020000 (demo_tables (pte_leaf 0x40000000 (PTE_R OR PTE_U))) = Ret s' \<and>
     addr_space demo_ctl 0x80010000 s' Load 0x40000000 = None"
proof -
  let ?e = "pte_leaf 0x40000000 (PTE_R OR PTE_U)"
  let ?s = "demo_tables ?e"
  have s: "dev_ok (dev ?s)" "handler_action (g_trap ?s) \<noteq> 1" "pt_ok (satp_root ?s) ?s" "0 < pt_pool ?s"
    "pt_walk (satp_root ?s) 0x40000000 ?s = (2, 0x80010008)"
    using demo_dev_ok demo_pt_ok [OF demo_leaf(4)] demo_walk [OF demo_leaf(4)] by (simp_all add: demo_tables_simps)
  have "bit (mem ?s 0x80010008) 4" by (simp add: demo_tables_simps bit_pte_leaf bit_simps flag_bits)
  from fix_user_page_livelock [OF s this, of demo_ctl Load] show ?thesis
    by (auto simp: demo_tables_simps demo_ctl_def)
qed

theorem fix_unmapped_opens_gigapage_witness:
  "\<exists>s'. s_trap_handler (fault_cause Store) 0x40000000 0x80001000 0x80020000 (demo_tables 0) = Ret s' \<and>
     addr_space demo_ctl 0x80010000 s' Store 0x7FFFF000 = Some 0x3FFFF000 \<and>
     addr_space demo_ctl 0x80010000 s' Fetch 0x7FFFF000 = None"
proof -
  let ?s = "demo_tables 0"
  have b: "\<not> is_branch 0" by (simp add: is_branch_def)
  have s: "dev_ok (dev ?s)" "handler_action (g_trap ?s) \<noteq> 1" "pt_ok (satp_root ?s) ?s" "0 < pt_pool ?s"
    "pt_walk (satp_root ?s) 0x40000000 ?s = (2, 0x80010008)" "mem ?s 0x80010008 = 0"
    using demo_dev_ok demo_pt_ok [OF b] demo_walk [OF b] by (simp_all add: demo_tables_simps)
  have "vpn_ix 2 0x40000000 = vpn_ix 2 0x7FFFF000" by (simp add: vpn_ix_def flip: mask9_u64)
  then have "same_block 2 0x40000000 0x7FFFF000" unfolding same_block_def by (metis le_antisym)
  moreover have "va_canonical 0x7FFFF000" by (rule canonical_low) simp
  moreover have "take_bit 30 (0x7FFFF000 :: u64) = 0x3FFFF000" by (simp add: take_bit_eq_mod)
  moreover note fix_unmapped_opens_gigapage [OF s, of Store "0x80001000" "0x80020000", unfolded demo_tables_simps(7)]
  ultimately show ?thesis by auto
qed

theorem s_trap_other_causes_witness:
  "dev_ok (dev demo_machine) \<and> (\<exists>s'. s_trap_handler 7 0 0 0 demo_machine = Halt s' \<and> tohost (dev s') = 815)"
proof -
  have "fail_word 407 = 815" using fail_word_small [of 407] by simp
  moreover have "int_of_u64 7 = 7" by (simp add: int_of_u64_def)
  ultimately show ?thesis
    using s_trap_other_causes [of demo_machine 0 0 0, THEN conjunct2, THEN conjunct1, THEN spec, of 7] demo_dev_ok by auto
qed

theorem mmu_enable_roundtrip_witness:
  "page_aligned 0x80010000 \<and> satp_root (mmu_enable_sv39 0x80010000 demo_machine) = 0x80010000"
proof -
  have "page_aligned 0x80010000" "drop_bit 56 (0x80010000 :: u64) = 0" by (simp_all add: page_aligned_def take_bit_eq_mod)
  with mmu_enable_roundtrip [of "0x80010000" demo_machine] show ?thesis by simp
qed

theorem s_mode_entry_verdict_witness:
  "\<exists>s'. s_mode_entry 0x80000200 (\<lambda>s. Ret (3, s)) demo_machine = Halt s' \<and> tohost (dev s') \<noteq> 1"
  using s_mode_entry_verdict [of demo_machine 3 "0x80000200" "\<lambda>s. Ret (3, s)"] demo_dev_ok by simp

end
