(* ===== verification/Atomics.thy ===== *)
theory Atomics
  imports Run Memory
begin

text \<open>
  The atomics of \<^verbatim>\<open>common/test.h\<close>: the AMO wrappers on 64- and 32-bit words, LR/SC and the
  compare-and-swap loop. The wrappers are single instructions; their model is the instruction's
  effect on memory and the value returned. The state adds the hart's reservation and the
  environment that decides which store-conditionals fail although the reservation holds.
\<close>

record amach = phys +
  resv :: "u64 option"
  sc_spurious :: "nat \<Rightarrow> bool"

section \<open>The instructions\<close>

definition amo_d :: "(u64 \<Rightarrow> u64 \<Rightarrow> u64) \<Rightarrow> u64 \<Rightarrow> u64 \<Rightarrow> 'z phys_scheme \<Rightarrow> u64 \<times> 'z phys_scheme" where
  "amo_d f addr val s = (mem s addr, st64 addr (f (mem s addr) val) s)"

definition ld32 :: "'z phys_scheme \<Rightarrow> u64 \<Rightarrow> u32" where
  "ld32 s a = ucast (drop_bit (8 * unat (a AND 4)) (mem s (a AND NOT 7)))"

text \<open>The encoding of \<open>ret\<close>, which the tests write as data.\<close>

definition RET_INSN :: u32 where
  "RET_INSN = 0x00008067"

definition amo_w :: "(u32 \<Rightarrow> u32 \<Rightarrow> u32) \<Rightarrow> u64 \<Rightarrow> u32 \<Rightarrow> 'z phys_scheme \<Rightarrow> u32 \<times> 'z phys_scheme" where
  "amo_w f addr val s = (ld32 s addr, st32 addr (f (ld32 s addr) val) s)"

section \<open>The wrappers\<close>

definition amo_swap_d :: "u64 \<Rightarrow> u64 \<Rightarrow> 'z phys_scheme \<Rightarrow> u64 \<times> 'z phys_scheme" where
  "amo_swap_d = amo_d (\<lambda>r v. v)"

definition amo_add_d :: "u64 \<Rightarrow> u64 \<Rightarrow> 'z phys_scheme \<Rightarrow> u64 \<times> 'z phys_scheme" where
  "amo_add_d = amo_d (+)"

definition amo_and_d :: "u64 \<Rightarrow> u64 \<Rightarrow> 'z phys_scheme \<Rightarrow> u64 \<times> 'z phys_scheme" where
  "amo_and_d = amo_d (AND)"

definition amo_or_d :: "u64 \<Rightarrow> u64 \<Rightarrow> 'z phys_scheme \<Rightarrow> u64 \<times> 'z phys_scheme" where
  "amo_or_d = amo_d (OR)"

definition amo_xor_d :: "u64 \<Rightarrow> u64 \<Rightarrow> 'z phys_scheme \<Rightarrow> u64 \<times> 'z phys_scheme" where
  "amo_xor_d = amo_d (XOR)"

definition amo_min_d :: "u64 \<Rightarrow> u64 \<Rightarrow> 'z phys_scheme \<Rightarrow> u64 \<times> 'z phys_scheme" where
  "amo_min_d = amo_d (\<lambda>r v. if sint r \<le> sint v then r else v)"

definition amo_max_d :: "u64 \<Rightarrow> u64 \<Rightarrow> 'z phys_scheme \<Rightarrow> u64 \<times> 'z phys_scheme" where
  "amo_max_d = amo_d (\<lambda>r v. if sint v \<le> sint r then r else v)"

definition amo_minu_d :: "u64 \<Rightarrow> u64 \<Rightarrow> 'z phys_scheme \<Rightarrow> u64 \<times> 'z phys_scheme" where
  "amo_minu_d = amo_d min"

definition amo_maxu_d :: "u64 \<Rightarrow> u64 \<Rightarrow> 'z phys_scheme \<Rightarrow> u64 \<times> 'z phys_scheme" where
  "amo_maxu_d = amo_d max"

definition amo_minu_w :: "u64 \<Rightarrow> u32 \<Rightarrow> 'z phys_scheme \<Rightarrow> u32 \<times> 'z phys_scheme" where
  "amo_minu_w = amo_w min"

definition amo_maxu_w :: "u64 \<Rightarrow> u32 \<Rightarrow> 'z phys_scheme \<Rightarrow> u32 \<times> 'z phys_scheme" where
  "amo_maxu_w = amo_w max"

definition amo_swap_w :: "u64 \<Rightarrow> u32 \<Rightarrow> 'z phys_scheme \<Rightarrow> u32 \<times> 'z phys_scheme" where
  "amo_swap_w = amo_w (\<lambda>r v. v)"

definition amo_add_w :: "u64 \<Rightarrow> u32 \<Rightarrow> 'z phys_scheme \<Rightarrow> u32 \<times> 'z phys_scheme" where
  "amo_add_w = amo_w (+)"

definition amo_and_w :: "u64 \<Rightarrow> u32 \<Rightarrow> 'z phys_scheme \<Rightarrow> u32 \<times> 'z phys_scheme" where
  "amo_and_w = amo_w (AND)"

definition amo_or_w :: "u64 \<Rightarrow> u32 \<Rightarrow> 'z phys_scheme \<Rightarrow> u32 \<times> 'z phys_scheme" where
  "amo_or_w = amo_w (OR)"

definition amo_xor_w :: "u64 \<Rightarrow> u32 \<Rightarrow> 'z phys_scheme \<Rightarrow> u32 \<times> 'z phys_scheme" where
  "amo_xor_w = amo_w (XOR)"

text \<open>The signed pair takes an \<open>int32_t\<close>: a C int.\<close>

definition amo_min_w :: "u64 \<Rightarrow> c_int \<Rightarrow> 'z phys_scheme \<Rightarrow> u32 \<times> 'z phys_scheme" where
  "amo_min_w addr val = amo_w (\<lambda>r v. if sint r \<le> sint v then r else v) addr (word_of_int val)"

definition amo_max_w :: "u64 \<Rightarrow> c_int \<Rightarrow> 'z phys_scheme \<Rightarrow> u32 \<times> 'z phys_scheme" where
  "amo_max_w addr val = amo_w (\<lambda>r v. if sint v \<le> sint r then r else v) addr (word_of_int val)"

definition lr_d :: "u64 \<Rightarrow> 'z amach_scheme \<Rightarrow> u64 \<times> 'z amach_scheme" where
  "lr_d addr s = (mem s addr, s\<lparr>resv := Some addr\<rparr>)"

definition sc_d :: "u64 \<Rightarrow> u64 \<Rightarrow> 'z amach_scheme \<Rightarrow> u64 \<times> 'z amach_scheme" where
  "sc_d addr val s =
     (let s' = s\<lparr>resv := None, sc_spurious := (\<lambda>n. sc_spurious s (Suc n))\<rparr>
      in if resv s = Some addr \<and> \<not> sc_spurious s 0 then (0, st64 addr val s') else (1, s'))"

definition lr_d_aq :: "u64 \<Rightarrow> 'z amach_scheme \<Rightarrow> u64 \<times> 'z amach_scheme" where
  "lr_d_aq = lr_d"

definition sc_d_rl :: "u64 \<Rightarrow> u64 \<Rightarrow> 'z amach_scheme \<Rightarrow> u64 \<times> 'z amach_scheme" where
  "sc_d_rl = sc_d"

partial_function (option) cas_loop :: "u64 \<Rightarrow> u64 \<Rightarrow> u64 \<Rightarrow> 'z amach_scheme \<Rightarrow> (u64 \<times> 'z amach_scheme) option" where
  "cas_loop addr expected desired s =
     (case lr_d_aq addr s of (old, s1) \<Rightarrow>
        if old \<noteq> expected then Some (old, s1)
        else (case sc_d_rl addr desired s1 of (sc_result, s2) \<Rightarrow>
                if sc_result \<noteq> 0 then cas_loop addr expected desired s2 else Some (old, s2)))"

definition cas_d :: "u64 \<Rightarrow> u64 \<Rightarrow> u64 \<Rightarrow> 'z amach_scheme \<Rightarrow> (c_int \<times> 'z amach_scheme) option" where
  "cas_d addr expected desired s =
     map_option (\<lambda>(old, s'). (if old = expected then 1 else 0, s')) (cas_loop addr expected desired s)"

section \<open>Half words\<close>

lemma half_shift: "8 * unat (a AND 4 :: u64) = (if bit a 2 then 32 else 0)"
proof -
  have "a AND 4 = (if bit a 2 then 4 else 0)"
  proof (rule bit_word_eqI)
    fix n have "(4 :: u64) = 2 ^ 2" by simp
    then have "bit (4 :: u64) n \<longleftrightarrow> n = 2" by (simp only: bit_exp_iff possible_bit_word) auto
    then show "bit (a AND 4) n = bit (if bit a 2 then 4 else 0 :: u64) n" by (auto simp: bit_and_iff)
  qed
  then show ?thesis by simp
qed

lemma ld32_st32:
  "ld32 (st32 a v s) a = v"
  "a AND NOT 7 = b AND NOT 7 \<Longrightarrow> bit a 2 \<noteq> bit b 2 \<Longrightarrow> ld32 (st32 a v s) b = ld32 s b"
  "a AND NOT 7 \<noteq> b AND NOT 7 \<Longrightarrow> ld32 (st32 a v s) b = ld32 s b"
proof -
  show "ld32 (st32 a v s) a = v"
    unfolding ld32_def st32_def Let_def half_shift mem_st64 fun_upd_same
    by (rule bit_word_eqI) (auto simp: bit_simps)
  show "ld32 (st32 a v s) b = ld32 s b" if "a AND NOT 7 = b AND NOT 7" "bit a 2 \<noteq> bit b 2"
    unfolding ld32_def st32_def Let_def half_shift mem_st64 that(1) fun_upd_same
    by (rule bit_word_eqI) (use that(2) in \<open>auto simp: bit_simps dest: bit_imp_le_length\<close>)
  show "a AND NOT 7 \<noteq> b AND NOT 7 \<Longrightarrow> ld32 (st32 a v s) b = ld32 s b"
    by (simp add: ld32_def st32_def Let_def)
qed

text \<open>At the start of a page the half word is the lower half of its word.\<close>

lemma page_word:
  assumes "page_aligned a"
  shows "a AND NOT 7 = a" "\<not> bit a 2"
proof -
  have m: "(7 :: u64) = mask 3" by (simp add: mask_eq_exp_minus_1)
  show "a AND NOT 7 = a"
    unfolding m by (rule bit_word_eqI) (use page_aligned_bit [OF assms] in \<open>auto simp: bit_simps\<close>)
  show "\<not> bit a 2" using page_aligned_bit [OF assms, of 2] by simp
qed

lemma st32_page: "page_aligned a \<Longrightarrow> st32 a v s = st64 a ((mem s a AND NOT (mask 32)) OR ucast v) s"
  using page_word [of a] by (simp add: st32_def half_shift)

lemma ld32_low: "page_aligned a \<Longrightarrow> ld32 s a = ucast (mem s a)"
  using page_word [of a] by (simp add: ld32_def half_shift)

lemma ld32_page: "page_aligned a \<Longrightarrow> mem s a = mem s' a \<Longrightarrow> ld32 s a = ld32 s' a"
  by (simp add: ld32_low)


section \<open>Properties\<close>

text \<open>
  The 32-bit AMOs work on half of a memory word: each returns the old 32-bit value, leaves its
  operation's result in the addressed half and every other aligned half word, the neighbour in
  the same 64-bit word included, as it was.
\<close>

theorem amo_w_isolated:
  assumes "(op, f) \<in> {(amo_swap_w, \<lambda>r v. v), (amo_add_w, (+)), (amo_and_w, (AND)), (amo_or_w, (OR)), (amo_xor_w, (XOR)),
    (amo_minu_w, min), (amo_maxu_w, max)}"
  shows "fst (op a v s) = ld32 s a \<and> ld32 (snd (op a v s)) a = f (ld32 s a) v \<and>
    (\<forall>b. (b AND NOT 7, bit b 2) \<noteq> (a AND NOT 7, bit a 2) \<longrightarrow> ld32 (snd (op a v s)) b = ld32 s b)"
proof -
  have "op = amo_w f"
    using assms by (auto simp: amo_swap_w_def amo_add_w_def amo_and_w_def amo_or_w_def amo_xor_w_def amo_minu_w_def amo_maxu_w_def)
  moreover have "ld32 (st32 a x s) b = ld32 s b" if "(b AND NOT 7, bit b 2) \<noteq> (a AND NOT 7, bit a 2)" for x b
    using ld32_st32(2,3) [of a b x s] that by (cases "a AND NOT 7 = b AND NOT 7") auto
  ultimately show ?thesis by (simp add: amo_w_def ld32_st32(1))
qed

text \<open>
  The comparing AMOs keep the right extreme: the signed pairs store the minimum and maximum as
  signed values, for the 32-bit pair with the \<open>int32_t\<close> operand read as a 32-bit value, the
  unsigned pair as unsigned values; all return the old value.
\<close>

theorem amo_extremes:
  "fst (amo_min_d a v s) = mem s a \<and> sint (mem (snd (amo_min_d a v s)) a) = min (sint (mem s a)) (sint v) \<and>
   fst (amo_max_d a v s) = mem s a \<and> sint (mem (snd (amo_max_d a v s)) a) = max (sint (mem s a)) (sint v) \<and>
   fst (amo_minu_d a v s) = mem s a \<and> uint (mem (snd (amo_minu_d a v s)) a) = min (uint (mem s a)) (uint v) \<and>
   fst (amo_maxu_d a v s) = mem s a \<and> uint (mem (snd (amo_maxu_d a v s)) a) = max (uint (mem s a)) (uint v) \<and>
   sint (ld32 (snd (amo_min_w a n s)) a) = min (sint (ld32 s a)) (wrap32 n) \<and>
   sint (ld32 (snd (amo_max_w a n s)) a) = max (sint (ld32 s a)) (wrap32 n)"
proof -
  have n: "sint (word_of_int n :: u32) = wrap32 n" unfolding sint_sbintrunc' by (simp add: wrap32_def)
  show ?thesis
    unfolding amo_min_d_def amo_max_d_def amo_minu_d_def amo_maxu_d_def amo_min_w_def amo_max_w_def amo_d_def amo_w_def
      fst_conv snd_conv mem_st64 fun_upd_same ld32_st32(1)
    using n by (auto simp: min_def max_def word_le_def)
qed

lemma cas_loop_step:
  "cas_loop addr e d s =
    (if mem s addr \<noteq> e then Some (mem s addr, s\<lparr>resv := Some addr\<rparr>)
     else if sc_spurious s 0 then cas_loop addr e d (s\<lparr>resv := None, sc_spurious := (\<lambda>n. sc_spurious s (Suc n))\<rparr>)
     else Some (e, st64 addr d (s\<lparr>resv := None, sc_spurious := (\<lambda>n. sc_spurious s (Suc n))\<rparr>)))"
  by (subst cas_loop.simps) (auto simp: lr_d_aq_def sc_d_rl_def lr_d_def sc_d_def Let_def)

lemma cas_loop_total:
  assumes "\<not> sc_spurious s n"
  shows "\<exists>s'. cas_loop addr e d s = Some (mem s addr, s') \<and>
    mem s' = (if mem s addr = e then (mem s)(addr := d) else mem s)"
  using assms
proof (induction n arbitrary: s)
  case 0
  then show ?case by (subst cas_loop_step) auto
next
  case (Suc n)
  let ?s = "s\<lparr>resv := None, sc_spurious := (\<lambda>n. sc_spurious s (Suc n))\<rparr>"
  show ?case
  proof (cases "mem s addr = e \<and> sc_spurious s 0")
    case True
    with Suc.IH [of ?s] Suc.prems show ?thesis by (subst cas_loop_step) (auto simp: fun_upd_def)
  next
    case False
    then show ?thesis by (subst cas_loop_step) auto
  qed
qed

text \<open>
  C29. Compare-and-swap returns, whenever some later store-conditional succeeds, and does what its
  comment says: 1 and the desired value stored if the word had the expected value, 0 and memory
  unchanged otherwise.
\<close>

theorem cas_d_correct:
  assumes "\<not> sc_spurious s n"
  shows "\<exists>s'. cas_d addr e d s = Some (if mem s addr = e then 1 else 0, s') \<and>
    mem s' = (if mem s addr = e then (mem s)(addr := d) else mem s)"
  using cas_loop_total [OF assms, of addr e d] by (auto simp: cas_d_def)

section \<open>Witnesses\<close>

definition demo_am :: amach where
  "demo_am = \<lparr>mem = (\<lambda>a. if a = 0x80002000 then 0x1122334455667788 else 0), resv = None, sc_spurious = (\<lambda>n. n < 2)\<rparr>"

theorem amo_w_isolated_witness:
  "fst (amo_add_w 0x80002000 1 demo_am) = 0x55667788 \<and> ld32 (snd (amo_add_w 0x80002000 1 demo_am)) 0x80002000 = 0x55667789 \<and>
   ld32 (snd (amo_add_w 0x80002000 1 demo_am)) 0x80002004 = 0x11223344"
proof -
  have "ld32 demo_am 0x80002000 = 0x55667788" "ld32 demo_am 0x80002004 = 0x11223344"
    by (simp_all add: ld32_def demo_am_def)
  moreover have "bit (0x80002004 :: u64) 2 \<and> \<not> bit (0x80002000 :: u64) 2" by simp
  ultimately show ?thesis
    using amo_w_isolated [of amo_add_w "(+)" "0x80002000" 1 demo_am] by auto
qed

theorem cas_d_correct_witness:
  "\<exists>s'. cas_d 0x80002000 0x1122334455667788 7 demo_am = Some (1, s') \<and> mem s' 0x80002000 = 7"
proof -
  have "\<not> sc_spurious demo_am 2" by (simp add: demo_am_def)
  from cas_d_correct [OF this, of "0x80002000" "0x1122334455667788" 7] show ?thesis by (auto simp: demo_am_def)
qed

end
