(* ===== verification/BareAccess.thy ===== *)
theory BareAccess
  imports STrap Table_Entry Atomics
begin

text \<open>
  The hart on which a bare-metal test program runs, and a program logic for it. An access of the program goes
  through the translation that \<open>satp\<close> selects, from the tables in memory or from a cached entry; a fault is taken by the
  runtime's S-mode vector and handler, and the access is retried or skipped as the handler decided. The runtime's
  own accesses, to the tables and the trap frame, are to identity-mapped memory and act on it directly.
\<close>

section \<open>Accesses\<close>

text \<open>
  \<open>tlb_pick k\<close> says which cached entry the \<open>k\<close>-th access uses, if it holds one for the address: an arbitrary function
  stands for every replacement policy. \<open>svadu\<close> says whether the hardware updates the A and D bits.
\<close>

record program = machine +
  svadu :: bool
  tlb_pick :: "nat \<Rightarrow> (u64 \<times> nat \<times> u64) option"
  naccess :: nat

definition mmu_view :: "'z program_scheme \<Rightarrow> mmu_ctl" where
  "mmu_view s = \<lparr>ctl_sum = bit (csr_mstatus (cpu s)) 18, ctl_mxr = bit (csr_mstatus (cpu s)) 19, ctl_svadu = svadu s\<rparr>"

definition sv39_on :: "'z machine_scheme \<Rightarrow> bool" where
  "sv39_on s \<longleftrightarrow> drop_bit 60 (csr_satp (cpu s)) = 8"

definition leaf_for :: "access \<Rightarrow> u64 \<Rightarrow> 'z program_scheme \<Rightarrow> (nat \<times> u64) option" where
  "leaf_for acc va s =
     (let walk = sv39_walk (mem s) 2 (satp_root s) va
      in case tlb_pick s (naccess s) of
           None \<Rightarrow> walk
         | Some (v, l, e) \<Rightarrow>
             if (v, l, e) \<in> tlb (cpu s) \<and> same_block l v va \<and> \<not> (svadu s \<and> needs_ad acc e) then Some (l, e) else walk)"

definition hart_step :: "access \<Rightarrow> u64 \<Rightarrow> 'z program_scheme \<Rightarrow> u64 option \<times> 'z program_scheme" where
  "hart_step acc va s =
     (if \<not> sv39_on s then (Some va, s)
      else let leaf = leaf_for acc va s; s1 = s\<lparr>naccess := Suc (naccess s)\<rparr>
      in case Option.bind leaf (\<lambda>(l, e). entry_xlat (mmu_view s) acc va l e) of
           None \<Rightarrow> (None, s1)
         | Some pa \<Rightarrow> (case the leaf of (l, e) \<Rightarrow>
             if needs_ad acc e
             then (Some pa, st64 (snd (stop_at (mem s) 2 (satp_root s) va)) (set_ad acc e)
                     (s1\<lparr>cpu := (cpu s)\<lparr>tlb := insert (va, l, set_ad acc e) (tlb (cpu s))\<rparr>\<rparr>))
             else (Some pa, s1\<lparr>cpu := (cpu s)\<lparr>tlb := insert (va, l, e) (tlb (cpu s))\<rparr>\<rparr>)))"

text \<open>
  An access with its faults: the physical address, or \<open>None\<close> when the handler has resumed behind the instruction; the
  whole is \<open>None\<close> when the access is retried for ever.
\<close>

partial_function (option) hart_access ::
    "access \<Rightarrow> u64 \<Rightarrow> 'z program_scheme \<Rightarrow> (u64 option \<times> 'z program_scheme) run option" where
  "hart_access acc va s =
     (case hart_step acc va s of
        (Some pa, s1) \<Rightarrow> Some (Ret (Some pa, s1))
      | (None, s1) \<Rightarrow>
          (case s_take (fault_cause acc) va s1 of
             Ret s2 \<Rightarrow> if pc (cpu s2) = pc (cpu s1) then hart_access acc va s2 else Some (Ret (None, s2))
           | Halt s2 \<Rightarrow> Some (Halt (None, s2))
           | Hang \<Rightarrow> Some Hang))"

definition vaccess ::
    "access \<Rightarrow> u64 \<Rightarrow> (u64 option \<Rightarrow> 'z program_scheme \<Rightarrow> 'z program_scheme run) \<Rightarrow> 'z program_scheme \<Rightarrow> 'z program_scheme run" where
  "vaccess acc va k s =
     (case hart_access acc va s of
        None \<Rightarrow> Hang
      | Some r \<Rightarrow> (case r of Ret (pa, s') \<Rightarrow> k pa s' | Halt (_, s') \<Rightarrow> Halt s' | Hang \<Rightarrow> Hang))"

text \<open>A load that was skipped leaves its register as it was.\<close>

definition vload :: "u64 \<Rightarrow> (u64 \<Rightarrow> 'z program_scheme \<Rightarrow> 'z program_scheme run) \<Rightarrow> 'z program_scheme \<Rightarrow> 'z program_scheme run" where
  "vload va k = vaccess Load va (\<lambda>pa s. case pa of None \<Rightarrow> k (junk (cpu s) 10) s | Some pa \<Rightarrow> k (mem s pa) s)"

definition vstore :: "u64 \<Rightarrow> u64 \<Rightarrow> 'z program_scheme \<Rightarrow> 'z program_scheme run" where
  "vstore va v = vaccess Store va (\<lambda>pa s. case pa of None \<Rightarrow> Ret s | Some pa \<Rightarrow> Ret (st64 pa v s))"

definition vstore32 :: "u64 \<Rightarrow> u32 \<Rightarrow> 'z program_scheme \<Rightarrow> 'z program_scheme run" where
  "vstore32 va v = vaccess Store va (\<lambda>pa s. case pa of None \<Rightarrow> Ret s | Some pa \<Rightarrow> Ret (st32 pa v s))"

text \<open>A call: the program counter moves to the function, and back when the instruction found there is \<open>ret\<close>; of other
  instructions nothing is known.\<close>

definition set_pc :: "u64 \<Rightarrow> 'z machine_scheme \<Rightarrow> 'z machine_scheme" where
  "set_pc a = on_cpu (\<lambda>h. h\<lparr>pc := a\<rparr>)"

definition vcall :: "u64 \<Rightarrow> 'z program_scheme \<Rightarrow> 'z program_scheme run" where
  "vcall va s = vaccess Fetch va
     (\<lambda>pa s'. case pa of None \<Rightarrow> Hang
        | Some pa \<Rightarrow> if ld32 s' pa = RET_INSN then Ret (set_pc (pc (cpu s)) s') else Hang) (set_pc va s)"

section \<open>The deciding entry\<close>

definition entry_of :: "'z machine_scheme \<Rightarrow> u64 \<Rightarrow> nat \<times> u64" where
  "entry_of s va = (case stop_at (mem s) 2 (satp_root s) va of (n, a) \<Rightarrow> (n, mem s a))"

lemma pt_ok_wf: "pt_ok root s \<Longrightarrow> \<exists>lv. wf_tables lv (pool_tables s) root (mem s)"
  by (auto simp: pt_ok_def pool.tables_ok_def)

lemma entry_of_stop: "entry_of s va = (n, e) \<longleftrightarrow> (\<exists>a. stop_at (mem s) 2 (satp_root s) va = (n, a) \<and> mem s a = e)"
  by (cases "stop_at (mem s) 2 (satp_root s) va") (simp add: entry_of_def)

lemma walk_entry_of:
  assumes "pt_ok (satp_root s) s" "entry_of s va = (n, e)"
  shows "sv39_walk (mem s) 2 (satp_root s) va = (if pte_valid e \<and> pte_is_leaf e then Some (n, e) else None)"
    and "addr_space c (satp_root s) s acc va = entry_xlat c acc va n e"
proof -
  from pt_ok_wf [OF assms(1)] obtain lv where wf: "wf_tables lv (pool_tables s) (satp_root s) (mem s)" by blast
  from assms(2) obtain a where a: "stop_at (mem s) 2 (satp_root s) va = (n, a)" "mem s a = e"
    by (auto simp: entry_of_stop)
  show "sv39_walk (mem s) 2 (satp_root s) va = (if pte_valid e \<and> pte_is_leaf e then Some (n, e) else None)"
    using walk_stop_at [OF wf wf_root [OF wf] a(1)] a(2) by simp
  show "addr_space c (satp_root s) s acc va = entry_xlat c acc va n e"
    using translate_stop_at [OF wf a(1)] a(2) by (simp add: addr_space_def)
qed

lemma entry_of_block:
  assumes "entry_of s va = (n, e)" "same_block n va va'"
  shows "entry_of s va' = (n, e)"
proof -
  from assms(1) obtain a where a: "stop_at (mem s) 2 (satp_root s) va = (n, a)" "mem s a = e" by (auto simp: entry_of_stop)
  have "stop_at (mem s) 2 (satp_root s) va' = (n, a)"
    by (rule stop_at_block [OF a(1)]) (use assms(2) in \<open>simp add: same_block_def\<close>)
  with a(2) show ?thesis by (auto simp: entry_of_stop)
qed

lemma same_block_trans: "same_block n a b \<Longrightarrow> same_block n b c \<Longrightarrow> same_block n a c"
  by (simp add: same_block_def)

text \<open>The software walk finds it.\<close>

lemma pt_walk_stop:
  assumes "stop_at (mem s) 2 root va = (n, a)"
  shows "pt_walk root va s = (int n, a)"
  using assms by (auto simp: pt_walk_eq Let_def numeral_2_eq_2 split: if_splits)

section \<open>Cached translations\<close>

text \<open>The cache agrees with the tables on the addresses \<open>A\<close>, whatever \<open>sstatus\<close> allows.\<close>

definition coherent :: "u64 set \<Rightarrow> 'z program_scheme \<Rightarrow> bool" where
  "coherent A s \<longleftrightarrow> (\<forall>(v, l, e) \<in> tlb (cpu s). \<forall>va \<in> A. \<forall>c acc. ctl_svadu c = svadu s \<longrightarrow> same_block l v va \<longrightarrow>
     entry_xlat c acc va l e = addr_space c (satp_root s) s acc va)"

lemma coherentD:
  assumes "coherent A s" "(v, l, e) \<in> tlb (cpu s)" "same_block l v va" "va \<in> A"
  shows "entry_xlat (mmu_view s) acc va l e = addr_space (mmu_view s) (satp_root s) s acc va"
proof -
  have "ctl_svadu (mmu_view s) = svadu s" by (simp add: mmu_view_def)
  with assms show ?thesis unfolding coherent_def by blast
qed

lemma needs_ad_svadu: "entry_xlat c acc va l e = Some pa \<Longrightarrow> needs_ad acc e \<Longrightarrow> ctl_svadu c"
  by (auto simp: entry_xlat_def leaf_xlat_def pte_ad_ok_def needs_ad_def split: if_splits)

text \<open>The entry an access uses: translation as the tables say, and no A or D update from a cached entry.\<close>

lemma leaf_for_cases:
  assumes "pt_ok (satp_root s) s" "entry_of s va = (n, e)" "coherent A s" "va \<in> A"
  shows "Option.bind (leaf_for acc va s) (\<lambda>(l, e). entry_xlat (mmu_view s) acc va l e) = entry_xlat (mmu_view s) acc va n e"
    and "leaf_for acc va s = Some (l, e') \<Longrightarrow> entry_xlat (mmu_view s) acc va l e' = Some pa \<Longrightarrow>
      (l, e') = (n, e) \<or> \<not> needs_ad acc e' \<and> (\<exists>v. (v, l, e') \<in> tlb (cpu s) \<and> same_block l v va)"
proof -
  note w = walk_entry_of [OF assms(1,2)]
  have bw: "Option.bind (sv39_walk (mem s) 2 (satp_root s) va) (\<lambda>(l, e). entry_xlat (mmu_view s) acc va l e) = entry_xlat (mmu_view s) acc va n e"
    by (auto simp: w(1) entry_xlat_def)
  show "Option.bind (leaf_for acc va s) (\<lambda>(l, e). entry_xlat (mmu_view s) acc va l e) = entry_xlat (mmu_view s) acc va n e"
    using bw w(2) [of "mmu_view s" acc] coherentD [OF assms(3) _ _ assms(4), of _ _ _ acc]
    by (auto simp: leaf_for_def Let_def split: option.splits if_splits)
  assume l: "leaf_for acc va s = Some (l, e')" "entry_xlat (mmu_view s) acc va l e' = Some pa"
  show "(l, e') = (n, e) \<or> \<not> needs_ad acc e' \<and> (\<exists>v. (v, l, e') \<in> tlb (cpu s) \<and> same_block l v va)"
    using l w(1) needs_ad_svadu [OF l(2)]
    by (auto simp: leaf_for_def Let_def mmu_view_def split: option.splits if_splits)
qed

abbreviation cached_more :: "u64 \<times> nat \<times> u64 \<Rightarrow> 'z program_scheme \<Rightarrow> 'z program_scheme" where
  "cached_more x s \<equiv> s\<lparr>naccess := Suc (naccess s), cpu := (cpu s)\<lparr>tlb := insert x (tlb (cpu s))\<rparr>\<rparr>"

lemma view_simps [simp]:
  "mmu_view (s\<lparr>naccess := n\<rparr>) = mmu_view s" "mmu_view (s\<lparr>mem := m\<rparr>) = mmu_view s" "mmu_view (s\<lparr>dev := d\<rparr>) = mmu_view s"
  "mmu_view (s\<lparr>g_trap := t\<rparr>) = mmu_view s" "mmu_view (s\<lparr>cpu := (cpu s)\<lparr>tlb := T\<rparr>\<rparr>) = mmu_view s"
  "satp_root (s\<lparr>naccess := n\<rparr>) = satp_root s" "satp_root (s\<lparr>mem := m\<rparr>) = satp_root s" "satp_root (s\<lparr>dev := d\<rparr>) = satp_root s"
  "satp_root (s\<lparr>g_trap := t\<rparr>) = satp_root s" "satp_root (s\<lparr>cpu := (cpu s)\<lparr>tlb := T\<rparr>\<rparr>) = satp_root s"
  "mmu_view (st64 a v s) = mmu_view s" "satp_root (st64 a v s) = satp_root s" "cpu (st64 a v s) = cpu s"
  by (simp_all add: mmu_view_def satp_root_def st64_def)

lemma addr_space_mem: "mem s = mem t \<Longrightarrow> addr_space c root s acc va = addr_space c root t acc va"
  by (simp add: addr_space_def)

lemma coherent_insert:
  assumes "pt_ok (satp_root s) s" "entry_of s va = (n, e)" "coherent A s"
    and "(l, e') = (n, e) \<or> (\<exists>v. (v, l, e') \<in> tlb (cpu s) \<and> same_block l v va)"
  shows "coherent A (cached_more (va, l, e') s)"
proof -
  have new: "entry_xlat c acc va' l e' = addr_space c (satp_root s) s acc va'"
    if "va' \<in> A" "same_block l va va'" "ctl_svadu c = svadu s" for c acc va'
    using assms(4)
  proof
    assume "(l, e') = (n, e)"
    with walk_entry_of(2) [OF assms(1) entry_of_block [OF assms(2)]] that show ?thesis by simp
  next
    assume "\<exists>v. (v, l, e') \<in> tlb (cpu s) \<and> same_block l v va"
    with that assms(3) same_block_trans show ?thesis unfolding coherent_def by blast
  qed
  moreover have "satp_root (cached_more (va, l, e') s) = satp_root s"
    "addr_space c r (cached_more (va, l, e') s) = addr_space c r s" for c r
    by (simp_all add: satp_root_def addr_space_def fun_eq_iff)
  ultimately show ?thesis using assms(3) unfolding coherent_def by auto
qed

lemma step_fault:
  assumes "sv39_on s" "pt_ok (satp_root s) s" "entry_of s va = (n, e)" "coherent A s" "va \<in> A"
    "entry_xlat (mmu_view s) acc va n e = None"
  shows "hart_step acc va s = (None, s\<lparr>naccess := Suc (naccess s)\<rparr>)"
  using assms(1,6) leaf_for_cases(1) [OF assms(2-5), of acc] by (simp add: hart_step_def Let_def)

lemma step_hit:
  assumes "sv39_on s" "pt_ok (satp_root s) s" "entry_of s va = (n, e)" "coherent A s" "va \<in> A"
    "entry_xlat (mmu_view s) acc va n e = Some pa"
  obtains l e' where "hart_step acc va s = (Some pa, cached_more (va, l, e') s)" "coherent A (cached_more (va, l, e') s)"
    "\<not> needs_ad acc e'"
  | "needs_ad acc e" "hart_step acc va s = (Some pa, st64 (snd (stop_at (mem s) 2 (satp_root s) va)) (set_ad acc e)
       (cached_more (va, n, set_ad acc e) s))"
proof -
  note lf = leaf_for_cases [OF assms(2-5), of acc]
  from lf(1) assms(6) obtain l e' where l: "leaf_for acc va s = Some (l, e')" "entry_xlat (mmu_view s) acc va l e' = Some pa"
    by (cases "leaf_for acc va s") auto
  note alt = lf(2) [OF l]
  have "coherent A (cached_more (va, l, e') s)" by (rule coherent_insert [OF assms(2-4)]) (use alt in blast)
  with l alt assms(1) that(1) [of l e'] that(2) show thesis
    by (cases "needs_ad acc e'") (auto simp: hart_step_def Let_def)
qed

section \<open>Where things lie\<close>

text \<open>The linker script puts the code at the start of the SRAM, then the tables and the stacks, all in the first megabyte; the
  tests use the second one, below the HTIF words, and look at the first word.\<close>

definition layout_ok :: "'z machine_scheme \<Rightarrow> bool" where
  "layout_ok s \<longleftrightarrow> 0x80000000 < unat (pt_pool s) \<and> unat (pt_pool s) + 0x8000 + 256 \<le> unat (gpr (cpu s) 2) \<and>
     unat (gpr (cpu s) 2) \<le> 0x80100000"

definition free_word :: "u64 \<Rightarrow> bool" where
  "free_word a \<longleftrightarrow> unat a = 0x80000000 \<or> 0x80100000 \<le> unat a \<and> unat a < 0x801FF000"

lemma table_word_range:
  assumes "pool_ok s" "a \<in> table_words (pool_tables s)"
  shows "unat (pt_pool s) \<le> unat a \<and> unat a < unat (pt_pool s) + 0x8000"
proof -
  from assms(2) obtain k i where "k < nat (pt_pool_next_page s)" and i: "i < 512" and a: "a = slot (pool_page s k) i"
    by (auto simp: table_words_def pool_tables_def)
  then have k: "k < 8" using assms(1) by (auto simp: pool_ok_def PT_POOL_PAGES_def)
  have u: "int (unat w) = uint w" for w :: u64 by simp
  have "uint (pool_page s k) = uint (pt_pool s) + 4096 * int k" using uint_pool_page [OF assms(1)] k by (simp add: PT_POOL_PAGES_def)
  then have p: "unat (pool_page s k) = unat (pt_pool s) + 4096 * k"
    using u [of "pool_page s k"] u [of "pt_pool s"] by linarith
  have "uint (pt_pool s) + 32768 \<le> 72057594037927936" using assms(1) by (simp add: pool_ok_def PT_POOL_PAGES_def)
  then have b: "unat (pt_pool s) + 32768 \<le> 72057594037927936" using u [of "pt_pool s"] by linarith
  have i': "unat i < 512" using i by (simp add: word_less_nat_alt)
  have "unat a = unat (pool_page s k) + 8 * unat i" unfolding a by (rule unat_slot) (use p b k i' in simp)
  with p k i' show ?thesis by simp
qed

lemma frame_word_range:
  assumes "layout_ok s" "a \<in> frame_words (s_frame s) 31"
  shows "unat (gpr (cpu s) 2) \<le> unat a + 256 \<and> unat a < unat (gpr (cpu s) 2)"
proof -
  from assms(2) obtain i where i: "i < 31" and a: "a = slot (s_frame s) (of_nat i)" by (auto simp: frame_words_def)
  have sp: "256 \<le> unat (gpr (cpu s) 2)" "unat (gpr (cpu s) 2) \<le> 0x80100000" using assms(1) by (auto simp: layout_ok_def)
  then have f: "unat (s_frame s) = unat (gpr (cpu s) 2) - 256" unfolding s_frame_def by (subst unat_sub) (simp_all add: word_le_nat_alt)
  have i': "unat (of_nat i :: u64) = i" using i by (simp add: unat_of_nat)
  have "unat a = unat (s_frame s) + 8 * i" unfolding a using unat_slot [of "s_frame s" "of_nat i"] f sp i i' by simp
  with f sp i show ?thesis by simp
qed

lemma apart:
  assumes "layout_ok s" "pool_ok s"
  shows "frame_words (s_frame s) 31 \<inter> table_words (pool_tables s) = {}"
    and "free_word a \<Longrightarrow> a \<notin> table_words (pool_tables s)" and "free_word a \<Longrightarrow> a \<notin> frame_words (s_frame s) 31"
  using assms(1) table_word_range [OF assms(2)] frame_word_range [OF assms(1)]
  by (fastforce simp: layout_ok_def free_word_def)+

text \<open>The tests map pages in the lower half of the fourth gigabyte and superpages in the upper half.\<close>

definition page_va :: "u64 \<Rightarrow> bool" where
  "page_va va \<longleftrightarrow> page_aligned va \<and> drop_bit 38 va = 0 \<and> vpn_ix 2 va = 3 \<and> vpn_ix 1 va < 256"

lemma page_va_eq:
  assumes "page_va va" "page_va va'" "same_block 0 va va'"
  shows "va = va'"
proof (rule bit_word_eqI)
  fix n :: nat
  consider "n < 12" | "38 \<le> n" | "12 \<le> n" "n < 39" by linarith
  then show "bit va n = bit va' n"
  proof cases
    case 1
    then show ?thesis using assms(1,2) page_aligned_bit by (auto simp: page_va_def)
  next
    case 2
    then show ?thesis using assms(1,2) drop_bit_0_bit by (auto simp: page_va_def)
  next
    case 3
    define l where "l = (n - 12) div 9"
    have l: "l \<le> 2" "n = 12 + 9 * l + (n - 12) mod 9" "(n - 12) mod 9 < 9" using 3 by (auto simp: l_def)
    have "vpn_ix l va = vpn_ix l va'" using assms(3) l(1) by (simp add: same_block_def)
    with bit_vpn_ix [of l va "(n - 12) mod 9"] bit_vpn_ix [of l va' "(n - 12) mod 9"] l show ?thesis by metis
  qed
qed

lemma page_va_canonical: "page_va va \<Longrightarrow> va_canonical va"
  by (simp add: page_va_def canonical_low)

section \<open>What a program knows of its machine\<close>

text \<open>
  The abstract view: the root, the addresses on which the cache can be trusted, the level-0 entries of the pages in the fourth
  gigabyte, the level-1 entries of the superpages (by their index), data words of the test area, free table pages, the trap record. \<open>viewed V s\<close>: the machine is as the view says,
  its tables are well formed and hold the identity map of the SRAM.
\<close>

record view =
  v_ctl :: mmu_ctl
  v_root :: u64
  v_trusted :: "u64 set"
  v_pages :: "u64 \<rightharpoonup> u64"
  v_big :: "u64 \<rightharpoonup> u64"
  v_data :: "u64 \<rightharpoonup> u64"
  v_room :: nat
  v_trap :: trap_state

abbreviation trap_seen :: "'z machine_scheme \<Rightarrow> trap_state" where
  "trap_seen s \<equiv> (g_trap s)\<lparr>sepc := 0\<rparr>"

definition sram_leaf :: u64 where
  "sram_leaf = pte_leaf SRAM_BASE (PTE_R OR PTE_W OR PTE_X)"

definition tables_as :: "view \<Rightarrow> 'z machine_scheme \<Rightarrow> bool" where
  "tables_as V s \<longleftrightarrow> pt_ok (v_root V) s \<and> v_room V \<le> pool_room s \<and>
     (\<forall>va. vpn_ix 2 va = 3 \<and> vpn_ix 1 va < 256 \<longrightarrow> path_clear (mem s) 2 2 (v_root V) va) \<and>
     (\<forall>va e. vpn_ix 2 va = 3 \<and> v_big V (vpn_ix 1 va) = Some e \<longrightarrow> 256 \<le> vpn_ix 1 va \<and> bit e 0 \<and> entry_of s va = (1, e)) \<and> mem s (slot (v_root V) 2) = sram_leaf \<and>
     (\<forall>va e. v_pages V va = Some e \<longrightarrow> page_va va \<and> entry_of s va = (0, e))"

definition hart_as :: "view \<Rightarrow> 'z program_scheme \<Rightarrow> bool" where
  "hart_as V s \<longleftrightarrow> dev_ok (dev s) \<and> prv (cpu s) = S_mode \<and> sv39_on s \<and> satp_root s = v_root V \<and> mmu_view s = v_ctl V \<and>
     layout_ok s \<and> trap_seen s = (v_trap V)\<lparr>sepc := 0\<rparr>"

definition viewed :: "view \<Rightarrow> 'z program_scheme \<Rightarrow> bool" where
  "viewed V s \<longleftrightarrow> hart_as V s \<and> tables_as V s \<and> coherent (v_trusted V) s \<and>
     (\<forall>a v. v_data V a = Some v \<longrightarrow> free_word a \<and> mem s a = v)"

lemma viewedD:
  assumes "viewed V s"
  shows "dev_ok (dev s)" "prv (cpu s) = S_mode" "sv39_on s" "satp_root s = v_root V" "mmu_view s = v_ctl V" "layout_ok s"
    "trap_seen s = (v_trap V)\<lparr>sepc := 0\<rparr>" "pt_ok (v_root V) s" "pool_ok s" "coherent (v_trusted V) s" "0 < pt_pool s"
    "v_room V \<le> pool_room s" "mem s (slot (v_root V) 2) = sram_leaf"
    "v_data V a = Some v \<Longrightarrow> free_word a \<and> mem s a = v" "v_pages V va = Some e \<Longrightarrow> page_va va \<and> entry_of s va = (0, e)"
    "vpn_ix 2 va = 3 \<Longrightarrow> vpn_ix 1 va < 256 \<Longrightarrow> path_clear (mem s) 2 2 (v_root V) va"
    "vpn_ix 2 va = 3 \<Longrightarrow> v_big V (vpn_ix 1 va) = Some e \<Longrightarrow> 256 \<le> vpn_ix 1 va \<and> bit e 0 \<and> entry_of s va = (1, e)"
proof -
  show "pool_ok s" using assms by (auto simp: viewed_def tables_as_def pt_ok_def pool.tables_ok_def)
  have "0x80000000 < unat (pt_pool s)" using assms by (simp add: viewed_def hart_as_def layout_ok_def)
  then have "0 < unat (pt_pool s)" by linarith
  then show "0 < pt_pool s" by (simp add: word_less_nat_alt)
qed (use assms in \<open>simp_all add: viewed_def hart_as_def tables_as_def\<close>)

text \<open>Tables with the same words mean the same.\<close>

lemma agree_tables:
  fixes s s' :: "'z machine_scheme"
  assumes ok: "pt_ok (satp_root s) s" and f: "pt_pool s' = pt_pool s" "pt_pool_next_page s' = pt_pool_next_page s" "satp_root s' = satp_root s"
    and eq: "\<And>a. a \<in> table_words (pool_tables s) \<Longrightarrow> mem s' a = mem s a"
  shows "pt_ok (satp_root s) s'" "pool_room s' = pool_room s" "entry_of s' va = entry_of s va"
    "path_clear (mem s') 2 2 (satp_root s) va = path_clear (mem s) 2 2 (satp_root s) va"
    "mem s' (slot (satp_root s) 2) = mem s (slot (satp_root s) 2)"
    "addr_space c (satp_root s) s' acc va = addr_space c (satp_root s) s acc va"
proof -
  from pt_ok_wf [OF ok] obtain lv where wf: "wf_tables lv (pool_tables s) (satp_root s) (mem s)" by blast
  note rt = wf_root [OF wf]
  show "pt_ok (satp_root s) s'" by (rule agree_pt_ok [OF ok eq f(1,2)])
  show "pool_room s' = pool_room s" using f by (simp add: pool_room_def)
  show "path_clear (mem s') 2 2 (satp_root s) va = path_clear (mem s) 2 2 (satp_root s) va"
    using path_outside [OF wf eq rt order_refl] by blast
  show "mem s' (slot (satp_root s) 2) = mem s (slot (satp_root s) 2)" using eq [of "slot (satp_root s) 2"] rt(1) by simp
  show "addr_space c (satp_root s) s' acc va = addr_space c (satp_root s) s acc va"
    using agree_walks(1) [OF ok eq] by (simp add: addr_space_def)
  obtain n a where a: "stop_at (mem s) 2 (satp_root s) va = (n, a)" by fastforce
  from stop_at_slot [OF wf rt a] have "mem s' a = mem s a" using eq [of a] by auto
  then show "entry_of s' va = entry_of s va" using stop_at_outside [OF wf eq, of va] by (simp add: entry_of_def f(3) a)
qed

lemma viewed_keep:
  fixes s s' :: "'z program_scheme"
  assumes v: "viewed V s" and h: "hart_as (V\<lparr>v_trap := t\<rparr>) s'" and f: "pt_pool s' = pt_pool s" "pt_pool_next_page s' = pt_pool_next_page s"
    and tl: "tlb (cpu s') \<subseteq> tlb (cpu s)" and eq: "\<And>a. a \<in> table_words (pool_tables s) \<Longrightarrow> mem s' a = mem s a"
    and d: "\<And>a v. D a = Some v \<Longrightarrow> free_word a \<and> mem s' a = v"
  shows "viewed (V\<lparr>v_trap := t, v_data := D\<rparr>) s'"
proof -
  note vd = viewedD [OF v]
  have r: "satp_root s' = satp_root s" "mmu_view s' = mmu_view s" using h vd(4,5) by (simp_all add: hart_as_def)
  note ag = agree_tables [of s s', OF _ f r(1) eq, unfolded vd(4), OF vd(8)]
  have "tables_as V s'" using v ag by (simp add: viewed_def tables_as_def)
  moreover have sp: "addr_space c (v_root V) s' acc va = addr_space c (v_root V) s acc va" for c acc va using ag(6) by simp
  have "svadu s' = svadu s" using arg_cong [OF r(2), of ctl_svadu] by (simp add: mmu_view_def)
  then have "coherent (v_trusted V) s'" using vd(10) tl unfolding coherent_def r(1) vd(4) sp by simp blast
  ultimately show ?thesis using h d by (simp add: viewed_def tables_as_def hart_as_def)
qed

section \<open>Steps of a program\<close>

lemma view_same [simp]: "V\<lparr>v_trap := v_trap V, v_data := v_data V\<rparr> = V" "V\<lparr>v_trap := v_trap V\<rparr> = V"
  by simp_all

lemma viewed_dev: "viewed V s \<Longrightarrow> dev_ok d \<Longrightarrow> viewed V (s\<lparr>dev := d\<rparr>)"
  using viewed_keep [of V s "v_trap V" "s\<lparr>dev := d\<rparr>" "v_data V"]
  by (simp add: viewed_def hart_as_def sv39_on_def layout_ok_def)

lemma viewed_trap:
  "viewed V s \<Longrightarrow> (f (g_trap s))\<lparr>sepc := 0\<rparr> = t\<lparr>sepc := 0\<rparr> \<Longrightarrow> viewed (V\<lparr>v_trap := t\<rparr>) (upd_trap f s)"
  using viewed_keep [of V s t "upd_trap f s" "v_data V"]
  by (simp add: viewed_def hart_as_def sv39_on_def layout_ok_def upd_trap_def)

lemma viewed_pc: "viewed V s \<Longrightarrow> viewed V (set_pc a s)"
  using viewed_keep [of V s "v_trap V" "set_pc a s" "v_data V"]
  by (simp add: viewed_def hart_as_def sv39_on_def layout_ok_def set_pc_def on_cpu_def mmu_view_def satp_root_def)

lemma viewed_data:
  assumes "viewed V s" "free_word a"
  shows "viewed (V\<lparr>v_data := (v_data V)(a \<mapsto> v)\<rparr>) (st64 a v s)"
  using viewed_keep [of V s "v_trap V" "st64 a v s" "(v_data V)(a \<mapsto> v)"] assms viewedD [OF assms(1)]
    apart(2) [OF viewedD(6,9) [OF assms(1)]]
  by (fastforce simp: hart_as_def sv39_on_def layout_ok_def st64_def split: if_splits)

lemma viewed_fence: "viewed V s \<Longrightarrow> viewed (V\<lparr>v_trusted := UNIV\<rparr>) (sfence_vma_all s)"
proof -
  assume v: "viewed V s"
  let ?s = "sfence_vma_all s"
  have "viewed V ?s"
    using viewed_keep [of V s "v_trap V" ?s "v_data V"] v
    by (simp add: viewed_def hart_as_def sv39_on_def layout_ok_def sfence_vma_all_def)
  moreover have "coherent UNIV ?s" by (simp add: coherent_def sfence_vma_all_def)
  ultimately show ?thesis by (simp add: viewed_def tables_as_def hart_as_def)
qed

lemma viewed_cached:
  assumes "viewed V s" "coherent (v_trusted V) (cached_more x s)"
  shows "viewed V (cached_more x s)"
proof -
  let ?s = "cached_more x s"
  have e: "mmu_view ?s = mmu_view s" "satp_root ?s = satp_root s" by (simp_all add: mmu_view_def satp_root_def)
  have "pt_ok r ?s = pt_ok r s" "pool_room ?s = pool_room s" "entry_of ?s va = entry_of s va" for r va
    using pt_ok_mem [of ?s s] by (simp_all add: pool_room_def entry_of_def e)
  with assms e show ?thesis
    by (simp add: viewed_def hart_as_def tables_as_def sv39_on_def layout_ok_def)
qed

text \<open>An access leaves the interrupt state of the hart and the counters of interrupts alone.\<close>

definition irq_kept :: "'z program_scheme \<Rightarrow> 'z program_scheme \<Rightarrow> bool" where
  "irq_kept s s' \<longleftrightarrow> csr_mhartid (cpu s') = csr_mhartid (cpu s) \<and> csr_mie (cpu s') = csr_mie (cpu s) \<and> csr_mip (cpu s') = csr_mip (cpu s) \<and>
     bit (csr_mstatus (cpu s')) 1 = bit (csr_mstatus (cpu s)) 1 \<and> gpr (cpu s') = gpr (cpu s) \<and>
     clint64 s' = clint64 s \<and> clint32 s' = clint32 s \<and>
     timer_irq_count (g_trap s') = timer_irq_count (g_trap s) \<and> soft_irq_count (g_trap s') = soft_irq_count (g_trap s) \<and>
     pt_pool s' = pt_pool s \<and> program.more s' = program.more s"

lemma viewed_hit_kept:
  assumes v: "viewed V s" and e: "entry_of s va = (n, e)" "va \<in> v_trusted V" "entry_xlat (v_ctl V) acc va n e = Some pa" "\<not> needs_ad acc e"
  obtains s' where "hart_access acc va s = Some (Ret (Some pa, s'))" "viewed V s'" "mem s' = mem s" "pc (cpu s') = pc (cpu s)"
    "irq_kept s s'"
proof -
  note vd = viewedD [OF v]
  obtain l e' where st: "hart_step acc va s = (Some pa, cached_more (va, l, e') s)" and c: "coherent (v_trusted V) (cached_more (va, l, e') s)"
    by (rule step_hit [OF vd(3) _ e(1) vd(10) e(2), of acc pa]) (use vd(4,5,8) e(3,4) in auto)
  have "hart_access acc va s = Some (Ret (Some pa, cached_more (va, l, e') s))"
    by (subst hart_access.simps) (simp add: st)
  with that [of "cached_more (va, l, e') s"] viewed_cached [OF v c] show thesis by (simp add: irq_kept_def)
qed

lemma viewed_hit:
  assumes "viewed V s" "entry_of s va = (n, e)" "va \<in> v_trusted V" "entry_xlat (v_ctl V) acc va n e = Some pa" "\<not> needs_ad acc e"
  obtains s' where "hart_access acc va s = Some (Ret (Some pa, s'))" "viewed V s'" "mem s' = mem s" "pc (cpu s') = pc (cpu s)"
  using viewed_hit_kept [OF assms] by blast

text \<open>Rewriting the entry of a page.\<close>

lemma rewrite_entry_of:
  assumes v: "viewed V s" and st: "stop_at (mem s) 2 (v_root V) va = (0, p)" and e': "\<not> is_branch e'"
  shows "entry_of (st64 p e' s) va' = (if same_block 0 va va' then (0, e') else entry_of s va')"
proof -
  note vd = viewedD [OF v]
  from pt_ok_wf [OF vd(8)] obtain lv where wf: "wf_tables lv (pool_tables s) (v_root V) (mem s)" by blast
  obtain n a where a: "stop_at (mem s) 2 (v_root V) va' = (n, a)" by fastforce
  then have st': "stop_at (mem (st64 p e' s)) 2 (v_root V) va' = (n, a)" using rewrite_keeps_stop [OF wf st e'] by simp
  show ?thesis
  proof (cases "same_block 0 va va'")
    case True
    have "stop_at (mem s) 2 (v_root V) va' = (0, p)" by (rule stop_at_block [OF st]) (use True in \<open>simp add: same_block_def\<close>)
    with a st' True show ?thesis by (simp add: entry_of_def vd(4))
  next
    case False
    then have "a \<noteq> p" using stop_at_same [OF wf st, of va' n] a by auto
    with a st' False show ?thesis by (simp add: entry_of_def vd(4))
  qed
qed

lemma rewrite_tables:
  assumes v: "viewed V s" and pg: "v_pages V va = Some e" and st: "stop_at (mem s) 2 (v_root V) va = (0, p)" and e': "\<not> is_branch e'"
  shows "tables_as (V\<lparr>v_pages := (v_pages V)(va \<mapsto> e')\<rparr>) (st64 p e' s)" "p \<in> table_words (pool_tables s)"
proof -
  note vd = viewedD [OF v]
  from pt_ok_wf [OF vd(8)] obtain lv where wf: "wf_tables lv (pool_tables s) (v_root V) (mem s)" by blast
  let ?s = "st64 p e' s"
  note rw = rewrite_stop_at [OF wf st e'] and rt = wf_root [OF wf]
  show "p \<in> table_words (pool_tables s)" by (rule rw(2))
  from stop_at_slot [OF wf rt st] obtain u where u: "u \<in> pool_tables s" "lv u = 0" "p = slot u (vpn_ix 0 va)" by blast
  have low: "n = 0" if "stop_at (mem s) 2 (v_root V) va' = (n, p)" for va' n
  proof -
    from stop_at_slot [OF wf rt that] obtain w where w: "w \<in> pool_tables s" "lv w = n" "p = slot w (vpn_ix n va')" by blast
    then have "w = u" using wf_slot_eq_iff [OF wf w(1) u(1) vpn_ix_less vpn_ix_less] u(3) by metis
    with w(2) u(2) show ?thesis by simp
  qed
  have clear: "path_clear (mem ?s) 2 2 (v_root V) va'" if i: "vpn_ix 2 va' = 3" "vpn_ix 1 va' < 256" for va'
  proof -
    obtain n a where a: "stop_at (mem s) 2 (v_root V) va' = (n, a)" by fastforce
    then have st': "stop_at (mem ?s) 2 (v_root V) va' = (n, a)" using rewrite_keeps_stop [OF wf st e'] by simp
    from vd(16) [OF i] path_clear_stop [OF _ a, of 2] path_clear_stop [OF _ st', of 2] low [of va' n] a show ?thesis by auto
  qed
  have "slot (v_root V) 2 \<noteq> p" using u wf_slot_eq_iff [OF wf rt(1) u(1) _ vpn_ix_less, of 2] rt(2) by auto
  then have sram: "mem ?s (slot (v_root V) 2) = sram_leaf" using vd(13) by simp
  have "page_va va' \<and> entry_of ?s va' = (0, x)" if "((v_pages V)(va \<mapsto> e')) va' = Some x" for va' x
    using that rewrite_entry_of [OF v st e', of va'] page_va_eq [of va va'] vd(15) [OF pg] vd(15) [of va' x] by (auto split: if_splits)
  moreover have "256 \<le> vpn_ix 1 va' \<and> bit x 0 \<and> entry_of ?s va' = (1, x)" if b: "vpn_ix 2 va' = 3" "v_big V (vpn_ix 1 va') = Some x" for va' x
    using vd(17) [OF b] rewrite_entry_of [OF v st e', of va'] entry_of_block [of s va 0 e va'] vd(15) [OF pg] by auto
  moreover have "pt_ok (v_root V) ?s"
    using rw(1) vd(9) unfolding pt_ok_def pool.tables_ok_def by (auto simp: pool.store_keeps)
  ultimately show "tables_as (V\<lparr>v_pages := (v_pages V)(va \<mapsto> e')\<rparr>) ?s"
    using clear sram vd(12) unfolding tables_as_def by (intro conjI allI impI) (auto simp: pool.store_keeps)
qed

text \<open>The cache stays trustworthy when the page is not cached, or the new entry translates alike.\<close>

lemma rewrite_coherent:
  assumes v: "viewed V s" and pg: "v_pages V va = Some e" and st: "stop_at (mem s) 2 (v_root V) va = (0, p)" and e': "\<not> is_branch e'"
    and tl: "(\<forall>(v, l, x) \<in> tlb (cpu s). \<not> same_block l v va) \<or> (\<forall>c acc va'. ctl_svadu c = ctl_svadu (v_ctl V) \<longrightarrow> entry_xlat c acc va' 0 e' = entry_xlat c acc va' 0 e)"
  shows "coherent (v_trusted V) (st64 p e' s)"
proof -
  note vd = viewedD [OF v]
  from pt_ok_wf [OF vd(8)] obtain lv where wf: "wf_tables lv (pool_tables s) (v_root V) (mem s)" by blast
  let ?s = "st64 p e' s"
  have sp: "addr_space c (v_root V) ?s acc va' =
      (if same_block 0 va va' then entry_xlat c acc va' 0 e' else addr_space c (v_root V) s acc va')" for c acc va'
    using rewrite_stop_at(4) [OF wf st e'] by (simp add: addr_space_def)
  have old: "same_block 0 va va' \<Longrightarrow> addr_space c (v_root V) s acc va' = entry_xlat c acc va' 0 e" for c acc va'
    using walk_entry_of(2) [of s va' 0 e c acc] entry_of_block [of s va 0 e va'] vd(15) [OF pg] vd(4,8) by simp
  have sv: "svadu ?s = svadu s" "svadu s = ctl_svadu (v_ctl V)" using arg_cong [OF vd(5), of ctl_svadu] by (simp_all add: mmu_view_def st64_def)
  have "addr_space c (v_root V) ?s acc va' = addr_space c (v_root V) s acc va'"
    if t: "(v, l, x) \<in> tlb (cpu s)" "same_block l v va'" "ctl_svadu c = ctl_svadu (v_ctl V)" for v l x c acc va'
    using tl
  proof
    assume "\<forall>(v, l, x) \<in> tlb (cpu s). \<not> same_block l v va"
    moreover have "same_block l v va" if "same_block 0 va va'" using that t(2) by (simp add: same_block_def)
    ultimately show ?thesis using sp [of c acc va'] t(1) by auto
  next
    assume "\<forall>c acc va'. ctl_svadu c = ctl_svadu (v_ctl V) \<longrightarrow> entry_xlat c acc va' 0 e' = entry_xlat c acc va' 0 e"
    then show ?thesis using sp [of c acc va'] old [of va' c acc] t(3) by auto
  qed
  moreover have "satp_root ?s = v_root V" "tlb (cpu ?s) = tlb (cpu s)" using vd(4) by simp_all
  ultimately show ?thesis using vd(10) unfolding coherent_def vd(4) sv by fastforce
qed

lemma viewed_rewrite:
  fixes s :: "'z program_scheme"
  assumes v: "viewed V s" and pg: "v_pages V va = Some e" and st: "stop_at (mem s) 2 (v_root V) va = (0, p)" and e': "\<not> is_branch e'"
    and tl: "(\<forall>(v, l, x) \<in> tlb (cpu s). \<not> same_block l v va) \<or> (\<forall>c acc va'. ctl_svadu c = ctl_svadu (v_ctl V) \<longrightarrow> entry_xlat c acc va' 0 e' = entry_xlat c acc va' 0 e)"
  shows "viewed (V\<lparr>v_pages := (v_pages V)(va \<mapsto> e')\<rparr>) (st64 p e' s)"
proof -
  note vd = viewedD [OF v] and rt = rewrite_tables [OF v pg st e']
  have "hart_as V (st64 p e' s)" using v by (simp add: viewed_def hart_as_def st64_def sv39_on_def layout_ok_def)
  moreover have "free_word a \<and> mem (st64 p e' s) a = x" if "v_data V a = Some x" for a x
    using vd(14) [OF that] apart(2) [OF vd(6,9), of a] rt(2) by auto
  ultimately show ?thesis
    using rt(1) rewrite_coherent [OF assms] by (simp add: viewed_def tables_as_def hart_as_def)
qed

text \<open>A page fault on a page of the view: the handler repairs the entry and the retried access succeeds.\<close>

lemma s_visited_simps [simp]:
  "gpr (s_visited c t r h) = gpr h" "prv (s_visited c t r h) = S_mode" "pc (s_visited c t r h) = r" "csr_satp (s_visited c t r h) = csr_satp h"
  "tlb (s_visited c t r h) = tlb h" "bit (csr_mstatus (s_visited c t r h)) 18 = bit (csr_mstatus h) 18"
  "bit (csr_mstatus (s_visited c t r h)) 19 = bit (csr_mstatus h) 19"
  by (simp_all add: s_visited_def)

lemma fixed_page_xlat:
  assumes "page_va va" "drop_bit 54 e = 0" "\<not> bit e 4"
  shows "entry_xlat c acc va 0 (fixed_pte (fault_cause acc) e) = Some (pte_target e)" "\<not> needs_ad acc (fixed_pte (fault_cause acc) e)"
proof -
  have "take_bit 12 va = 0" using assms(1) by (simp add: page_va_def page_aligned_def)
  with entry_xlat_fixed [OF assms(2) page_va_canonical [OF assms(1)] leaf_aligned_0, of c acc] assms(3)
  show "entry_xlat c acc va 0 (fixed_pte (fault_cause acc) e) = Some (pte_target e)" by simp
  show "\<not> needs_ad acc (fixed_pte (fault_cause acc) e)" by (simp add: needs_ad_def bit_fixed_pte)
qed

lemma log_trap_seen:
  "u\<lparr>sepc := 0\<rparr> = t\<lparr>sepc := 0\<rparr> \<Longrightarrow> (log_trap c a r u)\<lparr>sepc := 0\<rparr> = (log_trap c a 0 t)\<lparr>sepc := 0\<rparr>"
  by (cases u; cases t) (simp add: log_trap_def)

lemma viewed_fix_kept:
  assumes v: "viewed V s" and pg: "v_pages V va = Some e" and tr: "va \<in> v_trusted V" and no: "entry_xlat (v_ctl V) acc va 0 e = None"
    and act: "handler_action (v_trap V) \<noteq> 1" and e: "drop_bit 54 e = 0" "\<not> bit e 4"
  obtains s' where "hart_access acc va s = Some (Ret (Some (pte_target e), s'))" "pc (cpu s') = pc (cpu s)"
    "viewed (V\<lparr>v_trap := log_trap (fault_cause acc) va 0 (v_trap V), v_pages := (v_pages V)(va \<mapsto> fixed_pte (fault_cause acc) e)\<rparr>) s'"
    "irq_kept s s'"
proof -
  note vd = viewedD [OF v]
  let ?c = "fault_cause acc" and ?s1 = "s\<lparr>naccess := Suc (naccess s)\<rparr>" and ?t = "log_trap (fault_cause acc) va 0 (v_trap V)"
  have en: "entry_of s va = (0, e)" "page_va va" using vd(15) [OF pg] by simp_all
  from en(1) obtain p where p: "stop_at (mem s) 2 (v_root V) va = (0, p)" "mem s p = e" by (auto simp: entry_of_stop vd(4))
  have st: "hart_step acc va s = (None, ?s1)"
    by (rule step_fault [OF vd(3) _ en(1) vd(10) tr]) (use vd(4,5,8) no in simp_all)
  have act1: "handler_action (g_trap ?s1) \<noteq> 1" using act arg_cong [OF vd(7), of handler_action] by simp
  have ok1: "pt_ok (satp_root ?s1) ?s1" using vd(4,8) pt_ok_mem [of ?s1 s] by simp
  have w: "pt_walk (satp_root ?s1) va ?s1 = (0, p)" using pt_walk_stop [of ?s1] p(1) vd(4) by simp
  have fr: "frame_words (s_frame ?s1) 31 \<inter> table_words (pool_tables ?s1) = {}"
    using apart(1) [OF vd(6,9)] by (simp add: s_frame_def pool_tables_def pool_page_def)
  obtain m d where t: "s_take ?c va ?s1 = Ret (?s1\<lparr>mem := m(p := fixed_pte ?c (mem ?s1 p)), dev := d,
      cpu := s_visited ?c va (pc (cpu ?s1)) ((cpu ?s1)\<lparr>tlb := {(va', l, e) \<in> tlb (cpu ?s1). \<not> same_block l va' va}\<rparr>),
      g_trap := log_trap ?c va (pc (cpu ?s1)) (g_trap ?s1)\<rparr>)" (is "_ = Ret ?s2") and d: "dev_ok d"
    and m: "\<And>a. a \<notin> frame_words (s_frame ?s1) 31 \<Longrightarrow> m a = mem ?s1 a"
    by (rule page_fault_state [OF _ _ act1 ok1 _ w fr, of acc]) (use vd(1,2,11) in auto)
  let ?u = "?s2\<lparr>mem := m\<rparr>"
  have m': "a \<notin> frame_words (s_frame s) 31 \<Longrightarrow> m a = mem s a" for a using m by (simp add: s_frame_def)
  have mt: "m a = mem s a" if "a \<in> table_words (pool_tables s)" for a
    using that m' apart(1) [OF vd(6,9)] by blast
  have h: "hart_as (V\<lparr>v_trap := ?t\<rparr>) ?u"
    using v d log_trap_seen [OF vd(7), of ?c va "pc (cpu s)"]
    by (simp add: viewed_def hart_as_def sv39_on_def layout_ok_def mmu_view_def satp_root_def)
  have "viewed (V\<lparr>v_trap := ?t, v_data := v_data V\<rparr>) ?u"
    by (rule viewed_keep [OF v h]) (use mt m' vd(14) apart(3) [OF vd(6,9)] in auto)
  then have u: "viewed (V\<lparr>v_trap := ?t\<rparr>) ?u" by simp
  have "stop_at m 2 (v_root V) va = (0, p)"
    using pt_ok_wf [OF vd(8)] stop_at_outside [of _ "pool_tables s" "v_root V" "mem s" m va] mt p(1) by auto
  then have "viewed (V\<lparr>v_trap := ?t, v_pages := (v_pages V)(va \<mapsto> fixed_pte ?c e)\<rparr>) (st64 p (fixed_pte ?c e) ?u)"
    using viewed_rewrite [OF u, of va e p "fixed_pte ?c e"] pg fixed_pte_not_branch by simp
  moreover have "st64 p (fixed_pte ?c e) ?u = ?s2" by (rule program.equality) (simp_all add: st64_def p(2))
  ultimately have v2: "viewed (V\<lparr>v_trap := ?t, v_pages := (v_pages V)(va \<mapsto> fixed_pte ?c e)\<rparr>) ?s2" by (simp only:)
  have k: "irq_kept s ?s2" by (simp add: irq_kept_def s_visited_def log_trap_def)
  obtain s' where s': "hart_access acc va ?s2 = Some (Ret (Some (pte_target e), s'))"
    "viewed (V\<lparr>v_trap := ?t, v_pages := (v_pages V)(va \<mapsto> fixed_pte ?c e)\<rparr>) s'" "pc (cpu s') = pc (cpu ?s2)"
    "irq_kept ?s2 s'"
    by (rule viewed_hit_kept [OF v2, of va 0 "fixed_pte ?c e" acc "pte_target e"])
      (use viewedD(15) [OF v2, of va "fixed_pte ?c e"] tr fixed_page_xlat [OF en(2) e] in simp_all)
  have "hart_access acc va s = hart_access acc va ?s2"
    by (subst hart_access.simps) (simp add: st t)
  moreover have "irq_kept s s'" using k s'(4) by (simp add: irq_kept_def)
  ultimately show thesis using that [of s'] s'(1-3) by simp
qed

lemma viewed_fix:
  assumes "viewed V s" "v_pages V va = Some e" "va \<in> v_trusted V" "entry_xlat (v_ctl V) acc va 0 e = None"
    "handler_action (v_trap V) \<noteq> 1" "drop_bit 54 e = 0" "\<not> bit e 4"
  obtains s' where "hart_access acc va s = Some (Ret (Some (pte_target e), s'))" "pc (cpu s') = pc (cpu s)"
    "viewed (V\<lparr>v_trap := log_trap (fault_cause acc) va 0 (v_trap V), v_pages := (v_pages V)(va \<mapsto> fixed_pte (fault_cause acc) e)\<rparr>) s'"
  using viewed_fix_kept [OF assms] by blast

text \<open>A page fault in skip mode: the access is not made, nothing but the trap record changes.\<close>

lemma viewed_skip:
  assumes v: "viewed V s" and en: "entry_of s va = (n, e)" and tr: "va \<in> v_trusted V" and no: "entry_xlat (v_ctl V) acc va n e = None"
    and act: "handler_action (v_trap V) = 1" "acc \<noteq> Fetch"
  obtains s' where "hart_access acc va s = Some (Ret (None, s'))"
    "viewed (V\<lparr>v_trap := log_trap (fault_cause acc) va 0 (v_trap V)\<rparr>) s'"
proof -
  note vd = viewedD [OF v]
  let ?c = "fault_cause acc" and ?s1 = "s\<lparr>naccess := Suc (naccess s)\<rparr>" and ?t = "log_trap (fault_cause acc) va 0 (v_trap V)"
  have st: "hart_step acc va s = (None, ?s1)"
    by (rule step_fault [OF vd(3) _ en vd(10) tr]) (use vd(4,5,8) no in simp_all)
  have act1: "handler_action (g_trap ?s1) = 1" using act(1) arg_cong [OF vd(7), of handler_action] by simp
  obtain m d k where t: "s_take ?c va ?s1 = Ret (?s1\<lparr>mem := m, dev := d, cpu := s_visited ?c va (pc (cpu ?s1) + k) (cpu ?s1),
      g_trap := log_trap ?c va (pc (cpu ?s1)) (g_trap ?s1)\<rparr>)" (is "_ = Ret ?s2") and d: "dev_ok d"
    and m: "\<And>a. a \<notin> frame_words (s_frame ?s1) 31 \<Longrightarrow> m a = mem ?s1 a" and k: "k = 2 \<or> k = 4"
    by (rule page_skip_state [OF _ _ act1 act(2), of va]) (use vd(1,2) in auto)
  have m': "a \<notin> frame_words (s_frame s) 31 \<Longrightarrow> m a = mem s a" for a using m by (simp add: s_frame_def)
  have mt: "m a = mem s a" if "a \<in> table_words (pool_tables s)" for a
    using that m' apart(1) [OF vd(6,9)] by blast
  have h: "hart_as (V\<lparr>v_trap := ?t\<rparr>) ?s2"
    using v d log_trap_seen [OF vd(7), of ?c va "pc (cpu s)"]
    by (simp add: viewed_def hart_as_def sv39_on_def layout_ok_def mmu_view_def satp_root_def)
  have "viewed (V\<lparr>v_trap := ?t, v_data := v_data V\<rparr>) ?s2"
    by (rule viewed_keep [OF v h]) (use mt m' vd(14) apart(3) [OF vd(6,9)] in auto)
  moreover have "hart_access acc va s = Some (Ret (None, ?s2))"
    by (subst hart_access.simps) (use k in \<open>auto simp: st t\<close>)
  ultimately show thesis using that by simp
qed

end
