(* ===== verification/BareLogic.thy ===== *)
theory BareLogic
  imports BareAccess
begin

text \<open>
  A program logic for the bare-metal test programs: what mapping a page does to the view a program has of its
  machine, and rules for the statements the programs are made of. A triple promises that the statement returns.
\<close>

section \<open>Mapping a page\<close>

text \<open>The table functions touch nothing but memory and the pool counter.\<close>

definition pool_only :: "'z pts_scheme \<Rightarrow> 'z pts_scheme \<Rightarrow> bool" where
  "pool_only s s' \<longleftrightarrow> (\<exists>m n. s' = s\<lparr>mem := m, pt_pool_next_page := n\<rparr>)"

lemma pool_onlyD: "pool_only s s' \<Longrightarrow> pt_pool s' = pt_pool s \<and> pts.more s' = pts.more s"
  by (auto simp: pool_only_def)

lemma pool_onlyI: "pt_pool s' = pt_pool s \<Longrightarrow> pts.more s' = pts.more s \<Longrightarrow> pool_only s s'"
  unfolding pool_only_def by (intro exI [of _ "mem s'"] exI [of _ "pt_pool_next_page s'"] pts.equality) simp_all

lemma pool_only_refl [simp]: "pool_only s s"
  by (rule pool_onlyI) simp_all

lemma pool_only_trans: "pool_only s t \<Longrightarrow> pool_only t u \<Longrightarrow> pool_only s u"
  by (rule pool_onlyI) (simp_all add: pool_onlyD)

lemma pool_only_st64 [simp]: "pool_only s (st64 a v s)"
  by (rule pool_onlyI) (simp_all add: st64_def)

lemma pool_only_alloc: "pt_pool_alloc s = Some (p, s') \<Longrightarrow> pool_only s s'"
  by (rule pool_onlyI) (auto simp: pt_pool_alloc_def pt_alloc_page_def Let_def clear_words_eq split: if_splits)

lemma pool_only_descend: "descend pt_pool_alloc va k l t s = Some (u, s') \<Longrightarrow> pool_only s s'"
proof (induction k arbitrary: l t s)
  case (Suc k)
  then obtain s1 where e: "ensure_table pt_pool_alloc (slot t (vpn_ix l va)) s = Some s1"
    and d: "descend pt_pool_alloc va k (l - 1) (pte_target (mem s1 (slot t (vpn_ix l va)))) s1 = Some (u, s')"
    by (auto split: bind_splits)
  from e have "pool_only s s1"
    by (auto simp: ensure_table_def split: if_splits bind_splits intro: pool_only_trans [OF pool_only_alloc pool_only_st64])
  then show ?case using Suc.IH [OF d] by (rule pool_only_trans)
qed simp

lemma pool_only_map_at: "map_at pt_pool_alloc n root va e s = Some s' \<Longrightarrow> pool_only s s'"
  by (auto simp: map_at_def split: bind_splits intro: pool_only_trans [OF pool_only_descend pool_only_st64])

text \<open>How many tables a page needs, from what is already mapped.\<close>

definition tables_for :: "view \<Rightarrow> u64 \<Rightarrow> nat" where
  "tables_for V va =
     (if \<exists>va' \<in> dom (v_pages V). vpn_ix 1 va' = vpn_ix 1 va then 0 else if dom (v_pages V) \<noteq> {} then 1 else 2)"

lemma missing_one:
  assumes "stop_at m 2 root va' = (0, a)" "vpn_ix 2 va' = vpn_ix 2 va"
  shows "missing_tables m 2 2 root va \<le> 1"
proof -
  have "is_branch (m (slot root (vpn_ix 2 va)))" using assms by (auto simp: numeral_2_eq_2 Let_def split: if_splits)
  then have "bit (m (slot root (vpn_ix 2 va))) 0" by (simp add: is_branch_def)
  then show ?thesis using missing_tables_le [of m 1 1] by (simp add: numeral_2_eq_2 Let_def)
qed

lemma missing_tables_for:
  assumes v: "viewed V s" and va: "page_va va"
  shows "missing_tables (mem s) 2 2 (v_root V) va \<le> tables_for V va"
proof (cases "dom (v_pages V) = {}")
  case True
  then show ?thesis using missing_tables_le [of "mem s" 2 2 "v_root V" va] by (simp add: tables_for_def)
next
  case False
  have st: "\<exists>a. stop_at (mem s) 2 (v_root V) va' = (0, a)" "vpn_ix 2 va' = vpn_ix 2 va" if "va' \<in> dom (v_pages V)" for va'
    using that viewedD(15) [OF v, of va'] va by (auto simp: entry_of_stop viewedD(4) [OF v] page_va_def)
  show ?thesis
  proof (cases "\<exists>va' \<in> dom (v_pages V). vpn_ix 1 va' = vpn_ix 1 va")
    case True
    then obtain va' where va': "va' \<in> dom (v_pages V)" "vpn_ix 1 va' = vpn_ix 1 va" by blast
    from st(1) [OF this(1)] obtain a where a: "stop_at (mem s) 2 (v_root V) va' = (0, a)" by blast
    have "vpn_ix k va = vpn_ix k va'" if "k \<le> 2" "0 < k" for k
    proof -
      have "k = 1 \<or> k = 2" using that by linarith
      with st(2) [OF va'(1)] va'(2) show ?thesis by auto
    qed
    from missing_stop [of 2 va va', OF this a] show ?thesis by simp
  next
    case no: False
    from False obtain va' where "va' \<in> dom (v_pages V)" by blast
    from st [OF this] missing_one [of "mem s" "v_root V" va'] False no show ?thesis by (auto simp: tables_for_def)
  qed
qed

definition map_view :: "u64 \<Rightarrow> u64 \<Rightarrow> view \<Rightarrow> view" where
  "map_view va e V = V\<lparr>v_room := v_room V - tables_for V va, v_trusted := v_trusted V - {va'. same_block 0 va va'},
     v_pages := (v_pages V)(va \<mapsto> e)\<rparr>"

text \<open>Superpages outside the mapped block stay.\<close>

lemma big_kept:
  assumes v: "viewed V s" and ok: "pool.tables_ok lv (v_root V) s" and n: "n \<le> 2" and cl: "path_clear (mem s) (2 - n) 2 (v_root V) va"
    and m: "map_at pt_pool_alloc n (v_root V) va e s = Some s'" and b: "vpn_ix 2 va' = 3" "v_big V (vpn_ix 1 va') = Some x"
    and o: "vpn_ix 1 va \<noteq> vpn_ix 1 va'" "n \<le> 1" and root: "satp_root s' = v_root V"
  shows "256 \<le> vpn_ix 1 va' \<and> bit x 0 \<and> entry_of s' va' = (1, x)"
proof -
  note vd = viewedD(17) [OF v b]
  then obtain a where a: "stop_at (mem s) 2 (v_root V) va' = (1, a)" "mem s a = x"
    by (auto simp: entry_of_stop viewedD(4) [OF v])
  have "\<not> same_block n va va'" using o by (auto simp: same_block_def)
  with pool.map_at_keeps_stop [OF ok n cl m a(1)] a(2) vd root show ?thesis by (auto simp: entry_of_stop)
qed

lemma map_at_tables:
  assumes v: "viewed V s" and va: "page_va va" and e: "\<not> is_branch e"
    and m: "map_at pt_pool_alloc 0 (v_root V) va e s = Some s'" and root: "satp_root s' = v_root V"
  shows "tables_as (map_view va e V) s'"
proof -
  note vd = viewedD [OF v]
  have clear: "path_clear (mem s) 2 2 (v_root V) va" using vd(16) va by (simp add: page_va_def)
  from vd(8) obtain lv where ok: "pool.tables_ok lv (v_root V) s" by (auto simp: pt_ok_def)
  then have wf: "wf_tables lv (pool_tables s) (v_root V) (mem s)" by (simp add: pool.tables_ok_def)
  have c2: "path_clear (mem s) (2 - 0) 2 (v_root V) va" and le: "0 \<le> (2 :: nat)" using clear by simp_all
  obtain lv' u where en: "pool.tables_ok lv' (v_root V) s'" "u \<in> pool_tables s'" "lv' u = 0" "\<forall>x \<in> pool_tables s. lv' x = lv x"
    "pool_tables s \<subseteq> pool_tables s'" "stop_at (mem s') 2 (v_root V) va = (0, slot u (vpn_ix 0 va))" "mem s' (slot u (vpn_ix 0 va)) = e"
    "\<And>v j. v \<in> pool_tables s \<Longrightarrow> j < 512 \<Longrightarrow> bit (mem s (slot v j)) 0 \<Longrightarrow> slot v j \<noteq> slot u (vpn_ix 0 va) \<Longrightarrow>
       mem s' (slot v j) = mem s (slot v j)"
    using pool.map_at_end [OF ok le c2 e m] by metis
  from en(1) have wf': "wf_tables lv' (pool_tables s') (v_root V) (mem s')" by (simp add: pool.tables_ok_def)
  note rt = wf_root [OF wf] and rt' = wf_root [OF wf']
  have "slot (v_root V) 2 \<noteq> slot u (vpn_ix 0 va)"
    using wf_slot_eq_iff [OF wf' rt'(1) en(2) _ vpn_ix_less, of 2] rt'(2) en(3) by auto
  then have sram: "mem s' (slot (v_root V) 2) = sram_leaf"
    using en(8) [OF rt(1), of 2] vd(13) by (simp add: sram_leaf_def bit_pte_leaf)
  have room: "v_room V - tables_for V va \<le> pool_room s'"
    using pool.map_at_room [OF ok le c2 m] missing_tables_for [OF v va] vd(12) by simp
  have new: "entry_of s' va = (0, e)" using en(6,7) by (auto simp: entry_of_stop root)
  have "page_va va' \<and> entry_of s' va' = (0, x)" if x: "((v_pages V)(va \<mapsto> e)) va' = Some x" for va' x
  proof (cases "va' = va")
    case True
    with x new va show ?thesis by simp
  next
    case False
    then have pg: "page_va va'" "entry_of s va' = (0, x)" using x vd(15) [of va' x] by simp_all
    from pg(2) obtain b where b: "stop_at (mem s) 2 (v_root V) va' = (0, b)" "mem s b = x" by (auto simp: entry_of_stop vd(4))
    have "\<not> same_block 0 va va'" using page_va_eq [OF va pg(1)] False by auto
    from pool.map_at_low_frame [OF ok clear e m b(1) this] pool.map_at_keeps_page [OF ok clear e m b(1)] b(2) pg(1)
    show ?thesis by (auto simp: entry_of_stop root)
  qed
  moreover have "path_clear (mem s') 2 2 (v_root V) va'" if "vpn_ix 2 va' = 3" "vpn_ix 1 va' < 256" for va'
    using pool.map_at_path_clear [OF ok clear e m vd(16) [OF that]] .
  moreover have "256 \<le> vpn_ix 1 va' \<and> bit x 0 \<and> entry_of s' va' = (1, x)" if b: "vpn_ix 2 va' = 3" "v_big V (vpn_ix 1 va') = Some x" for va' x
    using big_kept [OF v ok le c2 m b] vd(17) [OF b] va root by (auto simp: page_va_def)
  ultimately show ?thesis using en(1) room sram unfolding tables_as_def map_view_def
    by (intro conjI allI impI) (auto simp: pt_ok_def)
qed

lemma viewed_map_at:
  fixes s :: "'z program_scheme"
  assumes v: "viewed V s" and va: "page_va va" and k: "tables_for V va \<le> v_room V" and e: "\<not> is_branch e"
  obtains s' where "map_at pt_pool_alloc 0 (v_root V) va e s = Some s'" "viewed (map_view va e V) s'"
proof -
  note vd = viewedD [OF v]
  have clear: "path_clear (mem s) 2 2 (v_root V) va" using vd(16) va by (simp add: page_va_def)
  from vd(8) obtain lv where ok: "pool.tables_ok lv (v_root V) s" by (auto simp: pt_ok_def)
  from pool.map_at_returns [OF ok, of 0 va e] clear missing_tables_for [OF v va] k vd(12)
  obtain s' where m: "map_at pt_pool_alloc 0 (v_root V) va e s = Some s'" by auto
  from pool_only_map_at [OF m] obtain mm n where s': "s' = s\<lparr>mem := mm, pt_pool_next_page := n\<rparr>" by (auto simp: pool_only_def)
  have f: "satp_root s' = v_root V" "mmu_view s' = v_ctl V" "tlb (cpu s') = tlb (cpu s)" "layout_ok s'" "svadu s' = svadu s"
    using vd(4,5,6) by (simp_all add: s' satp_root_def mmu_view_def layout_ok_def)
  note t = pool.map_at_translate [OF ok _ _ e m]
  note tabs = map_at_tables [OF v va e m f(1)]
  then have po: "pool_ok s'" by (auto simp: tables_as_def map_view_def pt_ok_def pool.tables_ok_def)
  have h: "hart_as (map_view va e V) s'"
    using v f by (simp add: viewed_def hart_as_def map_view_def s' sv39_on_def)
  have "addr_space c (v_root V) s' acc va' = addr_space c (v_root V) s acc va'" if "\<not> same_block 0 va va'" for c acc va'
    using t(4) clear that by (simp add: addr_space_def)
  then have "coherent (v_trusted V - {va'. same_block 0 va va'}) s'"
    using vd(10) f(5) unfolding coherent_def f(1,3) vd(4) by fastforce
  moreover have "free_word a \<and> mem s' a = x" if "v_data V a = Some x" for a x
    using vd(14) [OF that] t(5) [of a] clear apart(2) [OF f(4) po, of a] by auto
  ultimately have "viewed (map_view va e V) s'" using h tabs by (simp add: viewed_def map_view_def)
  with m that show thesis by blast
qed

text \<open>Mapping a superpage of the upper half: at most the table of the gigabyte is missing.\<close>

definition map_big_view :: "u64 \<Rightarrow> u64 \<Rightarrow> view \<Rightarrow> view" where
  "map_big_view va e V = V\<lparr>v_room := v_room V - 1, v_trusted := v_trusted V - {va'. same_block 1 va va'},
     v_big := (v_big V)(vpn_ix 1 va \<mapsto> e)\<rparr>"

lemma one_step_clear:
  assumes "viewed V s" "vpn_ix 2 va = 3"
  shows "path_clear (mem s) 1 2 (v_root V) va"
proof -
  have v: "vpn_ix 2 0xC0000000 = 3" "vpn_ix 1 0xC0000000 < 256" by (simp_all add: vpn_ix_def flip: mask9_u64)
  from viewedD(16) [OF assms(1) v] v(1) assms(2) show ?thesis by (simp add: numeral_2_eq_2 Let_def)
qed

lemma big_tables:
  assumes v: "viewed V s" and va: "vpn_ix 2 va = 3" "256 \<le> vpn_ix 1 va" and e: "\<not> is_branch e" "bit e 0"
    and m: "map_at pt_pool_alloc 1 (v_root V) va e s = Some s'" and root: "satp_root s' = v_root V"
  shows "tables_as (map_big_view va e V) s'"
proof -
  note vd = viewedD [OF v]
  from vd(8) obtain lv where ok: "pool.tables_ok lv (v_root V) s" by (auto simp: pt_ok_def)
  then have wf: "wf_tables lv (pool_tables s) (v_root V) (mem s)" by (simp add: pool.tables_ok_def)
  have cl: "path_clear (mem s) (2 - 1) 2 (v_root V) va" and le: "1 \<le> (2 :: nat)" using one_step_clear [OF v va(1)] by simp_all
  obtain lv' u where en: "pool.tables_ok lv' (v_root V) s'" "u \<in> pool_tables s'" "lv' u = 1"
    "stop_at (mem s') 2 (v_root V) va = (1, slot u (vpn_ix 1 va))" "mem s' (slot u (vpn_ix 1 va)) = e"
    "\<And>v j. v \<in> pool_tables s \<Longrightarrow> j < 512 \<Longrightarrow> bit (mem s (slot v j)) 0 \<Longrightarrow> slot v j \<noteq> slot u (vpn_ix 1 va) \<Longrightarrow>
       mem s' (slot v j) = mem s (slot v j)"
    using pool.map_at_end [OF ok le cl e(1) m] by metis
  from en(1) have wf': "wf_tables lv' (pool_tables s') (v_root V) (mem s')" by (simp add: pool.tables_ok_def)
  note rt = wf_root [OF wf] and rt' = wf_root [OF wf']
  have "slot (v_root V) 2 \<noteq> slot u (vpn_ix 1 va)"
    using wf_slot_eq_iff [OF wf' rt'(1) en(2) _ vpn_ix_less, of 2] rt'(2) en(3) by auto
  then have sram: "mem s' (slot (v_root V) 2) = sram_leaf"
    using en(6) [OF rt(1), of 2] vd(13) by (simp add: sram_leaf_def bit_pte_leaf)
  have room: "v_room V - 1 \<le> pool_room s'"
    using pool.map_at_room [OF ok le cl m] missing_tables_le [of "mem s" 1 2 "v_root V" va] vd(12) by simp
  have new: "entry_of s' va' = (1, e)" if "vpn_ix 2 va' = 3" "vpn_ix 1 va' = vpn_ix 1 va" for va'
  proof (rule entry_of_block [of _ va])
    show "entry_of s' va = (1, e)" using en(4,5) by (auto simp: entry_of_stop root)
    show "same_block 1 va va'" using that va(1) unfolding same_region_iff by simp
  qed
  have low: "\<not> same_block 1 va va'" if "vpn_ix 1 va' < 256" for va' using that va(2) unfolding same_region_iff by auto
  have pages: "page_va va' \<and> entry_of s' va' = (0, x)" if x: "v_pages V va' = Some x" for va' x
  proof -
    have pg: "page_va va'" "entry_of s va' = (0, x)" using vd(15) [OF x] by simp_all
    from pg(2) obtain b where b: "stop_at (mem s) 2 (v_root V) va' = (0, b)" "mem s b = x" by (auto simp: entry_of_stop vd(4))
    from pool.map_at_keeps_stop [OF ok le cl m b(1) _ low] b(2) pg(1) show ?thesis by (auto simp: entry_of_stop root page_va_def)
  qed
  have clear: "path_clear (mem s') 2 2 (v_root V) va'" if "vpn_ix 2 va' = 3" "vpn_ix 1 va' < 256" for va'
    by (rule pool.map_at_path_other [OF ok le cl m vd(16) [OF that] low [OF that(2)]])
  have "256 \<le> vpn_ix 1 va' \<and> bit x 0 \<and> entry_of s' va' = (1, x)"
    if b: "vpn_ix 2 va' = 3" "((v_big V)(vpn_ix 1 va \<mapsto> e)) (vpn_ix 1 va') = Some x" for va' x
    using b new [OF b(1)] e(2) va(2) big_kept [OF v ok le cl m b(1), of x] root by (auto split: if_splits)
  then show ?thesis using en(1) room sram pages clear unfolding tables_as_def map_big_view_def
    by (intro conjI allI impI) (auto simp: pt_ok_def)
qed

lemma viewed_map_big:
  fixes s :: "'z program_scheme"
  assumes v: "viewed V s" and va: "vpn_ix 2 va = 3" "256 \<le> vpn_ix 1 va" and k: "1 \<le> v_room V" and e: "\<not> is_branch e" "bit e 0"
  obtains s' where "map_at pt_pool_alloc 1 (v_root V) va e s = Some s'" "viewed (map_big_view va e V) s'"
proof -
  note vd = viewedD [OF v]
  from vd(8) obtain lv where ok: "pool.tables_ok lv (v_root V) s" by (auto simp: pt_ok_def)
  have cl: "path_clear (mem s) (2 - 1) 2 (v_root V) va" and le: "1 \<le> (2 :: nat)" using one_step_clear [OF v va(1)] by simp_all
  have "missing_tables (mem s) (2 - 1) 2 (v_root V) va \<le> pool_room s"
    using missing_tables_le [of "mem s" 1 2 "v_root V" va] k vd(12) by simp
  from pool.map_at_returns [OF ok le cl this] obtain s' where m: "map_at pt_pool_alloc 1 (v_root V) va e s = Some s'" by blast
  from pool_only_map_at [OF m] obtain mm n where s': "s' = s\<lparr>mem := mm, pt_pool_next_page := n\<rparr>" by (auto simp: pool_only_def)
  have f: "satp_root s' = v_root V" "mmu_view s' = v_ctl V" "tlb (cpu s') = tlb (cpu s)" "layout_ok s'" "svadu s' = svadu s"
    using vd(4,5,6) by (simp_all add: s' satp_root_def mmu_view_def layout_ok_def)
  note t = pool.map_at_translate [OF ok le cl e(1) m]
  note tabs = big_tables [OF v va e m f(1)]
  then have po: "pool_ok s'" by (auto simp: tables_as_def map_big_view_def pt_ok_def pool.tables_ok_def)
  have h: "hart_as (map_big_view va e V) s'"
    using v f by (simp add: viewed_def hart_as_def map_big_view_def s' sv39_on_def)
  have "addr_space c (v_root V) s' acc va' = addr_space c (v_root V) s acc va'" if "\<not> same_block 1 va va'" for c acc va'
    using t(4) that by (simp add: addr_space_def)
  then have "coherent (v_trusted V - {va'. same_block 1 va va'}) s'"
    using vd(10) f(5) unfolding coherent_def f(1,3) vd(4) by fastforce
  moreover have "free_word a \<and> mem s' a = x" if "v_data V a = Some x" for a x
    using vd(14) [OF that] t(5) [of a] apart(2) [OF f(4) po, of a] by auto
  ultimately have "viewed (map_big_view va e V) s'" using h tabs by (simp add: viewed_def map_big_view_def)
  with m that show thesis by blast
qed

section \<open>Rules\<close>

definition does :: "view \<Rightarrow> ('z program_scheme \<Rightarrow> 'z program_scheme run) \<Rightarrow> view \<Rightarrow> bool" where
  "does V f W \<longleftrightarrow> (\<forall>s. viewed V s \<longrightarrow> (\<exists>s'. f s = Ret s' \<and> viewed W s'))"

lemma doesI: "(\<And>s. viewed V s \<Longrightarrow> \<exists>s'. f s = Ret s' \<and> viewed W s') \<Longrightarrow> does V f W"
  by (simp add: does_def)

lemma does_run: "does V f W \<Longrightarrow> viewed V s \<Longrightarrow> \<exists>s'. f s = Ret s' \<and> dev_ok (dev s')"
  unfolding does_def using viewedD(1) by blast

lemma does_Nil: "does V (block []) V"
  by (simp add: does_def)

lemma does_Cons: "does V f U \<Longrightarrow> does U (block fs) W \<Longrightarrow> does V (block (f # fs)) W"
  unfolding does_def by (fastforce simp: block_Cons)

lemma does_one: "does V f W \<Longrightarrow> does V (block [f]) W"
  by (simp add: does_def)

lemma does_loop:
  assumes "\<And>i. i < n \<Longrightarrow> does (P i) (f i) (P (Suc i))"
  shows "does (P 0) (block (map f [0..<n])) (P n)"
proof (rule doesI)
  fix s assume v: "viewed (P 0) (s :: 'a program_scheme)"
  have "\<exists>s'. block (map f [0..<n]) s = Ret s' \<and> viewed (P n) s'"
    by (rule block_upto [of n "\<lambda>i. viewed (P i)"]) (use assms v in \<open>simp_all add: does_def\<close>)
  then show "\<exists>s'. block (map f [0..<n]) s = Ret s' \<and> viewed (P n) s'" .
qed

text \<open>A view may be forgotten in part.\<close>

definition weaker :: "view \<Rightarrow> view \<Rightarrow> bool" where
  "weaker W V \<longleftrightarrow> v_ctl W = v_ctl V \<and> v_root W = v_root V \<and> v_trap W = v_trap V \<and> v_big W = v_big V \<and> v_trusted W \<subseteq> v_trusted V \<and>
     v_pages W \<subseteq>\<^sub>m v_pages V \<and> v_data W \<subseteq>\<^sub>m v_data V \<and> v_room W \<le> v_room V"

lemma map_leD: "m \<subseteq>\<^sub>m n \<Longrightarrow> m x = Some y \<Longrightarrow> n x = Some y"
  unfolding map_le_def by (metis domI)

lemma viewed_weaker: "viewed V s \<Longrightarrow> weaker W V \<Longrightarrow> viewed W s"
  unfolding viewed_def hart_as_def tables_as_def coherent_def weaker_def
  by (auto dest: map_leD subsetD simp: subset_iff)

lemma does_weaken: "does V f U \<Longrightarrow> weaker W U \<Longrightarrow> does V f W"
  unfolding does_def using viewed_weaker by blast

lemma does_pre: "does U f W \<Longrightarrow> weaker U V \<Longrightarrow> does V f W"
  unfolding does_def using viewed_weaker by blast

text \<open>Output and assertions.\<close>

lemma does_emit:
  assumes "\<And>s. dev_ok (dev s) \<Longrightarrow> f s = Ret (say (g s) s)"
  shows "does V f V"
proof (rule doesI)
  fix s assume v: "viewed V (s :: 'a program_scheme)"
  note d = viewedD(1) [OF v]
  have "dev_ok (console.emit (g s) (dev s))" using d by simp
  from viewed_dev [OF v this] assms [OF d] show "\<exists>s'. f s = Ret s' \<and> viewed V s'" by blast
qed

lemma does_say: "does V (uart_puts x) V" "does V (uart_putc ch) V" "does V (\<lambda>s. uart_put_hex (h s) s) V"
    "does V (uart_put_hex w) V" "does V (uart_put_dec n) V"
  by (rule does_emit, erule uart_puts_say uart_putc_say uart_put_hex_say uart_put_dec_say)+

lemma does_log: "does V (TEST_LOG x) V"
  unfolding TEST_LOG_def by (rule does_Cons, rule does_say)+ (rule does_Nil)

lemma does_assert_eq: "v = w \<Longrightarrow> does V (ASSERT_EQ v w msg code) V"
  by (auto intro!: doesI simp: ASSERT_EQ_def)

lemma does_assert_trap:
  assumes "\<And>t. f (t\<lparr>sepc := 0\<rparr>) = f t" "f (v_trap V) = w"
  shows "does V (\<lambda>s. ASSERT_EQ (f (g_trap s)) w msg code s) V"
proof (rule doesI)
  fix s assume v: "viewed V (s :: 'a program_scheme)"
  have "f (g_trap s) = w" using arg_cong [OF viewedD(7) [OF v], of f] assms by simp
  with v show "\<exists>s'. ASSERT_EQ (f (g_trap s)) w msg code s = Ret s' \<and> viewed V s'" by (simp add: ASSERT_EQ_def)
qed

lemma does_trap:
  assumes "\<And>t. (f (t\<lparr>sepc := 0\<rparr>))\<lparr>sepc := 0\<rparr> = (f t)\<lparr>sepc := 0\<rparr>"
  shows "does V (exec (upd_trap f)) (V\<lparr>v_trap := f (v_trap V)\<rparr>)"
proof (rule doesI)
  fix s assume v: "viewed V (s :: 'a program_scheme)"
  have "(f (g_trap s))\<lparr>sepc := 0\<rparr> = (f (v_trap V))\<lparr>sepc := 0\<rparr>" using arg_cong [OF viewedD(7) [OF v], of f] assms by metis
  with viewed_trap [OF v] show "\<exists>s'. exec (upd_trap f) s = Ret s' \<and> viewed (V\<lparr>v_trap := f (v_trap V)\<rparr>) s'" by auto
qed

lemma does_fence: "does V (exec sfence_vma_all) (V\<lparr>v_trusted := UNIV\<rparr>)"
  using viewed_fence by (auto intro!: doesI)

text \<open>Tables.\<close>

lemma does_map:
  assumes "page_va va" "tables_for V va \<le> v_room V" "valid \<longrightarrow> perm_ok perm" "root = v_root V"
  shows "does V (exec (pt_map_page root va pa perm valid)) (map_view va (pt_entry pa perm valid) V)"
proof (rule doesI)
  fix s assume v: "viewed V (s :: 'a program_scheme)"
  obtain s' where "map_at pt_pool_alloc 0 (v_root V) va (pt_entry pa perm valid) s = Some s'" "viewed (map_view va (pt_entry pa perm valid) V) s'"
    by (rule viewed_map_at [OF v assms(1,2) not_branch_entry [OF assms(3)]])
  with pt_map_page_map_at show "\<exists>s'. exec (pt_map_page root va pa perm valid) s = Ret s' \<and> viewed (map_view va (pt_entry pa perm valid) V) s'"
    unfolding assms(4) by fastforce
qed

text \<open>Accesses to the test area by its own address, through the identity map.\<close>

lemma free_sram: "free_word a \<Longrightarrow> drop_bit 30 a = 2"
  unfolding in_gigapage(2) by (auto simp: free_word_def word_le_nat_alt word_less_nat_alt platform_consts push_bit_eq_mult)

lemma sram_entry:
  assumes v: "viewed V s" and a: "free_word a"
  shows "entry_of s a = (2, sram_leaf)" "entry_xlat c acc a 2 sram_leaf = Some a" "\<not> needs_ad acc sram_leaf"
proof -
  note vd = viewedD [OF v]
  have d: "drop_bit 30 a = 2" by (rule free_sram [OF a])
  then have i: "vpn_ix 2 a = 2" using gigapage_index [of 2 a] by simp
  have nb: "\<not> is_branch sram_leaf" using not_branch_leaf perm_ok_kernel(2) by (simp add: sram_leaf_def)
  then have "stop_at (mem s) 2 (v_root V) a = (2, slot (v_root V) 2)"
    using vd(13) i by (simp add: numeral_2_eq_2 Let_def)
  then show e: "entry_of s a = (2, sram_leaf)" using vd(13) by (auto simp: entry_of_stop vd(4))
  have b: "SRAM_BASE = push_bit 30 2" by (simp add: platform_consts push_bit_eq_mult)
  have "addr_space c (v_root V) s acc a = Some a"
    using translate_gigapage [of s "v_root V" a 2, OF _ _ i perm_ok_kernel(2)] vd(13) d kernel_allows(2) i b
    by (simp add: sram_leaf_def)
  then show "entry_xlat c acc a 2 sram_leaf = Some a" using walk_entry_of(2) [of s a, OF _ e] vd(4,8) by simp
  show "\<not> needs_ad acc sram_leaf" by (simp add: sram_leaf_def)
qed

lemma free_access:
  assumes "viewed V s" "free_word a" "a \<in> v_trusted V"
  obtains s' where "hart_access acc a s = Some (Ret (Some a, s'))" "viewed V s'" "mem s' = mem s"
  by (rule viewed_hit [OF assms(1) sram_entry(1) [OF assms(1,2)] assms(3) sram_entry(2,3) [OF assms(1,2)]])

lemma does_load_free:
  assumes "v_data V a = Some v" "a \<in> v_trusted V" "does V (k v) W"
  shows "does V (vload a k) W"
proof (rule doesI)
  fix s assume v: "viewed V (s :: 'a program_scheme)"
  obtain s' where s': "hart_access Load a s = Some (Ret (Some a, s'))" "viewed V s'"
    by (rule free_access [OF v _ assms(2)]) (use viewedD(14) [OF v assms(1)] in auto)
  with assms(3) viewedD(14) [OF s'(2) assms(1)] show "\<exists>s'. vload a k s = Ret s' \<and> viewed W s'"
    by (simp add: does_def vload_def vaccess_def)
qed

lemma does_store_free:
  assumes "free_word a" "a \<in> v_trusted V"
  shows "does V (vstore a v) (V\<lparr>v_data := (v_data V)(a \<mapsto> v)\<rparr>)"
proof (rule doesI)
  fix s assume v: "viewed V (s :: 'a program_scheme)"
  obtain s' where s': "hart_access Store a s = Some (Ret (Some a, s'))" "viewed V s'" by (rule free_access [OF v assms])
  from viewed_data [OF s'(2) assms(1)] s'(1) show "\<exists>s'. vstore a v s = Ret s' \<and> viewed (V\<lparr>v_data := (v_data V)(a \<mapsto> v)\<rparr>) s'"
    by (simp add: vstore_def vaccess_def)
qed

text \<open>A half word is written: of the whole word only that half is known.\<close>

lemma does_store32_free:
  assumes "free_word a" "page_aligned a" "a \<in> v_trusted V"
    "\<And>w. ucast w = v \<Longrightarrow> does (V\<lparr>v_data := (v_data V)(a \<mapsto> w)\<rparr>) (block fs) W"
  shows "does V (block (vstore32 a v # fs)) W"
proof (rule doesI)
  fix s assume v: "viewed V (s :: 'a program_scheme)"
  obtain s' where s': "hart_access Store a s = Some (Ret (Some a, s'))" "viewed V s'" by (rule free_access [OF v assms(1,3)])
  let ?w = "(mem s' a AND NOT (mask 32)) OR ucast v"
  have "ucast ?w = v" by (rule bit_word_eqI) (auto simp: bit_simps)
  from assms(4) [OF this] viewed_data [OF s'(2) assms(1), of ?w] s'(1)
  show "\<exists>s'. block (vstore32 a v # fs) s = Ret s' \<and> viewed W s'"
    by (simp add: block_Cons vstore32_def vaccess_def st32_page [OF assms(2)] does_def)
qed

text \<open>Accesses to a page of the view that its entry allows.\<close>

lemma page_access:
  assumes "viewed V s" "v_pages V va = Some e" "va \<in> v_trusted V" "entry_xlat (v_ctl V) acc va 0 e = Some pa" "\<not> needs_ad acc e"
  obtains s' where "hart_access acc va s = Some (Ret (Some pa, s'))" "viewed V s'" "mem s' = mem s" "pc (cpu s') = pc (cpu s)"
  by (rule viewed_hit [OF assms(1) _ assms(3-5)]) (use viewedD(15) [OF assms(1,2)] in auto)

lemma does_load_page:
  assumes "v_pages V va = Some e" "va \<in> v_trusted V" "entry_xlat (v_ctl V) Load va 0 e = Some pa" "\<not> needs_ad Load e"
    "v_data V pa = Some v" "does V (k v) W"
  shows "does V (vload va k) W"
proof (rule doesI)
  fix s assume v: "viewed V (s :: 'a program_scheme)"
  obtain s' where s': "hart_access Load va s = Some (Ret (Some pa, s'))" "viewed V s'" by (rule page_access [OF v assms(1-4)])
  with assms(6) viewedD(14) [OF s'(2) assms(5)] show "\<exists>s'. vload va k s = Ret s' \<and> viewed W s'"
    by (simp add: does_def vload_def vaccess_def)
qed

lemma does_store_page:
  assumes "v_pages V va = Some e" "va \<in> v_trusted V" "entry_xlat (v_ctl V) Store va 0 e = Some pa" "\<not> needs_ad Store e" "free_word pa"
  shows "does V (vstore va v) (V\<lparr>v_data := (v_data V)(pa \<mapsto> v)\<rparr>)"
proof (rule doesI)
  fix s assume v: "viewed V (s :: 'a program_scheme)"
  obtain s' where s': "hart_access Store va s = Some (Ret (Some pa, s'))" "viewed V s'" by (rule page_access [OF v assms(1-4)])
  from viewed_data [OF s'(2) assms(5)] s'(1) show "\<exists>s'. vstore va v s = Ret s' \<and> viewed (V\<lparr>v_data := (v_data V)(pa \<mapsto> v)\<rparr>) s'"
    by (simp add: vstore_def vaccess_def)
qed

lemma vcall_ret:
  assumes "hart_access Fetch va (set_pc va s) = Some (Ret (Some pa, s'))" "viewed V s'" "v_data V pa = Some w" "page_aligned pa" "ucast w = RET_INSN"
  shows "\<exists>t. vcall va s = Ret t \<and> viewed V t"
proof -
  have "ld32 s' pa = RET_INSN" using viewedD(14) [OF assms(2,3)] assms(5) by (simp add: ld32_low [OF assms(4)])
  with assms(1) viewed_pc [OF assms(2)] show ?thesis by (auto simp: vcall_def vaccess_def)
qed

lemma does_call_page:
  assumes "v_pages V va = Some e" "va \<in> v_trusted V" "entry_xlat (v_ctl V) Fetch va 0 e = Some pa" "\<not> needs_ad Fetch e"
    "v_data V pa = Some w" "page_aligned pa" "ucast w = RET_INSN"
  shows "does V (vcall va) V"
proof (rule doesI)
  fix s assume v: "viewed V (s :: 'a program_scheme)"
  obtain s' where "hart_access Fetch va (set_pc va s) = Some (Ret (Some pa, s'))" "viewed V s'"
    by (rule page_access [OF viewed_pc [OF v] assms(1-4)])
  from vcall_ret [OF this assms(5-7)] show "\<exists>t. vcall va s = Ret t \<and> viewed V t" .
qed

text \<open>Accesses that fault and are repaired.\<close>

definition fixable :: "view \<Rightarrow> access \<Rightarrow> u64 \<Rightarrow> u64 \<Rightarrow> bool" where
  "fixable V acc va e \<longleftrightarrow> v_pages V va = Some e \<and> va \<in> v_trusted V \<and> entry_xlat (v_ctl V) acc va 0 e = None \<and>
     handler_action (v_trap V) \<noteq> 1 \<and> drop_bit 54 e = 0 \<and> \<not> bit e 4"

definition fix_view :: "access \<Rightarrow> u64 \<Rightarrow> u64 \<Rightarrow> view \<Rightarrow> view" where
  "fix_view acc va e V = V\<lparr>v_trap := log_trap (fault_cause acc) va 0 (v_trap V),
     v_pages := (v_pages V)(va \<mapsto> fixed_pte (fault_cause acc) e)\<rparr>"

lemma fix_access:
  assumes "viewed V s" "fixable V acc va e"
  obtains s' where "hart_access acc va s = Some (Ret (Some (pte_target e), s'))" "viewed (fix_view acc va e V) s'"
  using viewed_fix [OF assms(1), of va e acc] assms(2) unfolding fixable_def fix_view_def by blast

lemma does_load_fix:
  assumes "fixable V Load va e" "v_data V (pte_target e) = Some v" "does (fix_view Load va e V) (k v) W"
  shows "does V (vload va k) W"
proof (rule doesI)
  fix s assume v: "viewed V (s :: 'a program_scheme)"
  obtain s' where s': "hart_access Load va s = Some (Ret (Some (pte_target e), s'))" "viewed (fix_view Load va e V) s'"
    by (rule fix_access [OF v assms(1)])
  have "mem s' (pte_target e) = v" using viewedD(14) [OF s'(2), of "pte_target e" v] assms(2) by (simp add: fix_view_def)
  with s' assms(3) show "\<exists>s'. vload va k s = Ret s' \<and> viewed W s'" by (simp add: does_def vload_def vaccess_def)
qed

lemma does_store_fix:
  assumes "fixable V Store va e" "free_word (pte_target e)" "W = fix_view Store va e V"
  shows "does V (vstore va v) (W\<lparr>v_data := (v_data W)(pte_target e \<mapsto> v)\<rparr>)"
proof (rule doesI)
  fix s assume v: "viewed V (s :: 'a program_scheme)"
  obtain s' where s': "hart_access Store va s = Some (Ret (Some (pte_target e), s'))" "viewed W s'"
    unfolding assms(3) by (rule fix_access [OF v assms(1)])
  from viewed_data [OF s'(2) assms(2)] s'(1)
  show "\<exists>s'. vstore va v s = Ret s' \<and> viewed (W\<lparr>v_data := (v_data W)(pte_target e \<mapsto> v)\<rparr>) s'"
    by (simp add: vstore_def vaccess_def)
qed

lemma does_call_fix:
  assumes "fixable V Fetch va e" "v_data V (pte_target e) = Some w" "ucast w = RET_INSN"
  shows "does V (vcall va) (fix_view Fetch va e V)"
proof (rule doesI)
  fix s assume v: "viewed V (s :: 'a program_scheme)"
  obtain s' where s': "hart_access Fetch va (set_pc va s) = Some (Ret (Some (pte_target e), s'))" "viewed (fix_view Fetch va e V) s'"
    by (rule fix_access [OF viewed_pc [OF v] assms(1)])
  from vcall_ret [OF s' _ page_aligned_target assms(3)] assms(2)
  show "\<exists>t. vcall va s = Ret t \<and> viewed (fix_view Fetch va e V) t" by (simp add: fix_view_def)
qed

text \<open>A load through an entry without A bit on hardware that sets it: afterwards the bit may be there or not yet.\<close>

lemma set_ad_xlat: "ctl_svadu c \<Longrightarrow> entry_xlat c acc va l (set_ad a e) = entry_xlat c acc va l e"
proof -
  assume c: "ctl_svadu c"
  have b: "bit (set_ad a e) n = bit e n" if "n \<noteq> 6" "n \<noteq> 7" for n using that by (auto simp: set_ad_def bit_simps flag_bits)
  have "pte_target (set_ad a e) = pte_target e" "drop_bit 54 (set_ad a e) = drop_bit 54 e"
    by (rule bit_word_eqI, use b in \<open>simp add: pte_target_def bit_simps\<close>)+
  with c b show ?thesis
    by (cases acc) (auto simp: entry_xlat_def leaf_xlat_def pte_valid_def pte_is_leaf_def pte_allows_def pte_ad_ok_def leaf_aligned_def)
qed

lemma ad_access:
  assumes v: "viewed V s" and pg: "v_pages V va = Some e" "va \<in> v_trusted V" "entry_xlat (v_ctl V) acc va 0 e = Some pa"
  obtains s' where "hart_access acc va s = Some (Ret (Some pa, s'))" "viewed (V\<lparr>v_pages := (v_pages V)(va := None)\<rparr>) s'"
proof -
  note vd = viewedD [OF v]
  let ?V = "V\<lparr>v_pages := (v_pages V)(va := None)\<rparr>"
  have en: "entry_of s va = (0, e)" using vd(15) [OF pg(1)] by simp
  then obtain p where p: "stop_at (mem s) 2 (v_root V) va = (0, p)" "mem s p = e" by (auto simp: entry_of_stop vd(4))
  have w: "weaker ?V V" "weaker ?V (V\<lparr>v_pages := (v_pages V)(va \<mapsto> x)\<rparr>)" for x by (auto simp: weaker_def map_le_def)
  consider (plain) l e' where "hart_step acc va s = (Some pa, cached_more (va, l, e') s)" "coherent (v_trusted V) (cached_more (va, l, e') s)"
    | (update) "needs_ad acc e" "hart_step acc va s = (Some pa, st64 p (set_ad acc e) (cached_more (va, 0, set_ad acc e) s))"
    using step_hit [OF vd(3) _ en vd(10) pg(2), of acc pa] vd(4,5,8) pg(3) p(1) by (metis snd_conv)
  then have "\<exists>s'. hart_step acc va s = (Some pa, s') \<and> viewed ?V s'"
  proof cases
    case plain
    with viewed_weaker [OF viewed_cached [OF v] w(1)] show ?thesis by blast
  next
    case update
    let ?e = "set_ad acc e" and ?s = "st64 p (set_ad acc e) s" and ?W = "V\<lparr>v_pages := (v_pages V)(va \<mapsto> set_ad acc e)\<rparr>"
    have c: "ctl_svadu (v_ctl V)" by (rule needs_ad_svadu [OF pg(3) update(1)])
    have "\<not> is_branch e" using pg(3) by (auto simp: entry_xlat_def is_branch_def pte_is_leaf_def split: if_splits)
    then have "\<not> is_branch ?e" by (auto simp: is_branch_def set_ad_def bit_simps flag_bits)
    then have W: "viewed ?W ?s" using viewed_rewrite [OF v pg(1) p(1)] set_ad_xlat c by blast
    have "coherent (v_trusted V) (cached_more (va, 0, ?e) ?s)"
      by (rule coherent_insert [of _ va 0 ?e]) (use viewedD(4,8,10) [OF W] viewedD(15) [OF W, of va ?e] in simp_all)
    then have "viewed ?W (cached_more (va, 0, ?e) ?s)" using viewed_cached [OF W] by simp
    moreover have "cached_more (va, 0, ?e) ?s = st64 p ?e (cached_more (va, 0, ?e) s)"
      by (rule program.equality) (simp_all add: st64_def)
    ultimately show ?thesis using update(2) viewed_weaker [OF _ w(2)] by metis
  qed
  then obtain s' where "hart_step acc va s = (Some pa, s')" "viewed ?V s'" by blast
  with that [of s'] show thesis by (simp add: hart_access.simps [of acc va s])
qed

lemma does_load_ad:
  assumes "v_pages V va = Some e" "va \<in> v_trusted V" "entry_xlat (v_ctl V) Load va 0 e = Some pa" "v_data V pa = Some v"
    "does (V\<lparr>v_pages := (v_pages V)(va := None)\<rparr>) (k v) W"
  shows "does V (vload va k) W"
proof (rule doesI)
  fix s assume v: "viewed V (s :: 'a program_scheme)"
  obtain s' where s': "hart_access Load va s = Some (Ret (Some pa, s'))" "viewed (V\<lparr>v_pages := (v_pages V)(va := None)\<rparr>) s'"
    by (rule ad_access [OF v assms(1-3)])
  have "mem s' pa = v" using viewedD(14) [OF s'(2), of pa v] assms(4) by simp
  with s' assms(5) show "\<exists>s'. vload va k s = Ret s' \<and> viewed W s'" by (simp add: does_def vload_def vaccess_def)
qed

text \<open>Accesses that fault and are skipped; of a skipped load nothing is known about the value.\<close>

definition decides :: "view \<Rightarrow> u64 \<Rightarrow> nat \<Rightarrow> u64 \<Rightarrow> bool" where
  "decides V va n e \<longleftrightarrow> n = 0 \<and> v_pages V va = Some e \<or> n = 1 \<and> vpn_ix 2 va = 3 \<and> v_big V (vpn_ix 1 va) = Some e"

lemma decides_entry: "viewed V s \<Longrightarrow> decides V va n e \<Longrightarrow> entry_of s va = (n, e)"
  using viewedD(15,17) [of V s] by (auto simp: decides_def)

definition skipped :: "view \<Rightarrow> access \<Rightarrow> u64 \<Rightarrow> bool" where
  "skipped V acc va \<longleftrightarrow> va \<in> v_trusted V \<and> handler_action (v_trap V) = 1 \<and> acc \<noteq> Fetch \<and>
     (\<exists>n e. decides V va n e \<and> entry_xlat (v_ctl V) acc va n e = None)"

abbreviation skip_view :: "access \<Rightarrow> u64 \<Rightarrow> view \<Rightarrow> view" where
  "skip_view acc va V \<equiv> V\<lparr>v_trap := log_trap (fault_cause acc) va 0 (v_trap V)\<rparr>"

lemma skip_access:
  assumes "viewed V s" "skipped V acc va"
  obtains s' where "hart_access acc va s = Some (Ret (None, s'))" "viewed (skip_view acc va V) s'"
  using assms(2) viewed_skip [OF assms(1) decides_entry [OF assms(1)]] unfolding skipped_def by blast

lemma does_load_skip:
  assumes "skipped V Load va" "\<And>v. does (skip_view Load va V) (k v) W"
  shows "does V (vload va k) W"
proof (rule doesI)
  fix s assume v: "viewed V (s :: 'a program_scheme)"
  obtain s' where "hart_access Load va s = Some (Ret (None, s'))" "viewed (skip_view Load va V) s'" by (rule skip_access [OF v assms(1)])
  with assms(2) show "\<exists>s'. vload va k s = Ret s' \<and> viewed W s'" by (simp add: does_def vload_def vaccess_def)
qed

lemma does_store_skip:
  assumes "skipped V Store va"
  shows "does V (vstore va v) (skip_view Store va V)"
proof (rule doesI)
  fix s assume v: "viewed V (s :: 'a program_scheme)"
  obtain s' where "hart_access Store va s = Some (Ret (None, s'))" "viewed (skip_view Store va V) s'" by (rule skip_access [OF v assms])
  then show "\<exists>s'. vstore va v s = Ret s' \<and> viewed (skip_view Store va V) s'" by (simp add: vstore_def vaccess_def)
qed

text \<open>Supervisor access to user pages switched off.\<close>

lemma does_clear_sum:
  "does V (exec (\<lambda>s. write_sstatus (read_sstatus s AND NOT MSTATUS_SUM) s)) (V\<lparr>v_ctl := (v_ctl V)\<lparr>ctl_sum := False\<rparr>\<rparr>)"
proof (rule doesI)
  fix s assume v: "viewed V (s :: 'a program_scheme)"
  note vd = viewedD [OF v]
  let ?s = "write_sstatus (read_sstatus s AND NOT MSTATUS_SUM) s" and ?V = "V\<lparr>v_ctl := (v_ctl V)\<lparr>ctl_sum := False\<rparr>\<rparr>"
  have b: "bit SSTATUS_MASK 18" "bit SSTATUS_MASK 19" "bit MSTATUS_SUM 18" "\<not> bit MSTATUS_SUM 19"
    by (simp_all add: SSTATUS_MASK_def platform_consts bit_simps)
  have f: "mem ?s = mem s" "dev ?s = dev s" "g_trap ?s = g_trap s" "pt_pool ?s = pt_pool s" "pt_pool_next_page ?s = pt_pool_next_page s"
    "tlb (cpu ?s) = tlb (cpu s)" "satp_root ?s = satp_root s" "prv (cpu ?s) = prv (cpu s)" "gpr (cpu ?s) = gpr (cpu s)" "csr_satp (cpu ?s) = csr_satp (cpu s)"
    "svadu ?s = svadu s"
    by (simp_all add: write_sstatus_def satp_root_def)
  have c: "mmu_view ?s = (mmu_view s)\<lparr>ctl_sum := False\<rparr>"
    using b by (simp add: mmu_view_def write_sstatus_def read_sstatus_def bit_simps)
  have t: "pt_ok r ?s = pt_ok r s" "pool_room ?s = pool_room s" "entry_of ?s va = entry_of s va" for r va
    using pt_ok_mem [of ?s s] f by (simp_all add: pool_room_def entry_of_def)
  have "tables_as ?V ?s" using v f t by (simp add: viewed_def tables_as_def)
  moreover have "hart_as ?V ?s" using v f c by (simp add: viewed_def hart_as_def sv39_on_def layout_ok_def)
  moreover have "coherent (v_trusted V) ?s" using vd(10) addr_space_mem [OF f(1)] unfolding coherent_def f by simp
  ultimately have "viewed ?V ?s" using v f(1) by (simp add: viewed_def)
  then show "\<exists>s'. exec (\<lambda>s. write_sstatus (read_sstatus s AND NOT MSTATUS_SUM) s) s = Ret s' \<and> viewed ?V s'" by simp
qed

section \<open>The start of a program\<close>

definition booted :: "'z program_scheme \<Rightarrow> bool" where
  "booted s \<longleftrightarrow> dev_ok (dev s) \<and> prv (cpu s) = S_mode \<and> pool_ok s \<and> layout_ok s"

definition start_view :: "'z program_scheme \<Rightarrow> view" where
  "start_view s = \<lparr>v_ctl = mmu_view s, v_root = pt_pool s, v_trusted = UNIV, v_pages = Map.empty, v_big = Map.empty,
     v_data = (\<lambda>a. if free_word a then Some (mem s a) else None),
     v_room = 7, v_trap = g_trap s\<rparr>"

lemma booted_dev: "booted s \<Longrightarrow> dev_ok d \<Longrightarrow> booted (s\<lparr>dev := d\<rparr>)"
  by (simp add: booted_def pool_ok_def layout_ok_def)

lemma identity_pool_only: "pt_setup_identity_kernel (pt_reset s) = (root, s1) \<Longrightarrow> pool_only s s1"
  by (rule pool_onlyI)
    (auto simp: pt_setup_identity_kernel_def pt_alloc_page_def pt_reset_def Let_def clear_words_eq st64_def)

lemma path_clear_invalid: "\<not> bit (m (slot t (vpn_ix l va))) 0 \<Longrightarrow> path_clear m k l t va"
  by (cases k) (simp_all add: Let_def)

lemma enable_viewed:
  fixes s :: "'z program_scheme"
  assumes b: "booted s" and r: "pt_setup_identity_kernel (pt_reset s) = (root, s1)" and d: "dev_ok d"
  shows "root = pt_pool s" "viewed (start_view s) (mmu_enable_sv39 root (s1\<lparr>dev := d\<rparr>))"
proof -
  from b have po: "pool_ok s" and b': "prv (cpu s) = S_mode" "layout_ok s" by (simp_all add: booted_def)
  note id = identity_root [OF po, unfolded r fst_conv snd_conv]
  show root: "root = pt_pool s" using id(1) by simp
  have al: "page_aligned root" "drop_bit 56 root = 0"
    using po drop_56_uint [of root] by (auto simp: root pool_ok_def PT_POOL_PAGES_def)
  let ?u = "s1\<lparr>dev := d\<rparr>"
  let ?s = "mmu_enable_sv39 root ?u"
  note en = mmu_enable_roundtrip [OF al, of ?u]
  from identity_pool_only [OF r] obtain m n where s1: "s1 = s\<lparr>mem := m, pt_pool_next_page := n\<rparr>" by (auto simp: pool_only_def)
  have f: "pt_pool ?s = pt_pool s" "pt_pool_next_page ?s = 1" "dev ?s = d" "g_trap ?s = g_trap s" "mem ?s = mem s1" "mmu_view ?s = mmu_view s"
    "prv (cpu ?s) = S_mode" "gpr (cpu ?s) = gpr (cpu s)"
    using id(6,7) b'(1)
    by (simp_all add: s1 mmu_enable_sv39_def Let_def sfence_vma_all_def write_csr_satp_def mmu_view_def)
  have "pt_ok root ?s" using identity_ok [OF po r] pt_ok_mem [of ?s s1 root] f id(6,7) by simp
  moreover have "pool_room ?s = 7" by (simp add: pool_room_def f PT_POOL_PAGES_def)
  moreover have "mem ?s (slot root 3) = 0" using id(4) [folded root, of 3] by (simp add: f)
  then have "path_clear (mem ?s) 2 2 root va" if "vpn_ix 2 va = 3" for va
    by (intro path_clear_invalid) (simp add: that)
  moreover have "mem ?s (slot root 2) = sram_leaf" using id(4) [folded root, of 2] by (simp add: f sram_leaf_def)
  moreover have "mem ?s a = mem s a" if "free_word a" for a
  proof -
    have "a \<notin> table_words (pool_tables s1)"
      using apart(2) [of ?s a] that b'(2) id(3) f(1,2,8) id(6,7)
      by (simp add: layout_ok_def pool_ok_def pool_tables_def pool_page_def)
    then have "a \<noteq> slot (pt_pool s) i" if "i < 512" for i using id(2) that by auto
    then show ?thesis using id(5) [of a] by (simp add: f)
  qed
  moreover have "sv39_on ?s" "satp_root ?s = root" "coherent UNIV ?s"
    using en by (simp_all add: sv39_on_def coherent_def SATP_MODE_SV39_def)
  moreover have "layout_ok ?s" using b'(2) by (simp add: layout_ok_def f)
  ultimately show "viewed (start_view s) ?s"
    using d f by (simp add: viewed_def hart_as_def tables_as_def start_view_def flip: root)
qed

end
