(* ===== verification/BareEnable.thy ===== *)
theory BareEnable
  imports BareLogic
begin

text \<open>
  Phase 1A of the bare-metal suite, \<^verbatim>\<open>tests/p1a_mmu_enable.c\<close>, on the runtime: from \<open>s_mode_entry\<close> through the tests to the
  word the host reads.
\<close>

section \<open>Phase 1A\<close>

text \<open>The sources write a dash as three UTF-8 bytes.\<close>

definition dash :: string where
  "dash = [CHR 0xE2, CHR 0x80, CHR 0x94]"

definition banner :: "string \<Rightarrow> 'z machine_scheme \<Rightarrow> 'z machine_scheme run" where
  "banner title = block
     [uart_puts (CHR 0x0A # replicate 40 (CHR ''='') @ [CHR 0x0A]), uart_puts (title @ [CHR 0x0A]),
      uart_puts (replicate 40 (CHR ''='') @ [CHR 0x0A])]"

definition fence_i :: "'z program_scheme \<Rightarrow> 'z program_scheme run" where
  "fence_i = skip"

definition p1a_1 :: "'z program_scheme \<Rightarrow> 'z program_scheme run" where
  "p1a_1 = (let test_addr = SRAM_BASE + 0x100000 in block
     [vstore test_addr 0xCAFEBABE12345678,
      vload test_addr (\<lambda>readback. ASSERT_EQ readback 0xCAFEBABE12345678 ''Store/load through identity map failed'' 11),
      TEST_LOG (''P1A.1 '' @ dash @ '' Store/load through identity map: OK''),
      uart_puts (''    UART via I/O gigapage: OK'' @ [CHR 0x0A])])"

definition p1a_2 :: "u64 \<Rightarrow> 'z program_scheme \<Rightarrow> 'z program_scheme run" where
  "p1a_2 root = (let test_va = 0xC0000000; test_pa = SRAM_BASE + 0x180000 in block
     [TEST_LOG (''P1A.2 '' @ dash @ '' 4 KB page mapping load/store...''),
      exec (pt_map_page root test_va test_pa (PTE_R OR PTE_W) True),
      exec sfence_vma_all,
      vstore test_va 0xA5A5A5A5A5A5A5A5,
      vload test_pa (\<lambda>v. ASSERT_EQ v 0xA5A5A5A5A5A5A5A5 ''4KB page mapping: PA readback mismatch'' 12),
      vload test_va (\<lambda>v. ASSERT_EQ v 0xA5A5A5A5A5A5A5A5 ''4KB page mapping: VA readback mismatch'' 13),
      TEST_LOG (''P1A.2 '' @ dash @ '' 4 KB page load/store: OK'')])"

definition p1a_3 :: "u64 \<Rightarrow> 'z program_scheme \<Rightarrow> 'z program_scheme run" where
  "p1a_3 root = (let exec_pa = SRAM_BASE + 0x180000; exec_va = 0xC0010000 in block
     [TEST_LOG (''P1A.3 '' @ dash @ '' Instruction fetch via mapped page...''),
      vstore32 exec_pa RET_INSN,
      fence_i,
      exec (pt_map_page root exec_va exec_pa (PTE_R OR PTE_X) True),
      exec sfence_vma_all,
      vcall exec_va,
      TEST_LOG (''P1A.3 '' @ dash @ '' Instruction fetch via mapped page: OK'')])"

definition returning :: "c_int \<Rightarrow> 's run \<Rightarrow> (c_int \<times> 's) run" where
  "returning r x = (case x of Ret s \<Rightarrow> Ret (r, s) | Halt s \<Rightarrow> Halt (r, s) | Hang \<Rightarrow> Hang)"

definition p1a_test_main :: "'z program_scheme \<Rightarrow> (c_int \<times> 'z program_scheme) run" where
  "p1a_test_main s = returning 0 (block
     [banner ''Phase 1A: MMU Enable & Identity Map'',
      TEST_LOG (''P1A.1 '' @ dash @ '' Enable Sv39 with identity-mapped kernel...''),
      exec pt_reset,
      \<lambda>s. case pt_setup_identity_kernel s of (root, s) \<Rightarrow> block
        [uart_puts ''    Root PT at PA '', uart_put_hex root, uart_putc (CHR 0x0A),
         exec (mmu_enable_sv39 root),
         TEST_LOG (''P1A.1 '' @ dash @ '' MMU enabled, identity map: OK''),
         p1a_1, p1a_2 root, p1a_3 root,
         banner ''Phase 1A: ALL TESTS PASSED''] s] s)"

section \<open>Phase 1A passes\<close>

lemma does_banner: "does V (banner title) V"
  unfolding banner_def by (rule does_Cons, rule does_say)+ (rule does_Nil)

lemma does_fence_i: "does V fence_i V"
  by (simp add: does_def fence_i_def)

lemma test_words: "free_word (SRAM_BASE + 0x100000)" "free_word (SRAM_BASE + 0x180000)" "page_aligned (SRAM_BASE + 0x180000)"
  by (simp_all add: free_word_def platform_consts page_aligned_def take_bit_eq_mod)

lemma does_p1a_1: "v_trusted V = UNIV \<Longrightarrow> does V p1a_1 (V\<lparr>v_data := (v_data V)(SRAM_BASE + 0x100000 \<mapsto> 0xCAFEBABE12345678)\<rparr>)"
  unfolding p1a_1_def Let_def
  apply (rule does_Cons, rule does_store_free [OF test_words(1)], simp)
  apply (rule does_Cons, rule does_load_free, simp, simp, rule does_assert_eq, simp)
  apply (rule does_Cons, rule does_log, rule does_one, rule does_say)
  done

lemma free_low:
  assumes "free_word a"
  shows "drop_bit 56 a = 0"
proof (rule drop_56_uint)
  have "int (unat a) = uint a" by simp
  with assms have "uint a < 0x801FF000" unfolding free_word_def by linarith
  then show "uint a < 2 ^ 56" by simp
qed

lemma mapped_xlat:
  assumes "page_va va" "free_word pa" "page_aligned pa" "perm_ok perm" "pte_allows c acc perm"
  shows "entry_xlat c acc va 0 (pt_entry pa perm True) = Some pa" "\<not> needs_ad acc (pt_entry pa perm True)"
proof -
  have m: "PGSIZE - 1 = mask 12" by (rule page_mask)
  have "pa AND NOT (mask 12) = pa" "va AND mask 12 = 0"
    using page_aligned_bit [OF assms(3)] assms(1) page_aligned_bit [of va]
    by (auto intro!: bit_word_eqI simp: bit_simps page_va_def)
  with entry_xlat_pt_entry [of True perm pa c acc va] assms(4,5) free_low [OF assms(2)] page_va_canonical [OF assms(1)]
  show "entry_xlat c acc va 0 (pt_entry pa perm True) = Some pa" by (simp add: page_space_def m)
  show "\<not> needs_ad acc (pt_entry pa perm True)" by (simp add: pt_entry_def)
qed

lemma perms:
  "perm_ok (PTE_R OR PTE_W)" "perm_ok (PTE_R OR PTE_X)" "perm_ok PTE_R"
  "pte_allows c Load (PTE_R OR PTE_W)" "pte_allows c Store (PTE_R OR PTE_W)" "pte_allows c Fetch (PTE_R OR PTE_X)"
  by (auto simp: perm_ok_def pte_allows_def bit_simps flag_bits)

lemma page_vas: "page_va 0xC0000000" "page_va 0xC0010000"
  by (simp_all add: page_va_def page_aligned_def take_bit_eq_mod vpn_ix_def flip: mask9_u64)

lemma map_view_simps [simp]:
  "v_ctl (map_view va e V) = v_ctl V" "v_root (map_view va e V) = v_root V" "v_trap (map_view va e V) = v_trap V"
  "v_data (map_view va e V) = v_data V" "v_pages (map_view va e V) = (v_pages V)(va \<mapsto> e)"
  "v_room (map_view va e V) = v_room V - tables_for V va" "v_trusted (map_view va e V) = v_trusted V - {va'. same_block 0 va va'}"
  by (simp_all add: map_view_def)

text \<open>The view after a page has been mapped and the cache flushed.\<close>

definition mapped :: "u64 \<Rightarrow> u64 \<Rightarrow> view \<Rightarrow> view" where
  "mapped va e V = V\<lparr>v_room := v_room V - tables_for V va, v_trusted := UNIV, v_pages := (v_pages V)(va \<mapsto> e)\<rparr>"

lemma mapped_simps [simp]:
  "v_ctl (mapped va e V) = v_ctl V" "v_root (mapped va e V) = v_root V" "v_trap (mapped va e V) = v_trap V"
  "v_data (mapped va e V) = v_data V" "v_pages (mapped va e V) = (v_pages V)(va \<mapsto> e)" "v_trusted (mapped va e V) = UNIV"
  "v_room (mapped va e V) = v_room V - tables_for V va"
  by (simp_all add: mapped_def)

lemma tables_for_le: "tables_for V va \<le> 2"
  by (simp add: tables_for_def)

lemma room_left: "n + 2 \<le> v_room V \<Longrightarrow> n \<le> v_room V - tables_for U va"
  using tables_for_le [of U va] by linarith

lemma does_map_fence:
  assumes "page_va va" "tables_for V va \<le> v_room V" "valid \<longrightarrow> perm_ok perm" "root = v_root V"
    "does (mapped va (pt_entry pa perm valid) V) (block fs) W"
  shows "does V (block (exec (pt_map_page root va pa perm valid) # exec sfence_vma_all # fs)) W"
proof -
  have "(map_view va (pt_entry pa perm valid) V)\<lparr>v_trusted := UNIV\<rparr> = mapped va (pt_entry pa perm valid) V"
    by (rule view.equality) (simp_all add: map_view_def mapped_def)
  with assms(5) does_fence [of "map_view va (pt_entry pa perm valid) V"] does_map [OF assms(1-4), of pa] show ?thesis
    by (intro does_Cons [of V]) (simp, rule does_Cons, simp_all)
qed

lemma does_p1a_2:
  assumes "v_trusted V = UNIV" "2 \<le> v_room V" "v_root V = root"
  defines "W \<equiv> mapped 0xC0000000 (pt_entry (SRAM_BASE + 0x180000) (PTE_R OR PTE_W) True) V"
  shows "does V (p1a_2 root) (W\<lparr>v_data := (v_data V)(SRAM_BASE + 0x180000 \<mapsto> 0xA5A5A5A5A5A5A5A5)\<rparr>)"
proof -
  note x = mapped_xlat [OF page_vas(1) test_words(2,3) perms(1), of "v_ctl V"]
  have k: "tables_for V 0xC0000000 \<le> v_room V" by (rule le_trans [OF tables_for_le assms(2)])
  show ?thesis
    unfolding p1a_2_def Let_def W_def
    apply (rule does_Cons, rule does_log)
    apply (rule does_map_fence [OF page_vas(1) k], simp add: perms, simp add: assms)
    apply (rule does_Cons, rule does_store_page [OF _ _ _ _ test_words(2)], simp, simp, simp add: x perms, simp add: x perms)
    apply (rule does_Cons, rule does_load_free, simp, simp, rule does_assert_eq, simp)
    apply (rule does_Cons, rule does_load_page, simp, simp, simp add: x perms, simp add: x perms, simp, rule does_assert_eq, simp)
    apply (rule does_one, simp, rule does_log)
    done
qed

lemma does_p1a_3:
  assumes "v_trusted V = UNIV" "2 \<le> v_room V" "v_root V = root"
  shows "does V (p1a_3 root) ((mapped 0xC0010000 (pt_entry (SRAM_BASE + 0x180000) (PTE_R OR PTE_X) True) V)\<lparr>v_data := Map.empty\<rparr>)"
    (is "does V _ ?W")
proof -
  let ?pa = "SRAM_BASE + 0x180000"
  note x = mapped_xlat [OF page_vas(2) test_words(2,3) perms(2), of "v_ctl V"]
  have k: "tables_for U 0xC0010000 \<le> v_room V" for U by (rule le_trans [OF tables_for_le assms(2)])
  have rest: "does U (block [fence_i, exec (pt_map_page root 0xC0010000 ?pa (PTE_R OR PTE_X) True), exec sfence_vma_all,
      vcall 0xC0010000, TEST_LOG msg]) ?W"
    if "U = V\<lparr>v_data := (v_data V)(?pa \<mapsto> w)\<rparr>" "ucast w = RET_INSN" for U w msg
    apply (rule does_Cons, rule does_fence_i)
    apply (rule does_map_fence [OF page_vas(2)], simp add: that(1) k, simp add: perms, simp add: that(1) assms)
    apply (rule does_Cons, rule does_call_page [OF _ _ _ _ _ test_words(3) that(2)], simp, simp,
        simp add: that(1) x perms, simp add: x perms, simp add: that(1))
    apply (rule does_weaken [OF does_one [OF does_log]], simp add: weaker_def that(1) mapped_def tables_for_def)
    done
  show ?thesis
    unfolding p1a_3_def Let_def
    apply (rule does_Cons, rule does_log)
    apply (rule does_store32_free [OF test_words(2,3)], simp add: assms(1))
    apply (rule rest [OF refl], simp)
    done
qed

lemma does_p1a:
  assumes "v_trusted V = UNIV" "4 \<le> v_room V" "v_root V = root" and v: "viewed V s"
  shows "\<exists>s'. block [TEST_LOG msg, p1a_1, p1a_2 root, p1a_3 root, banner title] s = Ret s' \<and> dev_ok (dev s')"
  apply (rule does_run [OF _ v], rule does_Cons, rule does_log)
  apply (rule does_Cons, rule does_p1a_1, simp add: assms)
  apply (rule does_Cons, rule does_p1a_2, simp add: assms, use assms in simp, simp add: assms)
  apply (rule does_Cons, rule does_p1a_3, simp, simp, rule room_left, use assms in simp, simp add: assms)
  apply (rule does_one, rule does_banner)
  done

text \<open>From the entry point to the verdict.\<close>

lemma banner_say: "dev_ok (dev s) \<Longrightarrow> \<exists>cs. banner title s = Ret (say cs s)"
  by (simp add: banner_def del: uart_puts.simps) (rule exI, rule refl)

lemma log_say: "dev_ok (dev s) \<Longrightarrow> \<exists>cs. TEST_LOG x s = Ret (say cs s)"
  by (simp add: TEST_LOG_def del: uart_puts.simps) (rule exI, rule refl)

text \<open>What the host sees of an image that ends in a pass.\<close>

definition ends_in_pass :: "'z machine_scheme run \<Rightarrow> bool" where
  "ends_in_pass r = (\<exists>s'. r = Halt s' \<and> tohost (dev s') = 1 \<and>
     (\<exists>out. console_text (dev s') = out @ ''[PASS]'' @ [CHR 0x0D, CHR 0x0A]))"

lemma entry_returns:
  assumes "dev_ok (dev s)" "\<And>cs. \<exists>t'. test_main (say cs (write_csr_stvec vec s)) = Ret (0, t') \<and> dev_ok (dev t')"
  shows "ends_in_pass (s_mode_entry vec test_main s)"
proof -
  define x where "x = CHR 0x0A # ''=== S-mode entry, stvec set ==='' @ [CHR 0x0A]"
  have d: "dev_ok (dev (write_csr_stvec vec s))" using assms(1) by (simp add: write_csr_stvec_def)
  from assms(2) obtain t where t: "test_main (say (crlf x) (write_csr_stvec vec s)) = Ret (0, t)" "dev_ok (dev t)" by blast
  from d t(1) have "s_mode_entry vec test_main s = test_pass t"
    unfolding s_mode_entry_def x_def [symmetric] by (simp del: uart_puts.simps)
  with test_pass_halts [OF t(2)] show ?thesis unfolding ends_in_pass_def by fastforce
qed

lemma entry_passes_if:
  assumes "booted s" "P s" "\<And>cs. P (say cs (write_csr_stvec vec s)) = P s"
    "\<And>t. booted t \<Longrightarrow> P t \<Longrightarrow> \<exists>t'. test_main t = Ret (0, t') \<and> dev_ok (dev t')"
  shows "ends_in_pass (s_mode_entry vec test_main s)"
proof (rule entry_returns)
  show "dev_ok (dev s)" using assms(1) by (simp add: booted_def)
  fix cs have "booted (say cs (write_csr_stvec vec s))"
    using assms(1) by (simp add: booted_def write_csr_stvec_def pool_ok_def layout_ok_def)
  with assms(2-4) show "\<exists>t'. test_main (say cs (write_csr_stvec vec s)) = Ret (0, t') \<and> dev_ok (dev t')" by blast
qed

lemma entry_passes:
  assumes "booted s" "\<And>t. booted t \<Longrightarrow> \<exists>t'. test_main t = Ret (0, t') \<and> dev_ok (dev t')"
  shows "ends_in_pass (s_mode_entry vec test_main s)"
  by (rule entry_passes_if [where P = "\<lambda>_. True", OF assms(1) TrueI refl assms(2)])

lemma p1a_main_returns:
  fixes s :: "'z program_scheme"
  assumes "booted s"
  shows "\<exists>s'. p1a_test_main s = Ret (0, s') \<and> dev_ok (dev s')"
proof -
  have d: "dev_ok (dev s)" using assms by (simp add: booted_def)
  from banner_say [OF d] obtain cs where 1: "banner ''Phase 1A: MMU Enable & Identity Map'' s = Ret (say cs s)" by blast
  let ?s1 = "say cs s"
  have "dev_ok (dev ?s1)" using d by simp
  from log_say [OF this] obtain cs' where 2: "TEST_LOG (''P1A.1 '' @ dash @ '' Enable Sv39 with identity-mapped kernel...'') ?s1 = Ret (say cs' ?s1)" by blast
  let ?s2 = "say cs' ?s1"
  have b2: "booted ?s2" by (rule booted_dev [OF booted_dev [OF assms]]) (use d in simp_all)
  obtain root s3 where r: "pt_setup_identity_kernel (pt_reset ?s2) = (root, s3)" by fastforce
  have d3: "dev_ok (dev s3)" using identity_pool_only [OF r] d by (auto simp: pool_only_def)
  let ?d = "console.emit [CHR 0x0A] (console.emit (''0x'' @ hex_text root) (console.emit (crlf ''    Root PT at PA '') (dev s3)))"
  let ?s4 = "mmu_enable_sv39 root (s3\<lparr>dev := ?d\<rparr>)"
  have v: "viewed (start_view ?s2) ?s4" and root: "root = pt_pool ?s2" by (rule enable_viewed [OF b2 r]; use d3 in simp)+
  from does_p1a [OF _ _ _ v, of root] root obtain s5 where 5: "block [TEST_LOG (''P1A.1 '' @ dash @ '' MMU enabled, identity map: OK''),
      p1a_1, p1a_2 root, p1a_3 root, banner ''Phase 1A: ALL TESTS PASSED''] ?s4 = Ret s5" "dev_ok (dev s5)"
    by (auto simp: start_view_def)
  have "p1a_test_main s = Ret (0, s5)"
    using 1 2 r 5(1) d3 by (simp add: p1a_test_main_def returning_def block_Cons del: uart_puts.simps)
  with 5(2) show ?thesis by blast
qed

end
