(* ===== verification/BareRows.thy ===== *)
theory BareRows
  imports BareEnable
begin

text \<open>
  Rows of pages: the tests that fill many frames and map a page to each. The locale says what such a row is; it is
  interpreted by the eight pages of P1C.4 and by the 128 pages of P1D.3.
\<close>

lemma free_not_page: "free_word a \<Longrightarrow> page_va va \<Longrightarrow> \<not> same_block 0 va a"
proof
  assume a: "free_word a" and va: "page_va va" and b: "same_block 0 va a"
  have "vpn_ix 2 a = 2" using gigapage_index [of 2 a] free_sram [OF a] by simp
  with va same_blockD [OF b, of 2] show False by (simp add: page_va_def)
qed

lemma tables_for_update [simp]:
  "tables_for (V\<lparr>v_data := D\<rparr>) va = tables_for V va" "tables_for (V\<lparr>v_trap := t\<rparr>) va = tables_for V va"
  "tables_for (V\<lparr>v_trusted := A\<rparr>) va = tables_for V va" "tables_for (V\<lparr>v_ctl := c\<rparr>) va = tables_for V va"
  by (simp_all add: tables_for_def)

text \<open>The view after the first pages of a row have been filled and mapped.\<close>

primrec filled :: "(nat \<Rightarrow> u64) \<Rightarrow> (nat \<Rightarrow> u64) \<Rightarrow> (nat \<Rightarrow> u64) \<Rightarrow> u64 \<Rightarrow> bool \<Rightarrow> view \<Rightarrow> nat \<Rightarrow> view" where
  "filled va pa x perm valid V 0 = V"
| "filled va pa x perm valid V (Suc i) = map_view (va i) (pt_entry (pa i) perm valid)
     ((filled va pa x perm valid V i)\<lparr>v_data := (v_data (filled va pa x perm valid V i))(pa i \<mapsto> x i)\<rparr>)"

locale page_row =
  fixes va pa :: "nat \<Rightarrow> u64" and n :: nat and region :: u64
  assumes row_va: "i < n \<Longrightarrow> page_va (va i)" and row_region: "i < n \<Longrightarrow> vpn_ix 1 (va i) = region"
    and row_pa: "i < n \<Longrightarrow> free_word (pa i) \<and> page_aligned (pa i)"
    and row_distinct: "i < n \<Longrightarrow> j < n \<Longrightarrow> (va i = va j \<longleftrightarrow> i = j) \<and> (pa i = pa j \<longleftrightarrow> i = j)"
begin

lemma filled_same:
  "v_ctl (filled va pa x perm valid V i) = v_ctl V" "v_root (filled va pa x perm valid V i) = v_root V"
  "v_trap (filled va pa x perm valid V i) = v_trap V" "v_big (filled va pa x perm valid V i) = v_big V"
  by (induction i) (simp_all add: map_view_def)

lemma filled_other:
  "a \<notin> pa ` {..<i} \<Longrightarrow> v_data (filled va pa x perm valid V i) a = v_data V a"
  "dom (v_pages V) \<subseteq> dom (v_pages (filled va pa x perm valid V i))"
  by (induction i) (auto simp: lessThan_Suc)

lemma filled_free: "i \<le> n \<Longrightarrow> v_trusted V = UNIV \<Longrightarrow> {a. free_word a} \<subseteq> v_trusted (filled va pa x perm valid V i)"
  using free_not_page row_va by (induction i) auto

lemma filled_row:
  "i \<le> n \<Longrightarrow> j < i \<Longrightarrow> v_pages (filled va pa x perm valid V i) (va j) = Some (pt_entry (pa j) perm valid) \<and>
    v_data (filled va pa x perm valid V i) (pa j) = Some (x j)"
  using row_distinct by (induction i) (auto simp: less_Suc_eq)

text \<open>Only the first page of the row can lack tables.\<close>

lemma filled_room:
  assumes "i < n"
  shows "tables_for (filled va pa x perm valid V i) (va i) = (if i = 0 then tables_for V (va 0) else 0)"
proof (cases i)
  case (Suc j)
  have "va j \<in> dom (v_pages (filled va pa x perm valid V i))" by (simp add: Suc)
  moreover have "vpn_ix 1 (va j) = vpn_ix 1 (va i)" using row_region [of j] row_region [OF assms] assms Suc by simp
  ultimately show ?thesis unfolding tables_for_def Suc by auto
qed simp

lemma filled_left: "i \<le> n \<Longrightarrow> v_room V - tables_for V (va 0) \<le> v_room (filled va pa x perm valid V i)"
  using filled_room by (induction i) auto

lemma does_fill:
  assumes "v_trusted V = UNIV" "tables_for V (va 0) \<le> v_room V" "v_root V = root" "valid \<longrightarrow> perm_ok perm"
  shows "does V (block (map (\<lambda>i. block [vstore (pa i) (x i), exec (pt_map_page root (va i) (pa i) perm valid)]) [0..<n]))
    (filled va pa x perm valid V n)"
proof -
  let ?F = "filled va pa x perm valid V"
  have "does (?F i) (block [vstore (pa i) (x i), exec (pt_map_page root (va i) (pa i) perm valid)]) (?F (Suc i))" if i: "i < n" for i
  proof -
    have t: "pa i \<in> v_trusted (?F i)" using filled_free [of i V] assms(1) row_pa [OF i] i by auto
    have k: "tables_for (?F i) (va i) \<le> v_room (?F i)" using filled_room [OF i] assms(2) by (cases i) simp_all
    show ?thesis
      unfolding filled.simps
      by (rule does_Cons [OF does_store_free [OF _ t]], use row_pa [OF i] in simp, rule does_one, rule does_map [OF row_va [OF i]])
        (use k assms(3,4) in \<open>simp_all add: filled_same\<close>)
  qed
  from does_loop [of n ?F, OF this] show ?thesis by simp
qed

end

end
