(* ===== verification/BareRepair.thy ===== *)
theory BareRepair
  imports BareRows
begin

text \<open>
  Phase 1C of the bare-metal suite, \<^verbatim>\<open>tests/p1c_fault_handle.c\<close>: every test makes an access that faults, the runtime's
  handler repairs the page-table entry, the access is retried and the test looks at what the handler recorded.
\<close>

section \<open>The program\<close>

definition reset_fault_count :: "'z program_scheme \<Rightarrow> 'z program_scheme run" where
  "reset_fault_count = exec (upd_trap (\<lambda>t. t\<lparr>fault_count := 0\<rparr>))"

definition assert_fault_count :: "c_int \<Rightarrow> string \<Rightarrow> c_int \<Rightarrow> 'z program_scheme \<Rightarrow> 'z program_scheme run" where
  "assert_fault_count n msg code s = ASSERT_EQ (u64_of_int (fault_count (g_trap s))) (u64_of_int n) msg code s"

definition assert_scause :: "u64 \<Rightarrow> string \<Rightarrow> c_int \<Rightarrow> 'z program_scheme \<Rightarrow> 'z program_scheme run" where
  "assert_scause c msg code s = ASSERT_EQ (scause (g_trap s)) c msg code s"

definition p1c_1 :: "u64 \<Rightarrow> 'z program_scheme \<Rightarrow> 'z program_scheme run" where
  "p1c_1 root = (let va = 0xD0100000; pa = SRAM_BASE + 0x1B0000 in block
     [TEST_LOG (''P1C.1 '' @ dash @ '' Load fault fix and retry...''),
      vstore pa 0xFEEDFACECAFE0001,
      exec (pt_map_page root va pa (PTE_R OR PTE_W) False),
      exec sfence_vma_all,
      reset_fault_count,
      vload va (\<lambda>loaded_val. block
        [assert_fault_count 1 ''P1C.1 fault_count'' 210,
         assert_scause CAUSE_LOAD_PAGE_FAULT ''P1C.1 scause'' 211,
         ASSERT_EQ loaded_val 0xFEEDFACECAFE0001 ''P1C.1 loaded value mismatch'' 212,
         TEST_LOG (''P1C.1 '' @ dash @ '' Load fault fix + retry: OK'')])])"

definition p1c_2 :: "u64 \<Rightarrow> 'z program_scheme \<Rightarrow> 'z program_scheme run" where
  "p1c_2 root = (let va = 0xD0110000; pa = SRAM_BASE + 0x1B1000 in block
     [TEST_LOG (''P1C.2 '' @ dash @ '' Store fault fix and retry...''),
      exec (pt_map_page root va pa PTE_R True),
      exec sfence_vma_all,
      reset_fault_count,
      vstore va 0xDEADBEEF00000002,
      assert_fault_count 1 ''P1C.2 fault_count'' 220,
      assert_scause CAUSE_STORE_PAGE_FAULT ''P1C.2 scause'' 221,
      vload pa (\<lambda>v. ASSERT_EQ v 0xDEADBEEF00000002 ''P1C.2 store value mismatch'' 222),
      TEST_LOG (''P1C.2 '' @ dash @ '' Store fault fix + retry: OK'')])"

definition p1c_3 :: "u64 \<Rightarrow> 'z program_scheme \<Rightarrow> 'z program_scheme run" where
  "p1c_3 root = (let va = 0xD0120000; pa = SRAM_BASE + 0x1B2000 in block
     [TEST_LOG (''P1C.3 '' @ dash @ '' Execute fault fix and retry...''),
      vstore32 pa RET_INSN,
      fence_i,
      exec (pt_map_page root va pa PTE_R True),
      exec sfence_vma_all,
      reset_fault_count,
      vcall va,
      assert_fault_count 1 ''P1C.3 fault_count'' 230,
      assert_scause CAUSE_INST_PAGE_FAULT ''P1C.3 scause'' 231,
      TEST_LOG (''P1C.3 '' @ dash @ '' Execute fault fix + retry: OK'')])"

definition NUM_FAULTS :: nat where
  "NUM_FAULTS = 8"

definition c4_va :: "nat \<Rightarrow> u64" where
  "c4_va i = 0xD0200000 + of_nat i * PGSIZE"

definition c4_pa :: "nat \<Rightarrow> u64" where
  "c4_pa i = SRAM_BASE + 0x1C0000 + of_nat i * PGSIZE"

definition c4_expected :: "nat \<Rightarrow> u64" where
  "c4_expected i = 0xA000000000000000 OR of_nat i"

definition p1c_4 :: "u64 \<Rightarrow> 'z program_scheme \<Rightarrow> 'z program_scheme run" where
  "p1c_4 root = block
     [TEST_LOG (''P1C.4 '' @ dash @ '' Multiple sequential faults...''),
      reset_fault_count,
      block (map (\<lambda>i. block
        [vstore (c4_pa i) (c4_expected i), exec (pt_map_page root (c4_va i) (c4_pa i) (PTE_R OR PTE_W) False)]) [0..<NUM_FAULTS]),
      exec sfence_vma_all,
      block (map (\<lambda>i. vload (c4_va i) (\<lambda>val. ASSERT_EQ val (c4_expected i) ''P1C.4 value mismatch'' (240 + int i))) [0..<NUM_FAULTS]),
      assert_fault_count (int NUM_FAULTS) ''P1C.4 total fault count'' 250,
      uart_puts ''    Triggered and handled '',
      uart_put_dec (int NUM_FAULTS),
      uart_puts ('' sequential page faults: OK'' @ [CHR 0x0A]),
      TEST_LOG (''P1C.4 '' @ dash @ '' Multiple sequential faults: OK'')]"

text \<open>P1C.5 builds its path and an entry without A and D by hand; the address of the entry is used again.\<close>

definition p1c_5_map :: "u64 \<Rightarrow> u64 \<Rightarrow> u64 \<Rightarrow> 'z pts_scheme \<Rightarrow> u64 \<times> 'z pts_scheme" where
  "p1c_5_map root va pa s =
     (let idx2 = vpn2 va; idx1 = vpn1 va; idx0 = vpn0 va;
          s = (if mem s (entry root idx2) AND PTE_V = 0
               then let (l1, s) = pt_alloc_page s in st64 (entry root idx2) (push_bit PTE_PPN_SHIFT (drop_bit PGSHIFT l1) OR PTE_V) s
               else s);
          l1 = push_bit PGSHIFT (drop_bit PTE_PPN_SHIFT (mem s (entry root idx2)));
          s = (if mem s (entry l1 idx1) AND PTE_V = 0
               then let (l2, s) = pt_alloc_page s in st64 (entry l1 idx1) (push_bit PTE_PPN_SHIFT (drop_bit PGSHIFT l2) OR PTE_V) s
               else s);
          l2 = push_bit PGSHIFT (drop_bit PTE_PPN_SHIFT (mem s (entry l1 idx1)));
          ppn = drop_bit PGSHIFT pa
      in (entry l2 idx0, st64 (entry l2 idx0) (push_bit PTE_PPN_SHIFT ppn OR PTE_V OR PTE_R OR PTE_W) s))"

definition p1c_5 :: "u64 \<Rightarrow> 'z program_scheme \<Rightarrow> 'z program_scheme run" where
  "p1c_5 root = (let va = 0xD0300000; pa = SRAM_BASE + 0x1D0000 in block
     [TEST_LOG (''P1C.5 '' @ dash @ '' A/D bit behavior detection...''),
      \<lambda>s. case p1c_5_map root va pa s of (pte, s) \<Rightarrow> block
        [exec sfence_vma_all,
         reset_fault_count,
         vstore pa 0x1234567890ABCDEF,
         vload va (\<lambda>val s. if fault_count (g_trap s) = 0
           then block
             [uart_puts (''    A/D mode: SVADU (hardware sets A/D bits)'' @ [CHR 0x0A]),
              ASSERT_EQ val 0x1234567890ABCDEF ''P1C.5 svadu load val'' 260,
              \<lambda>s. if_do (mem s pte AND PTE_A \<noteq> 0) (uart_puts (''    Confirmed: A bit set by hardware'' @ [CHR 0x0A])) s] s
           else block
             [uart_puts (''    A/D mode: SVADE (software must manage A/D)'' @ [CHR 0x0A]),
              assert_scause CAUSE_LOAD_PAGE_FAULT ''P1C.5 svade fault type'' 261,
              ASSERT_EQ val 0x1234567890ABCDEF ''P1C.5 svade load val'' 262] s)] s,
      TEST_LOG (''P1C.5 '' @ dash @ '' A/D bit behavior: OK (mode detected)'')])"

definition p1c_test_main :: "'z program_scheme \<Rightarrow> (c_int \<times> 'z program_scheme) run" where
  "p1c_test_main s = returning 0 (block
     [banner ''Phase 1C: Fault Handling & Retry'',
      exec pt_reset,
      \<lambda>s. case pt_setup_identity_kernel s of (root, s) \<Rightarrow> block
        [exec (mmu_enable_sv39 root),
         TEST_LOG ''MMU enabled'',
         exec (upd_trap (\<lambda>t. t\<lparr>handler_action := 0\<rparr>)),
         p1c_1 root, p1c_2 root, p1c_3 root, p1c_4 root, p1c_5 root,
         banner ''Phase 1C: ALL TESTS PASSED''] s] s)"

section \<open>Rules for its statements\<close>

lemma does_reset: "does V reset_fault_count (V\<lparr>v_trap := (v_trap V)\<lparr>fault_count := 0\<rparr>\<rparr>)"
  unfolding reset_fault_count_def by (rule does_trap) simp

lemma does_count: "fault_count (v_trap V) = n \<Longrightarrow> does V (assert_fault_count n msg code) V"
  unfolding assert_fault_count_def by (rule does_assert_trap [where f = "\<lambda>t. u64_of_int (fault_count t)"]) simp_all

lemma does_scause: "scause (v_trap V) = c \<Longrightarrow> does V (assert_scause c msg code) V"
  unfolding assert_scause_def by (rule does_assert_trap [where f = scause]) simp_all

lemma fix_view_simps [simp]:
  "v_ctl (fix_view acc va e V) = v_ctl V" "v_root (fix_view acc va e V) = v_root V" "v_data (fix_view acc va e V) = v_data V"
  "v_room (fix_view acc va e V) = v_room V" "v_trusted (fix_view acc va e V) = v_trusted V"
  "v_pages (fix_view acc va e V) = (v_pages V)(va \<mapsto> fixed_pte (fault_cause acc) e)"
  "scause (v_trap (fix_view acc va e V)) = fault_cause acc" "fault_count (v_trap (fix_view acc va e V)) = inc32 (fault_count (v_trap V))"
  "handler_action (v_trap (fix_view acc va e V)) = handler_action (v_trap V)"
  by (simp_all add: fix_view_def log_trap_def)

text \<open>The entries the tests write.\<close>

lemma bit_invalid: "bit (pt_entry pa perm False) n \<longleftrightarrow> n < 64 \<and> n \<noteq> 0 \<and> (10 \<le> n \<and> bit pa (n + 2) \<or> bit perm n)"
  using bit_imp_le_length [of perm n]
  by (auto simp: pt_entry_def PTE_PPN_SHIFT_def PGSHIFT_def bit_simps flag_bits)

lemma entry_target:
  assumes "\<forall>n. bit perm n \<longrightarrow> n \<le> 9" "page_aligned pa"
  shows "pte_target (pt_entry pa perm valid) = pa"
proof (cases valid)
  case True
  have "pa AND NOT (mask 12) = pa" by (rule bit_word_eqI) (use page_aligned_bit [OF assms(2)] in \<open>auto simp: bit_simps\<close>)
  with True pte_target_leaf [OF assms(1)] show ?thesis by (simp add: pt_entry_def)
next
  case False
  show ?thesis
  proof (rule bit_word_eqI)
    fix n assume "n < LENGTH(64)"
    show "bit (pte_target (pt_entry pa perm valid)) n = bit pa n"
    proof (cases "n < 12")
      case n: False
      then have "\<not> bit perm (n - 2)" using assms(1) [rule_format, of "n - 2"] by auto
      moreover have "Suc (Suc (n - 2)) = n" using n by simp
      ultimately show ?thesis using n \<open>n < _\<close> False by (auto simp: pte_target_def bit_simps bit_invalid)
    qed (use page_aligned_bit [OF assms(2)] in \<open>auto simp: pte_target_def bit_simps\<close>)
  qed
qed

lemma entry_high:
  assumes "\<forall>n. bit perm n \<longrightarrow> n \<le> 9" "free_word pa"
  shows "drop_bit 54 (pt_entry pa perm valid) = 0"
proof (rule drop_bit_0I)
  fix n :: nat assume n: "54 \<le> n"
  then have "\<not> bit perm n" using assms(1) by fastforce
  with n drop_bit_0_bit [OF free_low [OF assms(2)], of "n + 2"] show "\<not> bit (pt_entry pa perm valid) n"
    by (cases valid) (simp_all add: bit_invalid, simp add: pt_entry_def bit_pte_leaf)
qed

text \<open>A page that forbids the access: the handler can repair it.\<close>

lemma test_fixable:
  assumes "v_pages V va = Some (pt_entry pa perm valid)" "v_trusted V = UNIV" "handler_action (v_trap V) = 0" "free_word pa"
    "perm_ok perm" "\<not> bit perm 4" "valid \<longrightarrow> \<not> pte_allows (v_ctl V) acc perm"
  shows "fixable V acc va (pt_entry pa perm valid)"
proof -
  have p: "\<forall>n. bit perm n \<longrightarrow> n \<le> 9" using assms(5) by (auto simp: perm_ok_def)
  have "entry_xlat (v_ctl V) acc va 0 (pt_entry pa perm valid) = None"
    using entry_xlat_pt_entry [of valid perm pa "v_ctl V" acc va] free_low [OF assms(4)] assms(5,7) by (auto simp: page_space_def)
  moreover have "\<not> bit (pt_entry pa perm valid) 4"
    using assms(6) by (cases valid) (simp_all add: bit_invalid, simp add: pt_entry_def bit_pte_leaf)
  ultimately show ?thesis using assms(1-3) entry_high [OF p assms(4)] by (simp add: fixable_def)
qed

section \<open>The tests pass\<close>

text \<open>What a test relies on: the cache is clean, the handler repairs, \<open>k\<close> tables are free and the pages \<open>P\<close> are mapped.\<close>

definition ready :: "u64 \<Rightarrow> nat \<Rightarrow> u64 set \<Rightarrow> view \<Rightarrow> bool" where
  "ready root k P V \<longleftrightarrow> v_trusted V = UNIV \<and> v_root V = root \<and> handler_action (v_trap V) = 0 \<and> k \<le> v_room V \<and> P \<subseteq> dom (v_pages V)"

lemma c_pages: "page_va 0xD0100000" "page_va 0xD0110000" "page_va 0xD0120000" "page_va 0xD0300000"
  by (simp_all add: page_va_def page_aligned_def take_bit_eq_mod vpn_ix_def flip: mask9_u64)

lemma c_words:
  "free_word (SRAM_BASE + 0x1B0000)" "page_aligned (SRAM_BASE + 0x1B0000)" "free_word (SRAM_BASE + 0x1B1000)" "page_aligned (SRAM_BASE + 0x1B1000)"
  "free_word (SRAM_BASE + 0x1B2000)" "page_aligned (SRAM_BASE + 0x1B2000)" "free_word (SRAM_BASE + 0x1D0000)" "page_aligned (SRAM_BASE + 0x1D0000)"
  by (simp_all add: free_word_def platform_consts page_aligned_def take_bit_eq_mod)

lemma c_perms: "\<not> bit (PTE_R OR PTE_W) 4" "\<not> bit PTE_R 4" "\<not> pte_allows c Store PTE_R" "\<not> pte_allows c Fetch PTE_R"
  by (simp_all add: pte_allows_def bit_simps flag_bits)

lemma c_targets: "page_aligned pa \<Longrightarrow> pte_target (pt_entry pa (PTE_R OR PTE_W) valid) = pa" "page_aligned pa \<Longrightarrow> pte_target (pt_entry pa PTE_R valid) = pa"
  by (rule entry_target, auto simp: bit_simps flag_bits)+

lemma does_p1c_1:
  assumes "ready root (k + 2) P V"
  shows "\<exists>W. does V (p1c_1 root) W \<and> ready root k (insert 0xD0100000 P) W"
proof -
  let ?pa = "SRAM_BASE + 0x1B0000 :: u64"
  let ?e = "pt_entry ?pa (PTE_R OR PTE_W) False"
  let ?V1 = "V\<lparr>v_data := (v_data V)(?pa \<mapsto> 0xFEEDFACECAFE0001)\<rparr>"
  let ?V2 = "mapped 0xD0100000 ?e ?V1"
  let ?V3 = "?V2\<lparr>v_trap := (v_trap ?V2)\<lparr>fault_count := 0\<rparr>\<rparr>"
  have fx: "fixable ?V3 Load 0xD0100000 ?e"
    by (rule test_fixable) (use assms c_words perms c_perms in \<open>simp_all add: ready_def\<close>)
  have "does V (p1c_1 root) (fix_view Load 0xD0100000 ?e ?V3)"
    unfolding p1c_1_def Let_def
    apply (rule does_Cons, rule does_log)
    apply (rule does_Cons, rule does_store_free [OF c_words(1)], use assms in \<open>simp add: ready_def\<close>)
    apply (rule does_map_fence [OF c_pages(1) le_trans [OF tables_for_le]], use assms in \<open>simp add: ready_def\<close>, simp,
        use assms in \<open>simp add: ready_def\<close>)
    apply (rule does_Cons, rule does_reset)
    apply (rule does_one, rule does_load_fix [OF fx], simp add: c_targets c_words)
    apply (rule does_Cons, rule does_count, simp)
    apply (rule does_Cons, rule does_scause, simp add: fault_cause.simps)
    apply (rule does_Cons, rule does_assert_eq, simp)
    apply (rule does_one, rule does_log)
    done
  moreover have "ready root k (insert 0xD0100000 P) (fix_view Load 0xD0100000 ?e ?V3)"
    using assms room_left [of k V] by (auto simp: ready_def)
  ultimately show ?thesis by blast
qed

lemma does_p1c_2:
  assumes "ready root (k + 2) P V"
  shows "\<exists>W. does V (p1c_2 root) W \<and> ready root k P W"
proof -
  let ?pa = "SRAM_BASE + 0x1B1000 :: u64"
  let ?e = "pt_entry ?pa PTE_R True"
  let ?V1 = "mapped 0xD0110000 ?e V"
  let ?V2 = "?V1\<lparr>v_trap := (v_trap ?V1)\<lparr>fault_count := 0\<rparr>\<rparr>"
  let ?V3 = "fix_view Store 0xD0110000 ?e ?V2"
  let ?V4 = "?V3\<lparr>v_data := (v_data ?V3)(pte_target ?e \<mapsto> 0xDEADBEEF00000002)\<rparr>"
  have fx: "fixable ?V2 Store 0xD0110000 ?e"
    by (rule test_fixable) (use assms c_words perms c_perms in \<open>simp_all add: ready_def\<close>)
  have "does V (p1c_2 root) ?V4"
    unfolding p1c_2_def Let_def
    apply (rule does_Cons, rule does_log)
    apply (rule does_map_fence [OF c_pages(2) le_trans [OF tables_for_le]], use assms in \<open>simp add: ready_def\<close>, simp add: perms,
        use assms in \<open>simp add: ready_def\<close>)
    apply (rule does_Cons, rule does_reset)
    apply (rule does_Cons, rule does_store_fix [OF fx _ refl], simp add: c_targets c_words)
    apply (rule does_Cons, rule does_count, simp)
    apply (rule does_Cons, rule does_scause, simp add: fault_cause.simps)
    apply (rule does_Cons, rule does_load_free, simp add: c_targets c_words, simp, rule does_assert_eq, simp)
    apply (rule does_one, rule does_log)
    done
  moreover have "ready root k P ?V4"
    using assms room_left [of k V] by (auto simp: ready_def)
  ultimately show ?thesis by blast
qed

lemma does_p1c_3:
  assumes "ready root (k + 2) P V"
  shows "\<exists>W. does V (p1c_3 root) W \<and> ready root k P W"
proof -
  let ?pa = "SRAM_BASE + 0x1B2000 :: u64"
  let ?e = "pt_entry ?pa PTE_R True"
  let ?V1 = "mapped 0xD0120000 ?e V"
  let ?V2 = "?V1\<lparr>v_trap := (v_trap ?V1)\<lparr>fault_count := 0\<rparr>\<rparr>"
  let ?W = "(fix_view Fetch 0xD0120000 ?e ?V2)\<lparr>v_data := Map.empty\<rparr>"
  have rest: "does U (block [fence_i, exec (pt_map_page root 0xD0120000 ?pa PTE_R True), exec sfence_vma_all, reset_fault_count, vcall 0xD0120000,
      assert_fault_count 1 m1 230, assert_scause CAUSE_INST_PAGE_FAULT m2 231, TEST_LOG m3]) ?W"
    if U: "U = V\<lparr>v_data := (v_data V)(?pa \<mapsto> w)\<rparr>" and w: "ucast w = RET_INSN" for U w m1 m2 m3
  proof -
    let ?U1 = "mapped 0xD0120000 ?e U"
    let ?U2 = "?U1\<lparr>v_trap := (v_trap ?U1)\<lparr>fault_count := 0\<rparr>\<rparr>"
    have fx: "fixable ?U2 Fetch 0xD0120000 ?e"
      by (rule test_fixable) (use assms c_words perms c_perms in \<open>simp_all add: ready_def U\<close>)
    have d: "v_data ?U2 (pte_target ?e) = Some w" by (simp add: c_targets c_words U)
    have wk: "weaker ?W (fix_view Fetch 0xD0120000 ?e ?U2)"
      by (simp add: weaker_def U mapped_def fix_view_def tables_for_def)
    show ?thesis
      apply (rule does_Cons, rule does_fence_i)
      apply (rule does_map_fence [OF c_pages(3) le_trans [OF tables_for_le]], use assms in \<open>simp add: ready_def U\<close>, simp add: perms,
          use assms in \<open>simp add: ready_def U\<close>)
      apply (rule does_Cons, rule does_reset)
      apply (rule does_Cons, rule does_call_fix [OF fx d w])
      apply (rule does_Cons, rule does_count, simp)
      apply (rule does_Cons, rule does_scause, simp add: fault_cause.simps)
      apply (rule does_weaken [OF does_one [OF does_log] wk])
      done
  qed
  have "does V (p1c_3 root) ?W"
    unfolding p1c_3_def Let_def
    apply (rule does_Cons, rule does_log)
    apply (rule does_store32_free [OF c_words(5,6)], use assms in \<open>simp add: ready_def\<close>)
    apply (rule rest [OF refl], simp)
    done
  moreover have "ready root k P ?W"
    using assms room_left [of k V] by (auto simp: ready_def)
  ultimately show ?thesis by blast
qed

text \<open>The row of pages of P1C.4.\<close>

definition c4_entry :: "nat \<Rightarrow> u64" where
  "c4_entry i = pt_entry (c4_pa i) (PTE_R OR PTE_W) False"

lemma less_8: "i < 8 \<Longrightarrow> i \<in> {0, 1, 2, 3, 4, 5, 6, 7 :: nat}"
  by auto

lemma c4_page:
  assumes "i < 8"
  shows "page_va (c4_va i)" "vpn_ix 1 (c4_va i) = 0x81" "free_word (c4_pa i)" "page_aligned (c4_pa i)"
  using less_8 [OF assms]
  by (auto simp: c4_va_def c4_pa_def free_word_def page_va_def page_aligned_def take_bit_eq_mod vpn_ix_def platform_consts push_bit_eq_mult
      simp flip: mask9_u64)

lemma c4_distinct:
  assumes "i < 8" "j < 8"
  shows "c4_va i = c4_va j \<longleftrightarrow> i = j" "c4_pa i = c4_pa j \<longleftrightarrow> i = j"
  using less_8 [OF assms(1)] less_8 [OF assms(2)]
  by (auto simp: c4_va_def c4_pa_def platform_consts push_bit_eq_mult)

interpretation c4: page_row c4_va c4_pa 8 "0x81"
  by unfold_locales (use c4_page c4_distinct in auto)

primrec repaired :: "view \<Rightarrow> nat \<Rightarrow> view" where
  "repaired V 0 = V"
| "repaired V (Suc i) = fix_view Load (c4_va i) (c4_entry i) (repaired V i)"

lemma repaired_facts:
  "v_ctl (repaired V i) = v_ctl V" "v_root (repaired V i) = v_root V" "v_data (repaired V i) = v_data V" "v_room (repaired V i) = v_room V"
  "v_trusted (repaired V i) = v_trusted V" "handler_action (v_trap (repaired V i)) = handler_action (v_trap V)"
  "dom (v_pages V) \<subseteq> dom (v_pages (repaired V i))"
  by (induction i) auto

lemma repaired_count: "fault_count (v_trap V) = 0 \<Longrightarrow> i \<le> 8 \<Longrightarrow> fault_count (v_trap (repaired V i)) = int i"
  by (induction i) simp_all

lemma repaired_page: "i \<le> j \<Longrightarrow> j < 8 \<Longrightarrow> v_pages (repaired V i) (c4_va j) = v_pages V (c4_va j)"
  by (induction i) (auto simp: c4_distinct)

lemma does_repairs:
  assumes "v_trusted V = UNIV" "handler_action (v_trap V) = 0"
    "\<forall>j < 8. v_pages V (c4_va j) = Some (c4_entry j) \<and> v_data V (c4_pa j) = Some (c4_expected j)"
  shows "does V (block (map (\<lambda>i. vload (c4_va i) (\<lambda>val. ASSERT_EQ val (c4_expected i) msg (code i))) [0..<8])) (repaired V 8)"
proof -
  have "does (repaired V i) (vload (c4_va i) (\<lambda>val. ASSERT_EQ val (c4_expected i) msg (code i))) (repaired V (Suc i))" if i: "i < 8" for i
  proof -
    note p = c4_page [OF i]
    have fx: "fixable (repaired V i) Load (c4_va i) (c4_entry i)"
      unfolding c4_entry_def
      by (rule test_fixable [OF _ _ _ p(3)])
        (use assms i repaired_page [of i i V] in \<open>simp_all add: repaired_facts perms c_perms c4_entry_def\<close>)
    have "pte_target (c4_entry i) = c4_pa i" unfolding c4_entry_def by (rule c_targets(1) [OF p(4)])
    then have d: "v_data (repaired V i) (pte_target (c4_entry i)) = Some (c4_expected i)" using assms(3) i by (simp add: repaired_facts)
    show ?thesis unfolding repaired.simps by (rule does_load_fix [OF fx d], rule does_assert_eq, rule refl)
  qed
  from does_loop [of 8 "repaired V", OF this] show ?thesis by simp
qed

lemma does_p1c_4:
  assumes "ready root 1 P V" "P \<noteq> {}"
  shows "\<exists>W. does V (p1c_4 root) W \<and> ready root 0 {c4_va 0} W"
proof -
  let ?V0 = "V\<lparr>v_trap := (v_trap V)\<lparr>fault_count := 0\<rparr>\<rparr>"
  let ?F = "filled c4_va c4_pa c4_expected (PTE_R OR PTE_W) False ?V0 8"
  let ?V1 = "?F\<lparr>v_trusted := UNIV\<rparr>"
  have r: "v_trusted ?V0 = UNIV" "v_root ?V0 = root" "handler_action (v_trap V) = 0" using assms by (auto simp: ready_def)
  have k: "tables_for ?V0 (c4_va 0) \<le> v_room ?V0" using assms by (auto simp: ready_def tables_for_def)
  note f = c4.filled_same [of c4_expected "PTE_R OR PTE_W" False ?V0 8]
    and row = c4.filled_row [OF order_refl, of _ c4_expected "PTE_R OR PTE_W" False ?V0, folded c4_entry_def]
  have rp: "does ?V1 (block (map (\<lambda>i. vload (c4_va i) (\<lambda>val. ASSERT_EQ val (c4_expected i) msg (code i))) [0..<8])) (repaired ?V1 8)" for msg code
    by (rule does_repairs) (use f r row in simp_all)
  have n: "fault_count (v_trap (repaired ?V1 8)) = 8" using repaired_count [of ?V1 8] f by simp
  have "does V (p1c_4 root) (repaired ?V1 8)"
    unfolding p1c_4_def NUM_FAULTS_def
    apply (rule does_Cons, rule does_log)
    apply (rule does_Cons, rule does_reset)
    apply (rule does_Cons, rule c4.does_fill [OF r(1) k r(2)], simp)
    apply (rule does_Cons, rule does_fence)
    apply (rule does_Cons, rule rp)
    apply (rule does_Cons, rule does_count, simp add: n)
    apply ((rule does_Cons, rule does_say)+, rule does_one, rule does_log)
    done
  moreover have "c4_va 0 \<in> dom (v_pages ?V1)" using row [of 0] by auto
  then have "ready root 0 {c4_va 0} (repaired ?V1 8)"
    using f r repaired_facts(7) [of ?V1 8] by (auto simp: ready_def repaired_facts)
  ultimately show ?thesis by blast
qed

text \<open>The entry of P1C.5 lets a load through exactly on hardware that sets the A bit itself.\<close>

definition c5_entry :: "u64 \<Rightarrow> u64" where
  "c5_entry pa = push_bit PTE_PPN_SHIFT (drop_bit PGSHIFT pa) OR PTE_V OR PTE_R OR PTE_W"

lemma bit_c5: "bit (c5_entry pa) n \<longleftrightarrow> n = 0 \<or> bit (pt_entry pa (PTE_R OR PTE_W) False) n"
  by (auto simp: c5_entry_def bit_invalid PTE_PPN_SHIFT_def PGSHIFT_def bit_simps flag_bits)

lemma c5_facts:
  assumes "free_word pa" "page_aligned pa"
  shows "pte_target (c5_entry pa) = pa" "drop_bit 54 (c5_entry pa) = 0" "\<not> bit (c5_entry pa) 4" "\<not> is_branch (c5_entry pa)"
    "page_va va \<Longrightarrow> entry_xlat c Load va 0 (c5_entry pa) = (if ctl_svadu c then Some pa else None)"
proof -
  have "pte_target (c5_entry pa) = pte_target (pt_entry pa (PTE_R OR PTE_W) False)"
    by (rule bit_word_eqI) (auto simp: pte_target_def bit_simps bit_c5)
  then show t: "pte_target (c5_entry pa) = pa" using c_targets(1) [OF assms(2)] by simp
  have h: "drop_bit 54 (pt_entry pa (PTE_R OR PTE_W) False) = 0"
    by (rule entry_high [OF _ assms(1)]) (auto simp: bit_simps flag_bits)
  show d: "drop_bit 54 (c5_entry pa) = 0"
    by (rule drop_bit_0I) (use drop_bit_0_bit [OF h] in \<open>auto simp: bit_c5\<close>)
  have b: "bit (c5_entry pa) 0" "bit (c5_entry pa) 1" "bit (c5_entry pa) 2" "\<not> bit (c5_entry pa) 4" "\<not> bit (c5_entry pa) 6"
    by (auto simp: bit_c5 bit_invalid bit_simps flag_bits)
  then show "\<not> bit (c5_entry pa) 4" "\<not> is_branch (c5_entry pa)" by (auto simp: is_branch_def)
  assume va: "page_va va"
  then have "take_bit 12 va = 0" "va_canonical va" using page_va_canonical by (simp_all add: page_va_def page_aligned_def)
  then show "entry_xlat c Load va 0 (c5_entry pa) = (if ctl_svadu c then Some pa else None)"
    using b d leaf_aligned_0 t
    by (simp add: entry_xlat_def leaf_xlat_def pte_valid_def pte_is_leaf_def pte_allows_def pte_ad_ok_def)
qed

lemma c5_map_at:
  assumes "map_at pt_pool_alloc 0 root va (c5_entry pa) s = Some s'"
  shows "\<exists>p. p1c_5_map root va pa s = (p, s')"
proof -
  let ?a2 = "slot root (vpn_ix 2 va)"
  have br: "push_bit PTE_PPN_SHIFT (drop_bit PGSHIFT x) OR PTE_V = pte_branch x" for x by (simp only: pte_branch_def pt_ppn_def)
  from assms obtain s1 s2 where
    1: "ensure_table pt_pool_alloc ?a2 s = Some s1" and
    2: "ensure_table pt_pool_alloc (slot (pte_target (mem s1 ?a2)) (vpn_ix 1 va)) s1 = Some s2" and
    3: "s' = st64 (slot (pte_target (mem s2 (slot (pte_target (mem s1 ?a2)) (vpn_ix 1 va)))) (vpn_ix 0 va)) (c5_entry pa) s2"
    by (auto simp: map_at_def numeral_2_eq_2 split: bind_splits)
  show ?thesis
    unfolding p1c_5_map_def Let_def entry_vpn br table_of_entry
      pt_alloc_if [OF 1, unfolded Let_def] pt_alloc_if [OF 2, unfolded Let_def]
    by (simp add: 3 c5_entry_def)
qed

lemma does_c5_map:
  assumes "page_va va" "tables_for V va \<le> v_room V" "root = v_root V" "free_word pa" "page_aligned pa"
    and k: "\<And>p. does (map_view va (c5_entry pa) V) (k p) W"
  shows "does V (\<lambda>s. case p1c_5_map root va pa s of (p, s) \<Rightarrow> k p s) W"
proof (rule doesI)
  fix s assume v: "viewed V (s :: 'a program_scheme)"
  obtain s' where m: "map_at pt_pool_alloc 0 root va (c5_entry pa) s = Some s'" "viewed (map_view va (c5_entry pa) V) s'"
    unfolding assms(3) by (rule viewed_map_at [OF v assms(1,2) c5_facts(4) [OF assms(4,5)]])
  from c5_map_at [OF m(1)] obtain p where "p1c_5_map root va pa s = (p, s')" by blast
  with k [of p] m(2) show "\<exists>s'. (case p1c_5_map root va pa s of (p, s) \<Rightarrow> k p s) = Ret s' \<and> viewed W s'" by (auto simp: does_def)
qed

lemma does_if_trap:
  assumes "\<And>t. c (t\<lparr>sepc := 0\<rparr>) = c t" "does V (if c (v_trap V) then f else g) W"
  shows "does V (\<lambda>s. if c (g_trap s) then f s else g s) W"
proof (rule doesI)
  fix s assume v: "viewed V (s :: 'a program_scheme)"
  have "c (g_trap s) = c (v_trap V)" using arg_cong [OF viewedD(7) [OF v], of c] assms(1) by simp
  with v assms(2) show "\<exists>s'. (if c (g_trap s) then f s else g s) = Ret s' \<and> viewed W s'" by (auto simp: does_def)
qed

lemma does_if_say: "does V f V \<Longrightarrow> does V (\<lambda>s. if_do (c s) f s) V"
  by (auto simp: does_def if_do_def)

lemma does_p1c_5:
  assumes "ready root 0 {c4_va 0} V"
  shows "\<exists>W. does V (p1c_5 root) W \<and> True"
proof -
  let ?pa = "SRAM_BASE + 0x1D0000 :: u64" and ?va = "0xD0300000 :: u64"
  let ?e = "c5_entry ?pa"
  let ?V1 = "map_view ?va ?e V"
  let ?V2 = "?V1\<lparr>v_trusted := UNIV\<rparr>"
  let ?V3 = "?V2\<lparr>v_trap := (v_trap ?V2)\<lparr>fault_count := 0\<rparr>\<rparr>"
  let ?V4 = "?V3\<lparr>v_data := (v_data ?V3)(?pa \<mapsto> 0x1234567890ABCDEF)\<rparr>"
  let ?W = "if ctl_svadu (v_ctl V) then ?V4\<lparr>v_pages := (v_pages ?V4)(?va := None)\<rparr> else fix_view Load ?va ?e ?V4"
  note e = c5_facts [OF c_words(7,8)] and x = c5_facts(5) [OF c_words(7,8) c_pages(4)]
  have "vpn_ix 1 ?va = 0x81" by (simp add: vpn_ix_def flip: mask9_u64)
  then have k: "tables_for V ?va \<le> v_room V"
    using assms c4_page(2) [of 0] by (auto simp: ready_def tables_for_def)
  have ld: "does ?V4 (vload ?va (\<lambda>val s. if fault_count (g_trap s) = 0
      then block [uart_puts m1, ASSERT_EQ val 0x1234567890ABCDEF m2 260, \<lambda>s. if_do (mem s p AND PTE_A \<noteq> 0) (uart_puts m3) s] s
      else block [uart_puts m4, assert_scause CAUSE_LOAD_PAGE_FAULT m5 261, ASSERT_EQ val 0x1234567890ABCDEF m6 262] s)) ?W"
    for m1 m2 m3 m4 m5 m6 p
  proof (cases "ctl_svadu (v_ctl V)")
    case True
    show ?thesis
      apply (rule does_load_ad [of _ _ ?e ?pa], simp, simp, simp add: x True, simp)
      apply (rule does_if_trap, simp, simp add: True)
      apply (rule does_Cons, rule does_say, rule does_Cons, rule does_assert_eq, simp)
      apply (rule does_one, rule does_if_say, rule does_say)
      done
  next
    case False
    have fx: "fixable ?V4 Load ?va ?e" using assms e x False by (simp add: fixable_def ready_def)
    show ?thesis
      apply (rule does_load_fix [OF fx], simp add: e)
      apply (rule does_if_trap, simp, simp add: False)
      apply (rule does_Cons, rule does_say, rule does_Cons, rule does_scause, simp add: fault_cause.simps)
      apply (rule does_one, rule does_assert_eq, simp)
      done
  qed
  have "does V (p1c_5 root) ?W"
    unfolding p1c_5_def Let_def
    apply (rule does_Cons, rule does_log)
    apply (rule does_Cons, rule does_c5_map [OF c_pages(4) k _ c_words(7,8)], use assms in \<open>simp add: ready_def\<close>)
     apply (rule does_Cons, rule does_fence, rule does_Cons, rule does_reset)
     apply (rule does_Cons, rule does_store_free [OF c_words(7)], simp)
     apply (rule does_one, rule ld)
    apply (rule does_one, rule does_log)
    done
  then show ?thesis by blast
qed

section \<open>The programs pass\<close>

lemma does_then:
  assumes "\<exists>U. does V f U \<and> P U" "\<And>U. P U \<Longrightarrow> \<exists>W. does U (block fs) W \<and> Q W"
  shows "\<exists>W. does V (block (f # fs)) W \<and> Q W"
  using assms does_Cons by blast

lemma p1c_runs:
  assumes v: "viewed V s" and r: "v_trusted V = UNIV" "v_root V = root" "7 \<le> v_room V"
  shows "\<exists>s'. block [TEST_LOG msg, exec (upd_trap (\<lambda>t. t\<lparr>handler_action := 0\<rparr>)), p1c_1 root, p1c_2 root, p1c_3 root, p1c_4 root, p1c_5 root,
    banner title] s = Ret s' \<and> dev_ok (dev s')"
proof -
  let ?U = "V\<lparr>v_trap := (v_trap V)\<lparr>handler_action := 0\<rparr>\<rparr>"
  have h: "does V (exec (upd_trap (\<lambda>t. t\<lparr>handler_action := 0\<rparr>))) ?U" by (rule does_trap) simp
  have rdy: "ready root (1 + 2 + 2 + 2) {} ?U" using r by (simp add: ready_def)
  have "\<exists>W. does ?U (block [p1c_1 root, p1c_2 root, p1c_3 root, p1c_4 root, p1c_5 root, banner title]) W \<and> True"
    by (rule does_then [OF does_p1c_1 [OF rdy]], rule does_then, erule does_p1c_2, rule does_then, erule does_p1c_3, rule does_then,
        erule does_p1c_4, simp, rule does_then, erule does_p1c_5) (blast intro: does_one does_banner)
  then have "\<exists>W. does V (block [TEST_LOG msg, exec (upd_trap (\<lambda>t. t\<lparr>handler_action := 0\<rparr>)), p1c_1 root, p1c_2 root, p1c_3 root, p1c_4 root, p1c_5 root,
      banner title]) W"
    using does_Cons [OF does_log does_Cons [OF h]] by blast
  then show ?thesis using does_run [OF _ v] by blast
qed

text \<open>The preamble the programs share: banner, tables, translation on.\<close>

lemma main_returns:
  fixes s :: "'z program_scheme"
  assumes "booted s"
    and run: "\<And>root V t. viewed V t \<Longrightarrow> v_trusted V = UNIV \<Longrightarrow> v_root V = root \<Longrightarrow> v_room V = 7 \<Longrightarrow> v_ctl V = mmu_view s \<Longrightarrow>
      v_data V = (\<lambda>a. if free_word a then Some (mem s a) else None) \<Longrightarrow> \<exists>t'. block (fs root) t = Ret t' \<and> dev_ok (dev t')"
  shows "\<exists>s'. returning 0 (block [banner title, exec pt_reset,
      \<lambda>s. case pt_setup_identity_kernel s of (root, s) \<Rightarrow> block (exec (mmu_enable_sv39 root) # fs root) s] s) = Ret (0, s') \<and> dev_ok (dev s')"
proof -
  have d: "dev_ok (dev s)" using assms(1) by (simp add: booted_def)
  from banner_say [OF d] obtain cs where 1: "banner title s = Ret (say cs s)" by blast
  let ?s1 = "say cs s"
  have b1: "booted ?s1" by (rule booted_dev [OF assms(1)]) (use d in simp)
  obtain root s2 where r: "pt_setup_identity_kernel (pt_reset ?s1) = (root, s2)" by fastforce
  have d2: "dev_ok (dev s2)" using identity_pool_only [OF r] d by (auto simp: pool_only_def)
  have v: "viewed (start_view ?s1) (mmu_enable_sv39 root (s2\<lparr>dev := dev s2\<rparr>))" and root: "root = pt_pool ?s1"
    by (rule enable_viewed [OF b1 r d2])+
  have "\<exists>t'. block (fs root) (mmu_enable_sv39 root (s2\<lparr>dev := dev s2\<rparr>)) = Ret t' \<and> dev_ok (dev t')"
    by (rule run [OF v]) (simp_all add: start_view_def root cong: if_cong)
  then obtain s3 where "block (fs root) (mmu_enable_sv39 root s2) = Ret s3" "dev_ok (dev s3)" by auto
  with 1 r show ?thesis by (simp add: returning_def block_Cons)
qed

lemma p1c_main_returns: "booted s \<Longrightarrow> \<exists>s'. p1c_test_main s = Ret (0, s') \<and> dev_ok (dev s')"
  unfolding p1c_test_main_def by (erule main_returns) (rule p1c_runs, assumption+, linarith)

end
