(* ===== verification/BareFault.thy ===== *)
theory BareFault
  imports BareRepair
begin

text \<open>
  Phase 1B of the bare-metal suite, \<^verbatim>\<open>tests/p1b_fault_gen.c\<close>: forbidden accesses, which the handler skips (or, for
  instruction fetches, repairs), and the cause and address it must have recorded.
\<close>

section \<open>The program\<close>

definition verify_fault :: "string \<Rightarrow> c_int \<Rightarrow> u64 \<Rightarrow> c_int \<Rightarrow> 'z program_scheme \<Rightarrow> 'z program_scheme run" where
  "verify_fault name exp_cause exp_stval test_code = block
     [\<lambda>s. ASSERT_EQ (scause (g_trap s)) (u64_of_int exp_cause) name test_code s,
      \<lambda>s. ASSERT_EQ (stval (g_trap s)) exp_stval name (test_code + 1) s,
      uart_puts ''    '', uart_puts name,
      uart_puts '': scause='', \<lambda>s. uart_put_dec (int_of_u64 (scause (g_trap s))) s,
      uart_puts '' stval='', \<lambda>s. uart_put_hex (stval (g_trap s)) s,
      uart_puts ('' OK'' @ [CHR 0x0A])]"

definition reset_scause :: "'z program_scheme \<Rightarrow> 'z program_scheme run" where
  "reset_scause = exec (upd_trap (\<lambda>t. t\<lparr>scause := 0\<rparr>))"

definition set_handler_action :: "c_int \<Rightarrow> 'z program_scheme \<Rightarrow> 'z program_scheme run" where
  "set_handler_action a = exec (upd_trap (\<lambda>t. t\<lparr>handler_action := a\<rparr>))"

definition p1b_1 :: "u64 \<Rightarrow> 'z program_scheme \<Rightarrow> 'z program_scheme run" where
  "p1b_1 root = (let va = 0xD0000000; pa = SRAM_BASE + 0x1A0000 in block
     [TEST_LOG (''P1B.1 '' @ dash @ '' Load from V=0 page...''),
      exec (pt_map_page root va pa (PTE_R OR PTE_W) False),
      exec sfence_vma_all,
      reset_fault_count,
      reset_scause,
      vload va (\<lambda>val. block
        [assert_fault_count 1 ''P1B.1 fault_count'' 110,
         verify_fault ''P1B.1 Load V=0'' (int_of_u64 CAUSE_LOAD_PAGE_FAULT) va 111])])"

definition p1b_2 :: "u64 \<Rightarrow> 'z program_scheme \<Rightarrow> 'z program_scheme run" where
  "p1b_2 root = (let va = 0xD0010000; pa = SRAM_BASE + 0x1A1000 in block
     [TEST_LOG (''P1B.2 '' @ dash @ '' Store to V=0 page...''),
      exec (pt_map_page root va pa (PTE_R OR PTE_W) False),
      exec sfence_vma_all,
      reset_fault_count,
      reset_scause,
      vstore va 0xBEEF,
      assert_fault_count 1 ''P1B.2 fault_count'' 120,
      verify_fault ''P1B.2 Store V=0'' (int_of_u64 CAUSE_STORE_PAGE_FAULT) va 121])"

definition p1b_3 :: "u64 \<Rightarrow> 'z program_scheme \<Rightarrow> 'z program_scheme run" where
  "p1b_3 root = (let va = 0xD0030000; pa = SRAM_BASE + 0x1A3000 in block
     [TEST_LOG (''P1B.3 '' @ dash @ '' Execute from V=0 page...''),
      set_handler_action 0,
      vstore32 pa RET_INSN,
      fence_i,
      exec (pt_map_page root va pa (PTE_R OR PTE_X) False),
      exec sfence_vma_all,
      reset_fault_count,
      reset_scause,
      vcall va,
      assert_fault_count 1 ''P1B.3 fault_count'' 130,
      assert_scause CAUSE_INST_PAGE_FAULT ''P1B.3 scause'' 131,
      TEST_LOG (''P1B.3 '' @ dash @ '' Execute from V=0 page: OK''),
      set_handler_action 1])"

definition p1b_4 :: "u64 \<Rightarrow> 'z program_scheme \<Rightarrow> 'z program_scheme run" where
  "p1b_4 root = (let va = 0xD0040000; pa = SRAM_BASE + 0x1A4000 in block
     [TEST_LOG (''P1B.4 '' @ dash @ '' Load from R=0 page...''),
      exec (pt_map_page root va pa PTE_X True),
      exec sfence_vma_all,
      reset_fault_count,
      reset_scause,
      vload va (\<lambda>val. block
        [assert_fault_count 1 ''P1B.4 fault_count'' 140,
         verify_fault ''P1B.4 Load R=0'' (int_of_u64 CAUSE_LOAD_PAGE_FAULT) va 141])])"

definition p1b_5 :: "u64 \<Rightarrow> 'z program_scheme \<Rightarrow> 'z program_scheme run" where
  "p1b_5 root = (let va = 0xD0050000; pa = SRAM_BASE + 0x1A5000 in block
     [TEST_LOG (''P1B.5 '' @ dash @ '' Store to W=0 page...''),
      exec (pt_map_page root va pa PTE_R True),
      exec sfence_vma_all,
      reset_fault_count,
      reset_scause,
      vstore va 0xBEEF,
      assert_fault_count 1 ''P1B.5 fault_count'' 150,
      verify_fault ''P1B.5 Store W=0'' (int_of_u64 CAUSE_STORE_PAGE_FAULT) va 151])"

definition p1b_6 :: "u64 \<Rightarrow> 'z program_scheme \<Rightarrow> 'z program_scheme run" where
  "p1b_6 root = (let va = 0xD0060000; pa = SRAM_BASE + 0x1A6000 in block
     [TEST_LOG (''P1B.6 '' @ dash @ '' Execute from X=0 page...''),
      set_handler_action 0,
      vstore32 pa RET_INSN,
      fence_i,
      exec (pt_map_page root va pa PTE_R True),
      exec sfence_vma_all,
      reset_fault_count,
      reset_scause,
      vcall va,
      assert_fault_count 1 ''P1B.6 fault_count'' 160,
      assert_scause CAUSE_INST_PAGE_FAULT ''P1B.6 scause'' 161,
      TEST_LOG (''P1B.6 '' @ dash @ '' Execute from X=0 page: OK''),
      set_handler_action 1])"

definition p1b_7 :: "u64 \<Rightarrow> 'z program_scheme \<Rightarrow> 'z program_scheme run" where
  "p1b_7 root = (let va = 0xD0070000; pa = SRAM_BASE + 0x1A7000 in block
     [TEST_LOG (''P1B.7 '' @ dash @ '' S-mode access to U=1 page (SUM=0)...''),
      exec (pt_map_page root va pa (PTE_R OR PTE_W OR PTE_U) True),
      exec sfence_vma_all,
      exec (\<lambda>s. write_sstatus (read_sstatus s AND NOT MSTATUS_SUM) s),
      reset_fault_count,
      reset_scause,
      vload va (\<lambda>val. block
        [assert_fault_count 1 ''P1B.7 fault_count'' 170,
         verify_fault ''P1B.7 U-page from S-mode'' (int_of_u64 CAUSE_LOAD_PAGE_FAULT) va 171])])"

text \<open>P1B.8 (and P1D.4) write a level-1 leaf by hand; here its frame number is not a multiple of 512.\<close>

definition map_megapage :: "u64 \<Rightarrow> u64 \<Rightarrow> u64 \<Rightarrow> 'z pts_scheme \<Rightarrow> 'z pts_scheme" where
  "map_megapage root va pte s =
     (let idx2 = vpn2 va; idx1 = vpn1 va;
          s = (if mem s (entry root idx2) AND PTE_V = 0
               then let (l1, s) = pt_alloc_page s in st64 (entry root idx2) (push_bit PTE_PPN_SHIFT (drop_bit PGSHIFT l1) OR PTE_V) s
               else s);
          l1 = push_bit PGSHIFT (drop_bit PTE_PPN_SHIFT (mem s (entry root idx2)))
      in st64 (entry l1 idx1) pte s)"

definition bad_ppn :: u64 where
  "bad_ppn = drop_bit PGSHIFT SRAM_BASE OR 0x1"

definition bad_pte :: u64 where
  "bad_pte = push_bit PTE_PPN_SHIFT bad_ppn OR PTE_V OR PTE_R OR PTE_W OR PTE_A OR PTE_D"

definition p1b_8 :: "u64 \<Rightarrow> 'z program_scheme \<Rightarrow> 'z program_scheme run" where
  "p1b_8 root = (let va = 0xE0000000 in block
     [TEST_LOG (''P1B.8 '' @ dash @ '' Misaligned superpage...''),
      exec (map_megapage root va bad_pte),
      exec sfence_vma_all,
      reset_fault_count,
      reset_scause,
      vload va (\<lambda>val. block
        [assert_fault_count 1 ''P1B.8 fault_count'' 180,
         verify_fault ''P1B.8 Misaligned megapage'' (int_of_u64 CAUSE_LOAD_PAGE_FAULT) va 181])])"

definition p1b_test_main :: "'z program_scheme \<Rightarrow> (c_int \<times> 'z program_scheme) run" where
  "p1b_test_main s = returning 0 (block
     [banner ''Phase 1B: Page Fault Generation'',
      exec pt_reset,
      \<lambda>s. case pt_setup_identity_kernel s of (root, s) \<Rightarrow> block
        [exec (mmu_enable_sv39 root),
         TEST_LOG ''MMU enabled with identity kernel map'',
         set_handler_action 1,
         p1b_1 root, p1b_2 root, p1b_3 root, p1b_4 root, p1b_5 root, p1b_6 root, p1b_7 root, p1b_8 root,
         banner ''Phase 1B: ALL TESTS PASSED''] s] s)"

section \<open>Rules for its statements\<close>

abbreviation trap_reset :: "view \<Rightarrow> view" where
  "trap_reset V \<equiv> V\<lparr>v_trap := (v_trap V)\<lparr>fault_count := 0, scause := 0\<rparr>\<rparr>"

lemma does_resets: "does (trap_reset V) (block fs) W \<Longrightarrow> does V (block (reset_fault_count # reset_scause # fs)) W"
proof -
  have "does U reset_scause (U\<lparr>v_trap := (v_trap U)\<lparr>scause := 0\<rparr>\<rparr>)" for U unfolding reset_scause_def by (rule does_trap) simp
  from this [of "V\<lparr>v_trap := (v_trap V)\<lparr>fault_count := 0\<rparr>\<rparr>"]
  show "does (trap_reset V) (block fs) W \<Longrightarrow> does V (block (reset_fault_count # reset_scause # fs)) W"
    by (intro does_Cons [OF does_reset]) (erule does_Cons [rotated], simp)
qed

lemma does_action: "does V (set_handler_action a) (V\<lparr>v_trap := (v_trap V)\<lparr>handler_action := a\<rparr>\<rparr>)"
  unfolding set_handler_action_def by (rule does_trap) simp

lemma does_verify:
  assumes "scause (v_trap V) = u64_of_int c" "stval (v_trap V) = a"
  shows "does V (verify_fault name c a code) V"
  unfolding verify_fault_def
  apply (rule does_Cons, rule does_assert_trap [where f = scause], simp, rule assms(1))
  apply (rule does_Cons, rule does_assert_trap [where f = stval], simp, rule assms(2))
  apply ((rule does_Cons, rule does_say | rule does_Cons, rule does_emit, erule uart_put_dec_say)+, rule does_Nil)
  done

lemma cause_codes:
  "u64_of_int (int_of_u64 CAUSE_LOAD_PAGE_FAULT) = CAUSE_LOAD_PAGE_FAULT" "u64_of_int (int_of_u64 CAUSE_STORE_PAGE_FAULT) = CAUSE_STORE_PAGE_FAULT"
  by (simp_all add: int_of_u64_small u64_of_int_def platform_consts)

text \<open>The part the tests share: the record is cleared, the access is skipped, the record is checked.\<close>

lemma does_skip_load:
  assumes "skipped (trap_reset V) Load va"
  shows "does V (block [reset_fault_count, reset_scause, vload va (\<lambda>v. block
    [assert_fault_count 1 m1 c1, verify_fault m2 (int_of_u64 CAUSE_LOAD_PAGE_FAULT) va c2])]) (skip_view Load va (trap_reset V))"
  apply (rule does_resets, rule does_one, rule does_load_skip [OF assms])
  apply (rule does_Cons, rule does_count, simp add: log_trap_def)
  apply (rule does_one, rule does_verify, simp_all add: log_trap_def cause_codes fault_cause.simps)
  done

lemma does_skip_store:
  assumes "skipped (trap_reset V) Store va"
  shows "does V (block [reset_fault_count, reset_scause, vstore va x, assert_fault_count 1 m1 c1,
    verify_fault m2 (int_of_u64 CAUSE_STORE_PAGE_FAULT) va c2]) (skip_view Store va (trap_reset V))"
  apply (rule does_resets, rule does_Cons, rule does_store_skip [OF assms])
  apply (rule does_Cons, rule does_count, simp add: log_trap_def)
  apply (rule does_one, rule does_verify, simp_all add: log_trap_def cause_codes fault_cause.simps)
  done

section \<open>The tests pass\<close>

text \<open>What a test relies on: the cache is clean, the handler skips, loads do not pass through executable pages, and there is a
  table left after those the region of the test pages needs.\<close>

definition ready_b :: "u64 \<Rightarrow> view \<Rightarrow> bool" where
  "ready_b root V \<longleftrightarrow> v_trusted V = UNIV \<and> v_root V = root \<and> handler_action (v_trap V) = 1 \<and> \<not> ctl_mxr (v_ctl V) \<and>
     (\<forall>va. vpn_ix 1 va = 0x80 \<longrightarrow> tables_for V va < v_room V)"

lemma ready_b_mapped:
  assumes "ready_b root V" "vpn_ix 1 va = 0x80" "v_trusted W = UNIV" "v_root W = v_root V" "handler_action (v_trap W) = 1" "\<not> ctl_mxr (v_ctl W)"
    "v_room W = v_room V - tables_for V va" "va \<in> dom (v_pages W)"
  shows "ready_b root W"
proof -
  have "tables_for W va' = 0" if "vpn_ix 1 va' = 0x80" for va' using that assms(2,8) unfolding tables_for_def by auto
  with assms show ?thesis by (auto simp: ready_b_def)
qed

lemma test_skipped:
  assumes "v_pages V va = Some (pt_entry pa perm valid)" "v_trusted V = UNIV" "handler_action (v_trap V) = 1" "free_word pa"
    "perm_ok perm" "valid \<longrightarrow> \<not> pte_allows (v_ctl V) acc perm" "acc \<noteq> Fetch"
  shows "skipped V acc va"
proof -
  have "entry_xlat (v_ctl V) acc va 0 (pt_entry pa perm valid) = None"
    using entry_xlat_pt_entry [of valid perm pa "v_ctl V" acc va] free_low [OF assms(4)] assms(5,6) by (auto simp: page_space_def)
  with assms show ?thesis by (auto simp: skipped_def decides_def)
qed

lemma b_pages:
  "page_va 0xD0000000" "page_va 0xD0010000" "page_va 0xD0030000" "page_va 0xD0040000" "page_va 0xD0050000" "page_va 0xD0060000" "page_va 0xD0070000"
  "vpn_ix 1 0xD0000000 = 0x80" "vpn_ix 1 0xD0010000 = 0x80" "vpn_ix 1 0xD0030000 = 0x80" "vpn_ix 1 0xD0040000 = 0x80" "vpn_ix 1 0xD0050000 = 0x80"
  "vpn_ix 1 0xD0060000 = 0x80" "vpn_ix 1 0xD0070000 = 0x80"
  by (simp_all add: page_va_def page_aligned_def take_bit_eq_mod vpn_ix_def flip: mask9_u64)

lemma b_words:
  "free_word (SRAM_BASE + 0x1A0000)" "free_word (SRAM_BASE + 0x1A1000)" "free_word (SRAM_BASE + 0x1A3000)" "free_word (SRAM_BASE + 0x1A4000)"
  "free_word (SRAM_BASE + 0x1A5000)" "free_word (SRAM_BASE + 0x1A6000)" "free_word (SRAM_BASE + 0x1A7000)"
  "page_aligned (SRAM_BASE + 0x1A3000)" "page_aligned (SRAM_BASE + 0x1A6000)"
  by (simp_all add: free_word_def platform_consts page_aligned_def take_bit_eq_mod)

lemma b_perms:
  "perm_ok PTE_X" "perm_ok (PTE_R OR PTE_W OR PTE_U)" "\<not> ctl_mxr c \<Longrightarrow> \<not> pte_allows c Load PTE_X"
  "\<not> ctl_sum c \<Longrightarrow> \<not> pte_allows c Load (PTE_R OR PTE_W OR PTE_U)" "\<not> bit (PTE_R OR PTE_X) 4"
  by (auto simp: perm_ok_def pte_allows_def bit_simps flag_bits)

lemma does_b_load:
  assumes r: "ready_b root V" and va: "page_va va" "vpn_ix 1 va = 0x80" and pa: "free_word pa" and perm: "perm_ok perm"
    and no: "valid \<longrightarrow> \<not> pte_allows (v_ctl V) Load perm"
  shows "\<exists>W. does V (block [TEST_LOG m, exec (pt_map_page root va pa perm valid), exec sfence_vma_all, reset_fault_count, reset_scause,
    vload va (\<lambda>v. block [assert_fault_count 1 m1 c1, verify_fault m2 (int_of_u64 CAUSE_LOAD_PAGE_FAULT) va c2])]) W \<and> ready_b root W"
proof -
  let ?V = "mapped va (pt_entry pa perm valid) V"
  let ?W = "skip_view Load va (trap_reset ?V)"
  have sk: "skipped (trap_reset ?V) Load va" by (rule test_skipped) (use r pa perm no in \<open>simp_all add: ready_b_def\<close>)
  have k: "tables_for V va \<le> v_room V" using r va(2) by (auto simp: ready_b_def)
  have "does V (block [TEST_LOG m, exec (pt_map_page root va pa perm valid), exec sfence_vma_all, reset_fault_count, reset_scause,
      vload va (\<lambda>v. block [assert_fault_count 1 m1 c1, verify_fault m2 (int_of_u64 CAUSE_LOAD_PAGE_FAULT) va c2])]) ?W"
    by (rule does_Cons, rule does_log, rule does_map_fence [OF va(1) k], simp add: perm, use r in \<open>simp add: ready_b_def\<close>)
      (rule does_skip_load [OF sk])
  moreover have "ready_b root ?W"
    by (rule ready_b_mapped [OF r va(2)]) (use r in \<open>simp_all add: ready_b_def log_trap_def\<close>)
  ultimately show ?thesis by blast
qed

lemma does_b_store:
  assumes r: "ready_b root V" and va: "page_va va" "vpn_ix 1 va = 0x80" and pa: "free_word pa" and perm: "perm_ok perm"
    and no: "valid \<longrightarrow> \<not> pte_allows (v_ctl V) Store perm"
  shows "\<exists>W. does V (block [TEST_LOG m, exec (pt_map_page root va pa perm valid), exec sfence_vma_all, reset_fault_count, reset_scause,
    vstore va x, assert_fault_count 1 m1 c1, verify_fault m2 (int_of_u64 CAUSE_STORE_PAGE_FAULT) va c2]) W \<and> ready_b root W"
proof -
  let ?V = "mapped va (pt_entry pa perm valid) V"
  let ?W = "skip_view Store va (trap_reset ?V)"
  have sk: "skipped (trap_reset ?V) Store va" by (rule test_skipped) (use r pa perm no in \<open>simp_all add: ready_b_def\<close>)
  have k: "tables_for V va \<le> v_room V" using r va(2) by (auto simp: ready_b_def)
  have "does V (block [TEST_LOG m, exec (pt_map_page root va pa perm valid), exec sfence_vma_all, reset_fault_count, reset_scause,
      vstore va x, assert_fault_count 1 m1 c1, verify_fault m2 (int_of_u64 CAUSE_STORE_PAGE_FAULT) va c2]) ?W"
    by (rule does_Cons, rule does_log, rule does_map_fence [OF va(1) k], simp add: perm, use r in \<open>simp add: ready_b_def\<close>)
      (rule does_skip_store [OF sk])
  moreover have "ready_b root ?W"
    by (rule ready_b_mapped [OF r va(2)]) (use r in \<open>simp_all add: ready_b_def log_trap_def\<close>)
  ultimately show ?thesis by blast
qed

text \<open>Instruction fetches: the handler cannot skip them and repairs the page.\<close>

lemma does_b_call:
  assumes r: "ready_b root V" and va: "page_va va" "vpn_ix 1 va = 0x80" and pa: "free_word pa" "page_aligned pa"
    and perm: "perm_ok perm" "\<not> bit perm 4" and no: "valid \<longrightarrow> \<not> pte_allows (v_ctl V) Fetch perm"
  shows "\<exists>W. does V (block [TEST_LOG m, set_handler_action 0, vstore32 pa RET_INSN, fence_i, exec (pt_map_page root va pa perm valid), exec sfence_vma_all,
    reset_fault_count, reset_scause, vcall va, assert_fault_count 1 m1 c1, assert_scause CAUSE_INST_PAGE_FAULT m2 c2, TEST_LOG m3,
    set_handler_action 1]) W \<and> ready_b root W"
proof -
  let ?e = "pt_entry pa perm valid"
  let ?V0 = "V\<lparr>v_trap := (v_trap V)\<lparr>handler_action := 0\<rparr>\<rparr>"
  let ?F = "fix_view Fetch va ?e (trap_reset (mapped va ?e ?V0))"
  let ?W = "?F\<lparr>v_trap := (v_trap ?F)\<lparr>handler_action := 1\<rparr>, v_data := Map.empty\<rparr>"
  have rest: "does U (block [fence_i, exec (pt_map_page root va pa perm valid), exec sfence_vma_all, reset_fault_count, reset_scause, vcall va,
      assert_fault_count 1 m1 c1, assert_scause CAUSE_INST_PAGE_FAULT m2 c2, TEST_LOG m3, set_handler_action 1]) ?W"
    if U: "U = ?V0\<lparr>v_data := (v_data V)(pa \<mapsto> w)\<rparr>" and w: "ucast w = RET_INSN" for U w
  proof -
    let ?U = "trap_reset (mapped va ?e U)"
    let ?G = "fix_view Fetch va ?e ?U"
    have fx: "fixable ?U Fetch va ?e" by (rule test_fixable) (use r pa perm no in \<open>simp_all add: ready_b_def U\<close>)
    have "pte_target ?e = pa" by (rule entry_target) (use perm(1) pa(2) in \<open>auto simp: perm_ok_def\<close>)
    then have d: "v_data ?U (pte_target ?e) = Some w" by (simp add: U)
    have k: "tables_for U va \<le> v_room U" using r va(2) by (auto simp: ready_b_def U)
    have wk: "weaker ?W (?G\<lparr>v_trap := (v_trap ?G)\<lparr>handler_action := 1\<rparr>\<rparr>)"
      by (simp add: weaker_def U mapped_def fix_view_def)
    show ?thesis
      apply (rule does_Cons, rule does_fence_i)
      apply (rule does_map_fence [OF va(1) k], simp add: perm, use r in \<open>simp add: ready_b_def U\<close>)
      apply (rule does_resets, rule does_Cons, rule does_call_fix [OF fx d w])
      apply (rule does_Cons, rule does_count, simp)
      apply (rule does_Cons, rule does_scause, simp add: fault_cause.simps)
      apply (rule does_Cons, rule does_log, rule does_weaken [OF does_one [OF does_action] wk])
      done
  qed
  have "does V (block [TEST_LOG m, set_handler_action 0, vstore32 pa RET_INSN, fence_i, exec (pt_map_page root va pa perm valid), exec sfence_vma_all,
      reset_fault_count, reset_scause, vcall va, assert_fault_count 1 m1 c1, assert_scause CAUSE_INST_PAGE_FAULT m2 c2, TEST_LOG m3,
      set_handler_action 1]) ?W"
    apply (rule does_Cons, rule does_log, rule does_Cons, rule does_action)
    apply (rule does_store32_free [OF pa], use r in \<open>simp add: ready_b_def\<close>)
    apply (rule rest, simp, simp)
    done
  moreover have "ready_b root ?W"
    by (rule ready_b_mapped [OF r va(2)]) (use r in \<open>simp_all add: ready_b_def\<close>)
  ultimately show ?thesis by blast
qed

lemma does_p1b_7:
  assumes r: "ready_b root V"
  shows "\<exists>W. does V (p1b_7 root) W \<and> ready_b root W"
proof -
  let ?va = "0xD0070000 :: u64" and ?pa = "SRAM_BASE + 0x1A7000 :: u64" and ?perm = "PTE_R OR PTE_W OR PTE_U"
  let ?V = "mapped ?va (pt_entry ?pa ?perm True) V"
  let ?U = "?V\<lparr>v_ctl := (v_ctl ?V)\<lparr>ctl_sum := False\<rparr>\<rparr>"
  let ?W = "skip_view Load ?va (trap_reset ?U)"
  have sk: "skipped (trap_reset ?U) Load ?va"
    by (rule test_skipped [of _ _ ?pa ?perm True]) (use r b_words(7) b_perms in \<open>simp_all add: ready_b_def\<close>)
  have k: "tables_for V ?va \<le> v_room V" using r b_pages(14) by (auto simp: ready_b_def)
  have "does V (p1b_7 root) ?W"
    unfolding p1b_7_def Let_def
    apply (rule does_Cons, rule does_log, rule does_map_fence [OF b_pages(7) k], simp add: b_perms, use r in \<open>simp add: ready_b_def\<close>)
    apply (rule does_Cons, rule does_clear_sum, rule does_skip_load [OF sk])
    done
  moreover have "ready_b root ?W"
    by (rule ready_b_mapped [OF r b_pages(14)]) (use r in \<open>simp_all add: ready_b_def log_trap_def\<close>)
  ultimately show ?thesis by blast
qed

text \<open>The misaligned superpage.\<close>

lemma bad_pte_bits: "bit bad_pte 0" "\<not> is_branch bad_pte" "\<not> leaf_aligned 1 bad_pte"
proof -
  have b: "bad_pte = 0x200004C7"
    by (simp add: bad_pte_def bad_ppn_def platform_consts drop_bit_eq_div push_bit_eq_mult)
  show "bit bad_pte 0" "\<not> is_branch bad_pte" by (simp_all add: b is_branch_def)
  have "bit (pte_target bad_pte) 12" by (simp add: b pte_target_def bit_simps)
  then have "bit (take_bit 21 (pte_target bad_pte)) 12" by (simp add: bit_simps)
  then show "\<not> leaf_aligned 1 bad_pte" by (auto simp: leaf_aligned_def)
qed

lemma bad_xlat: "entry_xlat c acc va 1 bad_pte = None"
  using bad_pte_bits(3) by (simp add: entry_xlat_def leaf_xlat_def)

lemma map_megapage_at:
  assumes "map_at pt_pool_alloc 1 root va pte s = Some s'"
  shows "map_megapage root va pte s = s'"
proof -
  have br: "push_bit PTE_PPN_SHIFT (drop_bit PGSHIFT x) OR PTE_V = pte_branch x" for x by (simp only: pte_branch_def pt_ppn_def)
  from assms obtain s1 where 1: "ensure_table pt_pool_alloc (slot root (vpn_ix 2 va)) s = Some s1"
    and 2: "s' = st64 (slot (pte_target (mem s1 (slot root (vpn_ix 2 va)))) (vpn_ix 1 va)) pte s1"
    by (auto simp: map_at_def numeral_2_eq_2 split: bind_splits)
  show ?thesis
    unfolding map_megapage_def Let_def entry_vpn br table_of_entry pt_alloc_if [OF 1, unfolded Let_def] by (simp add: 2)
qed

lemma does_map_big:
  assumes "vpn_ix 2 va = 3" "256 \<le> vpn_ix 1 va" "1 \<le> v_room V" "\<not> is_branch e" "bit e 0" "root = v_root V"
  shows "does V (exec (map_megapage root va e)) (map_big_view va e V)"
proof (rule doesI)
  fix s assume v: "viewed V (s :: 'a program_scheme)"
  obtain s' where s': "map_at pt_pool_alloc 1 root va e s = Some s'" "viewed (map_big_view va e V) s'"
    unfolding assms(6) by (rule viewed_map_big [OF v assms(1-5)])
  with map_megapage_at [OF s'(1)] show "\<exists>s'. exec (map_megapage root va e) s = Ret s' \<and> viewed (map_big_view va e V) s'" by simp
qed

lemma does_p1b_8:
  assumes r: "ready_b root V"
  shows "\<exists>W. does V (p1b_8 root) W \<and> True"
proof -
  let ?va = "0xE0000000 :: u64"
  let ?V = "(map_big_view ?va bad_pte V)\<lparr>v_trusted := UNIV\<rparr>"
  have va: "vpn_ix 2 ?va = 3" "256 \<le> vpn_ix 1 ?va" by (simp_all add: vpn_ix_def flip: mask9_u64)
  have k: "1 \<le> v_room V" using r b_pages(8) by (auto simp: ready_b_def Suc_le_eq intro: le_less_trans [OF le0])
  have "decides (trap_reset ?V) ?va 1 bad_pte" using va(1) by (simp add: decides_def map_big_view_def)
  then have sk: "skipped (trap_reset ?V) Load ?va"
    unfolding skipped_def using r bad_xlat [of _ Load ?va] by (auto simp: ready_b_def map_big_view_def)
  have "does V (p1b_8 root) (skip_view Load ?va (trap_reset ?V))"
    unfolding p1b_8_def Let_def
    apply (rule does_Cons, rule does_log)
    apply (rule does_Cons, rule does_map_big [OF va k bad_pte_bits(2,1)], use r in \<open>simp add: ready_b_def\<close>)
    apply (rule does_Cons, rule does_fence, rule does_skip_load [OF sk])
    done
  then show ?thesis by blast
qed

section \<open>The program passes\<close>

lemma does_p1b_1: "ready_b root V \<Longrightarrow> \<exists>W. does V (p1b_1 root) W \<and> ready_b root W"
  unfolding p1b_1_def Let_def by (rule does_b_load [OF _ b_pages(1,8) b_words(1) perms(1)]) simp_all

lemma does_p1b_2: "ready_b root V \<Longrightarrow> \<exists>W. does V (p1b_2 root) W \<and> ready_b root W"
  unfolding p1b_2_def Let_def by (rule does_b_store [OF _ b_pages(2,9) b_words(2) perms(1)]) simp_all

lemma does_p1b_3: "ready_b root V \<Longrightarrow> \<exists>W. does V (p1b_3 root) W \<and> ready_b root W"
  unfolding p1b_3_def Let_def by (rule does_b_call [OF _ b_pages(3,10) b_words(3,8) perms(2) b_perms(5)]) simp_all

lemma does_p1b_4: "ready_b root V \<Longrightarrow> \<exists>W. does V (p1b_4 root) W \<and> ready_b root W"
  unfolding p1b_4_def Let_def
  by (rule does_b_load [OF _ b_pages(4,11) b_words(4) b_perms(1)]) (simp_all add: b_perms(3) ready_b_def)

lemma does_p1b_5: "ready_b root V \<Longrightarrow> \<exists>W. does V (p1b_5 root) W \<and> ready_b root W"
  unfolding p1b_5_def Let_def by (rule does_b_store [OF _ b_pages(5,12) b_words(5) perms(3)]) (simp_all add: c_perms)

lemma does_p1b_6: "ready_b root V \<Longrightarrow> \<exists>W. does V (p1b_6 root) W \<and> ready_b root W"
  unfolding p1b_6_def Let_def by (rule does_b_call [OF _ b_pages(6,13) b_words(6,9) perms(3) c_perms(2)]) (simp_all add: c_perms)

lemma p1b_runs:
  assumes v: "viewed V s" and r: "v_trusted V = UNIV" "v_root V = root" "v_room V = 7" "\<not> ctl_mxr (v_ctl V)"
  shows "\<exists>s'. block [TEST_LOG msg, set_handler_action 1, p1b_1 root, p1b_2 root, p1b_3 root, p1b_4 root, p1b_5 root, p1b_6 root, p1b_7 root,
    p1b_8 root, banner title] s = Ret s' \<and> dev_ok (dev s')"
proof -
  let ?U = "V\<lparr>v_trap := (v_trap V)\<lparr>handler_action := 1\<rparr>\<rparr>"
  have rdy: "ready_b root ?U" using r le_less_trans [OF tables_for_le, of 7 V] by (simp add: ready_b_def)
  have "\<exists>W. does ?U (block [p1b_1 root, p1b_2 root, p1b_3 root, p1b_4 root, p1b_5 root, p1b_6 root, p1b_7 root, p1b_8 root, banner title]) W \<and> True"
    by (rule does_then [OF does_p1b_1 [OF rdy]], rule does_then, erule does_p1b_2, rule does_then, erule does_p1b_3, rule does_then,
        erule does_p1b_4, rule does_then, erule does_p1b_5, rule does_then, erule does_p1b_6, rule does_then, erule does_p1b_7,
        rule does_then, erule does_p1b_8) (blast intro: does_one does_banner)
  then have "\<exists>W. does V (block [TEST_LOG msg, set_handler_action 1, p1b_1 root, p1b_2 root, p1b_3 root, p1b_4 root, p1b_5 root, p1b_6 root,
      p1b_7 root, p1b_8 root, banner title]) W"
    using does_Cons [OF does_log does_Cons [OF does_action]] by blast
  then show ?thesis using does_run [OF _ v] by blast
qed

lemma p1b_main_returns:
  assumes "booted s" "\<not> bit (csr_mstatus (cpu s)) 19"
  shows "\<exists>s'. p1b_test_main s = Ret (0, s') \<and> dev_ok (dev s')"
  unfolding p1b_test_main_def
  by (rule main_returns [OF assms(1)]) (rule p1b_runs, assumption+, use assms(2) in \<open>simp add: mmu_view_def\<close>)

end
