(* ===== verification/BareTlb.thy ===== *)
theory BareTlb
  imports BareFault
begin

text \<open>
  Phase 1D of the bare-metal suite, \<^verbatim>\<open>tests/p1d_tlb_ptw.c\<close>: entries are changed behind the back of the translation
  cache, flushed for one address or not at all; many pages; a superpage; the identity gigapage.
\<close>

section \<open>The program\<close>

text \<open>Finding the entry of a page and pointing it to another frame.\<close>

definition repoint :: "u64 \<Rightarrow> u64 \<Rightarrow> u64 \<Rightarrow> 'z pts_scheme \<Rightarrow> 'z pts_scheme" where
  "repoint root va pa_new s =
     (let (level, pte) = pt_walk root va s; ppn_new = drop_bit PGSHIFT pa_new
      in st64 pte (push_bit PTE_PPN_SHIFT ppn_new OR PTE_V OR PTE_R OR PTE_W OR PTE_A OR PTE_D) s)"

definition fence_w_w :: "'z program_scheme \<Rightarrow> 'z program_scheme run" where
  "fence_w_w = skip"

definition p1d_1 :: "u64 \<Rightarrow> 'z program_scheme \<Rightarrow> 'z program_scheme run" where
  "p1d_1 root = (let va_a = 0xD1000000; va_b = 0xD1010000; pa_a = SRAM_BASE + 0x1E0000; pa_b = SRAM_BASE + 0x1E1000;
       pa_a_new = SRAM_BASE + 0x1E2000 in block
     [TEST_LOG (''P1D.1 '' @ dash @ '' Targeted sfence.vma...''),
      vstore pa_a 0xAAAAAAAA00000001,
      vstore pa_b 0xBBBBBBBB00000002,
      vstore pa_a_new 0xAAAAAAAA00000003,
      exec (pt_map_page root va_a pa_a (PTE_R OR PTE_W) True),
      exec (pt_map_page root va_b pa_b (PTE_R OR PTE_W) True),
      exec sfence_vma_all,
      vload va_a (\<lambda>val_a. vload va_b (\<lambda>val_b. block
        [ASSERT_EQ val_a 0xAAAAAAAA00000001 ''P1D.1 initial VA_A'' 310,
         ASSERT_EQ val_b 0xBBBBBBBB00000002 ''P1D.1 initial VA_B'' 311])),
      exec (repoint root va_a pa_a_new),
      fence_w_w,
      exec (sfence_vma_addr va_a),
      vload va_a (\<lambda>val_a. ASSERT_EQ val_a 0xAAAAAAAA00000003 ''P1D.1 VA_A after targeted flush'' 312),
      vload va_b (\<lambda>val_b. ASSERT_EQ val_b 0xBBBBBBBB00000002 ''P1D.1 VA_B after targeted flush'' 313),
      TEST_LOG (''P1D.1 '' @ dash @ '' Targeted sfence.vma: OK'')])"

definition p1d_2 :: "u64 \<Rightarrow> 'z program_scheme \<Rightarrow> 'z program_scheme run" where
  "p1d_2 root = (let va = 0xD1100000; pa_old = SRAM_BASE + 0x1E4000; pa_new = SRAM_BASE + 0x1E5000 in block
     [TEST_LOG (''P1D.2 '' @ dash @ '' Stale TLB (no sfence.vma after PTE change)...''),
      vstore pa_old 0x1111111111111111,
      vstore pa_new 0x2222222222222222,
      exec (pt_map_page root va pa_old (PTE_R OR PTE_W) True),
      exec sfence_vma_all,
      vload va (\<lambda>val. ASSERT_EQ val 0x1111111111111111 ''P1D.2 initial'' 320),
      exec (repoint root va pa_new),
      fence_w_w,
      vload va (\<lambda>val. let got_old = val = 0x1111111111111111; got_new = val = 0x2222222222222222 in block
        [uart_puts ''    Without sfence.vma, read returned: '',
         uart_put_hex val,
         if got_old then uart_puts ('' (old '' @ dash @ '' stale TLB hit)'')
         else if got_new then uart_puts ('' (new '' @ dash @ '' TLB re-walked)'')
         else uart_puts ('' (UNEXPECTED '' @ dash @ '' BUG)''),
         uart_putc (CHR 0x0A),
         test_assert (got_old \<or> got_new) ''P1D.2: value must be old or new'' 321]),
      exec (sfence_vma_addr va),
      vload va (\<lambda>val. ASSERT_EQ val 0x2222222222222222 ''P1D.2 after sfence should get new'' 322),
      TEST_LOG (''P1D.2 '' @ dash @ '' Stale TLB behavior: OK (spec-compliant)'')])"

definition THRASH_COUNT_B :: nat where
  "THRASH_COUNT_B = 128"

definition d3_va :: "nat \<Rightarrow> u64" where
  "d3_va i = 0xD2000000 + of_nat i * PGSIZE"

definition d3_pa :: "nat \<Rightarrow> u64" where
  "d3_pa i = SRAM_BASE + 0x100000 + of_nat i * PGSIZE"

definition d3_expected :: "nat \<Rightarrow> u64" where
  "d3_expected i = 0xCC00000000000000 OR of_nat i"

definition d3_check :: "nat \<Rightarrow> nat \<Rightarrow> 'z program_scheme \<Rightarrow> 'z program_scheme run" where
  "d3_check pass i = vload (d3_va i) (\<lambda>val. if_do (val \<noteq> d3_expected i) (block
     [uart_puts ''    TLB thrash mismatch at page '', uart_put_dec (int i), uart_puts '' pass '', uart_put_dec (int pass),
      uart_putc (CHR 0x0A), test_fail (330 + int pass * 130 + int i)]))"

definition p1d_3 :: "u64 \<Rightarrow> 'z program_scheme \<Rightarrow> 'z program_scheme run" where
  "p1d_3 root = block
     [TEST_LOG (''P1D.3 '' @ dash @ '' TLB thrash (128 pages, TLB=64)...''),
      block (map (\<lambda>i. block
        [vstore (d3_pa i) (d3_expected i), exec (pt_map_page root (d3_va i) (d3_pa i) (PTE_R OR PTE_W) True)]) [0..<THRASH_COUNT_B]),
      exec sfence_vma_all,
      block (map (\<lambda>pass. block (map (d3_check pass) [0..<THRASH_COUNT_B])) [0..<2]),
      uart_puts (''    128 pages, 2 passes: all correct'' @ [CHR 0x0A]),
      TEST_LOG (''P1D.3 '' @ dash @ '' TLB thrash: OK'')]"

definition mega_pte :: u64 where
  "mega_pte = push_bit PTE_PPN_SHIFT (drop_bit PGSHIFT SRAM_BASE) OR PTE_V OR PTE_R OR PTE_W OR PTE_X OR PTE_A OR PTE_D"

definition p1d_4 :: "u64 \<Rightarrow> 'z program_scheme \<Rightarrow> 'z program_scheme run" where
  "p1d_4 root = (let va = 0xE0200000 in block
     [TEST_LOG (''P1D.4 '' @ dash @ '' 2 MB megapage translation...''),
      exec (map_megapage root va mega_pte),
      exec sfence_vma_all,
      vload va (\<lambda>val0. test_assert (val0 \<noteq> 0) ''P1D.4 megapage offset 0 read zero'' 500),
      vload (va + 0x1000) (\<lambda>_. skip),
      vstore (va + 0x1FE000) 0x000E6A9A6E0F,
      vload (va + 0x1FE000) (\<lambda>v. ASSERT_EQ v 0x000E6A9A6E0F ''P1D.4 megapage end offset'' 501),
      uart_puts (''    Megapage reads at offset 0, 0x1000: OK'' @ [CHR 0x0A]),
      TEST_LOG (''P1D.4 '' @ dash @ '' 2 MB megapage: OK'')])"

definition p1d_5 :: "u64 \<Rightarrow> 'z program_scheme \<Rightarrow> 'z program_scheme run" where
  "p1d_5 root = (let sram_idx = int_of_u64 (drop_bit 30 SRAM_BASE AND 0x1FF) in block
     [TEST_LOG (''P1D.5 '' @ dash @ '' Gigapage verification...''),
      \<lambda>s. let pte = mem s (entry root sram_idx) in block
        [test_assert (pte AND PTE_V \<noteq> 0 \<and> pte AND (PTE_R OR PTE_W OR PTE_X) \<noteq> 0) ''P1D.5: identity map should be a gigapage leaf'' 510,
         uart_puts ''    root['', uart_put_dec sram_idx, uart_puts ''] = '', uart_put_hex pte,
         uart_puts ('' (gigapage leaf)'' @ [CHR 0x0A])] s,
      TEST_LOG (''P1D.5 '' @ dash @ '' Gigapage: OK'')])"

definition p1d_6 :: "u64 \<Rightarrow> 'z program_scheme \<Rightarrow> 'z program_scheme run" where
  "p1d_6 root = (let va = 0xD3000000; pa = SRAM_BASE + 0x1E8000 in block
     [TEST_LOG (''P1D.6 '' @ dash @ '' PTW through L1 D-cache...''),
      vstore pa 0xCAC0E01700000006,
      exec (pt_map_page root va pa (PTE_R OR PTE_W) False),
      exec sfence_vma_all,
      reset_fault_count,
      vload va (\<lambda>val. block
        [assert_fault_count 1 ''P1D.6 fault_count'' 560,
         ASSERT_EQ val 0xCAC0E01700000006 ''P1D.6 value after PTW cache'' 561]),
      TEST_LOG (''P1D.6 '' @ dash @ '' PTW through D-cache: OK'')])"

definition p1d_test_main :: "'z program_scheme \<Rightarrow> (c_int \<times> 'z program_scheme) run" where
  "p1d_test_main s = returning 0 (block
     [banner ''Phase 1D: TLB & Page Walker Tests'',
      exec pt_reset,
      \<lambda>s. case pt_setup_identity_kernel s of (root, s) \<Rightarrow> block
        [exec (mmu_enable_sv39 root),
         set_handler_action 0,
         TEST_LOG ''MMU enabled'',
         p1d_1 root, p1d_2 root, p1d_3 root, p1d_4 root, p1d_5 root, p1d_6 root,
         banner ''Phase 1D: ALL TESTS PASSED''] s] s)"

section \<open>Changing an entry\<close>

lemma does_test_assert: "c \<Longrightarrow> does V (test_assert c msg code) V"
  by (simp add: does_def test_assert_def if_do_def skip_def)

lemma does_skip: "does V skip V"
  by (simp add: does_def skip_def)

definition stale_view :: "u64 \<Rightarrow> u64 \<Rightarrow> view \<Rightarrow> view" where
  "stale_view va e V = V\<lparr>v_pages := (v_pages V)(va \<mapsto> e), v_trusted := v_trusted V - {va'. same_block 0 va va'}\<rparr>"

lemma repoint_entry: "push_bit PTE_PPN_SHIFT (drop_bit PGSHIFT pa) OR PTE_V OR PTE_R OR PTE_W OR PTE_A OR PTE_D = pt_entry pa (PTE_R OR PTE_W) True"
  by (simp add: pt_entry_def pte_leaf_def ac_simps)

lemma viewed_repoint:
  fixes s :: "'z program_scheme"
  assumes v: "viewed V s" and pg: "v_pages V va = Some e" and st: "stop_at (mem s) 2 (v_root V) va = (0, p)" and e': "\<not> is_branch e'"
  shows "viewed (stale_view va e' V) (st64 p e' s)"
proof -
  note vd = viewedD [OF v] and rt = rewrite_tables [OF v pg st e']
  from pt_ok_wf [OF vd(8)] obtain lv where wf: "wf_tables lv (pool_tables s) (v_root V) (mem s)" by blast
  have "addr_space c (v_root V) (st64 p e' s) acc va' = addr_space c (v_root V) s acc va'" if "\<not> same_block 0 va va'" for c acc va'
    using rewrite_stop_at(4) [OF wf st e'] that by (simp add: addr_space_def)
  then have "coherent (v_trusted V - {va'. same_block 0 va va'}) (st64 p e' s)"
    using vd(10) unfolding coherent_def by (auto simp: vd(4) st64_def)
  moreover have "hart_as V (st64 p e' s)" using v by (simp add: viewed_def hart_as_def st64_def sv39_on_def layout_ok_def)
  moreover have "free_word a \<and> mem (st64 p e' s) a = x" if "v_data V a = Some x" for a x
    using vd(14) [OF that] apart(2) [OF vd(6,9), of a] rt(2) by auto
  ultimately show ?thesis
    using rt(1) by (simp add: viewed_def tables_as_def hart_as_def stale_view_def)
qed

lemma repoint_st64:
  assumes v: "viewed V s" and pg: "v_pages V va = Some e"
  obtains p where "stop_at (mem s) 2 (v_root V) va = (0, p)" "mem s p = e" "repoint (v_root V) va pa s = st64 p (pt_entry pa (PTE_R OR PTE_W) True) s"
proof -
  from viewedD(15) [OF v pg] obtain p where p: "stop_at (mem s) 2 (v_root V) va = (0, p)" "mem s p = e" by (auto simp: entry_of_stop viewedD(4) [OF v])
  with pt_walk_stop [OF p(1)] that show thesis by (simp add: repoint_def repoint_entry)
qed

lemma rw_entry: "\<not> is_branch (pt_entry pa (PTE_R OR PTE_W) True)"
  using not_branch_entry [of True "PTE_R OR PTE_W" pa] perms(1) by simp

lemma does_repoint:
  assumes "v_pages V va = Some e" "root = v_root V"
  shows "does V (exec (repoint root va pa)) (stale_view va (pt_entry pa (PTE_R OR PTE_W) True) V)"
proof (rule doesI)
  fix s assume v: "viewed V (s :: 'a program_scheme)"
  obtain p where p: "stop_at (mem s) 2 (v_root V) va = (0, p)" "repoint (v_root V) va pa s = st64 p (pt_entry pa (PTE_R OR PTE_W) True) s"
    by (rule repoint_st64 [OF v assms(1)])
  with viewed_repoint [OF v assms(1) p(1) rw_entry]
  show "\<exists>s'. exec (repoint root va pa) s = Ret s' \<and> viewed (stale_view va (pt_entry pa (PTE_R OR PTE_W) True) V) s'"
    by (simp add: assms(2))
qed

lemma does_fence_addr: "does V (exec (sfence_vma_addr va)) (V\<lparr>v_trusted := v_trusted V \<union> {va'. same_block 0 va va'}\<rparr>)"
proof (rule doesI)
  fix s assume v: "viewed V (s :: 'a program_scheme)"
  let ?s = "sfence_vma_addr va s" and ?A = "v_trusted V \<union> {va'. same_block 0 va va'}"
  have "viewed V ?s"
    using viewed_keep [of V s "v_trap V" ?s "v_data V"] v
    by (auto simp: viewed_def hart_as_def sv39_on_def layout_ok_def sfence_vma_addr_def)
  moreover have "same_block l v va" if "same_block l v va'" "same_block 0 va va'" for v l va'
    using that by (simp add: same_block_def)
  then have "coherent ?A ?s"
    using viewedD(10) [OF v] unfolding coherent_def by (auto simp: sfence_vma_addr_def satp_root_def addr_space_def)
  ultimately show "\<exists>s'. exec (sfence_vma_addr va) s = Ret s' \<and> viewed (V\<lparr>v_trusted := ?A\<rparr>) s'"
    by (simp add: viewed_def tables_as_def hart_as_def)
qed

lemma leaf_for_some:
  assumes "sv39_walk (mem s) 2 (satp_root s) va = Some w"
  shows "\<exists>l x. leaf_for acc va s = Some (l, x) \<and>
    ((l, x) = w \<or> \<not> (svadu s \<and> needs_ad acc x) \<and> (\<exists>v. (v, l, x) \<in> tlb (cpu s) \<and> same_block l v va))"
proof (cases "tlb_pick s (naccess s)")
  case None
  then show ?thesis using assms by (cases w) (simp add: leaf_for_def)
next
  case (Some y)
  then show ?thesis using assms by (cases w; cases y) (auto simp: leaf_for_def)
qed

lemma access_plain:
  assumes "sv39_on s" "leaf_for acc va s = Some (l, x)" "entry_xlat (mmu_view s) acc va l x = Some pa" "\<not> needs_ad acc x"
  shows "hart_access acc va s = Some (Ret (Some pa, cached_more (va, l, x) s))"
  by (subst hart_access.simps) (simp add: hart_step_def Let_def assms)

text \<open>A load right after the change: a cached translation still leads to the old frame, a new walk to the new one.\<close>

lemma stale_access:
  fixes s :: "'z program_scheme"
  assumes v: "viewed V s" and pg: "v_pages V va = Some e" "va \<in> v_trusted V" "entry_xlat (v_ctl V) acc va 0 e = Some pa"
    and st: "stop_at (mem s) 2 (v_root V) va = (0, p)" and e': "\<not> is_branch e'" "entry_xlat (v_ctl V) acc va 0 e' = Some pa'" "\<not> needs_ad acc e'"
  shows "\<exists>s' x. hart_access acc va (st64 p e' s) = Some (Ret (Some x, s')) \<and> (x = pa \<or> x = pa') \<and> viewed (stale_view va e' V) s'"
proof -
  let ?s = "st64 p e' s" and ?W = "stale_view va e' V"
  note vd = viewedD [OF v]
  have W: "viewed ?W ?s" by (rule viewed_repoint [OF v pg(1) st e'(1)])
  note wd = viewedD [OF W]
  have f: "v_root ?W = v_root V" "v_ctl ?W = v_ctl V" "v_trusted ?W = v_trusted V - {va'. same_block 0 va va'}" "v_pages ?W va = Some e'"
    by (simp_all add: stale_view_def)
  have en: "entry_of ?s va = (0, e')" using wd(15) [OF f(4)] by simp
  have ok: "pt_ok (satp_root ?s) ?s" using wd(4,8) f(1) by simp
  have ctl: "mmu_view ?s = v_ctl V" "svadu ?s = ctl_svadu (v_ctl V)" using wd(5) f(2) by (auto simp: mmu_view_def dest: arg_cong [where f = ctl_svadu])
  have walk: "sv39_walk (mem ?s) 2 (satp_root ?s) va = Some (0, e')"
    using walk_entry_of(1) [OF ok en] e'(2) by (auto simp: entry_xlat_def split: if_splits)
  have old: "entry_xlat (v_ctl V) acc va l x = Some pa" if "(v, l, x) \<in> tlb (cpu s)" "same_block l v va" for v l x
    using coherentD [OF vd(10) that pg(2), of acc] walk_entry_of(2) [of s va 0 e "v_ctl V" acc] vd(4,5,8) vd(15) [OF pg(1)] pg(3) by simp
  obtain l x where lx: "leaf_for acc va ?s = Some (l, x)"
    "(l, x) = (0, e') \<or> \<not> (svadu ?s \<and> needs_ad acc x) \<and> (\<exists>v. (v, l, x) \<in> tlb (cpu s) \<and> same_block l v va)"
    using leaf_for_some [OF walk, of acc] by auto
  then have t: "entry_xlat (v_ctl V) acc va l x = Some (if (l, x) = (0, e') then pa' else pa)" using old e'(2) by auto
  have ad: "\<not> needs_ad acc x" using lx(2) needs_ad_svadu [OF t] e'(3) ctl(2) by auto
  let ?t = "cached_more (va, l, x) ?s"
  have a: "hart_access acc va ?s = Some (Ret (Some (if (l, x) = (0, e') then pa' else pa), ?t))"
    by (rule access_plain [OF wd(3) lx(1) _ ad]) (use t ctl(1) in \<open>simp only:\<close>)
  have "coherent (v_trusted ?W) ?t"
    by (rule coherent_insert [OF ok en wd(10)]) (use lx(2) in auto)
  from viewed_cached [OF W this] a show ?thesis by auto
qed

lemma does_stale:
  assumes "v_pages V va = Some e" "va \<in> v_trusted V" "entry_xlat (v_ctl V) Load va 0 e = Some pa" "root = v_root V"
    and e': "e' = pt_entry pa_new (PTE_R OR PTE_W) True" "entry_xlat (v_ctl V) Load va 0 e' = Some pa'"
    and d: "v_data V pa = Some x" "v_data V pa' = Some x'"
    and k: "does (stale_view va e' V) (k x) W" "does (stale_view va e' V) (k x') W"
    and fs: "does W (block fs) U"
  shows "does V (block (exec (repoint root va pa_new) # fence_w_w # vload va k # fs)) U"
proof (rule doesI)
  fix s assume v: "viewed V (s :: 'a program_scheme)"
  obtain p where p: "stop_at (mem s) 2 (v_root V) va = (0, p)" "repoint (v_root V) va pa_new s = st64 p e' s"
    using repoint_st64 [OF v assms(1), of pa_new] e'(1) by metis
  have na: "\<not> needs_ad Load e'" by (simp add: e'(1) pt_entry_def)
  from stale_access [OF v assms(1-3) p(1) rw_entry [of pa_new, folded e'(1)] e'(2) na]
  obtain s' y where s': "hart_access Load va (st64 p e' s) = Some (Ret (Some y, s'))" "y = pa \<or> y = pa'" "viewed (stale_view va e' V) s'" by blast
  have "mem s' y \<in> {x, x'}" using s'(2) d viewedD(14) [OF s'(3)] by (auto simp: stale_view_def)
  with k s'(3) obtain s2 where s2: "k (mem s' y) s' = Ret s2" "viewed W s2" unfolding does_def by blast
  with fs obtain s3 where "block fs s2 = Ret s3" "viewed U s3" unfolding does_def by blast
  with s' s2 p(2) show "\<exists>t. block (exec (repoint root va pa_new) # fence_w_w # vload va k # fs) s = Ret t \<and> viewed U t"
    by (simp add: block_Cons fence_w_w_def assms(4) vload_def vaccess_def)
qed

section \<open>Accesses through any entry of the view\<close>

lemma decided_access:
  assumes "viewed V s" "decides V va n e" "va \<in> v_trusted V" "entry_xlat (v_ctl V) acc va n e = Some pa" "\<not> needs_ad acc e"
  obtains s' where "hart_access acc va s = Some (Ret (Some pa, s'))" "viewed V s'" "mem s' = mem s"
  by (rule viewed_hit [OF assms(1) decides_entry [OF assms(1,2)] assms(3-5)])

lemma does_load_decided:
  assumes "decides V va n e" "va \<in> v_trusted V" "entry_xlat (v_ctl V) Load va n e = Some pa" "\<not> needs_ad Load e"
    "\<And>v. v_data V pa \<in> {None, Some v} \<Longrightarrow> does V (k v) W"
  shows "does V (vload va k) W"
proof (rule doesI)
  fix s assume v: "viewed V (s :: 'a program_scheme)"
  obtain s' where s': "hart_access Load va s = Some (Ret (Some pa, s'))" "viewed V s'" by (rule decided_access [OF v assms(1-4)])
  have "v_data V pa \<in> {None, Some (mem s' pa)}" using viewedD(14) [OF s'(2), of pa] by (cases "v_data V pa") auto
  from assms(5) [OF this] s' show "\<exists>s'. vload va k s = Ret s' \<and> viewed W s'" by (simp add: does_def vload_def vaccess_def)
qed

lemma does_store_decided:
  assumes "decides V va n e" "va \<in> v_trusted V" "entry_xlat (v_ctl V) Store va n e = Some pa" "\<not> needs_ad Store e" "free_word pa"
  shows "does V (vstore va v) (V\<lparr>v_data := (v_data V)(pa \<mapsto> v)\<rparr>)"
proof (rule doesI)
  fix s assume v: "viewed V (s :: 'a program_scheme)"
  obtain s' where s': "hart_access Store va s = Some (Ret (Some pa, s'))" "viewed V s'" by (rule decided_access [OF v assms(1-4)])
  from viewed_data [OF s'(2) assms(5)] s'(1) show "\<exists>s'. vstore va v s = Ret s' \<and> viewed (V\<lparr>v_data := (v_data V)(pa \<mapsto> v)\<rparr>) s'"
    by (simp add: vstore_def vaccess_def)
qed

section \<open>The row of P1D.3\<close>

lemma unat_row:
  assumes "i < 128" "unat base \<le> 0xF0000000"
  shows "unat (base + of_nat i * PGSIZE) = unat base + 4096 * i"
proof -
  have "unat (of_nat i * 4096 :: u64) = 4096 * i" using assms(1) by (simp add: unat_word_ariths unat_of_nat)
  then show ?thesis using assms by (simp add: unat_plus_if' platform_consts)
qed

lemma unat_drop: "unat (drop_bit n (w :: u64)) = unat w div 2 ^ n"
  unfolding unat_drop_bit_eq by (simp add: drop_bit_eq_div)

lemma unat_vpn: "unat (vpn_ix l va) = unat va div 2 ^ (12 + 9 * l) mod 512"
proof -
  have "unat (take_bit 9 w) = unat w mod 512" for w :: u64 unfolding unsigned_take_bit_eq by (simp add: take_bit_eq_mod)
  then show ?thesis unfolding vpn_ix_def take_bit_eq_mask [symmetric] by (simp only: unat_drop)
qed

lemma d3_unat:
  assumes "i < 128"
  shows "unat (d3_va i) = 0xD2000000 + 4096 * i" "unat (d3_pa i) = 0x80100000 + 4096 * i"
  using unat_row [OF assms, of "0xD2000000"] unat_row [OF assms, of "SRAM_BASE + 0x100000"]
  by (simp_all add: d3_va_def d3_pa_def SRAM_BASE_def)

lemma aligned_unat: "page_aligned a \<longleftrightarrow> 4096 dvd unat a"
  unfolding page_aligned_uint using int_dvd_int_iff [of 4096 "unat a"] by simp

lemma d3_page:
  assumes "i < 128"
  shows "page_va (d3_va i)" "vpn_ix 1 (d3_va i) = 0x90" "free_word (d3_pa i)" "page_aligned (d3_pa i)"
proof -
  note u = d3_unat [OF assms]
  have "(0xD2000000 + 4096 * i) div 2097152 = 1680" by (rule div_nat_eqI) (use assms in simp_all)
  then have "unat (vpn_ix 1 (d3_va i)) = 0x90" by (simp add: unat_vpn u)
  then show r: "vpn_ix 1 (d3_va i) = 0x90" by (simp add: word_unat_eq_iff)
  have "(0xD2000000 + 4096 * i) div 1073741824 = 3" by (rule div_nat_eqI) (use assms in simp_all)
  then have "unat (vpn_ix 2 (d3_va i)) = 3" by (simp add: unat_vpn u)
  then have "vpn_ix 2 (d3_va i) = 3" by (simp add: word_unat_eq_iff)
  moreover have "unat (drop_bit 38 (d3_va i)) = 0" using assms by (simp add: unat_drop u)
  then have "drop_bit 38 (d3_va i) = 0" by (simp only: unsigned_eq_0_iff)
  moreover have "page_aligned (d3_va i)" unfolding aligned_unat u by (rule dvd_add) simp_all
  ultimately show "page_va (d3_va i)" using r by (simp add: page_va_def)
  show "free_word (d3_pa i)" using assms by (simp add: free_word_def u)
  show "page_aligned (d3_pa i)" unfolding aligned_unat u by (rule dvd_add) simp_all
qed

interpretation d3: page_row d3_va d3_pa 128 "0x90"
proof unfold_locales
  show "(d3_va i = d3_va j \<longleftrightarrow> i = j) \<and> (d3_pa i = d3_pa j \<longleftrightarrow> i = j)" if "i < 128" "j < 128" for i j
    using d3_unat [OF that(1)] d3_unat [OF that(2)] by (auto simp: word_unat_eq_iff)
qed (use d3_page in auto)

section \<open>The tests pass\<close>

text \<open>Beside what the tests of phase 1C rely on, the first word of the image is known not to be zero.\<close>

definition ready_d :: "u64 \<Rightarrow> nat \<Rightarrow> u64 set \<Rightarrow> view \<Rightarrow> bool" where
  "ready_d root k P V \<longleftrightarrow> ready root k P V \<and> (\<exists>w. v_data V SRAM_BASE = Some w \<and> w \<noteq> 0)"

lemma tables_for_one: "dom (v_pages V) \<noteq> {} \<Longrightarrow> tables_for V va \<le> 1"
  by (simp add: tables_for_def)

lemma stale_view_simps [simp]:
  "v_ctl (stale_view va e V) = v_ctl V" "v_root (stale_view va e V) = v_root V" "v_trap (stale_view va e V) = v_trap V"
  "v_data (stale_view va e V) = v_data V" "v_pages (stale_view va e V) = (v_pages V)(va \<mapsto> e)" "v_room (stale_view va e V) = v_room V"
  "v_trusted (stale_view va e V) = v_trusted V - {va'. same_block 0 va va'}"
  by (simp_all add: stale_view_def)

lemma d_pages: "page_va 0xD1000000" "page_va 0xD1010000" "page_va 0xD1100000" "page_va 0xD3000000"
  by (simp_all add: page_va_def page_aligned_def take_bit_eq_mod vpn_ix_def flip: mask9_u64)

lemma d_words:
  "free_word (SRAM_BASE + 0x1E0000)" "page_aligned (SRAM_BASE + 0x1E0000)" "free_word (SRAM_BASE + 0x1E1000)" "page_aligned (SRAM_BASE + 0x1E1000)"
  "free_word (SRAM_BASE + 0x1E2000)" "page_aligned (SRAM_BASE + 0x1E2000)" "free_word (SRAM_BASE + 0x1E4000)" "page_aligned (SRAM_BASE + 0x1E4000)"
  "free_word (SRAM_BASE + 0x1E5000)" "page_aligned (SRAM_BASE + 0x1E5000)" "free_word (SRAM_BASE + 0x1E8000)" "page_aligned (SRAM_BASE + 0x1E8000)"
  by (simp_all add: free_word_def platform_consts page_aligned_def take_bit_eq_mod)

lemmas rw_xlat = mapped_xlat [OF _ _ _ perms(1) perms(4)]

lemma does_p1d_1:
  assumes r: "ready_d root (k + 3) P V"
  shows "\<exists>W. does V (p1d_1 root) W \<and> ready_d root k {0xD1000000} W"
proof -
  let ?va = "0xD1000000 :: u64" and ?vb = "0xD1010000 :: u64"
  let ?pa = "SRAM_BASE + 0x1E0000 :: u64" and ?pb = "SRAM_BASE + 0x1E1000 :: u64" and ?pn = "SRAM_BASE + 0x1E2000 :: u64"
  let ?ea = "pt_entry ?pa (PTE_R OR PTE_W) True" and ?eb = "pt_entry ?pb (PTE_R OR PTE_W) True" and ?en = "pt_entry ?pn (PTE_R OR PTE_W) True"
  let ?A = "V\<lparr>v_data := (v_data V)(?pa \<mapsto> 0xAAAAAAAA00000001)\<rparr>"
  let ?B = "?A\<lparr>v_data := (v_data ?A)(?pb \<mapsto> 0xBBBBBBBB00000002)\<rparr>"
  let ?V0 = "?B\<lparr>v_data := (v_data ?B)(?pn \<mapsto> 0xAAAAAAAA00000003)\<rparr>"
  let ?V1 = "map_view ?va ?ea ?V0"
  let ?V2 = "mapped ?vb ?eb ?V1"
  let ?V3 = "stale_view ?va ?en ?V2"
  let ?W = "?V3\<lparr>v_trusted := v_trusted ?V3 \<union> {x. same_block 0 ?va x}\<rparr>"
  note r' = r [unfolded ready_d_def ready_def]
  have k: "tables_for V ?va \<le> 2" "tables_for ?V1 ?vb \<le> 1" by (rule tables_for_le, rule tables_for_one) simp
  have room: "v_room ?V1 = v_room V - tables_for V ?va" "k + 3 \<le> v_room V" using r' by simp_all
  have k1: "tables_for ?V0 ?va \<le> v_room ?V0" using k(1) room by simp
  have k2: "tables_for ?V1 ?vb \<le> v_room ?V1" using k room by linarith
  note xa = rw_xlat [OF d_pages(1) d_words(1,2)] and xb = rw_xlat [OF d_pages(2) d_words(3,4)] and xn = rw_xlat [OF d_pages(1) d_words(5,6)]
  have "does V (p1d_1 root) ?W"
    unfolding p1d_1_def Let_def
    apply (rule does_Cons, rule does_log)
    apply (rule does_Cons, rule does_store_free [OF d_words(1)], use r' in simp)
    apply (rule does_Cons, rule does_store_free [OF d_words(3)], use r' in simp)
    apply (rule does_Cons, rule does_store_free [OF d_words(5)], use r' in simp)
    apply (rule does_Cons, rule does_map [OF d_pages(1) k1], simp add: perms, use r' in simp)
    apply (rule does_map_fence [OF d_pages(2) k2], simp add: perms, use r' in simp)
    apply (rule does_Cons, rule does_load_page [where va = ?va and e = ?ea], simp, simp, simp add: xa, simp add: xa, simp)
     apply (rule does_load_page [where va = ?vb and e = ?eb], simp, simp, simp add: xb, simp add: xb, simp)
     apply (rule does_Cons, rule does_assert_eq, simp, rule does_one, rule does_assert_eq, simp)
    apply (rule does_Cons, rule does_repoint [where e = ?ea], simp, use r' in simp)
    apply (rule does_Cons, simp only: fence_w_w_def, rule does_skip)
    apply (rule does_Cons, rule does_fence_addr)
    apply (rule does_Cons, rule does_load_page [where va = ?va and e = ?en], simp, simp, simp add: xn, simp add: xn, simp, rule does_assert_eq, simp)
    apply (rule does_Cons, rule does_load_page [where va = ?vb and e = ?eb], simp, simp, simp add: xb, simp add: xb, simp, rule does_assert_eq, simp)
    apply (rule does_one, rule does_log)
    done
  moreover have "ready_d root k {?va} ?W"
    using k r' by (auto simp: ready_d_def ready_def SRAM_BASE_def)
  ultimately show ?thesis by blast
qed

text \<open>The first page of P1D.1 stays mapped, so a new page needs one table at most.\<close>

lemma does_p1d_2:
  assumes r: "ready_d root (k + 1) P V" and P: "P \<noteq> {}"
  shows "\<exists>W. does V (p1d_2 root) W \<and> ready_d root k P W"
proof -
  let ?va = "0xD1100000 :: u64" and ?pa = "SRAM_BASE + 0x1E4000 :: u64" and ?pn = "SRAM_BASE + 0x1E5000 :: u64"
  let ?ea = "pt_entry ?pa (PTE_R OR PTE_W) True" and ?en = "pt_entry ?pn (PTE_R OR PTE_W) True"
  let ?A = "V\<lparr>v_data := (v_data V)(?pa \<mapsto> 0x1111111111111111)\<rparr>"
  let ?V0 = "?A\<lparr>v_data := (v_data ?A)(?pn \<mapsto> 0x2222222222222222)\<rparr>"
  let ?V1 = "mapped ?va ?ea ?V0"
  let ?V2 = "stale_view ?va ?en ?V1"
  let ?W = "?V2\<lparr>v_trusted := v_trusted ?V2 \<union> {x. same_block 0 ?va x}\<rparr>"
  note r' = r [unfolded ready_d_def ready_def]
  have one: "tables_for V ?va \<le> 1" by (rule tables_for_one) (use r' P in auto)
  have k: "tables_for ?V0 ?va \<le> v_room ?V0" using one r' by simp
  note xa = rw_xlat [OF d_pages(3) d_words(7,8)] and xn = rw_xlat [OF d_pages(3) d_words(9,10)]
  have ld: "does U (block [uart_puts m0, uart_put_hex val, if b then uart_puts m1 else if c then uart_puts m2 else uart_puts m3,
      uart_putc ch, test_assert (b \<or> c) m4 321]) U" if "b \<or> c" for U m0 m1 m2 m3 m4 ch val b c
  proof -
    have "does U (if b then uart_puts m1 else if c then uart_puts m2 else uart_puts m3) U" by (simp add: does_say(1))
    moreover have "does U (test_assert (b \<or> c) m4 321) U" using that by (rule does_test_assert)
    ultimately show ?thesis
      by (intro does_Cons [OF does_say(1) does_Cons [OF does_say(4) does_Cons [OF _ does_Cons [OF does_say(2) does_one]]]])
  qed
  have "does V (p1d_2 root) ?W"
    unfolding p1d_2_def Let_def
    apply (rule does_Cons, rule does_log)
    apply (rule does_Cons, rule does_store_free [OF d_words(7)], use r' in simp)
    apply (rule does_Cons, rule does_store_free [OF d_words(9)], use r' in simp)
    apply (rule does_map_fence [OF d_pages(3) k], simp add: perms, use r' in simp)
    apply (rule does_Cons, rule does_load_page [where va = ?va and e = ?ea], simp, simp, simp add: xa, simp add: xa, simp, rule does_assert_eq, simp)
    apply (rule does_stale [where e = ?ea and e' = ?en and pa = ?pa and pa' = ?pn and x = "0x1111111111111111" and x' = "0x2222222222222222" and W = ?V2],
        simp, simp, simp add: xa, use r' in simp, rule refl, simp add: xn, simp, simp, rule ld, simp, rule ld, simp)
    apply (rule does_Cons, rule does_fence_addr)
    apply (rule does_Cons, rule does_load_page [where va = ?va and e = ?en], simp, simp, simp add: xn, simp add: xn, simp, rule does_assert_eq, simp)
    apply (rule does_one, rule does_log)
    done
  moreover have "ready_d root k P ?W"
    using one r' by (auto simp: ready_d_def ready_def SRAM_BASE_def)
  ultimately show ?thesis by blast
qed

lemma does_d3_checks:
  assumes "v_trusted V = UNIV" "\<And>i. i < 128 \<Longrightarrow> v_pages V (d3_va i) = Some (pt_entry (d3_pa i) (PTE_R OR PTE_W) True) \<and> v_data V (d3_pa i) = Some (d3_expected i)"
  shows "does V (block (map (\<lambda>pass. block (map (d3_check pass) [0..<128])) [0..<2])) V"
proof -
  have one: "does V (d3_check pass i) V" if i: "i < 128" for pass i
    unfolding d3_check_def
    by (rule does_load_page [where e = "pt_entry (d3_pa i) (PTE_R OR PTE_W) True" and pa = "d3_pa i" and v = "d3_expected i"])
      (use assms i rw_xlat [OF d3_page(1,3,4) [OF i]] in \<open>simp_all add: if_do_def does_skip\<close>)
  have "does V (block (map (d3_check pass) [0..<128])) V" for pass
    by (rule does_loop [where P = "\<lambda>_. V"]) (rule one)
  then show ?thesis by (rule does_loop [where P = "\<lambda>_. V"])
qed

lemma does_p1d_3:
  assumes r: "ready_d root (k + 1) P V" and P: "P \<noteq> {}"
  shows "\<exists>W. does V (p1d_3 root) W \<and> ready_d root k P W"
proof -
  let ?F = "filled d3_va d3_pa d3_expected (PTE_R OR PTE_W) True V 128"
  let ?W = "?F\<lparr>v_trusted := UNIV\<rparr>"
  note r' = r [unfolded ready_d_def ready_def]
  have one: "tables_for V (d3_va 0) \<le> 1" by (rule tables_for_one) (use r' P in auto)
  then have k: "tables_for V (d3_va 0) \<le> v_room V" using r' by simp
  have ck: "does ?W (block (map (\<lambda>pass. block (map (d3_check pass) [0..<128])) [0..<2])) ?W"
    by (rule does_d3_checks) (use d3.filled_row [OF order_refl] in simp_all)
  have run: "does V (p1d_3 root) ?W"
    unfolding p1d_3_def THRASH_COUNT_B_def
    apply (rule does_Cons, rule does_log)
    apply (rule does_Cons, rule d3.does_fill [OF _ k], use r' in simp, use r' in simp, simp add: perms)
    apply (rule does_Cons, rule does_fence)
    apply (rule does_Cons, rule ck)
    apply (rule does_Cons, rule does_say, rule does_one, rule does_log)
    done
  have "SRAM_BASE \<notin> d3_pa ` {..<128}" using d3_unat(2) by (auto simp: word_unat_eq_iff SRAM_BASE_def)
  moreover have "P \<subseteq> dom (v_pages ?F)" using r' d3.filled_other(2) by blast
  ultimately have "ready_d root k P ?W"
    using one r' d3.filled_left [OF order_refl, of V d3_expected "PTE_R OR PTE_W" True]
    by (auto simp: ready_d_def ready_def d3.filled_same d3.filled_other(1))
  with run show ?thesis by blast
qed

text \<open>The superpage onto the SRAM.\<close>

lemma mega_leaf: "mega_pte = sram_leaf"
  by (simp add: mega_pte_def sram_leaf_def pte_leaf_def ac_simps)

lemma sram_mega_xlat:
  assumes "drop_bit 38 va = 0"
  shows "entry_xlat c acc va 1 sram_leaf = Some (SRAM_BASE OR take_bit 21 va)"
proof -
  have "SRAM_BASE AND NOT (mask 12) = SRAM_BASE" by (simp add: SRAM_BASE_def mask_eq_exp_minus_1)
  then show ?thesis
    using entry_xlat_leaf [OF perm_ok_kernel(2), of SRAM_BASE 1 c acc va] canonical_low [OF assms] kernel_allows(2)
    by (simp add: sram_leaf_def SRAM_BASE_def take_bit_eq_mod drop_bit_eq_div)
qed

lemma word_sums: "0xE0200000 + 0x1000 = (0xE0201000 :: u64)" "0xE0200000 + 0x1FE000 = (0xE03FE000 :: u64)"
  by simp_all

lemma mega_vas:
  "vpn_ix 2 0xE0200000 = 3" "vpn_ix 1 0xE0200000 = 0x101" "vpn_ix 2 0xE0201000 = 3" "vpn_ix 1 0xE0201000 = 0x101"
  "vpn_ix 2 0xE03FE000 = 3" "vpn_ix 1 0xE03FE000 = 0x101"
  by (simp_all add: vpn_ix_def flip: mask9_u64)

lemma mega_targets:
  "entry_xlat c acc 0xE0200000 1 sram_leaf = Some SRAM_BASE" "entry_xlat c acc 0xE0201000 1 sram_leaf = Some 0x80001000"
  "entry_xlat c acc 0xE03FE000 1 sram_leaf = Some 0x801FE000"
  by (simp_all add: sram_mega_xlat [unfolded One_nat_def] SRAM_BASE_def take_bit_eq_mod drop_bit_eq_div)

lemma does_p1d_4:
  assumes r: "ready_d root (k + 1) P V"
  shows "\<exists>W. does V (p1d_4 root) W \<and> ready_d root k P W"
proof -
  let ?U = "(map_big_view 0xE0200000 sram_leaf V)\<lparr>v_trusted := UNIV\<rparr>"
  let ?W = "?U\<lparr>v_data := (v_data ?U)(0x801FE000 \<mapsto> 0x000E6A9A6E0F)\<rparr>"
  note r' = r [unfolded ready_d_def ready_def]
  have leaf: "\<not> is_branch sram_leaf" "bit sram_leaf 0" "\<not> needs_ad acc sram_leaf" for acc
    using not_branch_leaf perm_ok_kernel(2) by (simp_all add: sram_leaf_def bit_pte_leaf)
  have k: "1 \<le> v_room V" using r' by simp
  have va: "vpn_ix 2 0xE0200000 = 3" "256 \<le> vpn_ix 1 0xE0200000" using mega_vas by simp_all
  have dec: "decides X va 1 sram_leaf" if "v_big X = v_big ?U" "vpn_ix 2 va = 3" "vpn_ix 1 va = 0x101" for X va
    using that mega_vas(2) by (simp add: decides_def map_big_view_def)
  note d = dec [OF _ mega_vas(1,2)] dec [OF _ mega_vas(3,4)] dec [OF _ mega_vas(5,6)]
  have fw: "free_word 0x801FE000" by (simp add: free_word_def)
  from r' obtain w where w: "v_data ?U SRAM_BASE = Some w" "w \<noteq> 0" by (auto simp: map_big_view_def)
  have "does V (p1d_4 root) ?W"
    unfolding p1d_4_def Let_def mega_leaf
    apply (rule does_Cons, rule does_log)
    apply (rule does_Cons, rule does_map_big [OF va k leaf(1,2)], use r' in simp)
    apply (rule does_Cons, rule does_fence)
    apply (rule does_Cons, rule does_load_decided [OF d(1) _ mega_targets(1) leaf(3)], simp, simp, rule does_test_assert, use w in simp)
    apply (simp only: word_sums)
    apply (rule does_Cons, rule does_load_decided [OF d(2) _ mega_targets(2) leaf(3)], simp, simp, rule does_skip)
    apply (rule does_Cons, rule does_store_decided [OF d(3) _ mega_targets(3) leaf(3) fw], simp, simp)
    apply (rule does_Cons, rule does_load_decided [OF d(3) _ mega_targets(3) leaf(3)], simp, simp, rule does_assert_eq, simp)
    apply (rule does_Cons, rule does_say, rule does_one, rule does_log)
    done
  moreover have "ready_d root k P ?W"
    using r' by (auto simp: ready_d_def ready_def map_big_view_def SRAM_BASE_def)
  ultimately show ?thesis by blast
qed

text \<open>The identity entry of the root.\<close>

lemma does_read_sram_leaf:
  assumes "does V (f sram_leaf) W" "a = slot (v_root V) 2"
  shows "does V (\<lambda>s. f (mem s a) s) W"
proof (rule doesI)
  fix s assume v: "viewed V (s :: 'a program_scheme)"
  with assms viewedD(13) [OF v] show "\<exists>s'. f (mem s a) s = Ret s' \<and> viewed W s'" by (simp add: does_def)
qed

lemma does_p1d_5:
  assumes "ready_d root k P V"
  shows "\<exists>W. does V (p1d_5 root) W \<and> ready_d root k P W"
proof -
  have i: "int_of_u64 (drop_bit 30 SRAM_BASE AND 0x1FF) = 2" by (simp add: SRAM_BASE_def int_of_u64_def drop_bit_eq_div)
  have a: "entry root 2 = slot (v_root V) 2" using assms by (simp add: entry_def u64_of_int_def ready_d_def ready_def)
  have "bit (PTE_R OR PTE_W OR PTE_X) 1" by (simp add: bit_simps flag_bits)
  then have l: "sram_leaf AND PTE_V \<noteq> 0 \<and> sram_leaf AND (PTE_R OR PTE_W OR PTE_X) \<noteq> 0"
    by (auto simp: sram_leaf_def and_flags bit_pte_leaf)
  have "does V (p1d_5 root) V"
    unfolding p1d_5_def i Let_def
    apply (rule does_Cons, rule does_log)
    apply (rule does_Cons, rule does_read_sram_leaf [OF _ a], rule does_Cons, rule does_test_assert [OF l])
     apply ((rule does_Cons, rule does_say)+, rule does_Nil)
    apply (rule does_one, rule does_log)
    done
  with assms show ?thesis by blast
qed

lemma does_p1d_6:
  assumes r: "ready_d root 1 P V" and P: "P \<noteq> {}"
  shows "\<exists>W. does V (p1d_6 root) W \<and> True"
proof -
  let ?va = "0xD3000000 :: u64" and ?pa = "SRAM_BASE + 0x1E8000 :: u64"
  let ?e = "pt_entry ?pa (PTE_R OR PTE_W) False"
  let ?V1 = "V\<lparr>v_data := (v_data V)(?pa \<mapsto> 0xCAC0E01700000006)\<rparr>"
  let ?V2 = "mapped ?va ?e ?V1"
  let ?V3 = "?V2\<lparr>v_trap := (v_trap ?V2)\<lparr>fault_count := 0\<rparr>\<rparr>"
  note r' = r [unfolded ready_d_def ready_def]
  have "tables_for V ?va \<le> 1" by (rule tables_for_one) (use r' P in auto)
  then have k: "tables_for ?V1 ?va \<le> v_room ?V1" using r' by simp
  have fx: "fixable ?V3 Load ?va ?e"
    by (rule test_fixable) (use r' d_words perms c_perms in simp_all)
  have "does V (p1d_6 root) (fix_view Load ?va ?e ?V3)"
    unfolding p1d_6_def Let_def
    apply (rule does_Cons, rule does_log)
    apply (rule does_Cons, rule does_store_free [OF d_words(11)], use r' in simp)
    apply (rule does_map_fence [OF d_pages(4) k], simp, use r' in simp)
    apply (rule does_Cons, rule does_reset)
    apply (rule does_Cons, rule does_load_fix [OF fx], simp add: c_targets d_words)
     apply (rule does_Cons, rule does_count, simp, rule does_one, rule does_assert_eq, simp)
    apply (rule does_one, rule does_log)
    done
  then show ?thesis by blast
qed

section \<open>The program passes\<close>

lemma p1d_runs:
  assumes v: "viewed V s" and r: "v_trusted V = UNIV" "v_root V = root" "v_room V = 7" and w: "v_data V SRAM_BASE = Some w" "w \<noteq> 0"
  shows "\<exists>s'. block [set_handler_action 0, TEST_LOG msg, p1d_1 root, p1d_2 root, p1d_3 root, p1d_4 root, p1d_5 root, p1d_6 root,
    banner title] s = Ret s' \<and> dev_ok (dev s')"
proof -
  let ?U = "V\<lparr>v_trap := (v_trap V)\<lparr>handler_action := 0\<rparr>\<rparr>"
  have rdy: "ready_d root (1 + 1 + 1 + 1 + 3) {} ?U" using r w by (simp add: ready_d_def ready_def)
  have "\<exists>W. does ?U (block [p1d_1 root, p1d_2 root, p1d_3 root, p1d_4 root, p1d_5 root, p1d_6 root, banner title]) W \<and> True"
    by (rule does_then [OF does_p1d_1 [OF rdy]], rule does_then, erule does_p1d_2, simp, rule does_then, erule does_p1d_3, simp, rule does_then,
        erule does_p1d_4, rule does_then, erule does_p1d_5, rule does_then, erule does_p1d_6, simp) (blast intro: does_one does_banner)
  then have "\<exists>W. does V (block [set_handler_action 0, TEST_LOG msg, p1d_1 root, p1d_2 root, p1d_3 root, p1d_4 root, p1d_5 root, p1d_6 root, banner title]) W"
    using does_Cons [OF does_action does_Cons [OF does_log]] by blast
  then show ?thesis using does_run [OF _ v] by blast
qed

lemma p1d_main_returns:
  assumes "booted s" "mem s SRAM_BASE \<noteq> 0"
  shows "\<exists>s'. p1d_test_main s = Ret (0, s') \<and> dev_ok (dev s')"
proof -
  have f: "free_word SRAM_BASE" by (simp add: free_word_def SRAM_BASE_def)
  show ?thesis
    unfolding p1d_test_main_def
    by (rule main_returns [OF assms(1)]) (rule p1d_runs, assumption+, use assms(2) f in simp_all)
qed

end
