(* ===== verification/BarePrograms.thy ===== *)
theory BarePrograms
  imports BareTlb
begin

text \<open>
  The bare-metal programs of the translation phases, from the entry point to the verdict.
\<close>

text \<open>
  The programs of phases 1A to 1D on a hart in S-mode with the tables before the stacks in the first megabyte of the SRAM: started at
  \<open>s_mode_entry\<close> they end in a pass. Phase 1B also needs MXR clear; phase 1D needs a non-zero first word of the SRAM.
\<close>

lemma bare_programs_pass:
  assumes "booted s"
  shows "ends_in_pass (s_mode_entry vec p1a_test_main s) \<and>
    (\<not> bit (csr_mstatus (cpu s)) 19 \<longrightarrow> ends_in_pass (s_mode_entry vec p1b_test_main s)) \<and>
    ends_in_pass (s_mode_entry vec p1c_test_main s) \<and>
    (mem s SRAM_BASE \<noteq> 0 \<longrightarrow> ends_in_pass (s_mode_entry vec p1d_test_main s))"
proof (intro conjI impI)
  show "ends_in_pass (s_mode_entry vec p1a_test_main s)"
    by (rule entry_passes [OF _ p1a_main_returns]) (use assms in simp_all)
  show "ends_in_pass (s_mode_entry vec p1c_test_main s)"
    by (rule entry_passes [OF _ p1c_main_returns]) (use assms in simp_all)
next
  assume "\<not> bit (csr_mstatus (cpu s)) 19"
  with assms show "ends_in_pass (s_mode_entry vec p1b_test_main s)"
    by (intro entry_passes_if [where P = "\<lambda>s. \<not> bit (csr_mstatus (cpu s)) 19"] p1b_main_returns) (simp_all add: write_csr_stvec_def)
next
  assume "mem s SRAM_BASE \<noteq> 0"
  with assms show "ends_in_pass (s_mode_entry vec p1d_test_main s)"
    by (intro entry_passes_if [where P = "\<lambda>s. mem s SRAM_BASE \<noteq> 0"] p1d_main_returns) (simp_all add: write_csr_stvec_def)
qed

text \<open>A hart whose memory is not empty and whose translation cache has stale entries.\<close>

definition demo_program :: program where
  "demo_program = machine.extend (demo_machine\<lparr>mem := \<lambda>_. 1\<rparr>)
     (program.fields False (\<lambda>k. if even k then Some (0, 2, sram_leaf) else None) 0)"

lemma demo_program_booted: "booted demo_program"
  using demo_dev_ok
  by (simp add: booted_def demo_program_def machine.defs program.defs demo_machine_def demo_hart_def pool_ok_def layout_ok_def
      PT_POOL_PAGES_def page_aligned_def take_bit_eq_mod)

end
