(* ===== verification/BareHoare.thy ===== *)
theory BareHoare
  imports BareEnable
begin

text \<open>
  Total correctness of the statements of a test program that makes no use of translation: from every state with working
  devices in which \<open>P\<close> holds the statement returns, with working devices, in a state in which \<open>Q\<close> holds. What
  a program prints is not part of \<open>P\<close> and \<open>Q\<close>.
\<close>

definition ensures ::
    "('z machine_scheme \<Rightarrow> bool) \<Rightarrow> ('z machine_scheme \<Rightarrow> 'z machine_scheme run) \<Rightarrow> ('z machine_scheme \<Rightarrow> bool) \<Rightarrow> bool" where
  "ensures P f Q \<longleftrightarrow> (\<forall>s. dev_ok (dev s) \<longrightarrow> P s \<longrightarrow> (\<exists>s'. f s = Ret s' \<and> dev_ok (dev s') \<and> Q s'))"

definition quiet :: "('z machine_scheme \<Rightarrow> bool) \<Rightarrow> bool" where
  "quiet P \<longleftrightarrow> (\<forall>s d. P s \<longrightarrow> P (s\<lparr>dev := d\<rparr>))"

lemma quietI [intro]: "(\<And>s d. P s \<Longrightarrow> P (s\<lparr>dev := d\<rparr>)) \<Longrightarrow> quiet P"
  by (simp add: quiet_def)

lemma quiet_dev: "quiet P \<Longrightarrow> P s \<Longrightarrow> P (s\<lparr>dev := d\<rparr>)"
  by (simp add: quiet_def)

lemma ensuresI: "(\<And>s. dev_ok (dev s) \<Longrightarrow> P s \<Longrightarrow> \<exists>s'. f s = Ret s' \<and> dev_ok (dev s') \<and> Q s') \<Longrightarrow> ensures P f Q"
  by (simp add: ensures_def)

lemma ensuresD: "ensures P f Q \<Longrightarrow> dev_ok (dev s) \<Longrightarrow> P s \<Longrightarrow> \<exists>s'. f s = Ret s' \<and> dev_ok (dev s') \<and> Q s'"
  by (simp add: ensures_def)

lemma ensures_Nil: "ensures P (block []) P"
  by (rule ensuresI) simp

lemma ensures_Cons:
  assumes "ensures P f Q" "ensures Q (block fs) R"
  shows "ensures P (block (f # fs)) R"
proof (rule ensuresI)
  fix s assume "dev_ok (dev s)" "P s"
  from ensuresD [OF assms(1) this] obtain s1 where 1: "f s = Ret s1" "dev_ok (dev s1)" "Q s1" by blast
  from ensuresD [OF assms(2) 1(2,3)] 1(1) show "\<exists>s'. block (f # fs) s = Ret s' \<and> dev_ok (dev s') \<and> R s'"
    by (simp add: block_Cons)
qed

lemma ensures_one: "ensures P f Q \<Longrightarrow> ensures P (block [f]) Q"
  by (rule ensures_Cons [OF _ ensures_Nil])

lemma ensures_pre: "(\<And>s. P s \<Longrightarrow> P' s) \<Longrightarrow> ensures P' f Q \<Longrightarrow> ensures P f Q"
  by (simp add: ensures_def)

lemma ensures_post: "ensures P f Q \<Longrightarrow> (\<And>s. Q s \<Longrightarrow> Q' s) \<Longrightarrow> ensures P f Q'"
  unfolding ensures_def by blast

text \<open>A fact that the precondition fixes may be used for the statement itself.\<close>

lemma ensures_at: "(\<And>s0. P s0 \<Longrightarrow> ensures (\<lambda>s. s = s0 \<and> P s) f Q) \<Longrightarrow> ensures P f Q"
  unfolding ensures_def by blast

lemma ensures_exec:
  assumes "\<And>s. P s \<Longrightarrow> Q (f s)" "\<And>s. dev (f s) = dev s"
  shows "ensures P (exec f) Q"
  by (rule ensuresI) (simp add: assms)

text \<open>Output and checks.\<close>

lemma ensures_say:
  assumes "quiet P" "\<And>s. dev_ok (dev s) \<Longrightarrow> \<exists>cs. f s = Ret (say cs s)"
  shows "ensures P f P"
proof (rule ensuresI)
  fix s assume s: "dev_ok (dev s)" "P s"
  from assms(2) [OF s(1)] obtain cs where "f s = Ret (say cs s)" by blast
  then show "\<exists>s'. f s = Ret s' \<and> dev_ok (dev s') \<and> P s'" using s quiet_dev [OF assms(1)] by simp
qed

lemma ensures_puts: "quiet P \<Longrightarrow> ensures P (uart_puts cs) P"
  by (rule ensures_say) (auto simp del: uart_puts.simps)

lemma ensures_putc: "quiet P \<Longrightarrow> ensures P (uart_putc c) P"
  by (rule ensures_say) auto

lemma ensures_put_hex: "quiet P \<Longrightarrow> ensures P (uart_put_hex w) P"
  by (rule ensures_say) auto

lemma ensures_put_dec: "quiet P \<Longrightarrow> ensures P (uart_put_dec n) P"
  by (rule ensures_say) auto

lemma ensures_log: "quiet P \<Longrightarrow> ensures P (TEST_LOG msg) P"
  by (rule ensures_say [OF _ log_say])

lemma ensures_assert_eq: "(\<And>s. P s \<Longrightarrow> a s = b) \<Longrightarrow> ensures P (\<lambda>s. ASSERT_EQ (a s) b msg code s) P"
  by (rule ensuresI) (simp add: ASSERT_EQ_def)

lemma ensures_assert: "(\<And>s. P s \<Longrightarrow> c s) \<Longrightarrow> ensures P (\<lambda>s. test_assert (c s) msg code s) P"
  by (rule ensuresI) (simp add: test_assert_def)

lemmas ensures_print = ensures_puts ensures_putc ensures_put_hex ensures_put_dec ensures_log

text \<open>The statement ends the test with a failure code.\<close>

definition stops :: "('z machine_scheme \<Rightarrow> bool) \<Rightarrow> ('z machine_scheme \<Rightarrow> 'z machine_scheme run) \<Rightarrow> c_int \<Rightarrow> bool" where
  "stops P f code \<longleftrightarrow> (\<forall>s. dev_ok (dev s) \<longrightarrow> P s \<longrightarrow> (\<exists>s'. f s = Halt s' \<and> tohost (dev s') = fail_word code))"

lemma stopsI: "(\<And>s. dev_ok (dev s) \<Longrightarrow> P s \<Longrightarrow> \<exists>s'. f s = Halt s' \<and> tohost (dev s') = fail_word code) \<Longrightarrow> stops P f code"
  by (simp add: stops_def)

lemma stopsD: "stops P f code \<Longrightarrow> dev_ok (dev s) \<Longrightarrow> P s \<Longrightarrow> \<exists>s'. f s = Halt s' \<and> tohost (dev s') = fail_word code"
  by (simp add: stops_def)

lemma stops_here: "stops P f code \<Longrightarrow> stops P (block (f # fs)) code"
  unfolding stops_def by (fastforce simp: block_Cons)

lemma stops_Cons:
  assumes "ensures P f Q" "stops Q (block fs) code"
  shows "stops P (block (f # fs)) code"
proof (rule stopsI)
  fix s assume "dev_ok (dev s)" "P s"
  from ensuresD [OF assms(1) this] obtain s1 where 1: "f s = Ret s1" "dev_ok (dev s1)" "Q s1" by blast
  from stopsD [OF assms(2) 1(2,3)] 1(1) show "\<exists>s'. block (f # fs) s = Halt s' \<and> tohost (dev s') = fail_word code"
    by (simp add: block_Cons)
qed

lemma assert_eq_stops:
  "dev_ok (dev s) \<Longrightarrow> a \<noteq> b \<Longrightarrow> \<exists>s'. ASSERT_EQ a b msg code s = Halt s' \<and> tohost (dev s') = fail_word code"
  by (simp add: ASSERT_EQ_def del: uart_puts.simps) (rule test_fail_any, simp)

text \<open>From the entry point to the verdict.\<close>

lemma entry_stops:
  assumes "dev_ok (dev s)" "P (write_csr_stvec vec s)" "quiet P" "stops P f code"
  shows "\<exists>s'. s_mode_entry vec (\<lambda>s. returning 0 (f s)) s = Halt s' \<and> tohost (dev s') = fail_word code"
proof -
  define x where "x = CHR 0x0A # ''=== S-mode entry, stvec set ==='' @ [CHR 0x0A]"
  let ?s = "say (crlf x) (write_csr_stvec vec s)"
  have d: "dev_ok (dev (write_csr_stvec vec s))" using assms(1) by (simp add: write_csr_stvec_def)
  have "dev_ok (dev ?s)" using d by simp
  from stopsD [OF assms(4) this quiet_dev [OF assms(3,2)]] obtain t where
    "f ?s = Halt t" "tohost (dev t) = fail_word code" by blast
  with d show ?thesis
    unfolding s_mode_entry_def x_def [symmetric] by (simp add: returning_def del: uart_puts.simps)
qed

lemma ensures_returning: "ensures P f Q \<Longrightarrow> dev_ok (dev s) \<Longrightarrow> P s \<Longrightarrow> \<exists>s'. returning 0 (f s) = Ret (0, s') \<and> dev_ok (dev s')"
  using ensuresD [of P f Q s] by (auto simp: returning_def)

lemma entry_ensures:
  assumes "dev_ok (dev s)" "P (write_csr_stvec vec s)" "quiet P" "ensures P f Q"
  shows "ends_in_pass (s_mode_entry vec (\<lambda>s. returning 0 (f s)) s)"
proof (rule entry_returns [OF assms(1)])
  fix cs
  show "\<exists>t'. returning 0 (f (say cs (write_csr_stvec vec s))) = Ret (0, t') \<and> dev_ok (dev t')"
    by (rule ensures_returning [OF assms(4) _ quiet_dev [OF assms(3,2)]]) (use assms(1) in \<open>simp add: write_csr_stvec_def\<close>)
qed

end
