(* ===== verification/BareSanity.thy ===== *)
theory BareSanity
  imports BareHoare
begin

text \<open>
  Phase 0 of the bare-metal suite, \<^verbatim>\<open>tests/p0_sanity.c\<close>: console, a CSR, an \<open>ecall\<close> that the M-mode firmware
  hands on to the S-mode handler, a sweep over the heap. Translation is off.
\<close>

section \<open>The program\<close>

text \<open>The firmware returns to the S-mode vector: where the program counter is then, the hart runs.\<close>

definition ecall_forwarded :: "'z machine_scheme \<Rightarrow> 'z machine_scheme run" where
  "ecall_forwarded = block
     [exec (set_reg 17 0xFF), ecall,
      \<lambda>s. if_do (pc (cpu s) = csr_stvec (cpu s) AND NOT 3) s_trap_vector s]"

definition p0_2 :: "'z program_scheme \<Rightarrow> 'z program_scheme run" where
  "p0_2 = block
     [TEST_LOG (''P0.2 '' @ dash @ '' CSR read/write...''),
      \<lambda>s. let sstatus = read_sstatus s in block
        [uart_puts ''    sstatus = '', uart_put_hex sstatus, uart_putc (CHR 0x0A)] s,
      TEST_LOG (''P0.2 '' @ dash @ '' CSR read: OK'')]"

definition p0_3 :: "'z program_scheme \<Rightarrow> 'z program_scheme run" where
  "p0_3 = block
     [TEST_LOG (''P0.3 '' @ dash @ '' S-mode trap handler (ecall)...''),
      exec (upd_trap (\<lambda>t. t\<lparr>fault_count := 0\<rparr>)),
      exec (upd_trap (\<lambda>t. t\<lparr>scause := 0\<rparr>)),
      ecall_forwarded,
      \<lambda>s. ASSERT_EQ (scause (g_trap s)) CAUSE_ECALL_SMODE ''ecall should produce scause=9'' 31 s,
      \<lambda>s. ASSERT_EQ (u64_of_int (fault_count (g_trap s))) 1 ''fault_count should be 1 after ecall'' 32 s,
      TEST_LOG (''P0.3 '' @ dash @ '' S-mode trap handler: OK'')]"

definition p0_expected :: "nat \<Rightarrow> u64" where
  "p0_expected i = 0xDEAD0000 OR of_nat i"

definition heap_words :: "u64 \<Rightarrow> u64 \<Rightarrow> nat" where
  "heap_words heap_start heap_end = min 1024 (unat (heap_end - heap_start) div 8)"

definition p0_mem_error :: "u64 \<Rightarrow> nat \<Rightarrow> 'z program_scheme \<Rightarrow> 'z program_scheme run" where
  "p0_mem_error heap i = block
     [uart_puts ''    MEM ERROR at offset '', uart_put_dec (wrap32 (int i)),
      uart_puts '': got '', vload (slot heap (of_nat i)) uart_put_hex,
      uart_puts '' expected '', uart_put_hex (p0_expected i), uart_putc (CHR 0x0A)]"

text \<open>The second loop, with its counter of errors and what comes after it.\<close>

primrec p0_check :: "u64 \<Rightarrow> nat list \<Rightarrow> c_int \<Rightarrow> (c_int \<Rightarrow> 'z program_scheme \<Rightarrow> 'z program_scheme run) \<Rightarrow>
    'z program_scheme \<Rightarrow> 'z program_scheme run" where
  "p0_check heap [] mem_errors k = k mem_errors"
| "p0_check heap (i # is) mem_errors k = vload (slot heap (of_nat i)) (\<lambda>v.
     if v \<noteq> p0_expected i
     then block [if_do (mem_errors < 3) (p0_mem_error heap i), p0_check heap is (inc32 mem_errors) k]
     else p0_check heap is mem_errors k)"

definition p0_4 :: "u64 \<Rightarrow> u64 \<Rightarrow> 'z program_scheme \<Rightarrow> 'z program_scheme run" where
  "p0_4 heap_start heap_end = (let heap_size_words = heap_words heap_start heap_end in block
     [TEST_LOG (''P0.4 '' @ dash @ '' SRAM read/write sweep...''),
      block (map (\<lambda>i. vstore (slot heap_start (of_nat i)) (p0_expected i)) [0..<heap_size_words]),
      p0_check heap_start [0..<heap_size_words] 0
        (\<lambda>mem_errors. ASSERT_EQ (u64_of_int mem_errors) 0 ''SRAM read/write errors detected'' 41),
      uart_puts ''    Tested '', uart_put_dec (wrap32 (int heap_size_words)),
      uart_puts ('' 64-bit words: OK'' @ [CHR 0x0A]),
      TEST_LOG (''P0.4 '' @ dash @ '' SRAM read/write sweep: OK'')])"

definition p0_test_main :: "u64 \<Rightarrow> u64 \<Rightarrow> 'z program_scheme \<Rightarrow> (c_int \<times> 'z program_scheme) run" where
  "p0_test_main heap_start heap_end s = returning 0 (block
     [banner ''Phase 0: Pre-MMU Sanity Tests'',
      TEST_LOG (''P0.1 '' @ dash @ '' UART TX: OK (you are reading this)''),
      p0_2, p0_3, p0_4 heap_start heap_end,
      TEST_LOG (''P0.5 '' @ dash @ '' HTIF will be tested by final PASS signal''),
      banner ''Phase 0: ALL TESTS PASSED''] s)"

section \<open>The reflected call\<close>

definition log_ecall :: "u64 \<Rightarrow> trap_state \<Rightarrow> trap_state" where
  "log_ecall epc t = t\<lparr>scause := CAUSE_ECALL_SMODE, stval := 0, sepc := epc, fault_count := inc32 (fault_count t)\<rparr>"

lemma ecall_handler:
  assumes "dev_ok (dev s)"
  shows "\<exists>cs. s_trap_handler CAUSE_ECALL_SMODE 0 epc frame s =
    Ret (st64 (slot frame 30) (epc + 4) (s\<lparr>g_trap := log_ecall epc (g_trap s), dev := console.emit cs (dev s)\<rparr>))"
  using assms by (simp add: s_trap_handler_def Let_def upd_trap_def log_ecall_def platform_consts del: uart_puts.simps)
    (rule exI, rule refl)

text \<open>The call resumes behind the \<open>ecall\<close>; besides the trap log and the console only the two frames have changed.\<close>

lemma ecall_forwarded_run:
  assumes "dev_ok (dev s)" "prv (cpu s) = S_mode"
  shows "\<exists>s'. ecall_forwarded s = Ret s' \<and> dev_ok (dev s') \<and> prv (cpu s') = S_mode \<and> pc (cpu s') = pc (cpu s) + 4 \<and>
    g_trap s' = log_ecall (pc (cpu s)) (g_trap s) \<and> csr_satp (cpu s') = csr_satp (cpu s) \<and>
    (\<forall>a. a \<notin> frame_words (m_frame s) 16 \<union> frame_words (s_frame s) 31 \<longrightarrow> mem s' a = mem s a)"
proof -
  let ?s0 = "set_reg 17 0xFF s"
  let ?s1 = "?s0\<lparr>mem := m_saved_mem ?s0, cpu := m_visited CAUSE_ECALL_SMODE (csr_stvec (cpu ?s0) AND NOT 3)
      ((cpu ?s0)\<lparr>csr_sepc := pc (cpu ?s0), csr_scause := CAUSE_ECALL_SMODE, csr_stval := 0,
         csr_mstatus := put_bit 8 True (csr_mstatus (cpu ?s0))\<rparr>)\<rparr>"
  have 1: "ecall ?s0 = Ret ?s1"
    by (rule ecall_reflect) (use assms in \<open>simp_all add: platform_consts\<close>)
  have regs: "csr_scause (cpu ?s1) = CAUSE_ECALL_SMODE" "csr_stval (cpu ?s1) = 0" "csr_sepc (cpu ?s1) = pc (cpu s)"
    "pc (cpu ?s1) = csr_stvec (cpu ?s1) AND NOT 3" "bit (csr_mstatus (cpu ?s1)) 8" "csr_satp (cpu ?s1) = csr_satp (cpu s)"
    "s_frame ?s1 = s_frame s" "m_frame ?s0 = m_frame s"
    by (simp_all add: m_visited_def s_frame_def m_frame_def set_reg_def)
  have "dev_ok (dev (s_entry ?s1))" using assms(1) by (simp add: s_entry_def set_reg_def)
  from ecall_handler [OF this, of "pc (cpu s)" "s_frame ?s1"] obtain cs where
    2: "s_trap_handler CAUSE_ECALL_SMODE 0 (pc (cpu s)) (s_frame ?s1) (s_entry ?s1) = Ret (st64 (slot (s_frame ?s1) 30) (pc (cpu s) + 4)
      ((s_entry ?s1)\<lparr>g_trap := log_ecall (pc (cpu s)) (g_trap (s_entry ?s1)), dev := console.emit cs (dev (s_entry ?s1))\<rparr>))" (is "_ = Ret ?s2") by blast
  have other: "slot (s_frame ?s1) (of_nat i) \<noteq> slot (s_frame ?s1) 30" if "i < 30" for i
    using that slot_nat_inj [of i 30 "s_frame ?s1"] by simp
  have 3: "s_trap_vector ?s1 =
    Ret (on_cpu (\<lambda>h. sret (h\<lparr>csr_sepc := mem ?s2 (slot (s_frame ?s1) 30), gpr := gpr (cpu ?s1)\<rparr>)) ?s2)" (is "_ = Ret ?s3")
    by (rule s_trap_vector_ret) (use 2 regs other in \<open>simp_all add: st64_def\<close>)
  have "ecall_forwarded s = Ret ?s3"
    using 1 3 regs(4) by (simp add: ecall_forwarded_def)
  moreover have "mem ?s3 a = mem s a" if "a \<notin> frame_words (m_frame s) 16 \<union> frame_words (s_frame s) 31" for a
  proof -
    have "slot (s_frame s) 30 \<in> frame_words (s_frame s) 31" using frame_wordsI [of 30 31 "s_frame s"] by simp
    with that have "a \<noteq> slot (s_frame s) 30" by auto
    then have "mem ?s3 a = s_saved_mem ?s1 a" using regs(7) by (simp add: st64_def s_entry_def)
    also have "\<dots> = m_saved_mem ?s0 a" using s_saved_mem_other [of a ?s1] that regs(7) by simp
    also have "\<dots> = mem s a" using m_saved_mem_other [of a ?s0] that regs(8) by (simp add: set_reg_def)
    finally show ?thesis .
  qed
  moreover have "dev_ok (dev ?s3)" using assms(1) by (simp add: st64_def s_entry_def set_reg_def)
  ultimately show ?thesis
    using regs by (intro exI [of _ ?s3]) (simp add: st64_def s_entry_def set_reg_def sret_def m_visited_def)
qed

section \<open>Phase 0 passes\<close>

text \<open>With translation off an access is to the physical address.\<close>

lemma bare_access:
  assumes "\<not> sv39_on s"
  shows "vload a k s = k (mem s a) s" "vstore a v s = Ret (st64 a v s)"
proof -
  have "hart_access acc a s = Some (Ret (Some a, s))" for acc
    using assms by (subst hart_access.simps) (simp add: hart_step_def)
  then show "vload a k s = k (mem s a) s" "vstore a v s = Ret (st64 a v s)"
    by (simp_all add: vload_def vstore_def vaccess_def)
qed

text \<open>A hart in S-mode with translation off.\<close>

definition bare_hart :: "'z machine_scheme \<Rightarrow> bool" where
  "bare_hart s \<longleftrightarrow> prv (cpu s) = S_mode \<and> \<not> sv39_on s"

lemma bare_hart_simps [simp]:
  "bare_hart (s\<lparr>dev := d\<rparr>) = bare_hart s" "bare_hart (st64 a v s) = bare_hart s" "bare_hart (upd_trap f s) = bare_hart s"
  "bare_hart (write_csr_stvec vec s) = bare_hart s"
  by (simp_all add: bare_hart_def sv39_on_def st64_def upd_trap_def write_csr_stvec_def)

lemma p0_3_ensures: "ensures bare_hart p0_3 bare_hart"
proof -
  let ?Q = "\<lambda>s :: 'y machine_scheme. bare_hart s \<and> scause (g_trap s) = CAUSE_ECALL_SMODE \<and> fault_count (g_trap s) = 1"
  have call: "ensures (\<lambda>s. bare_hart s \<and> fault_count (g_trap s) = 0) ecall_forwarded ?Q"
  proof (rule ensuresI)
    fix s :: "'y machine_scheme" assume "dev_ok (dev s)" "bare_hart s \<and> fault_count (g_trap s) = 0"
    with ecall_forwarded_run [of s]
    show "\<exists>s'. ecall_forwarded s = Ret s' \<and> dev_ok (dev s') \<and> ?Q s'"
      by (auto simp: bare_hart_def sv39_on_def log_ecall_def inc32_def)
  qed
  show ?thesis
    unfolding p0_3_def
    apply (rule ensures_Cons, rule ensures_log, force)
    apply (rule ensures_Cons, rule ensures_exec [where Q = "\<lambda>s. bare_hart s \<and> fault_count (g_trap s) = 0"],
        simp add: upd_trap_def [of _ s for s] bare_hart_def sv39_on_def, simp add: upd_trap_def)
    apply (rule ensures_Cons, rule ensures_exec [where Q = "\<lambda>s. bare_hart s \<and> fault_count (g_trap s) = 0"],
        simp add: upd_trap_def [of _ s for s] bare_hart_def sv39_on_def, simp add: upd_trap_def)
    apply (rule ensures_Cons, rule call)
    apply (rule ensures_Cons, rule ensures_assert_eq, simp)
    apply (rule ensures_Cons, rule ensures_assert_eq, simp add: u64_of_int_def)
    apply (rule ensures_post [OF ensures_one [OF ensures_log]], force, simp)
    done
qed

lemma heap_slots: "i < 1024 \<Longrightarrow> j < 1024 \<Longrightarrow> slot a (of_nat i) = slot a (of_nat j) \<longleftrightarrow> i = j"
proof
  assume ij: "i < 1024" "j < 1024" and "slot a (of_nat i) = slot a (of_nat j)"
  then have "(8 * of_nat i :: u64) = 8 * of_nat j" by (simp add: slot_def)
  then have "(of_nat (8 * i) :: u64) = of_nat (8 * j)" by simp
  then show "i = j" using ij unfolding word_of_nat_eq_iff by (simp add: take_bit_nat_eq_self)
qed simp

definition swept :: "u64 \<Rightarrow> nat \<Rightarrow> 'z machine_scheme \<Rightarrow> bool" where
  "swept heap n s \<longleftrightarrow> bare_hart s \<and> (\<forall>i<n. mem s (slot heap (of_nat i)) = p0_expected i)"

lemma sweep_ensures:
  assumes "n \<le> 1024"
  shows "ensures bare_hart (block (map (\<lambda>i. vstore (slot heap (of_nat i)) (p0_expected i)) [0..<n])) (swept heap n)"
proof (rule ensuresI)
  fix s :: "'a program_scheme" assume s: "dev_ok (dev s)" "bare_hart s"
  have "\<exists>s'. block (map (\<lambda>i. vstore (slot heap (of_nat i)) (p0_expected i)) [0..<n]) s = Ret s' \<and> (dev_ok (dev s') \<and> swept heap n s')"
  proof (rule block_upto [where P = "\<lambda>i s. dev_ok (dev s) \<and> swept heap i s"])
    fix i and s :: "'a program_scheme" assume i: "i < n" and P: "dev_ok (dev s) \<and> swept heap i s"
    have "vstore (slot heap (of_nat i)) (p0_expected i) s = Ret (st64 (slot heap (of_nat i)) (p0_expected i) s)"
      using P by (intro bare_access) (simp add: swept_def bare_hart_def)
    moreover have "swept heap (Suc i) (st64 (slot heap (of_nat i)) (p0_expected i) s)"
      using P i assms heap_slots [of _ i heap] by (auto simp: swept_def less_Suc_eq)
    ultimately show "\<exists>s'. vstore (slot heap (of_nat i)) (p0_expected i) s = Ret s' \<and> dev_ok (dev s') \<and> swept heap (Suc i) s'"
      using P by (simp add: st64_def)
  qed (use s in \<open>simp_all add: swept_def\<close>)
  then show "\<exists>s'. block (map (\<lambda>i. vstore (slot heap (of_nat i)) (p0_expected i)) [0..<n]) s = Ret s' \<and> dev_ok (dev s') \<and> swept heap n s'" .
qed

lemma check_run:
  assumes "\<not> sv39_on s" "\<forall>i\<in>set is. mem s (slot heap (of_nat i)) = p0_expected i"
  shows "p0_check heap is e k s = k e s"
  using assms by (induction "is") (simp_all add: bare_access)

lemma check_ensures: "ensures (swept heap n) (p0_check heap [0..<n] 0 (\<lambda>e. ASSERT_EQ (u64_of_int e) 0 msg code)) bare_hart"
  by (rule ensuresI, subst check_run) (auto simp: swept_def bare_hart_def ASSERT_EQ_def u64_of_int_def)

lemma p0_4_ensures: "ensures bare_hart (p0_4 heap_start heap_end) bare_hart"
  unfolding p0_4_def Let_def
  apply (rule ensures_Cons, rule ensures_log, force)
  apply (rule ensures_Cons, rule sweep_ensures, simp add: heap_words_def)
  apply (rule ensures_Cons, rule check_ensures)
  apply (rule ensures_Cons, rule ensures_print, force)+
  apply (rule ensures_Nil)
  done

lemma p0_2_ensures: "ensures bare_hart p0_2 bare_hart"
  unfolding p0_2_def
  apply (rule ensures_Cons, rule ensures_log, force)
  apply (rule ensures_Cons, rule ensures_say, force, force simp: Let_def simp del: uart_puts.simps)
  apply (rule ensures_one, rule ensures_log, force)
  done

lemma ensures_banner: "quiet P \<Longrightarrow> ensures P (banner title) P"
  by (rule ensures_say [OF _ banner_say])

lemma p0_entry_passes:
  assumes "dev_ok (dev s)" "bare_hart s"
  shows "ends_in_pass (s_mode_entry vec (p0_test_main heap_start heap_end) s)"
  unfolding p0_test_main_def
  apply (rule entry_ensures [where P = bare_hart], rule assms, simp add: assms, force)
  apply (rule ensures_Cons, rule ensures_banner, force)
  apply (rule ensures_Cons, rule ensures_log, force)
  apply (rule ensures_Cons, rule p0_2_ensures)
  apply (rule ensures_Cons, rule p0_3_ensures)
  apply (rule ensures_Cons, rule p0_4_ensures)
  apply (rule ensures_Cons, rule ensures_log, force)
  apply (rule ensures_one, rule ensures_banner, force)
  done

end
