(* ===== verification/Interleave.thy ===== *)
theory Interleave
  imports Prelude
begin

text \<open>
  Programs of two cores as transition systems: the reachable states of a step relation, the
  invariants proved of them once for every system, and what a number of moves of one core
  leads to when the other one stands still.
\<close>

inductive reach :: "('s \<Rightarrow> bool) \<Rightarrow> ('s \<Rightarrow> 's \<Rightarrow> bool) \<Rightarrow> 's \<Rightarrow> bool"
  for init step where
  reach_init: "init s \<Longrightarrow> reach init step s"
| reach_step: "reach init step s \<Longrightarrow> step s s' \<Longrightarrow> reach init step s'"

text \<open>An inductive invariant: it holds at the start and every step keeps it.\<close>

locale inductive_inv =
  fixes init :: "'s \<Rightarrow> bool" and step :: "'s \<Rightarrow> 's \<Rightarrow> bool" and inv :: "'s \<Rightarrow> bool"
  assumes starts: "init s \<Longrightarrow> inv s"
    and keeps: "inv s \<Longrightarrow> step s s' \<Longrightarrow> inv s'"
begin

lemma always: "reach init step s \<Longrightarrow> inv s"
  by (induction rule: reach.induct) (auto intro: starts keeps)

lemma from_there: "step\<^sup>*\<^sup>* s s' \<Longrightarrow> inv s \<Longrightarrow> inv s'"
  by (induction rule: rtranclp_induct) (auto intro: keeps)

end

text \<open>
  Progress: while \<open>waiting\<close> holds a move is possible, and it either keeps \<open>waiting\<close> with a
  smaller rank or reaches \<open>goal\<close>, which no later move leaves.
\<close>

locale progress =
  fixes move :: "'s \<Rightarrow> 's \<Rightarrow> bool" and waiting goal :: "'s \<Rightarrow> bool" and rank :: "'s \<Rightarrow> nat"
  assumes enabled: "waiting s \<Longrightarrow> \<exists>s'. move s s'"
    and decreases: "waiting s \<Longrightarrow> move s s' \<Longrightarrow> goal s' \<or> waiting s' \<and> rank s' < rank s"
    and goal_stays: "goal s \<Longrightarrow> move s s' \<Longrightarrow> goal s'"
begin

lemma goal_or_waiting:
  "(move ^^ n) s s' \<Longrightarrow> waiting s \<Longrightarrow> goal s' \<or> waiting s' \<and> rank s' + n \<le> rank s"
proof (induction n arbitrary: s')
  case (Suc n)
  then obtain t where t: "(move ^^ n) s t" "move t s'" by auto
  from Suc.IH [OF t(1) Suc.prems(2)] show ?case
    using decreases [of t s'] goal_stays [of t s'] t(2) by force
qed simp

lemma reaches_goal: "(move ^^ n) s s' \<Longrightarrow> waiting s \<Longrightarrow> rank s < n \<Longrightarrow> goal s'"
  using goal_or_waiting [of n s s'] by auto

lemma never_stuck: "(move ^^ n) s s' \<Longrightarrow> waiting s \<Longrightarrow> goal s' \<or> (\<exists>s''. move s' s'')"
  using goal_or_waiting [of n s s'] enabled [of s'] by auto

end

text \<open>Running a schedule: \<open>perform\<close> makes one move if it is possible.\<close>

fun schedule :: "('m \<Rightarrow> 's \<Rightarrow> 's option) \<Rightarrow> 'm list \<Rightarrow> 's \<Rightarrow> 's option" where
  "schedule perform [] s = Some s"
| "schedule perform (m # ms) s = (case perform m s of None \<Rightarrow> None | Some t \<Rightarrow> schedule perform ms t)"

lemma schedule_reach:
  assumes "\<And>m s s'. perform m s = Some s' \<Longrightarrow> step s s'"
  shows "reach init step s \<Longrightarrow> schedule perform ms s = Some s' \<Longrightarrow> reach init step s'"
proof (induction ms arbitrary: s)
  case (Cons m ms)
  from Cons.prems(2) obtain t where t: "perform m s = Some t" "schedule perform ms t = Some s'"
    by (auto split: option.splits)
  then show ?case using Cons.IH [of t] reach_step [OF Cons.prems(1) assms [OF t(1)]] by simp
qed simp

end
