(* ===== verification/DualCore.thy ===== *)
theory DualCore
  imports Interleave "HOL-Library.Sublist"
begin

text \<open>
  Handing work to core 1: \<open>core1_smode_park_loop\<close> and \<open>wake_core1_smode\<close> of
  \<^verbatim>\<open>common/smode.c\<close>, interleaved at their accesses to shared variables, with the two
  interrupt handlers that move core 1's wake-up along (M-mode turns the CLINT's software
  interrupt into SSIP, S-mode acknowledges SSIP). The theorems are about which tasks run.
\<close>

section \<open>The two programs\<close>

text \<open>
  The program points of core 1: before its set-up, at the clearing of SSIP, at the test of the
  target, at the \<open>wfi\<close>, stopped in it, at the call, in the called function, at the reset.
  A function pointer is an address, 0 the null pointer.
\<close>

datatype core1_loc =
  C1_Setup | C1_Clear | C1_Check | C1_Wfi | C1_Asleep | C1_Call | C1_Body u64 | C1_Reset

datatype core0_loc = C0_Test | C0_Ready u64 | C0_Store u64 | C0_Ipi

text \<open>
  \<open>msip1\<close> is core 1's CLINT software interrupt, \<open>ssip1\<close> its SSIP. \<open>posted\<close>, \<open>started\<close> and
  \<open>finished\<close> record the history: the targets core 0 stored, the functions core 1 called, and how many of them have
  raised the flag with which a test's function reports that it is through.
\<close>

record dual =
  g_smode_target :: u64
  g_core1_smode_ready :: c_int
  msip1 :: bool
  ssip1 :: bool
  loc0 :: core0_loc
  loc1 :: core1_loc
  posted :: "u64 list"
  started :: "u64 list"
  finished :: nat

definition park_step :: "dual \<Rightarrow> dual option" where
  "park_step s =
     (case loc1 s of
        C1_Setup \<Rightarrow> Some (s\<lparr>g_core1_smode_ready := 1, loc1 := C1_Clear\<rparr>)
      | C1_Clear \<Rightarrow> Some (s\<lparr>ssip1 := False, loc1 := C1_Check\<rparr>)
      | C1_Check \<Rightarrow> Some (s\<lparr>loc1 := if g_smode_target s = 0 then C1_Wfi else C1_Call\<rparr>)
      | C1_Wfi \<Rightarrow> Some (s\<lparr>loc1 := if msip1 s \<or> ssip1 s then C1_Check else C1_Asleep\<rparr>)
      | C1_Asleep \<Rightarrow> None
      | C1_Call \<Rightarrow> Some (s\<lparr>loc1 := C1_Body (g_smode_target s), started := started s @ [g_smode_target s]\<rparr>)
      | C1_Body f \<Rightarrow> Some (s\<lparr>loc1 := C1_Reset, finished := Suc (finished s)\<rparr>)
      | C1_Reset \<Rightarrow> Some (s\<lparr>g_smode_target := 0, loc1 := C1_Clear\<rparr>))"

definition wake_step :: "dual \<Rightarrow> dual option" where
  "wake_step s =
     (case loc0 s of
        C0_Test \<Rightarrow> None
      | C0_Ready f \<Rightarrow> Some (if g_core1_smode_ready s = 0 then s else s\<lparr>loc0 := C0_Store f\<rparr>)
      | C0_Store f \<Rightarrow> Some (s\<lparr>g_smode_target := f, posted := posted s @ [f], loc0 := C0_Ipi\<rparr>)
      | C0_Ipi \<Rightarrow> Some (s\<lparr>msip1 := True, loc0 := C0_Test\<rparr>))"

text \<open>An interrupt taken in a \<open>wfi\<close> returns behind it.\<close>

definition woken :: "core1_loc \<Rightarrow> core1_loc" where
  "woken l = (if l = C1_Asleep then C1_Check else l)"

definition m_soft_irq :: "dual \<Rightarrow> dual option" where
  "m_soft_irq s = (if msip1 s then Some (s\<lparr>msip1 := False, ssip1 := True, loc1 := woken (loc1 s)\<rparr>) else None)"

definition s_soft_irq :: "dual \<Rightarrow> dual option" where
  "s_soft_irq s =
     (if ssip1 s \<and> loc1 s \<noteq> C1_Setup then Some (s\<lparr>ssip1 := False, loc1 := woken (loc1 s)\<rparr>) else None)"

definition dual_init :: "dual \<Rightarrow> bool" where
  "dual_init s \<longleftrightarrow> g_smode_target s = 0 \<and> g_core1_smode_ready s = 0 \<and> \<not> msip1 s \<and> \<not> ssip1 s \<and>
     loc0 s = C0_Test \<and> loc1 s = C1_Setup \<and> posted s = [] \<and> started s = [] \<and> finished s = 0"

text \<open>Core 1's moves, and the system under a test that calls \<open>wake_core1_smode\<close> whenever
  \<open>may_post\<close> allows it.\<close>

definition core1_move :: "dual \<Rightarrow> dual \<Rightarrow> bool" where
  "core1_move s s' \<longleftrightarrow> park_step s = Some s' \<or> m_soft_irq s = Some s' \<or> s_soft_irq s = Some s'"

inductive dual_step :: "(dual \<Rightarrow> bool) \<Rightarrow> dual \<Rightarrow> dual \<Rightarrow> bool" for may_post where
  core1: "core1_move s s' \<Longrightarrow> dual_step may_post s s'"
| core0: "wake_step s = Some s' \<Longrightarrow> dual_step may_post s s'"
| call: "loc0 s = C0_Test \<Longrightarrow> f \<noteq> 0 \<Longrightarrow> may_post s \<Longrightarrow> dual_step may_post s (s\<lparr>loc0 := C0_Ready f\<rparr>)"

text \<open>Three ways for a test to decide that it may post: always, when the target has been reset,
  and (as the tests do) when every function posted has raised its flag.\<close>

definition any_time :: "dual \<Rightarrow> bool" where
  "any_time s \<longleftrightarrow> True"

definition when_reset :: "dual \<Rightarrow> bool" where
  "when_reset s \<longleftrightarrow> g_smode_target s = 0"

definition when_flagged :: "dual \<Rightarrow> bool" where
  "when_flagged s \<longleftrightarrow> finished s = length (posted s)"

lemmas dual_moves = core1_move_def park_step_def m_soft_irq_def s_soft_irq_def wake_step_def woken_def

section \<open>What runs was posted\<close>

text \<open>Core 0 holds a real function, and from the test of the target until the reset the target is
  one too. Every function called was posted, in that order, and since the last call only
  newer ones: the current target comes after them.\<close>

definition engaged :: "core1_loc \<Rightarrow> bool" where
  "engaged l \<longleftrightarrow> (case l of C1_Body f \<Rightarrow> True | C1_Reset \<Rightarrow> True | _ \<Rightarrow> False)"

definition awaiting :: "dual \<Rightarrow> u64 list" where
  "awaiting s = (if g_smode_target s \<noteq> 0 \<and> \<not> engaged (loc1 s) then [g_smode_target s] else [])"

definition post_inv :: "dual \<Rightarrow> bool" where
  "post_inv s \<longleftrightarrow>
     (case loc0 s of C0_Ready f \<Rightarrow> f \<noteq> 0 | C0_Store f \<Rightarrow> f \<noteq> 0 | _ \<Rightarrow> True) \<and>
     (loc1 s = C1_Call \<longrightarrow> g_smode_target s \<noteq> 0) \<and>
     (loc1 s = C1_Setup \<longrightarrow> g_core1_smode_ready s = 0) \<and>
     0 \<notin> set (started s) \<and> subseq (started s @ awaiting s) (posted s)"

lemma engaged_simps [simp]:
  "\<not> engaged C1_Setup" "\<not> engaged C1_Clear" "\<not> engaged C1_Check" "\<not> engaged C1_Wfi" "\<not> engaged C1_Asleep"
  "\<not> engaged C1_Call" "engaged (C1_Body f)" "engaged C1_Reset" "engaged (woken l) = engaged l"
  by (simp_all add: engaged_def woken_def)

lemma woken_iff [simp]: "woken l = C1_Call \<longleftrightarrow> l = C1_Call" "woken l = C1_Setup \<longleftrightarrow> l = C1_Setup"
  by (simp_all add: woken_def)

lemma awaiting_update [simp]:
  "awaiting (s\<lparr>loc0 := l\<rparr>) = awaiting s" "awaiting (s\<lparr>msip1 := b\<rparr>) = awaiting s" "awaiting (s\<lparr>ssip1 := b\<rparr>) = awaiting s"
  "awaiting (s\<lparr>g_core1_smode_ready := i\<rparr>) = awaiting s" "awaiting (s\<lparr>posted := p\<rparr>) = awaiting s"
  "awaiting (s\<lparr>started := p\<rparr>) = awaiting s" "awaiting (s\<lparr>finished := n\<rparr>) = awaiting s"
  "engaged l1 = engaged (loc1 s) \<Longrightarrow> awaiting (s\<lparr>loc1 := l1\<rparr>) = awaiting s"
  by (simp_all add: awaiting_def)

lemma awaiting_moved:
  "engaged (loc1 s) \<Longrightarrow> awaiting s = []"
  "\<not> engaged (loc1 s) \<Longrightarrow> awaiting s = (if g_smode_target s = 0 then [] else [g_smode_target s])"
  by (simp_all add: awaiting_def)

lemma subseq_left: "subseq (xs @ ys) zs \<Longrightarrow> subseq xs zs"
  by (rule subseq_order.order_trans [OF list_emb_prefix]) simp_all

lemma post_inv_park: "post_inv s \<Longrightarrow> park_step s = Some s' \<Longrightarrow> post_inv s'"
  by (cases "loc1 s")
    (auto simp: park_step_def post_inv_def awaiting_def split: if_splits dest: subseq_left)

lemma post_inv_irq: "post_inv s \<Longrightarrow> m_soft_irq s = Some s' \<or> s_soft_irq s = Some s' \<Longrightarrow> post_inv s'"
  by (auto simp: m_soft_irq_def s_soft_irq_def post_inv_def awaiting_def split: if_splits)

lemma post_inv_wake: "post_inv s \<Longrightarrow> wake_step s = Some s' \<Longrightarrow> post_inv s'"
  by (cases "loc0 s")
    (auto simp: wake_step_def post_inv_def awaiting_def split: if_splits dest: subseq_left)

interpretation post: inductive_inv dual_init "dual_step any_time" post_inv
proof
  show "post_inv s" if "dual_init s" for s
    using that by (simp add: dual_init_def post_inv_def awaiting_def)
  show "post_inv s'" if "post_inv s" "dual_step any_time s s'" for s s'
    using that(2,1)
  proof cases
    case core1
    with that(1) show ?thesis unfolding core1_move_def by (blast intro: post_inv_park post_inv_irq)
  next
    case core0
    with that(1) show ?thesis by (rule post_inv_wake)
  next
    case (call f)
    with that(1) show ?thesis by (simp add: post_inv_def)
  qed
qed

section \<open>Each once, if core 0 waits for the reset\<close>

definition once_inv :: "dual \<Rightarrow> bool" where
  "once_inv s \<longleftrightarrow>
     (case loc0 s of C0_Ready f \<Rightarrow> f \<noteq> 0 \<and> g_smode_target s = 0 | C0_Store f \<Rightarrow> f \<noteq> 0 \<and> g_smode_target s = 0 | _ \<Rightarrow> True) \<and>
     (loc1 s = C1_Call \<or> engaged (loc1 s) \<longrightarrow> g_smode_target s \<noteq> 0) \<and>
     posted s = started s @ awaiting s"

lemma once_inv_park: "once_inv s \<Longrightarrow> park_step s = Some s' \<Longrightarrow> once_inv s'"
  by (cases "loc1 s"; cases "loc0 s")
    (simp_all add: park_step_def once_inv_def awaiting_moved, safe, simp_all add: awaiting_moved split: if_splits)

lemma once_inv_irq: "once_inv s \<Longrightarrow> m_soft_irq s = Some s' \<or> s_soft_irq s = Some s' \<Longrightarrow> once_inv s'"
  by (cases "loc0 s"; elim disjE)
    (auto simp: m_soft_irq_def s_soft_irq_def once_inv_def split: if_splits)

lemma once_inv_wake: "once_inv s \<Longrightarrow> wake_step s = Some s' \<Longrightarrow> once_inv s'"
  by (cases "loc0 s")
    (auto simp: wake_step_def once_inv_def awaiting_def split: if_splits)

interpretation once: inductive_inv dual_init "dual_step when_reset" once_inv
proof
  show "once_inv s" if "dual_init s" for s
    using that by (simp add: dual_init_def once_inv_def awaiting_def)
  show "once_inv s'" if "once_inv s" "dual_step when_reset s s'" for s s'
    using that(2,1)
  proof cases
    case core1
    with that(1) show ?thesis unfolding core1_move_def by (blast intro: once_inv_park once_inv_irq)
  next
    case core0
    with that(1) show ?thesis by (rule once_inv_wake)
  next
    case (call f)
    with that(1) show ?thesis by (simp add: once_inv_def when_reset_def)
  qed
qed

section \<open>A posted task starts\<close>

text \<open>Core 1 is not lost to a task at the target: it is not about to stop in the \<open>wfi\<close>, or
  an interrupt that will get it out of it is pending.\<close>

definition attentive :: "dual \<Rightarrow> bool" where
  "attentive s \<longleftrightarrow> (case loc1 s of C1_Wfi \<Rightarrow> False | C1_Asleep \<Rightarrow> msip1 s \<or> ssip1 s | _ \<Rightarrow> True)"

definition core1_rank :: "dual \<Rightarrow> nat" where
  "core1_rank s =
     (case loc1 s of C1_Setup \<Rightarrow> 3 | C1_Clear \<Rightarrow> 2 | C1_Call \<Rightarrow> 0 | _ \<Rightarrow> 1) +
     (if msip1 s then 2 else 0) + (if ssip1 s then 1 else 0)"

definition task_waiting :: "u64 \<Rightarrow> u64 list \<Rightarrow> dual \<Rightarrow> bool" where
  "task_waiting f before s \<longleftrightarrow>
     f \<noteq> 0 \<and> g_smode_target s = f \<and> attentive s \<and> \<not> engaged (loc1 s) \<and> started s = before"

definition task_started :: "u64 \<Rightarrow> u64 list \<Rightarrow> dual \<Rightarrow> bool" where
  "task_started f before s \<longleftrightarrow> prefix (before @ [f]) (started s)"

lemma waiting_park: "task_waiting f b s \<Longrightarrow> park_step s = Some s' \<Longrightarrow>
    task_started f b s' \<or> task_waiting f b s' \<and> core1_rank s' < core1_rank s"
  by (cases "loc1 s")
    (auto simp: park_step_def task_waiting_def task_started_def attentive_def core1_rank_def split: if_splits)

lemma waiting_irq: "task_waiting f b s \<Longrightarrow> m_soft_irq s = Some s' \<or> s_soft_irq s = Some s' \<Longrightarrow>
    task_waiting f b s' \<and> core1_rank s' < core1_rank s"
  by (cases "loc1 s")
    (auto simp: m_soft_irq_def s_soft_irq_def woken_def task_waiting_def attentive_def core1_rank_def split: if_splits)

interpretation wakeup: progress core1_move "task_waiting f b" "task_started f b" core1_rank for f b
proof
  show "\<exists>s'. core1_move s s'" if "task_waiting f b s" for s
    using that by (cases "loc1 s")
      (auto simp: core1_move_def park_step_def m_soft_irq_def s_soft_irq_def task_waiting_def attentive_def)
  show "task_started f b s' \<or> task_waiting f b s' \<and> core1_rank s' < core1_rank s"
    if "task_waiting f b s" "core1_move s s'" for s s'
    using that waiting_park waiting_irq unfolding core1_move_def by blast
  show "task_started f b s'" if "task_started f b s" "core1_move s s'" for s s'
    using that by (cases "loc1 s")
      (auto simp: core1_move_def park_step_def m_soft_irq_def s_soft_irq_def task_started_def split: if_splits)
qed

lemma core1_rank_le: "core1_rank s \<le> 6"
  by (simp add: core1_rank_def split: core1_loc.splits)

section \<open>Schedules\<close>

datatype choice = Park | M_irq | S_irq | Wake | Post u64

fun pick :: "(dual \<Rightarrow> bool) \<Rightarrow> choice \<Rightarrow> dual \<Rightarrow> dual option" where
  "pick may_post Park s = park_step s"
| "pick may_post M_irq s = m_soft_irq s"
| "pick may_post S_irq s = s_soft_irq s"
| "pick may_post Wake s = wake_step s"
| "pick may_post (Post f) s =
     (if loc0 s = C0_Test \<and> f \<noteq> 0 \<and> may_post s then Some (s\<lparr>loc0 := C0_Ready f\<rparr>) else None)"

lemma pick_step: "pick may_post c s = Some s' \<Longrightarrow> dual_step may_post s s'"
  by (cases c) (auto simp: core1_move_def intro: dual_step.intros split: if_splits)

definition dual_boot :: dual where
  "dual_boot = \<lparr>g_smode_target = 0, g_core1_smode_ready = 0, msip1 = False, ssip1 = False, loc0 = C0_Test, loc1 = C1_Setup,
     posted = [], started = [], finished = 0\<rparr>"

lemma schedule_dual:
  assumes "schedule (pick may_post) cs dual_boot = Some s"
  shows "reach dual_init (dual_step may_post) s"
proof -
  have b: "reach dual_init (dual_step may_post) dual_boot"
    by (rule reach_init) (simp add: dual_init_def dual_boot_def)
  show ?thesis by (rule schedule_reach [OF _ b assms]) (rule pick_step)
qed

lemma schedule_core1:
  "schedule (pick may_post) cs s = Some s' \<Longrightarrow> set cs \<subseteq> {Park, M_irq, S_irq} \<Longrightarrow> n = length cs \<Longrightarrow> (core1_move ^^ n) s s'"
proof (induction cs arbitrary: s n)
  case (Cons c cs)
  from Cons.prems(1) obtain t where t: "pick may_post c s = Some t" "schedule (pick may_post) cs t = Some s'"
    by (auto split: option.splits)
  have "core1_move s t" using t(1) Cons.prems(2) by (auto simp: core1_move_def)
  moreover have "(core1_move ^^ length cs) t s'" using Cons.IH [OF t(2)] Cons.prems(2) by simp
  ultimately show ?case unfolding Cons.prems(3) list.size by (metis add_Suc_right add_0_right relpowp_Suc_I2)
qed simp

lemmas schedule_moves = dual_boot_def park_step_def m_soft_irq_def s_soft_irq_def wake_step_def woken_def

text \<open>Core 1 without a target stays without one as long as core 0 does not post.\<close>

definition targetless :: "u64 list \<Rightarrow> dual \<Rightarrow> bool" where
  "targetless b s \<longleftrightarrow> g_smode_target s = 0 \<and> loc1 s \<noteq> C1_Call \<and> \<not> engaged (loc1 s) \<and> started s = b"

interpretation dropped: inductive_inv "\<lambda>s. dual_init s \<and> b = []" core1_move "targetless b" for b
proof
  show "targetless b s" if "dual_init s \<and> b = []" for s
    using that by (simp add: dual_init_def targetless_def)
  show "targetless b s'" if "targetless b s" "core1_move s s'" for s s'
    using that by (cases "loc1 s")
      (auto simp: core1_move_def park_step_def m_soft_irq_def s_soft_irq_def targetless_def split: if_splits)
qed

text \<open>Core 1 in the body of a task or before its reset wipes out what is at the target, without calling it.\<close>

definition wiping :: "u64 list \<Rightarrow> dual \<Rightarrow> bool" where
  "wiping b s \<longleftrightarrow> engaged (loc1 s) \<and> started s = b \<or> targetless b s"

lemma wiping_move: "wiping b s \<Longrightarrow> core1_move s s' \<Longrightarrow> wiping b s'"
  by (cases "loc1 s")
    (auto simp: wiping_def targetless_def core1_move_def park_step_def m_soft_irq_def s_soft_irq_def split: if_splits)

lemma wiping_moves: "core1_move\<^sup>*\<^sup>* s s' \<Longrightarrow> wiping b s \<Longrightarrow> wiping b s'"
  by (induction rule: rtranclp_induct) (auto intro: wiping_move)

lemma wiping_started: "wiping b s \<Longrightarrow> started s = b"
  by (auto simp: wiping_def targetless_def)

text \<open>Core 1 before its \<open>wfi\<close> can take the interrupts that are pending and stop in it all the same.\<close>

lemma wfi_can_stop:
  assumes "\<not> attentive s"
  shows "\<exists>s'. core1_move\<^sup>*\<^sup>* s s' \<and> started s' = started s \<and> g_smode_target s' = g_smode_target s \<and> (\<forall>s''. \<not> core1_move s' s'')"
proof -
  let ?z = "s\<lparr>msip1 := False, ssip1 := False, loc1 := C1_Asleep\<rparr>"
  have z: "\<not> core1_move ?z s''" for s'' by (simp add: core1_move_def park_step_def m_soft_irq_def s_soft_irq_def)
  show ?thesis
  proof (cases "loc1 s = C1_Wfi")
    case True
    have a: "core1_move\<^sup>*\<^sup>* s (s\<lparr>msip1 := False, ssip1 := msip1 s \<or> ssip1 s\<rparr>)"
    proof (cases "msip1 s")
      case False
      then have "s\<lparr>msip1 := False, ssip1 := msip1 s \<or> ssip1 s\<rparr> = s" by simp
      then show ?thesis by (simp only: rtranclp.rtrancl_refl)
    qed (use True in \<open>auto simp: core1_move_def m_soft_irq_def woken_def\<close>)
    have b: "core1_move\<^sup>*\<^sup>* (s\<lparr>msip1 := False, ssip1 := msip1 s \<or> ssip1 s\<rparr>) (s\<lparr>msip1 := False, ssip1 := False\<rparr>)"
      using True by (cases "msip1 s \<or> ssip1 s") (auto simp: core1_move_def s_soft_irq_def woken_def)
    have "core1_move (s\<lparr>msip1 := False, ssip1 := False\<rparr>) ?z" using True by (simp add: core1_move_def park_step_def)
    with a b have "core1_move\<^sup>*\<^sup>* s ?z" by (meson rtranclp.rtrancl_into_rtrancl rtranclp_trans)
    with z show ?thesis by (intro exI [of _ ?z]) simp
  next
    case False
    with assms have "loc1 s = C1_Asleep" "\<not> msip1 s" "\<not> ssip1 s" by (auto simp: attentive_def split: core1_loc.splits)
    then have "s = ?z" by simp
    with z show ?thesis by (intro exI [of _ ?z]) auto
  qed
qed

text \<open>A task posted while core 1 sleeps, up to its body.\<close>

definition demo_wake :: "choice list" where
  "demo_wake = [Park, Park, Park, Park, Post 0x80001000, Wake, Wake, Wake, M_irq, S_irq, Park, Park]"

lemma demo_wake_run:
  "schedule (pick when_reset) demo_wake dual_boot = Some (dual_boot
     \<lparr>g_smode_target := 0x80001000, g_core1_smode_ready := 1, loc1 := C1_Body 0x80001000,
      posted := [0x80001000], started := [0x80001000]\<rparr>)"
  by (simp add: demo_wake_def schedule_moves when_reset_def)

section \<open>Properties\<close>

text \<open>
  C27. Whatever the timing, and whenever core 0 posts, the functions core 1 calls were posted by
  core 0, are called in the order in which they were posted, each post leads to at most one call, and core 1 never
  calls the null pointer.
\<close>

theorem core1_runs_posted:
  assumes "reach dual_init (dual_step any_time) s"
  shows "subseq (started s) (posted s) \<and> 0 \<notin> set (started s)"
  using post.always [OF assms] by (auto simp: post_inv_def dest: subseq_left)

theorem core1_runs_posted_witness:
  "\<exists>s. reach dual_init (dual_step any_time) s \<and> started s = [0x80001000] \<and>
     subseq (started s) (posted s) \<and> 0 \<notin> set (started s)"
proof -
  let ?s = "dual_boot\<lparr>g_smode_target := 0x80001000, g_core1_smode_ready := 1, loc1 := C1_Body 0x80001000,
      posted := [0x80001000], started := [0x80001000]\<rparr>"
  have "schedule (pick any_time) demo_wake dual_boot = Some ?s"
    by (simp add: demo_wake_def schedule_moves any_time_def)
  from schedule_dual [OF this] have r: "reach dual_init (dual_step any_time) ?s" .
  then show ?thesis using core1_runs_posted [OF r] by (intro exI [of _ ?s]) simp
qed

text \<open>
  C3. If core 0 posts only while the target is reset, no task is lost and none runs twice: at
  every moment the functions posted are the functions called followed by the one at the
  target that core 1 has yet to call, if there is one.
\<close>

theorem core1_runs_each_once:
  assumes "reach dual_init (dual_step when_reset) s"
  shows "posted s = started s @ awaiting s"
  using once.always [OF assms] by (simp add: once_inv_def)

theorem core1_runs_each_once_witness:
  "\<exists>s. reach dual_init (dual_step when_reset) s \<and> posted s = [0x80001000] \<and> posted s = started s @ awaiting s"
proof -
  from schedule_dual [OF demo_wake_run] have r: "reach dual_init (dual_step when_reset) (dual_boot
     \<lparr>g_smode_target := 0x80001000, g_core1_smode_ready := 1, loc1 := C1_Body 0x80001000,
      posted := [0x80001000], started := [0x80001000]\<rparr>)" .
  show ?thesis by (intro exI conjI, rule r, simp, rule core1_runs_each_once [OF r])
qed

text \<open>
  C28. What becomes of a function \<open>f\<close> at the target, as long as core 0 posts nothing more, depends on where core 1 is. In the
  body of an earlier function or before its reset, core 1 never calls \<open>f\<close>, whatever it does. At its \<open>wfi\<close>,
  even with an interrupt pending, or stopped in it with none pending, core 1 can come to a stop for good without having
  called \<open>f\<close>. Everywhere else \<open>f\<close> is called: core 1 has a move until then, and after any seven moves of
  core 1, interrupts included, it has called \<open>f\<close>, before any other function.
\<close>

theorem posted_task_starts:
  assumes "g_smode_target s = f" "f \<noteq> 0"
  shows "if engaged (loc1 s) then \<forall>s'. core1_move\<^sup>*\<^sup>* s s' \<longrightarrow> started s' = started s
    else if loc1 s = C1_Wfi \<or> loc1 s = C1_Asleep \<and> \<not> msip1 s \<and> \<not> ssip1 s
    then \<exists>s'. core1_move\<^sup>*\<^sup>* s s' \<and> started s' = started s \<and> g_smode_target s' = f \<and> (\<forall>s''. \<not> core1_move s' s'')
    else \<forall>n s'. (core1_move ^^ n) s s' \<longrightarrow>
      (prefix (started s @ [f]) (started s') \<or> (\<exists>s''. core1_move s' s'')) \<and> (7 \<le> n \<longrightarrow> prefix (started s @ [f]) (started s'))"
proof -
  have e: "started s' = started s" if "engaged (loc1 s)" "core1_move\<^sup>*\<^sup>* s s'" for s'
  proof -
    from that(1) have "wiping (started s) s" by (simp add: wiping_def)
    from wiping_started [OF wiping_moves [OF that(2) this]] show ?thesis .
  qed
  have a: "attentive s \<longleftrightarrow> \<not> (loc1 s = C1_Wfi \<or> loc1 s = C1_Asleep \<and> \<not> msip1 s \<and> \<not> ssip1 s)"
    by (simp add: attentive_def split: core1_loc.splits)
  have w: "(prefix (started s @ [f]) (started s') \<or> (\<exists>s''. core1_move s' s'')) \<and> (7 \<le> n \<longrightarrow> prefix (started s @ [f]) (started s'))"
    if "\<not> engaged (loc1 s)" "attentive s" "(core1_move ^^ n) s s'" for n s'
  proof -
    have "task_waiting f (started s) s" using assms that by (simp add: task_waiting_def)
    moreover have "7 \<le> n \<Longrightarrow> core1_rank s < n" using core1_rank_le [of s] by simp
    ultimately show ?thesis using wakeup.never_stuck [OF that(3)] wakeup.reaches_goal [OF that(3)]
      by (auto simp: task_started_def)
  qed
  show ?thesis
  proof (cases "engaged (loc1 s)")
    case True
    show ?thesis unfolding if_P [OF True] using e [OF True] by blast
  next
    case n: False
    show ?thesis
    proof (cases "attentive s")
      case True
      with a have "\<not> (loc1 s = C1_Wfi \<or> loc1 s = C1_Asleep \<and> \<not> msip1 s \<and> \<not> ssip1 s)" by simp
      then show ?thesis unfolding if_not_P [OF n] by (simp only: if_False) (intro allI impI w [OF n True])
    next
      case False
      with n a wfi_can_stop [OF False] assms(1) show ?thesis by auto
    qed
  qed
qed

theorem posted_task_starts_witness:
  "(\<exists>s s'. loc1 s = C1_Asleep \<and> g_smode_target s = 0x80001000 \<and> (core1_move ^^ 7) s s' \<and>
     prefix (started s @ [0x80001000]) (started s'))"
proof -
  let ?s = "dual_boot\<lparr>g_smode_target := 0x80001000, msip1 := True, loc1 := C1_Asleep\<rparr>"
  let ?s' = "dual_boot\<lparr>loc1 := C1_Check, started := [0x80001000], finished := 1\<rparr>"
  have "schedule (pick any_time) [M_irq, S_irq, Park, Park, Park, Park, Park] ?s = Some ?s'"
    by (simp add: schedule_moves)
  from schedule_core1 [OF this, of 7] have m: "(core1_move ^^ 7) ?s ?s'" by simp
  have "g_smode_target ?s = 0x80001000" "(0x80001000 :: u64) \<noteq> 0" by simp_all
  from posted_task_starts [OF this] have "\<forall>n s'. (core1_move ^^ n) ?s s' \<longrightarrow> 7 \<le> n \<longrightarrow> prefix (started ?s @ [0x80001000]) (started s')"
    by simp
  with m have "prefix (started ?s @ [0x80001000]) (started ?s')" by blast
  with m show ?thesis by (intro exI [of _ ?s] exI [of _ ?s']) simp
qed

text \<open>
  C39. The wake-up can be lost. Even a test that posts only while the target is reset can end
  with its function at the target, core 0 back in the test and core 1 stopped in its \<open>wfi\<close>
  without a move: core 1 found the target empty, took and acknowledged the interrupt before
  it executed the \<open>wfi\<close>, and nothing else will wake it.
\<close>

theorem wakeup_can_be_lost:
  "\<exists>s. reach dual_init (dual_step when_reset) s \<and> loc0 s = C0_Test \<and> awaiting s = [0x80001000] \<and>
     (\<forall>s'. \<not> core1_move s s')"
proof -
  let ?s = "dual_boot\<lparr>g_smode_target := 0x80001000, g_core1_smode_ready := 1, loc1 := C1_Asleep, posted := [0x80001000]\<rparr>"
  have "schedule (pick when_reset) [Park, Park, Park, Post 0x80001000, Wake, Wake, Wake, M_irq, S_irq, Park] dual_boot = Some ?s"
    by (simp add: schedule_moves when_reset_def)
  from schedule_dual [OF this] have "reach dual_init (dual_step when_reset) ?s" .
  moreover have "\<not> core1_move ?s s'" for s'
    by (simp add: core1_move_def schedule_moves)
  ultimately show ?thesis by (intro exI [of _ ?s]) (simp add: awaiting_def dual_boot_def)
qed

text \<open>
  C40. A task can be lost. A test that posts its second function as soon as the first one has
  raised its flag can have it stored before core 1 resets the target: the reset wipes it out,
  both posts are complete, and whatever core 1 does from there it never calls the second
  function.
\<close>

theorem task_can_be_lost:
  "\<exists>s. reach dual_init (dual_step when_flagged) s \<and> loc0 s = C0_Test \<and> posted s = [0x80001000, 0x80002000] \<and>
     (\<forall>s'. core1_move\<^sup>*\<^sup>* s s' \<longrightarrow> started s' = [0x80001000])"
proof -
  let ?s = "dual_boot\<lparr>g_core1_smode_ready := 1, msip1 := True, loc1 := C1_Clear,
     posted := [0x80001000, 0x80002000], started := [0x80001000], finished := 1\<rparr>"
  have "schedule (pick when_flagged) [Park, Post 0x80001000, Wake, Wake, Wake, M_irq, S_irq, Park, Park, Park, Park,
      Post 0x80002000, Wake, Wake, Park, Wake] dual_boot = Some ?s"
    by (simp add: schedule_moves when_flagged_def)
  from schedule_dual [OF this] have "reach dual_init (dual_step when_flagged) ?s" .
  moreover have "started s' = [0x80001000]" if "core1_move\<^sup>*\<^sup>* ?s s'" for s'
    using dropped.from_there [OF that, of "[0x80001000]"] by (simp add: targetless_def dual_boot_def)
  ultimately show ?thesis by (intro exI [of _ ?s]) (simp add: dual_boot_def)
qed

theorem task_can_be_lost_witness:
  "\<exists>s. reach dual_init (dual_step when_flagged) s \<and> posted s = [0x80001000, 0x80002000] \<and> started s = [0x80001000]"
  using task_can_be_lost by (blast intro: rtranclp.rtrancl_refl)

end
