(* ===== verification/Boot.thy ===== *)
theory Boot
  imports BarePrograms BareSanity DualCore
begin

text \<open>
  The reset path of \<^verbatim>\<open>common/boot.S\<close>: from \<open>_start\<close> in M-mode to the \<open>mret\<close> into \<open>s_mode_entry\<close> (hart 0) or
  the park loop (hart 1), instruction by instruction, and the test images from reset to verdict.
\<close>

section \<open>The code\<close>

text \<open>The CSRs that only the reset path writes.\<close>

record reset_machine = program +
  csr_pmpaddr0 :: u64
  csr_pmpcfg0 :: u64
  csr_medeleg :: u64
  csr_mideleg :: u64

text \<open>The addresses the linker gives to the symbols of the reset path.\<close>

record symbols =
  stack0_top :: u64
  stack1_top :: u64
  bss_start :: u64
  bss_end :: u64
  m_trap_vector_at :: u64
  s_trap_vector_at :: u64
  s_mode_entry_at :: u64
  core1_park_at :: u64

definition MEDELEG_ASM :: u64 where "MEDELEG_ASM = 0xB1FF"
definition PMP_ALL :: u64 where "PMP_ALL = 0x01 OR 0x02 OR 0x04 OR 0x18"
definition MIE_BOOT :: u64 where "MIE_BOOT = push_bit 3 1 OR push_bit 7 1"

abbreviation reg :: "nat \<Rightarrow> 'z machine_scheme \<Rightarrow> u64" where
  "reg r s \<equiv> gpr (cpu s) r"

text \<open>
  Registers 5, 6 and 7 are \<open>t0\<close>, \<open>t1\<close>, \<open>t2\<close>. The loop compares addresses as signed numbers; it has no bound of its
  own. \<open>bss_next\<close> is one pass through it, \<open>None\<close> where it is left.
\<close>

definition bss_next :: "'z machine_scheme \<Rightarrow> 'z machine_scheme option" where
  "bss_next s =
     (if sint (reg 7 s) \<le> sint (reg 6 s) then None
      else Some (set_reg 6 (reg 6 s + 8) (st64 (reg 6 s) 0 s)))"

partial_function (option) bss_loop :: "'z machine_scheme \<Rightarrow> 'z machine_scheme option" where
  "bss_loop s = (case bss_next s of None \<Rightarrow> Some s | Some s' \<Rightarrow> bss_loop s')"

text \<open>The trap log and the pool's page counter lie between the two symbols; the state has them as fields.\<close>

definition clear_variables :: "'z machine_scheme \<Rightarrow> 'z machine_scheme" where
  "clear_variables s = s\<lparr>pt_pool_next_page := 0, g_trap :=
     \<lparr>scause = 0, stval = 0, sepc = 0, fault_count = 0, expected_cause = 0, expected_stval = 0, handler_action = 0,
      irq_count = 0, timer_irq_count = 0, soft_irq_count = 0, last_irq_cause = 0\<rparr>\<rparr>"

definition bss_bounds :: "symbols \<Rightarrow> 'z machine_scheme \<Rightarrow> 'z machine_scheme run" where
  "bss_bounds L = block [exec (set_reg 6 (bss_start L)), exec (set_reg 7 (bss_end L))]"

definition clear_bss :: "symbols \<Rightarrow> 'z machine_scheme \<Rightarrow> 'z machine_scheme run" where
  "clear_bss L = block [bss_bounds L, \<lambda>s. of_option (bss_loop s), exec clear_variables]"

definition start_pmp :: "'z reset_machine_scheme \<Rightarrow> 'z reset_machine_scheme run" where
  "start_pmp = block
     [exec (set_reg 5 (- 1)), exec (\<lambda>s. s\<lparr>csr_pmpaddr0 := reg 5 s\<rparr>),
      exec (set_reg 5 PMP_ALL), exec (\<lambda>s. s\<lparr>csr_pmpcfg0 := reg 5 s\<rparr>)]"

definition start_delegation :: "'z reset_machine_scheme \<Rightarrow> 'z reset_machine_scheme run" where
  "start_delegation = block
     [exec (set_reg 5 MEDELEG_ASM), exec (\<lambda>s. s\<lparr>csr_medeleg := reg 5 s\<rparr>),
      exec (set_reg 5 MIDELEG_DEFAULT), exec (\<lambda>s. s\<lparr>csr_mideleg := reg 5 s\<rparr>)]"

definition start_mpp :: "'z machine_scheme \<Rightarrow> 'z machine_scheme run" where
  "start_mpp = block
     [exec (\<lambda>s. set_reg 5 (csr_mstatus (cpu s)) s),
      exec (set_reg 6 MSTATUS_MPP_MASK), exec (\<lambda>s. set_reg 6 (NOT (reg 6 s)) s),
      exec (\<lambda>s. set_reg 5 (reg 5 s AND reg 6 s) s),
      exec (set_reg 6 MSTATUS_MPP_S), exec (\<lambda>s. set_reg 5 (reg 5 s OR reg 6 s) s),
      exec (on_cpu (\<lambda>h. h\<lparr>csr_mstatus := gpr h 5\<rparr>))]"

text \<open>What follows the clearing is the same for both harts.\<close>

definition start_rest :: "symbols \<Rightarrow> 'z reset_machine_scheme \<Rightarrow> 'z reset_machine_scheme run" where
  "start_rest L = block
     [exec (set_reg 5 (m_trap_vector_at L)), exec (on_cpu (\<lambda>h. h\<lparr>csr_mtvec := gpr h 5\<rparr>)),
      start_pmp, start_delegation,
      exec (set_reg 5 MIE_BOOT), exec (on_cpu (\<lambda>h. h\<lparr>csr_mie := csr_mie h OR gpr h 5\<rparr>)),
      start_mpp,
      exec (\<lambda>s. set_reg 5 (csr_mhartid (cpu s)) s),
      \<lambda>s. if reg 5 s \<noteq> 0 then exec (set_reg 5 (core1_park_at L)) s else exec (set_reg 5 (s_mode_entry_at L)) s,
      exec (on_cpu (\<lambda>h. h\<lparr>csr_mepc := gpr h 5\<rparr>)),
      exec (on_cpu mret)]"

definition start_stack :: "symbols \<Rightarrow> 'z machine_scheme \<Rightarrow> 'z machine_scheme run" where
  "start_stack L = block
     [exec (\<lambda>s. set_reg 5 (csr_mhartid (cpu s)) s),
      exec (set_reg 2 (stack0_top L)),
      \<lambda>s. if_do (reg 5 s \<noteq> 0) (exec (set_reg 2 (stack1_top L))) s]"

definition start :: "symbols \<Rightarrow> 'z reset_machine_scheme \<Rightarrow> 'z reset_machine_scheme run" where
  "start L = block
     [start_stack L,
      \<lambda>s. if_do (reg 5 s = 0) (clear_bss L) s,
      start_rest L]"

text \<open>Hart 0 of an image: the reset path, then the C code it has returned to.\<close>

definition image :: "symbols \<Rightarrow> ('z reset_machine_scheme \<Rightarrow> (c_int \<times> 'z reset_machine_scheme) run) \<Rightarrow>
    'z reset_machine_scheme \<Rightarrow> 'z reset_machine_scheme run" where
  "image L test_main = block
     [start L, \<lambda>s. if pc (cpu s) = s_mode_entry_at L then s_mode_entry (s_trap_vector_at L) test_main s else Hang]"

section \<open>Clearing memory\<close>

text \<open>The words the loop clears: from the first symbol on, in steps of eight, up to the second.\<close>

definition bss_words :: "u64 \<Rightarrow> u64 \<Rightarrow> u64 set" where
  "bss_words a b = {slot a (of_nat i) | i. uint a + 8 * int i < uint b}"

lemma sint_low: "uint (a :: u64) < 2 ^ 63 \<Longrightarrow> sint a = uint a"
  by (simp add: sint_uint signed_take_bit_int_eq_self_iff order.trans [OF _ uint_ge_0])

lemma set_reg_st64 [simp]: "mem (set_reg r v s) = mem s" "reg q (st64 a v s) = reg q s" "dev (set_reg r v s) = dev s"
  by (simp_all add: set_reg_def st64_def)

lemma bss_step: "uint (a :: u64) < uint b \<Longrightarrow> uint b < 2 ^ 62 \<Longrightarrow> uint (a + 8) = uint a + 8 \<and> bss_words a b = insert a (bss_words (a + 8) b)"
proof -
  assume ab: "uint a < uint b" "uint b < 2 ^ 62"
  have u: "uint (a + 8) = uint a + 8" using ab by (simp add: uint_plus_if')
  have "bss_words a b = insert a (bss_words (a + 8) b)"
  proof (intro set_eqI iffI)
    fix w assume "w \<in> bss_words a b"
    then obtain i where i: "w = slot a (of_nat i)" "uint a + 8 * int i < uint b" by (auto simp: bss_words_def)
    show "w \<in> insert a (bss_words (a + 8) b)"
    proof (cases i)
      case (Suc j)
      with i u show ?thesis unfolding bss_words_def slot_Suc by (auto intro!: exI [of _ j])
    qed (use i in \<open>simp add: slot_def\<close>)
  next
    fix w assume "w \<in> insert a (bss_words (a + 8) b)"
    then consider "w = slot a (of_nat 0)" | j where "w = slot a (of_nat (Suc j))" "uint a + 8 * int (Suc j) < uint b"
      unfolding bss_words_def slot_Suc(1) using u by (force simp: slot_def)
    then show "w \<in> bss_words a b" using ab(1) unfolding bss_words_def by cases (auto intro: exI [of _ 0] exI [of _ "Suc j" for j] simp del: of_nat_Suc)
  qed
  with u show ?thesis by blast
qed

lemma bss_loop_step:
  "bss_loop s = (if sint (reg 7 s) \<le> sint (reg 6 s) then Some s
     else bss_loop (set_reg 6 (reg 6 s + 8) (st64 (reg 6 s) 0 s)))"
  by (subst bss_loop.simps) (simp add: bss_next_def)

text \<open>The loop ends, and has cleared exactly these words.\<close>

lemma bss_loop_clears:
  assumes "uint a < 2 ^ 63" "uint b < 2 ^ 62" "reg 6 s = a" "reg 7 s = b"
  shows "\<exists>t. bss_loop s = Some (s\<lparr>mem := \<lambda>w. if w \<in> bss_words a b then 0 else mem s w,
    cpu := (cpu s)\<lparr>gpr := (gpr (cpu s))(6 := t)\<rparr>\<rparr>)"
  using assms(1,3,4)
proof (induction "nat (uint b - uint a)" arbitrary: s a rule: less_induct)
  case less
  have si: "sint b \<le> sint a \<longleftrightarrow> uint b \<le> uint a" using less.prems(1) assms(2) by (simp add: sint_low)
  show ?case
  proof (cases "uint b \<le> uint a")
    case True
    then have "bss_words a b = {}" by (auto simp: bss_words_def)
    with True less.prems si show ?thesis by (subst bss_loop_step) (auto intro!: exI [of _ a])
  next
    case False
    then have ab: "uint a < uint b" by simp
    note st = bss_step [OF ab assms(2)]
    let ?s = "set_reg 6 (a + 8) (st64 a 0 s)"
    have "bss_loop s = bss_loop ?s" using False si less.prems by (subst bss_loop_step) simp
    moreover have "\<exists>t. bss_loop ?s = Some (?s\<lparr>mem := \<lambda>w. if w \<in> bss_words (a + 8) b then 0 else mem ?s w,
        cpu := (cpu ?s)\<lparr>gpr := (gpr (cpu ?s))(6 := t)\<rparr>\<rparr>)"
      by (rule less.hyps) (use st ab assms(2) less.prems in \<open>simp_all\<close>)
    moreover have "(\<lambda>w. if w \<in> bss_words (a + 8) b then 0 else mem ?s w) = (\<lambda>w. if w \<in> bss_words a b then 0 else mem s w)"
      using st by auto
    ultimately show ?thesis by (simp add: set_reg_def on_cpu_def st64_def)
  qed
qed

text \<open>
  Hart 0: translation aside, the state in which \<open>s_mode_entry\<close> starts. PMP opens all memory; of the exceptions the page
  faults are delegated and the \<open>ecall\<close> is not, and the interrupts are those of MIDELEG_DEFAULT.
\<close>

definition start_effect :: "symbols \<Rightarrow> 'z reset_machine_scheme \<Rightarrow> 'z reset_machine_scheme \<Rightarrow> bool" where
  "start_effect L s s' \<longleftrightarrow> prv (cpu s') = S_mode \<and> csr_mtvec (cpu s') = m_trap_vector_at L \<and>
     csr_pmpaddr0 s' = - 1 \<and> csr_pmpcfg0 s' = 0x1F \<and> csr_medeleg s' = 0xB1FF \<and> csr_mideleg s' = MIDELEG_DEFAULT \<and>
     csr_mie (cpu s') = csr_mie (cpu s) OR MIE_BOOT \<and>
     (\<forall>n. n \<notin> {3, 7, 11, 12} \<longrightarrow> bit (csr_mstatus (cpu s')) n = bit (csr_mstatus (cpu s)) n) \<and>
     csr_satp (cpu s') = csr_satp (cpu s) \<and> csr_mhartid (cpu s') = csr_mhartid (cpu s) \<and> tlb (cpu s') = tlb (cpu s) \<and>
     csr_mip (cpu s') = csr_mip (cpu s) \<and> clint64 s' = clint64 s \<and> clint32 s' = clint32 s \<and>
     dev s' = dev s \<and> pt_pool s' = pt_pool s \<and> svadu s' = svadu s \<and> tlb_pick s' = tlb_pick s \<and> reset_machine.more s' = reset_machine.more s"

lemma mpp_bits: "(w AND NOT MSTATUS_MPP_MASK) OR MSTATUS_MPP_S = put_bit 11 True (put_bit 12 False w)"
  by (rule bit_word_eqI) (auto simp: MSTATUS_MPP_MASK_def MSTATUS_MPP_S_def bit_simps numeral_eq_Suc less_Suc_eq)

lemma start_mpp_run:
  "start_mpp s = Ret (s\<lparr>cpu := (cpu s)\<lparr>gpr := (gpr (cpu s))(6 := MSTATUS_MPP_S, 5 := put_bit 11 True (put_bit 12 False (csr_mstatus (cpu s)))),
     csr_mstatus := put_bit 11 True (put_bit 12 False (csr_mstatus (cpu s)))\<rparr>\<rparr>)"
  using mpp_bits by (simp add: start_mpp_def set_reg_def on_cpu_def)

lemma start_rest_run:
  "\<exists>s'. start_rest L s = Ret s' \<and> start_effect L s s' \<and> reg 2 s' = reg 2 s \<and> mem s' = mem s \<and> g_trap s' = g_trap s \<and>
     pt_pool_next_page s' = pt_pool_next_page s \<and>
     pc (cpu s') = (if csr_mhartid (cpu s) = 0 then s_mode_entry_at L else core1_park_at L)"
  by (simp add: start_rest_def start_pmp_def start_delegation_def start_mpp_run)
    (simp add: set_reg_def on_cpu_def mret_def start_effect_def PMP_ALL_def MEDELEG_ASM_def)

lemma start_hart0:
  assumes "csr_mhartid (cpu s) = 0" "uint (bss_start L) < 2 ^ 63" "uint (bss_end L) < 2 ^ 62"
  shows "\<exists>s'. start L s = Ret s' \<and> start_effect L s s' \<and> pc (cpu s') = s_mode_entry_at L \<and> reg 2 s' = stack0_top L \<and>
    mem s' = (\<lambda>w. if w \<in> bss_words (bss_start L) (bss_end L) then 0 else mem s w) \<and>
    pt_pool_next_page s' = 0 \<and> g_trap s' = g_trap (clear_variables s)"
proof -
  let ?s1 = "set_reg 7 (bss_end L) (set_reg 6 (bss_start L) (set_reg 2 (stack0_top L) (set_reg 5 0 s)))"
  from bss_loop_clears [OF assms(2,3), of ?s1] obtain t where
    "bss_loop ?s1 = Some (?s1\<lparr>mem := \<lambda>w. if w \<in> bss_words (bss_start L) (bss_end L) then 0 else mem ?s1 w,
      cpu := (cpu ?s1)\<lparr>gpr := (gpr (cpu ?s1))(6 := t)\<rparr>\<rparr>)" (is "_ = Some ?s2") by auto
  then have "start L s = start_rest L (clear_variables ?s2)"
    using assms(1) by (simp add: start_def start_stack_def clear_bss_def bss_bounds_def)
  with start_rest_run [of L "clear_variables ?s2"] assms(1) show ?thesis
    by (auto simp: start_effect_def clear_variables_def set_reg_def on_cpu_def cong: if_cong)
qed

lemma start_hart1:
  assumes "csr_mhartid (cpu s) \<noteq> 0"
  shows "\<exists>s'. start L s = Ret s' \<and> start_effect L s s' \<and> pc (cpu s') = core1_park_at L \<and> reg 2 s' = stack1_top L \<and>
    mem s' = mem s \<and> pt_pool_next_page s' = pt_pool_next_page s \<and> g_trap s' = g_trap s"
proof -
  let ?s1 = "set_reg 2 (stack1_top L) (set_reg 2 (stack0_top L) (set_reg 5 (csr_mhartid (cpu s)) s))"
  have "start L s = start_rest L ?s1" using assms by (simp add: start_def start_stack_def)
  with start_rest_run [of L ?s1] assms show ?thesis by (auto simp: start_effect_def set_reg_def on_cpu_def)
qed

section \<open>From reset to the verdict\<close>

text \<open>What the linker script fixes: the code, then the cleared variables and the tables at their end, then the stacks.\<close>

definition linked :: "symbols \<Rightarrow> 'z pts_scheme \<Rightarrow> bool" where
  "linked L s \<longleftrightarrow> page_aligned (pt_pool s) \<and> 0x80000000 < unat (bss_start L) \<and> unat (bss_start L) \<le> unat (pt_pool s) \<and>
     unat (bss_end L) = unat (pt_pool s) + 0x8000 \<and> unat (stack0_top L) = unat (bss_end L) + 0x8000 \<and>
     unat (stack0_top L) \<le> 0x80100000"

lemma bss_above:
  assumes "unat w < unat a" "unat b \<le> 2 ^ 62"
  shows "w \<notin> bss_words a b"
proof
  assume "w \<in> bss_words a b"
  then obtain i where i: "w = slot a (of_nat i)" "uint a + 8 * int i < uint b" by (auto simp: bss_words_def)
  have "int (unat a + 8 * i) < int (unat b)" using i(2) by simp
  then have le: "unat a + 8 * i < unat b" by linarith
  with assms(2) have "unat (of_nat i :: u64) = i" by (simp add: unat_of_nat)
  with unat_slot [of a "of_nat i"] le assms(2) i(1) have "unat w = unat a + 8 * i" by simp
  with assms(1) show False by simp
qed

lemma start_booted:
  assumes "dev_ok (dev s)" "csr_mhartid (cpu s) = 0" "linked L s"
  obtains s' where "\<And>main. image L main s = s_mode_entry (s_trap_vector_at L) main s'" "booted s'"
    "bit (csr_mstatus (cpu s')) 19 = bit (csr_mstatus (cpu s)) 19" "mem s' SRAM_BASE = mem s SRAM_BASE" "sv39_on s' = sv39_on s"
    "start_effect L s s'" "reg 2 s' = stack0_top L"
proof -
  have b: "unat (bss_end L) < 2 ^ 62" "unat (bss_start L) < 2 ^ 62" using assms(3) by (simp_all add: linked_def)
  then have "int (unat (bss_end L)) < int (2 ^ 62)" "int (unat (bss_start L)) < int (2 ^ 62)" by (simp_all only: of_nat_less_iff)
  then have u: "uint (bss_start L) < 2 ^ 63" "uint (bss_end L) < 2 ^ 62" by simp_all
  from start_hart0 [OF assms(2) u] obtain s' where s': "start L s = Ret s'" "start_effect L s s'" "pc (cpu s') = s_mode_entry_at L"
    "reg 2 s' = stack0_top L" "mem s' = (\<lambda>w. if w \<in> bss_words (bss_start L) (bss_end L) then 0 else mem s w)" "pt_pool_next_page s' = 0"
    by blast
  have "int (unat (pt_pool s)) \<le> int 0x80100000" using assms(3) unfolding linked_def of_nat_le_iff by simp
  then have p: "uint (pt_pool s) \<le> 0x80100000" by simp
  have "booted s'"
    using s' assms(1,3) p by (simp add: booted_def pool_ok_def layout_ok_def start_effect_def linked_def PT_POOL_PAGES_def)
  moreover have "mem s' SRAM_BASE = mem s SRAM_BASE"
    using bss_above [of SRAM_BASE "bss_start L" "bss_end L"] b assms(3) s'(5) by (simp add: linked_def SRAM_BASE_def)
  ultimately show thesis
    using that [of s'] s' by (simp add: image_def start_effect_def sv39_on_def)
qed

text \<open>
  C21. The reset path. Hart 0 arrives at \<open>s_mode_entry\<close> in S-mode on its stack, with exactly the words between the two
  bss symbols cleared (the loop ends), the trap log and the page counter among them; hart 1 arrives at its park loop on its own
  stack and has written no memory. Both have the M-mode vector installed, all memory open to S-mode, the M-mode timer and
  software interrupts enabled, the page faults delegated and the S-mode \<open>ecall\<close> not, and every bit of \<open>mstatus\<close> as it was
  except those of the M-mode trap stack.
\<close>

theorem start_harts:
  assumes "uint (bss_start L) < 2 ^ 63" "uint (bss_end L) < 2 ^ 62"
  shows "\<exists>s'. start L s = Ret s' \<and> start_effect L s s' \<and>
    (if csr_mhartid (cpu s) = 0
     then pc (cpu s') = s_mode_entry_at L \<and> reg 2 s' = stack0_top L \<and>
       (\<forall>w. mem s' w = (if w \<in> bss_words (bss_start L) (bss_end L) then 0 else mem s w)) \<and>
       pt_pool_next_page s' = 0 \<and> g_trap s' = g_trap (clear_variables s)
     else pc (cpu s') = core1_park_at L \<and> reg 2 s' = stack1_top L \<and> mem s' = mem s)"
  using start_hart0 [OF _ assms, of s] start_hart1 [of s L] by (cases "csr_mhartid (cpu s) = 0") auto

text \<open>
  C6. The bare-metal images of phases 0 and 1A to 1D end in a pass, from reset on. On hart 0 of a machine laid out by the linker script, whatever the memory
  holds, whatever the translation cache keeps and whether or not the hardware sets A and D bits: after the reset path each
  program runs on the runtime, has its traps handled by the firmware and the S-mode handler, builds its tables, turns translation on,
  makes its accesses, has its page faults repaired or skipped, finds the values and the trap record it expects and stops with the
  pass word for the host and \<open>[PASS]\<close> on the console. Nothing in the reset path or the runtime sets what three of them rely on: phase 0
  needs translation off, phase 1B needs MXR clear, phase 1D a non-zero first word of the SRAM, where the image has its reset code.
\<close>

theorem images_pass:
  assumes "dev_ok (dev s)" "csr_mhartid (cpu s) = 0" "linked L s"
  shows "(\<not> sv39_on s \<longrightarrow> ends_in_pass (image L (p0_test_main heap_start heap_end) s)) \<and>
    ends_in_pass (image L p1a_test_main s) \<and>
    (\<not> bit (csr_mstatus (cpu s)) 19 \<longrightarrow> ends_in_pass (image L p1b_test_main s)) \<and>
    ends_in_pass (image L p1c_test_main s) \<and>
    (mem s SRAM_BASE \<noteq> 0 \<longrightarrow> ends_in_pass (image L p1d_test_main s))"
proof -
  from start_booted [OF assms] obtain s' where s': "\<And>main. image L main s = s_mode_entry (s_trap_vector_at L) main s'" "booted s'"
    "bit (csr_mstatus (cpu s')) 19 = bit (csr_mstatus (cpu s)) 19" "mem s' SRAM_BASE = mem s SRAM_BASE" "sv39_on s' = sv39_on s"
    by blast
  have "\<not> sv39_on s' \<Longrightarrow> ends_in_pass (s_mode_entry (s_trap_vector_at L) (p0_test_main heap_start heap_end) s')"
    by (rule p0_entry_passes) (use s'(2) in \<open>simp_all add: booted_def bare_hart_def\<close>)
  with bare_programs_pass [OF s'(2), of "s_trap_vector_at L"] s'(3-5) show ?thesis unfolding s'(1) by simp
qed

section \<open>Two harts leaving reset\<close>

text \<open>
  The two harts share the memory, in which the linker has put \<open>g_smode_target\<close> and \<open>g_core1_smode_ready\<close> among the words hart 0
  clears. \<open>hart0\<close> and \<open>hart1\<close> are the harts' machines; the memory is that of \<open>hart0\<close>. \<open>duo\<close> holds what \<open>DualCore\<close>
  keeps of the two programs besides the two variables.
\<close>

record shared_at =
  target_at :: u64
  ready_at :: u64

datatype boot_loc = B_Reset | B_Bss | B_Main

record two_harts =
  hart0 :: reset_machine
  hart1 :: reset_machine
  hart0_at :: boot_loc
  hart1_parked :: bool
  duo :: dual

definition duo_view :: "shared_at \<Rightarrow> two_harts \<Rightarrow> dual" where
  "duo_view V t = (duo t)\<lparr>g_smode_target := mem (hart0 t) (target_at V),
     g_core1_smode_ready := sint (ld32 (hart0 t) (ready_at V))\<rparr>"

definition duo_write :: "shared_at \<Rightarrow> dual \<Rightarrow> two_harts \<Rightarrow> two_harts" where
  "duo_write V d t = t\<lparr>duo := d,
     hart0 := st32 (ready_at V) (word_of_int (g_core1_smode_ready d)) (st64 (target_at V) (g_smode_target d) (hart0 t))\<rparr>"

text \<open>
  Hart 0 makes the reset path one pass of the clearing loop at a time, and calls \<open>wake_core1_smode\<close> from the C code it returns
  to. Hart 1 makes its own, which touches no memory, and the moves of its park loop on the variables in the shared memory.
\<close>

inductive boot_step :: "symbols \<Rightarrow> shared_at \<Rightarrow> two_harts \<Rightarrow> two_harts \<Rightarrow> bool" for L V where
  hart0_enter: "hart0_at t = B_Reset \<Longrightarrow> start_stack L (hart0 t) = Ret s1 \<Longrightarrow> reg 5 s1 = 0 \<Longrightarrow> bss_bounds L s1 = Ret s2 \<Longrightarrow>
    boot_step L V t (t\<lparr>hart0 := s2, hart0_at := B_Bss\<rparr>)"
| hart0_word: "hart0_at t = B_Bss \<Longrightarrow> bss_next (hart0 t) = Some s' \<Longrightarrow> boot_step L V t (t\<lparr>hart0 := s'\<rparr>)"
| hart0_leave: "hart0_at t = B_Bss \<Longrightarrow> bss_next (hart0 t) = None \<Longrightarrow> start_rest L (clear_variables (hart0 t)) = Ret s' \<Longrightarrow>
    boot_step L V t (t\<lparr>hart0 := s', hart0_at := B_Main\<rparr>)"
| hart1_leave: "\<not> hart1_parked t \<Longrightarrow> start L ((hart1 t)\<lparr>mem := mem (hart0 t)\<rparr>) = Ret s' \<Longrightarrow> pc (cpu s') = core1_park_at L \<Longrightarrow>
    boot_step L V t (t\<lparr>hart1 := s', hart0 := (hart0 t)\<lparr>mem := mem s'\<rparr>, hart1_parked := True\<rparr>)"
| core1: "hart1_parked t \<Longrightarrow> core1_move (duo_view V t) d \<Longrightarrow> boot_step L V t (duo_write V d t)"
| core0: "hart0_at t = B_Main \<Longrightarrow> wake_step (duo_view V t) = Some d \<Longrightarrow> boot_step L V t (duo_write V d t)"
| call: "hart0_at t = B_Main \<Longrightarrow> loc0 (duo t) = C0_Test \<Longrightarrow> f \<noteq> 0 \<Longrightarrow>
    boot_step L V t (t\<lparr>duo := (duo t)\<lparr>loc0 := C0_Ready f\<rparr>\<rparr>)"

inductive_cases boot_stepE: "boot_step L V x y"

text \<open>Both harts at their reset, the memory holding anything.\<close>

definition leaving_reset :: "two_harts \<Rightarrow> bool" where
  "leaving_reset t \<longleftrightarrow> hart0_at t = B_Reset \<and> csr_mhartid (cpu (hart0 t)) = 0 \<and> \<not> hart1_parked t \<and>
     csr_mhartid (cpu (hart1 t)) \<noteq> 0 \<and> loc0 (duo t) = C0_Test \<and> loc1 (duo t) = C1_Setup"

definition shared_in_bss :: "symbols \<Rightarrow> shared_at \<Rightarrow> bool" where
  "shared_in_bss L V \<longleftrightarrow> uint (bss_start L) < 2 ^ 63 \<and> uint (bss_end L) < 2 ^ 62 \<and>
     target_at V \<in> bss_words (bss_start L) (bss_end L) \<and> ready_at V AND NOT 7 \<in> bss_words (bss_start L) (bss_end L) \<and>
     ready_at V AND NOT 7 \<noteq> target_at V"

text \<open>What is written to the shared variables is read back.\<close>

lemma st32_mem: "w \<noteq> a AND NOT 7 \<Longrightarrow> mem (st32 a v s) w = mem s w"
  by (simp add: st32_def Let_def)

lemma ready_range:
  assumes "core1_move (duo_view V t) d \<or> wake_step (duo_view V t) = Some d"
  shows "sint (word_of_int (g_core1_smode_ready d) :: u32) = g_core1_smode_ready d"
proof -
  have "g_core1_smode_ready d = 1 \<or> g_core1_smode_ready d = sint (ld32 (hart0 t) (ready_at V))"
    using assms by (cases "loc1 (duo t)"; cases "loc0 (duo t)") (auto simp: dual_moves duo_view_def split: if_splits)
  then show ?thesis by (auto simp: word_of_int_1)
qed

lemma view_write:
  assumes "shared_in_bss L V" "core1_move (duo_view V t) d \<or> wake_step (duo_view V t) = Some d"
  shows "duo_view V (duo_write V d t) = d"
proof -
  have "target_at V \<noteq> ready_at V AND NOT 7" using assms(1) by (auto simp: shared_in_bss_def)
  with ready_range [OF assms(2)] show ?thesis by (simp add: duo_view_def duo_write_def ld32_st32(1) st32_mem)
qed

lemma core1_steps:
  assumes "shared_in_bss L V" "hart1_parked t" "core1_move\<^sup>*\<^sup>* (duo_view V t) d"
  shows "\<exists>t'. (boot_step L V)\<^sup>*\<^sup>* t t' \<and> duo_view V t' = d \<and> hart1_parked t' \<and> hart0_at t' = hart0_at t \<and> cpu (hart0 t') = cpu (hart0 t)"
  using assms(3)
proof (induction rule: rtranclp_induct)
  case base
  with assms(2) show ?case by (intro exI [of _ t]) simp
next
  case (step d d')
  then obtain t' where t': "(boot_step L V)\<^sup>*\<^sup>* t t'" "duo_view V t' = d" "hart1_parked t'" "hart0_at t' = hart0_at t"
    "cpu (hart0 t') = cpu (hart0 t)" by blast
  with step(2) have m: "core1_move (duo_view V t') d'" by simp
  have "boot_step L V t' (duo_write V d' t')" using t'(3) m by (rule boot_step.core1)
  with t'(1) have "(boot_step L V)\<^sup>*\<^sup>* t (duo_write V d' t')" by (rule rtranclp.rtrancl_into_rtrancl)
  moreover have "duo_view V (duo_write V d' t') = d'" using view_write [OF assms(1)] m by blast
  moreover have "cpu (st32 a v s) = cpu s" for a v and s :: reset_machine by (simp add: st32_def Let_def st64_def)
  ultimately show ?case using t' by (intro exI [of _ "duo_write V d' t'"]) (simp add: duo_write_def st64_def)
qed

text \<open>Hart 0 alone goes through \<open>start\<close>.\<close>

lemma bss_loop_steps:
  assumes "bss_loop s = Some s'"
  shows "bss_next s' = None \<and> (\<forall>t. hart0 t = s \<longrightarrow> hart0_at t = B_Bss \<longrightarrow> (boot_step L V)\<^sup>*\<^sup>* t (t\<lparr>hart0 := s'\<rparr>))"
proof (rule bss_loop.raw_induct [OF _ assms])
  fix loop :: "reset_machine \<Rightarrow> reset_machine option" and s s'
  let ?P = "\<lambda>s s'. bss_next s' = None \<and> (\<forall>t. hart0 t = s \<longrightarrow> hart0_at t = B_Bss \<longrightarrow> (boot_step L V)\<^sup>*\<^sup>* t (t\<lparr>hart0 := s'\<rparr>))"
  assume ih: "\<And>s s'. loop s = Some s' \<Longrightarrow> ?P s s'"
    and l: "(case bss_next s of None \<Rightarrow> Some s | Some s' \<Rightarrow> loop s') = Some s'"
  show "?P s s'"
  proof (cases "bss_next s")
    case None
    with l have e: "s' = s" by simp
    have "t\<lparr>hart0 := s\<rparr> = t" if "hart0 t = s" for t using that by auto
    with None show ?thesis unfolding e by (auto simp del: two_harts.update_convs)
  next
    case (Some s1)
    with l have n: "loop s1 = Some s'" by simp
    have "(boot_step L V)\<^sup>*\<^sup>* t (t\<lparr>hart0 := s'\<rparr>)" if t: "hart0 t = s" "hart0_at t = B_Bss" for t
    proof -
      have "boot_step L V t (t\<lparr>hart0 := s1\<rparr>)" using t Some by (auto intro: boot_step.hart0_word)
      moreover have "(boot_step L V)\<^sup>*\<^sup>* (t\<lparr>hart0 := s1\<rparr>) (t\<lparr>hart0 := s1, hart0 := s'\<rparr>)"
        by (rule ih [OF n, THEN conjunct2, rule_format]) (use t in simp_all)
      ultimately show ?thesis by (auto intro: converse_rtranclp_into_rtranclp)
    qed
    with ih [OF n] show ?thesis by blast
  qed
qed

lemma hart0_alone:
  assumes "hart0_at t = B_Reset" "csr_mhartid (cpu (hart0 t)) = 0" "start L (hart0 t) = Ret s'"
  shows "(boot_step L V)\<^sup>*\<^sup>* t (t\<lparr>hart0 := s', hart0_at := B_Main\<rparr>)"
proof -
  obtain s1 where s1: "start_stack L (hart0 t) = Ret s1" "reg 5 s1 = 0"
    using assms(2) by (simp add: start_stack_def set_reg_def on_cpu_def)
  obtain s2 where s2: "bss_bounds L s1 = Ret s2" by (simp add: bss_bounds_def)
  from assms(3) s1 s2 obtain s3 where s3: "bss_loop s2 = Some s3" "start_rest L (clear_variables s3) = Ret s'"
    by (cases "bss_loop s2") (simp_all add: start_def clear_bss_def)
  let ?t = "t\<lparr>hart0 := s2, hart0_at := B_Bss\<rparr>"
  have "boot_step L V t ?t" using assms(1) s1 s2 by (rule boot_step.hart0_enter)
  moreover have w: "(boot_step L V)\<^sup>*\<^sup>* ?t (?t\<lparr>hart0 := s3\<rparr>)" "bss_next s3 = None"
    by (rule bss_loop_steps [OF s3(1), THEN conjunct2, rule_format]; simp) (rule bss_loop_steps [OF s3(1), THEN conjunct1])
  moreover have "boot_step L V (?t\<lparr>hart0 := s3\<rparr>) (t\<lparr>hart0 := s', hart0_at := B_Main\<rparr>)"
    using boot_step.hart0_leave [of "?t\<lparr>hart0 := s3\<rparr>" L s' V] w(2) s3(2) by simp
  ultimately show ?thesis by (meson converse_rtranclp_into_rtranclp rtranclp.rtrancl_into_rtrancl)
qed


text \<open>Once the announcement has been wiped out, core 0 waits for ever.\<close>

definition never_ready :: "shared_at \<Rightarrow> u64 \<Rightarrow> two_harts \<Rightarrow> bool" where
  "never_ready V f t \<longleftrightarrow> hart0_at t = B_Main \<and> hart1_parked t \<and> loc0 (duo t) = C0_Ready f \<and> loc1 (duo t) \<noteq> C1_Setup \<and>
     g_core1_smode_ready (duo_view V t) = 0"

lemma never_ready_step:
  assumes "shared_in_bss L V" "boot_step L V t t'" "never_ready V f t"
  shows "never_ready V f t'"
  using assms(2)
proof cases
  case (core1 d)
  then have "duo_view V t' = d" using view_write [OF assms(1)] by blast
  moreover have "g_core1_smode_ready d = g_core1_smode_ready (duo_view V t)" "loc0 d = loc0 (duo t)" "loc1 d \<noteq> C1_Setup"
    using core1(3) assms(3)
    by (cases "loc1 (duo t)"; auto simp: dual_moves duo_view_def never_ready_def split: if_splits)+
  ultimately show ?thesis using assms(3) core1 by (simp add: never_ready_def duo_write_def)
next
  case (core0 d)
  then have "d = duo_view V t" using assms(3) by (simp add: wake_step_def never_ready_def duo_view_def)
  moreover have "duo_view V t' = d" using core0 view_write [OF assms(1)] by blast
  ultimately show ?thesis using assms(3) core0 by (simp add: never_ready_def duo_write_def) (simp add: duo_view_def)
qed (use assms(3) in \<open>simp_all add: never_ready_def\<close>)

lemma never_ready_stays:
  assumes "shared_in_bss L V"
  shows "(boot_step L V)\<^sup>*\<^sup>* t t' \<Longrightarrow> never_ready V f t \<Longrightarrow> never_ready V f t'"
  by (induction rule: rtranclp_induct) (auto intro: never_ready_step [OF assms])

text \<open>Hart 1 ahead of hart 0: parked, its memory as it was.\<close>

lemma hart1_first:
  assumes "leaving_reset t"
  shows "\<exists>s'. boot_step L V t (t\<lparr>hart1 := s', hart1_parked := True\<rparr>)"
proof -
  let ?s = "(hart1 t)\<lparr>mem := mem (hart0 t)\<rparr>"
  from start_hart1 [of ?s L] assms obtain s' where s': "start L ?s = Ret s'" "pc (cpu s') = core1_park_at L" "mem s' = mem (hart0 t)"
    by (auto simp: leaving_reset_def)
  from boot_step.hart1_leave [of t L s' V] s' assms show ?thesis by (auto simp: leaving_reset_def)
qed

lemma core1_announces: "loc1 d = C1_Setup \<Longrightarrow> core1_move d (d\<lparr>g_core1_smode_ready := 1, loc1 := C1_Clear\<rparr>)"
  by (simp add: core1_move_def park_step_def)

lemma core1_calls:
  assumes "loc1 d = C1_Setup" "g_smode_target d \<noteq> 0"
  shows "\<exists>d'. core1_move\<^sup>*\<^sup>* d d' \<and> dual.started d' = dual.started d @ [g_smode_target d] \<and> posted d' = posted d"
proof -
  let ?s1 = "d\<lparr>g_core1_smode_ready := 1, loc1 := C1_Clear\<rparr>"
  let ?s2 = "?s1\<lparr>ssip1 := False, loc1 := C1_Check\<rparr>"
  let ?s3 = "?s2\<lparr>loc1 := C1_Call\<rparr>"
  let ?s4 = "?s3\<lparr>loc1 := C1_Body (g_smode_target d), started := dual.started d @ [g_smode_target d]\<rparr>"
  have "core1_move ?s1 ?s2" "core1_move ?s2 ?s3" "core1_move ?s3 ?s4"
    by (simp_all add: core1_move_def park_step_def assms(2))
  with core1_announces [OF assms(1)] have "core1_move\<^sup>*\<^sup>* d ?s4"
    by (meson converse_rtranclp_into_rtranclp rtranclp.rtrancl_refl)
  then show ?thesis by (intro exI [of _ ?s4]) simp
qed

lemma duo_view_sel [simp]:
  "loc0 (duo_view V x) = loc0 (duo x)" "loc1 (duo_view V x) = loc1 (duo x)" "dual.started (duo_view V x) = dual.started (duo x)"
  "posted (duo_view V x) = posted (duo x)" "g_smode_target (duo_view V x) = mem (hart0 x) (target_at V)"
  by (simp_all add: duo_view_def)

text \<open>Hart 1 parked, and some moves of its park loop later: hart 0 still at its reset.\<close>

lemma core1_ahead:
  assumes "leaving_reset t" "shared_in_bss L V" "core1_move\<^sup>*\<^sup>* (duo_view V t) d"
  shows "\<exists>t'. (boot_step L V)\<^sup>*\<^sup>* t t' \<and> duo_view V t' = d \<and> hart1_parked t' \<and> hart0_at t' = B_Reset \<and>
    cpu (hart0 t') = cpu (hart0 t)"
proof -
  obtain s1 where h1: "boot_step L V t (t\<lparr>hart1 := s1, hart1_parked := True\<rparr>)" (is "boot_step L V t ?t1")
    using hart1_first [OF assms(1)] by blast
  have "core1_move\<^sup>*\<^sup>* (duo_view V ?t1) d" "hart1_parked ?t1" using assms(3) by (simp_all add: duo_view_def)
  from core1_steps [OF assms(2) this(2,1)] obtain t' where "(boot_step L V)\<^sup>*\<^sup>* ?t1 t'" "duo_view V t' = d" "hart1_parked t'"
    "hart0_at t' = B_Reset" "cpu (hart0 t') = cpu (hart0 t)" using assms(1) by (auto simp: leaving_reset_def)
  with h1 show ?thesis by (blast intro: converse_rtranclp_into_rtranclp)
qed

lemma announcement_lost:
  assumes "leaving_reset t" "shared_in_bss L V" "f \<noteq> 0"
  shows "\<exists>t'. (boot_step L V)\<^sup>*\<^sup>* t t' \<and> never_ready V f t'"
proof -
  have l0: "loc0 (duo t) = C0_Test" "loc1 (duo_view V t) = C1_Setup" using assms(1) by (simp_all add: leaving_reset_def)
  let ?d = "(duo_view V t)\<lparr>g_core1_smode_ready := 1, loc1 := C1_Clear\<rparr>"
  have "core1_move\<^sup>*\<^sup>* (duo_view V t) ?d" using core1_announces [OF l0(2)] by blast
  from core1_ahead [OF assms(1,2) this] obtain t2 where
    t2: "(boot_step L V)\<^sup>*\<^sup>* t t2" "duo_view V t2 = ?d" "hart1_parked t2" "hart0_at t2 = B_Reset" "cpu (hart0 t2) = cpu (hart0 t)" by blast
  have l: "loc0 (duo t2) = C0_Test" "loc1 (duo t2) = C1_Clear"
    using arg_cong [OF t2(2), of loc0] arg_cong [OF t2(2), of loc1] l0(1) by simp_all
  from t2(5) assms(1) have id0: "csr_mhartid (cpu (hart0 t2)) = 0" by (simp add: leaving_reset_def)
  from start_hart0 [OF id0, of L] assms(2) obtain s0 where s0: "start L (hart0 t2) = Ret s0"
    "mem s0 = (\<lambda>w. if w \<in> bss_words (bss_start L) (bss_end L) then 0 else mem (hart0 t2) w)"
    by (auto simp: shared_in_bss_def)
  let ?t3 = "t2\<lparr>hart0 := s0, hart0_at := B_Main\<rparr>"
  let ?t4 = "?t3\<lparr>duo := (duo ?t3)\<lparr>loc0 := C0_Ready f\<rparr>\<rparr>"
  have "(boot_step L V)\<^sup>*\<^sup>* t2 ?t3" using t2(4) id0 s0(1) by (rule hart0_alone)
  moreover have "boot_step L V ?t3 ?t4" by (rule boot_step.call) (use l assms(3) in simp_all)
  ultimately have "(boot_step L V)\<^sup>*\<^sup>* t ?t4" using t2(1) by (meson rtranclp.rtrancl_into_rtrancl rtranclp_trans)
  moreover have "ld32 s0 (ready_at V) = 0" using s0(2) assms(2) by (simp add: ld32_def shared_in_bss_def)
  then have "never_ready V f ?t4" using t2(3) l by (simp add: never_ready_def duo_view_def)
  ultimately show ?thesis by blast
qed

text \<open>
  C38. The harts leave reset without agreeing on when the shared variables are initialised. Both make the reset path of
  \<open>boot.S\<close>, hart 0 clearing the memory in which the linker has put the two variables, and hart 1 then runs its park loop. Hart 1 can
  announce itself before hart 0 clears the announcement: when the C code of hart 0 calls \<open>wake_core1_smode\<close> it waits for ever, whatever
  either hart does. And hart 1 can read the task variable before it is cleared: any address but 0 that the memory held at reset
  can be called, although nothing was posted.
\<close>

theorem boot_unsynchronised:
  assumes "leaving_reset t" "shared_in_bss L V" "f \<noteq> 0"
  shows "(\<exists>t'. (boot_step L V)\<^sup>*\<^sup>* t t' \<and>
      (\<forall>t''. (boot_step L V)\<^sup>*\<^sup>* t' t'' \<longrightarrow> loc0 (duo t'') = C0_Ready f)) \<and>
    (mem (hart0 t) (target_at V) \<noteq> 0 \<longrightarrow> (\<exists>t'. (boot_step L V)\<^sup>*\<^sup>* t t' \<and> hart0_at t' = B_Reset \<and>
      dual.started (duo t') = dual.started (duo t) @ [mem (hart0 t) (target_at V)] \<and> posted (duo t') = posted (duo t)))"
proof (intro conjI impI)
  from announcement_lost [OF assms] obtain t' where t': "(boot_step L V)\<^sup>*\<^sup>* t t'" "never_ready V f t'" by blast
  have "loc0 (duo x) = C0_Ready f" if "(boot_step L V)\<^sup>*\<^sup>* t' x" for x
    using never_ready_stays [OF assms(2) that t'(2)] by (simp add: never_ready_def)
  with t'(1) show "\<exists>t'. (boot_step L V)\<^sup>*\<^sup>* t t' \<and> (\<forall>t''. (boot_step L V)\<^sup>*\<^sup>* t' t'' \<longrightarrow> loc0 (duo t'') = C0_Ready f)" by blast
next
  assume "mem (hart0 t) (target_at V) \<noteq> 0"
  with core1_calls [of "duo_view V t"] assms(1) obtain d where d: "core1_move\<^sup>*\<^sup>* (duo_view V t) d"
    "dual.started d = dual.started (duo t) @ [mem (hart0 t) (target_at V)]" "posted d = posted (duo t)"
    by (auto simp: leaving_reset_def)
  from core1_ahead [OF assms(1,2) d(1)] obtain t' where t': "(boot_step L V)\<^sup>*\<^sup>* t t'" "duo_view V t' = d" "hart0_at t' = B_Reset"
    by blast
  from arg_cong [OF t'(2), of dual.started] arg_cong [OF t'(2), of posted] d(2,3) t'(1,3)
  show "\<exists>t'. (boot_step L V)\<^sup>*\<^sup>* t t' \<and> hart0_at t' = B_Reset \<and>
      dual.started (duo t') = dual.started (duo t) @ [mem (hart0 t) (target_at V)] \<and> posted (duo t') = posted (duo t)" by auto
qed

section \<open>Witnesses\<close>

definition demo_symbols :: symbols where
  "demo_symbols = \<lparr>stack0_top = 0x80020000, stack1_top = 0x8001C000, bss_start = 0x8000F000, bss_end = 0x80018000,
     m_trap_vector_at = 0x80000100, s_trap_vector_at = 0x80000200, s_mode_entry_at = 0x80001000, core1_park_at = 0x80001200\<rparr>"

definition demo_reset :: reset_machine where
  "demo_reset = program.extend demo_program (reset_machine.fields 0 0 0 0)"

lemma demo_reset_fields:
  "dev_ok (dev demo_reset)" "csr_mhartid (cpu demo_reset) = 0" "linked demo_symbols demo_reset" "\<not> sv39_on demo_reset"
  "\<not> bit (csr_mstatus (cpu demo_reset)) 19" "mem demo_reset SRAM_BASE \<noteq> 0"
  using demo_dev_ok
  by (simp_all add: demo_reset_def demo_program_def demo_symbols_def linked_def sv39_on_def program.defs reset_machine.defs machine.defs
      demo_machine_def demo_hart_def page_aligned_def take_bit_eq_mod)

theorem start_harts_witness:
  "\<exists>s'. start demo_symbols demo_reset = Ret s' \<and> pc (cpu s') = 0x80001000 \<and> prv (cpu s') = S_mode \<and> mem s' 0x8000F008 = 0 \<and>
    mem s' SRAM_BASE \<noteq> 0"
proof -
  have b: "uint (bss_start demo_symbols) < 2 ^ 63" "uint (bss_end demo_symbols) < 2 ^ 62" by (simp_all add: demo_symbols_def)
  have "0x8000F008 \<in> bss_words 0x8000F000 0x80018000" by (auto simp: bss_words_def slot_def intro!: exI [of _ 1])
  moreover have "SRAM_BASE \<notin> bss_words 0x8000F000 0x80018000" by (rule bss_above) (simp_all add: SRAM_BASE_def)
  ultimately show ?thesis
    using start_harts [OF b, of demo_reset] demo_reset_fields(2,6) by (auto simp: demo_symbols_def start_effect_def)
qed

theorem images_pass_witness:
  "ends_in_pass (image demo_symbols (p0_test_main 0x80020000 0x801FF000) demo_reset) \<and>
   ends_in_pass (image demo_symbols p1b_test_main demo_reset) \<and> ends_in_pass (image demo_symbols p1d_test_main demo_reset)"
  using images_pass [OF demo_reset_fields(1-3)] demo_reset_fields(4-6) by blast

definition demo_shared :: shared_at where
  "demo_shared = \<lparr>target_at = 0x8000F008, ready_at = 0x8000F010\<rparr>"

definition demo_two :: two_harts where
  "demo_two = \<lparr>hart0 = demo_reset\<lparr>mem := (\<lambda>a. 0x1234)\<rparr>, hart1 = demo_reset\<lparr>cpu := (cpu demo_reset)\<lparr>csr_mhartid := 1\<rparr>\<rparr>,
     hart0_at = B_Reset, hart1_parked = False, duo = dual_boot\<rparr>"

lemma demo_two_ok: "leaving_reset demo_two" "shared_in_bss demo_symbols demo_shared" "mem (hart0 demo_two) (target_at demo_shared) = 0x1234"
proof -
  have "slot 0x8000F000 (of_nat 1) = 0x8000F008" "slot 0x8000F000 (of_nat 2) = 0x8000F010" by (simp_all add: slot_def)
  then have "0x8000F008 \<in> bss_words 0x8000F000 0x80018000" "0x8000F010 \<in> bss_words 0x8000F000 0x80018000"
    unfolding bss_words_def by (auto intro: exI [of _ 1] exI [of _ 2])
  moreover have "(0x8000F010 :: u64) AND NOT 7 = 0x8000F010" by simp
  ultimately show "shared_in_bss demo_symbols demo_shared"
    by (simp add: shared_in_bss_def demo_symbols_def demo_shared_def)
qed (use demo_reset_fields(2) in \<open>simp_all add: leaving_reset_def demo_two_def dual_boot_def\<close>)

theorem boot_unsynchronised_witness:
  "\<exists>t. (boot_step demo_symbols demo_shared)\<^sup>*\<^sup>* demo_two t \<and> dual.started (duo t) = [0x1234] \<and> posted (duo t) = []"
proof -
  have "(1 :: u64) \<noteq> 0" by simp
  from boot_unsynchronised [OF demo_two_ok(1,2) this] show ?thesis
    by (auto simp: demo_two_ok(3)) (auto simp: demo_two_def dual_boot_def)
qed

end
