(* ===== verification/BareTime.thy ===== *)
theory BareTime
  imports Boot
begin

text \<open>
  A test program on a hart to which time passes: the clock of the CLINT advances while the program runs, and interrupts that are
  pending and enabled are taken, through firmware and S-mode handler, before the next statement. What the
  interrupt hardware and the two handlers do together is described by a small state machine, which the model of the code refines.
\<close>

section \<open>Passing time\<close>

text \<open>\<open>moment\<close> counts the moments at which the model looks at the clock: an arbitrary function says what it shows.\<close>

record timed_machine = reset_machine +
  moment :: nat

definition tick :: "(nat \<Rightarrow> nat) \<Rightarrow> 'z timed_machine_scheme \<Rightarrow> 'z timed_machine_scheme" where
  "tick clock s = s\<lparr>clint64 := (clint64 s)(CLINT_MTIME := of_nat (clock (moment s))), moment := Suc (moment s)\<rparr>"

text \<open>The interrupt a hart in S-mode takes next, in the order of the privileged architecture.\<close>

definition next_interrupt :: "'z machine_scheme \<Rightarrow> ('z machine_scheme \<Rightarrow> 'z machine_scheme run) option" where
  "next_interrupt s =
     (if m_pending s AND MIP_MSIP \<noteq> 0 then Some (m_interrupt IRQ_M_SOFT)
      else if m_pending s AND MIP_MTIP \<noteq> 0 then Some (m_interrupt IRQ_M_TIMER)
      else if s_pending s AND SIP_SEIP \<noteq> 0 then Some (s_take (push_bit 63 1 OR IRQ_S_EXT) 0)
      else if s_pending s AND SIP_SSIP \<noteq> 0 then Some (s_take (push_bit 63 1 OR IRQ_S_SOFT) 0)
      else if s_pending s AND SIP_STIP \<noteq> 0 then Some (s_take (push_bit 63 1 OR IRQ_S_TIMER) 0)
      else None)"

partial_function (option) settle :: "'z machine_scheme \<Rightarrow> 'z machine_scheme run option" where
  "settle s =
     (case next_interrupt s of
        None \<Rightarrow> Some (Ret s)
      | Some f \<Rightarrow> (case f s of Ret s' \<Rightarrow> settle s' | Halt s' \<Rightarrow> Some (Halt s') | Hang \<Rightarrow> Some Hang))"

definition pass :: "(nat \<Rightarrow> nat) \<Rightarrow> 'z timed_machine_scheme \<Rightarrow> 'z timed_machine_scheme run" where
  "pass clock s = (case settle (tick clock s) of None \<Rightarrow> Hang | Some r \<Rightarrow> r)"

text \<open>Statements between which time passes; a loop that only lets it pass; a variable that is read, and used later.\<close>

definition live :: "(nat \<Rightarrow> nat) \<Rightarrow> ('z timed_machine_scheme \<Rightarrow> 'z timed_machine_scheme run) list \<Rightarrow>
    'z timed_machine_scheme \<Rightarrow> 'z timed_machine_scheme run" where
  "live clock fs = block (map (\<lambda>f. block [f, pass clock]) fs)"

primrec delay :: "(nat \<Rightarrow> nat) \<Rightarrow> nat \<Rightarrow> 'z timed_machine_scheme \<Rightarrow> 'z timed_machine_scheme run" where
  "delay clock 0 = skip"
| "delay clock (Suc n) = block [pass clock, delay clock n]"

definition reading :: "(nat \<Rightarrow> nat) \<Rightarrow> ('z timed_machine_scheme \<Rightarrow> u64) \<Rightarrow> (u64 \<Rightarrow> 'z timed_machine_scheme \<Rightarrow> 'z timed_machine_scheme run) \<Rightarrow>
    'z timed_machine_scheme \<Rightarrow> 'z timed_machine_scheme run" where
  "reading clock f k s = (let v = f s in block [pass clock, k v] s)"

text \<open>\<open>while (waiting && --timeout > 0);\<close> with what follows as a function of the final \<open>timeout\<close>.\<close>

primrec await :: "(nat \<Rightarrow> nat) \<Rightarrow> ('z timed_machine_scheme \<Rightarrow> bool) \<Rightarrow> nat \<Rightarrow>
    (c_int \<Rightarrow> 'z timed_machine_scheme \<Rightarrow> 'z timed_machine_scheme run) \<Rightarrow> 'z timed_machine_scheme \<Rightarrow> 'z timed_machine_scheme run" where
  "await clock waiting 0 k s = k 0 s"
| "await clock waiting (Suc n) k s =
     (if \<not> waiting s then k (int (Suc n)) s
      else if n = 0 then k 0 s
      else block [pass clock, await clock waiting n k] s)"

text \<open>\<open>wfi\<close> sleeps until an enabled interrupt is pending, whatever \<open>sstatus\<close> says.\<close>

partial_function (option) wfi_wakes :: "(nat \<Rightarrow> nat) \<Rightarrow> 'z timed_machine_scheme \<Rightarrow> 'z timed_machine_scheme option" where
  "wfi_wakes clock s =
     (if mip_view s AND csr_mie (cpu s) \<noteq> 0 then Some s else wfi_wakes clock (tick clock s))"

definition wfi :: "(nat \<Rightarrow> nat) \<Rightarrow> 'z timed_machine_scheme \<Rightarrow> 'z timed_machine_scheme run" where
  "wfi clock s = of_option (wfi_wakes clock s)"

section \<open>The interrupts as a state machine\<close>

text \<open>Clock and comparator, the enable and pending bits, and what the S-mode handler counts.\<close>

record irq_ctl =
  i_now :: u64
  i_moment :: nat
  i_cmp :: u64
  i_mtie :: bool
  i_ipi :: bool
  i_stip :: bool
  i_ssip :: bool
  i_sie :: bool
  i_stie :: bool
  i_ssie :: bool
  i_timer :: c_int
  i_soft :: c_int
  i_faults :: c_int
  i_last :: u64

definition irq_ctl :: "'z timed_machine_scheme \<Rightarrow> irq_ctl" where
  "irq_ctl s = \<lparr>i_now = clint64 s CLINT_MTIME, i_moment = moment s, i_cmp = clint64 s (CLINT_MTIMECMP 0), i_mtie = bit (csr_mie (cpu s)) 7,
     i_ipi = bit (clint32 s (CLINT_MSIP 0)) 0, i_stip = bit (csr_mip (cpu s)) 5, i_ssip = bit (csr_mip (cpu s)) 1,
     i_sie = bit (csr_mstatus (cpu s)) 1, i_stie = bit (csr_mie (cpu s)) 5, i_ssie = bit (csr_mie (cpu s)) 1,
     i_timer = timer_irq_count (g_trap s), i_soft = soft_irq_count (g_trap s), i_faults = fault_count (g_trap s),
     i_last = last_irq_cause (g_trap s)\<rparr>"

text \<open>Hart 0 in S-mode, with the M-mode software interrupt enabled and no external interrupt.\<close>

definition irq_ok :: "'z machine_scheme \<Rightarrow> bool" where
  "irq_ok s \<longleftrightarrow> prv (cpu s) = S_mode \<and> csr_mhartid (cpu s) = 0 \<and> bit (csr_mie (cpu s)) 3 \<and> \<not> bit (csr_mip (cpu s)) 9"

definition i_tick :: "(nat \<Rightarrow> nat) \<Rightarrow> irq_ctl \<Rightarrow> irq_ctl" where
  "i_tick clock I = I\<lparr>i_now := of_nat (clock (i_moment I)), i_moment := Suc (i_moment I)\<rparr>"

definition i_m_soft :: "irq_ctl \<Rightarrow> irq_ctl" where
  "i_m_soft I = (if i_ipi I then I\<lparr>i_ipi := False, i_ssip := True\<rparr> else I)"

definition i_m_timer :: "irq_ctl \<Rightarrow> irq_ctl" where
  "i_m_timer I = (if i_mtie I \<and> i_cmp I \<le> i_now I then I\<lparr>i_cmp := - 1, i_mtie := False, i_stip := True\<rparr> else I)"

definition i_s_soft :: "irq_ctl \<Rightarrow> irq_ctl" where
  "i_s_soft I = (if i_sie I \<and> i_ssie I \<and> i_ssip I
     then I\<lparr>i_ssip := False, i_soft := inc32 (i_soft I), i_faults := inc32 (i_faults I), i_last := push_bit 63 1 OR IRQ_S_SOFT\<rparr> else I)"

definition i_s_timer :: "irq_ctl \<Rightarrow> irq_ctl" where
  "i_s_timer I = (if i_sie I \<and> i_stie I \<and> i_stip I
     then I\<lparr>i_stip := False, i_cmp := - 1, i_mtie := True, i_timer := inc32 (i_timer I), i_faults := inc32 (i_faults I),
            i_last := push_bit 63 1 OR IRQ_S_TIMER\<rparr> else I)"

definition i_pass :: "(nat \<Rightarrow> nat) \<Rightarrow> irq_ctl \<Rightarrow> irq_ctl" where
  "i_pass clock I = i_s_timer (i_s_soft (i_m_timer (i_m_soft (i_tick clock I))))"

text \<open>
  What interrupts leave alone. Seen by the program, nothing has happened: it goes on where it was, with every register, the same
  translation, the same devices and the same memory but for the frames below its stack pointer. What differs are the trap stack
  in \<open>mstatus\<close> (bits 5, 7, 8, 11, 12), the CSRs a trap sets, the enable and pending bits and the comparator the handlers
  work with, the clock, and what the S-mode handler logs: each interrupt is counted once in \<open>irq_count\<close> and in \<open>fault_count\<close>,
  and the record is that of the last one, taken at the program's pc.
\<close>

definition irqs_logged :: "u64 \<Rightarrow> trap_state \<Rightarrow> trap_state \<Rightarrow> bool" where
  "irqs_logged p t t' \<longleftrightarrow> handler_action t' = handler_action t \<and> expected_cause t' = expected_cause t \<and>
     expected_stval t' = expected_stval t \<and>
     (\<exists>k. irq_count t' = (inc32 ^^ k) (irq_count t) \<and> fault_count t' = (inc32 ^^ k) (fault_count t)) \<and>
     ((scause t', stval t', sepc t', last_irq_cause t') = (scause t, stval t, sepc t, last_irq_cause t) \<or>
      scause t' = last_irq_cause t' \<and> stval t' = 0 \<and> sepc t' = p)"

lemma irqs_logged_refl: "irqs_logged p t t"
  by (auto simp: irqs_logged_def intro: exI [of _ 0])

lemma irqs_logged_trans:
  assumes "irqs_logged p t t'" "irqs_logged p t' t''"
  shows "irqs_logged p t t''"
proof -
  from assms obtain k l where "irq_count t' = (inc32 ^^ k) (irq_count t)" "fault_count t' = (inc32 ^^ k) (fault_count t)"
    "irq_count t'' = (inc32 ^^ l) (irq_count t')" "fault_count t'' = (inc32 ^^ l) (fault_count t')"
    by (auto simp: irqs_logged_def)
  then have "irq_count t'' = (inc32 ^^ (l + k)) (irq_count t) \<and> fault_count t'' = (inc32 ^^ (l + k)) (fault_count t)"
    by (simp add: funpow_add)
  with assms show ?thesis unfolding irqs_logged_def by auto
qed

lemma irqs_logged_one:
  "irqs_logged p t ((log_irq c (log_trap c 0 p t))\<lparr>timer_irq_count := n\<rparr>)"
  "irqs_logged p t ((log_irq c (log_trap c 0 p t))\<lparr>soft_irq_count := n\<rparr>)"
  by (auto simp: irqs_logged_def log_irq_def log_trap_def intro: exI [of _ 1])

definition unnoticed :: "'z timed_machine_scheme \<Rightarrow> 'z timed_machine_scheme \<Rightarrow> bool" where
  "unnoticed s s' \<longleftrightarrow> pc (cpu s') = pc (cpu s) \<and> prv (cpu s') = prv (cpu s) \<and> gpr (cpu s') = gpr (cpu s) \<and>
     csr_mhartid (cpu s') = csr_mhartid (cpu s) \<and> csr_mtvec (cpu s') = csr_mtvec (cpu s) \<and> csr_stvec (cpu s') = csr_stvec (cpu s) \<and>
     csr_satp (cpu s') = csr_satp (cpu s) \<and> tlb (cpu s') = tlb (cpu s) \<and> junk (cpu s') = junk (cpu s) \<and>
     (\<forall>n. n \<notin> {5, 7, 8, 11, 12} \<longrightarrow> bit (csr_mstatus (cpu s')) n = bit (csr_mstatus (cpu s)) n) \<and>
     (\<forall>n. n \<noteq> 7 \<longrightarrow> bit (csr_mie (cpu s')) n = bit (csr_mie (cpu s)) n) \<and>
     (\<forall>n. n \<notin> {1, 5} \<longrightarrow> bit (csr_mip (cpu s')) n = bit (csr_mip (cpu s)) n) \<and>
     (\<forall>a. a \<notin> trap_words s \<longrightarrow> mem s' a = mem s a) \<and>
     (\<forall>a. a \<notin> {CLINT_MTIME, CLINT_MTIMECMP 0} \<longrightarrow> clint64 s' a = clint64 s a) \<and>
     (\<forall>a. a \<noteq> CLINT_MSIP 0 \<longrightarrow> clint32 s' a = clint32 s a) \<and>
     irqs_logged (pc (cpu s)) (g_trap s) (g_trap s') \<and> dev s' = dev s \<and> pt_pool s' = pt_pool s \<and> pt_pool_next_page s' = pt_pool_next_page s \<and>
     svadu s' = svadu s \<and> tlb_pick s' = tlb_pick s \<and> naccess s' = naccess s \<and>
     csr_pmpaddr0 s' = csr_pmpaddr0 s \<and> csr_pmpcfg0 s' = csr_pmpcfg0 s \<and> csr_medeleg s' = csr_medeleg s \<and>
     csr_mideleg s' = csr_mideleg s \<and> timed_machine.more s' = timed_machine.more s"

lemma unnoticed_refl [simp]: "unnoticed s s"
  by (simp add: unnoticed_def irqs_logged_refl)

lemma unnoticed_trans:
  assumes "unnoticed s t" "unnoticed t u"
  shows "unnoticed s u"
proof -
  have "trap_words t = trap_words s" using assms(1) by (simp add: unnoticed_def trap_words_def s_frame_def m_frame_def)
  moreover have "irqs_logged (pc (cpu s)) (g_trap s) (g_trap u)"
    using assms irqs_logged_trans [of "pc (cpu s)" "g_trap s" "g_trap t" "g_trap u"] by (simp add: unnoticed_def)
  ultimately show ?thesis using assms unfolding unnoticed_def by simp
qed

text \<open>Of this, what also the statements of a program keep that set interrupts up.\<close>

definition background :: "'z program_scheme \<Rightarrow> 'z program_scheme \<Rightarrow> bool" where
  "background s s' \<longleftrightarrow> prv (cpu s') = prv (cpu s) \<and> gpr (cpu s') 2 = gpr (cpu s) 2 \<and> csr_satp (cpu s') = csr_satp (cpu s) \<and>
     tlb (cpu s') = tlb (cpu s) \<and> bit (csr_mstatus (cpu s')) 18 = bit (csr_mstatus (cpu s)) 18 \<and>
     bit (csr_mstatus (cpu s')) 19 = bit (csr_mstatus (cpu s)) 19 \<and> (\<forall>a. a \<notin> trap_words s \<longrightarrow> mem s' a = mem s a) \<and>
     dev s' = dev s \<and> pt_pool s' = pt_pool s \<and> pt_pool_next_page s' = pt_pool_next_page s \<and> svadu s' = svadu s \<and>
     tlb_pick s' = tlb_pick s \<and> handler_action (g_trap s') = handler_action (g_trap s)"

lemma unnoticed_background: "unnoticed s s' \<Longrightarrow> background s s'"
  by (simp add: unnoticed_def background_def irqs_logged_def)

lemma background_refl [simp]: "background s s"
  by (simp add: background_def)

lemma background_trans: "background s t \<Longrightarrow> background t u \<Longrightarrow> background s u"
  by (simp add: background_def trap_words_def s_frame_def m_frame_def)

section \<open>The model refines it\<close>

lemma pending_bits:
  "m_pending s AND MIP_MSIP \<noteq> 0 \<longleftrightarrow> msip s \<and> bit (csr_mie (cpu s)) 3"
  "m_pending s AND MIP_MTIP \<noteq> 0 \<longleftrightarrow> mtip s \<and> bit (csr_mie (cpu s)) 7"
  "s_pending s AND SIP_SEIP \<noteq> 0 \<longleftrightarrow> bit (csr_mstatus (cpu s)) 1 \<and> bit (csr_mip (cpu s)) 9 \<and> bit (csr_mie (cpu s)) 9"
  "s_pending s AND SIP_SSIP \<noteq> 0 \<longleftrightarrow> bit (csr_mstatus (cpu s)) 1 \<and> bit (csr_mip (cpu s)) 1 \<and> bit (csr_mie (cpu s)) 1"
  "s_pending s AND SIP_STIP \<noteq> 0 \<longleftrightarrow> bit (csr_mstatus (cpu s)) 1 \<and> bit (csr_mip (cpu s)) 5 \<and> bit (csr_mie (cpu s)) 5"
proof -
  have d: "\<not> bit MIDELEG_DEFAULT 3" "\<not> bit MIDELEG_DEFAULT 7" "bit MIDELEG_DEFAULT 9" "bit MIDELEG_DEFAULT 1" "bit MIDELEG_DEFAULT 5"
    by (simp_all add: MIDELEG_DEFAULT_def)
  show "m_pending s AND MIP_MSIP \<noteq> 0 \<longleftrightarrow> msip s \<and> bit (csr_mie (cpu s)) 3"
    "m_pending s AND MIP_MTIP \<noteq> 0 \<longleftrightarrow> mtip s \<and> bit (csr_mie (cpu s)) 7"
    "s_pending s AND SIP_SEIP \<noteq> 0 \<longleftrightarrow> bit (csr_mstatus (cpu s)) 1 \<and> bit (csr_mip (cpu s)) 9 \<and> bit (csr_mie (cpu s)) 9"
    "s_pending s AND SIP_SSIP \<noteq> 0 \<longleftrightarrow> bit (csr_mstatus (cpu s)) 1 \<and> bit (csr_mip (cpu s)) 1 \<and> bit (csr_mie (cpu s)) 1"
    "s_pending s AND SIP_STIP \<noteq> 0 \<longleftrightarrow> bit (csr_mstatus (cpu s)) 1 \<and> bit (csr_mip (cpu s)) 5 \<and> bit (csr_mie (cpu s)) 5"
    using d by (auto simp: m_pending_def s_pending_def mip_view_def SIP_SEIP_def SIP_SSIP_def SIP_STIP_def flag_bits bit_simps)
qed

lemma irq_ctl_sel [simp]:
  "i_now (irq_ctl s) = clint64 s CLINT_MTIME" "i_moment (irq_ctl s) = moment s" "i_cmp (irq_ctl s) = clint64 s (CLINT_MTIMECMP 0)"
  "i_mtie (irq_ctl s) = bit (csr_mie (cpu s)) 7" "i_ipi (irq_ctl s) = bit (clint32 s (CLINT_MSIP 0)) 0"
  "i_stip (irq_ctl s) = bit (csr_mip (cpu s)) 5" "i_ssip (irq_ctl s) = bit (csr_mip (cpu s)) 1"
  "i_sie (irq_ctl s) = bit (csr_mstatus (cpu s)) 1" "i_stie (irq_ctl s) = bit (csr_mie (cpu s)) 5"
  "i_ssie (irq_ctl s) = bit (csr_mie (cpu s)) 1" "i_timer (irq_ctl s) = timer_irq_count (g_trap s)"
  "i_soft (irq_ctl s) = soft_irq_count (g_trap s)" "i_faults (irq_ctl s) = fault_count (g_trap s)"
  "i_last (irq_ctl s) = last_irq_cause (g_trap s)"
  by (simp_all add: irq_ctl_def)

lemma mtime_apart [simp]: "CLINT_MTIME \<noteq> CLINT_MTIMECMP 0" "CLINT_MTIMECMP 0 \<noteq> CLINT_MTIME"
  by (simp_all add: platform_consts)

lemma irq_bits:
  fixes w :: u64
  shows "bit (w AND NOT MIP_MTIP) n \<longleftrightarrow> bit w n \<and> n \<noteq> 7" "bit (w OR MIP_MTIP) n \<longleftrightarrow> bit w n \<or> n = 7"
    "bit (w AND NOT MIP_STIP) n \<longleftrightarrow> bit w n \<and> n \<noteq> 5" "bit (w OR MIP_STIP) n \<longleftrightarrow> bit w n \<or> n = 5"
    "bit (w AND NOT SIP_SSIP) n \<longleftrightarrow> bit w n \<and> n \<noteq> 1" "bit (w OR MIP_SSIP) n \<longleftrightarrow> bit w n \<or> n = 1"
  using bit_imp_le_length [of w n] by (auto simp: SIP_SSIP_def flag_bits bit_simps)

text \<open>The four interrupts, one at a time.\<close>

definition irq_step :: "('z timed_machine_scheme \<Rightarrow> 'z timed_machine_scheme run) \<Rightarrow> (irq_ctl \<Rightarrow> irq_ctl) \<Rightarrow>
    'z timed_machine_scheme \<Rightarrow> bool" where
  "irq_step f g s \<longleftrightarrow> (\<exists>s'. f s = Ret s' \<and> irq_ok s' \<and> unnoticed s s' \<and> irq_ctl s' = g (irq_ctl s))"

lemma more_fields:
  "machine.more s' = machine.more (s :: 'z timed_machine_scheme) \<Longrightarrow>
   svadu s' = svadu s \<and> tlb_pick s' = tlb_pick s \<and> naccess s' = naccess s \<and> csr_pmpaddr0 s' = csr_pmpaddr0 s \<and>
   csr_pmpcfg0 s' = csr_pmpcfg0 s \<and> csr_medeleg s' = csr_medeleg s \<and> csr_mideleg s' = csr_mideleg s \<and> moment s' = moment s \<and>
   timed_machine.more s' = timed_machine.more s"
  by (cases s; cases s') simp

lemma m_soft_step:
  fixes s :: "'z timed_machine_scheme"
  assumes "irq_ok s"
  shows "irq_step (m_interrupt IRQ_M_SOFT) (\<lambda>I. I\<lparr>i_ipi := False, i_ssip := True\<rparr>) s"
proof -
  have p: "prv (cpu s) = S_mode" using assms by (simp add: irq_ok_def)
  show ?thesis
    unfolding irq_step_def m_interrupt_soft [OF p]
    using assms
    by (simp add: irq_ok_def unnoticed_def irqs_logged_refl m_visited_def m_saved_mem_other trap_words_def irq_ctl_def irq_bits)
qed

lemma m_timer_step:
  fixes s :: "'z timed_machine_scheme"
  assumes "irq_ok s"
  shows "irq_step (m_interrupt IRQ_M_TIMER) (\<lambda>I. I\<lparr>i_cmp := - 1, i_mtie := False, i_stip := True\<rparr>) s"
proof -
  have p: "prv (cpu s) = S_mode" using assms by (simp add: irq_ok_def)
  show ?thesis
    unfolding irq_step_def m_interrupt_timer [OF p]
    using assms
    by (simp add: irq_ok_def unnoticed_def irqs_logged_refl m_visited_def m_saved_mem_other trap_words_def irq_ctl_def irq_bits)
qed

lemma s_soft_step:
  fixes s :: "'z timed_machine_scheme"
  assumes "irq_ok s"
  shows "irq_step (s_take (push_bit 63 1 OR IRQ_S_SOFT) 0)
    (\<lambda>I. I\<lparr>i_ssip := False, i_soft := inc32 (i_soft I), i_faults := inc32 (i_faults I), i_last := push_bit 63 1 OR IRQ_S_SOFT\<rparr>) s"
proof -
  have p: "prv (cpu s) = S_mode" using assms by (simp add: irq_ok_def)
  from s_take_soft [OF p, of 0] obtain s' where s': "s_take (push_bit 63 1 OR IRQ_S_SOFT) 0 s = Ret s'" "trap_kept s s'"
    "g_trap s' = (log_irq (push_bit 63 1 OR IRQ_S_SOFT) (log_trap (push_bit 63 1 OR IRQ_S_SOFT) 0 (pc (cpu s)) (g_trap s)))
       \<lparr>soft_irq_count := inc32 (soft_irq_count (g_trap s))\<rparr>"
    "clint64 s' = clint64 s" "clint32 s' = clint32 s" "csr_mie (cpu s') = csr_mie (cpu s)" "csr_mip (cpu s') = csr_mip (cpu s) AND NOT SIP_SSIP"
    by blast
  note more = more_fields [of s' s]
  with s' assms more show ?thesis unfolding irq_step_def
    by (intro exI [of _ s']) (simp add: irq_ok_def unnoticed_def irqs_logged_one trap_kept_def irq_ctl_def irq_bits, simp add: log_irq_def log_trap_def)
qed

lemma s_timer_step:
  fixes s :: "'z timed_machine_scheme"
  assumes "irq_ok s"
  shows "irq_step (s_take (push_bit 63 1 OR IRQ_S_TIMER) 0)
    (\<lambda>I. I\<lparr>i_stip := False, i_cmp := - 1, i_mtie := True, i_timer := inc32 (i_timer I), i_faults := inc32 (i_faults I),
           i_last := push_bit 63 1 OR IRQ_S_TIMER\<rparr>) s"
proof -
  have p: "prv (cpu s) = S_mode" using assms by (simp add: irq_ok_def)
  from s_take_timer [OF p, of 0] obtain s' where s': "s_take (push_bit 63 1 OR IRQ_S_TIMER) 0 s = Ret s'" "trap_kept s s'"
    "g_trap s' = (log_irq (push_bit 63 1 OR IRQ_S_TIMER) (log_trap (push_bit 63 1 OR IRQ_S_TIMER) 0 (pc (cpu s)) (g_trap s)))
       \<lparr>timer_irq_count := inc32 (timer_irq_count (g_trap s))\<rparr>"
    "clint64 s' = (clint64 s)(CLINT_MTIMECMP (csr_mhartid (cpu s)) := 0xFFFFFFFFFFFFFFFF)" "clint32 s' = clint32 s"
    "csr_mie (cpu s') = csr_mie (cpu s) OR MIP_MTIP" "csr_mip (cpu s') = csr_mip (cpu s) AND NOT MIP_STIP"
    by blast
  note more = more_fields [of s' s]
  with s' assms more show ?thesis unfolding irq_step_def
    by (intro exI [of _ s']) (simp add: irq_ok_def unnoticed_def irqs_logged_one trap_kept_def irq_ctl_def irq_bits, simp add: log_irq_def log_trap_def)
qed

lemma mtip_ctl: "irq_ok s \<Longrightarrow> mtip s \<longleftrightarrow> i_cmp (irq_ctl s) \<le> i_now (irq_ctl s)"
  by (simp add: mtip_def irq_ok_def)

lemma msip_ctl: "irq_ok s \<Longrightarrow> msip s \<longleftrightarrow> i_ipi (irq_ctl s)"
  by (simp add: msip_def irq_ok_def)

text \<open>Which interrupt is next, in terms of the state machine.\<close>

lemma next_interrupt_ctl:
  assumes "irq_ok s"
  defines "I \<equiv> irq_ctl s"
  shows "next_interrupt s =
     (if i_ipi I then Some (m_interrupt IRQ_M_SOFT)
      else if i_mtie I \<and> i_cmp I \<le> i_now I then Some (m_interrupt IRQ_M_TIMER)
      else if i_sie I \<and> i_ssie I \<and> i_ssip I then Some (s_take (push_bit 63 1 OR IRQ_S_SOFT) 0)
      else if i_sie I \<and> i_stie I \<and> i_stip I then Some (s_take (push_bit 63 1 OR IRQ_S_TIMER) 0)
      else None)"
  using assms mtip_ctl [OF assms(1)] msip_ctl [OF assms(1)]
  unfolding next_interrupt_def pending_bits by (auto simp: irq_ok_def)

lemma settle_if:
  assumes "irq_ok s" "c \<Longrightarrow> next_interrupt s = Some f" "irq_step f g s"
  shows "\<exists>s'. settle s = settle s' \<and> irq_ok s' \<and> unnoticed s s' \<and> irq_ctl s' = (if c then g (irq_ctl s) else irq_ctl s)"
proof (cases c)
  case True
  with assms(2,3) show ?thesis unfolding irq_step_def by (subst settle.simps) auto
next
  case False
  with assms(1) show ?thesis by (intro exI [of _ s]) simp
qed

abbreviation m_calm :: "irq_ctl \<Rightarrow> bool" where
  "m_calm I \<equiv> \<not> i_ipi I \<and> \<not> (i_mtie I \<and> i_cmp I \<le> i_now I)"

lemma settle_steps:
  assumes "irq_ok s"
  shows "\<exists>s'. settle s = settle s' \<and> irq_ok s' \<and> unnoticed s s' \<and> irq_ctl s' = i_m_soft (irq_ctl s)"
    "\<not> i_ipi (irq_ctl s) \<Longrightarrow> \<exists>s'. settle s = settle s' \<and> irq_ok s' \<and> unnoticed s s' \<and> irq_ctl s' = i_m_timer (irq_ctl s)"
    "m_calm (irq_ctl s) \<Longrightarrow> \<exists>s'. settle s = settle s' \<and> irq_ok s' \<and> unnoticed s s' \<and> irq_ctl s' = i_s_soft (irq_ctl s)"
    "m_calm (irq_ctl s) \<Longrightarrow> \<not> (i_sie (irq_ctl s) \<and> i_ssie (irq_ctl s) \<and> i_ssip (irq_ctl s)) \<Longrightarrow>
     \<exists>s'. settle s = settle s' \<and> irq_ok s' \<and> unnoticed s s' \<and> irq_ctl s' = i_s_timer (irq_ctl s)"
proof -
  note n = next_interrupt_ctl [OF assms]
  show "\<exists>s'. settle s = settle s' \<and> irq_ok s' \<and> unnoticed s s' \<and> irq_ctl s' = i_m_soft (irq_ctl s)"
    unfolding i_m_soft_def by (rule settle_if [OF assms _ m_soft_step [OF assms]], subst n, rule if_P)
  show "\<exists>s'. settle s = settle s' \<and> irq_ok s' \<and> unnoticed s s' \<and> irq_ctl s' = i_m_timer (irq_ctl s)" if "\<not> i_ipi (irq_ctl s)"
    unfolding i_m_timer_def by (rule settle_if [OF assms _ m_timer_step [OF assms]], subst n) (use that in presburger)
  show "\<exists>s'. settle s = settle s' \<and> irq_ok s' \<and> unnoticed s s' \<and> irq_ctl s' = i_s_soft (irq_ctl s)" if "m_calm (irq_ctl s)"
    unfolding i_s_soft_def by (rule settle_if [OF assms _ s_soft_step [OF assms]], subst n) (use that in presburger)
  show "\<exists>s'. settle s = settle s' \<and> irq_ok s' \<and> unnoticed s s' \<and> irq_ctl s' = i_s_timer (irq_ctl s)"
    if "m_calm (irq_ctl s)" "\<not> (i_sie (irq_ctl s) \<and> i_ssie (irq_ctl s) \<and> i_ssip (irq_ctl s))"
    unfolding i_s_timer_def by (rule settle_if [OF assms _ s_timer_step [OF assms]], subst n) (use that in presburger)
qed

lemma i_calm:
  "\<not> i_ipi (i_m_soft I)" "i_ipi (i_m_timer I) = i_ipi I" "i_now (i_m_soft I) = i_now I" "i_now (i_m_timer I) = i_now I"
  "i_now I \<noteq> - 1 \<Longrightarrow> \<not> (i_mtie (i_m_timer I) \<and> i_cmp (i_m_timer I) \<le> i_now (i_m_timer I))"
  "m_calm I \<Longrightarrow> m_calm (i_s_soft I)" "i_now I \<noteq> - 1 \<Longrightarrow> m_calm I \<Longrightarrow> m_calm (i_s_timer I)"
  "\<not> (i_sie (i_s_soft I) \<and> i_ssie (i_s_soft I) \<and> i_ssip (i_s_soft I))"
  "\<not> (i_sie I \<and> i_ssie I \<and> i_ssip I) \<Longrightarrow> \<not> (i_sie (i_s_timer I) \<and> i_ssie (i_s_timer I) \<and> i_ssip (i_s_timer I))"
  "\<not> (i_sie (i_s_timer I) \<and> i_stie (i_s_timer I) \<and> i_stip (i_s_timer I))"
  by (auto simp: i_m_soft_def i_m_timer_def i_s_soft_def i_s_timer_def word_order.extremum_unique)

lemma tick_ctl: "irq_ok (tick clock s) = irq_ok s" "unnoticed s (tick clock s)" "irq_ctl (tick clock s) = i_tick clock (irq_ctl s)"
  by (simp_all add: tick_def irq_ok_def unnoticed_def irqs_logged_refl irq_ctl_def i_tick_def)

lemma pass_ctl:
  assumes "irq_ok s" "clock (moment s) < 2 ^ 64 - 1"
  shows "\<exists>s'. pass clock s = Ret s' \<and> irq_ok s' \<and> unnoticed s s' \<and> irq_ctl s' = i_pass clock (irq_ctl s)"
proof -
  let ?s = "tick clock s" and ?I = "i_tick clock (irq_ctl s)"
  have "(of_nat (Suc (clock (moment s))) :: u64) \<noteq> 0"
    using assms(2) by (simp only: word_of_nat_eq_0_iff) (auto dest!: dvd_imp_le)
  then have now: "i_now ?I \<noteq> - 1" by (auto simp: i_tick_def simp del: irq_ctl_sel(1))
  have "irq_ok ?s" using assms(1) by (simp add: tick_ctl)
  from settle_steps(1) [OF this] obtain s1 where 1: "settle ?s = settle s1" "irq_ok s1" "unnoticed ?s s1" "irq_ctl s1 = i_m_soft ?I"
    by (auto simp: tick_ctl)
  from settle_steps(2) [OF 1(2)] obtain s2 where 2: "settle s1 = settle s2" "irq_ok s2" "unnoticed s1 s2" "irq_ctl s2 = i_m_timer (i_m_soft ?I)"
    using i_calm(1) by (auto simp: 1(4) simp del: irq_ctl_sel)
  have c2: "m_calm (irq_ctl s2)" using now i_calm(5) [of "i_m_soft ?I"] by (simp add: 2(4) i_calm(1-4) del: irq_ctl_sel)
  from settle_steps(3) [OF 2(2) c2] obtain s3 where 3: "settle s2 = settle s3" "irq_ok s3" "unnoticed s2 s3"
    "irq_ctl s3 = i_s_soft (i_m_timer (i_m_soft ?I))"
    by (auto simp: 2(4) simp del: irq_ctl_sel)
  have c3: "m_calm (irq_ctl s3)" "\<not> (i_sie (irq_ctl s3) \<and> i_ssie (irq_ctl s3) \<and> i_ssip (irq_ctl s3))"
    using i_calm(6) [OF c2] i_calm(8) by (simp_all add: 3(4) 2(4) del: irq_ctl_sel)
  from settle_steps(4) [OF 3(2) c3] obtain s4 where 4: "settle s3 = settle s4" "irq_ok s4" "unnoticed s3 s4"
    "irq_ctl s4 = i_s_timer (irq_ctl s3)" by blast
  have "i_now (irq_ctl s3) = i_now ?I" by (simp add: 3(4) i_calm i_s_soft_def del: irq_ctl_sel)
  with now have "i_now (irq_ctl s3) \<noteq> - 1" by metis
  from i_calm(7) [OF this c3(1)] i_calm(9) [OF c3(2)] i_calm(10) [of "irq_ctl s3"] have "next_interrupt s4 = None"
    unfolding next_interrupt_ctl [OF 4(2)] 4(4) by presburger
  then have "settle s4 = Some (Ret s4)" by (subst settle.simps) simp
  then have "pass clock s = Ret s4" unfolding pass_def 1(1) 2(1) 3(1) 4(1) by simp
  moreover have "unnoticed s s4" 
    by (rule unnoticed_trans [OF tick_ctl(2) unnoticed_trans [OF 1(3) unnoticed_trans [OF 2(3) unnoticed_trans [OF 3(3) 4(3)]]]])
  moreover have "irq_ctl s4 = i_pass clock (irq_ctl s)" unfolding 4(4) 3(4) i_pass_def ..
  ultimately show ?thesis using 4(2) by blast
qed

lemma i_pass_time [simp]: "i_moment (i_pass clock I) = Suc (i_moment I)" "i_now (i_pass clock I) = of_nat (clock (i_moment I))"
  by (simp_all add: i_pass_def i_tick_def i_m_soft_def i_m_timer_def i_s_soft_def i_s_timer_def)

text \<open>
  C8. Interrupts, seen by the program they interrupt: hart 0 in S-mode with the M-mode software interrupt enabled and no external
  interrupt pending, as the reset path leaves it. However long it waits, with whatever other interrupts pending and enabled, and whatever the
  clock shows short of its last value: hardware, M-mode vector and firmware, S-mode vector and handler together take the program through the
  moves of a small state machine on the pending and enable bits, the comparator and the handler's counts. At each moment a software
  interrupt is forwarded before an expired timer, and both before the supervisor's own are delivered, each once; the hart is ready to
  go on afterwards. Apart from that state nothing has changed but what \<open>unnoticed\<close> names: pc and all registers are as they were, the vectors and
  \<open>satp\<close>, translation and its cache, all bits of \<open>mstatus\<close> but the trap stack's, the other enable and pending bits and CLINT registers, every word of
  memory but the frames below the stack pointer, the page tables' pool and the devices; the CSRs of the last trap and the handler's record of it
  may differ, and that record counts every interrupt once.
\<close>

theorem interrupts_refine:
  assumes "irq_ok s" "\<forall>i<n. clock (moment s + i) < 2 ^ 64 - 1"
  shows "\<exists>s'. delay clock n s = Ret s' \<and> irq_ok s' \<and> unnoticed s s' \<and> irq_ctl s' = (i_pass clock ^^ n) (irq_ctl s)"
  using assms
proof (induction n arbitrary: s)
  case (Suc n)
  from Suc.prems have "clock (moment s) < 2 ^ 64 - 1" by fastforce
  from pass_ctl [of s clock, OF Suc.prems(1) this] obtain s1 where 1: "pass clock s = Ret s1" "irq_ok s1" "unnoticed s s1"
    "irq_ctl s1 = i_pass clock (irq_ctl s)" by blast
  have "moment s1 = Suc (moment s)" using arg_cong [OF 1(4), of i_moment] by simp
  with Suc.prems(2) have "\<forall>i<n. clock (moment s1 + i) < 2 ^ 64 - 1" by auto
  from Suc.IH [OF 1(2) this] obtain s' where s': "delay clock n s1 = Ret s'" "irq_ok s'" "unnoticed s1 s'"
    "irq_ctl s' = (i_pass clock ^^ n) (irq_ctl s1)" by blast
  have "delay clock (Suc n) s = Ret s'" using 1(1) s'(1) by (simp add: block_Cons)
  moreover have "irq_ctl s' = (i_pass clock ^^ Suc n) (irq_ctl s)" using s'(4) 1(4) by (simp add: funpow_swap1)
  ultimately show ?case using s'(2) unnoticed_trans [OF 1(3) s'(3)] by blast
qed simp

definition demo_timed :: timed_machine where
  "demo_timed = reset_machine.extend demo_reset (timed_machine.fields 0)"

lemma demo_timed_ctl:
  "irq_ok demo_timed" "moment demo_timed = 0"
  "irq_ctl demo_timed = \<lparr>i_now = 0, i_moment = 0, i_cmp = 0, i_mtie = True, i_ipi = False, i_stip = False, i_ssip = False, i_sie = True,
     i_stie = True, i_ssie = True, i_timer = 0, i_soft = 0, i_faults = 0, i_last = 0\<rparr>"
  by (simp_all add: irq_ok_def irq_ctl_def demo_timed_def demo_reset_def demo_program_def demo_machine_def demo_hart_def demo_trap_def
      reset_machine.defs timed_machine.defs program.defs machine.defs)

theorem interrupts_refine_witness:
  "\<exists>s'. delay (\<lambda>n. n) 2 demo_timed = Ret s' \<and> timer_irq_count (g_trap s') = 1 \<and> soft_irq_count (g_trap s') = 0 \<and>
     clint64 s' (CLINT_MTIMECMP 0) = - 1 \<and> clint64 s' CLINT_MTIME = 1"
proof -
  have "\<forall>i<2. moment demo_timed + i < 2 ^ 64 - 1" by (simp add: demo_timed_ctl(2))
  from interrupts_refine [of demo_timed 2 "\<lambda>n. n", OF demo_timed_ctl(1) this] obtain s' where s': "delay (\<lambda>n. n) 2 demo_timed = Ret s'"
    "irq_ctl s' = (i_pass (\<lambda>n. n) ^^ 2) (irq_ctl demo_timed)" by blast
  have "(i_pass (\<lambda>n. n) ^^ 2) (irq_ctl demo_timed) = \<lparr>i_now = 1, i_moment = 2, i_cmp = - 1, i_mtie = True, i_ipi = False, i_stip = False,
      i_ssip = False, i_sie = True, i_stie = True, i_ssie = True, i_timer = 1, i_soft = 0, i_faults = 1, i_last = push_bit 63 1 OR IRQ_S_TIMER\<rparr>"
    by (simp add: demo_timed_ctl(3) numeral_2_eq_2 i_pass_def i_tick_def i_m_soft_def i_m_timer_def i_s_soft_def i_s_timer_def inc32_def
        word_order.extremum_unique)
  with s'(2) have "irq_ctl s' = \<lparr>i_now = 1, i_moment = 2, i_cmp = - 1, i_mtie = True, i_ipi = False, i_stip = False,
      i_ssip = False, i_sie = True, i_stie = True, i_ssie = True, i_timer = 1, i_soft = 0, i_faults = 1, i_last = push_bit 63 1 OR IRQ_S_TIMER\<rparr>"
    by (rule trans)
  then have "timer_irq_count (g_trap s') = 1 \<and> soft_irq_count (g_trap s') = 0 \<and> clint64 s' (CLINT_MTIMECMP 0) = - 1 \<and> clint64 s' CLINT_MTIME = 1"
    unfolding irq_ctl_def by simp
  with s'(1) show ?thesis by blast
qed

end
