(* ===== verification/BareIrqLogic.thy ===== *)
theory BareIrqLogic
  imports BareTime
begin

text \<open>
  Rules for programs to which time passes: what a statement does to the interrupt state of the hart, and what is known of that state
  at the next statement, when time has passed and interrupts may have been taken.
\<close>

section \<open>A clock that advances in time\<close>

text \<open>
  The clock never goes back and advances at least once in 500 moments, up to the horizon \<open>N\<close> of the program; it stays in the lower half of its
  range.
\<close>

definition timely :: "(nat \<Rightarrow> nat) \<Rightarrow> nat \<Rightarrow> bool" where
  "timely clock N \<longleftrightarrow> (\<forall>n<N. clock n \<le> clock (Suc n)) \<and> (\<forall>n. n + 500 \<le> N \<longrightarrow> clock n < clock (n + 500)) \<and> clock N < 2 ^ 63"

lemma timely_mono:
  assumes "timely clock N" "m \<le> n" "n \<le> N"
  shows "clock m \<le> clock n"
  using assms(2,3)
proof (induction n rule: dec_induct)
  case (step n)
  have "clock n \<le> clock (Suc n)" using assms(1) step.prems by (simp add: timely_def)
  then show ?case using step.IH step.prems by linarith
qed simp

lemma timely_bound: "timely clock N \<Longrightarrow> n \<le> N \<Longrightarrow> clock n < 2 ^ 63"
  using timely_mono [of clock N n N] by (simp add: timely_def)

lemma timely_reach: "timely clock N \<Longrightarrow> m + 500 * k \<le> N \<Longrightarrow> clock m + k \<le> clock (m + 500 * k)"
proof (induction k)
  case (Suc k)
  have "clock (m + 500 * k) < clock (m + 500 * k + 500)" using Suc.prems by (simp add: timely_def)
  moreover have "m + 500 * k \<le> N" using Suc.prems(2) by simp
  with Suc have "clock m + k \<le> clock (m + 500 * k)" by simp
  moreover have e: "m + 500 * Suc k = m + 500 * k + 500" by simp
  ultimately show ?case unfolding e by linarith
qed simp

lemma clock_le: "m < 2 ^ 64 \<Longrightarrow> n < 2 ^ 64 \<Longrightarrow> (of_nat m :: u64) \<le> of_nat n \<longleftrightarrow> m \<le> n"
  by (simp add: word_le_nat_alt unat_of_nat)

section \<open>Statements\<close>

text \<open>
  \<open>at_irq R P a b\<close>: the hart takes interrupts, \<open>R\<close> holds of the state and \<open>P\<close> of the interrupt state, and between \<open>a\<close> and \<open>b\<close>
  moments have passed, the last of which has set the clock.
\<close>

definition at_irq :: "(nat \<Rightarrow> nat) \<Rightarrow> ('z timed_machine_scheme \<Rightarrow> bool) \<Rightarrow> (irq_ctl \<Rightarrow> bool) \<Rightarrow> nat \<Rightarrow> nat \<Rightarrow>
    'z timed_machine_scheme \<Rightarrow> bool" where
  "at_irq clock R P a b s \<longleftrightarrow> irq_ok s \<and> R s \<and> P (irq_ctl s) \<and> a \<le> moment s \<and> moment s \<le> b \<and>
     (0 < moment s \<longrightarrow> clint64 s CLINT_MTIME = of_nat (clock (moment s - 1)))"

definition undisturbed :: "('z timed_machine_scheme \<Rightarrow> bool) \<Rightarrow> bool" where
  "undisturbed R \<longleftrightarrow> quiet R \<and> (\<forall>s s'. R s \<longrightarrow> background s s' \<longrightarrow> R s')"

lemma undisturbedD: "undisturbed R \<Longrightarrow> R s \<Longrightarrow> background s s' \<Longrightarrow> R s'"
  by (simp add: undisturbed_def)

text \<open>A statement that returns and changes the interrupt state as \<open>g\<close> says.\<close>

definition acts :: "('z timed_machine_scheme \<Rightarrow> bool) \<Rightarrow> (irq_ctl \<Rightarrow> bool) \<Rightarrow> ('z timed_machine_scheme \<Rightarrow> 'z timed_machine_scheme run) \<Rightarrow>
    (irq_ctl \<Rightarrow> irq_ctl) \<Rightarrow> ('z timed_machine_scheme \<Rightarrow> bool) \<Rightarrow> bool" where
  "acts R P f g R' \<longleftrightarrow> (\<forall>s. dev_ok (dev s) \<longrightarrow> irq_ok s \<longrightarrow> R s \<longrightarrow> P (irq_ctl s) \<longrightarrow>
     (\<exists>s'. f s = Ret s' \<and> dev_ok (dev s') \<and> irq_ok s' \<and> R' s' \<and> irq_ctl s' = g (irq_ctl s)))"

lemma actsI:
  "(\<And>s. dev_ok (dev s) \<Longrightarrow> irq_ok s \<Longrightarrow> R s \<Longrightarrow> P (irq_ctl s) \<Longrightarrow>
     \<exists>s'. f s = Ret s' \<and> dev_ok (dev s') \<and> irq_ok s' \<and> R' s' \<and> irq_ctl s' = g (irq_ctl s)) \<Longrightarrow> acts R P f g R'"
  by (simp add: acts_def)

lemma acts_background:
  assumes "undisturbed R" "\<And>s. irq_ok s \<Longrightarrow> \<exists>s'. f s = Ret s' \<and> background s s' \<and> irq_ok s' \<and> irq_ctl s' = g (irq_ctl s)"
  shows "acts R P f g R"
proof (rule actsI)
  fix s assume s: "dev_ok (dev s)" "irq_ok s" "R s"
  from assms(2) [OF s(2)] obtain s' where s': "f s = Ret s'" "background s s'" "irq_ok s'" "irq_ctl s' = g (irq_ctl s)" by blast
  then have "dev s' = dev s" by (simp add: background_def)
  with s' s undisturbedD [OF assms(1) s(3) s'(2)]
  show "\<exists>s'. f s = Ret s' \<and> dev_ok (dev s') \<and> irq_ok s' \<and> R s' \<and> irq_ctl s' = g (irq_ctl s)" by auto
qed

lemma acts_exec:
  assumes "undisturbed R" "\<And>s. irq_ok s \<Longrightarrow> background s (f s) \<and> irq_ok (f s) \<and> irq_ctl (f s) = g (irq_ctl s)"
  shows "acts R P (exec f) g R"
  by (rule acts_background [OF assms(1)]) (simp add: assms(2))

text \<open>Output and checks leave it alone.\<close>

lemma say_ctl [simp]: "irq_ok (s\<lparr>dev := d\<rparr>) = irq_ok s" "irq_ctl (s\<lparr>dev := d\<rparr>) = irq_ctl s"
  by (simp_all add: irq_ok_def irq_ctl_def)

lemma acts_say:
  assumes "undisturbed R" "\<And>s. dev_ok (dev s) \<Longrightarrow> \<exists>cs. f s = Ret (say cs s)"
  shows "acts R P f (\<lambda>I. I) R"
proof (rule actsI)
  fix s assume s: "dev_ok (dev s)" "irq_ok s" "R s"
  from assms(2) [OF s(1)] obtain cs where "f s = Ret (say cs s)" by blast
  then show "\<exists>s'. f s = Ret s' \<and> dev_ok (dev s') \<and> irq_ok s' \<and> R s' \<and> irq_ctl s' = irq_ctl s"
    using s assms(1) by (simp add: undisturbed_def quiet_def)
qed

lemma acts_log: "undisturbed R \<Longrightarrow> acts R P (TEST_LOG msg) (\<lambda>I. I) R"
  by (rule acts_say [OF _ log_say])

lemma acts_banner: "undisturbed R \<Longrightarrow> acts R P (banner title) (\<lambda>I. I) R"
  by (rule acts_say [OF _ banner_say])

lemma acts_puts: "undisturbed R \<Longrightarrow> acts R P (uart_puts cs) (\<lambda>I. I) R"
  by (rule acts_say) (auto simp del: uart_puts.simps)

lemma acts_skip: "acts R P skip (\<lambda>I. I) R"
  by (simp add: acts_def)

lemma acts_assert: "(\<And>s. P (irq_ctl s) \<Longrightarrow> c s) \<Longrightarrow> acts R P (\<lambda>s. test_assert (c s) msg code s) (\<lambda>I. I) R"
  by (rule actsI) (simp add: test_assert_def)

lemma acts_assert_eq: "(\<And>s. P (irq_ctl s) \<Longrightarrow> a s = w) \<Longrightarrow> acts R P (\<lambda>s. ASSERT_EQ (a s) w msg code s) (\<lambda>I. I) R"
  by (rule actsI) (simp add: ASSERT_EQ_def)

text \<open>The interrupt controls.\<close>

lemma sie_bits:
  "bit SSTATUS_MASK 1" "bit SSTATUS_MASK 18" "bit SSTATUS_MASK 19" "bit MIDELEG_DEFAULT 1" "bit MIDELEG_DEFAULT 5" "\<not> bit MIDELEG_DEFAULT 7"
  "\<not> bit MIDELEG_DEFAULT 3"
  by (simp_all add: SSTATUS_MASK_def MIDELEG_DEFAULT_def)

lemmas sie_code = write_sie_def read_sie_def csrs_sie_def write_sstatus_def read_sstatus_def SIP_SSIP_def SIP_STIP_def
  irq_ok_def background_def irq_ctl_def

lemma acts_enable:
  assumes "undisturbed R"
  shows "acts R P (exec enable_s_timer_irq) (\<lambda>I. I\<lparr>i_stie := True\<rparr>) R"
    "acts R P (exec enable_s_soft_irq) (\<lambda>I. I\<lparr>i_ssie := True\<rparr>) R"
    "acts R P (exec enable_s_interrupts) (\<lambda>I. I\<lparr>i_sie := True\<rparr>) R"
    "acts R P (exec disable_s_interrupts) (\<lambda>I. I\<lparr>i_sie := False\<rparr>) R"
    "acts R P (exec (write_sie SIP_SSIP)) (\<lambda>I. I\<lparr>i_stie := False, i_ssie := True\<rparr>) R"
  by (rule acts_exec [OF assms],
    simp add: enable_s_timer_irq_def enable_s_soft_irq_def enable_s_interrupts_def disable_s_interrupts_def sie_code sie_bits
      sie_bits [unfolded One_nat_def] bit_simps flag_bits)+

lemma acts_trap:
  fixes R :: "'z timed_machine_scheme \<Rightarrow> bool"
  assumes "undisturbed R" "\<And>t. handler_action (f t) = handler_action t"
    "\<And>s :: 'z timed_machine_scheme. irq_ctl (upd_trap f s) = g (irq_ctl s)"
  shows "acts R P (exec (upd_trap f)) g R"
  by (rule acts_exec [OF assms(1)]) (use assms(2,3) in \<open>simp add: upd_trap_def irq_ok_def background_def\<close>)

lemma acts_counters:
  assumes "undisturbed R"
  shows "acts R P (exec (upd_trap (\<lambda>t. t\<lparr>fault_count := 0\<rparr>))) (\<lambda>I. I\<lparr>i_faults := 0\<rparr>) R"
    "acts R P (exec (upd_trap (\<lambda>t. t\<lparr>irq_count := 0\<rparr>))) (\<lambda>I. I) R"
    "acts R P (exec (upd_trap (\<lambda>t. t\<lparr>timer_irq_count := 0\<rparr>))) (\<lambda>I. I\<lparr>i_timer := 0\<rparr>) R"
    "acts R P (exec (upd_trap (\<lambda>t. t\<lparr>soft_irq_count := 0\<rparr>))) (\<lambda>I. I\<lparr>i_soft := 0\<rparr>) R"
  by (rule acts_trap [OF assms]; simp add: upd_trap_def irq_ctl_def)+

text \<open>The SBI calls.\<close>

lemma acts_set_timer:
  assumes "undisturbed R"
  shows "acts R P (sbi_set_timer v) (\<lambda>I. I\<lparr>i_cmp := v, i_stip := False, i_mtie := True\<rparr>) R"
proof (rule acts_background [OF assms])
  fix s :: "'a timed_machine_scheme" assume ok: "irq_ok s"
  let ?t = "set_reg 17 SBI_SET_TIMER (set_reg 10 v s)"
  have t: "prv (cpu ?t) = S_mode" "gpr (cpu ?t) 17 = SBI_SET_TIMER" using ok by (simp_all add: irq_ok_def)
  have m: "a \<notin> trap_words s \<Longrightarrow> m_saved_mem ?t a = mem s a" for a
    using m_saved_mem_other [of a ?t] by (simp add: trap_words_def m_frame_def set_reg_def)
  show "\<exists>s'. sbi_set_timer v s = Ret s' \<and> background s s' \<and> irq_ok s' \<and>
      irq_ctl s' = (irq_ctl s)\<lparr>i_cmp := v, i_stip := False, i_mtie := True\<rparr>"
    using ok m by (simp add: sbi_set_timer_def ecall_set_timer [OF t])
      (simp add: set_reg_def on_cpu_def m_visited_def irq_ok_def background_def irq_ctl_def bit_simps flag_bits)
qed

lemma acts_send_ipi:
  assumes "undisturbed R"
  shows "acts R P (sbi_send_ipi 0) (\<lambda>I. I\<lparr>i_ipi := True\<rparr>) R"
proof (rule acts_background [OF assms])
  fix s :: "'a timed_machine_scheme" assume ok: "irq_ok s"
  let ?t = "set_reg 17 SBI_SEND_IPI (set_reg 10 0 s)"
  have t: "prv (cpu ?t) = S_mode" "gpr (cpu ?t) 17 = SBI_SEND_IPI" using ok by (simp_all add: irq_ok_def)
  have m: "a \<notin> trap_words s \<Longrightarrow> m_saved_mem ?t a = mem s a" for a
    using m_saved_mem_other [of a ?t] by (simp add: trap_words_def m_frame_def set_reg_def)
  show "\<exists>s'. sbi_send_ipi 0 s = Ret s' \<and> background s s' \<and> irq_ok s' \<and> irq_ctl s' = (irq_ctl s)\<lparr>i_ipi := True\<rparr>"
    using ok m by (simp add: sbi_send_ipi_def ecall_send_ipi [OF t])
      (simp add: set_reg_def on_cpu_def m_visited_def irq_ok_def background_def irq_ctl_def NUM_HARTS_def)
qed

section \<open>Statements with time passing after them\<close>

lemma ensures_pass:
  assumes t: "timely clock N" "b \<le> N" and R: "undisturbed R"
    and Q: "\<And>I. P I \<Longrightarrow> a \<le> i_moment I \<Longrightarrow> i_moment I \<le> b \<Longrightarrow> clock (i_moment I) < 2 ^ 63 \<Longrightarrow> Q (i_pass clock I)"
  shows "ensures (at_irq clock R P a b) (pass clock) (at_irq clock R Q (Suc a) (Suc b))"
proof (rule ensuresI)
  fix s :: "'a timed_machine_scheme" assume d: "dev_ok (dev s)" and at: "at_irq clock R P a b s"
  have c: "clock (moment s) < 2 ^ 63" by (rule timely_bound [OF t(1)]) (use at t(2) in \<open>simp add: at_irq_def\<close>)
  have ok: "irq_ok s" using at by (simp add: at_irq_def)
  from pass_ctl [OF ok, of clock] c obtain s' where s': "pass clock s = Ret s'" "irq_ok s'" "background s s'" "irq_ctl s' = i_pass clock (irq_ctl s)"
    by (auto dest: unnoticed_background)
  have "R s'" using undisturbedD [OF R _ s'(3)] at by (simp add: at_irq_def)
  moreover have "Q (irq_ctl s')" unfolding s'(4) by (rule Q) (use at c in \<open>simp_all add: at_irq_def\<close>)
  moreover have "moment s' = Suc (moment s)" "clint64 s' CLINT_MTIME = of_nat (clock (moment s))"
    using arg_cong [OF s'(4), of i_moment] arg_cong [OF s'(4), of i_now] by simp_all
  moreover have "dev s' = dev s" using s'(3) by (simp add: background_def)
  ultimately show "\<exists>s'. pass clock s = Ret s' \<and> dev_ok (dev s') \<and> at_irq clock R Q (Suc a) (Suc b) s'"
    using s'(1,2) d at by (simp add: at_irq_def)
qed

lemma ensures_act:
  assumes "acts R P f g R'" "\<And>I. i_now (g I) = i_now I \<and> i_moment (g I) = i_moment I" "\<And>I. P I \<Longrightarrow> Q (g I)"
  shows "ensures (at_irq clock R P a b) f (at_irq clock R' Q a b)"
proof (rule ensuresI)
  fix s :: "'a timed_machine_scheme" assume d: "dev_ok (dev s)" and at: "at_irq clock R P a b s"
  from assms(1) d at obtain s' where s': "f s = Ret s'" "dev_ok (dev s')" "irq_ok s'" "R' s'" "irq_ctl s' = g (irq_ctl s)"
    unfolding acts_def at_irq_def by blast
  have "moment s' = moment s" "clint64 s' CLINT_MTIME = clint64 s CLINT_MTIME"
    using arg_cong [OF s'(5), of i_moment] arg_cong [OF s'(5), of i_now] assms(2) by simp_all
  with s' at assms(3) show "\<exists>s'. f s = Ret s' \<and> dev_ok (dev s') \<and> at_irq clock R' Q a b s'" by (simp add: at_irq_def)
qed

lemma ensures_live_Nil: "ensures P (live clock []) P"
  by (simp add: live_def ensures_Nil)

lemma ensures_live:
  assumes "ensures P f Q" "ensures Q (pass clock) Q'" "ensures Q' (live clock fs) S"
  shows "ensures P (live clock (f # fs)) S"
  unfolding live_def list.map
  by (rule ensures_Cons [OF ensures_Cons [OF assms(1) ensures_one [OF assms(2)]] assms(3) [unfolded live_def]])

lemma ensures_live_act:
  assumes t: "timely clock N" "b \<le> N" and R: "undisturbed R'" and f: "acts R P f g R'"
    and g: "\<And>I. i_now (g I) = i_now I \<and> i_moment (g I) = i_moment I"
    and Q: "\<And>I. P I \<Longrightarrow> a \<le> i_moment I \<Longrightarrow> i_moment I \<le> b \<Longrightarrow> clock (i_moment I) < 2 ^ 63 \<Longrightarrow> Q (i_pass clock (g I))"
    and fs: "ensures (at_irq clock R' Q (Suc a) (Suc b)) (live clock fs) S"
  shows "ensures (at_irq clock R P a b) (live clock (f # fs)) S"
proof (rule ensures_live [OF _ _ fs])
  let ?P = "\<lambda>J. \<exists>I. P I \<and> a \<le> i_moment I \<and> i_moment I \<le> b \<and> J = g I"
  have "acts R (\<lambda>I. P I \<and> a \<le> i_moment I \<and> i_moment I \<le> b) f g R'" using f unfolding acts_def by simp
  from ensures_act [OF this g, of ?P clock a b] have "ensures (at_irq clock R (\<lambda>I. P I \<and> a \<le> i_moment I \<and> i_moment I \<le> b) a b) f (at_irq clock R' ?P a b)"
    by blast
  then show "ensures (at_irq clock R P a b) f (at_irq clock R' ?P a b)"
    by (rule ensures_pre [rotated]) (simp add: at_irq_def)
  show "ensures (at_irq clock R' ?P a b) (pass clock) (at_irq clock R' Q (Suc a) (Suc b))"
    by (rule ensures_pass [OF t R]) (use Q g in auto)
qed

lemma at_irq_mono:
  "at_irq clock R P a b s \<Longrightarrow> (\<And>I. P I \<Longrightarrow> Q I) \<Longrightarrow> a' \<le> a \<Longrightarrow> b \<le> b' \<Longrightarrow> at_irq clock R Q a' b' s"
  by (auto simp: at_irq_def)

lemma ensures_delay:
  assumes t: "timely clock N" and R: "undisturbed R"
    and P: "\<And>I. P I \<Longrightarrow> i_moment I \<le> N \<Longrightarrow> clock (i_moment I) < 2 ^ 63 \<Longrightarrow> P (i_pass clock I)"
  shows "b + n \<le> N \<Longrightarrow> ensures (at_irq clock R P a b) (delay clock n) (at_irq clock R P (a + n) (b + n))"
proof (induction n arbitrary: a b)
  case 0
  show ?case by (simp add: ensures_def)
next
  case (Suc n)
  have "ensures (at_irq clock R P a b) (pass clock) (at_irq clock R P (Suc a) (Suc b))"
    by (rule ensures_pass [OF t _ R]) (use Suc.prems P in auto)
  moreover have "ensures (at_irq clock R P (Suc a) (Suc b)) (delay clock n) (at_irq clock R P (a + Suc n) (b + Suc n))"
    using Suc.IH [of "Suc b" "Suc a"] Suc.prems by simp
  ultimately show ?case unfolding delay.simps by (rule ensures_Cons [OF _ ensures_one])
qed

text \<open>A read of the clock shows the time at the last moment.\<close>

lemma ensures_reading_mtime:
  assumes t: "timely clock N" "b \<le> N" "1 \<le> a" and R: "undisturbed R"
    and Q: "\<And>I. P I \<Longrightarrow> clock (i_moment I) < 2 ^ 63 \<Longrightarrow> Q (i_pass clock I)"
    and k: "\<And>m. a \<le> Suc m \<Longrightarrow> m < b \<Longrightarrow> ensures (at_irq clock R Q (m + 2) (m + 2)) (k (of_nat (clock m))) S"
  shows "ensures (at_irq clock R P a b) (reading clock read_mtime k) S"
proof (rule ensuresI)
  fix s :: "'a timed_machine_scheme" assume d: "dev_ok (dev s)" and at: "at_irq clock R P a b s"
  then obtain m where m: "moment s = Suc m" "a \<le> Suc m" "m < b" using t(3) by (cases "moment s") (auto simp: at_irq_def)
  then have now: "read_mtime s = of_nat (clock m)" using at by (simp add: at_irq_def read_mtime_def)
  have "at_irq clock R P (Suc m) (Suc m) s" using at m by (simp add: at_irq_def)
  moreover have "ensures (at_irq clock R P (Suc m) (Suc m)) (pass clock) (at_irq clock R Q (m + 2) (m + 2))"
    using ensures_pass [OF t(1) _ R, of "Suc m" P "Suc m" Q] Q m(3) t(2) by simp
  ultimately show "\<exists>s'. reading clock read_mtime k s = Ret s' \<and> dev_ok (dev s') \<and> S s'"
    using ensuresD [OF ensures_Cons [OF _ ensures_one [OF k [OF m(2,3)]]] d] by (simp add: reading_def now)
qed

text \<open>Another variable that is read.\<close>

lemma ensures_reading:
  assumes "timely clock N" "b \<le> N" "undisturbed R" "\<And>I. P I \<Longrightarrow> clock (i_moment I) < 2 ^ 63 \<Longrightarrow> Q (i_pass clock I)"
    and k: "\<And>s. at_irq clock R P a b s \<Longrightarrow> ensures (at_irq clock R Q (Suc a) (Suc b)) (k (f s)) S"
  shows "ensures (at_irq clock R P a b) (reading clock f k) S"
proof (rule ensuresI)
  fix s :: "'a timed_machine_scheme" assume d: "dev_ok (dev s)" and at: "at_irq clock R P a b s"
  have "ensures (at_irq clock R P a b) (pass clock) (at_irq clock R Q (Suc a) (Suc b))"
    by (rule ensures_pass [OF assms(1-3)]) (use assms(4) in blast)
  from ensuresD [OF ensures_Cons [OF this ensures_one [OF k [OF at]]] d at]
  show "\<exists>s'. reading clock f k s = Ret s' \<and> dev_ok (dev s') \<and> S s'" by (simp add: reading_def)
qed

section \<open>Where the timer stands\<close>

text \<open>No time of the horizon reaches the comparator; nothing is pending.\<close>

definition idle :: "irq_ctl \<Rightarrow> bool" where
  "idle I \<longleftrightarrow> \<not> i_ipi I \<and> \<not> i_ssip I \<and> \<not> i_stip I \<and> 0x8000000000000000 \<le> i_cmp I"

lemma far_not_due: "0x8000000000000000 \<le> (x :: u64) \<Longrightarrow> c < 2 ^ 63 \<Longrightarrow> \<not> x \<le> of_nat c"
  by (simp add: word_le_nat_alt unat_of_nat)

lemma i_tick_fields [simp]:
  "i_cmp (i_tick clock I) = i_cmp I" "i_mtie (i_tick clock I) = i_mtie I" "i_ipi (i_tick clock I) = i_ipi I"
  "i_stip (i_tick clock I) = i_stip I" "i_ssip (i_tick clock I) = i_ssip I" "i_sie (i_tick clock I) = i_sie I"
  "i_stie (i_tick clock I) = i_stie I" "i_ssie (i_tick clock I) = i_ssie I" "i_timer (i_tick clock I) = i_timer I"
  "i_soft (i_tick clock I) = i_soft I" "i_faults (i_tick clock I) = i_faults I" "i_last (i_tick clock I) = i_last I"
  "i_moment (i_tick clock I) = Suc (i_moment I)" "i_now (i_tick clock I) = of_nat (clock (i_moment I))"
  by (simp_all add: i_tick_def)

lemma idle_pass: "idle I \<Longrightarrow> clock (i_moment I) < 2 ^ 63 \<Longrightarrow> i_pass clock I = i_tick clock I"
  using far_not_due [of "i_cmp I" "clock (i_moment I)"]
  by (simp add: idle_def i_pass_def i_m_soft_def i_m_timer_def i_s_soft_def i_s_timer_def)

lemma idle_tick [simp]: "idle (i_tick clock I) = idle I"
  by (simp add: idle_def)

text \<open>
  The timer has been set, with a deadline by which the clock reaches the comparator: it has not expired yet and \<open>A\<close> holds, or its
  interrupt has been delivered, once, and \<open>B\<close> holds.
\<close>

definition pend :: "(nat \<Rightarrow> nat) \<Rightarrow> nat \<Rightarrow> (irq_ctl \<Rightarrow> bool) \<Rightarrow> (irq_ctl \<Rightarrow> bool) \<Rightarrow> irq_ctl \<Rightarrow> bool" where
  "pend clock D A B I \<longleftrightarrow> i_sie I \<and> i_stie I \<and>
     (\<not> i_ipi I \<and> \<not> i_ssip I \<and> \<not> i_stip I \<and> i_mtie I \<and> i_cmp I \<le> of_nat (clock D) \<and> i_moment I \<le> D \<and> A I \<or> idle I \<and> B I)"

definition fired :: "(nat \<Rightarrow> nat) \<Rightarrow> irq_ctl \<Rightarrow> irq_ctl" where
  "fired clock I = (i_tick clock I)\<lparr>i_stip := False, i_cmp := - 1, i_mtie := True, i_timer := inc32 (i_timer I),
     i_faults := inc32 (i_faults I), i_last := push_bit 63 1 OR IRQ_S_TIMER\<rparr>"

lemma armed_pass:
  assumes "i_sie I" "i_stie I" "\<not> i_ipi I" "\<not> i_ssip I" "\<not> i_stip I" "i_mtie I"
  shows "i_pass clock I = (if i_cmp I \<le> of_nat (clock (i_moment I)) then fired clock I else i_tick clock I)"
  using assms by (simp add: i_pass_def i_m_soft_def i_m_timer_def i_s_soft_def i_s_timer_def fired_def)

lemma due_by:
  assumes "timely clock N" "i_cmp I \<le> of_nat (clock D)" "D \<le> i_moment I" "i_moment I \<le> N"
  shows "i_cmp I \<le> of_nat (clock (i_moment I))"
proof -
  have "clock D \<le> clock (i_moment I)" "clock (i_moment I) < 2 ^ 63" using timely_mono timely_bound assms by blast+
  then have "(of_nat (clock D) :: u64) \<le> of_nat (clock (i_moment I))" by (subst clock_le) simp_all
  with assms(2) show ?thesis by (rule order.trans)
qed

lemma pend_pass:
  assumes "timely clock N" "i_moment I \<le> N" "pend clock D A B I"
    and A: "A I \<Longrightarrow> A (i_tick clock I)" and B: "B I \<Longrightarrow> B (i_tick clock I)" and AB: "A I \<Longrightarrow> B (fired clock I)"
  shows "pend clock D A B (i_pass clock I)"
proof (cases "idle I \<and> B I")
  case True
  with timely_bound [OF assms(1,2)] B assms(3) show ?thesis by (simp add: idle_pass) (simp add: pend_def)
next
  case False
  with assms(3) have I: "i_sie I" "i_stie I" "\<not> i_ipi I" "\<not> i_ssip I" "\<not> i_stip I" "i_mtie I" "i_cmp I \<le> of_nat (clock D)" "i_moment I \<le> D" "A I"
    by (auto simp: pend_def)
  note p = armed_pass [OF I(1-6), of clock]
  show ?thesis
  proof (cases "i_cmp I \<le> of_nat (clock (i_moment I))")
    case True
    have "idle (fired clock I)" using I by (simp add: idle_def fired_def)
    with p True AB I show ?thesis by (simp add: pend_def) (simp add: fired_def)
  next
    case False
    with due_by [OF assms(1) I(7) _ assms(2)] have "i_moment I < D" by (cases "D \<le> i_moment I") auto
    with p False A I show ?thesis by (simp add: pend_def)
  qed
qed

text \<open>The loop that waits for the timer ends before its limit.\<close>

lemma ensures_await:
  assumes t: "timely clock N" and R: "undisturbed R"
    and AB: "\<And>I. A I \<Longrightarrow> A (i_tick clock I)" "\<And>I. B I \<Longrightarrow> B (i_tick clock I)" "\<And>I. A I \<Longrightarrow> B (fired clock I)"
    and w: "\<And>s. A (irq_ctl s) \<Longrightarrow> waiting s" "\<And>s. B (irq_ctl s) \<Longrightarrow> \<not> waiting s"
    and k: "\<And>i. 0 < i \<Longrightarrow> ensures (at_irq clock R (\<lambda>I. i_sie I \<and> i_stie I \<and> idle I \<and> B I) a0 c) (k i) S"
  shows "0 < n \<Longrightarrow> D + 1 < a + n \<Longrightarrow> a0 \<le> a \<Longrightarrow> b + n \<le> c \<Longrightarrow> c \<le> N \<Longrightarrow>
    ensures (at_irq clock R (pend clock D A B) a b) (await clock waiting n k) S"
proof (induction n arbitrary: a b)
  case (Suc n)
  let ?done = "at_irq clock R (\<lambda>I. i_sie I \<and> i_stie I \<and> idle I \<and> B I) a0 c"
  show ?case
  proof (rule ensuresI)
    fix s :: "'a timed_machine_scheme" assume d: "dev_ok (dev s)" and at: "at_irq clock R (pend clock D A B) a b s"
    show "\<exists>s'. await clock waiting (Suc n) k s = Ret s' \<and> dev_ok (dev s') \<and> S s'"
    proof (cases "idle (irq_ctl s) \<and> B (irq_ctl s)")
      case True
      with at Suc.prems have "?done s" by (simp add: at_irq_def pend_def)
      with ensuresD [OF k d this, of "int (Suc n)"] w(2) True show ?thesis by simp
    next
      case False
      with at have A: "A (irq_ctl s)" "moment s \<le> D" by (auto simp: at_irq_def pend_def)
      with at Suc.prems have n: "0 < n" by (simp add: at_irq_def)
      have p: "ensures (at_irq clock R (pend clock D A B) a b) (pass clock) (at_irq clock R (pend clock D A B) (Suc a) (Suc b))"
        by (rule ensures_pass [OF t _ R], use Suc.prems in simp, rule pend_pass [OF t]) (use Suc.prems AB in auto)
      have "ensures (at_irq clock R (pend clock D A B) (Suc a) (Suc b)) (await clock waiting n k) S"
        by (rule Suc.IH [OF n]) (use Suc.prems in simp_all)
      from ensuresD [OF ensures_Cons [OF p ensures_one [OF this]] d at] w(1) [OF A(1)] n show ?thesis by simp
    qed
  qed
qed simp

text \<open>The timer has been set and its interrupt, forwarded or not, is not enabled in S-mode.\<close>

definition masked :: "(nat \<Rightarrow> nat) \<Rightarrow> nat \<Rightarrow> irq_ctl \<Rightarrow> bool" where
  "masked clock D I \<longleftrightarrow> \<not> i_ipi I \<and> \<not> i_ssip I \<and> \<not> (i_sie I \<and> i_stie I) \<and>
     (\<not> i_stip I \<and> i_mtie I \<and> i_cmp I \<le> of_nat (clock D) \<and> i_moment I \<le> D \<or> i_stip I \<and> 0x8000000000000000 \<le> i_cmp I)"

text \<open>The fields that only deliveries to S-mode and the program change.\<close>

definition same_log :: "irq_ctl \<Rightarrow> irq_ctl \<Rightarrow> bool" where
  "same_log I J \<longleftrightarrow> i_sie J = i_sie I \<and> i_stie J = i_stie I \<and> i_ssie J = i_ssie I \<and> i_timer J = i_timer I \<and> i_soft J = i_soft I \<and>
     i_faults J = i_faults I \<and> i_last J = i_last I"

lemma masked_pass:
  assumes t: "timely clock N" "i_moment I \<le> N" and m: "masked clock D I"
  shows "masked clock D (i_pass clock I)" "same_log I (i_pass clock I)"
proof -
  let ?due = "(i_tick clock I)\<lparr>i_cmp := - 1, i_mtie := False, i_stip := True\<rparr>"
  have "masked clock D (i_pass clock I) \<and> same_log I (i_pass clock I)"
  proof (cases "i_mtie I \<and> i_cmp I \<le> of_nat (clock (i_moment I))")
    case True
    with m have "i_pass clock I = ?due"
      by (auto simp: masked_def i_pass_def i_m_soft_def i_m_timer_def i_s_soft_def i_s_timer_def)
    with m show ?thesis by (simp add: masked_def same_log_def)
  next
    case False
    with m have e: "i_pass clock I = i_tick clock I"
      by (auto simp: masked_def i_pass_def i_m_soft_def i_m_timer_def i_s_soft_def i_s_timer_def)
    have "i_moment I < D" if "\<not> i_stip I"
      using False m that due_by [OF t(1) _ _ t(2), of D] by (cases "D \<le> i_moment I") (auto simp: masked_def)
    with m show ?thesis by (auto simp: e masked_def same_log_def)
  qed
  then show "masked clock D (i_pass clock I)" "same_log I (i_pass clock I)" by simp_all
qed

lemma masked_late: "masked clock D I \<Longrightarrow> D < i_moment I \<Longrightarrow> i_stip I"
  by (auto simp: masked_def)

text \<open>When the interrupt is enabled at last, it is delivered once.\<close>

lemma late_delivery:
  assumes "i_sie I" "i_stie I" "i_stip I" "\<not> i_ipi I" "\<not> i_ssip I" "0x8000000000000000 \<le> i_cmp I" "clock (i_moment I) < 2 ^ 63"
  shows "idle (i_pass clock I)" "i_timer (i_pass clock I) = inc32 (i_timer I)" "i_sie (i_pass clock I)" "i_stie (i_pass clock I)"
proof -
  have "i_pass clock I = (i_tick clock I)\<lparr>i_stip := False, i_cmp := - 1, i_mtie := True, i_timer := inc32 (i_timer I),
      i_faults := inc32 (i_faults I), i_last := push_bit 63 1 OR IRQ_S_TIMER\<rparr>"
    using assms far_not_due [OF assms(6,7)] by (simp add: i_pass_def i_m_soft_def i_m_timer_def i_s_soft_def i_s_timer_def)
  with assms show "idle (i_pass clock I)" "i_timer (i_pass clock I) = inc32 (i_timer I)" "i_sie (i_pass clock I)" "i_stie (i_pass clock I)"
    by (auto simp: idle_def)
qed

section \<open>\<open>wfi\<close>\<close>

lemma mideleg_bits: "bit MIDELEG_DEFAULT n \<longleftrightarrow> n \<in> {1, 5, 9}"
proof -
  have e: "MIDELEG_DEFAULT = MIP_SSIP OR MIP_STIP OR MIP_SEIP"
    by (simp add: MIDELEG_DEFAULT_def platform_consts push_bit_eq_mult)
  show ?thesis unfolding e by (auto simp: bit_or_iff flag_bits)
qed

lemma wakes_iff:
  assumes "irq_ok s"
  defines "I \<equiv> irq_ctl s"
  shows "mip_view s AND csr_mie (cpu s) \<noteq> 0 \<longleftrightarrow>
    i_ipi I \<or> i_mtie I \<and> i_cmp I \<le> i_now I \<or> i_ssip I \<and> i_ssie I \<or> i_stip I \<and> i_stie I"
proof -
  have "bit w n \<Longrightarrow> n < 64" for w :: u64 and n using bit_imp_le_length [of w n] by simp
  then have "mip_view s AND csr_mie (cpu s) \<noteq> 0 \<longleftrightarrow> (\<exists>n. bit (mip_view s) n \<and> bit (csr_mie (cpu s)) n)"
    by (simp add: bit_eq_iff bit_and_iff) blast
  moreover have "bit (mip_view s) n \<longleftrightarrow> n \<in> {1, 5, 9} \<and> bit (csr_mip (cpu s)) n \<or> n = 7 \<and> mtip s \<or> n = 3 \<and> msip s" for n
    by (auto simp: mip_view_def bit_or_iff bit_and_iff mideleg_bits flag_bits)
  ultimately show ?thesis using assms mtip_ctl [OF assms(1)] msip_ctl [OF assms(1)] by (auto simp: irq_ok_def)
qed

text \<open>
  A hart that sleeps with a timer set wakes up when the clock has reached the comparator; it wakes up at once when the interrupt is
  already pending.
\<close>

definition roused :: "(nat \<Rightarrow> nat) \<Rightarrow> irq_ctl \<Rightarrow> bool" where
  "roused clock I \<longleftrightarrow> \<not> i_ipi I \<and> \<not> i_ssip I \<and> \<not> i_sie I \<and>
     (\<not> i_stip I \<and> i_mtie I \<and> 0 < i_moment I \<and> i_cmp I \<le> of_nat (clock (i_moment I - 1)) \<or> i_stip I \<and> 0x8000000000000000 \<le> i_cmp I)"

definition asleep :: "(nat \<Rightarrow> nat) \<Rightarrow> nat \<Rightarrow> irq_ctl \<Rightarrow> bool" where
  "asleep clock D I \<longleftrightarrow> \<not> i_ipi I \<and> \<not> i_ssip I \<and> \<not> i_sie I \<and> \<not> i_stip I \<and> i_mtie I \<and> i_cmp I \<le> of_nat (clock D) \<and>
     0 < i_moment I \<and> i_moment I \<le> Suc D \<and> i_now I = of_nat (clock (i_moment I - 1))"

lemma asleep_tick: "asleep clock D I \<Longrightarrow> \<not> i_cmp I \<le> i_now I \<Longrightarrow> asleep clock D (i_tick clock I) \<and> i_moment I \<le> D"
  by (cases "i_moment I") (auto simp: asleep_def le_Suc_eq)

lemma asleep_wakes:
  assumes R: "undisturbed R" and s: "irq_ok s" "R s" "asleep clock D (irq_ctl s)"
  shows "\<exists>s'. wfi_wakes clock s = Some s' \<and> dev s' = dev s \<and> irq_ok s' \<and> R s' \<and> roused clock (irq_ctl s') \<and> same_log (irq_ctl s) (irq_ctl s') \<and>
    moment s \<le> moment s' \<and> moment s' \<le> Suc D \<and> 0 < moment s' \<and> clint64 s' CLINT_MTIME = of_nat (clock (moment s' - 1))"
  using s
proof (induction "Suc D - moment s" arbitrary: s rule: less_induct)
  case less
  note a = less.prems(3) and wk = wakes_iff [OF less.prems(1)]
  show ?case
  proof (cases "i_cmp (irq_ctl s) \<le> i_now (irq_ctl s)")
    case True
    with a wk have "wfi_wakes clock s = Some s" by (subst wfi_wakes.simps) (simp add: asleep_def)
    moreover have "roused clock (irq_ctl s)" using a True by (simp add: asleep_def roused_def)
    moreover have "0 < moment s" "moment s \<le> Suc D" "clint64 s CLINT_MTIME = of_nat (clock (moment s - 1))" using a by (simp_all add: asleep_def)
    ultimately show ?thesis using less.prems(1,2) by (simp add: same_log_def)
  next
    case False
    let ?t = "tick clock s"
    have w: "wfi_wakes clock s = wfi_wakes clock ?t" using a wk False by (subst wfi_wakes.simps) (auto simp: asleep_def)
    have t: "irq_ok ?t" "R ?t" "asleep clock D (irq_ctl ?t)" "moment s \<le> D" "moment ?t = Suc (moment s)" "dev ?t = dev s"
      using less.prems(1) undisturbedD [OF R less.prems(2) unnoticed_background [OF tick_ctl(2)]] asleep_tick [OF a False] by (simp_all add: tick_ctl) (simp_all add: tick_def)
    have "same_log (irq_ctl s) (irq_ctl ?t)" unfolding tick_ctl by (simp add: same_log_def)
    moreover have "Suc D - moment ?t < Suc D - moment s" using t(4,5) by simp
    ultimately show ?thesis unfolding w using less.hyps [OF _ t(1-3)] t(5,6) by (fastforce simp: same_log_def)
  qed
qed

lemma ensures_wfi:
  assumes t: "timely clock N" "1 \<le> a" and R: "undisturbed R" and \<Phi>: "\<And>I J. same_log I J \<Longrightarrow> \<Phi> I \<Longrightarrow> \<Phi> J"
  shows "ensures (at_irq clock R (\<lambda>I. masked clock D I \<and> i_stie I \<and> \<Phi> I) a b) (wfi clock)
    (at_irq clock R (\<lambda>I. roused clock I \<and> i_stie I \<and> \<Phi> I) a (max b (Suc D)))"
proof (rule ensuresI)
  fix s :: "'a timed_machine_scheme" assume d: "dev_ok (dev s)" and at: "at_irq clock R (\<lambda>I. masked clock D I \<and> i_stie I \<and> \<Phi> I) a b s"
  then have ok: "irq_ok s" "R s" and m: "masked clock D (irq_ctl s)" "i_stie (irq_ctl s)" "\<Phi> (irq_ctl s)" "a \<le> moment s" "moment s \<le> b"
    and now: "clint64 s CLINT_MTIME = of_nat (clock (moment s - 1))" using t(2) by (simp_all add: at_irq_def)
  show "\<exists>s'. wfi clock s = Ret s' \<and> dev_ok (dev s') \<and> at_irq clock R (\<lambda>I. roused clock I \<and> i_stie I \<and> \<Phi> I) a (max b (Suc D)) s'"
  proof (cases "i_stip (irq_ctl s)")
    case True
    with m(2) have "wfi clock s = Ret s" using wakes_iff [OF ok(1)] by (simp add: wfi_def wfi_wakes.simps [of clock s])
    moreover have "roused clock (irq_ctl s)" using True m(1,2) by (simp add: masked_def roused_def)
    ultimately show ?thesis using ok m d now by (simp add: at_irq_def)
  next
    case False
    with m t(2) now have "asleep clock D (irq_ctl s)" by (simp add: masked_def asleep_def)
    from asleep_wakes [OF R ok this] obtain s' where s': "wfi_wakes clock s = Some s'" "dev s' = dev s" "irq_ok s'" "R s'" "roused clock (irq_ctl s')"
      "same_log (irq_ctl s) (irq_ctl s')" "moment s \<le> moment s'" "moment s' \<le> Suc D" "clint64 s' CLINT_MTIME = of_nat (clock (moment s' - 1))" by blast
    have "i_stie (irq_ctl s')" "\<Phi> (irq_ctl s')" using s'(6) m(2) \<Phi> [OF s'(6) m(3)] by (simp_all add: same_log_def)
    with s' m(4) d show ?thesis by (intro exI [of _ s']) (simp add: wfi_def at_irq_def)
  qed
qed

text \<open>The hart that has woken up has its interrupt forwarded, but not delivered.\<close>

lemma roused_pass:
  assumes "timely clock N" "i_moment I \<le> N" "roused clock I"
  shows "i_stip (i_pass clock I)" "0x8000000000000000 \<le> i_cmp (i_pass clock I)" "\<not> i_ipi (i_pass clock I)" "\<not> i_ssip (i_pass clock I)"
    "same_log I (i_pass clock I)"
proof -
  have d: "i_cmp I \<le> of_nat (clock (i_moment I))" if "\<not> i_stip I"
    by (rule due_by [OF assms(1) _ _ assms(2), of "i_moment I - 1"]) (use that assms(3) in \<open>simp_all add: roused_def\<close>)
  have "i_pass clock I = (i_tick clock I)\<lparr>i_cmp := - 1, i_mtie := False, i_stip := True\<rparr>" if "\<not> i_stip I"
    using that d assms(3) by (simp add: roused_def i_pass_def i_m_soft_def i_m_timer_def i_s_soft_def i_s_timer_def)
  moreover have "i_pass clock I = i_tick clock I" if "i_stip I"
    using that assms(3) far_not_due [OF _ timely_bound [OF assms(1,2)], of "i_cmp I"]
    by (simp add: roused_def i_pass_def i_m_soft_def i_m_timer_def i_s_soft_def i_s_timer_def)
  ultimately show "i_stip (i_pass clock I)" "0x8000000000000000 \<le> i_cmp (i_pass clock I)" "\<not> i_ipi (i_pass clock I)" "\<not> i_ssip (i_pass clock I)"
    "same_log I (i_pass clock I)"
    using assms(3) by (cases "i_stip I"; simp add: roused_def same_log_def)+
qed

end
