(* ===== verification/BareInterrupts.thy ===== *)
theory BareInterrupts
  imports BareIrqLogic
begin

text \<open>
  Phase 2 of the bare-metal suite, \<^verbatim>\<open>tests/p2_interrupts.c\<close>: the whole program, and the tests of timer and software
  interrupts (P2.1 to P2.3) and of \<^verbatim>\<open>sstatus.SIE\<close> (P2.5), from the SBI call that arms an interrupt through the firmware that forwards it
  to the S-mode handler that counts it.
\<close>

section \<open>The program\<close>

definition p2_1 :: "(nat \<Rightarrow> nat) \<Rightarrow> 'z timed_machine_scheme \<Rightarrow> 'z timed_machine_scheme run" where
  "p2_1 clock = live clock
     [TEST_LOG (''P2.1 '' @ dash @ '' S-mode timer interrupt via SBI...''),
      exec (upd_trap (\<lambda>t. t\<lparr>fault_count := 0\<rparr>)),
      exec (upd_trap (\<lambda>t. t\<lparr>irq_count := 0\<rparr>)),
      exec (upd_trap (\<lambda>t. t\<lparr>timer_irq_count := 0\<rparr>)),
      exec enable_s_timer_irq,
      exec enable_s_interrupts,
      reading clock read_mtime (\<lambda>now. live clock
        [sbi_set_timer (now + 1000),
         await clock (\<lambda>s. timer_irq_count (g_trap s) = 0) 1000000 (\<lambda>timeout. live clock
           [exec disable_s_interrupts,
            test_assert (0 < timeout) ''P2.1: timer interrupt timeout'' 600,
            \<lambda>s. ASSERT_EQ (u64_of_int (timer_irq_count (g_trap s))) 1 ''P2.1 timer_irq_count'' 601 s,
            \<lambda>s. ASSERT_EQ (last_irq_cause (g_trap s)) (push_bit 63 1 OR IRQ_S_TIMER) ''P2.1 scause'' 602 s,
            TEST_LOG (''P2.1 '' @ dash @ '' S-mode timer interrupt: OK'')])])]"

definition p2_2 :: "(nat \<Rightarrow> nat) \<Rightarrow> 'z timed_machine_scheme \<Rightarrow> 'z timed_machine_scheme run" where
  "p2_2 clock = live clock
     [TEST_LOG (''P2.2 '' @ dash @ '' S-mode software interrupt (self-IPI)...''),
      exec (upd_trap (\<lambda>t. t\<lparr>irq_count := 0\<rparr>)),
      exec (upd_trap (\<lambda>t. t\<lparr>soft_irq_count := 0\<rparr>)),
      exec enable_s_soft_irq,
      exec enable_s_interrupts,
      sbi_send_ipi 0,
      await clock (\<lambda>s. soft_irq_count (g_trap s) = 0) 100000 (\<lambda>timeout. live clock
        [exec disable_s_interrupts,
         test_assert (0 < timeout) ''P2.2: software interrupt timeout'' 610,
         \<lambda>s. ASSERT_EQ (u64_of_int (soft_irq_count (g_trap s))) 1 ''P2.2 soft_irq_count'' 611 s,
         \<lambda>s. ASSERT_EQ (last_irq_cause (g_trap s)) (push_bit 63 1 OR IRQ_S_SOFT) ''P2.2 scause'' 612 s,
         TEST_LOG (''P2.2 '' @ dash @ '' S-mode software interrupt: OK'')])]"

definition p2_3_round :: "(nat \<Rightarrow> nat) \<Rightarrow> nat \<Rightarrow> 'z timed_machine_scheme \<Rightarrow> 'z timed_machine_scheme run" where
  "p2_3_round clock i = reading clock read_mtime (\<lambda>now. live clock
     [sbi_set_timer (now + 500),
      await clock (\<lambda>s. timer_irq_count (g_trap s) < int i + 1) 500000 (\<lambda>timeout.
        test_assert (0 < timeout) ''P2.3: timer interrupt not arrived'' (620 + int i))])"

definition p2_3 :: "(nat \<Rightarrow> nat) \<Rightarrow> 'z timed_machine_scheme \<Rightarrow> 'z timed_machine_scheme run" where
  "p2_3 clock = live clock
     [TEST_LOG (''P2.3 '' @ dash @ '' Multiple timer interrupts...''),
      exec (upd_trap (\<lambda>t. t\<lparr>timer_irq_count := 0\<rparr>)),
      exec enable_s_timer_irq,
      exec enable_s_interrupts,
      block (map (p2_3_round clock) [0..<3]),
      exec disable_s_interrupts,
      \<lambda>s. ASSERT_EQ (u64_of_int (timer_irq_count (g_trap s))) 3 ''P2.3 total timer_irq_count'' 625 s,
      TEST_LOG (''P2.3 '' @ dash @ '' Multiple timer interrupts: OK'')]"

definition p2_4_mapped :: "(nat \<Rightarrow> nat) \<Rightarrow> u64 \<Rightarrow> 'z timed_machine_scheme \<Rightarrow> 'z timed_machine_scheme run" where
  "p2_4_mapped clock root = (let va = 0xD0400000; pa = SRAM_BASE + 0x1E0000 in live clock
     [exec (upd_trap (\<lambda>t. t\<lparr>handler_action := 0\<rparr>)),
      exec (upd_trap (\<lambda>t. t\<lparr>fault_count := 0\<rparr>)),
      exec (upd_trap (\<lambda>t. t\<lparr>timer_irq_count := 0\<rparr>)),
      vstore pa 0xDEAD0004,
      exec (pt_map_page root va pa (PTE_R OR PTE_W) False),
      exec sfence_vma_all,
      exec enable_s_timer_irq,
      exec enable_s_interrupts,
      reading clock read_mtime (\<lambda>now. sbi_set_timer (now + 200)),
      vload va (\<lambda>val. live clock
        [delay clock 10000,
         exec disable_s_interrupts,
         \<lambda>s. test_assert (1 \<le> fault_count (g_trap s)) ''P2.4: page fault not handled'' 630 s,
         ASSERT_EQ val 0xDEAD0004 ''P2.4 loaded value'' 631,
         \<lambda>s. if 0 < timer_irq_count (g_trap s)
             then uart_puts (''    Timer interrupt also fired: OK'' @ [CHR 0x0A]) s
             else uart_puts (''    Timer did not fire (timing dependent, OK)'' @ [CHR 0x0A]) s,
         exec (write_csr_satp 0),
         exec sfence_vma_all,
         TEST_LOG (''P2.4 '' @ dash @ '' Timer + page fault: OK'')])])"

definition p2_4 :: "(nat \<Rightarrow> nat) \<Rightarrow> 'z timed_machine_scheme \<Rightarrow> 'z timed_machine_scheme run" where
  "p2_4 clock = live clock
     [TEST_LOG (''P2.4 '' @ dash @ '' Timer + page fault interaction...''),
      exec pt_reset,
      \<lambda>s. case pt_setup_identity_kernel s of (root, s) \<Rightarrow> block
        [pass clock, exec (mmu_enable_sv39 root), pass clock, p2_4_mapped clock root] s]"

definition p2_5 :: "(nat \<Rightarrow> nat) \<Rightarrow> 'z timed_machine_scheme \<Rightarrow> 'z timed_machine_scheme run" where
  "p2_5 clock = live clock
     [TEST_LOG (''P2.5 '' @ dash @ '' Interrupt enable/disable...''),
      exec (upd_trap (\<lambda>t. t\<lparr>soft_irq_count := 0\<rparr>)),
      exec enable_s_soft_irq,
      exec disable_s_interrupts,
      sbi_send_ipi 0,
      delay clock 10000,
      \<lambda>s. ASSERT_EQ (u64_of_int (soft_irq_count (g_trap s))) 0 ''P2.5: delivered with SIE=0'' 640 s,
      exec enable_s_interrupts,
      skip,
      await clock (\<lambda>s. soft_irq_count (g_trap s) = 0) 100000 (\<lambda>timeout. live clock
        [exec disable_s_interrupts,
         \<lambda>s. ASSERT_EQ (u64_of_int (soft_irq_count (g_trap s))) 1 ''P2.5: not delivered after SIE=1'' 641 s,
         TEST_LOG (''P2.5 '' @ dash @ '' Interrupt enable/disable: OK'')])]"

definition p2_6 :: "(nat \<Rightarrow> nat) \<Rightarrow> 'z timed_machine_scheme \<Rightarrow> 'z timed_machine_scheme run" where
  "p2_6 clock = live clock
     [TEST_LOG (''P2.6 '' @ dash @ '' sie masking...''),
      exec (upd_trap (\<lambda>t. t\<lparr>timer_irq_count := 0\<rparr>)),
      exec (write_sie SIP_SSIP),
      exec enable_s_interrupts,
      reading clock read_mtime (\<lambda>now. sbi_set_timer (now + 100)),
      delay clock 50000,
      \<lambda>s. ASSERT_EQ (u64_of_int (timer_irq_count (g_trap s))) 0 ''P2.6: timer delivered with STIE=0'' 650 s,
      reading clock read_sip (\<lambda>sip. test_assert (sip AND SIP_STIP \<noteq> 0) ''P2.6: STIP not pending'' 651),
      exec enable_s_timer_irq,
      skip,
      await clock (\<lambda>s. timer_irq_count (g_trap s) = 0) 100000 (\<lambda>timeout. live clock
        [exec disable_s_interrupts,
         \<lambda>s. ASSERT_EQ (u64_of_int (timer_irq_count (g_trap s))) 1 ''P2.6: timer not delivered after STIE=1'' 652 s,
         TEST_LOG (''P2.6 '' @ dash @ '' sie masking: OK'')])]"

definition p2_7 :: "(nat \<Rightarrow> nat) \<Rightarrow> 'z timed_machine_scheme \<Rightarrow> 'z timed_machine_scheme run" where
  "p2_7 clock = live clock
     [TEST_LOG (''P2.7 '' @ dash @ '' wfi behavior...''),
      exec (upd_trap (\<lambda>t. t\<lparr>timer_irq_count := 0\<rparr>)),
      exec enable_s_timer_irq,
      exec disable_s_interrupts,
      reading clock read_mtime (\<lambda>now. sbi_set_timer (now + 500)),
      wfi clock,
      reading clock read_sip (\<lambda>sip. test_assert (sip AND SIP_STIP \<noteq> 0) ''P2.7: STIP not pending after wfi'' 660),
      \<lambda>s. ASSERT_EQ (u64_of_int (timer_irq_count (g_trap s))) 0 ''P2.7: delivered during wfi with SIE=0'' 661 s,
      exec enable_s_interrupts,
      skip,
      exec disable_s_interrupts,
      \<lambda>s. ASSERT_EQ (u64_of_int (timer_irq_count (g_trap s))) 1 ''P2.7: timer not cleared after enable'' 662 s,
      TEST_LOG (''P2.7 '' @ dash @ '' wfi: OK'')]"

definition p2_test_main :: "(nat \<Rightarrow> nat) \<Rightarrow> 'z timed_machine_scheme \<Rightarrow> (c_int \<times> 'z timed_machine_scheme) run" where
  "p2_test_main clock s = returning 0 (live clock
     [banner ''Phase 2: Interrupt & Exception Tests'',
      p2_1 clock, p2_2 clock, p2_3 clock, p2_4 clock, p2_5 clock, p2_6 clock, p2_7 clock,
      banner ''Phase 2: ALL TESTS PASSED''] s)"

section \<open>Timer and software interrupt\<close>

text \<open>The comparator that a test sets is reached by a deadline.\<close>

lemma deadline:
  assumes t: "timely clock N" "m + 500 * k \<le> N" "k < 2 ^ 62"
  shows "(of_nat (clock m) + of_nat k :: u64) \<le> of_nat (clock (m + 500 * k))"
proof -
  have "clock m + k \<le> clock (m + 500 * k)" "clock (m + 500 * k) < 2 ^ 63" "clock m < 2 ^ 63"
    using timely_reach [OF t(1,2)] timely_bound [OF t(1), of "m + 500 * k"] timely_bound [OF t(1), of m] t(2) by simp_all
  then have "(of_nat (clock m + k) :: u64) \<le> of_nat (clock (m + 500 * k))" using t(3) by (subst clock_le) simp_all
  then show ?thesis by simp
qed

text \<open>A test that starts with the timer out of the way and stays so.\<close>

lemma live_idle:
  assumes t: "timely clock N" "b \<le> N" and R: "undisturbed R'" and f: "acts R P f g R'"
    and g: "\<And>I. i_now (g I) = i_now I \<and> i_moment (g I) = i_moment I" and Q: "\<And>I. P I \<Longrightarrow> idle (g I) \<and> Q (g I)"
    and Qt: "\<And>I. Q I \<Longrightarrow> Q (i_tick clock I)"
    and fs: "ensures (at_irq clock R' (\<lambda>I. idle I \<and> Q I) (Suc a) (Suc b)) (live clock fs) S"
  shows "ensures (at_irq clock R P a b) (live clock (f # fs)) S"
  by (rule ensures_live_act [OF t R f g _ fs]) (use Q Qt g in \<open>simp add: idle_pass\<close>)

lemma ensures_set_await:
  assumes t: "timely clock N" "c \<le> N" and R: "undisturbed R" and a: "1 \<le> a" "lo \<le> a" and v: "v = of_nat k" "500 * k < n" "b + 2 + n \<le> c" "k < 2 ^ 62" "0 < k"
    and AB: "\<And>I. A I \<Longrightarrow> A (i_tick clock I)" "\<And>I. B I \<Longrightarrow> B (i_tick clock I)" "\<And>I. A I \<Longrightarrow> B (fired clock I)"
      "\<And>I x. A I \<Longrightarrow> A (I\<lparr>i_cmp := x, i_stip := False, i_mtie := True\<rparr>)"
    and w: "\<And>s. A (irq_ctl s) \<Longrightarrow> waiting s" "\<And>s. B (irq_ctl s) \<Longrightarrow> \<not> waiting s"
    and f: "\<And>i. 0 < i \<Longrightarrow> ensures (at_irq clock R (\<lambda>I. i_sie I \<and> i_stie I \<and> idle I \<and> B I) lo c) (f i) S'"
    and S: "ensures S' (pass clock) S"
  shows "ensures (at_irq clock R (\<lambda>I. idle I \<and> i_sie I \<and> i_stie I \<and> A I) a b)
    (reading clock read_mtime (\<lambda>now. live clock [sbi_set_timer (now + v), await clock waiting n f])) S"
proof (rule ensures_reading_mtime [OF t(1) _ a(1) R, where Q = "\<lambda>I. idle I \<and> i_sie I \<and> i_stie I \<and> A I"])
  show "b \<le> N" using v(3) t(2) by simp
next
  fix I assume "idle I \<and> i_sie I \<and> i_stie I \<and> A I" "clock (i_moment I) < 2 ^ 63"
  then show "idle (i_pass clock I) \<and> i_sie (i_pass clock I) \<and> i_stie (i_pass clock I) \<and> A (i_pass clock I)"
    using AB(1) by (simp add: idle_pass)
next
  fix m assume m: "a \<le> Suc m" "m < b"
  let ?D = "m + 500 * k"
  have le: "of_nat (clock m) + v \<le> of_nat (clock ?D)"
    using deadline [OF t(1) _ v(4), of m] v(1-3) m t(2) by simp
  show "ensures (at_irq clock R (\<lambda>I. idle I \<and> i_sie I \<and> i_stie I \<and> A I) (m + 2) (m + 2))
      (live clock [sbi_set_timer (of_nat (clock m) + v), await clock waiting n f]) S"
  proof (rule ensures_live_act [OF t(1) _ R acts_set_timer [OF R]])
    fix I assume I: "idle I \<and> i_sie I \<and> i_stie I \<and> A I" "m + 2 \<le> i_moment I" "i_moment I \<le> m + 2"
    let ?J = "I\<lparr>i_cmp := of_nat (clock m) + v, i_stip := False, i_mtie := True\<rparr>"
    have "pend clock ?D A B ?J" using I le AB(4) v(5) by (simp add: pend_def idle_def)
    from pend_pass [OF t(1) _ this] I AB v(3) t(2) m show "pend clock ?D A B (i_pass clock ?J)" by simp
  next
    show "ensures (at_irq clock R (pend clock ?D A B) (Suc (m + 2)) (Suc (m + 2))) (live clock [await clock waiting n f]) S"
      by (rule ensures_live [OF ensures_await [where A = A and B = B and waiting = waiting and k = f, OF t(1) R AB(1-3) w f] S ensures_live_Nil])
        (use v m t(2) a(2) in simp_all)
  qed (use v(3) t(2) m in simp_all)
qed

text \<open>Time may pass once more, and the bounds may be given up.\<close>

lemma pass_idle:
  assumes t: "timely clock N" "b \<le> N" and R: "undisturbed R" and Q: "\<And>I. Q I \<Longrightarrow> Q (i_tick clock I)" and a: "a' \<le> Suc a" "Suc b \<le> b'"
  shows "ensures (at_irq clock R (\<lambda>I. idle I \<and> Q I) a b) (pass clock) (at_irq clock R (\<lambda>I. idle I \<and> Q I) a' b')"
proof (rule ensures_post [OF ensures_pass [OF t R, where Q = "\<lambda>I. idle I \<and> Q I"]])
  show "at_irq clock R (\<lambda>I. idle I \<and> Q I) a' b' s" if "at_irq clock R (\<lambda>I. idle I \<and> Q I) (Suc a) (Suc b) s" for s :: "'a timed_machine_scheme"
    using that a by (auto elim: at_irq_mono)
qed (use Q in \<open>auto simp: idle_pass\<close>)

lemma live_end: "(\<And>s. P s \<Longrightarrow> Q s) \<Longrightarrow> ensures P (live clock []) Q"
  by (rule ensures_post [OF ensures_live_Nil])

text \<open>The interrupt is delivered, once, and recorded.\<close>

lemma p2_1_ensures:
  assumes t: "timely clock N" "b + 1001000 \<le> N" and R: "undisturbed R" and a: "1 \<le> a"
  shows "ensures (at_irq clock R idle a b) (p2_1 clock) (at_irq clock R (\<lambda>I. idle I \<and> i_stie I) 1 (b + 1001000))"
proof -
  let ?A = "\<lambda>I. i_timer I = 0" and ?B = "\<lambda>I. i_timer I = 1 \<and> i_last I = push_bit 63 1 OR IRQ_S_TIMER"
  let ?fin = "\<lambda>n. at_irq clock R (\<lambda>I. idle I \<and> i_stie I) 1 (b + n)"
  note st = live_idle [OF t(1) _ R]
  have tail: "ensures (at_irq clock R (\<lambda>I. i_sie I \<and> i_stie I \<and> idle I \<and> ?B I) 1 (b + 1000010)) (live clock
    [exec disable_s_interrupts, test_assert (0 < i) msg 600,
     \<lambda>s. ASSERT_EQ (u64_of_int (timer_irq_count (g_trap s))) 1 m1 601 s,
     \<lambda>s. ASSERT_EQ (last_irq_cause (g_trap s)) (push_bit 63 1 OR IRQ_S_TIMER) m2 602 s, TEST_LOG m3]) (?fin 1000020)" if "0 < i" for i msg m1 m2 m3
    apply (rule st [OF _ acts_enable(4) [OF R], where Q = "\<lambda>I. i_stie I \<and> ?B I"], (use t in \<open>simp_all add: idle_def\<close>)[4])
    apply (rule st [OF _ acts_assert, where Q = "\<lambda>I. i_stie I \<and> ?B I"], (use t that in simp_all)[5])
    apply (rule st [OF _ acts_assert_eq, where Q = "\<lambda>I. i_stie I \<and> ?B I"], (use t in \<open>simp_all add: u64_of_int_def\<close>)[5])
    apply (rule st [OF _ acts_assert_eq, where Q = "\<lambda>I. i_stie I \<and> ?B I"], (use t in simp_all)[5])
    apply (rule st [OF _ acts_log [OF R], where Q = "\<lambda>I. i_stie I"], (use t in simp_all)[4])
    apply (rule live_end, erule at_irq_mono, use a in simp_all)
    done
  have set: "ensures (at_irq clock R (\<lambda>I. idle I \<and> i_sie I \<and> i_stie I \<and> ?A I) a' b') (reading clock read_mtime (\<lambda>now. live clock
    [sbi_set_timer (now + 1000), await clock (\<lambda>s. timer_irq_count (g_trap s) = 0) 1000000 f])) (?fin 1000021)"
    if "\<And>i. 0 < i \<Longrightarrow> ensures (at_irq clock R (\<lambda>I. i_sie I \<and> i_stie I \<and> idle I \<and> ?B I) 1 (b + 1000010)) (f i) (?fin 1000020)" "1 \<le> a'" "b' \<le> b + 6" for f a' b'
    by (rule ensures_set_await [OF t(1) _ R, where k = 1000 and A = ?A and B = ?B and c = "b + 1000010" and S' = "?fin 1000020"])
     (use that t a in \<open>simp_all add: fired_def inc32_def pass_idle [OF t(1) _ R]\<close>)
  show ?thesis
    unfolding p2_1_def
    apply (rule st [OF _ acts_log [OF R], where Q = "\<lambda>I. True"], (use t in simp_all)[4])
    apply (rule st [OF _ acts_counters(1) [OF R], where Q = "\<lambda>I. True"], (use t in \<open>simp_all add: idle_def\<close>)[4])
    apply (rule st [OF _ acts_counters(2) [OF R], where Q = "\<lambda>I. True"], (use t in simp_all)[4])
    apply (rule st [OF _ acts_counters(3) [OF R], where Q = ?A], (use t in \<open>simp_all add: idle_def\<close>)[4])
    apply (rule st [OF _ acts_enable(1) [OF R], where Q = "\<lambda>I. i_stie I \<and> ?A I"], (use t in \<open>simp_all add: idle_def\<close>)[4])
    apply (rule st [OF _ acts_enable(3) [OF R], where Q = "\<lambda>I. i_sie I \<and> i_stie I \<and> ?A I"], (use t in \<open>simp_all add: idle_def\<close>)[4])
    apply (rule ensures_live [OF set [OF tail]], assumption, use a in simp, simp, 
      rule pass_idle [where a' = 1 and b' = "b + 1001000", OF t(1) _ R], (use t in simp_all)[4])
    apply (rule ensures_live_Nil)
    done
qed

text \<open>Without a timer in the way, an interrupt the hart sends to itself is taken before the next statement.\<close>

lemma soft_pass:
  assumes "idle I" "i_sie I" "i_ssie I" "clock (i_moment I) < 2 ^ 63"
  shows "i_pass clock (I\<lparr>i_ipi := True\<rparr>) = (i_tick clock I)\<lparr>i_soft := inc32 (i_soft I), i_faults := inc32 (i_faults I),
    i_last := push_bit 63 1 OR IRQ_S_SOFT\<rparr>"
  using assms far_not_due [of "i_cmp I" "clock (i_moment I)"]
  by (simp add: idle_def i_pass_def i_m_soft_def i_m_timer_def i_s_soft_def i_s_timer_def)

lemma ensures_await_now:
  assumes "\<And>s. P (irq_ctl s) \<Longrightarrow> \<not> waiting s" "0 < n" "ensures (at_irq clock R P a b) (k (int n)) S"
  shows "ensures (at_irq clock R P a b) (await clock waiting n k) S"
proof (rule ensuresI)
  fix s :: "'a timed_machine_scheme" assume s: "dev_ok (dev s)" "at_irq clock R P a b s"
  then have "\<not> waiting s" using assms(1) by (simp add: at_irq_def)
  with ensuresD [OF assms(3) s] assms(2) show "\<exists>s'. await clock waiting n k s = Ret s' \<and> dev_ok (dev s') \<and> S s'"
    by (cases n) simp_all
qed

lemma p2_2_ensures:
  assumes t: "timely clock N" "b + 1000 \<le> N" and R: "undisturbed R"
  shows "ensures (at_irq clock R (\<lambda>I. idle I \<and> i_stie I) 1 b) (p2_2 clock) (at_irq clock R (\<lambda>I. idle I \<and> i_stie I) 1 (b + 1000))"
proof -
  let ?B = "\<lambda>I. i_soft I = 1 \<and> i_last I = push_bit 63 1 OR IRQ_S_SOFT"
  note st = live_idle [OF t(1) _ R]
  have tail: "ensures (at_irq clock R (\<lambda>I. idle I \<and> i_stie I \<and> ?B I) a b') (live clock
    [exec disable_s_interrupts, test_assert (0 < i) msg 610,
     \<lambda>s. ASSERT_EQ (u64_of_int (soft_irq_count (g_trap s))) 1 m1 611 s,
     \<lambda>s. ASSERT_EQ (last_irq_cause (g_trap s)) (push_bit 63 1 OR IRQ_S_SOFT) m2 612 s, TEST_LOG m3])
    (at_irq clock R (\<lambda>I. idle I \<and> i_stie I) 1 (b + 100))" if "0 < i" "b' \<le> b + 50" "1 \<le> a" for i msg m1 m2 m3 a b'
    apply (rule st [OF _ acts_enable(4) [OF R], where Q = "\<lambda>I. i_stie I \<and> ?B I"], (use t that in \<open>simp_all add: idle_def\<close>)[4])
    apply (rule st [OF _ acts_assert, where Q = "\<lambda>I. i_stie I \<and> ?B I"], (use t that in simp_all)[5])
    apply (rule st [OF _ acts_assert_eq, where Q = "\<lambda>I. i_stie I \<and> ?B I"], (use t that in \<open>simp_all add: u64_of_int_def\<close>)[5])
    apply (rule st [OF _ acts_assert_eq, where Q = "\<lambda>I. i_stie I \<and> ?B I"], (use t that in simp_all)[5])
    apply (rule st [OF _ acts_log [OF R], where Q = "\<lambda>I. i_stie I"], (use t that in simp_all)[4])
    apply (rule live_end, erule at_irq_mono, use that in simp_all)
    done
  let ?Q = "\<lambda>I. i_stie I \<and> i_soft I = 0"
  show ?thesis
    unfolding p2_2_def
    apply (rule st [OF _ acts_log [OF R], where Q = "\<lambda>I. i_stie I"], (use t in simp_all)[4])
    apply (rule st [OF _ acts_counters(2) [OF R], where Q = "\<lambda>I. i_stie I"], (use t in simp_all)[4])
    apply (rule st [OF _ acts_counters(4) [OF R], where Q = ?Q], (use t in \<open>simp_all add: idle_def\<close>)[4])
    apply (rule st [OF _ acts_enable(2) [OF R], where Q = "\<lambda>I. ?Q I \<and> i_ssie I"], (use t in \<open>simp_all add: idle_def\<close>)[4])
    apply (rule st [OF _ acts_enable(3) [OF R], where Q = "\<lambda>I. ?Q I \<and> i_ssie I \<and> i_sie I"], (use t in \<open>simp_all add: idle_def\<close>)[4])
    apply (rule ensures_live_act [OF t(1) _ R acts_send_ipi [OF R], where Q = "\<lambda>I. idle I \<and> i_stie I \<and> ?B I"],
        use t in simp, simp, simp add: soft_pass inc32_def, simp add: idle_def)
    apply (rule ensures_live [OF ensures_await_now [OF _ _ tail]], simp, simp, simp, simp, simp,
        rule pass_idle [where a' = 1 and b' = "b + 1000", OF t(1) _ R], (use t in simp_all)[4])
    apply (rule ensures_live_Nil)
    done
qed

section \<open>Repeated timer interrupts\<close>

lemma ensures_upto:
  assumes "\<And>i. i < n \<Longrightarrow> ensures (P i) (f i) (P (Suc i))"
  shows "ensures (P 0) (block (map f [0..<n])) (P n)"
proof (rule ensuresI)
  fix s :: "'a machine_scheme" assume s: "dev_ok (dev s)" "P 0 s"
  have "\<exists>s'. block (map f [0..<n]) s = Ret s' \<and> (dev_ok (dev s') \<and> P n s')"
    by (rule block_upto [where P = "\<lambda>i s. dev_ok (dev s) \<and> P i s" and i = 0]) (use ensuresD [OF assms] s in auto)
  then show "\<exists>s'. block (map f [0..<n]) s = Ret s' \<and> dev_ok (dev s') \<and> P n s'" by blast
qed

lemma p2_3_round_ensures:
  assumes t: "timely clock N" "b + 500010 \<le> N" and R: "undisturbed R" and i: "i < 3"
  shows "ensures (at_irq clock R (\<lambda>I. idle I \<and> i_sie I \<and> i_stie I \<and> i_timer I = int i) 1 b) (p2_3_round clock i)
    (at_irq clock R (\<lambda>I. idle I \<and> i_sie I \<and> i_stie I \<and> i_timer I = int (Suc i)) 1 (b + 500010))"
proof -
  let ?A = "\<lambda>I. i_timer I = int i" and ?B = "\<lambda>I. i_timer I = int i + 1"
  have "ensures (at_irq clock R (\<lambda>I. i_sie I \<and> i_stie I \<and> idle I \<and> ?B I) 1 (b + 500005)) (test_assert True msg code)
    (at_irq clock R (\<lambda>I. i_sie I \<and> i_stie I \<and> idle I \<and> ?B I) 1 (b + 500005))" for msg code
    by (rule ensures_act [OF acts_assert]) simp_all
  moreover have "ensures (at_irq clock R (\<lambda>I. i_sie I \<and> i_stie I \<and> idle I \<and> ?B I) 1 (b + 500005)) (pass clock)
    (at_irq clock R (\<lambda>I. idle I \<and> i_sie I \<and> i_stie I \<and> i_timer I = int (Suc i)) 1 (b + 500010))"
    by (rule ensures_post [OF ensures_pass [OF t(1) _ R, where Q = "\<lambda>I. idle I \<and> i_sie I \<and> i_stie I \<and> ?B I"]])
      (use t in \<open>auto simp: idle_pass elim: at_irq_mono\<close>)
  ultimately show ?thesis
    unfolding p2_3_round_def
    by (intro ensures_set_await [OF t(1) _ R, where k = 500 and A = ?A and B = ?B and c = "b + 500005" and lo = 1])
      (use t i in \<open>simp_all add: fired_def inc32_def\<close>)
qed

lemma p2_3_ensures:
  assumes t: "timely clock N" "b + 1501000 \<le> N" and R: "undisturbed R"
  shows "ensures (at_irq clock R (\<lambda>I. idle I \<and> i_stie I) 1 b) (p2_3 clock) (at_irq clock R idle 1 (b + 1501000))"
proof -
  note st = live_idle [OF t(1) _ R]
  let ?P = "\<lambda>i. at_irq clock R (\<lambda>I. idle I \<and> i_sie I \<and> i_stie I \<and> i_timer I = int i) 1 (b + 10 + i * 500010)"
  have "ensures (?P i) (p2_3_round clock i) (?P (Suc i))" if "i < 3" for i
  proof -
    have "b + 10 + i * 500010 + 500010 \<le> N" using that t(2) by simp
    from p2_3_round_ensures [OF t(1) this R that] show ?thesis by (simp add: ac_simps)
  qed
  then have loop: "ensures (?P 0) (block (map (p2_3_round clock) [0..<3])) (?P 3)" by (rule ensures_upto)
  have loop': "ensures (at_irq clock R (\<lambda>I. idle I \<and> i_sie I \<and> i_stie I \<and> i_timer I = 0) a b') (block (map (p2_3_round clock) [0..<3])) (?P 3)"
    if "1 \<le> a" "b' \<le> b + 10" for a b'
    by (rule ensures_pre [OF _ loop], erule at_irq_mono) (use that in simp_all)
  show ?thesis
    unfolding p2_3_def
    apply (rule st [OF _ acts_log [OF R], where Q = "\<lambda>I. i_stie I"], (use t in simp_all)[4])
    apply (rule st [OF _ acts_counters(3) [OF R], where Q = "\<lambda>I. i_timer I = 0"], (use t in \<open>simp_all add: idle_def\<close>)[4])
    apply (rule st [OF _ acts_enable(1) [OF R], where Q = "\<lambda>I. i_stie I \<and> i_timer I = 0"], (use t in \<open>simp_all add: idle_def\<close>)[4])
    apply (rule st [OF _ acts_enable(3) [OF R], where Q = "\<lambda>I. i_sie I \<and> i_stie I \<and> i_timer I = 0"], (use t in \<open>simp_all add: idle_def\<close>)[4])
    apply (rule ensures_live [OF loop'], simp, simp, rule pass_idle [where a' = 1 and b' = "b + 1500100" and Q = "\<lambda>I. i_sie I \<and> i_stie I \<and> i_timer I = int 3", OF t(1) _ R],
        (use t in simp_all)[4])
    apply (rule st [OF _ acts_enable(4) [OF R], where Q = "\<lambda>I. i_timer I = 3"], (use t in \<open>simp_all add: idle_def\<close>)[4])
    apply (rule st [OF _ acts_assert_eq, where Q = "\<lambda>I. True"], (use t in \<open>simp_all add: u64_of_int_def\<close>)[5])
    apply (rule st [OF _ acts_log [OF R], where Q = "\<lambda>I. True"], (use t in simp_all)[4])
    apply (rule live_end, erule at_irq_mono, simp_all)
    done
qed

section \<open>Interrupts switched off and on\<close>

text \<open>The previous test may have left its timer running: of the timer nothing is known here.\<close>

definition calm :: "irq_ctl \<Rightarrow> bool" where
  "calm I \<longleftrightarrow> \<not> i_ipi I \<and> \<not> i_ssip I"

lemma calm_upd [simp]:
  "calm (I\<lparr>i_sie := x\<rparr>) = calm I" "calm (I\<lparr>i_stie := x\<rparr>) = calm I" "calm (I\<lparr>i_ssie := x\<rparr>) = calm I"
  "calm (I\<lparr>i_soft := n\<rparr>) = calm I" "calm (I\<lparr>i_timer := n\<rparr>) = calm I" "calm (I\<lparr>i_faults := n\<rparr>) = calm I"
  by (simp_all add: calm_def)

lemmas i_pass_code = i_pass_def i_m_soft_def i_m_timer_def i_s_soft_def i_s_timer_def

lemma calm_pass:
  assumes "calm I"
  shows "calm (i_pass clock I)" "i_soft (i_pass clock I) = i_soft I" "i_sie (i_pass clock I) = i_sie I"
    "i_stie (i_pass clock I) = i_stie I" "i_ssie (i_pass clock I) = i_ssie I"
    "\<not> (i_sie I \<and> i_stie I) \<Longrightarrow> i_timer (i_pass clock I) = i_timer I"
  using assms by (auto simp: calm_def i_pass_code)

text \<open>A software interrupt that is held back, and that is let go.\<close>

definition held :: "irq_ctl \<Rightarrow> bool" where
  "held I \<longleftrightarrow> (i_ipi I \<or> i_ssip I) \<and> \<not> i_sie I \<and> i_ssie I"

lemma held_ipi: "\<not> i_sie I \<Longrightarrow> i_ssie I \<Longrightarrow> held (I\<lparr>i_ipi := True\<rparr>)"
  by (simp add: held_def)

lemma held_pass:
  assumes "held I"
  shows "held (i_pass clock I)" "i_soft (i_pass clock I) = i_soft I"
  using assms by (auto simp: held_def i_pass_code)

lemma release_pass:
  assumes "held I"
  shows "calm (i_pass clock (I\<lparr>i_sie := True\<rparr>))" "i_soft (i_pass clock (I\<lparr>i_sie := True\<rparr>)) = inc32 (i_soft I)"
  using assms by (auto simp: held_def calm_def i_pass_code)

lemma p2_5_ensures:
  assumes t: "timely clock N" "b + 11000 \<le> N" and R: "undisturbed R"
  shows "ensures (at_irq clock R calm 1 b) (p2_5 clock) (at_irq clock R (\<lambda>I. calm I \<and> \<not> i_sie I) 1 (b + 11000))"
proof -
  note st = ensures_live_act [OF t(1) _ R]
  let ?C = "\<lambda>I. calm I \<and> i_soft I = 0" and ?H = "\<lambda>I. held I \<and> i_soft I = 0" and ?D = "\<lambda>I. calm I \<and> i_soft I = 1"
  let ?E = "\<lambda>I. calm I \<and> \<not> i_sie I"
  have tail: "ensures (at_irq clock R ?D 1 b') (live clock [exec disable_s_interrupts,
      \<lambda>s. ASSERT_EQ (u64_of_int (soft_irq_count (g_trap s))) 1 m1 641 s, TEST_LOG m2]) (at_irq clock R ?E 1 (b + 10500))"
    if "b' \<le> b + 10020" for b' m1 m2
    apply (rule st [OF _ acts_enable(4) [OF R], where Q = "\<lambda>I. ?D I \<and> \<not> i_sie I"], (use t that in \<open>auto simp: calm_pass\<close>)[3])
    apply (rule st [OF _ acts_assert_eq, where Q = ?E], (use t that in \<open>auto simp: calm_pass u64_of_int_def\<close>)[4])
    apply (rule st [OF _ acts_log [OF R], where Q = ?E], (use t that in \<open>auto simp: calm_pass\<close>)[3])
    apply (rule live_end, erule at_irq_mono, use that in simp_all)
    done
  have del: "ensures (at_irq clock R ?H a b') (delay clock 10000) (at_irq clock R ?H 1 (b' + 10000))" if "b' + 10000 \<le> N" "1 \<le> a" for a b'
    by (rule ensures_post [OF ensures_delay [OF t(1) R _ that(1)]]) (use that in \<open>auto simp: held_pass elim: at_irq_mono\<close>)
  have tail': "ensures (at_irq clock R ?D a b') (live clock [exec disable_s_interrupts,
      \<lambda>s. ASSERT_EQ (u64_of_int (soft_irq_count (g_trap s))) 1 m1 641 s, TEST_LOG m2]) (at_irq clock R ?E 1 (b + 10500))"
    if "b' \<le> b + 10020" "1 \<le> a" for a b' m1 m2
    by (rule ensures_pre [OF _ tail [OF that(1)]], erule at_irq_mono) (use that in simp_all)
  have pass_end: "ensures (at_irq clock R ?E 1 (b + 10500)) (pass clock) (at_irq clock R ?E 1 (b + 11000))"
    by (rule ensures_post [OF ensures_pass [OF t(1) _ R, where Q = ?E]]) (use t in \<open>auto simp: calm_pass elim: at_irq_mono\<close>)
  show ?thesis
    unfolding p2_5_def
    apply (rule st [OF _ acts_log [OF R], where Q = calm], (use t in \<open>auto simp: calm_pass\<close>)[3])
    apply (rule st [OF _ acts_counters(4) [OF R], where Q = ?C], (use t in \<open>auto simp: calm_pass\<close>)[3])
    apply (rule st [OF _ acts_enable(2) [OF R], where Q = "\<lambda>I. ?C I \<and> i_ssie I"], (use t in \<open>auto simp: calm_pass\<close>)[3])
    apply (rule st [OF _ acts_enable(4) [OF R], where Q = "\<lambda>I. ?C I \<and> i_ssie I \<and> \<not> i_sie I"], (use t in \<open>auto simp: calm_pass\<close>)[3])
    apply (rule st [OF _ acts_send_ipi [OF R], where Q = ?H], (use t in \<open>auto simp: held_pass held_ipi\<close>)[3])
    apply (rule ensures_live [OF del ensures_pass [OF t(1) _ R, where Q = ?H]], (use t in \<open>auto simp: held_pass\<close>)[4])
    apply (rule st [OF _ acts_assert_eq, where Q = ?H], (use t in \<open>auto simp: held_pass u64_of_int_def\<close>)[4])
    apply (rule st [OF _ acts_enable(3) [OF R], where Q = ?D], (use t in \<open>auto simp: release_pass inc32_def\<close>)[3])
    apply (rule st [OF _ acts_skip, where Q = ?D], (use t in \<open>auto simp: calm_pass\<close>)[3])
    apply (rule ensures_live [OF ensures_await_now [OF _ _ tail'] pass_end ensures_live_Nil], simp_all)
    done
qed

end
