(* ===== verification/BareMasked.thy ===== *)
theory BareMasked
  imports BareInterrupts
begin

text \<open>
  Tests P2.6 and P2.7 of the bare-metal suite: a timer whose interrupt is masked in \<^verbatim>\<open>sie\<close> or in \<^verbatim>\<open>sstatus\<close> is seen pending,
  ends \<^verbatim>\<open>wfi\<close>, and is delivered once when it is enabled.
\<close>

section \<open>The timer masked in \<open>sie\<close>, and in \<open>sstatus\<close>\<close>

text \<open>A test that reads the clock may be followed from each moment at which it may do so.\<close>

lemma ensures_split:
  assumes "1 \<le> a" "\<And>m. a \<le> Suc m \<Longrightarrow> m < b \<Longrightarrow> ensures (at_irq clock R P (Suc m) (Suc m)) f S"
  shows "ensures (at_irq clock R P a b) f S"
proof (rule ensuresI)
  fix s :: "'a timed_machine_scheme" assume d: "dev_ok (dev s)" and at: "at_irq clock R P a b s"
  then obtain m where m: "moment s = Suc m" "a \<le> Suc m" "m < b" using assms(1) by (cases "moment s") (auto simp: at_irq_def)
  have "at_irq clock R P (Suc m) (Suc m) s" using at m(1) by (simp add: at_irq_def)
  from ensuresD [OF assms(2) [OF m(2,3)] d this] show "\<exists>s'. f s = Ret s' \<and> dev_ok (dev s') \<and> S s'" .
qed

lemma calm_log: "calm I \<Longrightarrow> \<not> (i_sie I \<and> i_stie I) \<Longrightarrow> same_log I (i_pass clock I)"
  unfolding same_log_def calm_def by (auto simp: i_pass_code)

lemma ensures_set_masked:
  assumes t: "timely clock N" "m + 500 * k \<le> N" and R: "undisturbed R" and v: "v = of_nat k" "0 < k" "k < 2 ^ 62"
    and \<Phi>: "\<And>I J. same_log I J \<Longrightarrow> \<Phi> I \<Longrightarrow> \<Phi> J"
  shows "ensures (at_irq clock R (\<lambda>I. calm I \<and> \<not> (i_sie I \<and> i_stie I) \<and> \<Phi> I) (Suc m) (Suc m))
    (reading clock read_mtime (\<lambda>now. sbi_set_timer (now + v)))
    (at_irq clock R (\<lambda>I. masked clock (m + 500 * k) I \<and> \<Phi> I) (m + 2) (m + 2))"
proof (rule ensures_reading_mtime [OF t(1) _ _ R, where Q = "\<lambda>I. calm I \<and> \<not> (i_sie I \<and> i_stie I) \<and> \<Phi> I"])
  show "Suc m \<le> N" "1 \<le> Suc m" using t(2) v(2) by simp_all
  show "calm (i_pass clock I) \<and> \<not> (i_sie (i_pass clock I) \<and> i_stie (i_pass clock I)) \<and> \<Phi> (i_pass clock I)"
    if "calm I \<and> \<not> (i_sie I \<and> i_stie I) \<and> \<Phi> I" for I
    using that \<Phi> [OF calm_log] by (simp add: calm_pass)
  fix m' assume "Suc m \<le> Suc m'" "m' < Suc m"
  then have m': "m' = m" by simp
  have le: "of_nat (clock m) + v \<le> of_nat (clock (m + 500 * k))" unfolding v(1) by (rule deadline [OF t v(3)])
  show "ensures (at_irq clock R (\<lambda>I. calm I \<and> \<not> (i_sie I \<and> i_stie I) \<and> \<Phi> I) (m' + 2) (m' + 2)) (sbi_set_timer (of_nat (clock m') + v))
    (at_irq clock R (\<lambda>I. masked clock (m + 500 * k) I \<and> \<Phi> I) (m + 2) (m + 2))"
  proof (rule ensures_pre [where P' = "at_irq clock R (\<lambda>I. i_moment I = m + 2 \<and> calm I \<and> \<not> (i_sie I \<and> i_stie I) \<and> \<Phi> I) (m + 2) (m + 2)"])
    show "ensures (at_irq clock R (\<lambda>I. i_moment I = m + 2 \<and> calm I \<and> \<not> (i_sie I \<and> i_stie I) \<and> \<Phi> I) (m + 2) (m + 2))
        (sbi_set_timer (of_nat (clock m') + v)) (at_irq clock R (\<lambda>I. masked clock (m + 500 * k) I \<and> \<Phi> I) (m + 2) (m + 2))"
    proof (rule ensures_act [OF acts_set_timer [OF R]])
      fix I assume I: "i_moment I = m + 2 \<and> calm I \<and> \<not> (i_sie I \<and> i_stie I) \<and> \<Phi> I"
      let ?J = "I\<lparr>i_cmp := of_nat (clock m') + v, i_stip := False, i_mtie := True\<rparr>"
      have "\<Phi> ?J" by (rule \<Phi> [of I]) (use I in \<open>simp_all add: same_log_def\<close>)
      with I le v(2) show "masked clock (m + 500 * k) ?J \<and> \<Phi> ?J" by (simp add: m' masked_def calm_def)
    qed simp
  qed (simp add: at_irq_def m')
qed

lemma pass_masked:
  assumes t: "timely clock N" "b \<le> N" and R: "undisturbed R" and \<Phi>: "\<And>I J. same_log I J \<Longrightarrow> \<Phi> I \<Longrightarrow> \<Phi> J"
  shows "ensures (at_irq clock R (\<lambda>I. masked clock D I \<and> \<Phi> I) a b) (pass clock) (at_irq clock R (\<lambda>I. masked clock D I \<and> \<Phi> I) (Suc a) (Suc b))"
proof (rule ensures_pass [OF t R])
  fix I assume I: "masked clock D I \<and> \<Phi> I" "i_moment I \<le> b"
  then have N: "i_moment I \<le> N" using t(2) by simp
  show "masked clock D (i_pass clock I) \<and> \<Phi> (i_pass clock I)" using masked_pass [OF t(1) N] \<Phi> I(1) by blast
qed

lemma stip_seen: "i_stip (irq_ctl s) \<Longrightarrow> read_sip s AND SIP_STIP \<noteq> 0"
  by (simp add: read_sip_def mip_view_def SIP_STIP_def flag_bits bit_simps sie_bits)

text \<open>\<open>due I\<close>: the timer's interrupt has been forwarded and is the only one pending.\<close>

definition due :: "irq_ctl \<Rightarrow> bool" where
  "due I \<longleftrightarrow> i_stip I \<and> calm I \<and> 0x8000000000000000 \<le> i_cmp I"

lemma masked_due: "masked clock D I \<Longrightarrow> D < i_moment I \<Longrightarrow> due I"
  by (auto simp: masked_def due_def calm_def)

lemma due_pass:
  assumes "due I" "\<not> (i_sie I \<and> i_stie I)" "clock (i_moment I) < 2 ^ 63"
  shows "i_pass clock I = i_tick clock I"
  using assms far_not_due [of "i_cmp I" "clock (i_moment I)"]
  by (auto simp: due_def calm_def i_pass_code)

lemma due_upd [simp]: "due (i_tick clock I) = due I" "due (I\<lparr>i_sie := x\<rparr>) = due I" "due (I\<lparr>i_stie := x\<rparr>) = due I"
  by (simp_all add: due_def calm_def)

lemma due_delivered:
  assumes "due I" "i_sie I" "i_stie I" "clock (i_moment I) < 2 ^ 63"
  shows "idle (i_pass clock I)" "i_timer (i_pass clock I) = inc32 (i_timer I)" "i_sie (i_pass clock I)" "i_stie (i_pass clock I)"
  using late_delivery assms by (simp_all add: due_def calm_def)

text \<open>The pending interrupt shows in \<open>sip\<close>.\<close>

lemma ensures_sip:
  assumes t: "timely clock N" "b \<le> N" and R: "undisturbed R" and P: "\<And>I. P I \<Longrightarrow> due I \<and> \<not> (i_sie I \<and> i_stie I) \<and> P (i_tick clock I)"
  shows "ensures (at_irq clock R P a b) (reading clock read_sip (\<lambda>sip. test_assert (sip AND SIP_STIP \<noteq> 0) msg code)) (at_irq clock R P (Suc a) (Suc b))"
proof (rule ensures_reading [OF t R])
  fix s :: "'a timed_machine_scheme" assume "at_irq clock R P a b s"
  then have "P (irq_ctl s)" by (simp add: at_irq_def)
  from P [OF this] have "i_stip (irq_ctl s)" unfolding due_def by blast
  then have "read_sip s AND SIP_STIP \<noteq> 0" by (rule stip_seen)
  then show "ensures (at_irq clock R P (Suc a) (Suc b)) (test_assert (read_sip s AND SIP_STIP \<noteq> 0) msg code) (at_irq clock R P (Suc a) (Suc b))"
    by (intro ensures_act [OF acts_assert]) simp_all
qed (use P due_pass in auto)

lemma p2_6_ensures:
  assumes t: "timely clock N" "b + 51000 \<le> N" and R: "undisturbed R"
  shows "ensures (at_irq clock R (\<lambda>I. calm I \<and> \<not> i_sie I) 1 b) (p2_6 clock) (at_irq clock R (\<lambda>I. idle I \<and> \<not> i_sie I) 1 (b + 51000))"
proof -
  note st = ensures_live_act [OF t(1) _ R]
  let ?E = "at_irq clock R (\<lambda>I. idle I \<and> \<not> i_sie I) 1"
  let ?T = "\<lambda>I. i_timer I = 0 \<and> i_sie I \<and> \<not> i_stie I" and ?F = "\<lambda>I. i_timer I = 1"
  have log: "?T J" if "same_log I J" "?T I" for I J using that by (simp add: same_log_def)
  have tail: "ensures (at_irq clock R (\<lambda>I. idle I \<and> ?F I) a b') (live clock [exec disable_s_interrupts,
      \<lambda>s. ASSERT_EQ (u64_of_int (timer_irq_count (g_trap s))) 1 m1 652 s, TEST_LOG m2]) (?E (b + 50500))"
    if "1 \<le> a" "b' \<le> b + 50100" for a b' m1 m2
    apply (rule st [OF _ acts_enable(4) [OF R], where Q = "\<lambda>I. idle I \<and> ?F I \<and> \<not> i_sie I"], (use t that in \<open>auto simp: idle_pass idle_def\<close>)[3])
    apply (rule st [OF _ acts_assert_eq, where Q = "\<lambda>I. idle I \<and> \<not> i_sie I"], (use t that in \<open>auto simp: idle_pass u64_of_int_def\<close>)[4])
    apply (rule st [OF _ acts_log [OF R], where Q = "\<lambda>I. idle I \<and> \<not> i_sie I"], (use t that in \<open>auto simp: idle_pass\<close>)[3])
    apply (rule live_end, erule at_irq_mono, use that in simp_all)
    done
  have pass_end: "ensures (?E (b + 50500)) (pass clock) (?E (b + 51000))"
    by (rule pass_idle [OF t(1) _ R]) (use t in simp_all)
  have rest: "ensures (at_irq clock R (\<lambda>I. masked clock (m + 50000) I \<and> ?T I) (m + 3) (m + 3)) (live clock
      [delay clock 50000, \<lambda>s. ASSERT_EQ (u64_of_int (timer_irq_count (g_trap s))) 0 m1 650 s,
       reading clock read_sip (\<lambda>sip. test_assert (sip AND SIP_STIP \<noteq> 0) m2 651), exec enable_s_timer_irq, skip,
       await clock (\<lambda>s. timer_irq_count (g_trap s) = 0) 100000 (\<lambda>timeout. live clock [exec disable_s_interrupts,
         \<lambda>s. ASSERT_EQ (u64_of_int (timer_irq_count (g_trap s))) 1 m3 652 s, TEST_LOG m4])]) (?E (b + 51000))"
    if m: "m < b + 10" for m m1 m2 m3 m4
  proof -
    let ?D = "\<lambda>I. due I \<and> ?T I"
    have del: "ensures (at_irq clock R (\<lambda>I. masked clock (m + 50000) I \<and> ?T I) (m + 3) (m + 3)) (delay clock 50000)
        (at_irq clock R ?D (m + 50003) (m + 50003))"
    proof (rule ensures_post [OF ensures_delay [OF t(1) R, where P = "\<lambda>I. masked clock (m + 50000) I \<and> ?T I"]])
      show "masked clock (m + 50000) (i_pass clock I) \<and> ?T (i_pass clock I)" if "masked clock (m + 50000) I \<and> ?T I" "i_moment I \<le> N" for I
        using masked_pass [OF t(1) that(2)] that(1) log by blast
      show "at_irq clock R ?D (m + 50003) (m + 50003) s"
        if "at_irq clock R (\<lambda>I. masked clock (m + 50000) I \<and> ?T I) (m + 3 + 50000) (m + 3 + 50000) s" for s :: "'a timed_machine_scheme"
        using that masked_due [of clock "m + 50000" "irq_ctl s"] by (auto simp: at_irq_def)
    qed (use m t in simp)
    have sip: "ensures (at_irq clock R ?D a b') (reading clock read_sip (\<lambda>sip. test_assert (sip AND SIP_STIP \<noteq> 0) m2 651)) (at_irq clock R ?D (Suc a) (Suc b'))"
      if "b' \<le> N" for a b' m2
      by (rule ensures_sip [OF t(1) that R]) auto
    show ?thesis
      apply (rule ensures_live [OF del ensures_pass [OF t(1) _ R, where Q = ?D]], (use t m in \<open>auto simp: due_pass\<close>)[2])
      apply (rule st [OF _ acts_assert_eq, where Q = ?D], (use t m in \<open>auto simp: due_pass u64_of_int_def\<close>)[4])
      apply (rule ensures_live [OF sip ensures_pass [OF t(1) _ R, where Q = ?D]], (use t m in \<open>auto simp: due_pass\<close>)[3])
      apply (rule st [OF _ acts_enable(1) [OF R], where Q = "\<lambda>I. idle I \<and> ?F I"], (use t m in \<open>auto simp: due_delivered inc32_def\<close>)[3])
      apply (rule st [OF _ acts_skip, where Q = "\<lambda>I. idle I \<and> ?F I"], (use t m in \<open>auto simp: idle_pass\<close>)[3])
      apply (rule ensures_live [OF ensures_await_now [OF _ _ tail] pass_end ensures_live_Nil], use m in simp_all)
      done
  qed
  show ?thesis
    unfolding p2_6_def
    apply (rule st [OF _ acts_log [OF R], where Q = "\<lambda>I. calm I \<and> \<not> i_sie I"], (use t in \<open>auto simp: calm_pass\<close>)[3])
    apply (rule st [OF _ acts_counters(3) [OF R], where Q = "\<lambda>I. calm I \<and> \<not> i_sie I \<and> i_timer I = 0"], (use t in \<open>auto simp: calm_pass\<close>)[3])
    apply (rule st [OF _ acts_enable(5) [OF R], where Q = "\<lambda>I. calm I \<and> i_timer I = 0 \<and> \<not> i_stie I"], (use t in \<open>auto simp: calm_pass\<close>)[3])
    apply (rule st [OF _ acts_enable(3) [OF R], where Q = "\<lambda>I. calm I \<and> \<not> (i_sie I \<and> i_stie I) \<and> ?T I"], (use t in \<open>auto simp: calm_pass\<close>)[3])
    apply (rule ensures_split, simp)
    subgoal premises m for m
    proof -
      have pass: "ensures (at_irq clock R (\<lambda>I. masked clock (m + 50000) I \<and> ?T I) (m + 2) (m + 2)) (pass clock)
          (at_irq clock R (\<lambda>I. masked clock (m + 50000) I \<and> ?T I) (m + 3) (m + 3))"
        using pass_masked [OF t(1) _ R, of "m + 2" ?T "m + 50000" "m + 2"] log m t(2) by (simp add: numeral_3_eq_3)
      show ?thesis
        by (rule ensures_live [OF _ pass rest]) (use m t(2) log ensures_set_masked [OF t(1) _ R, of m 100 100 ?T] in \<open>simp_all\<close>)
    qed
    done
qed

text \<open>The hart sleeps until the timer expires.\<close>

lemma roused_due:
  assumes "timely clock N" "i_moment I \<le> N" "roused clock I"
  shows "due (i_pass clock I)"
  using roused_pass [OF assms] by (simp add: due_def calm_def)

lemma pass_roused:
  assumes t: "timely clock N" "b \<le> N" and R: "undisturbed R" and \<Phi>: "\<And>I J. same_log I J \<Longrightarrow> \<Phi> I \<Longrightarrow> \<Phi> J"
  shows "ensures (at_irq clock R (\<lambda>I. roused clock I \<and> \<Phi> I) a b) (pass clock) (at_irq clock R (\<lambda>I. due I \<and> \<Phi> I) (Suc a) (Suc b))"
proof (rule ensures_pass [OF t R])
  fix I assume I: "roused clock I \<and> \<Phi> I" "i_moment I \<le> b"
  then have N: "i_moment I \<le> N" using t(2) by simp
  show "due (i_pass clock I) \<and> \<Phi> (i_pass clock I)" using roused_due [OF t(1) N] roused_pass(5) [OF t(1) N] \<Phi> I(1) by blast
qed

lemma wfi_roused:
  assumes t: "timely clock N" "1 \<le> a" and R: "undisturbed R" and \<Phi>: "\<And>I J. same_log I J \<Longrightarrow> \<Phi> I \<Longrightarrow> \<Phi> J" "\<And>I. \<Phi> I \<Longrightarrow> i_stie I"
    and b: "b \<le> Suc D"
  shows "ensures (at_irq clock R (\<lambda>I. masked clock D I \<and> \<Phi> I) a b) (wfi clock) (at_irq clock R (\<lambda>I. roused clock I \<and> \<Phi> I) a (Suc D))"
proof -
  have e: "(\<lambda>I. masked clock D I \<and> i_stie I \<and> \<Phi> I) = (\<lambda>I. masked clock D I \<and> \<Phi> I)"
    "(\<lambda>I. roused clock I \<and> i_stie I \<and> \<Phi> I) = (\<lambda>I. roused clock I \<and> \<Phi> I)" using \<Phi>(2) by blast+
  show ?thesis using ensures_wfi [OF t R, of \<Phi> D b] \<Phi>(1) b unfolding e by (simp add: max_absorb2)
qed

lemma p2_7_ensures:
  assumes t: "timely clock N" "b + 251000 \<le> N" and R: "undisturbed R"
  shows "ensures (at_irq clock R (\<lambda>I. idle I \<and> \<not> i_sie I) 1 b) (p2_7 clock) (at_irq clock R idle 1 (b + 251000))"
proof -
  note st = ensures_live_act [OF t(1) _ R]
  let ?T = "\<lambda>I. i_timer I = 0 \<and> \<not> i_sie I \<and> i_stie I" and ?F = "\<lambda>I. idle I \<and> i_timer I = 1"
  let ?D = "\<lambda>I. due I \<and> ?T I"
  have log: "?T J" if "same_log I J" "?T I" for I J using that by (simp add: same_log_def)
  have rest: "ensures (at_irq clock R (\<lambda>I. masked clock (m + 250000) I \<and> ?T I) (m + 3) (m + 3)) (live clock
      [wfi clock, reading clock read_sip (\<lambda>sip. test_assert (sip AND SIP_STIP \<noteq> 0) m1 660),
       \<lambda>s. ASSERT_EQ (u64_of_int (timer_irq_count (g_trap s))) 0 m2 661 s, exec enable_s_interrupts, skip, exec disable_s_interrupts,
       \<lambda>s. ASSERT_EQ (u64_of_int (timer_irq_count (g_trap s))) 1 m3 662 s, TEST_LOG m4]) (at_irq clock R idle 1 (b + 251000))"
    if m: "m < b + 10" for m m1 m2 m3 m4
  proof -
    have wfi: "ensures (at_irq clock R (\<lambda>I. masked clock (m + 250000) I \<and> ?T I) (m + 3) (m + 3)) (wfi clock)
        (at_irq clock R (\<lambda>I. roused clock I \<and> ?T I) (m + 3) (m + 250001))"
      using wfi_roused [OF t(1) _ R, of "m + 3" ?T "m + 3" "m + 250000"] log by (simp add: add.commute)
    have wake: "ensures (at_irq clock R (\<lambda>I. roused clock I \<and> ?T I) (m + 3) (m + 250001)) (pass clock) (at_irq clock R ?D (Suc (m + 3)) (Suc (m + 250001)))"
      using pass_roused [OF t(1) _ R, of "m + 250001" ?T "m + 3"] log m t(2) by simp
    have sip: "ensures (at_irq clock R ?D a b') (reading clock read_sip (\<lambda>sip. test_assert (sip AND SIP_STIP \<noteq> 0) m1 660)) (at_irq clock R ?D (Suc a) (Suc b'))"
      if "b' \<le> N" for a b'
      by (rule ensures_sip [OF t(1) that R]) auto
    show ?thesis
      apply (rule ensures_live [OF wfi wake])
      apply (rule ensures_live [OF sip ensures_pass [OF t(1) _ R, where Q = ?D]], (use t m in \<open>auto simp: due_pass\<close>)[3])
      apply (rule st [OF _ acts_assert_eq, where Q = ?D], (use t m in \<open>auto simp: due_pass u64_of_int_def\<close>)[4])
      apply (rule st [OF _ acts_enable(3) [OF R], where Q = ?F], (use t m in \<open>auto simp: due_delivered inc32_def\<close>)[3])
      apply (rule st [OF _ acts_skip, where Q = ?F], (use t m in \<open>auto simp: idle_pass\<close>)[3])
      apply (rule st [OF _ acts_enable(4) [OF R], where Q = ?F], (use t m in \<open>auto simp: idle_pass idle_def\<close>)[3])
      apply (rule st [OF _ acts_assert_eq, where Q = idle], (use t m in \<open>auto simp: idle_pass u64_of_int_def\<close>)[4])
      apply (rule st [OF _ acts_log [OF R], where Q = idle], (use t m in \<open>auto simp: idle_pass\<close>)[3])
      apply (rule live_end, erule at_irq_mono, use m in simp_all)
      done
  qed
  show ?thesis
    unfolding p2_7_def
    apply (rule st [OF _ acts_log [OF R], where Q = "\<lambda>I. calm I \<and> \<not> i_sie I"], (use t in \<open>auto simp: idle_pass calm_def idle_def\<close>)[3])
    apply (rule st [OF _ acts_counters(3) [OF R], where Q = "\<lambda>I. calm I \<and> \<not> i_sie I \<and> i_timer I = 0"], (use t in \<open>auto simp: calm_pass\<close>)[3])
    apply (rule st [OF _ acts_enable(1) [OF R], where Q = "\<lambda>I. calm I \<and> ?T I"], (use t in \<open>auto simp: calm_pass\<close>)[3])
    apply (rule st [OF _ acts_enable(4) [OF R], where Q = "\<lambda>I. calm I \<and> \<not> (i_sie I \<and> i_stie I) \<and> ?T I"], (use t in \<open>auto simp: calm_pass\<close>)[3])
    apply (rule ensures_split, simp)
    subgoal premises m for m
    proof -
      have pass: "ensures (at_irq clock R (\<lambda>I. masked clock (m + 250000) I \<and> ?T I) (m + 2) (m + 2)) (pass clock)
          (at_irq clock R (\<lambda>I. masked clock (m + 250000) I \<and> ?T I) (m + 3) (m + 3))"
        using pass_masked [OF t(1) _ R, of "m + 2" ?T "m + 250000" "m + 2"] log m t(2) by (simp add: numeral_3_eq_3)
      show ?thesis
        by (rule ensures_live [OF _ pass rest]) (use m t(2) log ensures_set_masked [OF t(1) _ R, of m 500 500 ?T] in \<open>simp_all\<close>)
    qed
    done
qed

end
