(* ===== verification/BareIrqView.thy ===== *)
theory BareIrqView
  imports BareIrqLogic
begin

text \<open>
  A program that uses translation while interrupts are taken: interrupts leave the view a program has of its machine alone, and
  the statements that change the view leave the interrupt state alone, but for the faults they count.
\<close>

section \<open>Interrupts leave the view alone\<close>

text \<open>The stack is deep enough for the frames of both vectors, one below the other.\<close>

definition deep :: "'z program_scheme \<Rightarrow> bool" where
  "deep s \<longleftrightarrow> pool_ok s \<and> layout_ok s \<and> unat (pt_pool s) + 0x8000 + 384 \<le> unat (gpr (cpu s) 2)"

lemma below_stack:
  assumes sp: "unat sp \<le> 0x80100000" "d \<le> unat sp" and n: "8 * n \<le> d" "d \<le> 384" and a: "a \<in> frame_words (sp - of_nat d) n"
  shows "unat sp - d \<le> unat a \<and> unat a < unat sp"
proof -
  have "unat (of_nat d :: u64) = d" using n(2) by (simp add: unat_of_nat)
  with sp(2) have w: "unat (sp - of_nat d) = unat sp - d" by (subst unat_sub) (simp_all add: word_le_nat_alt)
  from a obtain i where i: "i < n" "a = slot (sp - of_nat d) (of_nat i)" by (auto simp: frame_words_def)
  then have i': "unat (of_nat i :: u64) = i" using n by (simp add: unat_of_nat)
  have "unat a = unat (sp - of_nat d) + 8 * i"
    unfolding i(2) using unat_slot [of "sp - of_nat d" "of_nat i"] w sp i(1) n i' by simp
  with w i(1) n sp(2) show ?thesis by linarith
qed

lemma trap_word_range:
  assumes "deep s" "a \<in> trap_words s"
  shows "unat (pt_pool s) + 0x8000 \<le> unat a \<and> unat a < 0x80100000"
proof -
  let ?sp = "gpr (cpu s) 2"
  have sp: "unat ?sp \<le> 0x80100000" "unat (pt_pool s) + 0x8000 + 384 \<le> unat ?sp" using assms(1) by (simp_all add: deep_def layout_ok_def)
  have "a \<in> frame_words (?sp - of_nat 256) 31 \<or> a \<in> frame_words (?sp - of_nat 384) 16 \<or> a \<in> frame_words (?sp - of_nat 128) 16"
    using assms(2) by (auto simp: trap_words_def s_frame_def m_frame_def)
  then show ?thesis
  proof (elim disjE)
    assume "a \<in> frame_words (?sp - of_nat 256) 31"
    from below_stack [OF _ _ _ _ this] sp show ?thesis by simp linarith
  next
    assume "a \<in> frame_words (?sp - of_nat 384) 16"
    from below_stack [OF _ _ _ _ this] sp show ?thesis by simp linarith
  next
    assume "a \<in> frame_words (?sp - of_nat 128) 16"
    from below_stack [OF _ _ _ _ this] sp show ?thesis by simp linarith
  qed
qed

lemma deep_apart:
  assumes "deep s"
  shows "a \<in> table_words (pool_tables s) \<Longrightarrow> a \<notin> trap_words s" "free_word a \<Longrightarrow> a \<notin> trap_words s"
proof -
  have p: "pool_ok s" "0x80000000 < unat (pt_pool s)" using assms by (simp_all add: deep_def layout_ok_def)
  show "a \<notin> trap_words s" if "a \<in> table_words (pool_tables s)"
    using trap_word_range [OF assms, of a] table_word_range [OF p(1) that] by linarith
  show "a \<notin> trap_words s" if "free_word a"
    using trap_word_range [OF assms, of a] p(2) that unfolding free_word_def by linarith
qed

text \<open>The view of a machine whose devices and trap record are not looked at, but for the action the handler is told to take.\<close>

definition vseen :: "view \<Rightarrow> 'z program_scheme \<Rightarrow> bool" where
  "vseen V s \<longleftrightarrow> deep s \<and> handler_action (g_trap s) = handler_action (v_trap V) \<and>
     (\<forall>d. dev_ok d \<longrightarrow> viewed (V\<lparr>v_trap := g_trap s\<rparr>) (s\<lparr>dev := d\<rparr>))"

lemma viewed_retrap: "viewed V s \<Longrightarrow> t\<lparr>sepc := 0\<rparr> = (g_trap s)\<lparr>sepc := 0\<rparr> \<Longrightarrow> viewed (V\<lparr>v_trap := t\<rparr>) s"
  by (simp add: viewed_def hart_as_def tables_as_def)

lemma vseenI:
  assumes "viewed V s" "deep s"
  shows "vseen V s"
proof -
  have "handler_action (g_trap s) = handler_action (v_trap V)" using arg_cong [OF viewedD(7) [OF assms(1)], of handler_action] by simp
  then show ?thesis using viewed_dev [OF viewed_retrap [OF assms(1)]] assms(2) by (simp add: vseen_def)
qed

lemma vseenD:
  assumes "vseen V s" "dev_ok (dev s)"
  shows "viewed (V\<lparr>v_trap := g_trap s\<rparr>) s" "deep s" "handler_action (g_trap s) = handler_action (v_trap V)"
proof -
  have "viewed (V\<lparr>v_trap := g_trap s\<rparr>) (s\<lparr>dev := dev s\<rparr>)" using assms unfolding vseen_def by blast
  then show "viewed (V\<lparr>v_trap := g_trap s\<rparr>) s" by simp
qed (use assms in \<open>simp_all add: vseen_def\<close>)

lemma background_deep: "background s s' \<Longrightarrow> deep s' = deep s"
  by (simp add: background_def deep_def pool_ok_def layout_ok_def)

lemma vseen_background:
  assumes v: "vseen V s" and b: "background s s'"
  shows "vseen V s'"
proof -
  have dp: "deep s" using v by (simp add: vseen_def)
  have "viewed (V\<lparr>v_trap := g_trap s'\<rparr>) (s'\<lparr>dev := d\<rparr>)" if d: "dev_ok d" for d
  proof -
    let ?V = "V\<lparr>v_trap := g_trap s\<rparr>" and ?s = "s\<lparr>dev := d\<rparr>" and ?s' = "s'\<lparr>dev := d\<rparr>"
    have vs: "viewed ?V ?s" using v d by (simp add: vseen_def)
    have "hart_as (?V\<lparr>v_trap := g_trap s'\<rparr>) ?s'"
      using vs b by (simp add: viewed_def hart_as_def background_def sv39_on_def satp_root_def mmu_view_def layout_ok_def)
    moreover have "mem s' a = mem s a" if "a \<in> table_words (pool_tables ?s) \<or> free_word a" for a
      using that deep_apart [OF dp, of a] b by (auto simp: background_def pool_tables_def pool_page_def)
    ultimately have "viewed (?V\<lparr>v_trap := g_trap s', v_data := v_data ?V\<rparr>) ?s'"
      using viewedD(14) [OF vs] b by (intro viewed_keep [OF vs]) (auto simp: background_def)
    then show ?thesis by simp
  qed
  with v b background_deep [OF b] show ?thesis by (simp add: vseen_def background_def)
qed

lemma quiet_vseen: "quiet (vseen V)"
  by (rule quietI) (simp add: vseen_def deep_def pool_ok_def layout_ok_def)

lemma undisturbed_vseen: "undisturbed (vseen V)"
  using quiet_vseen vseen_background unfolding undisturbed_def by blast

section \<open>Statements that change the view\<close>

text \<open>Where the state of the interrupts is kept, but for the number of faults.\<close>

lemma kept_irq_ok:
  assumes "irq_ok s" "irq_kept s s'" "viewed V s'"
  shows "irq_ok s'"
  using assms(1,2) viewedD(2) [OF assms(3)] by (simp add: irq_ok_def irq_kept_def)

lemma kept_deep:
  assumes "deep s" "irq_kept s s'" "viewed V s'"
  shows "deep s'"
  using assms(1,2) viewedD(6,9) [OF assms(3)] by (simp add: deep_def irq_kept_def)

lemma kept_moment: "irq_kept s s' \<Longrightarrow> moment s' = moment (s :: 'z timed_machine_scheme)"
  by (cases s; cases s') (simp add: irq_kept_def)

lemma kept_ctl:
  assumes k: "irq_kept s s'" and v: "viewed V s'"
  shows "irq_ctl s' = (irq_ctl s)\<lparr>i_faults := fault_count (v_trap V), i_last := last_irq_cause (v_trap V)\<rparr>"
proof -
  have "fault_count (g_trap s') = fault_count (v_trap V)" "last_irq_cause (g_trap s') = last_irq_cause (v_trap V)"
    using arg_cong [OF viewedD(7) [OF v], of fault_count] arg_cong [OF viewedD(7) [OF v], of last_irq_cause] by simp_all
  with k kept_moment [OF k] show ?thesis by (simp add: irq_kept_def irq_ctl_def)
qed

lemma acts_viewed:
  assumes "\<And>s. viewed (V\<lparr>v_trap := g_trap s\<rparr>) s \<Longrightarrow> irq_ok s \<Longrightarrow> deep s \<Longrightarrow>
    \<exists>s'. f s = Ret s' \<and> viewed (W\<lparr>v_trap := g_trap s\<rparr>) s' \<and> irq_kept s s'"
    "v_trap W = v_trap V"
  shows "acts (vseen V) P f (\<lambda>I. I) (vseen W)"
proof (rule actsI)
  fix s :: "'a timed_machine_scheme" assume s: "dev_ok (dev s)" "irq_ok s" "vseen V s"
  note v = vseenD [OF s(3,1)]
  from assms(1) [OF v(1) s(2) v(2)] obtain s' where s': "f s = Ret s'" "viewed (W\<lparr>v_trap := g_trap s\<rparr>) s'" "irq_kept s s'" by blast
  have "handler_action (g_trap s') = handler_action (g_trap s)" using arg_cong [OF viewedD(7) [OF s'(2)], of handler_action] by simp
  moreover have "deep s'" by (rule kept_deep [OF v(2) s'(3,2)])
  moreover from this have "vseen (W\<lparr>v_trap := g_trap s\<rparr>) s'" by (rule vseenI [OF s'(2)])
  ultimately have "vseen W s'" using v(3) assms(2) by (simp add: vseen_def)
  moreover have "irq_ctl s' = irq_ctl s" using kept_ctl [OF s'(3,2)] by (simp add: irq_ctl_def)
  ultimately show "\<exists>s'. f s = Ret s' \<and> dev_ok (dev s') \<and> irq_ok s' \<and> vseen W s' \<and> irq_ctl s' = irq_ctl s"
    using s'(1) kept_irq_ok [OF s(2) s'(3,2)] viewedD(1) [OF s'(2)] by blast
qed

lemma trap_last:
  "V\<lparr>v_data := D, v_trap := t\<rparr> = V\<lparr>v_trap := t, v_data := D\<rparr>" "V\<lparr>v_trusted := A, v_trap := t\<rparr> = V\<lparr>v_trap := t, v_trusted := A\<rparr>"
  "(map_view va e V)\<lparr>v_trap := t\<rparr> = map_view va e (V\<lparr>v_trap := t\<rparr>)" "tables_for (V\<lparr>v_trap := t\<rparr>) va = tables_for V va"
  by (cases V, simp add: map_view_def tables_for_def)+

text \<open>The action of the handler is chosen.\<close>

lemma acts_action:
  "acts (vseen V) P (exec (upd_trap (\<lambda>t. t\<lparr>handler_action := h\<rparr>))) (\<lambda>I. I) (vseen (V\<lparr>v_trap := (v_trap V)\<lparr>handler_action := h\<rparr>\<rparr>))"
proof (rule actsI)
  fix s :: "'a timed_machine_scheme" assume s: "dev_ok (dev s)" "irq_ok s" "vseen V s"
  let ?f = "\<lambda>t :: trap_state. t\<lparr>handler_action := h\<rparr>"
  note v = vseenD [OF s(3,1)]
  have "viewed (V\<lparr>v_trap := ?f (g_trap s)\<rparr>) (upd_trap ?f s)" using viewed_trap [OF v(1), of ?f "?f (g_trap s)"] by simp
  moreover have "deep (upd_trap ?f s)" using v(2) by (simp add: deep_def pool_ok_def layout_ok_def upd_trap_def)
  ultimately have "vseen (V\<lparr>v_trap := ?f (g_trap s)\<rparr>) (upd_trap ?f s)" by (rule vseenI)
  then have "vseen (V\<lparr>v_trap := ?f (v_trap V)\<rparr>) (upd_trap ?f s)" by (simp add: vseen_def)
  then show "\<exists>s'. exec (upd_trap ?f) s = Ret s' \<and> dev_ok (dev s') \<and> irq_ok s' \<and> vseen (V\<lparr>v_trap := ?f (v_trap V)\<rparr>) s' \<and> irq_ctl s' = irq_ctl s"
    using s(1,2) by (simp add: irq_ok_def irq_ctl_def upd_trap_def)
qed

lemma acts_store_free:
  assumes "free_word a" "a \<in> v_trusted V"
  shows "acts (vseen V) P (vstore a w) (\<lambda>I. I) (vseen (V\<lparr>v_data := (v_data V)(a \<mapsto> w)\<rparr>))"
proof (rule acts_viewed)
  fix s :: "'a timed_machine_scheme" assume v: "viewed (V\<lparr>v_trap := g_trap s\<rparr>) s"
  obtain s' where s': "hart_access Store a s = Some (Ret (Some a, s'))" "viewed (V\<lparr>v_trap := g_trap s\<rparr>) s'" "irq_kept s s'"
    by (rule viewed_hit_kept [OF v sram_entry(1) [OF v assms(1)] _ sram_entry(2,3) [OF v assms(1)]]) (use assms(2) in simp)
  have "irq_kept s (st64 a w s')" using s'(3) by (simp add: irq_kept_def st64_def)
  with viewed_data [OF s'(2) assms(1), of w] s'(1)
  show "\<exists>s'. vstore a w s = Ret s' \<and> viewed (V\<lparr>v_data := (v_data V)(a \<mapsto> w), v_trap := g_trap s\<rparr>) s' \<and> irq_kept s s'"
    by (simp add: vstore_def vaccess_def trap_last)
qed simp

lemma acts_fence: "acts (vseen V) P (exec sfence_vma_all) (\<lambda>I. I) (vseen (V\<lparr>v_trusted := UNIV\<rparr>))"
proof (rule acts_viewed)
  fix s :: "'a timed_machine_scheme" assume v: "viewed (V\<lparr>v_trap := g_trap s\<rparr>) s"
  have "irq_kept s (sfence_vma_all s)" by (simp add: irq_kept_def sfence_vma_all_def)
  with viewed_fence [OF v] show "\<exists>s'. exec sfence_vma_all s = Ret s' \<and> viewed (V\<lparr>v_trusted := UNIV, v_trap := g_trap s\<rparr>) s' \<and> irq_kept s s'"
    by (simp add: trap_last)
qed simp

lemma pool_only_kept: "pool_only s s' \<Longrightarrow> irq_kept s s'"
  by (auto simp: pool_only_def irq_kept_def)

lemma acts_map:
  assumes "page_va va" "tables_for V va \<le> v_room V" "valid \<longrightarrow> perm_ok perm" "root = v_root V"
  shows "acts (vseen V) P (exec (pt_map_page root va pa perm valid)) (\<lambda>I. I) (vseen (map_view va (pt_entry pa perm valid) V))"
proof (rule acts_viewed)
  fix s :: "'a timed_machine_scheme" assume v: "viewed (V\<lparr>v_trap := g_trap s\<rparr>) s"
  obtain s' where s': "map_at pt_pool_alloc 0 (v_root (V\<lparr>v_trap := g_trap s\<rparr>)) va (pt_entry pa perm valid) s = Some s'"
    "viewed (map_view va (pt_entry pa perm valid) (V\<lparr>v_trap := g_trap s\<rparr>)) s'"
    by (rule viewed_map_at [OF v assms(1) _ not_branch_entry [OF assms(3)]]) (use assms(2) in \<open>simp add: trap_last(4)\<close>)
  with s'(2) pool_only_kept [OF pool_only_map_at [OF s'(1)]] pt_map_page_map_at [of root va pa perm valid s s'] s'(1) assms(4)
  show "\<exists>s'. exec (pt_map_page root va pa perm valid) s = Ret s' \<and>
      viewed ((map_view va (pt_entry pa perm valid) V)\<lparr>v_trap := g_trap s\<rparr>) s' \<and> irq_kept s s'" by (simp add: trap_last)
qed simp

text \<open>A load that faults and is repaired: one more fault is counted.\<close>

lemma ensures_load_fix:
  assumes f: "fixable V Load va e" and w: "v_data V (pte_target e) = Some w" and Q: "\<And>I. P I \<Longrightarrow> Q (I\<lparr>i_faults := inc32 (i_faults I)\<rparr>)"
    and k: "ensures (at_irq clock (vseen (fix_view Load va e V)) Q a b) (k w) S"
  shows "ensures (at_irq clock (vseen V) P a b) (vload va k) S"
proof (rule ensuresI)
  fix s :: "'a timed_machine_scheme" assume d: "dev_ok (dev s)" and at: "at_irq clock (vseen V) P a b s"
  then have vs: "vseen V s" and ok: "irq_ok s" by (simp_all add: at_irq_def)
  note v = vseenD [OF vs d]
  let ?W = "V\<lparr>v_trap := log_trap (fault_cause Load) va 0 (g_trap s), v_pages := (v_pages V)(va \<mapsto> fixed_pte (fault_cause Load) e)\<rparr>"
  obtain s' where s': "hart_access Load va s = Some (Ret (Some (pte_target e), s'))" "viewed ?W s'" "irq_kept s s'"
    by (rule viewed_fix_kept [OF v(1), of va e Load]) (use f v(3) in \<open>simp_all add: fixable_def\<close>)
  have ha: "handler_action (g_trap s') = handler_action (v_trap V)"
    using arg_cong [OF viewedD(7) [OF s'(2)], of handler_action] v(3) by (simp add: log_trap_def)
  have "vseen ?W s'" by (rule vseenI [OF s'(2) kept_deep [OF v(2) s'(3,2)]])
  then have "vseen (fix_view Load va e V) s'" using ha by (simp add: vseen_def fix_view_def log_trap_def)
  moreover have c: "irq_ctl s' = (irq_ctl s)\<lparr>i_faults := inc32 (i_faults (irq_ctl s))\<rparr>"
    using kept_ctl [OF s'(3,2)] by (simp add: log_trap_def irq_ctl_def)
  then have "Q (irq_ctl s')" using Q [of "irq_ctl s"] at by (simp add: at_irq_def)
  ultimately have "at_irq clock (vseen (fix_view Load va e V)) Q a b s'"
    using kept_irq_ok [OF ok s'(3,2)] kept_moment [OF s'(3)] s'(3) at by (simp add: at_irq_def irq_kept_def)
  from ensuresD [OF k viewedD(1) [OF s'(2)] this] viewedD(14) [OF s'(2), of "pte_target e" w] w s'(1)
  show "\<exists>s'. vload va k s = Ret s' \<and> dev_ok (dev s') \<and> S s'" by (simp add: vload_def vaccess_def)
qed

section \<open>Translation on and off\<close>

text \<open>Between the building of the tables and their use, interrupts leave alone what the program will see.\<close>

definition enabled :: "u64 \<Rightarrow> view \<Rightarrow> 'z program_scheme \<Rightarrow> bool" where
  "enabled root V s \<longleftrightarrow> vseen V (mmu_enable_sv39 root s)"

lemmas mmu_enable_code = mmu_enable_sv39_def sfence_vma_all_def write_csr_satp_def Let_def

lemma enable_background: "background s s' \<Longrightarrow> background (mmu_enable_sv39 root s) (mmu_enable_sv39 root s')"
  by (simp add: background_def mmu_enable_code trap_words_def s_frame_def m_frame_def)

lemma undisturbed_enabled: "undisturbed (enabled root V :: 'z timed_machine_scheme \<Rightarrow> bool)"
proof -
  have "quiet (enabled root V :: 'z timed_machine_scheme \<Rightarrow> bool)"
  proof (rule quietI)
    fix s :: "'z timed_machine_scheme" and d assume "enabled root V s"
    moreover note quiet_vseen [of V]
    ultimately have "vseen V ((mmu_enable_sv39 root s)\<lparr>dev := d\<rparr>)" unfolding enabled_def using quiet_dev by blast
    moreover have "(mmu_enable_sv39 root s)\<lparr>dev := d\<rparr> = mmu_enable_sv39 root (s\<lparr>dev := d\<rparr>)" by (simp add: mmu_enable_code)
    ultimately show "enabled root V (s\<lparr>dev := d\<rparr>)" by (simp add: enabled_def)
  qed
  then show ?thesis using vseen_background enable_background unfolding undisturbed_def enabled_def by blast
qed

lemma acts_mmu_on: "acts (enabled root V) P (exec (mmu_enable_sv39 root)) (\<lambda>I. I) (vseen V)"
  by (rule actsI) (simp add: enabled_def irq_ok_def irq_ctl_def mmu_enable_code)

lemma acts_mmu_off: "acts R P (exec (write_csr_satp 0)) (\<lambda>I. I) (\<lambda>_. True)"
  by (rule actsI) (simp add: irq_ok_def irq_ctl_def write_csr_satp_def)

text \<open>The hart before: where the tables will be, the controls of translation and the action of the handler.\<close>

definition bare_as :: "u64 \<Rightarrow> mmu_ctl \<Rightarrow> trap_state \<Rightarrow> 'z program_scheme \<Rightarrow> bool" where
  "bare_as root c t s \<longleftrightarrow> deep s \<and> pt_pool s = root \<and> mmu_view s = c \<and> handler_action (g_trap s) = handler_action t"

definition no_tables :: "u64 \<Rightarrow> mmu_ctl \<Rightarrow> trap_state \<Rightarrow> 'z program_scheme \<Rightarrow> bool" where
  "no_tables root c t s \<longleftrightarrow> bare_as root c t s \<and> pt_pool_next_page s = 0"

lemma bare_background: "background s s' \<Longrightarrow> bare_as root c t s' = bare_as root c t s"
  using background_deep [of s s'] by (simp add: bare_as_def background_def mmu_view_def)

lemma undisturbed_bare: "undisturbed (bare_as root c t :: 'z timed_machine_scheme \<Rightarrow> bool)" "undisturbed (no_tables root c t :: 'z timed_machine_scheme \<Rightarrow> bool)"
proof -
  have q: "quiet (bare_as root c t :: 'z timed_machine_scheme \<Rightarrow> bool)" by (rule quietI) (auto simp: bare_as_def deep_def pool_ok_def layout_ok_def)
  then have q': "quiet (no_tables root c t :: 'z timed_machine_scheme \<Rightarrow> bool)" unfolding no_tables_def quiet_def by simp
  show "undisturbed (bare_as root c t :: 'z timed_machine_scheme \<Rightarrow> bool)" using q bare_background unfolding undisturbed_def by blast
  have "no_tables root c t s'" if "no_tables root c t s" "background s s'" for s s' :: "'z timed_machine_scheme"
    using that bare_background [OF that(2)] by (simp add: no_tables_def background_def)
  with q' show "undisturbed (no_tables root c t :: 'z timed_machine_scheme \<Rightarrow> bool)" unfolding undisturbed_def by blast
qed

lemma acts_pt_reset: "acts (bare_as root c t) P (exec pt_reset) (\<lambda>I. I) (no_tables root c t)"
proof (rule actsI)
  fix s :: "'a timed_machine_scheme" assume s: "dev_ok (dev s)" "irq_ok s" "bare_as root c t s"
  then have "deep (pt_reset s)" by (auto simp: bare_as_def deep_def pool_ok_def layout_ok_def pt_reset_def)
  then have "no_tables root c t (pt_reset s)" using s(3) by (simp add: no_tables_def bare_as_def pt_reset_def mmu_view_def)
  then show "\<exists>s'. exec pt_reset s = Ret s' \<and> dev_ok (dev s') \<and> irq_ok s' \<and> no_tables root c t s' \<and> irq_ctl s' = irq_ctl s"
    using s(1,2) by (simp add: irq_ok_def irq_ctl_def pt_reset_def)
qed

definition fresh_view :: "u64 \<Rightarrow> mmu_ctl \<Rightarrow> trap_state \<Rightarrow> view" where
  "fresh_view root c t = \<lparr>v_ctl = c, v_root = root, v_trusted = UNIV, v_pages = Map.empty, v_big = Map.empty, v_data = Map.empty,
     v_room = 7, v_trap = t\<rparr>"

lemma ensures_setup:
  assumes k: "ensures (at_irq clock (enabled root (fresh_view root c t)) P a b) (k root) S"
  shows "ensures (at_irq clock (no_tables root c t) P a b) (\<lambda>s. case pt_setup_identity_kernel s of (root, s) \<Rightarrow> k root s) S"
proof (rule ensuresI)
  fix s :: "'a timed_machine_scheme" assume d: "dev_ok (dev s)" and at: "at_irq clock (no_tables root c t) P a b s"
  then have s: "irq_ok s" "bare_as root c t s" "pt_reset s = s" by (simp_all add: at_irq_def no_tables_def pt_reset_def)
  have b: "booted s" using d s(1,2) by (simp add: booted_def irq_ok_def bare_as_def deep_def)
  obtain r s1 where r: "pt_setup_identity_kernel (pt_reset s) = (r, s1)" by fastforce
  have po: "pool_only s s1" by (rule identity_pool_only [OF r])
  then have d1: "dev_ok (dev s1)" using d by (auto simp: pool_only_def)
  let ?s = "mmu_enable_sv39 r s1"
  have root: "r = root" using enable_viewed(1) [OF b r d1] s(2) by (simp add: bare_as_def)
  have v: "viewed (start_view s) ?s" using enable_viewed(2) [OF b r d1] by simp
  have "weaker (fresh_view root c (g_trap s)) (start_view s)"
    using s(2) by (simp add: weaker_def fresh_view_def start_view_def bare_as_def map_le_def)
  note v' = viewed_weaker [OF v this]
  have "deep ?s" using viewedD(6,9) [OF v] po s(2) by (auto simp: deep_def bare_as_def pool_only_def mmu_enable_code)
  from vseenI [OF v' this] have "enabled root (fresh_view root c t) s1"
    using s(2) by (simp add: enabled_def root vseen_def fresh_view_def bare_as_def)
  moreover have "irq_ctl s1 = irq_ctl s" "irq_ok s1 = irq_ok s" "moment s1 = moment s" "clint64 s1 = clint64 s"
    using po by (auto simp: pool_only_def irq_ctl_def irq_ok_def)
  ultimately have "at_irq clock (enabled root (fresh_view root c t)) P a b s1" using at by (simp add: at_irq_def)
  from ensuresD [OF k d1 this] r s(3) root
  show "\<exists>s'. (case pt_setup_identity_kernel s of (root, s) \<Rightarrow> k root s) = Ret s' \<and> dev_ok (dev s') \<and> S s'" by simp
qed

end
