(* ===== verification/BarePhase2.thy ===== *)
theory BarePhase2
  imports BareMasked BareIrqView
begin

text \<open>
  Phase 2 of the bare-metal suite as a whole: test P2.4, in which a timer interrupt and a page fault meet, and the
  program from reset to verdict.
\<close>

section \<open>A timer and a page fault\<close>

lemma pass_pend:
  assumes t: "timely clock N" "b \<le> N" and R: "undisturbed R"
    and AB: "\<And>I. A I \<Longrightarrow> A (i_tick clock I)" "\<And>I. B I \<Longrightarrow> B (i_tick clock I)" "\<And>I. A I \<Longrightarrow> B (fired clock I)"
  shows "ensures (at_irq clock R (pend clock D A B) a b) (pass clock) (at_irq clock R (pend clock D A B) (Suc a) (Suc b))"
proof (rule ensures_pass [OF t R])
  fix I assume I: "pend clock D A B I" "i_moment I \<le> b"
  then have N: "i_moment I \<le> N" using t(2) by simp
  show "pend clock D A B (i_pass clock I)" by (rule pend_pass [OF t(1) N I(1)]) (use AB in auto)
qed

lemma delay_pend:
  assumes t: "timely clock N" "b + n \<le> N" and R: "undisturbed R"
    and AB: "\<And>I. A I \<Longrightarrow> A (i_tick clock I)" "\<And>I. B I \<Longrightarrow> B (i_tick clock I)" "\<And>I. A I \<Longrightarrow> B (fired clock I)"
  shows "ensures (at_irq clock R (pend clock D A B) a b) (delay clock n) (at_irq clock R (pend clock D A B) (a + n) (b + n))"
  by (rule ensures_delay [OF t(1) R _ t(2)], rule pend_pass [OF t(1)]) (use AB in auto)

lemma ensures_set_pend:
  assumes t: "timely clock N" "m + 500 * k \<le> N" and R: "undisturbed R" and v: "v = of_nat k" "0 < k" "k < 2 ^ 62"
    and A: "\<And>I. A I \<Longrightarrow> A (i_tick clock I)" "\<And>I x. A I \<Longrightarrow> A (I\<lparr>i_cmp := x, i_stip := False, i_mtie := True\<rparr>)"
  shows "ensures (at_irq clock R (\<lambda>I. idle I \<and> i_sie I \<and> i_stie I \<and> A I) (Suc m) (Suc m))
    (reading clock read_mtime (\<lambda>now. sbi_set_timer (now + v))) (at_irq clock R (pend clock (m + 500 * k) A B) (m + 2) (m + 2))"
proof (rule ensures_reading_mtime [OF t(1) _ _ R, where Q = "\<lambda>I. idle I \<and> i_sie I \<and> i_stie I \<and> A I"])
  show "Suc m \<le> N" "1 \<le> Suc m" using t(2) v(2) by simp_all
  show "idle (i_pass clock I) \<and> i_sie (i_pass clock I) \<and> i_stie (i_pass clock I) \<and> A (i_pass clock I)"
    if "idle I \<and> i_sie I \<and> i_stie I \<and> A I" "clock (i_moment I) < 2 ^ 63" for I
    using that A(1) by (simp add: idle_pass)
  fix m' assume "Suc m \<le> Suc m'" "m' < Suc m"
  then have m': "m' = m" by simp
  have le: "of_nat (clock m) + v \<le> of_nat (clock (m + 500 * k))" unfolding v(1) by (rule deadline [OF t v(3)])
  let ?P = "\<lambda>I. i_moment I = m + 2 \<and> idle I \<and> i_sie I \<and> i_stie I \<and> A I"
  have "ensures (at_irq clock R ?P (m + 2) (m + 2)) (sbi_set_timer (of_nat (clock m') + v)) (at_irq clock R (pend clock (m + 500 * k) A B) (m + 2) (m + 2))"
    by (rule ensures_act [OF acts_set_timer [OF R]]) (use le v(2) A(2) in \<open>simp_all add: m' pend_def idle_def\<close>)
  then show "ensures (at_irq clock R (\<lambda>I. idle I \<and> i_sie I \<and> i_stie I \<and> A I) (m' + 2) (m' + 2)) (sbi_set_timer (of_nat (clock m') + v))
      (at_irq clock R (pend clock (m + 500 * k) A B) (m + 2) (m + 2))"
    by (rule ensures_pre [rotated]) (simp add: at_irq_def m')
qed

text \<open>Each of the two is counted, in whichever order they come.\<close>

abbreviation unfired :: "c_int \<Rightarrow> irq_ctl \<Rightarrow> bool" where
  "unfired n I \<equiv> i_timer I = 0 \<and> i_faults I = n"

abbreviation fired_once :: "c_int \<Rightarrow> irq_ctl \<Rightarrow> bool" where
  "fired_once n I \<equiv> i_timer I = 1 \<and> i_faults I = n + 1"

lemma small_counts: "inc32 0 = 1" "inc32 1 = 2"
  by (simp_all add: inc32_def)

lemma pend_fault:
  "pend clock D (unfired 0) (fired_once 0) I \<Longrightarrow> pend clock D (unfired 1) (fired_once 1) (I\<lparr>i_faults := inc32 (i_faults I)\<rparr>)"
  by (auto simp: pend_def idle_def small_counts)

lemma pend_disable:
  assumes "pend clock D (unfired 1) (fired_once 1) I"
  shows "calm (i_pass clock (I\<lparr>i_sie := False\<rparr>)) \<and> \<not> i_sie (i_pass clock (I\<lparr>i_sie := False\<rparr>)) \<and> 1 \<le> i_faults (i_pass clock (I\<lparr>i_sie := False\<rparr>))"
proof -
  let ?J = "I\<lparr>i_sie := False\<rparr>"
  have c: "calm ?J" "1 \<le> i_faults ?J" using assms by (auto simp: pend_def idle_def calm_def)
  with calm_log [OF c(1), of clock] calm_pass [OF c(1), of clock] show ?thesis by (simp add: same_log_def)
qed

lemma test_page: "page_va 0xD0400000" "free_word (SRAM_BASE + 0x1E0000)" "page_aligned (SRAM_BASE + 0x1E0000)"
  by (simp_all add: page_va_def page_aligned_def take_bit_eq_mod vpn_ix_def free_word_def platform_consts flip: mask9_u64)

abbreviation test_entry :: u64 where
  "test_entry \<equiv> pt_entry (SRAM_BASE + 0x1E0000) (PTE_R OR PTE_W) False"

text \<open>After the load.\<close>

lemma p2_4_tail:
  assumes t: "timely clock N" "b + 10020 \<le> N" and R: "undisturbed R" and a: "1 \<le> a" and v: "v = 0xDEAD0004"
  shows "ensures (at_irq clock R (pend clock D (unfired 1) (fired_once 1)) a b) (live clock
    [delay clock 10000, exec disable_s_interrupts, \<lambda>s. test_assert (1 \<le> fault_count (g_trap s)) m1 630 s, ASSERT_EQ v 0xDEAD0004 m2 631,
     \<lambda>s. if 0 < timer_irq_count (g_trap s) then uart_puts m3 s else uart_puts m4 s,
     exec (write_csr_satp 0), exec sfence_vma_all, TEST_LOG m5])
    (at_irq clock (\<lambda>_. True) (\<lambda>I. calm I \<and> \<not> i_sie I) 1 (b + 10010))"
proof -
  note st = ensures_live_act [OF t(1)]
  let ?D = "pend clock D (unfired 1) (fired_once 1)" and ?Q = "\<lambda>I. calm I \<and> \<not> i_sie I"
  have True_fixed: "undisturbed (\<lambda>_. True)" by (simp add: undisturbed_def quiet_def)
  have fence: "acts (\<lambda>_. True) P (exec sfence_vma_all) (\<lambda>I. I) (\<lambda>_. True)" for P
    by (rule actsI) (simp add: irq_ok_def irq_ctl_def sfence_vma_all_def)
  have say: "acts R P (\<lambda>s. if 0 < timer_irq_count (g_trap s) then uart_puts m3 s else uart_puts m4 s) (\<lambda>I. I) R" for P
    by (rule acts_say [OF R]) (auto simp del: uart_puts.simps)
  have del: "ensures (at_irq clock R ?D a b) (delay clock 10000) (at_irq clock R ?D (a + 10000) (b + 10000))"
    by (rule delay_pend [OF t(1) _ R]) (use t in \<open>simp_all add: fired_def small_counts\<close>)
  have ps: "ensures (at_irq clock R ?D (a + 10000) (b + 10000)) (pass clock) (at_irq clock R ?D (Suc (a + 10000)) (Suc (b + 10000)))"
    by (rule pass_pend [OF t(1) _ R]) (use t in \<open>simp_all add: fired_def small_counts\<close>)
  show ?thesis
    apply (rule ensures_live [OF del ps])
    apply (rule st [OF _ R acts_enable(4) [OF R], where Q = "\<lambda>I. ?Q I \<and> 1 \<le> i_faults I"], (use t pend_disable in auto)[3])
    apply (rule st [OF _ R acts_assert, where Q = ?Q], (use t in \<open>auto simp: calm_pass\<close>)[4])
    apply (rule st [OF _ R acts_assert_eq, where Q = ?Q], (use t v in \<open>auto simp: calm_pass\<close>)[4])
    apply (rule st [OF _ R say, where Q = ?Q], (use t in \<open>auto simp: calm_pass\<close>)[3])
    apply (rule st [OF _ True_fixed acts_mmu_off, where Q = ?Q], (use t in \<open>auto simp: calm_pass\<close>)[3])
    apply (rule st [OF _ True_fixed fence, where Q = ?Q], (use t in \<open>auto simp: calm_pass\<close>)[3])
    apply (rule st [OF _ True_fixed acts_log [OF True_fixed], where Q = ?Q], (use t in \<open>auto simp: calm_pass\<close>)[3])
    apply (rule live_end, erule at_irq_mono, use a in simp_all)
    done
qed

lemma p2_4_mapped_ensures:
  assumes t: "timely clock N" "b + 100020 \<le> N" and a: "1 \<le> a" and V: "V = fresh_view root c tr"
  shows "ensures (at_irq clock (vseen V) idle a b) (p2_4_mapped clock root) (at_irq clock (\<lambda>_. True) (\<lambda>I. calm I \<and> \<not> i_sie I) 1 (b + 10100))"
proof -
  note st = ensures_live_act [OF t(1)]
  define V1 where "V1 = V\<lparr>v_trap := (v_trap V)\<lparr>handler_action := 0\<rparr>\<rparr>"
  define V2 where "V2 = V1\<lparr>v_data := (v_data V1)(SRAM_BASE + 0x1E0000 \<mapsto> 0xDEAD0004)\<rparr>"
  define V3 where "V3 = map_view 0xD0400000 test_entry V2"
  define V4 where "V4 = V3\<lparr>v_trusted := UNIV\<rparr>"
  define V5 where "V5 = fix_view Load 0xD0400000 test_entry V4"
  note Vs = V1_def V2_def V3_def V4_def V
  note sv = undisturbed_vseen
  have fx: "fixable V4 Load 0xD0400000 test_entry"
    by (rule test_fixable) (simp_all add: Vs test_page(2) perms c_perms(1))
  have w: "v_data V4 (pte_target test_entry) = Some 0xDEAD0004"
    by (simp add: Vs c_targets(1) [OF test_page(3)] fresh_view_def)
  let ?E = "\<lambda>I. calm I \<and> \<not> i_sie I" and ?U = "\<lambda>I. idle I \<and> i_sie I \<and> i_stie I \<and> unfired 0 I"
  have rest: "ensures (at_irq clock (vseen V4) (pend clock (m + 100000) (unfired 0) (fired_once 0)) (m + 3) (m + 3)) (live clock
      [vload 0xD0400000 (\<lambda>val. live clock [delay clock 10000, exec disable_s_interrupts,
         \<lambda>s. test_assert (1 \<le> fault_count (g_trap s)) m1 630 s, ASSERT_EQ val 0xDEAD0004 m2 631,
         \<lambda>s. if 0 < timer_irq_count (g_trap s) then uart_puts m3 s else uart_puts m4 s,
         exec (write_csr_satp 0), exec sfence_vma_all, TEST_LOG m5])]) (at_irq clock (\<lambda>_. True) ?E 1 (b + 10100))"
    if m: "m < b + 10" for m m1 m2 m3 m4 m5
  proof -
    have "ensures (at_irq clock (\<lambda>_. True) ?E 1 (m + 10013)) (pass clock) (at_irq clock (\<lambda>_. True) ?E (Suc 1) (Suc (m + 10013)))"
      by (rule ensures_pass [OF t(1)]) (use m t(2) in \<open>auto simp: calm_pass undisturbed_def quiet_def\<close>)
    then have ps: "ensures (at_irq clock (\<lambda>_. True) ?E 1 (m + 10013)) (pass clock) (at_irq clock (\<lambda>_. True) ?E 1 (b + 10100))"
      by (rule ensures_post) (erule at_irq_mono, use m in simp_all)
    have "ensures (at_irq clock (vseen V5) (pend clock (m + 100000) (unfired 1) (fired_once 1)) (m + 3) (m + 3)) (live clock [delay clock 10000, exec disable_s_interrupts,
         \<lambda>s. test_assert (1 \<le> fault_count (g_trap s)) m1 630 s, ASSERT_EQ 0xDEAD0004 0xDEAD0004 m2 631,
         \<lambda>s. if 0 < timer_irq_count (g_trap s) then uart_puts m3 s else uart_puts m4 s,
         exec (write_csr_satp 0), exec sfence_vma_all, TEST_LOG m5]) (at_irq clock (\<lambda>_. True) ?E 1 (m + 3 + 10010))"
      by (rule p2_4_tail [OF t(1) _ sv _ refl]) (use m t(2) in simp_all)
    then have tail: "ensures (at_irq clock (vseen V5) (pend clock (m + 100000) (unfired 1) (fired_once 1)) (m + 3) (m + 3)) (live clock [delay clock 10000, exec disable_s_interrupts,
         \<lambda>s. test_assert (1 \<le> fault_count (g_trap s)) m1 630 s, ASSERT_EQ 0xDEAD0004 0xDEAD0004 m2 631,
         \<lambda>s. if 0 < timer_irq_count (g_trap s) then uart_puts m3 s else uart_puts m4 s,
         exec (write_csr_satp 0), exec sfence_vma_all, TEST_LOG m5]) (at_irq clock (\<lambda>_. True) ?E 1 (m + 10013))" by (simp add: add.commute)
    show ?thesis
      by (rule ensures_live [OF _ ps ensures_live_Nil],
        rule ensures_load_fix [OF fx w, where Q = "pend clock (m + 100000) (unfired 1) (fired_once 1)"],
        erule pend_fault, rule tail [unfolded V5_def])
  qed
  show ?thesis
    unfolding p2_4_mapped_def Let_def
    apply (rule st [OF _ sv acts_action [where V = V and h = 0, folded V1_def], where Q = idle], (use t in \<open>simp_all add: idle_pass\<close>)[3])
    apply (rule st [OF _ sv acts_counters(1) [OF sv], where Q = "\<lambda>I. idle I \<and> i_faults I = 0"], (use t in \<open>simp_all add: idle_pass idle_def\<close>)[3])
    apply (rule st [OF _ sv acts_counters(3) [OF sv], where Q = "\<lambda>I. idle I \<and> unfired 0 I"], (use t in \<open>simp_all add: idle_pass idle_def\<close>)[3])
    apply (rule st [OF _ sv acts_store_free [OF test_page(2), where V = V1 and w = "0xDEAD0004", folded V2_def], where Q = "\<lambda>I. idle I \<and> unfired 0 I"],
        (use t in \<open>simp_all add: idle_pass Vs fresh_view_def\<close>)[4])
    apply (rule st [OF _ sv acts_map [OF test_page(1), where V = V2 and valid = False and pa = "SRAM_BASE + 0x1E0000" and perm = "PTE_R OR PTE_W", folded V3_def], where Q = "\<lambda>I. idle I \<and> unfired 0 I"],
        (use t tables_for_le [of V2 "0xD0400000"] in \<open>simp_all add: idle_pass Vs fresh_view_def\<close>)[6])
    apply (rule st [OF _ sv acts_fence [where V = V3, folded V4_def], where Q = "\<lambda>I. idle I \<and> unfired 0 I"], (use t in \<open>simp_all add: idle_pass\<close>)[3])
    apply (rule st [OF _ sv acts_enable(1) [OF sv], where Q = "\<lambda>I. idle I \<and> i_stie I \<and> unfired 0 I"], (use t in \<open>simp_all add: idle_pass idle_def\<close>)[3])
    apply (rule st [OF _ sv acts_enable(3) [OF sv], where Q = ?U], (use t in \<open>simp_all add: idle_pass idle_def\<close>)[3])
    apply (rule ensures_split, use a in simp)
    subgoal premises m for m
    proof -
      have set: "ensures (at_irq clock (vseen V4) ?U (Suc m) (Suc m)) (reading clock read_mtime (\<lambda>now. sbi_set_timer (now + 200)))
          (at_irq clock (vseen V4) (pend clock (m + 100000) (unfired 0) (fired_once 0)) (m + 2) (m + 2))"
        using ensures_set_pend [OF t(1) _ sv, of m 200 200 "unfired 0" V4 "fired_once 0"] m t(2) by simp
      have ps: "ensures (at_irq clock (vseen V4) (pend clock (m + 100000) (unfired 0) (fired_once 0)) (m + 2) (m + 2)) (pass clock)
          (at_irq clock (vseen V4) (pend clock (m + 100000) (unfired 0) (fired_once 0)) (m + 3) (m + 3))"
        using pass_pend [OF t(1) _ sv, of "m + 2" "unfired 0" "fired_once 0" V4 "m + 100000" "m + 2"] m t(2)
        by (simp add: fired_def small_counts numeral_3_eq_3)
      show ?thesis by (rule ensures_live [OF set ps rest]) (use m in simp)
    qed
    done
qed

lemma p2_4_ensures:
  assumes t: "timely clock N" "b + 100100 \<le> N" and a: "1 \<le> a"
  shows "ensures (at_irq clock (bare_as root c tr) idle a b) (p2_4 clock) (at_irq clock (\<lambda>_. True) (\<lambda>I. calm I \<and> \<not> i_sie I) 1 (b + 10200))"
proof -
  note st = ensures_live_act [OF t(1)]
  let ?V = "fresh_view root c tr" and ?E = "\<lambda>I. calm I \<and> \<not> i_sie I"
  have on: "ensures (at_irq clock (enabled root ?V) idle (Suc (Suc a)) (Suc (Suc b))) (block [pass clock, exec (mmu_enable_sv39 root), pass clock, p2_4_mapped clock root])
      (at_irq clock (\<lambda>_. True) ?E 1 (b + 10104))"
  proof (intro ensures_Cons [OF _ ensures_Cons [OF _ ensures_Cons [OF _ ensures_one]]])
    show "ensures (at_irq clock (enabled root ?V) idle (Suc (Suc a)) (Suc (Suc b))) (pass clock) (at_irq clock (enabled root ?V) idle (Suc (Suc (Suc a))) (Suc (Suc (Suc b))))"
      by (rule ensures_pass [OF t(1) _ undisturbed_enabled]) (use t(2) in \<open>simp_all add: idle_pass\<close>)
    show "ensures (at_irq clock (enabled root ?V) idle (Suc (Suc (Suc a))) (Suc (Suc (Suc b)))) (exec (mmu_enable_sv39 root))
        (at_irq clock (vseen ?V) idle (Suc (Suc (Suc a))) (Suc (Suc (Suc b))))"
      by (rule ensures_act [OF acts_mmu_on]) simp_all
    show "ensures (at_irq clock (vseen ?V) idle (Suc (Suc (Suc a))) (Suc (Suc (Suc b)))) (pass clock) (at_irq clock (vseen ?V) idle (Suc (Suc (Suc (Suc a)))) (b + 4))"
      by (rule ensures_post [OF ensures_pass [OF t(1) _ undisturbed_vseen, where Q = idle]]) (use t(2) in \<open>auto simp: idle_pass elim: at_irq_mono\<close>)
    show "ensures (at_irq clock (vseen ?V) idle (Suc (Suc (Suc (Suc a)))) (b + 4)) (p2_4_mapped clock root) (at_irq clock (\<lambda>_. True) ?E 1 (b + 10104))"
      by (rule ensures_post [OF p2_4_mapped_ensures [OF t(1) _ _ refl]]) (use t(2) in \<open>auto elim: at_irq_mono\<close>)
  qed
  have fin: "ensures (at_irq clock (\<lambda>_. True) ?E 1 (b + 10104)) (pass clock) (at_irq clock (\<lambda>_. True) ?E 1 (b + 10200))"
    by (rule ensures_post [OF ensures_pass [OF t(1), where Q = ?E]])
      (use t(2) in \<open>auto simp: calm_pass undisturbed_def quiet_def elim: at_irq_mono\<close>)
  show ?thesis
    unfolding p2_4_def
    apply (rule st [OF _ undisturbed_bare(1) acts_log [OF undisturbed_bare(1)], where Q = idle], (use t in \<open>simp_all add: idle_pass\<close>)[3])
    apply (rule st [OF _ undisturbed_bare(2) acts_pt_reset, where Q = idle], (use t in \<open>simp_all add: idle_pass\<close>)[3])
    apply (rule ensures_live [OF ensures_setup fin ensures_live_Nil], rule on)
    done
qed

section \<open>The program\<close>

text \<open>The test before the one with the page fault takes any state of the tables; that test takes any root, controls and handler.\<close>

lemma ensures_bare:
  assumes "\<And>root c tr. ensures (at_irq clock (bare_as root c tr) P a b) f S"
  shows "ensures (at_irq clock deep P a b) f S"
proof (rule ensuresI)
  fix s :: "'a timed_machine_scheme" assume d: "dev_ok (dev s)" and at: "at_irq clock deep P a b s"
  then have "at_irq clock (bare_as (pt_pool s) (mmu_view s) (g_trap s)) P a b s" by (simp add: at_irq_def bare_as_def)
  from ensuresD [OF assms d this] show "\<exists>s'. f s = Ret s' \<and> dev_ok (dev s') \<and> S s'" .
qed

lemma True_undisturbed: "undisturbed (\<lambda>_. True)"
  by (simp add: undisturbed_def quiet_def)

lemma next_calm:
  assumes t: "timely clock N" "b \<le> N" and R: "undisturbed R"
  shows "ensures (at_irq clock R (\<lambda>I. calm I \<and> \<not> i_sie I) 1 b) (pass clock) (at_irq clock R (\<lambda>I. calm I \<and> \<not> i_sie I) 1 (Suc b))"
  by (rule ensures_post [OF ensures_pass [OF t R, where Q = "\<lambda>I. calm I \<and> \<not> i_sie I"]]) (auto simp: calm_pass elim: at_irq_mono)

lemma next_idle:
  assumes t: "timely clock N" "b \<le> N" and R: "undisturbed R" and Q: "\<And>I. Q I \<Longrightarrow> Q (i_tick clock I)"
  shows "ensures (at_irq clock R (\<lambda>I. idle I \<and> Q I) 1 b) (pass clock) (at_irq clock R (\<lambda>I. idle I \<and> Q I) 1 (Suc b))"
  by (rule pass_idle [where Q = Q, OF t R]) (use Q in simp_all)

lemma p2_main_ensures:
  assumes t: "timely clock 3000000"
  shows "ensures (at_irq clock deep idle 0 0) (live clock
    [banner m1, p2_1 clock, p2_2 clock, p2_3 clock, p2_4 clock, p2_5 clock, p2_6 clock, p2_7 clock, banner m2]) (\<lambda>_. True)"
proof (rule ensures_bare)
  fix root c tr
  let ?R = "bare_as root c tr" and ?T = "\<lambda>_. True"
  note R = undisturbed_bare(1) and T = True_undisturbed
  show "ensures (at_irq clock ?R idle 0 0) (live clock
    [banner m1, p2_1 clock, p2_2 clock, p2_3 clock, p2_4 clock, p2_5 clock, p2_6 clock, p2_7 clock, banner m2]) (\<lambda>_. True)"
    apply (rule ensures_live_act [OF t _ R acts_banner [OF R], where Q = idle], (simp_all add: idle_pass)[3])
    apply (rule ensures_live [OF p2_1_ensures [OF t _ R] next_idle [OF t _ R]], (simp_all)[4])
    apply (rule ensures_live [OF p2_2_ensures [OF t _ R] next_idle [OF t _ R]], (simp_all)[3])
    apply (rule ensures_live [OF p2_3_ensures [OF t _ R] next_idle [OF t _ R, where Q = ?T, unfolded simp_thms]], (simp_all)[3])
    apply (rule ensures_live [OF p2_4_ensures [OF t] next_calm [OF t _ T]], (simp_all)[3])
    apply (rule ensures_live [OF ensures_pre [OF _ p2_5_ensures [where b = 2513205, OF t _ T]] next_calm [OF t _ T]], erule at_irq_mono, (simp_all)[5])
    apply (rule ensures_live [OF p2_6_ensures [OF t _ T] next_idle [OF t _ T]], (simp_all)[3])
    apply (rule ensures_live [OF p2_7_ensures [OF t _ T] next_idle [OF t _ T, where Q = ?T, unfolded simp_thms]], (simp_all)[3])
    apply (rule ensures_live_act [OF t _ T acts_banner [OF T], where Q = idle], (simp_all add: idle_pass)[3])
    apply (rule live_end, simp)
    done
qed

lemma p2_entry_passes:
  assumes "dev_ok (dev s)" "irq_ok s" "deep s" "idle (irq_ctl s)" "moment s = 0" "timely clock 3000000"
  shows "ends_in_pass (s_mode_entry vec (p2_test_main clock) s)"
  unfolding p2_test_main_def
proof (rule entry_ensures [OF assms(1) _ _ p2_main_ensures [OF assms(6)]])
  show "at_irq clock deep idle 0 0 (write_csr_stvec vec s)"
    using assms by (simp add: at_irq_def write_csr_stvec_def irq_ok_def irq_ctl_def deep_def pool_ok_def layout_ok_def)
  show "quiet (at_irq clock deep idle 0 0)"
    by (rule quietI) (simp add: at_irq_def deep_def pool_ok_def layout_ok_def)
qed

text \<open>
  C7. The bare-metal image of phase 2 ends in a pass, from reset on, on a hart to which time passes between any two statements and in every
  iteration of a waiting loop, and which takes the interrupts that are then pending and enabled, one after the other. For every clock that
  never goes back and advances at least once in 500 such moments, wherever in the program the interrupts fall: each timer interrupt that is
  asked for is forwarded by the firmware and delivered to the S-mode handler exactly once and before the loop that waits for it gives up; an interrupt
  that is masked in \<^verbatim>\<open>sstatus\<close> or \<^verbatim>\<open>sie\<close> is seen pending, is not delivered, and is delivered once when it is let through; \<open>wfi\<close> returns; the
  page fault is repaired and the load returns the stored value, whether or not the timer expires around it. Neither the reset path
  nor the program sets what this relies on: no supervisor interrupt and no software interrupt pending at reset, and a comparator that
  the clock does not reach.
\<close>

theorem p2_image_passes:
  assumes "dev_ok (dev s)" "csr_mhartid (cpu s) = 0" "linked L s" "timely clock 3000000" "moment s = 0"
    "\<not> bit (csr_mip (cpu s)) 1" "\<not> bit (csr_mip (cpu s)) 5" "\<not> bit (csr_mip (cpu s)) 9"
    "\<not> bit (clint32 s (CLINT_MSIP 0)) 0" "2 ^ 63 \<le> clint64 s (CLINT_MTIMECMP 0)"
  shows "ends_in_pass (image L (p2_test_main clock) s)"
proof -
  from start_booted [OF assms(1-3)] obtain s' where s': "image L (p2_test_main clock) s = s_mode_entry (s_trap_vector_at L) (p2_test_main clock) s'"
    "booted s'" "start_effect L s s'" "reg 2 s' = stack0_top L" by metis
  have e: "timed_machine.moment s' = moment s"
    using s'(3) by (cases s; cases s') (simp add: start_effect_def)
  have "irq_ok s'" using s'(3) assms(2,8) by (simp add: start_effect_def irq_ok_def MIE_BOOT_def bit_simps)
  moreover have "deep s'" using s'(2-4) assms(3) by (simp add: booted_def deep_def start_effect_def linked_def)
  moreover have "idle (irq_ctl s')" using s'(3) assms(6,7,9,10) by (simp add: start_effect_def idle_def)
  moreover have "dev_ok (dev s')" using s'(2) by (simp add: booted_def)
  ultimately show ?thesis unfolding s'(1) using p2_entry_passes [OF _ _ _ _ _ assms(4)] e assms(5) by simp
qed

section \<open>Witnesses\<close>

lemma demo_clock: "timely (\<lambda>n. n div 500) N" if "N < 2 ^ 63"
  using that div_le_dividend [of N 500] by (auto simp: timely_def div_le_mono simp del: div_le_dividend)

theorem p2_image_passes_witness: "ends_in_pass (image demo_symbols (p2_test_main (\<lambda>n. n div 500)) (demo_timed\<lparr>clint64 := \<lambda>_. - 1\<rparr>))"
proof (rule p2_image_passes)
  show "timely (\<lambda>n. n div 500) 3000000" by (rule demo_clock) simp
  show "dev_ok (dev (demo_timed\<lparr>clint64 := \<lambda>_. - 1\<rparr>))" "csr_mhartid (cpu (demo_timed\<lparr>clint64 := \<lambda>_. - 1\<rparr>)) = 0"
    "linked demo_symbols (demo_timed\<lparr>clint64 := \<lambda>_. - 1\<rparr>)"
    using demo_reset_fields(1-3) by (simp_all add: demo_timed_def reset_machine.defs timed_machine.defs linked_def)
qed (simp_all add: demo_timed_def demo_reset_def demo_program_def demo_machine_def demo_hart_def reset_machine.defs timed_machine.defs
    program.defs machine.defs)

end
