(* ===== verification/BareAtomics.thy ===== *)
theory BareAtomics
  imports BareSanity
begin

text \<open>
  Phase 3 of the bare-metal suite, \<^verbatim>\<open>tests/p3_atomics.c\<close>: LR/SC, the AMOs of both widths and compare-and-swap, on the word
  \<open>atom64\<close> and the half word \<open>atom32\<close> of the program's state.
\<close>

section \<open>The program\<close>

text \<open>The hart with its reservation and the store-conditionals that fail although the reservation holds, as in \<open>amach\<close>.\<close>

record atomic_machine = machine +
  p3_resv :: "u64 option"
  p3_spurious :: "nat \<Rightarrow> bool"

definition amach_of :: "'z atomic_machine_scheme \<Rightarrow> amach" where
  "amach_of s = \<lparr>mem = mem s, resv = p3_resv s, sc_spurious = p3_spurious s\<rparr>"

definition put_amach :: "amach \<Rightarrow> 'z atomic_machine_scheme \<Rightarrow> 'z atomic_machine_scheme" where
  "put_amach a s = s\<lparr>mem := mem a, p3_resv := resv a, p3_spurious := sc_spurious a\<rparr>"

text \<open>An operation that returns a value, and the statements that use it.\<close>

definition with_value :: "('s \<Rightarrow> 'a \<times> 's) \<Rightarrow> ('a \<Rightarrow> 's \<Rightarrow> 's run) \<Rightarrow> 's \<Rightarrow> 's run" where
  "with_value f k s = (case f s of (v, s') \<Rightarrow> k v s')"

definition on_amach :: "(amach \<Rightarrow> 'a \<times> amach) \<Rightarrow> 'z atomic_machine_scheme \<Rightarrow> 'a \<times> 'z atomic_machine_scheme" where
  "on_amach f s = (case f (amach_of s) of (v, a) \<Rightarrow> (v, put_amach a s))"

definition with_cas :: "u64 \<Rightarrow> u64 \<Rightarrow> u64 \<Rightarrow> (c_int \<Rightarrow> 'z atomic_machine_scheme \<Rightarrow> 'z atomic_machine_scheme run) \<Rightarrow>
    'z atomic_machine_scheme \<Rightarrow> 'z atomic_machine_scheme run" where
  "with_cas addr expected desired k s =
     (case cas_d addr expected desired (amach_of s) of None \<Rightarrow> Hang | Some (ok, a) \<Rightarrow> k ok (put_amach a s))"

definition atom64 :: "u64 \<Rightarrow> u64" where "atom64 g_p3 = g_p3"
definition atom32 :: "u64 \<Rightarrow> u64" where "atom32 g_p3 = g_p3 + 8"

definition p3_1 :: "u64 \<Rightarrow> 'z atomic_machine_scheme \<Rightarrow> 'z atomic_machine_scheme run" where
  "p3_1 g_p3 = (let a = atom64 g_p3 in block
     [TEST_LOG (''P3.1 '' @ dash @ '' LR/SC (success + failure path)...''),
      exec (st64 a 0x1122334455667788),
      with_value (on_amach (lr_d a)) (\<lambda>old. ASSERT_EQ old 0x1122334455667788 ''P3.1 lr.d old value'' 700),
      with_value (on_amach (sc_d a 0xAABBCCDDEEFF0011)) (\<lambda>sc_ok. ASSERT_EQ sc_ok 0 ''P3.1 first sc.d should succeed'' 701),
      \<lambda>s. ASSERT_EQ (mem s a) 0xAABBCCDDEEFF0011 ''P3.1 first sc.d write'' 702 s,
      with_value (on_amach (lr_d_aq a)) (\<lambda>old. ASSERT_EQ old 0xAABBCCDDEEFF0011 ''P3.1 lr.d.aq old value'' 705),
      with_value (on_amach (sc_d_rl a 0x0102030405060708)) (\<lambda>sc_ok. ASSERT_EQ sc_ok 0 ''P3.1 sc.d.rl should succeed'' 706),
      \<lambda>s. ASSERT_EQ (mem s a) 0x0102030405060708 ''P3.1 sc.d.rl write'' 707 s,
      TEST_LOG (''P3.1 '' @ dash @ '' LR/SC: OK'')])"

definition p3_2 :: "u64 \<Rightarrow> 'z atomic_machine_scheme \<Rightarrow> 'z atomic_machine_scheme run" where
  "p3_2 g_p3 = (let a = atom64 g_p3 in block
     [TEST_LOG (''P3.2 '' @ dash @ '' AMO .d (swap/add/and/or/xor/min/max)...''),
      exec (st64 a 0x10),
      with_value (amo_swap_d a 0x44) (\<lambda>old. ASSERT_EQ old 0x10 ''P3.2 amoswap.d old'' 710),
      \<lambda>s. ASSERT_EQ (mem s a) 0x44 ''P3.2 amoswap.d new'' 711 s,
      with_value (amo_add_d a 0x05) (\<lambda>old. ASSERT_EQ old 0x44 ''P3.2 amoadd.d old'' 712),
      \<lambda>s. ASSERT_EQ (mem s a) 0x49 ''P3.2 amoadd.d new'' 713 s,
      with_value (amo_and_d a 0x0F) (\<lambda>old. ASSERT_EQ old 0x49 ''P3.2 amoand.d old'' 714),
      \<lambda>s. ASSERT_EQ (mem s a) 0x09 ''P3.2 amoand.d new'' 715 s,
      with_value (amo_or_d a 0x30) (\<lambda>old. ASSERT_EQ old 0x09 ''P3.2 amoor.d old'' 716),
      \<lambda>s. ASSERT_EQ (mem s a) 0x39 ''P3.2 amoor.d new'' 717 s,
      with_value (amo_xor_d a 0x11) (\<lambda>old. ASSERT_EQ old 0x39 ''P3.2 amoxor.d old'' 718),
      \<lambda>s. ASSERT_EQ (mem s a) 0x28 ''P3.2 amoxor.d new'' 719 s,
      exec (st64 a 5),
      with_value (amo_min_d a (u64_of_int (- 3))) (\<lambda>old. ASSERT_EQ old 5 ''P3.2 amomin.d old'' 720),
      \<lambda>s. ASSERT_EQ (mem s a) (u64_of_int (- 3)) ''P3.2 amomin.d new'' 721 s,
      with_value (amo_max_d a 7) (\<lambda>old. ASSERT_EQ old (u64_of_int (- 3)) ''P3.2 amomax.d old'' 722),
      \<lambda>s. ASSERT_EQ (mem s a) 7 ''P3.2 amomax.d new'' 723 s,
      exec (st64 a 5),
      with_value (amo_maxu_d a (u64_of_int (- 3))) (\<lambda>old. ASSERT_EQ old 5 ''P3.2 amomaxu.d old'' 724),
      \<lambda>s. ASSERT_EQ (mem s a) (- 3) ''P3.2 amomaxu.d new'' 725 s,
      exec (st64 a (- 3)),
      with_value (amo_minu_d a 5) (\<lambda>old. ASSERT_EQ old (- 3) ''P3.2 amominu.d old'' 726),
      \<lambda>s. ASSERT_EQ (mem s a) 5 ''P3.2 amominu.d new'' 727 s,
      TEST_LOG (''P3.2 '' @ dash @ '' AMO .d: OK'')])"

definition p3_3 :: "u64 \<Rightarrow> 'z atomic_machine_scheme \<Rightarrow> 'z atomic_machine_scheme run" where
  "p3_3 g_p3 = (let b = atom32 g_p3 in block
     [TEST_LOG (''P3.3 '' @ dash @ '' AMO .w (swap/add/and/or/xor/min/max)...''),
      exec (st32 b 0x10),
      with_value (amo_swap_w b 0x77) (\<lambda>old32. ASSERT_EQ (ucast old32) 0x10 ''P3.3 amoswap.w old'' 730),
      \<lambda>s. ASSERT_EQ (ucast (ld32 s b)) 0x77 ''P3.3 amoswap.w new'' 731 s,
      with_value (amo_add_w b 0x09) (\<lambda>old32. ASSERT_EQ (ucast old32) 0x77 ''P3.3 amoadd.w old'' 732),
      \<lambda>s. ASSERT_EQ (ucast (ld32 s b)) 0x80 ''P3.3 amoadd.w new'' 733 s,
      with_value (amo_and_w b 0x0F) (\<lambda>old32. ASSERT_EQ (ucast old32) 0x80 ''P3.3 amoand.w old'' 734),
      \<lambda>s. ASSERT_EQ (ucast (ld32 s b)) 0x00 ''P3.3 amoand.w new'' 735 s,
      with_value (amo_or_w b 0x33) (\<lambda>old32. ASSERT_EQ (ucast old32) 0x00 ''P3.3 amoor.w old'' 736),
      \<lambda>s. ASSERT_EQ (ucast (ld32 s b)) 0x33 ''P3.3 amoor.w new'' 737 s,
      with_value (amo_xor_w b 0x55) (\<lambda>old32. ASSERT_EQ (ucast old32) 0x33 ''P3.3 amoxor.w old'' 738),
      \<lambda>s. ASSERT_EQ (ucast (ld32 s b)) 0x66 ''P3.3 amoxor.w new'' 739 s,
      exec (st32 b 5),
      with_value (amo_min_w b (- 2)) (\<lambda>old32. ASSERT_EQ (ucast old32) 5 ''P3.3 amomin.w old'' 740),
      \<lambda>s. ASSERT_EQ (scast (ld32 s b)) (u64_of_int (- 2)) ''P3.3 amomin.w new'' 741 s,
      with_value (amo_max_w b 7) (\<lambda>old32. ASSERT_EQ (scast old32) (u64_of_int (- 2)) ''P3.3 amomax.w old'' 742),
      \<lambda>s. ASSERT_EQ (scast (ld32 s b)) 7 ''P3.3 amomax.w new'' 743 s,
      exec (st32 b 5),
      with_value (amo_maxu_w b (word_of_int (- 3))) (\<lambda>old32. ASSERT_EQ (ucast old32) 5 ''P3.3 amomaxu.w old'' 744),
      \<lambda>s. ASSERT_EQ (ucast (ld32 s b)) (ucast (- 3 :: u32)) ''P3.3 amomaxu.w new'' 745 s,
      exec (st32 b (- 3)),
      with_value (amo_minu_w b 5) (\<lambda>old32. ASSERT_EQ (ucast old32) (ucast (- 3 :: u32)) ''P3.3 amominu.w old'' 746),
      \<lambda>s. ASSERT_EQ (ucast (ld32 s b)) 5 ''P3.3 amominu.w new'' 747 s,
      TEST_LOG (''P3.3 '' @ dash @ '' AMO .w: OK'')])"

definition p3_4 :: "u64 \<Rightarrow> 'z atomic_machine_scheme \<Rightarrow> 'z atomic_machine_scheme run" where
  "p3_4 g_p3 = (let a = atom64 g_p3 in block
     [TEST_LOG (''P3.4 '' @ dash @ '' CAS via LR/SC...''),
      exec (st64 a 0x1111),
      with_cas a 0x1111 0x2222 (\<lambda>ok. ASSERT_EQ (u64_of_int ok) 1 ''P3.4 CAS should succeed on matching expected'' 748),
      \<lambda>s. ASSERT_EQ (mem s a) 0x2222 ''P3.4 CAS success value'' 749 s,
      with_cas a 0x1111 0x3333 (\<lambda>ok. ASSERT_EQ (u64_of_int ok) 0 ''P3.4 CAS should fail on mismatched expected'' 750),
      \<lambda>s. ASSERT_EQ (mem s a) 0x2222 ''P3.4 CAS failure should not update'' 751 s,
      TEST_LOG (''P3.4 '' @ dash @ '' CAS: OK'')])"

definition p3_test_main :: "u64 \<Rightarrow> 'z atomic_machine_scheme \<Rightarrow> (c_int \<times> 'z atomic_machine_scheme) run" where
  "p3_test_main g_p3 s = returning 0 (block
     [banner ''Phase 3: Atomic Operations Tests'',
      p3_1 g_p3, p3_2 g_p3, p3_3 g_p3, p3_4 g_p3,
      banner ''Phase 3: ALL TESTS PASSED''] s)"

section \<open>The operations\<close>

text \<open>The word or half word holds \<open>v\<close>, and these store-conditionals will fail.\<close>

definition holds64 :: "u64 \<Rightarrow> u64 \<Rightarrow> (nat \<Rightarrow> bool) \<Rightarrow> 'z atomic_machine_scheme \<Rightarrow> bool" where
  "holds64 a v sp s \<longleftrightarrow> mem s a = v \<and> p3_spurious s = sp"

definition holds32 :: "u64 \<Rightarrow> u32 \<Rightarrow> (nat \<Rightarrow> bool) \<Rightarrow> 'z atomic_machine_scheme \<Rightarrow> bool" where
  "holds32 b v sp s \<longleftrightarrow> ld32 s b = v \<and> p3_spurious s = sp"

definition spurious :: "(nat \<Rightarrow> bool) \<Rightarrow> 'z atomic_machine_scheme \<Rightarrow> bool" where
  "spurious sp s \<longleftrightarrow> p3_spurious s = sp"

lemma quiet_holds: "quiet (holds64 a v sp)" "quiet (holds32 b w sp)" "quiet (spurious sp)"
  by (rule quietI, simp add: holds64_def holds32_def spurious_def ld32_def)+

lemma stores_keep [simp]:
  "p3_spurious (st32 b v s) = p3_spurious s" "p3_resv (st32 b v s) = p3_resv s" "dev (st32 b v t) = dev t"
  "p3_spurious (st64 b w s) = p3_spurious s" "p3_resv (st64 b w s) = p3_resv s" "dev (st64 b w t) = dev t"
  by (simp_all add: st32_def Let_def st64_def)

lemma ensures_amo_d:
  assumes "f old x = new" "ensures (holds64 a new sp) (block fs) R"
  shows "ensures (holds64 a old sp) (block (with_value (amo_d f a x) (\<lambda>v. ASSERT_EQ v old m c) #
    (\<lambda>s. ASSERT_EQ (mem s a) new m' c' s) # fs)) R"
proof (rule ensures_Cons)
  show "ensures (holds64 a old sp) (with_value (amo_d f a x) (\<lambda>v. ASSERT_EQ v old m c)) (holds64 a new sp)"
    by (rule ensuresI) (use assms(1) in \<open>simp add: with_value_def amo_d_def holds64_def ASSERT_EQ_def st64_def\<close>)
  show "ensures (holds64 a new sp) (block ((\<lambda>s. ASSERT_EQ (mem s a) new m' c' s) # fs)) R"
    by (rule ensures_Cons [OF ensures_assert_eq assms(2)]) (simp add: holds64_def)
qed

text \<open>The sources read the half word back unsigned or sign-extended: \<open>g\<close> and \<open>h\<close> are the two conversions.\<close>

lemma ensures_amo_w:
  assumes "f old x = new" "g old = o'" "h new = n'" "ensures (holds32 b new sp) (block fs) R"
  shows "ensures (holds32 b old sp) (block (with_value (amo_w f b x) (\<lambda>v. ASSERT_EQ (g v) o' m c) #
    (\<lambda>s. ASSERT_EQ (h (ld32 s b)) n' m' c' s) # fs)) R"
proof (rule ensures_Cons)
  show "ensures (holds32 b old sp) (with_value (amo_w f b x) (\<lambda>v. ASSERT_EQ (g v) o' m c)) (holds32 b new sp)"
    by (rule ensuresI) (use assms(1,2) in \<open>auto simp: with_value_def amo_w_def holds32_def ASSERT_EQ_def ld32_st32(1)\<close>)
  show "ensures (holds32 b new sp) (block ((\<lambda>s. ASSERT_EQ (h (ld32 s b)) n' m' c' s) # fs)) R"
    by (rule ensures_Cons [OF ensures_assert_eq assms(4)]) (use assms(3) in \<open>simp add: holds32_def\<close>)
qed

lemma ensures_st64:
  assumes "\<And>s. P s \<Longrightarrow> p3_spurious s = sp"
  shows "ensures P (exec (st64 a v)) (holds64 a v sp)"
  by (rule ensures_exec) (use assms in \<open>auto simp: holds64_def st64_def\<close>)

lemma ensures_st32:
  assumes "\<And>s. P s \<Longrightarrow> p3_spurious s = sp"
  shows "ensures P (exec (st32 b v)) (holds32 b v sp)"
  by (rule ensures_exec) (use assms in \<open>auto simp: holds32_def ld32_st32(1)\<close>)

lemma holds_spurious: "holds64 a v sp s \<Longrightarrow> p3_spurious s = sp" "holds32 b w sp s \<Longrightarrow> p3_spurious s = sp"
  "spurious sp s \<Longrightarrow> p3_spurious s = sp"
  by (simp_all add: holds64_def holds32_def spurious_def)

lemmas amo_d_defs = amo_swap_d_def amo_add_d_def amo_and_d_def amo_or_d_def amo_xor_d_def amo_min_d_def amo_max_d_def
  amo_minu_d_def amo_maxu_d_def

lemmas amo_w_defs = amo_swap_w_def amo_add_w_def amo_and_w_def amo_or_w_def amo_xor_w_def amo_min_w_def amo_max_w_def
  amo_minu_w_def amo_maxu_w_def

lemma p3_2_ensures: "ensures (spurious sp) (p3_2 g_p3) (spurious sp)"
  unfolding p3_2_def Let_def amo_d_defs u64_of_int_def
  apply (rule ensures_Cons, rule ensures_log, rule quiet_holds)
  apply (rule ensures_Cons, rule ensures_st64, erule holds_spurious)
  apply (rule ensures_amo_d, simp)+
  apply (rule ensures_Cons, rule ensures_st64, erule holds_spurious)
  apply (rule ensures_amo_d, simp)+
  apply (rule ensures_Cons, rule ensures_st64, erule holds_spurious)
  apply (rule ensures_amo_d, simp)+
  apply (rule ensures_Cons, rule ensures_st64, erule holds_spurious)
  apply (rule ensures_amo_d, simp)+
  apply (rule ensures_post [OF ensures_one [OF ensures_log]], rule quiet_holds, simp add: holds64_def spurious_def)
  done

lemma p3_3_ensures: "ensures (spurious sp) (p3_3 g_p3) (spurious sp)"
  unfolding p3_3_def Let_def amo_w_defs u64_of_int_def
  apply (rule ensures_Cons, rule ensures_log, rule quiet_holds)
  apply (rule ensures_Cons, rule ensures_st32, erule holds_spurious)
  apply (rule ensures_amo_w, simp, simp, simp)+
  apply (rule ensures_Cons, rule ensures_st32, erule holds_spurious)
  apply (rule ensures_amo_w, simp, simp, simp)+
  apply (rule ensures_Cons, rule ensures_st32, erule holds_spurious)
  apply (rule ensures_amo_w, simp, simp, simp)+
  apply (rule ensures_Cons, rule ensures_st32, erule holds_spurious)
  apply (rule ensures_amo_w, simp, simp, simp)+
  apply (rule ensures_post [OF ensures_one [OF ensures_log]], rule quiet_holds, simp add: holds32_def spurious_def)
  done

text \<open>LR/SC: the pair succeeds unless the environment lets the store-conditional fail.\<close>

definition reserved :: "u64 \<Rightarrow> u64 \<Rightarrow> (nat \<Rightarrow> bool) \<Rightarrow> 'z atomic_machine_scheme \<Rightarrow> bool" where
  "reserved a v sp s \<longleftrightarrow> holds64 a v sp s \<and> p3_resv s = Some a"

lemmas amach_simps = amach_of_def put_amach_def on_amach_def with_value_def lr_d_aq_def sc_d_rl_def lr_d_def sc_d_def Let_def

lemma ensures_lr: "ensures (holds64 a v sp) (with_value (on_amach (lr_d a)) (\<lambda>old. ASSERT_EQ old v m c)) (reserved a v sp)"
  by (rule ensuresI) (simp add: amach_simps holds64_def reserved_def ASSERT_EQ_def)

lemma ensures_sc:
  "\<not> sp 0 \<Longrightarrow> ensures (reserved a v sp) (with_value (on_amach (sc_d a w)) (\<lambda>ok. ASSERT_EQ ok 0 m c)) (holds64 a w (\<lambda>n. sp (Suc n)))"
  by (rule ensuresI) (simp add: amach_simps holds64_def reserved_def ASSERT_EQ_def st64_def)

lemma stops_sc: "sp 0 \<Longrightarrow> stops (reserved a v sp) (with_value (on_amach (sc_d a w)) (\<lambda>ok. ASSERT_EQ ok 0 m c)) c"
proof (rule stopsI)
  fix s :: "'a atomic_machine_scheme" assume "sp 0" "dev_ok (dev s)" "reserved a v sp s"
  then show "\<exists>s'. with_value (on_amach (sc_d a w)) (\<lambda>ok. ASSERT_EQ ok 0 m c) s = Halt s' \<and> tohost (dev s') = fail_word c"
    by (simp add: amach_simps holds64_def reserved_def) (rule assert_eq_stops, simp_all)
qed

lemma p3_1_ensures:
  assumes "\<not> sp 0" "\<not> sp 1"
  shows "ensures (spurious sp) (p3_1 g_p3) (spurious (\<lambda>n. sp (Suc (Suc n))))"
  unfolding p3_1_def Let_def lr_d_aq_def sc_d_rl_def
  apply (rule ensures_Cons, rule ensures_log, rule quiet_holds)
  apply (rule ensures_Cons, rule ensures_st64, erule holds_spurious)
  apply (rule ensures_Cons, rule ensures_lr)
  apply (rule ensures_Cons, rule ensures_sc, rule assms)
  apply (rule ensures_Cons, rule ensures_assert_eq, simp add: holds64_def)
  apply (rule ensures_Cons, rule ensures_lr)
  apply (rule ensures_Cons, rule ensures_sc, use assms in simp)
  apply (rule ensures_Cons, rule ensures_assert_eq, simp add: holds64_def)
  apply (rule ensures_post [OF ensures_one [OF ensures_log]], rule quiet_holds, simp add: holds64_def spurious_def)
  done

lemma p3_1_stops_first: "sp 0 \<Longrightarrow> stops (spurious sp) (p3_1 g_p3) 701"
  unfolding p3_1_def Let_def
  apply (rule stops_Cons, rule ensures_log, rule quiet_holds)
  apply (rule stops_Cons, rule ensures_st64, erule holds_spurious)
  apply (rule stops_Cons, rule ensures_lr)
  apply (rule stops_here, erule stops_sc)
  done

lemma p3_1_stops_second: "\<not> sp 0 \<Longrightarrow> sp 1 \<Longrightarrow> stops (spurious sp) (p3_1 g_p3) 706"
  unfolding p3_1_def Let_def lr_d_aq_def sc_d_rl_def
  apply (rule stops_Cons, rule ensures_log, rule quiet_holds)
  apply (rule stops_Cons, rule ensures_st64, erule holds_spurious)
  apply (rule stops_Cons, rule ensures_lr)
  apply (rule stops_Cons, erule ensures_sc)
  apply (rule stops_Cons, rule ensures_assert_eq, simp add: holds64_def)
  apply (rule stops_Cons, rule ensures_lr)
  apply (rule stops_here, rule stops_sc, simp)
  done

lemma ensures_cas:
  assumes "\<not> sp n" "r = (if v = e then 1 else 0)"
  shows "ensures (holds64 a v sp) (with_cas a e d (\<lambda>ok. ASSERT_EQ (u64_of_int ok) r m c)) (\<lambda>s. mem s a = (if v = e then d else v))"
proof (rule ensuresI)
  fix s :: "'a atomic_machine_scheme" assume s: "dev_ok (dev s)" "holds64 a v sp s"
  then have "\<not> sc_spurious (amach_of s) n" "mem (amach_of s) a = v" using assms(1) by (simp_all add: holds64_def amach_of_def)
  from cas_loop_total [OF this(1), of a e d] this(2) obtain t where
    t: "cas_d a e d (amach_of s) = Some (if v = e then 1 else 0, t)" "mem t a = (if v = e then d else v)" by (auto simp: cas_d_def)
  then show "\<exists>s'. with_cas a e d (\<lambda>ok. ASSERT_EQ (u64_of_int ok) r m c) s = Ret s' \<and> dev_ok (dev s') \<and> mem s' a = (if v = e then d else v)"
    using assms(2) s(1) by (simp add: with_cas_def ASSERT_EQ_def u64_of_int_def put_amach_def)
qed

lemma ensures_cas_other:
  assumes "v \<noteq> e"
  shows "ensures (\<lambda>s. mem s a = v) (with_cas a e d (\<lambda>ok. ASSERT_EQ (u64_of_int ok) 0 m c)) (\<lambda>s. mem s a = v)"
proof (rule ensuresI)
  fix s :: "'a atomic_machine_scheme" assume s: "dev_ok (dev s)" "mem s a = v"
  then have "cas_loop a e d (amach_of s) = Some (v, (amach_of s)\<lparr>resv := Some a\<rparr>)"
    using assms by (subst cas_loop_step) (simp add: amach_of_def)
  then show "\<exists>s'. with_cas a e d (\<lambda>ok. ASSERT_EQ (u64_of_int ok) 0 m c) s = Ret s' \<and> dev_ok (dev s') \<and> mem s' a = v"
    using assms s by (simp add: with_cas_def cas_d_def ASSERT_EQ_def u64_of_int_def put_amach_def amach_of_def)
qed

lemma p3_4_ensures:
  assumes "\<not> sp n"
  shows "ensures (spurious sp) (p3_4 g_p3) (\<lambda>_. True)"
  unfolding p3_4_def Let_def
  apply (rule ensures_Cons, rule ensures_log, rule quiet_holds)
  apply (rule ensures_Cons, rule ensures_st64, erule holds_spurious)
  apply (rule ensures_Cons, rule ensures_cas, rule assms, simp)
  apply (rule ensures_Cons, rule ensures_assert_eq, simp)
  apply (rule ensures_Cons, rule ensures_pre [OF _ ensures_cas_other [of "0x2222"]], simp, simp)
  apply (rule ensures_Cons, rule ensures_assert_eq, simp)
  apply (rule ensures_post [OF ensures_one [OF ensures_log]], force, simp)
  done

section \<open>The verdict of phase 3\<close>

text \<open>
  C20. The verdict of the bare-metal phase 3 on every hart, wherever the linker has put the program's state: it passes exactly when the two single store-conditionals
  of P3.1 succeed, given that compare-and-swap is not made to fail for ever. A hart that lets one of these fail with its reservation
  intact, as the architecture allows outside a retry loop, is reported as broken, with code 701 or 706.
\<close>

theorem p3_verdict:
  assumes "dev_ok (dev s)" "\<not> p3_spurious s (n + 2)"
  shows "(\<not> p3_spurious s 0 \<and> \<not> p3_spurious s 1 \<longrightarrow> ends_in_pass (s_mode_entry vec (p3_test_main g_p3) s)) \<and>
    (p3_spurious s 0 \<or> p3_spurious s 1 \<longrightarrow> (\<exists>s'. s_mode_entry vec (p3_test_main g_p3) s = Halt s' \<and>
      tohost (dev s') = fail_word (if p3_spurious s 0 then 701 else 706)))"
proof (intro conjI impI)
  let ?sp = "p3_spurious s"
  have sp: "spurious ?sp (write_csr_stvec vec s)" by (simp add: spurious_def write_csr_stvec_def)
  assume "\<not> ?sp 0 \<and> \<not> ?sp 1"
  then show "ends_in_pass (s_mode_entry vec (p3_test_main g_p3) s)"
    unfolding p3_test_main_def
    apply (intro entry_ensures [where P = "spurious ?sp"] assms sp quiet_holds)
    apply (rule ensures_Cons, rule ensures_banner, rule quiet_holds)
    apply (rule ensures_Cons, rule p3_1_ensures, simp, simp)
    apply (rule ensures_Cons, rule p3_2_ensures)
    apply (rule ensures_Cons, rule p3_3_ensures)
    apply (rule ensures_Cons, rule p3_4_ensures [where n = n], use assms(2) in simp)
    apply (rule ensures_one, rule ensures_banner, force)
    done
next
  let ?sp = "p3_spurious s"
  have sp: "spurious ?sp (write_csr_stvec vec s)" by (simp add: spurious_def write_csr_stvec_def)
  assume f: "?sp 0 \<or> ?sp 1"
  have "stops (spurious ?sp) (p3_1 g_p3) (if ?sp 0 then 701 else 706)"
    using f p3_1_stops_first [of ?sp g_p3] p3_1_stops_second [of ?sp g_p3] by auto
  then show "\<exists>s'. s_mode_entry vec (p3_test_main g_p3) s = Halt s' \<and> tohost (dev s') = fail_word (if ?sp 0 then 701 else 706)"
    unfolding p3_test_main_def
    by (intro entry_stops [where P = "spurious ?sp"] assms sp quiet_holds stops_Cons [OF ensures_banner] stops_here)
qed

section \<open>Witnesses\<close>

definition demo_atomic :: "(nat \<Rightarrow> bool) \<Rightarrow> atomic_machine" where
  "demo_atomic sp = machine.extend demo_machine (atomic_machine.fields None sp)"

theorem p3_verdict_witness:
  "ends_in_pass (s_mode_entry 0x80000200 (p3_test_main 0x80002000) (demo_atomic (\<lambda>n. n = 2))) \<and>
   (\<exists>s'. s_mode_entry 0x80000200 (p3_test_main 0x80002000) (demo_atomic (\<lambda>n. n = 1)) = Halt s' \<and> tohost (dev s') = fail_word 706)"
proof -
  have d: "dev_ok (dev (demo_atomic sp))" "p3_spurious (demo_atomic sp) = sp" for sp
    using demo_dev_ok by (simp_all add: demo_atomic_def machine.defs atomic_machine.defs demo_machine_def)
  show ?thesis
    using p3_verdict [OF d(1), of "\<lambda>n. n = 2" 1 "0x80000200" "0x80002000"] p3_verdict [OF d(1), of "\<lambda>n. n = 1" 0 "0x80000200" "0x80002000"]
    by (simp add: d(2))
qed

end
