(* ===== verification/Duo.thy ===== *)
theory Duo
  imports Prelude
begin

text \<open>
  Two cores that each run a straight line of atomic actions on a shared state. An action is done or, as a polling loop that has
  not seen its condition, to be tried again. The locale \<open>duo_test\<close> says what makes every interleaving of two such programs
  come to its end.
\<close>

type_synonym 's act = "'s \<Rightarrow> bool \<times> 's"

definition act :: "('s \<Rightarrow> 's) \<Rightarrow> 's act" where
  "act f s = (True, f s)"

definition spin :: "('s \<Rightarrow> bool) \<Rightarrow> 's act" where
  "spin P s = (P s, s)"

text \<open>The shared state and the position of each core in its program.\<close>

inductive duo_step :: "'s act list \<Rightarrow> 's act list \<Rightarrow> 's \<times> nat \<times> nat \<Rightarrow> 's \<times> nat \<times> nat \<Rightarrow> bool" for p0 p1 where
  core0: "i < length p0 \<Longrightarrow> (p0 ! i) s = (d, s') \<Longrightarrow> duo_step p0 p1 (s, i, j) (s', if d then Suc i else i, j)"
| core1: "j < length p1 \<Longrightarrow> (p1 ! j) s = (d, s') \<Longrightarrow> duo_step p0 p1 (s, i, j) (s', i, if d then Suc j else j)"

inductive_cases duo_stepE: "duo_step p0 p1 x y"

text \<open>The programs pass from \<open>s\<close>: no interleaving violates \<open>ok\<close>, none is ever stuck, and from everywhere both can still come to
  their end. As every effective move advances one of the two programs, only a core that is never scheduled can keep them from it.\<close>

definition duo_passes :: "('s \<Rightarrow> bool) \<Rightarrow> 's act list \<Rightarrow> 's act list \<Rightarrow> 's \<Rightarrow> bool" where
  "duo_passes ok p0 p1 s \<longleftrightarrow> (\<forall>s' i j. (duo_step p0 p1)\<^sup>*\<^sup>* (s, 0, 0) (s', i, j) \<longrightarrow> ok s' \<and>
     (i < length p0 \<and> fst ((p0 ! i) s') \<or> j < length p1 \<and> fst ((p1 ! j) s') \<or> i = length p0 \<and> j = length p1) \<and>
     (\<exists>s''. (duo_step p0 p1)\<^sup>*\<^sup>* (s', i, j) (s'', length p0, length p1)))"

locale duo_test =
  fixes p0 p1 :: "'s act list" and inv :: "'s \<Rightarrow> nat \<Rightarrow> nat \<Rightarrow> bool" and ok :: "'s \<Rightarrow> bool"
  assumes bounds: "inv s i j \<Longrightarrow> i \<le> length p0 \<and> j \<le> length p1"
    and keeps0: "inv s i j \<Longrightarrow> i < length p0 \<Longrightarrow> inv (snd ((p0 ! i) s)) (if fst ((p0 ! i) s) then Suc i else i) j"
    and keeps1: "inv s i j \<Longrightarrow> j < length p1 \<Longrightarrow> inv (snd ((p1 ! j) s)) i (if fst ((p1 ! j) s) then Suc j else j)"
    and live: "inv s i j \<Longrightarrow> i < length p0 \<or> j < length p1 \<Longrightarrow>
      i < length p0 \<and> fst ((p0 ! i) s) \<or> j < length p1 \<and> fst ((p1 ! j) s)"
    and safe: "inv s i j \<Longrightarrow> ok s"
begin

lemma inv_step: "duo_step p0 p1 x y \<Longrightarrow> (case x of (s, i, j) \<Rightarrow> inv s i j) \<Longrightarrow> (case y of (s, i, j) \<Rightarrow> inv s i j)"
  by (erule duo_stepE) (use keeps0 keeps1 in \<open>fastforce+\<close>)

lemma inv_always: "(duo_step p0 p1)\<^sup>*\<^sup>* x y \<Longrightarrow> (case x of (s, i, j) \<Rightarrow> inv s i j) \<Longrightarrow> (case y of (s, i, j) \<Rightarrow> inv s i j)"
  by (induction rule: rtranclp_induct) (auto dest: inv_step)

lemma can_finish: "inv s i j \<Longrightarrow> \<exists>s'. (duo_step p0 p1)\<^sup>*\<^sup>* (s, i, j) (s', length p0, length p1)"
proof (induction "length p0 - i + (length p1 - j)" arbitrary: s i j rule: less_induct)
  case less
  show ?case
  proof (cases "i < length p0 \<or> j < length p1")
    case False
    with bounds [OF less.prems] have "i = length p0" "j = length p1" by auto
    then show ?thesis by blast
  next
    case True
    from live [OF less.prems True] show ?thesis
    proof
      assume h: "i < length p0 \<and> fst ((p0 ! i) s)"
      then obtain s1 where s1: "(p0 ! i) s = (True, s1)" by (metis prod.collapse)
      from duo_step.core0 [OF _ s1] h have "duo_step p0 p1 (s, i, j) (s1, Suc i, j)" by simp
      moreover have "inv s1 (Suc i) j" using keeps0 [OF less.prems] s1 h by simp
      ultimately show ?thesis using less.hyps [of "Suc i" j s1] h by (meson converse_rtranclp_into_rtranclp diff_less_mono2 add_less_mono1 lessI)
    next
      assume h: "j < length p1 \<and> fst ((p1 ! j) s)"
      then obtain s1 where s1: "(p1 ! j) s = (True, s1)" by (metis prod.collapse)
      from duo_step.core1 [OF _ s1] h have "duo_step p0 p1 (s, i, j) (s1, i, Suc j)" by simp
      moreover have "inv s1 i (Suc j)" using keeps1 [OF less.prems] s1 h by simp
      ultimately show ?thesis using less.hyps [of i "Suc j" s1] h by (meson converse_rtranclp_into_rtranclp diff_less_mono2 add_less_mono nat_add_left_cancel_less lessI)
    qed
  qed
qed

lemma passes: "inv s 0 0 \<Longrightarrow> duo_passes ok p0 p1 s"
proof (unfold duo_passes_def, intro allI impI conjI)
  fix s' i j assume "inv s 0 0" "(duo_step p0 p1)\<^sup>*\<^sup>* (s, 0, 0) (s', i, j)"
  with inv_always have v: "inv s' i j" by fastforce
  show "ok s'" by (rule safe [OF v])
  show "i < length p0 \<and> fst ((p0 ! i) s') \<or> j < length p1 \<and> fst ((p1 ! j) s') \<or> i = length p0 \<and> j = length p1"
    using live [OF v] bounds [OF v] by linarith
  show "\<exists>s''. (duo_step p0 p1)\<^sup>*\<^sup>* (s', i, j) (s'', length p0, length p1)" by (rule can_finish [OF v])
qed

end

text \<open>Running a given interleaving: \<open>True\<close> is a move of core 0.\<close>

fun duo_run :: "'s act list \<Rightarrow> 's act list \<Rightarrow> bool list \<Rightarrow> 's \<times> nat \<times> nat \<Rightarrow> 's \<times> nat \<times> nat" where
  "duo_run p0 p1 [] x = x"
| "duo_run p0 p1 (m # ms) (s, i, j) = duo_run p0 p1 ms
     (if m then if i < length p0 then case (p0 ! i) s of (d, s') \<Rightarrow> (s', if d then Suc i else i, j) else (s, i, j)
      else if j < length p1 then case (p1 ! j) s of (d, s') \<Rightarrow> (s', i, if d then Suc j else j) else (s, i, j))"

lemma duo_run_reaches: "(duo_step p0 p1)\<^sup>*\<^sup>* x (duo_run p0 p1 ms x)"
proof (induction p0 p1 ms x rule: duo_run.induct)
  case (2 p0 p1 m ms s i j)
  let ?y = "if m then if i < length p0 then case (p0 ! i) s of (d, s') \<Rightarrow> (s', if d then Suc i else i, j) else (s, i, j)
      else if j < length p1 then case (p1 ! j) s of (d, s') \<Rightarrow> (s', i, if d then Suc j else j) else (s, i, j)"
  have "(duo_step p0 p1)\<^sup>*\<^sup>* (s, i, j) ?y"
    using duo_step.core0 [of i p0 s _ _ p1 j] duo_step.core1 [of j p1 s _ _ p0 i] by (auto split: prod.splits)
  with 2 show ?case by (auto intro: rtranclp_trans)
qed simp

text \<open>Programs with loops: the position inside a repeated body.\<close>

lemma nth_loop: "k < n * length b \<Longrightarrow> concat (replicate n b) ! k = b ! (k mod length b)"
proof (induction n arbitrary: k)
  case (Suc n)
  show ?case
  proof (cases "k < length b")
    case False
    then have "k - length b < n * length b" using Suc.prems by (simp add: algebra_simps)
    from Suc.IH [OF this] False show ?thesis by (simp add: nth_append le_mod_geq)
  qed (simp add: nth_append)
qed simp

lemma length_loop: "length (concat (replicate n b)) = n * length b"
  by (induction n) simp_all

end
