(* ===== verification/BareDual.thy ===== *)
theory BareDual
  imports Duo
begin

text \<open>
  Phase 4 of the bare-metal suite, \<^verbatim>\<open>tests/p4_dualcore.c\<close>: the tests of core 0 against the workers of core 1. An
  action is one access to shared memory, the reset of the state structure is one action too, and the accesses of a core happen
  in program order. How a worker gets to core 1 is the subject of another theory: here core 1 takes up task \<open>n\<close> when it has been posted.
\<close>

section \<open>The program\<close>

text \<open>The structure \<open>g_p4\<close>; the registers of the two cores; the task posted last; the code a failed assertion has reported.\<close>

record p4_state =
  core1_payload :: u64
  core1_wrote_payload :: c_int
  fence_payload :: u64
  fence_expected :: u64
  fence_flag :: c_int
  fence_done :: c_int
  fence_ok :: c_int
  shared_counter :: u64
  core1_atomic_done :: c_int
  p4_lock :: u64
  shared_var :: u64
  core1_lock_done :: c_int
  p4_count :: u64
  p4_turn :: c_int
  temp :: "bool \<Rightarrow> u64"
  temp2 :: "bool \<Rightarrow> u64"
  p4_posted :: nat
  p4_failed :: "c_int option"

definition CORE1_MAGIC_NUMBER :: u64 where "CORE1_MAGIC_NUMBER = 0xDEADBEEF"
definition ATOMIC_LOOP_COUNT :: nat where "ATOMIC_LOOP_COUNT = 100"
definition LOCK_LOOP_COUNT :: nat where "LOCK_LOOP_COUNT = 50"
definition PING_PONG_COUNT :: nat where "PING_PONG_COUNT = 100"

text \<open>Stores to the structure are ordered as the program has them, with or without a fence.\<close>

definition fence :: "p4_state act" where
  "fence = act id"

definition wake_core1 :: "nat \<Rightarrow> p4_state act" where
  "wake_core1 n = act (\<lambda>s. s\<lparr>p4_posted := n\<rparr>)"

definition parked :: "nat \<Rightarrow> p4_state act" where
  "parked n = spin (\<lambda>s. p4_posted s = n)"

definition p4_assert_eq :: "(p4_state \<Rightarrow> u64) \<Rightarrow> u64 \<Rightarrow> c_int \<Rightarrow> p4_state act" where
  "p4_assert_eq actual expected code s = (if actual s = expected then (True, s) else (False, s\<lparr>p4_failed := Some code\<rparr>))"

definition p4_reset :: "p4_state act" where
  "p4_reset = act (\<lambda>s. s\<lparr>core1_payload := 0, core1_wrote_payload := 0, fence_payload := 0, fence_expected := 0, fence_flag := 0,
     fence_done := 0, fence_ok := 0, shared_counter := 0, core1_atomic_done := 0, p4_lock := 0, shared_var := 0,
     core1_lock_done := 0, p4_count := 0, p4_turn := 0\<rparr>)"

text \<open>\<open>c\<close> is the core: \<open>False\<close> for core 0, \<open>True\<close> for core 1.\<close>

definition load :: "bool \<Rightarrow> (p4_state \<Rightarrow> u64) \<Rightarrow> p4_state act" where
  "load c f = act (\<lambda>s. s\<lparr>temp := (temp s)(c := f s)\<rparr>)"

definition load2 :: "bool \<Rightarrow> (p4_state \<Rightarrow> u64) \<Rightarrow> p4_state act" where
  "load2 c f = act (\<lambda>s. s\<lparr>temp2 := (temp2 s)(c := f s)\<rparr>)"

definition compare_payload :: "bool \<Rightarrow> p4_state act list" where
  "compare_payload c = [load c fence_payload, load2 c fence_expected, act (\<lambda>s. s\<lparr>fence_ok := if temp s c = temp2 s c then 1 else 0\<rparr>)]"

definition core1_magic_writer :: "p4_state act list" where
  "core1_magic_writer = [act (\<lambda>s. s\<lparr>core1_payload := CORE1_MAGIC_NUMBER\<rparr>), fence, act (\<lambda>s. s\<lparr>core1_wrote_payload := 1\<rparr>)]"

definition core1_fence_consumer :: "p4_state act list" where
  "core1_fence_consumer = [spin (\<lambda>s. fence_flag s \<noteq> 0), fence] @ compare_payload True @ [fence, act (\<lambda>s. s\<lparr>fence_done := 1\<rparr>)]"

definition core1_fence_producer :: "p4_state act list" where
  "core1_fence_producer = [load True fence_expected, act (\<lambda>s. s\<lparr>fence_payload := temp s True\<rparr>), fence,
     act (\<lambda>s. s\<lparr>fence_flag := 1\<rparr>), spin (\<lambda>s. fence_done s = 1)]"

definition atomic_increment :: "p4_state act" where
  "atomic_increment = act (\<lambda>s. s\<lparr>shared_counter := shared_counter s + 1\<rparr>)"

definition core1_atomic_incrementer :: "p4_state act list" where
  "core1_atomic_incrementer = replicate ATOMIC_LOOP_COUNT atomic_increment @ [act (\<lambda>s. s\<lparr>core1_atomic_done := 1\<rparr>)]"

text \<open>One round of the loop of \<open>spinlock_acquire\<close> swaps a one into the lock; it is over when the old value was zero.\<close>

definition lock_acquire :: "p4_state act list" where
  "lock_acquire = [\<lambda>s. (p4_lock s = 0, s\<lparr>p4_lock := 1\<rparr>), fence]"

definition lock_release :: "p4_state act list" where
  "lock_release = [fence, act (\<lambda>s. s\<lparr>p4_lock := 0\<rparr>)]"

definition locked_round :: "bool \<Rightarrow> p4_state act list" where
  "locked_round c = lock_acquire @ [load c shared_var, act (\<lambda>s. s\<lparr>shared_var := temp s c + 1\<rparr>)] @ lock_release"

definition core1_lock_worker :: "p4_state act list" where
  "core1_lock_worker = concat (replicate LOCK_LOOP_COUNT (locked_round True)) @ [fence, act (\<lambda>s. s\<lparr>core1_lock_done := 1\<rparr>)]"

definition turn_round :: "bool \<Rightarrow> c_int \<Rightarrow> c_int \<Rightarrow> p4_state act list" where
  "turn_round c mine other = [spin (\<lambda>s. p4_turn s = mine), fence, load c p4_count, act (\<lambda>s. s\<lparr>p4_count := temp s c + 1\<rparr>), fence,
     act (\<lambda>s. s\<lparr>p4_turn := other\<rparr>)]"

definition ping :: "p4_state act list" where
  "ping = concat (replicate PING_PONG_COUNT (turn_round True 1 0))"

text \<open>Core 1 when it takes up task \<open>n\<close>.\<close>

definition core1_task :: "nat \<Rightarrow> p4_state act list \<Rightarrow> p4_state act list" where
  "core1_task n worker = parked n # worker"

text \<open>The parts of \<open>test_main\<close>, each with the reset before it.\<close>

definition p4_0 :: "p4_state act list" where
  "p4_0 = [p4_reset, wake_core1 1, spin (\<lambda>s. core1_wrote_payload s = 1), p4_assert_eq core1_payload CORE1_MAGIC_NUMBER 760]"

definition p4_1a :: "p4_state act list" where
  "p4_1a = [p4_reset, act (\<lambda>s. s\<lparr>fence_expected := CORE1_MAGIC_NUMBER\<rparr>), wake_core1 2,
     load False fence_expected, act (\<lambda>s. s\<lparr>fence_payload := temp s False\<rparr>), fence, act (\<lambda>s. s\<lparr>fence_flag := 1\<rparr>),
     spin (\<lambda>s. fence_done s = 1), fence, p4_assert_eq (\<lambda>s. u64_of_int (fence_ok s)) 1 761]"

definition p4_1b :: "p4_state act list" where
  "p4_1b = [p4_reset, act (\<lambda>s. s\<lparr>fence_expected := CORE1_MAGIC_NUMBER\<rparr>), wake_core1 3,
     spin (\<lambda>s. fence_flag s \<noteq> 0), fence] @ compare_payload False @ [fence, act (\<lambda>s. s\<lparr>fence_done := 1\<rparr>),
     p4_assert_eq (\<lambda>s. u64_of_int (fence_ok s)) 1 762]"

definition p4_2 :: "p4_state act list" where
  "p4_2 = [p4_reset, act (\<lambda>s. s\<lparr>shared_counter := 0\<rparr>), act (\<lambda>s. s\<lparr>core1_atomic_done := 0\<rparr>), wake_core1 4] @
     replicate ATOMIC_LOOP_COUNT atomic_increment @
     [spin (\<lambda>s. core1_atomic_done s = 1), p4_assert_eq shared_counter (of_nat (ATOMIC_LOOP_COUNT * 2)) 771]"

definition p4_3 :: "p4_state act list" where
  "p4_3 = [p4_reset, act (\<lambda>s. s\<lparr>p4_lock := 0\<rparr>), act (\<lambda>s. s\<lparr>shared_var := 0\<rparr>), act (\<lambda>s. s\<lparr>core1_lock_done := 0\<rparr>), wake_core1 5] @
     concat (replicate LOCK_LOOP_COUNT (locked_round False)) @
     [spin (\<lambda>s. core1_lock_done s = 1), p4_assert_eq shared_var (of_nat (LOCK_LOOP_COUNT * 2)) 781]"

definition p4_4 :: "p4_state act list" where
  "p4_4 = [p4_reset, wake_core1 6] @ concat (replicate PING_PONG_COUNT (turn_round False 0 1)) @
     [spin (\<lambda>s. p4_turn s = 0), fence, p4_assert_eq p4_count (of_nat (PING_PONG_COUNT * 2)) 790]"

definition p4_ok :: "p4_state \<Rightarrow> bool" where
  "p4_ok s \<longleftrightarrow> p4_failed s = None"

lemmas p4_plain = act_def spin_def fence_def wake_core1_def parked_def p4_assert_eq_def p4_reset_def load_def load2_def p4_ok_def

lemmas p4_acts = core1_task_def p4_plain

section \<open>Smoke test and message passing\<close>

text \<open>Case distinctions on a position.\<close>

lemma below:
  "(i :: nat) < 6 \<Longrightarrow> i = 0 \<or> i = 1 \<or> i = 2 \<or> i = 3 \<or> i = 4 \<or> i = 5"
  "(i :: nat) < 8 \<Longrightarrow> i = 0 \<or> i = 1 \<or> i = 2 \<or> i = 3 \<or> i = 4 \<or> i = 5 \<or> i = 6 \<or> i = 7"
  "(i :: nat) < 10 \<Longrightarrow> i = 0 \<or> i = 1 \<or> i = 2 \<or> i = 3 \<or> i = 4 \<or> i = 5 \<or> i = 6 \<or> i = 7 \<or> i = 8 \<or> i = 9"
  "(i :: nat) < 11 \<Longrightarrow> i = 0 \<or> i = 1 \<or> i = 2 \<or> i = 3 \<or> i = 4 \<or> i = 5 \<or> i = 6 \<or> i = 7 \<or> i = 8 \<or> i = 9 \<or> i = 10"
  by (auto simp: less_Suc_eq numeral_eq_Suc)

definition smoke_inv :: "p4_state \<Rightarrow> nat \<Rightarrow> nat \<Rightarrow> bool" where
  "smoke_inv s i j \<longleftrightarrow> i \<le> 4 \<and> j \<le> 4 \<and> p4_failed s = None \<and> (p4_posted s = 1 \<longleftrightarrow> 2 \<le> i) \<and> (0 < j \<longrightarrow> 2 \<le> i) \<and>
     (0 < i \<longrightarrow> (core1_wrote_payload s = 1 \<longleftrightarrow> j = 4)) \<and> (2 \<le> j \<longrightarrow> core1_payload s = CORE1_MAGIC_NUMBER) \<and> (3 \<le> i \<longrightarrow> j = 4)"

interpretation smoke: duo_test p4_0 "core1_task 1 core1_magic_writer" smoke_inv p4_ok
proof
  fix s i j
  assume v: "smoke_inv s i j"
  show "i \<le> length p4_0 \<and> j \<le> length (core1_task 1 core1_magic_writer)" using v by (simp add: smoke_inv_def p4_0_def core1_task_def core1_magic_writer_def)
  show "p4_ok s" using v by (simp add: smoke_inv_def p4_ok_def)
  show "smoke_inv (snd ((p4_0 ! i) s)) (if fst ((p4_0 ! i) s) then Suc i else i) j" if "i < length p4_0"
    using v that by (auto simp: p4_0_def p4_acts smoke_inv_def less_Suc_eq numeral_eq_Suc split: if_splits)
  show "smoke_inv (snd (((core1_task 1 core1_magic_writer) ! j) s)) i (if fst (((core1_task 1 core1_magic_writer) ! j) s) then Suc j else j)" if "j < length (core1_task 1 core1_magic_writer)"
    using v that by (auto simp: core1_magic_writer_def p4_acts smoke_inv_def less_Suc_eq numeral_eq_Suc split: if_splits)
  show "i < length p4_0 \<and> fst ((p4_0 ! i) s) \<or> j < length (core1_task 1 core1_magic_writer) \<and> fst (((core1_task 1 core1_magic_writer) ! j) s)"
    if "i < length p4_0 \<or> j < length (core1_task 1 core1_magic_writer)"
    using v that by (auto simp: p4_0_def core1_magic_writer_def p4_acts smoke_inv_def less_Suc_eq le_Suc_eq numeral_eq_Suc split: if_splits)
qed

definition fence_a_inv :: "p4_state \<Rightarrow> nat \<Rightarrow> nat \<Rightarrow> bool" where
  "fence_a_inv s i j \<longleftrightarrow> i \<le> 10 \<and> j \<le> 8 \<and> p4_failed s = None \<and> (p4_posted s = 2 \<longleftrightarrow> 3 \<le> i) \<and> (0 < j \<longrightarrow> 3 \<le> i) \<and>
     (2 \<le> i \<longrightarrow> fence_expected s = CORE1_MAGIC_NUMBER) \<and> (4 \<le> i \<longrightarrow> temp s False = CORE1_MAGIC_NUMBER) \<and>
     (5 \<le> i \<longrightarrow> fence_payload s = CORE1_MAGIC_NUMBER) \<and> (0 < i \<longrightarrow> (fence_flag s \<noteq> 0 \<longleftrightarrow> 7 \<le> i)) \<and> (2 \<le> j \<longrightarrow> 7 \<le> i) \<and>
     (4 \<le> j \<longrightarrow> temp s True = CORE1_MAGIC_NUMBER) \<and> (5 \<le> j \<longrightarrow> temp2 s True = CORE1_MAGIC_NUMBER) \<and> (6 \<le> j \<longrightarrow> fence_ok s = 1) \<and>
     (0 < i \<longrightarrow> (fence_done s = 1 \<longleftrightarrow> j = 8)) \<and> (8 \<le> i \<longrightarrow> j = 8)"

interpretation fence_a: duo_test p4_1a "core1_task 2 core1_fence_consumer" fence_a_inv p4_ok
proof
  fix s i j
  assume v: "fence_a_inv s i j"
  note defs = p4_1a_def core1_fence_consumer_def u64_of_int_def p4_acts compare_payload_def fence_a_inv_def
  have len: "length p4_1a = 10" "length (core1_task 2 core1_fence_consumer) = 8" by (simp_all add: defs)
  note c0 = below(3) and c1 = below(2)
  show "i \<le> length p4_1a \<and> j \<le> length (core1_task 2 core1_fence_consumer)" using v by (simp add: core1_task_def fence_a_inv_def p4_1a_def core1_fence_consumer_def u64_of_int_def compare_payload_def)
  show "p4_ok s" using v by (simp add: fence_a_inv_def p4_ok_def)
  show "fence_a_inv (snd ((p4_1a ! i) s)) (if fst ((p4_1a ! i) s) then Suc i else i) j" if "i < length p4_1a"
    using c0 [OF that [unfolded len]] v by (elim disjE; simp add: defs; auto?)
  show "fence_a_inv (snd (((core1_task 2 core1_fence_consumer) ! j) s)) i (if fst (((core1_task 2 core1_fence_consumer) ! j) s) then Suc j else j)" if "j < length (core1_task 2 core1_fence_consumer)"
    using c1 [OF that [unfolded len]] v by (elim disjE; simp add: defs; auto?)
  have b: "i \<le> 10" "j \<le> 8" using v by (simp_all add: fence_a_inv_def)
  have m0: "fst ((p4_1a ! i) s)" if "i < 10" "i \<noteq> 7" using c0 [OF that(1)] that(2) v by (elim disjE; simp add: defs)
  have m1: "fst (((core1_task 2 core1_fence_consumer) ! j) s)" if "j < 8" "7 \<le> i" using c1 [OF that(1)] that(2-) v by (elim disjE; simp add: defs; fastforce?)
  have m2: "fst ((p4_1a ! i) s)" if "i = 7" "j = 8" using that v by (simp add: defs)
  show "i < length p4_1a \<and> fst ((p4_1a ! i) s) \<or> j < length (core1_task 2 core1_fence_consumer) \<and> fst (((core1_task 2 core1_fence_consumer) ! j) s)"
    if "i < length p4_1a \<or> j < length (core1_task 2 core1_fence_consumer)"
    using b that m0 m1 m2 unfolding len by (cases "i < 10 \<and> i \<noteq> 7"; cases "j < 8") auto
qed

definition fence_b_inv :: "p4_state \<Rightarrow> nat \<Rightarrow> nat \<Rightarrow> bool" where
  "fence_b_inv s i j \<longleftrightarrow> i \<le> 11 \<and> j \<le> 6 \<and> p4_failed s = None \<and> (p4_posted s = 3 \<longleftrightarrow> 3 \<le> i) \<and> (0 < j \<longrightarrow> 3 \<le> i) \<and>
     (2 \<le> i \<longrightarrow> fence_expected s = CORE1_MAGIC_NUMBER) \<and> (2 \<le> j \<longrightarrow> temp s True = CORE1_MAGIC_NUMBER) \<and>
     (3 \<le> j \<longrightarrow> fence_payload s = CORE1_MAGIC_NUMBER) \<and> (0 < i \<longrightarrow> (fence_flag s \<noteq> 0 \<longleftrightarrow> 5 \<le> j)) \<and> (4 \<le> i \<longrightarrow> 5 \<le> j) \<and>
     (6 \<le> i \<longrightarrow> temp s False = CORE1_MAGIC_NUMBER) \<and> (7 \<le> i \<longrightarrow> temp2 s False = CORE1_MAGIC_NUMBER) \<and> (8 \<le> i \<longrightarrow> fence_ok s = 1) \<and>
     (0 < i \<longrightarrow> (fence_done s = 1 \<longleftrightarrow> 10 \<le> i)) \<and> (6 \<le> j \<longrightarrow> 10 \<le> i)"

interpretation fence_b: duo_test p4_1b "core1_task 3 core1_fence_producer" fence_b_inv p4_ok
proof
  fix s i j
  assume v: "fence_b_inv s i j"
  note defs = p4_1b_def core1_fence_producer_def u64_of_int_def p4_acts compare_payload_def fence_b_inv_def
  have len: "length p4_1b = 11" "length (core1_task 3 core1_fence_producer) = 6" by (simp_all add: defs)
  note c0 = below(4) and c1 = below(1)
  show "i \<le> length p4_1b \<and> j \<le> length (core1_task 3 core1_fence_producer)" using v by (simp add: core1_task_def fence_b_inv_def p4_1b_def core1_fence_producer_def u64_of_int_def compare_payload_def)
  show "p4_ok s" using v by (simp add: fence_b_inv_def p4_ok_def)
  show "fence_b_inv (snd ((p4_1b ! i) s)) (if fst ((p4_1b ! i) s) then Suc i else i) j" if "i < length p4_1b"
    using c0 [OF that [unfolded len]] v by (elim disjE; simp add: defs; auto?)
  show "fence_b_inv (snd (((core1_task 3 core1_fence_producer) ! j) s)) i (if fst (((core1_task 3 core1_fence_producer) ! j) s) then Suc j else j)" if "j < length (core1_task 3 core1_fence_producer)"
    using c1 [OF that [unfolded len]] v by (elim disjE; simp add: defs; auto?)
  have b: "i \<le> 11" "j \<le> 6" using v by (simp_all add: fence_b_inv_def)
  have m0: "fst ((p4_1b ! i) s)" if "i < 11" "i \<noteq> 3" using c0 [OF that(1)] that(2) v by (elim disjE; simp add: defs)
  have m1: "fst (((core1_task 3 core1_fence_producer) ! j) s)" if "j < 6" "3 \<le> i" "j \<noteq> 5 \<or> 10 \<le> i" using c1 [OF that(1)] that(2-) v by (elim disjE; simp add: defs; fastforce?)
  have m2: "fst ((p4_1b ! i) s)" if "i = 3" "5 \<le> j" using that v by (simp add: defs)
  show "i < length p4_1b \<and> fst ((p4_1b ! i) s) \<or> j < length (core1_task 3 core1_fence_producer) \<and> fst (((core1_task 3 core1_fence_producer) ! j) s)"
    if "i < length p4_1b \<or> j < length (core1_task 3 core1_fence_producer)"
    using b that m0 m1 m2 unfolding len by (cases "i < 11 \<and> i \<noteq> 3"; cases "j < 6") auto
qed

section \<open>Two cores on one counter\<close>

definition counter_inv :: "p4_state \<Rightarrow> nat \<Rightarrow> nat \<Rightarrow> bool" where
  "counter_inv s i j \<longleftrightarrow> i \<le> 106 \<and> j \<le> 102 \<and> p4_failed s = None \<and> (p4_posted s = 4 \<longleftrightarrow> 4 \<le> i) \<and> (0 < j \<longrightarrow> 4 \<le> i) \<and>
     (2 \<le> i \<longrightarrow> shared_counter s = of_nat (min (i - 4) 100 + min (j - 1) 100)) \<and>
     (3 \<le> i \<longrightarrow> (core1_atomic_done s = 1 \<longleftrightarrow> j = 102)) \<and> (105 \<le> i \<longrightarrow> j = 102)"

lemma p4_2_nth:
  "p4_2 ! 0 = p4_reset" "p4_2 ! 1 = act (\<lambda>s. s\<lparr>shared_counter := 0\<rparr>)" "p4_2 ! 2 = act (\<lambda>s. s\<lparr>core1_atomic_done := 0\<rparr>)"
  "p4_2 ! 3 = wake_core1 4" "4 \<le> i \<Longrightarrow> i < 104 \<Longrightarrow> p4_2 ! i = atomic_increment"
  "p4_2 ! 104 = spin (\<lambda>s. core1_atomic_done s = 1)" "p4_2 ! 105 = p4_assert_eq shared_counter 200 771" "length p4_2 = 106"
  by (auto simp: p4_2_def ATOMIC_LOOP_COUNT_def nth_Cons' nth_append)

lemma incrementer_nth:
  "(core1_task 4 core1_atomic_incrementer) ! 0 = parked 4" "1 \<le> j \<Longrightarrow> j < 101 \<Longrightarrow> (core1_task 4 core1_atomic_incrementer) ! j = atomic_increment"
  "(core1_task 4 core1_atomic_incrementer) ! 101 = act (\<lambda>s. s\<lparr>core1_atomic_done := 1\<rparr>)" "length (core1_task 4 core1_atomic_incrementer) = 102"
  by (auto simp: core1_task_def core1_atomic_incrementer_def ATOMIC_LOOP_COUNT_def nth_Cons' nth_append)

interpretation counter: duo_test p4_2 "core1_task 4 core1_atomic_incrementer" counter_inv p4_ok
proof
  fix s i j
  assume v: "counter_inv s i j"
  note defs = counter_inv_def p4_plain atomic_increment_def
  have b: "i \<le> 106" "j \<le> 102" using v by (simp_all add: counter_inv_def)
  show "i \<le> length p4_2 \<and> j \<le> length (core1_task 4 core1_atomic_incrementer)" unfolding p4_2_nth incrementer_nth using b by simp
  show "p4_ok s" using v by (simp add: counter_inv_def p4_ok_def)
  have c0: "i = 0 \<or> i = 1 \<or> i = 2 \<or> i = 3 \<or> 4 \<le> i \<and> i < 104 \<or> i = 104 \<or> i = 105" if "i < 106" using that by linarith
  have c1: "j = 0 \<or> 1 \<le> j \<and> j < 101 \<or> j = 101" if "j < 102" using that by linarith
  show "counter_inv (snd ((p4_2 ! i) s)) (if fst ((p4_2 ! i) s) then Suc i else i) j" if "i < length p4_2"
    using c0 [OF that [unfolded p4_2_nth]] v by (elim disjE; simp add: p4_2_nth [unfolded One_nat_def] defs; auto simp: min_def)
  show "counter_inv (snd (((core1_task 4 core1_atomic_incrementer) ! j) s)) i (if fst (((core1_task 4 core1_atomic_incrementer) ! j) s) then Suc j else j)"
    if "j < length (core1_task 4 core1_atomic_incrementer)"
    using c1 [OF that [unfolded incrementer_nth]] v by (elim disjE; simp add: incrementer_nth [unfolded One_nat_def] defs; auto simp: min_def)
  show "i < length p4_2 \<and> fst ((p4_2 ! i) s) \<or> j < length (core1_task 4 core1_atomic_incrementer) \<and> fst (((core1_task 4 core1_atomic_incrementer) ! j) s)"
    if "i < length p4_2 \<or> j < length (core1_task 4 core1_atomic_incrementer)"
  proof -
    have m0: "fst ((p4_2 ! i) s)" if "i < 106" "i \<noteq> 104 \<or> j = 102"
      using c0 [OF that(1)] that(2) v by (elim disjE; simp add: p4_2_nth [unfolded One_nat_def] defs)
    have m1: "fst (((core1_task 4 core1_atomic_incrementer) ! j) s)" if "j < 102" "104 \<le> i"
      using c1 [OF that(1)] that(2) v by (elim disjE; simp add: incrementer_nth [unfolded One_nat_def] defs)
    show ?thesis using b that m0 m1 unfolding p4_2_nth incrementer_nth by (cases "i < 106 \<and> i \<noteq> 104"; cases "j < 102") auto
  qed
qed

section \<open>The lock\<close>

text \<open>A core that has made \<open>k\<close> moves of its fifty rounds: whether it holds the lock, and how many stores it has made.\<close>

definition holds_lock :: "nat \<Rightarrow> bool" where
  "holds_lock k \<longleftrightarrow> k < 300 \<and> k mod 6 \<noteq> 0"

definition rounds_stored :: "nat \<Rightarrow> nat" where
  "rounds_stored k = min 50 (k div 6) + (if k < 300 \<and> 4 \<le> k mod 6 then 1 else 0)"

lemma round_move:
  assumes "k < 300"
  shows "holds_lock (Suc k) \<longleftrightarrow> k mod 6 \<noteq> 5" "rounds_stored (Suc k) = rounds_stored k + (if k mod 6 = 3 then 1 else 0)"
proof -
  have "k mod 6 < 6" by simp
  moreover have "k mod 6 = 5" if "\<not> k < 299"
  proof -
    from assms that have "k = 299" by simp
    then show ?thesis by simp
  qed
  ultimately show "holds_lock (Suc k) \<longleftrightarrow> k mod 6 \<noteq> 5" "rounds_stored (Suc k) = rounds_stored k + (if k mod 6 = 3 then 1 else 0)"
    using assms by (auto simp: holds_lock_def rounds_stored_def mod_Suc div_Suc min_def)
qed

lemma round_end: "300 \<le> k \<Longrightarrow> k \<le> 305 \<Longrightarrow> \<not> holds_lock k \<and> rounds_stored k = 50"
  by (auto simp: holds_lock_def rounds_stored_def min_def)

definition lock_ok :: "bool \<Rightarrow> p4_state \<Rightarrow> nat \<Rightarrow> nat \<Rightarrow> bool" where
  "lock_ok c s k l \<longleftrightarrow> (p4_lock s \<noteq> 0 \<longleftrightarrow> holds_lock k \<or> holds_lock l) \<and> \<not> (holds_lock k \<and> holds_lock l) \<and>
     shared_var s = of_nat (rounds_stored k + rounds_stored l) \<and>
     (k < 300 \<and> k mod 6 = 3 \<longrightarrow> temp s c = shared_var s) \<and> (l < 300 \<and> l mod 6 = 3 \<longrightarrow> temp s (\<not> c) = shared_var s)"

lemma lock_ok_sym: "lock_ok c s k l \<longleftrightarrow> lock_ok (\<not> c) s l k"
  by (auto simp: lock_ok_def add.commute)

lemma locked_round_step:
  assumes v: "lock_ok c s k l" and k: "k < 300"
  defines "r \<equiv> (locked_round c ! (k mod 6)) s"
  shows "lock_ok c (snd r) (if fst r then Suc k else k) l" "fst r \<longleftrightarrow> k mod 6 \<noteq> 0 \<or> \<not> holds_lock l"
proof -
  have "k mod 6 < 6" by simp
  from below(1) [OF this] have "lock_ok c (snd r) (if fst r then Suc k else k) l \<and> (fst r \<longleftrightarrow> k mod 6 \<noteq> 0 \<or> \<not> holds_lock l)"
    using v k round_move [OF k] holds_lock_def [of k] holds_lock_def [of l]
    by (elim disjE; simp add: r_def locked_round_def lock_acquire_def lock_release_def p4_plain lock_ok_def mod_Suc; auto)
  then show "lock_ok c (snd r) (if fst r then Suc k else k) l" "fst r \<longleftrightarrow> k mod 6 \<noteq> 0 \<or> \<not> holds_lock l" by auto
qed

lemma nth_in_loop:
  assumes "length ps = a" "length b = 6" "a \<le> i" "i < a + 6 * n"
  shows "(ps @ concat (replicate n b) @ qs) ! i = b ! ((i - a) mod 6)"
proof -
  have "i - a < n * length b" using assms by simp
  from nth_loop [OF this] this show ?thesis using assms by (simp add: nth_append length_loop)
qed

definition mutex_inv :: "p4_state \<Rightarrow> nat \<Rightarrow> nat \<Rightarrow> bool" where
  "mutex_inv s i j \<longleftrightarrow> i \<le> 307 \<and> j \<le> 303 \<and> p4_failed s = None \<and> (p4_posted s = 5 \<longleftrightarrow> 5 \<le> i) \<and> (0 < j \<longrightarrow> 5 \<le> i) \<and>
     (2 \<le> i \<longrightarrow> i < 5 \<longrightarrow> p4_lock s = 0) \<and> (3 \<le> i \<longrightarrow> i < 5 \<longrightarrow> shared_var s = 0) \<and> (5 \<le> i \<longrightarrow> lock_ok False s (i - 5) (j - 1)) \<and>
     (4 \<le> i \<longrightarrow> (core1_lock_done s = 1 \<longleftrightarrow> j = 303)) \<and> (306 \<le> i \<longrightarrow> j = 303)"

lemma locked_round_length: "length (locked_round c) = 6"
  by (simp add: locked_round_def lock_acquire_def lock_release_def)

lemma p4_3_nth:
  "p4_3 ! 0 = p4_reset" "p4_3 ! 1 = act (\<lambda>s. s\<lparr>p4_lock := 0\<rparr>)" "p4_3 ! 2 = act (\<lambda>s. s\<lparr>shared_var := 0\<rparr>)"
  "p4_3 ! 3 = act (\<lambda>s. s\<lparr>core1_lock_done := 0\<rparr>)" "p4_3 ! 4 = wake_core1 5"
  "5 \<le> i \<Longrightarrow> i < 305 \<Longrightarrow> p4_3 ! i = locked_round False ! ((i - 5) mod 6)"
  "p4_3 ! 305 = spin (\<lambda>s. core1_lock_done s = 1)" "p4_3 ! 306 = p4_assert_eq shared_var 100 781" "length p4_3 = 307"
proof -
  show "5 \<le> i \<Longrightarrow> i < 305 \<Longrightarrow> p4_3 ! i = locked_round False ! ((i - 5) mod 6)"
    unfolding p4_3_def LOCK_LOOP_COUNT_def by (rule nth_in_loop) (simp_all add: locked_round_length)
qed (simp_all add: p4_3_def LOCK_LOOP_COUNT_def nth_append length_loop locked_round_length)

lemma lock_worker_nth:
  "core1_task 5 core1_lock_worker ! 0 = parked 5"
  "1 \<le> j \<Longrightarrow> j < 301 \<Longrightarrow> core1_task 5 core1_lock_worker ! j = locked_round True ! ((j - 1) mod 6)"
  "core1_task 5 core1_lock_worker ! 301 = fence" "core1_task 5 core1_lock_worker ! 302 = act (\<lambda>s. s\<lparr>core1_lock_done := 1\<rparr>)"
  "length (core1_task 5 core1_lock_worker) = 303"
proof -
  have e: "core1_task 5 core1_lock_worker = [parked 5] @ concat (replicate 50 (locked_round True)) @ [fence, act (\<lambda>s. s\<lparr>core1_lock_done := 1\<rparr>)]"
    by (simp add: core1_task_def core1_lock_worker_def LOCK_LOOP_COUNT_def)
  show "1 \<le> j \<Longrightarrow> j < 301 \<Longrightarrow> core1_task 5 core1_lock_worker ! j = locked_round True ! ((j - 1) mod 6)"
    unfolding e by (rule nth_in_loop) (simp_all add: locked_round_length)
  show "core1_task 5 core1_lock_worker ! 0 = parked 5" by (simp add: core1_task_def)
qed (simp_all add: core1_task_def core1_lock_worker_def LOCK_LOOP_COUNT_def nth_append length_loop locked_round_length)

lemma locked_round_frame:
  fixes k :: nat and s :: p4_state and c :: bool
  defines "r \<equiv> (locked_round c ! (k mod 6)) s"
  shows "p4_failed (snd r) = p4_failed s" "p4_posted (snd r) = p4_posted s" "core1_lock_done (snd r) = core1_lock_done s"
proof -
  have "k mod 6 < 6" by simp
  from below(1) [OF this] have "p4_failed (snd r) = p4_failed s \<and> p4_posted (snd r) = p4_posted s \<and> core1_lock_done (snd r) = core1_lock_done s"
    by (elim disjE; simp add: r_def locked_round_def lock_acquire_def lock_release_def p4_plain)
  then show "p4_failed (snd r) = p4_failed s" "p4_posted (snd r) = p4_posted s" "core1_lock_done (snd r) = core1_lock_done s" by auto
qed

lemma lock_ok_end: "lock_ok c s k l \<Longrightarrow> 300 \<le> k \<Longrightarrow> k < 305 \<Longrightarrow> lock_ok c s (Suc k) l"
  using round_end [of k] round_end [of "Suc k"] by (auto simp: lock_ok_def)

lemma lock_ok_start: "p4_lock s = 0 \<Longrightarrow> shared_var s = 0 \<Longrightarrow> lock_ok c s 0 0"
  by (simp add: lock_ok_def holds_lock_def rounds_stored_def)

lemma lock_ok_other:
  "lock_ok c s k l \<Longrightarrow> lock_ok c (s\<lparr>core1_lock_done := v\<rparr>) k l" "lock_ok c s k l \<Longrightarrow> lock_ok c (s\<lparr>p4_failed := w\<rparr>) k l"
  by (simp_all add: lock_ok_def)

lemma mutex_keeps0:
  assumes v: "mutex_inv s i j" and i: "i < 307"
  shows "mutex_inv (snd ((p4_3 ! i) s)) (if fst ((p4_3 ! i) s) then Suc i else i) j"
proof -
  consider "i < 5" | "5 \<le> i" "i < 305" | "i = 305" | "i = 306" using i by linarith
  then show ?thesis
  proof cases
    case 1
    then have "i = 0 \<or> i = 1 \<or> i = 2 \<or> i = 3 \<or> i = 4" by linarith
    then show ?thesis
      using v lock_ok_start [of "s\<lparr>p4_posted := 5\<rparr>" False] by (elim disjE; simp add: p4_3_nth [unfolded One_nat_def] p4_plain mutex_inv_def; auto)
  next
    case 2
    with v have "lock_ok False s (i - 5) (j - 1)" by (simp add: mutex_inv_def)
    moreover have "i - 4 = Suc (i - 5)" using 2 by simp
    ultimately show ?thesis
      using locked_round_step(1) [of False s "i - 5" "j - 1"] 2 v by (auto simp: p4_3_nth mutex_inv_def locked_round_frame)
  next
    case 3
    with v lock_ok_end [of False s 300 "j - 1"] show ?thesis by (auto simp: p4_3_nth p4_plain mutex_inv_def)
  next
    case 4
    with v have "j = 303" by (simp add: mutex_inv_def)
    with 4 v have l: "lock_ok False s 301 302" "j = 303" by (simp_all add: mutex_inv_def)
    then have "shared_var s = 100" using round_end [of 301] round_end [of 302] by (simp add: lock_ok_def)
    with 4 v lock_ok_end [OF l(1)] l(2) show ?thesis by (simp add: p4_3_nth p4_plain mutex_inv_def)
  qed
qed

lemma mutex_keeps1:
  assumes v: "mutex_inv s i j" and j: "j < 303"
  shows "mutex_inv (snd ((core1_task 5 core1_lock_worker ! j) s)) i (if fst ((core1_task 5 core1_lock_worker ! j) s) then Suc j else j)"
proof -
  consider "j = 0" | "1 \<le> j" "j < 301" | "301 \<le> j" using j by linarith
  then show ?thesis
  proof cases
    case 1
    with v show ?thesis by (auto simp: lock_worker_nth p4_plain mutex_inv_def)
  next
    case 2
    with v have "lock_ok False s (i - 5) (j - 1)" by (simp add: mutex_inv_def)
    then have "lock_ok True s (j - 1) (i - 5)" using lock_ok_sym [of False] by simp
    from locked_round_step(1) [OF this] 2 v show ?thesis
      by (auto simp: lock_worker_nth mutex_inv_def locked_round_frame lock_ok_sym [of False])
  next
    case 3
    with j have "j = 301 \<or> j = 302" by linarith
    then show ?thesis
      using v lock_ok_end [of True s 300 "i - 5"] lock_ok_end [of True s 301 "i - 5"] lock_ok_other(1) [of False s "i - 5" "302" 1]
      by (elim disjE; simp add: lock_worker_nth p4_plain mutex_inv_def lock_ok_sym [of False]; auto simp: lock_ok_def)
  qed
qed

interpretation mutual: duo_test p4_3 "core1_task 5 core1_lock_worker" mutex_inv p4_ok
proof
  fix s i j
  assume v: "mutex_inv s i j"
  have b: "i \<le> 307" "j \<le> 303" using v by (simp_all add: mutex_inv_def)
  show "i \<le> length p4_3 \<and> j \<le> length (core1_task 5 core1_lock_worker)" unfolding p4_3_nth lock_worker_nth using b by simp
  show "p4_ok s" using v by (simp add: mutex_inv_def p4_ok_def)
  show "mutex_inv (snd ((p4_3 ! i) s)) (if fst ((p4_3 ! i) s) then Suc i else i) j" if "i < length p4_3"
    using mutex_keeps0 [OF v] that by (simp add: p4_3_nth)
  show "mutex_inv (snd ((core1_task 5 core1_lock_worker ! j) s)) i (if fst ((core1_task 5 core1_lock_worker ! j) s) then Suc j else j)"
    if "j < length (core1_task 5 core1_lock_worker)"
    using mutex_keeps1 [OF v] that by (simp add: lock_worker_nth)
  have e0: "fst ((p4_3 ! i) s)" if "i < 5"
  proof -
    from that have "i = 0 \<or> i = 1 \<or> i = 2 \<or> i = 3 \<or> i = 4" by linarith
    then show ?thesis by (elim disjE; simp add: p4_3_nth [unfolded One_nat_def] p4_plain)
  qed
  have e1: "fst ((p4_3 ! i) s) \<longleftrightarrow> (i - 5) mod 6 \<noteq> 0 \<or> \<not> holds_lock (j - 1)" if "5 \<le> i" "i < 305"
    using locked_round_step(2) [of False s "i - 5" "j - 1"] v that by (simp add: p4_3_nth mutex_inv_def)
  have e2: "fst ((p4_3 ! i) s)" if "305 \<le> i" "i < 307" "j = 303"
  proof -
    from that have "i = 305 \<or> i = 306" by linarith
    then show ?thesis using v that(3) round_end [of 301] round_end [of 302] by (elim disjE; simp add: p4_3_nth p4_plain mutex_inv_def lock_ok_def)
  qed
  have d1: "fst ((core1_task 5 core1_lock_worker ! j) s) \<longleftrightarrow> (j - 1) mod 6 \<noteq> 0 \<or> \<not> holds_lock (i - 5)" if "5 \<le> i" "1 \<le> j" "j < 301"
    using locked_round_step(2) [of True s "j - 1" "i - 5"] v that by (simp add: lock_worker_nth mutex_inv_def lock_ok_sym [of False])
  have d2: "fst ((core1_task 5 core1_lock_worker ! j) s)" if "5 \<le> i" "j = 0 \<or> j = 301 \<or> j = 302"
    using that(2) v that(1) by (elim disjE; simp add: lock_worker_nth p4_plain mutex_inv_def)
  have h: "holds_lock (j - 1) \<Longrightarrow> 1 \<le> j \<and> j < 301 \<and> (j - 1) mod 6 \<noteq> 0" by (cases j) (auto simp: holds_lock_def)
  have x: "\<not> (holds_lock (i - 5) \<and> holds_lock (j - 1))" if "5 \<le> i" using v that by (auto simp: mutex_inv_def lock_ok_def)
  have y: "\<not> holds_lock (i - 5)" if "305 \<le> i" using that by (auto simp: holds_lock_def)
  show "i < length p4_3 \<and> fst ((p4_3 ! i) s) \<or> j < length (core1_task 5 core1_lock_worker) \<and> fst ((core1_task 5 core1_lock_worker ! j) s)"
    if "i < length p4_3 \<or> j < length (core1_task 5 core1_lock_worker)"
  proof -
    consider "i < 5" | "5 \<le> i" "i < 305" | "305 \<le> i" by linarith
    then show ?thesis
    proof cases
      case 1
      with e0 show ?thesis by (simp add: p4_3_nth)
    next
      case 2
      with e1 h d1 x show ?thesis unfolding p4_3_nth lock_worker_nth by fastforce
    next
      case 3
      show ?thesis
      proof (cases "j = 303")
        case True
        with e2 3 that b show ?thesis unfolding p4_3_nth lock_worker_nth by auto
      next
        case False
        with b have "j = 0 \<or> 1 \<le> j \<and> j < 301 \<or> j = 301 \<or> j = 302" by linarith
        with d1 d2 y [OF 3] 3 False b show ?thesis unfolding p4_3_nth lock_worker_nth by auto
      qed
    qed
  qed
qed

section \<open>Taking turns\<close>

text \<open>Core 0 has made \<open>k\<close> moves of its rounds, core 1 \<open>l\<close>: one of them is between two rounds.\<close>

definition turn_ok :: "p4_state \<Rightarrow> nat \<Rightarrow> nat \<Rightarrow> bool" where
  "turn_ok s k l \<longleftrightarrow>
     p4_turn s = 0 \<and> k div 6 = l div 6 \<and> l mod 6 = 0 \<and>
       p4_count s = of_nat (2 * (l div 6) + (if k < 600 \<and> 4 \<le> k mod 6 then 1 else 0)) \<and>
       (k < 600 \<and> k mod 6 = 3 \<longrightarrow> temp s False = p4_count s) \<or>
     p4_turn s = 1 \<and> k div 6 = Suc (l div 6) \<and> k mod 6 = 0 \<and>
       p4_count s = of_nat (2 * (l div 6) + 1 + (if 4 \<le> l mod 6 then 1 else 0)) \<and>
       (l mod 6 = 3 \<longrightarrow> temp s True = p4_count s)"

lemma turn_round_length: "length (turn_round c a b) = 6"
  by (simp add: turn_round_def)

lemma turn_step0:
  assumes v: "turn_ok s k l" and k: "k < 600"
  defines "r \<equiv> (turn_round False 0 1 ! (k mod 6)) s"
  shows "turn_ok (snd r) (if fst r then Suc k else k) l" "fst r \<longleftrightarrow> p4_turn s = 0"
proof -
  have e: "k mod 6 = 5" if "\<not> k < 599"
  proof -
    from k that have "k = 599" by simp
    then show ?thesis by simp
  qed
  have "k mod 6 < 6" by simp
  from below(1) [OF this] have "turn_ok (snd r) (if fst r then Suc k else k) l \<and> (fst r \<longleftrightarrow> p4_turn s = 0)"
    using v k e by (elim disjE; simp add: r_def turn_round_def p4_plain turn_ok_def mod_Suc div_Suc; auto)
  then show "turn_ok (snd r) (if fst r then Suc k else k) l" "fst r \<longleftrightarrow> p4_turn s = 0" by auto
qed

lemma turn_step1:
  assumes v: "turn_ok s k l" and l: "l < 600"
  defines "r \<equiv> (turn_round True 1 0 ! (l mod 6)) s"
  shows "turn_ok (snd r) k (if fst r then Suc l else l)" "fst r \<longleftrightarrow> p4_turn s = 1"
proof -
  have "l mod 6 < 6" by simp
  from below(1) [OF this] have "turn_ok (snd r) k (if fst r then Suc l else l) \<and> (fst r \<longleftrightarrow> p4_turn s = 1)"
    using v l by (elim disjE; simp add: r_def turn_round_def p4_plain turn_ok_def mod_Suc div_Suc; auto)
  then show "turn_ok (snd r) k (if fst r then Suc l else l)" "fst r \<longleftrightarrow> p4_turn s = 1" by auto
qed

lemma turn_frame:
  fixes k :: nat and s :: p4_state and c :: bool and a b :: c_int
  defines "r \<equiv> (turn_round c a b ! (k mod 6)) s"
  shows "p4_failed (snd r) = p4_failed s" "p4_posted (snd r) = p4_posted s"
proof -
  have "k mod 6 < 6" by simp
  from below(1) [OF this] have "p4_failed (snd r) = p4_failed s \<and> p4_posted (snd r) = p4_posted s"
    by (elim disjE; simp add: r_def turn_round_def p4_plain)
  then show "p4_failed (snd r) = p4_failed s" "p4_posted (snd r) = p4_posted s" by auto
qed

lemma turn_blocked: "fst ((turn_round c a b ! (k mod 6)) s) \<or> snd ((turn_round c a b ! (k mod 6)) s) = s"
proof (cases "k mod 6 = 0")
  case False
  have "k mod 6 < 6" by simp
  from below(1) [OF this] False have "fst ((turn_round c a b ! (k mod 6)) s)" by (elim disjE; simp add: turn_round_def p4_plain)
  then show ?thesis ..
qed (simp add: turn_round_def spin_def)

lemma p4_4_nth:
  "p4_4 ! 0 = p4_reset" "p4_4 ! 1 = wake_core1 6" "2 \<le> i \<Longrightarrow> i < 602 \<Longrightarrow> p4_4 ! i = turn_round False 0 1 ! ((i - 2) mod 6)"
  "p4_4 ! 602 = spin (\<lambda>s. p4_turn s = 0)" "p4_4 ! 603 = fence" "p4_4 ! 604 = p4_assert_eq p4_count 200 790" "length p4_4 = 605"
proof -
  show "2 \<le> i \<Longrightarrow> i < 602 \<Longrightarrow> p4_4 ! i = turn_round False 0 1 ! ((i - 2) mod 6)"
    unfolding p4_4_def PING_PONG_COUNT_def by (rule nth_in_loop) (simp_all add: turn_round_length)
qed (simp_all add: p4_4_def PING_PONG_COUNT_def nth_append length_loop turn_round_length)

lemma ping_nth:
  "core1_task 6 ping ! 0 = parked 6" "1 \<le> j \<Longrightarrow> j < 601 \<Longrightarrow> core1_task 6 ping ! j = turn_round True 1 0 ! ((j - 1) mod 6)"
  "length (core1_task 6 ping) = 601"
proof -
  show "1 \<le> j \<Longrightarrow> j < 601 \<Longrightarrow> core1_task 6 ping ! j = turn_round True 1 0 ! ((j - 1) mod 6)"
    using nth_in_loop [of "[parked 6]" 1 "turn_round True 1 0" j 100 "[]"]
    by (simp add: core1_task_def ping_def PING_PONG_COUNT_def turn_round_length)
qed (simp_all add: core1_task_def ping_def PING_PONG_COUNT_def length_loop turn_round_length)

definition turns_inv :: "p4_state \<Rightarrow> nat \<Rightarrow> nat \<Rightarrow> bool" where
  "turns_inv s i j \<longleftrightarrow> i \<le> 605 \<and> j \<le> 601 \<and> p4_failed s = None \<and> (p4_posted s = 6 \<longleftrightarrow> 2 \<le> i) \<and> (0 < j \<longrightarrow> 2 \<le> i) \<and>
     (i = 1 \<longrightarrow> p4_turn s = 0 \<and> p4_count s = 0) \<and> (2 \<le> i \<longrightarrow> turn_ok s (i - 2) (j - 1)) \<and> (603 \<le> i \<longrightarrow> p4_turn s = 0)"

lemma turn_end: "turn_ok s k l \<Longrightarrow> p4_turn s = 0 \<Longrightarrow> 600 \<le> k \<Longrightarrow> k < 605 \<Longrightarrow> l = 600 \<and> p4_count s = 200 \<and> turn_ok s (Suc k) l"
proof -
  assume v: "turn_ok s k l" "p4_turn s = 0" and k: "600 \<le> k" "k < 605"
  have d: "k div 6 = 100" "Suc k div 6 = 100" using k by (auto intro: div_nat_eqI)
  with v k have l: "l div 6 = 100" "l mod 6 = 0" by (auto simp: turn_ok_def)
  then have "l = 600" using div_mult_mod_eq [of l 6] by simp
  with v k d show ?thesis by (auto simp: turn_ok_def)
qed

lemma turn_ok_posted: "turn_ok (s\<lparr>p4_posted := n\<rparr>) k l = turn_ok s k l" "p4_turn s = 0 \<Longrightarrow> p4_count s = 0 \<Longrightarrow> turn_ok s 0 0"
  by (simp_all add: turn_ok_def)

lemma turns_keeps0:
  assumes v: "turns_inv s i j" and i: "i < 605"
  shows "turns_inv (snd ((p4_4 ! i) s)) (if fst ((p4_4 ! i) s) then Suc i else i) j"
proof -
  consider "i = 0" | "i = 1" | "2 \<le> i" "i < 602" | "i = 602" | "603 \<le> i" using i by linarith
  then show ?thesis
  proof cases
    case 3
    with v have "turn_ok s (i - 2) (j - 1)" by (simp add: turns_inv_def)
    moreover have "Suc i - 2 = Suc (i - 2)" using 3 by simp
    ultimately show ?thesis
      using turn_step0(1) [of s "i - 2" "j - 1"] 3 v unfolding p4_4_nth(3) [OF 3] turns_inv_def turn_frame by auto
  next
    case 4
    with v turn_end [of s 600 "j - 1"] show ?thesis by (auto simp: p4_4_nth p4_plain turns_inv_def)
  next
    case 5
    with v have "turn_ok s (i - 2) (j - 1)" "p4_turn s = 0" by (simp_all add: turns_inv_def)
    moreover have "600 \<le> i - 2" "i - 2 < 605" using 5 i by auto
    ultimately have e: "p4_count s = 200" "turn_ok s (Suc (i - 2)) (j - 1)" using turn_end [of s "i - 2" "j - 1"] by blast+
    have "i = 603 \<or> i = 604" using 5 i by linarith
    then show ?thesis using v e by (elim disjE; simp add: p4_4_nth p4_plain turns_inv_def)
  qed (use v turn_ok_posted in \<open>simp_all add: p4_4_nth [unfolded One_nat_def] p4_plain turns_inv_def\<close>)
qed

lemma turns_keeps1:
  assumes v: "turns_inv s i j" and j: "j < 601"
  shows "turns_inv (snd ((core1_task 6 ping ! j) s)) i (if fst ((core1_task 6 ping ! j) s) then Suc j else j)"
proof (cases "j = 0")
  case False
  then have J: "1 \<le> j" by simp
  with v have "2 \<le> i" "turn_ok s (i - 2) (j - 1)" by (auto simp: turns_inv_def)
  note st = turn_step1 [OF this(2)]
  have "p4_turn s \<noteq> 0" if "603 \<le> i" "fst ((turn_round True 1 0 ! ((j - 1) mod 6)) s)" using st(2) j J that by simp
  moreover have "p4_turn s = 0" if "603 \<le> i" using v that by (simp add: turns_inv_def)
  moreover note turn_blocked [of True 1 0 "j - 1" s]
  ultimately show ?thesis
    using st(1) j J v \<open>2 \<le> i\<close> unfolding ping_nth(2) [OF J j] turns_inv_def turn_frame by (auto simp: Suc_diff_le)
qed (use v in \<open>auto simp: ping_nth p4_plain turns_inv_def\<close>)

interpretation turns: duo_test p4_4 "core1_task 6 ping" turns_inv p4_ok
proof
  fix s i j
  assume v: "turns_inv s i j"
  have b: "i \<le> 605" "j \<le> 601" using v by (simp_all add: turns_inv_def)
  show "i \<le> length p4_4 \<and> j \<le> length (core1_task 6 ping)" unfolding p4_4_nth ping_nth using b by simp
  show "p4_ok s" using v by (simp add: turns_inv_def p4_ok_def)
  show "turns_inv (snd ((p4_4 ! i) s)) (if fst ((p4_4 ! i) s) then Suc i else i) j" if "i < length p4_4"
    using turns_keeps0 [OF v] that by (simp add: p4_4_nth)
  show "turns_inv (snd ((core1_task 6 ping ! j) s)) i (if fst ((core1_task 6 ping ! j) s) then Suc j else j)"
    if "j < length (core1_task 6 ping)"
    using turns_keeps1 [OF v] that by (simp add: ping_nth)
  have e0: "fst ((p4_4 ! i) s)" if "i < 2"
    using that v by (cases "i = 0") (simp_all add: p4_4_nth [unfolded One_nat_def] p4_plain less_2_cases_iff)
  have e1: "fst ((p4_4 ! i) s) \<longleftrightarrow> p4_turn s = 0" if "2 \<le> i" "i < 602"
    using turn_step0(2) [of s "i - 2" "j - 1"] v that by (simp add: p4_4_nth turns_inv_def)
  have e2: "fst ((p4_4 ! i) s)" if "602 \<le> i" "i < 605" "p4_turn s = 0"
  proof -
    from that have "i = 602 \<or> i = 603 \<or> i = 604" by linarith
    then show ?thesis using v that(3) turn_end [of s 602 "j - 1"] by (elim disjE; simp add: p4_4_nth p4_plain turns_inv_def)
  qed
  have t: "p4_turn s = 0 \<or> p4_turn s = 1 \<and> j < 601" if "2 \<le> i"
  proof -
    have ok: "turn_ok s (i - 2) (j - 1)" using v that by (simp add: turns_inv_def)
    have "(i - 2) div 6 \<noteq> Suc 100" using b(1) by simp
    with ok b(2) show ?thesis by (cases "j = 601") (auto simp: turn_ok_def)
  qed
  have d: "fst ((core1_task 6 ping ! j) s)" if "2 \<le> i" "p4_turn s = 1" "j < 601"
    using turn_step1(2) [of s "i - 2" "j - 1"] v that by (cases "j = 0") (auto simp: ping_nth p4_plain turns_inv_def)
  show "i < length p4_4 \<and> fst ((p4_4 ! i) s) \<or> j < length (core1_task 6 ping) \<and> fst ((core1_task 6 ping ! j) s)"
    if "i < length p4_4 \<or> j < length (core1_task 6 ping)"
  proof (cases "i < 2 \<or> p4_turn s = 0 \<and> i < 605")
    case True
    with e0 e1 e2 show ?thesis unfolding p4_4_nth by fastforce
  next
    case False
    show ?thesis
    proof (cases "p4_turn s = 0")
      case True
      with False b have "i = 605" by simp
      with v True turn_end [of s 603 "j - 1"] that have "j = 601" by (auto simp: turns_inv_def)
      with that \<open>i = 605\<close> show ?thesis by (simp add: p4_4_nth ping_nth)
    next
      case False
      with t d \<open>\<not> (i < 2 \<or> p4_turn s = 0 \<and> i < 605)\<close> show ?thesis unfolding ping_nth by auto
    qed
  qed
qed

section \<open>Properties\<close>

text \<open>
  C19. The tests of the bare-metal phase 4, each on its own. Whatever the structure holds, if core 1 is parked when the test begins: in every interleaving of
  the accesses of the two cores no assertion fails, one of the cores can always go on, and both can come to their end. That covers the payload
  behind a flag in both directions, two hundred atomic increments, a hundred increments under the spin lock and a hundred rounds of
  ping-pong.
\<close>

theorem p4_tests_pass:
  assumes "p4_failed s = None" "p4_posted s = 0"
  shows "duo_passes p4_ok p4_0 (core1_task 1 core1_magic_writer) s \<and>
    duo_passes p4_ok p4_1a (core1_task 2 core1_fence_consumer) s \<and>
    duo_passes p4_ok p4_1b (core1_task 3 core1_fence_producer) s \<and>
    duo_passes p4_ok p4_2 (core1_task 4 core1_atomic_incrementer) s \<and>
    duo_passes p4_ok p4_3 (core1_task 5 core1_lock_worker) s \<and>
    duo_passes p4_ok p4_4 (core1_task 6 ping) s"
  using smoke.passes [of s] fence_a.passes [of s] fence_b.passes [of s] counter.passes [of s] mutual.passes [of s] turns.passes [of s] assms
  by (simp add: smoke_inv_def fence_a_inv_def fence_b_inv_def counter_inv_def mutex_inv_def turns_inv_def)

text \<open>In sequence: P4.1B and the reset with which P4.2 begins, against the producer and the next worker.\<close>

definition p4_race0 :: "p4_state act list" where
  "p4_race0 = p4_1b @ p4_2"

definition p4_race1 :: "p4_state act list" where
  "p4_race1 = core1_task 3 core1_fence_producer @ core1_task 4 core1_atomic_incrementer"

definition forgotten :: "p4_state \<times> nat \<times> nat \<Rightarrow> bool" where
  "forgotten x \<longleftrightarrow> (case x of (s, i, j) \<Rightarrow> 12 \<le> i \<and> i \<le> 115 \<and> j = 5 \<and> fence_done s = 0 \<and> core1_atomic_done s = 0)"

lemma race_nth:
  "i < 11 \<Longrightarrow> p4_race0 ! i = p4_1b ! i" "11 \<le> i \<Longrightarrow> p4_race0 ! i = p4_2 ! (i - 11)" "length p4_race0 = 117"
  "j < 6 \<Longrightarrow> p4_race1 ! j = core1_task 3 core1_fence_producer ! j" "length p4_race1 = 108"
proof -
  have l: "length p4_1b = 11" "length (core1_task 3 core1_fence_producer) = 6"
    by (simp_all add: p4_1b_def compare_payload_def core1_task_def core1_fence_producer_def)
  show "i < 11 \<Longrightarrow> p4_race0 ! i = p4_1b ! i" "11 \<le> i \<Longrightarrow> p4_race0 ! i = p4_2 ! (i - 11)" "length p4_race0 = 117"
    "j < 6 \<Longrightarrow> p4_race1 ! j = core1_task 3 core1_fence_producer ! j" "length p4_race1 = 108"
    unfolding p4_race0_def p4_race1_def using l p4_2_nth(8) incrementer_nth(4) by (simp_all add: nth_append)
qed

lemma forgotten_step: "duo_step p4_race0 p4_race1 x y \<Longrightarrow> forgotten x \<Longrightarrow> forgotten y"
proof (erule duo_stepE)
  fix i s d s' j
  assume x: "x = (s, i, j)" "y = (s', if d then Suc i else i, j)" and st: "(p4_race0 ! i) s = (d, s')" and f: "forgotten x"
  then have i: "12 \<le> i" "i \<le> 115" by (simp_all add: forgotten_def)
  have "i - 11 = 1 \<or> i - 11 = 2 \<or> i - 11 = 3 \<or> 4 \<le> i - 11 \<and> i - 11 < 104 \<or> i - 11 = 104" using i by linarith
  moreover have "(p4_2 ! (i - 11)) s = (d, s')" using st i race_nth(2) [of i] by simp
  ultimately have "(if d then Suc i else i) \<le> 115 \<and> fence_done s' = 0 \<and> core1_atomic_done s' = 0"
    using f x(1) i by (elim disjE; simp add: p4_2_nth [unfolded One_nat_def] p4_plain atomic_increment_def forgotten_def; auto)
  with f x show "forgotten y" by (auto simp: forgotten_def)
next
  fix j s d s' i
  assume x: "x = (s, i, j)" "y = (s', i, if d then Suc j else j)" and st: "(p4_race1 ! j) s = (d, s')" and f: "forgotten x"
  then have "j = 5" "fence_done s = 0" by (simp_all add: forgotten_def)
  with st have "d = False" "s' = s" by (simp_all add: race_nth core1_task_def core1_fence_producer_def spin_def)
  with f x show "forgotten y" by simp
qed

lemma forgotten_stays: "(duo_step p4_race0 p4_race1)\<^sup>*\<^sup>* x y \<Longrightarrow> forgotten x \<Longrightarrow> forgotten y"
  by (induction rule: rtranclp_induct) (auto intro: forgotten_step)

lemma race_run:
  "forgotten (duo_run p4_race0 p4_race1 (replicate 3 True @ replicate 5 False @ replicate 9 True) (s, 0, 0))"
  by (simp add: numeral_eq_Suc race_nth p4_1b_def compare_payload_def core1_task_def core1_fence_producer_def p4_plain u64_of_int_def
      p4_2_nth(1) forgotten_def)

text \<open>
  C37. P4.1B followed by the reset of P4.2 can hang, although each passes on its own. Core 0 raises \<open>fence_done\<close> and then clears the whole structure; if core
  1, which polls \<open>fence_done\<close> at the end of its producer, has not looked in between, it polls for ever, never takes up the next
  worker, and core 0 waits for ever for the flag of that worker, in every continuation.
\<close>

theorem producer_can_be_forgotten:
  "\<exists>x. (duo_step p4_race0 p4_race1)\<^sup>*\<^sup>* (s, 0, 0) x \<and>
     (\<forall>y. (duo_step p4_race0 p4_race1)\<^sup>*\<^sup>* x y \<longrightarrow> fst (snd y) < length p4_race0 \<and> snd (snd y) < length p4_race1)"
proof -
  let ?x = "duo_run p4_race0 p4_race1 (replicate 3 True @ replicate 5 False @ replicate 9 True) (s, 0, 0)"
  have "fst (snd y) < length p4_race0 \<and> snd (snd y) < length p4_race1" if "(duo_step p4_race0 p4_race1)\<^sup>*\<^sup>* ?x y" for y
    using forgotten_stays [OF that race_run] unfolding race_nth by (auto simp: forgotten_def)
  with duo_run_reaches show ?thesis by blast
qed

section \<open>Witnesses\<close>

definition demo_p4 :: p4_state where
  "demo_p4 = \<lparr>core1_payload = 7, core1_wrote_payload = 1, fence_payload = 0, fence_expected = 0, fence_flag = 1, fence_done = 1, fence_ok = 0,
     shared_counter = 3, core1_atomic_done = 1, p4_lock = 1, shared_var = 9, core1_lock_done = 0, p4_count = 2, p4_turn = 1,
     temp = (\<lambda>_. 0), temp2 = (\<lambda>_. 0), p4_posted = 0, p4_failed = None\<rparr>"

theorem p4_tests_pass_witness:
  "duo_passes p4_ok p4_3 (core1_task 5 core1_lock_worker) demo_p4 \<and> duo_passes p4_ok p4_4 (core1_task 6 ping) demo_p4"
  using p4_tests_pass [of demo_p4] by (simp add: demo_p4_def)

theorem producer_can_be_forgotten_witness:
  "\<exists>x. (duo_step p4_race0 p4_race1)\<^sup>*\<^sup>* (demo_p4, 0, 0) x \<and>
     (\<forall>y. (duo_step p4_race0 p4_race1)\<^sup>*\<^sup>* x y \<longrightarrow> fst (snd y) < length p4_race0 \<and> snd (snd y) < length p4_race1)"
  by (rule producer_can_be_forgotten)

end
