(* ===== verification/App.thy ===== *)
theory App
  imports Prelude
begin

text \<open>
  The Zephyr example application kept beside the port: the \<open>custom\<close> library
  (\<^verbatim>\<open>lib/custom/custom.c\<close>), the example sensor (\<^verbatim>\<open>drivers/sensor/example_sensor\<close>), the blink
  driver (\<^verbatim>\<open>drivers/blink/gpio_led.c\<close> behind \<^verbatim>\<open>include/app/drivers/blink.h\<close>) and the
  application's main loop (\<^verbatim>\<open>app/src/main.c\<close>). Zephyr itself is outside the repository: GPIO
  and timer services appear as the sequence of calls made to them and the stream of results
  they return; log output is left out.
\<close>

datatype zcall =
    K_timer_init | K_timer_start u32 u32 | K_timer_stop | K_sleep u32
  | Gpio_configure_output | Gpio_configure_input | Gpio_set c_int | Gpio_toggle

text \<open>\<open>pins\<close>: what the coming reads of the sensor pin return; \<open>rets\<close>: the results of the coming
  configure, set and toggle calls; \<open>state\<close>: the sensor driver's data.\<close>

record zstate =
  pins :: "nat \<Rightarrow> c_int"
  rets :: "nat \<Rightarrow> c_int"
  calls :: "zcall list"
  state :: c_int

definition do_call :: "zcall \<Rightarrow> zstate \<Rightarrow> zstate" where
  "do_call e z = z\<lparr>calls := calls z @ [e]\<rparr>"

definition gpio_call :: "zcall \<Rightarrow> zstate \<Rightarrow> c_int \<times> zstate" where
  "gpio_call e z = (rets z 0, do_call e (z\<lparr>rets := (\<lambda>n. rets z (Suc n))\<rparr>))"

definition ENODEV :: c_int where "ENODEV = 19"
definition ENOTSUP :: c_int where "ENOTSUP = 134"

datatype sensor_channel = SENSOR_CHAN_PROX | SENSOR_CHAN_OTHER nat

section \<open>The library and the drivers\<close>

text \<open>\<open>CONFIG_CUSTOM_GET_VALUE_DEFAULT\<close> is a build option.\<close>

definition custom_get_value :: "c_int \<Rightarrow> c_int \<Rightarrow> c_int" where
  "custom_get_value CONFIG_CUSTOM_GET_VALUE_DEFAULT val = (if val \<noteq> 0 then val else CONFIG_CUSTOM_GET_VALUE_DEFAULT)"

definition example_sensor_sample_fetch :: "zstate \<Rightarrow> c_int \<times> zstate" where
  "example_sensor_sample_fetch z = (0, z\<lparr>state := pins z 0, pins := (\<lambda>n. pins z (Suc n))\<rparr>)"

definition example_sensor_channel_get :: "sensor_channel \<Rightarrow> zstate \<Rightarrow> c_int \<times> c_int option" where
  "example_sensor_channel_get chan z =
     (if chan \<noteq> SENSOR_CHAN_PROX then (- ENOTSUP, None) else (0, Some (state z)))"

definition example_sensor_init :: "bool \<Rightarrow> zstate \<Rightarrow> c_int \<times> zstate" where
  "example_sensor_init port_ready z =
     (if \<not> port_ready then (- ENODEV, z)
      else let (ret, z) = gpio_call Gpio_configure_input z
           in if ret < 0 then (ret, z) else (0, z))"

definition blink_gpio_led_on_timer_expire :: "zstate \<Rightarrow> zstate" where
  "blink_gpio_led_on_timer_expire z = snd (gpio_call Gpio_toggle z)"

definition blink_gpio_led_set_period_ms :: "u32 \<Rightarrow> zstate \<Rightarrow> c_int \<times> zstate" where
  "blink_gpio_led_set_period_ms period_ms z =
     (if period_ms = 0 then gpio_call (Gpio_set 0) (do_call K_timer_stop z)
      else (0, do_call (K_timer_start period_ms period_ms) z))"

definition blink_gpio_led_init :: "bool \<Rightarrow> u32 \<Rightarrow> zstate \<Rightarrow> c_int \<times> zstate" where
  "blink_gpio_led_init led_ready config_period_ms z =
     (if \<not> led_ready then (- ENODEV, z)
      else let (ret, z) = gpio_call Gpio_configure_output z
           in if ret < 0 then (ret, z)
              else let z = do_call K_timer_init z;
                       z = (if 0 < config_period_ms then do_call (K_timer_start config_period_ms config_period_ms) z else z)
                   in (0, z))"

definition z_impl_blink_set_period_ms :: "u32 \<Rightarrow> zstate \<Rightarrow> c_int \<times> zstate" where
  "z_impl_blink_set_period_ms = blink_gpio_led_set_period_ms"

definition blink_off :: "zstate \<Rightarrow> c_int \<times> zstate" where
  "blink_off = z_impl_blink_set_period_ms 0"

section \<open>The application\<close>

definition BLINK_PERIOD_MS_STEP :: u32 where "BLINK_PERIOD_MS_STEP = 100"
definition BLINK_PERIOD_MS_MAX :: u32 where "BLINK_PERIOD_MS_MAX = 1000"

record app =
  period_ms :: u32
  last_val :: c_int
  zephyr :: zstate

text \<open>\<open>None\<close> is \<open>main\<close> returning early.\<close>

definition main_start :: "bool \<Rightarrow> bool \<Rightarrow> zstate \<Rightarrow> app option" where
  "main_start sensor_ready blink_ready z =
     (if \<not> sensor_ready then None
      else if \<not> blink_ready then None
      else let (ret, z) = blink_off z
           in if ret < 0 then None
              else Some \<lparr>period_ms = BLINK_PERIOD_MS_MAX, last_val = 0, zephyr = z\<rparr>)"

definition main_iteration :: "app \<Rightarrow> app option" where
  "main_iteration a =
     (let (ret, z) = example_sensor_sample_fetch (zephyr a)
      in if ret < 0 then None
         else case example_sensor_channel_get SENSOR_CHAN_PROX z of
                (ret, None) \<Rightarrow> None
              | (ret, Some val) \<Rightarrow>
                  if ret < 0 then None
                  else let a = a\<lparr>zephyr := z\<rparr>;
                           a = (if last_val a = 0 \<and> val = 1
                                then let a = a\<lparr>period_ms := (if period_ms a = 0 then BLINK_PERIOD_MS_MAX
                                                            else period_ms a - BLINK_PERIOD_MS_STEP)\<rparr>
                                     in a\<lparr>zephyr := snd (z_impl_blink_set_period_ms (period_ms a) (zephyr a))\<rparr>
                                else a);
                           a = a\<lparr>last_val := val\<rparr>
                       in Some (a\<lparr>zephyr := do_call (K_sleep 100) (zephyr a)\<rparr>))"

fun main_loop :: "nat \<Rightarrow> app \<Rightarrow> app option" where
  "main_loop 0 a = Some a"
| "main_loop (Suc n) a = Option.bind (main_iteration a) (main_loop n)"

section \<open>What the drivers were told\<close>

text \<open>The blinking a sequence of calls amounts to, by the documented meaning of the timer calls: the
  period of the running timer, 0 when it is stopped.\<close>

fun blinking :: "zcall list \<Rightarrow> u32 \<Rightarrow> u32" where
  "blinking [] p = p"
| "blinking (K_timer_start d q # cs) p = blinking cs q"
| "blinking (K_timer_stop # cs) p = blinking cs 0"
| "blinking (_ # cs) p = blinking cs p"

lemma blinking_append: "blinking (cs @ ds) p = blinking ds (blinking cs p)"
  by (induction cs p rule: blinking.induct) simp_all

fun edges :: "c_int \<Rightarrow> c_int list \<Rightarrow> nat" where
  "edges p [] = 0"
| "edges p (v # vs) = (if p = 0 \<and> v = 1 then 1 else 0) + edges v vs"

definition period_after :: "nat \<Rightarrow> u32" where
  "period_after n = of_nat (1000 - 100 * (n mod 11))"

definition app_at :: "zstate \<Rightarrow> nat \<Rightarrow> app \<Rightarrow> bool" where
  "app_at z n a \<longleftrightarrow> (let e = edges 0 (map (pins z) [0..<n]) in
     period_ms a = period_after e \<and> (\<forall>i. pins (zephyr a) i = pins z (n + i)) \<and>
     last_val a = (if n = 0 then 0 else pins z (n - 1)) \<and>
     blinking (calls (zephyr a)) 0 = (if e = 0 then 0 else period_after e))"


lemma edges_snoc: "edges p (vs @ [v]) = edges p vs + (if last (p # vs) = 0 \<and> v = 1 then 1 else 0)"
  by (induction vs arbitrary: p) auto

lemma unat_period: "unat (of_nat (1000 - 100 * k) :: u32) = 1000 - 100 * k"
  unfolding unat_of_nat by simp

lemma period_small:
  assumes "k < 11"
  shows "(of_nat (1000 - 100 * k) :: u32) = 0 \<longleftrightarrow> k = 10"
proof -
  have "(of_nat (1000 - 100 * k) :: u32) = 0 \<longleftrightarrow> 1000 - 100 * k = 0"
    using unat_period [of k] by (metis unat_0 unat_eq_zero)
  with assms show ?thesis by auto
qed

lemma period_step:
  "period_after (Suc e) = (if period_after e = 0 then BLINK_PERIOD_MS_MAX else period_after e - BLINK_PERIOD_MS_STEP)"
proof -
  let ?k = "e mod 11"
  have k: "?k < 11" by simp
  show ?thesis
  proof (cases "?k = 10")
    case True
    then show ?thesis by (simp add: period_after_def mod_Suc BLINK_PERIOD_MS_MAX_def)
  next
    case False
    then have "1000 - 100 * ?k = (1000 - 100 * Suc ?k) + 100" using k by simp
    then have "(of_nat (1000 - 100 * ?k) :: u32) = of_nat (1000 - 100 * Suc ?k) + 100"
      by (metis of_nat_add of_nat_numeral)
    with False k period_small [OF k] show ?thesis
      by (simp add: period_after_def mod_Suc BLINK_PERIOD_MS_STEP_def)
  qed
qed

lemma main_iteration_at:
  assumes "app_at z n a"
  shows "\<exists>a'. main_iteration a = Some a' \<and> app_at z (Suc n) a'"
proof -
  let ?e = "edges 0 (map (pins z) [0..<n])" and ?v = "pins z n"
  from assms have a: "period_ms a = period_after ?e" "\<And>i. pins (zephyr a) i = pins z (n + i)"
    "last_val a = last (0 # map (pins z) [0..<n])" "blinking (calls (zephyr a)) 0 = (if ?e = 0 then 0 else period_after ?e)"
    by (auto simp: app_at_def Let_def last_map)
  have e: "edges 0 (map (pins z) [0..<Suc n]) = ?e + (if last_val a = 0 \<and> ?v = 1 then 1 else 0)"
    by (simp add: edges_snoc a(3))
  show ?thesis
  proof (cases "last_val a = 0 \<and> ?v = 1")
    case True
    then show ?thesis
      using a e period_step [of ?e]
      by (auto simp: main_iteration_def example_sensor_sample_fetch_def example_sensor_channel_get_def Let_def
        app_at_def z_impl_blink_set_period_ms_def blink_gpio_led_set_period_ms_def gpio_call_def do_call_def blinking_append
        split: if_splits)
  next
    case False
    then show ?thesis
      using a e
      by (auto simp: main_iteration_def example_sensor_sample_fetch_def example_sensor_channel_get_def Let_def app_at_def
        do_call_def blinking_append split: if_splits)
  qed
qed

text \<open>
  C34. The application's loop never ends (the sensor driver's calls cannot fail), and after any
  number of iterations the period is 1000 ms less 100 ms for every rising edge of the sensor pin,
  starting over after eleven, so that the subtraction never wraps; the blink timer runs with
  exactly that period, or is stopped at 0 and before the first edge.
\<close>

theorem app_follows_edges:
  assumes "0 \<le> rets z 0"
  shows "\<exists>a0. main_start True True z = Some a0 \<and> (\<forall>n. \<exists>a. main_loop n a0 = Some a \<and> app_at z n a \<and>
    unat (period_ms a) = 1000 - 100 * (edges 0 (map (pins z) [0..<n]) mod 11))"
proof -
  obtain a0 where a0: "main_start True True z = Some a0" "app_at z 0 a0"
    using assms by (auto simp: main_start_def blink_off_def z_impl_blink_set_period_ms_def blink_gpio_led_set_period_ms_def
      gpio_call_def do_call_def app_at_def Let_def period_after_def BLINK_PERIOD_MS_MAX_def blinking_append)
  have run: "\<exists>a. main_loop n b = Some a \<and> app_at z (m + n) a" if "app_at z m b" for n m b
    using that
  proof (induction n arbitrary: m b)
    case (Suc n)
    from main_iteration_at [OF Suc.prems] obtain b' where "main_iteration b = Some b'" "app_at z (Suc m) b'" by blast
    with Suc.IH [of "Suc m" b'] show ?case by auto
  qed auto
  have u: "unat (period_after e) = 1000 - 100 * (e mod 11)" for e
    unfolding period_after_def by (rule unat_period)
  have "\<exists>a. main_loop n a0 = Some a \<and> app_at z n a \<and> unat (period_ms a) = 1000 - 100 * (edges 0 (map (pins z) [0..<n]) mod 11)" for n
    using run [OF a0(2), of n] u by (auto simp: app_at_def Let_def)
  with a0(1) show ?thesis by blast
qed

definition demo_z :: zstate where
  "demo_z = \<lparr>pins = (\<lambda>n. int (n mod 2)), rets = (\<lambda>n. 0), calls = [], state = 0\<rparr>"

theorem app_follows_edges_witness:
  "\<exists>a0. main_start True True demo_z = Some a0 \<and> (\<exists>a. main_loop 4 a0 = Some a \<and> unat (period_ms a) = 800)"
proof -
  have "edges 0 (map (pins demo_z) [0..<4]) = 2" by (simp add: demo_z_def upt_rec)
  moreover have "0 \<le> rets demo_z 0" by (simp add: demo_z_def)
  ultimately show ?thesis using app_follows_edges [of demo_z] by fastforce
qed

end
