(* ===== verification/QemuPort.thy ===== *)
theory QemuPort
  imports STrap
begin

text \<open>
  The copy of the runtime that runs the suite under QEMU (\<^verbatim>\<open>src/baremetal/common\<close>): its
  \<^verbatim>\<open>smode.c\<close> and \<^verbatim>\<open>m_trap.c\<close> differ from the suite's in where verdicts go, the
  \<open>sifive_test\<close> finisher instead of HTIF, and \<^verbatim>\<open>baremetal_main.c\<close> enters them. The
  functions with changed callees are defined here (suffix \<open>_q\<close>), the others are the suite's.
  The theorems relate each pair of handlers: same effect where they return, the same verdict
  where they do not.
\<close>

section \<open>The code\<close>

text \<open>\<open>finisher\<close> holds the words written to the finisher's register.\<close>

record qmachine = machine +
  finisher :: "u32 list"

definition QEMU_FINISH_PASS :: u32 where
  "QEMU_FINISH_PASS = 0x5555"

definition QEMU_FINISH_FAIL :: u32 where
  "QEMU_FINISH_FAIL = 0x3333"

definition qemu_test_exit :: "u32 \<Rightarrow> 'z qmachine_scheme \<Rightarrow> 'z qmachine_scheme run" where
  "qemu_test_exit v = block [exec (\<lambda>s. s\<lparr>finisher := finisher s @ [v]\<rparr>), wfi_forever]"

definition test_pass_q :: "'z qmachine_scheme \<Rightarrow> 'z qmachine_scheme run" where
  "test_pass_q = block [uart_puts (''[PASS]'' @ [CHR 0x0A]), qemu_test_exit QEMU_FINISH_PASS]"

definition test_fail_q :: "c_int \<Rightarrow> 'z qmachine_scheme \<Rightarrow> 'z qmachine_scheme run" where
  "test_fail_q code = block
     [uart_puts ''[FAIL] code='', uart_put_dec code, uart_putc (CHR 0x0A),
      qemu_test_exit (QEMU_FINISH_FAIL OR push_bit 16 (word_of_int code))]"

definition test_assert_q :: "bool \<Rightarrow> string \<Rightarrow> c_int \<Rightarrow> 'z qmachine_scheme \<Rightarrow> 'z qmachine_scheme run" where
  "test_assert_q condition msg fail_code = if_do (\<not> condition) (block
     [uart_puts ''ASSERT FAILED: '', uart_puts msg, uart_putc (CHR 0x0A), test_fail_q fail_code])"

text \<open>\<open>info\<close> is where the linker put \<open>_m_trap_info\<close>.\<close>

definition m_panic_q ::
    "u64 \<Rightarrow> u64 \<Rightarrow> u64 \<Rightarrow> u64 \<Rightarrow> u64 \<Rightarrow> 'z qmachine_scheme \<Rightarrow> 'z qmachine_scheme run" where
  "m_panic_q info mcause mepc mtval cause_code = block
     [exec (st64 (slot info 0) mcause),
      exec (st64 (slot info 1) mepc),
      exec (st64 (slot info 2) mtval),
      exec (\<lambda>s. s\<lparr>finisher := finisher s @ [0x3333 OR push_bit 16 (500 + ucast cause_code)]\<rparr>),
      wfi_forever]"

definition m_trap_handler_q ::
    "u64 \<Rightarrow> u64 \<Rightarrow> u64 \<Rightarrow> u64 \<Rightarrow> u64 \<Rightarrow> 'z qmachine_scheme \<Rightarrow> 'z qmachine_scheme run" where
  "m_trap_handler_q info mcause mepc mtval frame s =
     (let is_interrupt = drop_bit 63 mcause AND 1;
          cause_code = mcause AND 0x7FFFFFFFFFFFFFFF
      in if is_interrupt \<noteq> 0 then
           if cause_code = IRQ_M_TIMER then
             let s = clear_csr_bits_mie MIP_MTIP s;
                 s = wr64 (CLINT_MTIMECMP (read_mhartid s)) 0xFFFFFFFFFFFFFFFF s;
                 s = set_csr_bits_mip MIP_STIP s
             in m_return mepc s
           else if cause_code = IRQ_M_SOFT then
             let s = wr32 (CLINT_MSIP (read_mhartid s)) 0 s;
                 s = set_csr_bits_mip MIP_SSIP s
             in m_return mepc s
           else m_panic_q info mcause mepc mtval cause_code s
         else if cause_code = CAUSE_ECALL_SMODE then
           let sbi_func = mem s (slot frame 11); sbi_a0 = mem s (slot frame 4)
           in if sbi_func = SBI_SET_TIMER then
                let s = wr64 (CLINT_MTIMECMP (read_mhartid s)) sbi_a0 s;
                    s = clear_csr_bits_mip MIP_STIP s;
                    s = set_csr_bits_mie MIP_MTIP s
                in m_return (mepc + 4) s
              else if sbi_func = SBI_SEND_IPI then
                let s = (if sbi_a0 < NUM_HARTS then wr32 (CLINT_MSIP sbi_a0) 1 s else s)
                in m_return (mepc + 4) s
              else if sbi_func = SBI_CLEAR_IPI then
                m_return (mepc + 4) (clear_csr_bits_mip MIP_SSIP s)
              else
                let s = write_csr_scause CAUSE_ECALL_SMODE s;
                    s = write_csr_sepc mepc s;
                    s = write_csr_stval 0 s;
                    stvec = csr_stvec (cpu s) AND NOT 3;
                    s = s\<lparr>cpu := (cpu s)\<lparr>csr_mstatus := csr_mstatus (cpu s) OR push_bit 8 1\<rparr>\<rparr>
                in m_return stvec s
         else m_panic_q info mcause mepc mtval cause_code s)"

definition m_trap_vector_q :: "u64 \<Rightarrow> 'z qmachine_scheme \<Rightarrow> 'z qmachine_scheme run" where
  "m_trap_vector_q info = block
     [exec (add_sp (- 128)),
      exec (\<lambda>s. save_regs m_saved (gpr (cpu s) 2) s),
      \<lambda>s. m_trap_handler_q info (csr_mcause (cpu s)) (csr_mepc (cpu s)) (csr_mtval (cpu s)) (gpr (cpu s) 2)
            (clobber caller_saved s),
      exec (on_cpu (\<lambda>h. h\<lparr>csr_mepc := gpr h 10\<rparr>)),
      exec (\<lambda>s. restore_regs m_saved (gpr (cpu s) 2) s),
      exec (add_sp 128),
      exec (on_cpu mret)]"

definition ecall_q :: "u64 \<Rightarrow> 'z qmachine_scheme \<Rightarrow> 'z qmachine_scheme run" where
  "ecall_q info = block [exec (on_cpu (enter_m CAUSE_ECALL_SMODE 0)), m_trap_vector_q info]"

definition s_interrupt_case_q :: "u64 \<Rightarrow> u64 \<Rightarrow> u64 \<Rightarrow> 'z qmachine_scheme \<Rightarrow> 'z qmachine_scheme run" where
  "s_interrupt_case_q info cause cause_code = block
     [exec (upd_trap (\<lambda>t. t\<lparr>irq_count := inc32 (irq_count t)\<rparr>)),
      exec (upd_trap (\<lambda>t. t\<lparr>last_irq_cause := cause\<rparr>)),
      if cause_code = IRQ_S_TIMER then block
        [exec (upd_trap (\<lambda>t. t\<lparr>timer_irq_count := inc32 (timer_irq_count t)\<rparr>)),
         exec (set_reg 10 0xFFFFFFFFFFFFFFFF), exec (set_reg 17 SBI_SET_TIMER), ecall_q info]
      else if cause_code = IRQ_S_SOFT then block
        [exec (upd_trap (\<lambda>t. t\<lparr>soft_irq_count := inc32 (soft_irq_count t)\<rparr>)),
         exec clear_sip_ssip]
      else if cause_code = IRQ_S_EXT then skip
      else block
        [uart_puts ''UNEXPECTED S-MODE INTERRUPT: cause='', uart_put_hex cause, uart_putc (CHR 0x0A),
         test_fail_q (wrap32 (100 + int_of_u64 cause_code))]]"

definition skip_insn_q :: "u64 \<Rightarrow> u64 \<Rightarrow> u64 \<Rightarrow> 'z qmachine_scheme \<Rightarrow> 'z qmachine_scheme run" where
  "skip_insn_q cause_code epc frame = (if cause_code = CAUSE_INST_PAGE_FAULT
     then block
       [uart_puts (''  [TRAP] ERROR: skip unsupported for ifetch faults'' @ [CHR 0x0A]), test_fail_q 201]
     else (\<lambda>s. let insn_lo = ld16 s epc; insn_len = (if insn_lo AND 3 = 3 then 4 else 2)
               in Ret (st64 (slot frame 30) (epc + insn_len) s)))"

definition fix_pte_q :: "u64 \<Rightarrow> u64 \<Rightarrow> 'z qmachine_scheme \<Rightarrow> 'z qmachine_scheme run" where
  "fix_pte_q cause_code tval s =
     (let satp = read_csr_satp s;
          root = push_bit PGSHIFT (satp AND 0x00000FFFFFFFFFFF);
          (level, pte_ptr) = pt_walk root tval s
      in if pte_ptr = 0 then test_fail_q 200 s
         else block
           [uart_puts ''  [TRAP] PTE before fix: '', (\<lambda>s. uart_put_hex (mem s pte_ptr) s), uart_putc (CHR 0x0A),
            exec (\<lambda>s. st64 pte_ptr (fixed_pte cause_code (mem s pte_ptr)) s),
            uart_puts ''  [TRAP] PTE after fix:  '', (\<lambda>s. uart_put_hex (mem s pte_ptr) s), uart_putc (CHR 0x0A),
            exec (sfence_vma_addr tval)] s)"

definition s_trap_handler_q ::
    "u64 \<Rightarrow> u64 \<Rightarrow> u64 \<Rightarrow> u64 \<Rightarrow> u64 \<Rightarrow> 'z qmachine_scheme \<Rightarrow> 'z qmachine_scheme run" where
  "s_trap_handler_q info cause tval epc frame =
     (let is_interrupt = drop_bit 63 cause AND 1;
          cause_code = cause AND 0x7FFFFFFFFFFFFFFF
      in block
       [exec (upd_trap (\<lambda>t. t\<lparr>scause := cause, stval := tval, sepc := epc, fault_count := inc32 (fault_count t)\<rparr>)),
        if is_interrupt \<noteq> 0 then s_interrupt_case_q info cause cause_code
        else if cause_code \<in> {CAUSE_INST_PAGE_FAULT, CAUSE_LOAD_PAGE_FAULT, CAUSE_STORE_PAGE_FAULT} then block
          [uart_puts ''  [TRAP] Page fault: cause='', uart_put_dec (int_of_u64 cause_code),
           uart_puts '' stval='', uart_put_hex tval, uart_puts '' sepc='', uart_put_hex epc, uart_putc (CHR 0x0A),
           \<lambda>s. if handler_action (g_trap s) = 1 then skip_insn_q cause_code epc frame s else fix_pte_q cause_code tval s]
        else if cause_code = CAUSE_ILLEGAL_INST then block
          [uart_puts ''  [TRAP] Illegal instruction at sepc='', uart_put_hex epc, uart_putc (CHR 0x0A), test_fail_q 300]
        else if cause_code = CAUSE_ECALL_SMODE then block
          [uart_puts ''  [TRAP] ecall from S-mode at sepc='', uart_put_hex epc, uart_putc (CHR 0x0A),
           exec (st64 (slot frame 30) (epc + 4))]
        else block
          [uart_puts ''  [TRAP] Unexpected exception: cause='', uart_put_dec (int_of_u64 cause_code),
           uart_puts '' stval='', uart_put_hex tval, uart_putc (CHR 0x0A),
           test_fail_q (wrap32 (400 + int_of_u64 cause_code))]])"

definition s_mode_entry_q ::
    "u64 \<Rightarrow> ('z qmachine_scheme \<Rightarrow> (c_int \<times> 'z qmachine_scheme) run) \<Rightarrow> 'z qmachine_scheme \<Rightarrow> 'z qmachine_scheme run" where
  "s_mode_entry_q s_trap_vector_addr test_main = block
     [exec (write_csr_stvec s_trap_vector_addr),
      uart_puts (CHR 0x0A # ''=== S-mode entry, stvec set ==='' @ [CHR 0x0A]),
      \<lambda>s. case test_main s of
             Ret (result, s') \<Rightarrow> if result = 0 then test_pass_q s' else test_fail_q result s'
           | Halt (_, s') \<Rightarrow> Halt s'
           | Hang \<Rightarrow> Hang]"

definition baremetal_main ::
    "u64 \<Rightarrow> ('z qmachine_scheme \<Rightarrow> (c_int \<times> 'z qmachine_scheme) run) \<Rightarrow> 'z qmachine_scheme \<Rightarrow> 'z qmachine_scheme run" where
  "baremetal_main s_trap_vector_addr test_main = block [s_mode_entry_q s_trap_vector_addr test_main, wfi_forever]"

section \<open>Two programs with the same effect and the same verdicts\<close>

datatype verdict = Pass | Fail c_int

fun htif_word :: "verdict \<Rightarrow> u64" where
  "htif_word Pass = 1"
| "htif_word (Fail code) = fail_word code"

fun finisher_word :: "verdict \<Rightarrow> u32" where
  "finisher_word Pass = 0x5555"
| "finisher_word (Fail code) = 0x3333 OR push_bit 16 (word_of_int code)"

text \<open>
  \<open>same_logic f g\<close>: with working devices, where \<open>f\<close> returns \<open>g\<close> returns in the same
  state, and where \<open>f\<close> stops after reporting a verdict to the HTIF host \<open>g\<close> stops after
  reporting the same verdict to the finisher.
\<close>

definition same_end ::
    "u32 list \<Rightarrow> 'z qmachine_scheme run \<Rightarrow> 'z qmachine_scheme run \<Rightarrow> bool" where
  "same_end ws r q \<longleftrightarrow>
     (case r of
        Ret s' \<Rightarrow> q = Ret s' \<and> dev_ok (dev s') \<and> finisher s' = ws
      | Halt s' \<Rightarrow> (\<exists>v t. tohost (dev s') = htif_word v \<and> q = Halt t \<and> finisher t = ws @ [finisher_word v])
      | Hang \<Rightarrow> q = Hang)"

definition same_logic ::
    "('z qmachine_scheme \<Rightarrow> 'z qmachine_scheme run) \<Rightarrow> ('z qmachine_scheme \<Rightarrow> 'z qmachine_scheme run) \<Rightarrow> bool" where
  "same_logic f g \<longleftrightarrow> (\<forall>s. dev_ok (dev s) \<longrightarrow> same_end (finisher s) (f s) (g s))"

lemma same_logicI: "(\<And>s. dev_ok (dev s) \<Longrightarrow> same_end (finisher s) (f s) (g s)) \<Longrightarrow> same_logic f g"
  by (simp add: same_logic_def)

lemma same_logicD: "same_logic f g \<Longrightarrow> dev_ok (dev s) \<Longrightarrow> same_end (finisher s) (f s) (g s)"
  by (simp add: same_logic_def)

lemma same_end_simps [simp]:
  "same_end ws (Ret s) q \<longleftrightarrow> q = Ret s \<and> dev_ok (dev s) \<and> finisher s = ws"
  "same_end ws Hang q \<longleftrightarrow> q = Hang"
  by (simp_all add: same_end_def)

lemma same_end_Halt [simp]:
  "same_end ws (Halt s) q \<longleftrightarrow>
     (\<exists>v t. tohost (dev s) = htif_word v \<and> q = Halt t \<and> finisher t = ws @ [finisher_word v])"
  by (simp add: same_end_def)

lemma same_logic_Nil: "same_logic (block []) (block [])"
  by (rule same_logicI) simp

lemma same_logic_Cons:
  fixes f g :: "'z qmachine_scheme \<Rightarrow> 'z qmachine_scheme run"
  assumes "same_logic f g" "same_logic (block fs) (block gs)"
  shows "same_logic (block (f # fs)) (block (g # gs))"
proof (rule same_logicI)
  fix s :: "'z qmachine_scheme" assume ok: "dev_ok (dev s)"
  show "same_end (finisher s) (block (f # fs) s) (block (g # gs) s)"
  proof (cases "f s")
    case (Ret s')
    with same_logicD [OF assms(1) ok] have "g s = Ret s'" "dev_ok (dev s')" "finisher s' = finisher s" by simp_all
    with Ret same_logicD [OF assms(2), of s'] show ?thesis by (simp add: block_Cons)
  qed (use same_logicD [OF assms(1) ok] in \<open>auto simp: block_Cons\<close>)
qed

lemma same_logic_if:
  "same_logic f g \<Longrightarrow> same_logic f' g' \<Longrightarrow> same_logic (if b then f else f') (if b then g else g')"
  by simp

text \<open>Statements that neither write to the finisher nor stop.\<close>

lemma same_logic_exec:
  "(\<And>s. dev (f s) = dev s) \<Longrightarrow> (\<And>s. finisher (f s) = finisher s) \<Longrightarrow> same_logic (exec f) (exec f)"
  by (rule same_logicI) simp

lemma same_logic_say: "(\<And>s. dev_ok (dev s) \<Longrightarrow> \<exists>cs. f s = Ret (say cs s)) \<Longrightarrow> same_logic f f"
  by (rule same_logicI) force

lemma same_logic_print:
  "same_logic (uart_puts cs) (uart_puts cs)" "same_logic (uart_putc c) (uart_putc c)"
  "same_logic (uart_put_hex w) (uart_put_hex w)" "same_logic (uart_put_dec i) (uart_put_dec i)"
  "same_logic (\<lambda>s. uart_put_hex (f s) s) (\<lambda>s. uart_put_hex (f s) s)" "same_logic skip skip"
  by (rule same_logic_say, simp del: uart_puts.simps, rule exI, rule refl)+
    (rule same_logicI, simp)

text \<open>The verdicts.\<close>

lemma qemu_test_exit_halts: "qemu_test_exit v s = Halt (s\<lparr>finisher := finisher s @ [v]\<rparr>)"
  by (simp add: qemu_test_exit_def wfi_forever_def)

lemma test_fail_q_halts:
  "dev_ok (dev s) \<Longrightarrow> test_fail_q code s =
     Halt ((say (''[FAIL] code='' @ dec_text code @ [CHR 0x0A]) s)\<lparr>finisher := finisher s @ [finisher_word (Fail code)]\<rparr>)"
  by (simp add: test_fail_q_def qemu_test_exit_halts QEMU_FINISH_FAIL_def crlf_def del: uart_puts.simps)

lemma same_logic_test_fail: "same_logic (test_fail code) (test_fail_q code)"
proof (rule same_logicI)
  fix s :: "'z qmachine_scheme" assume ok: "dev_ok (dev s)"
  from test_fail_stops [OF ok] obtain d where d: "test_fail code s = Halt (s\<lparr>dev := d\<rparr>)" "tohost d = fail_word code" by blast
  then have "tohost d = htif_word (Fail code)" by simp
  with d(1) test_fail_q_halts [OF ok] show "same_end (finisher s) (test_fail code s) (test_fail_q code s)"
    by (simp del: htif_word.simps finisher_word.simps) blast
qed

lemma same_logic_test_pass: "same_logic test_pass test_pass_q"
proof (rule same_logicI)
  fix s :: "'z qmachine_scheme" assume ok: "dev_ok (dev s)"
  from test_pass_halts [OF ok] obtain d where d: "test_pass s = Halt (s\<lparr>dev := d\<rparr>)" "tohost d = htif_word Pass" by auto
  have "\<exists>cs. test_pass_q s = Halt ((say cs s)\<lparr>finisher := finisher s @ [finisher_word Pass]\<rparr>)"
    using ok by (simp add: test_pass_q_def qemu_test_exit_halts QEMU_FINISH_PASS_def del: uart_puts.simps) blast
  with d show "same_end (finisher s) (test_pass s) (test_pass_q s)"
    by (auto simp del: htif_word.simps finisher_word.simps)
qed

lemma word_of_wrap32: "(word_of_int (wrap32 x) :: u32) = word_of_int x"
proof (rule bit_word_eqI)
  fix n assume "n < LENGTH(32)"
  then have "min 31 n = n" by simp
  with \<open>n < LENGTH(32)\<close> show "bit (word_of_int (wrap32 x) :: u32) n = bit (word_of_int x :: u32) n"
    by (simp add: wrap32_def bit_simps)
qed

lemma panic_word:
  "(0x3333 :: u32) OR push_bit 16 (500 + ucast cc) = finisher_word (Fail (wrap32 (500 + int_of_u64 cc)))"
  using word_of_wrap32 [of "uint cc"] by (simp add: word_of_wrap32 int_of_u64_def)

lemma same_logic_panic: "same_logic (m_panic c e t cc) (m_panic_q info c e t cc)"
proof (rule same_logicI)
  fix s :: "'z qmachine_scheme" assume ok: "dev_ok (dev s)"
  from m_panic_halts [OF ok, of c e t cc] obtain d m where d: "m_panic c e t cc s = Halt (s\<lparr>mem := m, dev := d\<rparr>)"
    "tohost d = htif_word (Fail (wrap32 (500 + int_of_u64 cc)))" by auto
  have "\<exists>m. m_panic_q info c e t cc s =
      Halt (s\<lparr>mem := m, finisher := finisher s @ [finisher_word (Fail (wrap32 (500 + int_of_u64 cc)))]\<rparr>)"
    unfolding m_panic_q_def panic_word by (simp add: st64_def wfi_forever_def) blast
  with d show "same_end (finisher s) (m_panic c e t cc s) (m_panic_q info c e t cc s)"
    by (auto simp del: htif_word.simps finisher_word.simps)
qed

section \<open>The handlers\<close>

lemmas frame_defs = m_return_def wr64_def wr32_def clear_csr_bits_mie_def set_csr_bits_mie_def clear_csr_bits_mip_def
  set_csr_bits_mip_def write_csr_scause_def write_csr_sepc_def write_csr_stval_def read_mhartid_def

lemma same_logic_m_trap:
  "same_logic (m_trap_handler c e t f) (m_trap_handler_q info c e t f)"
proof (rule same_logicI)
  fix s :: "'z qmachine_scheme" assume ok: "dev_ok (dev s)"
  note p = same_logicD [OF same_logic_panic ok]
  show "same_end (finisher s) (m_trap_handler c e t f s) (m_trap_handler_q info c e t f s)"
    unfolding m_trap_handler_def m_trap_handler_q_def Let_def
    using ok by (simp add: p) (simp add: frame_defs)
qed

lemma restore_regs_frame [simp]:
  "dev (restore_regs rs a s) = dev s" "finisher (restore_regs rs a q) = finisher q"
  by (induction rs arbitrary: a s q) simp_all

lemma same_logic_m_vector: "same_logic m_trap_vector (m_trap_vector_q info)"
  unfolding m_trap_vector_def m_trap_vector_q_def
proof (intro same_logic_Cons same_logic_Nil)
  show "same_logic (\<lambda>s. m_trap_handler (csr_mcause (cpu s)) (csr_mepc (cpu s)) (csr_mtval (cpu s)) (gpr (cpu s) 2) (clobber caller_saved s))
     (\<lambda>s. m_trap_handler_q info (csr_mcause (cpu s)) (csr_mepc (cpu s)) (csr_mtval (cpu s)) (gpr (cpu s) 2) (clobber caller_saved s))"
  proof (rule same_logicI)
    fix s :: "'z qmachine_scheme" assume "dev_ok (dev s)"
    then have "dev_ok (dev (clobber caller_saved s))" by (simp add: clobber_def)
    from same_logicD [OF same_logic_m_trap this]
    show "same_end (finisher s)
        (m_trap_handler (csr_mcause (cpu s)) (csr_mepc (cpu s)) (csr_mtval (cpu s)) (gpr (cpu s) 2) (clobber caller_saved s))
        (m_trap_handler_q info (csr_mcause (cpu s)) (csr_mepc (cpu s)) (csr_mtval (cpu s)) (gpr (cpu s) 2) (clobber caller_saved s))"
      by (simp add: clobber_def)
  qed
qed (rule same_logic_exec; simp add: add_sp_def save_regs_eq on_cpu_def)+

lemma same_logic_ecall: "same_logic ecall (ecall_q info)"
  unfolding ecall_def ecall_q_def
  by (intro same_logic_Cons same_logic_Nil same_logic_m_vector same_logic_exec) (simp_all add: on_cpu_def)

lemma same_logic_upd_trap: "same_logic (exec (upd_trap f)) (exec (upd_trap f))"
  by (rule same_logic_exec) (simp_all add: upd_trap_def)

lemma same_logic_set_reg: "same_logic (exec (set_reg r v)) (exec (set_reg r v))"
  by (rule same_logic_exec) (simp_all add: set_reg_def on_cpu_def)

lemma same_logic_st64: "same_logic (exec (\<lambda>s. st64 a (v s) s)) (exec (\<lambda>s. st64 a (v s) s))"
  by (rule same_logic_exec) (simp_all add: st64_def)

lemmas same_logic_steps = same_logic_Cons same_logic_Nil same_logic_if same_logic_print same_logic_test_fail
  same_logic_upd_trap same_logic_set_reg same_logic_st64 same_logic_ecall

lemma same_logic_interrupt: "same_logic (s_interrupt_case c cc) (s_interrupt_case_q info c cc)"
proof -
  have "same_logic (exec clear_sip_ssip) (exec clear_sip_ssip)"
    by (rule same_logic_exec) (simp_all add: clear_sip_ssip_def)
  then show ?thesis unfolding s_interrupt_case_def s_interrupt_case_q_def by (intro same_logic_steps)
qed

lemma same_logic_skip: "same_logic (skip_insn cc epc f) (skip_insn_q cc epc f)"
proof -
  have "same_logic (\<lambda>s. let insn_lo = ld16 s epc; insn_len = (if insn_lo AND 3 = 3 then 4 else 2)
               in Ret (st64 (slot f 30) (epc + insn_len) s))
     (\<lambda>s. let insn_lo = ld16 s epc; insn_len = (if insn_lo AND 3 = 3 then 4 else 2)
               in Ret (st64 (slot f 30) (epc + insn_len) s))"
    by (rule same_logicI) (simp add: Let_def st64_def)
  then show ?thesis unfolding skip_insn_def skip_insn_q_def by (intro same_logic_steps)
qed

lemma same_logic_fix: "same_logic (fix_pte cc tval) (fix_pte_q cc tval)"
proof (rule same_logicI)
  fix s :: "'z qmachine_scheme" assume ok: "dev_ok (dev s)"
  obtain level p where w: "pt_walk (push_bit PGSHIFT (read_csr_satp s AND 0x00000FFFFFFFFFFF)) tval s = (level, p)"
    by (cases "pt_walk (push_bit PGSHIFT (read_csr_satp s AND 0x00000FFFFFFFFFFF)) tval s")
  have "same_logic (exec (sfence_vma_addr tval)) (exec (sfence_vma_addr tval))"
    by (rule same_logic_exec) (simp_all add: sfence_vma_addr_def)
  then have l: "same_logic (if p = 0 then test_fail 200 else block
           [uart_puts ''  [TRAP] PTE before fix: '', (\<lambda>s. uart_put_hex (mem s p) s), uart_putc (CHR 0x0A),
            exec (\<lambda>s. st64 p (fixed_pte cc (mem s p)) s),
            uart_puts ''  [TRAP] PTE after fix:  '', (\<lambda>s. uart_put_hex (mem s p) s), uart_putc (CHR 0x0A),
            exec (sfence_vma_addr tval)])
     (if p = 0 then test_fail_q 200 else block
           [uart_puts ''  [TRAP] PTE before fix: '', (\<lambda>s. uart_put_hex (mem s p) s), uart_putc (CHR 0x0A),
            exec (\<lambda>s. st64 p (fixed_pte cc (mem s p)) s),
            uart_puts ''  [TRAP] PTE after fix:  '', (\<lambda>s. uart_put_hex (mem s p) s), uart_putc (CHR 0x0A),
            exec (sfence_vma_addr tval)])"
    by (intro same_logic_steps)
  show "same_end (finisher s) (fix_pte cc tval s) (fix_pte_q cc tval s)"
    using same_logicD [OF l ok] unfolding fix_pte_def fix_pte_q_def Let_def w prod.case
    by (cases "p = 0") (simp_all only: if_True if_False refl)
qed

lemma same_logic_s_trap: "same_logic (s_trap_handler c tval epc f) (s_trap_handler_q info c tval epc f)"
proof -
  have "same_logic (\<lambda>s. if handler_action (g_trap s) = 1 then skip_insn cc epc f s else fix_pte cc tval s)
     (\<lambda>s. if handler_action (g_trap s) = 1 then skip_insn_q cc epc f s else fix_pte_q cc tval s)" for cc
    by (rule same_logicI) (simp add: same_logicD [OF same_logic_skip] same_logicD [OF same_logic_fix])
  then show ?thesis unfolding s_trap_handler_def s_trap_handler_q_def Let_def
    by (intro same_logic_steps same_logic_interrupt)
qed

section \<open>Properties\<close>

text \<open>
  C24. The port keeps the logic of both trap handlers. For every cause, on working devices: where
  the suite's handler returns the port's returns in the same state, without touching the
  finisher; where the suite's stops after putting a verdict into \<open>tohost\<close> the port's stops after
  writing exactly one word to the finisher, the one for the same verdict.
\<close>

theorem qemu_handlers_agree:
  "same_logic (m_trap_handler mcause mepc mtval frame) (m_trap_handler_q info mcause mepc mtval frame) \<and>
   same_logic (s_trap_handler cause tval epc frame) (s_trap_handler_q info cause tval epc frame)"
  by (intro conjI same_logic_m_trap same_logic_s_trap)

lemma finisher_fail_low: "take_bit 16 (finisher_word (Fail code)) = 0x3333"
proof -
  have "take_bit 16 (push_bit 16 (word_of_int code :: u32)) = 0"
    by (rule bit_word_eqI) (auto simp: bit_simps)
  then show ?thesis by (simp add: take_bit_or)
qed

lemma finisher_fail_high: "uint (drop_bit 16 (finisher_word (Fail code))) = code mod 2 ^ 16"
proof -
  have z: "drop_bit 16 (0x3333 :: u32) = 0" by (simp add: drop_bit_eq_div)
  have "drop_bit 16 (push_bit 16 (word_of_int code :: u32)) = take_bit 16 (word_of_int code)"
    by (rule bit_word_eqI) (auto simp: bit_simps)
  then have "uint (drop_bit 16 (finisher_word (Fail code))) = uint (take_bit 16 (word_of_int code :: u32))"
    unfolding finisher_word.simps drop_bit_or z by simp
  also have "\<dots> = take_bit 16 (take_bit 32 code)" by (simp only: unsigned_take_bit_eq unsigned_of_int) simp
  finally show ?thesis by (simp add: take_bit_eq_mod mod_mod_cancel)
qed

text \<open>
  C33. Verdicts of the QEMU port: for every code \<open>test_fail\<close> prints the code and stops the hart after exactly one write to
  the finisher, of a word that is marked as a failure and carries the code modulo 2^16 in its upper half, so that the codes
  from 0 to 2^16 - 1 give different words and no code gives the word of a pass; \<open>test_pass\<close> stops it after
  writing the pass word.
\<close>

theorem qemu_verdicts:
  assumes "dev_ok (dev s)"
  shows "(\<exists>s' w. test_fail_q code s = Halt s' \<and> finisher s' = finisher s @ [w] \<and> take_bit 16 w = QEMU_FINISH_FAIL \<and>
      uint (drop_bit 16 w) = code mod 2 ^ 16 \<and> w \<noteq> QEMU_FINISH_PASS \<and>
      console_text (dev s') = console_text (dev s) @ ''[FAIL] code='' @ dec_text code @ [CHR 0x0A]) \<and>
    (\<exists>s'. test_pass_q s = Halt s' \<and> finisher s' = finisher s @ [QEMU_FINISH_PASS] \<and>
      console_text (dev s') = console_text (dev s) @ ''[PASS]'' @ [CHR 0x0D, CHR 0x0A])"
proof -
  have l: "take_bit 16 (finisher_word (Fail code)) = QEMU_FINISH_FAIL"
    using finisher_fail_low [of code] by (simp only: QEMU_FINISH_FAIL_def)
  have "take_bit 16 QEMU_FINISH_PASS \<noteq> QEMU_FINISH_FAIL"
    by (simp add: QEMU_FINISH_PASS_def QEMU_FINISH_FAIL_def take_bit_eq_mod)
  with l have "finisher_word (Fail code) \<noteq> QEMU_FINISH_PASS" by metis
  with l finisher_fail_high [of code] have
    "\<exists>s' w. test_fail_q code s = Halt s' \<and> finisher s' = finisher s @ [w] \<and> take_bit 16 w = QEMU_FINISH_FAIL \<and>
      uint (drop_bit 16 w) = code mod 2 ^ 16 \<and> w \<noteq> QEMU_FINISH_PASS \<and>
      console_text (dev s') = console_text (dev s) @ ''[FAIL] code='' @ dec_text code @ [CHR 0x0A]"
    unfolding test_fail_q_halts [OF assms] using assms
    by (intro exI [of _ "(say (''[FAIL] code='' @ dec_text code @ [CHR 0x0A]) s)\<lparr>finisher := finisher s @ [finisher_word (Fail code)]\<rparr>"]
        exI [of _ "finisher_word (Fail code)"]) (simp add: emit_mono del: finisher_word.simps)
  moreover have "\<exists>s'. test_pass_q s = Halt s' \<and> finisher s' = finisher s @ [QEMU_FINISH_PASS] \<and>
      console_text (dev s') = console_text (dev s) @ ''[PASS]'' @ [CHR 0x0D, CHR 0x0A]"
    using assms by (simp add: test_pass_q_def qemu_test_exit_halts emit_mono crlf_def del: uart_puts.simps)
  ultimately show ?thesis by simp
qed

text \<open>
  \<open>baremetal_main\<close> never returns, and the finisher gets the pass word exactly when the test
  program returns 0, for a program that returns with working devices and has written nothing
  to the finisher itself.
\<close>

theorem baremetal_main_verdict:
  assumes "dev_ok (dev s)" "finisher s = []"
    and "\<And>s1. dev_ok (dev s1) \<Longrightarrow> finisher s1 = [] \<Longrightarrow> csr_stvec (cpu s1) = vec \<Longrightarrow>
      \<exists>s2. test_main s1 = Ret (r, s2) \<and> dev_ok (dev s2) \<and> finisher s2 = []"
  shows "\<exists>s' w. baremetal_main vec test_main s = Halt s' \<and> finisher s' = [w] \<and> (w = QEMU_FINISH_PASS \<longleftrightarrow> r = 0)"
proof -
  define b where "b = CHR 0x0A # ''=== S-mode entry, stvec set ==='' @ [CHR 0x0A]"
  let ?s1 = "say (crlf b) (write_csr_stvec vec s)"
  have "dev_ok (dev ?s1)" "finisher ?s1 = []" "csr_stvec (cpu ?s1) = vec"
    using assms(1,2) by (simp_all add: write_csr_stvec_def)
  from assms(3) [OF this] obtain s2 where s2: "test_main ?s1 = Ret (r, s2)" "dev_ok (dev s2)" "finisher s2 = []" by blast
  have "dev_ok (dev (write_csr_stvec vec s))" using assms(1) by (simp add: write_csr_stvec_def)
  then have e: "s_mode_entry_q vec test_main s = (if r = 0 then test_pass_q s2 else test_fail_q r s2)"
    unfolding s_mode_entry_q_def b_def [symmetric] using s2(1) by (simp del: uart_puts.simps)
  have "finisher_word (Fail r) \<noteq> QEMU_FINISH_PASS"
  proof
    assume "finisher_word (Fail r) = QEMU_FINISH_PASS"
    then have "(0x3333 :: u32) = take_bit 16 QEMU_FINISH_PASS" using finisher_fail_low [of r] by metis
    then show False by (simp add: QEMU_FINISH_PASS_def take_bit_eq_mod)
  qed
  then show ?thesis
    using e s2 test_fail_q_halts [OF s2(2), of r] unfolding baremetal_main_def
    by (auto simp: test_pass_q_def qemu_test_exit_halts simp del: uart_puts.simps finisher_word.simps)
qed

section \<open>Witnesses\<close>

definition demo_q :: qmachine where
  "demo_q = machine.extend demo_machine \<lparr>finisher = []\<rparr>"

lemma demo_q_simps: "dev_ok (dev demo_q)" "finisher demo_q = []"
  using demo_dev_ok by (simp_all add: demo_q_def machine.defs demo_machine_def)

theorem qemu_verdicts_witness:
  "dev_ok (dev demo_q) \<and> (\<exists>s' w. test_fail_q 201 demo_q = Halt s' \<and> finisher s' = [w] \<and> uint (drop_bit 16 w) = 201)"
  using qemu_verdicts [OF demo_q_simps(1), of 201] demo_q_simps by auto

theorem baremetal_main_verdict_witness:
  "\<exists>s' w. baremetal_main 0x80000200 (\<lambda>s. Ret (7, s)) demo_q = Halt s' \<and> finisher s' = [w] \<and> w \<noteq> QEMU_FINISH_PASS"
proof -
  have "\<exists>s2. (Ret (7, s1) :: (c_int \<times> qmachine) run) = Ret (7, s2) \<and> dev_ok (dev s2) \<and> finisher s2 = []"
    if "dev_ok (dev s1)" "finisher s1 = []" for s1 :: qmachine
    using that by simp
  from baremetal_main_verdict [OF demo_q_simps, of "0x80000200" "\<lambda>s. Ret (7, s)" 7, OF this] show ?thesis by auto
qed

end
