(* ===== verification/ZThreads.thy ===== *)
theory ZThreads
  imports Interleave
begin

text \<open>
  The tests of phase 4 of the Zephyr suite have one shape: the test thread resets the shared
  variables, starts up to two workers, each pinned to a CPU, joins them and asserts something
  about the variables. Here is that test thread, interleaved with the workers, and what makes
  such a test pass. Creating, pinning and joining threads are services of the kernel:
  \<open>pin_rc\<close> is the result of \<open>k_thread_cpu_pin\<close> and \<open>patient\<close> says that no join runs into its
  time limit.
\<close>

section \<open>The test thread\<close>

datatype worker = W0 | W1

datatype 's test_op =
  Exec "'s \<Rightarrow> 's"
| Start_on int worker
| Join worker
| Zassert "'s \<Rightarrow> bool"

text \<open>\<open>pinned w\<close> is the CPU the worker runs on once it has been started.\<close>

record 's test_thread =
  shared :: 's
  todo :: "'s test_op list"
  pinned :: "worker \<Rightarrow> int option"
  outcome :: "bool option"

text \<open>\<open>start_worker_on\<close>: create, pin, start; a failed pinning fails the test.\<close>

definition start_worker_on :: "(int \<Rightarrow> c_int) \<Rightarrow> int \<Rightarrow> worker \<Rightarrow> 's test_thread \<Rightarrow> 's test_thread" where
  "start_worker_on pin_rc cpu w m =
     (if pin_rc cpu = 0 then m\<lparr>pinned := (pinned m)(w := Some cpu)\<rparr> else m\<lparr>outcome := Some False, todo := []\<rparr>)"

text \<open>One operation of the test thread; \<open>None\<close> while a join waits. A test that gets to its end has passed.\<close>

definition test_op_step ::
    "(int \<Rightarrow> c_int) \<Rightarrow> (worker \<Rightarrow> 's \<Rightarrow> bool) \<Rightarrow> 's test_thread \<Rightarrow> 's test_thread option" where
  "test_op_step pin_rc finished m =
     (if outcome m \<noteq> None then None
      else case todo m of
        [] \<Rightarrow> Some (m\<lparr>outcome := Some True\<rparr>)
      | Exec f # ops \<Rightarrow> Some (m\<lparr>shared := f (shared m), todo := ops\<rparr>)
      | Start_on cpu w # ops \<Rightarrow> Some (start_worker_on pin_rc cpu w (m\<lparr>todo := ops\<rparr>))
      | Join w # ops \<Rightarrow> if finished w (shared m) then Some (m\<lparr>todo := ops\<rparr>) else None
      | Zassert P # ops \<Rightarrow>
          Some (if P (shared m) then m\<lparr>todo := ops\<rparr> else m\<lparr>outcome := Some False, todo := []\<rparr>))"

text \<open>\<open>prog w cpu\<close> are the steps of a worker on a CPU. A join that is not patient may give up.\<close>

inductive test_step ::
    "bool \<Rightarrow> (int \<Rightarrow> c_int) \<Rightarrow> (worker \<Rightarrow> int \<Rightarrow> 's \<Rightarrow> 's \<Rightarrow> bool) \<Rightarrow> (worker \<Rightarrow> 's \<Rightarrow> bool)
       \<Rightarrow> 's test_thread \<Rightarrow> 's test_thread \<Rightarrow> bool" for patient pin_rc prog finished where
  test_thread: "test_op_step pin_rc finished m = Some m' \<Longrightarrow> test_step patient pin_rc prog finished m m'"
| worker: "pinned m w = Some cpu \<Longrightarrow> prog w cpu (shared m) s' \<Longrightarrow>
    test_step patient pin_rc prog finished m (m\<lparr>shared := s'\<rparr>)"
| join_timeout: "\<not> patient \<Longrightarrow> outcome m = None \<Longrightarrow> todo m = Join w # ops \<Longrightarrow> \<not> finished w (shared m) \<Longrightarrow>
    test_step patient pin_rc prog finished m (m\<lparr>outcome := Some False, todo := []\<rparr>)"

definition worker_ops ::
    "('s \<Rightarrow> 's) \<Rightarrow> (worker \<Rightarrow> int) \<Rightarrow> worker list \<Rightarrow> worker list \<Rightarrow> ('s \<Rightarrow> bool) list \<Rightarrow> 's test_op list" where
  "worker_ops reset cpu starts joins checks =
     Exec reset # map (\<lambda>w. Start_on (cpu w) w) starts @ map Join joins @ map Zassert checks"

definition test_begins :: "('s \<Rightarrow> bool) \<Rightarrow> 's test_op list \<Rightarrow> 's test_thread \<Rightarrow> bool" where
  "test_begins entry ops m \<longleftrightarrow> entry (shared m) \<and> todo m = ops \<and> pinned m = (\<lambda>w. None) \<and> outcome m = None"

section \<open>Tests that pass\<close>

text \<open>
  What a test promises about its workers: the reset establishes their invariant, their steps keep it, a
  finished worker stays finished, and once all are finished the asserted conditions hold unless
  there is an \<open>excuse\<close>, a run that the test cannot tell from a failure.
\<close>

locale worker_test =
  fixes entry winv excuse :: "'s \<Rightarrow> bool"
    and prog :: "worker \<Rightarrow> int \<Rightarrow> 's \<Rightarrow> 's \<Rightarrow> bool"
    and finished :: "worker \<Rightarrow> 's \<Rightarrow> bool"
    and reset :: "'s \<Rightarrow> 's"
    and cpu :: "worker \<Rightarrow> int"
    and starts joins :: "worker list"
    and checks :: "('s \<Rightarrow> bool) list"
  assumes reset_inv: "entry s \<Longrightarrow> winv (reset s)"
    and prog_inv: "winv s \<Longrightarrow> prog w (cpu w) s s' \<Longrightarrow> winv s'"
    and finished_stays: "winv s \<Longrightarrow> finished w s \<Longrightarrow> prog v (cpu v) s s' \<Longrightarrow> finished w s'"
    and excuse_stays: "winv s \<Longrightarrow> excuse s \<Longrightarrow> prog v (cpu v) s s' \<Longrightarrow> excuse s'"
    and unjoined: "winv s \<Longrightarrow> w \<notin> set joins \<Longrightarrow> finished w s"
    and checks_hold: "winv s \<Longrightarrow> finished W0 s \<Longrightarrow> finished W1 s \<Longrightarrow> P \<in> set checks \<Longrightarrow> P s \<or> excuse s"
begin

definition progressed :: "'s test_thread \<Rightarrow> bool" where
  "progressed m \<longleftrightarrow> winv (shared m) \<and> (outcome m = Some False \<longrightarrow> excuse (shared m)) \<and>
     (\<forall>w. pinned m w \<in> {None, Some (cpu w)}) \<and>
     (\<exists>ws js cs. todo m = map (\<lambda>w. Start_on (cpu w) w) ws @ map Join js @ map Zassert cs \<and>
        (\<forall>w\<in>set starts. w \<in> set ws \<or> pinned m w = Some (cpu w) \<or> outcome m \<noteq> None) \<and>
        (\<forall>w. w \<in> set js \<or> finished w (shared m) \<or> outcome m \<noteq> None) \<and> set cs \<subseteq> set checks)"

definition test_inv :: "'s test_thread \<Rightarrow> bool" where
  "test_inv m \<longleftrightarrow> test_begins entry (worker_ops reset cpu starts joins checks) m \<or> progressed m"

lemma progressedI:
  assumes "winv (shared m)" "outcome m = Some False \<Longrightarrow> excuse (shared m)" "\<And>w. pinned m w \<in> {None, Some (cpu w)}"
    "todo m = map (\<lambda>w. Start_on (cpu w) w) ws @ map Join js @ map Zassert cs"
    "\<And>w. w \<in> set starts \<Longrightarrow> w \<in> set ws \<or> pinned m w = Some (cpu w) \<or> outcome m \<noteq> None"
    "\<And>w. w \<in> set js \<or> finished w (shared m) \<or> outcome m \<noteq> None" "set cs \<subseteq> set checks"
  shows "progressed m"
  unfolding progressed_def using assms by blast

lemma first_step:
  assumes "test_begins entry (worker_ops reset cpu starts joins checks) m" "test_step True pin_rc prog finished m m'"
  shows "progressed m'"
  using assms(2)
proof (cases rule: test_step.cases)
  case test_thread
  with assms(1) have m': "m' = m\<lparr>shared := reset (shared m), todo := tl (worker_ops reset cpu starts joins checks)\<rparr>"
    by (auto simp: test_begins_def test_op_step_def worker_ops_def)
  show ?thesis unfolding m'
    by (rule progressedI [of _ starts joins checks])
      (use assms(1) reset_inv unjoined in \<open>auto simp: test_begins_def worker_ops_def\<close>)
qed (use assms(1) in \<open>auto simp: test_begins_def\<close>)

lemma worker_moves:
  assumes "progressed m" "pinned m w = Some c" "prog w c (shared m) s'"
  shows "progressed (m\<lparr>shared := s'\<rparr>)"
proof -
  from assms(1) obtain ws js cs where wi: "winv (shared m)" "outcome m = Some False \<longrightarrow> excuse (shared m)"
    and pin: "\<forall>w. pinned m w \<in> {None, Some (cpu w)}"
    and todo: "todo m = map (\<lambda>w. Start_on (cpu w) w) ws @ map Join js @ map Zassert cs"
    and st: "\<forall>w\<in>set starts. w \<in> set ws \<or> pinned m w = Some (cpu w) \<or> outcome m \<noteq> None"
    and fin: "\<forall>w. w \<in> set js \<or> finished w (shared m) \<or> outcome m \<noteq> None" and cs: "set cs \<subseteq> set checks"
    by (auto simp: progressed_def)
  from pin [rule_format, of w] assms(2,3) have p: "prog w (cpu w) (shared m) s'" by simp
  show ?thesis
    by (rule progressedI [of _ ws js cs])
      (use pin todo st fin cs prog_inv [OF wi(1) p] finished_stays [OF wi(1) _ p] excuse_stays [OF wi(1) _ p] wi(2) in auto)
qed

lemma op_moves:
  assumes "progressed m" "test_op_step pin_rc finished m = Some m'" and pin: "\<forall>w. pin_rc (cpu w) = 0"
  shows "progressed m'"
proof -
  from assms(1) obtain ws js cs where wi: "winv (shared m)" "\<forall>w. pinned m w \<in> {None, Some (cpu w)}"
    and todo: "todo m = map (\<lambda>w. Start_on (cpu w) w) ws @ map Join js @ map Zassert cs"
    and st: "\<forall>w\<in>set starts. w \<in> set ws \<or> pinned m w = Some (cpu w) \<or> outcome m \<noteq> None"
    and fin: "\<forall>w. w \<in> set js \<or> finished w (shared m) \<or> outcome m \<noteq> None" and cs: "set cs \<subseteq> set checks"
    by (auto simp: progressed_def)
  have no: "outcome m = None" using assms(2) by (auto simp: test_op_step_def split: if_splits)
  consider (start) w ws' where "ws = w # ws'" | (join) j js' where "ws = []" "js = j # js'"
    | (check) P cs' where "ws = []" "js = []" "cs = P # cs'" | (ends) "ws = []" "js = []" "cs = []"
    by (cases ws; cases js; cases cs) auto
  then show ?thesis
  proof cases
    case (start w ws')
    with assms(2) no todo pin have "m' = m\<lparr>todo := map (\<lambda>w. Start_on (cpu w) w) ws' @ map Join js @ map Zassert cs,
        pinned := (pinned m)(w := Some (cpu w))\<rparr>"
      by (auto simp: test_op_step_def start_worker_on_def)
    with start wi st fin cs no show ?thesis
      by (intro progressedI [of _ ws' js cs]) auto
  next
    case (join j js')
    with assms(2) no todo have "m' = m\<lparr>todo := map Join js' @ map Zassert cs\<rparr>" "finished j (shared m)"
      by (auto simp: test_op_step_def split: if_splits)
    with join wi st fin cs no show ?thesis
      by (intro progressedI [of _ "[]" js' cs]) auto
  next
    case (check P cs')
    with fin no have f: "finished W0 (shared m)" "finished W1 (shared m)" by auto
    have P: "P (shared m) \<or> excuse (shared m)" using checks_hold [OF wi(1) f] check cs by auto
    from check assms(2) no todo have
      "m' = (if P (shared m) then m\<lparr>todo := map Zassert cs'\<rparr> else m\<lparr>outcome := Some False, todo := []\<rparr>)"
      by (auto simp: test_op_step_def)
    with check wi st fin cs no P show ?thesis
      by (intro progressedI [of _ "[]" "[]" "if P (shared m) then cs' else []"]) (auto split: if_splits)
  next
    case ends
    with assms(2) no todo have "m' = m\<lparr>outcome := Some True\<rparr>" by (auto simp: test_op_step_def)
    with ends wi st fin cs no todo show ?thesis
      by (intro progressedI [of _ "[]" "[]" "[]"]) auto
  qed
qed

lemma test_inv_step:
  assumes "test_inv m" "test_step True pin_rc prog finished m m'" "\<forall>w. pin_rc (cpu w) = 0"
  shows "test_inv m'"
proof (cases "test_begins entry (worker_ops reset cpu starts joins checks) m")
  case True
  with first_step [OF _ assms(2)] show ?thesis by (simp add: test_inv_def)
next
  case False
  with assms(1) have p: "progressed m" by (simp add: test_inv_def)
  from assms(2) have "progressed m'"
  proof (cases rule: test_step.cases)
    case test_thread
    then show ?thesis using op_moves [OF p _ assms(3)] by blast
  next
    case (worker w c s')
    then show ?thesis using worker_moves [OF p, of w c s'] by blast
  qed simp
  then show ?thesis by (simp add: test_inv_def)
qed

lemma never_fails:
  assumes "reach (test_begins entry (worker_ops reset cpu starts joins checks)) (test_step True pin_rc prog finished) m"
    and "\<forall>w. pin_rc (cpu w) = 0"
  shows "test_inv m" "outcome m = Some False \<Longrightarrow> excuse (shared m)"
proof -
  from assms(1) show "test_inv m"
  proof (induction rule: reach.induct)
    case (reach_init m)
    then show ?case by (simp add: test_inv_def)
  next
    case (reach_step m m')
    then show ?case using test_inv_step [OF _ _ assms(2)] by blast
  qed
  then show "outcome m = Some False \<Longrightarrow> excuse (shared m)"
    by (auto simp: test_inv_def progressed_def test_begins_def)
qed

end

text \<open>If moreover an unfinished worker always leaves somebody a step that brings the test closer to its
  end, a verdict stays within reach.\<close>

locale worker_test_live = worker_test entry winv excuse prog finished reset cpu starts joins checks
  for entry winv excuse :: "'s \<Rightarrow> bool"
    and prog finished reset cpu starts joins checks +
  fixes rank :: "'s \<Rightarrow> nat"
  assumes closer: "winv s \<Longrightarrow> \<not> finished w s \<Longrightarrow> \<exists>v\<in>set starts. \<exists>s'. prog v (cpu v) s s' \<and> rank s' < rank s"
begin

definition distance :: "'s test_thread \<Rightarrow> nat" where
  "distance m = (if outcome m = None then Suc (length (todo m)) else 0)"

lemma comes_closer:
  assumes "test_inv m" "outcome m = None" and pin: "\<forall>w. pin_rc (cpu w) = 0"
  shows "\<exists>m'. test_step True pin_rc prog finished m m' \<and>
    (distance m' < distance m \<or> distance m' = distance m \<and> rank (shared m') < rank (shared m))"
proof (cases "test_op_step pin_rc finished m")
  case None
  with assms(2) obtain w ops where w: "todo m = Join w # ops" "\<not> finished w (shared m)"
    by (auto simp: test_op_step_def split: list.splits test_op.splits if_splits)
  with assms(1) have p: "progressed m" by (auto simp: test_inv_def test_begins_def worker_ops_def)
  then obtain ws js cs where t: "todo m = map (\<lambda>w. Start_on (cpu w) w) ws @ map Join js @ map Zassert cs"
    and st: "\<forall>w\<in>set starts. w \<in> set ws \<or> pinned m w = Some (cpu w) \<or> outcome m \<noteq> None" and wi: "winv (shared m)"
    by (auto simp: progressed_def)
  from t w(1) have "ws = []" by (cases ws) auto
  with st assms(2) have live: "\<forall>w\<in>set starts. pinned m w = Some (cpu w)" by auto
  from closer [OF wi w(2)] obtain v s' where v: "v \<in> set starts" "prog v (cpu v) (shared m) s'" "rank s' < rank (shared m)"
    by blast
  with live have "test_step True pin_rc prog finished m (m\<lparr>shared := s'\<rparr>)" by (blast intro: test_step.worker)
  with v(3) show ?thesis by (intro exI [of _ "m\<lparr>shared := s'\<rparr>"]) (simp add: distance_def)
next
  case (Some m')
  then have "distance m' < distance m" using assms(2)
    by (auto simp: test_op_step_def distance_def start_worker_on_def split: list.splits test_op.splits if_splits)
  with test_step.test_thread [OF Some] show ?thesis by blast
qed

lemma verdict_in_reach:
  assumes "test_inv m" and pin: "\<forall>w. pin_rc (cpu w) = 0"
  shows "\<exists>m'. (test_step True pin_rc prog finished)\<^sup>*\<^sup>* m m' \<and> outcome m' \<noteq> None \<and> test_inv m'"
  using assms(1)
proof (induction "(distance m, rank (shared m))" arbitrary: m rule: wf_induct_rule [OF wf_lex_prod [OF wf_less wf_less]])
  case (1 m)
  show ?case
  proof (cases "outcome m = None")
    case True
    from comes_closer [OF 1(2) True pin] obtain m' where m': "test_step True pin_rc prog finished m m'"
      "distance m' < distance m \<or> distance m' = distance m \<and> rank (shared m') < rank (shared m)" by blast
    from 1(1) [OF _ test_inv_step [OF 1(2) m'(1) pin]] m'(2) obtain m''
      where "(test_step True pin_rc prog finished)\<^sup>*\<^sup>* m' m''" "outcome m'' \<noteq> None" "test_inv m''" by auto
    with m'(1) show ?thesis by (blast intro: converse_rtranclp_into_rtranclp)
  qed (use 1(2) in blast)
qed

lemma can_pass:
  assumes "reach (test_begins entry (worker_ops reset cpu starts joins checks)) (test_step True pin_rc prog finished) m"
    and pin: "\<forall>w. pin_rc (cpu w) = 0"
  shows "\<exists>m'. (test_step True pin_rc prog finished)\<^sup>*\<^sup>* m m' \<and> (outcome m' = Some True \<or> excuse (shared m'))"
proof -
  from verdict_in_reach [OF never_fails(1) [OF assms] pin] obtain m'
    where m': "(test_step True pin_rc prog finished)\<^sup>*\<^sup>* m m'" "outcome m' \<noteq> None" "test_inv m'" by blast
  then have "outcome m' = Some True \<or> excuse (shared m')"
    by (cases "outcome m'") (auto simp: test_inv_def progressed_def test_begins_def)
  with m'(1) show ?thesis by blast
qed

end

section \<open>Semaphores\<close>

text \<open>What the documentation says of a semaphore with a count and a limit.\<close>

definition counting_sem ::
    "(nat \<Rightarrow> nat \<Rightarrow> 'k) \<Rightarrow> ('k \<Rightarrow> 'k) \<Rightarrow> ('k \<Rightarrow> 'k option) \<Rightarrow> ('k \<Rightarrow> nat) \<Rightarrow> ('k \<Rightarrow> nat) \<Rightarrow> bool" where
  "counting_sem sem_init sem_give sem_take count limit \<longleftrightarrow>
     (\<forall>c l. c \<le> l \<longrightarrow> count (sem_init c l) = c \<and> limit (sem_init c l) = l) \<and>
     (\<forall>k. count (sem_give k) = min (Suc (count k)) (limit k) \<and> limit (sem_give k) = limit k) \<and>
     (\<forall>k. count k = 0 \<longrightarrow> sem_take k = None) \<and>
     (\<forall>k. count k \<noteq> 0 \<longrightarrow> (\<exists>k'. sem_take k = Some k' \<and> count k' = count k - 1 \<and> limit k' = limit k))"

lemma sem_laws:
  assumes "counting_sem sem_init sem_give sem_take count limit"
  shows "count (sem_init 0 1) = 0" "limit (sem_init 0 1) = 1"
    "count (sem_give k) = min (Suc (count k)) (limit k)" "limit (sem_give k) = limit k"
    "count k = 0 \<Longrightarrow> sem_take k = None"
    "count k = 1 \<Longrightarrow> \<exists>k'. sem_take k = Some k' \<and> count k' = 0 \<and> limit k' = limit k"
    "sem_take k = Some k' \<Longrightarrow> count k = Suc (count k') \<and> limit k' = limit k"
proof -
  show "sem_take k = Some k' \<Longrightarrow> count k = Suc (count k') \<and> limit k' = limit k"
    using assms unfolding counting_sem_def by (metis Suc_pred neq0_conv option.distinct(1) option.inject diff_Suc_1 Suc_diff_1)
  assume "count k = 1"
  moreover have "count k \<noteq> 0 \<longrightarrow> (\<exists>k'. sem_take k = Some k' \<and> count k' = count k - 1 \<and> limit k' = limit k)"
    using assms unfolding counting_sem_def by blast
  ultimately show "\<exists>k'. sem_take k = Some k' \<and> count k' = 0 \<and> limit k' = limit k" by simp
qed (use assms in \<open>simp_all add: counting_sem_def\<close>)

text \<open>Semaphores as pairs of count and limit.\<close>

definition demo_take :: "nat \<times> nat \<Rightarrow> (nat \<times> nat) option" where
  "demo_take k = (if fst k = 0 then None else Some (fst k - 1, snd k))"

definition demo_give :: "nat \<times> nat \<Rightarrow> nat \<times> nat" where
  "demo_give k = (min (Suc (fst k)) (snd k), snd k)"

lemma demo_sem: "counting_sem Pair demo_give demo_take fst snd"
  by (simp add: counting_sem_def demo_give_def demo_take_def)

end
