(* ===== verification/Locking.thy ===== *)
theory Locking
  imports ZThreads Atomics
begin

text \<open>
  Two cores increment one plain variable under a lock: the spin lock of the bare-metal
  \<^verbatim>\<open>tests/p4_dualcore.c\<close> (P4.3), and the test of \<open>k_spinlock\<close> of the Zephyr suite (P4.4), whose lock
  is the kernel's. The locale \<open>mutex\<close> says what a lock promises; the counting argument is made once,
  inside it.
\<close>

section \<open>The workers\<close>

text \<open>The program points of one round: before the lock is got, before the load, between load and store with the
  value loaded, before the release.\<close>

datatype 'v inc_loc = Acquire | Read | Write 'v | Release

record ('l, 'v) locked =
  lock :: 'l
  var :: 'v
  round_no :: "worker \<Rightarrow> nat"
  at :: "worker \<Rightarrow> 'v inc_loc"

text \<open>\<open>attempt w\<close> is one try of the acquiring loop: whether it got the lock, and the lock afterwards.\<close>

definition locked_inc_step ::
    "(worker \<Rightarrow> 'l \<Rightarrow> bool \<times> 'l) \<Rightarrow> ('l \<Rightarrow> 'l) \<Rightarrow> ('v \<Rightarrow> 'v) \<Rightarrow> nat \<Rightarrow> worker \<Rightarrow> ('l, 'v) locked \<Rightarrow> ('l, 'v) locked option" where
  "locked_inc_step attempt release plus1 rounds w s =
     (case at s w of
        Acquire \<Rightarrow>
          if round_no s w < rounds
          then Some (s\<lparr>lock := snd (attempt w (lock s)),
                       at := (at s)(w := if fst (attempt w (lock s)) then Read else Acquire)\<rparr>)
          else None
      | Read \<Rightarrow> Some (s\<lparr>at := (at s)(w := Write (var s))\<rparr>)
      | Write v \<Rightarrow> Some (s\<lparr>var := plus1 v, at := (at s)(w := Release)\<rparr>)
      | Release \<Rightarrow> Some (s\<lparr>lock := release (lock s), round_no := (round_no s)(w := Suc (round_no s w)),
                          at := (at s)(w := Acquire)\<rparr>))"

definition locked_prog ::
    "(worker \<Rightarrow> 'l \<Rightarrow> bool \<times> 'l) \<Rightarrow> ('l \<Rightarrow> 'l) \<Rightarrow> ('v \<Rightarrow> 'v) \<Rightarrow> nat \<Rightarrow> worker \<Rightarrow> int
       \<Rightarrow> ('l, 'v) locked \<Rightarrow> ('l, 'v) locked \<Rightarrow> bool" where
  "locked_prog attempt release plus1 rounds w cpu s s' \<longleftrightarrow> locked_inc_step attempt release plus1 rounds w s = Some s'"

definition locked_done :: "nat \<Rightarrow> worker \<Rightarrow> ('l, 'v) locked \<Rightarrow> bool" where
  "locked_done rounds w s \<longleftrightarrow> at s w = Acquire \<and> rounds \<le> round_no s w"

definition locked_entry :: "('l \<Rightarrow> bool) \<Rightarrow> ('l, 'v) locked \<Rightarrow> bool" where
  "locked_entry held s \<longleftrightarrow> \<not> held (lock s) \<and> (\<forall>w. at s w = Acquire \<and> round_no s w = 0)"

text \<open>The workers of P4.4 of the Zephyr suite and its test; \<open>k_spin_lock\<close> and \<open>k_spin_unlock\<close> are the kernel's.\<close>

definition LOCKED_INC_PER_CPU :: nat where "LOCKED_INC_PER_CPU = 50"

definition on_cpu :: "worker \<Rightarrow> int" where
  "on_cpu w = (case w of W0 \<Rightarrow> 0 | W1 \<Rightarrow> 1)"

definition spinlock_inc_entry ::
    "(worker \<Rightarrow> 'l \<Rightarrow> bool \<times> 'l) \<Rightarrow> ('l \<Rightarrow> 'l) \<Rightarrow> worker \<Rightarrow> int \<Rightarrow> ('l, c_int) locked \<Rightarrow> ('l, c_int) locked \<Rightarrow> bool" where
  "spinlock_inc_entry k_spin_lock k_spin_unlock =
     locked_prog k_spin_lock k_spin_unlock inc32 LOCKED_INC_PER_CPU"

definition test_spinlock_mutual_exclusion :: "('l, c_int) locked test_op list" where
  "test_spinlock_mutual_exclusion =
     worker_ops (\<lambda>s. s\<lparr>var := 0\<rparr>) on_cpu [W0, W1] [W0, W1] [\<lambda>s. var s = int (2 * LOCKED_INC_PER_CPU)]"

text \<open>The lock of the bare-metal suite, a word of memory: one round of the loop of \<open>spinlock_acquire\<close>, and
  \<open>spinlock_release\<close>.\<close>

definition spinlock_acquire :: "u64 \<Rightarrow> worker \<Rightarrow> 'z phys_scheme \<Rightarrow> bool \<times> 'z phys_scheme" where
  "spinlock_acquire addr w l = (let (old, l') = amo_swap_d addr 1 l in (old = 0, l'))"

definition spinlock_release :: "u64 \<Rightarrow> 'z phys_scheme \<Rightarrow> 'z phys_scheme" where
  "spinlock_release addr l = snd (amo_swap_d addr 0 l)"

definition SPINLOCK_LOOP_COUNT :: nat where "SPINLOCK_LOOP_COUNT = 50"

definition core1_spinlock_worker ::
    "u64 \<Rightarrow> worker \<Rightarrow> int \<Rightarrow> ('z phys_scheme, u64) locked \<Rightarrow> ('z phys_scheme, u64) locked \<Rightarrow> bool" where
  "core1_spinlock_worker addr =
     locked_prog (spinlock_acquire addr) (spinlock_release addr) (\<lambda>temp. temp + 1) SPINLOCK_LOOP_COUNT"

section \<open>What a lock promises\<close>

primrec steps_made :: "'v inc_loc \<Rightarrow> nat" where
  "steps_made Acquire = 0"
| "steps_made Read = 1"
| "steps_made (Write v) = 2"
| "steps_made Release = 3"

locale mutex =
  fixes attempt :: "worker \<Rightarrow> 'l \<Rightarrow> bool \<times> 'l" and release :: "'l \<Rightarrow> 'l" and held :: "'l \<Rightarrow> bool"
  assumes free: "\<not> held l \<Longrightarrow> fst (attempt w l) \<and> held (snd (attempt w l))"
    and busy: "held l \<Longrightarrow> \<not> fst (attempt w l) \<and> held (snd (attempt w l))"
    and freed: "held l \<Longrightarrow> \<not> held (release l)"
begin

text \<open>At most one worker is inside, if the lock is held one is, and the variable counts the stores.\<close>

definition inside :: "('l, 'v) locked \<Rightarrow> worker \<Rightarrow> bool" where
  "inside s w \<longleftrightarrow> at s w \<noteq> Acquire"

definition stores :: "('l, 'v) locked \<Rightarrow> worker \<Rightarrow> nat" where
  "stores s w = round_no s w + (if at s w = Release then 1 else 0)"

definition worker_ok :: "nat \<Rightarrow> ('l, 'v) locked \<Rightarrow> worker \<Rightarrow> bool" where
  "worker_ok rounds s w \<longleftrightarrow> round_no s w \<le> rounds \<and> (inside s w \<longrightarrow> round_no s w < rounds) \<and>
     at s w \<in> {Acquire, Read, Release, Write (var s)}"

definition locked_inv :: "nat \<Rightarrow> ('v \<Rightarrow> 'v) \<Rightarrow> 'v \<Rightarrow> ('l, 'v) locked \<Rightarrow> bool" where
  "locked_inv rounds plus1 v0 s \<longleftrightarrow>
     (held (lock s) \<longleftrightarrow> inside s W0 \<or> inside s W1) \<and> \<not> (inside s W0 \<and> inside s W1) \<and>
     worker_ok rounds s W0 \<and> worker_ok rounds s W1 \<and>
     var s = (plus1 ^^ (stores s W0 + stores s W1)) v0"

definition steps_left :: "nat \<Rightarrow> ('l, 'v) locked \<Rightarrow> worker \<Rightarrow> nat" where
  "steps_left rounds s w = 4 * (rounds - round_no s w) - steps_made (at s w)"

definition locked_rank :: "nat \<Rightarrow> ('l, 'v) locked \<Rightarrow> nat" where
  "locked_rank rounds s = steps_left rounds s W0 + steps_left rounds s W1"

lemmas locked_defs = locked_inv_def worker_ok_def inside_def stores_def steps_left_def locked_rank_def

lemma lock_update [simp]:
  "inside (s\<lparr>lock := l\<rparr>) w = inside s w" "stores (s\<lparr>lock := l\<rparr>) w = stores s w"
  "worker_ok rounds (s\<lparr>lock := l\<rparr>) w = worker_ok rounds s w"
  by (simp_all add: inside_def stores_def worker_ok_def)

lemma alone: "locked_inv rounds plus1 v0 s \<Longrightarrow> at s w \<noteq> Acquire \<Longrightarrow> v \<noteq> w \<Longrightarrow> at s v = Acquire"
  by (cases v; cases w) (auto simp: locked_inv_def inside_def)

lemma locked_inv_step:
  assumes "locked_inv rounds plus1 v0 s" "locked_inc_step attempt release plus1 rounds w s = Some s'"
  shows "locked_inv rounds plus1 v0 s'"
proof (cases "at s w")
  case Acquire
  with assms(2) have s': "s' = s\<lparr>lock := snd (attempt w (lock s)),
      at := (at s)(w := if fst (attempt w (lock s)) then Read else Acquire)\<rparr>" and r: "round_no s w < rounds"
    by (auto simp: locked_inc_step_def split: if_splits)
  show ?thesis
  proof (cases "held (lock s)")
    case True
    with busy [of "lock s" w] Acquire have "s' = s\<lparr>lock := snd (attempt w (lock s))\<rparr>"
      by (simp add: s' fun_upd_idem)
    with busy [of "lock s" w] True assms(1) show ?thesis by (simp add: locked_inv_def)
  next
    case False
    with free [of "lock s" w] Acquire assms(1) r show ?thesis by (cases w) (simp_all add: s' locked_defs)
  qed
next
  case Read
  with assms(1) have o: "v \<noteq> w \<Longrightarrow> at s v = Acquire" for v by (intro alone [OF assms(1)]) simp_all
  from assms Read o [of W0] o [of W1] show ?thesis
    by (cases w) (simp_all add: locked_inc_step_def locked_defs, safe, simp_all)
next
  case (Write v)
  with assms(1) have o: "v \<noteq> w \<Longrightarrow> at s v = Acquire" for v by (intro alone [OF assms(1)]) simp_all
  from assms Write o [of W0] o [of W1] show ?thesis
    by (cases w) (simp_all add: locked_inc_step_def locked_defs, safe, simp_all)
next
  case Release
  with assms(1) have o: "v \<noteq> w \<Longrightarrow> at s v = Acquire" for v by (intro alone [OF assms(1)]) simp_all
  from assms Release o [of W0] o [of W1] freed [of "lock s"] show ?thesis
    by (cases w) (simp_all add: locked_inc_step_def locked_defs, safe, simp_all)
qed

lemma rank_less:
  assumes "steps_left rounds s' v < steps_left rounds s v" "\<And>w. w \<noteq> v \<Longrightarrow> steps_left rounds s' w = steps_left rounds s w"
  shows "locked_rank rounds s' < locked_rank rounds s"
  using assms(1) assms(2) [of W0] assms(2) [of W1] by (cases v) (simp_all add: locked_rank_def)

lemma moves_on:
  assumes "locked_inv rounds plus1 v0 s" "inside s v \<or> \<not> held (lock s) \<and> round_no s v < rounds"
  shows "\<exists>s'. locked_inc_step attempt release plus1 rounds v s = Some s' \<and> locked_rank rounds s' < locked_rank rounds s"
proof -
  from assms have r: "round_no s v < rounds" by (cases v) (auto simp: locked_inv_def worker_ok_def)
  have a: "at s v = Acquire \<Longrightarrow> fst (attempt v (lock s))" using assms(2) free [of "lock s" v] by (auto simp: inside_def)
  from r a obtain s' where s': "locked_inc_step attempt release plus1 rounds v s = Some s'"
    by (cases "at s v") (auto simp: locked_inc_step_def)
  from s' r a have "steps_left rounds s' v < steps_left rounds s v"
    by (cases "at s v") (auto simp: locked_inc_step_def steps_left_def)
  moreover from s' have "steps_left rounds s' w = steps_left rounds s w" if "w \<noteq> v" for w
    using that by (cases "at s v") (auto simp: locked_inc_step_def steps_left_def split: if_splits)
  ultimately show ?thesis using s' rank_less by blast
qed

lemma locked_closer:
  assumes "locked_inv rounds plus1 v0 s" "\<not> locked_done rounds w s"
  shows "\<exists>v s'. locked_inc_step attempt release plus1 rounds v s = Some s' \<and> locked_rank rounds s' < locked_rank rounds s"
proof (cases "held (lock s)")
  case True
  with assms(1) obtain v where "inside s v" by (auto simp: locked_inv_def)
  with moves_on [OF assms(1)] show ?thesis by blast
next
  case False
  with assms have "round_no s w < rounds"
    by (cases w) (auto simp: locked_inv_def locked_done_def inside_def)
  with False moves_on [OF assms(1), of w] show ?thesis by blast
qed

end

sublocale mutex \<subseteq> inc: worker_test_live "locked_entry held" "locked_inv rounds plus1 v0" "\<lambda>s. False"
    "locked_prog attempt release plus1 rounds" "locked_done rounds" "\<lambda>s. s\<lparr>var := v0\<rparr>" cpu "[W0, W1]" "[W0, W1]"
    "[\<lambda>s. var s = (plus1 ^^ (2 * rounds)) v0]" "locked_rank rounds"
  for plus1 :: "'v \<Rightarrow> 'v" and v0 rounds cpu
proof
  show "locked_inv rounds plus1 v0 (s\<lparr>var := v0\<rparr>)" if "locked_entry held s" for s
    using that by (simp add: locked_defs locked_entry_def)
  show "locked_inv rounds plus1 v0 s'" if "locked_inv rounds plus1 v0 s" "locked_prog attempt release plus1 rounds w (cpu w) s s'"
    for s s' w using locked_inv_step [OF that [unfolded locked_prog_def]] .
  show "locked_done rounds w s'" if "locked_done rounds w s" "locked_prog attempt release plus1 rounds v (cpu v) s s'" for s s' v w
    using that by (auto simp: locked_prog_def locked_done_def locked_inc_step_def split: inc_loc.splits if_splits)
  show "P s \<or> False" if "locked_inv rounds plus1 v0 s" "locked_done rounds W0 s" "locked_done rounds W1 s"
    "P \<in> set [\<lambda>s. var s = (plus1 ^^ (2 * rounds)) v0]" for s P
  proof -
    from that(1-3) have "round_no s W0 = rounds" "round_no s W1 = rounds"
      by (auto simp: locked_inv_def worker_ok_def locked_done_def intro: antisym)
    with that show ?thesis by (simp add: locked_inv_def locked_done_def stores_def mult_2)
  qed
  show "\<exists>v\<in>set [W0, W1]. \<exists>s'. locked_prog attempt release plus1 rounds v (cpu v) s s' \<and> locked_rank rounds s' < locked_rank rounds s"
    if "locked_inv rounds plus1 v0 s" "\<not> locked_done rounds w s" for s w
    using locked_closer [OF that] by (auto simp: locked_prog_def) (metis worker.exhaust)
qed (use worker.exhaust in auto)

context mutex
begin

lemma inc_test_passes:
  assumes "reach (test_begins (locked_entry held) (worker_ops (\<lambda>s. s\<lparr>var := v0\<rparr>) cpu [W0, W1] [W0, W1]
      [\<lambda>s. var s = (plus1 ^^ (2 * rounds)) v0])) (test_step True pin_rc (locked_prog attempt release plus1 rounds) (locked_done rounds)) m"
    and "\<forall>w. pin_rc (cpu w) = 0"
  shows "at (shared m) W0 = Acquire \<or> at (shared m) W1 = Acquire" "outcome m \<noteq> Some False"
    "\<exists>m'. (test_step True pin_rc (locked_prog attempt release plus1 rounds) (locked_done rounds))\<^sup>*\<^sup>* m m' \<and> outcome m' = Some True"
proof -
  note i = inc.never_fails [OF assms]
  from i(1) show "at (shared m) W0 = Acquire \<or> at (shared m) W1 = Acquire"
    by (auto simp: inc.test_inv_def inc.progressed_def test_begins_def locked_entry_def locked_inv_def inside_def)
  from i(2) show "outcome m \<noteq> Some False" by blast
  from inc.can_pass [OF assms] show
    "\<exists>m'. (test_step True pin_rc (locked_prog attempt release plus1 rounds) (locked_done rounds))\<^sup>*\<^sup>* m m' \<and> outcome m' = Some True"
    by blast
qed

end

text \<open>The bare-metal lock keeps the promise.\<close>

interpretation spinlock: mutex "spinlock_acquire addr" "spinlock_release addr" "\<lambda>l. mem l addr \<noteq> 0" for addr
  by unfold_locales (auto simp: spinlock_acquire_def spinlock_release_def amo_swap_d_def amo_d_def)

section \<open>The atomic counter\<close>

text \<open>P4.3 of the Zephyr suite: both workers increment an \<open>atomic_t\<close>. The atomic API is the kernel's; an
  operation gives the old value and the changed variable.\<close>

record 'm stress =
  stress_counter :: 'm
  made :: "worker \<Rightarrow> nat"

definition INC_PER_CPU :: nat where "INC_PER_CPU = 100"

definition inc_entry ::
    "('m \<Rightarrow> u64 \<times> 'm) \<Rightarrow> worker \<Rightarrow> int \<Rightarrow> 'm stress \<Rightarrow> 'm stress \<Rightarrow> bool" where
  "inc_entry atomic_inc w cpu s s' \<longleftrightarrow> made s w < INC_PER_CPU \<and>
     s' = s\<lparr>stress_counter := snd (atomic_inc (stress_counter s)), made := (made s)(w := Suc (made s w))\<rparr>"

definition inc_done :: "worker \<Rightarrow> 'm stress \<Rightarrow> bool" where
  "inc_done w s \<longleftrightarrow> INC_PER_CPU \<le> made s w"

definition inc_begins :: "'m stress \<Rightarrow> bool" where
  "inc_begins s \<longleftrightarrow> (\<forall>w. made s w = 0)"

definition test_atomic_increment_stress ::
    "('m \<Rightarrow> u64 \<Rightarrow> u64 \<times> 'm) \<Rightarrow> ('m \<Rightarrow> u64) \<Rightarrow> 'm stress test_op list" where
  "test_atomic_increment_stress atomic_set atomic_get =
     worker_ops (\<lambda>s. s\<lparr>stress_counter := snd (atomic_set (stress_counter s) 0)\<rparr>) on_cpu [W0, W1] [W0, W1]
       [\<lambda>s. atomic_get (stress_counter s) = of_nat (2 * INC_PER_CPU)]"

locale atomic_word =
  fixes atomic_inc :: "'m \<Rightarrow> u64 \<times> 'm" and atomic_set :: "'m \<Rightarrow> u64 \<Rightarrow> u64 \<times> 'm" and atomic_get :: "'m \<Rightarrow> u64"
  assumes inc_old: "fst (atomic_inc m) = atomic_get m"
    and get_inc: "atomic_get (snd (atomic_inc m)) = atomic_get m + 1"
    and set_old: "fst (atomic_set m v) = atomic_get m"
    and get_set: "atomic_get (snd (atomic_set m v)) = v"
begin

definition stress_inv :: "'m stress \<Rightarrow> bool" where
  "stress_inv s \<longleftrightarrow> made s W0 \<le> INC_PER_CPU \<and> made s W1 \<le> INC_PER_CPU \<and>
     atomic_get (stress_counter s) = of_nat (made s W0 + made s W1)"

lemma stress_inv_step:
  assumes "stress_inv s" "inc_entry atomic_inc w cpu s s'"
  shows "stress_inv s'"
  using assms by (cases w) (simp_all add: stress_inv_def inc_entry_def get_inc)

end

sublocale atomic_word \<subseteq> stress: worker_test_live inc_begins stress_inv "\<lambda>s. False" "inc_entry atomic_inc" inc_done
    "\<lambda>s. s\<lparr>stress_counter := snd (atomic_set (stress_counter s) 0)\<rparr>" cpu "[W0, W1]" "[W0, W1]"
    "[\<lambda>s. atomic_get (stress_counter s) = of_nat (2 * INC_PER_CPU)]"
    "\<lambda>s. 2 * INC_PER_CPU - (made s W0 + made s W1)"
  for cpu
proof
  show "stress_inv (s\<lparr>stress_counter := snd (atomic_set (stress_counter s) 0)\<rparr>)" if "inc_begins s" for s
    using that by (simp add: stress_inv_def inc_begins_def get_set)
  show "stress_inv s'" if "stress_inv s" "inc_entry atomic_inc w (cpu w) s s'" for s s' w
    using stress_inv_step [OF that] .
  show "inc_done w s'" if "inc_done w s" "inc_entry atomic_inc v (cpu v) s s'" for s s' v w
    using that by (auto simp: inc_done_def inc_entry_def)
  show "P s \<or> False" if "stress_inv s" "inc_done W0 s" "inc_done W1 s"
    "P \<in> set [\<lambda>s. atomic_get (stress_counter s) = of_nat (2 * INC_PER_CPU)]" for s P
  proof -
    from that(1-3) have "made s W0 = INC_PER_CPU" "made s W1 = INC_PER_CPU"
      unfolding stress_inv_def inc_done_def by linarith+
    with that(1,4) show ?thesis unfolding stress_inv_def by (simp only: mult_2) simp
  qed
  show "\<exists>v\<in>set [W0, W1]. \<exists>s'. inc_entry atomic_inc v (cpu v) s s' \<and>
      2 * INC_PER_CPU - (made s' W0 + made s' W1) < 2 * INC_PER_CPU - (made s W0 + made s W1)"
    if "stress_inv s" "\<not> inc_done w s" for s w
  proof (intro bexI exI)
    let ?s = "s\<lparr>stress_counter := snd (atomic_inc (stress_counter s)), made := (made s)(w := Suc (made s w))\<rparr>"
    show "inc_entry atomic_inc w (cpu w) s ?s \<and>
        2 * INC_PER_CPU - (made ?s W0 + made ?s W1) < 2 * INC_PER_CPU - (made s W0 + made s W1)"
      using that unfolding stress_inv_def inc_done_def inc_entry_def
      by (cases w) (simp_all add: less_diff_conv del: of_nat_add)
    show "w \<in> set [W0, W1]" by (cases w) simp_all
  qed
qed (use worker.exhaust in auto)

context atomic_word
begin

lemma stress_test_passes:
  assumes "reach (test_begins inc_begins (worker_ops (\<lambda>s. s\<lparr>stress_counter := snd (atomic_set (stress_counter s) 0)\<rparr>)
      cpu [W0, W1] [W0, W1] [\<lambda>s. atomic_get (stress_counter s) = of_nat (2 * INC_PER_CPU)]))
      (test_step True pin_rc (inc_entry atomic_inc) inc_done) m"
    and "\<forall>w. pin_rc (cpu w) = 0"
  shows "pinned m W0 = Some c \<longrightarrow>
      atomic_get (stress_counter (shared m)) = of_nat (made (shared m) W0 + made (shared m) W1)" "outcome m \<noteq> Some False"
    "\<exists>m'. (test_step True pin_rc (inc_entry atomic_inc) inc_done)\<^sup>*\<^sup>* m m' \<and> outcome m' = Some True"
proof -
  note i = stress.never_fails [OF assms]
  from i(1) show "pinned m W0 = Some c \<longrightarrow>
      atomic_get (stress_counter (shared m)) = of_nat (made (shared m) W0 + made (shared m) W1)"
    unfolding stress.test_inv_def stress.progressed_def by (auto simp: test_begins_def stress_inv_def)
  from i(2) show "outcome m \<noteq> Some False" by blast
  from stress.can_pass [OF assms] show
    "\<exists>m'. (test_step True pin_rc (inc_entry atomic_inc) inc_done)\<^sup>*\<^sup>* m m' \<and> outcome m' = Some True" by blast
qed

end

text \<open>The bare-metal suite's instructions are such operations.\<close>

interpretation amo_word: atomic_word "amo_add_d addr 1" "\<lambda>m v. amo_swap_d addr v m" "\<lambda>m. mem m addr" for addr
  by unfold_locales (simp_all add: amo_add_d_def amo_swap_d_def amo_d_def)

section \<open>Properties\<close>

lemma counted_int: "n < 2 ^ 31 \<Longrightarrow> (inc32 ^^ n) 0 = int n"
  by (induction n) (simp_all add: inc32_def)

lemma spinlock_ops:
  "test_spinlock_mutual_exclusion = worker_ops (\<lambda>s. s\<lparr>var := 0\<rparr>) on_cpu [W0, W1] [W0, W1]
     [\<lambda>s. var s = (inc32 ^^ (2 * LOCKED_INC_PER_CPU)) 0]"
  by (simp add: test_spinlock_mutual_exclusion_def counted_int LOCKED_INC_PER_CPU_def)

text \<open>
  C17. P4.4 of the Zephyr suite: whatever lock the kernel provides, if it excludes the other CPU, the two workers are never
  between load and store together, the test never fails, and from every state it can get into it can
  still come to pass, provided the workers can be pinned and the joins wait long enough.
\<close>

theorem spinlock_test_passes:
  assumes "mutex k_spin_lock k_spin_unlock held" "pin_rc 0 = 0" "pin_rc 1 = 0"
    and "reach (test_begins (locked_entry held) test_spinlock_mutual_exclusion)
      (test_step True pin_rc (spinlock_inc_entry k_spin_lock k_spin_unlock) (locked_done LOCKED_INC_PER_CPU)) m"
  shows "(at (shared m) W0 = Acquire \<or> at (shared m) W1 = Acquire) \<and> outcome m \<noteq> Some False \<and>
    (\<exists>m'. (test_step True pin_rc (spinlock_inc_entry k_spin_lock k_spin_unlock) (locked_done LOCKED_INC_PER_CPU))\<^sup>*\<^sup>* m m' \<and>
       outcome m' = Some True)"
proof -
  have pin: "\<forall>w. pin_rc (on_cpu w) = 0"
    using assms(2,3) by (simp add: on_cpu_def split: worker.split)
  from mutex.inc_test_passes [OF assms(1) assms(4) [unfolded spinlock_ops spinlock_inc_entry_def] pin]
  show ?thesis unfolding spinlock_inc_entry_def by simp
qed

text \<open>
  P4.3 of the Zephyr suite: with an atomic increment the counter always holds the number of increments made so
  far, no matter how the two CPUs interleave; the test never fails and can always still come to pass.
\<close>

theorem atomic_stress_passes:
  assumes "atomic_word atomic_inc atomic_set atomic_get" "pin_rc 0 = 0" "pin_rc 1 = 0"
    and "reach (test_begins inc_begins (test_atomic_increment_stress atomic_set atomic_get))
      (test_step True pin_rc (inc_entry atomic_inc) inc_done) m"
  shows "(\<forall>cpu. pinned m W0 = Some cpu \<longrightarrow>
      atomic_get (stress_counter (shared m)) = of_nat (made (shared m) W0 + made (shared m) W1)) \<and> outcome m \<noteq> Some False \<and>
    (\<exists>m'. (test_step True pin_rc (inc_entry atomic_inc) inc_done)\<^sup>*\<^sup>* m m' \<and> outcome m' = Some True)"
proof -
  have pin: "\<forall>w. pin_rc (on_cpu w) = 0"
    using assms(2,3) by (simp add: on_cpu_def split: worker.split)
  from atomic_word.stress_test_passes [OF assms(1) assms(4) [unfolded test_atomic_increment_stress_def] pin]
  show ?thesis by simp
qed

section \<open>Witnesses\<close>

definition demo_locked :: "(phys, c_int) locked" where
  "demo_locked = \<lparr>lock = \<lparr>mem = (\<lambda>a. 0)\<rparr>, var = 7, round_no = (\<lambda>w. 0), at = (\<lambda>w. Acquire)\<rparr>"

definition demo_stress :: "phys stress" where
  "demo_stress = \<lparr>stress_counter = \<lparr>mem = (\<lambda>a. 9)\<rparr>, made = (\<lambda>w. 0)\<rparr>"

definition begin_with :: "'s \<Rightarrow> 's test_op list \<Rightarrow> 's test_thread" where
  "begin_with s ops = \<lparr>shared = s, todo = ops, pinned = (\<lambda>w. None), outcome = None\<rparr>"

theorem spinlock_test_passes_witness:
  "\<exists>m'. (test_step True (\<lambda>cpu. 0) (spinlock_inc_entry (spinlock_acquire 0x80003000) (spinlock_release 0x80003000))
      (locked_done LOCKED_INC_PER_CPU))\<^sup>*\<^sup>* (begin_with demo_locked test_spinlock_mutual_exclusion) m' \<and> outcome m' = Some True"
proof -
  have "reach (test_begins (locked_entry (\<lambda>l. mem l 0x80003000 \<noteq> 0)) test_spinlock_mutual_exclusion)
      (test_step True (\<lambda>cpu. 0) (spinlock_inc_entry (spinlock_acquire 0x80003000) (spinlock_release 0x80003000))
        (locked_done LOCKED_INC_PER_CPU)) (begin_with demo_locked test_spinlock_mutual_exclusion)"
    by (rule reach_init) (simp add: test_begins_def begin_with_def locked_entry_def demo_locked_def)
  from spinlock_test_passes [OF spinlock.mutex_axioms _ _ this] show ?thesis by simp
qed

theorem atomic_stress_passes_witness:
  "\<exists>m'. (test_step True (\<lambda>cpu. 0) (inc_entry (amo_add_d 0x80003000 1)) inc_done)\<^sup>*\<^sup>*
      (begin_with demo_stress (test_atomic_increment_stress (\<lambda>m v. amo_swap_d 0x80003000 v m) (\<lambda>m. mem m 0x80003000))) m' \<and>
    outcome m' = Some True"
proof -
  have "reach (test_begins inc_begins (test_atomic_increment_stress (\<lambda>m v. amo_swap_d 0x80003000 v m) (\<lambda>m. mem m 0x80003000)))
      (test_step True (\<lambda>cpu. 0) (inc_entry (amo_add_d 0x80003000 1)) inc_done)
      (begin_with demo_stress (test_atomic_increment_stress (\<lambda>m v. amo_swap_d 0x80003000 v m) (\<lambda>m. mem m 0x80003000)))"
    by (rule reach_init) (simp add: test_begins_def begin_with_def inc_begins_def demo_stress_def)
  from atomic_stress_passes [OF amo_word.atomic_word_axioms _ _ this] show ?thesis by simp
qed

end
