(* ===== verification/ZDualTests.thy ===== *)
theory ZDualTests
  imports Locking
begin

text \<open>
  The other tests of phase 4 of the Zephyr suite, \<^verbatim>\<open>p4_dualcore.c\<close>: the CPU a pinned thread runs on
  (P4.1), the buffer published by an atomic flag in both directions (P4.2), two threads that hand
  two semaphores back and forth (P4.5).
\<close>

section \<open>Where a pinned thread runs\<close>

record cpu_probe =
  observed_cpu :: c_int
  recorded :: bool

text \<open>\<open>arch_curr_cpu()->id\<close> is the CPU the worker runs on.\<close>

definition record_cpu_entry :: "worker \<Rightarrow> int \<Rightarrow> cpu_probe \<Rightarrow> cpu_probe \<Rightarrow> bool" where
  "record_cpu_entry w cpu s s' \<longleftrightarrow> w = W0 \<and> \<not> recorded s \<and> s' = s\<lparr>observed_cpu := cpu, recorded := True\<rparr>"

definition probe_done :: "worker \<Rightarrow> cpu_probe \<Rightarrow> bool" where
  "probe_done w s \<longleftrightarrow> w = W0 \<longrightarrow> recorded s"

definition probe_begins :: "cpu_probe \<Rightarrow> bool" where
  "probe_begins s \<longleftrightarrow> \<not> recorded s"

definition test_thread_runs_on_second_cpu :: "cpu_probe test_op list" where
  "test_thread_runs_on_second_cpu =
     worker_ops (\<lambda>s. s\<lparr>observed_cpu := -1\<rparr>) (\<lambda>w. 1) [W0] [W0] [\<lambda>s. observed_cpu s = 1]"

interpretation probe: worker_test_live probe_begins "\<lambda>s. recorded s \<longrightarrow> observed_cpu s = 1" "\<lambda>s. False" record_cpu_entry
    probe_done "\<lambda>s. s\<lparr>observed_cpu := -1\<rparr>" "\<lambda>w. 1" "[W0]" "[W0]" "[\<lambda>s. observed_cpu s = 1]" "\<lambda>s. if recorded s then 0 else 1"
  by unfold_locales (auto simp: probe_begins_def record_cpu_entry_def probe_done_def)

section \<open>Producer and consumer\<close>

text \<open>
  The memory between the two CPUs is weakly ordered. A store of the producer, plain or atomic, is \<open>pending\<close> from its
  execution until it becomes visible to the other CPU, and pending stores to different places become visible in any order. A
  plain load of the consumer may be performed early: \<open>fetched\<close> holds the values of the loads that were.
  The order the kernel's atomic operations give is a parameter: with \<open>release\<close> the store of \<open>atomic_set\<close> becomes visible only
  when no older store is pending, with \<open>acquire\<close> an \<open>atomic_get\<close> makes the loads after it be performed again.
\<close>

definition BUF_WORDS :: nat where "BUF_WORDS = 64"
definition SPIN_LIMIT :: c_int where "SPIN_LIMIT = 10 * 1000 * 1000"

definition buf_word :: "nat \<Rightarrow> u32" where
  "buf_word i = 0xC0DE0000 OR of_nat i"

datatype producer_loc = P_Fill nat | P_End
datatype consumer_loc = C_Poll | C_Compare nat | C_End

text \<open>A pending store: of a word of the buffer, by its index, or of the flag. \<open>pending\<close> has them in program order.\<close>

datatype store = Word nat | Flag

record publish =
  shared_buf :: "nat \<Rightarrow> u32"
  publish_flag :: u64
  consumer_bad_words :: c_int
  pending :: "store list"
  fetched :: "nat \<Rightarrow> u32 option"
  producer_at :: producer_loc
  consumer_at :: consumer_loc
  spins :: c_int

definition producer_entry :: "publish \<Rightarrow> publish option" where
  "producer_entry s =
     (case producer_at s of
        P_Fill i \<Rightarrow>
          Some (if i < BUF_WORDS then s\<lparr>pending := pending s @ [Word i], producer_at := P_Fill (Suc i)\<rparr>
                else s\<lparr>pending := pending s @ [Flag], producer_at := P_End\<rparr>)
      | P_End \<Rightarrow> None)"

text \<open>Which pending store may become visible, and what it does then.\<close>

definition may_drain :: "bool \<Rightarrow> store \<Rightarrow> store list \<Rightarrow> bool" where
  "may_drain release x xs \<longleftrightarrow> x \<in> set xs \<and> (x = Flag \<and> release \<longrightarrow> hd xs = Flag)"

definition visible :: "store \<Rightarrow> publish \<Rightarrow> publish" where
  "visible x s =
     (let s = s\<lparr>pending := remove1 x (pending s)\<rparr>
      in case x of Word i \<Rightarrow> s\<lparr>shared_buf := (shared_buf s)(i := buf_word i)\<rparr> | Flag \<Rightarrow> s\<lparr>publish_flag := 1\<rparr>)"

text \<open>A load by the consumer gives the value fetched early, if there is one.\<close>

definition loaded :: "publish \<Rightarrow> nat \<Rightarrow> u32" where
  "loaded s i = (case fetched s i of None \<Rightarrow> shared_buf s i | Some v \<Rightarrow> v)"

lemma loaded_update [simp]:
  "loaded (s\<lparr>consumer_at := c\<rparr>) = loaded s" "loaded (s\<lparr>consumer_bad_words := n\<rparr>) = loaded s"
  "loaded (s\<lparr>spins := n\<rparr>) = loaded s" "loaded (s\<lparr>pending := xs\<rparr>) = loaded s" "loaded (s\<lparr>producer_at := p\<rparr>) = loaded s"
  "loaded (s\<lparr>publish_flag := v\<rparr>) = loaded s" "loaded (s\<lparr>fetched := \<lambda>i. None\<rparr>) = shared_buf s"
  by (simp_all add: loaded_def fun_eq_iff split: option.split)

definition fetch :: "nat \<Rightarrow> publish \<Rightarrow> publish" where
  "fetch i s = s\<lparr>fetched := (fetched s)(i := Some (shared_buf s i))\<rparr>"

definition polled :: "bool \<Rightarrow> publish \<Rightarrow> publish" where
  "polled acquire s = (if acquire then s\<lparr>fetched := \<lambda>i. None\<rparr> else s)"

definition consumer_entry :: "bool \<Rightarrow> publish \<Rightarrow> publish option" where
  "consumer_entry acquire s =
     (case consumer_at s of
        C_Poll \<Rightarrow>
          Some (let s = polled acquire s
                in if publish_flag s = 0
                then if SPIN_LIMIT < inc32 (spins s)
                     then s\<lparr>spins := inc32 (spins s), consumer_bad_words := -1, consumer_at := C_End\<rparr>
                     else s\<lparr>spins := inc32 (spins s)\<rparr>
                else s\<lparr>consumer_at := C_Compare 0\<rparr>)
      | C_Compare i \<Rightarrow>
          Some (if i < BUF_WORDS
                then (if loaded s i \<noteq> buf_word i then s\<lparr>consumer_bad_words := inc32 (consumer_bad_words s)\<rparr> else s)
                       \<lparr>consumer_at := C_Compare (Suc i)\<rparr>
                else s\<lparr>consumer_at := C_End\<rparr>)
      | C_End \<Rightarrow> None)"

text \<open>\<open>workers[0]\<close> is the consumer, \<open>workers[1]\<close> the producer, in both tests.\<close>

inductive publish_prog :: "bool \<Rightarrow> bool \<Rightarrow> worker \<Rightarrow> int \<Rightarrow> publish \<Rightarrow> publish \<Rightarrow> bool" for release acquire where
  consume: "consumer_entry acquire s = Some s' \<Longrightarrow> publish_prog release acquire W0 cpu s s'"
| early_load: "i < BUF_WORDS \<Longrightarrow> publish_prog release acquire W0 cpu s (fetch i s)"
| produce: "producer_entry s = Some s' \<Longrightarrow> publish_prog release acquire W1 cpu s s'"
| becomes_visible: "may_drain release x (pending s) \<Longrightarrow> publish_prog release acquire W1 cpu s (visible x s)"

definition publish_done :: "worker \<Rightarrow> publish \<Rightarrow> bool" where
  "publish_done w s \<longleftrightarrow> (case w of W0 \<Rightarrow> consumer_at s = C_End | W1 \<Rightarrow> producer_at s = P_End)"

definition publish_begins :: "publish \<Rightarrow> bool" where
  "publish_begins s \<longleftrightarrow> pending s = [] \<and> fetched s = (\<lambda>i. None) \<and> producer_at s = P_Fill 0 \<and> consumer_at s = C_Poll \<and> spins s = 0"

definition publish_reset :: "publish \<Rightarrow> publish" where
  "publish_reset s = s\<lparr>publish_flag := 0, consumer_bad_words := 0, shared_buf := (\<lambda>i. if i < BUF_WORDS then 0 else shared_buf s i)\<rparr>"

definition fence_test :: "(worker \<Rightarrow> int) \<Rightarrow> publish test_op list" where
  "fence_test cpu = worker_ops publish_reset cpu [W0, W1] [W1, W0]
     [\<lambda>s. consumer_bad_words s \<noteq> -1, \<lambda>s. consumer_bad_words s = 0]"

definition test_fence_producer_consumer :: "publish test_op list" where
  "test_fence_producer_consumer = fence_test (\<lambda>w. case w of W0 \<Rightarrow> 1 | W1 \<Rightarrow> 0)"

definition test_fence_producer_consumer_rev :: "publish test_op list" where
  "test_fence_producer_consumer_rev = fence_test (\<lambda>w. case w of W0 \<Rightarrow> 0 | W1 \<Rightarrow> 1)"

text \<open>
  With both orders: every word the producer has passed is in the buffer or pending, before the flag; so once the flag is up all are in
  the buffer, and what the consumer loads after it has seen the flag is right.
\<close>

definition filled :: "publish \<Rightarrow> nat" where
  "filled s = (case producer_at s of P_Fill i \<Rightarrow> i | P_End \<Rightarrow> BUF_WORDS)"

definition gave_up :: "publish \<Rightarrow> bool" where
  "gave_up s \<longleftrightarrow> spins s = SPIN_LIMIT + 1"

definition producer_inv :: "publish \<Rightarrow> bool" where
  "producer_inv s \<longleftrightarrow> filled s \<le> BUF_WORDS \<and>
     (\<forall>i<filled s. shared_buf s i = buf_word i \<or> Word i \<in> set (pending s)) \<and>
     (case producer_at s of
        P_Fill i \<Rightarrow> publish_flag s = 0 \<and> Flag \<notin> set (pending s)
      | P_End \<Rightarrow> if publish_flag s = 0 then \<exists>ws. pending s = ws @ [Flag] \<and> Flag \<notin> set ws else pending s = [])"

definition consumer_inv :: "publish \<Rightarrow> bool" where
  "consumer_inv s \<longleftrightarrow> 0 \<le> spins s \<and>
     (case consumer_at s of
        C_Poll \<Rightarrow> spins s \<le> SPIN_LIMIT \<and> consumer_bad_words s = 0
      | C_Compare i \<Rightarrow> publish_flag s \<noteq> 0 \<and> (\<forall>i<BUF_WORDS. loaded s i = buf_word i) \<and> consumer_bad_words s = 0
      | C_End \<Rightarrow> consumer_bad_words s = 0 \<or> gave_up s)"

lemma visible_only [simp]:
  "consumer_at (visible x s) = consumer_at s" "spins (visible x s) = spins s" "fetched (visible x s) = fetched s"
  "consumer_bad_words (visible x s) = consumer_bad_words s" "producer_at (visible x s) = producer_at s"
  "pending (visible x s) = remove1 x (pending s)" "publish_flag (visible x s) = (if x = Flag then 1 else publish_flag s)"
  "shared_buf (visible x s) = (case x of Word i \<Rightarrow> (shared_buf s)(i := buf_word i) | Flag \<Rightarrow> shared_buf s)"
  by (simp_all add: visible_def Let_def split: store.split)

lemma producer_inv_step:
  assumes "producer_inv s" "producer_entry s = Some s'"
  shows "producer_inv s'"
proof (cases "producer_at s")
  case (P_Fill i)
  with assms show ?thesis
    by (auto simp: producer_inv_def producer_entry_def filled_def less_Suc_eq split: if_splits)
qed (use assms in \<open>simp add: producer_entry_def\<close>)

lemma producer_inv_visible:
  assumes "producer_inv s" "may_drain True x (pending s)"
  shows "producer_inv (visible x s)"
proof (cases x)
  case (Word j)
  have f: "filled (visible x s) = filled s" by (simp add: filled_def)
  have "Word i \<in> set (remove1 x (pending s)) \<or> i = j" if "Word i \<in> set (pending s)" for i
    using that Word by (cases "i = j") simp_all
  with assms(1) have b: "\<forall>i<filled s. shared_buf (visible x s) i = buf_word i \<or> Word i \<in> set (pending (visible x s))"
    by (auto simp: producer_inv_def Word)
  show ?thesis
  proof (cases "producer_at s")
    case (P_Fill i)
    with assms b Word show ?thesis unfolding producer_inv_def f by (auto dest: notin_set_remove1)
  next
    case P_End
    have "\<exists>us. remove1 x (ws @ [Flag]) = us @ [Flag] \<and> Flag \<notin> set us"
      if "Flag \<notin> set ws" "pending s = ws @ [Flag]" for ws
    proof -
      from assms(2) that(2) Word have "x \<in> set ws" by (simp add: may_drain_def)
      then show ?thesis using that(1) by (intro exI [of _ "remove1 x ws"]) (auto simp: remove1_append dest: notin_set_remove1)
    qed
    moreover have "pending s \<noteq> []" using assms(2) by (auto simp: may_drain_def)
    ultimately show ?thesis using assms(1) b P_End Word unfolding producer_inv_def f by (auto split: if_splits)
  qed
next
  case Flag
  with assms obtain ws where "producer_at s = P_End" "pending s = ws @ [Flag]" "Flag \<notin> set ws"
    by (cases "producer_at s") (auto simp: producer_inv_def may_drain_def split: if_splits)
  moreover from this assms(2) Flag have "ws = []" by (cases ws) (auto simp: may_drain_def)
  ultimately show ?thesis using assms(1) Flag by (auto simp: producer_inv_def filled_def split: if_splits)
qed

lemma all_published: "producer_inv s \<Longrightarrow> publish_flag s \<noteq> 0 \<Longrightarrow> i < BUF_WORDS \<Longrightarrow> shared_buf s i = buf_word i"
  by (cases "producer_at s") (auto simp: producer_inv_def filled_def)

lemma consumer_inv_step:
  assumes "consumer_inv s" "producer_inv s" "consumer_entry True s = Some s'"
  shows "consumer_inv s'"
proof (cases "consumer_at s")
  case C_Poll
  with assms(1) have sp: "0 \<le> spins s" "spins s \<le> SPIN_LIMIT" "consumer_bad_words s = 0" by (simp_all add: consumer_inv_def)
  then have "inc32 (spins s) = spins s + 1" by (simp add: inc32_def SPIN_LIMIT_def)
  with C_Poll sp assms(3) all_published [OF assms(2)] show ?thesis
    by (auto simp: consumer_inv_def consumer_entry_def gave_up_def polled_def Let_def split: if_splits)
next
  case (C_Compare i)
  with assms show ?thesis
    by (auto simp: consumer_inv_def consumer_entry_def split: if_splits)
qed (use assms(3) in \<open>simp add: consumer_entry_def\<close>)

lemma fetch_only [simp]:
  "consumer_at (fetch i s) = consumer_at s" "spins (fetch i s) = spins s" "consumer_bad_words (fetch i s) = consumer_bad_words s"
  "producer_at (fetch i s) = producer_at s" "pending (fetch i s) = pending s" "publish_flag (fetch i s) = publish_flag s"
  "shared_buf (fetch i s) = shared_buf s" "loaded (fetch i s) j = (if j = i then shared_buf s i else loaded s j)"
  by (simp_all add: fetch_def loaded_def cong: option.case_cong)

lemma consumer_inv_fetch:
  assumes "consumer_inv s" "producer_inv s" "i < BUF_WORDS"
  shows "consumer_inv (fetch i s)"
  using assms all_published [OF assms(2) _ assms(3)] by (auto simp: consumer_inv_def gave_up_def split: consumer_loc.splits)

text \<open>Of what the producer does only the buffer and the flag matter to the consumer, and the other way round nothing.\<close>

lemma consumer_frame:
  assumes "consumer_inv s" "consumer_at s' = consumer_at s" "spins s' = spins s"
    "consumer_bad_words s' = consumer_bad_words s" "publish_flag s \<noteq> 0 \<longrightarrow> publish_flag s' \<noteq> 0"
    "\<forall>i<BUF_WORDS. loaded s i = buf_word i \<longrightarrow> loaded s' i = buf_word i"
  shows "consumer_inv s'"
  using assms by (simp add: consumer_inv_def gave_up_def split: consumer_loc.splits)

lemma producer_frame:
  assumes "producer_inv s" "producer_at s' = producer_at s" "shared_buf s' = shared_buf s"
    "publish_flag s' = publish_flag s" "pending s' = pending s"
  shows "producer_inv s'"
  using assms by (cases "producer_at s") (simp_all add: producer_inv_def filled_def)

lemma consumer_only:
  assumes "consumer_entry acquire s = Some s'"
  shows "producer_at s' = producer_at s" "shared_buf s' = shared_buf s" "publish_flag s' = publish_flag s"
    "pending s' = pending s" "consumer_at s \<noteq> C_End"
  using assms by (cases "consumer_at s"; auto simp: consumer_entry_def polled_def Let_def split: if_splits)+

lemma producer_only:
  assumes "producer_entry s = Some s'"
  shows "consumer_at s' = consumer_at s" "spins s' = spins s" "consumer_bad_words s' = consumer_bad_words s"
    "publish_flag s' = publish_flag s" "loaded s' = loaded s" "producer_at s \<noteq> P_End"
  using assms by (cases "producer_at s"; auto simp: producer_entry_def split: if_splits)+

lemma loaded_visible: "loaded s i = buf_word i \<Longrightarrow> loaded (visible x s) i = buf_word i"
  by (auto simp: loaded_def split: option.splits store.splits)

lemma publish_step:
  assumes "producer_inv s \<and> consumer_inv s" "publish_prog True True w cpu s s'"
  shows "producer_inv s' \<and> consumer_inv s'"
  using assms(2)
proof cases
  case consume
  note o = consumer_only [OF consume(2)]
  with assms(1) consume show ?thesis by (auto intro: consumer_inv_step producer_frame [OF _ o(1-4)])
next
  case (early_load i)
  with assms(1) consumer_inv_fetch [of s i] producer_frame [of s "fetch i s"] show ?thesis by simp
next
  case produce
  note o = producer_only [OF produce(2)]
  with assms(1) produce show ?thesis by (auto intro: producer_inv_step consumer_frame [OF _ o(1-3)] simp: o(4,5))
next
  case (becomes_visible x)
  with assms(1) producer_inv_visible [of s x] consumer_frame [of s "visible x s"] loaded_visible [of s _ x] show ?thesis by simp
qed

text \<open>How far the two are from their ends.\<close>

definition producer_rank :: "publish \<Rightarrow> nat" where
  "producer_rank s = (case producer_at s of P_Fill i \<Rightarrow> 2 + 2 * (BUF_WORDS - i) | P_End \<Rightarrow> 0) + length (pending s)"

definition consumer_rank :: "publish \<Rightarrow> nat" where
  "consumer_rank s = (case consumer_at s of C_Poll \<Rightarrow> BUF_WORDS + 2 | C_Compare i \<Rightarrow> Suc (BUF_WORDS - i) | C_End \<Rightarrow> 0)"

lemma producer_closer:
  assumes "producer_inv s" "producer_at s \<noteq> P_End \<or> pending s \<noteq> []"
  shows "\<exists>s'. publish_prog True True W1 cpu s s' \<and> producer_rank s' + consumer_rank s' < producer_rank s + consumer_rank s"
proof (cases "producer_at s")
  case (P_Fill i)
  then obtain s' where s': "producer_entry s = Some s'" by (simp add: producer_entry_def)
  with P_Fill have "producer_rank s' < producer_rank s" by (auto simp: producer_entry_def producer_rank_def split: if_splits)
  moreover have "consumer_rank s' = consumer_rank s" using producer_only(1) [OF s'] by (simp add: consumer_rank_def)
  ultimately show ?thesis using publish_prog.produce [OF s'] by fastforce
next
  case P_End
  with assms(2) obtain x xs where x: "pending s = x # xs" by (cases "pending s") auto
  then have "may_drain True x (pending s)" by (auto simp: may_drain_def)
  moreover have "producer_rank (visible x s) < producer_rank s" "consumer_rank (visible x s) = consumer_rank s"
    using x by (simp_all add: producer_rank_def consumer_rank_def)
  ultimately show ?thesis using publish_prog.becomes_visible by fastforce
qed

lemma consumer_closer:
  assumes "publish_flag s \<noteq> 0" "consumer_at s \<noteq> C_End"
  shows "\<exists>s'. publish_prog True True W0 cpu s s' \<and> producer_rank s' + consumer_rank s' < producer_rank s + consumer_rank s"
proof -
  from assms(2) obtain s' where s': "consumer_entry True s = Some s'" by (cases "consumer_at s") (auto simp: consumer_entry_def)
  with assms have "consumer_rank s' < consumer_rank s"
    by (cases "consumer_at s") (auto simp: consumer_entry_def polled_def Let_def consumer_rank_def split: if_splits)
  moreover have "producer_rank s' = producer_rank s" using consumer_only(1,4) [OF s'] by (simp add: producer_rank_def)
  ultimately show ?thesis using publish_prog.consume [OF s'] by fastforce
qed

interpretation publish: worker_test_live publish_begins "\<lambda>s. producer_inv s \<and> consumer_inv s" gave_up "publish_prog True True" publish_done
    publish_reset cpu "[W0, W1]" "[W1, W0]" "[\<lambda>s. consumer_bad_words s \<noteq> -1, \<lambda>s. consumer_bad_words s = 0]"
    "\<lambda>s. producer_rank s + consumer_rank s" for cpu
proof
  show "producer_inv (publish_reset s) \<and> consumer_inv (publish_reset s)" if "publish_begins s" for s
    using that by (simp add: publish_begins_def publish_reset_def producer_inv_def consumer_inv_def filled_def SPIN_LIMIT_def)
  show "producer_inv s' \<and> consumer_inv s'" if "producer_inv s \<and> consumer_inv s" "publish_prog True True w (cpu w) s s'" for s s' w
    using publish_step [OF that] .
  show "publish_done w s'" if "publish_done w s" "publish_prog True True v (cpu v) s s'" for s s' v w
    using that(2,1) by cases (auto simp: publish_done_def dest: consumer_only producer_only split: worker.splits)
  show "gave_up s'" if "producer_inv s \<and> consumer_inv s" "gave_up s" "publish_prog True True v (cpu v) s s'" for s s' v
    using that(3,1,2)
  proof cases
    case consume
    with that(1,2) show ?thesis
      by (cases "consumer_at s") (auto simp: gave_up_def consumer_entry_def polled_def Let_def consumer_inv_def split: if_splits)
  qed (auto simp: gave_up_def dest: producer_only)
  show "P s \<or> gave_up s" if "producer_inv s \<and> consumer_inv s" "publish_done W0 s"
    "P \<in> set [\<lambda>s. consumer_bad_words s \<noteq> -1, \<lambda>s. consumer_bad_words s = 0]" for s P
    using that by (auto simp: consumer_inv_def publish_done_def)
  show "\<exists>v\<in>set [W0, W1]. \<exists>s'. publish_prog True True v (cpu v) s s' \<and>
      producer_rank s' + consumer_rank s' < producer_rank s + consumer_rank s"
    if "producer_inv s \<and> consumer_inv s" "\<not> publish_done w s" for s w
  proof (cases "producer_at s = P_End \<and> pending s = []")
    case True
    with that have "publish_flag s \<noteq> 0" "consumer_at s \<noteq> C_End"
      by (auto simp: producer_inv_def publish_done_def split: worker.splits if_splits)
    from consumer_closer [OF this] show ?thesis by simp
  next
    case False
    with producer_closer [of s "cpu W1"] that(1) show ?thesis by auto
  qed
qed (use worker.exhaust in auto)

text \<open>With both orders, from the beginning of the test on.\<close>

lemma ordered_passes:
  assumes "test_begins publish_begins (fence_test cpu) m" "\<forall>w. pin_rc (cpu w) = 0"
    and "(test_step True pin_rc (publish_prog True True) publish_done)\<^sup>*\<^sup>* m m'"
  shows "(outcome m' = Some False \<longrightarrow> spins (shared m') = SPIN_LIMIT + 1) \<and>
    (consumer_at (shared m') = C_End \<and> spins (shared m') \<le> SPIN_LIMIT \<longrightarrow> consumer_bad_words (shared m') = 0) \<and>
    (\<exists>m''. (test_step True pin_rc (publish_prog True True) publish_done)\<^sup>*\<^sup>* m' m'' \<and>
       (outcome m'' = Some True \<or> spins (shared m'') = SPIN_LIMIT + 1))"
proof -
  have r: "reach (test_begins publish_begins (fence_test cpu)) (test_step True pin_rc (publish_prog True True) publish_done) m'"
    using assms(3)
  proof (induction rule: rtranclp_induct)
    case base
    from assms(1) show ?case by (rule reach_init)
  qed (rule reach_step)
  note r = r [unfolded fence_test_def]
  note i = publish.never_fails [OF r assms(2)]
  from i(1) have "publish_begins (shared m') \<or> consumer_inv (shared m')"
    by (auto simp: publish.test_inv_def publish.progressed_def test_begins_def)
  then have "consumer_at (shared m') = C_End \<and> spins (shared m') \<le> SPIN_LIMIT \<longrightarrow> consumer_bad_words (shared m') = 0"
    by (auto simp: publish_begins_def consumer_inv_def gave_up_def)
  with i(2) publish.can_pass [OF r assms(2)] show ?thesis by (auto simp: gave_up_def)
qed

section \<open>Without one of the orders\<close>

text \<open>Without the release the flag can overtake all words; without the acquire the words can have been loaded before the poll.
  Either way every word the consumer compares is stale, and the test fails.\<close>

lemma buf_word_nonzero: "buf_word i \<noteq> 0"
  by (simp add: buf_word_def or_eq_0_iff)

definition either :: "bool \<Rightarrow> bool \<Rightarrow> (worker \<Rightarrow> int) \<Rightarrow> publish \<Rightarrow> publish \<Rightarrow> bool" where
  "either release acquire cpu s s' \<longleftrightarrow> (\<exists>w. publish_prog release acquire w (cpu w) s s')"

lemma eitherI: "publish_prog release acquire w (cpu w) s s' \<Longrightarrow> either release acquire cpu s s'"
  by (auto simp: either_def)

lemma fill_run:
  assumes "pending s = []" "producer_at s = P_Fill 0" "i \<le> BUF_WORDS"
  shows "(either r a cpu)\<^sup>*\<^sup>* s (s\<lparr>pending := map Word [0..<i], producer_at := P_Fill i\<rparr>)"
  using assms(3)
proof (induction i)
  case 0
  from assms(1,2) have "s\<lparr>pending := map Word [0..<0], producer_at := P_Fill 0\<rparr> = s" by simp
  then show ?case by (simp only: rtranclp.rtrancl_refl)
next
  case (Suc i)
  let ?t = "\<lambda>i. s\<lparr>pending := map Word [0..<i], producer_at := P_Fill i\<rparr>"
  have "producer_entry (?t i) = Some (?t (Suc i))" using Suc.prems by (simp add: producer_entry_def)
  then have "either r a cpu (?t i) (?t (Suc i))" by (auto intro: eitherI publish_prog.produce)
  with Suc show ?case by (meson Suc_leD rtranclp.rtrancl_into_rtrancl)
qed

lemma issue_run:
  assumes "pending s = []" "producer_at s = P_Fill 0"
  shows "(either r a cpu)\<^sup>*\<^sup>* s (s\<lparr>pending := map Word [0..<BUF_WORDS] @ [Flag], producer_at := P_End\<rparr>)"
proof -
  let ?t = "s\<lparr>pending := map Word [0..<BUF_WORDS], producer_at := P_Fill BUF_WORDS\<rparr>"
  let ?u = "s\<lparr>pending := map Word [0..<BUF_WORDS] @ [Flag], producer_at := P_End\<rparr>"
  have "producer_entry ?t = Some ?u" by (simp add: producer_entry_def)
  then have "either r a cpu ?t ?u" by (auto intro: eitherI publish_prog.produce)
  with fill_run [OF assms order.refl] show ?thesis by (rule rtranclp.rtrancl_into_rtrancl)
qed

text \<open>Draining in program order is always possible.\<close>

lemma drain_run:
  "\<exists>t. (either r a cpu)\<^sup>*\<^sup>* s t \<and> publish_flag t = (if Flag \<in> set (pending s) then 1 else publish_flag s) \<and>
     producer_at t = producer_at s \<and> consumer_at t = consumer_at s \<and> fetched t = fetched s \<and>
     consumer_bad_words t = consumer_bad_words s \<and> spins t = spins s"
proof (induction "pending s" arbitrary: s)
  case Nil
  then show ?case by (intro exI [of _ s]) (auto simp: Nil [symmetric])
next
  case (Cons x xs)
  note p = Cons(2) [symmetric]
  have "may_drain r x (pending s)" by (auto simp: may_drain_def p)
  then have "either r a cpu s (visible x s)" by (auto intro: eitherI publish_prog.becomes_visible)
  moreover from Cons(1) [of "visible x s"] obtain t where "(either r a cpu)\<^sup>*\<^sup>* (visible x s) t"
    "publish_flag t = (if Flag \<in> set xs then 1 else publish_flag (visible x s))" "producer_at t = producer_at s"
    "consumer_at t = consumer_at s" "fetched t = fetched s" "consumer_bad_words t = consumer_bad_words s" "spins t = spins s"
    by (auto simp: p)
  ultimately show ?case by (intro exI [of _ t]) (auto simp: p intro: converse_rtranclp_into_rtranclp)
qed

lemma fetch_run:
  assumes "fetched s = (\<lambda>j. None)" "i \<le> BUF_WORDS"
  shows "(either r a cpu)\<^sup>*\<^sup>* s (s\<lparr>fetched := \<lambda>j. if j < i then Some (shared_buf s j) else None\<rparr>)"
  using assms(2)
proof (induction i)
  case 0
  from assms(1) have "s\<lparr>fetched := \<lambda>j. if j < 0 then Some (shared_buf s j) else None\<rparr> = s" by simp
  then show ?case by (simp only: rtranclp.rtrancl_refl)
next
  case (Suc i)
  let ?t = "\<lambda>i. s\<lparr>fetched := \<lambda>j. if j < i then Some (shared_buf s j) else None\<rparr>"
  have "fetch i (?t i) = ?t (Suc i)" by (auto simp: fetch_def fun_eq_iff less_Suc_eq)
  then have "either r a cpu (?t i) (?t (Suc i))" using Suc.prems publish_prog.early_load [of i r a "cpu W0" "?t i"]
    by (auto intro: eitherI)
  with Suc show ?case by (meson Suc_leD rtranclp.rtrancl_into_rtrancl)
qed

lemma compare_run:
  assumes "consumer_at s = C_Compare 0" "consumer_bad_words s = 0" "\<forall>i<BUF_WORDS. loaded s i \<noteq> buf_word i" "i \<le> BUF_WORDS"
  shows "(either r a cpu)\<^sup>*\<^sup>* s (s\<lparr>consumer_bad_words := int i, consumer_at := C_Compare i\<rparr>)"
  using assms(4)
proof (induction i)
  case 0
  from assms(1,2) have "s\<lparr>consumer_bad_words := int 0, consumer_at := C_Compare 0\<rparr> = s" by simp
  then show ?case by (simp only: rtranclp.rtrancl_refl)
next
  case (Suc i)
  let ?t = "\<lambda>i. s\<lparr>consumer_bad_words := int i, consumer_at := C_Compare i\<rparr>"
  have "inc32 (int i) = int (Suc i)" using Suc.prems by (simp add: inc32_def BUF_WORDS_def)
  then have "consumer_entry a (?t i) = Some (?t (Suc i))" using Suc.prems assms(3) by (simp add: consumer_entry_def)
  then have "either r a cpu (?t i) (?t (Suc i))" by (auto intro: eitherI publish_prog.consume)
  with Suc show ?case by (meson Suc_leD rtranclp.rtrancl_into_rtrancl)
qed

lemma stale_run:
  assumes "publish_flag s \<noteq> 0" "consumer_at s = C_Poll" "consumer_bad_words s = 0"
    "\<forall>i<BUF_WORDS. loaded (polled a s) i \<noteq> buf_word i"
  shows "\<exists>t. (either r a cpu)\<^sup>*\<^sup>* s t \<and> consumer_at t = C_End \<and> consumer_bad_words t = int BUF_WORDS \<and>
    producer_at t = producer_at s \<and> spins t = spins s"
proof -
  let ?s1 = "(polled a s)\<lparr>consumer_at := C_Compare 0\<rparr>"
  let ?s2 = "?s1\<lparr>consumer_bad_words := int BUF_WORDS, consumer_at := C_Compare BUF_WORDS\<rparr>"
  let ?s3 = "?s2\<lparr>consumer_at := C_End\<rparr>"
  have p: "publish_flag (polled a s) = publish_flag s" "consumer_bad_words (polled a s) = consumer_bad_words s"
    "producer_at (polled a s) = producer_at s" "spins (polled a s) = spins s" by (simp_all add: polled_def)
  have "consumer_entry a s = Some ?s1" using assms(1,2) by (simp add: consumer_entry_def Let_def p)
  then have "either r a cpu s ?s1" by (auto intro: eitherI publish_prog.consume)
  moreover have "(either r a cpu)\<^sup>*\<^sup>* ?s1 ?s2" by (rule compare_run) (use assms p in simp_all)
  moreover have "consumer_entry a ?s2 = Some ?s3" by (simp add: consumer_entry_def)
  then have "either r a cpu ?s2 ?s3" by (auto intro: eitherI publish_prog.consume)
  ultimately have "(either r a cpu)\<^sup>*\<^sup>* s ?s3"
    by (meson converse_rtranclp_into_rtranclp rtranclp.rtrancl_into_rtrancl)
  with p show ?thesis by (intro exI [of _ ?s3]) simp
qed

lemma unordered_run:
  assumes "publish_begins s" "publish_flag s = 0" "consumer_bad_words s = 0" "\<forall>i<BUF_WORDS. shared_buf s i = 0" "\<not> (r \<and> a)"
  shows "\<exists>t. (either r a cpu)\<^sup>*\<^sup>* s t \<and> consumer_at t = C_End \<and> consumer_bad_words t = int BUF_WORDS \<and>
    producer_at t = P_End \<and> spins t = 0"
proof -
  have b: "pending s = []" "fetched s = (\<lambda>i. None)" "producer_at s = P_Fill 0" "consumer_at s = C_Poll" "spins s = 0"
    using assms(1) by (simp_all add: publish_begins_def)
  obtain u where u: "(either r a cpu)\<^sup>*\<^sup>* s u" "publish_flag u = 1" "consumer_at u = C_Poll" "consumer_bad_words u = 0"
    "producer_at u = P_End" "spins u = 0" "\<forall>i<BUF_WORDS. loaded (polled a u) i = 0"
  proof (cases r)
    case False
    let ?t = "s\<lparr>pending := map Word [0..<BUF_WORDS] @ [Flag], producer_at := P_End\<rparr>"
    have "either r a cpu ?t (visible Flag ?t)"
      by (rule eitherI, rule publish_prog.becomes_visible) (simp add: may_drain_def False)
    with issue_run [OF b(1,3)] have "(either r a cpu)\<^sup>*\<^sup>* s (visible Flag ?t)" by (rule rtranclp.rtrancl_into_rtrancl)
    moreover have "loaded (polled a (visible Flag ?t)) i = shared_buf s i" for i by (simp add: loaded_def polled_def b(2))
    ultimately show thesis using b assms(3,4) by (intro that [of "visible Flag ?t"]) simp_all
  next
    case True
    with assms(5) have a: "\<not> a" by simp
    let ?t = "s\<lparr>fetched := \<lambda>j. if j < BUF_WORDS then Some (shared_buf s j) else None\<rparr>"
    let ?u = "?t\<lparr>pending := map Word [0..<BUF_WORDS] @ [Flag], producer_at := P_End\<rparr>"
    have "(either r a cpu)\<^sup>*\<^sup>* s ?t" by (rule fetch_run [OF b(2) order.refl])
    moreover have "(either r a cpu)\<^sup>*\<^sup>* ?t ?u" by (rule issue_run) (use b in simp_all)
    moreover obtain v where v: "(either r a cpu)\<^sup>*\<^sup>* ?u v" "publish_flag v = 1" "producer_at v = P_End" "consumer_at v = C_Poll"
      "fetched v = fetched ?t" "consumer_bad_words v = 0" "spins v = 0"
      using drain_run [of r a cpu ?u] b assms(3) by auto
    ultimately have "(either r a cpu)\<^sup>*\<^sup>* s v" by (meson rtranclp_trans)
    moreover have "\<forall>i<BUF_WORDS. loaded (polled a v) i = 0" using a v(5) assms(4) by (simp add: polled_def loaded_def)
    ultimately show thesis using v by (intro that [of v]) simp_all
  qed
  have "\<forall>i<BUF_WORDS. loaded (polled a u) i \<noteq> buf_word i" using u(7) buf_word_nonzero by metis
  with stale_run [of u a r cpu] u(2-4) obtain t where "(either r a cpu)\<^sup>*\<^sup>* u t" "consumer_at t = C_End"
    "consumer_bad_words t = int BUF_WORDS" "producer_at t = producer_at u" "spins t = spins u" by auto
  with u(1,5,6) show ?thesis by (intro exI [of _ t]) (auto intro: rtranclp_trans)
qed

text \<open>The moves of the two workers as moves of the test.\<close>

lemma workers_run:
  assumes "(either r a cpu)\<^sup>*\<^sup>* (shared m) s'" "\<forall>w. pinned m w = Some (cpu w)"
  shows "(test_step p pin_rc (publish_prog r a) fin)\<^sup>*\<^sup>* m (m\<lparr>shared := s'\<rparr>)"
  using assms(1)
proof (induction rule: rtranclp_induct)
  case base
  then show ?case by simp
next
  case (step t u)
  from step(2) obtain w where "publish_prog r a w (cpu w) t u" by (auto simp: either_def)
  with test_step.worker [of "m\<lparr>shared := t\<rparr>" w "cpu w" "publish_prog r a" u p pin_rc fin] assms(2)
  have "test_step p pin_rc (publish_prog r a) fin (m\<lparr>shared := t\<rparr>) (m\<lparr>shared := u\<rparr>)" by simp
  with step(3) show ?case by (rule rtranclp.rtrancl_into_rtrancl)
qed

lemma test_ops_run:
  assumes "test_op_step pin_rc fin m = Some m'" "(test_step p pin_rc prog fin)\<^sup>*\<^sup>* m' m''"
  shows "(test_step p pin_rc prog fin)\<^sup>*\<^sup>* m m''"
  using assms by (blast intro: converse_rtranclp_into_rtranclp test_step.test_thread)

lemma unordered_fails:
  assumes "test_begins publish_begins (fence_test cpu) m" "\<forall>w. pin_rc (cpu w) = 0" "\<not> (r \<and> a)"
  shows "\<exists>m'. (test_step p pin_rc (publish_prog r a) publish_done)\<^sup>*\<^sup>* m m' \<and> outcome m' = Some False \<and> spins (shared m') = 0"
proof -
  from assms(1) have m: "publish_begins (shared m)" "todo m = fence_test cpu" "pinned m = (\<lambda>w. None)" "outcome m = None"
    by (simp_all add: test_begins_def)
  let ?s = "publish_reset (shared m)"
  have "publish_begins ?s" "publish_flag ?s = 0" "consumer_bad_words ?s = 0" "\<forall>i<BUF_WORDS. shared_buf ?s i = 0"
    using m(1) by (simp_all add: publish_begins_def publish_reset_def)
  from unordered_run [OF this assms(3)] obtain t where t: "(either r a cpu)\<^sup>*\<^sup>* ?s t" "consumer_at t = C_End"
    "consumer_bad_words t = 64" "producer_at t = P_End" "spins t = 0" by (auto simp: BUF_WORDS_def)
  let ?z = "[Zassert (\<lambda>s. consumer_bad_words s \<noteq> -1), Zassert (\<lambda>s. consumer_bad_words s = 0)]"
  let ?m1 = "m\<lparr>shared := ?s, todo := Start_on (cpu W0) W0 # Start_on (cpu W1) W1 # Join W1 # Join W0 # ?z\<rparr>"
  let ?m2 = "?m1\<lparr>todo := Start_on (cpu W1) W1 # Join W1 # Join W0 # ?z, pinned := (pinned m)(W0 := Some (cpu W0))\<rparr>"
  let ?m3 = "?m2\<lparr>todo := Join W1 # Join W0 # ?z, pinned := (pinned m)(W0 := Some (cpu W0), W1 := Some (cpu W1))\<rparr>"
  let ?m4 = "?m3\<lparr>shared := t\<rparr>"
  let ?m5 = "?m4\<lparr>todo := [], outcome := Some False\<rparr>"
  have "pinned ?m3 w = Some (cpu w)" for w by (cases w) simp_all
  with workers_run [of r a cpu ?m3 t] t(1) have w: "(test_step p pin_rc (publish_prog r a) publish_done)\<^sup>*\<^sup>* ?m3 ?m4" by simp
  have "(test_step p pin_rc (publish_prog r a) publish_done)\<^sup>*\<^sup>* m ?m3"
    by (rule test_ops_run [of _ _ _ ?m1], use m in \<open>simp add: test_op_step_def fence_test_def worker_ops_def\<close>,
        rule test_ops_run [of _ _ _ ?m2], use m assms(2) in \<open>simp add: test_op_step_def start_worker_on_def\<close>,
        rule test_ops_run [of _ _ _ ?m3], use m assms(2) in \<open>simp add: test_op_step_def start_worker_on_def\<close>, simp)
  moreover have "(test_step p pin_rc (publish_prog r a) publish_done)\<^sup>*\<^sup>* ?m4 ?m5"
    by (rule test_ops_run [of _ _ _ "?m4\<lparr>todo := Join W0 # ?z\<rparr>"], use m t in \<open>simp add: test_op_step_def publish_done_def\<close>,
        rule test_ops_run [of _ _ _ "?m4\<lparr>todo := ?z\<rparr>"], use m t in \<open>simp add: test_op_step_def publish_done_def\<close>,
        rule test_ops_run [of _ _ _ "?m4\<lparr>todo := tl ?z\<rparr>"], use m t in \<open>simp add: test_op_step_def\<close>,
        rule test_ops_run [of _ _ _ ?m5], use m t in \<open>simp add: test_op_step_def\<close>, simp)
  ultimately have "(test_step p pin_rc (publish_prog r a) publish_done)\<^sup>*\<^sup>* m ?m5" using w by (meson rtranclp_trans)
  with t(5) show ?thesis by (intro exI [of _ ?m5]) simp
qed

section \<open>Ping-pong\<close>

text \<open>
  The test thread and the ponger. Semaphores are the kernel's: \<open>sem_take\<close> is \<open>None\<close> while the semaphore has
  nothing to take. \<open>M_Give\<close> and \<open>Po_Take\<close> carry the loop counters.
\<close>

definition PINGPONG_ROUNDS :: nat where "PINGPONG_ROUNDS = 20"

datatype pinger_loc = M_Init | M_Start | M_Give nat | M_Take nat | M_Join | M_Check | M_End bool
datatype ponger_loc = Po_New | Po_Take nat | Po_Count nat | Po_Give nat | Po_End

record 'k pingpong =
  ping_sem :: 'k
  pong_sem :: 'k
  pong_rounds :: c_int
  main_at :: pinger_loc
  ponger_at :: ponger_loc

definition ponger_entry ::
    "('k \<Rightarrow> 'k) \<Rightarrow> ('k \<Rightarrow> 'k option) \<Rightarrow> 'k pingpong \<Rightarrow> 'k pingpong option" where
  "ponger_entry sem_give sem_take s =
     (case ponger_at s of
        Po_New \<Rightarrow> None
      | Po_Take i \<Rightarrow>
          if i < PINGPONG_ROUNDS
          then map_option (\<lambda>k. s\<lparr>ping_sem := k, ponger_at := Po_Count i\<rparr>) (sem_take (ping_sem s))
          else Some (s\<lparr>ponger_at := Po_End\<rparr>)
      | Po_Count i \<Rightarrow> Some (s\<lparr>pong_rounds := inc32 (pong_rounds s), ponger_at := Po_Give i\<rparr>)
      | Po_Give i \<Rightarrow> Some (s\<lparr>pong_sem := sem_give (pong_sem s), ponger_at := Po_Take (Suc i)\<rparr>)
      | Po_End \<Rightarrow> None)"

definition test_ping_pong ::
    "(int \<Rightarrow> c_int) \<Rightarrow> (nat \<Rightarrow> nat \<Rightarrow> 'k) \<Rightarrow> ('k \<Rightarrow> 'k) \<Rightarrow> ('k \<Rightarrow> 'k option) \<Rightarrow> 'k pingpong \<Rightarrow> 'k pingpong option" where
  "test_ping_pong pin_rc sem_init sem_give sem_take s =
     (case main_at s of
        M_Init \<Rightarrow> Some (s\<lparr>ping_sem := sem_init 0 1, pong_sem := sem_init 0 1, pong_rounds := 0, main_at := M_Start\<rparr>)
      | M_Start \<Rightarrow>
          Some (if pin_rc 1 = 0 then s\<lparr>ponger_at := Po_Take 0, main_at := M_Give 0\<rparr> else s\<lparr>main_at := M_End False\<rparr>)
      | M_Give i \<Rightarrow>
          Some (if i < PINGPONG_ROUNDS then s\<lparr>ping_sem := sem_give (ping_sem s), main_at := M_Take i\<rparr>
                else s\<lparr>main_at := M_Join\<rparr>)
      | M_Take i \<Rightarrow> map_option (\<lambda>k. s\<lparr>pong_sem := k, main_at := M_Give (Suc i)\<rparr>) (sem_take (pong_sem s))
      | M_Join \<Rightarrow> if ponger_at s = Po_End then Some (s\<lparr>main_at := M_Check\<rparr>) else None
      | M_Check \<Rightarrow> Some (s\<lparr>main_at := M_End (pong_rounds s = int PINGPONG_ROUNDS)\<rparr>)
      | M_End b \<Rightarrow> None)"

text \<open>A take or a join that waits may run into its time limit unless the kernel is \<open>patient\<close>; the ponger then returns
  and the test fails.\<close>

inductive pingpong_step ::
    "bool \<Rightarrow> (int \<Rightarrow> c_int) \<Rightarrow> (nat \<Rightarrow> nat \<Rightarrow> 'k) \<Rightarrow> ('k \<Rightarrow> 'k) \<Rightarrow> ('k \<Rightarrow> 'k option) \<Rightarrow> 'k pingpong \<Rightarrow> 'k pingpong \<Rightarrow> bool"
  for patient pin_rc sem_init sem_give sem_take where
  pinger: "test_ping_pong pin_rc sem_init sem_give sem_take s = Some s' \<Longrightarrow>
    pingpong_step patient pin_rc sem_init sem_give sem_take s s'"
| ponger: "ponger_entry sem_give sem_take s = Some s' \<Longrightarrow>
    pingpong_step patient pin_rc sem_init sem_give sem_take s s'"
| pinger_timeout: "\<not> patient \<Longrightarrow> main_at s = M_Take i \<and> sem_take (pong_sem s) = None \<or> main_at s = M_Join \<and> ponger_at s \<noteq> Po_End \<Longrightarrow>
    pingpong_step patient pin_rc sem_init sem_give sem_take s (s\<lparr>main_at := M_End False\<rparr>)"
| ponger_timeout: "\<not> patient \<Longrightarrow> ponger_at s = Po_Take i \<Longrightarrow> i < PINGPONG_ROUNDS \<Longrightarrow> sem_take (ping_sem s) = None \<Longrightarrow>
    pingpong_step patient pin_rc sem_init sem_give sem_take s (s\<lparr>ponger_at := Po_End\<rparr>)"

definition pingpong_begins :: "'k pingpong \<Rightarrow> bool" where
  "pingpong_begins s \<longleftrightarrow> main_at s = M_Init \<and> ponger_at s = Po_New"

text \<open>Who has the turn: one token goes from \<open>ping_sem\<close> through the ponger to \<open>pong_sem\<close> and back.\<close>

definition sems :: "('k \<Rightarrow> nat) \<Rightarrow> ('k \<Rightarrow> nat) \<Rightarrow> nat \<Rightarrow> nat \<Rightarrow> 'k pingpong \<Rightarrow> bool" where
  "sems count limit m n s \<longleftrightarrow> count (ping_sem s) = m \<and> count (pong_sem s) = n \<and> limit (ping_sem s) = 1 \<and> limit (pong_sem s) = 1"

definition ponger_before :: "nat \<Rightarrow> 'k pingpong \<Rightarrow> bool" where
  "ponger_before i s \<longleftrightarrow> pong_rounds s = int i \<and> (ponger_at s = Po_Take i \<or> i = PINGPONG_ROUNDS \<and> ponger_at s = Po_End)"

definition turn_inv :: "('k \<Rightarrow> nat) \<Rightarrow> ('k \<Rightarrow> nat) \<Rightarrow> 'k pingpong \<Rightarrow> bool" where
  "turn_inv count limit s \<longleftrightarrow>
     (case main_at s of
        M_Init \<Rightarrow> ponger_at s = Po_New
      | M_Start \<Rightarrow> ponger_at s = Po_New \<and> sems count limit 0 0 s \<and> pong_rounds s = 0
      | M_Give i \<Rightarrow> i \<le> PINGPONG_ROUNDS \<and> sems count limit 0 0 s \<and> ponger_before i s
      | M_Take i \<Rightarrow> i < PINGPONG_ROUNDS \<and>
          (sems count limit 1 0 s \<and> ponger_at s = Po_Take i \<and> pong_rounds s = int i \<or>
           sems count limit 0 0 s \<and> ponger_at s = Po_Count i \<and> pong_rounds s = int i \<or>
           sems count limit 0 0 s \<and> ponger_at s = Po_Give i \<and> pong_rounds s = int (Suc i) \<or>
           sems count limit 0 1 s \<and> ponger_before (Suc i) s)
      | M_Join \<Rightarrow> ponger_before PINGPONG_ROUNDS s
      | M_Check \<Rightarrow> ponger_before PINGPONG_ROUNDS s \<and> ponger_at s = Po_End
      | M_End b \<Rightarrow> False)"

definition pinger_left :: "pinger_loc \<Rightarrow> nat" where
  "pinger_left l = (case l of
     M_Init \<Rightarrow> 2 * PINGPONG_ROUNDS + 5 | M_Start \<Rightarrow> 2 * PINGPONG_ROUNDS + 4
   | M_Give i \<Rightarrow> 2 * (PINGPONG_ROUNDS - i) + 3 | M_Take i \<Rightarrow> 2 * (PINGPONG_ROUNDS - i) + 2
   | M_Join \<Rightarrow> 2 | M_Check \<Rightarrow> 1 | M_End b \<Rightarrow> 0)"

definition ponger_left :: "ponger_loc \<Rightarrow> nat" where
  "ponger_left l = (case l of
     Po_New \<Rightarrow> 3 * PINGPONG_ROUNDS + 1 | Po_Take i \<Rightarrow> 3 * (PINGPONG_ROUNDS - i) + 1
   | Po_Count i \<Rightarrow> 3 * (PINGPONG_ROUNDS - i) | Po_Give i \<Rightarrow> 3 * (PINGPONG_ROUNDS - i) - 1 | Po_End \<Rightarrow> 0)"

definition pingpong_rank :: "'k pingpong \<Rightarrow> nat" where
  "pingpong_rank s = pinger_left (main_at s) + ponger_left (ponger_at s)"

lemma pinger_moves:
  assumes sem: "counting_sem sem_init sem_give sem_take count limit" and pin: "pin_rc 1 = 0"
    and inv: "turn_inv count limit s" and step: "test_ping_pong pin_rc sem_init sem_give sem_take s = Some s'"
  shows "main_at s' = M_End True \<or> turn_inv count limit s' \<and> pingpong_rank s' < pingpong_rank s"
proof -
  note laws = sem_laws [OF sem]
  show ?thesis
  proof (cases "main_at s")
    case (M_Take i)
    with step obtain k where k: "sem_take (pong_sem s) = Some k" "s' = s\<lparr>pong_sem := k, main_at := M_Give (Suc i)\<rparr>"
      by (auto simp: test_ping_pong_def)
    from laws(7) [OF k(1)] inv M_Take k(2) show ?thesis
      by (auto simp: turn_inv_def sems_def ponger_before_def pingpong_rank_def pinger_left_def)
  qed (use inv step pin in \<open>auto simp: laws(1,2) [unfolded One_nat_def] laws(3,4) turn_inv_def test_ping_pong_def sems_def ponger_before_def pingpong_rank_def pinger_left_def
      ponger_left_def split: if_splits\<close>)
qed

lemma ponger_moves:
  assumes sem: "counting_sem sem_init sem_give sem_take count limit"
    and inv: "turn_inv count limit s" and step: "ponger_entry sem_give sem_take s = Some s'"
  shows "turn_inv count limit s' \<and> pingpong_rank s' < pingpong_rank s"
proof -
  note laws = sem_laws [OF sem]
  show ?thesis
  proof (cases "ponger_at s")
    case (Po_Take i)
    show ?thesis
    proof (cases "i < PINGPONG_ROUNDS")
      case True
      with step Po_Take obtain k where k: "sem_take (ping_sem s) = Some k" "s' = s\<lparr>ping_sem := k, ponger_at := Po_Count i\<rparr>"
        by (auto simp: ponger_entry_def)
      from laws(7) [OF k(1)] inv Po_Take k(2) True show ?thesis
        by (cases "main_at s") (auto simp: turn_inv_def sems_def ponger_before_def pingpong_rank_def ponger_left_def)
    next
      case False
      with step Po_Take inv show ?thesis
        by (cases "main_at s")
          (auto simp: ponger_entry_def turn_inv_def sems_def ponger_before_def pingpong_rank_def ponger_left_def)
    qed
  next
    case (Po_Count i)
    with step inv show ?thesis
      by (cases "main_at s")
        (auto simp: ponger_entry_def turn_inv_def sems_def ponger_before_def pingpong_rank_def ponger_left_def
          inc32_def PINGPONG_ROUNDS_def)
  next
    case (Po_Give i)
    with step inv show ?thesis
      by (cases "main_at s")
        (auto simp: laws(1-4) ponger_entry_def turn_inv_def sems_def ponger_before_def pingpong_rank_def ponger_left_def)
  qed (use step in \<open>simp_all add: ponger_entry_def\<close>)
qed

lemma someone_moves:
  assumes sem: "counting_sem sem_init sem_give sem_take count limit" and inv: "turn_inv count limit s"
  shows "test_ping_pong pin_rc sem_init sem_give sem_take s \<noteq> None \<or> ponger_entry sem_give sem_take s \<noteq> None"
proof (cases "main_at s")
  case (M_Take i)
  with inv consider "sems count limit 1 0 s" "ponger_at s = Po_Take i" "i < PINGPONG_ROUNDS" | "ponger_at s = Po_Count i"
    | "ponger_at s = Po_Give i" | "sems count limit 0 1 s" by (auto simp: turn_inv_def)
  then show ?thesis
    using M_Take sem_laws(6) [OF sem, of "ping_sem s"] sem_laws(6) [OF sem, of "pong_sem s"]
    by cases (auto simp: sems_def ponger_entry_def test_ping_pong_def)
next
  case M_Join
  with inv show ?thesis by (auto simp: turn_inv_def ponger_before_def ponger_entry_def test_ping_pong_def)
qed (use inv in \<open>simp_all add: turn_inv_def test_ping_pong_def\<close>)

lemma pingpong_progress:
  assumes sem: "counting_sem sem_init sem_give sem_take count limit" and pin: "pin_rc 1 = 0"
  shows "progress (pingpong_step True pin_rc sem_init sem_give sem_take) (turn_inv count limit)
    (\<lambda>s. main_at s = M_End True) pingpong_rank"
proof
  show "\<exists>s'. pingpong_step True pin_rc sem_init sem_give sem_take s s'" if "turn_inv count limit s" for s
    using someone_moves [OF sem that, of pin_rc] by (blast intro: pingpong_step.intros)
  show "main_at s' = M_End True \<or> turn_inv count limit s' \<and> pingpong_rank s' < pingpong_rank s"
    if "turn_inv count limit s" "pingpong_step True pin_rc sem_init sem_give sem_take s s'" for s s'
    using that(2,1)
  proof cases
    case pinger
    then show ?thesis by (rule pinger_moves [of _ _ _ _ _ pin_rc, OF sem pin that(1)])
  next
    case ponger
    then show ?thesis using ponger_moves [OF sem that(1)] by blast
  qed simp_all
  show "main_at s' = M_End True" if "main_at s = M_End True" "pingpong_step True pin_rc sem_init sem_give sem_take s s'" for s s'
    using that(2,1)
    by cases (auto simp: test_ping_pong_def ponger_entry_def split: ponger_loc.splits if_splits)
qed

section \<open>Properties\<close>

text \<open>
  C16. P4.2 of the Zephyr suite, in both directions, on a weakly ordered memory: it is the order of the atomic operations that makes the tests
  pass, the release of \<open>atomic_set\<close> together with the acquire of \<open>atomic_get\<close>, both documented by the kernel. With both, although the
  producer's stores become visible and the consumer's loads are performed in any order otherwise, a consumer that sees the flag sees every word:
  the tests fail only if the consumer polled the flag more than \<open>SPIN_LIMIT\<close> times in vain, and from every state the pass (or
  that excuse) can still be reached. Without one of them the tests can fail although the flag is seen at the first poll. The threads can be
  pinned to their CPUs, and no join runs into its time limit.
\<close>

theorem fence_tests_pass:
  assumes "ops = test_fence_producer_consumer \<or> ops = test_fence_producer_consumer_rev" "pin_rc 0 = 0" "pin_rc 1 = 0"
    and "test_begins publish_begins ops m"
  shows "if release \<and> acquire
    then \<forall>m'. (test_step True pin_rc (publish_prog release acquire) publish_done)\<^sup>*\<^sup>* m m' \<longrightarrow>
      (outcome m' = Some False \<longrightarrow> spins (shared m') = SPIN_LIMIT + 1) \<and>
      (consumer_at (shared m') = C_End \<and> spins (shared m') \<le> SPIN_LIMIT \<longrightarrow> consumer_bad_words (shared m') = 0) \<and>
      (\<exists>m''. (test_step True pin_rc (publish_prog release acquire) publish_done)\<^sup>*\<^sup>* m' m'' \<and>
         (outcome m'' = Some True \<or> spins (shared m'') = SPIN_LIMIT + 1))
    else \<exists>m'. (test_step True pin_rc (publish_prog release acquire) publish_done)\<^sup>*\<^sup>* m m' \<and>
      outcome m' = Some False \<and> spins (shared m') = 0"
proof -
  from assms(1-3) obtain cpu where ops: "ops = fence_test cpu" and pin: "\<forall>w. pin_rc (cpu w) = 0"
  proof cases
    assume "ops = test_fence_producer_consumer"
    with assms(2,3) that show thesis by (auto simp: test_fence_producer_consumer_def split: worker.split)
  next
    assume "ops \<noteq> test_fence_producer_consumer"
    with assms(1-3) that show thesis by (auto simp: test_fence_producer_consumer_rev_def split: worker.split)
  qed
  show ?thesis
  proof (cases "release \<and> acquire")
    case True
    then have o: "release = True" "acquire = True" by simp_all
    show ?thesis unfolding o using ordered_passes [where cpu = cpu and pin_rc = pin_rc] pin assms(4) ops by simp
  next
    case False
    from unordered_fails [where cpu = cpu and pin_rc = pin_rc and r = release and a = acquire and m = m and p = True] pin False assms(4) ops
    show ?thesis by (simp only: if_False) blast
  qed
qed

text \<open>
  C18. P4.5 of the Zephyr suite: over any counting semaphores the two threads alternate strictly. As long as no wait runs
  into its time limit, one of them can move until the test has passed, it has passed after at most 106
  moves whatever their order, and it never fails.
\<close>

theorem ping_pong_passes:
  assumes "counting_sem sem_init sem_give sem_take count limit" "pin_rc 1 = 0" "pingpong_begins s"
    and "(pingpong_step True pin_rc sem_init sem_give sem_take ^^ n) s s'"
  shows "main_at s' = M_End True \<or>
    main_at s' \<noteq> M_End False \<and> n \<le> 106 \<and> (\<exists>s''. pingpong_step True pin_rc sem_init sem_give sem_take s' s'')"
proof -
  have p: "progress (pingpong_step True pin_rc sem_init sem_give sem_take) (turn_inv count limit)
    (\<lambda>s. main_at s = M_End True) pingpong_rank" using assms(1,2) by (rule pingpong_progress)
  have w: "turn_inv count limit s" and "pingpong_rank s = 106"
    using assms(3) by (auto simp: pingpong_begins_def turn_inv_def pingpong_rank_def pinger_left_def ponger_left_def PINGPONG_ROUNDS_def)
  with progress.goal_or_waiting [OF p assms(4)] progress.enabled [OF p, of s'] show ?thesis
    by (auto simp: turn_inv_def)
qed

text \<open>
  P4.1 of the Zephyr suite: a worker pinned to CPU 1 records CPU 1; the test never fails and can always still pass.
\<close>

theorem pinned_test_passes:
  assumes "pin_rc 1 = 0"
    and "reach (test_begins probe_begins test_thread_runs_on_second_cpu) (test_step True pin_rc record_cpu_entry probe_done) m"
  shows "outcome m \<noteq> Some False \<and>
    (\<exists>m'. (test_step True pin_rc record_cpu_entry probe_done)\<^sup>*\<^sup>* m m' \<and> outcome m' = Some True)"
  using probe.never_fails [OF assms(2) [unfolded test_thread_runs_on_second_cpu_def]]
    probe.can_pass [OF assms(2) [unfolded test_thread_runs_on_second_cpu_def]] assms(1) by auto

section \<open>Witnesses\<close>

definition demo_publish :: publish where
  "demo_publish = \<lparr>shared_buf = (\<lambda>i. 7), publish_flag = 1, consumer_bad_words = 3, pending = [], fetched = (\<lambda>i. None),
     producer_at = P_Fill 0, consumer_at = C_Poll, spins = 0\<rparr>"

theorem fence_tests_pass_witness:
  "(\<exists>m'. (test_step True (\<lambda>cpu. 0) (publish_prog True True) publish_done)\<^sup>*\<^sup>*
      (begin_with demo_publish test_fence_producer_consumer) m' \<and>
    (outcome m' = Some True \<or> spins (shared m') = SPIN_LIMIT + 1)) \<and>
   (\<exists>m'. (test_step True (\<lambda>cpu. 0) (publish_prog True False) publish_done)\<^sup>*\<^sup>*
      (begin_with demo_publish test_fence_producer_consumer) m' \<and> outcome m' = Some False)"
proof -
  let ?m = "begin_with demo_publish test_fence_producer_consumer"
  have b: "test_begins publish_begins test_fence_producer_consumer ?m"
    by (simp add: test_begins_def begin_with_def publish_begins_def demo_publish_def)
  note t = fence_tests_pass [OF _ _ _ b, of "\<lambda>cpu. 0"]
  show ?thesis
  proof
    show "\<exists>m'. (test_step True (\<lambda>cpu. 0) (publish_prog True True) publish_done)\<^sup>*\<^sup>* ?m m' \<and>
        (outcome m' = Some True \<or> spins (shared m') = SPIN_LIMIT + 1)"
      using t [of True True] by (simp only: simp_thms if_True)
    show "\<exists>m'. (test_step True (\<lambda>cpu. 0) (publish_prog True False) publish_done)\<^sup>*\<^sup>* ?m m' \<and> outcome m' = Some False"
      using t [of True False] by auto
  qed
qed

definition demo_pingpong :: "(nat \<times> nat) pingpong" where
  "demo_pingpong = \<lparr>ping_sem = (0, 0), pong_sem = (0, 0), pong_rounds = 5, main_at = M_Init, ponger_at = Po_New\<rparr>"

theorem ping_pong_passes_witness:
  "counting_sem Pair demo_give demo_take fst snd \<and>
   (\<exists>s. pingpong_step True (\<lambda>cpu. 0) Pair demo_give demo_take demo_pingpong s)"
proof -
  note sem = demo_sem
  have "pingpong_begins demo_pingpong" by (simp add: pingpong_begins_def demo_pingpong_def)
  from ping_pong_passes [OF sem _ this, of "\<lambda>cpu. 0" 0 demo_pingpong] sem show ?thesis
    by (simp add: demo_pingpong_def)
qed

theorem pinned_test_passes_witness:
  "\<exists>m'. (test_step True (\<lambda>cpu. 0) record_cpu_entry probe_done)\<^sup>*\<^sup>*
      (begin_with \<lparr>observed_cpu = 0, recorded = False\<rparr> test_thread_runs_on_second_cpu) m' \<and> outcome m' = Some True"
proof -
  have "reach (test_begins probe_begins test_thread_runs_on_second_cpu) (test_step True (\<lambda>cpu. 0) record_cpu_entry probe_done)
      (begin_with \<lparr>observed_cpu = 0, recorded = False\<rparr> test_thread_runs_on_second_cpu)"
    by (rule reach_init) (simp add: test_begins_def begin_with_def probe_begins_def)
  from pinned_test_passes [OF _ this] show ?thesis by simp
qed

end
