(* ===== verification/ZSanityTests.thy ===== *)
theory ZSanityTests
  imports Run
begin

text \<open>
  Phase 0 of the Zephyr suite, \<^verbatim>\<open>p0_sanity.c\<close>: the fatal error handler that settles an announced trap, the access
  to an address nothing answers at, the sweep over a kilobyte of words. The sweep reads and writes memory that may
  be broken: \<open>line i\<close> is the cell that answers for word \<open>i\<close>, \<open>cell c v\<close> what cell \<open>c\<close> gives back
  after \<open>v\<close> has been written to it.
\<close>

section \<open>The suite\<close>

record sanity =
  expect_trap :: bool
  want_scause :: u64
  want_stval :: u64
  live_scause :: u64
  live_stval :: u64
  p0_sstatus :: u64
  p0_passed :: "bool option"
  backed :: "u64 \<Rightarrow> bool"
  line :: "nat \<Rightarrow> nat"
  cell :: "nat \<Rightarrow> u64 \<Rightarrow> u64"
  stored :: "nat \<Rightarrow> u64"

definition EXC_LOAD_ACCESS :: u64 where "EXC_LOAD_ACCESS = 5"

definition p0_test_fail :: "sanity \<Rightarrow> sanity run" where
  "p0_test_fail s = Halt (s\<lparr>p0_passed := Some False\<rparr>)"

definition p0_test_pass :: "sanity \<Rightarrow> sanity run" where
  "p0_test_pass s = Halt (s\<lparr>p0_passed := Some True\<rparr>)"

definition p0_fatal_error_handler :: "sanity \<Rightarrow> sanity run" where
  "p0_fatal_error_handler = block
     [\<lambda>s. if_do (\<not> expect_trap s) p0_test_fail s,
      exec (\<lambda>s. s\<lparr>expect_trap := False\<rparr>),
      \<lambda>s. if_do (live_scause s \<noteq> want_scause s \<or> live_stval s \<noteq> want_stval s) p0_test_fail s,
      p0_test_pass]"

text \<open>A load: an address with nothing behind it raises the access fault, which ends in the handler.\<close>

definition p0_load :: "u64 \<Rightarrow> sanity \<Rightarrow> sanity run" where
  "p0_load a s =
     (if backed s a then Ret s else p0_fatal_error_handler (s\<lparr>live_scause := EXC_LOAD_ACCESS, live_stval := a\<rparr>))"

definition test_trap_is_caught :: "sanity \<Rightarrow> sanity run" where
  "test_trap_is_caught = block
     [exec (\<lambda>s. s\<lparr>want_scause := EXC_LOAD_ACCESS, want_stval := 0xC0000000, expect_trap := True\<rparr>),
      p0_load 0xC0000000,
      p0_test_fail]"

definition test_csr_read_sstatus :: "sanity \<Rightarrow> sanity run" where
  "test_csr_read_sstatus s =
     (let uxl = drop_bit 32 (p0_sstatus s) AND 3 in if uxl = 2 then Ret s else p0_test_fail s)"

text \<open>The firmware is the kernel's: \<open>sbi a0 a1 a6 a7\<close> is the pair of \<open>a0\<close> and \<open>a1\<close> behind the \<open>ecall\<close>.\<close>

definition SBI_ERR_NOT_SUPPORTED :: u64 where "SBI_ERR_NOT_SUPPORTED = - 2"

definition test_ecall_smode_sbi :: "(u64 \<Rightarrow> u64 \<Rightarrow> u64 \<Rightarrow> u64 \<Rightarrow> u64 \<times> u64) \<Rightarrow> sanity \<Rightarrow> sanity run" where
  "test_ecall_smode_sbi sbi s =
     (case sbi 0 0 0 0xFF of (a0, a1) \<Rightarrow> if a0 = SBI_ERR_NOT_SUPPORTED then Ret s else p0_test_fail s)"

definition SWEEP_WORDS :: nat where "SWEEP_WORDS = 1024"

definition sweep_pattern :: "nat \<Rightarrow> u64" where
  "sweep_pattern i = 0xA5A5A5A500000000 OR of_nat i"

definition sweep_word :: "(nat \<Rightarrow> u64) \<Rightarrow> nat \<Rightarrow> sanity \<Rightarrow> sanity" where
  "sweep_word f i s = s\<lparr>stored := (stored s)(line s i := f i)\<rparr>"

definition sweep_write :: "(nat \<Rightarrow> u64) \<Rightarrow> sanity \<Rightarrow> sanity" where
  "sweep_write f s = fold (sweep_word f) [0..<SWEEP_WORDS] s"

definition sweep_read :: "sanity \<Rightarrow> nat \<Rightarrow> u64" where
  "sweep_read s i = cell s (line s i) (stored s (line s i))"

definition sweep_verify :: "(nat \<Rightarrow> u64) \<Rightarrow> sanity \<Rightarrow> sanity run" where
  "sweep_verify f = block (map (\<lambda>i s. if sweep_read s i = f i then Ret s else p0_test_fail s) [0..<SWEEP_WORDS])"

definition test_sram_rw_sweep :: "sanity \<Rightarrow> sanity run" where
  "test_sram_rw_sweep = block
     [exec (sweep_write sweep_pattern),
      sweep_verify sweep_pattern,
      exec (sweep_write (\<lambda>i. NOT (sweep_pattern i))),
      sweep_verify (\<lambda>i. NOT (sweep_pattern i))]"

definition p0_passes :: "sanity run \<Rightarrow> bool" where
  "p0_passes r = (case r of Ret s \<Rightarrow> True | Halt s \<Rightarrow> p0_passed s = Some True | Hang \<Rightarrow> False)"

section \<open>The sweep\<close>

lemma verify_iff:
  "block (map (\<lambda>i s. if sweep_read s i = f i then Ret s else p0_test_fail s) is) s =
     (if \<forall>i\<in>set is. sweep_read s i = f i then Ret s else Halt (s\<lparr>p0_passed := Some False\<rparr>))"
  by (induction "is") (auto simp: block_Cons p0_test_fail_def)

lemma sweep_word_simps [simp]:
  "line (sweep_word f i s) = line s" "cell (sweep_word f i s) = cell s"
  "stored (sweep_word f i s) c = (if c = line s i then f i else stored s c)"
  by (simp_all add: sweep_word_def)

lemma sweep_frame:
  "line (fold (sweep_word f) is s) = line s"
  "cell (fold (sweep_word f) is s) = cell s"
  by (induction "is" arbitrary: s) simp_all

lemma sweep_stored:
  assumes "inj_on (line s) (set is)" "distinct is" "i \<in> set is"
  shows "stored (fold (sweep_word f) is s) (line s i) = f i"
  using assms
proof (induction "is" arbitrary: s rule: rev_induct)
  case (snoc j js)
  show ?case
  proof (cases "i = j")
    case False
    with snoc.prems have i: "i \<in> set js" and inj: "inj_on (line s) (set js)" "distinct js" by (auto intro: inj_on_subset)
    from False inj_onD [OF snoc.prems(1), of i j] snoc.prems(3) have "line s i \<noteq> line s j" by auto
    with snoc.IH [OF inj i] show ?thesis by (simp add: sweep_frame)
  qed (simp add: sweep_frame)
qed simp

lemma sweep_pattern_inj: "i < SWEEP_WORDS \<Longrightarrow> j < SWEEP_WORDS \<Longrightarrow> sweep_pattern i = sweep_pattern j \<Longrightarrow> i = j"
proof -
  assume i: "i < SWEEP_WORDS" "j < SWEEP_WORDS" and eq: "sweep_pattern i = sweep_pattern j"
  have p: "sweep_pattern k AND mask 32 = of_nat k" if "k < SWEEP_WORDS" for k
  proof -
    have "sweep_pattern k AND mask 32 = take_bit 32 (of_nat k)"
      by (simp add: sweep_pattern_def bit.conj_disj_distrib2 mask_eq_exp_minus_1 take_bit_eq_mask)
    also have "\<dots> = of_nat (take_bit 32 k)" by (simp add: take_bit_of_nat)
    finally show ?thesis using that by (simp add: SWEEP_WORDS_def take_bit_nat_eq_self)
  qed
  from p [OF i(1)] p [OF i(2)] eq have "(of_nat i :: u64) = of_nat j" by simp
  with i show "i = j" by (simp add: SWEEP_WORDS_def word_of_nat_eq_iff take_bit_nat_eq_self)
qed

text \<open>A cell with bits stuck at one (\<open>ones\<close>) or at zero (\<open>zeros\<close>) cannot give back a pattern and its complement.\<close>

lemma stuck_cell:
  fixes p :: u64
  assumes "(p OR ones) AND NOT zeros = p" "(NOT p OR ones) AND NOT zeros = NOT p"
  shows "ones = 0" "zeros = 0"
proof -
  have b: "\<not> bit zeros n \<and> \<not> bit ones n" if "n < 64" for n
  proof -
    from assms have "bit ((p OR ones) AND NOT zeros) n = bit p n" "bit ((NOT p OR ones) AND NOT zeros) n = bit (NOT p) n" by simp_all
    with that show ?thesis by (auto simp: bit_simps)
  qed
  show "ones = 0" "zeros = 0" by (rule bit_word_eqI; use b in simp)+
qed

lemma sweep_sound:
  assumes "\<forall>i<SWEEP_WORDS. sweep_read (sweep_write f s) i = f i" "inj_on f {..<SWEEP_WORDS}"
  shows "inj_on (line s) {..<SWEEP_WORDS}"
proof (rule inj_onI)
  fix i j assume ij: "i \<in> {..<SWEEP_WORDS}" "j \<in> {..<SWEEP_WORDS}" "line s i = line s j"
  have "sweep_read (sweep_write f s) i = sweep_read (sweep_write f s) j"
    using ij(3) by (simp add: sweep_read_def sweep_write_def sweep_frame)
  with assms(1) ij(1,2) have "f i = f j" by auto
  with assms(2) ij(1,2) show "i = j" by (auto dest: inj_onD)
qed

lemma sweep_exact:
  assumes "inj_on (line s) {..<SWEEP_WORDS}" "i < SWEEP_WORDS"
  shows "sweep_read (sweep_write f s) i = cell s (line s i) (f i)"
  using assms sweep_stored [of s "[0..<SWEEP_WORDS]" i f]
  by (simp add: sweep_read_def sweep_write_def sweep_frame atLeast0LessThan)

lemma sweep_run:
  "p0_passes (test_sram_rw_sweep s) \<longleftrightarrow>
     (\<forall>i<SWEEP_WORDS. sweep_read (sweep_write sweep_pattern s) i = sweep_pattern i) \<and>
     (\<forall>i<SWEEP_WORDS. sweep_read (sweep_write (\<lambda>i. NOT (sweep_pattern i)) (sweep_write sweep_pattern s)) i = NOT (sweep_pattern i))"
  by (auto simp: test_sram_rw_sweep_def sweep_verify_def verify_iff p0_passes_def)

lemma two_bits: "(w :: u64) AND mask 2 = 2 \<longleftrightarrow> bit w 1 \<and> \<not> bit w 0"
proof -
  have two: "bit (2 :: u64) n \<longleftrightarrow> n = 1" for n using bit_exp_iff [of 1 n, where 'a = u64] by auto
  show ?thesis
  proof
    assume "w AND mask 2 = 2"
    then have "bit (w AND mask 2) n = bit (2 :: u64) n" for n by simp
    from this [of 0] this [of 1] show "bit w 1 \<and> \<not> bit w 0" by (simp add: two bit_and_iff bit_mask_iff)
  next
    assume b: "bit w 1 \<and> \<not> bit w 0"
    show "w AND mask 2 = 2"
    proof (rule bit_word_eqI)
      fix n show "bit (w AND mask 2) n = bit (2 :: u64) n"
        using b two [of n] by (cases "n = 0 \<or> n = 1") (auto simp: bit_and_iff bit_mask_iff)
    qed
  qed
qed

section \<open>Properties\<close>

text \<open>
  C23. The memory sweep of P0.4 passes exactly on sound memory: on memory whose cells may have any bits stuck at one or at zero
  and whose address lines may select the same cell for different words, the test passes if and only
  if each of the 1024 words has a cell of its own and no bit of these cells is stuck.
\<close>

theorem sram_sweep_exact:
  assumes "\<And>c v. cell s c v = (v OR ones c) AND NOT (zeros c)"
  shows "p0_passes (test_sram_rw_sweep s) \<longleftrightarrow>
    inj_on (line s) {..<SWEEP_WORDS} \<and> (\<forall>i<SWEEP_WORDS. ones (line s i) = 0 \<and> zeros (line s i) = 0)"
proof -
  have frame: "line (sweep_write f s) = line s" "cell (sweep_write f s) = cell s" for f
    by (simp_all add: sweep_write_def sweep_frame)
  have inj: "inj_on sweep_pattern {..<SWEEP_WORDS}" by (auto intro: inj_onI sweep_pattern_inj)
  show ?thesis
  proof (cases "inj_on (line s) {..<SWEEP_WORDS}")
    case True
    then have "p0_passes (test_sram_rw_sweep s) \<longleftrightarrow> (\<forall>i<SWEEP_WORDS.
        (sweep_pattern i OR ones (line s i)) AND NOT (zeros (line s i)) = sweep_pattern i \<and>
        (NOT (sweep_pattern i) OR ones (line s i)) AND NOT (zeros (line s i)) = NOT (sweep_pattern i))"
      by (auto simp: sweep_run sweep_exact frame assms)
    also have "\<dots> \<longleftrightarrow> (\<forall>i<SWEEP_WORDS. ones (line s i) = 0 \<and> zeros (line s i) = 0)"
      by (auto intro: stuck_cell(1) [of "sweep_pattern i" for i] stuck_cell(2) [of "sweep_pattern i" for i])
    finally show ?thesis using True by simp
  next
    case False
    with sweep_sound [OF _ inj, of s] show ?thesis by (auto simp: sweep_run)
  qed
qed

text \<open>
  The other tests of phase 0 decide what they are meant to decide: the trap test passes exactly if nothing answers
  at its address, and then because the handler finds the announced cause and address; an unannounced trap fails
  whatever test is running; the CSR test passes exactly if bits 33 and 32 of \<open>sstatus\<close> read 10, and the
  \<open>ecall\<close> test exactly if the firmware answers "not supported" in \<open>a0\<close>, whatever it leaves in \<open>a1\<close>.
\<close>

theorem p0_tests_decide:
  "(p0_passes (test_trap_is_caught s) \<longleftrightarrow> \<not> backed s 0xC0000000) \<and>
   (expect_trap s \<or> backed s a \<or> \<not> p0_passes (p0_load a s)) \<and>
   (p0_passes (test_csr_read_sstatus s) \<longleftrightarrow> bit (p0_sstatus s) 33 \<and> \<not> bit (p0_sstatus s) 32) \<and>
   (p0_passes (test_ecall_smode_sbi sbi s) \<longleftrightarrow> fst (sbi 0 0 0 0xFF) = - 2)"
proof -
  have "p0_passes (test_csr_read_sstatus s) \<longleftrightarrow> drop_bit 32 (p0_sstatus s) AND mask 2 = 2"
    by (simp add: test_csr_read_sstatus_def p0_test_fail_def p0_passes_def mask_eq_exp_minus_1)
  also have "\<dots> \<longleftrightarrow> bit (p0_sstatus s) 33 \<and> \<not> bit (p0_sstatus s) 32"
    using two_bits [of "drop_bit 32 (p0_sstatus s)"] by (simp add: bit_simps)
  finally show ?thesis
    by (auto simp: test_trap_is_caught_def p0_load_def p0_fatal_error_handler_def p0_test_fail_def p0_test_pass_def p0_passes_def
      block_Cons if_do_def test_ecall_smode_sbi_def SBI_ERR_NOT_SUPPORTED_def case_prod_unfold)
qed

definition demo_sanity :: sanity where
  "demo_sanity = \<lparr>expect_trap = False, want_scause = 0, want_stval = 0, live_scause = 0, live_stval = 0, p0_sstatus = 0x200000000, p0_passed = None,
     backed = (\<lambda>a. a < 0xC0000000), line = (\<lambda>i. i), cell = (\<lambda>c v. v OR (if c = 7 then 4 else 0)), stored = (\<lambda>c. 0)\<rparr>"

theorem sram_sweep_exact_witness: "\<not> p0_passes (test_sram_rw_sweep demo_sanity)"
  using sram_sweep_exact [of demo_sanity "\<lambda>c. if c = 7 then 4 else 0" "\<lambda>c. 0"]
  by (auto simp: demo_sanity_def SWEEP_WORDS_def dest: spec [of _ 7])

theorem p0_tests_decide_witness:
  "p0_passes (test_trap_is_caught demo_sanity) \<and> p0_passes (test_csr_read_sstatus demo_sanity)"
  using p0_tests_decide [of demo_sanity] by (simp add: demo_sanity_def)

end
