(* ===== verification/ZAtomicTests.thy ===== *)
theory ZAtomicTests
  imports Atomics
begin

text \<open>
  Phase 3 of the Zephyr suite, \<^verbatim>\<open>p3_atomics.c\<close>. The tests of the portable atomic API are stated over any API that
  does what its documentation says (the locale \<open>atomic_api\<close>); the instructions the bare-metal suite wraps are such
  an API, as the comment at the head of the file claims. The raw LR/SC and 32-bit tests use the
  instructions directly.
\<close>

section \<open>The tests of the API\<close>

text \<open>An \<open>'m\<close> is a memory with the test's \<open>atomic_t\<close> at its place; an operation gives its result and the changed
  memory.\<close>

record 'm api =
  atomic_init :: "'m \<Rightarrow> u64 \<Rightarrow> 'm"
  atomic_get :: "'m \<Rightarrow> u64"
  atomic_cas :: "'m \<Rightarrow> u64 \<Rightarrow> u64 \<Rightarrow> bool \<times> 'm"
  atomic_swap :: "'m \<Rightarrow> u64 \<Rightarrow> u64 \<times> 'm"
  atomic_set :: "'m \<Rightarrow> u64 \<Rightarrow> u64 \<times> 'm"
  atomic_add :: "'m \<Rightarrow> u64 \<Rightarrow> u64 \<times> 'm"
  atomic_sub :: "'m \<Rightarrow> u64 \<Rightarrow> u64 \<times> 'm"
  atomic_inc :: "'m \<Rightarrow> u64 \<times> 'm"
  atomic_dec :: "'m \<Rightarrow> u64 \<times> 'm"
  atomic_or :: "'m \<Rightarrow> u64 \<Rightarrow> u64 \<times> 'm"
  atomic_and :: "'m \<Rightarrow> u64 \<Rightarrow> u64 \<times> 'm"
  atomic_xor :: "'m \<Rightarrow> u64 \<Rightarrow> u64 \<times> 'm"
  atomic_max :: "'m \<Rightarrow> u64 \<Rightarrow> u64 \<times> 'm"
  atomic_min :: "'m \<Rightarrow> u64 \<Rightarrow> u64 \<times> 'm"
  atomic_maxu :: "'m \<Rightarrow> u64 \<Rightarrow> u64 \<times> 'm"
  atomic_minu :: "'m \<Rightarrow> u64 \<Rightarrow> u64 \<times> 'm"

text \<open>A test is the conjunction of its assertions, in the order in which they are made.\<close>

definition test_cas :: "'m api \<Rightarrow> 'm \<Rightarrow> bool" where
  "test_cas A m \<longleftrightarrow>
     (let v = atomic_init A m 42; (ok, v) = atomic_cas A v 41 99
      in \<not> ok \<and> atomic_get A v = 42 \<and> (let (ok, v) = atomic_cas A v 42 99 in ok \<and> atomic_get A v = 99))"

definition test_swap_set :: "'m api \<Rightarrow> 'm \<Rightarrow> bool" where
  "test_swap_set A m \<longleftrightarrow>
     (let v = atomic_init A m 21; (r, v) = atomic_swap A v 7
      in r = 21 \<and> atomic_get A v = 7 \<and> (let (r, v) = atomic_set A v (- 5) in r = 7 \<and> atomic_get A v = - 5))"

definition test_add_sub :: "'m api \<Rightarrow> 'm \<Rightarrow> bool" where
  "test_add_sub A m \<longleftrightarrow>
     (let v = atomic_init A m 100; (r, v) = atomic_add A v 23
      in r = 100 \<and> atomic_get A v = 123 \<and>
     (let (r, v) = atomic_sub A v 24
      in r = 123 \<and> atomic_get A v = 99 \<and>
     (let (r, v) = atomic_inc A v; (r', v) = atomic_dec A v
      in r = 99 \<and> r' = 100 \<and> atomic_get A v = 99 \<and>
     (let (r, v) = atomic_set A v 0x100000000; (r, v) = atomic_add A v 1 in atomic_get A v = 0x100000001))))"

definition test_bitwise :: "'m api \<Rightarrow> 'm \<Rightarrow> bool" where
  "test_bitwise A m \<longleftrightarrow>
     (let v = atomic_init A m 0xF0F0; (r, v) = atomic_or A v 0x0F0F
      in r = 0xF0F0 \<and> atomic_get A v = 0xFFFF \<and>
     (let (r, v) = atomic_and A v 0xFF00
      in r = 0xFFFF \<and> atomic_get A v = 0xFF00 \<and>
     (let (r, v) = atomic_xor A v 0xFFFF in r = 0xFF00 \<and> atomic_get A v = 0x00FF)))"

definition test_min_max_signed :: "'m api \<Rightarrow> 'm \<Rightarrow> bool" where
  "test_min_max_signed A m \<longleftrightarrow>
     (let v = atomic_init A m 5; (r, v) = atomic_max A v (- 8)
      in r = 5 \<and> atomic_get A v = 5 \<and> (let (r, v) = atomic_min A v (- 8) in r = 5 \<and> atomic_get A v = - 8))"

definition test_min_max_unsigned :: "'m api \<Rightarrow> 'm \<Rightarrow> bool" where
  "test_min_max_unsigned A m \<longleftrightarrow>
     (let u = atomic_init A m 5; (r, u) = atomic_maxu A u 0xFFFFFFFF00000000
      in r = 5 \<and> atomic_get A u = 0xFFFFFFFF00000000 \<and>
     (let u = atomic_init A u 5; (r, u) = atomic_minu A u 0xFFFFFFFF00000000 in r = 5 \<and> atomic_get A u = 5))"

section \<open>The tests of the instructions\<close>

text \<open>The file's own wrappers. The 32-bit ones come from one macro and all take an unsigned operand.\<close>

definition lr_d_z :: "u64 \<Rightarrow> 'z amach_scheme \<Rightarrow> u64 \<times> 'z amach_scheme" where
  "lr_d_z p s = (mem s p, s\<lparr>resv := Some p\<rparr>)"

definition lr_d_aq_z :: "u64 \<Rightarrow> 'z amach_scheme \<Rightarrow> u64 \<times> 'z amach_scheme" where
  "lr_d_aq_z = lr_d_z"

definition sc_d_z :: "u64 \<Rightarrow> u64 \<Rightarrow> 'z amach_scheme \<Rightarrow> u64 \<times> 'z amach_scheme" where
  "sc_d_z p v s =
     (let s' = s\<lparr>resv := None, sc_spurious := (\<lambda>n. sc_spurious s (Suc n))\<rparr>
      in if resv s = Some p \<and> \<not> sc_spurious s 0 then (0, st64 p v s') else (1, s'))"

definition sc_d_rl_z :: "u64 \<Rightarrow> u64 \<Rightarrow> 'z amach_scheme \<Rightarrow> u64 \<times> 'z amach_scheme" where
  "sc_d_rl_z = sc_d_z"

definition DEF_AMO_W :: "(u32 \<Rightarrow> u32 \<Rightarrow> u32) \<Rightarrow> u64 \<Rightarrow> u32 \<Rightarrow> 'z phys_scheme \<Rightarrow> u32 \<times> 'z phys_scheme" where
  "DEF_AMO_W instr p v s = (ld32 s p, st32 p (instr (ld32 s p) v) s)"

definition amo_swap_w_z :: "u64 \<Rightarrow> u32 \<Rightarrow> 'z phys_scheme \<Rightarrow> u32 \<times> 'z phys_scheme" where
  "amo_swap_w_z = DEF_AMO_W (\<lambda>r v. v)"

definition amo_add_w_z :: "u64 \<Rightarrow> u32 \<Rightarrow> 'z phys_scheme \<Rightarrow> u32 \<times> 'z phys_scheme" where
  "amo_add_w_z = DEF_AMO_W (+)"

definition amo_and_w_z :: "u64 \<Rightarrow> u32 \<Rightarrow> 'z phys_scheme \<Rightarrow> u32 \<times> 'z phys_scheme" where
  "amo_and_w_z = DEF_AMO_W (AND)"

definition amo_or_w_z :: "u64 \<Rightarrow> u32 \<Rightarrow> 'z phys_scheme \<Rightarrow> u32 \<times> 'z phys_scheme" where
  "amo_or_w_z = DEF_AMO_W (OR)"

definition amo_xor_w_z :: "u64 \<Rightarrow> u32 \<Rightarrow> 'z phys_scheme \<Rightarrow> u32 \<times> 'z phys_scheme" where
  "amo_xor_w_z = DEF_AMO_W (XOR)"

definition amo_min_w_z :: "u64 \<Rightarrow> u32 \<Rightarrow> 'z phys_scheme \<Rightarrow> u32 \<times> 'z phys_scheme" where
  "amo_min_w_z = DEF_AMO_W (\<lambda>r v. if sint r \<le> sint v then r else v)"

definition amo_max_w_z :: "u64 \<Rightarrow> u32 \<Rightarrow> 'z phys_scheme \<Rightarrow> u32 \<times> 'z phys_scheme" where
  "amo_max_w_z = DEF_AMO_W (\<lambda>r v. if sint v \<le> sint r then r else v)"

definition amo_minu_w_z :: "u64 \<Rightarrow> u32 \<Rightarrow> 'z phys_scheme \<Rightarrow> u32 \<times> 'z phys_scheme" where
  "amo_minu_w_z = DEF_AMO_W min"

definition amo_maxu_w_z :: "u64 \<Rightarrow> u32 \<Rightarrow> 'z phys_scheme \<Rightarrow> u32 \<times> 'z phys_scheme" where
  "amo_maxu_w_z = DEF_AMO_W max"

lemmas amo_w_z_defs = amo_swap_w_z_def amo_add_w_z_def amo_and_w_z_def amo_or_w_z_def amo_xor_w_z_def amo_min_w_z_def
  amo_max_w_z_def amo_minu_w_z_def amo_maxu_w_z_def DEF_AMO_W_def

text \<open>The interrupt lock around each pair keeps the reservation: nothing happens between the two instructions.\<close>

definition test_p3_1_lr_sc :: "u64 \<Rightarrow> 'z amach_scheme \<Rightarrow> bool" where
  "test_p3_1_lr_sc atom s \<longleftrightarrow>
     (let (old, s) = lr_d_z atom s; (sc, s) = sc_d_z atom 0xAABBCCDDEEFF0011 s
      in old = 0x1122334455667788 \<and> sc = 0 \<and> mem s atom = 0xAABBCCDDEEFF0011 \<and>
     (let (old, s) = lr_d_aq_z atom s; (sc, s) = sc_d_rl_z atom 0x0102030405060708 s
      in old = 0xAABBCCDDEEFF0011 \<and> sc = 0 \<and> mem s atom = 0x0102030405060708))"

definition test_p3_3_amo_w :: "u64 \<Rightarrow> 'z phys_scheme \<Rightarrow> bool" where
  "test_p3_3_amo_w a s \<longleftrightarrow>
     (let s = st32 a 0x10 s; (r, s) = amo_swap_w_z a 0x77 s
      in r = 0x10 \<and> ld32 s a = 0x77 \<and>
     (let (r, s) = amo_add_w_z a 0x09 s
      in r = 0x77 \<and> ld32 s a = 0x80 \<and>
     (let (r, s) = amo_and_w_z a 0x0F s
      in r = 0x80 \<and> ld32 s a = 0 \<and>
     (let (r, s) = amo_or_w_z a 0x33 s
      in r = 0 \<and> ld32 s a = 0x33 \<and>
     (let (r, s) = amo_xor_w_z a 0x55 s
      in r = 0x33 \<and> ld32 s a = 0x66 \<and>
     (let s = st32 a 5 s; (r, s) = amo_min_w_z a (- 2) s
      in r = 5 \<and> sint (ld32 s a) = - 2 \<and>
     (let (r, s) = amo_max_w_z a 7 s
      in sint r = - 2 \<and> sint (ld32 s a) = 7 \<and>
     (let s = st32 a 5 s; (r, s) = amo_maxu_w_z a (- 3) s
      in r = 5 \<and> ld32 s a = - 3 \<and>
     (let s = st32 a (- 3) s; (r, s) = amo_minu_w_z a 5 s
      in r = - 3 \<and> ld32 s a = 5)))))))))"

section \<open>What the API promises\<close>

locale atomic_api =
  fixes A :: "'m api" and usable :: "'m \<Rightarrow> bool"
  assumes init: "usable m \<Longrightarrow> usable (atomic_init A m v)" "usable m \<Longrightarrow> atomic_get A (atomic_init A m v) = v"
    and cas: "usable m \<Longrightarrow> fst (atomic_cas A m e d) = (atomic_get A m = e)"
      "usable m \<Longrightarrow> atomic_get A (snd (atomic_cas A m e d)) = (if atomic_get A m = e then d else atomic_get A m)"
      "usable m \<Longrightarrow> usable (snd (atomic_cas A m e d))"
    and old: "(f, h) \<in> {(atomic_swap A, \<lambda>x v. v), (atomic_set A, \<lambda>x v. v), (atomic_add A, (+)), (atomic_sub A, (-)),
        (atomic_or A, (OR)), (atomic_and A, (AND)), (atomic_xor A, (XOR)),
        (atomic_max A, \<lambda>x v. if sint v \<le> sint x then x else v), (atomic_min A, \<lambda>x v. if sint x \<le> sint v then x else v),
        (atomic_maxu A, max), (atomic_minu A, min), (\<lambda>m v. atomic_inc A m, \<lambda>x v. x + 1), (\<lambda>m v. atomic_dec A m, \<lambda>x v. x - 1)} \<Longrightarrow>
      usable m \<Longrightarrow> fst (f m v) = atomic_get A m \<and> atomic_get A (snd (f m v)) = h (atomic_get A m) v \<and> usable (snd (f m v))"
begin

lemmas each = old [of "atomic_swap A" "\<lambda>x v. v", simplified] old [of "atomic_set A" "\<lambda>x v. v", simplified]
  old [of "atomic_add A" "(+)", simplified] old [of "atomic_sub A" "(-)", simplified]
  old [of "atomic_or A" "(OR)", simplified] old [of "atomic_and A" "(AND)", simplified] old [of "atomic_xor A" "(XOR)", simplified]
  old [of "atomic_max A" "\<lambda>x v. if sint v \<le> sint x then x else v", simplified]
  old [of "atomic_min A" "\<lambda>x v. if sint x \<le> sint v then x else v", simplified]
  old [of "atomic_maxu A" max, simplified] old [of "atomic_minu A" min, simplified]
  old [of "\<lambda>m v. atomic_inc A m" "\<lambda>x v. x + 1", simplified] old [of "\<lambda>m v. atomic_dec A m" "\<lambda>x v. x - 1", simplified]

lemma api_tests:
  assumes "usable m"
  shows "test_cas A m" "test_swap_set A m" "test_add_sub A m" "test_bitwise A m" "test_min_max_signed A m"
    "test_min_max_unsigned A m"
  using assms
  by (simp_all add: test_cas_def test_swap_set_def test_add_sub_def test_bitwise_def test_min_max_signed_def
    test_min_max_unsigned_def Let_def case_prod_unfold init cas each)

end

text \<open>
  The bare-metal suite's wrappers as an API, for a variable at \<open>a\<close>. Store-conditionals may fail without a reason, but not
  for ever, so that the loop of \<open>cas_d\<close> ends.
\<close>

definition suite_api :: "u64 \<Rightarrow> amach api" where
  "suite_api a = \<lparr>
     atomic_init = (\<lambda>m v. st64 a v m),
     atomic_get = (\<lambda>m. mem m a),
     atomic_cas = (\<lambda>m e d. case cas_d a e d m of None \<Rightarrow> (False, m) | Some (r, m') \<Rightarrow> (r = 1, m')),
     atomic_swap = (\<lambda>m v. amo_swap_d a v m), atomic_set = (\<lambda>m v. amo_swap_d a v m),
     atomic_add = (\<lambda>m v. amo_add_d a v m), atomic_sub = (\<lambda>m v. amo_add_d a (- v) m),
     atomic_inc = amo_add_d a 1, atomic_dec = amo_add_d a (- 1),
     atomic_or = (\<lambda>m v. amo_or_d a v m), atomic_and = (\<lambda>m v. amo_and_d a v m), atomic_xor = (\<lambda>m v. amo_xor_d a v m),
     atomic_max = (\<lambda>m v. amo_max_d a v m), atomic_min = (\<lambda>m v. amo_min_d a v m),
     atomic_maxu = (\<lambda>m v. amo_maxu_d a v m), atomic_minu = (\<lambda>m v. amo_minu_d a v m)\<rparr>"

definition sc_succeeds :: "'z amach_scheme \<Rightarrow> bool" where
  "sc_succeeds m \<longleftrightarrow> (\<forall>n. \<exists>k\<ge>n. \<not> sc_spurious m k)"

lemmas amo_d_defs = amo_swap_d_def amo_add_d_def amo_or_d_def amo_and_d_def amo_xor_d_def amo_max_d_def amo_min_d_def
  amo_maxu_d_def amo_minu_d_def amo_d_def

lemma sc_succeeds_cong: "sc_spurious m' = sc_spurious m \<Longrightarrow> sc_succeeds m' = sc_succeeds m"
  by (simp add: sc_succeeds_def)

lemma sc_succeeds_later:
  assumes "sc_succeeds m" "sc_spurious m' = (\<lambda>n. sc_spurious m (Suc n))"
  shows "sc_succeeds m'"
  unfolding sc_succeeds_def
proof
  fix n
  from assms(1) obtain k where "Suc n \<le> k" "\<not> sc_spurious m k" unfolding sc_succeeds_def by blast
  with assms(2) show "\<exists>k\<ge>n. \<not> sc_spurious m' k" by (intro exI [of _ "k - 1"]) auto
qed

lemma st64_spurious [simp]: "sc_spurious (st64 a v m) = sc_spurious m"
  by (simp add: st64_def)

lemma amo_d_spurious: "sc_spurious (snd (amo_d f a v m)) = sc_spurious m"
  by (simp add: amo_d_def)

text \<open>The loop keeps what it needs: induction on the number of failures still to come.\<close>

lemma cas_loop_succeeds:
  assumes "sc_succeeds m" "\<not> sc_spurious m n"
  shows "\<exists>m'. cas_loop a e d m = Some (mem m a, m') \<and> mem m' = (if mem m a = e then (mem m)(a := d) else mem m) \<and> sc_succeeds m'"
  using assms
proof (induction n arbitrary: m)
  case (Suc n)
  let ?m = "m\<lparr>resv := None, sc_spurious := (\<lambda>n. sc_spurious m (Suc n))\<rparr>"
  show ?case
  proof (cases "mem m a = e \<and> sc_spurious m 0")
    case True
    moreover have "sc_succeeds ?m" using Suc.prems(1) by (rule sc_succeeds_later) simp
    ultimately show ?thesis using Suc.IH [of ?m] Suc.prems(2) by (subst cas_loop_step) (auto simp: fun_upd_def)
  next
    case False
    with Suc.prems(1) show ?thesis
      by (subst cas_loop_step) (auto simp: sc_succeeds_cong [of "m\<lparr>resv := Some a\<rparr>" m] intro: sc_succeeds_later)
  qed
next
  case 0
  then show ?case
    by (subst cas_loop_step) (auto simp: sc_succeeds_cong [of "m\<lparr>resv := Some a\<rparr>" m] intro: sc_succeeds_later)
qed

lemma cas_d_succeeds:
  assumes "sc_succeeds m"
  shows "\<exists>m'. cas_d a e d m = Some (if mem m a = e then 1 else 0, m') \<and>
    mem m' = (if mem m a = e then (mem m)(a := d) else mem m) \<and> sc_succeeds m'"
proof -
  from assms obtain k where "\<not> sc_spurious m k" unfolding sc_succeeds_def by blast
  from cas_loop_succeeds [OF assms this, of a e d] show ?thesis by (auto simp: cas_d_def)
qed

interpretation suite: atomic_api "suite_api a" sc_succeeds for a
proof
  fix m :: amach and v e d :: u64
  assume m: "sc_succeeds m"
  then show "sc_succeeds (atomic_init (suite_api a) m v)" "atomic_get (suite_api a) (atomic_init (suite_api a) m v) = v"
    by (simp_all add: suite_api_def sc_succeeds_cong [OF st64_spurious])
  from cas_d_succeeds [OF m, of a e d] show
    "fst (atomic_cas (suite_api a) m e d) = (atomic_get (suite_api a) m = e)"
    "atomic_get (suite_api a) (snd (atomic_cas (suite_api a) m e d)) =
      (if atomic_get (suite_api a) m = e then d else atomic_get (suite_api a) m)"
    "sc_succeeds (snd (atomic_cas (suite_api a) m e d))"
    by (auto simp: suite_api_def split: if_splits)
  show "fst (f m v) = atomic_get (suite_api a) m \<and> atomic_get (suite_api a) (snd (f m v)) = h (atomic_get (suite_api a) m) v \<and>
      sc_succeeds (snd (f m v))"
    if "(f, h) \<in> {(atomic_swap (suite_api a), \<lambda>x v. v), (atomic_set (suite_api a), \<lambda>x v. v), (atomic_add (suite_api a), (+)),
        (atomic_sub (suite_api a), (-)), (atomic_or (suite_api a), (OR)), (atomic_and (suite_api a), (AND)),
        (atomic_xor (suite_api a), (XOR)), (atomic_max (suite_api a), \<lambda>x v. if sint v \<le> sint x then x else v),
        (atomic_min (suite_api a), \<lambda>x v. if sint x \<le> sint v then x else v), (atomic_maxu (suite_api a), max),
        (atomic_minu (suite_api a), min), (\<lambda>m v. atomic_inc (suite_api a) m, \<lambda>x v. x + 1),
        (\<lambda>m v. atomic_dec (suite_api a) m, \<lambda>x v. x - 1)}" for f h
    using that m by (auto simp: suite_api_def amo_d_defs sc_succeeds_cong [OF st64_spurious])
qed

section \<open>Properties\<close>

lemma sc_after_lr:
  "sc_d_z a v (snd (lr_d_z a s)) = (let s' = s\<lparr>resv := None, sc_spurious := (\<lambda>n. sc_spurious s (Suc n))\<rparr>
     in if sc_spurious s 0 then (1, s') else (0, st64 a v s'))"
  by (simp add: sc_d_z_def lr_d_z_def Let_def)

text \<open>The LR/SC test demands more than the loop of a compare-and-swap: its two store-conditionals must succeed at once.\<close>

lemma lr_sc_exact:
  "test_p3_1_lr_sc a s \<longleftrightarrow> mem s a = 0x1122334455667788 \<and> \<not> sc_spurious s 0 \<and> \<not> sc_spurious s 1"
proof (cases "sc_spurious s 0")
  case False
  let ?s = "st64 a 0xAABBCCDDEEFF0011 (s\<lparr>resv := None, sc_spurious := (\<lambda>n. sc_spurious s (Suc n))\<rparr>)"
  have f: "fst (lr_d_z a x) = mem x a" for x :: "'a amach_scheme" by (simp add: lr_d_z_def)
  have "test_p3_1_lr_sc a s \<longleftrightarrow> mem s a = 0x1122334455667788 \<and> fst (sc_d_z a 0x0102030405060708 (snd (lr_d_z a ?s))) = 0 \<and>
      mem (snd (sc_d_z a 0x0102030405060708 (snd (lr_d_z a ?s)))) a = 0x0102030405060708"
    using False by (simp add: test_p3_1_lr_sc_def lr_d_aq_z_def sc_d_rl_z_def case_prod_unfold Let_def f sc_after_lr [of a _ s])
  with False show ?thesis by (simp add: sc_after_lr [of a _ ?s] Let_def)
qed (simp add: test_p3_1_lr_sc_def case_prod_unfold Let_def sc_after_lr)

text \<open>
  C31. The verdicts of phase 3 of the Zephyr suite where, as the file's comment says, the atomic API is compiled to the instructions
  the bare-metal suite wraps: in any memory, for a variable at any address and any pattern of store-conditionals that fail
  without a reason, provided they do not fail for ever, the six tests of the API pass, the compare-and-swap retrying; so does the test of
  the 32-bit AMOs. The test of the raw LR/SC passes exactly if its variable has its initial value and neither of its two
  store-conditionals fails.
\<close>

theorem p3_tests_verdict:
  assumes "\<forall>n. \<exists>k\<ge>n. \<not> sc_spurious s k"
  shows "test_cas (suite_api a) s \<and> test_swap_set (suite_api a) s \<and> test_add_sub (suite_api a) s \<and> test_bitwise (suite_api a) s \<and>
    test_min_max_signed (suite_api a) s \<and> test_min_max_unsigned (suite_api a) s \<and> test_p3_3_amo_w a s \<and>
    (test_p3_1_lr_sc a s \<longleftrightarrow> mem s a = 0x1122334455667788 \<and> \<not> sc_spurious s 0 \<and> \<not> sc_spurious s 1)"
proof -
  have "sc_succeeds s" using assms by (simp add: sc_succeeds_def)
  moreover have "test_p3_3_amo_w a s"
    by (simp add: test_p3_3_amo_w_def Let_def amo_w_z_defs ld32_st32(1))
  ultimately show ?thesis using suite.api_tests lr_sc_exact by blast
qed

theorem p3_tests_verdict_witness:
  "test_cas (suite_api 0x80002000) demo_am \<and> \<not> test_p3_1_lr_sc 0x80002000 demo_am"
proof -
  have "\<forall>n. \<exists>k\<ge>n. \<not> sc_spurious demo_am k"
  proof
    show "\<exists>k\<ge>n. \<not> sc_spurious demo_am k" for n by (rule exI [of _ "n + 2"]) (simp add: demo_am_def)
  qed
  from p3_tests_verdict [OF this, of "0x80002000"] show ?thesis by (simp add: demo_am_def)
qed

end
