(* ===== verification/ZMmu.thy ===== *)
theory ZMmu
  imports AddressSpace Table_Entry
begin

text \<open>
  The Sv39 support that \<^verbatim>\<open>zephyr-changes/zephyr-riscv-port.patch\<close> adds to the Zephyr kernel as
  \<^verbatim>\<open>arch/riscv/core/mmu.c\<close>: a pool of tables, mapping and unmapping, the raw
  mapping and lookup functions for tests, the page-fault hook and the boot-time tables. Running out of tables
  (\<open>k_panic\<close>) and a failed \<open>__ASSERT\<close> are \<open>None\<close>. The spin lock around the table updates is
  left out: the functions are the single-core view, one call at a time.
\<close>

section \<open>The code\<close>

text \<open>
  \<open>mmu_tables\<close> is the address of the pool, the length of \<open>mmu_table_used\<close> its configured
  size; \<open>mmu_fault_fixup\<close> is a function pointer, 0 when none is registered; \<open>ztlb\<close> is what the hart has
  cached: leaf entries with an address of their block and their level.
\<close>

record zmmu = phys +
  mmu_tables :: u64
  mmu_table_used :: "bool list"
  kernel_root :: u64
  mmu_fault_fixup :: u64
  zsatp :: u64
  ztlb :: "(u64 \<times> nat \<times> u64) list"

definition PT_ENTRIES :: nat where
  "PT_ENTRIES = 512"

definition table_at :: "'z zmmu_scheme \<Rightarrow> nat \<Rightarrow> u64" where
  "table_at s i = mmu_tables s + 4096 * of_nat i"

definition alloc_table :: "'z zmmu_scheme \<Rightarrow> (u64 \<times> 'z zmmu_scheme) option" where
  "alloc_table s =
     (case find (\<lambda>i. \<not> mmu_table_used s ! i) [0..<length (mmu_table_used s)] of
        Some i \<Rightarrow> Some (table_at s i,
          clear_words (table_at s i) PT_ENTRIES (s\<lparr>mmu_table_used := (mmu_table_used s)[i := True]\<rparr>))
      | None \<Rightarrow> None)"

definition vpn :: "u64 \<Rightarrow> nat \<Rightarrow> u64" where
  "vpn va level = drop_bit (12 + 9 * level) va AND 0x1FF"

definition pte_to_phys :: "u64 \<Rightarrow> u64" where
  "pte_to_phys pte = push_bit 12 (drop_bit PTE_PPN_SHIFT pte)"

definition phys_to_ppn :: "u64 \<Rightarrow> u64" where
  "phys_to_ppn pa = push_bit PTE_PPN_SHIFT (drop_bit 12 pa)"

text \<open>The loop of \<open>map_page\<close> and \<open>z_riscv_mmu_map_raw\<close> from level \<open>l\<close> down to \<open>level\<close>.\<close>

fun table_for :: "u64 \<Rightarrow> nat \<Rightarrow> nat \<Rightarrow> u64 \<Rightarrow> 'z zmmu_scheme \<Rightarrow> (u64 \<times> 'z zmmu_scheme) option" where
  "table_for va level l tbl s =
     (if level < l then
        let pte = slot tbl (vpn va l)
        in do { s \<leftarrow> (if mem s pte AND PTE_V = 0
                     then do { (next, s) \<leftarrow> alloc_table s; Some (st64 pte (phys_to_ppn next OR PTE_V) s) }
                     else Some s);
                table_for va level (l - 1) (pte_to_phys (mem s pte)) s }
      else Some (tbl, s))"

declare table_for.simps [simp del]

definition map_page :: "u64 \<Rightarrow> u64 \<Rightarrow> u64 \<Rightarrow> 'z zmmu_scheme \<Rightarrow> 'z zmmu_scheme option" where
  "map_page va pa perm s =
     do { (tbl, s) \<leftarrow> table_for va 0 2 (kernel_root s) s;
          Some (st64 (slot tbl (vpn va 0)) (phys_to_ppn pa OR perm OR PTE_V OR PTE_A OR PTE_D) s) }"

definition map_gigapage :: "u64 \<Rightarrow> u64 \<Rightarrow> u64 \<Rightarrow> 'z zmmu_scheme \<Rightarrow> 'z zmmu_scheme" where
  "map_gigapage va pa perm s =
     st64 (slot (kernel_root s) (vpn va 2)) (phys_to_ppn pa OR perm OR PTE_V OR PTE_A OR PTE_D) s"

definition PTE_XWR :: u64 where
  "PTE_XWR = PTE_R OR PTE_W OR PTE_X"

fun unmap_from :: "u64 \<Rightarrow> nat \<Rightarrow> u64 \<Rightarrow> 'z zmmu_scheme \<Rightarrow> 'z zmmu_scheme" where
  "unmap_from va 0 tbl s = st64 (slot tbl (vpn va 0)) 0 s"
| "unmap_from va (Suc l) tbl s =
     (let pte = slot tbl (vpn va (Suc l))
      in if mem s pte AND PTE_V = 0 then s
         else if mem s pte AND PTE_XWR \<noteq> 0 then st64 pte 0 s
         else unmap_from va l (pte_to_phys (mem s pte)) s)"

definition unmap_page :: "u64 \<Rightarrow> 'z zmmu_scheme \<Rightarrow> 'z zmmu_scheme" where
  "unmap_page va s = unmap_from va 2 (kernel_root s) s"

text \<open>The mapping flags of the kernel's \<^verbatim>\<open>mm.h\<close>.\<close>

definition K_MEM_PERM_RW :: u32 where "K_MEM_PERM_RW = push_bit 3 1"
definition K_MEM_PERM_EXEC :: u32 where "K_MEM_PERM_EXEC = push_bit 4 1"
definition K_MEM_PERM_USER :: u32 where "K_MEM_PERM_USER = push_bit 5 1"

definition perm_from_flags :: "u32 \<Rightarrow> u64" where
  "perm_from_flags flags =
     (let perm = PTE_R;
          perm = (if flags AND K_MEM_PERM_RW \<noteq> 0 then perm OR PTE_W else perm);
          perm = (if flags AND K_MEM_PERM_EXEC \<noteq> 0 then perm OR PTE_X else perm)
      in if flags AND K_MEM_PERM_USER \<noteq> 0 then perm OR PTE_U else perm)"

definition zfence :: "'z zmmu_scheme \<Rightarrow> 'z zmmu_scheme" where
  "zfence s = s\<lparr>ztlb := []\<rparr>"

text \<open>The loops over the pages of a range; \<open>off\<close> and \<open>size\<close> are far from the end of
  \<open>size_t\<close>.\<close>

function map_range :: "u64 \<Rightarrow> u64 \<Rightarrow> u64 \<Rightarrow> nat \<Rightarrow> nat \<Rightarrow> 'z zmmu_scheme \<Rightarrow> 'z zmmu_scheme option" where
  "map_range va phys perm sz off s =
     (if off < sz
      then do { s \<leftarrow> map_page (va + of_nat off) (phys + of_nat off) perm s;
                map_range va phys perm sz (off + 4096) s }
      else Some s)"
  by pat_completeness auto
termination by (relation "measure (\<lambda>(_, _, _, sz, off, _). sz - off)") auto

declare map_range.simps [simp del]

definition arch_mem_map :: "u64 \<Rightarrow> u64 \<Rightarrow> nat \<Rightarrow> u32 \<Rightarrow> 'z zmmu_scheme \<Rightarrow> 'z zmmu_scheme option" where
  "arch_mem_map virt phys sz flags s =
     do { s \<leftarrow> map_range virt phys (perm_from_flags flags) sz 0 s; Some (zfence s) }"

function unmap_range :: "u64 \<Rightarrow> nat \<Rightarrow> nat \<Rightarrow> 'z zmmu_scheme \<Rightarrow> 'z zmmu_scheme" where
  "unmap_range va sz off s =
     (if off < sz then unmap_range va sz (off + 4096) (unmap_page (va + of_nat off) s) else s)"
  by pat_completeness auto
termination by (relation "measure (\<lambda>(_, sz, off, _). sz - off)") auto

declare unmap_range.simps [simp del]

definition arch_mem_unmap :: "u64 \<Rightarrow> nat \<Rightarrow> 'z zmmu_scheme \<Rightarrow> 'z zmmu_scheme" where
  "arch_mem_unmap addr sz s = zfence (unmap_range addr sz 0 s)"

definition z_riscv_mmu_set_fault_fixup :: "u64 \<Rightarrow> 'z zmmu_scheme \<Rightarrow> 'z zmmu_scheme" where
  "z_riscv_mmu_set_fault_fixup fn s = s\<lparr>mmu_fault_fixup := fn\<rparr>"

text \<open>\<open>code\<close> gives the function behind a pointer.\<close>

definition z_riscv_mmu_try_fault_fixup ::
    "(u64 \<Rightarrow> u64 \<Rightarrow> u64 \<Rightarrow> 'z zmmu_scheme \<Rightarrow> bool \<times> 'z zmmu_scheme) \<Rightarrow> u64 \<Rightarrow> u64 \<Rightarrow> 'z zmmu_scheme
       \<Rightarrow> bool \<times> 'z zmmu_scheme" where
  "z_riscv_mmu_try_fault_fixup code scause stval s =
     (if mmu_fault_fixup s \<noteq> 0 then code (mmu_fault_fixup s) scause stval s else (False, s))"

fun lookup_from :: "u64 \<Rightarrow> nat \<Rightarrow> u64 \<Rightarrow> 'z zmmu_scheme \<Rightarrow> u64" where
  "lookup_from va 0 tbl s = slot tbl (vpn va 0)"
| "lookup_from va (Suc l) tbl s =
     (let pte = slot tbl (vpn va (Suc l))
      in if mem s pte AND PTE_V = 0 then 0
         else if mem s pte AND PTE_XWR \<noteq> 0 then pte
         else lookup_from va l (pte_to_phys (mem s pte)) s)"

definition z_riscv_mmu_pte_lookup :: "u64 \<Rightarrow> 'z zmmu_scheme \<Rightarrow> u64" where
  "z_riscv_mmu_pte_lookup va s = lookup_from va 2 (kernel_root s) s"

definition z_riscv_mmu_map_raw :: "u64 \<Rightarrow> u64 \<Rightarrow> u64 \<Rightarrow> nat \<Rightarrow> 'z zmmu_scheme \<Rightarrow> 'z zmmu_scheme option" where
  "z_riscv_mmu_map_raw va pa pte_bits level s =
     (let leaf_span = push_bit (12 + 9 * level) 1
      in if \<not> (level < 3) \<or> va mod leaf_span \<noteq> 0 \<or> pa mod leaf_span \<noteq> 0 then None
         else do { (tbl, s) \<leftarrow> table_for va level 2 (kernel_root s) s;
                   Some (zfence (st64 (slot tbl (vpn va level)) (phys_to_ppn pa OR pte_bits) s)) })"

function map_image :: "nat \<Rightarrow> nat \<Rightarrow> 'z zmmu_scheme \<Rightarrow> 'z zmmu_scheme option" where
  "map_image va end_addr s =
     (if va < end_addr
      then do { s \<leftarrow> map_page (of_nat va) (of_nat va) (PTE_R OR PTE_W OR PTE_X) s; map_image (va + 4096) end_addr s }
      else Some s)"
  by pat_completeness auto
termination by (relation "measure (\<lambda>(va, e, _). e - va)") auto

declare map_image.simps [simp del]

definition z_riscv_mmu_init :: "u64 \<Rightarrow> u64 \<Rightarrow> 'z zmmu_scheme \<Rightarrow> 'z zmmu_scheme option" where
  "z_riscv_mmu_init z_mapped_start z_mapped_end s =
     do { (root, s) \<leftarrow> alloc_table s;
          let s = map_gigapage 0 0 (PTE_R OR PTE_W) (s\<lparr>kernel_root := root\<rparr>);
          s \<leftarrow> map_image (unat z_mapped_start) (unat z_mapped_end) s;
          let satp_val = push_bit 60 SATP_MODE_SV39 OR drop_bit 12 (kernel_root s);
          Some (zfence (s\<lparr>zsatp := satp_val\<rparr>)) }"

section \<open>The pool of tables\<close>

definition zpool_ok :: "'z zmmu_scheme \<Rightarrow> bool" where
  "zpool_ok s \<longleftrightarrow> page_aligned (mmu_tables s) \<and> uint (mmu_tables s) + 4096 * int (length (mmu_table_used s)) \<le> 2 ^ 56"

definition ztables :: "'z zmmu_scheme \<Rightarrow> u64 set" where
  "ztables s = {table_at s i | i. i < length (mmu_table_used s) \<and> mmu_table_used s ! i}"

definition zroom :: "'z zmmu_scheme \<Rightarrow> nat" where
  "zroom s = length (filter Not (mmu_table_used s))"

lemma uint_table_at:
  assumes "zpool_ok s" "i < length (mmu_table_used s)"
  shows "uint (table_at s i) = uint (mmu_tables s) + 4096 * int i"
proof -
  have b: "uint (mmu_tables s) + 4096 * int i < 2 ^ 56" using assms by (auto simp: zpool_ok_def)
  have "0 \<le> uint (mmu_tables s)" by simp
  with b have i: "4096 * int i < 2 ^ 56" by linarith
  then have "uint (4096 * of_nat i :: u64) = 4096 * int i"
    by (simp add: uint_word_ariths unsigned_of_nat take_bit_eq_mod)
  then show ?thesis using b by (simp add: table_at_def uint_word_ariths)
qed

lemma table_at_page:
  assumes "zpool_ok s" "i < length (mmu_table_used s)"
  shows "page_aligned (table_at s i)" "drop_bit 56 (table_at s i) = 0"
proof -
  have "4096 dvd uint (mmu_tables s)" using assms(1) by (simp add: zpool_ok_def page_aligned_uint)
  then show "page_aligned (table_at s i)" using uint_table_at [OF assms] by (simp add: page_aligned_uint)
  have "uint (table_at s i) < 2 ^ 56" using uint_table_at [OF assms] assms by (auto simp: zpool_ok_def)
  then show "drop_bit 56 (table_at s i) = 0" by (rule drop_56_uint)
qed

lemma table_at_inj:
  "zpool_ok s \<Longrightarrow> i < length (mmu_table_used s) \<Longrightarrow> j < length (mmu_table_used s) \<Longrightarrow>
   table_at s i = table_at s j \<longleftrightarrow> i = j"
  by (auto dest: arg_cong [where f = uint] simp: uint_table_at)

lemma table_at_update [simp]:
  "table_at (s\<lparr>mmu_table_used := u\<rparr>) i = table_at s i" "table_at (s\<lparr>mem := m\<rparr>) i = table_at s i"
  by (simp_all add: table_at_def)

lemma filter_set_True: "i < length u \<Longrightarrow> \<not> u ! i \<Longrightarrow> length (filter Not u) = Suc (length (filter Not (u[i := True])))"
  by (induction u arbitrary: i) (auto split: nat.splits simp: nth_Cons')

lemma alloc_table_Some:
  assumes "alloc_table s = Some (p, s')"
  obtains i where "i < length (mmu_table_used s)" "\<not> mmu_table_used s ! i" "p = table_at s i"
    "s' = s\<lparr>mmu_table_used := (mmu_table_used s)[i := True],
            mem := (\<lambda>a. if \<exists>j < 512. a = slot (table_at s i) j then 0 else mem s a)\<rparr>"
proof -
  from assms obtain i where i: "find (\<lambda>i. \<not> mmu_table_used s ! i) [0..<length (mmu_table_used s)] = Some i"
    and p: "p = table_at s i"
    and s': "s' = clear_words (table_at s i) PT_ENTRIES (s\<lparr>mmu_table_used := (mmu_table_used s)[i := True]\<rparr>)"
    by (auto simp: alloc_table_def split: option.splits)
  from i have "i < length (mmu_table_used s)" "\<not> mmu_table_used s ! i" by (auto simp: find_Some_iff)
  with that [of i] p s' show thesis by (simp add: clear_words_eq PT_ENTRIES_def less_512_of_nat cong: if_cong)
qed

interpretation zpool: table_alloc alloc_table ztables zpool_ok zroom
proof unfold_locales
  fix s s' :: "'z zmmu_scheme" and p i a v
  show "zpool_ok s \<Longrightarrow> 0 < zroom s \<Longrightarrow> \<exists>p s'. alloc_table s = Some (p, s')"
  proof -
    assume "0 < zroom s"
    then obtain i where "i < length (mmu_table_used s)" "\<not> mmu_table_used s ! i"
      by (auto simp: zroom_def filter_empty_conv in_set_conv_nth)
    then have "find (\<lambda>i. \<not> mmu_table_used s ! i) [0..<length (mmu_table_used s)] \<noteq> None"
      by (auto simp: find_None_iff)
    then show ?thesis by (auto simp: alloc_table_def)
  qed
  show "ztables (st64 a v s) = ztables s" "zpool_ok (st64 a v s) = zpool_ok s" "zroom (st64 a v s) = zroom s"
    by (simp_all add: ztables_def zpool_ok_def zroom_def st64_def)
  assume ok: "zpool_ok s" and al: "alloc_table s = Some (p, s')"
  from al obtain k where k: "k < length (mmu_table_used s)" "\<not> mmu_table_used s ! k" "p = table_at s k"
    "s' = s\<lparr>mmu_table_used := (mmu_table_used s)[k := True],
            mem := (\<lambda>a. if \<exists>j < 512. a = slot (table_at s k) j then 0 else mem s a)\<rparr>"
    by (rule alloc_table_Some)
  show "zroom s = Suc (zroom s')" using k filter_set_True [OF k(1,2)] by (simp add: zroom_def)
  show "zpool_ok s'" using k ok by (simp add: zpool_ok_def)
  have "p \<notin> ztables s" using k(1-3) table_at_inj [OF ok k(1)] by (auto simp: ztables_def)
  moreover have "ztables s' = insert p (ztables s)"
    using k by (auto simp: ztables_def nth_list_update split: if_splits)
  ultimately show "p \<notin> ztables s \<and> page_aligned p \<and> drop_bit 56 p = 0 \<and> ztables s' = insert p (ztables s)"
    using table_at_page [OF ok k(1)] k(3) by simp
  show "i < 512 \<Longrightarrow> mem s' (slot p i) = 0" using k by auto
  show "(\<And>i. i < 512 \<Longrightarrow> a \<noteq> slot p i) \<Longrightarrow> mem s' a = mem s a" using k by auto
qed

section \<open>The mapping functions are the generic algorithm\<close>

lemma vpn_eq [simp]: "vpn va l = vpn_ix l va"
  by (simp add: vpn_def vpn_ix_def mask9_u64)

lemma pte_to_phys_eq [simp]: "pte_to_phys e = pte_target e"
  by (simp add: pte_to_phys_def pte_target_def platform_consts)

lemma branch_entry [simp]: "phys_to_ppn p OR PTE_V = branch_to p"
  by (simp add: phys_to_ppn_def branch_to_def platform_consts)

lemma XWR_flags [simp]: "e AND PTE_XWR = 0 \<longleftrightarrow> \<not> bit e 1 \<and> \<not> bit e 2 \<and> \<not> bit e 3"
  by (simp add: PTE_XWR_def)

lemma table_for_descend:
  "level \<le> l \<Longrightarrow> table_for va level l t s = descend alloc_table va (l - level) l t s"
proof (induction l arbitrary: t s)
  case 0
  then show ?case by (subst table_for.simps) simp
next
  case (Suc l)
  show ?case
  proof (cases "level = Suc l")
    case True
    then show ?thesis by (subst table_for.simps) simp
  next
    case False
    with Suc.prems have l: "level \<le> l" "Suc l - level = Suc (l - level)" "level < Suc l" by auto
    have e: "(if mem s a AND PTE_V = 0 then do { (next, s) \<leftarrow> alloc_table s; Some (st64 a (phys_to_ppn next OR PTE_V) s) } else Some s)
        = ensure_table alloc_table a s" for a and s :: "'a zmmu_scheme"
      by (simp add: ensure_table_def)
    show ?thesis
      using l Suc.IH [OF l(1)] unfolding table_for.simps [of va level "Suc l"] Let_def e by simp
  qed
qed

text \<open>The table updates touch nothing but memory and the pool.\<close>

definition tables_only :: "'z zmmu_scheme \<Rightarrow> 'z zmmu_scheme \<Rightarrow> bool" where
  "tables_only s s' \<longleftrightarrow>
     (\<exists>m u. length u = length (mmu_table_used s) \<and> s' = s\<lparr>mem := m, mmu_table_used := u\<rparr>)"

lemma tables_onlyD:
  "tables_only s s' \<Longrightarrow> kernel_root s' = kernel_root s \<and> mmu_tables s' = mmu_tables s \<and> ztlb s' = ztlb s \<and>
     mmu_fault_fixup s' = mmu_fault_fixup s \<and> zsatp s' = zsatp s \<and> zmmu.more s' = zmmu.more s \<and>
     length (mmu_table_used s') = length (mmu_table_used s)"
  by (auto simp: tables_only_def)

lemma tables_onlyI:
  "kernel_root s' = kernel_root s \<Longrightarrow> mmu_tables s' = mmu_tables s \<Longrightarrow> ztlb s' = ztlb s \<Longrightarrow>
   mmu_fault_fixup s' = mmu_fault_fixup s \<Longrightarrow> zsatp s' = zsatp s \<Longrightarrow> zmmu.more s' = zmmu.more s \<Longrightarrow>
   length (mmu_table_used s') = length (mmu_table_used s) \<Longrightarrow> tables_only s s'"
  unfolding tables_only_def
  by (intro exI [of _ "mem s'"] exI [of _ "mmu_table_used s'"] conjI zmmu.equality) simp_all

lemma tables_only_refl [simp]: "tables_only s s"
  by (rule tables_onlyI) simp_all

lemma tables_only_trans: "tables_only s t \<Longrightarrow> tables_only t u \<Longrightarrow> tables_only s u"
  by (rule tables_onlyI) (simp_all add: tables_onlyD)

lemma tables_only_st64 [simp]: "tables_only s (st64 a v s)"
  by (rule tables_onlyI) (simp_all add: st64_def)

lemma tables_only_alloc: "alloc_table s = Some (p, s') \<Longrightarrow> tables_only s s'"
  by (erule alloc_table_Some) (rule tables_onlyI; simp)

lemma tables_only_descend: "descend alloc_table va k l t s = Some (u, s') \<Longrightarrow> tables_only s s'"
proof (induction k arbitrary: l t s)
  case (Suc k)
  then obtain s1 where e: "ensure_table alloc_table (slot t (vpn_ix l va)) s = Some s1"
    and d: "descend alloc_table va k (l - 1) (pte_target (mem s1 (slot t (vpn_ix l va)))) s1 = Some (u, s')"
    by (auto split: bind_splits)
  from e have "tables_only s s1"
    by (auto simp: ensure_table_def split: if_splits bind_splits
      intro: tables_only_trans [OF tables_only_alloc tables_only_st64])
  then show ?case using Suc.IH [OF d] by (rule tables_only_trans)
qed simp

lemma tables_only_map_at: "map_at alloc_table n root va e s = Some s' \<Longrightarrow> tables_only s s'"
  by (auto simp: map_at_def split: bind_splits intro: tables_only_trans [OF tables_only_descend tables_only_st64])

lemma map_page_map_at:
  "map_page va pa perm s =
     map_at alloc_table 0 (kernel_root s) va (phys_to_ppn pa OR perm OR PTE_V OR PTE_A OR PTE_D) s"
  by (simp add: map_page_def map_at_def table_for_descend)

definition span_aligned :: "nat \<Rightarrow> u64 \<Rightarrow> bool" where
  "span_aligned level a \<longleftrightarrow> take_bit (12 + 9 * level) a = 0"

lemma span_mod: "(a :: u64) mod 2 ^ (12 + 9 * level) = 0 \<longleftrightarrow> span_aligned level a"
  by (simp add: span_aligned_def take_bit_eq_mod)

lemma map_raw_map_at:
  "level < 3 \<Longrightarrow> span_aligned level va \<Longrightarrow> span_aligned level pa \<Longrightarrow>
   z_riscv_mmu_map_raw va pa bits level s =
     map_option zfence (map_at alloc_table level (kernel_root s) va (phys_to_ppn pa OR bits) s)"
  by (simp add: z_riscv_mmu_map_raw_def Let_def span_mod map_at_def table_for_descend split: bind_split)

lemma lookup_stop:
  "lookup_from va l t s =
     (case stop_at (mem s) l t va of (n, a) \<Rightarrow> if n = 0 \<or> bit (mem s a) 0 then a else 0)"
  by (induction va l t s rule: lookup_from.induct) (auto simp: Let_def is_branch_def split: prod.splits)

lemma unmap_stop:
  "unmap_from va l t s =
     (case stop_at (mem s) l t va of (n, a) \<Rightarrow> if n = 0 \<or> bit (mem s a) 0 then st64 a 0 s else s)"
  by (induction va l t s rule: unmap_from.induct) (auto simp: Let_def is_branch_def split: prod.splits)

end
