(* ===== verification/ZSpace.thy ===== *)
theory ZSpace
  imports ZMmu
begin

text \<open>
  What the kernel's table functions do to the address space: the raw mapping writes exactly one
  leaf of any level, \<open>arch_mem_map\<close> and \<open>arch_mem_unmap\<close> change exactly their pages, the lookup finds
  the entry the hardware uses, and the tables built at boot map the device gigabyte and the image.
\<close>

definition zmmu_ok :: "'z zmmu_scheme \<Rightarrow> bool" where
  "zmmu_ok s \<longleftrightarrow> (\<exists>lv. zpool.tables_ok lv (kernel_root s) s)"

definition zspace :: "mmu_ctl \<Rightarrow> 'z zmmu_scheme \<Rightarrow> access \<Rightarrow> u64 \<Rightarrow> u64 option" where
  "zspace c s acc va = sv39_translate c (mem s) (kernel_root s) acc va"

definition zstop :: "'z zmmu_scheme \<Rightarrow> u64 \<Rightarrow> nat \<times> u64" where
  "zstop s va = stop_at (mem s) 2 (kernel_root s) va"

text \<open>A leaf of the given level can be written for the address: no superpage leaf above it and
  enough free tables.\<close>

definition can_map :: "'z zmmu_scheme \<Rightarrow> nat \<Rightarrow> u64 \<Rightarrow> bool" where
  "can_map s level va \<longleftrightarrow> path_clear (mem s) (2 - level) 2 (kernel_root s) va \<and>
     missing_tables (mem s) (2 - level) 2 (kernel_root s) va \<le> zroom s"

lemma zmmu_ok_wf: "zmmu_ok s \<Longrightarrow> \<exists>lv. wf_tables lv (ztables s) (kernel_root s) (mem s)"
  by (auto simp: zmmu_ok_def zpool.tables_ok_def)

lemma zspace_stop: "zmmu_ok s \<Longrightarrow> zstop s va = (n, a) \<Longrightarrow> zspace c s acc va = entry_xlat c acc va n (mem s a)"
  unfolding zspace_def zstop_def using zmmu_ok_wf [of s] translate_stop_at by blast

text \<open>What writing one leaf gives.\<close>

definition leaf_written ::
    "nat \<Rightarrow> u64 \<Rightarrow> u64 \<Rightarrow> 'z zmmu_scheme \<Rightarrow> 'z zmmu_scheme \<Rightarrow> bool" where
  "leaf_written level va e s s' \<longleftrightarrow> zmmu_ok s' \<and> tables_only s s' \<and> ztables s \<subseteq> ztables s' \<and>
     (\<exists>a. zstop s' va = (level, a) \<and> mem s' a = e) \<and>
     (\<forall>c acc va'. zspace c s' acc va' = (if same_block level va va' then entry_xlat c acc va' level e else zspace c s acc va')) \<and>
     (\<forall>x. x \<notin> table_words (ztables s') \<longrightarrow> mem s' x = mem s x) \<and>
     zroom s \<le> missing_tables (mem s) (2 - level) 2 (kernel_root s) va + zroom s' \<and>
     (level = 0 \<longrightarrow>
        (\<forall>va' b. zstop s va' = (0, b) \<longrightarrow> zstop s' va' = (0, b) \<and> (\<not> same_block 0 va va' \<longrightarrow> mem s' b = mem s b)) \<and>
        (\<forall>va'. path_clear (mem s) 2 2 (kernel_root s) va' \<longrightarrow> path_clear (mem s') 2 2 (kernel_root s') va'))"

lemma map_at_run:
  assumes ok: "zmmu_ok s" and n: "n \<le> 2" and can: "can_map s n va" and e: "\<not> is_branch e"
  shows "\<exists>s'. map_at alloc_table n (kernel_root s) va e s = Some s' \<and> leaf_written n va e s s'"
proof -
  from ok obtain lv where tk: "zpool.tables_ok lv (kernel_root s) s" by (auto simp: zmmu_ok_def)
  from can have cl: "path_clear (mem s) (2 - n) 2 (kernel_root s) va"
    and room: "missing_tables (mem s) (2 - n) 2 (kernel_root s) va \<le> zroom s" by (simp_all add: can_map_def)
  from zpool.map_at_returns [OF tk n cl room] obtain s' where m: "map_at alloc_table n (kernel_root s) va e s = Some s'" by blast
  note t = zpool.map_at_translate [OF tk n cl e m]
  note only = tables_only_map_at [OF m]
  have root: "kernel_root s' = kernel_root s" using tables_onlyD [OF only] by simp
  have st: "\<exists>a. zstop s' va = (n, a) \<and> mem s' a = e"
    using zpool.map_at_end [OF tk n cl e m] unfolding zstop_def root by metis
  have lev0: "(\<forall>va' b. zstop s va' = (0, b) \<longrightarrow> zstop s' va' = (0, b) \<and> (\<not> same_block 0 va va' \<longrightarrow> mem s' b = mem s b)) \<and>
      (\<forall>va'. path_clear (mem s) 2 2 (kernel_root s) va' \<longrightarrow> path_clear (mem s') 2 2 (kernel_root s') va')" if "n = 0"
    using zpool.map_at_keeps_page [OF tk _ e] zpool.map_at_low_frame [OF tk _ e] zpool.map_at_path_clear [OF tk _ e] cl m unfolding that zstop_def root by auto
  show ?thesis
    using m t only st lev0 zpool.map_at_room [OF tk n cl m]
    by (intro exI [of _ s']) (auto simp: leaf_written_def zmmu_ok_def root zspace_def)
qed

lemma zfence_simps [simp]:
  "mem (zfence s) = mem s" "kernel_root (zfence s) = kernel_root s" "ztables (zfence s) = ztables s" "zroom (zfence s) = zroom s"
  "zstop (zfence s) va = zstop s va" "zspace c (zfence s) = zspace c s" "ztlb (zfence s) = []"
  "mmu_tables (zfence s) = mmu_tables s" "mmu_table_used (zfence s) = mmu_table_used s"
  "mmu_fault_fixup (zfence s) = mmu_fault_fixup s" "zmmu.more (zfence s) = zmmu.more s" "zsatp (zfence s) = zsatp s"
  by (simp_all add: zfence_def ztables_def zroom_def zstop_def zspace_def fun_eq_iff table_at_def)

lemma zmmu_ok_fence [simp]: "zmmu_ok (zfence s) = zmmu_ok s"
  unfolding zmmu_ok_def zpool.tables_ok_def by (simp add: zpool_ok_def)

lemma st64_zmmu [simp]:
  "ztables (st64 a v s) = ztables s" "zpool_ok (st64 a v s) = zpool_ok s" "zroom (st64 a v s) = zroom s"
  "kernel_root (st64 a v s) = kernel_root s" "ztlb (st64 a v s) = ztlb s" "zmmu.more (st64 a v s) = zmmu.more s"
  "mmu_fault_fixup (st64 a v s) = mmu_fault_fixup s" "mmu_tables (st64 a v s) = mmu_tables s"
  "mmu_table_used (st64 a v s) = mmu_table_used s" "zsatp (st64 a v s) = zsatp s"
  by (simp_all add: ztables_def zpool_ok_def zroom_def st64_def)

text \<open>Rewriting the word that decides about an address, and storing outside the tables.\<close>

lemma set_entry:
  assumes ok: "zmmu_ok s" and st: "zstop s va = (n, a)" and e: "\<not> is_branch e"
  shows "zmmu_ok (st64 a e s)" "zstop (st64 a e s) va' = zstop s va'" "a \<in> table_words (ztables s)"
    "zspace c (st64 a e s) acc va' = (if same_block n va va' then entry_xlat c acc va' n e else zspace c s acc va')"
proof -
  from ok obtain lv where tk: "zpool_ok s" and wf: "wf_tables lv (ztables s) (kernel_root s) (mem s)"
    by (auto simp: zmmu_ok_def zpool.tables_ok_def)
  note st' = st [unfolded zstop_def]
  note rw = rewrite_stop_at [OF wf st' e]
  show "zmmu_ok (st64 a e s)"
    using rw(1) tk by (auto simp: zmmu_ok_def zpool.tables_ok_def)
  show "a \<in> table_words (ztables s)" by (rule rw(2))
  show "zstop (st64 a e s) va' = zstop s va'"
    using rewrite_keeps_stop [OF wf st' e] by (simp add: zstop_def)
  show "zspace c (st64 a e s) acc va' = (if same_block n va va' then entry_xlat c acc va' n e else zspace c s acc va')"
    using rw(4) by (simp add: zspace_def)
qed

lemma store_outside:
  assumes ok: "zmmu_ok s" and x: "x \<notin> table_words (ztables s)"
  shows "zmmu_ok (st64 x v s)" "zstop (st64 x v s) va = zstop s va" "zspace c (st64 x v s) acc va = zspace c s acc va"
    "can_map (st64 x v s) level va = can_map s level va"
proof -
  from ok obtain lv where tk: "zpool_ok s" and wf: "wf_tables lv (ztables s) (kernel_root s) (mem s)"
    by (auto simp: zmmu_ok_def zpool.tables_ok_def)
  have eq: "mem (st64 x v s) y = mem s y" if "y \<in> table_words (ztables s)" for y using that x by auto
  show ok': "zmmu_ok (st64 x v s)"
    using wf_tables_outside [OF wf eq] tk unfolding zmmu_ok_def zpool.tables_ok_def st64_zmmu by blast
  show "can_map (st64 x v s) level va = can_map s level va"
    using path_outside [OF wf eq wf_root [OF wf] diff_le_self, of level va] unfolding can_map_def st64_zmmu by metis
  show st: "zstop (st64 x v s) va = zstop s va"
    unfolding zstop_def st64_zmmu by (rule stop_at_outside [OF wf eq])
  obtain n a where na: "zstop s va = (n, a)" by fastforce
  from stop_at_slot [OF wf wf_root [OF wf] na [unfolded zstop_def]] have "mem (st64 x v s) a = mem s a" using eq [of a] by auto
  then show "zspace c (st64 x v s) acc va = zspace c s acc va"
    using zspace_stop [OF ok na] zspace_stop [OF ok' st [unfolded na]] by metis
qed

lemma zstop_block: "zstop s va = (n, a) \<Longrightarrow> same_block n va va' \<Longrightarrow> zstop s va' = (n, a)"
  unfolding zstop_def by (erule stop_at_block) (simp add: same_block_def)

text \<open>
  C13. \<open>z_riscv_mmu_map_raw\<close>, at any level, for aligned addresses, where no superpage leaf lies on the way and
  the pool has the tables that are missing: it returns with well-formed tables, the entry the hardware uses
  for the address is exactly the frame with the caller's bits, every address of the leaf's block is
  translated by it and every other address as before, no word outside the tables is written, and no
  translation stays cached.
\<close>

theorem map_raw_refines:
  assumes "zmmu_ok s" "level < 3" "span_aligned level va" "span_aligned level pa" "can_map s level va"
    "\<not> is_branch (phys_to_ppn pa OR bits)"
  shows "\<exists>s'. z_riscv_mmu_map_raw va pa bits level s = Some s' \<and> zmmu_ok s' \<and> ztlb s' = [] \<and>
    (\<exists>a. zstop s' va = (level, a) \<and> mem s' a = phys_to_ppn pa OR bits) \<and>
    (\<forall>c acc va'. zspace c s' acc va' =
      (if same_block level va va' then entry_xlat c acc va' level (phys_to_ppn pa OR bits) else zspace c s acc va')) \<and>
    (\<forall>x. x \<notin> table_words (ztables s') \<longrightarrow> mem s' x = mem s x)"
proof -
  from map_at_run [OF assms(1) _ assms(5,6)] assms(2) obtain s'
    where m: "map_at alloc_table level (kernel_root s) va (phys_to_ppn pa OR bits) s = Some s'"
    and w: "leaf_written level va (phys_to_ppn pa OR bits) s s'" by auto
  show ?thesis
    using m w map_raw_map_at [OF assms(2-4), of bits s]
    by (intro exI [of _ "zfence s'"]) (auto simp: leaf_written_def)
qed

end
