(* ===== verification/ZRange.thy ===== *)
theory ZRange
  imports ZSpace
begin

text \<open>
  The loops of \<open>arch_mem_map\<close> and \<open>arch_mem_unmap\<close> over the pages of a range: the address space
  changes on exactly the range, to exactly the frames asked for, whatever number of tables has to be
  added on the way.
\<close>

section \<open>Pages as address intervals\<close>

lemma same_page_canonical:
  assumes "va_canonical a" "va_canonical b"
  shows "same_block 0 a b \<longleftrightarrow> drop_bit 12 a = drop_bit 12 b"
proof
  assume sb: "same_block 0 a b"
  have low: "bit a (12 + 9 * l + n) = bit b (12 + 9 * l + n)" if "l \<le> 2" "n < 9" for l n
    using same_blockD [OF sb, of l] that bit_vpn_ix [of l a n] bit_vpn_ix [of l b n] by simp
  have mid: "bit a n = bit b n" if "12 \<le> n" "n < 39" for n
  proof -
    define l m where "l = (n - 12) div 9" and "m = (n - 12) mod 9"
    have "n = 12 + 9 * l + m" "m < 9" "l \<le> 2" unfolding l_def m_def using that by auto
    with low [of l m] show ?thesis by simp
  qed
  have "bit a n = bit b n" if "12 \<le> n" "n < 64" for n
  proof (cases "n < 39")
    case False
    with that assms have "bit a n = bit a 38" "bit b n = bit b 38" by (simp_all add: va_canonical_def)
    with mid [of 38] show ?thesis by simp
  qed (use that mid in blast)
  then have "bit a n = bit b n" if "12 \<le> n" for n
    using that bit_imp_le_length [of a n] bit_imp_le_length [of b n] by (cases "n < 64") auto
  then show "drop_bit 12 a = drop_bit 12 b"
    by (intro bit_word_eqI) (simp add: bit_drop_bit_eq)
next
  assume d: "drop_bit 12 a = drop_bit 12 b"
  have "drop_bit (12 + 9 * l) a = drop_bit (12 + 9 * l) b" for l
    using arg_cong [OF d, of "drop_bit (9 * l)"] by (simp add: ac_simps)
  then show "same_block 0 a b" by (simp add: same_block_def vpn_ix_def)
qed

lemma canonical_low_uint: "uint va < 2 ^ 38 \<Longrightarrow> va_canonical va"
  by (rule canonical_low) (simp add: word_uint_eq_iff drop_bit_eq_div uint_div)

definition page_no :: "u64 \<Rightarrow> nat \<Rightarrow> u64" where
  "page_no virt k = virt + of_nat (4096 * k)"

definition range_ok :: "int \<Rightarrow> u64 \<Rightarrow> nat \<Rightarrow> bool" where
  "range_ok lim virt n \<longleftrightarrow> page_aligned virt \<and> uint virt + 4096 * int n \<le> lim"

definition in_pages :: "u64 \<Rightarrow> nat \<Rightarrow> nat \<Rightarrow> u64 \<Rightarrow> bool" where
  "in_pages virt k n va \<longleftrightarrow> uint virt + 4096 * int k \<le> uint va \<and> uint va < uint virt + 4096 * int n"

lemma uint_page_no:
  assumes "range_ok lim virt n" "lim \<le> 2 ^ 56" "k < n"
  shows "uint (page_no virt k) = uint virt + 4096 * int k"
proof -
  have "uint virt + 4096 * int k < 2 ^ 56" using assms by (auto simp: range_ok_def)
  moreover have "0 \<le> uint virt" by simp
  ultimately have b: "uint virt + 4096 * int k < 2 ^ 56" and i: "4096 * int k < 2 ^ 56" by linarith+
  from i have "uint (of_nat (4096 * k) :: u64) = 4096 * int k"
    by (simp only: unsigned_of_nat) (simp add: take_bit_eq_mod)
  then show ?thesis unfolding page_no_def using b by (simp add: uint_word_ariths)
qed

lemma page_no_aligned: "range_ok lim virt n \<Longrightarrow> lim \<le> 2 ^ 56 \<Longrightarrow> k < n \<Longrightarrow> page_aligned (page_no virt k)"
  using uint_page_no [of lim virt n k] by (auto simp: range_ok_def page_aligned_uint)

lemma same_page_interval:
  assumes "range_ok (2 ^ 38) virt n" "k < n"
  shows "va_canonical va \<and> same_block 0 (page_no virt k) va \<longleftrightarrow> in_pages virt k (Suc k) va"
proof -
  note u = uint_page_no [OF assms(1) _ assms(2)]
  have lim: "uint virt + 4096 * int (Suc k) \<le> 2 ^ 38" using assms by (auto simp: range_ok_def)
  have al: "4096 dvd uint virt" using assms by (simp add: range_ok_def page_aligned_uint)
  then obtain q where q: "uint virt = 4096 * q" by (rule dvdE)
  have c: "va_canonical (page_no virt k)" using u lim by (intro canonical_low_uint) simp
  have "drop_bit 12 (page_no virt k) = drop_bit 12 va \<longleftrightarrow> q + int k = uint va div 4096"
    using u q by (simp add: word_uint_eq_iff drop_bit_eq_div uint_div)
  also have "\<dots> \<longleftrightarrow> in_pages virt k (Suc k) va"
    unfolding in_pages_def q by auto
  finally have 1: "drop_bit 12 (page_no virt k) = drop_bit 12 va \<longleftrightarrow> in_pages virt k (Suc k) va" .
  show ?thesis
    using 1 same_page_canonical [OF c] canonical_low_uint [of va] lim by (auto simp: in_pages_def)
qed

lemma next_div:
  assumes "(q + 1) mod 512 \<noteq> (0 :: int)"
  shows "(q + 1) div 512 = q div 512"
proof -
  define a b where "a = q div 512" and "b = q mod 512"
  have q: "q = 512 * a + b" and b: "0 \<le> b" "b < 512" by (simp_all add: a_def b_def)
  have "b \<noteq> 511" using assms q by auto
  with q b have "(q + 1) div 512 = a" by (intro int_div_pos_eq [of _ _ _ "b + 1"]) auto
  then show ?thesis by (simp add: a_def)
qed

lemma uint_vpn_0: "uint (vpn_ix 0 va) = uint va div 4096 mod 512"
  by (simp add: vpn_ix_def flip: take_bit_eq_mask) (simp add: drop_bit_eq_div uint_div uint_mod take_bit_eq_mod)

text \<open>Only the first page of a two-megabyte region can lack tables.\<close>

lemma same_region:
  assumes "range_ok (2 ^ 38) virt n" "Suc k < n" "vpn_ix 0 (page_no virt (Suc k)) \<noteq> 0" "0 < l"
  shows "vpn_ix l (page_no virt (Suc k)) = vpn_ix l (page_no virt k)"
proof -
  define x where "x = uint (page_no virt k)"
  have u: "uint (page_no virt (Suc k)) = x + 4096"
    using uint_page_no [OF assms(1), of k] uint_page_no [OF assms(1), of "Suc k"] assms(2) by (simp add: x_def)
  have "4096 dvd x" using page_no_aligned [OF assms(1), of k] assms(2) by (simp add: x_def page_aligned_uint)
  then obtain q where q: "x = 4096 * q" by (rule dvdE)
  have "uint (vpn_ix 0 (page_no virt (Suc k))) = (x + 4096) div 4096 mod 512"
    by (simp add: uint_vpn_0 u)
  with assms(3) q have "(q + 1) mod 512 \<noteq> 0" by (auto simp: word_uint_eq_iff)
  then have "(q + 1) div 512 = q div 512" by (rule next_div)
  then have "uint (drop_bit 21 (page_no virt (Suc k))) = uint (drop_bit 21 (page_no virt k))"
    using u q by (simp add: drop_bit_eq_div uint_div flip: x_def)
  then have d: "drop_bit 21 (page_no virt (Suc k)) = drop_bit 21 (page_no virt k)" by (simp add: word_uint_eq_iff)
  have "drop_bit (12 + 9 * l) w = drop_bit (9 * (l - 1)) (drop_bit 21 w)" for w :: u64
    using assms(4) by (simp add: diff_mult_distrib2)
  then show ?thesis unfolding vpn_ix_def by (simp only: d)
qed

definition tables_needed :: "u64 \<Rightarrow> nat \<Rightarrow> nat \<Rightarrow> nat" where
  "tables_needed virt k n = 2 * length (filter (\<lambda>j. vpn_ix 0 (page_no virt j) = 0) [k..<n])"

lemma tables_needed_step:
  "k < n \<Longrightarrow> tables_needed virt k n =
     (if vpn_ix 0 (page_no virt k) = 0 then 2 else 0) + tables_needed virt (Suc k) n"
  by (simp add: tables_needed_def upt_conv_Cons)

section \<open>Mapping a range\<close>

lemma map_leaf: "phys_to_ppn pa OR perm OR PTE_V OR PTE_A OR PTE_D = pte_leaf pa perm"
  by (simp add: phys_to_ppn_def pte_leaf_def platform_consts)

lemma zspace_noncanonical: "\<not> va_canonical va \<Longrightarrow> zspace c s acc va = None"
  by (simp add: zspace_def sv39_translate_def)

text \<open>The frame of a range behind an address.\<close>

definition range_space :: "mmu_ctl \<Rightarrow> u64 \<Rightarrow> u64 \<Rightarrow> u64 \<Rightarrow> access \<Rightarrow> u64 \<Rightarrow> u64 option" where
  "range_space c virt phys perm acc va = (if pte_allows c acc perm then Some (phys + (va - virt)) else None)"

lemma page_space_range:
  assumes v: "range_ok (2 ^ 38) virt n" and p: "range_ok (2 ^ 56) phys n" and k: "k < n"
    and inp: "in_pages virt k (Suc k) va"
  shows "page_space c (page_no phys k) perm True acc va = range_space c virt phys perm acc va"
proof -
  from same_page_interval [OF v k, of va] inp have can: "va_canonical va" by simp
  note up = uint_page_no [OF p _ k] and uv = uint_page_no [OF v _ k]
  have al: "page_aligned (page_no phys k)" by (rule page_no_aligned [OF p _ k]) simp
  have a: "page_no phys k AND NOT (mask 12) = page_no phys k"
    by (rule bit_word_eqI) (use page_aligned_bit [OF al] in \<open>auto simp: bit_simps\<close>)
  have dis: "page_no phys k AND take_bit 12 va = 0"
    by (rule bit_word_eqI) (use page_aligned_bit [OF al] in \<open>auto simp: bit_simps\<close>)
  have "4096 dvd uint virt" using v by (simp add: range_ok_def page_aligned_uint)
  then obtain q where q: "uint virt = 4096 * q" by (rule dvdE)
  have m: "uint va mod 4096 = uint va - (uint virt + 4096 * int k)"
  proof -
    have "uint va = 4096 * (q + int k) + (uint va - (uint virt + 4096 * int k))" using q by simp
    moreover have "0 \<le> uint va - (uint virt + 4096 * int k)" "uint va - (uint virt + 4096 * int k) < 4096"
      using inp by (simp_all add: in_pages_def)
    ultimately show ?thesis by (metis mod_mult_self4 mod_pos_pos_trivial)
  qed
  have "uint phys + 4096 * int n \<le> 2 ^ 56" "0 \<le> uint phys" "uint va < 2 ^ 38 + 2 ^ 38"
    using p v k inp by (auto simp: range_ok_def in_pages_def)
  have "page_no phys k OR take_bit 12 va = page_no phys k + take_bit 12 va"
    using dis by (simp add: disjunctive_add_eq_or)
  also have "\<dots> = phys + (va - virt)"
  proof -
    have "take_bit 12 va = va - page_no virt k"
      using m uv by (simp add: word_uint_eq_iff uint_word_ariths uint_mod take_bit_eq_mod)
    then show ?thesis by (simp add: page_no_def)
  qed
  finally show ?thesis using can a by (simp add: page_space_def range_space_def page_mask flip: take_bit_eq_mask)
qed

text \<open>What mapping the pages \<open>k\<close> to \<open>n - 1\<close> of a range gives.\<close>

definition range_written ::
    "u64 \<Rightarrow> u64 \<Rightarrow> u64 \<Rightarrow> nat \<Rightarrow> nat \<Rightarrow> 'z zmmu_scheme \<Rightarrow> 'z zmmu_scheme \<Rightarrow> bool" where
  "range_written virt phys perm k n s s' \<longleftrightarrow> zmmu_ok s' \<and> tables_only s s' \<and> ztables s \<subseteq> ztables s' \<and>
     (\<forall>c acc va. zspace c s' acc va =
        (if in_pages virt k n va then range_space c virt phys perm acc va else zspace c s acc va)) \<and>
     (\<forall>x. x \<notin> table_words (ztables s') \<longrightarrow> mem s' x = mem s x) \<and>
     (\<forall>va. path_clear (mem s) 2 2 (kernel_root s) va \<longrightarrow> path_clear (mem s') 2 2 (kernel_root s') va)"

lemma range_written_refl: "zmmu_ok s \<Longrightarrow> range_written virt phys perm n n s s"
  by (auto simp: range_written_def in_pages_def)

lemma range_written_step:
  assumes v: "range_ok (2 ^ 38) virt n" and p: "range_ok (2 ^ 56) phys n" and k: "k < n" and perm: "perm_ok perm"
    and w: "leaf_written 0 (page_no virt k) (pte_leaf (page_no phys k) perm) s s1"
    and r: "range_written virt phys perm (Suc k) n s1 s'"
  shows "range_written virt phys perm k n s s'"
proof -
  have d: "drop_bit 56 (page_no phys k) = 0"
    using uint_page_no [OF p _ k] p k by (intro drop_56_uint) (auto simp: range_ok_def)
  have sp: "zspace c s' acc va = (if in_pages virt k n va then range_space c virt phys perm acc va else zspace c s acc va)" for c acc va
  proof (cases "in_pages virt (Suc k) n va")
    case True
    then show ?thesis using r by (simp add: range_written_def in_pages_def)
  next
    case False
    then have "zspace c s' acc va = zspace c s1 acc va" using r by (simp add: range_written_def)
    also have "\<dots> = (if same_block 0 (page_no virt k) va
        then page_space c (page_no phys k) perm True acc va else zspace c s acc va)"
      using w entry_xlat_pt_entry [of True perm "page_no phys k" c acc va] perm d
      by (simp add: leaf_written_def pt_entry_def)
    also have "\<dots> = (if in_pages virt k (Suc k) va then range_space c virt phys perm acc va else zspace c s acc va)"
      using same_page_interval [OF v k, of va] page_space_range [OF v p k, of va c perm acc]
        zspace_noncanonical [of va c s acc] by (auto simp: page_space_def)
    also have "in_pages virt k (Suc k) va \<longleftrightarrow> in_pages virt k n va"
      using False k by (auto simp: in_pages_def)
    finally show ?thesis .
  qed
  have tw: "table_words (ztables s1) \<subseteq> table_words (ztables s')"
    using r by (intro table_words_mono) (simp add: range_written_def)
  show ?thesis
    using w r sp tw tables_only_trans [of s s1 s'] by (auto simp: range_written_def leaf_written_def)
qed

lemma map_range_run:
  assumes "range_ok (2 ^ 38) virt n" "range_ok (2 ^ 56) phys n" "perm_ok perm" "n = (sz + 4095) div 4096"
  shows "k \<le> n \<Longrightarrow> zmmu_ok s \<Longrightarrow> \<forall>j. k \<le> j \<and> j < n \<longrightarrow> path_clear (mem s) 2 2 (kernel_root s) (page_no virt j) \<Longrightarrow>
    (if k < n then missing_tables (mem s) 2 2 (kernel_root s) (page_no virt k) else 0) + tables_needed virt (Suc k) n \<le> zroom s \<Longrightarrow>
    \<exists>s'. map_range virt phys perm sz (4096 * k) s = Some s' \<and> range_written virt phys perm k n s s'"
proof (induction "n - k" arbitrary: k s)
  case 0
  then have "k = n" by simp
  moreover have "\<not> 4096 * n < sz" using assms(4) by auto
  ultimately show ?case
    using range_written_refl [OF \<open>zmmu_ok s\<close>, of virt phys perm n] by (subst map_range.simps) simp
next
  case (Suc d)
  then have k: "k < n" and lt: "4096 * k < sz" using assms(4) by auto
  let ?va = "page_no virt k" and ?e = "pte_leaf (page_no phys k) perm"
  from Suc.prems k have cl: "path_clear (mem s) 2 2 (kernel_root s) ?va"
    and room: "missing_tables (mem s) 2 2 (kernel_root s) ?va + tables_needed virt (Suc k) n \<le> zroom s" by auto
  then have "can_map s 0 ?va" by (simp add: can_map_def)
  from map_at_run [OF Suc.prems(2) _ this not_branch_leaf [OF assms(3)]] obtain s1
    where m: "map_at alloc_table 0 (kernel_root s) ?va ?e s = Some s1" and w: "leaf_written 0 ?va ?e s s1" by auto
  have mp: "map_page ?va (page_no phys k) perm s = Some s1"
    unfolding map_page_map_at map_leaf by (rule m)
  have room1: "tables_needed virt (Suc k) n \<le> zroom s1" using w room by (simp add: leaf_written_def)
  have need: "(if Suc k < n then missing_tables (mem s1) 2 2 (kernel_root s1) (page_no virt (Suc k)) else 0) +
      tables_needed virt (Suc (Suc k)) n \<le> zroom s1"
  proof (cases "Suc k < n")
    case True
    show ?thesis
    proof (cases "vpn_ix 0 (page_no virt (Suc k)) = 0")
      case zero: True
      then show ?thesis
        using room1 tables_needed_step [OF True, of virt] True
          missing_tables_le [of "mem s1" 2 2 "kernel_root s1" "page_no virt (Suc k)"] by simp
    next
      case False
      from w obtain a where "zstop s1 ?va = (0, a)" by (auto simp: leaf_written_def)
      then have "missing_tables (mem s1) 2 2 (kernel_root s1) (page_no virt (Suc k)) = 0"
        using missing_stop [of 2, OF same_region [OF assms(1) True False]] by (simp add: zstop_def)
      then show ?thesis using room1 tables_needed_step [OF True, of virt] False by simp
    qed
  qed (use room1 in \<open>simp add: tables_needed_def\<close>)
  have root: "kernel_root s1 = kernel_root s" using w tables_onlyD [of s s1] by (simp add: leaf_written_def)
  have "\<exists>s'. map_range virt phys perm sz (4096 * Suc k) s1 = Some s' \<and> range_written virt phys perm (Suc k) n s1 s'"
    by (rule Suc.hyps(1)) (use Suc.hyps(2) Suc.prems k w need in \<open>auto simp: leaf_written_def\<close>)
  then obtain s' where r: "map_range virt phys perm sz (4096 * k + 4096) s1 = Some s'"
    "range_written virt phys perm (Suc k) n s1 s'" by (auto simp: add.commute)
  have "map_range virt phys perm sz (4096 * k) s = Some s'"
    using lt mp r(1) by (subst map_range.simps) (simp add: page_no_def)
  then show ?case using range_written_step [OF assms(1,2) k assms(3) w r(2)] by blast
qed

lemma perm_from_flags_ok: "perm_ok (perm_from_flags flags)"
  by (auto simp: perm_from_flags_def perm_ok_def bit_simps flag_bits Let_def)

text \<open>The rights the mapping flags stand for: reading always, writing and executing on request; a page for user mode only
  under SUM and never for fetching.\<close>

definition flags_allow :: "mmu_ctl \<Rightarrow> u32 \<Rightarrow> access \<Rightarrow> bool" where
  "flags_allow c flags acc \<longleftrightarrow> (bit flags 5 \<longrightarrow> acc \<noteq> Fetch \<and> ctl_sum c) \<and>
     (case acc of Load \<Rightarrow> True | Store \<Rightarrow> bit flags 3 | Fetch \<Rightarrow> bit flags 4)"

lemma flag_test: "n < 32 \<Longrightarrow> (flags :: u32) AND push_bit n 1 \<noteq> 0 \<longleftrightarrow> bit flags n"
  using and_exp_eq_0_iff_not_bit [of flags n] by (simp add: push_bit_of_1)

lemma perm_allows: "pte_allows c acc (perm_from_flags flags) = flags_allow c flags acc"
proof -
  have "bit (perm_from_flags flags) 1" "bit (perm_from_flags flags) 2 = bit flags 3"
    "bit (perm_from_flags flags) 3 = bit flags 4" "bit (perm_from_flags flags) 4 = bit flags 5"
    unfolding perm_from_flags_def Let_def K_MEM_PERM_RW_def K_MEM_PERM_EXEC_def K_MEM_PERM_USER_def
    by (simp_all only: flag_test) (auto simp: flag_test bit_simps flag_bits)
  then show ?thesis by (cases acc) (auto simp: pte_allows_def flags_allow_def)
qed

definition pages_of :: "nat \<Rightarrow> nat" where
  "pages_of sz = (sz + 4095) div 4096"

text \<open>A range that can be mapped: page aligned, below the hole of the address space, no superpage leaf
  above any of its pages, and tables for the regions it enters.\<close>

definition can_map_range :: "u64 \<Rightarrow> nat \<Rightarrow> 'z zmmu_scheme \<Rightarrow> bool" where
  "can_map_range virt n s \<longleftrightarrow> range_ok (2 ^ 38) virt n \<and>
     (\<forall>j < n. path_clear (mem s) 2 2 (kernel_root s) (page_no virt j)) \<and> 2 + tables_needed virt 1 n \<le> zroom s"

lemma arch_mem_map_run:
  assumes "zmmu_ok s" "can_map_range virt (pages_of sz) s" "range_ok (2 ^ 56) phys (pages_of sz)"
  shows "\<exists>s'. arch_mem_map virt phys sz flags s = Some (zfence s') \<and>
    range_written virt phys (perm_from_flags flags) 0 (pages_of sz) s s'"
proof -
  let ?n = "pages_of sz"
  from assms(2) have v: "range_ok (2 ^ 38) virt ?n" and cl: "\<forall>j < ?n. path_clear (mem s) 2 2 (kernel_root s) (page_no virt j)"
    and room: "2 + tables_needed virt 1 ?n \<le> zroom s" by (auto simp: can_map_range_def)
  have "(if 0 < ?n then missing_tables (mem s) 2 2 (kernel_root s) (page_no virt 0) else 0) + tables_needed virt (Suc 0) ?n \<le> zroom s"
    using room missing_tables_le [of "mem s" 2 2 "kernel_root s" "page_no virt 0"] by (cases "0 < ?n") auto
  from map_range_run [OF v assms(3) perm_from_flags_ok pages_of_def _ assms(1) _ this, of flags] cl
  show ?thesis by (auto simp: arch_mem_map_def)
qed

text \<open>
  C5. \<open>arch_mem_map\<close> on a range it has tables for: it returns, the tables stay well formed, the
  address space has the frames from \<open>phys\<close> on, with the rights the flags ask for, on exactly the pages
  of the range and is unchanged elsewhere, no word outside the tables is written and no translation
  stays cached.
\<close>

theorem arch_mem_map_refines:
  assumes "zmmu_ok s" "can_map_range virt (pages_of sz) s" "range_ok (2 ^ 56) phys (pages_of sz)"
  shows "\<exists>s'. arch_mem_map virt phys sz flags s = Some s' \<and> zmmu_ok s' \<and> ztlb s' = [] \<and>
    (\<forall>c acc va. zspace c s' acc va =
      (if in_pages virt 0 (pages_of sz) va then if flags_allow c flags acc then Some (phys + (va - virt)) else None
       else zspace c s acc va)) \<and>
    (\<forall>x. x \<notin> table_words (ztables s') \<longrightarrow> mem s' x = mem s x)"
proof -
  from arch_mem_map_run [OF assms] obtain s' where "arch_mem_map virt phys sz flags s = Some (zfence s')"
    "range_written virt phys (perm_from_flags flags) 0 (pages_of sz) s s'" by blast
  then show ?thesis by (intro exI [of _ "zfence s'"]) (simp add: range_written_def range_space_def perm_allows)
qed

section \<open>Unmapping a range\<close>

lemma zero_entry [simp]: "\<not> is_branch 0" "entry_xlat c acc va n 0 = None"
  by (simp_all add: is_branch_def entry_xlat_def pte_valid_def)

text \<open>Where no superpage leaf lies above the page, exactly the page goes.\<close>

lemma unmap_page_space:
  assumes ok: "zmmu_ok s" and cl: "path_clear (mem s) 2 2 (kernel_root s) va"
  shows "zmmu_ok (unmap_page va s)" "tables_only s (unmap_page va s)" "ztables (unmap_page va s) = ztables s"
    "zspace c (unmap_page va s) acc va' = (if same_block 0 va va' then None else zspace c s acc va')"
    "path_clear (mem s) 2 2 (kernel_root s) va' \<Longrightarrow> path_clear (mem (unmap_page va s)) 2 2 (kernel_root s) va'"
    "x \<notin> table_words (ztables s) \<Longrightarrow> mem (unmap_page va s) x = mem s x"
proof -
  obtain n a where st: "zstop s va = (n, a)" by fastforce
  note st' = st [unfolded zstop_def]
  have u: "unmap_page va s = (if n = 0 then st64 a 0 s else s)"
    using path_clear_stop [OF _ st', of 2] cl by (auto simp: unmap_page_def unmap_stop st')
  note se = set_entry [OF ok st, of 0]
  show "zmmu_ok (unmap_page va s)" "tables_only s (unmap_page va s)" "ztables (unmap_page va s) = ztables s"
    using se ok by (simp_all add: u)
  show "x \<notin> table_words (ztables s) \<Longrightarrow> mem (unmap_page va s) x = mem s x" using se(3) by (auto simp: u)
  show "zspace c (unmap_page va s) acc va' = (if same_block 0 va va' then None else zspace c s acc va')"
  proof (cases "n = 0")
    case False
    then have i: "\<not> bit (mem s a) 0" using path_clear_stop [OF _ st', of 2] cl by auto
    have "zspace c s acc va' = None" if "same_block 0 va va'"
    proof -
      have "same_block n va va'" using that by (auto simp: same_block_def)
      from zspace_stop [OF ok zstop_block [OF st this]] i show ?thesis by (simp add: entry_xlat_def pte_valid_def)
    qed
    with False show ?thesis by (simp add: u)
  qed (simp add: u se(4))
  show "path_clear (mem (unmap_page va s)) 2 2 (kernel_root s) va'" if "path_clear (mem s) 2 2 (kernel_root s) va'"
  proof (cases "n = 0")
    case True
    obtain n' b where nb: "zstop s va' = (n', b)" by fastforce
    with se(2) [of va'] have "stop_at (mem (st64 a 0 s)) 2 (kernel_root s) va' = (n', b)" by (simp add: zstop_def)
    with nb that True show ?thesis
      using path_clear_stop [of 2 2 "mem s" "kernel_root s" va' n' b] path_clear_stop [of 2 2 "mem (st64 a 0 s)" "kernel_root s" va' n' b]
      by (auto simp: u zstop_def)
  qed (simp add: u that)
qed

lemma unmap_range_run:
  assumes "range_ok (2 ^ 38) virt n" "n = pages_of sz"
  shows "k \<le> n \<Longrightarrow> zmmu_ok s \<Longrightarrow> \<forall>j. k \<le> j \<and> j < n \<longrightarrow> path_clear (mem s) 2 2 (kernel_root s) (page_no virt j) \<Longrightarrow>
    let s' = unmap_range virt sz (4096 * k) s in zmmu_ok s' \<and> tables_only s s' \<and> ztables s' = ztables s \<and>
      (\<forall>c acc va. zspace c s' acc va = (if in_pages virt k n va then None else zspace c s acc va)) \<and>
      (\<forall>x. x \<notin> table_words (ztables s) \<longrightarrow> mem s' x = mem s x)"
proof (induction "n - k" arbitrary: k s)
  case 0
  then have "\<not> 4096 * k < sz" using assms(2) by (auto simp: pages_of_def)
  then have "unmap_range virt sz (4096 * k) s = s" by (subst unmap_range.simps) simp
  with 0 show ?case by (auto simp: in_pages_def)
next
  case (Suc d)
  then have k: "k < n" and lt: "4096 * k < sz" using assms(2) by (auto simp: pages_of_def)
  let ?va = "page_no virt k"
  let ?s = "unmap_page ?va s"
  have cl: "path_clear (mem s) 2 2 (kernel_root s) ?va" using Suc.prems k by simp
  note up = unmap_page_space [OF Suc.prems(2) cl]
  have r: "kernel_root ?s = kernel_root s" using tables_onlyD [OF up(2)] by simp
  have step: "unmap_range virt sz (4096 * k) s = unmap_range virt sz (4096 * Suc k) ?s"
    using lt by (subst unmap_range.simps) (simp add: page_no_def add.commute)
  define s' where "s' = unmap_range virt sz (4096 * Suc k) ?s"
  have "let s' = unmap_range virt sz (4096 * Suc k) ?s in zmmu_ok s' \<and> tables_only ?s s' \<and> ztables s' = ztables ?s \<and>
      (\<forall>c acc va. zspace c s' acc va = (if in_pages virt (Suc k) n va then None else zspace c ?s acc va)) \<and>
      (\<forall>x. x \<notin> table_words (ztables ?s) \<longrightarrow> mem s' x = mem ?s x)"
    by (rule Suc.hyps(1)) (use Suc.hyps(2) Suc.prems k up(1,5) r in auto)
  then have ih: "zmmu_ok s'" "tables_only ?s s'" "ztables s' = ztables s"
    "\<And>c acc va. zspace c s' acc va = (if in_pages virt (Suc k) n va then None else zspace c ?s acc va)"
    "\<And>x. x \<notin> table_words (ztables s) \<Longrightarrow> mem s' x = mem s x"
    using up(3,6) by (simp_all add: s'_def Let_def)
  have "zspace c s' acc va = (if in_pages virt k n va then None else zspace c s acc va)" for c acc va
    using ih(4) [of c acc va] up(4) [of c acc va] same_page_interval [OF assms(1) k, of va] zspace_noncanonical [of va c s acc] k
    by (auto simp: in_pages_def)
  then show ?case
    using ih tables_only_trans [OF up(2) ih(2)] unfolding step s'_def [symmetric] Let_def by blast
qed

text \<open>
  C14. Mapping a range and unmapping it again: where nothing was mapped before, \<open>arch_mem_unmap\<close> after
  \<open>arch_mem_map\<close> gives back the original address space, with well-formed tables and nothing cached.
\<close>

theorem map_unmap_roundtrip:
  assumes "zmmu_ok s" "can_map_range virt (pages_of sz) s" "range_ok (2 ^ 56) phys (pages_of sz)"
    "\<forall>c acc va. in_pages virt 0 (pages_of sz) va \<longrightarrow> zspace c s acc va = None"
  shows "\<exists>s'. arch_mem_map virt phys sz flags s = Some s' \<and> zmmu_ok (arch_mem_unmap virt sz s') \<and>
    ztlb (arch_mem_unmap virt sz s') = [] \<and> (\<forall>c acc va. zspace c (arch_mem_unmap virt sz s') acc va = zspace c s acc va)"
proof -
  from arch_mem_map_run [OF assms(1-3)] obtain s' where m: "arch_mem_map virt phys sz flags s = Some (zfence s')"
    and w: "range_written virt phys (perm_from_flags flags) 0 (pages_of sz) s s'" by blast
  from assms(2) have v: "range_ok (2 ^ 38) virt (pages_of sz)" by (simp add: can_map_range_def)
  have ok: "zmmu_ok (zfence s')" using w by (simp add: range_written_def)
  have cl: "\<forall>j. 0 \<le> j \<and> j < pages_of sz \<longrightarrow>
      path_clear (mem (zfence s')) 2 2 (kernel_root (zfence s')) (page_no virt j)"
    using w assms(2) by (simp add: range_written_def can_map_range_def)
  from unmap_range_run [OF v refl _ ok cl] w assms(4) m show ?thesis
    by (intro exI [of _ "zfence s'"]) (auto simp: arch_mem_unmap_def range_written_def Let_def)
qed

end
