(* ===== verification/ZInit.thy ===== *)
theory ZInit
  imports ZRange
begin

text \<open>
  The tables \<open>z_riscv_mmu_init\<close> builds at boot, and the concrete states on which the theorems about the
  kernel's table functions are exercised.
\<close>

section \<open>The boot-time address space\<close>

text \<open>The loop over the image is the loop of a range mapped onto itself.\<close>

lemma map_image_range:
  assumes "unat start + sz < 2 ^ 64"
  shows "map_image (unat start + off) (unat start + sz) s =
    map_range start start (PTE_R OR PTE_W OR PTE_X) sz off s"
proof (induction "sz - off" arbitrary: off s rule: less_induct)
  case less
  have "of_nat (unat start + off) = start + of_nat off" by simp
  with less show ?case
    by (subst map_range.simps, subst map_image.simps) (auto simp: add.assoc split: bind_split)
qed

lemma satp_fields:
  assumes "page_aligned root" "drop_bit 56 root = 0"
  defines "v \<equiv> push_bit 60 SATP_MODE_SV39 OR drop_bit 12 root"
  shows "drop_bit 60 v = SATP_MODE_SV39" "push_bit 12 (v AND mask 44) = root"
proof -
  have "drop_bit 60 (drop_bit 12 root) = 0"
    by (rule drop_bit_0I) (use drop_bit_0_bit [OF assms(2)] in \<open>auto simp: bit_simps\<close>)
  then show "drop_bit 60 v = SATP_MODE_SV39" by (simp add: v_def platform_consts)
  show "push_bit 12 (v AND mask 44) = root"
  proof (rule bit_word_eqI)
    fix n assume "n < LENGTH(64)"
    then show "bit (push_bit 12 (v AND mask 44)) n = bit root n"
      using page_aligned_bit [OF assms(1), of n] drop_bit_0_bit [OF assms(2), of n]
      by (cases "n < 12"; cases "n < 56") (auto simp: v_def bit_simps)
  qed
qed

definition boot_space :: "u64 \<Rightarrow> nat \<Rightarrow> access \<Rightarrow> u64 \<Rightarrow> u64 option" where
  "boot_space start n acc va =
     (if va < GIGAPAGE_SIZE then (if acc = Fetch then None else Some va)
      else if in_pages start 0 n va then Some va else None)"

text \<open>The root with the device gigapage.\<close>

lemma device_root:
  assumes po: "zpool_ok s" and empty: "ztables s = {}" and al: "alloc_table s = Some (root, s1)"
  defines "g \<equiv> map_gigapage 0 0 (PTE_R OR PTE_W) (s1\<lparr>kernel_root := root\<rparr>)"
  shows "zmmu_ok g" "kernel_root g = root" "zroom g = zroom s1" "ztables g = {root}"
    "i < 512 \<Longrightarrow> mem g (slot root i) = (if i = 0 then pte_leaf 0 (PTE_R OR PTE_W) else 0)"
    "zspace c g acc va = (if va < GIGAPAGE_SIZE \<and> acc \<noteq> Fetch then Some va else None)"
    "(\<And>i. i < 512 \<Longrightarrow> x \<noteq> slot root i) \<Longrightarrow> mem g x = mem s x"
proof -
  note fresh = zpool.alloc_fresh [OF po al]
  have root: "page_aligned root" "ztables s1 = {root}" using fresh empty by auto
  have v0: "vpn_ix 2 0 = 0" by (simp add: vpn_ix_def)
  have g: "g = st64 (slot root 0) (pte_leaf 0 (PTE_R OR PTE_W)) (s1\<lparr>kernel_root := root\<rparr>)"
    unfolding g_def map_gigapage_def by (simp add: v0 map_leaf)
  show kr: "kernel_root g = root" by (simp add: g)
  show "zroom g = zroom s1" by (simp add: g zroom_def)
  show tg: "ztables g = {root}" using root by (simp add: g ztables_def table_at_def)
  show e: "mem g (slot root i) = (if i = 0 then pte_leaf 0 (PTE_R OR PTE_W) else 0)" if "i < 512" for i
    using that zpool.alloc_zero [OF po al that] slot_eq_iff [OF root(1) that root(1), of 0] by (simp add: g)
  show "(\<And>i. i < 512 \<Longrightarrow> x \<noteq> slot root i) \<Longrightarrow> mem g x = mem s x"
    using zpool.alloc_frame [OF po al, of x] by (simp add: g)
  have "\<not> is_branch (mem g (slot root i))" if "i < 512" for i
    using e [OF that] not_branch_leaf perm_ok_kernel by simp
  then have "wf_tables (\<lambda>_. 2) {root} root (mem g)" by (rule wf_leaf_root [OF root(1)])
  moreover have "zpool_ok g" using zpool.alloc_ok [OF po al] by (simp add: g zpool_ok_def)
  ultimately show "zmmu_ok g" by (auto simp: zmmu_ok_def zpool.tables_ok_def kr tg)
  have sp: "zspace c g acc va = addr_space c root g acc va" by (simp add: zspace_def addr_space_def kr)
  show "zspace c g acc va = (if va < GIGAPAGE_SIZE \<and> acc \<noteq> Fetch then Some va else None)"
  proof (cases "vpn_ix 2 va = 0")
    case True
    then have "mem g (slot root (vpn_ix 2 va)) = pte_leaf (push_bit 30 0) (PTE_R OR PTE_W)" using e by simp
    from translate_gigapage [OF this _ True perm_ok_kernel(1)] show ?thesis
      unfolding sp by (simp add: kernel_allows in_gigapage)
  next
    case False
    then have "mem g (slot root (vpn_ix 2 va)) = 0" using e by simp
    then have "addr_space c root g acc va = None"
      by (simp add: addr_space_def sv39_translate_def sv39_walk_eq pte_valid_def)
    moreover have "\<not> va < GIGAPAGE_SIZE" using False gigapage_index [of 0 va] in_gigapage(1) by auto
    ultimately show ?thesis by (simp add: sp)
  qed
qed

text \<open>The image, mapped behind the device gigabyte.\<close>

lemma image_mapped:
  assumes "range_ok (2 ^ 38) start n" "2 ^ 30 \<le> uint start" "n = pages_of sz" "zmmu_ok g" "2 + tables_needed start 1 n \<le> zroom g"
    and blank: "\<And>i. i < 512 \<Longrightarrow> i \<noteq> 0 \<Longrightarrow> mem g (slot (kernel_root g) i) = 0"
  shows "\<exists>s'. map_range start start (PTE_R OR PTE_W OR PTE_X) sz 0 g = Some s' \<and>
    range_written start start (PTE_R OR PTE_W OR PTE_X) 0 n g s'"
proof -
  have img: "range_ok (2 ^ 56) start n" using assms(1) by (auto simp: range_ok_def)
  have high: "vpn_ix 2 (page_no start j) \<noteq> 0" if "j < n" for j
  proof
    assume z: "vpn_ix 2 (page_no start j) = 0"
    have u: "uint (page_no start j) = uint start + 4096 * int j" by (rule uint_page_no [OF assms(1) _ that]) simp
    then have "va_canonical (page_no start j)" using assms(1) that by (intro canonical_low_uint) (auto simp: range_ok_def)
    with z gigapage_index [of 0] in_gigapage(1) have "page_no start j < GIGAPAGE_SIZE" by auto
    with u assms(2) show False by (simp add: word_less_def platform_consts push_bit_eq_mult)
  qed
  have cl: "path_clear (mem g) 2 2 (kernel_root g) (page_no start j)" if "j < n" for j
    using high [OF that] blank by (simp add: numeral_2_eq_2 Let_def)
  have "(if 0 < n then missing_tables (mem g) 2 2 (kernel_root g) (page_no start 0) else 0) + tables_needed start (Suc 0) n \<le> zroom g"
    using assms(5) missing_tables_le [of "mem g" 2 2 "kernel_root g" "page_no start 0"] by (cases "0 < n") auto
  from map_range_run [OF assms(1) img perm_ok_kernel(2) assms(3) [unfolded pages_of_def] _ assms(4) _ this] cl
  show ?thesis by auto
qed

text \<open>
  C12. From an unused pool \<open>z_riscv_mmu_init\<close> builds well-formed tables whose address space is the
  identity on data accesses to the device gigabyte and on every access to the pages of the image, and
  faults everywhere else; \<open>satp\<close> selects Sv39 and holds the root, no translation is cached and no word
  outside the tables is written.
\<close>

theorem mmu_init_space:
  assumes "zpool_ok s" "True \<notin> set (mmu_table_used s)" "2 ^ 30 \<le> uint start" "start \<le> end_addr"
    "n = pages_of (unat end_addr - unat start)" "range_ok (2 ^ 38) start n"
    "3 + tables_needed start 1 n \<le> length (mmu_table_used s)"
  shows "\<exists>s'. z_riscv_mmu_init start end_addr s = Some s' \<and> zmmu_ok s' \<and> ztlb s' = [] \<and>
    drop_bit 60 (zsatp s') = SATP_MODE_SV39 \<and> push_bit 12 (zsatp s' AND mask 44) = kernel_root s' \<and>
    (\<forall>c acc va. zspace c s' acc va = boot_space start n acc va) \<and>
    (\<forall>x. x \<notin> table_words (ztables s') \<longrightarrow> mem s' x = mem s x)"
proof -
  have empty: "ztables s = {}" using assms(2) by (auto simp: ztables_def in_set_conv_nth)
  have "length (filter Not u) = length u" if "True \<notin> set u" for u using that by (induction u) auto
  then have room: "zroom s = length (mmu_table_used s)" using assms(2) by (simp add: zroom_def)
  then have "0 < zroom s" using assms(7) by linarith
  from zpool.alloc_room [OF assms(1) this] obtain root s1 where al: "alloc_table s = Some (root, s1)" by blast
  define g where "g = map_gigapage 0 0 (PTE_R OR PTE_W) (s1\<lparr>kernel_root := root\<rparr>)"
  note d = device_root [OF assms(1) empty al, folded g_def]
  have roomg: "2 + tables_needed start 1 n \<le> zroom g"
    using d(3) room assms(7) zpool.alloc_less_room [OF assms(1) al] by simp
  have sz: "unat start + (unat end_addr - unat start) = unat end_addr" using assms(4) by (simp add: word_le_nat_alt)
  from image_mapped [OF assms(6,3,5) d(1) roomg] d(2,5)
  obtain s2 where m: "map_range start start (PTE_R OR PTE_W OR PTE_X) (unat end_addr - unat start) 0 g = Some s2"
    and w: "range_written start start (PTE_R OR PTE_W OR PTE_X) 0 n g s2" by auto
  let ?v = "push_bit 60 SATP_MODE_SV39 OR drop_bit 12 (kernel_root s2)"
  have lim: "unat end_addr < 2 ^ 64" using unsigned_less [of end_addr] by simp
  have init: "z_riscv_mmu_init start end_addr s = Some (zfence (s2\<lparr>zsatp := ?v\<rparr>))"
    using m map_image_range [of start "unat end_addr - unat start" 0 g] lim sz
    by (simp add: z_riscv_mmu_init_def al g_def [symmetric] Let_def)
  have kr: "kernel_root s2 = root" using w tables_onlyD [of g s2] d(2) by (simp add: range_written_def)
  have root: "page_aligned (kernel_root s2)" "drop_bit 56 (kernel_root s2) = 0" using zpool.alloc_fresh [OF assms(1) al] kr by auto
  have sp: "zspace c s2 acc va = boot_space start n acc va" for c acc va
  proof -
    have "\<not> va < GIGAPAGE_SIZE" if "in_pages start 0 n va"
      using that assms(3) by (simp add: in_pages_def word_less_def platform_consts push_bit_eq_mult)
    then show ?thesis
      using w d(6) [of c acc va] by (auto simp: range_written_def boot_space_def range_space_def kernel_allows)
  qed
  have fr: "mem s2 x = mem s x" if "x \<notin> table_words (ztables s2)" for x
  proof -
    have "root \<in> ztables s2" using w d(4) by (auto simp: range_written_def)
    then have "x \<noteq> slot root i" if "i < 512" for i using \<open>x \<notin> _\<close> that by auto
    then show ?thesis using that w d(7) [of x] by (simp add: range_written_def)
  qed
  have "zmmu_ok (s2\<lparr>zsatp := ?v\<rparr>) = zmmu_ok s2"
    by (simp add: zmmu_ok_def zpool.tables_ok_def ztables_def zpool_ok_def table_at_def)
  moreover have "ztables (s2\<lparr>zsatp := ?v\<rparr>) = ztables s2" by (simp add: ztables_def table_at_def)
  moreover have "zspace c (s2\<lparr>zsatp := ?v\<rparr>) = zspace c s2" for c by (simp add: zspace_def fun_eq_iff)
  ultimately show ?thesis
    using w sp fr satp_fields [OF root] init
    by (intro exI [of _ "zfence (s2\<lparr>zsatp := ?v\<rparr>)"]) (simp add: range_written_def)
qed

section \<open>Concrete states\<close>

text \<open>An unused pool of eight tables, and the same pool with an empty root.\<close>

definition demo_pool :: "zmmu" where
  "demo_pool = \<lparr>mem = (\<lambda>_. 0), mmu_tables = 0x80010000, mmu_table_used = replicate 8 False,
     kernel_root = 0, mmu_fault_fixup = 0, zsatp = 0, ztlb = [(0, 0, 0)]\<rparr>"

definition demo_root :: "zmmu" where
  "demo_root = demo_pool\<lparr>kernel_root := 0x80010000, mmu_table_used := True # replicate 7 False\<rparr>"

lemma demo_zpool_ok: "zpool_ok demo_pool" "zpool_ok demo_root"
  by (simp_all add: zpool_ok_def demo_pool_def demo_root_def page_aligned_def take_bit_eq_mod)

lemma demo_root_tables: "ztables demo_root = {0x80010000}" "zroom demo_root = 7"
proof -
  show "zroom demo_root = 7" by (simp add: zroom_def demo_root_def demo_pool_def)
  have "(True # replicate 7 False) ! i \<longleftrightarrow> i = 0" if "i < 8" for i using that by (cases i) auto
  then show "ztables demo_root = {0x80010000}"
    by (auto simp: ztables_def demo_root_def demo_pool_def table_at_def intro: exI [of _ 0])
qed

lemma demo_root_ok: "zmmu_ok demo_root"
proof -
  have "wf_tables (\<lambda>_. 2) {0x80010000} 0x80010000 (mem demo_root)"
    by (rule wf_leaf_root) (simp_all add: page_aligned_def take_bit_eq_mod demo_root_def demo_pool_def)
  then show ?thesis
    using demo_zpool_ok demo_root_tables unfolding zmmu_ok_def zpool.tables_ok_def
    by (auto simp: demo_root_def)
qed

lemma demo_root_empty:
  "path_clear (mem demo_root) k 2 (kernel_root demo_root) va" "zspace c demo_root acc va = None"
  by (cases k; simp add: demo_root_def demo_pool_def zspace_def sv39_translate_def sv39_walk_eq pte_valid_def Let_def)+

lemma demo_root_range:
  "range_ok (2 ^ 38) 0xC0000000 2" "range_ok (2 ^ 56) 0x80200000 2" "can_map_range 0xC0000000 2 demo_root"
proof -
  show r: "range_ok (2 ^ 38) 0xC0000000 2" "range_ok (2 ^ 56) 0x80200000 2"
    by (simp_all add: range_ok_def page_aligned_def take_bit_eq_mod)
  have "tables_needed 0xC0000000 1 2 = 0"
    by (simp add: tables_needed_def page_no_def vpn_ix_def upt_rec flip: mask9_u64)
  then show "can_map_range 0xC0000000 2 demo_root"
    using r demo_root_empty(1) demo_root_tables(2) by (simp add: can_map_range_def)
qed

theorem mmu_init_space_witness:
  "\<exists>s'. z_riscv_mmu_init 0x80000000 0x80003000 demo_pool = Some s' \<and> zmmu_ok s' \<and>
     zspace demo_ctl s' Load 0x10000000 = Some 0x10000000 \<and> zspace demo_ctl s' Fetch 0x10000000 = None \<and>
     zspace demo_ctl s' Fetch 0x80002008 = Some 0x80002008 \<and> zspace demo_ctl s' Load 0x80003000 = None"
proof -
  have "tables_needed 0x80000000 1 3 = 0"
    by (simp add: tables_needed_def page_no_def vpn_ix_def upt_rec flip: mask9_u64)
  then have "3 + tables_needed 0x80000000 1 3 \<le> length (mmu_table_used demo_pool)" by (simp add: demo_pool_def)
  moreover have "range_ok (2 ^ 38) 0x80000000 3" by (simp add: range_ok_def page_aligned_def take_bit_eq_mod)
  ultimately show ?thesis
    using mmu_init_space [OF demo_zpool_ok(1), of "0x80000000" "0x80003000" 3]
    by (auto simp: demo_pool_def pages_of_def boot_space_def in_pages_def platform_consts push_bit_eq_mult)
qed

theorem arch_mem_map_refines_witness:
  "zmmu_ok demo_root \<and> can_map_range 0xC0000000 (pages_of 8000) demo_root \<and>
   (\<exists>s'. arch_mem_map 0xC0000000 0x80200000 8000 K_MEM_PERM_RW demo_root = Some s' \<and>
     zspace demo_ctl s' Store 0xC0001010 = Some 0x80201010 \<and> zspace demo_ctl s' Fetch 0xC0001010 = None \<and>
     zspace demo_ctl s' Store 0xC0002000 = None)"
proof -
  have n: "pages_of 8000 = 2" by (simp add: pages_of_def)
  show ?thesis
    using arch_mem_map_refines [of demo_root "0xC0000000" 8000 "0x80200000" K_MEM_PERM_RW, unfolded n]
      demo_root_ok demo_root_range
    by (auto simp: n in_pages_def flags_allow_def K_MEM_PERM_RW_def demo_root_empty(2) bit_simps)
qed

theorem map_unmap_roundtrip_witness:
  "zmmu_ok demo_root \<and> can_map_range 0xC0000000 (pages_of 8000) demo_root \<and>
   (\<exists>s'. arch_mem_map 0xC0000000 0x80200000 8000 K_MEM_PERM_RW demo_root = Some s' \<and>
     zspace demo_ctl (arch_mem_unmap 0xC0000000 8000 s') Store 0xC0001010 = None)"
proof -
  have n: "pages_of 8000 = 2" by (simp add: pages_of_def)
  show ?thesis
    using map_unmap_roundtrip [of demo_root "0xC0000000" 8000 "0x80200000" K_MEM_PERM_RW, unfolded n]
      demo_root_ok demo_root_range by (auto simp: n demo_root_empty(2))
qed

theorem map_raw_refines_witness:
  "zmmu_ok demo_root \<and> can_map demo_root 1 0xE0000000 \<and>
   (\<exists>s'. z_riscv_mmu_map_raw 0xE0000000 0x80000000 (PTE_V OR PTE_R OR PTE_A OR PTE_D) 1 demo_root = Some s' \<and>
     zspace demo_ctl s' Load 0xE01FF000 = Some 0x801FF000 \<and> zspace demo_ctl s' Load 0xE0200000 = None)"
proof -
  let ?e = "phys_to_ppn 0x80000000 OR (PTE_V OR PTE_R OR PTE_A OR PTE_D)"
  have e: "?e = pte_leaf 0x80000000 PTE_R"
    by (simp add: phys_to_ppn_def pte_leaf_def platform_consts)
  have p: "perm_ok PTE_R" by (auto simp: perm_ok_def bit_simps flag_bits)
  have al: "span_aligned 1 0xE0000000" "span_aligned 1 0x80000000" by (simp_all add: span_aligned_def take_bit_eq_mod)
  have can: "can_map demo_root 1 0xE0000000"
    using demo_root_empty(1) [of "2 - 1"] demo_root_tables(2)
      missing_tables_le [of "mem demo_root" "2 - 1" 2 "kernel_root demo_root" "0xE0000000"]
    unfolding can_map_def by (intro conjI) (blast, linarith)
  have b: "same_block 1 0xE0000000 0xE01FF000" "\<not> same_block 1 0xE0000000 0xE0200000"
    unfolding same_region_iff by (simp_all add: vpn_ix_def flip: mask9_u64)
  have x: "entry_xlat demo_ctl Load 0xE01FF000 1 (pte_leaf 0x80000000 PTE_R) = Some 0x801FF000"
    using canonical_low_uint [of "0xE01FF000"]
    by (subst entry_xlat_leaf [OF p]) (simp_all add: take_bit_eq_mod pte_allows_def bit_simps flag_bits take_bit_eq_mask [symmetric] mask_eq_exp_minus_1)
  show ?thesis
    using map_raw_refines [OF demo_root_ok _ al can, of "PTE_V OR PTE_R OR PTE_A OR PTE_D"] not_branch_leaf [OF p]
      can demo_root_ok b x by (auto simp: e demo_root_empty(2))
qed

end
