(* ===== verification/ZTest.thy ===== *)
theory ZTest
  imports ZInit Run Atomics
begin

text \<open>
  The stage on which the Zephyr suites of \<^verbatim>\<open>zephyr-suite\<close> run: a hart with a translation cache that
  accesses memory through the kernel's tables, the page-fault path of the patched \<open>z_riscv_fault\<close>
  with its resolver hook, and the verdicts of the test framework. The backing pages of the tests are
  identity mapped by the kernel; accesses to them by their own address are accesses to physical
  memory.
\<close>

section \<open>The hart\<close>

text \<open>
  \<open>tlb_choice k\<close> says which of the cached entries the \<open>k\<close>-th access uses, if any: an arbitrary
  function stands for every replacement policy and every amount of staleness. Expectations, the counter of
  repaired faults and the verdict are the variables of the suites.
\<close>

record ztest = zmmu +
  hart_ctl :: mmu_ctl
  tlb_choice :: "nat \<Rightarrow> nat option"
  accesses :: nat
  zscause :: u64
  zstval :: u64
  expect_fault :: bool
  expected_scause :: u64
  expected_stval :: u64
  fix_count :: c_int
  verdict :: "bool option"

definition cached :: "u64 \<Rightarrow> 'z zmmu_scheme \<Rightarrow> (u64 \<times> nat \<times> u64) list" where
  "cached va s = filter (\<lambda>(v, n, e). same_block n v va) (ztlb s)"

text \<open>The deciding entry of an address as the tables in memory have it.\<close>

definition entry_at :: "'z zmmu_scheme \<Rightarrow> u64 \<Rightarrow> nat \<times> u64" where
  "entry_at s va = (case zstop s va of (n, a) \<Rightarrow> (n, mem s a))"

text \<open>A cached entry whose A or D bit the hardware would have to set is read again.\<close>

definition used_entry :: "access \<Rightarrow> u64 \<Rightarrow> 'z ztest_scheme \<Rightarrow> nat \<times> u64" where
  "used_entry acc va s =
     (case tlb_choice s (accesses s) of
        None \<Rightarrow> entry_at s va
      | Some i \<Rightarrow>
          if i < length (cached va s) \<and> \<not> (ctl_svadu (hart_ctl s) \<and> needs_ad acc (snd (snd (cached va s ! i))))
          then snd (cached va s ! i) else entry_at s va)"

definition access_once :: "access \<Rightarrow> u64 \<Rightarrow> 'z ztest_scheme \<Rightarrow> u64 option \<times> 'z ztest_scheme" where
  "access_once acc va s =
     (case used_entry acc va s of (n, e) \<Rightarrow>
      case entry_xlat (hart_ctl s) acc va n e of
        None \<Rightarrow> (None, s\<lparr>accesses := Suc (accesses s), ztlb := (va, n, e) # ztlb s,
                         zscause := fault_cause acc, zstval := va\<rparr>)
      | Some pa \<Rightarrow>
          (Some pa, (if needs_ad acc e then st64 (snd (zstop s va)) (set_ad acc e) else id)
             (s\<lparr>accesses := Suc (accesses s),
                ztlb := (va, n, if needs_ad acc e then set_ad acc e else e) # ztlb s\<rparr>)))"

definition zfence_addr :: "u64 \<Rightarrow> 'z zmmu_scheme \<Rightarrow> 'z zmmu_scheme" where
  "zfence_addr va s = s\<lparr>ztlb := filter (\<lambda>(v, n, e). \<not> same_block n v va) (ztlb s)\<rparr>"

section \<open>Faults\<close>

text \<open>The part of \<open>z_riscv_fault\<close> the patch adds; \<open>True\<close> stands for returning to the faulting
  instruction, \<open>False\<close> for going on to the fatal error path.\<close>

definition z_riscv_fault ::
    "(u64 \<Rightarrow> u64 \<Rightarrow> u64 \<Rightarrow> 'z ztest_scheme \<Rightarrow> bool \<times> 'z ztest_scheme) \<Rightarrow> 'z ztest_scheme \<Rightarrow> bool \<times> 'z ztest_scheme" where
  "z_riscv_fault code s =
     (if zscause s = 12 \<or> zscause s = 13 \<or> zscause s = 15
      then z_riscv_mmu_try_fault_fixup code (zscause s) (zstval s) s else (False, s))"

text \<open>An access with its retries: \<open>None\<close> when it is retried for ever, the physical address when it
  succeeds, \<open>Some (None, _)\<close> when the fault is fatal.\<close>

partial_function (option) zaccess ::
    "(u64 \<Rightarrow> u64 \<Rightarrow> u64 \<Rightarrow> 'z ztest_scheme \<Rightarrow> bool \<times> 'z ztest_scheme) \<Rightarrow> access \<Rightarrow> u64 \<Rightarrow> 'z ztest_scheme
       \<Rightarrow> (u64 option \<times> 'z ztest_scheme) option" where
  "zaccess code acc va s =
     (case access_once acc va s of
        (Some pa, s1) \<Rightarrow> Some (Some pa, s1)
      | (None, s1) \<Rightarrow> (case z_riscv_fault code s1 of (retry, s2) \<Rightarrow>
            if retry then zaccess code acc va s2 else Some (None, s2)))"

text \<open>What a suite brings along: its resolver functions and its fatal error handler.\<close>

record 's suite =
  resolver :: "u64 \<Rightarrow> u64 \<Rightarrow> u64 \<Rightarrow> 's \<Rightarrow> bool \<times> 's"
  fatal :: "'s \<Rightarrow> 's run"

definition access_then ::
    "'z ztest_scheme suite \<Rightarrow> access \<Rightarrow> u64 \<Rightarrow> (u64 \<Rightarrow> 'z ztest_scheme \<Rightarrow> 'z ztest_scheme run)
       \<Rightarrow> 'z ztest_scheme \<Rightarrow> 'z ztest_scheme run" where
  "access_then w acc va k s =
     (case zaccess (resolver w) acc va s of
        None \<Rightarrow> Hang
      | Some (Some pa, s') \<Rightarrow> k pa s'
      | Some (None, s') \<Rightarrow> fatal w s')"

definition load_via ::
    "'z ztest_scheme suite \<Rightarrow> u64 \<Rightarrow> (u64 \<Rightarrow> 'z ztest_scheme \<Rightarrow> 'z ztest_scheme run) \<Rightarrow> 'z ztest_scheme \<Rightarrow> 'z ztest_scheme run" where
  "load_via w va k = access_then w Load va (\<lambda>pa s. k (mem s pa) s)"

definition store_via :: "'z ztest_scheme suite \<Rightarrow> u64 \<Rightarrow> u64 \<Rightarrow> 'z ztest_scheme \<Rightarrow> 'z ztest_scheme run" where
  "store_via w va v = access_then w Store va (\<lambda>pa. exec (st64 pa v))"

text \<open>Calling the function at an address: it comes back when the instruction found there is \<open>ret\<close>;
  of other instructions nothing is known.\<close>

definition call_via :: "'z ztest_scheme suite \<Rightarrow> u64 \<Rightarrow> 'z ztest_scheme \<Rightarrow> 'z ztest_scheme run" where
  "call_via w va = access_then w Fetch va (\<lambda>pa s. if ld32 s pa = RET_INSN then Ret s else Hang)"

section \<open>The test framework\<close>

definition ztest_test_fail :: "'z ztest_scheme \<Rightarrow> 'z ztest_scheme run" where
  "ztest_test_fail s = Halt (s\<lparr>verdict := Some False\<rparr>)"

definition ztest_test_pass :: "'z ztest_scheme \<Rightarrow> 'z ztest_scheme run" where
  "ztest_test_pass s = Halt (s\<lparr>verdict := Some True\<rparr>)"

definition zassert :: "('z ztest_scheme \<Rightarrow> bool) \<Rightarrow> 'z ztest_scheme \<Rightarrow> 'z ztest_scheme run" where
  "zassert P s = (if P s then Ret s else ztest_test_fail s)"

definition map_raw :: "u64 \<Rightarrow> u64 \<Rightarrow> u64 \<Rightarrow> nat \<Rightarrow> 'z ztest_scheme \<Rightarrow> 'z ztest_scheme run" where
  "map_raw va pa bits level s = of_option (z_riscv_mmu_map_raw va pa bits level s)"

text \<open>\<open>pte_lookup va k\<close>: continue with the pointer the kernel's lookup returns.\<close>

definition pte_lookup :: "u64 \<Rightarrow> (u64 \<Rightarrow> 'z ztest_scheme \<Rightarrow> 'z ztest_scheme run) \<Rightarrow> 'z ztest_scheme \<Rightarrow> 'z ztest_scheme run" where
  "pte_lookup va k s = k (z_riscv_mmu_pte_lookup va s) s"

text \<open>A test passes when it runs to its end or the framework was told so.\<close>

definition passes :: "'z ztest_scheme run \<Rightarrow> bool" where
  "passes r = (case r of Ret s \<Rightarrow> True | Halt s \<Rightarrow> verdict s = Some True | Hang \<Rightarrow> False)"

section \<open>Accesses\<close>

lemma used_entry_fresh: "(\<And>x. x \<in> set (cached va s) \<Longrightarrow> snd x = entry_at s va) \<Longrightarrow> used_entry acc va s = entry_at s va"
  by (simp add: used_entry_def split: option.splits)

lemma cached_Nil [simp]: "ztlb s = [] \<Longrightarrow> cached va s = []"
  by (simp add: cached_def)

definition after_access :: "u64 \<Rightarrow> nat \<Rightarrow> u64 \<Rightarrow> 'z ztest_scheme \<Rightarrow> 'z ztest_scheme" where
  "after_access va n e s = s\<lparr>accesses := Suc (accesses s), ztlb := (va, n, e) # ztlb s\<rparr>"

lemma zaccess_hit:
  assumes "used_entry acc va s = (n, e)" "entry_xlat (hart_ctl s) acc va n e = Some pa" "\<not> needs_ad acc e"
  shows "zaccess code acc va s = Some (Some pa, after_access va n e s)"
  by (subst zaccess.simps) (simp add: access_once_def assms after_access_def)

lemma zaccess_fault:
  assumes "used_entry acc va s = (n, e)" "entry_xlat (hart_ctl s) acc va n e = None"
  shows "zaccess code acc va s =
    (case z_riscv_fault code ((after_access va n e s)\<lparr>zscause := fault_cause acc, zstval := va\<rparr>) of
       (retry, s2) \<Rightarrow> if retry then zaccess code acc va s2 else Some (None, s2))"
  by (subst zaccess.simps) (simp add: access_once_def assms after_access_def)

lemma zaccess_fatal:
  assumes "used_entry acc va s = (n, e)" "entry_xlat (hart_ctl s) acc va n e = None" "mmu_fault_fixup s = 0"
  shows "zaccess code acc va s =
    Some (None, (after_access va n e s)\<lparr>zscause := fault_cause acc, zstval := va\<rparr>)"
  using assms(3) zaccess_fault [OF assms(1,2)]
  by (simp add: z_riscv_fault_def z_riscv_mmu_try_fault_fixup_def after_access_def)

text \<open>The fields the table functions leave alone.\<close>

lemma tables_only_ztest:
  fixes s :: "'z ztest_scheme"
  assumes "tables_only s s'"
  shows "hart_ctl s' = hart_ctl s" "tlb_choice s' = tlb_choice s" "accesses s' = accesses s"
    "expect_fault s' = expect_fault s" "expected_scause s' = expected_scause s" "expected_stval s' = expected_stval s"
    "fix_count s' = fix_count s" "verdict s' = verdict s" "mmu_fault_fixup s' = mmu_fault_fixup s"
  using assms by (auto simp: tables_only_def)

lemma zfence_ztest [simp]:
  fixes s :: "'z ztest_scheme"
  shows "hart_ctl (zfence s) = hart_ctl s" "tlb_choice (zfence s) = tlb_choice s" "accesses (zfence s) = accesses s"
    "expect_fault (zfence s) = expect_fault s" "expected_scause (zfence s) = expected_scause s"
    "expected_stval (zfence s) = expected_stval s" "fix_count (zfence s) = fix_count s" "verdict (zfence s) = verdict s"
  by (simp_all add: zfence_def)

lemma st64_ztest [simp]:
  fixes s :: "'z ztest_scheme"
  shows "hart_ctl (st64 a v s) = hart_ctl s" "tlb_choice (st64 a v s) = tlb_choice s" "accesses (st64 a v s) = accesses s"
    "expect_fault (st64 a v s) = expect_fault s" "expected_scause (st64 a v s) = expected_scause s"
    "expected_stval (st64 a v s) = expected_stval s" "fix_count (st64 a v s) = fix_count s" "verdict (st64 a v s) = verdict s"
  by (simp_all add: st64_def)

text \<open>Hart and suite variables do not matter for the tables.\<close>

lemma zmmu_ok_cong:
  assumes "mem s' = mem s" "mmu_tables s' = mmu_tables s" "mmu_table_used s' = mmu_table_used s" "kernel_root s' = kernel_root s"
  shows "zmmu_ok s' = zmmu_ok s" "ztables s' = ztables s" "zstop s' va = zstop s va" "entry_at s' va = entry_at s va"
    "zroom s' = zroom s" "zspace c s' acc va = zspace c s acc va"
  using assms
  by (simp_all add: zmmu_ok_def zpool.tables_ok_def zpool_ok_def ztables_def table_at_def zstop_def entry_at_def zroom_def zspace_def)

lemma map_raw_run:
  assumes "zmmu_ok s" "level < 3" "span_aligned level va" "span_aligned level pa" "can_map s level va"
    "\<not> is_branch (phys_to_ppn pa OR bits)"
  obtains s' where "map_raw va pa bits level s = Ret (zfence s')" "leaf_written level va (phys_to_ppn pa OR bits) s s'"
    "entry_at s' va = (level, phys_to_ppn pa OR bits)"
proof -
  from map_at_run [OF assms(1) _ assms(5,6)] assms(2) obtain s'
    where m: "map_at alloc_table level (kernel_root s) va (phys_to_ppn pa OR bits) s = Some s'"
    and w: "leaf_written level va (phys_to_ppn pa OR bits) s s'" by auto
  with that [of s'] map_raw_map_at [OF assms(2-4), of bits s] show thesis
    by (auto simp: map_raw_def leaf_written_def entry_at_def)
qed

text \<open>The words of the pool, used or not.\<close>

definition zpool_words :: "'z zmmu_scheme \<Rightarrow> u64 set" where
  "zpool_words s = table_words {table_at s i | i. i < length (mmu_table_used s)}"

lemma zpool_words_tables: "x \<notin> zpool_words s \<Longrightarrow> x \<notin> table_words (ztables s)"
  using table_words_mono [of "ztables s" "{table_at s i | i. i < length (mmu_table_used s)}"]
  by (auto simp: zpool_words_def ztables_def)

lemma zpool_words_only: "tables_only s s' \<Longrightarrow> zpool_words s' = zpool_words s"
  using tables_onlyD [of s s'] by (simp add: zpool_words_def table_at_def)

lemma zpool_words_cong:
  "mmu_tables s' = mmu_tables s \<Longrightarrow> mmu_table_used s' = mmu_table_used s \<Longrightarrow> zpool_words s' = zpool_words s"
  by (simp add: zpool_words_def table_at_def)

lemma ztable_word_not_null:
  assumes "zmmu_ok s" "0 < mmu_tables s" "a \<in> table_words (ztables s)"
  shows "a \<noteq> 0"
proof -
  from assms(1) have po: "zpool_ok s" by (auto simp: zmmu_ok_def zpool.tables_ok_def)
  from assms(3) obtain k i where k: "k < length (mmu_table_used s)" and i: "i < 512" and a: "a = slot (table_at s k) i"
    by (auto simp: table_words_def ztables_def)
  have "0 < uint (table_at s k)" using uint_table_at [OF po k] assms(2) by (simp add: word_less_def)
  then have "table_at s k \<noteq> 0" by auto
  then obtain n where n: "bit (table_at s k) n" by (auto simp: word_bits_eq_iff)
  note al = table_at_page(1) [OF po k]
  have "bit a n" using n slot_bits [OF al i, of n] page_aligned_bit [OF al, of n] unfolding a by auto
  then show ?thesis by auto
qed

lemma lookup_entry:
  assumes "zmmu_ok s" "0 < mmu_tables s" "zstop s va = (n, a)" "n = 0 \<or> bit (mem s a) 0"
  shows "z_riscv_mmu_pte_lookup va s = a" "a \<noteq> 0"
proof -
  from assms(1) obtain lv where wf: "wf_tables lv (ztables s) (kernel_root s) (mem s)"
    by (auto simp: zmmu_ok_def zpool.tables_ok_def)
  show "z_riscv_mmu_pte_lookup va s = a"
    using assms(3,4) by (simp add: z_riscv_mmu_pte_lookup_def lookup_stop flip: zstop_def)
  from stop_at_slot [OF wf wf_root [OF wf] assms(3) [unfolded zstop_def]] have "a \<in> table_words (ztables s)"
    by (auto intro: slot_in_table_words)
  then show "a \<noteq> 0" by (rule ztable_word_not_null [OF assms(1,2)])
qed

lemma arch_mem_map_page:
  "arch_mem_map va pa 4096 flags s =
     map_option zfence (map_at alloc_table 0 (kernel_root s) va (pte_leaf pa (perm_from_flags flags)) s)"
proof -
  have "map_range va pa perm 4096 0 s = map_page va pa perm s" for perm
    by (subst map_range.simps) (simp add: map_range.simps [of _ _ _ 4096 4096] split: bind_split)
  then show ?thesis by (simp add: arch_mem_map_def map_page_map_at map_leaf split: bind_split)
qed

lemma page_xlat:
  assumes "page_aligned pa" "drop_bit 56 pa = 0" "perm_ok perm" "va_canonical va" "page_aligned va"
  shows "entry_xlat c acc va 0 (pte_leaf pa perm) = (if pte_allows c acc perm then Some pa else None)"
proof -
  have a: "pa AND NOT (mask 12) = pa"
    by (rule bit_word_eqI) (use page_aligned_bit [OF assms(1)] in \<open>auto simp: bit_simps\<close>)
  have "take_bit 12 va = 0" "take_bit 12 pa = 0" using assms(1,5) by (simp_all add: page_aligned_def)
  with a assms show ?thesis by (subst entry_xlat_leaf) simp_all
qed

lemma page_target: "perm_ok perm \<Longrightarrow> page_aligned pa \<Longrightarrow> pte_target (pte_leaf pa perm) = pa"
proof -
  assume p: "perm_ok perm" and al: "page_aligned pa"
  have "pa AND NOT (mask 12) = pa"
    by (rule bit_word_eqI) (use page_aligned_bit [OF al] in \<open>auto simp: bit_simps\<close>)
  then show ?thesis using p by (subst pte_target_leaf) (auto simp: perm_ok_def)
qed

lemma arch_mem_map_page_run:
  assumes "zmmu_ok s" "can_map s 0 va"
  obtains s' where "arch_mem_map va pa 4096 flags s = Some (zfence s')"
    "leaf_written 0 va (pte_leaf pa (perm_from_flags flags)) s s'" "entry_at s' va = (0, pte_leaf pa (perm_from_flags flags))"
proof -
  from map_at_run [OF assms(1) _ assms(2) not_branch_leaf [OF perm_from_flags_ok], of pa flags] obtain s'
    where "map_at alloc_table 0 (kernel_root s) va (pte_leaf pa (perm_from_flags flags)) s = Some s'"
      "leaf_written 0 va (pte_leaf pa (perm_from_flags flags)) s s'" by auto
  with that [of s'] show thesis by (auto simp: arch_mem_map_page leaf_written_def entry_at_def)
qed

section \<open>Entries under the steps of a test\<close>

lemma after_access_simps [simp]:
  "mem (after_access va n e s) = mem s" "mmu_tables (after_access va n e s) = mmu_tables s"
  "mmu_table_used (after_access va n e s) = mmu_table_used s" "kernel_root (after_access va n e s) = kernel_root s"
  "mmu_fault_fixup (after_access va n e s) = mmu_fault_fixup s" "ztlb (after_access va n e s) = (va, n, e) # ztlb s"
  "hart_ctl (after_access va n e s) = hart_ctl s" "fix_count (after_access va n e s) = fix_count s"
  "expect_fault (after_access va n e s) = expect_fault s" "verdict (after_access va n e s) = verdict s"
  by (simp_all add: after_access_def)

lemma after_access_tables [simp]:
  "zmmu_ok (after_access va n e s) = zmmu_ok s" "ztables (after_access va n e s) = ztables s"
  "zstop (after_access va n e s) va' = zstop s va'" "entry_at (after_access va n e s) va' = entry_at s va'"
  "zpool_words (after_access va n e s) = zpool_words s"
  by (simp_all add: zmmu_ok_cong [of "after_access va n e s" s] zpool_words_cong [of "after_access va n e s" s])

lemma st64_pool [simp]: "zpool_words (st64 x v s) = zpool_words s" "zpool_words (zfence s) = zpool_words s"
  by (rule zpool_words_cong; simp)+

lemma entry_at_fence [simp]: "entry_at (zfence s) va = entry_at s va"
  by (simp add: entry_at_def)

lemma stop_in_tables: "zmmu_ok s \<Longrightarrow> snd (zstop s va) \<in> table_words (ztables s)"
  using set_entry(3) [of s va "fst (zstop s va)" "snd (zstop s va)" 0] by simp

lemma store_data:
  assumes "zmmu_ok s" "x \<notin> zpool_words s"
  shows "zmmu_ok (st64 x v s)" "zstop (st64 x v s) va = zstop s va" "entry_at (st64 x v s) va = entry_at s va"
    "can_map (st64 x v s) level va = can_map s level va"
proof -
  note out = zpool_words_tables [OF assms(2)]
  note so = store_outside [OF assms(1) out]
  show "zmmu_ok (st64 x v s)" "can_map (st64 x v s) level va = can_map s level va" by (rule so)+
  show st: "zstop (st64 x v s) va = zstop s va" by (rule so)
  show "entry_at (st64 x v s) va = entry_at s va"
    using stop_in_tables [OF assms(1), of va] out st by (auto simp: entry_at_def split: prod.splits)
qed

lemma store_entry:
  assumes ok: "zmmu_ok s" and st: "zstop s va = (n, a)" and e: "\<not> is_branch e"
  shows "zmmu_ok (st64 a e s)" "zstop (st64 a e s) va' = zstop s va'" "entry_at (st64 a e s) va = (n, e)"
    "\<not> same_block n va va' \<Longrightarrow> entry_at (st64 a e s) va' = entry_at s va'"
proof -
  note se = set_entry [OF ok st e]
  show "zmmu_ok (st64 a e s)" "zstop (st64 a e s) va' = zstop s va'" by (rule se)+
  show "entry_at (st64 a e s) va = (n, e)" using se(2) [of va] st by (simp add: entry_at_def)
  assume other: "\<not> same_block n va va'"
  obtain n' b where b: "zstop s va' = (n', b)" by fastforce
  from ok obtain lv where wf: "wf_tables lv (ztables s) (kernel_root s) (mem s)"
    by (auto simp: zmmu_ok_def zpool.tables_ok_def)
  have "b \<noteq> a" using stop_at_same [OF wf st [unfolded zstop_def], of va' n'] b other by (auto simp: zstop_def)
  then show "entry_at (st64 a e s) va' = entry_at s va'" using se(2) [of va'] b by (simp add: entry_at_def)
qed

text \<open>Mapping a page keeps the entries of the pages mapped before.\<close>

lemma written_keeps:
  assumes "leaf_written 0 va e s s'" "entry_at s va' = (0, e')" "\<not> same_block 0 va va'"
  shows "entry_at s' va' = (0, e')"
proof -
  obtain b where b: "zstop s va' = (0, b)" "mem s b = e'" using assms(2) by (auto simp: entry_at_def split: prod.splits)
  with assms(1,3) have "zstop s' va' = (0, b) \<and> mem s' b = e'" by (auto simp: leaf_written_def)
  then show ?thesis by (simp add: entry_at_def)
qed

lemma written_data: "leaf_written n va e s s' \<Longrightarrow> x \<notin> zpool_words s \<Longrightarrow> mem s' x = mem s x"
  using zpool_words_only [of s s'] zpool_words_tables [of x s'] by (auto simp: leaf_written_def)

lemma lookup_run:
  assumes "zmmu_ok s" "0 < mmu_tables s" "entry_at s va = (n, e)" "n = 0 \<or> bit e 0"
  obtains a where "\<And>k. pte_lookup va k s = k a s" "a \<noteq> 0" "zstop s va = (n, a)" "mem s a = e"
proof -
  obtain a where a: "zstop s va = (n, a)" "mem s a = e" using assms(3) by (auto simp: entry_at_def split: prod.splits)
  with that [of a] lookup_entry [OF assms(1,2) a(1)] assms(4) show thesis by (auto simp: pte_lookup_def)
qed

section \<open>Raw entries\<close>

lemma bit_raw: "n < 10 \<Longrightarrow> bit (phys_to_ppn pa OR b) n = bit b n"
  by (auto simp: phys_to_ppn_def bit_simps platform_consts)

lemma raw_allows [simp]: "pte_allows c acc (phys_to_ppn pa OR b) = pte_allows c acc b"
  by (cases acc) (simp_all add: pte_allows_def bit_raw)

lemma raw_branch [simp]: "is_branch (phys_to_ppn pa OR b) = is_branch b"
  by (simp add: is_branch_def bit_raw)

lemma raw_forbidden: "\<not> bit b 0 \<or> \<not> pte_allows c acc b \<Longrightarrow> entry_xlat c acc va n (phys_to_ppn pa OR b) = None"
  by (auto simp: entry_xlat_def leaf_xlat_def pte_valid_def bit_raw)

section \<open>A concrete stage\<close>

text \<open>An empty root, free tables, a hart without hardware A/D updates that uses its cache whenever it can.\<close>

definition demo_test :: ztest where
  "demo_test = \<lparr>mem = (\<lambda>_. 0), mmu_tables = 0x80010000, mmu_table_used = True # replicate 7 False,
     kernel_root = 0x80010000, mmu_fault_fixup = 0, zsatp = 0, ztlb = [],
     hart_ctl = demo_ctl, tlb_choice = (\<lambda>_. Some 0), accesses = 0, zscause = 0, zstval = 0,
     expect_fault = False, expected_scause = 0, expected_stval = 0, fix_count = 0, verdict = None\<rparr>"

lemma demo_test_fields [simp]:
  "mem demo_test = mem demo_root" "mmu_tables demo_test = mmu_tables demo_root"
  "mmu_table_used demo_test = mmu_table_used demo_root" "kernel_root demo_test = kernel_root demo_root"
  "mmu_fault_fixup demo_test = 0" "hart_ctl demo_test = demo_ctl" "fix_count demo_test = 0" "0 < mmu_tables demo_root"
  by (simp_all add: demo_test_def demo_root_def demo_pool_def)

lemma demo_test_ok: "zmmu_ok demo_test" "zroom demo_test = 7" "ztables demo_test = {0x80010000}"
  using demo_root_ok demo_root_tables by (simp_all add: zmmu_ok_cong [of demo_test demo_root])

lemma demo_test_can_map: "can_map demo_test level va"
  using demo_root_empty(1) [of "2 - level" va] demo_test_ok(2)
    missing_tables_le [of "mem demo_root" "2 - level" 2 "kernel_root demo_root" va]
  by (simp add: can_map_def)

lemma demo_test_pool: "page_aligned x \<Longrightarrow> 0x80018000 \<le> x \<Longrightarrow> x \<notin> zpool_words demo_test"
proof
  assume al: "page_aligned x" and le: "0x80018000 \<le> x" and x: "x \<in> zpool_words demo_test"
  then obtain i j where i: "i < 8" and j: "j < 512" and e: "x = slot (table_at demo_test i) j"
    by (auto simp: zpool_words_def table_words_def demo_root_def demo_pool_def)
  have po: "zpool_ok demo_test" using demo_zpool_ok(2) by (simp add: zpool_ok_def)
  have i': "i < length (mmu_table_used demo_test)" using i by (simp add: demo_root_def demo_pool_def)
  have "x = table_at demo_test i"
    using slot_inj [OF al _ table_at_page(1) [OF po i'] j, of 0] e by (simp add: slot_def)
  then have "uint x = 0x80010000 + 4096 * int i"
    using uint_table_at [OF po i'] by (simp add: demo_root_def demo_pool_def)
  with i le show False by (simp add: word_le_def)
qed

end
