(* ===== verification/ZPages.thy ===== *)
theory ZPages
  imports ZTest
begin

text \<open>
  What the tests of phases 1A, 1C, 1D and 2 share: raw leaf entries that permit an access, and the loop that
  fills and maps a row of pages.
\<close>

definition leaf_flags :: "u64 \<Rightarrow> bool" where
  "leaf_flags b \<longleftrightarrow> (\<forall>n. bit b n \<longrightarrow> n \<le> 9) \<and> bit b 0 \<and> (bit b 1 \<or> bit b 3) \<and> (bit b 2 \<longrightarrow> bit b 1)"

lemma raw_target:
  assumes "page_aligned pa" "\<forall>n. bit b n \<longrightarrow> n \<le> 9"
  shows "pte_target (phys_to_ppn pa OR b) = pa"
proof (rule bit_word_eqI)
  fix n assume "n < LENGTH(64)"
  show "bit (pte_target (phys_to_ppn pa OR b)) n = bit pa n"
  proof (cases "n < 12")
    case False
    then have "\<not> bit b (n - 2)" using assms(2) [rule_format, of "n - 2"] by auto
    moreover have "Suc (Suc (n - 2)) = n" using False by simp
    ultimately show ?thesis using False \<open>n < _\<close>
      by (auto simp: pte_target_def phys_to_ppn_def bit_simps platform_consts)
  qed (use page_aligned_bit [OF assms(1)] in \<open>auto simp: pte_target_def bit_simps\<close>)
qed

lemma raw_leaf:
  assumes "leaf_flags b" "drop_bit 56 pa = 0"
  shows "pte_valid (phys_to_ppn pa OR b)" "pte_is_leaf (phys_to_ppn pa OR b)"
proof -
  have "drop_bit 54 (phys_to_ppn pa OR b) = 0"
  proof (rule drop_bit_0I)
    fix n :: nat assume n: "54 \<le> n"
    then have "\<not> bit b n" using assms(1) unfolding leaf_flags_def by fastforce
    with n drop_bit_0_bit [OF assms(2), of "n + 2"] show "\<not> bit (phys_to_ppn pa OR b) n"
      by (simp add: phys_to_ppn_def bit_simps platform_consts)
  qed
  with assms(1) show "pte_valid (phys_to_ppn pa OR b)" "pte_is_leaf (phys_to_ppn pa OR b)"
    by (auto simp: pte_valid_def pte_is_leaf_def leaf_flags_def bit_raw)
qed

lemma raw_ad: "pte_ad_ok c acc (phys_to_ppn pa OR b) = pte_ad_ok c acc b" "needs_ad acc (phys_to_ppn pa OR b) = needs_ad acc b"
  by (simp_all add: pte_ad_ok_def needs_ad_def bit_raw)

lemma raw_xlat:
  assumes "leaf_flags b" "page_aligned pa" "drop_bit 56 pa = 0" "va_canonical va" "page_aligned va"
  shows "entry_xlat c acc va 0 (phys_to_ppn pa OR b) = (if pte_allows c acc b \<and> pte_ad_ok c acc b then Some pa else None)"
proof -
  have t: "pte_target (phys_to_ppn pa OR b) = pa"
    by (rule raw_target [OF assms(2)]) (use assms(1) in \<open>simp add: leaf_flags_def\<close>)
  have "take_bit 12 va = 0" "take_bit 12 pa = 0" using assms(2,5) by (simp_all add: page_aligned_def)
  then show ?thesis
    using raw_leaf [OF assms(1,3)] assms(4) by (simp add: entry_xlat_def leaf_xlat_def leaf_aligned_def t raw_ad)
qed

section \<open>A row of pages\<close>

text \<open>After a page has been mapped the next ones of its two-megabyte region need no tables.\<close>

lemma written_can_map:
  assumes "leaf_written 0 va e s s'" "path_clear (mem s) 2 2 (kernel_root s) va'"
    "\<And>k. k \<le> 2 \<Longrightarrow> 0 < k \<Longrightarrow> vpn_ix k va' = vpn_ix k va"
  shows "can_map s' 0 va'"
proof -
  from assms(1,2) have c: "path_clear (mem s') 2 2 (kernel_root s') va'" by (simp add: leaf_written_def)
  from assms(1) obtain a where "stop_at (mem s') 2 (kernel_root s') va = (0, a)" by (auto simp: leaf_written_def zstop_def)
  from missing_stop [of 2 va', OF assms(3) this] c show ?thesis by (simp add: can_map_def)
qed

lemma path_clear_data:
  "zmmu_ok s \<Longrightarrow> x \<notin> zpool_words s \<Longrightarrow>
   path_clear (mem (st64 x v s)) 2 2 (kernel_root s) va = path_clear (mem s) 2 2 (kernel_root s) va"
proof -
  assume ok: "zmmu_ok s" and x: "x \<notin> zpool_words s"
  from ok obtain lv where wf: "wf_tables lv (ztables s) (kernel_root s) (mem s)"
    by (auto simp: zmmu_ok_def zpool.tables_ok_def)
  have "mem (st64 x v s) y = mem s y" if "y \<in> table_words (ztables s)" for y
    using that zpool_words_tables [OF x] by auto
  from path_outside [OF wf this wf_root [OF wf] order_refl] show ?thesis by blast
qed

definition map_pages :: "u64 \<Rightarrow> u64 \<Rightarrow> u64 \<Rightarrow> (nat \<Rightarrow> u64) \<Rightarrow> nat list \<Rightarrow> 'z ztest_scheme \<Rightarrow> 'z ztest_scheme run" where
  "map_pages v p b val is = block (map (\<lambda>i. block
     [exec (st64 (page_no p i) (val i)), map_raw (page_no v i) (page_no p i) b 0]) is)"

text \<open>The first \<open>i\<close> pages of the row are filled and mapped; the others can be.\<close>

definition row_ok :: "u64 \<Rightarrow> u64 \<Rightarrow> u64 \<Rightarrow> (nat \<Rightarrow> u64) \<Rightarrow> nat \<Rightarrow> nat \<Rightarrow> 'z ztest_scheme \<Rightarrow> bool" where
  "row_ok v p b val i n s \<longleftrightarrow> zmmu_ok s \<and>
     (\<forall>j < i. entry_at s (page_no v j) = (0, phys_to_ppn (page_no p j) OR b) \<and> mem s (page_no p j) = val j) \<and>
     (i < n \<longrightarrow> can_map s 0 (page_no v i)) \<and>
     (\<forall>j < n. i \<le> j \<longrightarrow> path_clear (mem s) 2 2 (kernel_root s) (page_no v j))"

text \<open>A row inside one region, with frames outside the pool.\<close>

definition row_frames :: "u64 \<Rightarrow> u64 \<Rightarrow> nat \<Rightarrow> 'z zmmu_scheme \<Rightarrow> bool" where
  "row_frames v p n s \<longleftrightarrow> range_ok (2 ^ 38) v n \<and> range_ok (2 ^ 56) p n \<and> (\<forall>j < n. page_no p j \<notin> zpool_words s) \<and>
     (\<forall>j. 0 < j \<and> j < n \<longrightarrow> vpn_ix 0 (page_no v j) \<noteq> 0)"

lemma page_no_inj:
  "range_ok lim p n \<Longrightarrow> lim \<le> 2 ^ 56 \<Longrightarrow> i < n \<Longrightarrow> j < n \<Longrightarrow> page_no p i = page_no p j \<longleftrightarrow> i = j"
  by (metis uint_page_no add_left_cancel mult_cancel_left of_nat_eq_iff zero_neq_numeral)

lemma page_no_other:
  assumes "range_ok (2 ^ 38) v n" "i < n" "j < n" "i \<noteq> j"
  shows "\<not> same_block 0 (page_no v i) (page_no v j)"
proof
  assume sb: "same_block 0 (page_no v i) (page_no v j)"
  have "uint (page_no v j) < 2 ^ 38" using uint_page_no [OF assms(1) _ assms(3)] assms(1,3) by (auto simp: range_ok_def)
  with sb same_page_interval [OF assms(1,2), of "page_no v j"] canonical_low_uint
  have "in_pages v i (Suc i) (page_no v j)" by simp
  with uint_page_no [OF assms(1) _ assms(3)] assms(4) show False by (simp add: in_pages_def)
qed

text \<open>What the steps of a test leave alone.\<close>

definition same_env :: "'z ztest_scheme \<Rightarrow> 'z ztest_scheme \<Rightarrow> bool" where
  "same_env s s' \<longleftrightarrow> mmu_fault_fixup s' = mmu_fault_fixup s \<and> hart_ctl s' = hart_ctl s \<and> fix_count s' = fix_count s \<and>
     expect_fault s' = expect_fault s \<and> mmu_tables s' = mmu_tables s \<and> zpool_words s' = zpool_words s"

lemma same_env_refl [simp]: "same_env s s"
  by (simp add: same_env_def)

lemma same_env_trans: "same_env s t \<Longrightarrow> same_env t u \<Longrightarrow> same_env s u"
  by (simp add: same_env_def)

lemma same_env_store [simp]: "same_env s (st64 x v s)" "same_env s (zfence s)" "same_env s (after_access va n e s)"
  by (simp_all add: same_env_def)

lemma same_env_only: "tables_only s s' \<Longrightarrow> same_env s s'"
  using tables_only_ztest [of s s'] tables_onlyD [of s s'] zpool_words_only [of s s'] by (simp add: same_env_def)

lemma same_env_written: "leaf_written n va e s s' \<Longrightarrow> same_env s (zfence s')"
  using same_env_only [of s s'] same_env_trans [OF _ same_env_store(2)] by (auto simp: leaf_written_def)

lemma row_step:
  assumes fr: "row_frames v p n s" and i: "i < n" and b: "\<not> is_branch b" and row: "row_ok v p b val i n s"
  shows "\<exists>s'. block [exec (st64 (page_no p i) (val i)), map_raw (page_no v i) (page_no p i) b 0] s = Ret s' \<and>
    row_ok v p b val (Suc i) n s' \<and> same_env s s' \<and> ztlb s' = [] \<and>
    (\<forall>x. x \<notin> zpool_words s \<longrightarrow> x \<noteq> page_no p i \<longrightarrow> mem s' x = mem s x)"
proof -
  from fr have v: "range_ok (2 ^ 38) v n" and p: "range_ok (2 ^ 56) p n"
    and out: "\<And>j. j < n \<Longrightarrow> page_no p j \<notin> zpool_words s" and reg: "\<And>j. 0 < j \<Longrightarrow> j < n \<Longrightarrow> vpn_ix 0 (page_no v j) \<noteq> 0"
    by (auto simp: row_frames_def)
  let ?e = "phys_to_ppn (page_no p i) OR b" and ?s = "st64 (page_no p i) (val i) s"
  from row have ok: "zmmu_ok s" and can: "can_map s 0 (page_no v i)" using i by (auto simp: row_ok_def)
  note sd = store_data [OF ok out [OF i]]
  have al: "span_aligned 0 (page_no v i)" "span_aligned 0 (page_no p i)"
    using page_no_aligned [OF v _ i] page_no_aligned [OF p _ i] by (simp_all add: span_aligned_def page_aligned_def)
  obtain s' where m: "map_raw (page_no v i) (page_no p i) b 0 ?s = Ret (zfence s')"
    and w: "leaf_written 0 (page_no v i) ?e ?s s'" and e: "entry_at s' (page_no v i) = (0, ?e)"
    by (rule map_raw_run [of ?s 0, OF _ _ al]) (use sd can b in simp_all)
  have data: "mem s' x = (if x = page_no p i then val i else mem s x)" if "x \<notin> zpool_words s" for x
    using written_data [OF w, of x] that by simp
  have old: "entry_at s' (page_no v j) = (0, phys_to_ppn (page_no p j) OR b)" if "j < Suc i" for j
  proof (cases "j = i")
    case False
    then have "entry_at ?s (page_no v j) = (0, phys_to_ppn (page_no p j) OR b)" using row that sd(3) by (simp add: row_ok_def)
    then show ?thesis using written_keeps [OF w] page_no_other [OF v i, of j] False that i by simp
  qed (simp add: e)
  have vals: "mem s' (page_no p j) = val j" if "j < Suc i" for j
    using data [OF out, of j] row that i page_no_inj [OF p _ _ i, of j] by (auto simp: row_ok_def less_Suc_eq)
  have clear: "path_clear (mem s') 2 2 (kernel_root s') (page_no v j)" if "j < n" "Suc i \<le> j" for j
    using w row path_clear_data [OF ok out [OF i], of "val i" "page_no v j"] that by (simp add: leaf_written_def row_ok_def)
  have next_page: "can_map s' 0 (page_no v (Suc i))" if "Suc i < n"
    using written_can_map [OF w] same_region [OF v that reg [OF _ that]]
      row path_clear_data [OF ok out [OF i], of "val i" "page_no v (Suc i)"] that by (auto simp: row_ok_def)
  have "row_ok v p b val (Suc i) n (zfence s')"
    using w old vals clear next_page by (simp add: row_ok_def leaf_written_def can_map_def)
  moreover have "same_env s (zfence s')" using same_env_trans [OF same_env_store(1) same_env_written [OF w]] .
  ultimately show ?thesis using m data by (intro exI [of _ "zfence s'"]) (simp add: block_Cons)
qed

lemma map_pages_run:
  assumes b: "\<not> is_branch b"
  shows "row_frames v p n s \<Longrightarrow> i \<le> n \<Longrightarrow> row_ok v p b val i n s \<Longrightarrow>
    \<exists>s'. map_pages v p b val [i..<n] s = Ret s' \<and> row_ok v p b val n n s' \<and> same_env s s' \<and> (ztlb s = [] \<or> i < n \<longrightarrow> ztlb s' = [])"
proof (induction "n - i" arbitrary: i s)
  case 0
  then show ?case by (intro exI [of _ s]) (simp add: map_pages_def)
next
  case (Suc d)
  then have i: "i < n" by simp
  from row_step [OF Suc.prems(1) i b Suc.prems(3)] obtain s1 where
    1: "block [exec (st64 (page_no p i) (val i)), map_raw (page_no v i) (page_no p i) b 0] s = Ret s1"
    "row_ok v p b val (Suc i) n s1" "same_env s s1" "ztlb s1 = []" by blast
  have "row_frames v p n s1" using Suc.prems(1) 1(3) by (simp add: row_frames_def same_env_def)
  moreover have d: "d = n - Suc i" "Suc i \<le> n" using Suc.hyps(2) i by auto
  ultimately obtain s2 where
    2: "map_pages v p b val [Suc i..<n] s1 = Ret s2" "row_ok v p b val n n s2" "same_env s1 s2" "ztlb s2 = []"
    using Suc.hyps(1) [OF d(1) _ d(2) 1(2)] 1(4) by blast
  have "map_pages v p b val [i..<n] s = Ret s2" using 1(1) 2(1) i by (simp add: map_pages_def upt_conv_Cons block_Cons)
  with 2 same_env_trans [OF 1(3) 2(3)] show ?case by blast
qed

section \<open>One page\<close>

definition frame_ok :: "u64 \<Rightarrow> 'z zmmu_scheme \<Rightarrow> bool" where
  "frame_ok pa s \<longleftrightarrow> page_aligned pa \<and> drop_bit 56 pa = 0 \<and> pa \<notin> zpool_words s"

definition test_va :: "u64 \<Rightarrow> bool" where
  "test_va va \<longleftrightarrow> page_aligned va \<and> uint va < 2 ^ 38"

lemma test_va_canonical: "test_va va \<Longrightarrow> va_canonical va" "test_va va \<Longrightarrow> page_aligned va"
  by (simp_all add: test_va_def canonical_low_uint)

lemma raw_page_run:
  assumes "zmmu_ok s" "frame_ok pa s" "test_va va" "can_map s 0 va" "\<not> is_branch b"
  obtains s' where "map_raw va pa b 0 s = Ret s'" "zmmu_ok s'" "entry_at s' va = (0, phys_to_ppn pa OR b)" "ztlb s' = []"
    "same_env s s'" "\<And>x. x \<notin> zpool_words s \<Longrightarrow> mem s' x = mem s x"
    "\<And>va' e. entry_at s va' = (0, e) \<Longrightarrow> \<not> same_block 0 va va' \<Longrightarrow> entry_at s' va' = (0, e)"
    "\<And>va'. can_map s 0 va' \<Longrightarrow> (\<And>k. k \<le> 2 \<Longrightarrow> 0 < k \<Longrightarrow> vpn_ix k va' = vpn_ix k va) \<Longrightarrow> can_map s' 0 va'"
proof -
  have al: "span_aligned 0 va" "span_aligned 0 pa" using assms(2,3) by (simp_all add: frame_ok_def test_va_def span_aligned_def page_aligned_def)
  obtain s' where m: "map_raw va pa b 0 s = Ret (zfence s')" and w: "leaf_written 0 va (phys_to_ppn pa OR b) s s'"
    and e: "entry_at s' va = (0, phys_to_ppn pa OR b)"
    by (rule map_raw_run [OF assms(1) _ al assms(4), of b]) (use assms(5) in simp_all)
  show thesis
  proof (rule that [OF m])
    show "zmmu_ok (zfence s')" using w by (simp add: leaf_written_def)
    show "same_env s (zfence s')" by (rule same_env_written [OF w])
    show "mem (zfence s') x = mem s x" if "x \<notin> zpool_words s" for x using written_data [OF w that] by simp
    show "entry_at (zfence s') va' = (0, e)" if "entry_at s va' = (0, e)" "\<not> same_block 0 va va'" for va' e
      using written_keeps [OF w that] by simp
    show "can_map (zfence s') 0 va'" if "can_map s 0 va'"
      "\<And>k. k \<le> 2 \<Longrightarrow> 0 < k \<Longrightarrow> vpn_ix k va' = vpn_ix k va" for va'
      using written_can_map [OF w _ that(2)] that(1) by (simp add: can_map_def)
  qed (simp_all add: e)
qed

text \<open>Changes of the hart's and the suite's variables only.\<close>

definition same_tables :: "'z ztest_scheme \<Rightarrow> 'z ztest_scheme \<Rightarrow> bool" where
  "same_tables s s' \<longleftrightarrow> mem s' = mem s \<and> mmu_tables s' = mmu_tables s \<and> mmu_table_used s' = mmu_table_used s \<and>
     kernel_root s' = kernel_root s"

lemma same_tablesD:
  assumes "same_tables s s'"
  shows "zmmu_ok s' = zmmu_ok s" "zstop s' va = zstop s va" "entry_at s' va = entry_at s va" "zpool_words s' = zpool_words s"
    "can_map s' level va = can_map s level va" "mem s' = mem s" "mmu_tables s' = mmu_tables s" "kernel_root s' = kernel_root s"
    "frame_ok pa s' = frame_ok pa s"
proof -
  from assms have e: "mem s' = mem s" "mmu_tables s' = mmu_tables s" "mmu_table_used s' = mmu_table_used s" "kernel_root s' = kernel_root s"
    by (simp_all add: same_tables_def)
  note c = zmmu_ok_cong [OF e] zpool_words_cong [OF e(2,3)]
  show "zmmu_ok s' = zmmu_ok s" "zstop s' va = zstop s va" "entry_at s' va = entry_at s va" "zpool_words s' = zpool_words s"
    "can_map s' level va = can_map s level va" "mem s' = mem s" "mmu_tables s' = mmu_tables s" "kernel_root s' = kernel_root s"
    "frame_ok pa s' = frame_ok pa s"
    by (simp_all add: c e can_map_def frame_ok_def)
qed

lemma same_tables_fixup [simp]: "same_tables s (z_riscv_mmu_set_fault_fixup fn s)"
  by (simp add: same_tables_def z_riscv_mmu_set_fault_fixup_def)

lemma set_fixup_simps [simp]:
  "mmu_fault_fixup (z_riscv_mmu_set_fault_fixup fn s) = fn" "ztlb (z_riscv_mmu_set_fault_fixup fn s) = ztlb s"
  "hart_ctl (z_riscv_mmu_set_fault_fixup fn s) = hart_ctl s" "fix_count (z_riscv_mmu_set_fault_fixup fn s) = fix_count s"
  by (simp_all add: z_riscv_mmu_set_fault_fixup_def)

end
