(* ===== verification/ZEnableTests.thy ===== *)
theory ZEnableTests
  imports ZPages
begin

text \<open>
  Phase 1A of the Zephyr suite, \<^verbatim>\<open>p1a_mmu_enable.c\<close>: the translation mode after boot, a page
  mapped with \<open>arch_mem_map\<close> and checked against its frame in both directions, an instruction fetched
  through a mapping. Sleeping between the steps is left out.
\<close>

section \<open>The suite\<close>

definition TEST_RW_VA :: u64 where "TEST_RW_VA = 0xC0000000"
definition TEST_EXEC_VA :: u64 where "TEST_EXEC_VA = 0xC0010000"

definition k_sys_fatal_error_handler_p1a :: "'z ztest_scheme \<Rightarrow> 'z ztest_scheme run" where
  "k_sys_fatal_error_handler_p1a = ztest_test_fail"

definition p1a :: "'z ztest_scheme suite" where
  "p1a = \<lparr>resolver = (\<lambda>_ _ _ s. (False, s)), fatal = k_sys_fatal_error_handler_p1a\<rparr>"

definition test_p1a_1_sv39_identity :: "u64 \<Rightarrow> 'z ztest_scheme \<Rightarrow> 'z ztest_scheme run" where
  "test_p1a_1_sv39_identity backing_page s =
     (let satp = zsatp s; mode = drop_bit 60 satp; root_ppn = satp AND (push_bit 44 1 - 1)
      in block
        [zassert (\<lambda>_. mode = SATP_MODE_SV39),
         zassert (\<lambda>_. root_ppn \<noteq> 0),
         exec (st64 backing_page 0xCAFEBABE12345678),
         zassert (\<lambda>s. mem s backing_page = 0xCAFEBABE12345678)] s)"

definition a2_val :: "nat \<Rightarrow> u64" where
  "a2_val i = 0xA5A5A5A5A5A5A500 OR of_nat i"

definition test_p1a_2_page_map_alias :: "u64 \<Rightarrow> 'z ztest_scheme \<Rightarrow> 'z ztest_scheme run" where
  "test_p1a_2_page_map_alias backing_page = block
     [\<lambda>s. of_option (arch_mem_map TEST_RW_VA backing_page 4096 K_MEM_PERM_RW s),
      block (map (\<lambda>i. store_via p1a (slot TEST_RW_VA (of_nat (i * 64))) (a2_val i)) [0..<8]),
      block (map (\<lambda>i. zassert (\<lambda>s. mem s (slot backing_page (of_nat (i * 64))) = a2_val i)) [0..<8]),
      exec (st64 (slot backing_page 7) 0x5A5A5A5A5A5A5A5A),
      load_via p1a (slot TEST_RW_VA 7) (\<lambda>val. zassert (\<lambda>s. val = 0x5A5A5A5A5A5A5A5A)),
      exec (arch_mem_unmap TEST_RW_VA 4096)]"

definition test_p1a_3_ifetch_via_map :: "u64 \<Rightarrow> 'z ztest_scheme \<Rightarrow> 'z ztest_scheme run" where
  "test_p1a_3_ifetch_via_map backing_page = block
     [exec (st32 backing_page RET_INSN),
      \<lambda>s. of_option (arch_mem_map TEST_EXEC_VA backing_page 4096 K_MEM_PERM_EXEC s),
      call_via p1a TEST_EXEC_VA,
      exec (arch_mem_unmap TEST_EXEC_VA 4096)]"

section \<open>Words of a page\<close>

lemma word_in_page:
  assumes "test_va va" "i < 512"
  shows "take_bit 12 (slot va i) = 8 * i" "same_block 0 va (slot va i)" "va_canonical (slot va i)"
proof -
  from assms(1) have al: "page_aligned va" and lo: "uint va < 2 ^ 38" by (simp_all add: test_va_def)
  have e: "8 * i = push_bit 3 i" by (simp add: push_bit_eq_mult)
  note b = slot_bits [OF al assms(2)]
  show "take_bit 12 (slot va i) = 8 * i"
    unfolding e by (rule bit_word_eqI) (use less_512_bit [OF assms(2)] in \<open>force simp: bit_simps b\<close>)
  have "drop_bit 12 (slot va i) = drop_bit 12 va" by (rule bit_word_eqI) (simp add: bit_drop_bit_eq b)
  moreover have c: "va_canonical va" by (rule canonical_low_uint [OF lo])
  moreover show c': "va_canonical (slot va i)" using c by (simp add: va_canonical_def b)
  ultimately show "same_block 0 va (slot va i)" by (simp add: same_page_canonical)
qed

lemma frame_word:
  assumes "zmmu_ok s" "frame_ok pa s" "i < 512"
  shows "slot pa i \<notin> zpool_words s" "pa OR 8 * i = slot pa i"
proof -
  from assms(1) have po: "zpool_ok s" by (auto simp: zmmu_ok_def zpool.tables_ok_def)
  from assms(2) have al: "page_aligned pa" and out: "pa \<notin> zpool_words s" by (simp_all add: frame_ok_def)
  show "slot pa i \<notin> zpool_words s"
  proof
    assume "slot pa i \<in> zpool_words s"
    then obtain k j where k: "k < length (mmu_table_used s)" and j: "j < 512" and e: "slot pa i = slot (table_at s k) j"
      by (auto simp: zpool_words_def table_words_def)
    from slot_inj [OF al assms(3) table_at_page(1) [OF po k] j e] have "pa = slot (table_at s k) 0" by (simp add: slot_def)
    moreover have "slot (table_at s k) 0 \<in> zpool_words s"
      unfolding zpool_words_def by (rule slot_in_table_words) (use k in auto)
    ultimately show False using out by simp
  qed
  have e: "8 * i = push_bit 3 i" by (simp add: push_bit_eq_mult)
  show "pa OR 8 * i = slot pa i"
    unfolding e by (rule bit_word_eqI)
      (use page_aligned_bit [OF al] less_512_bit [OF assms(3)] in \<open>force simp: bit_simps slot_bits [OF al assms(3)]\<close>)
qed

lemma word_xlat:
  assumes "frame_ok pa s" "zmmu_ok s" "perm_ok perm" "test_va va" "i < 512"
  shows "entry_xlat c acc (slot va i) 0 (pte_leaf pa perm) = (if pte_allows c acc perm then Some (slot pa i) else None)"
proof -
  from assms(1) have al: "page_aligned pa" "drop_bit 56 pa = 0" by (simp_all add: frame_ok_def)
  have a: "pa AND NOT (mask 12) = pa"
    by (rule bit_word_eqI) (use page_aligned_bit [OF al(1)] in \<open>auto simp: bit_simps\<close>)
  show ?thesis
    using a al word_in_page [OF assms(4,5)] frame_word(2) [OF assms(2,1,5)] assms(3)
    by (subst entry_xlat_leaf) (simp_all add: page_aligned_def)
qed

section \<open>The tests\<close>

text \<open>A mapped page: its leaf entry decides about all its words and is the only thing cached for them.\<close>

definition page_inv :: "u64 \<Rightarrow> u64 \<Rightarrow> u64 \<Rightarrow> 'z ztest_scheme \<Rightarrow> bool" where
  "page_inv va pa perm s \<longleftrightarrow> zmmu_ok s \<and> frame_ok pa s \<and> entry_at s va = (0, pte_leaf pa perm) \<and>
     (\<forall>x \<in> set (ztlb s). snd x = (0, pte_leaf pa perm))"

lemma zpage_access:
  assumes inv: "page_inv va pa perm s" and p: "perm_ok perm" "pte_allows (hart_ctl s) acc perm" and va: "test_va va" and i: "i < 512"
  obtains s' where "\<And>code. zaccess code acc (slot va i) s = Some (Some (slot pa i), s')" "page_inv va pa perm s'"
    "mem s' = mem s" "hart_ctl s' = hart_ctl s" "zpool_words s' = zpool_words s"
proof -
  let ?e = "pte_leaf pa perm"
  from inv have ok: "zmmu_ok s" "frame_ok pa s" "entry_at s va = (0, ?e)" "\<forall>x \<in> set (ztlb s). snd x = (0, ?e)"
    by (simp_all add: page_inv_def)
  from ok(3) obtain a where a: "zstop s va = (0, a)" "mem s a = ?e" by (auto simp: entry_at_def split: prod.splits)
  have "entry_at s (slot va i) = (0, ?e)" using zstop_block [OF a(1) word_in_page(2) [OF va i]] a(2) by (simp add: entry_at_def)
  then have u: "used_entry acc (slot va i) s = (0, ?e)"
    using used_entry_fresh [of "slot va i" s acc] ok(4) by (auto simp: cached_def)
  have x: "entry_xlat (hart_ctl s) acc (slot va i) 0 ?e = Some (slot pa i)" using word_xlat [OF ok(2,1) p(1) va i] p(2) by simp
  have "page_inv va pa perm (after_access (slot va i) 0 ?e s)" using inv by (simp add: page_inv_def frame_ok_def)
  with that [of "after_access (slot va i) 0 ?e s"] zaccess_hit [OF u x] show thesis by simp
qed

lemma page_store:
  assumes inv: "page_inv va pa perm s" and i: "i < 512"
  shows "page_inv va pa perm (st64 (slot pa i) v s)"
  using inv frame_word(1) [of s pa i] i by (simp add: page_inv_def store_data frame_ok_def)

lemma map_page_inv:
  assumes "zmmu_ok s" "frame_ok pa s" "can_map s 0 va"
  obtains s' where "arch_mem_map va pa 4096 flags s = Some s'" "page_inv va pa (perm_from_flags flags) s'" "hart_ctl s' = hart_ctl s"
    "\<And>x. x \<notin> zpool_words s \<Longrightarrow> mem s' x = mem s x"
proof -
  obtain s' where m: "arch_mem_map va pa 4096 flags s = Some (zfence s')" and w: "leaf_written 0 va (pte_leaf pa (perm_from_flags flags)) s s'"
    and e: "entry_at s' va = (0, pte_leaf pa (perm_from_flags flags))"
    by (rule arch_mem_map_page_run [OF assms(1,3)])
  have env: "same_env s (zfence s')" by (rule same_env_written [OF w])
  have "page_inv va pa (perm_from_flags flags) (zfence s')"
    using w e assms(2) env by (simp add: page_inv_def leaf_written_def frame_ok_def same_env_def)
  with that [OF m] env written_data [OF w] show thesis by (simp add: same_env_def)
qed

lemma perm_flags: "perm_from_flags K_MEM_PERM_RW = PTE_R OR PTE_W" "perm_from_flags K_MEM_PERM_EXEC = PTE_R OR PTE_X"
  by (simp_all add: perm_from_flags_def K_MEM_PERM_RW_def K_MEM_PERM_EXEC_def K_MEM_PERM_USER_def Let_def)

lemma p1a_test_va [simp]: "test_va TEST_RW_VA" "test_va TEST_EXEC_VA"
  by (simp_all add: test_va_def TEST_RW_VA_def TEST_EXEC_VA_def page_aligned_def take_bit_eq_mod)

text \<open>Before store \<open>i\<close> of the alias test.\<close>

definition a2_inv :: "u64 \<Rightarrow> nat \<Rightarrow> 'z ztest_scheme \<Rightarrow> bool" where
  "a2_inv pa i s \<longleftrightarrow> page_inv TEST_RW_VA pa (PTE_R OR PTE_W) s \<and>
     (\<forall>j < i. mem s (slot pa (of_nat (j * 64))) = a2_val j)"

lemma word_index: "j < 8 \<Longrightarrow> (of_nat (j * 64) :: u64) < 512" "i < 8 \<Longrightarrow> j < 8 \<Longrightarrow> (of_nat (i * 64) :: u64) = of_nat (j * 64) \<longleftrightarrow> i = j"
proof -
  have u: "uint (of_nat (j * 64) :: u64) = 64 * int j" if "j < 8" for j
    using that by (simp only: unsigned_of_nat) (simp add: take_bit_eq_mod)
  show "j < 8 \<Longrightarrow> (of_nat (j * 64) :: u64) < 512" using u [of j] by (simp only: word_less_def) simp
  show "i < 8 \<Longrightarrow> j < 8 \<Longrightarrow> (of_nat (i * 64) :: u64) = of_nat (j * 64) \<longleftrightarrow> i = j"
    using u [of i] u [of j] by (auto simp only: word_uint_eq_iff)
qed

lemma alias_store:
  assumes "i < 8" "a2_inv pa i s"
  shows "\<exists>s'. store_via p1a (slot TEST_RW_VA (of_nat (i * 64))) (a2_val i) s = Ret s' \<and> a2_inv pa (Suc i) s'"
proof -
  let ?i = "of_nat (i * 64) :: u64"
  from assms(2) have inv: "page_inv TEST_RW_VA pa (PTE_R OR PTE_W) s" by (simp add: a2_inv_def)
  have al: "page_aligned pa" using inv by (simp add: page_inv_def frame_ok_def)
  obtain s1 where 1: "\<And>code. zaccess code Store (slot TEST_RW_VA ?i) s = Some (Some (slot pa ?i), s1)"
    "page_inv TEST_RW_VA pa (PTE_R OR PTE_W) s1" "mem s1 = mem s"
    by (rule zpage_access [OF inv perm_ok_kernel(1) _ p1a_test_va(1) word_index(1) [OF assms(1)], of Store]) (auto simp: kernel_allows)
  have "slot pa (of_nat (j * 64)) = slot pa ?i \<longleftrightarrow> j = i" if "j < 8" for j
    using slot_eq_iff [OF al word_index(1) [OF that] al word_index(1) [OF assms(1)]] word_index(2) [OF that assms(1)] by simp
  then have "a2_inv pa (Suc i) (st64 (slot pa ?i) (a2_val i) s1)"
    using page_store [OF 1(2) word_index(1) [OF assms(1)]] assms 1(3) by (auto simp: a2_inv_def less_Suc_eq)
  then show ?thesis using 1(1) by (simp add: store_via_def access_then_def)
qed

lemma alias_test:
  assumes "zmmu_ok s" "frame_ok backing s" "can_map s 0 TEST_RW_VA"
  shows "passes (test_p1a_2_page_map_alias backing s)"
proof -
  obtain s0 where 0: "arch_mem_map TEST_RW_VA backing 4096 K_MEM_PERM_RW s = Some s0" "page_inv TEST_RW_VA backing (PTE_R OR PTE_W) s0"
    using map_page_inv [OF assms, of K_MEM_PERM_RW] unfolding perm_flags by blast
  then have "a2_inv backing 0 s0" by (simp add: a2_inv_def)
  then have "\<exists>s1. block (map (\<lambda>i. store_via p1a (slot TEST_RW_VA (of_nat (i * 64))) (a2_val i)) [0..<8]) s0 = Ret s1 \<and> a2_inv backing 8 s1"
    by (intro block_upto [where P = "a2_inv backing"]) (use alias_store in auto)
  then obtain s1 where 1: "block (map (\<lambda>i. store_via p1a (slot TEST_RW_VA (of_nat (i * 64))) (a2_val i)) [0..<8]) s0 = Ret s1" "a2_inv backing 8 s1"
    by blast
  have "\<exists>s'. block (map (\<lambda>i. zassert (\<lambda>s. mem s (slot backing (of_nat (i * 64))) = a2_val i)) [0..<8]) s1 = Ret s' \<and> s' = s1"
    by (rule block_loop [where P = "\<lambda>s'. s' = s1"]) (use 1(2) in \<open>auto simp: a2_inv_def zassert_def\<close>)
  then have 2: "block (map (\<lambda>i. zassert (\<lambda>s. mem s (slot backing (of_nat (i * 64))) = a2_val i)) [0..<8]) s1 = Ret s1" by blast
  let ?s = "st64 (slot backing 7) 0x5A5A5A5A5A5A5A5A s1"
  have inv: "page_inv TEST_RW_VA backing (PTE_R OR PTE_W) ?s" by (rule page_store) (use 1(2) in \<open>auto simp: a2_inv_def\<close>)
  obtain s2 where "\<And>code. zaccess code Load (slot TEST_RW_VA 7) ?s = Some (Some (slot backing 7), s2)" "mem s2 = mem ?s"
    by (rule zpage_access [OF inv perm_ok_kernel(1) _ p1a_test_va(1), of Load 7]) (auto simp: kernel_allows)
  then show ?thesis
    using 0(1) 1(1) 2
    by (simp add: test_p1a_2_page_map_alias_def block_Cons load_via_def access_then_def zassert_def passes_def del: upt_Suc of_nat_mult)
qed

lemma ifetch_test:
  assumes "zmmu_ok s" "frame_ok backing s" "can_map s 0 TEST_EXEC_VA"
  shows "passes (test_p1a_3_ifetch_via_map backing s)"
proof -
  have al: "page_aligned backing" and out: "backing \<notin> zpool_words s" using assms(2) by (simp_all add: frame_ok_def)
  let ?s = "st32 backing RET_INSN s"
  note st = st32_page [OF al, of RET_INSN s]
  have h: "zmmu_ok ?s" "frame_ok backing ?s" "can_map ?s 0 TEST_EXEC_VA"
    using assms store_data [OF assms(1) out] by (simp_all add: st frame_ok_def)
  obtain s0 where 0: "arch_mem_map TEST_EXEC_VA backing 4096 K_MEM_PERM_EXEC ?s = Some s0" "page_inv TEST_EXEC_VA backing (PTE_R OR PTE_X) s0"
    "\<And>x. x \<notin> zpool_words ?s \<Longrightarrow> mem s0 x = mem ?s x"
    using map_page_inv [OF h, of K_MEM_PERM_EXEC] unfolding perm_flags by blast
  have p: "perm_ok (PTE_R OR PTE_X)" by (auto simp: perm_ok_def bit_simps flag_bits)
  obtain s1 where 1: "\<And>code. zaccess code Fetch (slot TEST_EXEC_VA 0) s0 = Some (Some (slot backing 0), s1)" "mem s1 = mem s0"
    by (rule zpage_access [OF 0(2) p _ p1a_test_va(2), of Fetch 0]) (auto simp: pte_allows_def bit_simps flag_bits)
  have "mem s1 backing = mem ?s backing" using 0(3) [of backing] 1(2) h(2) by (simp add: frame_ok_def)
  from ld32_page [OF al this] have "ld32 s1 backing = RET_INSN" by (simp add: ld32_st32)
  then show ?thesis
    using 0(1) 1(1) by (simp add: test_p1a_3_ifetch_via_map_def block_Cons call_via_def access_then_def passes_def slot_def)
qed

lemma satp_test:
  assumes "zmmu_ok s" "0 < mmu_tables s" "drop_bit 60 (zsatp s) = SATP_MODE_SV39" "push_bit 12 (zsatp s AND mask 44) = kernel_root s"
  shows "passes (test_p1a_1_sv39_identity backing s)"
proof -
  from assms(1) obtain lv where wf: "wf_tables lv (ztables s) (kernel_root s) (mem s)"
    by (auto simp: zmmu_ok_def zpool.tables_ok_def)
  have "slot (kernel_root s) 0 \<in> table_words (ztables s)" using wf_root(1) [OF wf] by simp
  from ztable_word_not_null [OF assms(1,2) this] have "kernel_root s \<noteq> 0" by (simp add: slot_def)
  then have "zsatp s AND mask 44 \<noteq> 0" using assms(4) by (metis push_bit_of_0)
  moreover have "push_bit 44 1 - 1 = (mask 44 :: u64)" by (simp add: mask_eq_exp_minus_1 push_bit_eq_mult)
  ultimately show ?thesis using assms(3) by (simp add: test_p1a_1_sv39_identity_def Let_def block_Cons zassert_def passes_def)
qed

text \<open>
  C15. Phase 1A on the boot-time tables: \<open>satp\<close> is in Sv39 mode with a root that is not 0, words
  stored through the mapped page are found in its frame and the other way round, and the function at the
  mapped frame is fetched and returns; no access faults.
\<close>

theorem p1a_tests_pass:
  assumes "zmmu_ok s" "0 < mmu_tables s" "drop_bit 60 (zsatp s) = SATP_MODE_SV39" "push_bit 12 (zsatp s AND mask 44) = kernel_root s"
    "frame_ok backing_page s" "can_map s 0 TEST_RW_VA" "can_map s 0 TEST_EXEC_VA"
  shows "passes (test_p1a_1_sv39_identity backing_page s) \<and> passes (test_p1a_2_page_map_alias backing_page s) \<and>
    passes (test_p1a_3_ifetch_via_map backing_page s)"
  using satp_test [OF assms(1-4)] alias_test [OF assms(1,5,6)] ifetch_test [OF assms(1,5,7)] by blast

definition demo_satp :: ztest where
  "demo_satp = demo_test\<lparr>zsatp := push_bit 60 SATP_MODE_SV39 OR drop_bit 12 0x80010000\<rparr>"

theorem p1a_tests_pass_witness:
  "can_map demo_satp 0 TEST_RW_VA \<and> frame_ok 0x80200000 demo_satp \<and> passes (test_p1a_1_sv39_identity 0x80200000 demo_satp) \<and>
   passes (test_p1a_2_page_map_alias 0x80200000 demo_satp) \<and> passes (test_p1a_3_ifetch_via_map 0x80200000 demo_satp)"
proof -
  have st: "same_tables demo_test demo_satp" by (simp add: same_tables_def demo_satp_def)
  note sd = same_tablesD [OF st]
  have "page_aligned 0x80200000" by (simp add: page_aligned_def take_bit_eq_mod)
  then have fr: "frame_ok 0x80200000 demo_satp" using demo_test_pool sd by (simp add: frame_ok_def)
  have root: "kernel_root demo_satp = 0x80010000" using sd(8) by (simp add: demo_root_def)
  have "page_aligned (0x80010000 :: u64)" "drop_bit 56 (0x80010000 :: u64) = 0" by (simp_all add: page_aligned_def take_bit_eq_mod)
  note satp = satp_fields [OF this]
  have z: "zsatp demo_satp = push_bit 60 SATP_MODE_SV39 OR drop_bit 12 0x80010000" by (simp add: demo_satp_def)
  have "drop_bit 60 (zsatp demo_satp) = SATP_MODE_SV39" "push_bit 12 (zsatp demo_satp AND mask 44) = kernel_root demo_satp"
    unfolding root z using satp by blast+
  then show ?thesis
    using p1a_tests_pass [of demo_satp "0x80200000"] fr sd demo_test_ok demo_test_can_map by simp
qed

end
