(* ===== verification/ZFaultTests.thy ===== *)
theory ZFaultTests
  imports ZPages
begin

text \<open>
  Phase 1B of the Zephyr suite, \<^verbatim>\<open>p1b_fault_gen.c\<close>: each test builds a page-table entry that
  forbids an access, announces the fault it expects and makes the access. The tests built on
  \<open>k_mem_map\<close> (P1B.5b, 6b and 9) are in \<open>ZAllocTests\<close>.
\<close>

section \<open>The suite\<close>

definition EXC_INST_PAGE_FAULT :: u64 where "EXC_INST_PAGE_FAULT = 12"
definition EXC_LOAD_PAGE_FAULT :: u64 where "EXC_LOAD_PAGE_FAULT = 13"
definition EXC_STORE_PAGE_FAULT :: u64 where "EXC_STORE_PAGE_FAULT = 15"

definition VA_B1 :: u64 where "VA_B1 = 0xD0000000"
definition VA_B2 :: u64 where "VA_B2 = 0xD0010000"
definition VA_B3 :: u64 where "VA_B3 = 0xD0030000"
definition VA_B4 :: u64 where "VA_B4 = 0xD0040000"
definition VA_B5 :: u64 where "VA_B5 = 0xD0050000"
definition VA_B6 :: u64 where "VA_B6 = 0xD0060000"
definition VA_B7 :: u64 where "VA_B7 = 0xD0070000"
definition VA_B8 :: u64 where "VA_B8 = 0xE0000000"
definition VA_B1B :: u64 where "VA_B1B = 0xD0080000"

lemmas p1b_vas = VA_B1_def VA_B2_def VA_B3_def VA_B4_def VA_B5_def VA_B6_def VA_B7_def VA_B8_def VA_B1B_def
lemmas exc_codes = EXC_INST_PAGE_FAULT_def EXC_LOAD_PAGE_FAULT_def EXC_STORE_PAGE_FAULT_def

definition k_sys_fatal_error_handler :: "'z ztest_scheme \<Rightarrow> 'z ztest_scheme run" where
  "k_sys_fatal_error_handler = block
     [\<lambda>s. if_do (\<not> expect_fault s) ztest_test_fail s,
      exec (\<lambda>s. s\<lparr>expect_fault := False\<rparr>),
      \<lambda>s. if_do (zscause s \<noteq> expected_scause s \<or> zstval s \<noteq> expected_stval s) ztest_test_fail s,
      ztest_test_pass]"

definition expect :: "u64 \<Rightarrow> u64 \<Rightarrow> 'z ztest_scheme \<Rightarrow> 'z ztest_scheme run" where
  "expect scause stval = exec (\<lambda>s. s\<lparr>expected_scause := scause, expected_stval := stval, expect_fault := True\<rparr>)"

text \<open>The suite registers no resolver.\<close>

definition p1b :: "'z ztest_scheme suite" where
  "p1b = \<lparr>resolver = (\<lambda>_ _ _ s. (False, s)), fatal = k_sys_fatal_error_handler\<rparr>"

definition test_p1b_1_load_v0_page :: "u64 \<Rightarrow> 'z ztest_scheme \<Rightarrow> 'z ztest_scheme run" where
  "test_p1b_1_load_v0_page bp_data = block
     [map_raw VA_B1 bp_data (PTE_R OR PTE_W OR PTE_A OR PTE_D) 0,
      expect EXC_LOAD_PAGE_FAULT VA_B1,
      load_via p1b VA_B1 (\<lambda>_. ztest_test_fail)]"

definition test_p1b_1b_vbit_clear_live :: "u64 \<Rightarrow> 'z ztest_scheme \<Rightarrow> 'z ztest_scheme run" where
  "test_p1b_1b_vbit_clear_live bp_data = block
     [\<lambda>s. of_option (arch_mem_map VA_B1B bp_data 4096 K_MEM_PERM_RW s),
      store_via p1b VA_B1B 0x1122334455667788,
      zassert (\<lambda>s. mem s bp_data = 0x1122334455667788),
      pte_lookup VA_B1B (\<lambda>pte. block
        [zassert (\<lambda>s. pte \<noteq> 0),
         zassert (\<lambda>s. push_bit 12 (drop_bit PTE_PPN_SHIFT (mem s pte)) = bp_data),
         exec (\<lambda>s. st64 pte (mem s pte AND NOT PTE_V) s),
         exec zfence,
         expect EXC_LOAD_PAGE_FAULT VA_B1B,
         load_via p1b VA_B1B (\<lambda>_. ztest_test_fail)])]"

definition test_p1b_2_store_v0_page :: "u64 \<Rightarrow> 'z ztest_scheme \<Rightarrow> 'z ztest_scheme run" where
  "test_p1b_2_store_v0_page bp_data = block
     [map_raw VA_B2 bp_data (PTE_R OR PTE_W OR PTE_A OR PTE_D) 0,
      expect EXC_STORE_PAGE_FAULT VA_B2,
      store_via p1b VA_B2 0xBEEF,
      ztest_test_fail]"

definition test_p1b_3_exec_v0_page :: "u64 \<Rightarrow> 'z ztest_scheme \<Rightarrow> 'z ztest_scheme run" where
  "test_p1b_3_exec_v0_page bp_code = block
     [exec (st32 bp_code RET_INSN),
      map_raw VA_B3 bp_code (PTE_R OR PTE_X OR PTE_A OR PTE_D) 0,
      expect EXC_INST_PAGE_FAULT VA_B3,
      call_via p1b VA_B3,
      ztest_test_fail]"

definition test_p1b_4_load_xonly_page :: "u64 \<Rightarrow> 'z ztest_scheme \<Rightarrow> 'z ztest_scheme run" where
  "test_p1b_4_load_xonly_page bp_data = block
     [map_raw VA_B4 bp_data (PTE_V OR PTE_X OR PTE_A OR PTE_D) 0,
      expect EXC_LOAD_PAGE_FAULT VA_B4,
      load_via p1b VA_B4 (\<lambda>_. ztest_test_fail)]"

definition test_p1b_5_store_ro_page :: "u64 \<Rightarrow> 'z ztest_scheme \<Rightarrow> 'z ztest_scheme run" where
  "test_p1b_5_store_ro_page bp_data = block
     [map_raw VA_B5 bp_data (PTE_V OR PTE_R OR PTE_A OR PTE_D) 0,
      expect EXC_STORE_PAGE_FAULT VA_B5,
      store_via p1b VA_B5 0xBEEF,
      ztest_test_fail]"

definition test_p1b_6_exec_noexec_page :: "u64 \<Rightarrow> 'z ztest_scheme \<Rightarrow> 'z ztest_scheme run" where
  "test_p1b_6_exec_noexec_page bp_code = block
     [exec (st32 bp_code RET_INSN),
      map_raw VA_B6 bp_code (PTE_V OR PTE_R OR PTE_A OR PTE_D) 0,
      expect EXC_INST_PAGE_FAULT VA_B6,
      call_via p1b VA_B6,
      ztest_test_fail]"

definition test_p1b_7_upage_sum0 :: "u64 \<Rightarrow> 'z ztest_scheme \<Rightarrow> 'z ztest_scheme run" where
  "test_p1b_7_upage_sum0 bp_data = block
     [map_raw VA_B7 bp_data (PTE_V OR PTE_R OR PTE_W OR PTE_U OR PTE_A OR PTE_D) 0,
      exec (\<lambda>s. s\<lparr>hart_ctl := (hart_ctl s)\<lparr>ctl_sum := False\<rparr>\<rparr>),
      expect EXC_LOAD_PAGE_FAULT VA_B7,
      load_via p1b VA_B7 (\<lambda>_. ztest_test_fail)]"

definition test_p1b_8_misaligned_megapage :: "'z ztest_scheme \<Rightarrow> 'z ztest_scheme run" where
  "test_p1b_8_misaligned_megapage = block
     [map_raw VA_B8 0x80000000 (PTE_V OR PTE_R OR PTE_W OR PTE_A OR PTE_D) 1,
      pte_lookup VA_B8 (\<lambda>pte. block
        [zassert (\<lambda>s. pte \<noteq> 0),
         exec (st64 pte (push_bit PTE_PPN_SHIFT (drop_bit 12 0x80000000 OR 1) OR PTE_V OR PTE_R OR PTE_W OR PTE_A OR PTE_D)),
         exec zfence,
         expect EXC_LOAD_PAGE_FAULT VA_B8,
         load_via p1b VA_B8 (\<lambda>_. ztest_test_fail)])]"

section \<open>An announced fault passes the test\<close>

lemma expect_run [simp]:
  "expect c v s = Ret (s\<lparr>expected_scause := c, expected_stval := v, expect_fault := True\<rparr>)"
  by (simp add: expect_def)

lemma fatal_announced:
  "expect_fault s \<Longrightarrow> zscause s = expected_scause s \<Longrightarrow> zstval s = expected_stval s \<Longrightarrow>
   k_sys_fatal_error_handler s = Halt (s\<lparr>expect_fault := False, verdict := Some True\<rparr>)"
  by (simp add: k_sys_fatal_error_handler_def ztest_test_pass_def block_Cons)

lemma announced_fault:
  assumes "ztlb s = []" "entry_at s va = (n, e)" "entry_xlat (hart_ctl s) acc va n e = None" "mmu_fault_fixup s = 0"
    "expect_fault s" "expected_scause s = fault_cause acc" "expected_stval s = va"
  obtains s' where "\<And>k. access_then p1b acc va k s = Halt s'" "verdict s' = Some True"
proof -
  have u: "used_entry acc va s = (n, e)" using assms(1,2) used_entry_fresh [of va s acc] by simp
  have "access_then p1b acc va k s =
      Halt (((after_access va n e s)\<lparr>zscause := fault_cause acc, zstval := va\<rparr>)\<lparr>expect_fault := False, verdict := Some True\<rparr>)" for k
    unfolding access_then_def zaccess_fatal [OF u assms(3,4)]
    by (simp add: p1b_def) (subst fatal_announced; simp add: assms after_access_def)
  with that show thesis by simp
qed

text \<open>Mapping a raw entry, announcing the fault and making the access, with or without a change of the
  hart's controls in between.\<close>

lemma raw_fault:
  assumes "zmmu_ok s" "mmu_fault_fixup s = 0" "level < 3" "span_aligned level va" "span_aligned level pa" "can_map s level va"
    "\<not> is_branch (phys_to_ppn pa OR bits)" "entry_xlat c acc va level (phys_to_ppn pa OR bits) = None"
    "x = fault_cause acc"
  obtains s1 s2 where "map_raw va pa bits level s = Ret s1" "hart_ctl s1 = hart_ctl s"
    "\<And>k. access_then p1b acc va k
       (s1\<lparr>hart_ctl := c, expected_scause := x, expected_stval := va, expect_fault := True\<rparr>) = Halt s2"
    "\<And>k. hart_ctl s = c \<Longrightarrow> access_then p1b acc va k
       (s1\<lparr>expected_scause := x, expected_stval := va, expect_fault := True\<rparr>) = Halt s2"
    "verdict s2 = Some True"
proof -
  from map_raw_run [OF assms(1,3-7)] obtain s' where m: "map_raw va pa bits level s = Ret (zfence s')"
    and w: "leaf_written level va (phys_to_ppn pa OR bits) s s'" and e: "entry_at s' va = (level, phys_to_ppn pa OR bits)" .
  from w have only: "tables_only s s'" by (simp add: leaf_written_def)
  let ?s = "(zfence s')\<lparr>hart_ctl := c, expected_scause := fault_cause acc, expected_stval := va, expect_fault := True\<rparr>"
  have en: "entry_at ?s va = (level, phys_to_ppn pa OR bits)" using e by (subst zmmu_ok_cong(4) [of _ s']) simp_all
  obtain s2 where s2: "\<And>k. access_then p1b acc va k ?s = Halt s2" "verdict s2 = Some True"
    by (rule announced_fault [OF _ en, of acc]) (use assms(2,8) tables_only_ztest [OF only] in auto)
  have same: "(zfence s')\<lparr>expected_scause := fault_cause acc, expected_stval := va, expect_fault := True\<rparr> = ?s"
    if "hart_ctl s = c"
    using tables_only_ztest(1) [OF only] that by (intro ztest.equality) simp_all
  show thesis
    by (rule that [of "zfence s'" s2]) (use m s2 tables_only_ztest(1) [OF only] in \<open>simp_all only: same assms(9) zfence_ztest\<close>)
qed

section \<open>The tests\<close>

text \<open>What the tests rely on: well-formed tables with room for the test addresses, backing pages outside
  the tables, no resolver, MXR clear.\<close>

definition p1b_ready :: "u64 \<Rightarrow> u64 \<Rightarrow> 'z ztest_scheme \<Rightarrow> bool" where
  "p1b_ready bp_data bp_code s \<longleftrightarrow> zmmu_ok s \<and> mmu_fault_fixup s = 0 \<and> \<not> ctl_mxr (hart_ctl s) \<and>
     0 < mmu_tables s \<and> page_aligned bp_data \<and> drop_bit 56 bp_data = 0 \<and> page_aligned bp_code \<and>
     bp_data \<notin> zpool_words s \<and> bp_code \<notin> zpool_words s \<and>
     (\<forall>va \<in> {VA_B1, VA_B1B, VA_B2, VA_B3, VA_B4, VA_B5, VA_B6, VA_B7}. can_map s 0 va) \<and> can_map s 1 VA_B8"

lemma test_addresses [simp]:
  "page_aligned pa \<Longrightarrow> span_aligned 0 pa" "span_aligned 0 VA_B1" "span_aligned 0 VA_B2" "span_aligned 0 VA_B3"
  "span_aligned 0 VA_B4" "span_aligned 0 VA_B5" "span_aligned 0 VA_B6" "span_aligned 0 VA_B7" "span_aligned 0 VA_B1B"
  "span_aligned (Suc 0) VA_B8" "span_aligned (Suc 0) 0x80000000"
  by (simp_all add: span_aligned_def page_aligned_def p1b_vas take_bit_eq_mod)

lemma load_tests:
  assumes "p1b_ready bp_data bp_code s"
  shows "passes (test_p1b_1_load_v0_page bp_data s)" "passes (test_p1b_4_load_xonly_page bp_data s)"
    "passes (test_p1b_7_upage_sum0 bp_data s)"
proof -
  note r = assms [unfolded p1b_ready_def]
  show "passes (test_p1b_1_load_v0_page bp_data s)"
    by (rule raw_fault [of s 0 VA_B1 bp_data "PTE_R OR PTE_W OR PTE_A OR PTE_D" "hart_ctl s" Load EXC_LOAD_PAGE_FAULT])
      (use r in \<open>simp_all add: raw_forbidden is_branch_def bit_simps flag_bits test_p1b_1_load_v0_page_def
        block_Cons load_via_def exc_codes platform_consts passes_def\<close>)
  show "passes (test_p1b_4_load_xonly_page bp_data s)"
    by (rule raw_fault [of s 0 VA_B4 bp_data "PTE_V OR PTE_X OR PTE_A OR PTE_D" "hart_ctl s" Load EXC_LOAD_PAGE_FAULT])
      (use r in \<open>simp_all add: raw_forbidden is_branch_def pte_allows_def bit_simps flag_bits test_p1b_4_load_xonly_page_def
        block_Cons load_via_def exc_codes platform_consts passes_def\<close>)
  show "passes (test_p1b_7_upage_sum0 bp_data s)"
    by (rule raw_fault [of s 0 VA_B7 bp_data "PTE_V OR PTE_R OR PTE_W OR PTE_U OR PTE_A OR PTE_D" "(hart_ctl s)\<lparr>ctl_sum := False\<rparr>" Load EXC_LOAD_PAGE_FAULT])
      (use r in \<open>simp_all add: raw_forbidden is_branch_def pte_allows_def bit_simps flag_bits test_p1b_7_upage_sum0_def
        block_Cons load_via_def exc_codes platform_consts passes_def\<close>)
qed

lemma store_tests:
  assumes "p1b_ready bp_data bp_code s"
  shows "passes (test_p1b_2_store_v0_page bp_data s)" "passes (test_p1b_5_store_ro_page bp_data s)"
proof -
  note r = assms [unfolded p1b_ready_def]
  show "passes (test_p1b_2_store_v0_page bp_data s)"
    by (rule raw_fault [of s 0 VA_B2 bp_data "PTE_R OR PTE_W OR PTE_A OR PTE_D" "hart_ctl s" Store EXC_STORE_PAGE_FAULT])
      (use r in \<open>simp_all add: raw_forbidden is_branch_def bit_simps flag_bits test_p1b_2_store_v0_page_def
        block_Cons store_via_def exc_codes platform_consts passes_def\<close>)
  show "passes (test_p1b_5_store_ro_page bp_data s)"
    by (rule raw_fault [of s 0 VA_B5 bp_data "PTE_V OR PTE_R OR PTE_A OR PTE_D" "hart_ctl s" Store EXC_STORE_PAGE_FAULT])
      (use r in \<open>simp_all add: raw_forbidden is_branch_def pte_allows_def bit_simps flag_bits test_p1b_5_store_ro_page_def
        block_Cons store_via_def exc_codes platform_consts passes_def\<close>)
qed

lemma exec_tests:
  assumes "p1b_ready bp_data bp_code s"
  shows "passes (test_p1b_3_exec_v0_page bp_code s)" "passes (test_p1b_6_exec_noexec_page bp_code s)"
proof -
  note r = assms [unfolded p1b_ready_def]
  define s0 where "s0 = st32 bp_code RET_INSN s"
  have s0: "s0 = st64 bp_code ((mem s bp_code AND NOT (mask 32)) OR ucast RET_INSN) s"
    using r by (simp add: s0_def st32_page)
  have out: "bp_code \<notin> table_words (ztables s)" using r zpool_words_tables by blast
  note so = store_outside [OF conjunct1 [OF r] out]
  have r0: "zmmu_ok s0" "mmu_fault_fixup s0 = 0" "can_map s0 0 VA_B3" "can_map s0 0 VA_B6" "hart_ctl s0 = hart_ctl s"
    using so r by (simp_all add: s0)
  show "passes (test_p1b_3_exec_v0_page bp_code s)"
    by (rule raw_fault [of s0 0 VA_B3 bp_code "PTE_R OR PTE_X OR PTE_A OR PTE_D" "hart_ctl s0" Fetch EXC_INST_PAGE_FAULT])
      (use r r0 in \<open>simp_all add: raw_forbidden is_branch_def bit_simps flag_bits test_p1b_3_exec_v0_page_def s0_def
        block_Cons call_via_def exc_codes platform_consts passes_def\<close>)
  show "passes (test_p1b_6_exec_noexec_page bp_code s)"
    by (rule raw_fault [of s0 0 VA_B6 bp_code "PTE_V OR PTE_R OR PTE_A OR PTE_D" "hart_ctl s0" Fetch EXC_INST_PAGE_FAULT])
      (use r r0 in \<open>simp_all add: raw_forbidden is_branch_def pte_allows_def bit_simps flag_bits test_p1b_6_exec_noexec_page_def s0_def
        block_Cons call_via_def exc_codes platform_consts passes_def\<close>)
qed

lemma pte_edit_fault:
  assumes "zmmu_ok s" "zstop s va = (n, a)" "\<not> is_branch e" "entry_xlat (hart_ctl s) acc va n e = None" "mmu_fault_fixup s = 0"
    "x = fault_cause acc"
  obtains s2 where "\<And>k. access_then p1b acc va k
      ((zfence (st64 a e s))\<lparr>expected_scause := x, expected_stval := va, expect_fault := True\<rparr>) = Halt s2"
    "verdict s2 = Some True"
proof -
  let ?s = "(zfence (st64 a e s))\<lparr>expected_scause := x, expected_stval := va, expect_fault := True\<rparr>"
  have en: "entry_at ?s va = (n, e)"
    using store_entry(3) [OF assms(1-3)] by (subst zmmu_ok_cong(4) [of _ "st64 a e s"]) simp_all
  show thesis by (rule announced_fault [OF _ en, of acc]) (use that assms in auto)
qed

lemma megapage_test:
  assumes "p1b_ready bp_data bp_code s"
  shows "passes (test_p1b_8_misaligned_megapage s)"
proof -
  note r = assms [unfolded p1b_ready_def]
  define b where "b = PTE_V OR PTE_R OR PTE_W OR PTE_A OR PTE_D"
  define bad where "bad = push_bit PTE_PPN_SHIFT (drop_bit 12 0x80000000 OR 1) OR b"
  have nb: "\<not> is_branch b" "\<not> is_branch bad"
    by (simp_all add: b_def bad_def is_branch_def bit_simps flag_bits platform_consts)
  from r have can: "can_map s (Suc 0) VA_B8" and ok: "zmmu_ok s" by simp_all
  obtain s' where m: "map_raw VA_B8 0x80000000 b (Suc 0) s = Ret (zfence s')"
    and w: "leaf_written (Suc 0) VA_B8 (phys_to_ppn 0x80000000 OR b) s s'"
    and e: "entry_at s' VA_B8 = (Suc 0, phys_to_ppn 0x80000000 OR b)"
    by (rule map_raw_run [OF ok _ _ _ can, of "0x80000000" b]) (use nb in simp_all)
  from w have ok': "zmmu_ok s'" and only: "tables_only s s'" by (auto simp: leaf_written_def)
  have v: "Suc 0 = 0 \<or> bit (phys_to_ppn 0x80000000 OR b) 0" by (simp add: b_def bit_raw bit_simps flag_bits)
  obtain a where lk: "\<And>k. pte_lookup VA_B8 k (zfence s') = k a (zfence s')" "a \<noteq> 0" "zstop s' VA_B8 = (Suc 0, a)"
    by (rule lookup_run [of "zfence s'" VA_B8, OF _ _ _ v]) (use ok' e r tables_onlyD [OF only] in auto)
  have bad: "entry_xlat c Load VA_B8 (Suc 0) bad = None" for c
    by (simp add: b_def bad_def entry_xlat_def leaf_xlat_def leaf_aligned_def pte_target_def platform_consts take_bit_eq_mod)
  obtain s2 where s2: "\<And>k. access_then p1b Load VA_B8 k ((zfence (st64 a bad (zfence s')))
      \<lparr>expected_scause := EXC_LOAD_PAGE_FAULT, expected_stval := VA_B8, expect_fault := True\<rparr>) = Halt s2" "verdict s2 = Some True"
    by (rule pte_edit_fault [of "zfence s'" VA_B8 "Suc 0" a bad Load EXC_LOAD_PAGE_FAULT])
      (use ok' lk bad nb r tables_only_ztest [OF only] in \<open>simp_all add: exc_codes platform_consts\<close>)
  show ?thesis
    unfolding test_p1b_8_misaligned_megapage_def b_def [symmetric] bad_def [symmetric] One_nat_def
    by (simp add: block_Cons m lk zassert_def load_via_def passes_def s2)
qed

lemma live_test:
  assumes "p1b_ready bp_data bp_code s"
  shows "passes (test_p1b_1b_vbit_clear_live bp_data s)"
proof -
  note r = assms [unfolded p1b_ready_def]
  define e where "e = pte_leaf bp_data (perm_from_flags K_MEM_PERM_RW)"
  have p: "perm_from_flags K_MEM_PERM_RW = PTE_R OR PTE_W"
    by (simp add: perm_from_flags_def K_MEM_PERM_RW_def K_MEM_PERM_EXEC_def K_MEM_PERM_USER_def Let_def)
  have va: "va_canonical VA_B1B" "page_aligned VA_B1B"
    by (auto intro: canonical_low_uint simp: VA_B1B_def page_aligned_def take_bit_eq_mod)
  from r have can: "can_map s 0 VA_B1B" and ok: "zmmu_ok s" by simp_all
  obtain s' where m: "arch_mem_map VA_B1B bp_data 4096 K_MEM_PERM_RW s = Some (zfence s')"
    and w: "leaf_written 0 VA_B1B e s s'" and en: "entry_at s' VA_B1B = (0, e)"
    unfolding e_def by (rule arch_mem_map_page_run [OF ok can])
  from w have ok': "zmmu_ok s'" and only: "tables_only s s'" by (auto simp: leaf_written_def)
  have out: "bp_data \<notin> zpool_words s'" using r zpool_words_only [OF only] by simp
  have x: "entry_xlat (hart_ctl (zfence s')) Store VA_B1B 0 e = Some bp_data"
    using r va kernel_allows(1) by (subst e_def, subst page_xlat) (simp_all add: p perm_ok_kernel)
  have u: "used_entry Store VA_B1B (zfence s') = (0, e)"
    using used_entry_fresh [of VA_B1B "zfence s'" Store] en by simp
  define s1 where "s1 = st64 bp_data 0x1122334455667788 (after_access VA_B1B 0 e (zfence s'))"
  have s1: "store_via p1b VA_B1B 0x1122334455667788 (zfence s') = Ret s1"
    using zaccess_hit [OF u x] by (simp add: store_via_def access_then_def s1_def e_def)
  have s1f: "zmmu_ok s1" "entry_at s1 VA_B1B = (0, e)" "mem s1 bp_data = 0x1122334455667788" "0 < mmu_tables s1"
    "mmu_fault_fixup s1 = 0" "hart_ctl s1 = hart_ctl s"
    using ok' out en r tables_onlyD [OF only] tables_only_ztest [OF only] by (simp_all add: s1_def store_data)
  obtain a where lk: "\<And>k. pte_lookup VA_B1B k s1 = k a s1" "a \<noteq> 0" "zstop s1 VA_B1B = (0, a)" "mem s1 a = e"
    by (rule lookup_run [OF s1f(1,4,2)]) auto
  have t: "push_bit 12 (drop_bit PTE_PPN_SHIFT e) = bp_data"
    using page_target [of "PTE_R OR PTE_W" bp_data] r perm_ok_kernel(1) by (simp add: e_def p pte_target_def platform_consts)
  have v0: "\<not> bit (e AND NOT PTE_V) 0" by (simp add: bit_simps flag_bits)
  obtain s2 where s2: "\<And>k. access_then p1b Load VA_B1B k ((zfence (st64 a (e AND NOT PTE_V) s1))
      \<lparr>expected_scause := EXC_LOAD_PAGE_FAULT, expected_stval := VA_B1B, expect_fault := True\<rparr>) = Halt s2" "verdict s2 = Some True"
    by (rule pte_edit_fault [of s1 VA_B1B 0 a "e AND NOT PTE_V" Load EXC_LOAD_PAGE_FAULT])
      (use s1f lk v0 in \<open>simp_all add: exc_codes platform_consts is_branch_def entry_xlat_def pte_valid_def\<close>)
  show ?thesis
    by (simp add: test_p1b_1b_vbit_clear_live_def block_Cons m s1 s1f lk t zassert_def load_via_def passes_def s2)
qed

text \<open>
  C10. Phase 1B on a hart that translates as Sv39 says: started on well-formed tables with the test addresses
  free, every fault-generation test ends with the verdict \<open>pass\<close>: the access it forbids faults with the
  announced cause and address, whatever the translation cache held before and whichever of its entries the
  hart would use.
\<close>

theorem p1b_tests_pass:
  assumes "p1b_ready bp_data bp_code s"
  shows "passes (test_p1b_1_load_v0_page bp_data s) \<and> passes (test_p1b_1b_vbit_clear_live bp_data s) \<and>
    passes (test_p1b_2_store_v0_page bp_data s) \<and> passes (test_p1b_3_exec_v0_page bp_code s) \<and>
    passes (test_p1b_4_load_xonly_page bp_data s) \<and> passes (test_p1b_5_store_ro_page bp_data s) \<and>
    passes (test_p1b_6_exec_noexec_page bp_code s) \<and> passes (test_p1b_7_upage_sum0 bp_data s) \<and>
    passes (test_p1b_8_misaligned_megapage s)"
  using load_tests [OF assms] store_tests [OF assms] exec_tests [OF assms] megapage_test [OF assms] live_test [OF assms]
  by simp

theorem p1b_tests_pass_witness:
  "p1b_ready 0x80200000 0x80201000 demo_test \<and> passes (test_p1b_8_misaligned_megapage demo_test) \<and>
   passes (test_p1b_1b_vbit_clear_live 0x80200000 demo_test)"
proof -
  have "page_aligned 0x80200000" "page_aligned 0x80201000" by (simp_all add: page_aligned_def take_bit_eq_mod)
  then have "p1b_ready 0x80200000 0x80201000 demo_test"
    using demo_test_ok demo_test_can_map demo_test_pool by (simp add: p1b_ready_def demo_ctl_def)
  then show ?thesis using p1b_tests_pass by blast
qed

end
