(* ===== verification/ZAllocTests.thy ===== *)
theory ZAllocTests
  imports ZFaultTests
begin

text \<open>
  The tests of phase 1B that get their page from the kernel's allocator (P1B.5b, 6b and 9 of
  \<^verbatim>\<open>p1b_fault_gen.c\<close>). \<open>k_mem_map\<close> and \<open>k_mem_unmap\<close> are the kernel's and not in the repository, nor is the value
  of the flag \<open>K_MEM_MAP_UNINIT\<close>; all three are parameters. What the functions are
  documented to do rests on the \<open>arch_mem_map\<close> and \<open>arch_mem_unmap\<close> that the patch adds.
\<close>

section \<open>The tests\<close>

definition test_p1b_5b_store_ro_kmemmap ::
    "u32 \<Rightarrow> (nat \<Rightarrow> u32 \<Rightarrow> 'z ztest_scheme \<Rightarrow> u64 \<times> 'z ztest_scheme) \<Rightarrow> 'z ztest_scheme \<Rightarrow> 'z ztest_scheme run" where
  "test_p1b_5b_store_ro_kmemmap K_MEM_MAP_UNINIT k_mem_map s =
     (case k_mem_map 4096 K_MEM_MAP_UNINIT s of (p, s) \<Rightarrow> block
        [zassert (\<lambda>s. p \<noteq> 0),
         load_via p1b p (\<lambda>_. skip),
         expect EXC_STORE_PAGE_FAULT p,
         store_via p1b p 1,
         ztest_test_fail] s)"

definition test_p1b_6b_exec_noexec_kmemmap ::
    "(nat \<Rightarrow> u32 \<Rightarrow> 'z ztest_scheme \<Rightarrow> u64 \<times> 'z ztest_scheme) \<Rightarrow> 'z ztest_scheme \<Rightarrow> 'z ztest_scheme run" where
  "test_p1b_6b_exec_noexec_kmemmap k_mem_map s =
     (case k_mem_map 4096 K_MEM_PERM_RW s of (buf, s) \<Rightarrow> block
        [zassert (\<lambda>s. buf \<noteq> 0),
         expect EXC_INST_PAGE_FAULT buf,
         call_via p1b buf,
         ztest_test_fail] s)"

definition test_p1b_9_unmapped_after_kmemunmap ::
    "(nat \<Rightarrow> u32 \<Rightarrow> 'z ztest_scheme \<Rightarrow> u64 \<times> 'z ztest_scheme) \<Rightarrow> (u64 \<Rightarrow> nat \<Rightarrow> 'z ztest_scheme \<Rightarrow> 'z ztest_scheme)
       \<Rightarrow> 'z ztest_scheme \<Rightarrow> 'z ztest_scheme run" where
  "test_p1b_9_unmapped_after_kmemunmap k_mem_map k_mem_unmap s =
     (case k_mem_map 4096 K_MEM_PERM_RW s of (p, s) \<Rightarrow> block
        [zassert (\<lambda>s. p \<noteq> 0),
         store_via p1b p 0xDEADBEEF,
         load_via p1b p (\<lambda>v. zassert (\<lambda>s. v = 0xDEADBEEF)),
         exec (k_mem_unmap p 4096),
         expect EXC_LOAD_PAGE_FAULT p,
         load_via p1b p (\<lambda>_. ztest_test_fail)] s)"

section \<open>What the allocator promises\<close>

text \<open>
  Asked for a page, the allocator finds a free address and a free frame and maps them with \<open>arch_mem_map\<close>; it may
  write to the frame through the new mapping (it clears it unless told not to), which may leave translations of the
  page cached. Unmapping goes through \<open>arch_mem_unmap\<close>.
\<close>

definition page_got :: "u64 \<Rightarrow> u64 \<Rightarrow> u32 \<Rightarrow> 'z ztest_scheme \<Rightarrow> 'z ztest_scheme \<Rightarrow> bool" where
  "page_got va pa flags s s' \<longleftrightarrow> va \<noteq> 0 \<and> test_va va \<and> frame_ok pa s \<and> can_map s 0 va \<and>
     (\<exists>s1 f tlb n. arch_mem_map va pa 4096 flags s = Some s1 \<and> (\<forall>x \<in> zpool_words s1. f x = mem s1 x) \<and>
        (\<forall>(v, e) \<in> set tlb. same_block (fst e) v va \<longrightarrow> e = entry_at s1 va) \<and> s' = s1\<lparr>mem := f, ztlb := tlb, accesses := n\<rparr>)"

definition vm_allocator ::
    "(nat \<Rightarrow> u32 \<Rightarrow> 'z ztest_scheme \<Rightarrow> u64 \<times> 'z ztest_scheme) \<Rightarrow> (u64 \<Rightarrow> nat \<Rightarrow> 'z ztest_scheme \<Rightarrow> 'z ztest_scheme)
       \<Rightarrow> 'z ztest_scheme \<Rightarrow> bool" where
  "vm_allocator k_mem_map k_mem_unmap s \<longleftrightarrow>
     (\<forall>flags. \<exists>pa. page_got (fst (k_mem_map 4096 flags s)) pa flags s (snd (k_mem_map 4096 flags s))) \<and>
     (\<forall>va s. k_mem_unmap va 4096 s = arch_mem_unmap va 4096 s)"

section \<open>A page of its own\<close>

text \<open>Only the words of the tables matter.\<close>

lemma same_words:
  fixes s s' :: "'z ztest_scheme"
  assumes ok: "zmmu_ok s" and f: "mmu_tables s' = mmu_tables s" "mmu_table_used s' = mmu_table_used s" "kernel_root s' = kernel_root s"
    and eq: "\<And>x. x \<in> table_words (ztables s) \<Longrightarrow> mem s' x = mem s x"
  shows "zmmu_ok s'" "entry_at s' va = entry_at s va"
proof -
  from ok obtain lv where po: "zpool_ok s" and wf: "wf_tables lv (ztables s) (kernel_root s) (mem s)"
    by (auto simp: zmmu_ok_def zpool.tables_ok_def)
  have t: "ztables s' = ztables s" "zpool_ok s'"
    using f po by (simp_all add: ztables_def table_at_def zpool_ok_def)
  show "zmmu_ok s'" using wf_tables_outside [OF wf eq] t f(3) unfolding zmmu_ok_def zpool.tables_ok_def by auto
  have st: "zstop s' va = zstop s va" unfolding zstop_def f(3) by (rule stop_at_outside [OF wf eq])
  show "entry_at s' va = entry_at s va"
    using eq [OF stop_in_tables [OF ok, of va]] st by (simp add: entry_at_def case_prod_unfold)
qed

definition holds_page :: "u64 \<Rightarrow> u64 \<Rightarrow> u64 \<Rightarrow> 'z ztest_scheme \<Rightarrow> bool" where
  "holds_page va pa perm s \<longleftrightarrow> zmmu_ok s \<and> frame_ok pa s \<and> entry_at s va = (0, pte_leaf pa perm) \<and> mmu_fault_fixup s = 0 \<and>
     (\<forall>x \<in> set (cached va s). snd x = (0, pte_leaf pa perm))"

lemma holds_used: "holds_page va pa perm s \<Longrightarrow> used_entry acc va s = (0, pte_leaf pa perm)"
  using used_entry_fresh [of va s acc] by (auto simp: holds_page_def)

lemma got_holds:
  assumes "page_got va pa flags s s'" "zmmu_ok s" "mmu_fault_fixup s = 0"
  shows "holds_page va pa (perm_from_flags flags) s'" "hart_ctl s' = hart_ctl s" "va \<noteq> 0" "test_va va"
proof -
  let ?e = "pte_leaf pa (perm_from_flags flags)"
  from assms(1) obtain s1 f tlb n where g: "test_va va" "frame_ok pa s" "can_map s 0 va"
    and m: "arch_mem_map va pa 4096 flags s = Some s1" and f: "\<forall>x \<in> zpool_words s1. f x = mem s1 x"
    and t: "\<forall>(v, e) \<in> set tlb. same_block (fst e) v va \<longrightarrow> e = entry_at s1 va" and s': "s' = s1\<lparr>mem := f, ztlb := tlb, accesses := n\<rparr>"
    by (auto simp: page_got_def)
  obtain s0 where "arch_mem_map va pa 4096 flags s = Some (zfence s0)" and w: "leaf_written 0 va ?e s s0"
    and e: "entry_at s0 va = (0, ?e)"
    by (rule arch_mem_map_page_run [OF assms(2) g(3)])
  with m have s1: "s1 = zfence s0" by simp
  from w have ok: "zmmu_ok s0" and only: "tables_only s s0" by (auto simp: leaf_written_def)
  have agree: "\<And>x. x \<in> table_words (ztables s0) \<Longrightarrow> f x = mem s0 x"
    using f zpool_words_tables [of _ s0] by (auto simp: s1)
  have keep: "zmmu_ok s'" "entry_at s' va = (0, ?e)"
    using same_words [of s0 s'] ok e agree by (simp_all add: s' s1)
  show "holds_page va pa (perm_from_flags flags) s'"
    using keep g(2) t e zpool_words_only [OF only] tables_only_ztest [OF only] assms(3)
      zpool_words_cong [of s' s0]
    by (fastforce simp: holds_page_def frame_ok_def cached_def s' s1)
  show "hart_ctl s' = hart_ctl s" using tables_only_ztest [OF only] by (simp add: s' s1)
  show "va \<noteq> 0" "test_va va" using assms(1) by (simp_all add: page_got_def)
qed

text \<open>An allowed access succeeds, a forbidden one that was announced passes the test.\<close>

lemma holds_access:
  assumes h: "holds_page va pa perm s" and p: "perm_ok perm" "pte_allows (hart_ctl s) acc perm" and va: "test_va va"
  obtains s' where "\<And>k. access_then p1b acc va k s = k pa s'" "holds_page va pa perm s'" "hart_ctl s' = hart_ctl s" "mem s' = mem s"
proof -
  let ?e = "pte_leaf pa perm"
  from h have pa: "page_aligned pa" "drop_bit 56 pa = 0" by (simp_all add: holds_page_def frame_ok_def)
  have x: "entry_xlat (hart_ctl s) acc va 0 ?e = Some pa"
    using page_xlat [OF pa p(1) test_va_canonical [OF va]] p(2) by simp
  have "zaccess code acc va s = Some (Some pa, after_access va 0 ?e s)" for code
    by (rule zaccess_hit [OF holds_used [OF h] x leaf_needs_ad])
  then have "access_then p1b acc va k s = k pa (after_access va 0 ?e s)" for k by (simp add: access_then_def)
  moreover have "holds_page va pa perm (after_access va 0 ?e s)" using h by (auto simp: holds_page_def frame_ok_def cached_def)
  ultimately show thesis by (intro that [of "after_access va 0 ?e s"]) simp_all
qed

lemma holds_forbidden:
  assumes h: "holds_page va pa perm s" and p: "perm_ok perm" "\<not> pte_allows (hart_ctl s) acc perm" and va: "test_va va"
    and c: "x = fault_cause acc"
  obtains s' where "\<And>k. access_then p1b acc va k (s\<lparr>expected_scause := x, expected_stval := va, expect_fault := True\<rparr>) = Halt s'"
    "verdict s' = Some True"
proof -
  let ?e = "pte_leaf pa perm" and ?s = "s\<lparr>expected_scause := x, expected_stval := va, expect_fault := True\<rparr>"
  from h have pa: "page_aligned pa" "drop_bit 56 pa = 0" by (simp_all add: holds_page_def frame_ok_def)
  have x: "entry_xlat (hart_ctl ?s) acc va 0 ?e = None"
    using page_xlat [OF pa p(1) test_va_canonical [OF va]] p(2) by simp
  have "holds_page va pa perm ?s"
    using h same_words [of s ?s] zpool_words_cong [of ?s s] by (auto simp: holds_page_def frame_ok_def cached_def)
  then have "used_entry acc va ?s = (0, ?e)" "mmu_fault_fixup ?s = 0" by (simp add: holds_used, simp add: holds_page_def)
  then have z: "zaccess (resolver p1b) acc va ?s = Some (None, (after_access va 0 ?e ?s)\<lparr>zscause := fault_cause acc, zstval := va\<rparr>)"
    using zaccess_fatal x by blast
  let ?t = "(after_access va 0 ?e ?s)\<lparr>zscause := fault_cause acc, zstval := va\<rparr>"
  have "access_then p1b acc va k ?s = Halt (?t\<lparr>expect_fault := False, verdict := Some True\<rparr>)" for k
    unfolding access_then_def z using fatal_announced [of ?t] c by (simp add: p1b_def after_access_def)
  with that show thesis by simp
qed

lemma holds_store:
  assumes h: "holds_page va pa perm s" and p: "perm_ok perm" "pte_allows (hart_ctl s) Store perm" and va: "test_va va"
  obtains s' where "store_via p1b va v s = Ret s'" "holds_page va pa perm s'" "hart_ctl s' = hart_ctl s" "mem s' pa = v"
proof -
  obtain s1 where 1: "\<And>k. access_then p1b Store va k s = k pa s1" "holds_page va pa perm s1" "hart_ctl s1 = hart_ctl s"
    by (rule holds_access [OF assms]) blast
  from 1(2) have "zmmu_ok s1" "pa \<notin> zpool_words s1" by (simp_all add: holds_page_def frame_ok_def)
  from store_data [OF this, of v] 1 that [of "st64 pa v s1"] show thesis
    by (simp add: store_via_def holds_page_def frame_ok_def cached_def)
qed

text \<open>After the page has been unmapped its entry is empty and nothing is cached.\<close>

lemma holds_unmap:
  assumes h: "holds_page va pa perm s"
  shows "entry_at (arch_mem_unmap va 4096 s) va = (0, 0)" "ztlb (arch_mem_unmap va 4096 s) = []"
    "mmu_fault_fixup (arch_mem_unmap va 4096 s) = 0"
proof -
  from h have ok: "zmmu_ok s" and e: "entry_at s va = (0, pte_leaf pa perm)" and f: "mmu_fault_fixup s = 0" by (auto simp: holds_page_def)
  obtain a where a: "zstop s va = (0, a)" using e by (auto simp: entry_at_def split: prod.splits)
  have "unmap_range va 4096 0 s = unmap_page va s"
    by (subst unmap_range.simps, subst unmap_range.simps) simp
  moreover have "unmap_page va s = st64 a 0 s" using a by (simp add: unmap_page_def unmap_stop zstop_def)
  ultimately have u: "arch_mem_unmap va 4096 s = zfence (st64 a 0 s)" by (simp add: arch_mem_unmap_def)
  show "entry_at (arch_mem_unmap va 4096 s) va = (0, 0)" using store_entry(3) [OF ok a, of 0] by (simp add: u)
  show "ztlb (arch_mem_unmap va 4096 s) = []" "mmu_fault_fixup (arch_mem_unmap va 4096 s) = 0" using f by (simp_all add: u)
qed

section \<open>Properties\<close>

lemma alloc_flags:
  "pte_allows c Store (perm_from_flags K_MEM_PERM_RW)" "pte_allows c Load (perm_from_flags K_MEM_PERM_RW)"
  "\<not> pte_allows c Fetch (perm_from_flags K_MEM_PERM_RW)"
  by (simp_all add: perm_allows flags_allow_def K_MEM_PERM_RW_def bit_simps)

lemma plain_flags:
  assumes "flags AND K_MEM_PERM_RW = 0" "flags AND K_MEM_PERM_USER = 0"
  shows "pte_allows c Load (perm_from_flags flags)" "\<not> pte_allows c Store (perm_from_flags flags)"
  using assms flag_test [of 3 flags] flag_test [of 5 flags]
  by (simp_all add: perm_allows flags_allow_def K_MEM_PERM_RW_def K_MEM_PERM_USER_def)

text \<open>
  C30. The tests of phase 1B on pages of the kernel's allocator pass, for every allocator that maps with \<open>arch_mem_map\<close>
  and unmaps with \<open>arch_mem_unmap\<close>: a page asked for without permission flags can be read and not written, one asked for with write
  permission cannot be executed, and one given back after a write and a read faults at the next load, although its translation
  was cached before.
\<close>

theorem p1b_alloc_tests_pass:
  assumes "vm_allocator k_mem_map k_mem_unmap s" "zmmu_ok s" "mmu_fault_fixup s = 0"
    and "uninit AND K_MEM_PERM_RW = 0" "uninit AND K_MEM_PERM_USER = 0"
  shows "passes (test_p1b_5b_store_ro_kmemmap uninit k_mem_map s) \<and> passes (test_p1b_6b_exec_noexec_kmemmap k_mem_map s) \<and>
    passes (test_p1b_9_unmapped_after_kmemunmap k_mem_map k_mem_unmap s)"
proof (intro conjI)
  note ok = perm_from_flags_ok
  have got: "\<exists>va pa s'. k_mem_map 4096 flags s = (va, s') \<and> holds_page va pa (perm_from_flags flags) s' \<and> va \<noteq> 0 \<and> test_va va" for flags
    using assms(1) got_holds [OF _ assms(2,3)] unfolding vm_allocator_def by (metis prod.collapse)
  show "passes (test_p1b_5b_store_ro_kmemmap uninit k_mem_map s)"
  proof -
    from got obtain va pa s' where m: "k_mem_map 4096 uninit s = (va, s')" "va \<noteq> 0" "test_va va"
      and h: "holds_page va pa (perm_from_flags uninit) s'" by blast
    obtain s1 where 1: "\<And>k. access_then p1b Load va k s' = k pa s1" "holds_page va pa (perm_from_flags uninit) s1"
      by (rule holds_access [OF h ok plain_flags(1) [OF assms(4,5)] m(3)]) blast
    obtain s2 where "\<And>k. access_then p1b Store va k
        (s1\<lparr>expected_scause := EXC_STORE_PAGE_FAULT, expected_stval := va, expect_fault := True\<rparr>) = Halt s2" "verdict s2 = Some True"
      by (rule holds_forbidden [OF 1(2) ok plain_flags(2) [OF assms(4,5)] m(3), of EXC_STORE_PAGE_FAULT]) (simp_all add: exc_codes platform_consts)
    with m 1(1) show ?thesis
      by (simp add: test_p1b_5b_store_ro_kmemmap_def block_Cons zassert_def load_via_def store_via_def passes_def)
  qed
  from got obtain va pa s' where m: "k_mem_map 4096 K_MEM_PERM_RW s = (va, s')" "va \<noteq> 0" "test_va va"
    and h: "holds_page va pa (perm_from_flags K_MEM_PERM_RW) s'" by blast
  obtain s2 where "\<And>k. access_then p1b Fetch va k
      (s'\<lparr>expected_scause := EXC_INST_PAGE_FAULT, expected_stval := va, expect_fault := True\<rparr>) = Halt s2" "verdict s2 = Some True"
    by (rule holds_forbidden [OF h ok alloc_flags(3) m(3), of EXC_INST_PAGE_FAULT]) (simp_all add: exc_codes platform_consts)
  with m show "passes (test_p1b_6b_exec_noexec_kmemmap k_mem_map s)"
    by (simp add: test_p1b_6b_exec_noexec_kmemmap_def block_Cons zassert_def call_via_def passes_def)
  obtain s1 where 1: "store_via p1b va 0xDEADBEEF s' = Ret s1" "holds_page va pa (perm_from_flags K_MEM_PERM_RW) s1" "mem s1 pa = 0xDEADBEEF"
    by (rule holds_store [OF h ok alloc_flags(1) m(3)]) blast
  obtain s2 where 2: "\<And>k. access_then p1b Load va k s1 = k pa s2" "holds_page va pa (perm_from_flags K_MEM_PERM_RW) s2" "mem s2 = mem s1"
    by (rule holds_access [OF 1(2) ok alloc_flags(2) m(3)]) blast
  let ?u = "arch_mem_unmap va 4096 s2"
  let ?s = "?u\<lparr>expected_scause := EXC_LOAD_PAGE_FAULT, expected_stval := va, expect_fault := True\<rparr>"
  note u = holds_unmap [OF 2(2)]
  have "entry_at ?s va = (0, 0)" using u(1) by (subst zmmu_ok_cong(4) [of _ ?u]) simp_all
  then obtain s3 where "\<And>k. access_then p1b Load va k ?s = Halt s3" "verdict s3 = Some True"
    by (rule announced_fault [of ?s va 0 0 Load, rotated]) (use u in \<open>simp_all add: exc_codes platform_consts\<close>)
  moreover have "k_mem_unmap va 4096 s2 = ?u" using assms(1) by (simp add: vm_allocator_def)
  ultimately show "passes (test_p1b_9_unmapped_after_kmemunmap k_mem_map k_mem_unmap s)"
    using m 1 2 by (simp add: test_p1b_9_unmapped_after_kmemunmap_def block_Cons zassert_def load_via_def passes_def)
qed

text \<open>An allocator that always hands out the same page.\<close>

definition demo_mem_map :: "nat \<Rightarrow> u32 \<Rightarrow> ztest \<Rightarrow> u64 \<times> ztest" where
  "demo_mem_map sz flags s =
     (case arch_mem_map 0xD0000000 0x80200000 sz flags s of None \<Rightarrow> (0, s) | Some s' \<Rightarrow> (0xD0000000, s'))"

theorem p1b_alloc_tests_pass_witness:
  "passes (test_p1b_5b_store_ro_kmemmap 0x10000 demo_mem_map demo_test) \<and>
   passes (test_p1b_9_unmapped_after_kmemunmap demo_mem_map arch_mem_unmap demo_test)"
proof -
  have va: "test_va 0xD0000000" by (simp add: test_va_def page_aligned_def take_bit_eq_mod)
  have pa: "frame_ok 0x80200000 demo_test"
    using demo_test_pool [of "0x80200000"] by (simp add: frame_ok_def page_aligned_def take_bit_eq_mod)
  have "page_got (fst (demo_mem_map 4096 flags demo_test)) 0x80200000 flags demo_test (snd (demo_mem_map 4096 flags demo_test))" for flags
  proof -
    obtain s' where s': "arch_mem_map 0xD0000000 0x80200000 4096 flags demo_test = Some (zfence s')"
      by (rule arch_mem_map_page_run [OF demo_test_ok(1) demo_test_can_map]) blast
    have "zfence s' = (zfence s')\<lparr>mem := mem (zfence s'), ztlb := [], accesses := accesses (zfence s')\<rparr>"
      by (simp add: zfence_def)
    with s' va pa demo_test_can_map show ?thesis
      unfolding page_got_def demo_mem_map_def s' option.case fst_conv snd_conv
      by (intro conjI exI [of _ "zfence s'"] exI [of _ "mem (zfence s')"] exI [of _ "[]"] exI [of _ "accesses (zfence s')"]) simp_all
  qed
  then have "vm_allocator demo_mem_map arch_mem_unmap demo_test" unfolding vm_allocator_def by blast
  from p1b_alloc_tests_pass [OF this demo_test_ok(1), where uninit = "0x10000"] show ?thesis
    by (simp add: demo_test_def K_MEM_PERM_RW_def K_MEM_PERM_USER_def)
qed

end
