(* ===== verification/ZRetryTests.thy ===== *)
theory ZRetryTests
  imports ZPages
begin

text \<open>
  Phase 1C of the Zephyr suite, \<^verbatim>\<open>p1c_fault_handle.c\<close>: the resolver that repairs the leaf entry
  of a page fault, and the tests in which the faulting instruction is retried; the load-only resolver of
  phase 2, \<^verbatim>\<open>p2_interrupts.c\<close>.
\<close>

section \<open>The suite\<close>

definition VA_C1 :: u64 where "VA_C1 = 0xD0100000"
definition VA_C2 :: u64 where "VA_C2 = 0xD0110000"
definition VA_C3 :: u64 where "VA_C3 = 0xD0120000"
definition VA_C4_BASE :: u64 where "VA_C4_BASE = 0xD0200000"
definition VA_C5 :: u64 where "VA_C5 = 0xD0300000"
definition C4_N :: nat where "C4_N = 8"

lemmas p1c_vas = VA_C1_def VA_C2_def VA_C3_def VA_C4_BASE_def VA_C5_def

text \<open>Set bits of the leaf entry, drop the cached translations, count the repair.\<close>

definition repair :: "u64 \<Rightarrow> u64 \<Rightarrow> 'z ztest_scheme \<Rightarrow> bool \<times> 'z ztest_scheme" where
  "repair pte bits s =
     (let s = zfence (st64 pte (mem s pte OR bits) s) in (True, s\<lparr>fix_count := inc32 (fix_count s)\<rparr>))"

definition p1c_fixup :: "u64 \<Rightarrow> u64 \<Rightarrow> 'z ztest_scheme \<Rightarrow> bool \<times> 'z ztest_scheme" where
  "p1c_fixup scause stval s =
     (let pte = z_riscv_mmu_pte_lookup stval s
      in if pte = 0 then (False, s)
         else if scause = 13 then repair pte (PTE_V OR PTE_R OR PTE_A) s
         else if scause = 15 then repair pte (PTE_V OR PTE_R OR PTE_W OR PTE_A OR PTE_D) s
         else if scause = 12 then repair pte (PTE_V OR PTE_R OR PTE_X OR PTE_A) s
         else (False, s))"

definition k_sys_fatal_error_handler_p1c :: "'z ztest_scheme \<Rightarrow> 'z ztest_scheme run" where
  "k_sys_fatal_error_handler_p1c = block
     [\<lambda>s. if_do (\<not> expect_fault s) ztest_test_fail s,
      exec (\<lambda>s. s\<lparr>expect_fault := False\<rparr>),
      \<lambda>s. if_do (zscause s \<noteq> expected_scause s \<or> zstval s \<noteq> expected_stval s) ztest_test_fail s,
      ztest_test_pass]"

text \<open>The only function the suite registers is \<open>p1c_fixup\<close>; \<open>fn\<close> is its address.\<close>

definition p1c :: "'z ztest_scheme suite" where
  "p1c = \<lparr>resolver = (\<lambda>_. p1c_fixup), fatal = k_sys_fatal_error_handler_p1c\<rparr>"

definition p1c_before :: "'z ztest_scheme \<Rightarrow> 'z ztest_scheme run" where
  "p1c_before = exec (\<lambda>s. (z_riscv_mmu_set_fault_fixup 0 s)
     \<lparr>fix_count := 0, expect_fault := False, expected_scause := 0, expected_stval := 0\<rparr>)"

definition test_p1c_1_load_fix_retry :: "u64 \<Rightarrow> u64 \<Rightarrow> 'z ztest_scheme \<Rightarrow> 'z ztest_scheme run" where
  "test_p1c_1_load_fix_retry fn bp_c1 = block
     [exec (st64 bp_c1 0xFEEDFACECAFE0001),
      map_raw VA_C1 bp_c1 (PTE_R OR PTE_W) 0,
      exec (z_riscv_mmu_set_fault_fixup fn),
      load_via p1c VA_C1 (\<lambda>val. block
        [zassert (\<lambda>s. fix_count s = 1),
         zassert (\<lambda>s. val = 0xFEEDFACECAFE0001)])]"

definition test_p1c_2_store_fix_retry :: "u64 \<Rightarrow> u64 \<Rightarrow> 'z ztest_scheme \<Rightarrow> 'z ztest_scheme run" where
  "test_p1c_2_store_fix_retry fn bp_c2 = block
     [map_raw VA_C2 bp_c2 (PTE_V OR PTE_R) 0,
      exec (z_riscv_mmu_set_fault_fixup fn),
      store_via p1c VA_C2 0xDEADBEEF00000002,
      zassert (\<lambda>s. fix_count s = 1),
      zassert (\<lambda>s. mem s bp_c2 = 0xDEADBEEF00000002)]"

definition test_p1c_3_exec_fix_retry :: "u64 \<Rightarrow> u64 \<Rightarrow> 'z ztest_scheme \<Rightarrow> 'z ztest_scheme run" where
  "test_p1c_3_exec_fix_retry fn bp_c3 = block
     [exec (st32 bp_c3 RET_INSN),
      map_raw VA_C3 bp_c3 (PTE_V OR PTE_R) 0,
      exec (z_riscv_mmu_set_fault_fixup fn),
      call_via p1c VA_C3,
      zassert (\<lambda>s. fix_count s = 1)]"

definition c4_val :: "nat \<Rightarrow> u64" where
  "c4_val i = 0xA000000000000000 OR of_nat i"

definition test_p1c_4_sequential_faults :: "u64 \<Rightarrow> u64 \<Rightarrow> 'z ztest_scheme \<Rightarrow> 'z ztest_scheme run" where
  "test_p1c_4_sequential_faults fn bp_c4 = block
     [map_pages VA_C4_BASE bp_c4 (PTE_R OR PTE_W) c4_val [0..<C4_N],
      exec (z_riscv_mmu_set_fault_fixup fn),
      block (map (\<lambda>i. load_via p1c (page_no VA_C4_BASE i) (\<lambda>val. zassert (\<lambda>s. val = c4_val i))) [0..<C4_N]),
      zassert (\<lambda>s. fix_count s = int C4_N)]"

definition test_p1c_5_ad_bit_mode :: "u64 \<Rightarrow> 'z ztest_scheme \<Rightarrow> 'z ztest_scheme run" where
  "test_p1c_5_ad_bit_mode bp_c5 = block
     [exec (st64 bp_c5 0x1234567890ABCDEF),
      map_raw VA_C5 bp_c5 (PTE_V OR PTE_R OR PTE_W) 0,
      exec (\<lambda>s. s\<lparr>expected_scause := 13, expected_stval := VA_C5, expect_fault := True\<rparr>),
      load_via p1c VA_C5 (\<lambda>val. block
        [exec (\<lambda>s. s\<lparr>expect_fault := False\<rparr>),
         zassert (\<lambda>s. val = 0x1234567890ABCDEF),
         pte_lookup VA_C5 (\<lambda>pte. block
           [zassert (\<lambda>s. pte \<noteq> 0),
            zassert (\<lambda>s. mem s pte AND PTE_A \<noteq> 0)])])]"

text \<open>The resolver of phase 2.\<close>

definition p2_fixup :: "u64 \<Rightarrow> u64 \<Rightarrow> 'z ztest_scheme \<Rightarrow> bool \<times> 'z ztest_scheme" where
  "p2_fixup scause stval s =
     (if scause \<noteq> 13 then (False, s)
      else let pte = z_riscv_mmu_pte_lookup stval s
           in if pte = 0 then (False, s) else repair pte (PTE_V OR PTE_R OR PTE_A) s)"

section \<open>Fixing and retrying\<close>

text \<open>The rights the resolver of phase 1C adds for an access.\<close>

fun fix_bits :: "access \<Rightarrow> u64" where
  "fix_bits Load = PTE_V OR PTE_R OR PTE_A"
| "fix_bits Store = PTE_V OR PTE_R OR PTE_W OR PTE_A OR PTE_D"
| "fix_bits Fetch = PTE_V OR PTE_R OR PTE_X OR PTE_A"

lemma p1c_fixup_cause:
  "p1c_fixup (fault_cause acc) va s =
     (let pte = z_riscv_mmu_pte_lookup va s in if pte = 0 then (False, s) else repair pte (fix_bits acc) s)"
  by (cases acc) (simp_all add: p1c_fixup_def platform_consts Let_def)

definition resolves :: "(u64 \<Rightarrow> u64 \<Rightarrow> u64 \<Rightarrow> 'z ztest_scheme \<Rightarrow> bool \<times> 'z ztest_scheme) \<Rightarrow> access \<Rightarrow> bool" where
  "resolves code acc \<longleftrightarrow> (\<forall>fn va s. code fn (fault_cause acc) va s =
     (let pte = z_riscv_mmu_pte_lookup va s in if pte = 0 then (False, s) else repair pte (fix_bits acc) s))"

lemma resolvers: "resolves (\<lambda>_. p1c_fixup) acc" "resolves (\<lambda>_. p2_fixup) Load"
  by (simp_all add: resolves_def p1c_fixup_cause p2_fixup_def platform_consts Let_def)

lemma fault_dispatch:
  "z_riscv_fault code (s\<lparr>zscause := fault_cause acc, zstval := va\<rparr>) =
     (if mmu_fault_fixup s = 0 then (False, s\<lparr>zscause := fault_cause acc, zstval := va\<rparr>)
      else code (mmu_fault_fixup s) (fault_cause acc) va (s\<lparr>zscause := fault_cause acc, zstval := va\<rparr>))"
  by (cases acc) (simp_all add: z_riscv_fault_def z_riscv_mmu_try_fault_fixup_def platform_consts)

text \<open>An access to a page that lacks rights is repaired once, retried and succeeds.\<close>

lemma fix_retry:
  assumes ok: "zmmu_ok s" "0 < mmu_tables s" and en: "entry_at s va = (0, e)" and u: "used_entry acc va s = (0, e)"
    and no: "entry_xlat (hart_ctl s) acc va 0 e = None" and fn: "mmu_fault_fixup s \<noteq> 0" and rs: "resolves code acc"
    and nb: "\<not> is_branch (e OR fix_bits acc)" and yes: "entry_xlat (hart_ctl s) acc va 0 (e OR fix_bits acc) = Some pa"
    and nad: "\<not> needs_ad acc (e OR fix_bits acc)"
  obtains s' where "zaccess code acc va s = Some (Some pa, s')" "zmmu_ok s'" "entry_at s' va = (0, e OR fix_bits acc)"
    "\<And>va'. \<not> same_block 0 va va' \<Longrightarrow> entry_at s' va' = entry_at s va'" "fix_count s' = inc32 (fix_count s)"
    "same_env (s\<lparr>fix_count := inc32 (fix_count s)\<rparr>) s'" "\<And>x. x \<notin> zpool_words s \<Longrightarrow> mem s' x = mem s x"
    "ztlb s' = [(va, 0, e OR fix_bits acc)]"
proof -
  let ?e = "e OR fix_bits acc"
  define s1 where "s1 = (after_access va 0 e s)\<lparr>zscause := fault_cause acc, zstval := va\<rparr>"
  have s1: "mem s1 = mem s" "mmu_tables s1 = mmu_tables s" "mmu_table_used s1 = mmu_table_used s" "kernel_root s1 = kernel_root s"
    by (simp_all add: s1_def)
  note t1 = zmmu_ok_cong [OF s1] zpool_words_cong [OF s1(2,3)]
  have 1: "zmmu_ok s1" "0 < mmu_tables s1" "entry_at s1 va = (0, e)" using ok en s1(2) by (simp_all add: t1)
  obtain a where a: "zstop s1 va = (0, a)" "mem s1 a = e" using 1(3) by (auto simp: entry_at_def split: prod.splits)
  have lk: "z_riscv_mmu_pte_lookup va s1 = a" "a \<noteq> 0" using lookup_entry [OF 1(1,2) a(1)] by simp_all
  define s2 where "s2 = (zfence (st64 a ?e s1))\<lparr>fix_count := inc32 (fix_count s)\<rparr>"
  have "z_riscv_fault code s1 = (True, s2)"
    using fn rs lk a(2) unfolding s1_def fault_dispatch resolves_def
    by (simp add: s1_def [symmetric] repair_def s2_def Let_def) (simp add: s1_def)
  then have z: "zaccess code acc va s = zaccess code acc va s2"
    using zaccess_fault [OF u no, of code] by (simp add: s1_def [symmetric])
  have s2: "mem s2 = mem (st64 a ?e s1)" "mmu_tables s2 = mmu_tables (st64 a ?e s1)"
    "mmu_table_used s2 = mmu_table_used (st64 a ?e s1)" "kernel_root s2 = kernel_root (st64 a ?e s1)" by (simp_all add: s2_def)
  note t2 = zmmu_ok_cong [OF s2] zpool_words_cong [OF s2(2,3)]
  note se = store_entry [OF 1(1) a(1) nb]
  have en2: "entry_at s2 va = (0, ?e)" using se(3) by (simp add: t2)
  then have u2: "used_entry acc va s2 = (0, ?e)" using used_entry_fresh [of va s2 acc] by (simp add: s2_def)
  have y2: "entry_xlat (hart_ctl s2) acc va 0 ?e = Some pa" using yes by (simp add: s2_def s1_def)
  have aw: "a \<in> table_words (ztables s)" using stop_in_tables [OF 1(1), of va] a(1) by (simp add: t1)
  have f2: "mmu_fault_fixup s2 = mmu_fault_fixup s" "hart_ctl s2 = hart_ctl s" "fix_count s2 = inc32 (fix_count s)"
    "expect_fault s2 = expect_fault s" "mmu_tables s2 = mmu_tables s" by (simp_all add: s2_def s1_def)
  have "zpool_words s2 = zpool_words s" by (simp add: t1 t2)
  note f2 = f2 this
  show thesis
  proof (rule that [of "after_access va 0 ?e s2"])
    show "zaccess code acc va s = Some (Some pa, after_access va 0 ?e s2)" unfolding z by (rule zaccess_hit [OF u2 y2 nad])
    show "zmmu_ok (after_access va 0 ?e s2)" "entry_at (after_access va 0 ?e s2) va = (0, ?e)" using se(1) en2 by (simp_all add: t2)
    show "entry_at (after_access va 0 ?e s2) va' = entry_at s va'" if "\<not> same_block 0 va va'" for va'
      using se(4) [OF that] by (simp add: t1 t2)
    show "fix_count (after_access va 0 ?e s2) = inc32 (fix_count s)" by (simp add: s2_def)
    show "same_env (s\<lparr>fix_count := inc32 (fix_count s)\<rparr>) (after_access va 0 ?e s2)"
      using zpool_words_cong [of "s\<lparr>fix_count := inc32 (fix_count s)\<rparr>" s] f2 by (simp add: same_env_def)
    show "mem (after_access va 0 ?e s2) x = mem s x" if "x \<notin> zpool_words s" for x
      using that aw zpool_words_tables [OF that] by (auto simp: s2 s1)
    show "ztlb (after_access va 0 ?e s2) = [(va, 0, ?e)]" by (simp add: s2_def)
  qed
qed

lemma fix_bits_flags: "bit (fix_bits acc) 0" "bit (fix_bits acc) 1" "bit (fix_bits acc) 6" "acc = Store \<Longrightarrow> bit (fix_bits acc) 7"
  by (cases acc; simp add: bit_simps flag_bits)+

lemma fix_retry_raw:
  assumes ok: "zmmu_ok s" "0 < mmu_tables s" and en: "entry_at s va = (0, phys_to_ppn pa OR b)"
    and u: "used_entry acc va s = (0, phys_to_ppn pa OR b)" and no: "\<not> bit b 0 \<or> \<not> pte_allows (hart_ctl s) acc b"
    and fn: "mmu_fault_fixup s \<noteq> 0" and rs: "resolves code acc" and pa: "page_aligned pa" "drop_bit 56 pa = 0" and va: "test_va va"
    and b: "\<forall>n. bit b n \<longrightarrow> n < 4" and yes: "pte_allows (hart_ctl s) acc (b OR fix_bits acc)"
  obtains s' where "zaccess code acc va s = Some (Some pa, s')" "zmmu_ok s'"
    "entry_at s' va = (0, phys_to_ppn pa OR (b OR fix_bits acc))"
    "\<And>va'. \<not> same_block 0 va va' \<Longrightarrow> entry_at s' va' = entry_at s va'" "fix_count s' = inc32 (fix_count s)"
    "same_env (s\<lparr>fix_count := inc32 (fix_count s)\<rparr>) s'" "\<And>x. x \<notin> zpool_words s \<Longrightarrow> mem s' x = mem s x"
    "ztlb s' = [(va, 0, phys_to_ppn pa OR (b OR fix_bits acc))]"
proof -
  let ?b = "b OR fix_bits acc"
  have or: "(phys_to_ppn pa OR b) OR fix_bits acc = phys_to_ppn pa OR ?b" by (simp add: or.assoc)
  have fb: "n \<le> 7" if "bit (fix_bits acc) n" for n using that by (cases acc) (auto simp: bit_simps flag_bits)
  have lf: "leaf_flags ?b" using b fb fix_bits_flags [of acc] by (fastforce simp: leaf_flags_def bit_simps)
  have ad: "pte_ad_ok (hart_ctl s) acc ?b" "\<not> needs_ad acc ?b"
    using fix_bits_flags [of acc] by (auto simp: pte_ad_ok_def needs_ad_def bit_simps)
  have nb: "\<not> is_branch (phys_to_ppn pa OR ?b)" using fix_bits_flags [of acc] by (simp add: is_branch_def bit_simps)
  have x: "entry_xlat (hart_ctl s) acc va 0 (phys_to_ppn pa OR ?b) = Some pa"
    using raw_xlat [OF lf pa test_va_canonical [OF va]] yes ad by simp
  show thesis
    by (rule fix_retry [OF ok en u raw_forbidden [OF no] fn rs, unfolded or, OF nb x])
      (use ad that in \<open>auto simp: raw_ad\<close>)
qed

lemma p1c_before_run:
  obtains s0 where "p1c_before s = Ret s0" "same_tables s s0" "mmu_fault_fixup s0 = 0" "fix_count s0 = 0"
    "expect_fault s0 = False" "hart_ctl s0 = hart_ctl s"
  by (rule that [of "(z_riscv_mmu_set_fault_fixup 0 s)\<lparr>fix_count := 0, expect_fault := False, expected_scause := 0, expected_stval := 0\<rparr>"])
    (simp_all add: p1c_before_def same_tables_def z_riscv_mmu_set_fault_fixup_def)

text \<open>What a test of the suite relies on for one page.\<close>

definition p1c_page :: "u64 \<Rightarrow> u64 \<Rightarrow> 'z ztest_scheme \<Rightarrow> bool" where
  "p1c_page va pa s \<longleftrightarrow> zmmu_ok s \<and> 0 < mmu_tables s \<and> frame_ok pa s \<and> can_map s 0 va"

lemma p1c_test_va [simp]: "test_va VA_C1" "test_va VA_C2" "test_va VA_C3" "test_va VA_C5"
  by (simp_all add: test_va_def p1c_vas page_aligned_def take_bit_eq_mod)

text \<open>From the reset before a test to the repaired access.\<close>

lemma retried_access:
  assumes pg: "p1c_page va pa s" and va: "test_va va" and fn: "fn \<noteq> 0" and fx: "mmu_fault_fixup s = 0" "fix_count s = 0"
    and b: "\<forall>n. bit b n \<longrightarrow> n < 4" "\<not> is_branch b" and no: "\<not> bit b 0 \<or> \<not> pte_allows (hart_ctl s) acc b"
    and yes: "pte_allows (hart_ctl s) acc (b OR fix_bits acc)"
  obtains s1 s2 where "map_raw va pa b 0 s = Ret s1"
    "\<And>k. access_then p1c acc va k (z_riscv_mmu_set_fault_fixup fn s1) = k pa s2" "fix_count s2 = 1"
    "mem s2 pa = mem s pa"
proof -
  from pg have ok: "zmmu_ok s" "0 < mmu_tables s" "frame_ok pa s" "can_map s 0 va" by (simp_all add: p1c_page_def)
  obtain s1 where 1: "map_raw va pa b 0 s = Ret s1" "zmmu_ok s1" "entry_at s1 va = (0, phys_to_ppn pa OR b)" "ztlb s1 = []"
    "same_env s s1" "\<And>x. x \<notin> zpool_words s \<Longrightarrow> mem s1 x = mem s x"
    by (rule raw_page_run [OF ok(1,3) va ok(4) b(2)]) blast
  let ?s = "z_riscv_mmu_set_fault_fixup fn s1"
  note st = same_tablesD [OF same_tables_fixup [of s1 fn]]
  have en: "entry_at ?s va = (0, phys_to_ppn pa OR b)" using 1(3) st by simp
  have u: "used_entry acc va ?s = (0, phys_to_ppn pa OR b)" using used_entry_fresh [of va ?s acc] en 1(4) by simp
  from ok(3) have pa: "page_aligned pa" "drop_bit 56 pa = 0" "pa \<notin> zpool_words s" by (simp_all add: frame_ok_def)
  obtain s2 where "zaccess (resolver p1c) acc va ?s = Some (Some pa, s2)" "fix_count s2 = inc32 (fix_count ?s)"
    "\<And>x. x \<notin> zpool_words ?s \<Longrightarrow> mem s2 x = mem ?s x"
    by (rule fix_retry_raw [OF _ _ en u, of "resolver p1c"])
      (use 1 ok st fn pa va b no yes resolvers(1) in \<open>auto simp: same_env_def p1c_def\<close>)
  with that [of s1 s2] 1 fx pa st show thesis by (simp add: access_then_def same_env_def)
qed

section \<open>The tests\<close>

lemma test_1_passes:
  assumes "p1c_page VA_C1 bp_c1 s" "fn \<noteq> 0"
  shows "passes (block [p1c_before, test_p1c_1_load_fix_retry fn bp_c1] s)"
proof -
  obtain s0 where b: "p1c_before s = Ret s0" "same_tables s s0" "mmu_fault_fixup s0 = 0" "fix_count s0 = 0"
    by (rule p1c_before_run) blast
  let ?s = "st64 bp_c1 0xFEEDFACECAFE0001 s0"
  from assms(1) have out: "bp_c1 \<notin> zpool_words s0" and ok: "zmmu_ok s0"
    using same_tablesD [OF b(2)] by (simp_all add: p1c_page_def frame_ok_def)
  have pg: "p1c_page VA_C1 bp_c1 ?s"
    using assms(1) same_tablesD [OF b(2)] store_data [OF ok out] by (simp add: p1c_page_def frame_ok_def)
  obtain s1 s2 where "map_raw VA_C1 bp_c1 (PTE_R OR PTE_W) 0 ?s = Ret s1"
    "\<And>k. access_then p1c Load VA_C1 k (z_riscv_mmu_set_fault_fixup fn s1) = k bp_c1 s2" "fix_count s2 = 1"
    "mem s2 bp_c1 = mem ?s bp_c1"
    by (rule retried_access [OF pg p1c_test_va(1) assms(2), of "PTE_R OR PTE_W" Load])
      (use b in \<open>auto simp: bit_simps flag_bits is_branch_def pte_allows_def\<close>)
  then show ?thesis
    by (simp add: block_Cons b test_p1c_1_load_fix_retry_def load_via_def zassert_def passes_def)
qed

lemma test_2_passes:
  assumes "p1c_page VA_C2 bp_c2 s" "fn \<noteq> 0"
  shows "passes (block [p1c_before, test_p1c_2_store_fix_retry fn bp_c2] s)"
proof -
  obtain s0 where b: "p1c_before s = Ret s0" "same_tables s s0" "mmu_fault_fixup s0 = 0" "fix_count s0 = 0"
    by (rule p1c_before_run) blast
  have pg: "p1c_page VA_C2 bp_c2 s0"
    using assms(1) same_tablesD [OF b(2)] by (simp add: p1c_page_def)
  obtain s1 s2 where "map_raw VA_C2 bp_c2 (PTE_V OR PTE_R) 0 s0 = Ret s1"
    "\<And>k. access_then p1c Store VA_C2 k (z_riscv_mmu_set_fault_fixup fn s1) = k bp_c2 s2" "fix_count s2 = 1"
    by (rule retried_access [OF pg p1c_test_va(2) assms(2), of "PTE_V OR PTE_R" Store])
      (use b in \<open>auto simp: bit_simps flag_bits is_branch_def pte_allows_def\<close>)
  then show ?thesis
    by (simp add: block_Cons b test_p1c_2_store_fix_retry_def store_via_def zassert_def passes_def)
qed

lemma test_3_passes:
  assumes "p1c_page VA_C3 bp_c3 s" "fn \<noteq> 0"
  shows "passes (block [p1c_before, test_p1c_3_exec_fix_retry fn bp_c3] s)"
proof -
  obtain s0 where b: "p1c_before s = Ret s0" "same_tables s s0" "mmu_fault_fixup s0 = 0" "fix_count s0 = 0"
    by (rule p1c_before_run) blast
  let ?s = "st32 bp_c3 RET_INSN s0"
  from assms(1) have out: "bp_c3 \<notin> zpool_words s0" and ok: "zmmu_ok s0" and al: "page_aligned bp_c3"
    using same_tablesD [OF b(2)] by (simp_all add: p1c_page_def frame_ok_def)
  note st = st32_page [OF al, of RET_INSN s0]
  have pg: "p1c_page VA_C3 bp_c3 ?s"
    using assms(1) same_tablesD [OF b(2)] store_data [OF ok out] by (simp add: p1c_page_def frame_ok_def st)
  obtain s1 s2 where 1: "map_raw VA_C3 bp_c3 (PTE_V OR PTE_R) 0 ?s = Ret s1"
    "\<And>k. access_then p1c Fetch VA_C3 k (z_riscv_mmu_set_fault_fixup fn s1) = k bp_c3 s2" "fix_count s2 = 1"
    "mem s2 bp_c3 = mem ?s bp_c3"
    by (rule retried_access [OF pg p1c_test_va(3) assms(2), of "PTE_V OR PTE_R" Fetch])
      (use b in \<open>auto simp: bit_simps flag_bits is_branch_def pte_allows_def st\<close>)
  have "ld32 s2 bp_c3 = RET_INSN" using ld32_page [OF al 1(4)] ld32_st32(1) [of bp_c3 RET_INSN s0] by simp
  with 1 show ?thesis
    by (simp add: block_Cons b test_p1c_3_exec_fix_retry_def call_via_def zassert_def passes_def)
qed

text \<open>The A/D test: with hardware updates the load succeeds and sets A, without them it faults as announced.\<close>

lemma test_5_passes:
  assumes "p1c_page VA_C5 bp_c5 s"
  shows "passes (block [p1c_before, test_p1c_5_ad_bit_mode bp_c5] s)"
proof -
  obtain s0 where b: "p1c_before s = Ret s0" "same_tables s s0" "mmu_fault_fixup s0 = 0" by (rule p1c_before_run) blast
  let ?s = "st64 bp_c5 0x1234567890ABCDEF s0" and ?b = "PTE_V OR PTE_R OR PTE_W"
  from assms have out: "bp_c5 \<notin> zpool_words s0" and ok: "zmmu_ok s0" "frame_ok bp_c5 s0" "can_map s0 0 VA_C5" "0 < mmu_tables s0"
    using same_tablesD [OF b(2)] by (simp_all add: p1c_page_def frame_ok_def)
  note sd = store_data [OF ok(1) out]
  have pa: "page_aligned bp_c5" "drop_bit 56 bp_c5 = 0" using ok(2) by (simp_all add: frame_ok_def)
  obtain s1 where 1: "map_raw VA_C5 bp_c5 ?b 0 ?s = Ret s1" "zmmu_ok s1" "entry_at s1 VA_C5 = (0, phys_to_ppn bp_c5 OR ?b)"
    "ztlb s1 = []" "same_env ?s s1" "\<And>x. x \<notin> zpool_words ?s \<Longrightarrow> mem s1 x = mem ?s x"
    by (rule raw_page_run [of ?s bp_c5 VA_C5 ?b]) (use ok sd in \<open>auto simp: frame_ok_def is_branch_def bit_simps flag_bits\<close>)
  define s2 where "s2 = s1\<lparr>expected_scause := 13, expected_stval := VA_C5, expect_fault := True\<rparr>"
  have st2: "same_tables s1 s2" by (simp add: same_tables_def s2_def)
  let ?e = "phys_to_ppn bp_c5 OR ?b"
  have en: "entry_at s2 VA_C5 = (0, ?e)" using 1(3) same_tablesD [OF st2] by simp
  have u: "used_entry Load VA_C5 s2 = (0, ?e)" using used_entry_fresh [of VA_C5 s2 Load] en 1(4) by (simp add: s2_def)
  have lf: "leaf_flags ?b" by (auto simp: leaf_flags_def bit_simps flag_bits)
  have x: "entry_xlat (hart_ctl s2) Load VA_C5 0 ?e = (if ctl_svadu (hart_ctl s2) then Some bp_c5 else None)"
    using raw_xlat [OF lf pa test_va_canonical [OF p1c_test_va(4)]] by (simp add: pte_allows_def pte_ad_ok_def bit_simps flag_bits)
  have nad: "needs_ad Load ?e" by (simp only: raw_ad) (simp add: needs_ad_def bit_simps flag_bits)
  show ?thesis
  proof (cases "ctl_svadu (hart_ctl s2)")
    case False
    have "zaccess (resolver p1c) Load VA_C5 s2 = Some (None, (after_access VA_C5 0 ?e s2)\<lparr>zscause := fault_cause Load, zstval := VA_C5\<rparr>)"
      by (rule zaccess_fatal [OF u]) (use x False 1(5) b(3) in \<open>auto simp: s2_def same_env_def\<close>)
    then show ?thesis
      by (simp add: block_Cons b(1) 1(1) test_p1c_5_ad_bit_mode_def load_via_def access_then_def p1c_def s2_def [symmetric]
        passes_def) (simp add: k_sys_fatal_error_handler_p1c_def block_Cons s2_def after_access_def ztest_test_pass_def platform_consts)
  next
    case True
    obtain a where a: "zstop s2 VA_C5 = (0, a)" using en by (auto simp: entry_at_def split: prod.splits)
    let ?e' = "set_ad Load ?e"
    let ?s1 = "after_access VA_C5 0 ?e' s2"
    define s3 where "s3 = st64 a ?e' ?s1"
    have z: "zaccess (resolver p1c) Load VA_C5 s2 = Some (Some bp_c5, s3)"
      using True x nad a by (subst zaccess.simps) (simp add: access_once_def u s3_def after_access_def)
    have nb: "\<not> is_branch ?e'" by (simp add: set_ad_def is_branch_def bit_simps bit_raw flag_bits)
    have ok2: "zmmu_ok ?s1" "zstop ?s1 VA_C5 = (0, a)" using 1(2) same_tablesD [OF st2] a by simp_all
    note se = store_entry [OF ok2 nb]
    have out2: "bp_c5 \<notin> zpool_words s2" using out 1(5) same_tablesD [OF st2] by (simp add: same_env_def)
    have "a \<in> table_words (ztables s2)"
      using stop_in_tables [of s2 VA_C5] a 1(2) same_tablesD [OF st2] by simp
    then have "bp_c5 \<noteq> a" using zpool_words_tables [OF out2] by auto
    then have v: "mem s3 bp_c5 = 0x1234567890ABCDEF" using 1(6) [of bp_c5] out same_tablesD [OF st2] by (simp add: s3_def)
    let ?s4 = "s3\<lparr>expect_fault := False\<rparr>"
    have st4: "same_tables s3 ?s4" by (simp add: same_tables_def)
    have h4: "zmmu_ok ?s4" "0 < mmu_tables ?s4" "entry_at ?s4 VA_C5 = (0, ?e')"
      using se(1,3) same_tablesD [OF st4] 1(5) ok(4) by (simp_all add: s3_def same_env_def s2_def)
    obtain a' where l: "\<And>k. pte_lookup VA_C5 k ?s4 = k a' ?s4" "a' \<noteq> 0" "mem ?s4 a' = ?e'"
      by (rule lookup_run [OF h4]) auto
    have "?e' AND PTE_A \<noteq> 0" by (simp add: set_ad_def bit_simps flag_bits) (simp add: PTE_A_def)
    with l v show ?thesis
      by (simp add: block_Cons b(1) 1(1) test_p1c_5_ad_bit_mode_def load_via_def access_then_def s2_def [symmetric] z
        passes_def zassert_def)
  qed
qed

text \<open>The row of pages: before load \<open>i\<close> the first \<open>i\<close> are repaired, the others untouched and not cached.\<close>

definition c4_inv :: "u64 \<Rightarrow> nat \<Rightarrow> 'z ztest_scheme \<Rightarrow> bool" where
  "c4_inv bp i s \<longleftrightarrow> zmmu_ok s \<and> 0 < mmu_tables s \<and> mmu_fault_fixup s \<noteq> 0 \<and> fix_count s = int i \<and>
     row_frames VA_C4_BASE bp C4_N s \<and> (\<forall>j < C4_N. mem s (page_no bp j) = c4_val j) \<and>
     (\<forall>j < C4_N. i \<le> j \<longrightarrow> entry_at s (page_no VA_C4_BASE j) = (0, phys_to_ppn (page_no bp j) OR (PTE_R OR PTE_W)) \<and>
        cached (page_no VA_C4_BASE j) s = [])"

lemma c4_load:
  assumes inv: "c4_inv bp i s" and i: "i < C4_N"
  shows "\<exists>s'. load_via p1c (page_no VA_C4_BASE i) (\<lambda>val. zassert (\<lambda>s. val = c4_val i)) s = Ret s' \<and> c4_inv bp (Suc i) s'"
proof -
  let ?va = "page_no VA_C4_BASE i" and ?pa = "page_no bp i" and ?b = "PTE_R OR PTE_W"
  from inv have ok: "zmmu_ok s" "0 < mmu_tables s" "mmu_fault_fixup s \<noteq> 0" "fix_count s = int i" and fr: "row_frames VA_C4_BASE bp C4_N s"
    and mv: "\<And>j. j < C4_N \<Longrightarrow> mem s (page_no bp j) = c4_val j"
    and en: "\<And>j. j < C4_N \<Longrightarrow> i \<le> j \<Longrightarrow> entry_at s (page_no VA_C4_BASE j) = (0, phys_to_ppn (page_no bp j) OR ?b)"
    and ca: "\<And>j. j < C4_N \<Longrightarrow> i \<le> j \<Longrightarrow> cached (page_no VA_C4_BASE j) s = []"
    by (auto simp: c4_inv_def)
  from fr have v: "range_ok (2 ^ 38) VA_C4_BASE C4_N" and p: "range_ok (2 ^ 56) bp C4_N"
    and out: "\<And>j. j < C4_N \<Longrightarrow> page_no bp j \<notin> zpool_words s" by (auto simp: row_frames_def)
  have va: "test_va ?va"
    using uint_page_no [OF v _ i] page_no_aligned [OF v _ i] v i by (auto simp: test_va_def range_ok_def)
  have pa: "page_aligned ?pa" "drop_bit 56 ?pa = 0"
    using page_no_aligned [OF p _ i] uint_page_no [OF p _ i] p i by (auto simp: range_ok_def intro: drop_56_uint)
  have u: "used_entry Load ?va s = (0, phys_to_ppn ?pa OR ?b)"
    using used_entry_fresh [of ?va s Load] ca [OF i] en [OF i] by simp
  obtain s' where z: "zaccess (resolver p1c) Load ?va s = Some (Some ?pa, s')" "zmmu_ok s'"
    "\<And>va'. \<not> same_block 0 ?va va' \<Longrightarrow> entry_at s' va' = entry_at s va'" "fix_count s' = inc32 (fix_count s)"
    "same_env (s\<lparr>fix_count := inc32 (fix_count s)\<rparr>) s'" "\<And>x. x \<notin> zpool_words s \<Longrightarrow> mem s' x = mem s x"
    "ztlb s' = [(?va, 0, phys_to_ppn ?pa OR (?b OR fix_bits Load))]"
    by (rule fix_retry_raw [OF ok(1,2) en [OF i order_refl] u _ ok(3) _ pa va, of "resolver p1c"])
      (use resolvers(1) in \<open>auto simp: p1c_def bit_simps flag_bits pte_allows_def\<close>)
  have val: "mem s' ?pa = c4_val i" using z(6) [OF out [OF i]] mv [OF i] by simp
  have zp: "zpool_words s' = zpool_words s"
    using z(5) zpool_words_cong [of "s\<lparr>fix_count := inc32 (fix_count s)\<rparr>" s] by (simp add: same_env_def)
  have env: "mmu_fault_fixup s' \<noteq> 0" "0 < mmu_tables s'" using z(5) ok by (auto simp: same_env_def)
  have "entry_at s' (page_no VA_C4_BASE j) = (0, phys_to_ppn (page_no bp j) OR ?b) \<and> cached (page_no VA_C4_BASE j) s' = []"
    if "j < C4_N" "Suc i \<le> j" for j
    using z(3,7) page_no_other [OF v i that(1)] en [OF that(1)] that(2) by (simp add: cached_def)
  moreover have "int i + 1 < 2147483647" using i by (simp add: C4_N_def)
  ultimately have "c4_inv bp (Suc i) s'"
    using z(2,4) env fr zp z(6) [OF out] mv ok(4) by (simp add: c4_inv_def row_frames_def)
  with z(1) val show ?thesis by (simp add: load_via_def access_then_def zassert_def)
qed

lemma c4_loads:
  "c4_inv bp 0 s \<Longrightarrow>
   \<exists>s'. block (map (\<lambda>i. load_via p1c (page_no VA_C4_BASE i) (\<lambda>val. zassert (\<lambda>s. val = c4_val i))) [0..<C4_N]) s = Ret s' \<and>
     c4_inv bp C4_N s'"
  by (rule block_upto [where P = "c4_inv bp"]) (use c4_load in auto)

definition p1c_row :: "u64 \<Rightarrow> 'z ztest_scheme \<Rightarrow> bool" where
  "p1c_row bp_c4 s \<longleftrightarrow> zmmu_ok s \<and> 0 < mmu_tables s \<and> range_ok (2 ^ 56) bp_c4 C4_N \<and>
     (\<forall>j < C4_N. page_no bp_c4 j \<notin> zpool_words s) \<and> can_map s 0 VA_C4_BASE \<and>
     (\<forall>j < C4_N. path_clear (mem s) 2 2 (kernel_root s) (page_no VA_C4_BASE j))"

lemma c4_region: "range_ok (2 ^ 38) VA_C4_BASE C4_N" "0 < j \<Longrightarrow> j < C4_N \<Longrightarrow> vpn_ix 0 (page_no VA_C4_BASE j) \<noteq> 0"
proof -
  show "range_ok (2 ^ 38) VA_C4_BASE C4_N"
    by (simp add: range_ok_def C4_N_def VA_C4_BASE_def page_aligned_def take_bit_eq_mod)
  assume "0 < j" "j < C4_N"
  then have "j \<in> {1, 2, 3, 4, 5, 6, 7}" by (auto simp: C4_N_def)
  then show "vpn_ix 0 (page_no VA_C4_BASE j) \<noteq> 0"
    by (auto simp: page_no_def VA_C4_BASE_def vpn_ix_def simp flip: mask9_u64)
qed

lemma test_4_passes:
  assumes "p1c_row bp_c4 s" "fn \<noteq> 0"
  shows "passes (block [p1c_before, test_p1c_4_sequential_faults fn bp_c4] s)"
proof -
  obtain s0 where b: "p1c_before s = Ret s0" "same_tables s s0" "mmu_fault_fixup s0 = 0" "fix_count s0 = 0"
    by (rule p1c_before_run) blast
  note st = same_tablesD [OF b(2)]
  have fr: "row_frames VA_C4_BASE bp_c4 C4_N s0" and row: "row_ok VA_C4_BASE bp_c4 (PTE_R OR PTE_W) c4_val 0 C4_N s0"
    using assms(1) st c4_region by (simp_all add: p1c_row_def row_frames_def row_ok_def page_no_def [of _ 0])
  have nb: "\<not> is_branch (PTE_R OR PTE_W)" by (simp add: is_branch_def bit_simps flag_bits)
  from map_pages_run [OF nb fr _ row] obtain s1 where
    1: "map_pages VA_C4_BASE bp_c4 (PTE_R OR PTE_W) c4_val [0..<C4_N] s0 = Ret s1"
    "row_ok VA_C4_BASE bp_c4 (PTE_R OR PTE_W) c4_val C4_N C4_N s1" "same_env s0 s1" "ztlb s1 = []"
    by (auto simp: C4_N_def)
  let ?s = "z_riscv_mmu_set_fault_fixup fn s1"
  have "c4_inv bp_c4 0 ?s"
    using 1 fr assms same_tablesD [OF same_tables_fixup [of s1 fn]] st b(4)
    by (auto simp: c4_inv_def row_ok_def same_env_def row_frames_def p1c_row_def)
  from c4_loads [OF this] obtain s2 where
    "block (map (\<lambda>i. load_via p1c (page_no VA_C4_BASE i) (\<lambda>val. zassert (\<lambda>s. val = c4_val i))) [0..<C4_N]) ?s = Ret s2"
    "c4_inv bp_c4 C4_N s2" by auto
  then show ?thesis
    using b(1) 1(1) by (simp add: block_Cons test_p1c_4_sequential_faults_def zassert_def passes_def c4_inv_def del: upt_Suc)
qed

text \<open>
  C9. Phase 1C on a hart that translates as Sv39 says: on well-formed tables with the test addresses free,
  each load, store or fetch of a page that lacks the right faults, is repaired by \<open>p1c_fixup\<close>
  exactly once and retried with the right result, for the single pages and for the row of eight; the A/D test
  passes with hardware updates and without. No test loops in retries, whatever the translation cache does.
\<close>

theorem p1c_tests_pass:
  assumes "fn \<noteq> 0" "p1c_page VA_C1 bp_c1 s" "p1c_page VA_C2 bp_c2 s" "p1c_page VA_C3 bp_c3 s" "p1c_page VA_C5 bp_c5 s" "p1c_row bp_c4 s"
  shows "passes (block [p1c_before, test_p1c_1_load_fix_retry fn bp_c1] s) \<and>
    passes (block [p1c_before, test_p1c_2_store_fix_retry fn bp_c2] s) \<and>
    passes (block [p1c_before, test_p1c_3_exec_fix_retry fn bp_c3] s) \<and>
    passes (block [p1c_before, test_p1c_4_sequential_faults fn bp_c4] s) \<and>
    passes (block [p1c_before, test_p1c_5_ad_bit_mode bp_c5] s)"
  using test_1_passes [OF assms(2,1)] test_2_passes [OF assms(3,1)] test_3_passes [OF assms(4,1)]
    test_4_passes [OF assms(6,1)] test_5_passes [OF assms(5)] by (intro conjI)

theorem p1c_tests_pass_witness:
  "p1c_page VA_C1 0x80200000 demo_test \<and> p1c_row 0x80204000 demo_test \<and>
   passes (block [p1c_before, test_p1c_1_load_fix_retry 0x80001000 0x80200000] demo_test) \<and>
   passes (block [p1c_before, test_p1c_4_sequential_faults 0x80001000 0x80204000] demo_test)"
proof -
  have al: "page_aligned 0x80200000" "page_aligned 0x80201000" "page_aligned 0x80202000" "page_aligned 0x80203000"
    by (simp_all add: page_aligned_def take_bit_eq_mod)
  have pg: "p1c_page va x demo_test" if "page_aligned x" "drop_bit 56 x = 0" "0x80018000 \<le> x" for va x
    using that demo_test_ok demo_test_can_map demo_test_pool by (simp add: p1c_page_def frame_ok_def)
  have rg: "range_ok (2 ^ 56) 0x80204000 C4_N" by (simp add: range_ok_def C4_N_def page_aligned_def take_bit_eq_mod)
  have "page_no 0x80204000 j \<notin> zpool_words demo_test" if "j < C4_N" for j
    by (rule demo_test_pool) (use page_no_aligned [OF rg _ that] uint_page_no [OF rg _ that] in \<open>simp_all add: word_le_def\<close>)
  then have row: "p1c_row 0x80204000 demo_test"
    using demo_test_ok demo_test_can_map demo_root_empty(1) [of 2] rg by (simp add: p1c_row_def)
  show ?thesis
    using p1c_tests_pass [of "0x80001000" "0x80200000" demo_test "0x80201000" "0x80202000" "0x80203000" "0x80204000"]
      row pg [OF al(1), of VA_C1] pg [OF al(2), of VA_C2] pg [OF al(3), of VA_C3] pg [OF al(4), of VA_C5] by simp
qed

end
