(* ===== verification/ZIrqTests.thy ===== *)
theory ZIrqTests
  imports ZRetryTests ZThreads
begin

text \<open>
  Phase 2 of the Zephyr suite, \<^verbatim>\<open>p2_interrupts.c\<close>. When timer interrupts arrive is the kernel's and the timer's
  business: each wait of a test has as a parameter the number of expirations delivered during it. The theorems
  say for which numbers the tests pass. Semaphores are the kernel's; stopping and starting the timer changes nothing the
  suite sees.
\<close>

section \<open>The suite\<close>

text \<open>\<open>mach\<close> is the hart with its tables, \<open>p2_sie\<close> its \<open>sie\<close>; \<open>nested\<close> is what \<open>k_is_in_isr\<close> answers.\<close>

record 'k p2 =
  mach :: ztest
  p2_sie :: u64
  nested :: bool
  timer_sem :: 'k
  timer_count :: c_int
  timer_cb_in_isr :: bool
  cb_scause :: u64
  cb_sie :: u64
  offload_ran :: bool
  offload_in_isr :: bool
  loaded :: u64

definition P2_S_TIMER :: nat where "P2_S_TIMER = 5"
definition RISCV_MCAUSE_IRQ_BIT :: u64 where "RISCV_MCAUSE_IRQ_BIT = push_bit 63 1"
definition VA_P24 :: u64 where "VA_P24 = 0xD0400000"

definition timer_expiry :: "('k \<Rightarrow> 'k) \<Rightarrow> 'k p2 \<Rightarrow> 'k p2" where
  "timer_expiry sem_give s =
     s\<lparr>timer_count := inc32 (timer_count s), timer_cb_in_isr := nested s, cb_scause := zscause (mach s), cb_sie := p2_sie s,
       timer_sem := sem_give (timer_sem s)\<rparr>"

text \<open>An S-mode timer interrupt: the hart records the cause, the callback runs nested in the interrupt.\<close>

definition timer_irq :: "('k \<Rightarrow> 'k) \<Rightarrow> 'k p2 \<Rightarrow> 'k p2" where
  "timer_irq sem_give s =
     (timer_expiry sem_give (s\<lparr>mach := (mach s)\<lparr>zscause := RISCV_MCAUSE_IRQ_BIT OR of_nat P2_S_TIMER\<rparr>, nested := True\<rparr>))
       \<lparr>nested := False\<rparr>"

definition irqs :: "('k \<Rightarrow> 'k) \<Rightarrow> nat \<Rightarrow> 'k p2 \<Rightarrow> 'k p2" where
  "irqs sem_give n = timer_irq sem_give ^^ n"

text \<open>A failed assertion ends the test.\<close>

definition p2_assert :: "('k p2 \<Rightarrow> bool) \<Rightarrow> 'k p2 \<Rightarrow> 'k p2 run" where
  "p2_assert P s = (if P s then Ret s else Halt s)"

definition p2_passes :: "'k p2 run \<Rightarrow> bool" where
  "p2_passes r = (case r of Ret s \<Rightarrow> True | _ \<Rightarrow> False)"

text \<open>\<open>zassert_ok(k_sem_take(&timer_sem, K_MSEC(100)))\<close>, with the interrupts delivered while it waits.\<close>

definition await_timer :: "('k \<Rightarrow> 'k) \<Rightarrow> ('k \<Rightarrow> 'k option) \<Rightarrow> nat \<Rightarrow> 'k p2 \<Rightarrow> 'k p2 run" where
  "await_timer sem_give sem_take n s =
     (let s = irqs sem_give n s
      in case sem_take (timer_sem s) of None \<Rightarrow> Halt s | Some k \<Rightarrow> Ret (s\<lparr>timer_sem := k\<rparr>))"

definition p2_before :: "('k \<Rightarrow> 'k) \<Rightarrow> 'k p2 \<Rightarrow> 'k p2 run" where
  "p2_before sem_reset = exec (\<lambda>s. s\<lparr>timer_sem := sem_reset (timer_sem s), timer_count := 0, timer_cb_in_isr := False,
     cb_scause := 0, cb_sie := 0, mach := (z_riscv_mmu_set_fault_fixup 0 (mach s))\<lparr>fix_count := 0\<rparr>\<rparr>)"

definition test_timer_irq_fires_once :: "('k \<Rightarrow> 'k) \<Rightarrow> ('k \<Rightarrow> 'k option) \<Rightarrow> nat \<Rightarrow> nat \<Rightarrow> 'k p2 \<Rightarrow> 'k p2 run" where
  "test_timer_irq_fires_once sem_give sem_take in_wait in_sleep = block
     [await_timer sem_give sem_take in_wait,
      p2_assert timer_cb_in_isr,
      p2_assert (\<lambda>s. cb_scause s = RISCV_MCAUSE_IRQ_BIT OR of_nat P2_S_TIMER),
      p2_assert (\<lambda>s. cb_sie s AND push_bit P2_S_TIMER 1 \<noteq> 0),
      exec (irqs sem_give in_sleep),
      p2_assert (\<lambda>s. timer_count s = 1)]"

definition offload_handler :: "'k p2 \<Rightarrow> 'k p2" where
  "offload_handler s = s\<lparr>offload_ran := True, offload_in_isr := nested s\<rparr>"

text \<open>\<open>irq_offload\<close> is the kernel's.\<close>

definition test_soft_irq_via_offload :: "(('k p2 \<Rightarrow> 'k p2) \<Rightarrow> 'k p2 \<Rightarrow> 'k p2) \<Rightarrow> 'k p2 \<Rightarrow> 'k p2 run" where
  "test_soft_irq_via_offload irq_offload = block
     [exec (\<lambda>s. s\<lparr>offload_ran := False, offload_in_isr := False\<rparr>),
      exec (irq_offload offload_handler),
      p2_assert offload_ran,
      p2_assert offload_in_isr]"

definition test_timer_irq_repeats :: "('k \<Rightarrow> 'k) \<Rightarrow> ('k \<Rightarrow> 'k option) \<Rightarrow> (nat \<Rightarrow> nat) \<Rightarrow> 'k p2 \<Rightarrow> 'k p2 run" where
  "test_timer_irq_repeats sem_give sem_take in_wait = block
     [block (map (\<lambda>i. await_timer sem_give sem_take (in_wait i)) [0..<5]),
      p2_assert (\<lambda>s. 5 \<le> timer_count s)]"

definition test_irq_lock_masks_timer :: "('k \<Rightarrow> 'k) \<Rightarrow> ('k \<Rightarrow> 'k option) \<Rightarrow> nat \<Rightarrow> nat \<Rightarrow> 'k p2 \<Rightarrow> 'k p2 run" where
  "test_irq_lock_masks_timer sem_give sem_take while_locked in_wait = block
     [exec (irqs sem_give while_locked),
      p2_assert (\<lambda>s. timer_count s = 0),
      await_timer sem_give sem_take in_wait,
      p2_assert (\<lambda>s. timer_count s = 1)]"

text \<open>The faulting load of P2.4; a fault that is not resolved is fatal.\<close>

definition p24_load :: "'k p2 \<Rightarrow> 'k p2 run" where
  "p24_load s =
     (case zaccess (\<lambda>_. p2_fixup) Load VA_P24 (mach s) of
        None \<Rightarrow> Hang
      | Some (Some pa, m) \<Rightarrow> Ret (s\<lparr>mach := m, loaded := mem m pa\<rparr>)
      | Some (None, m) \<Rightarrow> Halt (s\<lparr>mach := m\<rparr>))"

definition test_p2_4_timer_during_fault :: "('k \<Rightarrow> 'k) \<Rightarrow> u64 \<Rightarrow> u64 \<Rightarrow> nat \<Rightarrow> nat \<Rightarrow> 'k p2 \<Rightarrow> 'k p2 run" where
  "test_p2_4_timer_during_fault sem_give fn bp_p24 before_load in_sleep = block
     [exec (\<lambda>s. s\<lparr>mach := z_riscv_mmu_set_fault_fixup fn (st64 bp_p24 0xDEAD0004 (mach s))\<rparr>),
      on_part mach (\<lambda>m s. s\<lparr>mach := m\<rparr>) (map_raw VA_P24 bp_p24 (PTE_R OR PTE_W) 0),
      exec (irqs sem_give before_load),
      p24_load,
      exec (irqs sem_give in_sleep),
      p2_assert (\<lambda>s. loaded s = 0xDEAD0004),
      p2_assert (\<lambda>s. 1 \<le> fix_count (mach s)),
      p2_assert (\<lambda>s. 0 < timer_count s)]"

section \<open>Interrupts\<close>

lemma timer_irq_simps [simp]:
  "timer_count (timer_irq g s) = inc32 (timer_count s)" "timer_cb_in_isr (timer_irq g s)"
  "cb_scause (timer_irq g s) = RISCV_MCAUSE_IRQ_BIT OR of_nat P2_S_TIMER" "cb_sie (timer_irq g s) = p2_sie s"
  "p2_sie (timer_irq g s) = p2_sie s" "timer_sem (timer_irq g s) = g (timer_sem s)" "loaded (timer_irq g s) = loaded s"
  "mach (timer_irq g s) = (mach s)\<lparr>zscause := RISCV_MCAUSE_IRQ_BIT OR of_nat P2_S_TIMER\<rparr>"
  by (simp_all add: timer_irq_def timer_expiry_def)

text \<open>What \<open>n\<close> interrupts leave behind, as long as the counters do not run over.\<close>

lemma irqs_effect:
  assumes "counting_sem i g t count limit" "0 \<le> timer_count s" "timer_count s + int n < 2 ^ 31"
    "count (timer_sem s) + n \<le> limit (timer_sem s)"
  shows "timer_count (irqs g n s) = timer_count s + int n" "count (timer_sem (irqs g n s)) = count (timer_sem s) + n"
    "limit (timer_sem (irqs g n s)) = limit (timer_sem s)" "p2_sie (irqs g n s) = p2_sie s"
    "loaded (irqs g n s) = loaded s"
    "0 < n \<Longrightarrow> timer_cb_in_isr (irqs g n s) \<and> cb_sie (irqs g n s) = p2_sie s \<and>
       cb_scause (irqs g n s) = RISCV_MCAUSE_IRQ_BIT OR of_nat P2_S_TIMER"
  using assms(2-4)
proof (induction n)
  case (Suc n)
  {
    case 1
    then show ?case using Suc.IH(1) by (simp add: irqs_def inc32_def)
  next
    case 2
    then show ?case using Suc.IH(2,3) sem_laws(3) [OF assms(1)] by (simp add: irqs_def)
  next
    case 3
    then show ?case using Suc.IH(3) sem_laws(4) [OF assms(1)] by (simp add: irqs_def)
  next
    case 4
    then show ?case using Suc.IH(4) by (simp add: irqs_def)
  next
    case 5
    then show ?case using Suc.IH(5) by (simp add: irqs_def)
  next
    case 6
    then show ?case using Suc.IH(4) by (simp add: irqs_def)
  }
qed (simp_all add: irqs_def)

lemma irqs_mach: "\<exists>c. mach (irqs g n s) = (mach s)\<lparr>zscause := c\<rparr>"
proof (induction n)
  case 0
  show ?case by (rule exI [of _ "zscause (mach s)"]) (simp add: irqs_def)
next
  case (Suc n)
  then show ?case by (auto simp: irqs_def)
qed

lemma await_timer_run:
  assumes "counting_sem i g t count limit" "0 \<le> timer_count s" "timer_count s + int n < 2 ^ 31"
    "count (timer_sem s) + n \<le> limit (timer_sem s)"
  shows "count (timer_sem s) + n = 0 \<Longrightarrow> await_timer g t n s = Halt (irqs g n s)"
    "0 < count (timer_sem s) + n \<Longrightarrow> \<exists>k. await_timer g t n s = Ret ((irqs g n s)\<lparr>timer_sem := k\<rparr>) \<and>
       Suc (count k) = count (timer_sem s) + n \<and> limit k = limit (timer_sem s)"
proof -
  note e = irqs_effect [OF assms]
  show "count (timer_sem s) + n = 0 \<Longrightarrow> await_timer g t n s = Halt (irqs g n s)"
    using e(2) sem_laws(5) [OF assms(1), of "timer_sem (irqs g n s)"] by (simp add: await_timer_def Let_def)
  assume "0 < count (timer_sem s) + n"
  then have "count (timer_sem (irqs g n s)) \<noteq> 0" using e(2) by simp
  then obtain k where k: "t (timer_sem (irqs g n s)) = Some k"
    using assms(1) unfolding counting_sem_def by blast
  from sem_laws(7) [OF assms(1) k] e k show "\<exists>k. await_timer g t n s = Ret ((irqs g n s)\<lparr>timer_sem := k\<rparr>) \<and>
       Suc (count k) = count (timer_sem s) + n \<and> limit k = limit (timer_sem s)"
    by (intro exI [of _ k]) (simp add: await_timer_def Let_def)
qed

section \<open>The tests\<close>

lemma fires_once_iff:
  assumes "counting_sem i g t count limit" "timer_count s = 0" "count (timer_sem s) = 0" "m + n < 2 ^ 31" "m + n \<le> limit (timer_sem s)"
  shows "p2_passes (test_timer_irq_fires_once g t m n s) \<longleftrightarrow> m = 1 \<and> n = 0 \<and> p2_sie s AND push_bit P2_S_TIMER 1 \<noteq> 0"
proof (cases "m = 0")
  case True
  with await_timer_run(1) [OF assms(1), of s 0] assms show ?thesis
    by (simp add: test_timer_irq_fires_once_def block_Cons p2_passes_def)
next
  case False
  with await_timer_run(2) [OF assms(1), of s m] assms obtain k where
    k: "await_timer g t m s = Ret ((irqs g m s)\<lparr>timer_sem := k\<rparr>)" "Suc (count k) = m" "limit k = limit (timer_sem s)" by auto
  let ?s = "(irqs g m s)\<lparr>timer_sem := k\<rparr>"
  from irqs_effect [OF assms(1), of s m] assms False have e:
    "timer_count ?s = int m" "timer_cb_in_isr ?s" "cb_sie ?s = p2_sie s" "cb_scause ?s = RISCV_MCAUSE_IRQ_BIT OR of_nat P2_S_TIMER"
    by simp_all
  have "timer_count (irqs g n ?s) = int m + int n"
    using irqs_effect(1) [OF assms(1), of ?s n] e(1) k(2,3) assms(4,5) by simp
  moreover have "int m + int n = 1 \<longleftrightarrow> m = 1 \<and> n = 0" using False by auto
  ultimately show ?thesis
    using k(1) e by (simp add: test_timer_irq_fires_once_def block_Cons p2_passes_def p2_assert_def)
qed

lemma lock_masks_iff:
  assumes "counting_sem i g t count limit" "timer_count s = 0" "count (timer_sem s) = 0" "m + n < 2 ^ 31" "m + n \<le> limit (timer_sem s)"
  shows "p2_passes (test_irq_lock_masks_timer g t m n s) \<longleftrightarrow> m = 0 \<and> n = 1"
proof -
  have "timer_count (irqs g m s) = int m" using irqs_effect(1) [OF assms(1), of s m] assms by simp
  moreover have "irqs g 0 s = s" by (simp add: irqs_def)
  moreover have "p2_passes (block [await_timer g t n, p2_assert (\<lambda>s. timer_count s = 1)] s) \<longleftrightarrow> n = 1"
  proof (cases "n = 0")
    case True
    with await_timer_run(1) [OF assms(1), of s 0] assms show ?thesis by (simp add: block_Cons p2_passes_def)
  next
    case False
    with await_timer_run(2) [OF assms(1), of s n] assms obtain k where
      "await_timer g t n s = Ret ((irqs g n s)\<lparr>timer_sem := k\<rparr>)" by auto
    moreover have "timer_count (irqs g n s) = int n" using irqs_effect(1) [OF assms(1), of s n] assms by simp
    ultimately show ?thesis by (simp add: block_Cons p2_passes_def p2_assert_def)
  qed
  ultimately show ?thesis
    by (cases "m = 0") (simp_all add: test_irq_lock_masks_timer_def block_Cons p2_assert_def p2_passes_def)
qed

text \<open>A row of waits goes through if at each of them an expiration is left to take.\<close>

fun enough :: "nat \<Rightarrow> nat list \<Rightarrow> bool" where
  "enough c [] \<longleftrightarrow> True"
| "enough c (n # ns) \<longleftrightarrow> 0 < c + n \<and> enough (c + n - 1) ns"

lemma enough_iff: "enough c ns \<longleftrightarrow> (\<forall>k<length ns. k < c + sum_list (take (Suc k) ns))"
proof (induction ns arbitrary: c)
  case (Cons n ns)
  have "(\<forall>k<length (n # ns). k < c + sum_list (take (Suc k) (n # ns))) \<longleftrightarrow>
      0 < c + n \<and> (\<forall>k<length ns. Suc k < c + n + sum_list (take (Suc k) ns))"
    by (simp add: All_less_Suc2 add.assoc)
  also have "\<dots> \<longleftrightarrow> enough c (n # ns)" by (auto simp: Cons.IH less_diff_conv)
  finally show ?case by simp
qed simp

lemma waits_run:
  assumes "counting_sem i g t count limit" "0 \<le> timer_count s" "timer_count s + int (sum_list ns) < 2 ^ 31"
    "count (timer_sem s) + sum_list ns \<le> limit (timer_sem s)"
  shows "(enough (count (timer_sem s)) ns \<longrightarrow>
      (\<exists>s'. block (map (await_timer g t) ns) s = Ret s' \<and> timer_count s' = timer_count s + int (sum_list ns))) \<and>
    (\<not> enough (count (timer_sem s)) ns \<longrightarrow> (\<exists>s'. block (map (await_timer g t) ns) s = Halt s'))"
  using assms(2-4)
proof (induction ns arbitrary: s)
  case (Cons n ns)
  show ?case
  proof (cases "count (timer_sem s) + n = 0")
    case True
    with await_timer_run(1) [OF assms(1), of s n] Cons.prems show ?thesis by (simp add: block_Cons)
  next
    case False
    with await_timer_run(2) [OF assms(1), of s n] Cons.prems obtain k where
      k: "await_timer g t n s = Ret ((irqs g n s)\<lparr>timer_sem := k\<rparr>)" "Suc (count k) = count (timer_sem s) + n"
        "limit k = limit (timer_sem s)" by auto
    have e: "timer_count (irqs g n s) = timer_count s + int n"
      using irqs_effect(1) [OF assms(1), of s n] Cons.prems by simp
    from k(2) have c: "count (timer_sem s) + n - 1 = count k" by simp
    let ?s = "(irqs g n s)\<lparr>timer_sem := k\<rparr>"
    have "0 \<le> timer_count ?s" "timer_count ?s + int (sum_list ns) < 2 ^ 31" "count (timer_sem ?s) + sum_list ns \<le> limit (timer_sem ?s)"
      using Cons.prems k(2,3) e by simp_all
    from Cons.IH [OF this] e False show ?thesis by (simp add: block_Cons k(1) c [unfolded One_nat_def] add.assoc)
  qed
qed simp

lemma repeats_iff:
  assumes "counting_sem i g t count limit" "timer_count s = 0" "count (timer_sem s) = 0"
    "sum_list (map w [0..<5]) < 2 ^ 31" "sum_list (map w [0..<5]) \<le> limit (timer_sem s)"
  shows "p2_passes (test_timer_irq_repeats g t w s) \<longleftrightarrow> (\<forall>k<5. k < (\<Sum>i\<le>k. w i))"
proof -
  let ?ns = "map w [0..<5]"
  have sum: "sum_list (take (Suc k) ?ns) = (\<Sum>i\<le>k. w i)" if "k < 5" for k
  proof -
    have "take (Suc k) ?ns = map w [0..<Suc k]" using that by (simp add: take_map)
    then show ?thesis by (simp only: interv_sum_list_conv_sum_set_nat set_upt atLeast0LessThan lessThan_Suc_atMost)
  qed
  then have en: "enough 0 ?ns \<longleftrightarrow> (\<forall>k<5. k < (\<Sum>i\<le>k. w i))" by (simp only: enough_iff length_map length_upt) simp
  have five: "5 \<le> sum_list ?ns" if "enough 0 ?ns"
    using that unfolding enough_iff by (auto dest: spec [of _ 4])
  have r: "(enough (count (timer_sem s)) ?ns \<longrightarrow>
      (\<exists>s'. block (map (await_timer g t) ?ns) s = Ret s' \<and> timer_count s' = timer_count s + int (sum_list ?ns))) \<and>
    (\<not> enough (count (timer_sem s)) ?ns \<longrightarrow> (\<exists>s'. block (map (await_timer g t) ?ns) s = Halt s'))"
    by (rule waits_run [OF assms(1)]) (use assms(2-5) in simp_all)
  have m: "map (\<lambda>i. await_timer g t (w i)) [0..<5] = map (await_timer g t) ?ns" by (simp del: upt_Suc)
  show ?thesis
  proof (cases "enough 0 ?ns")
    case True
    with r assms(2,3) obtain s' where "block (map (await_timer g t) ?ns) s = Ret s'" "timer_count s' = int (sum_list ?ns)" by auto
    with five [OF True] True show ?thesis
      unfolding en [symmetric] test_timer_irq_repeats_def m
      by (simp add: block_Cons p2_passes_def p2_assert_def del: upt_Suc)
  next
    case False
    with r assms(3) obtain s' where "block (map (await_timer g t) ?ns) s = Halt s'" by auto
    with False show ?thesis
      unfolding en [symmetric] test_timer_irq_repeats_def m by (simp add: block_Cons p2_passes_def del: upt_Suc)
  qed
qed

text \<open>P2.4: interrupts only touch the cause register of the machine, so the load is repaired and retried as
  without them.\<close>

lemma p24_test_va [simp]: "test_va VA_P24"
  by (simp add: test_va_def VA_P24_def page_aligned_def take_bit_eq_mod)

lemma p24_load_run:
  assumes "zmmu_ok m" "0 < mmu_tables m" "frame_ok pa m" "entry_at m VA_P24 = (0, phys_to_ppn pa OR (PTE_R OR PTE_W))"
    "ztlb m = []" "mmu_fault_fixup m \<noteq> 0" "fix_count m = 0" "mach s = m"
  obtains m' where "p24_load s = Ret (s\<lparr>mach := m', loaded := mem m pa\<rparr>)" "fix_count m' = 1"
proof -
  let ?b = "PTE_R OR PTE_W"
  from assms(3) have pa: "page_aligned pa" "drop_bit 56 pa = 0" "pa \<notin> zpool_words m" by (simp_all add: frame_ok_def)
  have u: "used_entry Load VA_P24 m = (0, phys_to_ppn pa OR ?b)" using used_entry_fresh [of VA_P24 m Load] assms(4,5) by simp
  obtain m' where z: "zaccess (\<lambda>_. p2_fixup) Load VA_P24 m = Some (Some pa, m')" "fix_count m' = inc32 (fix_count m)"
    "\<And>x. x \<notin> zpool_words m \<Longrightarrow> mem m' x = mem m x"
    by (rule fix_retry_raw [OF assms(1,2,4) u _ assms(6) resolvers(2) pa(1,2) p24_test_va])
      (auto simp: bit_simps flag_bits pte_allows_def)
  with that [of m'] assms(7,8) pa(3) show thesis by (simp add: p24_load_def inc32_def)
qed

lemma p24_iff:
  assumes sem: "counting_sem i g t count limit" "m + n < 2 ^ 31" "m + n \<le> limit (timer_sem s)"
    and z: "timer_count s = 0" "count (timer_sem s) = 0"
    and pg: "p1c_page VA_P24 bp (mach s)" and fn: "fn \<noteq> 0" "fix_count (mach s) = 0"
  shows "p2_passes (test_p2_4_timer_during_fault g fn bp m n s) \<longleftrightarrow> 0 < m + n"
proof -
  let ?b = "PTE_R OR PTE_W" and ?m0 = "z_riscv_mmu_set_fault_fixup fn (st64 bp 0xDEAD0004 (mach s))"
  from pg have ok: "zmmu_ok (mach s)" "0 < mmu_tables (mach s)" "frame_ok bp (mach s)" "can_map (mach s) 0 VA_P24" "bp \<notin> zpool_words (mach s)"
    by (simp_all add: p1c_page_def frame_ok_def)
  note sd = store_data [OF ok(1,5), of "0xDEAD0004"] and st = same_tablesD [OF same_tables_fixup [of "st64 bp 0xDEAD0004 (mach s)" fn]]
  have 0: "zmmu_ok ?m0" "frame_ok bp ?m0" "can_map ?m0 0 VA_P24" "bp \<notin> zpool_words ?m0"
    using ok sd st by (simp_all add: frame_ok_def)
  obtain m1 where 1: "map_raw VA_P24 bp ?b 0 ?m0 = Ret m1" "zmmu_ok m1" "entry_at m1 VA_P24 = (0, phys_to_ppn bp OR ?b)"
    "ztlb m1 = []" "same_env ?m0 m1" "\<And>x. x \<notin> zpool_words ?m0 \<Longrightarrow> mem m1 x = mem ?m0 x"
    by (rule raw_page_run [OF 0(1,2) p24_test_va 0(3), of ?b]) (auto simp: is_branch_def bit_simps flag_bits)
  let ?s1 = "s\<lparr>mach := m1\<rparr>"
  obtain c where c: "mach (irqs g m ?s1) = m1\<lparr>zscause := c\<rparr>" using irqs_mach [of g m ?s1] by auto
  have tb: "same_tables m1 (m1\<lparr>zscause := c\<rparr>)" by (simp add: same_tables_def)
  have env: "0 < mmu_tables m1" "frame_ok bp m1" "mmu_fault_fixup m1 \<noteq> 0" "fix_count m1 = 0" "mem m1 bp = 0xDEAD0004"
    using 1(5) 1(6) [OF 0(4)] ok(2) 0(2) fn st by (simp_all add: same_env_def frame_ok_def)
  obtain m2 where 2: "p24_load (irqs g m ?s1) = Ret ((irqs g m ?s1)\<lparr>mach := m2, loaded := mem m1 bp\<rparr>)" "fix_count m2 = 1"
    by (rule p24_load_run [of "m1\<lparr>zscause := c\<rparr>" bp "irqs g m ?s1"])
      (use 1 env c same_tablesD [OF tb] in \<open>auto\<close>)
  let ?s2 = "(irqs g m ?s1)\<lparr>mach := m2, loaded := mem m1 bp\<rparr>"
  note e1 = irqs_effect [OF sem(1), of ?s1 m]
  have e2: "timer_count ?s2 = int m" "count (timer_sem ?s2) = m" "limit (timer_sem ?s2) = limit (timer_sem s)"
    using e1 sem z by simp_all
  have e3: "timer_count (irqs g n ?s2) = int m + int n" "loaded (irqs g n ?s2) = 0xDEAD0004"
    using irqs_effect(1,5) [OF sem(1), of ?s2 n] e2 sem(2,3) env(5) by simp_all
  obtain c' where "mach (irqs g n ?s2) = m2\<lparr>zscause := c'\<rparr>" using irqs_mach [of g n ?s2] by auto
  then have "fix_count (mach (irqs g n ?s2)) = 1" using 2(2) by simp
  moreover have "0 < int m + int n \<longleftrightarrow> 0 < m + n" by linarith
  ultimately show ?thesis using e3 2(1) 1(1)
    by (simp add: test_p2_4_timer_during_fault_def block_Cons on_part_Ret p2_passes_def p2_assert_def)
qed

lemma offload_iff: "p2_passes (test_soft_irq_via_offload irq_offload s) \<longleftrightarrow>
    offload_ran (irq_offload offload_handler (s\<lparr>offload_ran := False, offload_in_isr := False\<rparr>)) \<and>
    offload_in_isr (irq_offload offload_handler (s\<lparr>offload_ran := False, offload_in_isr := False\<rparr>))"
  by (simp add: test_soft_irq_via_offload_def block_Cons p2_passes_def p2_assert_def)

section \<open>Properties\<close>

text \<open>What a test of the suite relies on, and its state behind \<open>p2_before\<close>.\<close>

definition p2_ready :: "('k \<Rightarrow> nat) \<Rightarrow> ('k \<Rightarrow> nat) \<Rightarrow> ('k \<Rightarrow> 'k) \<Rightarrow> nat \<Rightarrow> 'k p2 \<Rightarrow> bool" where
  "p2_ready count limit sem_reset n s \<longleftrightarrow> (\<forall>k. count (sem_reset k) = 0 \<and> limit (sem_reset k) = limit k) \<and>
     n < 2 ^ 31 \<and> n \<le> limit (timer_sem s)"

lemma p2_before_run:
  assumes "p2_ready count limit r n s"
  obtains s0 where "p2_before r s = Ret s0" "timer_count s0 = 0" "count (timer_sem s0) = 0" "n < 2 ^ 31" "n \<le> limit (timer_sem s0)"
    "p2_sie s0 = p2_sie s" "same_tables (mach s) (mach s0)" "fix_count (mach s0) = 0"
  using assms
  by (intro that [of "s\<lparr>timer_sem := r (timer_sem s), timer_count := 0, timer_cb_in_isr := False,
     cb_scause := 0, cb_sie := 0, mach := (z_riscv_mmu_set_fault_fixup 0 (mach s))\<lparr>fix_count := 0\<rparr>\<rparr>"])
    (simp_all add: p2_before_def p2_ready_def same_tables_def z_riscv_mmu_set_fault_fixup_def)

lemma block_after: "f s = Ret s' \<Longrightarrow> block [f, h] s = h s'"
  by (cases "h s'") simp_all

text \<open>
  C22. Phase 2 of the Zephyr suite tells right from wrong deliveries of the timer interrupt. Whatever number of expirations the
  kernel delivers during each wait: the one-shot test passes exactly when one is delivered, in the wait and not in
  the sleep behind it, with the timer interrupt enabled; the test of the interrupt lock exactly when
  none is delivered while interrupts are locked and one after that; the periodic test exactly when at each wait an
  expiration is left to take; the test with the page fault exactly when at least one is
  delivered, and then the faulting load is repaired and returns the stored value however many interrupts came before it.
\<close>

theorem p2_tests_decide:
  assumes "counting_sem i sem_give sem_take count limit" "p2_ready count limit sem_reset (m + n) s"
    "p2_ready count limit sem_reset (sum_list (map w [0..<5])) s" "p1c_page VA_P24 bp (mach s)" "fn \<noteq> 0"
  shows "(p2_passes (block [p2_before sem_reset, test_timer_irq_fires_once sem_give sem_take m n] s) \<longleftrightarrow>
      m = 1 \<and> n = 0 \<and> p2_sie s AND push_bit P2_S_TIMER 1 \<noteq> 0) \<and>
    (p2_passes (block [p2_before sem_reset, test_irq_lock_masks_timer sem_give sem_take m n] s) \<longleftrightarrow> m = 0 \<and> n = 1) \<and>
    (p2_passes (block [p2_before sem_reset, test_timer_irq_repeats sem_give sem_take w] s) \<longleftrightarrow> (\<forall>k<5. k < (\<Sum>i\<le>k. w i))) \<and>
    (p2_passes (block [p2_before sem_reset, test_p2_4_timer_during_fault sem_give fn bp m n] s) \<longleftrightarrow> 0 < m + n)"
proof -
  obtain s0 where b: "p2_before sem_reset s = Ret s0" "timer_count s0 = 0" "count (timer_sem s0) = 0" "m + n < 2 ^ 31"
    "m + n \<le> limit (timer_sem s0)" "p2_sie s0 = p2_sie s" "same_tables (mach s) (mach s0)" "fix_count (mach s0) = 0"
    by (rule p2_before_run [OF assms(2)])
  have w: "sum_list (map w [0..<5]) < 2 ^ 31" "sum_list (map w [0..<5]) \<le> limit (timer_sem s0)"
    using b(1) by (auto intro: p2_before_run [OF assms(3)])
  have pg: "p1c_page VA_P24 bp (mach s0)" using assms(4) same_tablesD [OF b(7)] by (simp add: p1c_page_def)
  from fires_once_iff [OF assms(1) b(2-5)] lock_masks_iff [OF assms(1) b(2-5)] repeats_iff [OF assms(1) b(2,3) w]
    p24_iff [OF assms(1) b(4,5,2,3) pg assms(5) b(8)] b(6)
  show ?thesis unfolding block_after [of "p2_before sem_reset" s s0, OF b(1)] by (simp del: upt_Suc)
qed

definition demo_p2 :: "(nat \<times> nat) p2" where
  "demo_p2 = \<lparr>mach = demo_test, p2_sie = 0x22, nested = False, timer_sem = (3, 0xFFFFFFFF), timer_count = 9, timer_cb_in_isr = True,
     cb_scause = 0, cb_sie = 0, offload_ran = False, offload_in_isr = False, loaded = 0\<rparr>"

theorem p2_tests_decide_witness:
  "p2_passes (block [p2_before (\<lambda>k. (0, snd k)), test_timer_irq_fires_once demo_give demo_take 1 0] demo_p2) \<and>
   p2_passes (block [p2_before (\<lambda>k. (0, snd k)), test_p2_4_timer_during_fault demo_give 0x80001000 0x80200000 1 0] demo_p2)"
proof -
  have pg: "p1c_page VA_P24 0x80200000 (mach demo_p2)"
    using demo_test_ok demo_test_can_map demo_test_pool
    by (simp add: p1c_page_def frame_ok_def demo_p2_def page_aligned_def take_bit_eq_mod)
  have "p2_ready fst snd (\<lambda>k. (0, snd k)) (1 + 0) demo_p2" "p2_ready fst snd (\<lambda>k. (0, snd k)) (sum_list (map (\<lambda>i. 1) [0..<5])) demo_p2"
    by (simp_all add: p2_ready_def demo_p2_def upt_conv_Cons)
  from p2_tests_decide [OF demo_sem this pg, of "0x80001000"] show ?thesis
    by (simp add: demo_p2_def P2_S_TIMER_def)
qed

end
