(* ===== verification/ZTlbTests.thy ===== *)
theory ZTlbTests
  imports ZPages
begin

text \<open>
  Phase 1D of the Zephyr suite, \<^verbatim>\<open>p1d_tlb_ptw.c\<close>: translation caching, targeted and missing
  flushes, many pages, superpages. The hart may answer any access from any entry it has cached since the
  last flush that covers the address.
\<close>

section \<open>The suite\<close>

definition VA_D1_A :: u64 where "VA_D1_A = 0xD1000000"
definition VA_D1_B :: u64 where "VA_D1_B = 0xD1010000"
definition VA_D2 :: u64 where "VA_D2 = 0xD1100000"
definition VA_D3 :: u64 where "VA_D3 = 0xD2000000"
definition VA_D4 :: u64 where "VA_D4 = 0xE0200000"
definition THRASH_COUNT :: nat where "THRASH_COUNT = 128"

lemmas p1d_vas = VA_D1_A_def VA_D1_B_def VA_D2_def VA_D3_def VA_D4_def

definition k_sys_fatal_error_handler_p1d :: "'z ztest_scheme \<Rightarrow> 'z ztest_scheme run" where
  "k_sys_fatal_error_handler_p1d = ztest_test_fail"

definition p1d :: "'z ztest_scheme suite" where
  "p1d = \<lparr>resolver = (\<lambda>_ _ _ s. (False, s)), fatal = k_sys_fatal_error_handler_p1d\<rparr>"

definition leaf :: "u64 \<Rightarrow> u64 \<Rightarrow> u64" where
  "leaf pa perms = push_bit PTE_PPN_SHIFT (drop_bit 12 pa) OR perms OR PTE_V OR PTE_A OR PTE_D"

abbreviation zassert_equal :: "u64 \<Rightarrow> u64 \<Rightarrow> 'z ztest_scheme \<Rightarrow> 'z ztest_scheme run" where
  "zassert_equal a b \<equiv> zassert (\<lambda>_. a = b)"

abbreviation RWAD :: u64 where
  "RWAD \<equiv> PTE_V OR PTE_R OR PTE_W OR PTE_A OR PTE_D"

text \<open>\<open>pages\<close> is the address of the backing array; \<open>page_no pages i\<close> that of \<open>pages[i]\<close>.\<close>

definition test_p1d_1_targeted_sfence :: "u64 \<Rightarrow> 'z ztest_scheme \<Rightarrow> 'z ztest_scheme run" where
  "test_p1d_1_targeted_sfence pages = block
     [exec (st64 (page_no pages 0) 0xAAAAAAAA00000001),
      exec (st64 (page_no pages 1) 0xBBBBBBBB00000002),
      exec (st64 (page_no pages 2) 0xAAAAAAAA00000003),
      map_raw VA_D1_A (page_no pages 0) RWAD 0,
      map_raw VA_D1_B (page_no pages 1) RWAD 0,
      load_via p1d VA_D1_A (\<lambda>val. zassert_equal val 0xAAAAAAAA00000001),
      load_via p1d VA_D1_B (\<lambda>val. zassert_equal val 0xBBBBBBBB00000002),
      pte_lookup VA_D1_A (\<lambda>pte_a. block
        [zassert (\<lambda>s. pte_a \<noteq> 0),
         exec (st64 pte_a (leaf (page_no pages 2) (PTE_R OR PTE_W))),
         exec (zfence_addr VA_D1_A),
         load_via p1d VA_D1_A (\<lambda>val. zassert_equal val 0xAAAAAAAA00000003),
         load_via p1d VA_D1_B (\<lambda>val. zassert_equal val 0xBBBBBBBB00000002)])]"

definition test_p1d_2_stale_tlb :: "u64 \<Rightarrow> 'z ztest_scheme \<Rightarrow> 'z ztest_scheme run" where
  "test_p1d_2_stale_tlb pages = block
     [exec (st64 (page_no pages 3) 0x1111111111111111),
      exec (st64 (page_no pages 4) 0x2222222222222222),
      map_raw VA_D2 (page_no pages 3) RWAD 0,
      load_via p1d VA_D2 (\<lambda>val. zassert_equal val 0x1111111111111111),
      pte_lookup VA_D2 (\<lambda>pte. block
        [zassert (\<lambda>s. pte \<noteq> 0),
         exec (st64 pte (leaf (page_no pages 4) (PTE_R OR PTE_W))),
         load_via p1d VA_D2 (\<lambda>val.
           let got_old = (val = 0x1111111111111111); got_new = (val = 0x2222222222222222)
           in zassert (\<lambda>s. got_old \<or> got_new)),
         exec (zfence_addr VA_D2),
         load_via p1d VA_D2 (\<lambda>val. zassert_equal val 0x2222222222222222)])]"

definition d3_val :: "nat \<Rightarrow> u64" where
  "d3_val i = 0xCC00000000000000 OR of_nat i"

definition test_p1d_3_tlb_thrash :: "u64 \<Rightarrow> 'z ztest_scheme \<Rightarrow> 'z ztest_scheme run" where
  "test_p1d_3_tlb_thrash thrash_buf = block
     [map_pages VA_D3 thrash_buf RWAD d3_val [0..<THRASH_COUNT],
      block (map (\<lambda>pass. block (map (\<lambda>i.
        load_via p1d (page_no VA_D3 i) (\<lambda>val. zassert_equal val (d3_val i))) [0..<THRASH_COUNT])) [0..<2])]"

definition image_base :: u64 where
  "image_base = 0x80000000"

definition d4_offs :: "u64 \<Rightarrow> u64 list" where
  "d4_offs z_mapped_end =
     (let span = z_mapped_end - image_base
      in [0, 0x1000, (span div 2) AND NOT 7, (span - 0x1000) AND NOT 7])"

definition test_p1d_4_megapage_2mb :: "u64 \<Rightarrow> 'z ztest_scheme \<Rightarrow> 'z ztest_scheme run" where
  "test_p1d_4_megapage_2mb z_mapped_end = block
     [map_raw VA_D4 image_base (PTE_V OR PTE_R OR PTE_A OR PTE_D) 1,
      load_via p1d VA_D4 (\<lambda>val. zassert (\<lambda>s. val \<noteq> 0)),
      block (map (\<lambda>off. load_via p1d (VA_D4 + off) (\<lambda>val. zassert (\<lambda>s. val = mem s (image_base + off)))) (d4_offs z_mapped_end)),
      load_via p1d (VA_D4 + 0x1FF000) (\<lambda>_. skip),
      pte_lookup VA_D4 (\<lambda>pte. block
        [zassert (\<lambda>s. pte \<noteq> 0),
         zassert (\<lambda>s. mem s pte AND PTE_R \<noteq> 0 \<and> mem s pte AND PTE_W = 0),
         zassert (\<lambda>s. pte = z_riscv_mmu_pte_lookup (VA_D4 + 0x1FF000) s)]),
      exec (arch_mem_unmap VA_D4 4096)]"

definition test_p1d_5_gigapage_leaf :: "'z ztest_scheme \<Rightarrow> 'z ztest_scheme run" where
  "test_p1d_5_gigapage_leaf =
     pte_lookup 0x10000000 (\<lambda>pte_uart. pte_lookup 0x02000000 (\<lambda>pte_clint. block
       [zassert (\<lambda>s. pte_uart \<noteq> 0),
        zassert (\<lambda>s. mem s pte_uart AND PTE_V \<noteq> 0 \<and> mem s pte_uart AND (PTE_R OR PTE_W OR PTE_X) \<noteq> 0),
        zassert (\<lambda>s. pte_uart = pte_clint)]))"

section \<open>Loads\<close>

lemma leaf_rw: "leaf pa (PTE_R OR PTE_W) = phys_to_ppn pa OR RWAD"
  by (simp add: leaf_def phys_to_ppn_def ac_simps)

lemma RWAD_flags: "leaf_flags RWAD" "\<not> is_branch RWAD" "pte_allows c Load RWAD" "pte_ad_ok c Load RWAD" "\<not> needs_ad Load RWAD"
  by (auto simp: leaf_flags_def is_branch_def pte_allows_def pte_ad_ok_def needs_ad_def bit_simps flag_bits)

lemma load_page:
  assumes "used_entry Load va s = (0, phys_to_ppn pa OR RWAD)" "test_va va" "page_aligned pa" "drop_bit 56 pa = 0"
  shows "load_via w va k s = k (mem s pa) (after_access va 0 (phys_to_ppn pa OR RWAD) s)"
proof -
  have x: "entry_xlat (hart_ctl s) Load va 0 (phys_to_ppn pa OR RWAD) = Some pa"
    using raw_xlat [OF RWAD_flags(1) assms(3,4) test_va_canonical [OF assms(2)]] RWAD_flags by simp
  show ?thesis
    using zaccess_hit [OF assms(1) x] RWAD_flags(5) by (simp add: load_via_def access_then_def raw_ad)
qed

lemma used_entry_any: "used_entry acc va s = entry_at s va \<or> (\<exists>x \<in> set (cached va s). used_entry acc va s = snd x)"
  by (auto simp: used_entry_def split: option.splits)

lemma fence_addr_simps [simp]:
  "cached va (zfence_addr va s) = []" "\<not> same_block 0 va va' \<Longrightarrow> ztlb s = [(va', 0, e), (va, 0, e')] \<Longrightarrow> ztlb (zfence_addr va s) = [(va', 0, e)]"
  "same_tables s (zfence_addr va s)"
  by (auto simp: cached_def zfence_addr_def same_tables_def filter_empty_conv dest: same_block_sym)

section \<open>Flushing\<close>

definition p1d_frames :: "u64 \<Rightarrow> 'z zmmu_scheme \<Rightarrow> bool" where
  "p1d_frames pages s \<longleftrightarrow> range_ok (2 ^ 56) pages 5 \<and> (\<forall>j < 5. page_no pages j \<notin> zpool_words s)"

lemma p1d_frame:
  assumes "p1d_frames pages s" "j < 5"
  shows "frame_ok (page_no pages j) s" "page_aligned (page_no pages j)" "drop_bit 56 (page_no pages j) = 0"
    "page_no pages j \<notin> zpool_words s" "i < 5 \<Longrightarrow> page_no pages i = page_no pages j \<longleftrightarrow> i = j"
proof -
  from assms(1) have r: "range_ok (2 ^ 56) pages 5" by (simp add: p1d_frames_def)
  show 1: "page_aligned (page_no pages j)" by (rule page_no_aligned [OF r _ assms(2)]) simp
  show 2: "drop_bit 56 (page_no pages j) = 0"
    using uint_page_no [OF r _ assms(2)] r assms(2) by (intro drop_56_uint) (auto simp: range_ok_def)
  show 3: "page_no pages j \<notin> zpool_words s" using assms by (simp add: p1d_frames_def)
  show "i < 5 \<Longrightarrow> page_no pages i = page_no pages j \<longleftrightarrow> i = j" using page_no_inj [OF r _ _ assms(2)] by simp
  show "frame_ok (page_no pages j) s" using 1 2 3 by (simp add: frame_ok_def)
qed

lemma p1d_test_va [simp]: "test_va VA_D1_A" "test_va VA_D1_B" "test_va VA_D2"
  by (simp_all add: test_va_def p1d_vas page_aligned_def take_bit_eq_mod)

lemma d1_blocks: "\<not> same_block 0 VA_D1_A VA_D1_B" "\<not> same_block 0 VA_D1_B VA_D1_A"
  "0 < k \<Longrightarrow> k \<le> 2 \<Longrightarrow> vpn_ix k VA_D1_B = vpn_ix k VA_D1_A"
proof -
  show "\<not> same_block 0 VA_D1_A VA_D1_B" "\<not> same_block 0 VA_D1_B VA_D1_A"
    by (simp_all add: same_page_iff p1d_vas vpn_ix_def flip: mask9_u64)
  assume "0 < k" "k \<le> 2"
  then have "k = 1 \<or> k = 2" by auto
  then show "vpn_ix k VA_D1_B = vpn_ix k VA_D1_A" by (auto simp: p1d_vas vpn_ix_def simp flip: mask9_u64)
qed

text \<open>Re-pointing the leaf of a page through the pointer the lookup returns.\<close>

lemma repoint:
  assumes "zmmu_ok s" "0 < mmu_tables s" "entry_at s va = (0, e)" "\<not> is_branch e'"
  obtains a where "\<And>k. pte_lookup va k s = k a s" "a \<noteq> 0" "zmmu_ok (st64 a e' s)" "entry_at (st64 a e' s) va = (0, e')"
    "\<And>va'. \<not> same_block 0 va va' \<Longrightarrow> entry_at (st64 a e' s) va' = entry_at s va'"
    "\<And>x. x \<notin> zpool_words s \<Longrightarrow> mem (st64 a e' s) x = mem s x"
proof -
  obtain a where a: "\<And>k. pte_lookup va k s = k a s" "a \<noteq> 0" "zstop s va = (0, a)"
    by (rule lookup_run [OF assms(1-3)]) auto
  note se = store_entry [OF assms(1) a(3) assms(4)]
  have "a \<in> table_words (ztables s)" using stop_in_tables [OF assms(1), of va] a(3) by simp
  then have "mem (st64 a e' s) x = mem s x" if "x \<notin> zpool_words s" for x using zpool_words_tables [OF that] by auto
  with that [of a] a se show thesis by blast
qed

lemma targeted_flush:
  assumes ok: "zmmu_ok s" "0 < mmu_tables s" and fr: "p1d_frames pages s" and can: "can_map s 0 VA_D1_A" "can_map s 0 VA_D1_B"
  shows "passes (test_p1d_1_targeted_sfence pages s)"
proof -
  define p0 p1 p2 where "p0 = page_no pages 0" and "p1 = page_no pages 1" and "p2 = page_no pages 2"
  note f0 = p1d_frame [OF fr, of 0, folded p0_def] and f1 = p1d_frame [OF fr, of 1, folded p1_def]
    and f2 = p1d_frame [OF fr, of 2, folded p2_def]
  have ne: "p0 \<noteq> p1" "p0 \<noteq> p2" "p1 \<noteq> p2"
    using p1d_frame(5) [OF fr, of 1 0] p1d_frame(5) [OF fr, of 2 0] p1d_frame(5) [OF fr, of 2 1]
    by (simp_all add: p0_def p1_def p2_def)
  define s0 where "s0 = st64 p2 0xAAAAAAAA00000003 (st64 p1 0xBBBBBBBB00000002 (st64 p0 0xAAAAAAAA00000001 s))"
  have 0: "zmmu_ok s0" "can_map s0 0 va = can_map s 0 va" "zpool_words s0 = zpool_words s" "mmu_tables s0 = mmu_tables s" for va
    using ok f0 f1 f2 by (simp_all add: s0_def store_data)
  have m0: "mem s0 p0 = 0xAAAAAAAA00000001" "mem s0 p1 = 0xBBBBBBBB00000002" "mem s0 p2 = 0xAAAAAAAA00000003"
    using ne by (simp_all add: s0_def)
  let ?eA = "phys_to_ppn p0 OR RWAD" and ?eB = "phys_to_ppn p1 OR RWAD" and ?eN = "phys_to_ppn p2 OR RWAD"
  obtain s1 where 1: "map_raw VA_D1_A p0 RWAD 0 s0 = Ret s1" "zmmu_ok s1" "entry_at s1 VA_D1_A = (0, ?eA)" "same_env s0 s1"
    "\<And>x. x \<notin> zpool_words s0 \<Longrightarrow> mem s1 x = mem s0 x" "can_map s1 0 VA_D1_B"
    by (rule raw_page_run [OF 0(1), of p0 VA_D1_A RWAD])
      (use 0 can f0 RWAD_flags d1_blocks(3) in \<open>auto simp: frame_ok_def\<close>)
  obtain s2 where 2: "map_raw VA_D1_B p1 RWAD 0 s1 = Ret s2" "zmmu_ok s2" "entry_at s2 VA_D1_B = (0, ?eB)" "ztlb s2 = []"
    "same_env s1 s2" "\<And>x. x \<notin> zpool_words s1 \<Longrightarrow> mem s2 x = mem s1 x" "entry_at s2 VA_D1_A = (0, ?eA)"
    by (rule raw_page_run [OF 1(2), of p1 VA_D1_B RWAD])
      (use 0 1 f1 RWAD_flags d1_blocks(2) in \<open>auto simp: frame_ok_def same_env_def\<close>)
  have zp: "zpool_words s2 = zpool_words s" "mmu_tables s2 = mmu_tables s" using 0 1(4) 2(5) by (simp_all add: same_env_def)
  have m2: "mem s2 p0 = 0xAAAAAAAA00000001" "mem s2 p1 = 0xBBBBBBBB00000002" "mem s2 p2 = 0xAAAAAAAA00000003"
    using 0(3) 1(4,5) 2(6) f0 f1 f2 m0 by (simp_all add: same_env_def)
  let ?t = "after_access VA_D1_B 0 ?eB (after_access VA_D1_A 0 ?eA s2)"
  have uA: "used_entry Load VA_D1_A s2 = (0, ?eA)" using used_entry_fresh [of VA_D1_A s2 Load] 2 by simp
  have uB: "used_entry Load VA_D1_B (after_access VA_D1_A 0 ?eA s2) = (0, ?eB)"
    using used_entry_fresh [of VA_D1_B "after_access VA_D1_A 0 ?eA s2" Load] 2 d1_blocks by (simp add: cached_def)
  obtain a where a: "\<And>k. pte_lookup VA_D1_A k ?t = k a ?t" "a \<noteq> 0" "entry_at (st64 a ?eN ?t) VA_D1_A = (0, ?eN)"
    "entry_at (st64 a ?eN ?t) VA_D1_B = (0, ?eB)" "\<And>x. x \<notin> zpool_words s2 \<Longrightarrow> mem (st64 a ?eN ?t) x = mem s2 x"
    by (rule repoint [of ?t VA_D1_A ?eA ?eN]) (use 2 zp ok RWAD_flags d1_blocks(1) in auto)
  let ?f = "zfence_addr VA_D1_A (st64 a ?eN ?t)"
  note fs = same_tablesD [OF fence_addr_simps(3) [of "st64 a ?eN ?t" VA_D1_A]]
  have tl: "ztlb ?f = [(VA_D1_B, 0, ?eB)]" using fence_addr_simps(2) [OF d1_blocks(1), of "st64 a ?eN ?t"] 2(4) by simp
  have uN: "used_entry Load VA_D1_A ?f = (0, ?eN)" using used_entry_fresh [of VA_D1_A ?f Load] a(3) fs by simp
  have uC: "used_entry Load VA_D1_B (after_access VA_D1_A 0 ?eN ?f) = (0, ?eB)"
    using used_entry_fresh [of VA_D1_B "after_access VA_D1_A 0 ?eN ?f" Load] a(4) fs tl d1_blocks by (simp add: cached_def)
  have mf: "mem ?f p1 = 0xBBBBBBBB00000002" "mem ?f p2 = 0xAAAAAAAA00000003" using fs a(5) [of p1] a(5) [of p2] zp f1 f2 m2 by simp_all
  note loads = load_page [OF uA p1d_test_va(1) f0(2,3)] load_page [OF uB p1d_test_va(2) f1(2,3)]
    load_page [OF uN p1d_test_va(1) f2(2,3)] load_page [OF uC p1d_test_va(2) f1(2,3)]
  show ?thesis
    unfolding test_p1d_1_targeted_sfence_def leaf_rw p0_def [symmetric] p1_def [symmetric] p2_def [symmetric]
    by (simp add: block_Cons s0_def [symmetric] 1(1) 2(1) loads a zassert_def m2 mf passes_def)
qed

lemma stale_or_new:
  assumes ok: "zmmu_ok s" "0 < mmu_tables s" and fr: "p1d_frames pages s" and can: "can_map s 0 VA_D2"
  shows "passes (test_p1d_2_stale_tlb pages s)"
proof -
  define p3 p4 where "p3 = page_no pages 3" and "p4 = page_no pages 4"
  note f3 = p1d_frame [OF fr, of 3, folded p3_def] and f4 = p1d_frame [OF fr, of 4, folded p4_def]
  have ne: "p3 \<noteq> p4" using p1d_frame(5) [OF fr, of 4 3] by (simp add: p3_def p4_def)
  define s0 where "s0 = st64 p4 0x2222222222222222 (st64 p3 0x1111111111111111 s)"
  have 0: "zmmu_ok s0" "can_map s0 0 va = can_map s 0 va" "zpool_words s0 = zpool_words s" "mmu_tables s0 = mmu_tables s"
    "mem s0 p3 = 0x1111111111111111" "mem s0 p4 = 0x2222222222222222" for va
    using ok f3 f4 ne by (simp_all add: s0_def store_data)
  let ?eO = "phys_to_ppn p3 OR RWAD" and ?eN = "phys_to_ppn p4 OR RWAD"
  obtain s1 where 1: "map_raw VA_D2 p3 RWAD 0 s0 = Ret s1" "zmmu_ok s1" "entry_at s1 VA_D2 = (0, ?eO)" "ztlb s1 = []" "same_env s0 s1"
    "\<And>x. x \<notin> zpool_words s0 \<Longrightarrow> mem s1 x = mem s0 x"
    by (rule raw_page_run [OF 0(1), of p3 VA_D2 RWAD]) (use 0 can f3 RWAD_flags in \<open>auto simp: frame_ok_def\<close>)
  let ?t = "after_access VA_D2 0 ?eO s1"
  have u1: "used_entry Load VA_D2 s1 = (0, ?eO)" using used_entry_fresh [of VA_D2 s1 Load] 1 by simp
  obtain a where a: "\<And>k. pte_lookup VA_D2 k ?t = k a ?t" "a \<noteq> 0" "entry_at (st64 a ?eN ?t) VA_D2 = (0, ?eN)"
    "\<And>x. x \<notin> zpool_words s1 \<Longrightarrow> mem (st64 a ?eN ?t) x = mem s1 x"
    by (rule repoint [of ?t VA_D2 ?eO ?eN]) (use 0 1 ok RWAD_flags in \<open>auto simp: same_env_def\<close>)
  let ?m = "st64 a ?eN ?t"
  have mm: "mem ?m p3 = 0x1111111111111111" "mem ?m p4 = 0x2222222222222222"
    using a(4) [of p3] a(4) [of p4] 1(5,6) 0 f3 f4 by (simp_all add: same_env_def)
  have "used_entry Load VA_D2 ?m = (0, ?eN) \<or> used_entry Load VA_D2 ?m = (0, ?eO)"
    using used_entry_any [of Load VA_D2 ?m] a(3) 1(4) by (auto simp: cached_def)
  then obtain p where p: "used_entry Load VA_D2 ?m = (0, phys_to_ppn p OR RWAD)" "p = p3 \<or> p = p4" by blast
  have pa: "page_aligned p" "drop_bit 56 p = 0" using p(2) f3 f4 by auto
  let ?f = "zfence_addr VA_D2 (after_access VA_D2 0 (phys_to_ppn p OR RWAD) ?m)"
  note fs = same_tablesD [OF fence_addr_simps(3) [of "after_access VA_D2 0 (phys_to_ppn p OR RWAD) ?m" VA_D2]]
  have uN: "used_entry Load VA_D2 ?f = (0, ?eN)" using used_entry_fresh [of VA_D2 ?f Load] a(3) fs by simp
  have val: "mem ?m p = 0x1111111111111111 \<or> mem ?m p = 0x2222222222222222" using mm p(2) by blast
  have m1: "mem s1 p3 = 0x1111111111111111" "mem ?f p4 = 0x2222222222222222" using 1(6) 0 f3 fs mm by simp_all
  note loads = load_page [OF u1 p1d_test_va(3) f3(2,3)] load_page [OF p(1) p1d_test_va(3) pa] load_page [OF uN p1d_test_va(3) f4(2,3)]
  show ?thesis
    unfolding test_p1d_2_stale_tlb_def leaf_rw p3_def [symmetric] p4_def [symmetric]
    using val by (simp add: block_Cons s0_def [symmetric] 1(1) loads a zassert_def m1 passes_def del: mem_st64)
qed

section \<open>Many pages\<close>

definition d3_inv :: "u64 \<Rightarrow> 'z ztest_scheme \<Rightarrow> bool" where
  "d3_inv buf s \<longleftrightarrow> (\<forall>j < THRASH_COUNT. entry_at s (page_no VA_D3 j) = (0, phys_to_ppn (page_no buf j) OR RWAD) \<and>
     mem s (page_no buf j) = d3_val j \<and>
     (\<forall>x \<in> set (cached (page_no VA_D3 j) s). snd x = (0, phys_to_ppn (page_no buf j) OR RWAD)))"

lemma d3_region: "range_ok (2 ^ 38) VA_D3 THRASH_COUNT" "0 < j \<Longrightarrow> j < THRASH_COUNT \<Longrightarrow> vpn_ix 0 (page_no VA_D3 j) \<noteq> 0"
proof -
  show r: "range_ok (2 ^ 38) VA_D3 THRASH_COUNT"
    by (simp add: range_ok_def THRASH_COUNT_def VA_D3_def page_aligned_def take_bit_eq_mod)
  assume j: "0 < j" "j < THRASH_COUNT"
  have u: "uint (page_no VA_D3 j) = 4096 * (int j + 1680 * 512)"
    using uint_page_no [OF r _ j(2)] by (simp add: VA_D3_def)
  have "uint (vpn_ix 0 (page_no VA_D3 j)) = (int j + 1680 * 512) mod 512"
    unfolding uint_vpn_0 u by (simp only: nonzero_mult_div_cancel_left [of 4096])
  also have "\<dots> = int j" using j(2) by (simp only: mod_mult_self1) (simp add: THRASH_COUNT_def)
  finally have "uint (vpn_ix 0 (page_no VA_D3 j)) = int j" .
  with j(1) show "vpn_ix 0 (page_no VA_D3 j) \<noteq> 0" by auto
qed

lemma thrash_load:
  assumes r: "range_ok (2 ^ 56) buf THRASH_COUNT" and i: "i < THRASH_COUNT" and inv: "d3_inv buf s"
  shows "\<exists>s'. load_via p1d (page_no VA_D3 i) (\<lambda>val. zassert_equal val (d3_val i)) s = Ret s' \<and> d3_inv buf s'"
proof -
  note v = d3_region(1)
  let ?va = "page_no VA_D3 i" and ?e = "phys_to_ppn (page_no buf i) OR RWAD"
  have va: "test_va ?va"
    using uint_page_no [OF v _ i] page_no_aligned [OF v _ i] v i by (auto simp: test_va_def range_ok_def)
  have pa: "page_aligned (page_no buf i)" "drop_bit 56 (page_no buf i) = 0"
    using page_no_aligned [OF r _ i] uint_page_no [OF r _ i] r i by (auto simp: range_ok_def intro: drop_56_uint)
  from inv i have e: "entry_at s ?va = (0, ?e)" "mem s (page_no buf i) = d3_val i" "\<forall>x \<in> set (cached ?va s). snd x = (0, ?e)"
    by (auto simp: d3_inv_def)
  have u: "used_entry Load ?va s = (0, ?e)" using used_entry_fresh [of ?va s Load] e by simp
  have "snd x = (0, phys_to_ppn (page_no buf j) OR RWAD)"
    if "j < THRASH_COUNT" "x \<in> set (cached (page_no VA_D3 j) (after_access ?va 0 ?e s))" for j x
    using that inv page_no_other [OF v i that(1)] by (cases "i = j") (auto simp: cached_def d3_inv_def)
  then have "d3_inv buf (after_access ?va 0 ?e s)" using inv by (simp add: d3_inv_def)
  then show ?thesis using load_page [OF u va pa] e(2) by (simp add: zassert_def)
qed

definition p1d_row :: "u64 \<Rightarrow> 'z ztest_scheme \<Rightarrow> bool" where
  "p1d_row buf s \<longleftrightarrow> zmmu_ok s \<and> range_ok (2 ^ 56) buf THRASH_COUNT \<and>
     (\<forall>j < THRASH_COUNT. page_no buf j \<notin> zpool_words s) \<and> can_map s 0 VA_D3 \<and>
     (\<forall>j < THRASH_COUNT. path_clear (mem s) 2 2 (kernel_root s) (page_no VA_D3 j))"

lemma thrash:
  assumes "p1d_row buf s"
  shows "passes (test_p1d_3_tlb_thrash buf s)"
proof -
  have fr: "row_frames VA_D3 buf THRASH_COUNT s" and row: "row_ok VA_D3 buf RWAD d3_val 0 THRASH_COUNT s"
    and r: "range_ok (2 ^ 56) buf THRASH_COUNT"
    using assms d3_region by (simp_all add: p1d_row_def row_frames_def row_ok_def page_no_def [of _ 0])
  from map_pages_run [OF RWAD_flags(2) fr _ row] obtain s1 where
    1: "map_pages VA_D3 buf RWAD d3_val [0..<THRASH_COUNT] s = Ret s1" "row_ok VA_D3 buf RWAD d3_val THRASH_COUNT THRASH_COUNT s1"
    "ztlb s1 = []" by (auto simp: THRASH_COUNT_def)
  have inv: "d3_inv buf s1" using 1(2,3) by (simp add: d3_inv_def row_ok_def)
  have "\<exists>s'. block (map (\<lambda>i. load_via p1d (page_no VA_D3 i) (\<lambda>val. zassert_equal val (d3_val i))) [0..<THRASH_COUNT]) t = Ret s' \<and> d3_inv buf s'"
    if "d3_inv buf t" for t :: "'a ztest_scheme"
    by (rule block_loop [where P = "d3_inv buf"]) (use thrash_load [OF r] that in auto)
  then obtain s2 where "block (map (\<lambda>pass. block (map (\<lambda>i. load_via p1d (page_no VA_D3 i) (\<lambda>val. zassert_equal val (d3_val i)))
      [0..<THRASH_COUNT])) [0..<2]) s1 = Ret s2"
    using block_loop [where P = "d3_inv buf" and f = "\<lambda>pass. block (map (\<lambda>i. load_via p1d (page_no VA_D3 i) (\<lambda>val. zassert_equal val (d3_val i)))
      [0..<THRASH_COUNT])" and xs = "[0..<2]"] inv by blast
  then show ?thesis using 1(1) by (simp add: test_p1d_3_tlb_thrash_def block_Cons passes_def del: upt_Suc)
qed

text \<open>The device gigapage of the boot tables.\<close>

lemma gigapage:
  assumes "zmmu_ok s" "0 < mmu_tables s" "entry_at s 0x10000000 = (2, pte_leaf 0 (PTE_R OR PTE_W))"
  shows "passes (test_p1d_5_gigapage_leaf s)"
proof -
  let ?e = "pte_leaf 0 (PTE_R OR PTE_W)"
  obtain a where a: "zstop s 0x10000000 = (2, a)" "mem s a = ?e" using assms(3) by (auto simp: entry_at_def split: prod.splits)
  have sb: "same_block 2 0x10000000 0x02000000"
    unfolding same_block_def
  proof (intro allI impI)
    fix l :: nat assume "2 \<le> l \<and> l \<le> 2"
    then have "l = 2" by simp
    then show "vpn_ix l 0x10000000 = vpn_ix l 0x02000000" by (simp add: vpn_ix_def)
  qed
  have b: "zstop s 0x02000000 = (2, a)" by (rule zstop_block [OF a(1) sb])
  have v: "bit ?e 0" "bit ?e 1" by (simp_all add: bit_pte_leaf bit_simps flag_bits)
  note l = lookup_entry [OF assms(1,2) a(1)] lookup_entry [OF assms(1,2) b]
  show ?thesis
    using l a(2) v by (simp add: test_p1d_5_gigapage_leaf_def pte_lookup_def block_Cons zassert_def passes_def)
qed

section \<open>A superpage\<close>

lemma same_regionI: "drop_bit 21 a = drop_bit 21 b \<Longrightarrow> same_block 1 a b"
proof -
  assume d: "drop_bit 21 a = drop_bit 21 b"
  have e: "drop_bit (12 + 9 * l) w = drop_bit (9 * (l - 1)) (drop_bit 21 w)" if "1 \<le> l" for l and w :: u64
    using that by (simp add: diff_mult_distrib2)
  show ?thesis
    unfolding same_block_def vpn_ix_def
  proof (intro allI impI)
    fix l :: nat assume "1 \<le> l \<and> l \<le> 2"
    then show "drop_bit (12 + 9 * l) a AND mask 9 = drop_bit (12 + 9 * l) b AND mask 9" using e d by metis
  qed
qed

lemma mega_offset:
  assumes "off < 0x200000"
  shows "take_bit 21 (VA_D4 + off) = off" "same_block 1 VA_D4 (VA_D4 + off)" "va_canonical (VA_D4 + off)"
    "image_base OR off = image_base + off"
proof -
  have o: "uint off < 2 ^ 21" using assms by (simp add: word_less_def)
  then have u: "uint (VA_D4 + off) = 2 ^ 21 * 1793 + uint off" by (simp add: VA_D4_def uint_word_ariths)
  have "uint (take_bit 21 (VA_D4 + off)) = (2 ^ 21 * 1793 + uint off) mod 2 ^ 21"
    unfolding unsigned_take_bit_eq u [symmetric] by (simp add: take_bit_eq_mod uint_mod)
  also have "\<dots> = uint off" using o by (simp only: mod_mult_self4) simp
  finally have "uint (take_bit 21 (VA_D4 + off)) = uint off" .
  then show "take_bit 21 (VA_D4 + off) = off" by (simp add: word_uint_eq_iff)
  have "(2 ^ 21 * 1793 + uint off) div 2 ^ 21 = 1793" by (intro int_div_pos_eq [of _ _ _ "uint off"]) (use o in auto)
  then have "drop_bit 21 (VA_D4 + off) = drop_bit 21 VA_D4"
    using u by (simp add: word_uint_eq_iff drop_bit_eq_div uint_div) (simp add: VA_D4_def)
  then show "same_block 1 VA_D4 (VA_D4 + off)" by (intro same_regionI) simp
  show "va_canonical (VA_D4 + off)" by (rule canonical_low_uint) (use u o in simp)
  have ob: "\<not> bit off n" if "21 \<le> n" for n
  proof -
    have "take_bit 21 off = off" using o by (simp add: word_uint_eq_iff unsigned_take_bit_eq take_bit_int_eq_self_iff)
    then show ?thesis using that by (metis bit_take_bit_iff not_less)
  qed
  have b: "image_base = 2 ^ 31" by (simp add: image_base_def)
  have "n = 31" if "bit image_base n" for n using that unfolding b bit_exp_iff by blast
  then have "\<not> (bit image_base n \<and> bit off n)" for n using ob [of n] by fastforce
  then have "image_base AND off = 0" by (intro bit_word_eqI) (simp add: bit_and_iff)
  then show "image_base OR off = image_base + off" by (simp add: disjunctive_add_eq_or)
qed

definition mega_inv :: "(u64 \<Rightarrow> u64) \<Rightarrow> u64 \<Rightarrow> 'z ztest_scheme \<Rightarrow> bool" where
  "mega_inv m e s \<longleftrightarrow> zmmu_ok s \<and> 0 < mmu_tables s \<and> mem s = m \<and> entry_at s VA_D4 = (1, e) \<and> (\<forall>x \<in> set (ztlb s). snd x = (1, e))"

abbreviation RAD :: u64 where
  "RAD \<equiv> PTE_V OR PTE_R OR PTE_A OR PTE_D"

lemma mega_xlat:
  assumes "off < 0x200000"
  shows "entry_xlat c Load (VA_D4 + off) 1 (phys_to_ppn image_base OR RAD) = Some (image_base + off)"
proof -
  have lf: "leaf_flags RAD" by (auto simp: leaf_flags_def bit_simps flag_bits)
  have al: "page_aligned image_base" "drop_bit 56 image_base = 0" by (simp_all add: image_base_def page_aligned_def take_bit_eq_mod)
  have t: "pte_target (phys_to_ppn image_base OR RAD) = image_base"
    by (rule raw_target [OF al(1)]) (use lf in \<open>simp add: leaf_flags_def\<close>)
  have "pte_allows c Load RAD" "pte_ad_ok c Load RAD" by (simp_all add: pte_allows_def pte_ad_ok_def bit_simps flag_bits)
  moreover have "take_bit 21 image_base = 0" by (simp add: image_base_def take_bit_eq_mod)
  ultimately show ?thesis
    using raw_leaf [OF lf al(2)] mega_offset [OF assms] by (simp add: entry_xlat_def leaf_xlat_def leaf_aligned_def t raw_ad)
qed

lemma mega_load:
  assumes inv: "mega_inv m (phys_to_ppn image_base OR RAD) s" and off: "off < 0x200000"
  obtains s' where "\<And>k. load_via p1d (VA_D4 + off) k s = k (m (image_base + off)) s'" "mega_inv m (phys_to_ppn image_base OR RAD) s'"
proof -
  let ?e = "phys_to_ppn image_base OR RAD" and ?va = "VA_D4 + off"
  from inv have i: "mem s = m" "entry_at s VA_D4 = (1, ?e)" "\<forall>x \<in> set (ztlb s). snd x = (1, ?e)" by (auto simp: mega_inv_def)
  from i(2) obtain a where a: "zstop s VA_D4 = (1, a)" "mem s a = ?e" by (auto simp: entry_at_def split: prod.splits)
  have "entry_at s ?va = (1, ?e)" using zstop_block [OF a(1) mega_offset(2) [OF off]] a(2) by (simp add: entry_at_def)
  then have u: "used_entry Load ?va s = (1, ?e)"
    using used_entry_fresh [of ?va s Load] i(3) by (auto simp: cached_def)
  have nad: "\<not> needs_ad Load ?e" by (simp only: raw_ad) (simp add: needs_ad_def bit_simps flag_bits)
  have z: "zaccess code Load ?va s = Some (Some (image_base + off), after_access ?va 1 ?e s)" for code
    by (rule zaccess_hit [OF u mega_xlat [OF off] nad])
  show thesis
  proof (rule that [of "after_access ?va 1 ?e s"])
    show "load_via p1d ?va k s = k (m (image_base + off)) (after_access ?va 1 ?e s)" for k
      using i(1) by (simp add: load_via_def access_then_def z)
    show "mega_inv m ?e (after_access ?va 1 ?e s)" using inv by (simp add: mega_inv_def)
  qed
qed

lemma d4_offs_small:
  assumes "0x80001000 \<le> z_mapped_end" "z_mapped_end \<le> 0x80200000" "off \<in> set (d4_offs z_mapped_end)"
  shows "off < 0x200000"
proof -
  define span where "span = z_mapped_end - image_base"
  have sp: "uint span = uint z_mapped_end - 0x80000000"
    using assms(1,2) by (simp add: span_def image_base_def uint_word_ariths word_le_def)
  then have b: "0x1000 \<le> uint span" "uint span \<le> 0x200000" using assms(1,2) by (simp_all add: word_le_def)
  have le: "x AND NOT 7 \<le> x" for x :: u64 by (rule word_and_le2)
  have "uint (span div 2) < 0x200000" using b by (simp add: uint_div)
  then have 1: "(span div 2) AND NOT 7 < 0x200000" using le [of "span div 2"] by (simp add: word_less_def word_le_def)
  have "uint (span - 0x1000) = uint span - 0x1000" using b by (simp add: uint_word_ariths)
  then have 2: "(span - 0x1000) AND NOT 7 < 0x200000"
    using b le [of "span - 0x1000"] by (simp add: word_less_def word_le_def)
  show ?thesis using assms(3) 1 2 by (auto simp: d4_offs_def Let_def span_def)
qed

lemma megapage:
  assumes ok: "zmmu_ok s" "0 < mmu_tables s" "can_map s 1 VA_D4" and e: "0x80001000 \<le> z_mapped_end" "z_mapped_end \<le> 0x80200000"
    and im: "image_base \<notin> zpool_words s" "mem s image_base \<noteq> 0"
  shows "passes (test_p1d_4_megapage_2mb z_mapped_end s)"
proof -
  let ?e = "phys_to_ppn image_base OR RAD"
  have al: "span_aligned 1 VA_D4" "span_aligned 1 image_base" by (simp_all add: span_aligned_def p1d_vas image_base_def take_bit_eq_mod)
  have nb: "\<not> is_branch ?e" by (simp only: raw_branch) (simp add: is_branch_def bit_simps flag_bits)
  obtain s' where m: "map_raw VA_D4 image_base RAD 1 s = Ret (zfence s')" and w: "leaf_written 1 VA_D4 ?e s s'"
    and en: "entry_at s' VA_D4 = (1, ?e)"
    by (rule map_raw_run [OF ok(1) _ al ok(3) nb]) auto
  have only: "tables_only s s'" using w by (simp add: leaf_written_def)
  have inv: "mega_inv (mem s') ?e (zfence s')"
    using w en ok(2) tables_onlyD [OF only] by (simp add: mega_inv_def leaf_written_def)
  have nz: "mem s' image_base \<noteq> 0" using written_data [OF w im(1)] im(2) by simp
  obtain s1 where 1: "\<And>k. load_via p1d VA_D4 k (zfence s') = k (mem s' image_base) s1" "mega_inv (mem s') ?e s1"
    by (rule mega_load [OF inv, of 0]) auto
  have "\<exists>t'. load_via p1d (VA_D4 + off) (\<lambda>val. zassert (\<lambda>s. val = mem s (image_base + off))) t = Ret t' \<and> mega_inv (mem s') ?e t'"
    if "off \<in> set (d4_offs z_mapped_end)" "mega_inv (mem s') ?e t" for off and t :: "'a ztest_scheme"
    by (rule mega_load [OF that(2) d4_offs_small [OF e that(1)]]) (simp add: zassert_def mega_inv_def)
  then obtain s2 where 2: "block (map (\<lambda>off. load_via p1d (VA_D4 + off) (\<lambda>val. zassert (\<lambda>s. val = mem s (image_base + off))))
      (d4_offs z_mapped_end)) s1 = Ret s2" "mega_inv (mem s') ?e s2"
    using block_loop [where P = "mega_inv (mem s') ?e" and xs = "d4_offs z_mapped_end"
      and f = "\<lambda>off. load_via p1d (VA_D4 + off) (\<lambda>val. zassert (\<lambda>s. val = mem s (image_base + off)))", OF _ 1(2)] by blast
  obtain s3 where 3: "\<And>k. load_via p1d (VA_D4 + 0x1FF000) k s2 = k (mem s' (image_base + 0x1FF000)) s3" "mega_inv (mem s') ?e s3"
    by (rule mega_load [OF 2(2), of "0x1FF000"]) auto
  from 3(2) have ok3: "zmmu_ok s3" "0 < mmu_tables s3" "entry_at s3 VA_D4 = (1, ?e)" by (auto simp: mega_inv_def)
  have v: "(1 :: nat) = 0 \<or> bit ?e 0" by (simp add: bit_raw bit_simps flag_bits)
  obtain a where a: "\<And>k. pte_lookup VA_D4 k s3 = k a s3" "a \<noteq> 0" "zstop s3 VA_D4 = (1, a)" "mem s3 a = ?e"
    by (rule lookup_run [OF ok3 v]) auto
  have far: "zstop s3 (VA_D4 + 0x1FF000) = (1, a)"
    by (rule zstop_block [OF a(3)]) (rule mega_offset(2), simp)
  have same: "z_riscv_mmu_pte_lookup (VA_D4 + 0x1FF000) s3 = a"
    by (rule lookup_entry(1) [OF ok3(1,2) far]) (use v a(4) in simp)
  have "bit ?e 1" by (subst bit_raw) (simp_all add: bit_simps flag_bits)
  moreover have "\<not> bit ?e 2" by (subst bit_raw) (simp_all add: bit_simps flag_bits)
  ultimately have fl: "x = ?e \<Longrightarrow> x AND PTE_R \<noteq> 0 \<and> x AND PTE_W = 0" for x by (simp add: and_flags)
  show ?thesis
    unfolding test_p1d_4_megapage_2mb_def using m 1(1) 2(1) 3(1) a same fl nz
    by (simp add: block_Cons zassert_def passes_def)
qed

text \<open>What the suite relies on: well-formed tables with room, backing pages outside them, the boot
  mapping of the device gigabyte, an image that fits the megapage and starts with an instruction.\<close>

definition p1d_ready :: "u64 \<Rightarrow> u64 \<Rightarrow> u64 \<Rightarrow> 'z ztest_scheme \<Rightarrow> bool" where
  "p1d_ready pages thrash_buf z_mapped_end s \<longleftrightarrow> zmmu_ok s \<and> 0 < mmu_tables s \<and> p1d_frames pages s \<and> p1d_row thrash_buf s \<and>
     can_map s 0 VA_D1_A \<and> can_map s 0 VA_D1_B \<and> can_map s 0 VA_D2 \<and> can_map s 1 VA_D4 \<and>
     0x80001000 \<le> z_mapped_end \<and> z_mapped_end \<le> 0x80200000 \<and> image_base \<notin> zpool_words s \<and> mem s image_base \<noteq> 0 \<and>
     entry_at s 0x10000000 = (2, pte_leaf 0 (PTE_R OR PTE_W))"

text \<open>
  C11. Phase 1D on a hart that translates as Sv39 says, whatever entries its translation cache keeps and
  whichever of them it uses: re-pointing a leaf with a flush of that address alone shows the new page and
  leaves the other address as it was; without a flush the old or the new page is read, after the
  flush the new one; 128 pages read back twice; a two-megabyte leaf translates all of its region; the device
  gigabyte has one leaf.
\<close>

theorem p1d_tests_pass:
  assumes "p1d_ready pages thrash_buf z_mapped_end s"
  shows "passes (test_p1d_1_targeted_sfence pages s) \<and> passes (test_p1d_2_stale_tlb pages s) \<and>
    passes (test_p1d_3_tlb_thrash thrash_buf s) \<and> passes (test_p1d_4_megapage_2mb z_mapped_end s) \<and>
    passes (test_p1d_5_gigapage_leaf s)"
  using assms targeted_flush [of s pages] stale_or_new [of s pages] thrash [of thrash_buf s] megapage [of s z_mapped_end]
    gigapage [of s] by (simp add: p1d_ready_def)

text \<open>A stage with the device gigapage in the root and a first instruction in the image.\<close>

definition demo_boot :: ztest where
  "demo_boot = st64 image_base 0x297 (st64 0x80010000 (pte_leaf 0 (PTE_R OR PTE_W)) demo_test)"

lemma demo_boot_pool: "zpool_words demo_boot = zpool_words demo_test" "image_base \<notin> zpool_words demo_test"
proof -
  show "zpool_words demo_boot = zpool_words demo_test" by (simp add: demo_boot_def)
  show "image_base \<notin> zpool_words demo_test"
  proof
    assume "image_base \<in> zpool_words demo_test"
    then obtain i j where i: "i < 8" and j: "j < 512" and e: "image_base = slot (table_at demo_test i) j"
      by (auto simp: zpool_words_def table_words_def demo_root_def demo_pool_def)
    have po: "zpool_ok demo_test" using demo_zpool_ok(2) by (simp add: zpool_ok_def)
    have i': "i < length (mmu_table_used demo_test)" using i by (simp add: demo_root_def demo_pool_def)
    have al: "page_aligned image_base" by (simp add: image_base_def page_aligned_def take_bit_eq_mod)
    have "image_base = table_at demo_test i"
      using slot_inj [OF al _ table_at_page(1) [OF po i'] j, of 0] e by (simp add: slot_def)
    then have "uint image_base = 0x80010000 + 4096 * int i"
      using uint_table_at [OF po i'] by (simp add: demo_root_def demo_pool_def)
    then show False by (simp add: image_base_def)
  qed
qed

lemma demo_boot_ok: "zmmu_ok demo_boot" "entry_at demo_boot 0x10000000 = (2, pte_leaf 0 (PTE_R OR PTE_W))" "0 < mmu_tables demo_boot"
  "mem demo_boot image_base \<noteq> 0"
proof -
  have v0: "vpn_ix 2 0x10000000 = 0" by (simp add: vpn_ix_def)
  have st: "zstop demo_test 0x10000000 = (2, 0x80010000)"
    using v0 unfolding zstop_def numeral_2_eq_2 by (simp add: demo_root_def demo_pool_def is_branch_def slot_def)
  note se = store_entry [OF demo_test_ok(1) st not_branch_leaf [OF perm_ok_kernel(1)], of 0]
  have out: "image_base \<notin> zpool_words (st64 0x80010000 (pte_leaf 0 (PTE_R OR PTE_W)) demo_test)" using demo_boot_pool by simp
  note sd = store_data [OF se(1) out]
  show "zmmu_ok demo_boot" "entry_at demo_boot 0x10000000 = (2, pte_leaf 0 (PTE_R OR PTE_W))"
    using sd(1,3) se(3) by (simp_all add: demo_boot_def)
  show "0 < mmu_tables demo_boot" "mem demo_boot image_base \<noteq> 0" by (simp_all add: demo_boot_def)
qed

lemma demo_boot_can_map: "vpn_ix 2 va = 3 \<Longrightarrow> can_map demo_boot level va" "vpn_ix 2 va = 3 \<Longrightarrow> path_clear (mem demo_boot) k 2 (kernel_root demo_boot) va"
proof -
  assume v: "vpn_ix 2 va = 3"
  have m: "mem demo_boot (slot (kernel_root demo_boot) (vpn_ix 2 va)) = 0"
    by (simp add: v demo_boot_def slot_def demo_root_def demo_pool_def image_base_def)
  show pc: "path_clear (mem demo_boot) k 2 (kernel_root demo_boot) va" for k using m by (cases k) (simp_all add: Let_def)
  have "zroom demo_boot = 7" using demo_test_ok(2) by (simp add: demo_boot_def)
  then show "can_map demo_boot level va"
    using pc [of "2 - level"] missing_tables_le [of "mem demo_boot" "2 - level" 2 "kernel_root demo_boot" va]
    by (simp add: can_map_def)
qed

theorem p1d_tests_pass_witness:
  "p1d_ready 0x80200000 0x80300000 0x80100000 demo_boot \<and> passes (test_p1d_2_stale_tlb 0x80200000 demo_boot) \<and>
   passes (test_p1d_4_megapage_2mb 0x80100000 demo_boot)"
proof -
  have pool: "page_no p j \<notin> zpool_words demo_boot" if "range_ok (2 ^ 56) p n" "0x80200000 \<le> p" "j < n" for p n j
    unfolding demo_boot_pool
    by (rule demo_test_pool)
      (use page_no_aligned [OF that(1) _ that(3)] uint_page_no [OF that(1) _ that(3)] that(2) in \<open>simp_all add: word_le_def\<close>)
  have r: "range_ok (2 ^ 56) 0x80200000 5" "range_ok (2 ^ 56) 0x80300000 THRASH_COUNT"
    by (simp_all add: range_ok_def THRASH_COUNT_def page_aligned_def take_bit_eq_mod)
  have v: "vpn_ix 2 VA_D1_A = 3" "vpn_ix 2 VA_D1_B = 3" "vpn_ix 2 VA_D2 = 3" "vpn_ix 2 VA_D4 = 3" "vpn_ix 2 VA_D3 = 3"
    by (simp_all add: p1d_vas vpn_ix_def flip: mask9_u64)
  have "vpn_ix 2 (page_no VA_D3 j) = 3" if "j < THRASH_COUNT" for j
  proof -
    have "uint (page_no VA_D3 j) = 0xD2000000 + 4096 * int j"
      using uint_page_no [OF d3_region(1) _ that] by (simp add: VA_D3_def)
    moreover have "j < 128" using that by (simp add: THRASH_COUNT_def)
    ultimately have "drop_bit 30 (page_no VA_D3 j) = 3" by (simp add: drop_30_uint div_gigapage)
    then show ?thesis using gigapage_index [of 3 "page_no VA_D3 j"] by simp
  qed
  then have row: "p1d_row 0x80300000 demo_boot"
    using demo_boot_ok(1) demo_boot_can_map(1) [OF v(5)] demo_boot_can_map(2) pool [OF r(2)] r(2) by (simp add: p1d_row_def)
  have "p1d_ready 0x80200000 0x80300000 0x80100000 demo_boot"
    using row demo_boot_ok demo_boot_can_map(1) [OF v(1)] demo_boot_can_map(1) [OF v(2)] demo_boot_can_map(1) [OF v(3)]
      demo_boot_can_map(1) [OF v(4)] demo_boot_pool r(1) pool [OF r(1)]
    by (simp add: p1d_ready_def p1d_frames_def)
  then show ?thesis using p1d_tests_pass by blast
qed

end
