(* ===== verification/Spec2Isabelle.thy ===== *)
theory Spec2Isabelle
  imports Boot BarePhase2 BareAtomics BareDual App DualCore QemuPort ZDualTests ZSanityTests ZAtomicTests ZEnableTests ZAllocTests ZIrqTests ZTlbTests
begin

text \<open>
  \<^bold>\<open>A verification of the RISC-V bring-up test suite and of its Zephyr port.\<close>

  \<^bold>\<open>The program.\<close> The repository holds three programs that exercise the same hardware features of
  an RV64 hart (address translation, page faults, interrupts, atomics, a second core).

  \<^item> The bare-metal suite, \<^verbatim>\<open>src/rv64gcv-baremetal-testsuite-main\<close>. A small M-mode firmware
    (\<^verbatim>\<open>common/m_trap.c\<close> and the vectors of \<^verbatim>\<open>common/boot.S\<close>) answers SBI calls and turns
    machine interrupts into supervisor ones; an S-mode runtime (\<^verbatim>\<open>common/smode.c\<close>, \<^verbatim>\<open>common/test.h\<close>)
    prints, reports the verdict, builds Sv39 page tables, handles the supervisor's traps and hands work to
    core 1. The programs under \<^verbatim>\<open>tests/\<close> are its clients.
  \<^item> The copy of that runtime that runs under QEMU, \<^verbatim>\<open>src/baremetal/common\<close>.
  \<^item> The Zephyr port: a patch that gives the kernel Sv39 support
    (\<^verbatim>\<open>src/zephyr-changes/zephyr-riscv-port.patch\<close>, in it \<^verbatim>\<open>arch/riscv/core/mmu.c\<close> and the resolver
    hook of \<^verbatim>\<open>fatal.c\<close>), the suites of \<^verbatim>\<open>src/zephyr-suite\<close> that test it through the kernel's
    interfaces, and an example application with two drivers (\<^verbatim>\<open>src/app\<close>, \<^verbatim>\<open>src/drivers\<close>).

  \<^bold>\<open>How the theories correspond to the code.\<close>

  \<^item> \<open>Prelude\<close>, \<open>Platform\<close>: machine words, C's int with its wrap-around, bit facts; the constants of
    \<^verbatim>\<open>common/platform.h\<close>. \<open>Run\<close>: how a C statement ends (returns, stops after a verdict, polls forever).
  \<^item> \<open>Memory\<close>: physical memory as a map of aligned words; every later state record extends it.
    \<open>Sv39\<close>: the architecture's translation, the specification of both page-table modules.
  \<^item> \<open>Tables\<close>, \<open>Table_Map\<close>, \<open>Table_Entry\<close>: building table trees over any allocator. The locale
    \<open>table_alloc\<close> states what an allocator promises; it is interpreted by \<open>pt_alloc_page\<close> of
    \<^verbatim>\<open>smode.c\<close> (\<open>pool\<close>) and by \<open>alloc_table\<close> of \<^verbatim>\<open>mmu.c\<close> (\<open>zpool\<close>), so the effect of a mapping on
    the address space is proved once for both.
  \<^item> \<open>PageTable\<close>, \<open>AddressSpace\<close>: \<open>pt_alloc_page\<close>, \<open>pt_setup_identity_kernel\<close>, \<open>pt_map_page\<close>,
    \<open>pt_walk\<close> of \<^verbatim>\<open>smode.c\<close> and what they mean to the hardware.
  \<^item> \<open>Device\<close>, \<open>Console\<close>: the streams of answers of UART and host; the printing functions, both character
    outputs, the verdict words and the assertion macros.
  \<^item> \<open>Hart\<close>, \<open>MTrap\<close>, \<open>STrap\<close>: CSRs and CLINT in one record; the CSR helpers, \<open>m_trap_handler\<close>,
    \<open>s_trap_handler\<close>, the two assembly vectors, the SBI calls, \<open>mmu_enable_sv39\<close>, \<open>s_mode_entry\<close>.
  \<^item> \<open>QemuPort\<close>: the functions of the QEMU copy whose text or callees differ (suffix \<open>_q\<close>).
  \<^item> \<open>Atomics\<close>: AMOs, LR/SC with an adversarial reservation, compare-and-swap of \<^verbatim>\<open>test.h\<close>.
  \<^item> \<open>Interleave\<close>, \<open>DualCore\<close>: reachability, invariants and progress of step relations (two locales); the
    park loop of core 1 and \<open>wake_core1_smode\<close> as interleaved steps with the interrupts between them.
  \<^item> \<open>BareAccess\<close>: the hart on which a bare-metal test program runs: an access of the program goes through
    the translation that \<open>satp\<close> selects, by the tables or by an arbitrarily chosen cached entry, and a fault
    through the runtime's vector and handler. \<open>BareLogic\<close>: what a program knows of this state (a \<open>view\<close>) and
    a rule per statement that says how the view changes. \<open>BareRows\<close>: loops that map and
    read a row of pages (locale \<open>page_row\<close>, interpreted by the loops of phases 1C and 1D). \<open>BareEnable\<close>,
    \<open>BareRepair\<close>, \<open>BareFault\<close>, \<open>BareTlb\<close>: \<^verbatim>\<open>tests/p1a_mmu_enable.c\<close>, \<^verbatim>\<open>tests/p1c_fault_handle.c\<close>,
    \<^verbatim>\<open>tests/p1b_fault_gen.c\<close> and \<^verbatim>\<open>tests/p1d_tlb_ptw.c\<close>; \<open>BarePrograms\<close>: the four from the entry point to the verdict.
  \<^item> \<open>BareHoare\<close>: total correctness of programs that run without translation. \<open>BareSanity\<close>, \<open>BareAtomics\<close>:
    \<^verbatim>\<open>tests/p0_sanity.c\<close> and \<^verbatim>\<open>tests/p3_atomics.c\<close>.
  \<^item> \<open>Duo\<close>: two cores that run straight lines of atomic actions (locale \<open>duo_test\<close>: what makes every interleaving pass).
    \<open>BareDual\<close>: \<^verbatim>\<open>tests/p4_dualcore.c\<close>, an interpretation of that locale per test.
  \<^item> \<open>Boot\<close>: the reset path of \<^verbatim>\<open>boot.S\<close> for both harts, the images from reset to verdict, and the two harts leaving reset on one
    memory, which holds the variables of \<open>DualCore\<close> among the words hart 0 clears.
  \<^item> \<open>BareTime\<close>: a hart to which time passes; the interrupts that are then taken, through firmware and S-mode handler, as
    a refinement of a small state machine. \<open>BareIrqLogic\<close>: rules for programs on such a hart, on the model of \<open>BareHoare\<close>; \<open>BareIrqView\<close>: the same
    with translation on, on the views of \<open>BareLogic\<close>. \<open>BareInterrupts\<close>, \<open>BareMasked\<close>, \<open>BarePhase2\<close>: \<^verbatim>\<open>tests/p2_interrupts.c\<close>; the definitions
    of the whole program are in the first.
  \<^item> \<open>ZMmu\<close>, \<open>ZSpace\<close>, \<open>ZRange\<close>, \<open>ZInit\<close>: the kernel's \<^verbatim>\<open>mmu.c\<close>, what one mapping, a range of
    pages and the boot-time set-up do to the address space.
  \<^item> \<open>ZTest\<close>, \<open>ZPages\<close>: a hart with a translation cache running on these tables, the page-fault path of
    the patched \<open>z_riscv_fault\<close>, the test framework's verdicts.
    \<open>ZEnableTests\<close>, \<open>ZFaultTests\<close>, \<open>ZRetryTests\<close>, \<open>ZTlbTests\<close>: the suites of phases 1A, 1B,
    1C (with the resolver of phase 2) and 1D. \<open>ZAllocTests\<close>: the tests of phase 1B on pages of the kernel's
    allocator, for every allocator that maps and unmaps with the functions of \<^verbatim>\<open>mmu.c\<close>. \<open>ZIrqTests\<close>: phase 2, with the deliveries of the timer interrupt as
    parameters. \<open>ZSanityTests\<close>: phase 0, on memory that may be broken. \<open>ZAtomicTests\<close>: phase 3, over any atomic
    API (locale \<open>atomic_api\<close>, interpreted by the bare-metal suite's instructions).
  \<^item> \<open>ZThreads\<close>: the test thread of phase 4 interleaved with two pinned workers; the locales \<open>worker_test\<close> and
    \<open>worker_test_live\<close> say what makes such a test never fail and always able to pass.
    \<open>Locking\<close>: the lock interface \<open>mutex\<close> (interpreted by the spin lock of the bare-metal
    \<^verbatim>\<open>tests/p4_dualcore.c\<close>), the counter under a lock, the atomic counter. \<open>ZDualTests\<close>: pinning, the buffer published
    by a flag (pending stores and early loads between the CPUs, the order of the atomic operations a parameter), the ping-pong of
    two semaphores.
  \<^item> \<open>App\<close>: the application loop and the sensor and blink drivers.

  \<^bold>\<open>What is shown.\<close>

  \<^item> Page tables (both modules): the tables stay well formed, a mapping changes the address space on exactly
    the pages asked for and to exactly the frames and rights asked for, whatever tables it has to add; the
    software walks find the entry the hardware uses; unmapping undoes mapping; the boot-time tables are the
    identity space.
  \<^item> Traps: every branch of the handlers, from the trapping instruction through vector and handler back to the
    interrupted program; the repair of page faults, exactly when the retried access then translates, and where repair goes wrong (a livelock
    on user pages, a gigapage opened by the repair of an unmapped address). Interrupts: what the two handlers together do to the
    pending and enable bits, and that the interrupted program finds pc, registers and memory as they were.
  \<^item> The bare-metal programs of phases 0 and 1A to 1D, composed with reset path, page tables, trap path, console and verdicts:
    from reset they end in a pass, whatever memory and translation cache hold at the start and
    whether the hardware or the handler sets the A and D bits. Phase 3: its verdict as a function of the store-conditionals
    that fail. Phase 2: the image passes for every clock that advances at least once in 500 of the moments at which time passes, wherever the interrupts
    fall. Phase 4: each test passes in every interleaving; one reset between two tests can make the sequence hang. The reset path:
    what each hart has done when it leaves M-mode, and that the harts are not synchronised on the clearing of memory.
  \<^item> The Zephyr suites: on a hart that follows the architecture, with any caching of translations, each test of
    phases 1A to 1D passes; in particular the fix-and-retry loops end. The tests of phases 0 and 2 pass exactly on sound
    memory and for the right deliveries of interrupts. Those of phase 3 pass where the API is compiled to the
    instructions of \<^verbatim>\<open>test.h\<close>, except that the raw LR/SC test passes exactly if its store-conditionals do not fail. Those
    of phase 4 never fail under any interleaving, as long as threads can be pinned, no wait times out and no poll gives up, and can always
    still come to pass; the ping-pong ends after at most 106 moves. The two tests of the published buffer need the order
    of the atomic operations for that: without release or without acquire a run exists in which they fail.
  \<^item> The second core: each posted function is called once and in order if core 0 waits for the reset; whether and when a function at
    the target is called, by where core 1 is; the two ways in which a task is lost.
  \<^item> Console, verdicts, atomics, application: round trips of what is printed and reported, isolation of the
    32-bit atomics, termination of compare-and-swap, the invariant of the application loop.

  \<^bold>\<open>Bounds and loops.\<close> Integers keep their width. A polling loop on a device reads a stream of answers and is
  \<open>Hang\<close> if the stream never gives the awaited one; \<open>cas_loop\<close> and the retry loops \<open>zaccess\<close> and
  \<open>hart_access\<close> are
  partial functions into option, and the theorems about them prove that they return. The loops of phase 2 count down,
  as in the source; the theorem needs the clock to keep its pace for 3000000 moments, a bound on the length of the whole
  program. No fuel is used; the 32-bit counters of the suites wrap, and the theorems that need it assume fewer than 2^31 interrupts. The Zephyr
  pool holds as many tables as the patch configures; a theorem that maps pages states how many free tables it
  needs and the witnesses show it on the real pool size.

  \<^bold>\<open>Not modelled.\<close> In phase 2 interrupts are taken between statements and between the iterations of a loop, not within a statement, and not
  while the handlers or the console functions run. A trap to S-mode (\<open>s_take\<close>) enters the runtime's S-mode vector: the reset path
  delegates the page faults, and \<open>s_mode_entry\<close> installs that vector before a test program runs. In the other bare-metal
  programs no interrupt arrives. In phase 4 of the bare-metal suite memory is sequentially consistent: its fences have no effect. The translation of the runtime's own accesses (tables, trap
  frame, UART), which lie in identity-mapped memory. The spin lock
  around the kernel's table updates: the functions are the single-core view. The services of the Zephyr kernel (threads,
  locks, semaphores, atomics, timers, the page allocator \<open>k_mem_map\<close>, the SBI firmware) are not in the repository: they are parameters, with what their
  documentation promises as hypotheses. The test of phase 0 that only
  prints. Log output, build files, device trees and configuration.
\<close>

end
